(* ===== verification/Skir_Prelude.thy ===== *)
theory Skir_Prelude
  imports Main "HOL-Library.Word"
begin

section \<open>Shared types and lemmas\<close>

text \<open>
  The machine integers, the outcome type of the stream operations, byte memory with
  bounds, and the generic facts the components share: modular arithmetic of a ring of
  slots, equal-sized chunks of a byte list, and 64-bit additions that do not wrap.
  \<open>size_t\<close> and \<open>unsigned long long\<close> are 64-bit words, \<open>unsigned\<close> is a 32-bit word and
  \<open>int\<close> fields are mathematical integers (signed overflow is undefined in C++, and no
  operation modelled here relies on it).  Pointers to heap objects are handles of type
  \<open>ptr\<close>; a null pointer is \<open>None\<close> where the code tests for it.
\<close>

type_synonym byte = "8 word"
type_synonym size_t = "64 word"
type_synonym uint32 = "32 word"
type_synonym uint64 = "64 word"
type_synonym ptr = nat

named_theorems ring_simps \<open>arithmetic of ring positions and chunks\<close>
named_theorems outcome_simps \<open>evaluation of sequenced operations\<close>

subsection \<open>Outcomes\<close>

text \<open>
  An operation finishes with a value, stops because it would block on a neighbouring
  kernel, or leaves the defined behaviour of the program (\<open>Fault\<close>: an access outside an
  object or a failed assertion).
\<close>

datatype ('e, 'a) outcome = Done 'a | WouldBlock 'e 'e | Fault

fun bind_out :: "('e, 'a) outcome \<Rightarrow> ('a \<Rightarrow> ('e, 'b) outcome) \<Rightarrow> ('e, 'b) outcome" where
  "bind_out (Done x) f = f x"
| "bind_out (WouldBlock a b) f = WouldBlock a b"
| "bind_out Fault f = Fault"

declare bind_out.simps [outcome_simps]

lemma bind_out_assoc [outcome_simps]:
  "bind_out (bind_out r f) g = bind_out r (\<lambda>x. bind_out (f x) g)"
  by (cases r) simp_all

lemma bind_out_DoneE:
  assumes "bind_out r f = Done y"
  obtains x where "r = Done x" and "f x = Done y"
  using assms by (cases r) auto

text \<open>A failing assertion leaves the defined behaviour.\<close>

definition assert_out :: "bool \<Rightarrow> ('e, 'a) outcome \<Rightarrow> ('e, 'a) outcome" where
  "assert_out b r = (if b then r else Fault)"

lemma assert_out_simps [simp]: "assert_out True r = r" "assert_out False r = Fault"
  by (simp_all add: assert_out_def)

text \<open>A counted loop \<open>for (i = lo; i < hi; i++)\<close> over a state.\<close>

fun for_out :: "nat list \<Rightarrow> (nat \<Rightarrow> 's \<Rightarrow> ('e, 's) outcome) \<Rightarrow> 's \<Rightarrow> ('e, 's) outcome" where
  "for_out [] f s = Done s"
| "for_out (i # is) f s = bind_out (f i s) (for_out is f)"

lemma for_out_append [outcome_simps]:
  "for_out (xs @ ys) f s = bind_out (for_out xs f s) (for_out ys f)"
proof (induction xs arbitrary: s)
  case (Cons a xs)
  then show ?case by (cases "f a s") simp_all
qed simp

subsection \<open>Bounded byte memory\<close>

definition mem_get :: "byte list \<Rightarrow> size_t \<Rightarrow> nat \<Rightarrow> byte list option" where
  "mem_get m a n = (if unat a + n \<le> length m then Some (take n (drop (unat a) m)) else None)"

definition mem_put :: "byte list \<Rightarrow> size_t \<Rightarrow> nat \<Rightarrow> byte list \<Rightarrow> byte list option" where
  "mem_put m a n e =
     (if unat a + n \<le> length m \<and> n \<le> length e
      then Some (take (unat a) m @ take n e @ drop (unat a + n) m) else None)"

lemma length_mem_put: "mem_put m a n e = Some m' \<Longrightarrow> length m' = length m"
  by (auto simp: mem_put_def split: if_splits)

definition chunk :: "nat \<Rightarrow> byte list \<Rightarrow> nat \<Rightarrow> byte list" where
  "chunk e m j = take e (drop (e * j) m)"

lemma length_chunk: "e * j + e \<le> length m \<Longrightarrow> length (chunk e m j) = e"
  by (simp add: chunk_def)

lemma mem_get_chunk:
  "unat a = e * k \<Longrightarrow> e * k + e \<le> length m \<Longrightarrow> mem_get m a e = Some (chunk e m k)"
  by (simp add: mem_get_def chunk_def)

lemma slots_apart:
  assumes "j \<noteq> k" and "x < e" and "y < (e::nat)"
  shows "e * j + x \<noteq> e * k + y"
proof
  assume eq: "e * j + x = e * k + y"
  have "(e * j + x) div e = j" and "(e * k + y) div e = k"
    using assms by simp_all
  with eq assms(1) show False by simp
qed

lemma chunk_of_put:
  assumes put: "mem_put m a e x = Some m'" and a: "unat a = e * k" and e: "0 < e"
    and x: "length x = e" and j: "e * j + e \<le> length m"
  shows "chunk e m' j = (if j = k then x else chunk e m j)"
proof -
  from put have k: "e * k + e \<le> length m"
    and m': "m' = take (e * k) m @ x @ drop (e * k + e) m"
    using a x by (auto simp: mem_put_def split: if_splits)
  have nth_m': "m' ! i = (if e * k \<le> i \<and> i < e * k + e then x ! (i - e * k) else m ! i)"
    if "i < length m" for i
    using that k x unfolding m' by (auto simp: nth_append min_def)
  have len': "length m' = length m" by (rule length_mem_put [OF put])
  show ?thesis
  proof (rule nth_equalityI)
    show "length (chunk e m' j) = length (if j = k then x else chunk e m j)"
      using j x len' by (simp add: length_chunk)
  next
    fix i
    assume "i < length (chunk e m' j)"
    then have i: "i < e" using j len' by (simp add: length_chunk)
    have val: "chunk e m' j ! i = m' ! (e * j + i)" "chunk e m j ! i = m ! (e * j + i)"
      using i j len' by (simp_all add: chunk_def)
    show "chunk e m' j ! i = (if j = k then x else chunk e m j) ! i"
    proof (cases "j = k")
      case True
      then show ?thesis using i j val by (simp add: nth_m')
    next
      case False
      have "\<not> (e * k \<le> e * j + i \<and> e * j + i < e * k + e)"
      proof
        assume "e * k \<le> e * j + i \<and> e * j + i < e * k + e"
        then have "e * j + i = e * k + (e * j + i - e * k)" "e * j + i - e * k < e" by auto
        with slots_apart [OF False i] show False by metis
      qed
      then show ?thesis using False i j val by (auto simp: nth_m')
    qed
  qed
qed

subsection \<open>Positions in a ring of slots\<close>

definition ring_dist :: "nat \<Rightarrow> nat \<Rightarrow> nat \<Rightarrow> nat" where
  "ring_dist n t h = (h + n - t) mod n"

lemma ring_dist_cases:
  "t < n \<Longrightarrow> h < n \<Longrightarrow> ring_dist n t h = (if t \<le> h then h - t else h + n - t)"
  by (auto simp: ring_dist_def mod_if)

lemma ring_dist_less: "t < n \<Longrightarrow> h < n \<Longrightarrow> ring_dist n t h < n"
  by (simp add: ring_dist_def)

lemma ring_dist_0_iff: "t < n \<Longrightarrow> h < n \<Longrightarrow> ring_dist n t h = 0 \<longleftrightarrow> h = t"
  by (auto simp: ring_dist_cases)

lemma ring_succ: "(h::nat) < n \<Longrightarrow> Suc h mod n = (if Suc h = n then 0 else Suc h)"
  by (simp add: mod_if)

lemma ring_full_iff:
  "t < n \<Longrightarrow> h < n \<Longrightarrow> Suc h mod n = t \<longleftrightarrow> Suc (ring_dist n t h) = n"
  by (auto simp: ring_dist_cases ring_succ)

lemma ring_dist_push:
  "t < n \<Longrightarrow> h < n \<Longrightarrow> Suc h mod n \<noteq> t \<Longrightarrow>
    ring_dist n t (Suc h mod n) = Suc (ring_dist n t h)"
  by (auto simp: ring_dist_cases ring_succ split: if_splits)

lemma ring_dist_pop:
  "t < n \<Longrightarrow> h < n \<Longrightarrow> h \<noteq> t \<Longrightarrow>
    Suc (ring_dist n (Suc t mod n) h) = ring_dist n t h"
  by (auto simp: ring_dist_cases ring_succ split: if_splits)

lemma ring_pos_add: "(t::nat) < n \<Longrightarrow> i < n \<Longrightarrow> (t + i) mod n = (if t + i < n then t + i else t + i - n)"
  by (simp add: mod_if)

lemma ring_pos_ne_head:
  "t < n \<Longrightarrow> h < n \<Longrightarrow> i < ring_dist n t h \<Longrightarrow> (t + i) mod n \<noteq> h"
  using ring_dist_less [of t n h]
  by (auto simp: ring_dist_cases ring_pos_add split: if_splits)

lemma ring_pos_head: "t < n \<Longrightarrow> h < n \<Longrightarrow> (t + ring_dist n t h) mod n = h"
  by (auto simp: ring_dist_cases mod_if)

lemma ring_dist_add:
  "t < n \<Longrightarrow> c < n \<Longrightarrow> ring_dist n t ((t + c) mod n) = c"
  by (auto simp: ring_dist_def mod_if)

subsection \<open>Words that do not wrap\<close>

lemma unat_add_small:
  fixes x y :: "'a::len word"
  shows "unat x + unat y < 2 ^ LENGTH('a) \<Longrightarrow> unat (x + y) = unat x + unat y"
  by (simp add: unat_word_ariths)

lemma unat_mult_small:
  fixes x y :: "'a::len word"
  shows "unat x * unat y < 2 ^ LENGTH('a) \<Longrightarrow> unat (x * y) = unat x * unat y"
  by (simp add: unat_word_ariths)

lemma unat_uint32_less: "unat (x :: uint32) < 2 ^ 32"
proof -
  have "unat x < 2 ^ LENGTH(32)" by (rule unsigned_less)
  then show ?thesis by simp
qed

lemma unat_ucast_32_64 [simp]: "unat (ucast (x :: uint32) :: size_t) = unat x"
  using unat_uint32_less [of x] by (simp add: unsigned_ucast_eq take_bit_nat_eq_self)

lemma dvd_less_step:
  assumes "(e::nat) dvd a" and "e dvd b" and "a < b"
  shows "a + e \<le> b"
proof -
  from assms obtain x y where a: "a = e * x" and b: "b = e * y" by (auto elim!: dvdE)
  with assms(3) have "x < y" by simp
  then have "e * Suc x \<le> e * y" by (intro mult_le_mono2) simp
  with a b show ?thesis by simp
qed

subsection \<open>Signed differences of sizes\<close>

lemma int_less_pow: "n < 2 ^ k \<Longrightarrow> int n < 2 ^ k"
  by (metis of_nat_less_iff of_nat_numeral of_nat_power)

lemma int_diff_range:
  "0 \<le> x \<Longrightarrow> x < 2 ^ 62 \<Longrightarrow> 0 \<le> y \<Longrightarrow> y < 2 ^ 62 \<Longrightarrow> - (2 ^ 63) \<le> x - y \<and> x - y < (2 ^ 63 :: int)"
  by simp

lemma int_range: "0 \<le> x \<Longrightarrow> - (2 ^ 63) \<le> (x :: int)"
  by simp

lemma sint_small:
  assumes "unat (x :: size_t) < 2 ^ 63"
  shows "sint x = int (unat x)"
proof -
  have "0 \<le> int (unat x)" "int (unat x) < 2 ^ 63" using assms by (simp_all only: int_less_pow of_nat_0_le_iff)
  then have "0 \<le> uint x" "uint x < 2 ^ 63" by simp_all
  then have "signed_take_bit 63 (uint x) = uint x"
    by (intro signed_take_bit_int_eq_self int_range)
  then have "sint x = uint x" by (simp add: sint_uint)
  then show ?thesis by simp
qed

lemma sint_diff_small:
  fixes a b :: size_t
  assumes "unat a < 2 ^ 62" and "unat b < 2 ^ 62"
  shows "sint (a - b) = int (unat a) - int (unat b)"
proof -
  have "0 \<le> int (unat a)" "int (unat a) < 2 ^ 62" "0 \<le> int (unat b)" "int (unat b) < 2 ^ 62"
    using assms by (simp_all only: int_less_pow of_nat_0_le_iff)
  then have range: "- (2 ^ 63) \<le> int (unat a) - int (unat b)" "int (unat a) - int (unat b) < 2 ^ 63"
    using int_diff_range by blast+
  have "a - b = word_of_int (int (unat a) - int (unat b))" by simp
  then have "sint (a - b) = signed_take_bit 63 (int (unat a) - int (unat b))"
    by (simp only: sint_sbintrunc') simp
  also have "\<dots> = int (unat a) - int (unat b)"
    using range by (intro signed_take_bit_int_eq_self) simp_all
  finally show ?thesis .
qed

lemma le_div_mult:
  fixes q :: int
  assumes "q \<le> a div r" and "0 < r"
  shows "q * r \<le> a"
proof -
  have "q * r \<le> a div r * r" using assms by (intro mult_right_mono) auto
  also have "\<dots> \<le> a" using assms(2) by (metis diff_ge_0_iff_ge minus_div_mult_eq_mod pos_mod_sign)
  finally show ?thesis .
qed

end
