(* ===== verification/Stream_Types.thy ===== *)
theory Stream_Types
  imports Skir_Prelude
begin

section \<open>Stream headers and the stream store\<close>

text \<open>
  The data of \<open>include/SKIR/SKIRStream.h\<close>: the stream header \<open>skir_stream_t\<close>, the kernel
  state \<open>skir_rt_state_t\<close>, and the store in which the stream operations run.  A header is
  addressed by a handle, as the code addresses it by \<open>skir_stream_t *\<close>; the byte buffer that
  follows the header in memory is an object of its own, named by the header's \<open>buf\<close>, so that
  \<open>inp\<close> and \<open>outp\<close> can alias it as they do in the code.  The arrays that a kernel reads and
  writes in place of streams are addressed by machine addresses in \<open>flat\<close>.  The padding
  fields have no counterpart.
\<close>

text \<open>
  The values the code stores in \<open>src\<close> and \<open>dst\<close>: null, \<open>(void*)1\<close> for an end that is
  finished, \<open>(void*)2\<close> for the end of a stream shared with another process, \<open>(void*)-1\<close> for
  an end that was not connected yet, and a pointer to a kernel otherwise.
\<close>

datatype endp = NullEnd | DeadEnd | SharedEnd | OpenEnd | KernEnd ptr

text \<open>\<open>(size_t) r & 1\<close>: kernels are heap objects and therefore even addresses.\<close>

fun endp_odd :: "endp \<Rightarrow> bool" where
  "endp_odd DeadEnd = True"
| "endp_odd OpenEnd = True"
| "endp_odd _ = False"

record skir_stream_t =
  sid :: uint32
  elem_size :: uint32
  stride :: uint32
  dst_dead :: uint32
  src_dead :: uint32
  pop_rate :: int
  push_rate :: int
  peek_rate :: int
  src :: endp
  dst :: endp
  rs :: "ptr option"
  head :: size_t
  outp :: ptr
  num_push :: uint64
  next_tail :: size_t
  tail :: size_t
  inp :: ptr
  next_head :: size_t
  buf :: ptr

record skir_rt_state_t =
  stk :: "ptr option"
  niter :: size_t
  cycles :: uint64

definition STREAM_BUFFER_SIZE :: nat where
  "STREAM_BUFFER_SIZE = 1024 * 32"

definition NUM_STREAM_HEADERS :: nat where
  "NUM_STREAM_HEADERS = 0"

record store =
  hdr :: "ptr \<Rightarrow> skir_stream_t"
  mem :: "ptr \<Rightarrow> byte list"
  flat :: "size_t \<Rightarrow> byte"

subsection \<open>Primitive updates of the store\<close>

definition set_head :: "ptr \<Rightarrow> size_t \<Rightarrow> store \<Rightarrow> store" where
  "set_head s x st = st\<lparr>hdr := (hdr st)(s := (hdr st s)\<lparr>head := x\<rparr>)\<rparr>"

definition set_tail :: "ptr \<Rightarrow> size_t \<Rightarrow> store \<Rightarrow> store" where
  "set_tail s x st = st\<lparr>hdr := (hdr st)(s := (hdr st s)\<lparr>tail := x\<rparr>)\<rparr>"

text \<open>The macro \<open>RECORD_PUSH(cnt)\<close> of \<open>lib/runtime/inline_stream_ops.h\<close>.\<close>

definition RECORD_PUSH :: "ptr \<Rightarrow> store \<Rightarrow> store" where
  "RECORD_PUSH s st =
     st\<lparr>hdr := (hdr st)(s := (hdr st s)\<lparr>num_push := num_push (hdr st s) + 1\<rparr>)\<rparr>"

text \<open>\<open>memcpy(&b[a], e, n)\<close> and \<open>memcpy(e, &b[a], n)\<close> on a byte object \<open>b\<close>.\<close>

definition write_obj :: "ptr \<Rightarrow> size_t \<Rightarrow> nat \<Rightarrow> byte list \<Rightarrow> store \<Rightarrow> (endp, store) outcome" where
  "write_obj b a n e st =
     (case mem_put (mem st b) a n e of
        None \<Rightarrow> Fault
      | Some m \<Rightarrow> Done (st\<lparr>mem := (mem st)(b := m)\<rparr>))"

definition read_obj :: "ptr \<Rightarrow> size_t \<Rightarrow> nat \<Rightarrow> store \<Rightarrow> (endp, byte list) outcome" where
  "read_obj b a n st =
     (case mem_get (mem st b) a n of None \<Rightarrow> Fault | Some e \<Rightarrow> Done e)"

text \<open>\<open>p[idx]\<close> on the array of stream pointers of a kernel.\<close>

definition with_stream :: "ptr list \<Rightarrow> nat \<Rightarrow> (ptr \<Rightarrow> (endp, 'a) outcome) \<Rightarrow> (endp, 'a) outcome" where
  "with_stream p idx f = (if idx < length p then f (p ! idx) else Fault)"

lemma with_stream_nth [simp]: "idx < length p \<Longrightarrow> with_stream p idx f = f (p ! idx)"
  by (simp add: with_stream_def)

text \<open>
  The part every push has after its space check: copy the element to position \<open>a\<close> of the
  object \<open>b\<close>, publish the new head, count the push; and the part every pop has.
\<close>

definition put_elem :: "ptr \<Rightarrow> ptr \<Rightarrow> size_t \<Rightarrow> nat \<Rightarrow> byte list \<Rightarrow> size_t \<Rightarrow> store \<Rightarrow> (endp, store) outcome" where
  "put_elem s b a n e next st =
     bind_out (write_obj b a n e st) (\<lambda>st. Done (RECORD_PUSH s (set_head s next st)))"

definition get_elem :: "ptr \<Rightarrow> ptr \<Rightarrow> size_t \<Rightarrow> nat \<Rightarrow> size_t \<Rightarrow> store \<Rightarrow> (endp, byte list \<times> store) outcome" where
  "get_elem s b a n next st =
     bind_out (read_obj b a n st) (\<lambda>e. Done (e, set_tail s next st))"

subsection \<open>The ring of elements a stream holds\<close>

text \<open>
  \<open>ring_ok E B st s\<close>: the buffer of stream \<open>s\<close> has \<open>B\<close> bytes, a whole number of elements of
  \<open>E\<close> bytes, and both positions are element boundaries inside it.  \<open>ring_items\<close> are the
  elements between tail and head, oldest first.
\<close>

definition ring_size :: "nat \<Rightarrow> nat \<Rightarrow> bool" where
  "ring_size E B \<longleftrightarrow> 0 < E \<and> E dvd B \<and> 0 < B \<and> B \<le> 2 ^ 31"

definition ring_ok :: "nat \<Rightarrow> nat \<Rightarrow> store \<Rightarrow> ptr \<Rightarrow> bool" where
  "ring_ok E B st s \<longleftrightarrow>
     ring_size E B \<and> length (mem st (buf (hdr st s))) = B \<and>
     unat (head (hdr st s)) < B \<and> unat (tail (hdr st s)) < B \<and>
     E dvd unat (head (hdr st s)) \<and> E dvd unat (tail (hdr st s))"

definition ring_count :: "nat \<Rightarrow> nat \<Rightarrow> store \<Rightarrow> ptr \<Rightarrow> nat" where
  "ring_count E B st s =
     ring_dist (B div E) (unat (tail (hdr st s)) div E) (unat (head (hdr st s)) div E)"

definition ring_items :: "nat \<Rightarrow> nat \<Rightarrow> store \<Rightarrow> ptr \<Rightarrow> byte list list" where
  "ring_items E B st s =
     map (\<lambda>i. chunk E (mem st (buf (hdr st s)))
            ((unat (tail (hdr st s)) div E + i) mod (B div E)))
       [0..<ring_count E B st s]"

definition ring_cap :: "nat \<Rightarrow> nat \<Rightarrow> nat" where
  "ring_cap E B = B div E - 1"

definition ring_room :: "nat \<Rightarrow> nat \<Rightarrow> store \<Rightarrow> ptr \<Rightarrow> nat" where
  "ring_room E B st s = ring_cap E B - ring_count E B st s"

lemma length_ring_items [simp]: "length (ring_items E B st s) = ring_count E B st s"
  by (simp add: ring_items_def)

text \<open>Positions as slot numbers: everything below is about \<open>T\<close>, \<open>H\<close> and \<open>N\<close> slots.\<close>

lemma ring_okE:
  assumes "ring_ok E B st s"
  obtains N T H where "B = E * N" "unat (tail (hdr st s)) = E * T" "unat (head (hdr st s)) = E * H"
    "0 < E" "0 < N" "T < N" "H < N" "B \<le> 2 ^ 31" "length (mem st (buf (hdr st s))) = B"
    "ring_count E B st s = ring_dist N T H"
proof -
  from assms obtain N T H where *: "B = E * N" "unat (tail (hdr st s)) = E * T"
    "unat (head (hdr st s)) = E * H" "0 < E" "0 < B" "B \<le> 2 ^ 31"
    "length (mem st (buf (hdr st s))) = B"
    by (auto simp: ring_ok_def ring_size_def elim!: dvdE)
  moreover from * assms have "T < N" "H < N" "0 < N" by (auto simp: ring_ok_def)
  moreover from * have "ring_count E B st s = ring_dist N T H" by (simp add: ring_count_def)
  ultimately show ?thesis using that by blast
qed

lemma ring_ok_size: "ring_ok E B st s \<Longrightarrow> ring_size E B"
  by (simp add: ring_ok_def)

lemma ring_count_less: "ring_ok E B st s \<Longrightarrow> ring_count E B st s < B div E"
  by (elim ring_okE) (simp add: ring_dist_less)

lemma ring_count_le_cap: "ring_ok E B st s \<Longrightarrow> ring_count E B st s \<le> ring_cap E B"
  using ring_count_less [of E B st s] by (simp add: ring_cap_def)

lemma ring_room_items:
  "ring_items E B st' s' = xs \<Longrightarrow> ring_room E B st' s' = ring_cap E B - length xs"
  by (auto simp: ring_room_def)

lemma ring_count_0_iff:
  assumes "ring_ok E B st s"
  shows "ring_count E B st s = 0 \<longleftrightarrow> head (hdr st s) = tail (hdr st s)"
proof -
  from assms obtain N T H where *: "unat (tail (hdr st s)) = E * T"
    "unat (head (hdr st s)) = E * H" "0 < E" "T < N" "H < N" "ring_count E B st s = ring_dist N T H"
    by (rule ring_okE)
  then show ?thesis by (auto simp: ring_dist_0_iff word_unat_eq_iff)
qed

lemma unat_of_nat_small: "n < 2 ^ 31 * 2 \<Longrightarrow> unat (of_nat n :: size_t) = n"
  by (simp add: unat_of_nat take_bit_nat_eq_self)

lemma unat_next:
  assumes "unat h = E * H" and "B = E * N" and "0 < E" and "H < N" and "B \<le> 2 ^ 31"
  shows "unat ((h + of_nat E) mod of_nat B :: size_t) = E * (Suc H mod N)"
proof -
  have BN: "E * N \<le> 2 ^ 31" using assms by simp
  have "E * 1 \<le> E * N" "E * H \<le> E * N" using assms by (auto intro: mult_le_mono2)
  with BN have E: "E \<le> 2 ^ 31" and H: "E * H \<le> 2 ^ 31" by linarith+
  have E1: "unat (of_nat E :: size_t) = E" using E by (intro unat_of_nat_small) simp
  have B1: "unat (of_nat B :: size_t) = B" using assms(5) by (intro unat_of_nat_small) simp
  have "unat h + unat (of_nat E :: size_t) < 2 ^ LENGTH(64)"
    unfolding E1 assms(1) using E H by simp
  then have sum: "unat (h + of_nat E) = E * Suc H"
    by (subst unat_add_small) (simp_all add: E1 assms(1))
  have "unat ((h + of_nat E) mod of_nat B) = (E * Suc H) mod B"
    unfolding unat_mod_distrib sum B1 ..
  then show ?thesis unfolding assms(2) by (simp only: mult_mod_right)
qed

lemma ring_items_length:
  assumes "ring_ok E B st s" and "e \<in> set (ring_items E B st s)"
  shows "length e = E"
proof -
  from assms(1) obtain N where *: "B = E * N" "0 < E" "0 < N" "length (mem st (buf (hdr st s))) = B"
    by (rule ring_okE)
  from assms(2) obtain i where e: "e = chunk E (mem st (buf (hdr st s))) ((unat (tail (hdr st s)) div E + i) mod N)"
    using * by (auto simp: ring_items_def)
  let ?j = "(unat (tail (hdr st s)) div E + i) mod N"
  have "E * Suc ?j \<le> E * N" using *(3) by (intro mult_le_mono2) (simp add: Suc_leI)
  then show ?thesis using * e by (simp add: length_chunk)
qed

text \<open>Distinct streams have distinct buffers; every operation keeps this.\<close>

definition apart :: "store \<Rightarrow> ptr \<Rightarrow> ptr \<Rightarrow> bool" where
  "apart st s s' \<longleftrightarrow> s \<noteq> s' \<and> buf (hdr st s) \<noteq> buf (hdr st s')"

text \<open>The effect of a push and of a pop that passed its check, on the elements held.\<close>

lemma put_elem_ring:
  assumes ok: "ring_ok E B st s" and e: "length e = E"
    and free: "(head (hdr st s) + of_nat E) mod of_nat B \<noteq> tail (hdr st s)"
    and b: "b = buf (hdr st s)"
  obtains st' where
    "put_elem s b (head (hdr st s)) E e ((head (hdr st s) + of_nat E) mod of_nat B) st = Done st'"
    "ring_ok E B st' s" "ring_items E B st' s = ring_items E B st s @ [e]"
    "hdr st' = (hdr st)(s := (hdr st s)\<lparr>head := (head (hdr st s) + of_nat E) mod of_nat B,
                                        num_push := num_push (hdr st s) + 1\<rparr>)"
    "\<forall>b'. b' \<noteq> b \<longrightarrow> mem st' b' = mem st b'"
proof -
  from ok obtain N T H where *: "B = E * N" "unat (tail (hdr st s)) = E * T"
    "unat (head (hdr st s)) = E * H" "0 < E" "0 < N" "T < N" "H < N" "B \<le> 2 ^ 31"
    "length (mem st (buf (hdr st s))) = B" "ring_count E B st s = ring_dist N T H"
    by (rule ring_okE)
  define nx where "nx = (head (hdr st s) + of_nat E) mod of_nat B"
  have nxt: "unat nx = E * (Suc H mod N)" unfolding nx_def using * by (intro unat_next) auto
  have free': "nx \<noteq> tail (hdr st s)" unfolding nx_def by (rule free)
  have room: "E * j + E \<le> B" if "j < N" for j
  proof -
    have "E * Suc j \<le> E * N" using that by (intro mult_le_mono2) simp
    then show ?thesis using * by simp
  qed
  obtain m where m: "mem_put (mem st b) (head (hdr st s)) E e = Some m"
    using room [OF \<open>H < N\<close>] * e b by (simp add: mem_put_def)
  define st' where "st' = RECORD_PUSH s (set_head s nx (st\<lparr>mem := (mem st)(b := m)\<rparr>))"
  have put: "put_elem s b (head (hdr st s)) E e nx st = Done st'"
    by (simp add: put_elem_def write_obj_def m st'_def)
  have hdr': "hdr st' = (hdr st)(s := (hdr st s)\<lparr>head := nx, num_push := num_push (hdr st s) + 1\<rparr>)"
    by (simp add: st'_def RECORD_PUSH_def set_head_def)
  have mem': "mem st' = (mem st)(b := m)" by (simp add: st'_def RECORD_PUSH_def set_head_def)
  have "Suc H mod N \<noteq> T"
    using free' nxt * by (auto simp: word_unat_eq_iff)
  then have dist: "ring_dist N T (Suc H mod N) = Suc (ring_dist N T H)"
    using * by (intro ring_dist_push)
  have len: "length m = B" using length_mem_put [OF m] * b by simp
  have ok': "ring_ok E B st' s"
    using * nxt len b by (simp add: ring_ok_def ring_size_def hdr' mem')
  have cnt: "ring_count E B st' s = Suc (ring_count E B st s)"
    using * nxt dist by (simp add: ring_count_def hdr')
  have chunks: "chunk E m j = (if j = H then e else chunk E (mem st b) j)" if "j < N" for j
    using chunk_of_put [OF m] room [OF that] * e b by simp
  have old: "chunk E m ((T + i) mod N) = chunk E (mem st b) ((T + i) mod N)"
    if "i < ring_dist N T H" for i
    using chunks [of "(T + i) mod N"] ring_pos_ne_head [of T N H i] that * by simp
  have new: "chunk E m ((T + ring_dist N T H) mod N) = e"
    using chunks [of H] ring_pos_head [of T N H] * by simp
  have items: "ring_items E B st' s = ring_items E B st s @ [e]"
    using * old new cnt b by (simp add: ring_items_def hdr' mem')
  show ?thesis
    by (rule that [OF put [unfolded nx_def] ok' items hdr' [unfolded nx_def]]) (simp add: mem')
qed

lemma get_elem_ring:
  assumes ok: "ring_ok E B st s" and ne: "head (hdr st s) \<noteq> tail (hdr st s)"
    and b: "b = buf (hdr st s)"
  obtains st' where
    "get_elem s b (tail (hdr st s)) E ((tail (hdr st s) + of_nat E) mod of_nat B) st =
       Done (hd (ring_items E B st s), st')"
    "ring_ok E B st' s" "ring_items E B st' s = tl (ring_items E B st s)"
    "hdr st' = (hdr st)(s := (hdr st s)\<lparr>tail := (tail (hdr st s) + of_nat E) mod of_nat B\<rparr>)"
    "mem st' = mem st"
proof -
  from ok obtain N T H where *: "B = E * N" "unat (tail (hdr st s)) = E * T"
    "unat (head (hdr st s)) = E * H" "0 < E" "0 < N" "T < N" "H < N" "B \<le> 2 ^ 31"
    "length (mem st (buf (hdr st s))) = B" "ring_count E B st s = ring_dist N T H"
    by (rule ring_okE)
  define nx where "nx = (tail (hdr st s) + of_nat E) mod of_nat B"
  have nxt: "unat nx = E * (Suc T mod N)" unfolding nx_def using * by (intro unat_next) auto
  have room: "E * T + E \<le> B"
  proof -
    have "E * Suc T \<le> E * N" using * by (intro mult_le_mono2) simp
    then show ?thesis using * by simp
  qed
  have "H \<noteq> T" using ne * by (auto simp: word_unat_eq_iff)
  then have dist: "Suc (ring_dist N (Suc T mod N) H) = ring_dist N T H"
    using * by (intro ring_dist_pop)
  define st' where "st' = set_tail s nx st"
  have hdr': "hdr st' = (hdr st)(s := (hdr st s)\<lparr>tail := nx\<rparr>)" and mem': "mem st' = mem st"
    by (simp_all add: st'_def set_tail_def)
  have ok': "ring_ok E B st' s"
    using * nxt by (simp add: ring_ok_def ring_size_def hdr' mem')
  have cnt: "ring_count E B st s = Suc (ring_count E B st' s)"
    using * nxt dist by (simp add: ring_count_def hdr')
  have "ring_items E B st s =
      chunk E (mem st b) T # map (\<lambda>i. chunk E (mem st b) ((Suc T mod N + i) mod N)) [0..<ring_count E B st' s]"
    using * cnt b by (simp add: ring_items_def upt_conv_Cons map_Suc_upt [symmetric] mod_simps
      del: upt_Suc)
  moreover have "ring_items E B st' s =
      map (\<lambda>i. chunk E (mem st b) ((Suc T mod N + i) mod N)) [0..<ring_count E B st' s]"
    using * nxt b by (simp add: ring_items_def hdr' mem')
  moreover have "get_elem s b (tail (hdr st s)) E nx st = Done (chunk E (mem st b) T, st')"
    using * room b by (simp add: get_elem_def read_obj_def mem_get_chunk st'_def)
  ultimately show ?thesis
    using that [of st'] ok' hdr' mem' unfolding nx_def by simp
qed

lemma ring_items_frame:
  "hdr st' s = hdr st s \<Longrightarrow> mem st' (buf (hdr st s)) = mem st (buf (hdr st s)) \<Longrightarrow>
    ring_items E B st' s = ring_items E B st s \<and> ring_ok E B st' s = ring_ok E B st s"
  by (simp add: ring_items_def ring_ok_def ring_count_def)

text \<open>
  A store of empty streams with buffers of \<open>B\<close> bytes between kernel \<open>2s\<close> and kernel \<open>2s+1\<close>,
  for the instances at which properties are applied.
\<close>

definition sample_stream :: "nat \<Rightarrow> ptr \<Rightarrow> skir_stream_t" where
  "sample_stream E s = \<lparr>sid = of_nat s, elem_size = of_nat E, stride = 0, dst_dead = 0, src_dead = 0,
     pop_rate = 1, push_rate = 1, peek_rate = 0, src = KernEnd (2 * s), dst = KernEnd (2 * s + 1),
     rs = None, head = 0, outp = s, num_push = 0, next_tail = 0, tail = 0, inp = s, next_head = 0,
     buf = s\<rparr>"

definition sample_store :: "nat \<Rightarrow> nat \<Rightarrow> store" where
  "sample_store E B = \<lparr>hdr = sample_stream E, mem = \<lambda>_. replicate B 0, flat = \<lambda>_. 0\<rparr>"

lemma sample_ring_ok: "ring_size E B \<Longrightarrow> ring_ok E B (sample_store E B) s"
  by (simp add: ring_ok_def sample_store_def sample_stream_def ring_size_def)

lemma sample_ring_items: "ring_items E B (sample_store E B) s = []"
  by (simp add: ring_items_def ring_count_def ring_dist_def sample_store_def sample_stream_def)

end
