(* ===== verification/Stream_Ops.thy ===== *)
theory Stream_Ops
  imports Stream_Types
begin

section \<open>Stream operations\<close>

text \<open>
  The operations of \<open>lib/runtime/inline_stream_ops.cpp\<close> on buffered streams.  A template
  instance \<open>< ELMSZ, BUFSZ >\<close> is the definition at \<open>E\<close> and \<open>B\<close>; the specialisation
  \<open>< 0, 0 >\<close>, which reads the element size from the header, is a definition of its own.
  \<open>p\<close> and \<open>idx\<close> are the array of stream pointers of a kernel and the index into it, the
  element is the list of its bytes, and the store comes last.  The call
  \<open>__SKIRRT_would_block(from, to)\<close> hands control to a scheduler; when control comes back the
  loop around it evaluates its condition again, which is the operation started again, because
  only the calling kernel changes the position that the operation has cached.
\<close>

subsection \<open>Checked push, pop and peek\<close>

definition inline_push_E_B :: "nat \<Rightarrow> nat \<Rightarrow> ptr list \<Rightarrow> nat \<Rightarrow> byte list \<Rightarrow> store \<Rightarrow> (endp, store) outcome" where
  "inline_push_E_B E B p idx e st = with_stream p idx (\<lambda>s.
     let nx = (head (hdr st s) + of_nat E) mod of_nat B in
     if nx = tail (hdr st s) then WouldBlock (src (hdr st s)) (dst (hdr st s))
     else put_elem s (buf (hdr st s)) (head (hdr st s)) E e nx st)"

definition inline_push_0_0 :: "ptr list \<Rightarrow> nat \<Rightarrow> byte list \<Rightarrow> store \<Rightarrow> (endp, store) outcome" where
  "inline_push_0_0 p idx e st = with_stream p idx (\<lambda>s.
     let nx = (head (hdr st s) + ucast (elem_size (hdr st s))) mod of_nat STREAM_BUFFER_SIZE in
     if nx = tail (hdr st s) then WouldBlock (src (hdr st s)) (dst (hdr st s))
     else put_elem s (buf (hdr st s)) (head (hdr st s)) (unat (elem_size (hdr st s))) e nx st)"

definition inline_pop_E_B :: "nat \<Rightarrow> nat \<Rightarrow> ptr list \<Rightarrow> nat \<Rightarrow> store \<Rightarrow> (endp, byte list \<times> store) outcome" where
  "inline_pop_E_B E B p idx st = with_stream p idx (\<lambda>s.
     let t = tail (hdr st s) in
     if head (hdr st s) = t then WouldBlock (dst (hdr st s)) (src (hdr st s))
     else get_elem s (buf (hdr st s)) t E ((t + of_nat E) mod of_nat B) st)"

definition inline_pop_0_0 :: "ptr list \<Rightarrow> nat \<Rightarrow> store \<Rightarrow> (endp, byte list \<times> store) outcome" where
  "inline_pop_0_0 p idx st = with_stream p idx (\<lambda>s.
     let t = tail (hdr st s) in
     if head (hdr st s) = t then WouldBlock (dst (hdr st s)) (src (hdr st s))
     else get_elem s (buf (hdr st s)) t (unat (elem_size (hdr st s)))
            ((t + ucast (elem_size (hdr st s))) mod of_nat STREAM_BUFFER_SIZE) st)"

text \<open>The loop condition of the peek operations, negated: the element is there.\<close>

definition peek_ready :: "nat \<Rightarrow> size_t \<Rightarrow> size_t \<Rightarrow> size_t \<Rightarrow> bool" where
  "peek_ready B t h offset \<longleftrightarrow> t < h \<and> offset < h \<or> h < t \<and> offset < h + of_nat B"

definition inline_peek_E_B :: "nat \<Rightarrow> nat \<Rightarrow> ptr list \<Rightarrow> nat \<Rightarrow> uint32 \<Rightarrow> store \<Rightarrow> (endp, byte list) outcome" where
  "inline_peek_E_B E B p idx off st = with_stream p idx (\<lambda>s.
     let t = tail (hdr st s);
         offset = t + ucast off * of_nat E in
     if \<not> peek_ready B t (head (hdr st s)) offset then WouldBlock (dst (hdr st s)) (src (hdr st s))
     else read_obj (buf (hdr st s)) (offset mod of_nat B) E st)"

definition inline_peek_0_0 :: "ptr list \<Rightarrow> nat \<Rightarrow> uint32 \<Rightarrow> store \<Rightarrow> (endp, byte list) outcome" where
  "inline_peek_0_0 p idx off st = with_stream p idx (\<lambda>s.
     let t = tail (hdr st s);
         offset = t + ucast off * ucast (elem_size (hdr st s)) in
     if \<not> peek_ready STREAM_BUFFER_SIZE t (head (hdr st s)) offset
     then WouldBlock (dst (hdr st s)) (src (hdr st s))
     else read_obj (buf (hdr st s)) (offset mod of_nat STREAM_BUFFER_SIZE)
            (unat (elem_size (hdr st s))) st)"

subsection \<open>Operations without a check\<close>

definition inline_pop_nocheck_E_B :: "nat \<Rightarrow> nat \<Rightarrow> ptr list \<Rightarrow> nat \<Rightarrow> store \<Rightarrow> (endp, byte list \<times> store) outcome" where
  "inline_pop_nocheck_E_B E B p idx st = with_stream p idx (\<lambda>s.
     let t = tail (hdr st s) in
     get_elem s (buf (hdr st s)) t E ((t + of_nat E) mod of_nat B) st)"

definition inline_pop_nocheck_0_0 :: "ptr list \<Rightarrow> nat \<Rightarrow> store \<Rightarrow> (endp, byte list \<times> store) outcome" where
  "inline_pop_nocheck_0_0 p idx st = with_stream p idx (\<lambda>s.
     let t = tail (hdr st s) in
     get_elem s (buf (hdr st s)) t (unat (elem_size (hdr st s)))
       ((t + ucast (elem_size (hdr st s))) mod of_nat STREAM_BUFFER_SIZE) st)"

definition inline_pop_nocheck_p_E_B :: "nat \<Rightarrow> nat \<Rightarrow> ptr list \<Rightarrow> nat \<Rightarrow> store \<Rightarrow> (endp, byte list \<times> store) outcome" where
  "inline_pop_nocheck_p_E_B E B p idx st = with_stream p idx (\<lambda>s.
     let t = tail (hdr st s) in
     get_elem s (inp (hdr st s)) t E ((t + of_nat E) mod of_nat B) st)"

definition inline_pop_nocheck_p_0_0 :: "ptr list \<Rightarrow> nat \<Rightarrow> store \<Rightarrow> (endp, byte list \<times> store) outcome" where
  "inline_pop_nocheck_p_0_0 p idx st = with_stream p idx (\<lambda>s.
     let t = tail (hdr st s) in
     get_elem s (inp (hdr st s)) t (unat (elem_size (hdr st s)))
       ((t + ucast (elem_size (hdr st s))) mod of_nat STREAM_BUFFER_SIZE) st)"

definition inline_pop_nocheck_s :: "ptr \<Rightarrow> store \<Rightarrow> (endp, byte list \<times> store) outcome" where
  "inline_pop_nocheck_s s st =
     get_elem s (buf (hdr st s)) (tail (hdr st s)) (unat (elem_size (hdr st s)))
       ((tail (hdr st s) + ucast (elem_size (hdr st s))) mod of_nat STREAM_BUFFER_SIZE) st"

text \<open>The \<open>_i\<close> variant receives the address of the stream as an integer.\<close>

definition inline_pop_nocheck_i :: "ptr \<Rightarrow> store \<Rightarrow> (endp, byte list \<times> store) outcome" where
  "inline_pop_nocheck_i i st =
     get_elem i (buf (hdr st i)) (tail (hdr st i)) (unat (elem_size (hdr st i)))
       ((tail (hdr st i) + ucast (elem_size (hdr st i))) mod of_nat STREAM_BUFFER_SIZE) st"

text \<open>
  The object representation of a 32-bit \<open>int\<close> (little endian, as on the x86 targets of the
  runtime).  A \<open>float\<close> is its 32-bit pattern, which these operations never interpret.
\<close>

unbundle bit_operations_syntax

definition bytes_of_int32 :: "uint32 \<Rightarrow> byte list" where
  "bytes_of_int32 w = map (\<lambda>i. ucast (drop_bit (8 * i) w)) [0..<4]"

definition int32_of_bytes :: "byte list \<Rightarrow> uint32" where
  "int32_of_bytes bs = fold (\<lambda>b w. push_bit 8 w OR ucast b) (rev bs) 0"

definition inline_pop_nocheck_int32 :: "ptr \<Rightarrow> store \<Rightarrow> (endp, uint32 \<times> store) outcome" where
  "inline_pop_nocheck_int32 s st =
     bind_out (get_elem s (buf (hdr st s)) (tail (hdr st s)) 4
                ((tail (hdr st s) + 4) mod of_nat STREAM_BUFFER_SIZE) st)
       (\<lambda>(e, st). Done (int32_of_bytes e, st))"

definition inline_pop_nocheck_i_int32 :: "ptr \<Rightarrow> store \<Rightarrow> (endp, uint32 \<times> store) outcome" where
  "inline_pop_nocheck_i_int32 i st =
     bind_out (get_elem i (buf (hdr st i)) (tail (hdr st i)) 4
                ((tail (hdr st i) + 4) mod of_nat STREAM_BUFFER_SIZE) st)
       (\<lambda>(e, st). Done (int32_of_bytes e, st))"

definition inline_pop_nocheck_i_float :: "ptr \<Rightarrow> store \<Rightarrow> (endp, uint32 \<times> store) outcome" where
  "inline_pop_nocheck_i_float i st =
     bind_out (get_elem i (buf (hdr st i)) (tail (hdr st i)) 4
                ((tail (hdr st i) + 4) mod of_nat STREAM_BUFFER_SIZE) st)
       (\<lambda>(e, st). Done (int32_of_bytes e, st))"

text \<open>
  In the unchecked peeks and pokes the product \<open>offset*ELMSZ\<close> is computed at 32 bits and then
  widened; only the variants with \<open>sizeof(e)\<close> compute it at 64 bits.
\<close>

definition inline_peek_nocheck_E_B :: "nat \<Rightarrow> nat \<Rightarrow> ptr list \<Rightarrow> nat \<Rightarrow> uint32 \<Rightarrow> store \<Rightarrow> (endp, byte list) outcome" where
  "inline_peek_nocheck_E_B E B p idx off st = with_stream p idx (\<lambda>s.
     let t = (tail (hdr st s) + ucast (off * of_nat E)) mod of_nat B in
     read_obj (buf (hdr st s)) t E st)"

definition inline_peek_nocheck_0_0 :: "ptr list \<Rightarrow> nat \<Rightarrow> uint32 \<Rightarrow> store \<Rightarrow> (endp, byte list) outcome" where
  "inline_peek_nocheck_0_0 p idx off st = with_stream p idx (\<lambda>s.
     let t = (tail (hdr st s) + ucast (off * elem_size (hdr st s))) mod of_nat STREAM_BUFFER_SIZE in
     read_obj (buf (hdr st s)) t (unat (elem_size (hdr st s))) st)"

definition inline_peek_nocheck_p_E_B :: "nat \<Rightarrow> nat \<Rightarrow> ptr list \<Rightarrow> nat \<Rightarrow> uint32 \<Rightarrow> store \<Rightarrow> (endp, byte list) outcome" where
  "inline_peek_nocheck_p_E_B E B p idx off st = with_stream p idx (\<lambda>s.
     let t = (tail (hdr st s) + ucast (off * of_nat E)) mod of_nat B in
     read_obj (inp (hdr st s)) t E st)"

definition inline_peek_nocheck_p_0_0 :: "ptr list \<Rightarrow> nat \<Rightarrow> uint32 \<Rightarrow> store \<Rightarrow> (endp, byte list) outcome" where
  "inline_peek_nocheck_p_0_0 p idx off st = with_stream p idx (\<lambda>s.
     let t = (tail (hdr st s) + ucast (off * elem_size (hdr st s))) mod of_nat STREAM_BUFFER_SIZE in
     read_obj (inp (hdr st s)) t (unat (elem_size (hdr st s))) st)"

definition inline_peek_nocheck_s :: "ptr \<Rightarrow> uint32 \<Rightarrow> store \<Rightarrow> (endp, byte list) outcome" where
  "inline_peek_nocheck_s s off st =
     (let t = (tail (hdr st s) + ucast (off * elem_size (hdr st s))) mod of_nat STREAM_BUFFER_SIZE in
      read_obj (buf (hdr st s)) t (unat (elem_size (hdr st s))) st)"

definition inline_peek_nocheck_i :: "ptr \<Rightarrow> uint32 \<Rightarrow> store \<Rightarrow> (endp, byte list) outcome" where
  "inline_peek_nocheck_i i off st =
     (let t = (tail (hdr st i) + ucast (off * elem_size (hdr st i))) mod of_nat STREAM_BUFFER_SIZE in
      read_obj (buf (hdr st i)) t (unat (elem_size (hdr st i))) st)"

definition inline_peek_nocheck_i_int32 :: "ptr \<Rightarrow> uint32 \<Rightarrow> store \<Rightarrow> (endp, uint32) outcome" where
  "inline_peek_nocheck_i_int32 i off st =
     (let n = (tail (hdr st i) + ucast off * 4) mod of_nat STREAM_BUFFER_SIZE in
      bind_out (read_obj (buf (hdr st i)) n 4 st) (\<lambda>e. Done (int32_of_bytes e)))"

definition inline_peek_nocheck_i_float :: "ptr \<Rightarrow> uint32 \<Rightarrow> store \<Rightarrow> (endp, uint32) outcome" where
  "inline_peek_nocheck_i_float i off st =
     (let n = (tail (hdr st i) + ucast off * 4) mod of_nat STREAM_BUFFER_SIZE in
      bind_out (read_obj (buf (hdr st i)) n 4 st) (\<lambda>e. Done (int32_of_bytes e)))"

definition inline_push_nocheck_E_B :: "nat \<Rightarrow> nat \<Rightarrow> ptr list \<Rightarrow> nat \<Rightarrow> byte list \<Rightarrow> store \<Rightarrow> (endp, store) outcome" where
  "inline_push_nocheck_E_B E B p idx e st = with_stream p idx (\<lambda>s.
     let h = head (hdr st s); nx = (h + of_nat E) mod of_nat B in
     put_elem s (buf (hdr st s)) h E e nx st)"

definition inline_push_nocheck_0_0 :: "ptr list \<Rightarrow> nat \<Rightarrow> byte list \<Rightarrow> store \<Rightarrow> (endp, store) outcome" where
  "inline_push_nocheck_0_0 p idx e st = with_stream p idx (\<lambda>s.
     let h = head (hdr st s);
         nx = (h + ucast (elem_size (hdr st s))) mod of_nat STREAM_BUFFER_SIZE in
     put_elem s (buf (hdr st s)) h (unat (elem_size (hdr st s))) e nx st)"

definition inline_push_nocheck_p_E_B :: "nat \<Rightarrow> nat \<Rightarrow> ptr list \<Rightarrow> nat \<Rightarrow> byte list \<Rightarrow> store \<Rightarrow> (endp, store) outcome" where
  "inline_push_nocheck_p_E_B E B p idx e st = with_stream p idx (\<lambda>s.
     let h = head (hdr st s); nx = (h + of_nat E) mod of_nat B in
     put_elem s (outp (hdr st s)) h E e nx st)"

definition inline_push_nocheck_p_0_0 :: "ptr list \<Rightarrow> nat \<Rightarrow> byte list \<Rightarrow> store \<Rightarrow> (endp, store) outcome" where
  "inline_push_nocheck_p_0_0 p idx e st = with_stream p idx (\<lambda>s.
     let nx = (head (hdr st s) + ucast (elem_size (hdr st s))) mod of_nat STREAM_BUFFER_SIZE in
     put_elem s (outp (hdr st s)) (head (hdr st s)) (unat (elem_size (hdr st s))) e nx st)"

definition inline_push_nocheck_s :: "ptr \<Rightarrow> byte list \<Rightarrow> store \<Rightarrow> (endp, store) outcome" where
  "inline_push_nocheck_s s e st =
     (let nx = (head (hdr st s) + ucast (elem_size (hdr st s))) mod of_nat STREAM_BUFFER_SIZE in
      put_elem s (buf (hdr st s)) (head (hdr st s)) (unat (elem_size (hdr st s))) e nx st)"

definition inline_push_nocheck_i :: "ptr \<Rightarrow> byte list \<Rightarrow> store \<Rightarrow> (endp, store) outcome" where
  "inline_push_nocheck_i i e st =
     (let nx = (head (hdr st i) + ucast (elem_size (hdr st i))) mod of_nat STREAM_BUFFER_SIZE in
      put_elem i (buf (hdr st i)) (head (hdr st i)) (unat (elem_size (hdr st i))) e nx st)"

definition inline_push_nocheck_i_int32 :: "ptr \<Rightarrow> uint32 \<Rightarrow> store \<Rightarrow> (endp, store) outcome" where
  "inline_push_nocheck_i_int32 i e st =
     (let nx = (head (hdr st i) + ucast (elem_size (hdr st i))) mod of_nat STREAM_BUFFER_SIZE in
      put_elem i (buf (hdr st i)) (head (hdr st i)) (unat (elem_size (hdr st i))) (bytes_of_int32 e) nx st)"

definition inline_push_nocheck_int32 :: "ptr \<Rightarrow> uint32 \<Rightarrow> store \<Rightarrow> (endp, store) outcome" where
  "inline_push_nocheck_int32 s e st =
     (let nx = (head (hdr st s) + ucast (elem_size (hdr st s))) mod of_nat STREAM_BUFFER_SIZE in
      put_elem s (buf (hdr st s)) (head (hdr st s)) (unat (elem_size (hdr st s))) (bytes_of_int32 e) nx st)"

definition inline_push_nocheck_i_float :: "ptr \<Rightarrow> uint32 \<Rightarrow> store \<Rightarrow> (endp, store) outcome" where
  "inline_push_nocheck_i_float i e st =
     (let nx = (head (hdr st i) + ucast (elem_size (hdr st i))) mod of_nat STREAM_BUFFER_SIZE in
      put_elem i (buf (hdr st i)) (head (hdr st i)) (unat (elem_size (hdr st i))) (bytes_of_int32 e) nx st)"

definition inline_poke_nocheck :: "ptr list \<Rightarrow> nat \<Rightarrow> byte list \<Rightarrow> uint32 \<Rightarrow> store \<Rightarrow> (endp, store) outcome" where
  "inline_poke_nocheck p idx e off st = with_stream p idx (\<lambda>s.
     let h = (head (hdr st s) + ucast (off * elem_size (hdr st s))) mod of_nat STREAM_BUFFER_SIZE in
     write_obj (buf (hdr st s)) h (unat (elem_size (hdr st s))) e st)"

definition inline_poke_nocheck_s :: "ptr \<Rightarrow> byte list \<Rightarrow> uint32 \<Rightarrow> store \<Rightarrow> (endp, store) outcome" where
  "inline_poke_nocheck_s s e off st =
     (let h = (head (hdr st s) + ucast (off * elem_size (hdr st s))) mod of_nat STREAM_BUFFER_SIZE in
      write_obj (buf (hdr st s)) h (unat (elem_size (hdr st s))) e st)"

end
