(* ===== verification/Stream_Fifo.thy ===== *)
theory Stream_Fifo
  imports Stream_Ops
begin

section \<open>A stream is a bounded first-in first-out queue\<close>

text \<open>
  The interface the compiled kernels rely on, as two locales.  A \<open>batch\<close> queue adds elements
  while there is room and removes the oldest one while there is any; a \<open>fifo\<close> also reports
  that it would block when there is none.  The consequences for whole batches and histories
  of operations are proved once, in the locales.  The checked push and pop of the code are a
  \<open>fifo\<close> for every element and buffer size that fit each other, the four instantiations of
  the source and the generic \<open>< 0, 0 >\<close> functions among them; the unchecked operations and
  the linear buffer of fused kernels are a \<open>batch\<close> queue.
\<close>

subsection \<open>The interface and its histories\<close>

datatype 'a stream_op = Push 'a | Pop

text \<open>
  What an operation answers, and the answers to a sequence of operations.  An operation that would block
  leaves the state as it is, and the next one follows.
\<close>

datatype 'x reply = Accepted | Delivered 'x | Blocked

fun answers :: "('x \<Rightarrow> 's \<Rightarrow> ('e, 's) outcome) \<Rightarrow> ('s \<Rightarrow> ('e, 'x \<times> 's) outcome) \<Rightarrow>
    'x stream_op list \<Rightarrow> 's \<Rightarrow> ('e, 'x reply list \<times> 's) outcome" where
  "answers enq deq [] s = Done ([], s)"
| "answers enq deq (Push x # ops) s =
     (case enq x s of
        Done s' \<Rightarrow> bind_out (answers enq deq ops s') (\<lambda>(rs, t). Done (Accepted # rs, t))
      | WouldBlock _ _ \<Rightarrow> bind_out (answers enq deq ops s) (\<lambda>(rs, t). Done (Blocked # rs, t))
      | Fault \<Rightarrow> Fault)"
| "answers enq deq (Pop # ops) s =
     (case deq s of
        Done (x, s') \<Rightarrow> bind_out (answers enq deq ops s') (\<lambda>(rs, t). Done (Delivered x # rs, t))
      | WouldBlock _ _ \<Rightarrow> bind_out (answers enq deq ops s) (\<lambda>(rs, t). Done (Blocked # rs, t))
      | Fault \<Rightarrow> Fault)"

text \<open>The specification: a list of at most \<open>cap\<close> elements.  A push is refused exactly when the list is full, a
  pop exactly when it is empty.\<close>

fun queue_answers :: "nat \<Rightarrow> 'x stream_op list \<Rightarrow> 'x list \<Rightarrow> 'x reply list \<times> 'x list" where
  "queue_answers cap [] q = ([], q)"
| "queue_answers cap (Push x # ops) q =
     (if length q < cap then apfst (Cons Accepted) (queue_answers cap ops (q @ [x]))
      else apfst (Cons Blocked) (queue_answers cap ops q))"
| "queue_answers cap (Pop # ops) [] = apfst (Cons Blocked) (queue_answers cap ops [])"
| "queue_answers cap (Pop # ops) (x # q) = apfst (Cons (Delivered x)) (queue_answers cap ops q)"

fun push_all :: "('x \<Rightarrow> 's \<Rightarrow> ('e, 's) outcome) \<Rightarrow> 'x list \<Rightarrow> 's \<Rightarrow> ('e, 's) outcome" where
  "push_all enq [] s = Done s"
| "push_all enq (x # xs) s = bind_out (enq x s) (push_all enq xs)"

fun pop_all :: "('s \<Rightarrow> ('e, 'x \<times> 's) outcome) \<Rightarrow> nat \<Rightarrow> 's \<Rightarrow> ('e, 'x list \<times> 's) outcome" where
  "pop_all deq 0 s = Done ([], s)"
| "pop_all deq (Suc n) s =
     bind_out (deq s) (\<lambda>(x, s). bind_out (pop_all deq n s) (\<lambda>(xs, s). Done (x # xs, s)))"

locale batch =
  fixes enq :: "'x \<Rightarrow> 's \<Rightarrow> ('e, 's) outcome"
    and deq :: "'s \<Rightarrow> ('e, 'x \<times> 's) outcome"
    and items :: "'s \<Rightarrow> 'x list"
    and inv :: "'s \<Rightarrow> bool"
    and elem :: "'x \<Rightarrow> bool"
    and room :: "'s \<Rightarrow> nat"
  assumes enq_room: "inv s \<Longrightarrow> elem x \<Longrightarrow> 0 < room s \<Longrightarrow>
      \<exists>s'. enq x s = Done s' \<and> inv s' \<and> items s' = items s @ [x] \<and> room s' = room s - 1"
    and deq_some: "inv s \<Longrightarrow> items s = x # xs \<Longrightarrow>
      \<exists>s'. deq s = Done (x, s') \<and> inv s' \<and> items s' = xs \<and> room s \<le> room s'"
begin

lemma push_all_room:
  assumes "inv s" and "list_all elem xs" and "length xs \<le> room s"
  shows "\<exists>t. push_all enq xs s = Done t \<and> inv t \<and> items t = items s @ xs \<and>
    room t = room s - length xs"
  using assms
proof (induction xs arbitrary: s)
  case (Cons x xs)
  then obtain s' where "enq x s = Done s'" "inv s'" "items s' = items s @ [x]" "room s' = room s - 1"
    using enq_room [of s x] by auto
  with Cons.IH [of s'] Cons.prems show ?case by simp
qed simp

lemma pop_all_items:
  assumes "inv s" and "n \<le> length (items s)"
  shows "\<exists>t. pop_all deq n s = Done (take n (items s), t) \<and> inv t \<and> items t = drop n (items s) \<and>
    room s \<le> room t"
  using assms
proof (induction n arbitrary: s)
  case (Suc n)
  then obtain x xs where x: "items s = x # xs" by (cases "items s") auto
  then obtain s' where s': "deq s = Done (x, s')" "inv s'" "items s' = xs" "room s \<le> room s'"
    using deq_some Suc.prems(1) by blast
  with Suc.IH [of s'] Suc.prems x show ?case by (auto intro: order_trans)
qed simp

text \<open>A batch that fits an empty queue comes back unchanged.\<close>

theorem batch_roundtrip:
  assumes "inv s" and "items s = []" and "list_all elem xs" and "length xs \<le> room s"
  shows "\<exists>t. bind_out (push_all enq xs s) (pop_all deq (length xs)) = Done (xs, t) \<and> items t = []"
proof -
  obtain t where t: "push_all enq xs s = Done t" "inv t" "items t = xs"
    using push_all_room [of s xs] assms by auto
  with pop_all_items [of t "length xs"] show ?thesis by auto
qed

end

text \<open>A provider that also reports when it is full or empty.\<close>

locale fifo = batch +
  assumes enq_full: "inv s \<Longrightarrow> elem x \<Longrightarrow> room s = 0 \<Longrightarrow> \<exists>a b. enq x s = WouldBlock a b"
    and deq_empty: "inv s \<Longrightarrow> items s = [] \<Longrightarrow> \<exists>a b. deq s = WouldBlock a b"
begin

lemma enq_cases:
  assumes "inv s" and "elem x"
  obtains (ok) s' where "enq x s = Done s'" "inv s'" "items s' = items s @ [x]"
    | (full) a b where "enq x s = WouldBlock a b" "room s = 0"
proof (cases "0 < room s")
  case True
  then show ?thesis using enq_room assms ok by blast
next
  case False
  then show ?thesis using enq_full [OF assms] full by blast
qed

lemma deq_cases:
  assumes "inv s"
  obtains (ok) x s' where "deq s = Done (x, s')" "inv s'" "items s = x # items s'"
    | (empty) a b where "deq s = WouldBlock a b" "items s = []"
proof (cases "items s")
  case Nil
  then show ?thesis using deq_empty assms empty by blast
next
  case (Cons x xs)
  then show ?thesis using deq_some assms ok by blast
qed

end

text \<open>A provider whose room is what is left of a fixed capacity answers every sequence of operations as the
  specification does.\<close>

locale bounded_fifo = fifo +
  fixes cap :: nat
  assumes room_cap: "inv s \<Longrightarrow> length (items s) + room s = cap"
begin

theorem answers_queue:
  assumes "inv s" and "\<forall>x. Push x \<in> set ops \<longrightarrow> elem x"
  shows "\<exists>t. answers enq deq ops s = Done (fst (queue_answers cap ops (items s)), t) \<and> inv t \<and>
    items t = snd (queue_answers cap ops (items s))"
  using assms
proof (induction ops arbitrary: s)
  case (Cons op ops)
  note cap = room_cap [OF Cons.prems(1)]
  show ?case
  proof (cases op)
    case (Push x)
    with Cons.prems have x: "elem x" by simp
    show ?thesis
    proof (cases "0 < room s")
      case True
      obtain s' where s': "enq x s = Done s'" "inv s'" "items s' = items s @ [x]"
        using enq_room [OF Cons.prems(1) x True] by blast
      then show ?thesis using Cons.IH [of s'] Cons.prems(2) True cap by (auto simp: Push)
    next
      case False
      then obtain a b where "enq x s = WouldBlock a b" using enq_full [OF Cons.prems(1) x] by blast
      then show ?thesis using Cons.IH [of s] Cons.prems False cap by (auto simp: Push)
    qed
  next
    case Pop
    from Cons.prems(1) show ?thesis
    proof (cases rule: deq_cases)
      case (ok x s')
      then show ?thesis using Cons.IH [of s'] Cons.prems(2) by (auto simp: Pop)
    next
      case (empty a b)
      then show ?thesis using Cons.IH [of s] Cons.prems by (auto simp: Pop)
    qed
  qed
qed simp

end

subsection \<open>The checked operations provide it\<close>

text \<open>The state in which the stream at \<open>idx\<close> is well formed with elements of \<open>E\<close> bytes.\<close>

lemma inline_push_E_B_full_iff:
  assumes "ring_ok E B st s"
  shows "(head (hdr st s) + of_nat E) mod of_nat B = tail (hdr st s) \<longleftrightarrow>
    ring_count E B st s = ring_cap E B"
proof -
  from assms obtain N T H where *: "B = E * N" "unat (tail (hdr st s)) = E * T"
    "unat (head (hdr st s)) = E * H" "0 < E" "0 < N" "T < N" "H < N" "B \<le> 2 ^ 31"
    "length (mem st (buf (hdr st s))) = B" "ring_count E B st s = ring_dist N T H"
    by (rule ring_okE)
  have "unat ((head (hdr st s) + of_nat E) mod of_nat B) = E * (Suc H mod N)"
    using * by (intro unat_next) auto
  then have "(head (hdr st s) + of_nat E) mod of_nat B = tail (hdr st s) \<longleftrightarrow> Suc H mod N = T"
    using *(2,4) by (simp add: word_unat_eq_iff)
  also have "\<dots> \<longleftrightarrow> Suc (ring_dist N T H) = N" using * by (intro ring_full_iff)
  also have "\<dots> \<longleftrightarrow> ring_dist N T H = ring_cap E B"
    using *(1,4,5) by (auto simp: ring_cap_def)
  finally show ?thesis using *(10) by simp
qed

lemma ring_room_pos_iff:
  assumes "ring_ok E B st s"
  shows "(head (hdr st s) + of_nat E) mod of_nat B \<noteq> tail (hdr st s) \<longleftrightarrow> 0 < ring_room E B st s"
  using inline_push_E_B_full_iff [OF assms] ring_count_le_cap [OF assms] by (auto simp: ring_room_def)

lemma inline_push_E_B_room:
  assumes "ring_ok E B st (p ! idx)" and "idx < length p" and "length e = E"
    and "0 < ring_room E B st (p ! idx)"
  shows "\<exists>st'. inline_push_E_B E B p idx e st = Done st' \<and> ring_ok E B st' (p ! idx) \<and>
    ring_items E B st' (p ! idx) = ring_items E B st (p ! idx) @ [e] \<and>
    ring_room E B st' (p ! idx) = ring_room E B st (p ! idx) - 1"
proof -
  let ?s = "p ! idx"
  have free: "(head (hdr st ?s) + of_nat E) mod of_nat B \<noteq> tail (hdr st ?s)"
    using inline_push_E_B_full_iff [OF assms(1)] assms(4) by (simp add: ring_room_def)
  obtain st' where "put_elem ?s (buf (hdr st ?s)) (head (hdr st ?s)) E e
      ((head (hdr st ?s) + of_nat E) mod of_nat B) st = Done st'"
    "ring_ok E B st' ?s" "ring_items E B st' ?s = ring_items E B st ?s @ [e]"
    using put_elem_ring [OF assms(1,3) free refl] by blast
  with free assms(2) show ?thesis
    using ring_room_items [of E B st' ?s "ring_items E B st ?s @ [e]"]
    by (simp add: inline_push_E_B_def ring_room_def)
qed

lemma inline_push_E_B_blocked:
  assumes "ring_ok E B st (p ! idx)" and "idx < length p"
    and "ring_room E B st (p ! idx) = 0"
  shows "inline_push_E_B E B p idx e st =
    WouldBlock (src (hdr st (p ! idx))) (dst (hdr st (p ! idx)))"
  using inline_push_E_B_full_iff [OF assms(1)] ring_count_le_cap [OF assms(1)] assms(2,3)
  by (simp add: inline_push_E_B_def ring_room_def)

lemma inline_pop_E_B_some:
  assumes "ring_ok E B st (p ! idx)" and "idx < length p" and "ring_items E B st (p ! idx) = x # xs"
  shows "\<exists>st'. inline_pop_E_B E B p idx st = Done (x, st') \<and> ring_ok E B st' (p ! idx) \<and>
    ring_items E B st' (p ! idx) = xs \<and> ring_room E B st (p ! idx) \<le> ring_room E B st' (p ! idx)"
proof -
  let ?s = "p ! idx"
  have "ring_count E B st ?s \<noteq> 0" using assms(3) length_ring_items [of E B st ?s] by simp
  then have ne: "head (hdr st ?s) \<noteq> tail (hdr st ?s)" using ring_count_0_iff [OF assms(1)] by simp
  obtain st' where "get_elem ?s (buf (hdr st ?s)) (tail (hdr st ?s)) E
      ((tail (hdr st ?s) + of_nat E) mod of_nat B) st = Done (hd (ring_items E B st ?s), st')"
    "ring_ok E B st' ?s" "ring_items E B st' ?s = tl (ring_items E B st ?s)"
    using get_elem_ring [OF assms(1) ne refl] by blast
  with ne assms(2,3) show ?thesis
    using ring_room_items [of E B st' ?s xs] ring_room_items [OF assms(3)]
    by (simp add: inline_pop_E_B_def Let_def)
qed

lemma inline_pop_E_B_blocked:
  assumes "ring_ok E B st (p ! idx)" and "idx < length p" and "ring_items E B st (p ! idx) = []"
  shows "inline_pop_E_B E B p idx st =
    WouldBlock (dst (hdr st (p ! idx))) (src (hdr st (p ! idx)))"
proof -
  have "ring_count E B st (p ! idx) = 0" using assms(3) length_ring_items [of E B st "p ! idx"] by simp
  then show ?thesis using ring_count_0_iff [OF assms(1)] assms(2) by (simp add: inline_pop_E_B_def)
qed

subsection \<open>What an operation leaves alone\<close>

lemma put_elem_hdr:
  "put_elem s b a n e nx st = Done st' \<Longrightarrow>
    hdr st' = (hdr st)(s := (hdr st s)\<lparr>head := nx, num_push := num_push (hdr st s) + 1\<rparr>)"
  by (auto simp: put_elem_def write_obj_def RECORD_PUSH_def set_head_def split: option.splits)

lemma put_elem_mem: "put_elem s b a n e nx st = Done st' \<Longrightarrow> b' \<noteq> b \<Longrightarrow> mem st' b' = mem st b'"
  by (auto simp: put_elem_def write_obj_def RECORD_PUSH_def set_head_def split: option.splits)

lemma get_elem_hdr:
  "get_elem s b a n nx st = Done (e, st') \<Longrightarrow> hdr st' = (hdr st)(s := (hdr st s)\<lparr>tail := nx\<rparr>)"
  by (auto simp: get_elem_def read_obj_def set_tail_def split: option.splits)

lemma get_elem_mem: "get_elem s b a n nx st = Done (e, st') \<Longrightarrow> mem st' = mem st"
  by (auto simp: get_elem_def read_obj_def set_tail_def split: option.splits)

lemma push_E_B_Done:
  assumes "inline_push_E_B E B p idx e st = Done st'"
  shows "idx < length p" and "put_elem (p ! idx) (buf (hdr st (p ! idx))) (head (hdr st (p ! idx))) E e
    ((head (hdr st (p ! idx)) + of_nat E) mod of_nat B) st = Done st'"
  using assms by (auto simp: inline_push_E_B_def with_stream_def Let_def split: if_splits)

lemma pop_E_B_Done:
  assumes "inline_pop_E_B E B p idx st = Done (e, st')"
  shows "idx < length p" and "get_elem (p ! idx) (buf (hdr st (p ! idx))) (tail (hdr st (p ! idx))) E
    ((tail (hdr st (p ! idx)) + of_nat E) mod of_nat B) st = Done (e, st')"
  using assms by (auto simp: inline_pop_E_B_def with_stream_def Let_def split: if_splits)

lemma push_E_B_frame:
  assumes "inline_push_E_B E B p idx e st = Done st'" and "apart st (p ! idx) s"
  shows "ring_items E' B' st' s = ring_items E' B' st s \<and> ring_ok E' B' st' s = ring_ok E' B' st s"
  using push_E_B_Done [OF assms(1)] assms(2)
  by (intro ring_items_frame) (auto simp: apart_def put_elem_hdr put_elem_mem)

lemma pop_E_B_frame:
  assumes "inline_pop_E_B E B p idx st = Done (e, st')" and "apart st (p ! idx) s"
  shows "ring_items E' B' st' s = ring_items E' B' st s \<and> ring_ok E' B' st' s = ring_ok E' B' st s"
  using pop_E_B_Done [OF assms(1)] assms(2)
  by (intro ring_items_frame) (auto simp: apart_def get_elem_hdr get_elem_mem)

subsection \<open>Rings of a fixed geometry\<close>

locale stream_ring =
  fixes E B :: nat and p :: "ptr list" and idx :: nat
  assumes geometry: "ring_size E B" and index: "idx < length p"

lemma stream_ring_fifo:
  assumes geometry: "ring_size E B" and index: "idx < length p"
  shows "bounded_fifo (inline_push_E_B E B p idx) (inline_pop_E_B E B p idx)
    (\<lambda>st. ring_items E B st (p ! idx)) (\<lambda>st. ring_ok E B st (p ! idx)) (\<lambda>e. length e = E)
    (\<lambda>st. ring_room E B st (p ! idx)) (ring_cap E B)"
proof
  show "\<exists>s'. inline_push_E_B E B p idx e st = Done s' \<and> ring_ok E B s' (p ! idx) \<and>
      ring_items E B s' (p ! idx) = ring_items E B st (p ! idx) @ [e] \<and>
      ring_room E B s' (p ! idx) = ring_room E B st (p ! idx) - 1"
    if "ring_ok E B st (p ! idx)" "length e = E" "0 < ring_room E B st (p ! idx)" for st e
    using inline_push_E_B_room [OF that(1) index that(2,3)] .
next
  show "length (ring_items E B st (p ! idx)) + ring_room E B st (p ! idx) = ring_cap E B"
    if "ring_ok E B st (p ! idx)" for st
    using ring_count_le_cap [OF that] by (simp add: ring_room_def)
qed (use index in \<open>simp_all add: inline_push_E_B_blocked inline_pop_E_B_some inline_pop_E_B_blocked\<close>)

sublocale stream_ring \<subseteq> bounded_fifo "inline_push_E_B E B p idx" "inline_pop_E_B E B p idx"
  "\<lambda>st. ring_items E B st (p ! idx)" "\<lambda>st. ring_ok E B st (p ! idx)" "\<lambda>e. length e = E"
  "\<lambda>st. ring_room E B st (p ! idx)" "ring_cap E B"
  by (rule stream_ring_fifo [OF geometry index])

text \<open>The instances the source generates.\<close>

interpretation r4_32768: stream_ring 4 32768 "[s]" 0 for s
  by unfold_locales (simp_all add: ring_size_def)

interpretation r8_32768: stream_ring 8 32768 "[s]" 0 for s
  by unfold_locales (simp_all add: ring_size_def)

interpretation r4_128: stream_ring 4 128 "[s]" 0 for s
  by unfold_locales (simp_all add: ring_size_def)

interpretation r8_128: stream_ring 8 128 "[s]" 0 for s
  by unfold_locales (simp_all add: ring_size_def)

subsection \<open>The generic functions are the templates at the element size of the header\<close>

lemma ucast_elem_size: "(ucast (x :: uint32) :: size_t) = of_nat (unat x)"
  by (simp add: word_unat_eq_iff unat_of_nat_small)

lemma inline_push_0_0_eq:
  assumes "unat (elem_size (hdr st (p ! idx))) = E"
  shows "inline_push_0_0 p idx e st = inline_push_E_B E STREAM_BUFFER_SIZE p idx e st"
  unfolding inline_push_0_0_def inline_push_E_B_def with_stream_def ucast_elem_size assms ..

lemma inline_pop_0_0_eq:
  assumes "unat (elem_size (hdr st (p ! idx))) = E"
  shows "inline_pop_0_0 p idx st = inline_pop_E_B E STREAM_BUFFER_SIZE p idx st"
  unfolding inline_pop_0_0_def inline_pop_E_B_def with_stream_def ucast_elem_size assms ..

lemma inline_peek_0_0_eq:
  assumes "unat (elem_size (hdr st (p ! idx))) = E"
  shows "inline_peek_0_0 p idx off st = inline_peek_E_B E STREAM_BUFFER_SIZE p idx off st"
  unfolding inline_peek_0_0_def inline_peek_E_B_def with_stream_def ucast_elem_size assms ..

lemma push_elem_size:
  "inline_push_E_B E B p idx e st = Done st' \<Longrightarrow> elem_size (hdr st' s) = elem_size (hdr st s)"
  using push_E_B_Done [of E B p idx e st st'] by (auto dest!: put_elem_hdr)

lemma pop_elem_size:
  "inline_pop_E_B E B p idx st = Done (e, st') \<Longrightarrow> elem_size (hdr st' s) = elem_size (hdr st s)"
  using pop_E_B_Done [of E B p idx st e st'] by (auto dest!: get_elem_hdr)

locale stream_generic = stream_ring E STREAM_BUFFER_SIZE p idx for E and p :: "ptr list" and idx

sublocale stream_generic \<subseteq> generic: bounded_fifo "inline_push_0_0 p idx" "inline_pop_0_0 p idx"
  "\<lambda>st. ring_items E STREAM_BUFFER_SIZE st (p ! idx)"
  "\<lambda>st. ring_ok E STREAM_BUFFER_SIZE st (p ! idx) \<and> unat (elem_size (hdr st (p ! idx))) = E"
  "\<lambda>e. length e = E" "\<lambda>st. ring_room E STREAM_BUFFER_SIZE st (p ! idx)" "ring_cap E STREAM_BUFFER_SIZE"
proof
  fix st and e :: "byte list"
  assume "ring_ok E STREAM_BUFFER_SIZE st (p ! idx) \<and> unat (elem_size (hdr st (p ! idx))) = E"
    "length e = E" "0 < ring_room E STREAM_BUFFER_SIZE st (p ! idx)"
  with enq_room [of st e] show "\<exists>s'. inline_push_0_0 p idx e st = Done s' \<and>
      (ring_ok E STREAM_BUFFER_SIZE s' (p ! idx) \<and> unat (elem_size (hdr s' (p ! idx))) = E) \<and>
      ring_items E STREAM_BUFFER_SIZE s' (p ! idx) = ring_items E STREAM_BUFFER_SIZE st (p ! idx) @ [e] \<and>
      ring_room E STREAM_BUFFER_SIZE s' (p ! idx) = ring_room E STREAM_BUFFER_SIZE st (p ! idx) - 1"
    by (auto simp: inline_push_0_0_eq push_elem_size)
next
  fix st and e :: "byte list" and xs
  assume "ring_ok E STREAM_BUFFER_SIZE st (p ! idx) \<and> unat (elem_size (hdr st (p ! idx))) = E"
    "ring_items E STREAM_BUFFER_SIZE st (p ! idx) = e # xs"
  with deq_some [of st e xs] show "\<exists>s'. inline_pop_0_0 p idx st = Done (e, s') \<and>
      (ring_ok E STREAM_BUFFER_SIZE s' (p ! idx) \<and> unat (elem_size (hdr s' (p ! idx))) = E) \<and>
      ring_items E STREAM_BUFFER_SIZE s' (p ! idx) = xs \<and>
      ring_room E STREAM_BUFFER_SIZE st (p ! idx) \<le> ring_room E STREAM_BUFFER_SIZE s' (p ! idx)"
    by (auto simp: inline_pop_0_0_eq pop_elem_size)
qed (use enq_full deq_empty room_cap in \<open>auto simp: inline_push_0_0_eq inline_pop_0_0_eq\<close>)

interpretation g4: stream_generic 4 "[s]" 0 for s
  by unfold_locales (simp_all add: ring_size_def STREAM_BUFFER_SIZE_def)

text \<open>
  C1.  On a well-formed ring buffer any sequence of checked pushes and pops, with elements of the size of the stream,
  is answered exactly as by a first-in first-out queue of bounded capacity: a push is accepted if and only if fewer than
  \<open>ring_cap\<close> elements are stored, and blocks otherwise; a pop delivers the oldest element, and blocks if and only if
  there is none.  The buffer holds the elements of the queue after every sequence.
\<close>

theorem stream_history_fifo:
  assumes "ring_ok E B st (p ! idx)" and "idx < length p"
    and "\<forall>e. Push e \<in> set ops \<longrightarrow> length e = E"
  shows "\<exists>st'. answers (inline_push_E_B E B p idx) (inline_pop_E_B E B p idx) ops st =
      Done (fst (queue_answers (ring_cap E B) ops (ring_items E B st (p ! idx))), st') \<and>
    ring_ok E B st' (p ! idx) \<and>
    ring_items E B st' (p ! idx) = snd (queue_answers (ring_cap E B) ops (ring_items E B st (p ! idx)))"
  by (rule bounded_fifo.answers_queue [OF stream_ring_fifo [OF ring_ok_size [OF assms(1)] assms(2)] assms(1,3)])

theorem stream_history_fifo_witness:
  "\<exists>st'. answers (inline_push_E_B 4 8 [0] 0) (inline_pop_E_B 4 8 [0] 0)
      [Push [1, 2, 3, 4], Push [5, 6, 7, 8], Pop, Pop] (sample_store 4 8) =
     Done ([Accepted, Blocked, Delivered [1, 2, 3, 4], Blocked], st') \<and> ring_items 4 8 st' 0 = []"
  using stream_history_fifo [of 4 8 "sample_store 4 8" "[0]" 0
      "[Push [1, 2, 3, 4], Push [5, 6, 7, 8], Pop, Pop]"]
  by (auto simp: sample_ring_ok sample_ring_items ring_size_def ring_cap_def simp del: answers.simps)

end
