(* ===== verification/Stream_Unchecked.thy ===== *)
theory Stream_Unchecked imports Stream_Fifo begin

section \<open>Peeks and operations without a check\<close>

text \<open>
  The operations of \<open>lib/runtime/inline_stream_ops.cpp\<close> that rely on somebody else having
  computed that there is room or data, the peeks, the integer views of elements, and the
  linear buffer through which two fused kernels exchange elements.
\<close>

subsection \<open>Unchecked push and pop\<close>

lemma push_nocheck_eq:
  assumes "ring_ok E B st (p ! idx)" and "0 < ring_room E B st (p ! idx)"
  shows "inline_push_nocheck_E_B E B p idx e st = inline_push_E_B E B p idx e st"
  using inline_push_E_B_full_iff [OF assms(1)] assms(2)
  by (simp add: ring_room_def inline_push_nocheck_E_B_def inline_push_E_B_def with_stream_def Let_def)

lemma pop_nocheck_eq:
  assumes "ring_ok E B st (p ! idx)" and "ring_items E B st (p ! idx) \<noteq> []"
  shows "inline_pop_nocheck_E_B E B p idx st = inline_pop_E_B E B p idx st"
proof -
  have "ring_count E B st (p ! idx) \<noteq> 0" using assms(2) by (simp flip: length_ring_items)
  then show ?thesis using ring_count_0_iff [OF assms(1)]
    by (simp add: inline_pop_nocheck_E_B_def inline_pop_E_B_def with_stream_def Let_def)
qed

lemma nocheck_batch:
  assumes "ring_size E B" and idx: "idx < length p"
  shows "batch (inline_push_nocheck_E_B E B p idx) (inline_pop_nocheck_E_B E B p idx)
    (\<lambda>st. ring_items E B st (p ! idx)) (\<lambda>st. ring_ok E B st (p ! idx)) (\<lambda>e. length e = E)
    (\<lambda>st. ring_room E B st (p ! idx))"
proof
  fix st and e :: "byte list"
  assume ok: "ring_ok E B st (p ! idx)" "length e = E" and "0 < ring_room E B st (p ! idx)"
  then show "\<exists>s'. inline_push_nocheck_E_B E B p idx e st = Done s' \<and> ring_ok E B s' (p ! idx) \<and>
      ring_items E B s' (p ! idx) = ring_items E B st (p ! idx) @ [e] \<and>
      ring_room E B s' (p ! idx) = ring_room E B st (p ! idx) - 1"
    using inline_push_E_B_room [OF ok(1) idx ok(2)] by (simp add: push_nocheck_eq)
next
  fix st and e :: "byte list" and xs
  assume "ring_ok E B st (p ! idx)" "ring_items E B st (p ! idx) = e # xs"
  then show "\<exists>s'. inline_pop_nocheck_E_B E B p idx st = Done (e, s') \<and> ring_ok E B s' (p ! idx) \<and>
      ring_items E B s' (p ! idx) = xs \<and> ring_room E B st (p ! idx) \<le> ring_room E B s' (p ! idx)"
    using inline_pop_E_B_some [OF _ idx] by (simp add: pop_nocheck_eq)
qed

sublocale stream_ring \<subseteq> nocheck: batch "inline_push_nocheck_E_B E B p idx"
  "inline_pop_nocheck_E_B E B p idx" "\<lambda>st. ring_items E B st (p ! idx)"
  "\<lambda>st. ring_ok E B st (p ! idx)" "\<lambda>e. length e = E"
  "\<lambda>st. ring_room E B st (p ! idx)"
  by (rule nocheck_batch [OF geometry index])

text \<open>
  The variants that go through \<open>inp\<close> and \<open>outp\<close> are the plain ones when these pointers point to
  the stream's own buffer; the variants that take the stream itself are the array ones.
\<close>

lemma pop_nocheck_p_eq:
  "inp (hdr st (p ! idx)) = buf (hdr st (p ! idx)) \<Longrightarrow>
    inline_pop_nocheck_p_E_B E B p idx st = inline_pop_nocheck_E_B E B p idx st"
  by (simp add: inline_pop_nocheck_p_E_B_def inline_pop_nocheck_E_B_def with_stream_def)

lemma push_nocheck_p_eq:
  "outp (hdr st (p ! idx)) = buf (hdr st (p ! idx)) \<Longrightarrow>
    inline_push_nocheck_p_E_B E B p idx e st = inline_push_nocheck_E_B E B p idx e st"
  by (simp add: inline_push_nocheck_p_E_B_def inline_push_nocheck_E_B_def with_stream_def)

lemma pop_nocheck_s_eq:
  assumes "unat (elem_size (hdr st s)) = E"
  shows "inline_pop_nocheck_s s st = inline_pop_nocheck_E_B E STREAM_BUFFER_SIZE [s] 0 st"
  unfolding inline_pop_nocheck_s_def inline_pop_nocheck_E_B_def with_stream_def ucast_elem_size assms
  by (simp add: Let_def)

lemma push_nocheck_s_eq:
  assumes "unat (elem_size (hdr st s)) = E"
  shows "inline_push_nocheck_s s e st = inline_push_nocheck_E_B E STREAM_BUFFER_SIZE [s] 0 e st"
  unfolding inline_push_nocheck_s_def inline_push_nocheck_E_B_def with_stream_def ucast_elem_size assms
  by (simp add: Let_def)

lemma nocheck_variants:
  "inline_pop_nocheck_i = inline_pop_nocheck_s" "inline_push_nocheck_i = inline_push_nocheck_s"
  "inline_peek_nocheck_i = inline_peek_nocheck_s"
  "inline_pop_nocheck_i_int32 = inline_pop_nocheck_int32"
  "inline_pop_nocheck_i_float = inline_pop_nocheck_int32"
  "inline_push_nocheck_i_int32 = inline_push_nocheck_int32"
  "inline_push_nocheck_i_float = inline_push_nocheck_int32"
  by (intro ext; simp add: inline_pop_nocheck_i_def inline_pop_nocheck_s_def inline_push_nocheck_i_def
      inline_push_nocheck_s_def inline_peek_nocheck_i_def inline_peek_nocheck_s_def
      inline_pop_nocheck_i_int32_def inline_pop_nocheck_int32_def inline_pop_nocheck_i_float_def
      inline_push_nocheck_i_int32_def inline_push_nocheck_int32_def inline_push_nocheck_i_float_def)+

subsection \<open>Integers as elements\<close>

lemma bytes_of_int32_eq:
  "bytes_of_int32 w = [ucast w, ucast (drop_bit 8 w), ucast (drop_bit 16 w), ucast (drop_bit 24 w)]"
  by (simp add: bytes_of_int32_def upt_rec numeral_eq_Suc)

lemma int32_bytes_roundtrip: "int32_of_bytes (bytes_of_int32 w) = w"
  unfolding bytes_of_int32_eq int32_of_bytes_def
proof (rule bit_word_eqI)
  fix n
  assume "n < LENGTH(32)"
  then show "bit (fold (\<lambda>b w. push_bit 8 w OR ucast b)
      (rev [ucast w :: byte, ucast (drop_bit 8 w), ucast (drop_bit 16 w), ucast (drop_bit 24 w)]) (0 :: uint32)) n = bit w n"
    by (cases "n < 8"; cases "n < 16"; cases "n < 24"; auto simp: bit_simps not_less)
qed

lemma length_bytes_of_int32 [simp]: "length (bytes_of_int32 w) = 4"
  by (simp add: bytes_of_int32_def)

subsection \<open>Peeks\<close>

lemma peek_ready_iff:
  assumes "ring_ok E B st s" and "t = tail (hdr st s)" and "h = head (hdr st s)" and "x < 2 ^ 32"
    and "unat offset = unat t + E * x"
  shows "peek_ready B t h offset \<longleftrightarrow> x < ring_count E B st s"
proof -
  from assms(1) obtain N T H where *: "B = E * N" "unat (tail (hdr st s)) = E * T"
    "unat (head (hdr st s)) = E * H" "0 < E" "0 < N" "T < N" "H < N" "B \<le> 2 ^ 31"
    "length (mem st (buf (hdr st s))) = B" "ring_count E B st s = ring_dist N T H"
    by (rule ring_okE)
  have B: "unat (of_nat B :: size_t) = B" using *(8) by (intro unat_of_nat_small) simp
  have "unat h < B" using assms(1,3) by (simp add: ring_ok_def)
  then have "unat h + unat (of_nat B :: size_t) < 2 ^ LENGTH(64)" unfolding B using *(8) by simp
  then have "unat (h + of_nat B) = unat h + B" by (subst unat_add_small) (simp_all only: B)
  then have hB: "unat (h + of_nat B) = E * (H + N)" using *(1,3) assms(3) by (simp add: distrib_left)
  have th: "t < h \<longleftrightarrow> T < H" "h < t \<longleftrightarrow> H < T" and off: "offset < h \<longleftrightarrow> T + x < H"
    "offset < h + of_nat B \<longleftrightarrow> T + x < H + N"
    using *(2,3,4) assms(2,3,5) hB by (simp_all add: word_less_nat_alt flip: distrib_left)
  show ?thesis
    unfolding peek_ready_def th off *(10) using *(6,7) by (auto simp: ring_dist_cases)
qed

lemma ring_items_nth:
  "i < ring_count E B st s \<Longrightarrow> ring_items E B st s ! i =
     chunk E (mem st (buf (hdr st s))) ((unat (tail (hdr st s)) div E + i) mod (B div E))"
  by (simp add: ring_items_def)

lemma read_item:
  assumes "ring_ok E B st s" and "x < ring_count E B st s"
    and "unat pos = (unat (tail (hdr st s)) + E * x) mod B"
  shows "read_obj (buf (hdr st s)) pos E st = Done (ring_items E B st s ! x)"
proof -
  from assms(1) obtain N T H where *: "B = E * N" "unat (tail (hdr st s)) = E * T"
    "unat (head (hdr st s)) = E * H" "0 < E" "0 < N" "T < N" "H < N" "B \<le> 2 ^ 31"
    "length (mem st (buf (hdr st s))) = B" "ring_count E B st s = ring_dist N T H"
    by (rule ring_okE)
  have pos: "unat pos = E * ((T + x) mod N)"
    unfolding assms(3) *(1,2) by (simp flip: distrib_left mult_mod_right)
  have "E * Suc ((T + x) mod N) \<le> E * N" using *(5) by (intro mult_le_mono2) (simp add: Suc_leI)
  then have "E * ((T + x) mod N) + E \<le> B" using *(1) by simp
  with pos *(9) have "mem_get (mem st (buf (hdr st s))) pos E = Some (chunk E (mem st (buf (hdr st s))) ((T + x) mod N))"
    by (intro mem_get_chunk) auto
  with assms(2) * show ?thesis by (simp add: read_obj_def ring_items_nth)
qed

text \<open>
  C37.  A checked peek at offset \<open>off\<close> returns the element that is \<open>off\<close> places behind the
  oldest one, wherever the ring wraps around, and blocks when there are not that many.
\<close>

theorem inline_peek_correct:
  assumes ok: "ring_ok E B st (p ! idx)" and idx: "idx < length p"
  shows "inline_peek_E_B E B p idx off st =
    (if unat off < ring_count E B st (p ! idx) then Done (ring_items E B st (p ! idx) ! unat off)
     else WouldBlock (dst (hdr st (p ! idx))) (src (hdr st (p ! idx))))"
proof -
  let ?s = "p ! idx" and ?off = "tail (hdr st (p ! idx)) + ucast off * of_nat E"
  have sz: "ring_size E B" "unat (tail (hdr st ?s)) < B" using ok by (auto simp: ring_ok_def)
  then have E: "0 < E" "B \<le> 2 ^ 31" "E \<le> 2 ^ 31" by (auto simp: ring_size_def dest!: dvd_imp_le)
  have uE: "unat (of_nat E :: size_t) = E" using E by (intro unat_of_nat_small) simp
  have uB: "unat (of_nat B :: size_t) = B" using E by (intro unat_of_nat_small) simp
  have o32: "unat off < 2 ^ 32" by (rule unat_uint32_less)
  have small: "unat off * E < 2 ^ 63"
  proof -
    have "unat off * E \<le> unat off * 2 ^ 31" using E by (intro mult_le_mono2)
    also have "\<dots> < 2 ^ 32 * 2 ^ 31" using o32 by simp
    finally show ?thesis by simp
  qed
  have um: "unat (ucast off * of_nat E :: size_t) = E * unat off"
    using small uE by (subst unat_mult_small) (simp_all add: mult.commute)
  have uo: "unat ?off = unat (tail (hdr st ?s)) + E * unat off"
    using small sz(2) E um by (subst unat_add_small) (simp_all add: mult.commute)
  have ready: "peek_ready B (tail (hdr st ?s)) (head (hdr st ?s)) ?off \<longleftrightarrow> unat off < ring_count E B st ?s"
    by (rule peek_ready_iff [OF ok refl refl o32 uo])
  have "read_obj (buf (hdr st ?s)) (?off mod of_nat B) E st = Done (ring_items E B st ?s ! unat off)"
    if "unat off < ring_count E B st ?s"
    using that by (intro read_item [OF ok]) (simp_all add: unat_mod_distrib uo uB)
  with ready idx show ?thesis by (simp add: inline_peek_E_B_def Let_def)
qed

theorem inline_peek_correct_witness:
  "inline_peek_E_B 4 8 [0] 0 1 (sample_store 4 8) = WouldBlock (KernEnd 1) (KernEnd 0)"
  using inline_peek_correct [OF sample_ring_ok, of 4 8 0 "[0]" 1]
  by (simp add: ring_size_def sample_ring_items flip: length_ring_items)
    (simp add: sample_store_def sample_stream_def)

lemma inline_peek_nocheck_correct:
  assumes ok: "ring_ok E B st (p ! idx)" and idx: "idx < length p"
    and off: "unat off < ring_count E B st (p ! idx)"
  shows "inline_peek_nocheck_E_B E B p idx off st = Done (ring_items E B st (p ! idx) ! unat off)"
proof -
  let ?s = "p ! idx"
  have sz: "ring_size E B" "unat (tail (hdr st ?s)) < B" using ok by (auto simp: ring_ok_def)
  then have E: "0 < E" "B \<le> 2 ^ 31" "E \<le> 2 ^ 31" "B div E * E = B"
    by (auto simp: ring_size_def dest!: dvd_imp_le)
  have uB: "unat (of_nat B :: size_t) = B" using E by (intro unat_of_nat_small) simp
  have uE: "unat (of_nat E :: uint32) = E" using E by (simp add: unat_of_nat take_bit_nat_eq_self)
  have "unat off \<le> B div E" using off ring_count_less [OF ok] by simp
  then have "unat off * E \<le> B div E * E" by (rule mult_le_mono1)
  then have le: "unat off * E \<le> B" using E(4) by simp
  then have "unat (off * of_nat E) = E * unat off"
    using E uE by (subst unat_mult_small) (simp_all add: mult.commute)
  then have u: "unat (ucast (off * of_nat E) :: size_t) = E * unat off" by simp
  have "unat (tail (hdr st ?s) + ucast (off * of_nat E)) = unat (tail (hdr st ?s)) + E * unat off"
    using u le sz(2) E(2) by (subst unat_add_small) (simp_all add: mult.commute)
  then show ?thesis
    using read_item [OF ok off] uB idx
    by (simp add: inline_peek_nocheck_E_B_def Let_def unat_mod_distrib)
qed

subsection \<open>The buffer between two fused kernels\<close>

text \<open>
  A fused pair of kernels passes elements of four bytes through a plain byte array with one
  index for the producer and one for the consumer; the indices only move forward.
\<close>

definition inline_push_fuse_4 :: "byte list \<Rightarrow> int \<Rightarrow> byte list \<Rightarrow> (endp, byte list \<times> int) outcome" where
  "inline_push_fuse_4 b i e =
     (case mem_put b (of_int i) 4 e of None \<Rightarrow> Fault | Some b \<Rightarrow> Done (b, i + 4))"

definition inline_pop_fuse_4 :: "byte list \<Rightarrow> int \<Rightarrow> (endp, byte list \<times> int) outcome" where
  "inline_pop_fuse_4 b i =
     (case mem_get b (of_int i) 4 of None \<Rightarrow> Fault | Some e \<Rightarrow> Done (e, i + 4))"

definition inline_peek_fuse_4 :: "byte list \<Rightarrow> int \<Rightarrow> (endp, byte list \<times> int) outcome" where
  "inline_peek_fuse_4 b i = assert_out False (Done (b, i))"

record fuse_buf =
  fbuf :: "byte list"
  fpush :: int
  fpop :: int

definition fuse_push :: "byte list \<Rightarrow> fuse_buf \<Rightarrow> (endp, fuse_buf) outcome" where
  "fuse_push e f = bind_out (inline_push_fuse_4 (fbuf f) (fpush f) e)
     (\<lambda>(b, i). Done (f\<lparr>fbuf := b, fpush := i\<rparr>))"

definition fuse_pop :: "fuse_buf \<Rightarrow> (endp, byte list \<times> fuse_buf) outcome" where
  "fuse_pop f = bind_out (inline_pop_fuse_4 (fbuf f) (fpop f)) (\<lambda>(e, i). Done (e, f\<lparr>fpop := i\<rparr>))"

definition fuse_ok :: "fuse_buf \<Rightarrow> bool" where
  "fuse_ok f \<longleftrightarrow> 0 \<le> fpop f \<and> fpop f \<le> fpush f \<and> 4 dvd fpop f \<and> 4 dvd fpush f \<and>
     fpush f \<le> int (length (fbuf f)) \<and> length (fbuf f) < 2 ^ 31"

definition fuse_items :: "fuse_buf \<Rightarrow> byte list list" where
  "fuse_items f = map (chunk 4 (fbuf f)) [nat (fpop f div 4)..<nat (fpush f div 4)]"

definition fuse_room :: "fuse_buf \<Rightarrow> nat" where
  "fuse_room f = length (fbuf f) div 4 - nat (fpush f div 4)"

lemma unat_of_int_small: "0 \<le> i \<Longrightarrow> i < 2 ^ 31 * 2 \<Longrightarrow> unat (of_int i :: size_t) = nat i"
  using unat_of_nat_small [of "nat i"] by simp

interpretation fuse: batch fuse_push fuse_pop fuse_items fuse_ok "\<lambda>e. length e = 4" fuse_room
proof
  fix f and e :: "byte list"
  assume ok: "fuse_ok f" and e: "length e = 4" and room: "0 < fuse_room f"
  define k r where "k = nat (fpush f div 4)" and "r = nat (fpop f div 4)"
  have k: "fpush f = 4 * int k" and r: "fpop f = 4 * int r" and le: "r \<le> k"
    and len: "length (fbuf f) < 2 ^ 31"
    using ok by (auto simp: fuse_ok_def k_def r_def)
  have fits: "4 * k + 4 \<le> length (fbuf f)"
    using room unfolding fuse_room_def k_def [symmetric] by simp
  have a: "unat (of_int (fpush f) :: size_t) = 4 * k"
    using fits len by (subst unat_of_int_small) (auto simp: k)
  obtain m where m: "mem_put (fbuf f) (of_int (fpush f)) 4 e = Some m"
    using a fits e by (simp add: mem_put_def)
  have len': "length m = length (fbuf f)" by (rule length_mem_put [OF m])
  let ?f = "f\<lparr>fbuf := m, fpush := fpush f + 4\<rparr>"
  have chunks: "chunk 4 m j = (if j = k then e else chunk 4 (fbuf f) j)" if "j \<le> k" for j
    using chunk_of_put [OF m a _ e, of j] that fits by simp
  have k': "(fpush f + 4) div 4 = int (Suc k)" by (simp add: k)
  have "fuse_items ?f = fuse_items f @ [e]"
    using le chunks by (simp add: fuse_items_def k' k_def [symmetric] r_def [symmetric] nat_add_distrib)
  moreover have "fuse_ok ?f" using ok fits by (auto simp: fuse_ok_def len' k)
  moreover have "fuse_room ?f = fuse_room f - 1"
    by (simp add: fuse_room_def k' k_def [symmetric] len' nat_add_distrib)
  moreover have "fuse_push e f = Done ?f" by (simp add: fuse_push_def inline_push_fuse_4_def m)
  ultimately show "\<exists>s'. fuse_push e f = Done s' \<and> fuse_ok s' \<and> fuse_items s' = fuse_items f @ [e] \<and>
      fuse_room s' = fuse_room f - 1" by blast
next
  fix f and e :: "byte list" and xs
  assume ok: "fuse_ok f" and items: "fuse_items f = e # xs"
  define k r where "k = nat (fpush f div 4)" and "r = nat (fpop f div 4)"
  have k: "fpush f = 4 * int k" and r: "fpop f = 4 * int r" and len: "length (fbuf f) < 2 ^ 31"
    and kl: "4 * k \<le> length (fbuf f)"
    using ok by (auto simp: fuse_ok_def k_def r_def)
  have rk: "r < k" using items by (auto simp: fuse_items_def k_def [symmetric] r_def [symmetric]
    intro: ccontr)
  then have e: "e = chunk 4 (fbuf f) r" "xs = map (chunk 4 (fbuf f)) [Suc r..<k]"
    using items by (auto simp: fuse_items_def k_def [symmetric] r_def [symmetric] upt_conv_Cons)
  have "unat (of_int (fpop f) :: size_t) = 4 * r"
    using rk kl len by (subst unat_of_int_small) (auto simp: r)
  then have "mem_get (fbuf f) (of_int (fpop f)) 4 = Some e"
    using rk kl by (simp add: mem_get_chunk e)
  moreover have r': "(fpop f + 4) div 4 = int (Suc r)" by (simp add: r)
  ultimately show "\<exists>s'. fuse_pop f = Done (e, s') \<and> fuse_ok s' \<and> fuse_items s' = xs \<and>
      fuse_room f \<le> fuse_room s'"
    using ok rk by (auto simp: fuse_pop_def inline_pop_fuse_4_def fuse_items_def fuse_ok_def
      fuse_room_def e k_def [symmetric] r k nat_add_distrib)
qed

text \<open>
   The buffer between two fused kernels carries a batch unchanged: the elements the first
  kernel pushes into an empty buffer with room for them are the ones the second kernel pops,
  in the same order.
\<close>

theorem fuse_batch_roundtrip:
  assumes "fuse_ok f" and "fpush f = fpop f" and "list_all (\<lambda>e. length e = 4) xs"
    and "length xs \<le> fuse_room f"
  shows "\<exists>f'. bind_out (push_all fuse_push xs f) (pop_all fuse_pop (length xs)) = Done (xs, f')"
proof -
  have "fuse_items f = []" using assms(2) by (simp add: fuse_items_def)
  from fuse.batch_roundtrip [OF assms(1) this assms(3,4)] show ?thesis by blast
qed

theorem fuse_batch_roundtrip_witness:
  "\<exists>f'. bind_out (push_all fuse_push [[1, 2, 3, 4], [5, 6, 7, 8]] \<lparr>fbuf = replicate 8 0, fpush = 0, fpop = 0\<rparr>)
     (pop_all fuse_pop 2) = Done ([[1, 2, 3, 4], [5, 6, 7, 8]], f')"
proof -
  let ?f = "\<lparr>fbuf = replicate 8 0, fpush = 0, fpop = 0\<rparr>"
  have "fuse_ok ?f" "fuse_room ?f = 2" by (simp_all add: fuse_ok_def fuse_room_def)
  with fuse_batch_roundtrip [of ?f "[[1, 2, 3, 4], [5, 6, 7, 8]]"] show ?thesis
    by (simp add: numeral_2_eq_2)
qed

end
