(* ===== verification/Array_Ops.thy ===== *)
theory Array_Ops
  imports Stream_Unchecked
begin

section \<open>Streams over arrays\<close>

text \<open>
  The operations of \<open>lib/runtime/inline_stream_ops.cpp\<close> that use an ordinary array as a stream:
  \<open>head\<close> and \<open>tail\<close> hold addresses and advance by the stride.  An array stream is a batch queue
  as long as the addresses do not wrap around and an element fits into the stride.
\<close>

definition flat_get :: "(size_t \<Rightarrow> byte) \<Rightarrow> size_t \<Rightarrow> nat \<Rightarrow> byte list" where
  "flat_get m a n = map (\<lambda>i. m (a + of_nat i)) [0..<n]"

definition flat_put :: "(size_t \<Rightarrow> byte) \<Rightarrow> size_t \<Rightarrow> nat \<Rightarrow> byte list \<Rightarrow> size_t \<Rightarrow> byte" where
  "flat_put m a n e x = (if unat (x - a) < n then e ! unat (x - a) else m x)"

definition inline_array_nocheck_s :: "size_t \<Rightarrow> uint32 \<Rightarrow> store \<Rightarrow> byte list" where
  "inline_array_nocheck_s p off st = flat_get (flat st) (p + ucast (off * 4)) 4"

definition inline_array_push_nocheck :: "ptr list \<Rightarrow> nat \<Rightarrow> byte list \<Rightarrow> store \<Rightarrow> (endp, store) outcome" where
  "inline_array_push_nocheck p idx e st = with_stream p idx (\<lambda>s.
     let n = unat (elem_size (hdr st s)); h = head (hdr st s) in
     if length e < n then Fault
     else Done (RECORD_PUSH s (set_head s (h + ucast (stride (hdr st s)))
                  (st\<lparr>flat := flat_put (flat st) h n e\<rparr>))))"

definition inline_array_pop_nocheck :: "ptr list \<Rightarrow> nat \<Rightarrow> store \<Rightarrow> (endp, byte list \<times> store) outcome" where
  "inline_array_pop_nocheck p idx st = with_stream p idx (\<lambda>s.
     let t = tail (hdr st s) in
     Done (flat_get (flat st) t (unat (elem_size (hdr st s))),
           set_tail s (t + ucast (stride (hdr st s))) st))"

subsection \<open>An array stream as a batch queue\<close>

text \<open>
  \<open>array_ok L st s\<close>: the positions are strides apart and the part of the array up to the limit
  \<open>L\<close> does not wrap around the address space.
\<close>

definition array_step :: "store \<Rightarrow> ptr \<Rightarrow> nat" where
  "array_step st s = unat (stride (hdr st s))"

definition array_count :: "store \<Rightarrow> ptr \<Rightarrow> nat" where
  "array_count st s = (unat (head (hdr st s)) - unat (tail (hdr st s))) div array_step st s"

definition array_room :: "nat \<Rightarrow> store \<Rightarrow> ptr \<Rightarrow> nat" where
  "array_room L st s = (L - unat (head (hdr st s))) div array_step st s"

definition array_ok :: "nat \<Rightarrow> nat \<Rightarrow> store \<Rightarrow> ptr \<Rightarrow> bool" where
  "array_ok E L st s \<longleftrightarrow> unat (elem_size (hdr st s)) = E \<and> 0 < array_step st s \<and> E \<le> array_step st s \<and>
     unat (tail (hdr st s)) \<le> unat (head (hdr st s)) \<and> unat (head (hdr st s)) \<le> L \<and> L < 2 ^ 64 \<and>
     array_step st s dvd unat (head (hdr st s)) - unat (tail (hdr st s))"

definition array_items :: "store \<Rightarrow> ptr \<Rightarrow> byte list list" where
  "array_items st s = map (\<lambda>i. flat_get (flat st) (tail (hdr st s) + of_nat (array_step st s * i))
     (unat (elem_size (hdr st s)))) [0..<array_count st s]"

lemma length_flat_get [simp]: "length (flat_get m a n) = n"
  by (simp add: flat_get_def)

lemma flat_get_put_same: "length e = n \<Longrightarrow> n < 2 ^ 32 \<Longrightarrow> flat_get (flat_put m a n e) a n = e"
  by (rule nth_equalityI) (simp_all add: flat_get_def flat_put_def unat_of_nat_small)

lemma flat_get_put_other:
  assumes "unat b + n' \<le> unat a" and "unat a + n \<le> 2 ^ 64" and "n' < 2 ^ 32"
  shows "flat_get (flat_put m a n e) b n' = flat_get m b n'"
proof (rule nth_equalityI)
  fix i
  assume "i < length (flat_get (flat_put m a n e) b n')"
  then have i: "i < n'" by simp
  have ui: "unat (of_nat i :: size_t) = i" using i assms(3) by (intro unat_of_nat_small) simp
  have "unat a < 2 ^ LENGTH(64)" by (rule unsigned_less)
  then have small: "unat b + i < 2 ^ 64" using assms(1) i by simp
  then have ub: "unat (b + of_nat i) = unat b + i"
    by (subst unat_add_small) (simp_all add: ui)
  then have "\<not> unat (b + of_nat i - a) < n"
    using assms i small by (simp add: unat_sub_if')
  with i show "flat_get (flat_put m a n e) b n' ! i = flat_get m b n' ! i"
    by (simp add: flat_get_def flat_put_def)
qed simp

lemma stride_add:
  assumes "unat (h :: size_t) + unat (x :: uint32) < 2 ^ 64"
  shows "unat (h + ucast x) = unat h + unat x"
  using assms by (subst unat_add_small) simp_all

lemma array_push_room:
  assumes ok: "array_ok E L st (p ! idx)" and idx: "idx < length p" and e: "length e = E"
    and room: "0 < array_room L st (p ! idx)"
  shows "\<exists>st'. inline_array_push_nocheck p idx e st = Done st' \<and> array_ok E L st' (p ! idx) \<and>
    array_items st' (p ! idx) = array_items st (p ! idx) @ [e] \<and>
    array_room L st' (p ! idx) = array_room L st (p ! idx) - 1"
proof -
  define s where "s = p ! idx"
  define D where "D = array_step st s"
  define h t where "h = head (hdr st s)" and "t = tail (hdr st s)"
  have *: "unat (elem_size (hdr st s)) = E" "0 < D" "E \<le> D" "unat t \<le> unat h" "unat h \<le> L" "L < 2 ^ 64"
    "D dvd unat h - unat t"
    using ok by (auto simp: array_ok_def s_def D_def h_def t_def)
  have E32: "E < 2 ^ 32" using unat_uint32_less [of "elem_size (hdr st s)"] *(1) by simp
  have hD: "unat h + D \<le> L"
  proof -
    have "1 \<le> (L - unat h) div D" using room by (simp add: array_room_def s_def [symmetric] D_def h_def)
    then have "D \<le> L - unat h" using *(2) by (metis div_less not_less one_le_mult_iff not_one_le_zero)
    then show ?thesis using *(5) by simp
  qed
  define h' where "h' = h + ucast (stride (hdr st s))"
  have uh': "unat h' = unat h + D"
    unfolding h'_def using hD *(6) by (subst stride_add) (simp_all add: D_def array_step_def)
  obtain c where c: "unat h = unat t + D * c" using *(4,7) by (metis dvdE le_add_diff_inverse)
  let ?st = "RECORD_PUSH s (set_head s h' (st\<lparr>flat := flat_put (flat st) h E e\<rparr>))"
  have sel: "hdr ?st s = (hdr st s)\<lparr>head := h', num_push := num_push (hdr st s) + 1\<rparr>"
    "flat ?st = flat_put (flat st) h E e"
    by (simp_all add: RECORD_PUSH_def set_head_def)
  have step: "array_step ?st s = D" by (simp add: array_step_def sel D_def)
  have cnt: "array_count st s = c" "array_count ?st s = Suc c"
    using *(2) c uh' by (simp_all add: array_count_def step sel D_def [symmetric] h_def [symmetric] t_def [symmetric])
  have pos: "unat (t + of_nat (D * i)) = unat t + D * i" if "i \<le> c" for i
  proof -
    have "D * i \<le> D * c" using that by simp
    then have small: "unat t + D * i < 2 ^ 64" using c *(5,6) by linarith
    then have "unat (of_nat (D * i) :: size_t) = D * i" by (simp add: unat_of_nat take_bit_nat_eq_self del: of_nat_mult)
    with small show ?thesis by (subst unat_add_small) simp_all
  qed
  have old: "flat_get (flat_put (flat st) h E e) (t + of_nat (D * i)) E = flat_get (flat st) (t + of_nat (D * i)) E"
    if "i < c" for i
  proof (rule flat_get_put_other)
    have "D * i + D \<le> D * c" using mult_le_mono2 [of "Suc i" c D] that by simp
    then show "unat (t + of_nat (D * i)) + E \<le> unat h" using pos [of i] that c *(3) by simp
    show "unat h + E \<le> 2 ^ 64" using hD *(3,6) by simp
  qed (rule E32)
  have hc: "t + of_nat (D * c) = h"
    using pos [of c] c by (simp add: word_unat_eq_iff del: of_nat_mult)
  have "array_items ?st s = array_items st s @ [e]"
    unfolding array_items_def cnt step D_def [symmetric]
    using old flat_get_put_same [OF e E32, of "flat st" h] *(1) hc
    by (simp add: sel t_def [symmetric] del: of_nat_mult)
  moreover have "array_ok E L ?st s"
  proof -
    have "unat h' - unat t = D * Suc c" using uh' c by simp
    then have d: "D dvd unat h' - unat t" by (simp only: dvd_triv_left)
    have t: "unat t \<le> unat h'" and h: "unat h' \<le> L" using uh' *(4) hD by simp_all
    have sels: "tail (hdr ?st s) = t" "head (hdr ?st s) = h'" "elem_size (hdr ?st s) = elem_size (hdr st s)"
      by (simp_all add: sel t_def)
    show ?thesis unfolding array_ok_def step sels by (intro conjI *(1-3,6) t h d)
  qed
  moreover have "array_room L ?st s = array_room L st s - 1"
  proof -
    have "L - unat h = (L - (unat h + D)) + D" using hD by simp
    then have "(L - unat h) div D = (L - unat h') div D + 1"
      unfolding uh' using *(2) by (simp only: div_add_self2)
    then show ?thesis by (simp add: array_room_def step sel D_def [symmetric] h_def [symmetric])
  qed
  moreover have "inline_array_push_nocheck p idx e st = Done ?st"
    using idx e *(1) by (simp add: inline_array_push_nocheck_def s_def [symmetric] Let_def h_def h'_def)
  ultimately show ?thesis unfolding s_def by blast
qed

lemma array_pop_some:
  assumes ok: "array_ok E L st (p ! idx)" and idx: "idx < length p"
    and items: "array_items st (p ! idx) = x # xs"
  shows "\<exists>st'. inline_array_pop_nocheck p idx st = Done (x, st') \<and> array_ok E L st' (p ! idx) \<and>
    array_items st' (p ! idx) = xs \<and> array_room L st (p ! idx) \<le> array_room L st' (p ! idx)"
proof -
  define s where "s = p ! idx"
  define D where "D = array_step st s"
  define h t where "h = head (hdr st s)" and "t = tail (hdr st s)"
  have *: "unat (elem_size (hdr st s)) = E" "0 < D" "E \<le> D" "unat t \<le> unat h" "unat h \<le> L" "L < 2 ^ 64"
    "D dvd unat h - unat t"
    using ok by (auto simp: array_ok_def s_def D_def h_def t_def)
  obtain c where c: "unat h = unat t + D * c" using *(4,7) by (metis dvdE le_add_diff_inverse)
  have "length (array_items st s) \<noteq> 0" using items by (simp add: s_def)
  then have "c \<noteq> 0" using *(2) c
    by (simp add: array_items_def array_count_def D_def [symmetric] h_def [symmetric] t_def [symmetric])
  then obtain c' where c': "c = Suc c'" by (cases c) auto
  define t' where "t' = t + ucast (stride (hdr st s))"
  have "D \<le> D * c" using c' by simp
  then have ut': "unat t' = unat t + D"
  proof -
    from \<open>D \<le> D * c\<close> c *(5,6) have "unat t + D < 2 ^ 64" by linarith
    then show ?thesis unfolding t'_def by (subst stride_add) (simp_all add: D_def array_step_def)
  qed
  let ?st = "set_tail s t' st"
  have sel: "hdr ?st s = (hdr st s)\<lparr>tail := t'\<rparr>" "flat ?st = flat st" by (simp_all add: set_tail_def)
  have step: "array_step ?st s = D" by (simp add: array_step_def sel D_def)
  have cnt: "array_count st s = Suc c'" "array_count ?st s = c'"
    using *(2) c c' ut' by (simp_all add: array_count_def step sel D_def [symmetric] h_def [symmetric] t_def [symmetric])
  have word: "of_nat D = (ucast (stride (hdr st s)) :: size_t)"
    unfolding D_def array_step_def by (rule ucast_elem_size [symmetric])
  have shift: "t + of_nat (D * Suc i) = t' + of_nat (D * i)" for i
    unfolding t'_def word [symmetric] by (simp add: distrib_left)
  have "array_items st s = flat_get (flat st) t E # array_items ?st s"
    unfolding array_items_def cnt step D_def [symmetric] t_def [symmetric] *(1)
    using shift *(1) by (simp add: sel upt_conv_Cons map_Suc_upt [symmetric] del: upt_Suc of_nat_mult mult_Suc_right)
  then have x: "x = flat_get (flat st) t E" "array_items ?st s = xs" using items by (simp_all add: s_def)
  moreover have "array_ok E L ?st s"
  proof -
    have "unat h - unat t' = D * c'" "unat t' \<le> unat h" using ut' c c' by simp_all
    then have d: "D dvd unat h - unat t'" and t: "unat t' \<le> unat h" by simp_all
    have sels: "tail (hdr ?st s) = t'" "head (hdr ?st s) = h" "elem_size (hdr ?st s) = elem_size (hdr st s)"
      by (simp_all add: sel h_def)
    show ?thesis unfolding array_ok_def step sels by (intro conjI *(1-3,5,6) t d)
  qed
  moreover have "array_room L ?st s = array_room L st s" by (simp add: array_room_def step sel D_def)
  moreover have "inline_array_pop_nocheck p idx st = Done (x, ?st)"
    using idx *(1) x(1) by (simp add: inline_array_pop_nocheck_def s_def [symmetric] Let_def t_def t'_def)
  ultimately show ?thesis unfolding s_def by auto
qed

interpretation arr: batch "inline_array_push_nocheck [s] 0" "inline_array_pop_nocheck [s] 0"
  "\<lambda>st. array_items st s" "\<lambda>st. array_ok E L st s" "\<lambda>e. length e = E" "\<lambda>st. array_room L st s"
  for s E L
proof
  fix st and e :: "byte list"
  assume *: "array_ok E L st s" "length e = E" "0 < array_room L st s"
  show "\<exists>s'. inline_array_push_nocheck [s] 0 e st = Done s' \<and> array_ok E L s' s \<and>
      array_items s' s = array_items st s @ [e] \<and> array_room L s' s = array_room L st s - 1"
    using array_push_room [of E L st "[s]" 0 e] * by simp
next
  fix st and e :: "byte list" and xs
  assume *: "array_ok E L st s" "array_items st s = e # xs"
  show "\<exists>s'. inline_array_pop_nocheck [s] 0 st = Done (e, s') \<and> array_ok E L s' s \<and>
      array_items s' s = xs \<and> array_room L st s \<le> array_room L s' s"
    using array_pop_some [of E L st "[s]" 0 e xs] * by simp
qed

text \<open>
   An array used as a stream gives back what was written to it: a batch of elements pushed
  from its start and fitting below the limit is popped unchanged, whatever the stride, as
  long as an element fits into it.
\<close>

theorem array_batch_roundtrip:
  assumes "array_ok E L st s" and "head (hdr st s) = tail (hdr st s)"
    and "list_all (\<lambda>e. length e = E) xs" and "length xs \<le> array_room L st s"
  shows "\<exists>st'. bind_out (push_all (inline_array_push_nocheck [s] 0) xs st)
    (pop_all (inline_array_pop_nocheck [s] 0) (length xs)) = Done (xs, st')"
proof -
  have "array_items st s = []" using assms(2) by (simp add: array_items_def array_count_def)
  from arr.batch_roundtrip [OF assms(1) this assms(3,4)] show ?thesis by blast
qed

theorem array_batch_roundtrip_witness:
  "\<exists>st st'. bind_out (push_all (inline_array_push_nocheck [0] 0) [[1, 2, 3, 4], [5, 6, 7, 8]] st)
    (pop_all (inline_array_pop_nocheck [0] 0) 2) = Done ([[1, 2, 3, 4], [5, 6, 7, 8]], st')"
proof -
  let ?st = "(sample_store 4 8)\<lparr>hdr := \<lambda>s. (sample_stream 4 s)\<lparr>stride := 6\<rparr>\<rparr>"
  have "array_ok 4 100 ?st 0" "head (hdr ?st 0) = tail (hdr ?st 0)" "2 \<le> array_room 100 ?st 0"
    by (simp_all add: array_ok_def array_step_def array_room_def sample_stream_def)
  with array_batch_roundtrip [of 4 100 ?st 0 "[[1, 2, 3, 4], [5, 6, 7, 8]]"] show ?thesis
    by (simp add: numeral_2_eq_2) blast
qed

end
