(* ===== verification/Stream_Space.thy ===== *)
theory Stream_Space
  imports Stream_Fifo
begin

section \<open>Blocking variants, space and iteration counts\<close>

text \<open>
  The second part of \<open>lib/runtime/inline_stream_ops.cpp\<close>: the variants that wait in a loop
  for the neighbour instead of calling the scheduler, and the computation of how many times a
  kernel may run before one of its streams is full or empty.
\<close>

subsection \<open>Waiting loops\<close>

text \<open>
  \<open>env i\<close> is what the other threads do to the store before the loop reads it for the
  \<open>i\<close>-th time.  The loop may wait forever, so it is a partial function; its value counts the
  calls of \<open>usleep\<close>, which \<open>__SKIRRT_PASS\<close> makes once the two retries are used up.
\<close>

definition PASS_RETRY :: nat where
  "PASS_RETRY = 2"

partial_function (option) spin ::
    "(store \<Rightarrow> bool) \<Rightarrow> (nat \<Rightarrow> store \<Rightarrow> store) \<Rightarrow> nat \<Rightarrow> nat \<Rightarrow> nat \<Rightarrow> store \<Rightarrow> (nat \<times> store) option" where
  "spin busy env i retry slept st =
     (if busy st then
        (if retry \<noteq> 0 then spin busy env (Suc i) (retry - 1) slept (env i st)
         else spin busy env (Suc i) retry (Suc slept) (env i st))
      else Some (slept, st))"

definition inline_push_block :: "(nat \<Rightarrow> store \<Rightarrow> store) \<Rightarrow> ptr list \<Rightarrow> nat \<Rightarrow> byte list \<Rightarrow> store \<Rightarrow>
    (nat \<times> (endp, store) outcome) option" where
  "inline_push_block env p idx e st =
     (if idx < length p then
        (let s = p ! idx; h = head (hdr st s);
             nx = (h + ucast (elem_size (hdr st s))) mod of_nat STREAM_BUFFER_SIZE in
         case spin (\<lambda>st. nx = tail (hdr st s)) env 0 PASS_RETRY 0 st of
           None \<Rightarrow> None
         | Some (slept, st) \<Rightarrow>
             Some (slept, put_elem s (buf (hdr st s)) h (unat (elem_size (hdr st s))) e nx st))
      else Some (0, Fault))"

definition inline_pop_block :: "(nat \<Rightarrow> store \<Rightarrow> store) \<Rightarrow> ptr list \<Rightarrow> nat \<Rightarrow> store \<Rightarrow>
    (nat \<times> (endp, byte list \<times> store) outcome) option" where
  "inline_pop_block env p idx st =
     (if idx < length p then
        (let s = p ! idx; t = tail (hdr st s) in
         case spin (\<lambda>st. head (hdr st s) = t) env 0 PASS_RETRY 0 st of
           None \<Rightarrow> None
         | Some (slept, st) \<Rightarrow>
             Some (slept, get_elem s (buf (hdr st s)) t (unat (elem_size (hdr st s)))
                ((t + ucast (elem_size (hdr st s))) mod of_nat STREAM_BUFFER_SIZE) st))
      else Some (0, Fault))"

definition inline_peek_block :: "(nat \<Rightarrow> store \<Rightarrow> store) \<Rightarrow> ptr list \<Rightarrow> nat \<Rightarrow> uint32 \<Rightarrow> store \<Rightarrow>
    (nat \<times> (endp, byte list) outcome) option" where
  "inline_peek_block env p idx off st =
     (if idx < length p then
        (let s = p ! idx; t = tail (hdr st s);
             offset = t + ucast off * ucast (elem_size (hdr st s)) in
         case spin (\<lambda>st. \<not> peek_ready STREAM_BUFFER_SIZE t (head (hdr st s)) offset)
                env 0 PASS_RETRY 0 st of
           None \<Rightarrow> None
         | Some (slept, st) \<Rightarrow>
             Some (slept, read_obj (buf (hdr st s)) (offset mod of_nat STREAM_BUFFER_SIZE)
                (unat (elem_size (hdr st s))) st))
      else Some (0, Fault))"

text \<open>The store after the first \<open>k\<close> interferences.\<close>

fun env_state :: "(nat \<Rightarrow> store \<Rightarrow> store) \<Rightarrow> nat \<Rightarrow> store \<Rightarrow> store" where
  "env_state env 0 st = st"
| "env_state env (Suc k) st = env k (env_state env k st)"

lemma spin_reaches:
  assumes "\<forall>j < k. busy (env_state env (i + j) st)" and "\<not> busy (env_state env (i + k) st)"
  shows "spin busy env i r n (env_state env i st) = Some (n + (k - r), env_state env (i + k) st)"
  using assms
proof (induction k arbitrary: i r n)
  case 0
  then show ?case by (simp add: spin.simps)
next
  case (Suc k)
  have busy: "busy (env_state env i st)" using Suc.prems(1) by (metis add.right_neutral zero_less_Suc)
  have less: "\<forall>j < k. busy (env_state env (Suc i + j) st)"
    using Suc.prems(1) by (metis add_Suc_shift Suc_less_eq)
  have "\<not> busy (env_state env (Suc i + k) st)" using Suc.prems(2) by simp
  from Suc.IH [OF less this] busy show ?case
    by (subst spin.simps) (cases r, simp_all)
qed

lemma spin_Some_not_busy:
  assumes "spin busy env i r n st = Some y"
  shows "\<not> busy (snd y)"
  using assms
  by (rule spin.raw_induct [where P = "\<lambda>busy env i r n st y. \<not> busy (snd y)", rotated])
    (fastforce split: if_splits)

lemma spin_Some_env:
  assumes "spin busy env i r n (env_state env i st) = Some y"
  shows "\<exists>k. snd y = env_state env k st"
proof -
  let ?P = "\<lambda>busy env i r n st0 y. \<forall>st. st0 = env_state env i st \<longrightarrow> (\<exists>k. snd y = env_state env k st)"
  have "?P busy env i r n (env_state env i st) y"
  proof (rule spin.raw_induct [where P = ?P, OF _ assms])
    fix spin :: "(store \<Rightarrow> bool) \<Rightarrow> (nat \<Rightarrow> store \<Rightarrow> store) \<Rightarrow> nat \<Rightarrow> nat \<Rightarrow> nat \<Rightarrow> store \<Rightarrow> (nat \<times> store) option"
    fix busy env i r n st0 y
    assume IH: "\<And>busy env i r n st0 y. spin busy env i r n st0 = Some y \<Longrightarrow> ?P busy env i r n st0 y"
      and run: "(if busy st0 then if r \<noteq> 0 then spin busy env (Suc i) (r - 1) n (env i st0)
          else spin busy env (Suc i) r (Suc n) (env i st0) else Some (n, st0)) = Some y"
    show "?P busy env i r n st0 y"
    proof (intro allI impI)
      fix st
      assume st0: "st0 = env_state env i st"
      show "\<exists>k. snd y = env_state env k st"
      proof (cases "busy st0")
        case True
        with run obtain r' n' where "spin busy env (Suc i) r' n' (env i st0) = Some y"
          by (auto split: if_splits)
        from IH [OF this] st0 show ?thesis by simp
      next
        case False
        with run st0 show ?thesis by auto
      qed
    qed
  qed
  then show ?thesis by simp
qed

text \<open>The loop returns exactly when the condition fails after finitely many interferences.\<close>

lemma spin_returns_iff:
  "(\<exists>r. spin busy env 0 n m st = Some r) \<longleftrightarrow> (\<exists>k. \<not> busy (env_state env k st))"
proof
  assume "\<exists>r. spin busy env 0 n m st = Some r"
  then obtain r where run: "spin busy env 0 n m (env_state env 0 st) = Some r" by auto
  with spin_Some_not_busy [OF run] spin_Some_env [OF run] show "\<exists>k. \<not> busy (env_state env k st)"
    by metis
next
  assume ex: "\<exists>k. \<not> busy (env_state env k st)"
  define k where "k = (LEAST k. \<not> busy (env_state env k st))"
  have "\<not> busy (env_state env k st)" unfolding k_def using ex by (rule LeastI_ex)
  moreover have "\<forall>j < k. busy (env_state env j st)" unfolding k_def by (blast dest: not_less_Least)
  ultimately show "\<exists>r. spin busy env 0 n m st = Some r"
    using spin_reaches [of k busy env 0 st n m] by auto
qed

subsection \<open>Space in a stream\<close>

definition inline_pop_space_E_B :: "nat \<Rightarrow> nat \<Rightarrow> store \<Rightarrow> ptr \<Rightarrow> size_t" where
  "inline_pop_space_E_B E B st s =
     (let num = head (hdr st s) - tail (hdr st s) in
      if sint num < 0 then num + of_nat B else num)"

definition inline_push_space_E_B :: "nat \<Rightarrow> nat \<Rightarrow> store \<Rightarrow> ptr \<Rightarrow> size_t" where
  "inline_push_space_E_B E B st s =
     (let nx = (head (hdr st s) + of_nat E) mod of_nat B;
          num = tail (hdr st s) - nx in
      if sint num < 0 then num + of_nat B else num)"

definition inline_pop_space :: "store \<Rightarrow> ptr \<Rightarrow> size_t" where
  "inline_pop_space st s =
     (let num = head (hdr st s) - tail (hdr st s) in
      if sint num < 0 then num + of_nat STREAM_BUFFER_SIZE else num)"

definition inline_push_space :: "store \<Rightarrow> ptr \<Rightarrow> size_t" where
  "inline_push_space st s =
     (let nx = (head (hdr st s) + ucast (elem_size (hdr st s))) mod of_nat STREAM_BUFFER_SIZE;
          num = tail (hdr st s) - nx in
      if sint num < 0 then num + of_nat STREAM_BUFFER_SIZE else num)"

subsection \<open>How often a kernel may run\<close>

text \<open>
  The two loops of \<open>compute_niters\<close>.  \<open>Inl v\<close> is the early return with \<open>*v\<close> set (and the
  count 0), \<open>Inr n\<close> the bound so far.  The rates are \<open>int\<close> and are converted to \<open>size_t\<close>
  before the division and the subtraction; the quotient is stored in a \<open>long long\<close>.
\<close>

fun niters_outs :: "(ptr \<Rightarrow> size_t) \<Rightarrow> (ptr \<Rightarrow> size_t) \<Rightarrow> store \<Rightarrow> ptr list \<Rightarrow> nat list \<Rightarrow> int \<Rightarrow>
    (endp, endp + int) outcome" where
  "niters_outs space esz st outs [] n = Done (Inr n)"
| "niters_outs space esz st outs (i # is) n = with_stream outs i (\<lambda>s.
     assert_out (esz s \<noteq> 0 \<and> push_rate (hdr st s) \<noteq> 0)
       (let npush = sint ((space s div esz s) div of_int (push_rate (hdr st s))) in
        if npush \<le> 0 then Done (Inl (dst (hdr st s)))
        else niters_outs space esz st outs is (min n npush)))"

fun niters_ins :: "(ptr \<Rightarrow> size_t) \<Rightarrow> (ptr \<Rightarrow> size_t) \<Rightarrow> store \<Rightarrow> ptr list \<Rightarrow> nat list \<Rightarrow> int \<Rightarrow>
    (endp, endp + int) outcome" where
  "niters_ins space esz st ins [] n = Done (Inr n)"
| "niters_ins space esz st ins (i # is) n = with_stream ins i (\<lambda>s.
     assert_out (esz s \<noteq> 0 \<and> pop_rate (hdr st s) \<noteq> 0)
       (let npop = sint ((space s div esz s - of_int (peek_rate (hdr st s)))
                     div of_int (pop_rate (hdr st s))) in
        if npop \<le> 0 then Done (Inl (src (hdr st s)))
        else niters_ins space esz st ins is (min n npop)))"

definition inline_compute_niters_E_B :: "nat \<Rightarrow> nat \<Rightarrow> ptr list \<Rightarrow> nat \<Rightarrow> ptr list \<Rightarrow> nat \<Rightarrow> store \<Rightarrow>
    (endp, endp \<times> size_t) outcome" where
  "inline_compute_niters_E_B E B ins nins outs nouts st =
     bind_out (niters_outs (inline_push_space_E_B E B st) (\<lambda>s. of_nat E) st outs [0..<nouts] (int B))
       (\<lambda>r. case r of Inl v \<Rightarrow> Done (v, 0) | Inr n \<Rightarrow>
     bind_out (niters_ins (inline_pop_space_E_B E B st) (\<lambda>s. of_nat E) st ins [0..<nins] n)
       (\<lambda>r. case r of Inl v \<Rightarrow> Done (v, 0) | Inr n \<Rightarrow> Done (NullEnd, of_int n)))"

definition inline_compute_niters :: "ptr list \<Rightarrow> nat \<Rightarrow> ptr list \<Rightarrow> nat \<Rightarrow> store \<Rightarrow>
    (endp, endp \<times> size_t) outcome" where
  "inline_compute_niters ins nins outs nouts st =
     bind_out (niters_outs (inline_push_space st) (\<lambda>s. ucast (elem_size (hdr st s))) st outs
                [0..<nouts] (int STREAM_BUFFER_SIZE))
       (\<lambda>r. case r of Inl v \<Rightarrow> Done (v, 0) | Inr n \<Rightarrow>
     bind_out (niters_ins (inline_pop_space st) (\<lambda>s. ucast (elem_size (hdr st s))) st ins
                [0..<nins] n)
       (\<lambda>r. case r of Inl v \<Rightarrow> Done (v, 0) | Inr n \<Rightarrow> Done (NullEnd, of_int n)))"

definition inline_compute_niters_1_1 :: "ptr list \<Rightarrow> ptr list \<Rightarrow> store \<Rightarrow> (endp, endp \<times> size_t) outcome" where
  "inline_compute_niters_1_1 ins outs st = with_stream ins 0 (\<lambda>i. with_stream outs 0 (\<lambda>out.
     let nx = (head (hdr st out) + ucast (elem_size (hdr st out))) mod of_nat STREAM_BUFFER_SIZE;
         os = tail (hdr st out) - nx;
         outspace = (if sint os < 0 then os + of_nat STREAM_BUFFER_SIZE else os) in
     if sint outspace \<le> 0 then Done (dst (hdr st out), 0)
     else assert_out (elem_size (hdr st out) \<noteq> 0)
       (let npush = outspace div ucast (elem_size (hdr st out));
            si = head (hdr st i) - tail (hdr st i);
            inspace = (if sint si < 0 then si + of_nat STREAM_BUFFER_SIZE else si) in
        if sint inspace \<le> 0 then Done (src (hdr st i), 0)
        else (let npop = inspace div ucast (elem_size (hdr st out)) in
              Done (NullEnd, min npop npush)))))"

subsection \<open>Space is the room and the number of elements, in bytes\<close>

lemma unat_space:
  fixes a b :: size_t
  assumes "unat a < B" and "unat b < B" and "B \<le> 2 ^ 31"
  shows "unat (let num = a - b in if sint num < 0 then num + of_nat B else num) =
    ring_dist B (unat b) (unat a)"
proof -
  have diff: "sint (a - b) = int (unat a) - int (unat b)"
    using assms by (intro sint_diff_small) auto
  show ?thesis
  proof (cases "unat b \<le> unat a")
    case True
    then have "unat (a - b) = unat a - unat b" by (simp add: unat_sub word_le_nat_alt)
    moreover have "\<not> sint (a - b) < 0" unfolding diff using True by linarith
    ultimately show ?thesis using True assms by (simp add: Let_def ring_dist_cases)
  next
    case False
    have "a - b + of_nat B = of_nat (unat a + B) - of_nat (unat b)" by simp
    also have "\<dots> = of_nat (unat a + B - unat b)"
      using assms by (intro of_nat_diff [symmetric]) simp
    finally have "a - b + of_nat B = of_nat (unat a + B - unat b)" .
    moreover have "unat (of_nat (unat a + B - unat b) :: size_t) = unat a + B - unat b"
      using assms by (intro unat_of_nat_small) simp
    moreover have "sint (a - b) < 0" unfolding diff using False by linarith
    ultimately have "unat (let num = a - b in if sint num < 0 then num + of_nat B else num) =
        unat a + B - unat b"
      by (simp only: Let_def if_True)
    then show ?thesis using False assms by (simp add: ring_dist_cases)
  qed
qed

lemma ring_dist_scale: "0 < E \<Longrightarrow> T < N \<Longrightarrow> H < N \<Longrightarrow> ring_dist (E * N) (E * T) (E * H) = E * ring_dist N T H"
  by (auto simp: ring_dist_cases algebra_simps diff_mult_distrib2)

lemma ring_dist_room:
  "T < N \<Longrightarrow> H < N \<Longrightarrow> ring_dist N (Suc H mod N) T = N - 1 - ring_dist N T H"
  by (auto simp: ring_dist_cases ring_succ split: if_splits)

lemma pop_space_items:
  assumes "ring_ok E B st s"
  shows "unat (inline_pop_space_E_B E B st s) = E * ring_count E B st s"
proof -
  from assms obtain N T H where *: "B = E * N" "unat (tail (hdr st s)) = E * T"
    "unat (head (hdr st s)) = E * H" "0 < E" "0 < N" "T < N" "H < N" "B \<le> 2 ^ 31"
    "length (mem st (buf (hdr st s))) = B" "ring_count E B st s = ring_dist N T H"
    by (rule ring_okE)
  have "unat (inline_pop_space_E_B E B st s) = ring_dist B (unat (tail (hdr st s))) (unat (head (hdr st s)))"
    unfolding inline_pop_space_E_B_def using assms *(8) by (intro unat_space) (simp_all add: ring_ok_def)
  also have "\<dots> = ring_dist B (E * T) (E * H)" unfolding *(2,3) ..
  also have "\<dots> = E * ring_count E B st s"
    unfolding *(10) unfolding *(1) using *(4,6,7) by (intro ring_dist_scale)
  finally show ?thesis .
qed

lemma push_space_room:
  assumes "ring_ok E B st s"
  shows "unat (inline_push_space_E_B E B st s) = E * (ring_cap E B - ring_count E B st s)"
proof -
  from assms obtain N T H where *: "B = E * N" "unat (tail (hdr st s)) = E * T"
    "unat (head (hdr st s)) = E * H" "0 < E" "0 < N" "T < N" "H < N" "B \<le> 2 ^ 31"
    "length (mem st (buf (hdr st s))) = B" "ring_count E B st s = ring_dist N T H"
    by (rule ring_okE)
  define nx where "nx = (head (hdr st s) + of_nat E) mod of_nat B"
  have nx: "unat nx = E * (Suc H mod N)" unfolding nx_def using * by (intro unat_next) auto
  have "unat nx < B" unfolding nx unfolding *(1) using * by simp
  then have "unat (inline_push_space_E_B E B st s) = ring_dist B (unat nx) (unat (tail (hdr st s)))"
    unfolding inline_push_space_E_B_def nx_def [symmetric] Let_def
    using unat_space [of "tail (hdr st s)" B nx] assms *(8) by (simp add: ring_ok_def Let_def)
  also have "\<dots> = ring_dist B (E * (Suc H mod N)) (E * T)" unfolding nx *(2) ..
  also have "\<dots> = E * ring_dist N (Suc H mod N) T"
    unfolding *(1) using * by (intro ring_dist_scale) auto
  finally show ?thesis using * by (simp add: ring_dist_room ring_cap_def)
qed

subsection \<open>What the iteration count means\<close>

lemma unat_div_small:
  fixes x :: size_t
  assumes "unat x \<le> 2 ^ 31" and "0 < r" and "r < 2 ^ 31"
  shows "sint (x div of_int r) = int (unat x) div r" "unat (x div of_int r) \<le> 2 ^ 31"
proof -
  from assms obtain k where k: "r = int k" "0 < k" "k < 2 ^ 31"
    using zero_less_imp_eq_int by (metis of_nat_less_iff of_nat_numeral of_nat_power)
  have uk: "unat (of_nat k :: size_t) = k" using k by (intro unat_of_nat_small) simp
  have q: "unat (x div of_int r) = unat x div k" using uk by (simp add: k(1) unat_div_distrib)
  moreover have "unat x div k \<le> unat x" by simp
  ultimately have le: "unat (x div of_int r) \<le> 2 ^ 31" using assms(1) by linarith
  have "unat (x div of_int r) < 2 ^ 63" using le by (rule order_le_less_trans) simp
  then have "sint (x div of_int r) = int (unat (x div of_int r))" by (rule sint_small)
  then show "sint (x div of_int r) = int (unat x) div r" by (simp only: q zdiv_int) (simp only: k(1))
  show "unat (x div of_int r) \<le> 2 ^ 31" by (rule le)
qed

text \<open>What a stream needs for the computation to mean what it says.\<close>

definition out_ok :: "nat \<Rightarrow> nat \<Rightarrow> store \<Rightarrow> ptr \<Rightarrow> bool" where
  "out_ok E B st s \<longleftrightarrow> ring_ok E B st s \<and> 0 < push_rate (hdr st s) \<and> push_rate (hdr st s) < 2 ^ 31"

definition in_ok :: "nat \<Rightarrow> nat \<Rightarrow> store \<Rightarrow> ptr \<Rightarrow> bool" where
  "in_ok E B st s \<longleftrightarrow> ring_ok E B st s \<and> 0 < pop_rate (hdr st s) \<and> pop_rate (hdr st s) < 2 ^ 31 \<and>
     0 \<le> peek_rate (hdr st s) \<and> peek_rate (hdr st s) \<le> int (ring_count E B st s)"

text \<open>The same without the promise that the elements the kernel peeks at are there.\<close>

definition in_rated :: "nat \<Rightarrow> nat \<Rightarrow> store \<Rightarrow> ptr \<Rightarrow> bool" where
  "in_rated E B st s \<longleftrightarrow> ring_ok E B st s \<and> 0 < pop_rate (hdr st s) \<and> pop_rate (hdr st s) < 2 ^ 31 \<and>
     0 \<le> peek_rate (hdr st s) \<and> peek_rate (hdr st s) < 2 ^ 31"

text \<open>What the code computes for an input, with the unsigned subtraction.\<close>

definition in_niter :: "nat \<Rightarrow> nat \<Rightarrow> store \<Rightarrow> ptr \<Rightarrow> int" where
  "in_niter E B st s = sint ((inline_pop_space_E_B E B st s div of_nat E - of_int (peek_rate (hdr st s)))
      div of_int (pop_rate (hdr st s)))"

definition out_iters :: "nat \<Rightarrow> nat \<Rightarrow> store \<Rightarrow> ptr \<Rightarrow> int" where
  "out_iters E B st s = int (ring_cap E B - ring_count E B st s) div push_rate (hdr st s)"

definition in_iters :: "nat \<Rightarrow> nat \<Rightarrow> store \<Rightarrow> ptr \<Rightarrow> int" where
  "in_iters E B st s = (int (ring_count E B st s) - peek_rate (hdr st s)) div pop_rate (hdr st s)"

lemma unat_E: "ring_size E B \<Longrightarrow> unat (of_nat E :: size_t) = E"
  by (rule unat_of_nat_small) (auto simp: ring_size_def dest!: dvd_imp_le)

lemma npush_eq:
  assumes "out_ok E B st s"
  shows "sint ((inline_push_space_E_B E B st s div of_nat E) div of_int (push_rate (hdr st s))) =
    out_iters E B st s"
proof -
  have ok: "ring_ok E B st s" and sz: "ring_size E B" and r: "0 < push_rate (hdr st s)" "push_rate (hdr st s) < 2 ^ 31"
    using assms by (auto simp: out_ok_def ring_ok_def)
  have E: "0 < E" "B \<le> 2 ^ 31" using sz by (auto simp: ring_size_def)
  have sp: "unat (inline_push_space_E_B E B st s div of_nat E) = ring_cap E B - ring_count E B st s"
    using push_space_room [OF ok] unat_E [OF sz] E by (simp add: unat_div_distrib)
  have "B div E \<le> B" by simp
  with E have "ring_cap E B - ring_count E B st s \<le> 2 ^ 31" unfolding ring_cap_def by linarith
  with unat_div_small(1) [OF _ r, of "inline_push_space_E_B E B st s div of_nat E"] sp
  show ?thesis by (simp add: out_iters_def)
qed

lemma npop_eq:
  assumes "in_ok E B st s"
  shows "in_niter E B st s = in_iters E B st s"
proof -
  have ok: "ring_ok E B st s" and sz: "ring_size E B" and r: "0 < pop_rate (hdr st s)" "pop_rate (hdr st s) < 2 ^ 31"
    and pk: "0 \<le> peek_rate (hdr st s)" "peek_rate (hdr st s) \<le> int (ring_count E B st s)"
    using assms by (auto simp: in_ok_def ring_ok_def)
  have E: "0 < E" "B \<le> 2 ^ 31" using sz by (auto simp: ring_size_def)
  have sp: "unat (inline_pop_space_E_B E B st s div of_nat E) = ring_count E B st s"
    using pop_space_items [OF ok] unat_E [OF sz] E by (simp add: unat_div_distrib)
  have "B div E \<le> B" by simp
  with ring_count_less [OF ok] E have c: "ring_count E B st s \<le> 2 ^ 31" by linarith
  obtain k where k: "peek_rate (hdr st s) = int k" "k \<le> ring_count E B st s"
    using pk zero_le_imp_eq_int by (metis of_nat_le_iff)
  have uk: "unat (of_nat k :: size_t) = k" using k c by (intro unat_of_nat_small) simp
  then have "(of_int (peek_rate (hdr st s)) :: size_t) \<le> inline_pop_space_E_B E B st s div of_nat E"
    using k sp by (simp add: word_le_nat_alt)
  then have sub: "unat (inline_pop_space_E_B E B st s div of_nat E - of_int (peek_rate (hdr st s))) =
      ring_count E B st s - k" using k uk sp by (simp add: unat_sub)
  have le: "unat (inline_pop_space_E_B E B st s div of_nat E - of_int (peek_rate (hdr st s))) \<le> 2 ^ 31"
    unfolding sub using c by simp
  show ?thesis
    unfolding in_niter_def unat_div_small(1) [OF le r] sub in_iters_def unfolding k(1) of_nat_diff [OF k(2)] ..
qed

lemma niters_outs_spec:
  assumes "\<forall>i \<in> set is. i < length outs \<and> out_ok E B st (outs ! i)" and "ring_size E B"
  shows "niters_outs (inline_push_space_E_B E B st) (\<lambda>s. of_nat E) st outs is n =
    Done (case find (\<lambda>i. out_iters E B st (outs ! i) \<le> 0) is of
            Some i \<Rightarrow> Inl (dst (hdr st (outs ! i)))
          | None \<Rightarrow> Inr (fold (\<lambda>i n. min n (out_iters E B st (outs ! i))) is n))"
  using assms
proof (induction "is" arbitrary: n)
  case (Cons i "is")
  have "(of_nat E :: size_t) \<noteq> 0" using unat_E [OF Cons.prems(2)] Cons.prems(2)
    by (auto simp: ring_size_def)
  moreover have "push_rate (hdr st (outs ! i)) \<noteq> 0" using Cons.prems(1) by (auto simp: out_ok_def)
  ultimately show ?case using Cons by (auto simp: npush_eq Let_def split: option.splits)
qed simp

lemma npop_underflow:
  assumes ok: "in_rated E B st s" and few: "int (ring_count E B st s) < peek_rate (hdr st s)"
  shows "pop_rate (hdr st s) = 1 \<Longrightarrow> in_niter E B st s < 0"
    and "2 \<le> pop_rate (hdr st s) \<Longrightarrow> int B \<le> in_niter E B st s"
proof -
  have ring: "ring_ok E B st s" and sz: "ring_size E B" using ok by (auto simp: in_rated_def ring_ok_def)
  have E: "0 < E" "B \<le> 2 ^ 31" "0 < B" using sz by (auto simp: ring_size_def)
  define x where "x = inline_pop_space_E_B E B st s div of_nat E"
  define y :: size_t where "y = x - of_int (peek_rate (hdr st s))"
  have x: "unat x = ring_count E B st s"
    unfolding x_def using pop_space_items [OF ring] unat_E [OF sz] E by (simp add: unat_div_distrib)
  obtain k where k: "peek_rate (hdr st s) = int k"
    using ok zero_le_imp_eq_int by (auto simp: in_rated_def)
  have k2: "ring_count E B st s < k" "k < 2 ^ 31" using few ok k by (auto simp: in_rated_def)
  have uk: "unat (of_nat k :: size_t) = k" using k2 by (auto intro!: unat_of_nat_small)
  have "x < of_nat k" using x uk k2 by (simp add: word_less_nat_alt)
  then have uy: "unat y = 2 ^ 64 - (k - ring_count E B st s)"
    using x uk k2 unfolding y_def k by (simp add: unat_sub_if')
  have niter: "in_niter E B st s = sint (y div of_int (pop_rate (hdr st s)))"
    by (simp add: in_niter_def y_def x_def)
  show "in_niter E B st s < 0" if "pop_rate (hdr st s) = 1"
  proof -
    have "sint (x - of_nat k) = int (unat x) - int (unat (of_nat k :: size_t))"
      using x uk k2 by (intro sint_diff_small) auto
    then have "sint y < 0" using x uk k2 by (simp add: y_def k)
    then show ?thesis unfolding niter that by simp
  qed
  show "int B \<le> in_niter E B st s" if pop: "2 \<le> pop_rate (hdr st s)"
  proof -
    obtain r where r: "pop_rate (hdr st s) = int r"
      using pop by (metis nonneg_int_cases order_trans zero_le_numeral)
    have r2: "2 \<le> r" "r < 2 ^ 31" using pop r ok by (auto simp: in_rated_def)
    have ur: "unat (of_nat r :: size_t) = r" using r2 by (auto intro!: unat_of_nat_small)
    have q: "unat (y div of_nat r) = unat y div r" using ur by (simp add: unat_div_distrib)
    have "unat y div r \<le> unat y div 2" using r2 by (intro div_le_mono2) auto
    also have "unat y div 2 < 2 ^ 63" using uy k2 by (simp add: div_less_iff_less_mult)
    finally have up: "unat (y div of_nat r) < 2 ^ 63" using q by simp
    have "2 ^ 31 * r \<le> 2 ^ 31 * 2 ^ 31" using r2 by (intro mult_le_mono2) simp
    also have "\<dots> \<le> unat y" using uy k2 by simp
    finally have low: "2 ^ 31 \<le> unat (y div of_nat r)" using q r2 by (simp add: less_eq_div_iff_mult_less_eq)
    have "in_niter E B st s = int (unat (y div of_nat r))" unfolding niter r by (simp add: sint_small [OF up])
    then show ?thesis using low E by linarith
  qed
qed

text \<open>An input lets the kernel run if it holds the elements of one iteration and those the kernel peeks at; and,
  wrongly, if it holds fewer than are peeked at and two or more are popped at a time.\<close>

lemma in_ok_rated: "in_ok E B st s \<Longrightarrow> in_rated E B st s"
proof -
  assume ok: "in_ok E B st s"
  then have "ring_ok E B st s" by (simp add: in_ok_def)
  then have "ring_count E B st s < B div E" "B \<le> 2 ^ 31" by (auto simp: ring_count_less ring_ok_def ring_size_def)
  then have "ring_count E B st s < 2 ^ 31" using div_le_dividend [of B E] by linarith
  then have "int (ring_count E B st s) < 2 ^ 31" by (metis of_nat_less_iff of_nat_numeral of_nat_power)
  with ok show ?thesis by (simp add: in_ok_def in_rated_def)
qed

lemma in_niter_pos_iff:
  assumes ok: "in_rated E B st s"
  shows "0 < in_niter E B st s \<longleftrightarrow>
    pop_rate (hdr st s) + peek_rate (hdr st s) \<le> int (ring_count E B st s) \<or>
    int (ring_count E B st s) < peek_rate (hdr st s) \<and> 2 \<le> pop_rate (hdr st s)"
proof (cases "int (ring_count E B st s) < peek_rate (hdr st s)")
  case True
  have "0 < B" "0 < pop_rate (hdr st s)" using ok by (auto simp: in_rated_def ring_ok_def ring_size_def)
  then show ?thesis using npop_underflow [OF ok True] True
    by (cases "pop_rate (hdr st s) = 1") auto
next
  case False
  then have "in_ok E B st s" using ok by (simp add: in_rated_def in_ok_def)
  then show ?thesis using False ok npop_eq [of E B st s]
    by (auto simp: in_iters_def in_rated_def pos_imp_zdiv_pos_iff)
qed

lemma niters_ins_spec:
  assumes "\<forall>i \<in> set is. i < length ins \<and> in_rated E B st (ins ! i)" and "ring_size E B"
  shows "niters_ins (inline_pop_space_E_B E B st) (\<lambda>s. of_nat E) st ins is n =
    Done (case find (\<lambda>i. in_niter E B st (ins ! i) \<le> 0) is of
            Some i \<Rightarrow> Inl (src (hdr st (ins ! i)))
          | None \<Rightarrow> Inr (fold (\<lambda>i n. min n (in_niter E B st (ins ! i))) is n))"
  using assms
proof (induction "is" arbitrary: n)
  case (Cons i "is")
  have "(of_nat E :: size_t) \<noteq> 0" using unat_E [OF Cons.prems(2)] Cons.prems(2)
    by (auto simp: ring_size_def)
  moreover have "pop_rate (hdr st (ins ! i)) \<noteq> 0" using Cons.prems(1) by (auto simp: in_rated_def)
  ultimately show ?case using Cons by (auto simp: in_niter_def Let_def split: option.splits)
qed simp

lemma fold_min_le: "fold (\<lambda>i n. min n (f i)) is (n :: int) \<le> n"
proof (induction "is" arbitrary: n)
  case (Cons j "is")
  from Cons [of "min n (f j)"] show ?case by simp
qed simp

lemma fold_min_le_mem: "i \<in> set is \<Longrightarrow> fold (\<lambda>i n. min n (f i)) is (n :: int) \<le> f i"
proof (induction "is" arbitrary: n)
  case (Cons j "is")
  then show ?case using fold_min_le [of f "is" "min n (f j)"] by auto
qed simp

lemma fold_min_pos: "0 < n \<Longrightarrow> \<forall>i \<in> set is. 0 < f i \<Longrightarrow> 0 < fold (\<lambda>i n. min n (f i)) is (n :: int)"
  by (induction "is" arbitrary: n) auto

lemma find_None_pos: "find (\<lambda>i. f i \<le> (0 :: int)) is = None \<longleftrightarrow> (\<forall>i \<in> set is. 0 < f i)"
  by (auto simp: find_None_iff)

text \<open>The iteration count: the smallest quotient, or the first stream in the way.\<close>

definition streams_ok :: "nat \<Rightarrow> nat \<Rightarrow> ptr list \<Rightarrow> nat \<Rightarrow> ptr list \<Rightarrow> nat \<Rightarrow> store \<Rightarrow> bool" where
  "streams_ok E B ins nins outs nouts st \<longleftrightarrow> ring_size E B \<and>
     (\<forall>i < nins. i < length ins \<and> in_ok E B st (ins ! i)) \<and>
     (\<forall>i < nouts. i < length outs \<and> out_ok E B st (outs ! i))"

definition streams_rated :: "nat \<Rightarrow> nat \<Rightarrow> ptr list \<Rightarrow> nat \<Rightarrow> ptr list \<Rightarrow> nat \<Rightarrow> store \<Rightarrow> bool" where
  "streams_rated E B ins nins outs nouts st \<longleftrightarrow> ring_size E B \<and>
     (\<forall>i < nins. i < length ins \<and> in_rated E B st (ins ! i)) \<and>
     (\<forall>i < nouts. i < length outs \<and> out_ok E B st (outs ! i))"

lemma compute_niters_rated:
  assumes "streams_rated E B ins nins outs nouts st"
  shows "inline_compute_niters_E_B E B ins nins outs nouts st = Done
    (case find (\<lambda>i. out_iters E B st (outs ! i) \<le> 0) [0..<nouts] of
       Some i \<Rightarrow> (dst (hdr st (outs ! i)), 0)
     | None \<Rightarrow>
     (case find (\<lambda>i. in_niter E B st (ins ! i) \<le> 0) [0..<nins] of
       Some i \<Rightarrow> (src (hdr st (ins ! i)), 0)
     | None \<Rightarrow> (NullEnd, of_int (fold (\<lambda>i n. min n (in_niter E B st (ins ! i))) [0..<nins]
          (fold (\<lambda>i n. min n (out_iters E B st (outs ! i))) [0..<nouts] (int B))))))"
  using assms niters_outs_spec [of "[0..<nouts]" outs E B st "int B"]
    niters_ins_spec [of "[0..<nins]" ins E B st]
  by (simp add: streams_rated_def inline_compute_niters_E_B_def split: option.splits)

lemma streams_ok_rated: "streams_ok E B ins nins outs nouts st \<Longrightarrow> streams_rated E B ins nins outs nouts st"
  by (auto simp: streams_ok_def streams_rated_def in_ok_rated)

lemma compute_niters_eq:
  assumes "streams_ok E B ins nins outs nouts st"
  shows "inline_compute_niters_E_B E B ins nins outs nouts st = Done
    (case find (\<lambda>i. out_iters E B st (outs ! i) \<le> 0) [0..<nouts] of
       Some i \<Rightarrow> (dst (hdr st (outs ! i)), 0)
     | None \<Rightarrow>
     (case find (\<lambda>i. in_iters E B st (ins ! i) \<le> 0) [0..<nins] of
       Some i \<Rightarrow> (src (hdr st (ins ! i)), 0)
     | None \<Rightarrow> (NullEnd, of_int (fold (\<lambda>i n. min n (in_iters E B st (ins ! i))) [0..<nins]
          (fold (\<lambda>i n. min n (out_iters E B st (outs ! i))) [0..<nouts] (int B))))))"
proof -
  have eq: "in_niter E B st (ins ! i) = in_iters E B st (ins ! i)" if "i \<in> set [0..<nins]" for i
    using assms that by (auto simp: streams_ok_def npop_eq)
  have "find (\<lambda>i. in_niter E B st (ins ! i) \<le> 0) [0..<nins] = find (\<lambda>i. in_iters E B st (ins ! i) \<le> 0) [0..<nins]"
    by (rule find_cong [OF refl]) (simp add: eq)
  moreover have "fold (\<lambda>i n. min n (in_niter E B st (ins ! i))) [0..<nins] =
      fold (\<lambda>i n. min n (in_iters E B st (ins ! i))) [0..<nins]"
    by (rule ext, rule fold_cong [OF refl refl]) (simp add: eq)
  ultimately show ?thesis unfolding compute_niters_rated [OF streams_ok_rated [OF assms]] by (simp only:)
qed

lemma niters_bound:
  assumes ok: "streams_rated E B ins nins outs nouts st"
    and run: "inline_compute_niters_E_B E B ins nins outs nouts st = Done (v, n)" and n0: "n \<noteq> 0"
  shows "(\<forall>i < nouts. int (unat n) \<le> out_iters E B st (outs ! i)) \<and>
      (\<forall>i < nins. int (unat n) \<le> in_niter E B st (ins ! i))"
proof -
  let ?out = "\<lambda>i. out_iters E B st (outs ! i)" and ?in = "\<lambda>i. in_niter E B st (ins ! i)"
  let ?m = "fold (\<lambda>i n. min n (?out i)) [0..<nouts] (int B)"
  let ?n = "fold (\<lambda>i n. min n (?in i)) [0..<nins] ?m"
  from run n0 compute_niters_rated [OF ok]
  have n: "n = of_int ?n" and none: "find (\<lambda>i. ?out i \<le> 0) [0..<nouts] = None"
    "find (\<lambda>i. ?in i \<le> 0) [0..<nins] = None"
    by (auto split: option.splits)
  have "0 < B" "B \<le> 2 ^ 31" using ok by (auto simp: streams_rated_def ring_size_def)
  then have pos: "0 < ?n" and le: "?n \<le> 2 ^ 31"
    using none fold_min_le [of ?out "[0..<nouts]" "int B"] fold_min_le [of ?in "[0..<nins]" ?m]
    unfolding find_None_pos by (auto intro!: fold_min_pos)
  then have "?n = int (nat ?n)" by simp
  moreover have "unat (of_nat (nat ?n) :: size_t) = nat ?n" using le by (intro unat_of_nat_small) simp
  ultimately have un: "int (unat n) = ?n" unfolding n using pos by (metis of_int_of_nat_eq)
  have "?n \<le> ?out i" if "i < nouts" for i
    using fold_min_le [of ?in "[0..<nins]" ?m] fold_min_le_mem [of i "[0..<nouts]" ?out "int B"] that
    by simp
  moreover have "?n \<le> ?in i" if "i < nins" for i
    using fold_min_le_mem [of i "[0..<nins]" ?in ?m] that by simp
  ultimately show ?thesis unfolding un by blast
qed

lemma out_iters_room:
  "out_ok E B st s \<Longrightarrow> n \<le> out_iters E B st s \<Longrightarrow>
    n * push_rate (hdr st s) \<le> int (ring_cap E B - ring_count E B st s)"
  by (auto simp: out_ok_def out_iters_def intro!: le_div_mult)

lemma in_iters_items:
  "in_ok E B st s \<Longrightarrow> n \<le> in_iters E B st s \<Longrightarrow>
    n * pop_rate (hdr st s) + peek_rate (hdr st s) \<le> int (ring_count E B st s)"
  by (auto simp: in_ok_def in_iters_def simp flip: le_diff_eq intro!: le_div_mult)

lemma niters_safe:
  assumes ok: "streams_ok E B ins nins outs nouts st"
    and run: "inline_compute_niters_E_B E B ins nins outs nouts st = Done (v, n)"
  shows "(\<forall>i < nouts. int (unat n) * push_rate (hdr st (outs ! i)) \<le>
            int (ring_cap E B - ring_count E B st (outs ! i))) \<and>
         (\<forall>i < nins. int (unat n) * pop_rate (hdr st (ins ! i)) + peek_rate (hdr st (ins ! i)) \<le>
            int (ring_count E B st (ins ! i)))"
proof (cases "n = 0")
  case True
  then show ?thesis using ok by (auto simp: streams_ok_def in_ok_def)
next
  case False
  from niters_bound [OF streams_ok_rated [OF ok] run False] ok show ?thesis
    by (auto simp: streams_ok_def npop_eq intro: out_iters_room in_iters_items)
qed

lemma of_int_size_nz:
  assumes "0 < n" and "n \<le> 2 ^ 31"
  shows "(of_int n :: size_t) \<noteq> 0"
proof -
  from assms obtain k where k: "n = int k" "0 < k" by (metis zero_less_imp_eq_int)
  with assms(2) have "unat (of_nat k :: size_t) = k" by (intro unat_of_nat_small) simp
  with k show ?thesis by auto
qed

lemma niters_nonzero:
  fixes out inn :: "nat \<Rightarrow> int"
  assumes "0 < B" and "B \<le> 2 ^ 31" and "\<forall>i \<in> set is. 0 < out i" and "\<forall>i \<in> set js. 0 < inn i"
  shows "(of_int (fold (\<lambda>i n. min n (inn i)) js (fold (\<lambda>i n. min n (out i)) is (int B))) :: size_t) \<noteq> 0"
  using assms fold_min_le [of out "is" "int B"] fold_min_le [of inn js "fold (\<lambda>i n. min n (out i)) is (int B)"]
  by (intro of_int_size_nz) (auto intro!: fold_min_pos)

text \<open>When every neighbour exists, the result is null exactly when the kernel may run.\<close>

lemma niters_NullEnd_iff:
  assumes ok: "streams_ok E B ins nins outs nouts st"
    and out: "\<forall>i < nouts. dst (hdr st (outs ! i)) \<noteq> NullEnd"
    and inn: "\<forall>i < nins. src (hdr st (ins ! i)) \<noteq> NullEnd"
  obtains v n where "inline_compute_niters_E_B E B ins nins outs nouts st = Done (v, n)"
    "v = NullEnd \<longleftrightarrow> n \<noteq> 0"
proof (cases "find (\<lambda>i. out_iters E B st (outs ! i) \<le> 0) [0..<nouts]")
  case (Some i)
  then have "i < nouts" by (auto simp: find_Some_iff)
  with Some out that show ?thesis by (simp add: compute_niters_eq [OF ok])
next
  case None
  show ?thesis
  proof (cases "find (\<lambda>i. in_iters E B st (ins ! i) \<le> 0) [0..<nins]")
    case (Some i)
    then have "i < nins" by (auto simp: find_Some_iff)
    with None Some inn that show ?thesis by (simp add: compute_niters_eq [OF ok])
  next
    case none: None
    have "0 < B" "B \<le> 2 ^ 31" using ok by (auto simp: streams_ok_def ring_size_def)
    from niters_nonzero [OF this None [unfolded find_None_pos] none [unfolded find_None_pos]]
    show ?thesis using None none that by (simp add: compute_niters_eq [OF ok])
  qed
qed

text \<open>
  C3.  For any number of streams with positive rates, \<open>n\<close> iterations, as \<open>compute_niters\<close> returns them, never push more
  than any output has room for; and they never pop more than any input holds, with the elements the kernel peeks at left
  over, unless this input held fewer elements than are peeked at and two or more are popped at a time
  (then the unsigned subtraction wraps around).
\<close>

theorem compute_niters_safe:
  assumes ok: "streams_rated E B ins nins outs nouts st"
    and run: "inline_compute_niters_E_B E B ins nins outs nouts st = Done (v, n)"
  shows "(\<forall>i < nouts. int (unat n) * push_rate (hdr st (outs ! i)) \<le>
            int (ring_cap E B - ring_count E B st (outs ! i))) \<and>
         (\<forall>i < nins. n = 0 \<or>
            int (unat n) * pop_rate (hdr st (ins ! i)) + peek_rate (hdr st (ins ! i)) \<le>
              int (ring_count E B st (ins ! i)) \<or>
            int (ring_count E B st (ins ! i)) < peek_rate (hdr st (ins ! i)) \<and> 2 \<le> pop_rate (hdr st (ins ! i)))"
proof (cases "n = 0")
  case False
  note b = niters_bound [OF ok run False]
  have pos: "0 < int (unat n)" using False by (metis of_nat_0_less_iff unat_gt_0)
  have "int (unat n) * pop_rate (hdr st (ins ! i)) + peek_rate (hdr st (ins ! i)) \<le> int (ring_count E B st (ins ! i)) \<or>
      int (ring_count E B st (ins ! i)) < peek_rate (hdr st (ins ! i)) \<and> 2 \<le> pop_rate (hdr st (ins ! i))"
    if i: "i < nins" for i
  proof (cases "int (ring_count E B st (ins ! i)) < peek_rate (hdr st (ins ! i))")
    case True
    have rated: "in_rated E B st (ins ! i)" using ok i by (simp add: streams_rated_def)
    have "0 < in_niter E B st (ins ! i)" using b i pos by (meson order_less_le_trans)
    then show ?thesis using True rated by (auto simp: in_niter_pos_iff in_rated_def)
  next
    case False
    then have "in_ok E B st (ins ! i)" using ok i by (simp add: streams_rated_def in_rated_def in_ok_def)
    moreover from this have "int (unat n) \<le> in_iters E B st (ins ! i)" using b i npop_eq [of E B st "ins ! i"] by auto
    ultimately show ?thesis by (blast dest: in_iters_items)
  qed
  then show ?thesis using b ok by (auto simp: streams_rated_def intro: out_iters_room)
qed simp

theorem compute_niters_safe_witness:
  "\<exists>st n. inline_compute_niters_E_B 4 128 [1] 1 [2] 1 st = Done (NullEnd, n) \<and> n = 5 \<and>
     int (unat n) * push_rate (hdr st 2) \<le> int (ring_cap 4 128 - ring_count 4 128 st 2)"
proof -
  let ?st = "(sample_store 4 128)\<lparr>hdr := (sample_stream 4)(1 := (sample_stream 4 1)\<lparr>head := 20\<rparr>)\<rparr>"
  have ok: "streams_rated 4 128 [1] 1 [2] 1 ?st"
    by (simp add: streams_rated_def in_rated_def out_ok_def ring_ok_def ring_size_def sample_store_def
      sample_stream_def)
  have run: "inline_compute_niters_E_B 4 128 [1] 1 [2] 1 ?st = Done (NullEnd, 5)"
    by code_simp
  from compute_niters_safe [OF ok run] run show ?thesis by auto
qed

text \<open>
  C34.  For any number of streams with positive rates, \<open>compute_niters\<close> returns a positive number of iterations, and null,
  exactly when every output has room for one iteration and every input holds the elements of one iteration with those
  that the kernel peeks at, or (the unsigned subtraction having wrapped around) fewer than those it peeks at while two or more
  are popped at a time.  Otherwise it returns 0 and the kernel at the other end of a stream that is in the way.
\<close>

theorem compute_niters_blocks_iff:
  assumes ok: "streams_rated E B ins nins outs nouts st"
  shows "\<exists>v n. inline_compute_niters_E_B E B ins nins outs nouts st = Done (v, n) \<and>
    (if (\<forall>i < nouts. push_rate (hdr st (outs ! i)) \<le> int (ring_cap E B - ring_count E B st (outs ! i))) \<and>
        (\<forall>i < nins.
           pop_rate (hdr st (ins ! i)) + peek_rate (hdr st (ins ! i)) \<le> int (ring_count E B st (ins ! i)) \<or>
           int (ring_count E B st (ins ! i)) < peek_rate (hdr st (ins ! i)) \<and> 2 \<le> pop_rate (hdr st (ins ! i)))
     then n \<noteq> 0 \<and> v = NullEnd
     else n = 0 \<and>
       ((\<exists>i < nouts. v = dst (hdr st (outs ! i)) \<and>
           int (ring_cap E B - ring_count E B st (outs ! i)) < push_rate (hdr st (outs ! i))) \<or>
        (\<exists>i < nins. v = src (hdr st (ins ! i)) \<and>
           int (ring_count E B st (ins ! i)) < pop_rate (hdr st (ins ! i)) + peek_rate (hdr st (ins ! i)))))"
proof -
  let ?out = "\<lambda>i. out_iters E B st (outs ! i)" and ?in = "\<lambda>i. in_niter E B st (ins ! i)"
  let ?m = "fold (\<lambda>i n. min n (?out i)) [0..<nouts] (int B)"
  let ?n = "fold (\<lambda>i n. min n (?in i)) [0..<nins] ?m"
  have B: "0 < B" "B \<le> 2 ^ 31" using ok by (auto simp: streams_rated_def ring_size_def)
  have out: "0 < ?out i \<longleftrightarrow> push_rate (hdr st (outs ! i)) \<le>
      int (ring_cap E B - ring_count E B st (outs ! i))" if "i < nouts" for i
    using ok that by (auto simp: streams_rated_def out_ok_def out_iters_def pos_imp_zdiv_pos_iff)
  have "in": "0 < ?in i \<longleftrightarrow>
      pop_rate (hdr st (ins ! i)) + peek_rate (hdr st (ins ! i)) \<le> int (ring_count E B st (ins ! i)) \<or>
      int (ring_count E B st (ins ! i)) < peek_rate (hdr st (ins ! i)) \<and> 2 \<le> pop_rate (hdr st (ins ! i))"
    if "i < nins" for i
    using ok that by (simp add: streams_rated_def in_niter_pos_iff)
  have nz: "(of_int ?n :: size_t) \<noteq> 0" if "\<forall>i < nouts. 0 < ?out i" "\<forall>i < nins. 0 < ?in i"
    using that B by (intro niters_nonzero) auto
  show ?thesis
  proof (cases "(\<forall>i < nouts. 0 < ?out i) \<and> (\<forall>i < nins. 0 < ?in i)")
    case True
    then have "find (\<lambda>i. ?out i \<le> 0) [0..<nouts] = None" "find (\<lambda>i. ?in i \<le> 0) [0..<nins] = None"
      unfolding find_None_pos by auto
    with True nz out "in" show ?thesis by (simp add: compute_niters_rated [OF ok])
  next
    case False
    show ?thesis
    proof (cases "find (\<lambda>i. ?out i \<le> 0) [0..<nouts]")
      case (Some i)
      then have i: "i < nouts" "\<not> 0 < ?out i" by (auto simp: find_Some_iff)
      then show ?thesis using out Some by (auto simp: compute_niters_rated [OF ok] intro!: exI [of _ i])
    next
      case None
      then obtain i where i: "find (\<lambda>i. ?in i \<le> 0) [0..<nins] = Some i" "i < nins" "\<not> 0 < ?in i"
        using False unfolding find_None_pos
        by (cases "find (\<lambda>i. ?in i \<le> 0) [0..<nins]") (auto simp: find_None_pos find_Some_iff)
      then show ?thesis using "in" None by (auto simp: compute_niters_rated [OF ok] intro!: exI [of _ i])
    qed
  qed
qed

theorem compute_niters_blocks_iff_witness:
  "\<exists>v n. inline_compute_niters_E_B 4 128 [1] 1 [2] 1 (sample_store 4 128) = Done (v, n) \<and> n = 0"
proof -
  have ok: "streams_rated 4 128 [1] 1 [2] 1 (sample_store 4 128)"
    by (simp add: streams_rated_def in_rated_def out_ok_def ring_ok_def ring_size_def sample_store_def
      sample_stream_def)
  have "ring_count 4 128 (sample_store 4 128) 1 = 0"
    by (simp add: ring_count_def ring_dist_def sample_store_def sample_stream_def)
  with compute_niters_blocks_iff [OF ok] show ?thesis
    by (auto simp: sample_store_def sample_stream_def)
qed

text \<open>
   The subtraction \<open>space - s->peek_rate\<close> is unsigned: for a kernel that pops two or more
  elements and peeks at more elements than its input holds, it wraps around, and
  \<open>compute_niters\<close> reports that the kernel may run as often as the buffer has bytes instead
  of naming the source as what it waits for.
\<close>

theorem compute_niters_peek_underflow:
  assumes ok: "ring_ok E B st s" and few: "int (ring_count E B st s) < peek_rate (hdr st s)"
    and peek: "peek_rate (hdr st s) < 2 ^ 31" and pop: "2 \<le> pop_rate (hdr st s)" "pop_rate (hdr st s) < 2 ^ 31"
  shows "inline_compute_niters_E_B E B [s] 1 [] 0 st = Done (NullEnd, of_nat B)"
proof -
  have "in_rated E B st s" using ok few peek pop by (simp add: in_rated_def)
  then have rated: "streams_rated E B [s] 1 [] 0 st" using ok by (simp add: streams_rated_def ring_ok_def)
  have "int B \<le> in_niter E B st s" "0 < B"
    using npop_underflow(2) [of E B st s] ok few peek pop by (auto simp: in_rated_def ring_ok_def ring_size_def)
  then show ?thesis using compute_niters_rated [OF rated] by (simp add: upt_conv_Cons min_absorb1)
qed

theorem compute_niters_peek_underflow_witness:
  "\<exists>st. ring_items 4 128 st 1 = [] \<and> inline_compute_niters_E_B 4 128 [1] 1 [] 0 st = Done (NullEnd, 128)"
proof -
  let ?st = "(sample_store 4 128)\<lparr>hdr := (sample_stream 4)
    (1 := (sample_stream 4 1)\<lparr>peek_rate := 1, pop_rate := 2\<rparr>)\<rparr>"
  have "ring_ok 4 128 ?st 1" "ring_count 4 128 ?st 1 = 0"
    by (simp_all add: ring_ok_def ring_size_def sample_store_def sample_stream_def ring_count_def
      ring_dist_def)
  with compute_niters_peek_underflow [of 4 128 ?st 1] show ?thesis
    by (intro exI [of _ ?st]) (simp add: ring_items_def)
qed

subsection \<open>The waiting variants are the checked ones at the moment they succeed\<close>

lemma PASS_state:
  assumes "spin busy env 0 r n st = Some (m, st')"
  shows "\<not> busy st' \<and> (\<exists>k. st' = env_state env k st)"
  using spin_Some_not_busy [OF assms] spin_Some_env [of busy env 0 r n st "(m, st')"] assms by auto

text \<open>What the consumer may do while the producer waits, and the other way round.\<close>

definition consumer_env :: "nat \<Rightarrow> ptr \<Rightarrow> (nat \<Rightarrow> store \<Rightarrow> store) \<Rightarrow> bool" where
  "consumer_env E s env \<longleftrightarrow> (\<forall>i st. ring_ok E STREAM_BUFFER_SIZE st s \<longrightarrow>
     ring_ok E STREAM_BUFFER_SIZE (env i st) s \<and>
     head (hdr (env i st) s) = head (hdr st s) \<and> elem_size (hdr (env i st) s) = elem_size (hdr st s) \<and>
     (\<exists>k. ring_items E STREAM_BUFFER_SIZE (env i st) s = drop k (ring_items E STREAM_BUFFER_SIZE st s)))"

definition producer_env :: "nat \<Rightarrow> ptr \<Rightarrow> (nat \<Rightarrow> store \<Rightarrow> store) \<Rightarrow> bool" where
  "producer_env E s env \<longleftrightarrow> (\<forall>i st. ring_ok E STREAM_BUFFER_SIZE st s \<longrightarrow>
     ring_ok E STREAM_BUFFER_SIZE (env i st) s \<and>
     tail (hdr (env i st) s) = tail (hdr st s) \<and> elem_size (hdr (env i st) s) = elem_size (hdr st s) \<and>
     (\<exists>ys. ring_items E STREAM_BUFFER_SIZE (env i st) s = ring_items E STREAM_BUFFER_SIZE st s @ ys))"

lemma consumer_env_state:
  assumes "consumer_env E s env" and "ring_ok E STREAM_BUFFER_SIZE st s"
  shows "ring_ok E STREAM_BUFFER_SIZE (env_state env k st) s \<and>
    head (hdr (env_state env k st) s) = head (hdr st s) \<and>
    elem_size (hdr (env_state env k st) s) = elem_size (hdr st s) \<and>
    (\<exists>m. ring_items E STREAM_BUFFER_SIZE (env_state env k st) s =
       drop m (ring_items E STREAM_BUFFER_SIZE st s))"
proof (induction k)
  case 0
  have "ring_items E STREAM_BUFFER_SIZE st s = drop 0 (ring_items E STREAM_BUFFER_SIZE st s)" by simp
  then show ?case using assms(2) by (auto intro: exI [of _ 0])
next
  case (Suc k)
  then obtain m where m: "ring_items E STREAM_BUFFER_SIZE (env_state env k st) s =
      drop m (ring_items E STREAM_BUFFER_SIZE st s)" by blast
  from Suc assms(1) obtain j where "ring_items E STREAM_BUFFER_SIZE (env_state env (Suc k) st) s =
      drop j (drop m (ring_items E STREAM_BUFFER_SIZE st s))"
    unfolding m [symmetric] by (auto simp: consumer_env_def)
  then have "\<exists>m. ring_items E STREAM_BUFFER_SIZE (env_state env (Suc k) st) s =
      drop m (ring_items E STREAM_BUFFER_SIZE st s)" by auto
  with Suc assms(1) show ?case by (simp add: consumer_env_def)
qed

lemma producer_env_state:
  assumes "producer_env E s env" and "ring_ok E STREAM_BUFFER_SIZE st s"
  shows "ring_ok E STREAM_BUFFER_SIZE (env_state env k st) s \<and>
    tail (hdr (env_state env k st) s) = tail (hdr st s) \<and>
    elem_size (hdr (env_state env k st) s) = elem_size (hdr st s) \<and>
    (\<exists>ys. ring_items E STREAM_BUFFER_SIZE (env_state env k st) s =
       ring_items E STREAM_BUFFER_SIZE st s @ ys)"
proof (induction k)
  case (Suc k)
  then obtain ys where ys: "ring_items E STREAM_BUFFER_SIZE (env_state env k st) s =
      ring_items E STREAM_BUFFER_SIZE st s @ ys" by blast
  from Suc assms(1) obtain zs where "ring_items E STREAM_BUFFER_SIZE (env_state env (Suc k) st) s =
      (ring_items E STREAM_BUFFER_SIZE st s @ ys) @ zs"
    unfolding ys [symmetric] by (auto simp: producer_env_def)
  with Suc assms(1) show ?case by (simp add: producer_env_def)
qed (use assms in simp)

text \<open>
  C33.  A push that waits returns if and only if the consumer ever makes room for one element;
  then it has appended its element to what the consumer left in the stream.
\<close>

theorem push_block_waits_for_room:
  assumes ok: "ring_ok E STREAM_BUFFER_SIZE st (p ! idx)" and idx: "idx < length p"
    and es: "unat (elem_size (hdr st (p ! idx))) = E" and e: "length e = E"
    and env: "consumer_env E (p ! idx) env"
  shows "(if \<exists>k. 0 < ring_room E STREAM_BUFFER_SIZE (env_state env k st) (p ! idx)
     then \<exists>slept st' m. inline_push_block env p idx e st = Some (slept, Done st') \<and>
       ring_ok E STREAM_BUFFER_SIZE st' (p ! idx) \<and>
       ring_items E STREAM_BUFFER_SIZE st' (p ! idx) =
         drop m (ring_items E STREAM_BUFFER_SIZE st (p ! idx)) @ [e]
     else inline_push_block env p idx e st = None)"
proof -
  let ?s = "p ! idx" and ?B = STREAM_BUFFER_SIZE
  let ?nx = "(head (hdr st ?s) + ucast (elem_size (hdr st ?s))) mod of_nat ?B"
  let ?busy = "\<lambda>st. ?nx = tail (hdr st ?s)"
  have nx: "?nx = (head (hdr (env_state env k st) ?s) + of_nat E) mod of_nat ?B" for k
    using consumer_env_state [OF env ok, of k] es by (simp add: ucast_elem_size)
  have busy: "\<not> ?busy (env_state env k st) \<longleftrightarrow> 0 < ring_room E ?B (env_state env k st) ?s" for k
    unfolding nx [of k] using consumer_env_state [OF env ok, of k] by (intro ring_room_pos_iff) simp
  show ?thesis
  proof (cases "\<exists>k. 0 < ring_room E ?B (env_state env k st) ?s")
    case True
    then obtain slept st1 where run: "spin ?busy env 0 PASS_RETRY 0 st = Some (slept, st1)"
      using spin_returns_iff [of ?busy env PASS_RETRY 0 st] busy by auto
    from PASS_state [OF run] obtain k where free: "\<not> ?busy st1" and st1: "st1 = env_state env k st"
      by blast
    note c = consumer_env_state [OF env ok, of k, folded st1]
    from c obtain m where m: "ring_items E ?B st1 ?s = drop m (ring_items E ?B st ?s)" by blast
    have nx1: "?nx = (head (hdr st1 ?s) + of_nat E) mod of_nat ?B" unfolding st1 by (rule nx)
    from put_elem_ring [OF conjunct1 [OF c] e free [unfolded nx1] refl] obtain st' where st':
      "put_elem ?s (buf (hdr st1 ?s)) (head (hdr st1 ?s)) E e ?nx st1 = Done st'"
      "ring_ok E ?B st' ?s" "ring_items E ?B st' ?s = ring_items E ?B st1 ?s @ [e]"
      unfolding nx1 [symmetric] by blast
    have "inline_push_block env p idx e st = Some (slept, Done st')"
      using run st'(1) idx es c by (simp add: inline_push_block_def Let_def)
    with True st' m show ?thesis by auto
  next
    case False
    then have "spin ?busy env 0 PASS_RETRY 0 st = None"
      using spin_returns_iff [of ?busy env PASS_RETRY 0 st] busy by (metis not_None_eq)
    with False idx show ?thesis by (simp add: inline_push_block_def Let_def)
  qed
qed

text \<open>
   A pop that waits returns if and only if the producer ever pushes an element; then it
  returns the oldest element of the stream and removes exactly that one.
\<close>

theorem pop_block_waits_for_data:
  assumes ok: "ring_ok E STREAM_BUFFER_SIZE st (p ! idx)" and idx: "idx < length p"
    and es: "unat (elem_size (hdr st (p ! idx))) = E"
    and env: "producer_env E (p ! idx) env"
  shows "(if \<exists>k. ring_items E STREAM_BUFFER_SIZE (env_state env k st) (p ! idx) \<noteq> []
     then \<exists>slept e st' ys. inline_pop_block env p idx st = Some (slept, Done (e, st')) \<and>
       ring_ok E STREAM_BUFFER_SIZE st' (p ! idx) \<and>
       ring_items E STREAM_BUFFER_SIZE st (p ! idx) @ ys =
         e # ring_items E STREAM_BUFFER_SIZE st' (p ! idx)
     else inline_pop_block env p idx st = None)"
proof -
  let ?s = "p ! idx" and ?B = STREAM_BUFFER_SIZE
  let ?busy = "\<lambda>st1. head (hdr st1 ?s) = tail (hdr st ?s)"
  have busy: "\<not> ?busy (env_state env k st) \<longleftrightarrow> ring_items E ?B (env_state env k st) ?s \<noteq> []" for k
    using producer_env_state [OF env ok, of k]
      ring_count_0_iff [of E ?B "env_state env k st" ?s] by (auto simp flip: length_ring_items)
  show ?thesis
  proof (cases "\<exists>k. ring_items E ?B (env_state env k st) ?s \<noteq> []")
    case True
    then obtain slept st1 where run: "spin ?busy env 0 PASS_RETRY 0 st = Some (slept, st1)"
      using spin_returns_iff [of ?busy env PASS_RETRY 0 st] busy by auto
    from PASS_state [OF run] obtain k where data: "\<not> ?busy st1" and st1: "st1 = env_state env k st"
      by blast
    note c = producer_env_state [OF env ok, of k, folded st1]
    from c obtain ys where ys: "ring_items E ?B st1 ?s = ring_items E ?B st ?s @ ys" by blast
    from data c have ne: "head (hdr st1 ?s) \<noteq> tail (hdr st1 ?s)" by simp
    from get_elem_ring [OF conjunct1 [OF c] ne refl] obtain st' where st':
      "get_elem ?s (buf (hdr st1 ?s)) (tail (hdr st1 ?s)) E
         ((tail (hdr st1 ?s) + of_nat E) mod of_nat ?B) st1 = Done (hd (ring_items E ?B st1 ?s), st')"
      "ring_ok E ?B st' ?s" "ring_items E ?B st' ?s = tl (ring_items E ?B st1 ?s)"
      by blast
    have es1: "unat (elem_size (hdr st1 ?s)) = E" and t1: "tail (hdr st1 ?s) = tail (hdr st ?s)"
      using c es by auto
    have "get_elem ?s (buf (hdr st1 ?s)) (tail (hdr st ?s)) (unat (elem_size (hdr st1 ?s)))
        ((tail (hdr st ?s) + ucast (elem_size (hdr st1 ?s))) mod of_nat ?B) st1 =
      Done (hd (ring_items E ?B st1 ?s), st')"
      unfolding ucast_elem_size es1 using st'(1) unfolding t1 .
    with run idx have "inline_pop_block env p idx st = Some (slept, Done (hd (ring_items E ?B st1 ?s), st'))"
      by (simp add: inline_pop_block_def Let_def)
    moreover have "ring_items E ?B st1 ?s \<noteq> []" using busy [of k] data st1 by simp
    ultimately show ?thesis using True st'(2,3) ys by (auto intro!: exI [of _ ys])
  next
    case False
    then have "spin ?busy env 0 PASS_RETRY 0 st = None"
      using spin_returns_iff [of ?busy env PASS_RETRY 0 st] busy by (metis not_None_eq)
    with False idx show ?thesis by (simp add: inline_pop_block_def Let_def)
  qed
qed

text \<open>A consumer that pops once before every look.\<close>

definition popping_env :: "nat \<Rightarrow> ptr \<Rightarrow> nat \<Rightarrow> store \<Rightarrow> store" where
  "popping_env E s i st =
     (if unat (elem_size (hdr st s)) = E
      then (case inline_pop_0_0 [s] 0 st of Done (e, st') \<Rightarrow> st' | _ \<Rightarrow> st) else st)"

lemma popping_env_pops:
  assumes "ring_ok E STREAM_BUFFER_SIZE st s" and "unat (elem_size (hdr st s)) = E"
  shows "ring_ok E STREAM_BUFFER_SIZE (popping_env E s i st) s \<and>
    head (hdr (popping_env E s i st) s) = head (hdr st s) \<and>
    elem_size (hdr (popping_env E s i st) s) = elem_size (hdr st s) \<and>
    ring_items E STREAM_BUFFER_SIZE (popping_env E s i st) s = drop 1 (ring_items E STREAM_BUFFER_SIZE st s)"
proof (cases "ring_items E STREAM_BUFFER_SIZE st s")
  case Nil
  then have "popping_env E s i st = st"
    using inline_pop_E_B_blocked [of E STREAM_BUFFER_SIZE st "[s]" 0] assms
    by (simp add: popping_env_def inline_pop_0_0_eq)
  then show ?thesis using assms Nil by simp
next
  case (Cons x xs)
  then obtain st' where st': "inline_pop_E_B E STREAM_BUFFER_SIZE [s] 0 st = Done (x, st')"
    "ring_ok E STREAM_BUFFER_SIZE st' s" "ring_items E STREAM_BUFFER_SIZE st' s = xs"
    using inline_pop_E_B_some [of E STREAM_BUFFER_SIZE st "[s]" 0 x xs] assms by auto
  then have "popping_env E s i st = st'" using assms by (simp add: popping_env_def inline_pop_0_0_eq)
  moreover have "head (hdr st' s) = head (hdr st s)" "elem_size (hdr st' s) = elem_size (hdr st s)"
    using pop_E_B_Done [OF st'(1)] by (auto dest!: get_elem_hdr)
  ultimately show ?thesis using st' Cons by simp
qed

lemma popping_env_consumer: "consumer_env E s (popping_env E s)"
  unfolding consumer_env_def
proof (intro allI impI)
  fix i st
  assume ok: "ring_ok E STREAM_BUFFER_SIZE st s"
  show "ring_ok E STREAM_BUFFER_SIZE (popping_env E s i st) s \<and>
      head (hdr (popping_env E s i st) s) = head (hdr st s) \<and>
      elem_size (hdr (popping_env E s i st) s) = elem_size (hdr st s) \<and>
      (\<exists>k. ring_items E STREAM_BUFFER_SIZE (popping_env E s i st) s =
         drop k (ring_items E STREAM_BUFFER_SIZE st s))"
  proof (cases "unat (elem_size (hdr st s)) = E")
    case True
    with popping_env_pops [OF ok] show ?thesis by blast
  next
    case False
    then show ?thesis using ok by (auto simp: popping_env_def intro: exI [of _ 0])
  qed
qed

lemma full_sample:
  assumes "st = (sample_store 16384 STREAM_BUFFER_SIZE)
    \<lparr>hdr := \<lambda>s. (sample_stream 16384 s)\<lparr>head := 16384\<rparr>\<rparr>"
  shows "ring_ok 16384 STREAM_BUFFER_SIZE st 0" "unat (elem_size (hdr st 0)) = 16384"
    "ring_count 16384 STREAM_BUFFER_SIZE st 0 = 1" "ring_cap 16384 STREAM_BUFFER_SIZE = 1"
  by (simp_all add: assms ring_ok_def ring_size_def sample_store_def sample_stream_def
    STREAM_BUFFER_SIZE_def ring_count_def ring_dist_def ring_cap_def)

theorem push_block_waits_for_room_witness:
  "\<exists>st slept st'. ring_room 16384 STREAM_BUFFER_SIZE st 0 = 0 \<and>
     inline_push_block (popping_env 16384 0) [0] 0 (replicate 16384 7) st = Some (slept, Done st')"
proof -
  let ?st = "(sample_store 16384 STREAM_BUFFER_SIZE)
    \<lparr>hdr := \<lambda>s. (sample_stream 16384 s)\<lparr>head := 16384\<rparr>\<rparr>"
  note full = full_sample [OF refl]
  have "ring_items 16384 STREAM_BUFFER_SIZE (env_state (popping_env 16384 0) 1 ?st) 0 =
      drop 1 (ring_items 16384 STREAM_BUFFER_SIZE ?st 0)"
    using popping_env_pops [OF full(1,2)] by simp
  then have "0 < ring_room 16384 STREAM_BUFFER_SIZE (env_state (popping_env 16384 0) 1 ?st) 0"
    using full(3,4) ring_room_items by fastforce
  then have ex: "\<exists>k. 0 < ring_room 16384 STREAM_BUFFER_SIZE (env_state (popping_env 16384 0) k ?st) 0"
    by blast
  have "ring_room 16384 STREAM_BUFFER_SIZE ?st 0 = 0" using full(3,4) by (simp add: ring_room_def)
  with push_block_waits_for_room [of 16384 ?st "[0]" 0 "replicate 16384 7" "popping_env 16384 0"]
    full(1,2) ex popping_env_consumer [of 16384 0]
  show ?thesis by auto
qed

theorem pop_block_waits_for_data_witness:
  "\<exists>st slept e st'. inline_pop_block (\<lambda>i st. st) [0] 0 st = Some (slept, Done (e, st')) \<and>
     ring_items 16384 STREAM_BUFFER_SIZE st 0 \<noteq> []"
proof -
  let ?st = "(sample_store 16384 STREAM_BUFFER_SIZE)
    \<lparr>hdr := \<lambda>s. (sample_stream 16384 s)\<lparr>head := 16384\<rparr>\<rparr>"
  note full = full_sample [OF refl]
  have items: "ring_items 16384 STREAM_BUFFER_SIZE (env_state (\<lambda>i st. st) 0 ?st) 0 \<noteq> []"
    using full(3) by (simp flip: length_greater_0_conv)
  then have ex: "\<exists>k. ring_items 16384 STREAM_BUFFER_SIZE (env_state (\<lambda>i st. st) k ?st) 0 \<noteq> []" by blast
  have "producer_env 16384 0 (\<lambda>i st. st)" by (simp add: producer_env_def)
  with pop_block_waits_for_data [of 16384 ?st "[0]" 0 "\<lambda>i st. st"] full(1,2) ex items
  show ?thesis by auto
qed

end
