(* ===== verification/Work_Functions.thy ===== *)
theory Work_Functions
  imports Array_Ops Stream_Space
begin

section \<open>Skeletons around kernel work functions\<close>

text \<open>
  The \<open>__SKIRRT_workfn\<close> functions of \<open>lib/runtime/inline_stream_ops.cpp\<close>: the skeletons into
  which the compiler inlines a kernel's work function, fused pairs of kernels, and the
  splitter and joiner of data-parallel kernels.  The work function itself is user code and a
  parameter: from the kernel's private state and the store it computes a result, which is
  null while the kernel wants to go on, and the new state.  It does not touch the runtime
  state, which only the skeletons count in.
\<close>

type_synonym 'k work = "'k \<Rightarrow> ptr list \<Rightarrow> ptr list \<Rightarrow> store \<Rightarrow> (endp, endp \<times> 'k \<times> store) outcome"

type_synonym 'k wstate = "skir_rt_state_t \<times> 'k \<times> store"

definition count_iter :: "skir_rt_state_t \<Rightarrow> skir_rt_state_t" where
  "count_iter r = r\<lparr>niter := niter r + 1\<rparr>"

definition workfn :: "'k \<Rightarrow> ptr list \<Rightarrow> ptr list \<Rightarrow> store \<Rightarrow> (endp, endp \<times> 'k \<times> store) outcome" where
  "workfn k ins outs st = Done (DeadEnd, k, st)"

definition workfn_skel :: "'k work \<Rightarrow> ptr list \<Rightarrow> ptr list \<Rightarrow> 'k wstate \<Rightarrow> (endp, endp \<times> 'k wstate) outcome" where
  "workfn_skel work ins outs = (\<lambda>(r, k, st).
     bind_out (work k ins outs st) (\<lambda>(v, k, st). Done (v, count_iter r, k, st)))"

text \<open>The loop runs until the work function returns something; it may run forever.\<close>

partial_function (option) workfn_loop ::
    "'k work \<Rightarrow> ptr list \<Rightarrow> ptr list \<Rightarrow> 'k wstate \<Rightarrow> (endp, endp \<times> 'k wstate) outcome option" where
  "workfn_loop work ins outs s =
     (case workfn_skel work ins outs s of
        Done (v, s) \<Rightarrow> if v = NullEnd then workfn_loop work ins outs s else Some (Done (v, s))
      | WouldBlock a b \<Rightarrow> Some (WouldBlock a b)
      | Fault \<Rightarrow> Some Fault)"

subsection \<open>Fused pairs\<close>

record 'k inline_inline_t =
  iter0 :: int
  niter0 :: int
  rt_state0 :: skir_rt_state_t
  state0 :: 'k
  ins0 :: "ptr list"
  outs0 :: "ptr list"
  iter1 :: int
  niter1 :: int
  rt_state1 :: skir_rt_state_t
  state1 :: 'k
  ins1 :: "ptr list"
  outs1 :: "ptr list"

function inline2_loop0 :: "'k work \<Rightarrow> 'k inline_inline_t \<Rightarrow> store \<Rightarrow>
    (endp, endp \<times> 'k inline_inline_t \<times> store) outcome" where
  "inline2_loop0 wf0 s st =
     (if iter0 s < niter0 s then
        bind_out (wf0 (state0 s) (ins0 s) (outs0 s) st) (\<lambda>(v, k, st).
          let s = s\<lparr>state0 := k\<rparr> in
          if v \<noteq> NullEnd then Done (v, s, st)
          else inline2_loop0 wf0 (s\<lparr>rt_state0 := count_iter (rt_state0 s), iter0 := iter0 s + 1\<rparr>) st)
      else Done (NullEnd, s, st))"
  by pat_completeness auto
termination by (relation "measure (\<lambda>(work, s, st). nat (niter0 s - iter0 s))") auto

function inline2_loop1 :: "'k work \<Rightarrow> 'k inline_inline_t \<Rightarrow> store \<Rightarrow>
    (endp, endp \<times> 'k inline_inline_t \<times> store) outcome" where
  "inline2_loop1 wf1 s st =
     (if iter1 s < niter1 s then
        bind_out (wf1 (state1 s) (ins1 s) (outs1 s) st) (\<lambda>(v, k, st).
          let s = s\<lparr>state1 := k\<rparr> in
          if v \<noteq> NullEnd then Done (v, s, st)
          else inline2_loop1 wf1 (s\<lparr>rt_state1 := count_iter (rt_state1 s), iter1 := iter1 s + 1\<rparr>) st)
      else Done (NullEnd, s, st))"
  by pat_completeness auto
termination by (relation "measure (\<lambda>(work, s, st). nat (niter1 s - iter1 s))") auto

declare inline2_loop0.simps [simp del] inline2_loop1.simps [simp del]

definition workfn_inline2 :: "'k work \<Rightarrow> 'k work \<Rightarrow> 'k inline_inline_t \<Rightarrow> store \<Rightarrow>
    (endp, endp \<times> 'k inline_inline_t \<times> store) outcome" where
  "workfn_inline2 wf0 wf1 s st =
     bind_out (inline2_loop0 wf0 s st) (\<lambda>(v, s, st).
       if v \<noteq> NullEnd then Done (v, s, st) else
     bind_out (inline2_loop1 wf1 s st) (\<lambda>(v, s, st).
       if v \<noteq> NullEnd then Done (v, s, st) else
     Done (NullEnd, s\<lparr>iter0 := 0, iter1 := 0\<rparr>, st)))"

definition workfn_inline2_1_1 :: "'k work \<Rightarrow> 'k work \<Rightarrow> 'k inline_inline_t \<Rightarrow> store \<Rightarrow>
    (endp, endp \<times> 'k inline_inline_t \<times> store) outcome" where
  "workfn_inline2_1_1 wf0 wf1 s st =
     bind_out (wf0 (state0 s) (ins0 s) (outs0 s) st) (\<lambda>(v, k, st).
       let s = s\<lparr>state0 := k\<rparr> in
       if v \<noteq> NullEnd then Done (v, s, st) else
       (let s = s\<lparr>rt_state0 := count_iter (rt_state0 s)\<rparr> in
     bind_out (wf1 (state1 s) (ins1 s) (outs1 s) st) (\<lambda>(v, k, st).
       let s = s\<lparr>state1 := k\<rparr> in
       if v \<noteq> NullEnd then Done (v, s, st)
       else Done (NullEnd, s\<lparr>rt_state1 := count_iter (rt_state1 s)\<rparr>, st))))"

subsection \<open>Running as often as the streams allow\<close>

text \<open>The loop \<open>while (niter--)\<close> with its \<open>break\<close>; the result is the last value of \<open>k\<close>.\<close>

fun run_iters :: "nat \<Rightarrow> 'k work \<Rightarrow> ptr list \<Rightarrow> ptr list \<Rightarrow> 'k wstate \<Rightarrow> (endp, endp \<times> 'k wstate) outcome" where
  "run_iters 0 work ins outs s = Done (NullEnd, s)"
| "run_iters (Suc n) work ins outs s =
     bind_out (workfn_skel work ins outs s) (\<lambda>(v, s).
       if v \<noteq> NullEnd then Done (v, s) else run_iters n work ins outs s)"

definition workfn_nocheck_E_B :: "nat \<Rightarrow> nat \<Rightarrow> 'k work \<Rightarrow> ptr list \<Rightarrow> ptr list \<Rightarrow> 'k wstate \<Rightarrow>
    (endp, endp \<times> 'k wstate) outcome" where
  "workfn_nocheck_E_B E B work ins outs = (\<lambda>(r, k, st).
     bind_out (inline_compute_niters_E_B E B ins 1 outs 1 st) (\<lambda>(v, n).
       if v \<noteq> NullEnd then Done (v, r, k, st)
       else run_iters (unat n) work ins outs (r, k, st)))"

definition workfn_nocheck_0_0 :: "'k work \<Rightarrow> ptr list \<Rightarrow> ptr list \<Rightarrow> 'k wstate \<Rightarrow>
    (endp, endp \<times> 'k wstate) outcome" where
  "workfn_nocheck_0_0 work ins outs = (\<lambda>(r, k, st).
     bind_out (inline_compute_niters ins 1 outs 1 st) (\<lambda>(v, n).
       if v \<noteq> NullEnd then Done (v, r, k, st)
       else run_iters (unat n) work ins outs (r, k, st)))"

text \<open>
  The variant that works on copies of the positions in two local headers \<open>i\<close> and \<open>o\<close>, whose
  other fields are never set, and writes the positions back after every iteration.
\<close>

fun run_local :: "nat \<Rightarrow> 'k work \<Rightarrow> ptr \<Rightarrow> ptr \<Rightarrow> ptr \<Rightarrow> ptr \<Rightarrow> 'k wstate \<Rightarrow> (endp, endp \<times> 'k wstate) outcome" where
  "run_local 0 work li lo i out s = Done (NullEnd, s)"
| "run_local (Suc n) work li lo i out s =
     bind_out (workfn_skel work [li] [lo] s) (\<lambda>(v, r, k, st).
       let st = set_head out (head (hdr st lo)) (set_tail i (tail (hdr st li)) st) in
       if v \<noteq> NullEnd then Done (v, r, k, st) else run_local n work li lo i out (r, k, st))"

definition workfn_nocheck_1_1 :: "'k work \<Rightarrow> ptr \<Rightarrow> ptr \<Rightarrow> ptr list \<Rightarrow> ptr list \<Rightarrow> 'k wstate \<Rightarrow>
    (endp, endp \<times> 'k wstate) outcome" where
  "workfn_nocheck_1_1 work li lo ins outs = (\<lambda>(r, k, st).
     bind_out (inline_compute_niters_E_B 4 32768 ins 1 outs 1 st) (\<lambda>(v, n).
       if v \<noteq> NullEnd then Done (v, r, k, st)
       else with_stream ins 0 (\<lambda>i. with_stream outs 0 (\<lambda>out.
         let st1 = st\<lparr>hdr := (hdr st)(li := (hdr st li)\<lparr>tail := tail (hdr st i), inp := inp (hdr st i)\<rparr>)\<rparr>;
             st2 = st1\<lparr>hdr := (hdr st1)(lo := (hdr st1 lo)\<lparr>head := head (hdr st out), outp := outp (hdr st out)\<rparr>)\<rparr>
         in run_local (unat n) work li lo i out (r, k, st2)))))"

text \<open>
  The variant over arrays: the local headers carry the addresses of the arrays, and the
  number of iterations is taken from the runtime state, where it is then counted up again.
\<close>

definition workfn_array :: "'k work \<Rightarrow> ptr \<Rightarrow> ptr \<Rightarrow> ptr list \<Rightarrow> ptr list \<Rightarrow> 'k wstate \<Rightarrow>
    (endp, endp \<times> 'k wstate) outcome" where
  "workfn_array work li lo ins outs = (\<lambda>(r, k, st).
     with_stream ins 0 (\<lambda>i. with_stream outs 0 (\<lambda>out.
       let st1 = st\<lparr>hdr := (hdr st)(li := (hdr st li)\<lparr>stride := stride (hdr st i),
                   elem_size := stride (hdr st i), tail := of_nat (inp (hdr st i))\<rparr>)\<rparr>;
           st2 = st1\<lparr>hdr := (hdr st1)(lo := (hdr st1 lo)\<lparr>stride := stride (hdr st out),
                   elem_size := stride (hdr st out), head := of_nat (outp (hdr st out))\<rparr>)\<rparr>
       in run_iters (unat (niter r)) work [li] [lo] (r\<lparr>niter := 0\<rparr>, k, st2))))"

subsection \<open>Data-parallel splitter and joiner\<close>

record dp_splitter_work_t =
  next_stream :: int
  dp_niter :: int
  rate :: "int list"
  num_streams :: int

text \<open>One element through the local \<open>float f\<close>, an object of four bytes.\<close>

definition move_float :: "ptr \<Rightarrow> ptr \<Rightarrow> store \<Rightarrow> (endp, store) outcome" where
  "move_float s d st = bind_out (inline_pop_nocheck_s s st) (\<lambda>(f, st).
     assert_out (length f \<le> 4) (inline_push_nocheck_s d f st))"

definition rate_at :: "dp_splitter_work_t \<Rightarrow> nat \<Rightarrow> nat" where
  "rate_at w i = nat (rate w ! i)"

definition split_round :: "dp_splitter_work_t \<Rightarrow> ptr list \<Rightarrow> ptr list \<Rightarrow> store \<Rightarrow> (endp, store) outcome" where
  "split_round w ins outs =
     for_out [0..<nat (num_streams w)] (\<lambda>i st.
       assert_out (i < length (rate w))
         (for_out [0..<rate_at w i]
           (\<lambda>j st. with_stream ins 0 (\<lambda>s. with_stream outs i (\<lambda>d. move_float s d st))) st))"

definition join_round :: "dp_splitter_work_t \<Rightarrow> ptr list \<Rightarrow> ptr list \<Rightarrow> store \<Rightarrow> (endp, store) outcome" where
  "join_round w ins outs =
     for_out [0..<nat (num_streams w)] (\<lambda>i st.
       assert_out (i < length (rate w))
         (for_out [0..<rate_at w i]
           (\<lambda>j st. with_stream ins i (\<lambda>s. with_stream outs 0 (\<lambda>d. move_float s d st))) st))"

text \<open>
  The outer loop: it ends when \<open>compute_niters\<close> names a stream in the way (or a neighbour that
  is null, in which case it goes on).
\<close>

partial_function (option) dp_split_work ::
    "dp_splitter_work_t \<Rightarrow> ptr list \<Rightarrow> ptr list \<Rightarrow> store \<Rightarrow> (endp, endp \<times> store) outcome option" where
  "dp_split_work w ins outs st =
     (case inline_compute_niters ins 1 outs (nat (num_streams w)) st of
        WouldBlock a b \<Rightarrow> Some (WouldBlock a b)
      | Fault \<Rightarrow> Some Fault
      | Done (v, n) \<Rightarrow>
          if v \<noteq> NullEnd then Some (Done (v, st))
          else (case for_out [0..<unat n] (\<lambda>_. split_round w ins outs) st of
              WouldBlock a b \<Rightarrow> Some (WouldBlock a b)
            | Fault \<Rightarrow> Some Fault
            | Done st \<Rightarrow> dp_split_work w ins outs st))"

partial_function (option) dp_join_work ::
    "dp_splitter_work_t \<Rightarrow> ptr list \<Rightarrow> ptr list \<Rightarrow> store \<Rightarrow> (endp, endp \<times> store) outcome option" where
  "dp_join_work w ins outs st =
     (case inline_compute_niters ins (nat (num_streams w)) outs 1 st of
        WouldBlock a b \<Rightarrow> Some (WouldBlock a b)
      | Fault \<Rightarrow> Some Fault
      | Done (v, n) \<Rightarrow>
          if v \<noteq> NullEnd then Some (Done (v, st))
          else (case for_out [0..<unat n] (\<lambda>_. join_round w ins outs) st of
              WouldBlock a b \<Rightarrow> Some (WouldBlock a b)
            | Fault \<Rightarrow> Some Fault
            | Done st \<Rightarrow> dp_join_work w ins outs st))"

end
