(* ===== verification/Split_Join.thy ===== *)
theory Split_Join
  imports Work_Functions
begin

section \<open>The splitter and the joiner of data-parallel kernels\<close>

text \<open>
  What \<open>__SKIRRT_dp_split_work\<close> and \<open>__SKIRRT_dp_join_work\<close> of \<open>lib/runtime/inline_stream_ops.cpp\<close>
  do to the contents of their streams: both end, whatever the streams hold, and joining what
  was split gives back the input in its order.
\<close>

subsection \<open>The generic iteration count\<close>

lemma pop_space_generic: "inline_pop_space = inline_pop_space_E_B E STREAM_BUFFER_SIZE"
  by (intro ext) (simp add: inline_pop_space_def inline_pop_space_E_B_def)

lemma push_space_generic:
  assumes "unat (elem_size (hdr st s)) = E"
  shows "inline_push_space st s = inline_push_space_E_B E STREAM_BUFFER_SIZE st s"
  unfolding inline_push_space_def inline_push_space_E_B_def ucast_elem_size assms ..

lemma niters_outs_cong:
  assumes "\<forall>i \<in> set is. i < length outs \<longrightarrow>
    space (outs ! i) = space' (outs ! i) \<and> esz (outs ! i) = esz' (outs ! i)"
  shows "niters_outs space esz st outs is n = niters_outs space' esz' st outs is n"
  using assms by (induction "is" arbitrary: n) (simp_all add: with_stream_def Let_def)

lemma niters_ins_cong:
  assumes "\<forall>i \<in> set is. i < length ins \<longrightarrow> esz (ins ! i) = esz' (ins ! i)"
  shows "niters_ins space esz st ins is n = niters_ins space esz' st ins is n"
  using assms by (induction "is" arbitrary: n) (simp_all add: with_stream_def Let_def)

lemma compute_niters_generic:
  assumes "\<forall>s \<in> set ins \<union> set outs. unat (elem_size (hdr st s)) = E"
  shows "inline_compute_niters ins nins outs nouts st =
    inline_compute_niters_E_B E STREAM_BUFFER_SIZE ins nins outs nouts st"
proof -
  have E: "(ucast (elem_size (hdr st s)) :: size_t) = of_nat E" if "s \<in> set ins \<union> set outs" for s
    unfolding ucast_elem_size using assms that by metis
  have out: "niters_outs (inline_push_space st) (\<lambda>s. ucast (elem_size (hdr st s))) st outs is n =
      niters_outs (inline_push_space_E_B E STREAM_BUFFER_SIZE st) (\<lambda>s. of_nat E) st outs is n" for "is" n
    by (rule niters_outs_cong) (use assms push_space_generic E in \<open>auto\<close>)
  have inn: "niters_ins (inline_pop_space st) (\<lambda>s. ucast (elem_size (hdr st s))) st ins is n =
      niters_ins (inline_pop_space_E_B E STREAM_BUFFER_SIZE st) (\<lambda>s. of_nat E) st ins is n" for "is" n
    unfolding pop_space_generic [of E] by (rule niters_ins_cong) (use E in auto)
  show ?thesis unfolding inline_compute_niters_def inline_compute_niters_E_B_def out inn ..
qed

subsection \<open>Moving elements between streams\<close>

text \<open>
  \<open>holds S st c\<close>: the streams \<open>S\<close> are well formed streams of four-byte elements with buffers of
  their own, and \<open>c\<close> gives what they hold.
\<close>

definition holds :: "ptr set \<Rightarrow> store \<Rightarrow> (ptr \<Rightarrow> byte list list) \<Rightarrow> bool" where
  "holds S st c \<longleftrightarrow> (\<forall>s \<in> S. ring_ok 4 STREAM_BUFFER_SIZE st s \<and> elem_size (hdr st s) = 4 \<and>
     ring_items 4 STREAM_BUFFER_SIZE st s = c s) \<and> (\<forall>s \<in> S. \<forall>s' \<in> S. s \<noteq> s' \<longrightarrow> apart st s s')"

definition capacity :: nat where
  "capacity = ring_cap 4 STREAM_BUFFER_SIZE"

text \<open>What the moves leave alone: everything but positions, counters and buffer contents.\<close>

definition same_config :: "store \<Rightarrow> store \<Rightarrow> bool" where
  "same_config st st' \<longleftrightarrow> (\<forall>s. pop_rate (hdr st' s) = pop_rate (hdr st s) \<and>
     push_rate (hdr st' s) = push_rate (hdr st s) \<and> peek_rate (hdr st' s) = peek_rate (hdr st s) \<and>
     src (hdr st' s) = src (hdr st s) \<and> dst (hdr st' s) = dst (hdr st s) \<and>
     buf (hdr st' s) = buf (hdr st s) \<and> elem_size (hdr st' s) = elem_size (hdr st s))"

lemma same_config_refl: "same_config st st"
  by (simp add: same_config_def)

lemma same_config_trans: "same_config a b \<Longrightarrow> same_config b c \<Longrightarrow> same_config a c"
  by (simp add: same_config_def)

lemma holds_len: "holds S st c \<Longrightarrow> s \<in> S \<Longrightarrow> length (c s) \<le> capacity"
  using ring_count_le_cap by (force simp: holds_def capacity_def simp flip: length_ring_items)

lemma pop_holds:
  assumes h: "holds S st c" and s: "s \<in> S" and e: "c s = e # xs"
  shows "\<exists>st'. inline_pop_nocheck_s s st = Done (e, st') \<and> holds S st' (c(s := xs)) \<and>
    same_config st st' \<and> length e = 4"
proof -
  let ?B = STREAM_BUFFER_SIZE
  have ok: "\<And>x. x \<in> S \<Longrightarrow> ring_ok 4 ?B st x" and es: "\<And>x. x \<in> S \<Longrightarrow> elem_size (hdr st x) = 4"
    and it: "\<And>x. x \<in> S \<Longrightarrow> ring_items 4 ?B st x = c x"
    and ap: "\<And>x y. x \<in> S \<Longrightarrow> y \<in> S \<Longrightarrow> x \<noteq> y \<Longrightarrow> apart st x y"
    using h by (auto simp: holds_def)
  obtain st1 where st1: "inline_pop_E_B 4 ?B [s] 0 st = Done (e, st1)" "ring_ok 4 ?B st1 s"
    "ring_items 4 ?B st1 s = xs"
    using inline_pop_E_B_some [of 4 ?B st "[s]" 0 e xs] ok [OF s] it [OF s] e by auto
  have pop: "inline_pop_nocheck_s s st = Done (e, st1)"
    using st1 pop_nocheck_s_eq [of st s 4] pop_nocheck_eq [of 4 ?B st "[s]" 0] es [OF s] ok [OF s] it [OF s] e
    by simp
  have h1: "hdr st1 = (hdr st)(s := (hdr st s)\<lparr>tail := (tail (hdr st s) + of_nat 4) mod of_nat ?B\<rparr>)"
    using pop_E_B_Done(2) [OF st1(1)] by (auto dest!: get_elem_hdr)
  have fr: "ring_items 4 ?B st1 x = c x" "ring_ok 4 ?B st1 x" if "x \<in> S" "x \<noteq> s" for x
    using pop_E_B_frame [OF st1(1), of x 4 ?B] ap [OF s that(1)] that it ok by auto
  have "e \<in> set (ring_items 4 ?B st s)" using it [OF s] e by simp
  then have le: "length e = 4" using ring_items_length [OF ok [OF s]] by blast
  have "holds S st1 (c(s := xs))"
    unfolding holds_def
  proof (intro conjI ballI impI)
    fix x y assume x: "x \<in> S"
    show "ring_ok 4 ?B st1 x" "ring_items 4 ?B st1 x = (c(s := xs)) x" using fr [OF x] st1 by (cases "x = s"; auto)+
    show "elem_size (hdr st1 x) = 4" using es [OF x] by (auto simp: h1)
    assume "y \<in> S" "x \<noteq> y"
    then show "apart st1 x y" using ap [OF x] by (auto simp: apart_def h1)
  qed
  moreover have "same_config st st1" by (simp add: same_config_def h1)
  ultimately show ?thesis using pop le by blast
qed

lemma push_holds:
  assumes h: "holds S st c" and d: "d \<in> S" and le: "length e = 4" and room: "length (c d) < capacity"
  shows "\<exists>st'. inline_push_nocheck_s d e st = Done st' \<and> holds S st' (c(d := c d @ [e])) \<and> same_config st st'"
proof -
  let ?B = STREAM_BUFFER_SIZE
  have ok: "\<And>x. x \<in> S \<Longrightarrow> ring_ok 4 ?B st x" and es: "\<And>x. x \<in> S \<Longrightarrow> elem_size (hdr st x) = 4"
    and it: "\<And>x. x \<in> S \<Longrightarrow> ring_items 4 ?B st x = c x"
    and ap: "\<And>x y. x \<in> S \<Longrightarrow> y \<in> S \<Longrightarrow> x \<noteq> y \<Longrightarrow> apart st x y"
    using h by (auto simp: holds_def)
  have rm: "0 < ring_room 4 ?B st d" using ring_room_items [OF it [OF d]] room by (simp add: capacity_def)
  obtain st2 where st2: "inline_push_E_B 4 ?B [d] 0 e st = Done st2" "ring_ok 4 ?B st2 d"
    "ring_items 4 ?B st2 d = c d @ [e]"
    using inline_push_E_B_room [of 4 ?B st "[d]" 0 e] ok [OF d] it [OF d] rm le by auto
  have push: "inline_push_nocheck_s d e st = Done st2"
    using st2 push_nocheck_s_eq [of st d 4] push_nocheck_eq [of 4 ?B st "[d]" 0] es [OF d] ok [OF d] rm by simp
  have h2: "hdr st2 = (hdr st)(d := (hdr st d)\<lparr>head := (head (hdr st d) + of_nat 4) mod of_nat ?B,
      num_push := num_push (hdr st d) + 1\<rparr>)"
    using push_E_B_Done(2) [OF st2(1)] by (auto dest!: put_elem_hdr)
  have fr: "ring_items 4 ?B st2 x = c x" "ring_ok 4 ?B st2 x" if "x \<in> S" "x \<noteq> d" for x
    using push_E_B_frame [OF st2(1), of x 4 ?B] ap [OF d that(1)] that it ok by auto
  have "holds S st2 (c(d := c d @ [e]))"
    unfolding holds_def
  proof (intro conjI ballI impI)
    fix x y assume x: "x \<in> S"
    show "ring_ok 4 ?B st2 x" "ring_items 4 ?B st2 x = (c(d := c d @ [e])) x" using fr [OF x] st2 by (cases "x = d"; auto)+
    show "elem_size (hdr st2 x) = 4" using es [OF x] by (auto simp: h2)
    assume "y \<in> S" "x \<noteq> y"
    then show "apart st2 x y" using ap [OF x] by (auto simp: apart_def h2)
  qed
  moreover have "same_config st st2" by (simp add: same_config_def h2)
  ultimately show ?thesis using push by blast
qed

lemma move_float_holds:
  assumes h: "holds S st c" and s: "s \<in> S" and d: "d \<in> S" and sd: "s \<noteq> d"
    and e: "c s = e # xs" and room: "length (c d) < capacity"
  shows "\<exists>st'. move_float s d st = Done st' \<and> holds S st' (c(s := xs, d := c d @ [e])) \<and> same_config st st'"
proof -
  obtain st1 where st1: "inline_pop_nocheck_s s st = Done (e, st1)" "holds S st1 (c(s := xs))" "same_config st st1"
    "length e = 4" using pop_holds [OF h s e] by blast
  have cd: "(c(s := xs)) d = c d" using sd by simp
  obtain st2 where st2: "inline_push_nocheck_s d e st1 = Done st2"
    "holds S st2 (c(s := xs, d := c d @ [e]))" "same_config st1 st2"
    using push_holds [OF st1(2) d st1(4), unfolded cd, OF room] by blast
  have "move_float s d st = Done st2" using st1(1,4) st2(1) by (simp add: move_float_def)
  with st2(2) same_config_trans [OF st1(3) st2(3)] show ?thesis by blast
qed

text \<open>\<open>r\<close> elements from one stream to another.\<close>

lemma move_floats_holds:
  assumes "holds S st c" and "s \<in> S" and "d \<in> S" and "s \<noteq> d"
    and "c s = es @ xs" and "length es = r" and "length (c d) + r \<le> capacity"
  shows "\<exists>st'. for_out [0..<r] (\<lambda>j st. move_float s d st) st = Done st' \<and>
    holds S st' (c(s := xs, d := c d @ es)) \<and> same_config st st'"
  using assms(5-)
proof (induction r arbitrary: es xs)
  case 0
  then have "c(s := xs, d := c d @ es) = c" by auto
  with assms(1) have "holds S st (c(s := xs, d := c d @ es))" by metis
  then show ?case by (auto intro: same_config_refl simp del: fun_upd_apply)
next
  case (Suc r)
  then obtain fs e where es: "es = fs @ [e]" by (metis length_Suc_conv_rev)
  have "c s = fs @ e # xs" "length fs = r" "length (c d) + r \<le> capacity" using Suc.prems es by auto
  from Suc.IH [OF this] obtain st1 where st1: "for_out [0..<r] (\<lambda>j st. move_float s d st) st = Done st1"
    "holds S st1 (c(s := e # xs, d := c d @ fs))" "same_config st st1" by blast
  have "\<exists>st'. move_float s d st1 = Done st' \<and>
      holds S st' ((c(s := e # xs, d := c d @ fs))(s := xs, d := (c(s := e # xs, d := c d @ fs)) d @ [e])) \<and>
      same_config st1 st'"
    using Suc.prems es assms(2-4) by (intro move_float_holds [OF st1(2)]) auto
  then obtain st2 where st2: "move_float s d st1 = Done st2"
    "holds S st2 (c(s := xs, d := c d @ es))" "same_config st1 st2"
    using assms(4) es by (auto simp: fun_upd_twist)
  have "for_out [0..<Suc r] (\<lambda>j st. move_float s d st) st = Done st2"
    using st1(1) st2(1) by (simp add: for_out_append)
  with st2(2) same_config_trans [OF st1(3) st2(3)] show ?case by blast
qed

subsection \<open>Rounds of the splitter and of the joiner\<close>

text \<open>
  A round of the splitter takes a row of \<open>rate[i]\<close> elements for every output; \<open>column i\<close> is what
  output \<open>i\<close> receives in the rounds of a list of rows.
\<close>

definition row_ok :: "dp_splitter_work_t \<Rightarrow> byte list list list \<Rightarrow> bool" where
  "row_ok w row \<longleftrightarrow> length row = nat (num_streams w) \<and> (\<forall>i < length row. length (row ! i) = rate_at w i)"

definition column :: "nat \<Rightarrow> byte list list list list \<Rightarrow> byte list list" where
  "column i rows = concat (map (\<lambda>row. row ! i) rows)"

lemma column_simps [simp]: "column i [] = []" "column i (row # rows) = row ! i @ column i rows"
  by (simp_all add: column_def)

definition dp_streams :: "dp_splitter_work_t \<Rightarrow> ptr \<Rightarrow> ptr list \<Rightarrow> ptr set \<Rightarrow> bool" where
  "dp_streams w s ds S \<longleftrightarrow> s \<in> S \<and> set ds \<subseteq> S \<and> s \<notin> set ds \<and> distinct ds \<and>
     length ds = nat (num_streams w) \<and> length (rate w) = nat (num_streams w)"

text \<open>What the contents are after the first \<open>k\<close> streams of a round were served.\<close>

definition dealt :: "ptr \<Rightarrow> ptr list \<Rightarrow> byte list list list \<Rightarrow> byte list list \<Rightarrow> nat \<Rightarrow>
    (ptr \<Rightarrow> byte list list) \<Rightarrow> (ptr \<Rightarrow> byte list list) \<Rightarrow> bool" where
  "dealt s ds row rest k c c' \<longleftrightarrow> c' s = concat (drop k row) @ rest \<and>
     (\<forall>i < length ds. c' (ds ! i) = c (ds ! i) @ (if i < k then row ! i else [])) \<and>
     (\<forall>x. x \<noteq> s \<longrightarrow> x \<notin> set ds \<longrightarrow> c' x = c x)"

lemma split_prefix:
  assumes h: "holds S st c" and dp: "dp_streams w s ds S" and row: "row_ok w row"
    and cs: "c s = concat row @ rest"
    and room: "\<forall>i < length ds. length (c (ds ! i)) + length (row ! i) \<le> capacity"
    and k: "k \<le> length ds"
  shows "\<exists>st' c'. for_out [0..<k] (\<lambda>i st. assert_out (i < length (rate w))
      (for_out [0..<rate_at w i]
        (\<lambda>j st. with_stream [s] 0 (\<lambda>s. with_stream ds i (\<lambda>d. move_float s d st))) st)) st = Done st' \<and>
    holds S st' c' \<and> same_config st st' \<and> dealt s ds row rest k c c'"
  using k
proof (induction k)
  case 0
  have "dealt s ds row rest 0 c c" using cs by (simp add: dealt_def)
  with h show ?case by (auto intro: same_config_refl)
next
  case (Suc k)
  then obtain st1 c1 where st1: "for_out [0..<k] (\<lambda>i st. assert_out (i < length (rate w))
      (for_out [0..<rate_at w i]
        (\<lambda>j st. with_stream [s] 0 (\<lambda>s. with_stream ds i (\<lambda>d. move_float s d st))) st)) st = Done st1"
    "holds S st1 c1" "same_config st st1" "dealt s ds row rest k c c1" by auto
  have k: "k < length ds" "k < length row" "k < length (rate w)" "length (row ! k) = rate_at w k"
    using Suc.prems dp row by (auto simp: dp_streams_def row_ok_def)
  have mem: "s \<in> S" "ds ! k \<in> S" "s \<noteq> ds ! k" using dp k(1) by (auto simp: dp_streams_def)
  have c1: "c1 s = row ! k @ concat (drop (Suc k) row) @ rest" "c1 (ds ! k) = c (ds ! k)"
    using st1(4) k(1,2) by (simp_all add: dealt_def Cons_nth_drop_Suc [symmetric])
  have fits: "length (c1 (ds ! k)) + rate_at w k \<le> capacity" using room k(1,4) c1(2) by auto
  obtain st2 where st2: "for_out [0..<rate_at w k] (\<lambda>j st. move_float s (ds ! k) st) st1 = Done st2"
    "holds S st2 (c1(s := concat (drop (Suc k) row) @ rest, ds ! k := c1 (ds ! k) @ row ! k))"
    "same_config st1 st2"
    using move_floats_holds [OF st1(2) mem c1(1) k(4) fits] by blast
  let ?c2 = "c1(s := concat (drop (Suc k) row) @ rest, ds ! k := c1 (ds ! k) @ row ! k)"
  have "dealt s ds row rest (Suc k) c ?c2"
    unfolding dealt_def
  proof (intro conjI allI impI)
    show "?c2 s = concat (drop (Suc k) row) @ rest" using mem by simp
    fix i
    assume i: "i < length ds"
    have "ds ! i \<noteq> s" using dp i by (auto simp: dp_streams_def)
    moreover have "ds ! i = ds ! k \<longleftrightarrow> i = k" using dp i k(1) by (simp add: dp_streams_def nth_eq_iff_index_eq)
    ultimately show "?c2 (ds ! i) = c (ds ! i) @ (if i < Suc k then row ! i else [])"
      using st1(4) i c1(2) by (auto simp: dealt_def)
  next
    fix x
    assume "x \<noteq> s" "x \<notin> set ds"
    then show "?c2 x = c x" using st1(4) k(1) by (auto simp: dealt_def)
  qed
  then show ?case
    using st1(1) st2 k(1,3) same_config_trans [OF st1(3) st2(3)] by (auto simp: for_out_append)
qed

lemma split_round_holds:
  assumes "holds S st c" and dp: "dp_streams w s ds S" and row: "row_ok w row"
    and "c s = concat row @ rest"
    and "\<forall>i < length ds. length (c (ds ! i)) + length (row ! i) \<le> capacity"
  shows "\<exists>st' c'. split_round w [s] ds st = Done st' \<and> holds S st' c' \<and> same_config st st' \<and>
    c' s = rest \<and> (\<forall>i < length ds. c' (ds ! i) = c (ds ! i) @ row ! i) \<and>
    (\<forall>x. x \<noteq> s \<longrightarrow> x \<notin> set ds \<longrightarrow> c' x = c x)"
proof -
  have "nat (num_streams w) = length ds" "length row = length ds"
    using dp row by (simp_all add: dp_streams_def row_ok_def)
  moreover obtain st' c' where "split_round w [s] ds st = Done st'" "holds S st' c'" "same_config st st'"
    "dealt s ds row rest (length ds) c c'"
    using split_prefix [OF assms order_refl] calculation unfolding split_round_def by metis
  ultimately show ?thesis unfolding dealt_def by (intro exI [of _ st'] exI [of _ c']) simp
qed

text \<open>The joiner, the other way round.\<close>

definition taken :: "ptr \<Rightarrow> ptr list \<Rightarrow> byte list list list \<Rightarrow> (nat \<Rightarrow> byte list list) \<Rightarrow> nat \<Rightarrow>
    (ptr \<Rightarrow> byte list list) \<Rightarrow> (ptr \<Rightarrow> byte list list) \<Rightarrow> bool" where
  "taken d ss row rest k c c' \<longleftrightarrow> c' d = c d @ concat (take k row) \<and>
     (\<forall>i < length ss. c' (ss ! i) = (if i < k then rest i else row ! i @ rest i)) \<and>
     (\<forall>x. x \<noteq> d \<longrightarrow> x \<notin> set ss \<longrightarrow> c' x = c x)"

lemma join_prefix:
  assumes h: "holds S st c" and dp: "dp_streams w d ss S" and row: "row_ok w row"
    and cs: "\<forall>i < length ss. c (ss ! i) = row ! i @ rest i"
    and room: "length (c d) + length (concat row) \<le> capacity"
    and k: "k \<le> length ss"
  shows "\<exists>st' c'. for_out [0..<k] (\<lambda>i st. assert_out (i < length (rate w))
      (for_out [0..<rate_at w i]
        (\<lambda>j st. with_stream ss i (\<lambda>s. with_stream [d] 0 (\<lambda>d. move_float s d st))) st)) st = Done st' \<and>
    holds S st' c' \<and> same_config st st' \<and> taken d ss row rest k c c'"
  using k
proof (induction k)
  case 0
  have "taken d ss row rest 0 c c" using cs by (simp add: taken_def)
  with h show ?case by (auto intro: same_config_refl)
next
  case (Suc k)
  then obtain st1 c1 where st1: "for_out [0..<k] (\<lambda>i st. assert_out (i < length (rate w))
      (for_out [0..<rate_at w i]
        (\<lambda>j st. with_stream ss i (\<lambda>s. with_stream [d] 0 (\<lambda>d. move_float s d st))) st)) st = Done st1"
    "holds S st1 c1" "same_config st st1" "taken d ss row rest k c c1" by auto
  have k: "k < length ss" "k < length row" "k < length (rate w)" "length (row ! k) = rate_at w k"
    using Suc.prems dp row by (auto simp: dp_streams_def row_ok_def)
  have mem: "ss ! k \<in> S" "d \<in> S" "ss ! k \<noteq> d" using dp k(1) by (auto simp: dp_streams_def)
  have c1: "c1 (ss ! k) = row ! k @ rest k" "c1 d = c d @ concat (take k row)"
    using st1(4) k(1) by (simp_all add: taken_def)
  have "concat row = concat (take k row) @ row ! k @ concat (drop (Suc k) row)"
    by (metis append_take_drop_id concat.simps(2) concat_append Cons_nth_drop_Suc k(2))
  then have fits: "length (c1 d) + rate_at w k \<le> capacity" using room c1(2) k(4) by simp
  obtain st2 where st2: "for_out [0..<rate_at w k] (\<lambda>j st. move_float (ss ! k) d st) st1 = Done st2"
    "holds S st2 (c1(ss ! k := rest k, d := c1 d @ row ! k))" "same_config st1 st2"
    using move_floats_holds [OF st1(2) mem c1(1) k(4) fits] by blast
  let ?c2 = "c1(ss ! k := rest k, d := c1 d @ row ! k)"
  have "taken d ss row rest (Suc k) c ?c2"
    unfolding taken_def
  proof (intro conjI allI impI)
    show "?c2 d = c d @ concat (take (Suc k) row)" using c1(2) k(2) by (simp add: take_Suc_conv_app_nth)
    fix i
    assume i: "i < length ss"
    have "ss ! i \<noteq> d" using dp i by (auto simp: dp_streams_def)
    moreover have "ss ! i = ss ! k \<longleftrightarrow> i = k" using dp i k(1) by (simp add: dp_streams_def nth_eq_iff_index_eq)
    ultimately show "?c2 (ss ! i) = (if i < Suc k then rest i else row ! i @ rest i)"
      using st1(4) i by (auto simp: taken_def)
  next
    fix x
    assume "x \<noteq> d" "x \<notin> set ss"
    then show "?c2 x = c x" using st1(4) k(1) by (auto simp: taken_def)
  qed
  then show ?case
    using st1(1) st2 k(1,3) same_config_trans [OF st1(3) st2(3)] by (auto simp: for_out_append)
qed

lemma join_round_holds:
  assumes "holds S st c" and dp: "dp_streams w d ss S" and row: "row_ok w row"
    and "\<forall>i < length ss. c (ss ! i) = row ! i @ rest i"
    and "length (c d) + length (concat row) \<le> capacity"
  shows "\<exists>st' c'. join_round w ss [d] st = Done st' \<and> holds S st' c' \<and> same_config st st' \<and>
    c' d = c d @ concat row \<and> (\<forall>i < length ss. c' (ss ! i) = rest i) \<and>
    (\<forall>x. x \<noteq> d \<longrightarrow> x \<notin> set ss \<longrightarrow> c' x = c x)"
proof -
  have "nat (num_streams w) = length ss" "length row = length ss"
    using dp row by (simp_all add: dp_streams_def row_ok_def)
  moreover obtain st' c' where "join_round w ss [d] st = Done st'" "holds S st' c'" "same_config st st'"
    "taken d ss row rest (length ss) c c'"
    using join_prefix [OF assms order_refl] calculation unfolding join_round_def by metis
  ultimately show ?thesis unfolding taken_def by (intro exI [of _ st'] exI [of _ c']) simp
qed

lemma for_out_const:
  "length xs = length ys \<Longrightarrow> for_out xs (\<lambda>_. f) st = for_out ys (\<lambda>_. f) st"
proof (induction xs ys arbitrary: st rule: list_induct2)
  case (Cons x xs y ys)
  then show ?case by (cases "f st") simp_all
qed simp

lemma for_out_Suc: "for_out [0..<Suc n] (\<lambda>_. f) st = bind_out (f st) (for_out [0..<n] (\<lambda>_. f))"
proof -
  have "for_out [0..<Suc n] (\<lambda>_. f) st = for_out (0 # [0..<n]) (\<lambda>_. f) st"
    by (rule for_out_const) simp
  then show ?thesis by simp
qed

lemma split_rounds_holds:
  assumes "holds S st c" and dp: "dp_streams w s ds S" and rows: "\<forall>row \<in> set rows. row_ok w row"
    and "c s = concat (concat rows) @ rest"
    and "\<forall>i < length ds. length (c (ds ! i)) + length (column i rows) \<le> capacity"
  shows "\<exists>st' c'. for_out [0..<length rows] (\<lambda>_. split_round w [s] ds) st = Done st' \<and>
    holds S st' c' \<and> same_config st st' \<and> c' s = rest \<and>
    (\<forall>i < length ds. c' (ds ! i) = c (ds ! i) @ column i rows) \<and>
    (\<forall>x. x \<noteq> s \<longrightarrow> x \<notin> set ds \<longrightarrow> c' x = c x)"
  using assms(1,3-)
proof (induction rows arbitrary: st c)
  case Nil
  then show ?case by (auto intro: same_config_refl)
next
  case (Cons row rows)
  have "row_ok w row" "c s = concat row @ concat (concat rows) @ rest"
    "\<forall>i < length ds. length (c (ds ! i)) + length (row ! i) \<le> capacity"
    using Cons.prems by (auto intro: order_trans add_left_mono)
  from split_round_holds [OF Cons.prems(1) dp this] obtain st1 c1 where st1:
    "split_round w [s] ds st = Done st1" "holds S st1 c1" "same_config st st1"
    "c1 s = concat (concat rows) @ rest" "\<forall>i < length ds. c1 (ds ! i) = c (ds ! i) @ row ! i"
    "\<forall>x. x \<noteq> s \<longrightarrow> x \<notin> set ds \<longrightarrow> c1 x = c x" by blast
  have "\<forall>row \<in> set rows. row_ok w row"
    "\<forall>i < length ds. length (c1 (ds ! i)) + length (column i rows) \<le> capacity"
    using Cons.prems st1(5) by (auto simp: add.assoc)
  from Cons.IH [OF st1(2) this(1) st1(4) this(2)] obtain st2 c2 where st2:
    "for_out [0..<length rows] (\<lambda>_. split_round w [s] ds) st1 = Done st2" "holds S st2 c2"
    "same_config st1 st2" "c2 s = rest" "\<forall>i < length ds. c2 (ds ! i) = c1 (ds ! i) @ column i rows"
    "\<forall>x. x \<noteq> s \<longrightarrow> x \<notin> set ds \<longrightarrow> c2 x = c1 x" by blast
  have "for_out [0..<length (row # rows)] (\<lambda>_. split_round w [s] ds) st = Done st2"
    using st1(1) st2(1) by (simp add: for_out_Suc del: upt_Suc)
  moreover have "\<forall>i < length ds. c2 (ds ! i) = c (ds ! i) @ column i (row # rows)"
    using st1(5) st2(5) by simp
  moreover have "\<forall>x. x \<noteq> s \<longrightarrow> x \<notin> set ds \<longrightarrow> c2 x = c x" using st1(6) st2(6) by simp
  ultimately show ?case using st2(2,4) same_config_trans [OF st1(3) st2(3)] by blast
qed

lemma join_rounds_holds:
  assumes "holds S st c" and dp: "dp_streams w d ss S" and rows: "\<forall>row \<in> set rows. row_ok w row"
    and "\<forall>i < length ss. c (ss ! i) = column i rows @ rest i"
    and "length (c d) + length (concat (concat rows)) \<le> capacity"
  shows "\<exists>st' c'. for_out [0..<length rows] (\<lambda>_. join_round w ss [d]) st = Done st' \<and>
    holds S st' c' \<and> same_config st st' \<and> c' d = c d @ concat (concat rows) \<and>
    (\<forall>i < length ss. c' (ss ! i) = rest i) \<and> (\<forall>x. x \<noteq> d \<longrightarrow> x \<notin> set ss \<longrightarrow> c' x = c x)"
  using assms(1,3-)
proof (induction rows arbitrary: st c)
  case Nil
  then show ?case by (auto intro: same_config_refl)
next
  case (Cons row rows)
  have "row_ok w row" "\<forall>i < length ss. c (ss ! i) = row ! i @ column i rows @ rest i"
    "length (c d) + length (concat row) \<le> capacity"
    using Cons.prems by (auto intro: order_trans add_left_mono)
  from join_round_holds [OF Cons.prems(1) dp this] obtain st1 c1 where st1:
    "join_round w ss [d] st = Done st1" "holds S st1 c1" "same_config st st1"
    "c1 d = c d @ concat row" "\<forall>i < length ss. c1 (ss ! i) = column i rows @ rest i"
    "\<forall>x. x \<noteq> d \<longrightarrow> x \<notin> set ss \<longrightarrow> c1 x = c x" by blast
  have "\<forall>row \<in> set rows. row_ok w row" "length (c1 d) + length (concat (concat rows)) \<le> capacity"
    using Cons.prems st1(4) by (auto simp: add.assoc)
  from Cons.IH [OF st1(2) this(1) st1(5) this(2)] obtain st2 c2 where st2:
    "for_out [0..<length rows] (\<lambda>_. join_round w ss [d]) st1 = Done st2" "holds S st2 c2"
    "same_config st1 st2" "c2 d = c1 d @ concat (concat rows)" "\<forall>i < length ss. c2 (ss ! i) = rest i"
    "\<forall>x. x \<noteq> d \<longrightarrow> x \<notin> set ss \<longrightarrow> c2 x = c1 x" by blast
  have "for_out [0..<length (row # rows)] (\<lambda>_. join_round w ss [d]) st = Done st2"
    using st1(1) st2(1) by (simp add: for_out_Suc del: upt_Suc)
  moreover have "c2 d = c d @ concat (concat (row # rows))" using st1(4) st2(4) by simp
  moreover have "\<forall>x. x \<noteq> d \<longrightarrow> x \<notin> set ss \<longrightarrow> c2 x = c x" using st1(6) st2(6) by simp
  ultimately show ?case using st2(2,5) same_config_trans [OF st1(3) st2(3)] by blast
qed

subsection \<open>Cutting contents into rows\<close>

definition round_size :: "dp_splitter_work_t \<Rightarrow> nat" where
  "round_size w = sum_list (map (rate_at w) [0..<nat (num_streams w)])"

lemma length_concat_row: "row_ok w row \<Longrightarrow> length (concat row) = round_size w"
proof -
  assume row: "row_ok w row"
  then have "map length row = map (rate_at w) [0..<nat (num_streams w)]"
    by (auto simp: row_ok_def intro: nth_equalityI)
  then show ?thesis by (simp add: length_concat round_size_def)
qed

lemma length_concat_rows:
  "\<forall>row \<in> set rows. row_ok w row \<Longrightarrow> length (concat (concat rows)) = length rows * round_size w"
  by (induction rows) (simp_all add: length_concat_row)

lemma length_column:
  "\<forall>row \<in> set rows. row_ok w row \<Longrightarrow> i < nat (num_streams w) \<Longrightarrow>
    length (column i rows) = length rows * rate_at w i"
  by (induction rows) (simp_all add: row_ok_def)

fun cut :: "nat list \<Rightarrow> 'a list \<Rightarrow> 'a list list" where
  "cut [] xs = []"
| "cut (n # ns) xs = take n xs # cut ns (drop n xs)"

lemma cut_props:
  "sum_list ns \<le> length xs \<Longrightarrow> length (cut ns xs) = length ns \<and>
    (\<forall>i < length ns. length (cut ns xs ! i) = ns ! i) \<and> concat (cut ns xs) = take (sum_list ns) xs"
proof (induction ns arbitrary: xs)
  case (Cons n ns)
  then show ?case by (auto simp: nth_Cons take_add split: nat.split)
qed simp

lemma split_rows_exist:
  "n * round_size w \<le> length xs \<Longrightarrow>
    \<exists>rows. length rows = n \<and> (\<forall>row \<in> set rows. row_ok w row) \<and>
      xs = concat (concat rows) @ drop (n * round_size w) xs"
proof (induction n arbitrary: xs)
  case (Suc n)
  let ?row = "cut (map (rate_at w) [0..<nat (num_streams w)]) xs"
  have le: "round_size w \<le> length xs" "n * round_size w \<le> length (drop (round_size w) xs)"
    using Suc.prems by auto
  then have row: "row_ok w ?row" "concat ?row = take (round_size w) xs"
    using cut_props [of "map (rate_at w) [0..<nat (num_streams w)]" xs] by (auto simp: row_ok_def round_size_def)
  from Suc.IH [OF le(2)] obtain rows where rows: "length rows = n" "\<forall>row \<in> set rows. row_ok w row"
    "drop (round_size w) xs = concat (concat rows) @ drop (n * round_size w) (drop (round_size w) xs)"
    by blast
  have "xs = take (round_size w) xs @ drop (round_size w) xs" by simp
  also have "\<dots> = concat ?row @ concat (concat rows) @ drop (Suc n * round_size w) xs"
    using rows(3) row(2) by (simp add: add.commute)
  finally have "xs = concat (concat (?row # rows)) @ drop (Suc n * round_size w) xs" by simp
  with row(1) rows(1,2) show ?case by (intro exI [of _ "?row # rows"]) simp
qed simp

lemma join_rows_exist:
  "\<forall>i < nat (num_streams w). n * rate_at w i \<le> length (f i) \<Longrightarrow>
    \<exists>rows. length rows = n \<and> (\<forall>row \<in> set rows. row_ok w row) \<and>
      (\<forall>i < nat (num_streams w). f i = column i rows @ drop (n * rate_at w i) (f i))"
proof (induction n arbitrary: f)
  case (Suc n)
  let ?row = "map (\<lambda>i. take (rate_at w i) (f i)) [0..<nat (num_streams w)]"
  have row: "row_ok w ?row" using Suc.prems by (auto simp: row_ok_def)
  have "\<forall>i < nat (num_streams w). n * rate_at w i \<le> length (drop (rate_at w i) (f i))"
    using Suc.prems by auto
  from Suc.IH [OF this] obtain rows where rows: "length rows = n" "\<forall>row \<in> set rows. row_ok w row"
    "\<forall>i < nat (num_streams w). drop (rate_at w i) (f i) =
       column i rows @ drop (n * rate_at w i) (drop (rate_at w i) (f i))" by blast
  have "f i = column i (?row # rows) @ drop (Suc n * rate_at w i) (f i)" if "i < nat (num_streams w)" for i
  proof -
    have "f i = take (rate_at w i) (f i) @ drop (rate_at w i) (f i)" by simp
    also have "\<dots> = take (rate_at w i) (f i) @ column i rows @ drop (Suc n * rate_at w i) (f i)"
      using rows(3) that by (simp add: add.commute)
    finally show ?thesis using that by simp
  qed
  with row rows(1,2) show ?case by (intro exI [of _ "?row # rows"]) simp
qed simp

text \<open>Rows are determined by their columns.\<close>

lemma rows_prefix:
  assumes "\<forall>row \<in> set rows'. row_ok w row" and "\<forall>row \<in> set rows. row_ok w row"
    and "0 < nat (num_streams w)" and "0 < rate_at w 0"
    and "\<forall>i < nat (num_streams w). column i rows' @ rest i = column i rows"
  shows "\<exists>more. rows = rows' @ more"
  using assms(1,2,5)
proof (induction rows' arbitrary: rows)
  case (Cons r' rows')
  have "0 < length (r' ! 0)" using Cons.prems(1) assms(3,4) by (simp add: row_ok_def)
  moreover have "r' ! 0 @ column 0 rows' @ rest 0 = column 0 rows" using Cons.prems(3) assms(3) by simp
  ultimately have "column 0 rows \<noteq> []" by (metis append_is_Nil_conv length_greater_0_conv)
  then obtain r rs where rs: "rows = r # rs" by (cases rows) auto
  have len: "length (r' ! i) = length (r ! i)" if "i < nat (num_streams w)" for i
    using Cons.prems(1,2) that rs by (simp add: row_ok_def)
  have "r' ! i = r ! i \<and> column i rows' @ rest i = column i rs" if "i < nat (num_streams w)" for i
  proof -
    have "r' ! i @ column i rows' @ rest i = r ! i @ column i rs" using Cons.prems(3) that rs by simp
    with len [OF that] show ?thesis by simp
  qed
  then have r: "r' = r" and "\<forall>i < nat (num_streams w). column i rows' @ rest i = column i rs"
    using Cons.prems(1,2) rs by (auto simp: row_ok_def intro: nth_equalityI)
  with Cons.IH [of rs] Cons.prems(1,2) rs obtain more where "rs = rows' @ more" by auto
  with rs r show ?case by auto
qed simp

subsection \<open>The work functions\<close>

text \<open>
  The streams are set up as the data-parallel scheduler sets them up: the rates of the shares
  on the one side, their sum on the other, nothing peeked at, and every end connected.
\<close>

definition split_rates :: "dp_splitter_work_t \<Rightarrow> store \<Rightarrow> ptr \<Rightarrow> ptr list \<Rightarrow> bool" where
  "split_rates w st s ds \<longleftrightarrow> round_size w < 2 ^ 31 \<and> ds \<noteq> [] \<and>
     pop_rate (hdr st s) = int (round_size w) \<and> peek_rate (hdr st s) = 0 \<and> src (hdr st s) \<noteq> NullEnd \<and>
     (\<forall>i < length ds. 0 < rate_at w i \<and> push_rate (hdr st (ds ! i)) = int (rate_at w i) \<and>
        dst (hdr st (ds ! i)) \<noteq> NullEnd)"

definition join_rates :: "dp_splitter_work_t \<Rightarrow> store \<Rightarrow> ptr list \<Rightarrow> ptr \<Rightarrow> bool" where
  "join_rates w st ss d \<longleftrightarrow> round_size w < 2 ^ 31 \<and> ss \<noteq> [] \<and>
     push_rate (hdr st d) = int (round_size w) \<and> dst (hdr st d) \<noteq> NullEnd \<and>
     (\<forall>i < length ss. 0 < rate_at w i \<and> pop_rate (hdr st (ss ! i)) = int (rate_at w i) \<and>
        peek_rate (hdr st (ss ! i)) = 0 \<and> src (hdr st (ss ! i)) \<noteq> NullEnd)"

lemma rates_same_config:
  assumes "same_config st st'"
  shows "split_rates w st' s ds = split_rates w st s ds" "join_rates w st' ss d = join_rates w st ss d"
  using assms by (simp_all add: same_config_def split_rates_def join_rates_def)

lemma rate_le_round: "i < nat (num_streams w) \<Longrightarrow> rate_at w i \<le> round_size w"
  unfolding round_size_def by (rule member_le_sum_list) auto

lemma geometry4: "ring_size 4 STREAM_BUFFER_SIZE"
  by (simp add: ring_size_def STREAM_BUFFER_SIZE_def)

lemma holds_streams_ok:
  assumes "holds S st c" and "\<forall>i < nins. i < length ins \<and> ins ! i \<in> S \<and> 0 < pop_rate (hdr st (ins ! i)) \<and>
      pop_rate (hdr st (ins ! i)) < 2 ^ 31 \<and> peek_rate (hdr st (ins ! i)) = 0"
    and "\<forall>i < nouts. i < length outs \<and> outs ! i \<in> S \<and> 0 < push_rate (hdr st (outs ! i)) \<and>
      push_rate (hdr st (outs ! i)) < 2 ^ 31"
  shows "streams_ok 4 STREAM_BUFFER_SIZE ins nins outs nouts st"
  using assms geometry4 by (auto simp: streams_ok_def in_ok_def out_ok_def holds_def)

lemma holds_niters:
  assumes h: "holds S st c" and ins: "set ins \<subseteq> S" and outs: "set outs \<subseteq> S"
    and ok: "streams_ok 4 STREAM_BUFFER_SIZE ins (length ins) outs (length outs) st"
    and "\<forall>i < length outs. dst (hdr st (outs ! i)) \<noteq> NullEnd"
    and "\<forall>i < length ins. src (hdr st (ins ! i)) \<noteq> NullEnd"
  obtains v n where "inline_compute_niters ins (length ins) outs (length outs) st = Done (v, n)"
    "v = NullEnd \<longleftrightarrow> n \<noteq> 0"
    "\<forall>i < length outs. int (unat n) * push_rate (hdr st (outs ! i)) + int (length (c (outs ! i))) \<le> int capacity"
    "\<forall>i < length ins. int (unat n) * pop_rate (hdr st (ins ! i)) \<le> int (length (c (ins ! i)))"
proof -
  from niters_NullEnd_iff [OF ok assms(5,6)] obtain v n where
    run: "inline_compute_niters_E_B 4 STREAM_BUFFER_SIZE ins (length ins) outs (length outs) st = Done (v, n)"
    and v: "v = NullEnd \<longleftrightarrow> n \<noteq> 0" by blast
  have gen: "inline_compute_niters ins (length ins) outs (length outs) st = Done (v, n)"
    using h ins outs by (subst compute_niters_generic [of _ _ _ 4]) (auto simp: holds_def run)
  have cnt: "ring_count 4 STREAM_BUFFER_SIZE st s = length (c s)" if "s \<in> S" for s
    using h that by (metis holds_def length_ring_items)
  note safe = niters_safe [OF ok run]
  show ?thesis
  proof (rule that [OF gen v]; intro allI impI)
    fix i
    assume i: "i < length outs"
    then have "outs ! i \<in> S" using outs by auto
    with safe i cnt holds_len [OF h this]
    show "int (unat n) * push_rate (hdr st (outs ! i)) + int (length (c (outs ! i))) \<le> int capacity"
      by (auto simp: capacity_def of_nat_diff)
  next
    fix i
    assume i: "i < length ins"
    then have "ins ! i \<in> S" using ins by auto
    moreover have "0 \<le> peek_rate (hdr st (ins ! i))" using ok i by (simp add: streams_ok_def in_ok_def)
    ultimately show "int (unat n) * pop_rate (hdr st (ins ! i)) \<le> int (length (c (ins ! i)))"
      using safe i cnt by fastforce
  qed
qed

lemma dp_split_work_run:
  assumes "holds S st c" and dp: "dp_streams w s ds S" and "split_rates w st s ds"
  shows "\<exists>v st' c' rows. dp_split_work w [s] ds st = Some (Done (v, st')) \<and> v \<noteq> NullEnd \<and>
    holds S st' c' \<and> same_config st st' \<and> (\<forall>row \<in> set rows. row_ok w row) \<and>
    c s = concat (concat rows) @ c' s \<and> (\<forall>i < length ds. c' (ds ! i) = c (ds ! i) @ column i rows) \<and>
    (\<forall>x. x \<noteq> s \<longrightarrow> x \<notin> set ds \<longrightarrow> c' x = c x)"
  using assms(1,3)
proof (induction "length (c s)" arbitrary: st c rule: less_induct)
  case less
  note h = less.prems(1) and rates = less.prems(2)
  have k: "nat (num_streams w) = length ds" using dp by (simp add: dp_streams_def)
  have ds: "\<forall>i < length ds. ds ! i \<in> S" using dp by (auto simp: dp_streams_def)
  have r: "rate_at w i \<le> round_size w" if "i < length ds" for i using rate_le_round that k by simp
  have pos: "0 < round_size w" using rates r [of 0] by (auto simp: split_rates_def)
  have ok: "streams_ok 4 STREAM_BUFFER_SIZE [s] (length [s]) ds (length ds) st"
    using rates dp ds r pos by (intro holds_streams_ok [OF h]) (fastforce simp: split_rates_def dp_streams_def)+
  obtain v n where n: "inline_compute_niters [s] (length [s]) ds (length ds) st = Done (v, n)"
    "v = NullEnd \<longleftrightarrow> n \<noteq> 0"
    "\<forall>i < length ds. int (unat n) * push_rate (hdr st (ds ! i)) + int (length (c (ds ! i))) \<le> int capacity"
    "\<forall>i < length [s]. int (unat n) * pop_rate (hdr st ([s] ! i)) \<le> int (length (c ([s] ! i)))"
    using holds_niters [OF h _ _ ok] rates dp by (auto simp: split_rates_def dp_streams_def)
  show ?case
  proof (cases "n = 0")
    case True
    with n(1,2) k have "dp_split_work w [s] ds st = Some (Done (v, st))"
      by (subst dp_split_work.simps) simp
    with True n(2) h show ?thesis
      by (intro exI [of _ v] exI [of _ st] exI [of _ c] exI [of _ "[]"]) (auto intro: same_config_refl)
  next
    case False
    have "int (unat n * round_size w) \<le> int (length (c s))"
      using n(4) rates by (simp add: split_rates_def)
    then have enough: "unat n * round_size w \<le> length (c s)" by (simp only: of_nat_le_iff)
    from split_rows_exist [OF enough] obtain rows where rows: "length rows = unat n"
      "\<forall>row \<in> set rows. row_ok w row" "c s = concat (concat rows) @ drop (unat n * round_size w) (c s)" by blast
    have fits: "\<forall>i < length ds. length (c (ds ! i)) + length (column i rows) \<le> capacity"
    proof (intro allI impI)
      fix i
      assume i: "i < length ds"
      with n(3) rates have "int (unat n * rate_at w i + length (c (ds ! i))) \<le> int capacity"
        by (simp add: split_rates_def)
      then have "unat n * rate_at w i + length (c (ds ! i)) \<le> capacity" by (simp only: of_nat_le_iff)
      then show "length (c (ds ! i)) + length (column i rows) \<le> capacity"
        using length_column [OF rows(2), of i] i k rows(1) by simp
    qed
    from split_rounds_holds [OF h dp rows(2,3) fits] obtain st1 c1 where st1:
      "for_out [0..<unat n] (\<lambda>_. split_round w [s] ds) st = Done st1" "holds S st1 c1" "same_config st st1"
      "c1 s = drop (unat n * round_size w) (c s)" "\<forall>i < length ds. c1 (ds ! i) = c (ds ! i) @ column i rows"
      "\<forall>x. x \<noteq> s \<longrightarrow> x \<notin> set ds \<longrightarrow> c1 x = c x" unfolding rows(1) by blast
    have "0 < unat n" using False by (simp add: unat_gt_0)
    then have "0 < unat n * round_size w" using pos by simp
    then have smaller: "length (c1 s) < length (c s)"
      unfolding st1(4) length_drop using enough by linarith
    from less.hyps [OF smaller st1(2)] rates rates_same_config [OF st1(3)]
    obtain v' st2 c2 rows2 where st2: "dp_split_work w [s] ds st1 = Some (Done (v', st2))" "v' \<noteq> NullEnd"
      "holds S st2 c2" "same_config st1 st2" "\<forall>row \<in> set rows2. row_ok w row"
      "c1 s = concat (concat rows2) @ c2 s" "\<forall>i < length ds. c2 (ds ! i) = c1 (ds ! i) @ column i rows2"
      "\<forall>x. x \<noteq> s \<longrightarrow> x \<notin> set ds \<longrightarrow> c2 x = c1 x" by auto
    have "dp_split_work w [s] ds st = Some (Done (v', st2))"
      using n(1,2) False st1(1) st2(1) k by (subst dp_split_work.simps) simp
    moreover have "c s = concat (concat (rows @ rows2)) @ c2 s"
      using rows(3) st1(4) st2(6) by simp
    moreover have "\<forall>i < length ds. c2 (ds ! i) = c (ds ! i) @ column i (rows @ rows2)"
      using st1(5) st2(7) by (simp add: column_def)
    moreover have "\<forall>x. x \<noteq> s \<longrightarrow> x \<notin> set ds \<longrightarrow> c2 x = c x" using st1(6) st2(8) by simp
    moreover have "\<forall>row \<in> set (rows @ rows2). row_ok w row" using rows(2) st2(5) by auto
    ultimately show ?thesis using st2(2,3) same_config_trans [OF st1(3) st2(4)] by blast
  qed
qed

lemma dp_join_work_run:
  assumes "holds S st c" and dp: "dp_streams w d ss S" and "join_rates w st ss d"
  shows "\<exists>v st' c' rows. dp_join_work w ss [d] st = Some (Done (v, st')) \<and> v \<noteq> NullEnd \<and>
    holds S st' c' \<and> same_config st st' \<and> (\<forall>row \<in> set rows. row_ok w row) \<and>
    c' d = c d @ concat (concat rows) \<and> (\<forall>i < length ss. c (ss ! i) = column i rows @ c' (ss ! i)) \<and>
    (\<forall>x. x \<noteq> d \<longrightarrow> x \<notin> set ss \<longrightarrow> c' x = c x)"
  using assms(1,3)
proof (induction "capacity - length (c d)" arbitrary: st c rule: less_induct)
  case less
  note h = less.prems(1) and rates = less.prems(2)
  have k: "nat (num_streams w) = length ss" using dp by (simp add: dp_streams_def)
  have ss: "\<forall>i < length ss. ss ! i \<in> S" using dp by (auto simp: dp_streams_def)
  have r: "rate_at w i \<le> round_size w" if "i < length ss" for i using rate_le_round that k by simp
  have pos: "0 < round_size w" using rates r [of 0] by (auto simp: join_rates_def)
  have ok: "streams_ok 4 STREAM_BUFFER_SIZE ss (length ss) [d] (length [d]) st"
    using rates dp ss r pos by (intro holds_streams_ok [OF h]) (fastforce simp: join_rates_def dp_streams_def)+
  obtain v n where n: "inline_compute_niters ss (length ss) [d] (length [d]) st = Done (v, n)"
    "v = NullEnd \<longleftrightarrow> n \<noteq> 0"
    "\<forall>i < length [d]. int (unat n) * push_rate (hdr st ([d] ! i)) + int (length (c ([d] ! i))) \<le> int capacity"
    "\<forall>i < length ss. int (unat n) * pop_rate (hdr st (ss ! i)) \<le> int (length (c (ss ! i)))"
    using holds_niters [OF h _ _ ok] rates dp by (auto simp: join_rates_def dp_streams_def)
  show ?case
  proof (cases "n = 0")
    case True
    with n(1,2) k have "dp_join_work w ss [d] st = Some (Done (v, st))"
      by (subst dp_join_work.simps) simp
    with True n(2) h show ?thesis
      by (intro exI [of _ v] exI [of _ st] exI [of _ c] exI [of _ "[]"]) (auto intro: same_config_refl)
  next
    case False
    have "int (unat n * round_size w + length (c d)) \<le> int capacity"
      using n(3) rates by (simp add: join_rates_def)
    then have room: "unat n * round_size w + length (c d) \<le> capacity" by (simp only: of_nat_le_iff)
    have "unat n * rate_at w i \<le> length (c (ss ! i))" if i: "i < length ss" for i
    proof -
      have "int (unat n * rate_at w i) \<le> int (length (c (ss ! i)))"
        using n(4) rates i by (simp add: join_rates_def)
      then show ?thesis by (simp only: of_nat_le_iff)
    qed
    then obtain rows where rows: "length rows = unat n" "\<forall>row \<in> set rows. row_ok w row"
      "\<forall>i < length ss. c (ss ! i) = column i rows @ drop (unat n * rate_at w i) (c (ss ! i))"
      using join_rows_exist [of w "unat n" "\<lambda>i. c (ss ! i)"] k by auto
    have fits: "length (c d) + length (concat (concat rows)) \<le> capacity"
      using room length_concat_rows [OF rows(2)] rows(1) by simp
    from join_rounds_holds [OF h dp rows(2,3) fits] obtain st1 c1 where st1:
      "for_out [0..<unat n] (\<lambda>_. join_round w ss [d]) st = Done st1" "holds S st1 c1" "same_config st st1"
      "c1 d = c d @ concat (concat rows)"
      "\<forall>i < length ss. c1 (ss ! i) = drop (unat n * rate_at w i) (c (ss ! i))"
      "\<forall>x. x \<noteq> d \<longrightarrow> x \<notin> set ss \<longrightarrow> c1 x = c x" unfolding rows(1) by blast
    have "0 < unat n" using False by (simp add: unat_gt_0)
    then have "0 < unat n * round_size w" using pos by simp
    then have smaller: "capacity - length (c1 d) < capacity - length (c d)"
      unfolding st1(4) length_append length_concat_rows [OF rows(2)] rows(1) using room by linarith
    from less.hyps [OF smaller st1(2)] rates rates_same_config [OF st1(3)]
    obtain v' st2 c2 rows2 where st2: "dp_join_work w ss [d] st1 = Some (Done (v', st2))" "v' \<noteq> NullEnd"
      "holds S st2 c2" "same_config st1 st2" "\<forall>row \<in> set rows2. row_ok w row"
      "c2 d = c1 d @ concat (concat rows2)" "\<forall>i < length ss. c1 (ss ! i) = column i rows2 @ c2 (ss ! i)"
      "\<forall>x. x \<noteq> d \<longrightarrow> x \<notin> set ss \<longrightarrow> c2 x = c1 x" by auto
    have "dp_join_work w ss [d] st = Some (Done (v', st2))"
      using n(1,2) False st1(1) st2(1) k by (subst dp_join_work.simps) simp
    moreover have "c2 d = c d @ concat (concat (rows @ rows2))" using st1(4) st2(6) by simp
    moreover have "\<forall>i < length ss. c (ss ! i) = column i (rows @ rows2) @ c2 (ss ! i)"
      using rows(3) st1(5) st2(7) by (simp add: column_def)
    moreover have "\<forall>x. x \<noteq> d \<longrightarrow> x \<notin> set ss \<longrightarrow> c2 x = c x" using st1(6) st2(8) by simp
    moreover have "\<forall>row \<in> set (rows @ rows2). row_ok w row" using rows(2) st2(5) by auto
    ultimately show ?thesis using st2(2,3) same_config_trans [OF st1(3) st2(4)] by blast
  qed
qed

text \<open>
  C14.  The data-parallel splitter followed by the joiner preserves the order of the stream:
  whatever the shares of the kernels are, both return, naming a neighbour that they wait for,
  and if the streams between them were empty, what the joiner appended to its output is a
  prefix of what the splitter found in its input.
\<close>

theorem dp_join_after_split:
  assumes "holds S st c" and split: "dp_streams w s ds S" and join: "dp_streams w d ds S"
    and "s \<noteq> d" and "split_rates w st s ds" and "join_rates w st ds d"
    and empty: "\<forall>x \<in> set ds. ring_items 4 STREAM_BUFFER_SIZE st x = []"
  shows "\<exists>v st1 u st2 ys zs. dp_split_work w [s] ds st = Some (Done (v, st1)) \<and> v \<noteq> NullEnd \<and>
    dp_join_work w ds [d] st1 = Some (Done (u, st2)) \<and> u \<noteq> NullEnd \<and>
    ring_items 4 STREAM_BUFFER_SIZE st s = ys @ zs \<and>
    ring_items 4 STREAM_BUFFER_SIZE st2 d = ring_items 4 STREAM_BUFFER_SIZE st d @ ys"
proof -
  have k: "nat (num_streams w) = length ds" using split by (simp add: dp_streams_def)
  obtain v st1 c1 rows where st1: "dp_split_work w [s] ds st = Some (Done (v, st1))" "v \<noteq> NullEnd"
    "holds S st1 c1" "same_config st st1" "\<forall>row \<in> set rows. row_ok w row"
    "c s = concat (concat rows) @ c1 s" "\<forall>i < length ds. c1 (ds ! i) = c (ds ! i) @ column i rows"
    "\<forall>x. x \<noteq> s \<longrightarrow> x \<notin> set ds \<longrightarrow> c1 x = c x"
    using dp_split_work_run [OF assms(1) split assms(5)] by blast
  have rates: "join_rates w st1 ds d" using assms(6) rates_same_config [OF st1(4)] by simp
  obtain u st2 c2 rows2 where st2: "dp_join_work w ds [d] st1 = Some (Done (u, st2))" "u \<noteq> NullEnd"
    "holds S st2 c2" "same_config st1 st2" "\<forall>row \<in> set rows2. row_ok w row"
    "c2 d = c1 d @ concat (concat rows2)" "\<forall>i < length ds. c1 (ds ! i) = column i rows2 @ c2 (ds ! i)"
    "\<forall>x. x \<noteq> d \<longrightarrow> x \<notin> set ds \<longrightarrow> c2 x = c1 x"
    using dp_join_work_run [OF st1(3) join rates] by blast
  have ds: "c (ds ! i) = []" if "i < length ds" for i
  proof -
    have "ds ! i \<in> set ds" using that by simp
    moreover have "set ds \<subseteq> S" using split by (simp add: dp_streams_def)
    ultimately have "ring_items 4 STREAM_BUFFER_SIZE st (ds ! i) = c (ds ! i)"
      using assms(1) by (auto simp: holds_def)
    with empty \<open>ds ! i \<in> set ds\<close> show ?thesis by simp
  qed
  have "\<forall>i < nat (num_streams w). column i rows2 @ c2 (ds ! i) = column i rows"
    using st1(7) st2(7) ds k by simp
  moreover have "0 < nat (num_streams w)" "0 < rate_at w 0"
    using assms(5) k by (auto simp: split_rates_def)
  ultimately obtain more where more: "rows = rows2 @ more"
    using rows_prefix [OF st2(5) st1(5), where rest = "\<lambda>i. c2 (ds ! i)"] by auto
  have "s \<in> S" "d \<in> S" "d \<notin> set ds" using split join by (auto simp: dp_streams_def)
  then have "ring_items 4 STREAM_BUFFER_SIZE st s = concat (concat rows2) @ concat (concat more) @ c1 s"
    and "ring_items 4 STREAM_BUFFER_SIZE st2 d = ring_items 4 STREAM_BUFFER_SIZE st d @ concat (concat rows2)"
    using assms(1,4) st1(3,6,8) st2(3,6) more by (simp_all add: holds_def)
  with st1(1,2) st2(1,2) show ?thesis by blast
qed

text \<open>Stream 1 is split with the shares 1 and 2 into the streams 3 and 4 and joined into 2.\<close>

definition sample_shares :: dp_splitter_work_t where
  "sample_shares = \<lparr>next_stream = 0, dp_niter = 0, rate = [1, 2], num_streams = 2\<rparr>"

definition sample_split_store :: store where
  "sample_split_store = (sample_store 4 STREAM_BUFFER_SIZE)\<lparr>hdr := (sample_stream 4)
     (1 := (sample_stream 4 1)\<lparr>pop_rate := 3, head := 24\<rparr>,
      2 := (sample_stream 4 2)\<lparr>push_rate := 3\<rparr>,
      4 := (sample_stream 4 4)\<lparr>push_rate := 2, pop_rate := 2\<rparr>)\<rparr>"

lemma sample_split_holds:
  "holds {1, 2, 3, 4} sample_split_store (\<lambda>s. ring_items 4 STREAM_BUFFER_SIZE sample_split_store s)"
  by (auto simp: holds_def sample_split_store_def sample_store_def sample_stream_def ring_ok_def
    ring_size_def STREAM_BUFFER_SIZE_def apart_def)

lemma sample_shares_size: "round_size sample_shares = 3"
  by (simp add: round_size_def sample_shares_def rate_at_def upt_rec)

lemma sample_rates:
  "rate_at sample_shares 0 = 1" "rate_at sample_shares (Suc 0) = 2" "num_streams sample_shares = 2"
  "length (rate sample_shares) = 2"
  by (simp_all add: rate_at_def sample_shares_def)

lemma all_less_two: "(\<forall>i < Suc (Suc 0). P i) \<longleftrightarrow> P 0 \<and> P (Suc 0)"
  by (auto simp: less_Suc_eq)

lemma sample_split_setup:
  "dp_streams sample_shares 1 [3, 4] {1, 2, 3, 4}" "dp_streams sample_shares 2 [3, 4] {1, 2, 3, 4}"
  "split_rates sample_shares sample_split_store 1 [3, 4]"
  "join_rates sample_shares sample_split_store [3, 4] 2"
  "\<forall>x \<in> set [3, 4]. ring_items 4 STREAM_BUFFER_SIZE sample_split_store x = []"
  "ring_count 4 STREAM_BUFFER_SIZE sample_split_store 1 = 6"
  by (simp_all add: dp_streams_def split_rates_def join_rates_def sample_shares_size sample_rates
    all_less_two sample_split_store_def sample_store_def sample_stream_def ring_items_def
    ring_count_def ring_dist_def STREAM_BUFFER_SIZE_def)

theorem dp_join_after_split_witness:
  "\<exists>v st1 u st2 ys zs. dp_split_work sample_shares [1] [3, 4] sample_split_store = Some (Done (v, st1)) \<and>
    dp_join_work sample_shares [3, 4] [2] st1 = Some (Done (u, st2)) \<and>
    ring_items 4 STREAM_BUFFER_SIZE sample_split_store 1 = ys @ zs \<and>
    ring_items 4 STREAM_BUFFER_SIZE st2 2 = ring_items 4 STREAM_BUFFER_SIZE sample_split_store 2 @ ys \<and>
    length (ring_items 4 STREAM_BUFFER_SIZE sample_split_store 1) = 6"
  using dp_join_after_split [OF sample_split_holds sample_split_setup(1,2) _ sample_split_setup(3-5)]
    sample_split_setup(6) by auto

end
