(* ===== verification/Stream_Concurrent.thy ===== *)
theory Stream_Concurrent
  imports Stream_Fifo
begin

section \<open>One producer and one consumer without a lock\<close>

text \<open>
  A stream is shared by the two kernels at its ends, which may run on different processors
  and take no lock.  The bodies of \<open>push_E_B\<close> and \<open>pop_E_B\<close> of
  \<open>lib/runtime/inline_stream_ops.cpp\<close> are split here into the accesses to shared memory they
  make, the \<open>memcpy\<close> into single bytes, and the two kernels interleave arbitrarily between
  them.  The accesses of one kernel are seen in program order, as on the x86 targets of the
  runtime.  \<open>pushed\<close> and \<open>popped\<close> record the elements of the operations that have finished.
\<close>

datatype prod_pc =
    PIdle
  | PCheck "byte list" size_t size_t
  | PCopy "byte list" size_t size_t nat
  | PPublish "byte list" size_t

datatype cons_pc =
    CIdle
  | CCheck size_t
  | CCopy size_t "byte list"
  | CPublish "byte list" size_t

record spsc =
  shared :: store
  ppc :: prod_pc
  cpc :: cons_pc
  pushed :: "byte list list"
  popped :: "byte list list"

definition write_byte :: "ptr \<Rightarrow> nat \<Rightarrow> byte \<Rightarrow> store \<Rightarrow> store" where
  "write_byte b a x st = st\<lparr>mem := (mem st)(b := (mem st b)[a := x])\<rparr>"

inductive spsc_step :: "nat \<Rightarrow> nat \<Rightarrow> ptr \<Rightarrow> spsc \<Rightarrow> spsc \<Rightarrow> bool" for E B s where
  push_start: "ppc c = PIdle \<Longrightarrow> length e = E \<Longrightarrow> h = head (hdr (shared c) s) \<Longrightarrow>
    spsc_step E B s c (c\<lparr>ppc := PCheck e h ((h + of_nat E) mod of_nat B)\<rparr>)"
| push_wait: "ppc c = PCheck e h nx \<Longrightarrow> nx = tail (hdr (shared c) s) \<Longrightarrow> spsc_step E B s c c"
| push_go: "ppc c = PCheck e h nx \<Longrightarrow> nx \<noteq> tail (hdr (shared c) s) \<Longrightarrow>
    spsc_step E B s c (c\<lparr>ppc := PCopy e h nx 0\<rparr>)"
| push_byte: "ppc c = PCopy e h nx k \<Longrightarrow> k < E \<Longrightarrow>
    spsc_step E B s c (c\<lparr>shared := write_byte (buf (hdr (shared c) s)) (unat h + k) (e ! k) (shared c),
      ppc := PCopy e h nx (Suc k)\<rparr>)"
| push_copied: "ppc c = PCopy e h nx k \<Longrightarrow> k = E \<Longrightarrow> spsc_step E B s c (c\<lparr>ppc := PPublish e nx\<rparr>)"
| push_publish: "ppc c = PPublish e nx \<Longrightarrow>
    spsc_step E B s c (c\<lparr>shared := RECORD_PUSH s (set_head s nx (shared c)), ppc := PIdle,
      pushed := pushed c @ [e]\<rparr>)"
| pop_start: "cpc c = CIdle \<Longrightarrow> spsc_step E B s c (c\<lparr>cpc := CCheck (tail (hdr (shared c) s))\<rparr>)"
| pop_wait: "cpc c = CCheck t \<Longrightarrow> head (hdr (shared c) s) = t \<Longrightarrow> spsc_step E B s c c"
| pop_go: "cpc c = CCheck t \<Longrightarrow> head (hdr (shared c) s) \<noteq> t \<Longrightarrow>
    spsc_step E B s c (c\<lparr>cpc := CCopy t []\<rparr>)"
| pop_byte: "cpc c = CCopy t e \<Longrightarrow> length e < E \<Longrightarrow>
    spsc_step E B s c (c\<lparr>cpc := CCopy t (e @ [mem (shared c) (buf (hdr (shared c) s)) ! (unat t + length e)])\<rparr>)"
| pop_copied: "cpc c = CCopy t e \<Longrightarrow> length e = E \<Longrightarrow>
    spsc_step E B s c (c\<lparr>cpc := CPublish e ((t + of_nat E) mod of_nat B)\<rparr>)"
| pop_publish: "cpc c = CPublish e nx \<Longrightarrow>
    spsc_step E B s c (c\<lparr>shared := set_tail s nx (shared c), cpc := CIdle, popped := popped c @ [e]\<rparr>)"

inductive spsc_reach :: "nat \<Rightarrow> nat \<Rightarrow> ptr \<Rightarrow> spsc \<Rightarrow> spsc \<Rightarrow> bool" for E B s c0 where
  start: "spsc_reach E B s c0 c0"
| step: "spsc_reach E B s c0 c \<Longrightarrow> spsc_step E B s c d \<Longrightarrow> spsc_reach E B s c0 d"

inductive_cases spsc_stepE: "spsc_step E B s c d"

subsection \<open>Publishing a position, and writing into the free slot\<close>

lemma mem_put_same:
  assumes "unat a = n * j" and "n * j + n \<le> length m"
  shows "mem_put m a n (chunk n m j) = Some m"
proof -
  have "take n (drop (n * j) m) @ drop (n * j + n) m = drop (n * j) m"
    by (metis append_take_drop_id drop_drop add.commute)
  then show ?thesis using assms by (simp add: mem_put_def chunk_def)
qed

lemma publish_head:
  assumes ok: "ring_ok E B st s" and nx: "nx = (head (hdr st s) + of_nat E) mod of_nat B"
    and free: "nx \<noteq> tail (hdr st s)"
    and e: "e = chunk E (mem st (buf (hdr st s))) (unat (head (hdr st s)) div E)"
  shows "ring_ok E B (RECORD_PUSH s (set_head s nx st)) s"
    and "ring_items E B (RECORD_PUSH s (set_head s nx st)) s = ring_items E B st s @ [e]"
proof -
  from ok obtain N T H where *: "B = E * N" "unat (head (hdr st s)) = E * H" "0 < E" "H < N"
    "length (mem st (buf (hdr st s))) = B" by (rule ring_okE)
  have "E * Suc H \<le> E * N" using *(4) by (intro mult_le_mono2) simp
  then have fits: "E * H + E \<le> length (mem st (buf (hdr st s)))" using *(1,5) by simp
  have H: "unat (head (hdr st s)) div E = H" using * by simp
  have "mem_put (mem st (buf (hdr st s))) (head (hdr st s)) E e = Some (mem st (buf (hdr st s)))"
    unfolding e H by (rule mem_put_same [OF *(2) fits])
  then have put: "put_elem s (buf (hdr st s)) (head (hdr st s)) E e nx st = Done (RECORD_PUSH s (set_head s nx st))"
    by (simp add: put_elem_def write_obj_def)
  have "length e = E" unfolding e H by (rule length_chunk [OF fits])
  from put_elem_ring [OF ok this free [unfolded nx] refl] put
  show "ring_ok E B (RECORD_PUSH s (set_head s nx st)) s"
    and "ring_items E B (RECORD_PUSH s (set_head s nx st)) s = ring_items E B st s @ [e]"
    unfolding nx [symmetric] by (metis outcome.inject(1))+
qed

lemma publish_tail:
  assumes ok: "ring_ok E B st s" and nx: "nx = (tail (hdr st s) + of_nat E) mod of_nat B"
    and ne: "ring_items E B st s \<noteq> []"
  shows "ring_ok E B (set_tail s nx st) s"
    and "ring_items E B (set_tail s nx st) s = tl (ring_items E B st s)"
proof -
  have "head (hdr st s) \<noteq> tail (hdr st s)"
    using ne ring_count_0_iff [OF ok] by (simp flip: length_ring_items)
  from get_elem_ring [OF ok this refl]
  have "\<exists>x. get_elem s (buf (hdr st s)) (tail (hdr st s)) E nx st = Done x \<and>
      ring_ok E B (snd x) s \<and> ring_items E B (snd x) s = tl (ring_items E B st s)"
    unfolding nx [symmetric] by (metis snd_conv)
  then show "ring_ok E B (set_tail s nx st) s"
    and "ring_items E B (set_tail s nx st) s = tl (ring_items E B st s)"
    by (auto simp: get_elem_def read_obj_def split: option.splits)
qed

lemma chunk_update_other:
  assumes "j \<noteq> k" and "i < e"
  shows "chunk e (m[e * k + i := x]) j = chunk e m j"
proof (rule nth_equalityI)
  fix y
  assume "y < length (chunk e (m[e * k + i := x]) j)"
  then have y: "y < e" "e * j + y < length m" by (auto simp: chunk_def less_diff_conv add.commute)
  with slots_apart [OF assms(1) y(1) assms(2)] show "chunk e (m[e * k + i := x]) j ! y = chunk e m j ! y"
    by (simp add: chunk_def nth_list_update)
qed (simp add: chunk_def)

lemma write_byte_ring:
  assumes ok: "ring_ok E B st s" and k: "k < E"
    and st': "st' = write_byte (buf (hdr st s)) (unat (head (hdr st s)) + k) x st"
  shows "ring_ok E B st' s" and "ring_items E B st' s = ring_items E B st s"
proof -
  from ok obtain N T H where *: "B = E * N" "unat (tail (hdr st s)) = E * T"
    "unat (head (hdr st s)) = E * H" "0 < E" "0 < N" "T < N" "H < N" "B \<le> 2 ^ 31"
    "length (mem st (buf (hdr st s))) = B" "ring_count E B st s = ring_dist N T H"
    by (rule ring_okE)
  have h: "hdr st' = hdr st" and m: "mem st' (buf (hdr st s)) = (mem st (buf (hdr st s)))[E * H + k := x]"
    by (simp_all add: st' write_byte_def *(3))
  show "ring_ok E B st' s" using ok by (simp add: ring_ok_def h m)
  have cnt: "ring_count E B st' s = ring_count E B st s" by (simp add: ring_count_def h)
  have "chunk E ((mem st (buf (hdr st s)))[E * H + k := x]) ((T + i) mod N) =
      chunk E (mem st (buf (hdr st s))) ((T + i) mod N)" if "i < ring_dist N T H" for i
    using ring_pos_ne_head [OF *(6,7) that] k by (intro chunk_update_other) auto
  then show "ring_items E B st' s = ring_items E B st s"
    unfolding ring_items_def cnt h m *(2,10) using *(1,4) by simp
qed

lemma write_byte_sel [simp]:
  "hdr (write_byte b a x st) = hdr st"
  "mem (write_byte b a x st) b' = (if b' = b then (mem st b)[a := x] else mem st b')"
  by (simp_all add: write_byte_def)

subsection \<open>The invariant\<close>

fun prod_inv :: "nat \<Rightarrow> nat \<Rightarrow> ptr \<Rightarrow> store \<Rightarrow> prod_pc \<Rightarrow> bool" where
  "prod_inv E B s st PIdle \<longleftrightarrow> True"
| "prod_inv E B s st (PCheck e h nx) \<longleftrightarrow>
     length e = E \<and> h = head (hdr st s) \<and> nx = (head (hdr st s) + of_nat E) mod of_nat B"
| "prod_inv E B s st (PCopy e h nx k) \<longleftrightarrow>
     length e = E \<and> h = head (hdr st s) \<and> nx = (head (hdr st s) + of_nat E) mod of_nat B \<and>
     0 < ring_room E B st s \<and> k \<le> E \<and>
     take k (drop (unat h) (mem st (buf (hdr st s)))) = take k e"
| "prod_inv E B s st (PPublish e nx) \<longleftrightarrow>
     nx = (head (hdr st s) + of_nat E) mod of_nat B \<and> 0 < ring_room E B st s \<and>
     e = take E (drop (unat (head (hdr st s))) (mem st (buf (hdr st s))))"

fun cons_inv :: "nat \<Rightarrow> nat \<Rightarrow> ptr \<Rightarrow> store \<Rightarrow> cons_pc \<Rightarrow> bool" where
  "cons_inv E B s st CIdle \<longleftrightarrow> True"
| "cons_inv E B s st (CCheck t) \<longleftrightarrow> t = tail (hdr st s)"
| "cons_inv E B s st (CCopy t e) \<longleftrightarrow>
     t = tail (hdr st s) \<and> ring_items E B st s \<noteq> [] \<and> length e \<le> E \<and>
     e = take (length e) (hd (ring_items E B st s))"
| "cons_inv E B s st (CPublish e nx) \<longleftrightarrow>
     nx = (tail (hdr st s) + of_nat E) mod of_nat B \<and> ring_items E B st s \<noteq> [] \<and>
     e = hd (ring_items E B st s)"

definition spsc_inv :: "nat \<Rightarrow> nat \<Rightarrow> ptr \<Rightarrow> byte list list \<Rightarrow> spsc \<Rightarrow> bool" where
  "spsc_inv E B s init c \<longleftrightarrow>
     ring_ok E B (shared c) s \<and> prod_inv E B s (shared c) (ppc c) \<and>
     cons_inv E B s (shared c) (cpc c) \<and>
     init @ pushed c = popped c @ ring_items E B (shared c) s"

text \<open>What one kernel's accesses mean for the invariant of the other.\<close>

lemma prod_inv_publish_tail:
  assumes "ring_ok E B st s" and "ring_items E B st s \<noteq> []"
    and "nx = (tail (hdr st s) + of_nat E) mod of_nat B" and "prod_inv E B s st pc"
  shows "prod_inv E B s (set_tail s nx st) pc"
proof -
  have "ring_room E B st s \<le> ring_room E B (set_tail s nx st) s"
    using publish_tail(2) [OF assms(1,3,2)] ring_room_items [of E B "set_tail s nx st" s]
    by (simp add: ring_room_def)
  moreover have "hdr (set_tail s nx st) s = (hdr st s)\<lparr>tail := nx\<rparr>" "mem (set_tail s nx st) = mem st"
    by (simp_all add: set_tail_def)
  ultimately show ?thesis using assms(4) by (cases pc) auto
qed

lemma cons_inv_items:
  assumes "cons_inv E B s st pc" and "tail (hdr st' s) = tail (hdr st s)"
    and "ring_items E B st' s = ring_items E B st s @ xs"
  shows "cons_inv E B s st' pc"
  using assms by (cases pc) auto

lemma hd_item:
  assumes "ring_ok E B st s" and "ring_items E B st s \<noteq> []"
  shows "hd (ring_items E B st s) = take E (drop (unat (tail (hdr st s))) (mem st (buf (hdr st s))))"
    and "unat (tail (hdr st s)) + E \<le> length (mem st (buf (hdr st s)))"
proof -
  from assms(1) obtain N T H where *: "B = E * N" "unat (tail (hdr st s)) = E * T"
    "unat (head (hdr st s)) = E * H" "0 < E" "0 < N" "T < N" "H < N" "B \<le> 2 ^ 31"
    "length (mem st (buf (hdr st s))) = B" "ring_count E B st s = ring_dist N T H"
    by (rule ring_okE)
  have "0 < ring_count E B st s" using assms(2) by (simp flip: length_greater_0_conv)
  then show "hd (ring_items E B st s) = take E (drop (unat (tail (hdr st s))) (mem st (buf (hdr st s))))"
    using * by (simp add: hd_conv_nth assms(2) ring_items_def chunk_def)
  have "E * Suc T \<le> E * N" using *(6) by (intro mult_le_mono2) simp
  then show "unat (tail (hdr st s)) + E \<le> length (mem st (buf (hdr st s)))" using * by simp
qed

lemma head_fits:
  assumes "ring_ok E B st s"
  shows "unat (head (hdr st s)) + E \<le> length (mem st (buf (hdr st s)))"
proof -
  from assms obtain N H where *: "B = E * N" "unat (head (hdr st s)) = E * H" "H < N"
    "length (mem st (buf (hdr st s))) = B" by (rule ring_okE)
  have "E * Suc H \<le> E * N" using *(3) by (intro mult_le_mono2) simp
  then show ?thesis using * by simp
qed

lemma take_Suc_update:
  assumes "take k (drop a m) = take k e" and "a + k < length m" and "k < length e"
  shows "take (Suc k) (drop a (m[a + k := e ! k])) = take (Suc k) e"
  using assms by (simp add: take_Suc_conv_app_nth drop_update_swap take_update_cancel)

lemma spsc_step_inv:
  assumes "spsc_step E B s c d" and inv: "spsc_inv E B s init c"
  shows "spsc_inv E B s init d"
  using assms(1)
proof cases
  case (push_byte e h nx k)
  let ?st = "shared c" and ?st' = "write_byte (buf (hdr (shared c) s)) (unat h + k) (e ! k) (shared c)"
  have ok: "ring_ok E B ?st s" and p: "prod_inv E B s ?st (PCopy e h nx k)"
    using inv push_byte by (auto simp: spsc_inv_def)
  have st': "?st' = write_byte (buf (hdr ?st s)) (unat (head (hdr ?st s)) + k) (e ! k) ?st" using p by simp
  note w = write_byte_ring [OF ok push_byte(3) st']
  have hm: "hdr ?st' = hdr ?st" "mem ?st' (buf (hdr ?st s)) = (mem ?st (buf (hdr ?st s)))[unat h + k := e ! k]"
    by (simp_all add: write_byte_def)
  have "unat h + k < length (mem ?st (buf (hdr ?st s)))" using head_fits [OF ok] p push_byte(3) by simp
  then have "take (Suc k) (drop (unat h) (mem ?st' (buf (hdr ?st s)))) = take (Suc k) e"
    unfolding hm using p push_byte(3) by (intro take_Suc_update) auto
  moreover have "ring_room E B ?st' s = ring_room E B ?st s"
    using ring_room_items [OF w(2)] by (simp add: ring_room_def)
  ultimately show ?thesis
    using inv w push_byte p cons_inv_items [of E B s ?st "cpc c" ?st' "[]"] by (auto simp: spsc_inv_def hm)
next
  case (push_publish e nx)
  let ?st' = "RECORD_PUSH s (set_head s nx (shared c))"
  have ok: "ring_ok E B (shared c) s" and p: "prod_inv E B s (shared c) (PPublish e nx)"
    using inv push_publish by (auto simp: spsc_inv_def)
  have "E * (unat (head (hdr (shared c) s)) div E) = unat (head (hdr (shared c) s))"
    using ok by (simp add: ring_ok_def)
  then have "e = chunk E (mem (shared c) (buf (hdr (shared c) s))) (unat (head (hdr (shared c) s)) div E)"
    using p by (simp add: chunk_def)
  moreover have "nx \<noteq> tail (hdr (shared c) s)" using p ring_room_pos_iff [OF ok] by simp
  ultimately have w: "ring_ok E B ?st' s" "ring_items E B ?st' s = ring_items E B (shared c) s @ [e]"
    using publish_head [OF ok] p by auto
  moreover have "cons_inv E B s ?st' (cpc c)"
  proof (rule cons_inv_items [OF _ _ w(2)])
    show "cons_inv E B s (shared c) (cpc c)" using inv by (simp add: spsc_inv_def)
  qed (simp add: RECORD_PUSH_def set_head_def)
  moreover have "init @ pushed c = popped c @ ring_items E B (shared c) s"
    using inv by (simp add: spsc_inv_def)
  ultimately show ?thesis unfolding spsc_inv_def push_publish(1) by simp
next
  case (pop_publish e nx)
  have ok: "ring_ok E B (shared c) s" and q: "cons_inv E B s (shared c) (CPublish e nx)"
    using inv pop_publish by (auto simp: spsc_inv_def)
  then have ne: "ring_items E B (shared c) s \<noteq> []" and nx: "nx = (tail (hdr (shared c) s) + of_nat E) mod of_nat B"
    and e: "e = hd (ring_items E B (shared c) s)" by auto
  have "prod_inv E B s (set_tail s nx (shared c)) (ppc c)"
    using inv by (intro prod_inv_publish_tail [OF ok ne nx]) (simp add: spsc_inv_def)
  with publish_tail [OF ok nx ne] inv ne e pop_publish show ?thesis by (simp add: spsc_inv_def)
next
  case (push_go e h nx)
  then show ?thesis using inv ring_room_pos_iff [of E B "shared c" s] by (auto simp: spsc_inv_def)
next
  case (push_copied e h nx k)
  then show ?thesis using inv by (auto simp: spsc_inv_def)
next
  case (pop_go t)
  then have "ring_items E B (shared c) s \<noteq> []"
    using inv ring_count_0_iff [of E B "shared c" s] by (auto simp: spsc_inv_def simp flip: length_ring_items)
  with pop_go inv show ?thesis by (simp add: spsc_inv_def)
next
  case (pop_byte t e)
  have ok: "ring_ok E B (shared c) s" and q: "cons_inv E B s (shared c) (CCopy t e)"
    using inv pop_byte by (auto simp: spsc_inv_def)
  then have ne: "ring_items E B (shared c) s \<noteq> []" by simp
  have x: "mem (shared c) (buf (hdr (shared c) s)) ! (unat t + length e) = hd (ring_items E B (shared c) s) ! length e"
    and len: "length e < length (hd (ring_items E B (shared c) s))"
    using hd_item [OF ok ne] q pop_byte by simp_all
  have "e @ [hd (ring_items E B (shared c) s) ! length e] = take (Suc (length e)) (hd (ring_items E B (shared c) s))"
    using q len by (simp add: take_Suc_conv_app_nth)
  with q x pop_byte inv Suc_leI [OF len] show ?thesis by (simp add: spsc_inv_def min_absorb2)
next
  case (pop_copied t e)
  have ok: "ring_ok E B (shared c) s" and q: "cons_inv E B s (shared c) (CCopy t e)"
    using inv pop_copied by (auto simp: spsc_inv_def)
  then have "e = hd (ring_items E B (shared c) s)"
    using hd_item [OF ok] pop_copied by simp
  with q pop_copied inv show ?thesis by (simp add: spsc_inv_def)
qed (use inv in \<open>auto simp: spsc_inv_def\<close>)

lemma spsc_reach_inv:
  assumes "spsc_reach E B s c0 c" and "spsc_inv E B s init c0"
  shows "spsc_inv E B s init c"
  using assms by (induction rule: spsc_reach.induct) (auto intro: spsc_step_inv)

text \<open>
  C2.  Without any lock, and however the single memory accesses of the producer and of the
  consumer interleave: the elements popped so far followed by the elements in the stream are
  the elements that were in it at the start followed by those pushed so far.  So no element
  is lost, repeated, reordered, or seen half written, and the stream never holds more than
  fits.
\<close>

theorem spsc_no_loss:
  assumes "ring_ok E B (shared c0) s" and "ppc c0 = PIdle" and "cpc c0 = CIdle"
    and "pushed c0 = []" and "popped c0 = []" and "spsc_reach E B s c0 c"
  shows "ring_items E B (shared c0) s @ pushed c = popped c @ ring_items E B (shared c) s \<and>
    length (ring_items E B (shared c) s) \<le> ring_cap E B"
proof -
  have "spsc_inv E B s (ring_items E B (shared c0) s) c0" using assms by (simp add: spsc_inv_def)
  from spsc_reach_inv [OF assms(6) this] show ?thesis by (auto simp: spsc_inv_def ring_count_le_cap)
qed

text \<open>A push that finds room finishes by its own accesses alone.\<close>

lemma spsc_reach_trans: "spsc_reach E B s b c \<Longrightarrow> spsc_reach E B s a b \<Longrightarrow> spsc_reach E B s a c"
  by (induction rule: spsc_reach.induct) (auto intro: spsc_reach.intros)

lemma push_copies:
  "ppc c = PCopy e h nx k \<Longrightarrow> k \<le> E \<Longrightarrow>
    \<exists>d. spsc_reach E B s c d \<and> ppc d = PCopy e h nx E \<and> pushed d = pushed c \<and> popped d = popped c"
proof (induction "E - k" arbitrary: c k)
  case 0
  then show ?case by (auto intro: spsc_reach.start)
next
  case (Suc n)
  let ?d = "c\<lparr>shared := write_byte (buf (hdr (shared c) s)) (unat h + k) (e ! k) (shared c),
      ppc := PCopy e h nx (Suc k)\<rparr>"
  have "spsc_step E B s c ?d" using Suc.prems Suc.hyps(2) by (intro push_byte) auto
  then have "spsc_reach E B s c ?d" by (rule spsc_reach.step [OF spsc_reach.start])
  moreover obtain d where "spsc_reach E B s ?d d" "ppc d = PCopy e h nx E" "pushed d = pushed c" "popped d = popped c"
  proof -
    have "n = E - Suc k" and "Suc k \<le> E" using Suc.hyps(2) by simp_all
    with Suc.hyps(1) [of "Suc k" ?d] that show thesis by auto
  qed
  ultimately show ?case using spsc_reach_trans by blast
qed

lemma push_completes:
  assumes "ppc c = PIdle" and "length e = E"
    and "(head (hdr (shared c) s) + of_nat E) mod of_nat B \<noteq> tail (hdr (shared c) s)"
  shows "\<exists>d. spsc_reach E B s c d \<and> pushed d = pushed c @ [e] \<and> popped d = popped c"
proof -
  let ?h = "head (hdr (shared c) s)"
  let ?nx = "(?h + of_nat E) mod of_nat B"
  let ?c1 = "c\<lparr>ppc := PCheck e ?h ?nx\<rparr>"
  let ?c2 = "?c1\<lparr>ppc := PCopy e ?h ?nx 0\<rparr>"
  have "spsc_step E B s c ?c1" by (rule push_start [OF assms(1,2) refl])
  moreover have "spsc_step E B s ?c1 ?c2" using assms(3) by (intro push_go) auto
  ultimately have 2: "spsc_reach E B s c ?c2" by (meson spsc_reach.intros)
  obtain d where d: "spsc_reach E B s ?c2 d" "ppc d = PCopy e ?h ?nx E" "pushed d = pushed c" "popped d = popped c"
    using push_copies [of ?c2 e ?h ?nx 0 E B s] by auto
  let ?d1 = "d\<lparr>ppc := PPublish e ?nx\<rparr>"
  let ?d2 = "?d1\<lparr>shared := RECORD_PUSH s (set_head s ?nx (shared ?d1)), ppc := PIdle, pushed := pushed ?d1 @ [e]\<rparr>"
  have "spsc_step E B s d ?d1" by (rule push_copied [OF d(2) refl])
  moreover have "spsc_step E B s ?d1 ?d2" by (rule push_publish) simp
  ultimately have "spsc_reach E B s c ?d2"
    using 2 d(1) by (meson spsc_reach.step spsc_reach_trans)
  then show ?thesis using d(3,4) by auto
qed

theorem spsc_no_loss_witness:
  "\<exists>c. spsc_reach 4 8 0 \<lparr>shared = sample_store 4 8, ppc = PIdle, cpc = CIdle, pushed = [], popped = []\<rparr> c \<and>
     ring_items 4 8 (shared c) 0 = [[1, 2, 3, 4]]"
proof -
  let ?c0 = "\<lparr>shared = sample_store 4 8, ppc = PIdle, cpc = CIdle, pushed = [], popped = []\<rparr>"
  have "(head (hdr (shared ?c0) 0) + of_nat 4) mod of_nat 8 \<noteq> tail (hdr (shared ?c0) 0)"
    by (simp add: sample_store_def sample_stream_def)
  then obtain c where c: "spsc_reach 4 8 0 ?c0 c" "pushed c = [[1, 2, 3, 4]]" "popped c = []"
    using push_completes [of ?c0 "[1, 2, 3, 4]" 4 0 8] by auto
  have "ring_ok 4 8 (shared ?c0) 0" by (simp add: sample_ring_ok ring_size_def)
  from spsc_no_loss [OF this _ _ _ _ c(1)] c show ?thesis by (auto simp: sample_ring_items)
qed

end
