(* ===== verification/Work_Props.thy ===== *)
theory Work_Props
  imports Work_Functions Stream_Concurrent
begin

section \<open>What the skeletons do to kernels and streams\<close>

text \<open>
  Facts about the work function skeletons of \<open>Work_Functions\<close>: fused pairs of kernels stay in
  step across interruptions, and the skeleton that runs a kernel on copies of the stream
  positions keeps the streams right.
\<close>

subsection \<open>Fused kernels stay in step\<close>

text \<open>
  The iterations a kernel of a fused pair has finished in complete periods: what its runtime
  state counted, less what the current period has counted.
\<close>

definition lag0 :: "'k inline_inline_t \<Rightarrow> size_t" where
  "lag0 s = niter (rt_state0 s) - of_int (iter0 s)"

definition lag1 :: "'k inline_inline_t \<Rightarrow> size_t" where
  "lag1 s = niter (rt_state1 s) - of_int (iter1 s)"

definition fused_ok :: "'k inline_inline_t \<Rightarrow> bool" where
  "fused_ok s \<longleftrightarrow> 0 \<le> iter0 s \<and> iter0 s \<le> niter0 s \<and> 0 \<le> iter1 s \<and> iter1 s \<le> niter1 s"

text \<open>What the loops leave alone.\<close>

definition same_fused :: "'k inline_inline_t \<Rightarrow> 'k inline_inline_t \<Rightarrow> bool" where
  "same_fused s t \<longleftrightarrow> niter0 t = niter0 s \<and> niter1 t = niter1 s \<and> ins0 t = ins0 s \<and> outs0 t = outs0 s \<and>
     ins1 t = ins1 s \<and> outs1 t = outs1 s"

lemma inline2_loop0_counts:
  "inline2_loop0 work0 s st = Done (v, t, st') \<Longrightarrow> fused_ok s \<Longrightarrow>
    fused_ok t \<and> lag0 t = lag0 s \<and> lag1 t = lag1 s \<and> same_fused s t \<and> iter1 t = iter1 s \<and>
    (v = NullEnd \<longrightarrow> iter0 t = niter0 t)"
proof (induction work0 s st arbitrary: v t st' rule: inline2_loop0.induct)
  case (1 work0 s st)
  note run = 1(2) [unfolded inline2_loop0.simps [of work0 s st]]
  show ?case
  proof (cases "iter0 s < niter0 s")
    case True
    with run obtain u k st1 where u: "work0 (state0 s) (ins0 s) (outs0 s) st = Done (u, k, st1)"
      by (auto elim!: bind_out_DoneE)
    show ?thesis
    proof (cases "u = NullEnd")
      case False
      with run True u 1(3) show ?thesis by (auto simp: fused_ok_def lag0_def lag1_def same_fused_def)
    next
      case null: True
      let ?s1 = "s\<lparr>state0 := k\<rparr>"
      let ?s = "?s1\<lparr>rt_state0 := count_iter (rt_state0 ?s1), iter0 := iter0 ?s1 + 1\<rparr>"
      have r: "inline2_loop0 work0 ?s st1 = Done (v, t, st')" using run True u null by simp
      have f: "fused_ok ?s" using 1(3) True by (simp add: fused_ok_def)
      have "lag0 ?s = lag0 s" "lag1 ?s = lag1 s" "same_fused s ?s" "iter1 ?s = iter1 s"
        by (simp_all add: lag0_def lag1_def count_iter_def same_fused_def)
      with 1(1) [OF True refl _ r f, simplified] show ?thesis by (simp add: same_fused_def)
    qed
  next
    case False
    with run 1(3) show ?thesis by (auto simp: fused_ok_def same_fused_def)
  qed
qed

lemma inline2_loop1_counts:
  "inline2_loop1 work1 s st = Done (v, t, st') \<Longrightarrow> fused_ok s \<Longrightarrow>
    fused_ok t \<and> lag0 t = lag0 s \<and> lag1 t = lag1 s \<and> same_fused s t \<and> iter0 t = iter0 s \<and>
    (v = NullEnd \<longrightarrow> iter1 t = niter1 t)"
proof (induction work1 s st arbitrary: v t st' rule: inline2_loop1.induct)
  case (1 work1 s st)
  note run = 1(2) [unfolded inline2_loop1.simps [of work1 s st]]
  show ?case
  proof (cases "iter1 s < niter1 s")
    case True
    with run obtain u k st1 where u: "work1 (state1 s) (ins1 s) (outs1 s) st = Done (u, k, st1)"
      by (auto elim!: bind_out_DoneE)
    show ?thesis
    proof (cases "u = NullEnd")
      case False
      with run True u 1(3) show ?thesis by (auto simp: fused_ok_def lag0_def lag1_def same_fused_def)
    next
      case null: True
      let ?s1 = "s\<lparr>state1 := k\<rparr>"
      let ?s = "?s1\<lparr>rt_state1 := count_iter (rt_state1 ?s1), iter1 := iter1 ?s1 + 1\<rparr>"
      have r: "inline2_loop1 work1 ?s st1 = Done (v, t, st')" using run True u null by simp
      have f: "fused_ok ?s" using 1(3) True by (simp add: fused_ok_def)
      have "lag0 ?s = lag0 s" "lag1 ?s = lag1 s" "same_fused s ?s" "iter0 ?s = iter0 s"
        by (simp_all add: lag0_def lag1_def count_iter_def same_fused_def)
      with 1(1) [OF True refl _ r f, simplified] show ?thesis by (simp add: same_fused_def)
    qed
  next
    case False
    with run 1(3) show ?thesis by (auto simp: fused_ok_def same_fused_def)
  qed
qed

text \<open>
  C36.  A fused pair of kernels stays in step however often it is interrupted: a call of the
  fused work function that returns null has run both kernels for exactly one period, counting
  what an interrupted call had already run, and a call that is interrupted leaves the
  finished periods of both kernels as they were, so that the next call resumes it.
\<close>

theorem inline2_in_step:
  assumes "workfn_inline2 work0 work1 s st = Done (v, t, st')" and "fused_ok s"
  shows "fused_ok t \<and> niter0 t = niter0 s \<and> niter1 t = niter1 s \<and>
    (if v = NullEnd
     then iter0 t = 0 \<and> iter1 t = 0 \<and> lag0 t = lag0 s + of_int (niter0 s) \<and>
       lag1 t = lag1 s + of_int (niter1 s)
     else lag0 t = lag0 s \<and> lag1 t = lag1 s)"
proof -
  from assms(1) obtain u s1 st1 where l0: "inline2_loop0 work0 s st = Done (u, s1, st1)"
    by (auto simp: workfn_inline2_def elim!: bind_out_DoneE)
  note c0 = inline2_loop0_counts [OF l0 assms(2)]
  show ?thesis
  proof (cases "u = NullEnd")
    case False
    with assms(1) l0 c0 show ?thesis by (auto simp: workfn_inline2_def same_fused_def)
  next
    case u: True
    with assms(1) l0 obtain u' s2 st2 where l1: "inline2_loop1 work1 s1 st1 = Done (u', s2, st2)"
      by (auto simp: workfn_inline2_def elim!: bind_out_DoneE)
    have c1: "fused_ok s2 \<and> lag0 s2 = lag0 s1 \<and> lag1 s2 = lag1 s1 \<and> same_fused s1 s2 \<and>
        iter0 s2 = iter0 s1 \<and> (u' = NullEnd \<longrightarrow> iter1 s2 = niter1 s2)"
      using inline2_loop1_counts [OF l1] c0 by blast
    show ?thesis
    proof (cases "u' = NullEnd")
      case False
      with assms(1) l0 l1 u c0 c1 show ?thesis by (auto simp: workfn_inline2_def same_fused_def)
    next
      case True
      have t: "t = s2\<lparr>iter0 := 0, iter1 := 0\<rparr>" "v = NullEnd"
        using assms(1) l0 l1 u True by (simp_all add: workfn_inline2_def)
      show ?thesis using c0 c1 u True unfolding t
        by (simp add: same_fused_def lag0_def lag1_def algebra_simps) (auto simp: fused_ok_def)
    qed
  qed
qed

text \<open>A pair of kernels that never block, with periods of three and two iterations.\<close>

definition sample_fused :: "nat inline_inline_t" where
  "sample_fused = \<lparr>iter0 = 1, niter0 = 3, rt_state0 = \<lparr>stk = None, niter = 1, cycles = 0\<rparr>, state0 = 0,
     ins0 = [], outs0 = [], iter1 = 0, niter1 = 2, rt_state1 = \<lparr>stk = None, niter = 0, cycles = 0\<rparr>,
     state1 = 0, ins1 = [], outs1 = []\<rparr>"

theorem inline2_in_step_witness:
  "\<exists>t st'. workfn_inline2 (\<lambda>k ins outs st. Done (NullEnd, Suc k, st)) (\<lambda>k ins outs st. Done (NullEnd, Suc k, st))
     sample_fused (sample_store 4 8) = Done (NullEnd, t, st') \<and> lag0 t = lag0 sample_fused + 3 \<and> iter0 t = 0"
proof -
  let ?w = "\<lambda>k ins outs st. Done (NullEnd, Suc k, st) :: (endp, endp \<times> nat \<times> store) outcome"
  have "\<exists>t. workfn_inline2 ?w ?w sample_fused (sample_store 4 8) = Done (NullEnd, t, sample_store 4 8)"
    by (simp add: workfn_inline2_def sample_fused_def inline2_loop0.simps inline2_loop1.simps)
  then obtain t where t: "workfn_inline2 ?w ?w sample_fused (sample_store 4 8) = Done (NullEnd, t, sample_store 4 8)" by blast
  have "fused_ok sample_fused" by (simp add: fused_ok_def sample_fused_def)
  from inline2_in_step [OF t this] t show ?thesis by (auto simp: sample_fused_def)
qed

subsection \<open>Working on copies of the positions\<close>

text \<open>The work function of a kernel that maps a function over its input, compiled for copies.\<close>

definition map_work :: "(byte list \<Rightarrow> byte list) \<Rightarrow> 'k work" where
  "map_work f k ins outs st =
     bind_out (inline_pop_nocheck_p_E_B 4 32768 ins 0 st) (\<lambda>(e, st).
     bind_out (inline_push_nocheck_p_E_B 4 32768 outs 0 (f e) st) (\<lambda>st. Done (NullEnd, k, st)))"

definition copies :: "ptr \<Rightarrow> ptr \<Rightarrow> ptr \<Rightarrow> ptr \<Rightarrow> store \<Rightarrow> bool" where
  "copies li lo i out st \<longleftrightarrow> tail (hdr st li) = tail (hdr st i) \<and> inp (hdr st li) = buf (hdr st i) \<and>
     head (hdr st lo) = head (hdr st out) \<and> outp (hdr st lo) = buf (hdr st out)"

lemma ring_cong:
  assumes "head (hdr st' s) = head (hdr st s)" and "tail (hdr st' s) = tail (hdr st s)"
    and "buf (hdr st' s) = buf (hdr st s)" and "mem st' (buf (hdr st s)) = mem st (buf (hdr st s))"
  shows "ring_items E B st' s = ring_items E B st s" and "ring_ok E B st' s = ring_ok E B st s"
  using assms by (simp_all add: ring_items_def ring_ok_def ring_count_def)

lemma copies_step:
  assumes d: "distinct [li, lo, i, out]" and cp: "copies li lo i out st"
    and i: "ring_ok 4 32768 st i" "ring_items 4 32768 st i = e # xs"
    and out: "ring_ok 4 32768 st out" "0 < ring_room 4 32768 st out" and ap: "apart st i out"
    and len: "length (f e) = 4"
  shows "\<exists>st1 st'. workfn_skel (map_work f) [li] [lo] (r, k, st) = Done (NullEnd, count_iter r, k, st1) \<and>
    st' = set_head out (head (hdr st1 lo)) (set_tail i (tail (hdr st1 li)) st1) \<and>
    copies li lo i out st' \<and> apart st' i out \<and> ring_ok 4 32768 st' i \<and> ring_items 4 32768 st' i = xs \<and>
    ring_ok 4 32768 st' out \<and> ring_items 4 32768 st' out = ring_items 4 32768 st out @ [f e]"
proof -
  have ne: "li \<noteq> lo" "li \<noteq> i" "li \<noteq> out" "lo \<noteq> i" "lo \<noteq> out" "i \<noteq> out"
    and ne': "lo \<noteq> li" "i \<noteq> li" "out \<noteq> li" "i \<noteq> lo" "out \<noteq> lo" "out \<noteq> i" using d by auto
  have bufs: "buf (hdr st i) \<noteq> buf (hdr st out)" using ap by (simp add: apart_def)
  define ti where "ti = (tail (hdr st i) + of_nat 4) mod of_nat 32768"
  define hn where "hn = (head (hdr st out) + of_nat 4) mod of_nat 32768"
  have cnt: "0 < ring_count 4 32768 st i" using i(2) by (simp flip: length_ring_items)
  have ut: "unat (tail (hdr st i)) = (unat (tail (hdr st i)) + 4 * 0) mod 32768"
    using i(1) by (simp add: ring_ok_def)
  have rd: "read_obj (buf (hdr st i)) (tail (hdr st i)) 4 st = Done e"
    using read_item [OF i(1) cnt ut] i(2) by simp
  define st0 where "st0 = set_tail li ti st"
  have h0: "hdr st0 = (hdr st)(li := (hdr st li)\<lparr>tail := ti\<rparr>)" and m0: "mem st0 = mem st"
    by (simp_all add: st0_def set_tail_def)
  have pop: "inline_pop_nocheck_p_E_B 4 32768 [li] 0 st = Done (e, st0)"
    using cp rd by (simp add: inline_pop_nocheck_p_E_B_def get_elem_def copies_def Let_def st0_def ti_def)
  have out0: "ring_ok 4 32768 st0 out" "ring_items 4 32768 st0 out = ring_items 4 32768 st out"
    using out(1) ring_cong [of st0 out st] ne by (simp_all add: h0 m0)
  have free: "(head (hdr st0 out) + of_nat 4) mod of_nat 32768 \<noteq> tail (hdr st0 out)"
    using ring_room_pos_iff [OF out(1)] out(2) ne by (simp add: h0)
  from put_elem_ring [OF out0(1) len free refl] obtain st2 where st2:
    "put_elem out (buf (hdr st out)) (head (hdr st out)) 4 (f e) hn st0 = Done st2"
    "ring_ok 4 32768 st2 out" "ring_items 4 32768 st2 out = ring_items 4 32768 st out @ [f e]"
    "hdr st2 = (hdr st0)(out := (hdr st0 out)\<lparr>head := hn, num_push := num_push (hdr st0 out) + 1\<rparr>)"
    "\<forall>b'. b' \<noteq> buf (hdr st out) \<longrightarrow> mem st2 b' = mem st b'"
    using ne by (auto simp: h0 m0 out0(2) hn_def)
  obtain m where m: "mem_put (mem st0 (buf (hdr st out))) (head (hdr st out)) 4 (f e) = Some m"
    and m2: "mem st2 = (mem st0)(buf (hdr st out) := m)"
    using st2(1) by (auto simp: put_elem_def write_obj_def RECORD_PUSH_def set_head_def split: option.splits)
  define st1 where "st1 = RECORD_PUSH lo (set_head lo hn (st0\<lparr>mem := (mem st0)(buf (hdr st out) := m)\<rparr>))"
  have h1: "hdr st1 = (hdr st0)(lo := (hdr st0 lo)\<lparr>head := hn, num_push := num_push (hdr st0 lo) + 1\<rparr>)"
    and m1: "mem st1 = (mem st0)(buf (hdr st out) := m)"
    by (simp_all add: st1_def RECORD_PUSH_def set_head_def)
  have push: "inline_push_nocheck_p_E_B 4 32768 [lo] 0 (f e) st0 = Done st1"
    using cp m ne by (simp add: inline_push_nocheck_p_E_B_def put_elem_def write_obj_def copies_def
      Let_def h0 st1_def hn_def)
  define st' where "st' = set_head out hn (set_tail i ti st1)"
  have st'_eq: "st' = set_head out (head (hdr st1 lo)) (set_tail i (tail (hdr st1 li)) st1)"
    using ne by (simp add: st'_def h0 h1)
  have h': "hdr st' = (hdr st1)(i := (hdr st1 i)\<lparr>tail := ti\<rparr>, out := (hdr st1 out)\<lparr>head := hn\<rparr>)"
    and m': "mem st' = mem st1" using ne by (simp_all add: st'_def set_head_def set_tail_def)
  have "ring_ok 4 32768 st' out" "ring_items 4 32768 st' out = ring_items 4 32768 st out @ [f e]"
    using ring_cong [of st' out st2] st2(2,3) ne ne' by (simp_all add: h' h1 h0 st2(4) m' m1 m2)
  moreover have "ring_ok 4 32768 st' i" "ring_items 4 32768 st' i = xs"
    using ring_cong [of st' i "set_tail i ti st"] publish_tail [OF i(1) ti_def] i(2) ne ne' bufs
    by (simp_all add: h' h1 h0 m' m1 m0 set_tail_def)
  moreover have "copies li lo i out st'" using cp ne ne' by (simp add: copies_def h' h1 h0)
  moreover have "apart st' i out" using ap ne ne' by (simp add: apart_def h' h1 h0)
  moreover have "workfn_skel (map_work f) [li] [lo] (r, k, st) = Done (NullEnd, count_iter r, k, st1)"
    using pop push by (simp add: workfn_skel_def map_work_def)
  ultimately show ?thesis using st'_eq by blast
qed

lemma all_one: "(\<forall>j < (1 :: nat). P j) \<longleftrightarrow> P 0"
  by auto

lemma run_local_map:
  assumes d: "distinct [li, lo, i, out]" and len: "\<And>e. length e = 4 \<Longrightarrow> length (f e) = 4"
    and "copies li lo i out st" and "ring_ok 4 32768 st i" and "ring_ok 4 32768 st out" and "apart st i out"
    and "n \<le> ring_count 4 32768 st i" and "n \<le> ring_room 4 32768 st out"
  shows "\<exists>st' r'. run_local n (map_work f) li lo i out (r, k, st) = Done (NullEnd, r', k, st') \<and>
    niter r' = niter r + of_nat n \<and> ring_ok 4 32768 st' i \<and> ring_ok 4 32768 st' out \<and>
    ring_items 4 32768 st' i = drop n (ring_items 4 32768 st i) \<and>
    ring_items 4 32768 st' out = ring_items 4 32768 st out @ map f (take n (ring_items 4 32768 st i))"
  using assms(3-)
proof (induction n arbitrary: st r)
  case (Suc n)
  obtain e xs where items: "ring_items 4 32768 st i = e # xs"
    using Suc.prems(5) by (cases "ring_items 4 32768 st i") (auto simp flip: length_ring_items)
  have "length e = 4" using ring_items_length [OF Suc.prems(2), of e] items by simp
  have room: "0 < ring_room 4 32768 st out" using Suc.prems(6) by simp
  obtain st1 st' where step:
    "workfn_skel (map_work f) [li] [lo] (r, k, st) = Done (NullEnd, count_iter r, k, st1)"
    "st' = set_head out (head (hdr st1 lo)) (set_tail i (tail (hdr st1 li)) st1)"
    "copies li lo i out st'" "apart st' i out" "ring_ok 4 32768 st' i" "ring_items 4 32768 st' i = xs"
    "ring_ok 4 32768 st' out" "ring_items 4 32768 st' out = ring_items 4 32768 st out @ [f e]"
    using copies_step [where f = f and r = r and k = k, OF d Suc.prems(1,2) items Suc.prems(3) room Suc.prems(4) len [OF \<open>length e = 4\<close>]]
    by (elim exE conjE) (rule that, assumption+)
  have c1: "n \<le> ring_count 4 32768 st' i"
    using Suc.prems(5) step(6) items by (simp flip: length_ring_items)
  have c2: "n \<le> ring_room 4 32768 st' out"
    using Suc.prems(6) ring_room_items [OF step(8)] by (simp add: ring_room_def)
  obtain st2 r2 where st2: "run_local n (map_work f) li lo i out (count_iter r, k, st') =
      Done (NullEnd, r2, k, st2)" "niter r2 = niter (count_iter r) + of_nat n" "ring_ok 4 32768 st2 i"
    "ring_ok 4 32768 st2 out" "ring_items 4 32768 st2 i = drop n xs"
    "ring_items 4 32768 st2 out = (ring_items 4 32768 st out @ [f e]) @ map f (take n xs)"
    using Suc.IH [OF step(3,5,7,4) c1 c2, of "count_iter r", unfolded step(6,8)] by blast
  have "run_local (Suc n) (map_work f) li lo i out (r, k, st) = Done (NullEnd, r2, k, st2)"
    using step(1) st2(1) by (simp add: Let_def flip: step(2))
  then show ?case using st2 items by (simp add: count_iter_def)
qed simp

text \<open>
  C35.  The optimised skeleton for one input and one output, which runs the kernel on copies of
  the stream positions, keeps the streams right: a kernel that maps a function over four-byte
  elements moves as many elements as the input holds and the output has room for, each of them
  mapped, in order, and counts one iteration for each.
\<close>

theorem workfn_nocheck_1_1_maps:
  assumes "distinct [li, lo, i, out]" and "\<And>e. length e = 4 \<Longrightarrow> length (f e) = 4"
    and "ring_ok 4 32768 st i" and "ring_ok 4 32768 st out" and "apart st i out"
    and "inp (hdr st i) = buf (hdr st i)" and "outp (hdr st out) = buf (hdr st out)"
    and "pop_rate (hdr st i) = 1" and "peek_rate (hdr st i) = 0" and "push_rate (hdr st out) = 1"
    and "0 < ring_count 4 32768 st i" and "0 < ring_room 4 32768 st out"
  shows "\<exists>r' st' n. workfn_nocheck_1_1 (map_work f) li lo [i] [out] (r, k, st) = Done (NullEnd, r', k, st') \<and>
    0 < n \<and> niter r' = niter r + of_nat n \<and>
    ring_items 4 32768 st' i = drop n (ring_items 4 32768 st i) \<and>
    ring_items 4 32768 st' out = ring_items 4 32768 st out @ map f (take n (ring_items 4 32768 st i))"
proof -
  note rates = assms(8-10)
  have ok: "streams_ok 4 32768 [i] 1 [out] 1 st"
    using assms(3,4) rates by (simp add: streams_ok_def in_ok_def out_ok_def ring_size_def)
  have it: "0 < out_iters 4 32768 st out" "0 < in_iters 4 32768 st i"
    using rates assms(11,12) by (simp_all add: out_iters_def in_iters_def ring_room_def)
  let ?n = "of_int (fold (\<lambda>j n. min n (in_iters 4 32768 st i)) [0 :: nat]
    (fold (\<lambda>j n. min n (out_iters 4 32768 st out)) [0 :: nat] (int 32768))) :: size_t"
  have "?n \<noteq> 0" using it by (intro niters_nonzero) auto
  moreover have "inline_compute_niters_E_B 4 32768 [i] 1 [out] 1 st = Done (NullEnd, ?n)"
    using it by (subst compute_niters_eq [OF ok]) (simp add: upt_conv_Cons not_le)
  ultimately obtain n where n: "inline_compute_niters_E_B 4 32768 [i] 1 [out] 1 st = Done (NullEnd, n)"
    "n \<noteq> 0" by blast
  have "int (unat n) * push_rate (hdr st out) \<le> int (ring_cap 4 32768 - ring_count 4 32768 st out)"
    "int (unat n) * pop_rate (hdr st i) + peek_rate (hdr st i) \<le> int (ring_count 4 32768 st i)"
    using niters_safe [OF ok n(1)] by (simp_all only: all_one nth_Cons_0)
  then have safe: "unat n \<le> ring_count 4 32768 st i" "unat n \<le> ring_room 4 32768 st out"
    unfolding rates ring_room_def mult_1_right add_0_right of_nat_le_iff by blast+
  define st1 where "st1 = st\<lparr>hdr := (hdr st)(li := (hdr st li)\<lparr>tail := tail (hdr st i), inp := inp (hdr st i)\<rparr>)\<rparr>"
  define st2 where "st2 = st1\<lparr>hdr := (hdr st1)(lo := (hdr st1 lo)\<lparr>head := head (hdr st out), outp := outp (hdr st out)\<rparr>)\<rparr>"
  have h2: "hdr st2 i = hdr st i" "hdr st2 out = hdr st out" "mem st2 = mem st"
    using assms(1) by (auto simp: st2_def st1_def)
  have same: "ring_items 4 32768 st2 i = ring_items 4 32768 st i" "ring_ok 4 32768 st2 i"
    "ring_items 4 32768 st2 out = ring_items 4 32768 st out" "ring_ok 4 32768 st2 out"
    using ring_cong [of st2 i st] ring_cong [of st2 out st] assms(3,4) by (simp_all add: h2)
  have "ring_count 4 32768 st2 i = ring_count 4 32768 st i" using same(1) by (metis length_ring_items)
  moreover have "ring_room 4 32768 st2 out = ring_room 4 32768 st out"
    using ring_room_items [OF same(3)] by (simp add: ring_room_def)
  moreover have "copies li lo i out st2" using assms(1,6,7) by (simp add: copies_def st2_def st1_def)
  moreover have "apart st2 i out" using assms(5) by (simp add: apart_def h2)
  ultimately obtain st' r' where run: "run_local (unat n) (map_work f) li lo i out (r, k, st2) = Done (NullEnd, r', k, st')"
    "niter r' = niter r + of_nat (unat n)"
    "ring_items 4 32768 st' i = drop (unat n) (ring_items 4 32768 st i)"
    "ring_items 4 32768 st' out = ring_items 4 32768 st out @ map f (take (unat n) (ring_items 4 32768 st i))"
    using run_local_map [where f = f, OF assms(1,2) _ same(2,4), of "unat n" r k] safe same(1,3) by auto
  have "workfn_nocheck_1_1 (map_work f) li lo [i] [out] (r, k, st) = Done (NullEnd, r', k, st')"
  proof -
    have "lo \<noteq> li" using assms(1) by auto
    with n run(1) show ?thesis
      unfolding workfn_nocheck_1_1_def Let_def st2_def st1_def by simp
  qed
  moreover have "0 < unat n" using n(2) by (simp add: unat_gt_0)
  ultimately show ?thesis using run(2-4) by blast
qed

text \<open>Stream 1 holds six elements, stream 2 is empty; the local copies are at 8 and 9.\<close>

theorem workfn_nocheck_1_1_maps_witness:
  "\<exists>st r' st' n. workfn_nocheck_1_1 (map_work rev) 8 9 [1] [2] (\<lparr>stk = None, niter = 0, cycles = 0\<rparr>, (), st) =
      Done (NullEnd, r', (), st') \<and> 0 < n \<and> ring_count 4 32768 st 1 = 6 \<and>
    ring_items 4 32768 st' 2 = map rev (take n (ring_items 4 32768 st 1))"
proof -
  let ?st = "(sample_store 4 32768)\<lparr>hdr := (sample_stream 4)(1 := (sample_stream 4 1)\<lparr>head := 24\<rparr>)\<rparr>"
  have "ring_ok 4 32768 ?st 1" "ring_ok 4 32768 ?st 2" "apart ?st 1 2" "ring_count 4 32768 ?st 1 = 6"
    "ring_room 4 32768 ?st 2 = 8191" "ring_items 4 32768 ?st 2 = []"
    by (simp_all add: ring_ok_def ring_size_def sample_store_def sample_stream_def apart_def
      ring_count_def ring_dist_def ring_room_def ring_cap_def ring_items_def)
  with workfn_nocheck_1_1_maps [of 8 9 1 2 rev ?st "\<lparr>stk = None, niter = 0, cycles = 0\<rparr>" "()"]
  show ?thesis by (intro exI [of _ ?st]) (auto simp: sample_stream_def)
qed

end
