(* ===== verification/Vector_Ops.thy ===== *)
theory Vector_Ops
  imports Skir_Prelude
begin

section \<open>Vectorised splits and joins\<close>

text \<open>
  The shuffles of \<open>lib/runtime/inline_vector_ops.c\<close>, which split vectors of four elements
  round robin over two or four streams and join them again.  A pointer to vectors is a
  function from its index; the vectors written are the result.  The streams read and the
  streams written do not overlap.
\<close>

type_synonym uint4 = "uint32 \<times> uint32 \<times> uint32 \<times> uint32"

fun lanes :: "uint4 \<Rightarrow> uint32 list" where
  "lanes (a, b, c, d) = [a, b, c, d]"

definition shufflevector :: "uint4 \<Rightarrow> uint4 \<Rightarrow> nat \<Rightarrow> nat \<Rightarrow> nat \<Rightarrow> nat \<Rightarrow> uint4" where
  "shufflevector x y i j k l = (let v = lanes x @ lanes y in (v ! i, v ! j, v ! k, v ! l))"

definition split_2_1_vec4x4 :: "(nat \<Rightarrow> uint4) \<Rightarrow> uint4 \<times> uint4" where
  "split_2_1_vec4x4 inp =
     (shufflevector (inp 0) (inp 1) 0 2 4 6, shufflevector (inp 0) (inp 1) 1 3 5 7)"

definition split_4_1_vec4x4 :: "(nat \<Rightarrow> uint4) \<Rightarrow> uint4 \<times> uint4 \<times> uint4 \<times> uint4" where
  "split_4_1_vec4x4 inp =
     (let tmp0 = shufflevector (inp 0) (inp 1) 0 4 1 5;
          tmp1 = shufflevector (inp 2) (inp 3) 0 4 1 5;
          tmp2 = shufflevector (inp 0) (inp 1) 2 6 3 7;
          tmp3 = shufflevector (inp 2) (inp 3) 2 6 3 7 in
      (shufflevector tmp0 tmp1 0 1 4 5, shufflevector tmp0 tmp1 2 3 6 7,
       shufflevector tmp2 tmp3 0 1 4 5, shufflevector tmp2 tmp3 2 3 6 7))"

definition split_2_4_vec4x4 :: "(nat \<Rightarrow> uint4) \<Rightarrow> uint4 \<times> uint4" where
  "split_2_4_vec4x4 inp = (inp 0, inp 1)"

definition split_4_2_vec4x4 :: "(nat \<Rightarrow> uint4) \<Rightarrow> uint4 \<times> uint4 \<times> uint4 \<times> uint4" where
  "split_4_2_vec4x4 inp =
     (shufflevector (inp 0) (inp 1) 0 1 0 1, shufflevector (inp 0) (inp 1) 2 3 2 3,
      shufflevector (inp 0) (inp 1) 4 5 4 5, shufflevector (inp 0) (inp 1) 6 7 6 7)"

definition join_2_1_vec4x4 :: "(nat \<Rightarrow> uint4) \<Rightarrow> (nat \<Rightarrow> uint4) \<Rightarrow> uint4 list" where
  "join_2_1_vec4x4 in0 in1 =
     [shufflevector (in0 0) (in1 0) 0 4 1 5, shufflevector (in0 0) (in1 0) 2 6 3 7]"

definition join_4_1_vec4x4 ::
    "(nat \<Rightarrow> uint4) \<Rightarrow> (nat \<Rightarrow> uint4) \<Rightarrow> (nat \<Rightarrow> uint4) \<Rightarrow> (nat \<Rightarrow> uint4) \<Rightarrow> uint4 list" where
  "join_4_1_vec4x4 in0 in1 in2 in3 =
     (let tmp0 = shufflevector (in0 0) (in1 0) 0 4 1 5;
          tmp1 = shufflevector (in2 0) (in3 0) 0 4 1 5;
          tmp2 = shufflevector (in0 0) (in1 0) 2 6 3 7;
          tmp3 = shufflevector (in2 0) (in3 0) 2 6 3 7 in
      [shufflevector tmp0 tmp1 0 1 4 5, shufflevector tmp0 tmp1 2 3 6 7,
       shufflevector tmp2 tmp3 0 1 4 5, shufflevector tmp2 tmp3 2 3 6 7])"

definition join_2_4_vec4x4 :: "(nat \<Rightarrow> uint4) \<Rightarrow> (nat \<Rightarrow> uint4) \<Rightarrow> uint4 list" where
  "join_2_4_vec4x4 in0 in1 = [in0 0, in1 1]"

definition join_4_2_vec4x4 ::
    "(nat \<Rightarrow> uint4) \<Rightarrow> (nat \<Rightarrow> uint4) \<Rightarrow> (nat \<Rightarrow> uint4) \<Rightarrow> (nat \<Rightarrow> uint4) \<Rightarrow> uint4 list" where
  "join_4_2_vec4x4 in0 in1 in2 in3 =
     [shufflevector (in0 0) (in1 0) 0 1 4 5, shufflevector (in2 0) (in3 0) 0 1 4 5,
      shufflevector (in0 0) (in1 0) 2 3 6 7, shufflevector (in2 0) (in3 0) 2 3 6 7]"

subsection \<open>The round robin the shuffles stand for\<close>

text \<open>
  \<open>deal n w xs\<close> gives the \<open>n\<close> streams that a round-robin splitter of weight \<open>w\<close> makes of \<open>xs\<close>:
  in turn, \<open>w\<close> elements to each.
\<close>

definition dealt_to :: "nat \<Rightarrow> nat \<Rightarrow> nat \<Rightarrow> nat \<Rightarrow> nat list" where
  "dealt_to n w len s = filter (\<lambda>i. i div w mod n = s) [0..<len]"

definition deal :: "nat \<Rightarrow> nat \<Rightarrow> 'a list \<Rightarrow> 'a list list" where
  "deal n w xs = map (\<lambda>s. map ((!) xs) (dealt_to n w (length xs) s)) [0..<n]"

lemma dealt_to_2 [simp]:
  "dealt_to 2 1 8 0 = [0, 2, 4, 6]" "dealt_to 2 1 8 1 = [1, 3, 5, 7]"
  by code_simp+

lemma dealt_to_4 [simp]:
  "dealt_to 4 1 16 0 = [0, 4, 8, 12]" "dealt_to 4 1 16 1 = [1, 5, 9, 13]"
  "dealt_to 4 1 16 2 = [2, 6, 10, 14]" "dealt_to 4 1 16 3 = [3, 7, 11, 15]"
  by code_simp+

lemma upt_2_4: "[0..<2] = [0, 1]" "[0..<4] = [0, 1, 2, 3]"
  by code_simp+

lemma deal_2: "length xs = 8 \<Longrightarrow> deal 2 1 xs = map (map ((!) xs)) [[0, 2, 4, 6], [1, 3, 5, 7]]"
  by (simp add: deal_def upt_2_4 del: One_nat_def)

lemma deal_4: "length xs = 16 \<Longrightarrow> deal 4 1 xs = map (map ((!) xs))
    [[0, 4, 8, 12], [1, 5, 9, 13], [2, 6, 10, 14], [3, 7, 11, 15]]"
  by (simp add: deal_def upt_2_4 del: One_nat_def)

definition vec :: "uint4 list \<Rightarrow> nat \<Rightarrow> uint4" where
  "vec vs i = vs ! i"

definition stream_of :: "uint4 list \<Rightarrow> uint32 list" where
  "stream_of vs = concat (map lanes vs)"

lemma vec_simps [simp]:
  "vec (v # vs) 0 = v" "vec (v # w # vs) 1 = w" "vec (v # w # x # vs) 2 = x" "vec (v # w # x # y # vs) 3 = y"
  by (simp_all add: vec_def numeral_eq_Suc)

lemma stream_of_simps [simp]: "stream_of [] = []" "stream_of (v # vs) = lanes v @ stream_of vs"
  by (simp_all add: stream_of_def)

lemma split_2_1_deal:
  "(case split_2_1_vec4x4 (vec [a, b]) of (x, y) \<Rightarrow>
      map lanes [x, y] = deal 2 1 (stream_of [a, b]) \<and> join_2_1_vec4x4 (vec [x]) (vec [y]) = [a, b])"
  by (cases a; cases b)
    (simp add: split_2_1_vec4x4_def join_2_1_vec4x4_def shufflevector_def deal_2 del: One_nat_def)

lemma split_4_1_deal:
  "(case split_4_1_vec4x4 (vec [a, b, c, d]) of (x, y, z, w) \<Rightarrow>
      map lanes [x, y, z, w] = deal 4 1 (stream_of [a, b, c, d]) \<and>
      join_4_1_vec4x4 (vec [x]) (vec [y]) (vec [z]) (vec [w]) = [a, b, c, d])"
  by (cases a; cases b; cases c; cases d)
    (simp add: split_4_1_vec4x4_def join_4_1_vec4x4_def shufflevector_def deal_4 Let_def del: One_nat_def)

text \<open>
   The vectorised splitters of weight one send each stream what a round-robin splitter
  sends it, and the vectorised joiners of weight one restore the input from that, for two and
  for four streams.
\<close>

theorem vector_round_robin:
  "(case split_2_1_vec4x4 (vec [a, b]) of (x, y) \<Rightarrow>
      map lanes [x, y] = deal 2 1 (stream_of [a, b]) \<and> join_2_1_vec4x4 (vec [x]) (vec [y]) = [a, b]) \<and>
   (case split_4_1_vec4x4 (vec [a, b, c, d]) of (x, y, z, w) \<Rightarrow>
      map lanes [x, y, z, w] = deal 4 1 (stream_of [a, b, c, d]) \<and>
      join_4_1_vec4x4 (vec [x]) (vec [y]) (vec [z]) (vec [w]) = [a, b, c, d])"
  by (rule conjI [OF split_2_1_deal split_4_1_deal])

text \<open>
   The two shuffles with larger weights are wrong: the splitter for four streams of weight
  two sends the same two elements to a stream twice and never looks at the second half of its
  input, and the joiner of two streams of weight four takes the second vector of its second
  input instead of the first.
\<close>

theorem vector_weighted_wrong:
  "split_4_2_vec4x4 (vec [a, b, c, d]) = split_4_2_vec4x4 (vec [a, b, e, f]) \<and>
   (case split_2_4_vec4x4 (vec [a, b]) of (x, y) \<Rightarrow> join_2_4_vec4x4 (vec [x, c]) (vec [y, d]) = [a, d])"
  by (simp add: split_4_2_vec4x4_def split_2_4_vec4x4_def join_2_4_vec4x4_def del: One_nat_def)

end
