(* ===== verification/D4R_Tag.thy ===== *)
theory D4R_Tag
  imports Skir_Prelude
begin

section \<open>Tags of the distributed deadlock detection\<close>

text \<open>
  The 128-bit numbers of \<open>deps/d4r/uint128_t.h\<close> and the tags of \<open>deps/d4r/D4RTag.h\<close>, with their
  comparison operators as instances of the library's classes: both are linear orders, which is
  what the detection algorithm needs of them.
\<close>

datatype uint128_t = U128 (high: uint64) (low: uint64)

text \<open>\<open>operator<\<close> and \<open>operator<=\<close> of the struct.\<close>

definition uint128_less :: "uint128_t \<Rightarrow> uint128_t \<Rightarrow> bool" where
  "uint128_less l r = (if high l = high r then low l < low r else high l < high r)"

definition uint128_less_eq :: "uint128_t \<Rightarrow> uint128_t \<Rightarrow> bool" where
  "uint128_less_eq l r = (\<not> uint128_less r l)"

instantiation uint128_t :: linorder
begin

definition less_uint128_t :: "uint128_t \<Rightarrow> uint128_t \<Rightarrow> bool" where
  "less_uint128_t = uint128_less"

definition less_eq_uint128_t :: "uint128_t \<Rightarrow> uint128_t \<Rightarrow> bool" where
  "less_eq_uint128_t = uint128_less_eq"

instance
proof
  fix x y z :: uint128_t
  note defs = less_uint128_t_def less_eq_uint128_t_def uint128_less_def uint128_less_eq_def
  show "x < y \<longleftrightarrow> x \<le> y \<and> \<not> y \<le> x" by (auto simp: defs)
  show "x \<le> x" by (simp add: defs)
  show "x \<le> y \<Longrightarrow> y \<le> z \<Longrightarrow> x \<le> z" by (auto simp: defs split: if_splits)
  show "x \<le> y \<Longrightarrow> y \<le> x \<Longrightarrow> x = y" by (auto simp: defs split: if_splits intro: uint128_t.expand)
  show "x \<le> y \<or> y \<le> x" by (auto simp: defs)
qed

end

lemmas uint128_order = less_uint128_t_def less_eq_uint128_t_def uint128_less_def uint128_less_eq_def

datatype tag = Tag (label: uint128_t) (priority: uint128_t)

text \<open>The order of tags: a smaller priority makes a larger tag.\<close>

definition tag_less :: "tag \<Rightarrow> tag \<Rightarrow> bool" where
  "tag_less t u = (if label t = label u then priority t > priority u else label t < label u)"

definition tag_less_eq :: "tag \<Rightarrow> tag \<Rightarrow> bool" where
  "tag_less_eq t u = (\<not> tag_less u t)"

instantiation tag :: linorder
begin

definition less_tag :: "tag \<Rightarrow> tag \<Rightarrow> bool" where
  "less_tag = tag_less"

definition less_eq_tag :: "tag \<Rightarrow> tag \<Rightarrow> bool" where
  "less_eq_tag = tag_less_eq"

instance
proof
  fix x y z :: tag
  note defs = less_tag_def less_eq_tag_def tag_less_def tag_less_eq_def
  show "x < y \<longleftrightarrow> x \<le> y \<and> \<not> y \<le> x" by (auto simp: defs)
  show "x \<le> x" by (simp add: defs)
  show "x \<le> y \<Longrightarrow> y \<le> z \<Longrightarrow> x \<le> z" by (auto simp: defs split: if_splits)
  show "x \<le> y \<Longrightarrow> y \<le> x \<Longrightarrow> x = y" by (auto simp: defs split: if_splits intro: tag.expand)
  show "x \<le> y \<or> y \<le> x" by (auto simp: defs)
qed

end

lemmas tag_order = less_tag_def less_eq_tag_def tag_less_def tag_less_eq_def

text \<open>The constructor \<open>Tag(k)\<close>, the accessors, and the setters.\<close>

definition new_tag :: "uint64 \<Rightarrow> tag" where
  "new_tag k = Tag (U128 0 k) (U128 (- 1) k)"

definition Count :: "tag \<Rightarrow> uint64" where
  "Count t = high (label t)"

definition Key :: "tag \<Rightarrow> uint64" where
  "Key t = low (label t)"

definition QueueSize :: "tag \<Rightarrow> uint64" where
  "QueueSize t = high (priority t)"

definition QueueKey :: "tag \<Rightarrow> uint64" where
  "QueueKey t = low (priority t)"

definition set_Count :: "uint64 \<Rightarrow> tag \<Rightarrow> tag" where
  "set_Count c t = Tag (U128 c (low (label t))) (priority t)"

definition set_QueueSize :: "uint64 \<Rightarrow> tag \<Rightarrow> tag" where
  "set_QueueSize q t = Tag (label t) (U128 q (low (priority t)))"

definition set_Priority :: "uint128_t \<Rightarrow> tag \<Rightarrow> tag" where
  "set_Priority p t = Tag (label t) p"

lemmas tag_simps = new_tag_def Count_def Key_def QueueSize_def QueueKey_def set_Count_def
  set_QueueSize_def set_Priority_def

lemma tag_le_iff: "t \<le> u \<longleftrightarrow> (if label t = label u then priority u \<le> priority t else label t \<le> label u)"
  by (auto simp: tag_order)

end
