(* ===== verification/Runtime_Objects.thy ===== *)
theory Runtime_Objects
  imports D4R_Tag Stream_Fifo
begin

section \<open>Runtime streams and runtime kernels\<close>

text \<open>
  \<open>lib/SKIR/SKIRRuntimeStream.h\<close> and \<open>lib/SKIR/SKIRRuntimeKernel.h\<close>: the objects the runtime
  graph is made of, and how stream implementations are allocated, shared and freed.  The heap
  extends the store of stream headers by the two kinds of objects; a handle of a stream
  implementation that is allocated is \<open>alive\<close>.  Code pointers are handles too.
\<close>

subsection \<open>The objects\<close>

record rt_stream =
  si :: "ptr option"
  rs_id :: uint32
  rs_type :: int
  is_src :: bool
  is_dst :: bool
  rs_elem_size :: uint32
  rs_stride :: uint32
  readtagchanged :: bool
  writetagchanged :: bool
  qsize :: int
  rs_pop_rate :: int
  rs_push_rate :: int
  rs_peek_rate :: int

text \<open>The enumeration \<open>SKIRRuntimeStream::Type\<close>.\<close>

definition NATIVE :: int where "NATIVE = 0"
definition SHARED :: int where "SHARED = 1"
definition SOCKET :: int where "SOCKET = 2"
definition ERR :: int where "ERR = -1"

definition new_rt_stream :: "uint32 \<Rightarrow> rt_stream" where
  "new_rt_stream i = \<lparr>si = None, rs_id = i, rs_type = -1, is_src = False, is_dst = False,
     rs_elem_size = 0, rs_stride = 0, readtagchanged = False, writetagchanged = False,
     qsize = int STREAM_BUFFER_SIZE, rs_pop_rate = -1, rs_push_rate = -1, rs_peek_rate = 0\<rparr>"

record rt_kernel =
  workfn_code :: "ptr option"
  rt_state :: skir_rt_state_t
  kstate :: "ptr option"
  impl_ins :: "ptr option list option"
  impl_outs :: "ptr option list option"
  kid :: uint32
  base_work :: "ptr option"
  work_fn :: "ptr option"
  rt_ins :: "ptr list option"
  rt_outs :: "ptr list option"
  rt_ints :: "ptr list option"
  sched_ins :: "ptr list option"
  sched_outs :: "ptr list option"
  nins :: nat
  nouts :: nat
  nints :: nat
  opt_only :: bool
  is_hier :: bool
  is_stateful :: bool
  is_fixed_rate :: bool
  is_const_idx :: bool
  has_push :: bool
  has_pop :: bool
  has_peek :: bool
  children :: "ptr list"
  sched :: "ptr option"
  fixed_sched :: bool
  affinity :: int
  last_blocker :: endp
  last_niter :: size_t
  publicTag :: tag
  privateTag :: tag
  total_runtime :: uint64
  total_niter :: uint64
  total_ncall :: uint64
  total_bytes :: uint64
  total_jit_time :: uint64

text \<open>
  The constructor.  It does not set \<open>last_blocker\<close> and \<open>last_niter\<close>: they keep what the memory
  \<open>junk\<close> of the new object holds.
\<close>

definition new_rt_kernel :: "rt_kernel \<Rightarrow> uint32 \<Rightarrow> rt_kernel" where
  "new_rt_kernel junk i = \<lparr>workfn_code = None, rt_state = \<lparr>stk = None, niter = 0, cycles = 0\<rparr>, kstate = None,
     impl_ins = None, impl_outs = None, kid = i, base_work = None, work_fn = None, rt_ins = None,
     rt_outs = None, rt_ints = None, sched_ins = None, sched_outs = None, nins = 0, nouts = 0,
     nints = 0, opt_only = False, is_hier = False, is_stateful = True, is_fixed_rate = False,
     is_const_idx = False, has_push = False, has_pop = False, has_peek = False, children = [],
     sched = None, fixed_sched = False, affinity = 0, last_blocker = last_blocker junk,
     last_niter = last_niter junk, publicTag = new_tag (ucast i), privateTag = new_tag (ucast i),
     total_runtime = 0, total_niter = 0, total_ncall = 0, total_bytes = 0, total_jit_time = 0\<rparr>"

record heap = store +
  rtk :: "ptr \<Rightarrow> rt_kernel"
  rts :: "ptr \<Rightarrow> rt_stream"
  alive :: "ptr \<Rightarrow> bool"
  fresh :: ptr
  shm :: "uint32 \<Rightarrow> ptr option"

definition upd_hdr :: "ptr \<Rightarrow> (skir_stream_t \<Rightarrow> skir_stream_t) \<Rightarrow> heap \<Rightarrow> heap" where
  "upd_hdr s f h = h\<lparr>hdr := (hdr h)(s := f (hdr h s))\<rparr>"

definition upd_rts :: "ptr \<Rightarrow> (rt_stream \<Rightarrow> rt_stream) \<Rightarrow> heap \<Rightarrow> heap" where
  "upd_rts r f h = h\<lparr>rts := (rts h)(r := f (rts h r))\<rparr>"

definition upd_rtk :: "ptr \<Rightarrow> (rt_kernel \<Rightarrow> rt_kernel) \<Rightarrow> heap \<Rightarrow> heap" where
  "upd_rtk k f h = h\<lparr>rtk := (rtk h)(k := f (rtk h k))\<rparr>"

lemma upd_sel [simp]:
  "hdr (upd_hdr s f h) = (hdr h)(s := f (hdr h s))" "rts (upd_hdr s f h) = rts h" "rtk (upd_hdr s f h) = rtk h"
  "alive (upd_hdr s f h) = alive h" "shm (upd_hdr s f h) = shm h" "fresh (upd_hdr s f h) = fresh h" "mem (upd_hdr s f h) = mem h"
  "hdr (upd_rts r g h) = hdr h" "rts (upd_rts r g h) = (rts h)(r := g (rts h r))" "rtk (upd_rts r g h) = rtk h"
  "alive (upd_rts r g h) = alive h" "shm (upd_rts r g h) = shm h" "fresh (upd_rts r g h) = fresh h" "mem (upd_rts r g h) = mem h"
  "hdr (upd_rtk k f' h) = hdr h" "rts (upd_rtk k f' h) = rts h" "rtk (upd_rtk k f' h) = (rtk h)(k := f' (rtk h k))"
  "alive (upd_rtk k f' h) = alive h" "shm (upd_rtk k f' h) = shm h" "fresh (upd_rtk k f' h) = fresh h" "mem (upd_rtk k f' h) = mem h"
  by (simp_all add: upd_hdr_def upd_rts_def upd_rtk_def)

subsection \<open>Stream implementations\<close>

text \<open>
  \<open>malloc\<close> and a new shared object.  The memory of the first holds whatever it held; the pages
  of the second are zero.
\<close>

definition alloc_stream :: "byte list \<Rightarrow> heap \<Rightarrow> ptr \<times> heap" where
  "alloc_stream contents h =
     (let p = fresh h in
      (p, h\<lparr>alive := (alive h)(p := True), fresh := Suc p, mem := (mem h)(p := contents)\<rparr>))"

text \<open>
  \<open>new_skir_stream_t\<close>.  \<open>junk\<close> is the content of memory from \<open>malloc\<close>.  With
  \<open>NUM_STREAM_HEADERS\<close> at 0 the loop over headers runs once.  A stream of type \<open>SOCKET\<close> leaves
  the pointer uninitialised.
\<close>

definition init_header :: "ptr \<Rightarrow> rt_stream \<Rightarrow> ptr \<Rightarrow> skir_stream_t \<Rightarrow> skir_stream_t" where
  "init_header r q buf_ptr s0 =
     (let s = s0\<lparr>rs := Some r, outp := buf_ptr, inp := buf_ptr, buf := buf_ptr\<rparr> in
      if sid s \<noteq> 0 then s
      else s\<lparr>sid := 1, elem_size := rs_elem_size q, stride := 0, pop_rate := rs_pop_rate q,
             push_rate := rs_push_rate q, peek_rate := rs_peek_rate q, src := OpenEnd, dst := OpenEnd,
             head := 0, outp := buf_ptr, num_push := 0, next_tail := 0, tail := 0, inp := buf_ptr,
             next_head := 0\<rparr>)"

definition new_skir_stream_t :: "byte list \<Rightarrow> ptr \<Rightarrow> heap \<Rightarrow> (unit, ptr option \<times> heap) outcome" where
  "new_skir_stream_t junk r h =
     (let q = rts h r in
      if rs_type q = ERR then Done (None, h)
      else if rs_type q = NATIVE then
        (let (p, h) = alloc_stream junk h;
             h = upd_hdr p (\<lambda>s. s\<lparr>sid := 0\<rparr>) h in
         Done (Some p, upd_hdr p (init_header r q p) h))
      else if rs_type q = SHARED then
        (case shm h (rs_id q) of
           Some p \<Rightarrow> Done (Some p, upd_hdr p (init_header r q p) h)
         | None \<Rightarrow>
             (let (p, h) = alloc_stream (replicate STREAM_BUFFER_SIZE 0) h;
                  h = upd_hdr p (\<lambda>s. s\<lparr>sid := 0\<rparr>) (h\<lparr>shm := (shm h)(rs_id q := Some p)\<rparr>) in
              Done (Some p, upd_hdr p (init_header r q p) h)))
      else Fault)"

definition copy_skir_stream_t :: "byte list \<Rightarrow> ptr \<Rightarrow> heap \<Rightarrow> (unit, ptr option \<times> heap) outcome" where
  "copy_skir_stream_t junk s h =
     (case rs (hdr h s) of None \<Rightarrow> Fault | Some r \<Rightarrow> new_skir_stream_t junk r h)"

definition free_skir_stream_t :: "ptr \<Rightarrow> heap \<Rightarrow> (unit, heap) outcome" where
  "free_skir_stream_t s h =
     (let src_dead = (src (hdr h s) = DeadEnd); dst_dead = (dst (hdr h s) = DeadEnd) in
      assert_out (src_dead \<or> dst_dead)
        (if \<not> (src_dead \<and> dst_dead) then Done h
         else (case rs (hdr h s) of
           None \<Rightarrow> Fault
         | Some r \<Rightarrow>
             (let h = upd_rts r (\<lambda>r. r\<lparr>si := None\<rparr>) (upd_hdr s (\<lambda>s. s\<lparr>rs := None\<rparr>) h) in
              if rs_type (rts h r) = NATIVE then Done (h\<lparr>alive := (alive h)(s := False)\<rparr>)
              else if rs_type (rts h r) = SHARED then
                Done (h\<lparr>alive := (alive h)(s := False), shm := (shm h)(rs_id (rts h r) := None)\<rparr>)
              else Done h))))"

subsection \<open>The end of a kernel\<close>

text \<open>
  The two loops of \<open>SKIRRuntimeKernel::done\<close>: a kernel marks its end of every stream dead,
  counts the bytes pushed, and frees the stream if the other end is dead too.  \<open>r\<close> are the
  runtime streams, \<open>i\<close> the implementations.
\<close>

definition done_stream :: "(skir_stream_t \<Rightarrow> skir_stream_t) \<Rightarrow> ptr \<Rightarrow> ptr list option \<Rightarrow> nat \<Rightarrow> ptr option \<Rightarrow>
    heap \<Rightarrow> (unit, heap) outcome" where
  "done_stream mark k r i s h =
     (case s of None \<Rightarrow> Done h
      | Some s \<Rightarrow>
         (case rs (hdr h s) of None \<Rightarrow> Fault
          | Some q \<Rightarrow>
             assert_out ((case r of None \<Rightarrow> False | Some r \<Rightarrow> i < length r \<and> q = r ! i) \<or> rs_type (rts h q) = SHARED)
               (let h = upd_hdr s mark h;
                    h = upd_rtk k (\<lambda>k. k\<lparr>total_bytes := total_bytes k + num_push (hdr h s) * ucast (elem_size (hdr h s))\<rparr>) h in
                free_skir_stream_t s h)))"

fun done_streams :: "(skir_stream_t \<Rightarrow> skir_stream_t) \<Rightarrow> ptr \<Rightarrow> ptr list option \<Rightarrow> nat \<Rightarrow> ptr option list \<Rightarrow>
    heap \<Rightarrow> (unit, heap) outcome" where
  "done_streams mark k r i [] h = Done h"
| "done_streams mark k r i (s # ss) h =
     bind_out (done_stream mark k r i s h) (done_streams mark k r (Suc i) ss)"

definition kernel_done_own :: "ptr \<Rightarrow> heap \<Rightarrow> (unit, heap) outcome" where
  "kernel_done_own k h =
     (let K = rtk h k;
          ins = (case impl_ins K of None \<Rightarrow> [] | Some i \<Rightarrow> take (nins K) i);
          outs = (case impl_outs K of None \<Rightarrow> [] | Some i \<Rightarrow> take (nouts K) i);
          h = upd_rtk k (\<lambda>K. K\<lparr>impl_ins := None, impl_outs := None\<rparr>) h in
      bind_out (done_streams (\<lambda>s. s\<lparr>dst := DeadEnd\<rparr>) k (rt_ins K) 0 ins h)
        (done_streams (\<lambda>s. s\<lparr>src := DeadEnd\<rparr>) k (rt_outs K) 0 outs))"

text \<open>The children first.  The recursion follows the tree of kernels; \<open>None\<close>: the fuel ran out.\<close>

fun kernel_done :: "nat \<Rightarrow> ptr \<Rightarrow> heap \<Rightarrow> (unit, heap) outcome option"
  and kernels_done :: "nat \<Rightarrow> ptr list \<Rightarrow> heap \<Rightarrow> (unit, heap) outcome option" where
  "kernel_done 0 k h = None"
| "kernel_done (Suc n) k h =
     (case kernels_done n (children (rtk h k)) h of
        None \<Rightarrow> None
      | Some (Done h) \<Rightarrow> Some (kernel_done_own k h)
      | Some r \<Rightarrow> Some r)"
| "kernels_done n [] h = Some (Done h)"
| "kernels_done n (c # cs) h =
     (case kernel_done n c h of
        None \<Rightarrow> None
      | Some (Done h) \<Rightarrow> kernels_done n cs h
      | Some r \<Rightarrow> Some r)"

subsection \<open>A new stream is empty\<close>

lemma new_native:
  assumes "rs_type (rts h r) = NATIVE"
  shows "\<exists>h'. new_skir_stream_t junk r h = Done (Some (fresh h), h') \<and> alive h' (fresh h) \<and>
    hdr h' = (hdr h)(fresh h := init_header r (rts h r) (fresh h) ((hdr h (fresh h))\<lparr>sid := 0\<rparr>)) \<and>
    mem h' = (mem h)(fresh h := junk) \<and> fresh h' = Suc (fresh h) \<and> rts h' = rts h \<and> rtk h' = rtk h"
  using assms
  by (simp add: new_skir_stream_t_def alloc_stream_def Let_def NATIVE_def ERR_def)

lemma new_native_ring:
  assumes "rs_type (rts h r) = NATIVE" and "length junk = STREAM_BUFFER_SIZE"
    and "rs_elem_size (rts h r) = of_nat E" and "0 < E" and "E dvd STREAM_BUFFER_SIZE"
  shows "\<exists>s h'. new_skir_stream_t junk r h = Done (Some s, h') \<and> alive h' s \<and> s = fresh h \<and>
    ring_ok E STREAM_BUFFER_SIZE (store.truncate h') s \<and> ring_items E STREAM_BUFFER_SIZE (store.truncate h') s = [] \<and>
    elem_size (hdr h' s) = of_nat E \<and> src (hdr h' s) = OpenEnd \<and> dst (hdr h' s) = OpenEnd \<and> rs (hdr h' s) = Some r"
proof -
  obtain h' where h': "new_skir_stream_t junk r h = Done (Some (fresh h), h')" "alive h' (fresh h)"
    "hdr h' = (hdr h)(fresh h := init_header r (rts h r) (fresh h) ((hdr h (fresh h))\<lparr>sid := 0\<rparr>))"
    "mem h' = (mem h)(fresh h := junk)"
    using new_native [OF assms(1)] by blast
  have "ring_size E STREAM_BUFFER_SIZE"
    using assms(4,5) by (simp add: ring_size_def STREAM_BUFFER_SIZE_def)
  then have "ring_ok E STREAM_BUFFER_SIZE (store.truncate h') (fresh h)"
    using h'(3,4) assms(2)
    by (simp add: ring_ok_def store.defs init_header_def STREAM_BUFFER_SIZE_def)
  moreover have "ring_items E STREAM_BUFFER_SIZE (store.truncate h') (fresh h) = []"
    by (simp add: ring_items_def ring_count_def ring_dist_def store.defs h'(3) init_header_def)
  ultimately show ?thesis using h' assms(3) by (simp add: init_header_def)
qed

subsection \<open>When a stream is freed\<close>

lemma free_alive: "free_skir_stream_t s h = Done h' \<Longrightarrow> t \<noteq> s \<Longrightarrow> alive h' t = alive h t"
  by (auto simp: free_skir_stream_t_def Let_def assert_out_def split: if_splits option.splits)

text \<open>One end of a stream dies while the other is still in use: nothing is freed.\<close>

lemma done_one_end:
  assumes "rs (hdr h s) = Some q" "i < length r" "r ! i = q"
    and "(src (mark (hdr h s)) = DeadEnd) \<noteq> (dst (mark (hdr h s)) = DeadEnd)"
    and "rs (mark (hdr h s)) = rs (hdr h s)"
  shows "\<exists>h'. done_stream mark k (Some r) i (Some s) h = Done h' \<and> alive h' = alive h \<and>
    hdr h' = (hdr h)(s := mark (hdr h s)) \<and> rts h' = rts h"
proof -
  from assms(4) consider "src (mark (hdr h s)) = DeadEnd" "dst (mark (hdr h s)) \<noteq> DeadEnd"
    | "src (mark (hdr h s)) \<noteq> DeadEnd" "dst (mark (hdr h s)) = DeadEnd" by blast
  then show ?thesis
    using assms(1,2,3,5)
    by cases (simp_all add: done_stream_def free_skir_stream_t_def Let_def)
qed

lemma done_other_end:
  assumes "rs (hdr h s) = Some q" "i < length r" "r ! i = q" "rs_type (rts h q) = NATIVE"
    and "src (mark (hdr h s)) = DeadEnd" "dst (mark (hdr h s)) = DeadEnd" "rs (mark (hdr h s)) = Some q"
  shows "\<exists>h'. done_stream mark k (Some r) i (Some s) h = Done h' \<and> alive h' = (alive h)(s := False) \<and>
    si (rts h' q) = None \<and> rs (hdr h' s) = None"
  using assms
  by (simp add: done_stream_def free_skir_stream_t_def Let_def NATIVE_def)


lemma done_both_ends:
  assumes "rs (hdr h s) = Some q" "i < length r" "r ! i = q" "j < length r'" "r' ! j = q"
    and "rs_type (rts h q) = NATIVE" "src (hdr h s) \<noteq> DeadEnd" "dst (hdr h s) \<noteq> DeadEnd"
    and "(m1, m2) = ((\<lambda>s. s\<lparr>dst := DeadEnd\<rparr>), (\<lambda>s. s\<lparr>src := DeadEnd\<rparr>)) \<or>
         (m1, m2) = ((\<lambda>s. s\<lparr>src := DeadEnd\<rparr>), (\<lambda>s. s\<lparr>dst := DeadEnd\<rparr>))"
  shows "\<exists>h1 h2. done_stream m1 k (Some r) i (Some s) h = Done h1 \<and> alive h1 = alive h \<and>
    done_stream m2 k' (Some r') j (Some s) h1 = Done h2 \<and> alive h2 = (alive h)(s := False) \<and>
    si (rts h2 q) = None \<and> rs (hdr h2 s) = None"
proof -
  have m1: "(src (m1 (hdr h s)) = DeadEnd) \<noteq> (dst (m1 (hdr h s)) = DeadEnd)" "rs (m1 (hdr h s)) = rs (hdr h s)"
    using assms(7-9) by auto
  from done_one_end [OF assms(1-3), where mark = m1 and k = k, OF m1]
  obtain h1 where h1: "done_stream m1 k (Some r) i (Some s) h = Done h1" "alive h1 = alive h"
    "hdr h1 = (hdr h)(s := m1 (hdr h s))" "rts h1 = rts h" by blast
  have "rs (hdr h1 s) = Some q" "src (m2 (hdr h1 s)) = DeadEnd" "dst (m2 (hdr h1 s)) = DeadEnd"
    "rs (m2 (hdr h1 s)) = Some q"
    using assms(1,9) h1(3) by auto
  with done_other_end [of h1 s q j r' m2 k'] assms(4-6) h1
  obtain h2 where "done_stream m2 k' (Some r') j (Some s) h1 = Done h2" "alive h2 = (alive h1)(s := False)"
    "si (rts h2 q) = None" "rs (hdr h2 s) = None" by auto
  then show ?thesis using h1 by auto
qed

subsection \<open>The end of a kernel happens once\<close>

lemma free_rtk: "free_skir_stream_t s h = Done h' \<Longrightarrow> rtk h' = rtk h"
  by (auto simp: free_skir_stream_t_def Let_def assert_out_def split: if_splits option.splits)

definition same_but_bytes :: "ptr \<Rightarrow> heap \<Rightarrow> heap \<Rightarrow> bool" where
  "same_but_bytes k h h' \<longleftrightarrow> (\<exists>b. rtk h' = (rtk h)(k := (rtk h k)\<lparr>total_bytes := b\<rparr>))"

lemma same_but_bytes_refl: "same_but_bytes k h h"
  unfolding same_but_bytes_def by (intro exI [of _ "total_bytes (rtk h k)"]) (simp add: fun_upd_idem)

lemma done_stream_rtk: "done_stream m k r i s h = Done h' \<Longrightarrow> same_but_bytes k h h'"
  unfolding done_stream_def same_but_bytes_def
  by (auto simp: Let_def assert_out_def dest!: free_rtk split: if_splits option.splits
      intro: exI [of _ "total_bytes (rtk h k)"] simp: fun_upd_idem)

lemma done_streams_rtk: "done_streams m k r i ss h = Done h' \<Longrightarrow> same_but_bytes k h h'"
proof (induction ss arbitrary: i h)
  case Nil then show ?case using same_but_bytes_refl by simp
next
  case (Cons s ss)
  then obtain g where "done_stream m k r i s h = Done g" "done_streams m k r (Suc i) ss g = Done h'"
    by (auto elim: bind_out_DoneE)
  then have "same_but_bytes k h g" "same_but_bytes k g h'" using Cons.IH done_stream_rtk by blast+
  then show ?case by (auto simp: same_but_bytes_def)
qed

lemma kernel_done_own_rtk:
  assumes "kernel_done_own k h = Done h'"
  shows "\<exists>b. rtk h' = (rtk h)(k := (rtk h k)\<lparr>impl_ins := None, impl_outs := None, total_bytes := b\<rparr>)"
proof -
  define g where "g = upd_rtk k (\<lambda>K. K\<lparr>impl_ins := None, impl_outs := None\<rparr>) h"
  obtain f where "same_but_bytes k g f" "same_but_bytes k f h'"
    using assms unfolding kernel_done_own_def Let_def g_def
    by (elim bind_out_DoneE) (blast dest: done_streams_rtk)
  then show ?thesis by (auto simp: same_but_bytes_def g_def)
qed

lemma kernel_done_own_again:
  assumes "kernel_done_own k h = Done h'"
  shows "kernel_done_own k h' = Done h'"
proof -
  have "impl_ins (rtk h' k) = None" "impl_outs (rtk h' k) = None"
    using kernel_done_own_rtk [OF assms] by auto
  moreover then have "upd_rtk k (\<lambda>K. K\<lparr>impl_ins := None, impl_outs := None\<rparr>) h' = h'"
    by (simp add: upd_rtk_def fun_upd_idem)
  ultimately show ?thesis by (simp add: kernel_done_own_def Let_def)
qed

subsection \<open>The recursion over the children ends\<close>

lemma kernel_done_children:
  "kernel_done n k h = Some (Done h') \<Longrightarrow> (\<forall>j. children (rtk h' j) = children (rtk h j))"
  "kernels_done n ks h = Some (Done h') \<Longrightarrow> (\<forall>j. children (rtk h' j) = children (rtk h j))"
proof (induction n k h and n ks h arbitrary: h' and h' rule: kernel_done_kernels_done.induct)
  case (2 n k h)
  then obtain g where g: "kernels_done n (children (rtk h k)) h = Some (Done g)" "kernel_done_own k g = Done h'"
    by (auto split: option.splits outcome.splits)
  then show ?case using 2(1) kernel_done_own_rtk [OF g(2)] by fastforce
next
  case (4 n c cs h)
  then obtain g where "kernel_done n c h = Some (Done g)" "kernels_done n cs g = Some (Done h')"
    by (auto split: option.splits outcome.splits)
  then show ?case using 4 by simp
qed simp_all

lemma kernel_done_total:
  assumes "\<And>k c. c \<in> set (children (rtk h k)) \<Longrightarrow> rank c < (rank k :: nat)"
  shows "rank k < n \<Longrightarrow> kernel_done n k h \<noteq> None"
  using assms
proof (induction n arbitrary: k h)
  case (Suc n)
  have "kernels_done n cs h \<noteq> None" if "\<forall>c\<in>set cs. rank c < n" for cs
    using that Suc.prems(2)
  proof (induction cs arbitrary: h)
    case (Cons c cs)
    then have "kernel_done n c h \<noteq> None" using Suc.IH by simp
    then obtain r where r: "kernel_done n c h = Some r" by blast
    show ?case
    proof (cases r)
      case (Done g)
      then have ch: "\<forall>j. children (rtk g j) = children (rtk h j)" using r kernel_done_children by blast
      have "kernels_done n cs g \<noteq> None" by (rule Cons.IH) (use Cons.prems ch in auto)
      then show ?thesis using r Done by simp
    qed (use r in simp_all)
  qed simp
  moreover have "\<forall>c\<in>set (children (rtk h k)). rank c < n" using Suc.prems by (meson less_trans_Suc linorder_not_less not_less_eq order_less_le_trans)
  ultimately show ?case by (auto split: option.splits outcome.splits)
qed simp

subsection \<open>What the end of a kernel leaves\<close>

text \<open>The kernels that end with \<open>k\<close>: itself, its children, their children.\<close>

inductive in_tree :: "heap \<Rightarrow> ptr \<Rightarrow> ptr \<Rightarrow> bool" for h where
  tree_refl: "in_tree h k k"
| tree_child: "c \<in> set (children (rtk h k)) \<Longrightarrow> in_tree h c j \<Longrightarrow> in_tree h k j"

lemma tree_cong: "(\<And>j. children (rtk h' j) = children (rtk h j)) \<Longrightarrow> in_tree h' k j = in_tree h k j"
proof -
  have "in_tree g k j \<Longrightarrow> in_tree g' k j" if "\<And>j. children (rtk g' j) = children (rtk g j)" for g g'
    by (induction rule: in_tree.induct) (auto intro: in_tree.intros simp: that)
  then show "(\<And>j. children (rtk h' j) = children (rtk h j)) \<Longrightarrow> in_tree h' k j = in_tree h k j" by metis
qed

definition open_ins :: "heap \<Rightarrow> ptr \<Rightarrow> ptr set" where
  "open_ins h k = {s. \<exists>i. impl_ins (rtk h k) = Some i \<and> Some s \<in> set (take (nins (rtk h k)) i)}"

definition open_outs :: "heap \<Rightarrow> ptr \<Rightarrow> ptr set" where
  "open_outs h k = {s. \<exists>i. impl_outs (rtk h k) = Some i \<and> Some s \<in> set (take (nouts (rtk h k)) i)}"

text \<open>Ends stay dead.\<close>

definition dies :: "heap \<Rightarrow> heap \<Rightarrow> bool" where
  "dies h h' \<longleftrightarrow> (\<forall>s. (dst (hdr h s) = DeadEnd \<longrightarrow> dst (hdr h' s) = DeadEnd) \<and>
     (src (hdr h s) = DeadEnd \<longrightarrow> src (hdr h' s) = DeadEnd))"

lemma dies_refl: "dies h h" and dies_trans: "dies h g \<Longrightarrow> dies g h' \<Longrightarrow> dies h h'"
  by (auto simp: dies_def)

lemma dies_upd: "dies (upd_rtk k f h) h'= dies h h'"
  by (simp add: dies_def)

lemma free_ends: "free_skir_stream_t s h = Done h' \<Longrightarrow> \<forall>j. dst (hdr h' j) = dst (hdr h j) \<and> src (hdr h' j) = src (hdr h j)"
  by (auto simp: free_skir_stream_t_def Let_def assert_out_def split: if_splits option.splits)

definition marks :: "(skir_stream_t \<Rightarrow> skir_stream_t) \<Rightarrow> (skir_stream_t \<Rightarrow> endp) \<Rightarrow> bool" where
  "marks m e \<longleftrightarrow> (\<forall>s. e (m s) = DeadEnd \<and> (dst s = DeadEnd \<longrightarrow> dst (m s) = DeadEnd) \<and> (src s = DeadEnd \<longrightarrow> src (m s) = DeadEnd))
     \<and> (e = dst \<or> e = src)"

lemma marks_ends: "marks (\<lambda>s. s\<lparr>dst := DeadEnd\<rparr>) dst" "marks (\<lambda>s. s\<lparr>src := DeadEnd\<rparr>) src"
  by (simp_all add: marks_def)

lemma done_stream_dies:
  assumes "done_stream m k r i s h = Done h'" and "marks m e"
  shows "dies h h' \<and> (\<forall>q. s = Some q \<longrightarrow> e (hdr h' q) = DeadEnd)"
  using assms unfolding done_stream_def marks_def dies_def
  by (auto simp: Let_def assert_out_def dest!: free_ends split: if_splits option.splits)

lemma done_streams_dies:
  "done_streams m k r i ss h = Done h' \<Longrightarrow> marks m e \<Longrightarrow> dies h h' \<and> (\<forall>q. Some q \<in> set ss \<longrightarrow> e (hdr h' q) = DeadEnd)"
proof (induction ss arbitrary: i h)
  case Nil then show ?case by (simp add: dies_refl)
next
  case (Cons s ss)
  then obtain g where g: "done_stream m k r i s h = Done g" "done_streams m k r (Suc i) ss g = Done h'"
    by (auto elim: bind_out_DoneE)
  note a = done_stream_dies [OF g(1) Cons.prems(2)] and b = Cons.IH [OF g(2) Cons.prems(2)]
  have "e = dst \<or> e = src" using Cons.prems(2) by (simp add: marks_def)
  then have "e (hdr h' q) = DeadEnd" if "e (hdr g q) = DeadEnd" for q using b that unfolding dies_def by auto
  then show ?case using a b dies_trans by auto
qed

text \<open>
  A kernel that is connected to its streams closes them without a failed assertion.  A stream that is not
  yet dead at its other end keeps its runtime stream.
\<close>

definition opened :: "ptr list option \<Rightarrow> nat \<Rightarrow> ptr list \<Rightarrow> heap \<Rightarrow> bool" where
  "opened r i ss h \<longleftrightarrow> distinct ss \<and>
     (\<exists>qs. r = Some qs \<and> i + length ss \<le> length qs \<and> (\<forall>j < length ss. rs (hdr h (ss ! j)) = Some (qs ! (i + j))))"

lemma opened_Cons: "opened r i (s # ss) h \<Longrightarrow> opened r (Suc i) ss h"
  unfolding opened_def by force

lemma free_done:
  assumes "rs (hdr h s) = Some q" and "src (hdr h s) = DeadEnd \<or> dst (hdr h s) = DeadEnd"
  shows "\<exists>h'. free_skir_stream_t s h = Done h' \<and> (\<forall>j. j \<noteq> s \<longrightarrow> hdr h' j = hdr h j) \<and>
    dst (hdr h' s) = dst (hdr h s) \<and> src (hdr h' s) = src (hdr h s) \<and>
    (src (hdr h s) = DeadEnd \<and> dst (hdr h s) = DeadEnd \<or> hdr h' s = hdr h s)"
  using assms by (auto simp: free_skir_stream_t_def Let_def assert_out_def)

lemma done_streams_opened:
  assumes m: "marks m e" "\<And>s. rs (m s) = rs s"
  shows "opened r i ss h \<Longrightarrow> \<exists>h'. done_streams m k r i (map Some ss) h = Done h' \<and>
    (\<forall>s. s \<notin> set ss \<longrightarrow> hdr h' s = hdr h s) \<and>
    (\<forall>s\<in>set ss. dst (hdr h' s) = dst (m (hdr h s)) \<and> src (hdr h' s) = src (m (hdr h s)) \<and>
       (src (m (hdr h s)) = DeadEnd \<and> dst (m (hdr h s)) = DeadEnd \<or> hdr h' s = m (hdr h s)))"
proof (induction ss arbitrary: i h)
  case (Cons s ss)
  from Cons.prems obtain qs where q: "r = Some qs" "i < length qs" "rs (hdr h s) = Some (qs ! i)" "s \<notin> set ss" "opened r (Suc i) ss h"
    using opened_Cons [OF Cons.prems] unfolding opened_def by force
  define g where "g = upd_rtk k (\<lambda>k. k\<lparr>total_bytes := total_bytes k + num_push (hdr (upd_hdr s m h) s) * ucast (elem_size (hdr (upd_hdr s m h) s))\<rparr>)
    (upd_hdr s m h)"
  have hg: "hdr g = (hdr h)(s := m (hdr h s))" by (simp add: g_def)
  have "rs (hdr g s) = Some (qs ! i)" "src (hdr g s) = DeadEnd \<or> dst (hdr g s) = DeadEnd"
    using q(3) m by (auto simp: hg marks_def)
  from free_done [OF this] obtain f where f: "free_skir_stream_t s g = Done f" "\<forall>j. j \<noteq> s \<longrightarrow> hdr f j = hdr g j"
    "dst (hdr f s) = dst (hdr g s)" "src (hdr f s) = src (hdr g s)"
    "src (hdr g s) = DeadEnd \<and> dst (hdr g s) = DeadEnd \<or> hdr f s = hdr g s" by blast
  have d: "done_stream m k r i (Some s) h = Done f"
    using q(1-3) f(1) by (simp add: done_stream_def assert_out_def Let_def g_def)
  have same: "hdr f j = hdr h j" if "j \<noteq> s" for j using f(2) hg that by simp
  have "opened r (Suc i) ss f"
    using q(4,5) same unfolding opened_def by (metis nth_mem)
  from Cons.IH [OF this] obtain h' where h': "done_streams m k r (Suc i) (map Some ss) f = Done h'"
    "\<forall>s. s \<notin> set ss \<longrightarrow> hdr h' s = hdr f s"
    "\<forall>s\<in>set ss. dst (hdr h' s) = dst (m (hdr f s)) \<and> src (hdr h' s) = src (m (hdr f s)) \<and>
       (src (m (hdr f s)) = DeadEnd \<and> dst (m (hdr f s)) = DeadEnd \<or> hdr h' s = m (hdr f s))" by blast
  have "hdr h' s = hdr f s" using h'(2) q(4) by blast
  moreover have "\<forall>j\<in>set ss. hdr f j = hdr h j" using same q(4) by metis
  ultimately show ?case using d h' f(3-5) hg same by (intro exI [of _ h']) auto
qed simp

lemma kernel_done_own_opened:
  assumes K: "impl_ins (rtk h k) = Some (map Some ss @ [None])" "impl_outs (rtk h k) = Some (map Some ts @ [None])"
    "nins (rtk h k) = length ss" "nouts (rtk h k) = length ts"
    and o: "opened (rt_ins (rtk h k)) 0 ss h" "opened (rt_outs (rtk h k)) 0 ts h"
    and a: "\<forall>s\<in>set ts. src (hdr h s) \<noteq> DeadEnd"
  shows "\<exists>h'. kernel_done_own k h = Done h' \<and>
    (\<forall>s. dst (hdr h' s) = (if s \<in> set ss then DeadEnd else dst (hdr h s)) \<and>
         src (hdr h' s) = (if s \<in> set ts then DeadEnd else src (hdr h s)))"
proof -
  define g where "g = upd_rtk k (\<lambda>K. K\<lparr>impl_ins := None, impl_outs := None\<rparr>) h"
  have hg: "hdr g = hdr h" by (simp add: g_def)
  have "opened (rt_ins (rtk h k)) 0 ss g" using o(1) by (simp add: opened_def hg)
  from done_streams_opened [OF marks_ends(1) _ this, of k] obtain f where
    f: "done_streams (\<lambda>s. s\<lparr>dst := DeadEnd\<rparr>) k (rt_ins (rtk h k)) 0 (map Some ss) g = Done f"
      "\<forall>s. s \<notin> set ss \<longrightarrow> hdr f s = hdr h s"
      "\<forall>s\<in>set ss. dst (hdr f s) = DeadEnd \<and> src (hdr f s) = src (hdr h s) \<and> (src (hdr h s) = DeadEnd \<or> hdr f s = hdr h s\<lparr>dst := DeadEnd\<rparr>)"
    by (auto simp: hg)
  have "rs (hdr f s) = rs (hdr h s)" if "s \<in> set ts" for s
    using f(2,3) a that by (cases "s \<in> set ss") fastforce+
  then have "opened (rt_outs (rtk h k)) 0 ts f" using o(2) by (auto simp: opened_def)
  from done_streams_opened [OF marks_ends(2) _ this, of k] obtain h' where
    h': "done_streams (\<lambda>s. s\<lparr>src := DeadEnd\<rparr>) k (rt_outs (rtk h k)) 0 (map Some ts) f = Done h'"
      "\<forall>s. s \<notin> set ts \<longrightarrow> hdr h' s = hdr f s"
      "\<forall>s\<in>set ts. dst (hdr h' s) = dst (hdr f s) \<and> src (hdr h' s) = DeadEnd" by auto
  have "kernel_done_own k h = Done h'" using K f(1) h'(1) by (simp add: kernel_done_own_def Let_def g_def)
  moreover have "dst (hdr h' s) = dst (hdr f s)" for s using h' by (cases "s \<in> set ts") auto
  moreover have "dst (hdr f s) = (if s \<in> set ss then DeadEnd else dst (hdr h s))" "src (hdr f s) = src (hdr h s)" for s using f by auto
  moreover have "src (hdr h' s) = (if s \<in> set ts then DeadEnd else src (hdr f s))" for s using h' by auto
  ultimately show ?thesis by auto
qed

lemma kernel_done_own_dies:
  assumes "kernel_done_own k h = Done h'"
  shows "dies h h'" "q \<in> open_ins h k \<Longrightarrow> dst (hdr h' q) = DeadEnd" "q \<in> open_outs h k \<Longrightarrow> src (hdr h' q) = DeadEnd"
proof -
  let ?ins = "case impl_ins (rtk h k) of None \<Rightarrow> [] | Some i \<Rightarrow> take (nins (rtk h k)) i"
  let ?outs = "case impl_outs (rtk h k) of None \<Rightarrow> [] | Some i \<Rightarrow> take (nouts (rtk h k)) i"
  obtain g where g: "done_streams (\<lambda>s. s\<lparr>dst := DeadEnd\<rparr>) k (rt_ins (rtk h k)) 0 ?ins
      (upd_rtk k (\<lambda>K. K\<lparr>impl_ins := None, impl_outs := None\<rparr>) h) = Done g"
    "done_streams (\<lambda>s. s\<lparr>src := DeadEnd\<rparr>) k (rt_outs (rtk h k)) 0 ?outs g = Done h'"
    using assms unfolding kernel_done_own_def Let_def by (elim bind_out_DoneE) blast
  note a = done_streams_dies [OF g(1) marks_ends(1), unfolded dies_upd] and b = done_streams_dies [OF g(2) marks_ends(2)]
  show "dies h h'" using a b dies_trans by blast
  show "dst (hdr h' q) = DeadEnd" if "q \<in> open_ins h k"
  proof -
    have "Some q \<in> set ?ins" using that by (auto simp: open_ins_def)
    then show ?thesis using a b by (auto simp: dies_def)
  qed
  show "src (hdr h' q) = DeadEnd" if "q \<in> open_outs h k"
  proof -
    have "Some q \<in> set ?outs" using that by (auto simp: open_outs_def)
    then show ?thesis using b by auto
  qed
qed

text \<open>A kernel is as before, or as before but without its streams.\<close>

definition closes :: "heap \<Rightarrow> heap \<Rightarrow> (ptr \<Rightarrow> bool) \<Rightarrow> bool" where
  "closes h h' P \<longleftrightarrow> dies h h' \<and> (\<forall>j. children (rtk h' j) = children (rtk h j)) \<and>
     (\<forall>j. if P j
       then impl_ins (rtk h' j) = None \<and> impl_outs (rtk h' j) = None \<and>
         (\<forall>q\<in>open_ins h j. dst (hdr h' q) = DeadEnd) \<and> (\<forall>q\<in>open_outs h j. src (hdr h' q) = DeadEnd)
       else rtk h' j = rtk h j)"

lemma closes_refl: "closes h h (\<lambda>_. False)"
  by (simp add: closes_def dies_refl)

lemma closes_cong: "closes h h' P \<Longrightarrow> (\<And>j. P j = Q j) \<Longrightarrow> closes h h' Q"
  by (simp add: closes_def)

lemma closes_trans:
  assumes "closes h g P" and "closes g h' Q"
  shows "closes h h' (\<lambda>j. P j \<or> Q j)"
proof -
  have d: "dies h g" "dies g h'" using assms by (simp_all add: closes_def)
  have o: "open_ins g j = open_ins h j" "open_outs g j = open_outs h j" if "\<not> P j" for j
    using assms(1) that by (simp_all add: closes_def open_ins_def open_outs_def)
  have "impl_ins (rtk h' j) = None \<and> impl_outs (rtk h' j) = None \<and>
      (\<forall>q\<in>open_ins h j. dst (hdr h' q) = DeadEnd) \<and> (\<forall>q\<in>open_outs h j. src (hdr h' q) = DeadEnd)"
    if "P j \<or> Q j" for j
  proof (cases "P j")
    case True
    then have "impl_ins (rtk g j) = None \<and> impl_outs (rtk g j) = None"
      "\<forall>q\<in>open_ins h j. dst (hdr g q) = DeadEnd" "\<forall>q\<in>open_outs h j. src (hdr g q) = DeadEnd"
      using assms(1) by (simp_all add: closes_def)
    moreover have "impl_ins (rtk h' j) = None \<and> impl_outs (rtk h' j) = None"
      using assms(2) calculation(1) by (cases "Q j") (simp_all add: closes_def)
    ultimately show ?thesis using d(2) by (simp add: dies_def)
  next
    case False
    then show ?thesis using that assms(2) o by (simp add: closes_def)
  qed
  moreover have "rtk h' j = rtk h j" if "\<not> (P j \<or> Q j)" for j using that assms by (simp add: closes_def)
  ultimately show ?thesis using assms dies_trans [OF d] by (simp add: closes_def)
qed

lemma kernel_done_own_closes: "kernel_done_own k h = Done h' \<Longrightarrow> closes h h' (\<lambda>j. j = k)"
  using kernel_done_own_dies [of k h h'] kernel_done_own_rtk [of k h h'] by (auto simp: closes_def)

lemma kernel_done_closes:
  "kernel_done n k h = Some (Done h') \<Longrightarrow> closes h h' (in_tree h k)"
  "kernels_done n ks h = Some (Done h') \<Longrightarrow> closes h h' (\<lambda>j. \<exists>c\<in>set ks. in_tree h c j)"
proof (induction n k h and n ks h arbitrary: h' and h' rule: kernel_done_kernels_done.induct)
  case (2 n k h)
  then obtain g where g: "kernels_done n (children (rtk h k)) h = Some (Done g)" "kernel_done_own k g = Done h'"
    by (auto split: option.splits outcome.splits)
  have "closes h h' (\<lambda>j. (\<exists>c\<in>set (children (rtk h k)). in_tree h c j) \<or> j = k)"
    using closes_trans [OF 2(1) [OF g(1)] kernel_done_own_closes [OF g(2)]] .
  then show ?case by (rule closes_cong) (auto elim: in_tree.cases intro: in_tree.intros)
next
  case (3 n h)
  then show ?case using closes_refl by simp
next
  case (4 n c cs h)
  then obtain g where g: "kernel_done n c h = Some (Done g)" "kernels_done n cs g = Some (Done h')"
    by (auto split: option.splits outcome.splits)
  have a: "closes h g (in_tree h c)" and b: "closes g h' (\<lambda>j. \<exists>c\<in>set cs. in_tree g c j)"
    using 4 g by simp_all
  have "in_tree g x j = in_tree h x j" for x j using a by (intro tree_cong) (simp add: closes_def)
  then show ?case using closes_trans [OF a b] by (rule_tac closes_cong) auto
qed simp_all

lemma kernel_done_again:
  "(\<forall>j. in_tree h k j \<longrightarrow> impl_ins (rtk h j) = None \<and> impl_outs (rtk h j) = None) \<Longrightarrow> kernel_done n k h \<noteq> None \<Longrightarrow>
    kernel_done n k h = Some (Done h)"
  "(\<forall>c\<in>set ks. \<forall>j. in_tree h c j \<longrightarrow> impl_ins (rtk h j) = None \<and> impl_outs (rtk h j) = None) \<Longrightarrow> kernels_done n ks h \<noteq> None \<Longrightarrow>
    kernels_done n ks h = Some (Done h)"
proof (induction n k h and n ks h rule: kernel_done_kernels_done.induct)
  case (2 n k h)
  have "kernels_done n (children (rtk h k)) h = Some (Done h)"
    using 2 tree_child by (auto split: option.splits)
  moreover have "kernel_done_own k h = Done h"
    using 2(2) tree_refl [of h k] by (simp add: kernel_done_own_def upd_rtk_def fun_upd_idem Let_def)
  ultimately show ?case by simp
next
  case (4 n c cs h)
  then have "kernel_done n c h = Some (Done h)" by (auto split: option.splits)
  with 4 show ?case by simp
qed simp_all

subsection \<open>The properties\<close>

text \<open>
  A new stream of the process is allocated and is an empty ring of elements: it satisfies
  the invariant of the stream operations whenever its element size divides the buffer, holds no
  elements, and is connected to no kernel yet.
\<close>

theorem native_stream_starts_empty:
  assumes "rs_type (rts h r) = NATIVE" and "length junk = STREAM_BUFFER_SIZE"
    and "rs_elem_size (rts h r) = of_nat E" and "0 < E" and "E dvd STREAM_BUFFER_SIZE"
  shows "\<exists>s h'. new_skir_stream_t junk r h = Done (Some s, h') \<and> alive h' s \<and> s = fresh h \<and>
    ring_ok E STREAM_BUFFER_SIZE (store.truncate h') s \<and> ring_items E STREAM_BUFFER_SIZE (store.truncate h') s = [] \<and>
    elem_size (hdr h' s) = of_nat E \<and> src (hdr h' s) = OpenEnd \<and> dst (hdr h' s) = OpenEnd \<and> rs (hdr h' s) = Some r"
  by (rule new_native_ring [OF assms])

definition sample_heap :: heap where
  "sample_heap = \<lparr>hdr = sample_stream 4, mem = (\<lambda>_. []), flat = (\<lambda>_. 0),
     rtk = (\<lambda>k. (new_rt_kernel undefined 1)\<lparr>children := (if k = 1 then [2, 3] else [])\<rparr>),
     rts = (\<lambda>q. (new_rt_stream 7)\<lparr>rs_type := NATIVE, rs_elem_size := 4\<rparr>),
     alive = (\<lambda>_. False), fresh = 100, shm = (\<lambda>_. None)\<rparr>"

theorem native_stream_starts_empty_witness:
  "\<exists>s h'. new_skir_stream_t (replicate 32768 0) 7 sample_heap = Done (Some s, h') \<and>
     ring_items 4 STREAM_BUFFER_SIZE (store.truncate h') s = []"
  using native_stream_starts_empty [of sample_heap 7 "replicate 32768 0" 4]
  by (fastforce simp: sample_heap_def STREAM_BUFFER_SIZE_def new_rt_stream_def)

text \<open>
  C23. A stream is freed exactly when the second of its two ends is done, whichever end that is:
  after the first, nothing is freed; after the second, this stream and no other one is, and the
  runtime stream no longer refers to it.
\<close>

theorem stream_freed_by_second_end:
  assumes "rs (hdr h s) = Some q" "i < length r" "r ! i = q" "j < length r'" "r' ! j = q"
    and "rs_type (rts h q) = NATIVE" "src (hdr h s) \<noteq> DeadEnd" "dst (hdr h s) \<noteq> DeadEnd"
    and "(m1, m2) = ((\<lambda>s. s\<lparr>dst := DeadEnd\<rparr>), (\<lambda>s. s\<lparr>src := DeadEnd\<rparr>)) \<or>
         (m1, m2) = ((\<lambda>s. s\<lparr>src := DeadEnd\<rparr>), (\<lambda>s. s\<lparr>dst := DeadEnd\<rparr>))"
  shows "\<exists>h1 h2. done_stream m1 k (Some r) i (Some s) h = Done h1 \<and> alive h1 = alive h \<and>
    done_stream m2 k' (Some r') j (Some s) h1 = Done h2 \<and> alive h2 = (alive h)(s := False) \<and>
    si (rts h2 q) = None \<and> rs (hdr h2 s) = None"
  by (rule done_both_ends [OF assms])

theorem stream_freed_by_second_end_witness:
  "\<exists>h1 h2. done_stream (\<lambda>s. s\<lparr>src := DeadEnd\<rparr>) 2 (Some [7]) 0 (Some 50)
        (upd_hdr 50 (\<lambda>s. s\<lparr>rs := Some 7\<rparr>) (sample_heap\<lparr>alive := (\<lambda>_. True)\<rparr>)) = Done h1 \<and> alive h1 50 \<and>
     done_stream (\<lambda>s. s\<lparr>dst := DeadEnd\<rparr>) 3 (Some [7]) 0 (Some 50) h1 = Done h2 \<and> \<not> alive h2 50 \<and> alive h2 51"
proof -
  define h where "h = upd_hdr 50 (\<lambda>s. s\<lparr>rs := Some 7\<rparr>) (sample_heap\<lparr>alive := (\<lambda>_. True)\<rparr>)"
  have "rs (hdr h 50) = Some 7" "rs_type (rts h 7) = NATIVE" "src (hdr h 50) \<noteq> DeadEnd" "dst (hdr h 50) \<noteq> DeadEnd"
    "alive h = (\<lambda>_. True)"
    by (simp_all add: h_def sample_heap_def sample_stream_def)
  with stream_freed_by_second_end [of h 50 7 0 "[7]" 0 "[7]" "\<lambda>s. s\<lparr>src := DeadEnd\<rparr>" "\<lambda>s. s\<lparr>dst := DeadEnd\<rparr>" 2 3]
  show ?thesis unfolding h_def [symmetric] by auto
qed

text \<open>
  C24. Ending a kernel whose tree of children is finite comes back, with fuel one more than the height of the tree.  If no
  assertion of a stream fails, every kernel of the tree has given up its streams, the input end of each input and
  the output end of each output they had is dead, every kernel outside the tree is as before, and
  ending the kernel with its children a second time changes nothing at all.
\<close>

theorem kernel_done_ends:
  assumes "\<And>k c. c \<in> set (children (rtk h k)) \<Longrightarrow> rank c < (rank k :: nat)"
  shows "\<exists>r. kernel_done (Suc (rank k)) k h = Some r \<and>
    (case r of
       Done h' \<Rightarrow>
         (\<forall>j. if in_tree h k j
            then impl_ins (rtk h' j) = None \<and> impl_outs (rtk h' j) = None \<and>
              (\<forall>q\<in>open_ins h j. dst (hdr h' q) = DeadEnd) \<and> (\<forall>q\<in>open_outs h j. src (hdr h' q) = DeadEnd)
            else rtk h' j = rtk h j) \<and>
         kernel_done (Suc (rank k)) k h' = Some (Done h')
     | _ \<Rightarrow> True)"
proof -
  obtain r where r: "kernel_done (Suc (rank k)) k h = Some r"
    using kernel_done_total [of h rank k "Suc (rank k)", OF assms] by auto
  have "kernel_done (Suc (rank k)) k h' = Some (Done h')" and "closes h h' (in_tree h k)" if "r = Done h'" for h'
  proof -
    show c: "closes h h' (in_tree h k)" using kernel_done_closes(1) [of "Suc (rank k)" k h h'] r that by (simp only:)
    then have ch: "children (rtk h' j) = children (rtk h j)" for j by (simp add: closes_def)
    then have b: "in_tree h' k j = in_tree h k j" for j by (rule tree_cong)
    have "kernel_done (Suc (rank k)) k h' \<noteq> None"
      by (rule kernel_done_total [of h' rank]) (use assms ch in auto)
    moreover have "\<forall>j. in_tree h' k j \<longrightarrow> impl_ins (rtk h' j) = None \<and> impl_outs (rtk h' j) = None"
      using c unfolding b closes_def by simp
    ultimately show "kernel_done (Suc (rank k)) k h' = Some (Done h')" by (intro kernel_done_again(1))
  qed
  then show ?thesis using r by (intro exI [of _ r]) (auto simp: closes_def split: outcome.splits)
qed

theorem kernel_done_ends_witness:
  "\<exists>h'. kernel_done 2 1 sample_heap = Some (Done h') \<and> impl_ins (rtk h' 2) = None \<and> kernel_done 2 1 h' = Some (Done h')"
proof -
  let ?rank = "\<lambda>k :: ptr. if k = 1 then 1 else 0 :: nat"
  have rank: "\<And>k c. c \<in> set (children (rtk sample_heap k)) \<Longrightarrow> ?rank c < ?rank k"
    by (auto simp: sample_heap_def split: if_splits)
  have none: "impl_ins (rtk sample_heap k) = None" "impl_outs (rtk sample_heap k) = None"
    "children (rtk sample_heap k) = (if k = 1 then [2, 3] else [])" for k
    by (simp_all add: sample_heap_def new_rt_kernel_def)
  then have own: "kernel_done_own k sample_heap = Done sample_heap" for k
    by (simp add: kernel_done_own_def upd_rtk_def fun_upd_idem Let_def)
  have run: "kernel_done 2 1 sample_heap = Some (Done sample_heap)" by (simp add: numeral_2_eq_2 none own)
  have "Suc (?rank 1) = 2" by simp
  note ends = kernel_done_ends [of sample_heap ?rank 1, OF rank, unfolded this run]
  then have again: "kernel_done 2 1 sample_heap = Some (Done sample_heap)" by (auto simp del: kernel_done.simps)
  then show ?thesis using run none(1) by blast
qed

end
