(* ===== verification/D4R_Sched.thy ===== *)
theory D4R_Sched
  imports Runtime_Objects
begin

section \<open>Deadlock detection between running kernels\<close>

text \<open>
  \<open>kernel_task::d4r_cb\<close> of \<open>lib/SKIR/SKIRTbbSched.cpp\<close>: a kernel \<open>me\<close> that stopped because of
  the kernel \<open>r\<close> either transmits the tag of \<open>r\<close> (it was blocked on \<open>r\<close> the last time too, and
  made no progress) or blocks with a new tag.  The two failing assertions are the results that
  report a deadlock.  The callback returns the \<open>r\<close> it was given in every case, so only the
  new heap is a result here.
\<close>

datatype d4r_result = D4R_Return heap | D4R_TrueDeadlock | D4R_ArtificialDeadlock | D4R_Fault

definition rt_list :: "nat \<Rightarrow> ptr list option \<Rightarrow> ptr list" where
  "rt_list n r = (case r of None \<Rightarrow> [] | Some q \<Rightarrow> take n q)"

text \<open>The two searches for the stream whose other end is \<open>r\<close>; \<open>Fault\<close>: \<open>si\<close> is null.\<close>

fun find_end :: "(skir_stream_t \<Rightarrow> endp) \<Rightarrow> endp \<Rightarrow> heap \<Rightarrow> ptr list \<Rightarrow> (unit, ptr option) outcome" where
  "find_end other r h [] = Done None"
| "find_end other r h (q # qs) =
     (case si (rts h q) of
        None \<Rightarrow> Fault
      | Some s \<Rightarrow> if other (hdr h s) = r then Done (Some q) else find_end other r h qs)"

text \<open>The stream a kernel is blocked on, with the queue size that goes into its tag.\<close>

definition blocked_stream :: "ptr \<Rightarrow> endp \<Rightarrow> heap \<Rightarrow> (unit, (ptr \<times> int) option) outcome" where
  "blocked_stream me r h =
     bind_out (find_end src r h (rt_list (nins (rtk h me)) (rt_ins (rtk h me)))) (\<lambda>i.
     bind_out (find_end dst r h (rt_list (nouts (rtk h me)) (rt_outs (rtk h me)))) (\<lambda>j.
       Done (case j of
          Some q \<Rightarrow> Some (q, qsize (rts h q))
        | None \<Rightarrow> (case i of Some q \<Rightarrow> Some (q, - 1) | None \<Rightarrow> None))))"

text \<open>The flag that lets a tag through is cleared; \<open>None\<close>: no flag is set.\<close>

definition d4r_clear_flag :: "ptr \<Rightarrow> int \<Rightarrow> heap \<Rightarrow> heap option" where
  "d4r_clear_flag q n h =
     (if n > 0 \<and> writetagchanged (rts h q) then Some (upd_rts q (\<lambda>s. s\<lparr>writetagchanged := False\<rparr>) h)
      else if readtagchanged (rts h q) then Some (upd_rts q (\<lambda>s. s\<lparr>readtagchanged := False\<rparr>) h)
      else None)"

definition d4r_set_flag :: "ptr \<Rightarrow> int \<Rightarrow> heap \<Rightarrow> heap" where
  "d4r_set_flag q n h =
     (if n = - 1 then upd_rts q (\<lambda>s. s\<lparr>readtagchanged := True\<rparr>) h
      else upd_rts q (\<lambda>s. s\<lparr>writetagchanged := True\<rparr>) h)"

definition d4r_transfer :: "ptr \<Rightarrow> ptr \<Rightarrow> ptr \<Rightarrow> int \<Rightarrow> heap \<Rightarrow> d4r_result" where
  "d4r_transfer me b q n h =
     (case d4r_clear_flag q n h of
        None \<Rightarrow> D4R_Return h
      | Some h \<Rightarrow>
          (let pub = publicTag (rtk h me); priv = privateTag (rtk h me); t = publicTag (rtk h b) in
           if pub < t then
             D4R_Return (d4r_set_flag q n
               (upd_rtk me (\<lambda>k. k\<lparr>publicTag := set_Priority (min (priority priv) (priority t)) t\<rparr>) h))
           else if pub = t \<and> priority pub = priority priv then
             (if n = - 1 then D4R_TrueDeadlock else D4R_ArtificialDeadlock)
           else D4R_Return (d4r_set_flag q n h)))"

definition mark_streams :: "(rt_stream \<Rightarrow> rt_stream) \<Rightarrow> ptr list \<Rightarrow> heap \<Rightarrow> heap" where
  "mark_streams f qs h = fold (\<lambda>q. upd_rts q f) qs h"

definition block_tag :: "int \<Rightarrow> tag \<Rightarrow> tag \<Rightarrow> tag \<Rightarrow> tag" where
  "block_tag n priv pub t = set_Count (max (Count pub) (Count t) + 1) (set_QueueSize (word_of_int n) priv)"

definition d4r_block :: "ptr \<Rightarrow> ptr \<Rightarrow> int \<Rightarrow> heap \<Rightarrow> d4r_result" where
  "d4r_block me b n h =
     (let t = block_tag n (privateTag (rtk h me)) (publicTag (rtk h me)) (publicTag (rtk h b));
          h = upd_rtk me (\<lambda>k. k\<lparr>privateTag := t, publicTag := t\<rparr>) h;
          h = mark_streams (\<lambda>s. s\<lparr>readtagchanged := True\<rparr>) (rt_list (nins (rtk h me)) (rt_ins (rtk h me))) h;
          h = mark_streams (\<lambda>s. s\<lparr>writetagchanged := True\<rparr>) (rt_list (nouts (rtk h me)) (rt_outs (rtk h me))) h in
      D4R_Return (upd_rtk me (\<lambda>k. k\<lparr>last_niter := total_niter k, last_blocker := KernEnd b\<rparr>) h))"

text \<open>\<open>r\<close> is \<open>NullEnd\<close> when the kernel returned normally.\<close>

definition d4r_cb :: "ptr \<Rightarrow> endp \<Rightarrow> heap \<Rightarrow> d4r_result" where
  "d4r_cb me r h =
     (if r = NullEnd \<or> endp_odd r then D4R_Return h
      else (case blocked_stream me r h of
          Done None \<Rightarrow> D4R_Return h
        | Done (Some (q, n)) \<Rightarrow>
            (case r of
               KernEnd b \<Rightarrow>
                 if r = last_blocker (rtk h me) \<and> total_niter (rtk h me) = last_niter (rtk h me)
                 then d4r_transfer me b q n h else d4r_block me b n h
             | _ \<Rightarrow> D4R_Fault)
        | _ \<Rightarrow> D4R_Fault))"

subsection \<open>What the callback leaves alone\<close>

lemma flag_frame [simp]:
  "rtk (d4r_set_flag q n h) = rtk h" "hdr (d4r_set_flag q n h) = hdr h"
  by (simp_all add: d4r_set_flag_def)

lemma clear_flag_frame: "d4r_clear_flag q n h = Some h' \<Longrightarrow> rtk h' = rtk h \<and> hdr h' = hdr h"
  by (auto simp: d4r_clear_flag_def split: if_splits)

lemma mark_streams_frame [simp]:
  "rtk (mark_streams f qs h) = rtk h" "hdr (mark_streams f qs h) = hdr h"
  by (induction qs arbitrary: h) (simp_all add: mark_streams_def)

lemma word_max_Suc:
  fixes a b :: "'a::len word"
  assumes "max a b \<noteq> - 1"
  shows "a < max a b + 1 \<and> b < max a b + 1"
proof -
  have "max a b < max a b + 1"
    using assms inc_less_eq_self_iff_eq [of "max a b"] by (simp add: not_le [symmetric])
  then show ?thesis by (meson max.cobounded1 max.cobounded2 order_le_less_trans)
qed

lemma tag_less_Count: "Count t < Count u \<Longrightarrow> t < u"
  by (auto simp: tag_order uint128_order Count_def)

lemma set_Priority_ge: "t \<le> set_Priority (min p (priority t)) t"
  by (simp add: tag_le_iff set_Priority_def)

lemma block_tag_gt:
  assumes "max (Count pub) (Count t) \<noteq> - 1"
  shows "pub < block_tag n priv pub t" and "t < block_tag n priv pub t"
proof -
  have "Count (block_tag n priv pub t) = max (Count pub) (Count t) + 1"
    by (simp add: block_tag_def tag_simps)
  then show "pub < block_tag n priv pub t" "t < block_tag n priv pub t"
    using word_max_Suc [OF assms] by (auto intro: tag_less_Count)
qed

lemma block_tag_key: "QueueKey (block_tag n priv pub t) = QueueKey priv"
  "Key (block_tag n priv pub t) = Key priv"
  by (simp_all add: block_tag_def tag_simps)

text \<open>The effect of a transfer on the tags.\<close>

definition passed_tag :: "tag \<Rightarrow> tag \<Rightarrow> tag \<Rightarrow> tag" where
  "passed_tag priv pub t = (if pub < t then set_Priority (min (priority priv) (priority t)) t else pub)"

lemma passed_tag_mono: "pub \<le> passed_tag priv pub t" "t \<le> passed_tag priv pub t"
  using set_Priority_ge [of t "priority priv"] by (auto simp: passed_tag_def)

lemma passed_tag_strict: "pub < t \<Longrightarrow> pub < passed_tag priv pub t"
  using set_Priority_ge [of t "priority priv"] by (auto simp: passed_tag_def)

lemma d4r_transfer_rtk:
  assumes "d4r_transfer me b q n h = D4R_Return h'" "d4r_clear_flag q n h \<noteq> None"
  shows "rtk h' = (rtk h)(me := (rtk h me)\<lparr>publicTag :=
    passed_tag (privateTag (rtk h me)) (publicTag (rtk h me)) (publicTag (rtk h b))\<rparr>)"
proof -
  obtain g where g: "d4r_clear_flag q n h = Some g" using assms(2) by blast
  then have "rtk g = rtk h" using clear_flag_frame by blast
  with assms(1) g show ?thesis
    by (auto simp: d4r_transfer_def Let_def passed_tag_def split: if_splits)
qed

lemma d4r_block_rtk:
  assumes "d4r_block me b n h = D4R_Return h'"
  shows "rtk h' = (rtk h)(me := (rtk h me)\<lparr>
     privateTag := block_tag n (privateTag (rtk h me)) (publicTag (rtk h me)) (publicTag (rtk h b)),
     publicTag := block_tag n (privateTag (rtk h me)) (publicTag (rtk h me)) (publicTag (rtk h b)),
     last_niter := total_niter (rtk h me), last_blocker := KernEnd b\<rparr>)"
proof -
  have "h' = upd_rtk me (\<lambda>k. k\<lparr>last_niter := total_niter k, last_blocker := KernEnd b\<rparr>)
    (mark_streams (\<lambda>s. s\<lparr>writetagchanged := True\<rparr>) (rt_list (nouts (rtk h me)) (rt_outs (rtk h me)))
      (mark_streams (\<lambda>s. s\<lparr>readtagchanged := True\<rparr>) (rt_list (nins (rtk h me)) (rt_ins (rtk h me)))
        (upd_rtk me (\<lambda>k. k\<lparr>
     privateTag := block_tag n (privateTag (rtk h me)) (publicTag (rtk h me)) (publicTag (rtk h b)),
     publicTag := block_tag n (privateTag (rtk h me)) (publicTag (rtk h me)) (publicTag (rtk h b))\<rparr>) h)))"
    using assms by (simp add: d4r_block_def Let_def)
  then show ?thesis by simp
qed

subsection \<open>Tags never decrease, and keys never change\<close>

lemma d4r_cb_cases:
  assumes "d4r_cb me r h = D4R_Return h'"
  obtains "h' = h"
  | q n b where "r = KernEnd b" "blocked_stream me r h = Done (Some (q, n))" "d4r_transfer me b q n h = D4R_Return h'"
      "last_blocker (rtk h me) = KernEnd b" "total_niter (rtk h me) = last_niter (rtk h me)"
  | q n b where "r = KernEnd b" "blocked_stream me r h = Done (Some (q, n))" "d4r_block me b n h = D4R_Return h'"
  using assms
  by (auto simp: d4r_cb_def split: if_splits outcome.splits option.splits endp.splits)

lemma d4r_transfer_clear_None:
  "d4r_clear_flag q n h = None \<Longrightarrow> d4r_transfer me b q n h = D4R_Return h"
  by (simp add: d4r_transfer_def)

lemma set_Priority_sel [simp]:
  "label (set_Priority p t) = label t" "priority (set_Priority p t) = p" "Count (set_Priority p t) = Count t"
  by (simp_all add: tag_simps)

lemma d4r_transfer_tags:
  assumes "d4r_transfer me b q n h = D4R_Return h'"
  shows "(\<forall>k. k \<noteq> me \<longrightarrow> rtk h' k = rtk h k) \<and> privateTag (rtk h' me) = privateTag (rtk h me) \<and>
    publicTag (rtk h me) \<le> publicTag (rtk h' me)"
proof (cases "d4r_clear_flag q n h")
  case None
  then show ?thesis using assms by (simp add: d4r_transfer_clear_None)
next
  case (Some g)
  then show ?thesis using d4r_transfer_rtk [OF assms] passed_tag_mono by simp
qed

lemma d4r_block_tags:
  assumes "d4r_block me b n h = D4R_Return h'"
    and "max (Count (publicTag (rtk h me))) (Count (publicTag (rtk h b))) \<noteq> - 1"
  shows "(\<forall>k. k \<noteq> me \<longrightarrow> rtk h' k = rtk h k) \<and> publicTag (rtk h me) < publicTag (rtk h' me) \<and>
    publicTag (rtk h b) < publicTag (rtk h' me) \<and> privateTag (rtk h' me) = publicTag (rtk h' me) \<and>
    QueueKey (privateTag (rtk h' me)) = QueueKey (privateTag (rtk h me))"
  using d4r_block_rtk [OF assms(1)] block_tag_gt [OF assms(2)] block_tag_key by simp

lemma d4r_cb_tags:
  assumes cb: "d4r_cb me (KernEnd b) h = D4R_Return h'"
    and cnt: "max (Count (publicTag (rtk h me))) (Count (publicTag (rtk h b))) \<noteq> - 1"
  shows "(\<forall>k. k \<noteq> me \<longrightarrow> rtk h' k = rtk h k) \<and> publicTag (rtk h me) \<le> publicTag (rtk h' me) \<and>
    QueueKey (privateTag (rtk h' me)) = QueueKey (privateTag (rtk h me))"
  using cb
proof (cases rule: d4r_cb_cases)
  case 1 then show ?thesis by simp
next
  case (2 q n b')
  then show ?thesis using d4r_transfer_tags [OF 2(3)] by simp
next
  case (3 q n b')
  then have "d4r_block me b n h = D4R_Return h'" by simp
  from d4r_block_tags [OF this cnt] show ?thesis by (metis order_less_imp_le)
qed

subsection \<open>A cycle of blocked kernels is detected\<close>

definition d4r_blocked_on :: "ptr \<Rightarrow> ptr \<Rightarrow> heap \<Rightarrow> bool" where
  "d4r_blocked_on k b h \<longleftrightarrow>
     last_blocker (rtk h k) = KernEnd b \<and> total_niter (rtk h k) = last_niter (rtk h k) \<and>
     (case blocked_stream k (KernEnd b) h of
        Done (Some (q, n)) \<Rightarrow>
          (if n = - 1 then readtagchanged (rts h q) else n > 0 \<and> writetagchanged (rts h q))
      | _ \<Rightarrow> False)"

definition d4r_cycle :: "ptr list \<Rightarrow> heap \<Rightarrow> bool" where
  "d4r_cycle ks h \<longleftrightarrow>
     ks \<noteq> [] \<and> distinct ks \<and>
     (\<forall>i<length ks. d4r_blocked_on (ks ! i) (ks ! (Suc i mod length ks)) h) \<and>
     (\<forall>k\<in>set ks. priority (publicTag (rtk h k)) \<le> priority (privateTag (rtk h k)) \<and>
        (\<exists>j\<in>set ks. priority (publicTag (rtk h k)) = priority (privateTag (rtk h j))))"

definition d4r_reports :: "d4r_result \<Rightarrow> bool" where
  "d4r_reports r \<longleftrightarrow> r = D4R_TrueDeadlock \<or> r = D4R_ArtificialDeadlock"

lemma clear_set_flag:
  assumes "if n = - 1 then readtagchanged (rts h q) else n > 0 \<and> writetagchanged (rts h q)"
  shows "\<exists>g. d4r_clear_flag q n h = Some g \<and> d4r_set_flag q n g = h \<and>
    (\<forall>f. d4r_set_flag q n (upd_rtk k f g) = upd_rtk k f h)"
  using assms
  by (auto simp: d4r_clear_flag_def d4r_set_flag_def upd_rts_def upd_rtk_def fun_eq_iff split: if_splits
      intro!: heap.equality)

lemma upd_rtk_same: "upd_rtk k (\<lambda>K. K\<lparr>publicTag := publicTag (rtk h k)\<rparr>) h = h"
  by (simp add: upd_rtk_def fun_upd_idem)

text \<open>What one callback does when the kernel is blocked: it reports, or passes the tag on.\<close>

lemma d4r_cb_blocked:
  assumes "d4r_blocked_on k b h"
  shows "(if publicTag (rtk h k) = publicTag (rtk h b) \<and> priority (publicTag (rtk h k)) = priority (privateTag (rtk h k))
          then d4r_reports (d4r_cb k (KernEnd b) h)
          else d4r_cb k (KernEnd b) h = D4R_Return (upd_rtk k (\<lambda>K. K\<lparr>publicTag :=
              passed_tag (privateTag (rtk h k)) (publicTag (rtk h k)) (publicTag (rtk h b))\<rparr>) h))"
proof -
  obtain q n where bs: "blocked_stream k (KernEnd b) h = Done (Some (q, n))"
    and fl: "if n = - 1 then readtagchanged (rts h q) else n > 0 \<and> writetagchanged (rts h q)"
    and lb: "last_blocker (rtk h k) = KernEnd b" "total_niter (rtk h k) = last_niter (rtk h k)"
    using assms by (auto simp: d4r_blocked_on_def split: outcome.splits option.splits)
  have cb: "d4r_cb k (KernEnd b) h = d4r_transfer k b q n h"
    using bs lb by (simp add: d4r_cb_def)
  obtain g where g: "d4r_clear_flag q n h = Some g" "d4r_set_flag q n g = h"
    "\<And>f. d4r_set_flag q n (upd_rtk k f g) = upd_rtk k f h"
    using clear_set_flag [OF fl] by metis
  then have "rtk g = rtk h" using clear_flag_frame by blast
  then show ?thesis unfolding cb using g
    by (auto simp: d4r_transfer_def passed_tag_def d4r_reports_def Let_def upd_rtk_same)
qed

lemma cycle_all_equal:
  fixes f :: "nat \<Rightarrow> 'a::linorder"
  assumes n: "0 < n" and mono: "\<And>i. i < n \<Longrightarrow> f (Suc i mod n) \<le> f i" and i: "i < n"
  shows "f i = f 0"
proof -
  have up: "i < n \<Longrightarrow> f i \<le> f 0" for i
  proof (induction i)
    case (Suc i)
    then have "f (Suc i) \<le> f i" using mono [of i] by simp
    then show ?case using Suc by simp
  qed simp
  have last: "f 0 \<le> f (n - 1)" using mono [of "n - 1"] n by simp
  have dn: "j < n \<Longrightarrow> f 0 \<le> f (n - 1 - j)" for j
  proof (induction j)
    case (Suc j)
    define m where "m = n - 1 - Suc j"
    have m: "Suc m = n - 1 - j" "Suc m < n" using Suc(2) by (simp_all add: m_def)
    then have "f (Suc m) \<le> f m" using mono [of m] by simp
    moreover have "f 0 \<le> f (Suc m)" using Suc m by simp
    ultimately show ?case unfolding m_def [symmetric] by (rule order_trans [rotated])
  qed (use last in simp)
  have "f 0 \<le> f i" using dn [of "n - 1 - i"] i by simp
  then show ?thesis using up [OF i] by simp
qed

text \<open>
  If no kernel of the cycle holds a smaller tag than its blocker, all tags are equal, and the
  kernel whose own priority is in the tag reports.
\<close>

lemma d4r_stable_reports:
  assumes cyc: "d4r_cycle ks h"
    and stable: "\<And>i. i < length ks \<Longrightarrow>
      \<not> publicTag (rtk h (ks ! i)) < publicTag (rtk h (ks ! (Suc i mod length ks)))"
  shows "\<exists>i<length ks. d4r_reports (d4r_cb (ks ! i) (KernEnd (ks ! (Suc i mod length ks))) h)"
proof -
  have n: "0 < length ks" using cyc by (simp add: d4r_cycle_def)
  have eq: "publicTag (rtk h (ks ! i)) = publicTag (rtk h (ks ! 0))" if "i < length ks" for i
    using cycle_all_equal [OF n _ that, of "\<lambda>i. publicTag (rtk h (ks ! i))"] stable by (simp add: not_less)
  have "\<exists>j\<in>set ks. priority (publicTag (rtk h (ks ! 0))) = priority (privateTag (rtk h j))"
    using cyc n unfolding d4r_cycle_def by (meson nth_mem)
  then obtain j where j: "j < length ks" "priority (publicTag (rtk h (ks ! 0))) = priority (privateTag (rtk h (ks ! j)))"
    by (metis in_set_conv_nth)
  have "Suc j mod length ks < length ks" using n by simp
  from eq [OF this] eq [OF j(1)] j(2) have
    "publicTag (rtk h (ks ! j)) = publicTag (rtk h (ks ! (Suc j mod length ks)))"
    "priority (publicTag (rtk h (ks ! j))) = priority (privateTag (rtk h (ks ! j)))"
    by simp_all
  moreover have "d4r_blocked_on (ks ! j) (ks ! (Suc j mod length ks)) h"
    using cyc j by (simp add: d4r_cycle_def)
  ultimately show ?thesis using d4r_cb_blocked j(1) by (smt (verit))
qed

lemma blocked_stream_cong:
  assumes "hdr h' = hdr h" "rts h' = rts h" "nins (rtk h' k) = nins (rtk h k)" "nouts (rtk h' k) = nouts (rtk h k)"
    "rt_ins (rtk h' k) = rt_ins (rtk h k)" "rt_outs (rtk h' k) = rt_outs (rtk h k)"
  shows "blocked_stream k r h' = blocked_stream k r h"
proof -
  have "find_end e r h' qs = find_end e r h qs" for e qs
    by (induction qs) (simp_all add: assms split: option.split)
  then show ?thesis unfolding blocked_stream_def assms by simp
qed

lemma blocked_on_frame:
  assumes "hdr h' = hdr h" "rts h' = rts h" "rtk h' = (rtk h)(k := (rtk h k)\<lparr>publicTag := t\<rparr>)"
  shows "d4r_blocked_on j b h' = d4r_blocked_on j b h"
proof -
  have "blocked_stream j (KernEnd b) h' = blocked_stream j (KernEnd b) h"
    by (rule blocked_stream_cong) (simp_all add: assms)
  moreover have "last_blocker (rtk h' j) = last_blocker (rtk h j)" "total_niter (rtk h' j) = total_niter (rtk h j)"
    "last_niter (rtk h' j) = last_niter (rtk h j)"
    by (simp_all add: assms(3))
  ultimately show ?thesis unfolding d4r_blocked_on_def assms(2) by presburger
qed

lemma passed_tag_priority:
  "priority pub \<le> priority priv \<Longrightarrow> priority (passed_tag priv pub t) \<le> priority priv"
  "priority (passed_tag priv pub t) \<in> {priority pub, priority priv, priority t}"
  by (auto simp: passed_tag_def min_def)

text \<open>One callback in a cycle: a report, or the cycle stays and the tag of the caller may grow.\<close>

lemma d4r_cycle_step:
  assumes cyc: "d4r_cycle ks h" and i: "i < length ks"
  defines "k \<equiv> ks ! i" and "b \<equiv> ks ! (Suc i mod length ks)"
  shows "d4r_reports (d4r_cb k (KernEnd b) h) \<or>
    (\<exists>h'. d4r_cb k (KernEnd b) h = D4R_Return h' \<and> d4r_cycle ks h' \<and>
      h' = upd_rtk k (\<lambda>K. K\<lparr>publicTag :=
        passed_tag (privateTag (rtk h k)) (publicTag (rtk h k)) (publicTag (rtk h b))\<rparr>) h)"
proof -
  have n: "0 < length ks" using cyc by (simp add: d4r_cycle_def)
  have kb: "k \<in> set ks" "b \<in> set ks" using i n by (auto simp: k_def b_def)
  have bl: "d4r_blocked_on k b h" using cyc i by (simp add: d4r_cycle_def k_def b_def)
  show ?thesis
  proof (cases "d4r_reports (d4r_cb k (KernEnd b) h)")
    case False
    define h' where "h' = upd_rtk k (\<lambda>K. K\<lparr>publicTag :=
        passed_tag (privateTag (rtk h k)) (publicTag (rtk h k)) (publicTag (rtk h b))\<rparr>) h"
    have h': "d4r_cb k (KernEnd b) h = D4R_Return h'" "hdr h' = hdr h" "rts h' = rts h"
      "rtk h' = (rtk h)(k := (rtk h k)\<lparr>publicTag :=
        passed_tag (privateTag (rtk h k)) (publicTag (rtk h k)) (publicTag (rtk h b))\<rparr>)"
      using d4r_cb_blocked [OF bl] False by (auto simp: h'_def split: if_splits)
    note fr = blocked_on_frame [OF h'(2-4)]
    have priv: "privateTag (rtk h' j) = privateTag (rtk h j)" for j by (simp add: h'(4))
    have pr: "priority (publicTag (rtk h' j)) \<le> priority (privateTag (rtk h' j)) \<and>
       (\<exists>l\<in>set ks. priority (publicTag (rtk h' j)) = priority (privateTag (rtk h' l)))" if j: "j \<in> set ks" for j
    proof (cases "j = k")
      case True
      then have pub: "publicTag (rtk h' k) =
          passed_tag (privateTag (rtk h k)) (publicTag (rtk h k)) (publicTag (rtk h b))" by (simp add: h'(4))
      have old: "\<And>m. m \<in> set ks \<Longrightarrow> priority (publicTag (rtk h m)) \<le> priority (privateTag (rtk h m)) \<and>
        (\<exists>j\<in>set ks. priority (publicTag (rtk h m)) = priority (privateTag (rtk h j)))"
        using cyc by (simp add: d4r_cycle_def)
      have "priority (publicTag (rtk h' j)) \<le> priority (privateTag (rtk h' j))"
        unfolding True pub priv using old [OF kb(1)] by (intro passed_tag_priority(1)) (rule conjunct1)
      moreover have "\<exists>l\<in>set ks. priority (publicTag (rtk h' j)) = priority (privateTag (rtk h' l))"
      proof -
        define x where "x = priority (passed_tag (privateTag (rtk h k)) (publicTag (rtk h k)) (publicTag (rtk h b)))"
        have "x = priority (publicTag (rtk h k)) \<or> x = priority (privateTag (rtk h k)) \<or> x = priority (publicTag (rtk h b))"
          using passed_tag_priority(2) unfolding x_def by blast
        then have "\<exists>l\<in>set ks. x = priority (privateTag (rtk h l))"
          using old [OF kb(1)] old [OF kb(2)] kb(1) by metis
        then show ?thesis unfolding True pub priv x_def .
      qed
      ultimately show ?thesis by blast
    next
      case False
      then have "publicTag (rtk h' j) = publicTag (rtk h j)" by (simp add: h'(4))
      then show ?thesis using cyc j by (simp add: priv d4r_cycle_def)
    qed
    have "ks \<noteq> [] \<and> distinct ks" "\<And>i. i < length ks \<Longrightarrow> d4r_blocked_on (ks ! i) (ks ! (Suc i mod length ks)) h"
      using cyc by (simp_all add: d4r_cycle_def)
    then have "d4r_cycle ks h'" using pr unfolding d4r_cycle_def fr by (intro conjI allI impI ballI) simp_all
    then show ?thesis using h' h'_def by blast
  qed blast
qed


subsection \<open>Every round of callbacks makes progress\<close>

fun d4r_calls :: "ptr list \<Rightarrow> nat list \<Rightarrow> heap \<Rightarrow> d4r_result" where
  "d4r_calls ks [] h = D4R_Return h"
| "d4r_calls ks (i # is) h =
     (case d4r_cb (ks ! i) (KernEnd (ks ! (Suc i mod length ks))) h of
        D4R_Return h \<Rightarrow> d4r_calls ks is h
      | r \<Rightarrow> r)"

text \<open>
  The tags of a cycle are made of a label and a priority that are there at the start, so the
  number of tags above each public tag bounds how often it can grow.
\<close>

definition cycle_tags :: "ptr list \<Rightarrow> heap \<Rightarrow> tag set" where
  "cycle_tags ks h = (\<lambda>(a, b). Tag a b) ` ((\<lambda>k. label (publicTag (rtk h k))) ` set ks \<times>
     (\<lambda>k. priority (privateTag (rtk h k))) ` set ks)"

definition tag_room :: "tag set \<Rightarrow> ptr list \<Rightarrow> heap \<Rightarrow> nat" where
  "tag_room S ks h = (\<Sum>k\<in>set ks. card {t \<in> S. publicTag (rtk h k) < t})"

lemma tag_eqI: "label t = a \<Longrightarrow> priority t = b \<Longrightarrow> t = Tag a b"
  by (cases t) simp

lemma cycle_tags_pub:
  assumes "d4r_cycle ks h" "k \<in> set ks"
  shows "publicTag (rtk h k) \<in> cycle_tags ks h"
proof -
  obtain j where "j \<in> set ks" "priority (publicTag (rtk h k)) = priority (privateTag (rtk h j))"
    using assms by (meson d4r_cycle_def)
  then show ?thesis using assms(2) tag_eqI [of "publicTag (rtk h k)"]
    by (auto simp: cycle_tags_def intro!: image_eqI [where x = "(label (publicTag (rtk h k)), priority (privateTag (rtk h j)))"])
qed

lemma finite_cycle_tags: "finite (cycle_tags ks h)"
  by (simp add: cycle_tags_def)

lemma tag_room_less:
  assumes fin: "finite S" and k: "k \<in> set ks" and rtk: "rtk h' = (rtk h)(k := (rtk h k)\<lparr>publicTag := t\<rparr>)"
    and lt: "publicTag (rtk h k) < t" and tS: "t \<in> S"
  shows "tag_room S ks h' < tag_room S ks h"
  unfolding tag_room_def
proof (rule sum_strict_mono_ex1)
  have "{u \<in> S. t < u} \<subset> {u \<in> S. publicTag (rtk h k) < u}" using lt tS by auto
  then have "card {u \<in> S. t < u} < card {u \<in> S. publicTag (rtk h k) < u}"
    using fin by (intro psubset_card_mono) auto
  then show "\<exists>a\<in>set ks. card {u \<in> S. publicTag (rtk h' a) < u} < card {u \<in> S. publicTag (rtk h a) < u}"
    using k by (intro bexI [of _ k]) (simp_all add: rtk)
  show "\<forall>x\<in>set ks. card {u \<in> S. publicTag (rtk h' x) < u} \<le> card {u \<in> S. publicTag (rtk h x) < u}"
  proof
    fix x
    have "{u \<in> S. publicTag (rtk h' x) < u} \<subseteq> {u \<in> S. publicTag (rtk h x) < u}"
      using lt by (auto simp: rtk)
    then show "card {u \<in> S. publicTag (rtk h' x) < u} \<le> card {u \<in> S. publicTag (rtk h x) < u}"
      using fin by (intro card_mono) auto
  qed
qed simp

text \<open>The set of tags does not grow.\<close>

lemma cycle_tags_closed:
  assumes sub: "\<forall>k\<in>set ks. \<forall>j\<in>set ks. Tag (label (publicTag (rtk h k))) (priority (privateTag (rtk h j))) \<in> S"
    and kb: "k \<in> set ks" "b \<in> set ks"
    and rtk: "rtk h' = (rtk h)(k := (rtk h k)\<lparr>publicTag :=
        passed_tag (privateTag (rtk h k)) (publicTag (rtk h k)) (publicTag (rtk h b))\<rparr>)"
  shows "\<forall>k\<in>set ks. \<forall>j\<in>set ks. Tag (label (publicTag (rtk h' k))) (priority (privateTag (rtk h' j))) \<in> S"
proof (intro ballI)
  fix x j assume x: "x \<in> set ks" "j \<in> set ks"
  have "label (publicTag (rtk h' x)) \<in> {label (publicTag (rtk h x)), label (publicTag (rtk h b))}"
    by (auto simp: rtk passed_tag_def)
  moreover have "privateTag (rtk h' j) = privateTag (rtk h j)" by (simp add: rtk)
  ultimately show "Tag (label (publicTag (rtk h' x))) (priority (privateTag (rtk h' j))) \<in> S"
    using sub x kb by auto
qed

definition d4r_state :: "tag set \<Rightarrow> ptr list \<Rightarrow> heap \<Rightarrow> bool" where
  "d4r_state S ks h \<longleftrightarrow> d4r_cycle ks h \<and>
     (\<forall>k\<in>set ks. \<forall>j\<in>set ks. Tag (label (publicTag (rtk h k))) (priority (privateTag (rtk h j))) \<in> S)"

lemma d4r_state_step:
  assumes st: "d4r_state S ks h" and fin: "finite S" and i: "i < length ks"
  shows "d4r_reports (d4r_cb (ks ! i) (KernEnd (ks ! (Suc i mod length ks))) h) \<or>
    (\<exists>h'. d4r_cb (ks ! i) (KernEnd (ks ! (Suc i mod length ks))) h = D4R_Return h' \<and> d4r_state S ks h' \<and>
      (h' = h \<and> \<not> publicTag (rtk h (ks ! i)) < publicTag (rtk h (ks ! (Suc i mod length ks)))
       \<or> tag_room S ks h' < tag_room S ks h))"
proof -
  define k b where "k = ks ! i" and "b = ks ! (Suc i mod length ks)"
  have cyc: "d4r_cycle ks h" using st by (simp add: d4r_state_def)
  have n: "0 < length ks" using cyc by (simp add: d4r_cycle_def)
  have kb: "k \<in> set ks" "b \<in> set ks" using i n by (auto simp: k_def b_def)
  consider "d4r_reports (d4r_cb k (KernEnd b) h)"
    | h' where "d4r_cb k (KernEnd b) h = D4R_Return h'" "d4r_cycle ks h'"
      "h' = upd_rtk k (\<lambda>K. K\<lparr>publicTag :=
        passed_tag (privateTag (rtk h k)) (publicTag (rtk h k)) (publicTag (rtk h b))\<rparr>) h"
    using d4r_cycle_step [OF cyc i] unfolding k_def b_def by blast
  then show ?thesis unfolding k_def [symmetric] b_def [symmetric]
  proof cases
    case (2 h')
    have rtk': "rtk h' = (rtk h)(k := (rtk h k)\<lparr>publicTag :=
        passed_tag (privateTag (rtk h k)) (publicTag (rtk h k)) (publicTag (rtk h b))\<rparr>)"
      by (simp add: 2(3))
    have cl: "\<forall>k\<in>set ks. \<forall>j\<in>set ks. Tag (label (publicTag (rtk h' k))) (priority (privateTag (rtk h' j))) \<in> S"
      using st by (intro cycle_tags_closed [OF _ kb rtk']) (simp add: d4r_state_def)
    then have "d4r_state S ks h'" using 2(2) by (simp add: d4r_state_def)
    moreover have "h' = h \<and> \<not> publicTag (rtk h k) < publicTag (rtk h b) \<or> tag_room S ks h' < tag_room S ks h"
    proof (cases "publicTag (rtk h k) < publicTag (rtk h b)")
      case True
      obtain j where j: "j \<in> set ks" "priority (publicTag (rtk h' k)) = priority (privateTag (rtk h' j))"
        using 2(2) kb(1) by (meson d4r_cycle_def)
      have "Tag (label (publicTag (rtk h' k))) (priority (privateTag (rtk h' j))) \<in> S"
        using cl kb(1) j(1) by blast
      then have "publicTag (rtk h' k) \<in> S" using tag_eqI [OF refl j(2)] by metis
      then have "passed_tag (privateTag (rtk h k)) (publicTag (rtk h k)) (publicTag (rtk h b)) \<in> S"
        by (simp add: rtk')
      then show ?thesis using tag_room_less [OF fin kb(1) rtk' passed_tag_strict [OF True]] by blast
    next
      case False
      then show ?thesis by (simp add: 2(3) passed_tag_def upd_rtk_same)
    qed
    ultimately show "d4r_reports (d4r_cb k (KernEnd b) h) \<or>
      (\<exists>h'. d4r_cb k (KernEnd b) h = D4R_Return h' \<and> d4r_state S ks h' \<and>
       (h' = h \<and> \<not> publicTag (rtk h k) < publicTag (rtk h b) \<or> tag_room S ks h' < tag_room S ks h))"
      using 2(1) by blast
  qed blast
qed

lemma d4r_calls_append:
  "d4r_calls ks (is @ js) h =
     (case d4r_calls ks is h of D4R_Return h \<Rightarrow> d4r_calls ks js h | r \<Rightarrow> r)"
  by (induction "is" arbitrary: h) (simp_all split: d4r_result.split)

lemma d4r_calls_step:
  assumes "d4r_state S ks h" and "finite S" and "\<forall>i\<in>set is. i < length ks"
  shows "d4r_reports (d4r_calls ks is h) \<or>
    (\<exists>h'. d4r_calls ks is h = D4R_Return h' \<and> d4r_state S ks h' \<and>
      (h' = h \<and> (\<forall>i\<in>set is. \<not> publicTag (rtk h (ks ! i)) < publicTag (rtk h (ks ! (Suc i mod length ks))) \<and> \<not> d4r_reports (d4r_cb (ks ! i) (KernEnd (ks ! (Suc i mod length ks))) h))
       \<or> tag_room S ks h' < tag_room S ks h))"
  using assms
proof (induction "is" arbitrary: h)
  case (Cons i js)
  from d4r_state_step [OF Cons(2,3), of i] Cons(4)
  consider "d4r_reports (d4r_cb (ks ! i) (KernEnd (ks ! (Suc i mod length ks))) h)"
    | h1 where "d4r_cb (ks ! i) (KernEnd (ks ! (Suc i mod length ks))) h = D4R_Return h1" "d4r_state S ks h1"
      "h1 = h \<and> \<not> publicTag (rtk h (ks ! i)) < publicTag (rtk h (ks ! (Suc i mod length ks)))
       \<or> tag_room S ks h1 < tag_room S ks h" by auto
  then show ?case
  proof cases
    case 1 then show ?thesis by (auto simp: d4r_reports_def)
  next
    case (2 h1)
    have eq: "d4r_calls ks (i # js) h = d4r_calls ks js h1" using 2(1) by simp
    have nr: "\<not> d4r_reports (d4r_cb (ks ! i) (KernEnd (ks ! (Suc i mod length ks))) h)"
      using 2(1) by (simp add: d4r_reports_def)
    from Cons.IH [OF 2(2) Cons(3)] Cons(4) consider "d4r_reports (d4r_calls ks js h1)"
      | h' where "d4r_calls ks js h1 = D4R_Return h'" "d4r_state S ks h'"
       "h' = h1 \<and> (\<forall>i\<in>set js. \<not> publicTag (rtk h1 (ks ! i)) < publicTag (rtk h1 (ks ! (Suc i mod length ks))) \<and> \<not> d4r_reports (d4r_cb (ks ! i) (KernEnd (ks ! (Suc i mod length ks))) h1))
         \<or> tag_room S ks h' < tag_room S ks h1" by auto
    then show ?thesis
    proof cases
      case 1 then show ?thesis unfolding eq by blast
    next
      case (2 h')
      have "h' = h \<and> (\<forall>i\<in>set (i # js). \<not> publicTag (rtk h (ks ! i)) < publicTag (rtk h (ks ! (Suc i mod length ks))) \<and> \<not> d4r_reports (d4r_cb (ks ! i) (KernEnd (ks ! (Suc i mod length ks))) h))
         \<or> tag_room S ks h' < tag_room S ks h"
        using 2(3) \<open>_ \<or> tag_room S ks h1 < tag_room S ks h\<close> nr by auto
      then show ?thesis unfolding eq using 2(1,2) by blast
    qed
  qed
qed simp

lemma d4r_round:
  assumes st: "d4r_state S ks h" and fin: "finite S"
  shows "d4r_reports (d4r_calls ks [0..<length ks] h) \<or>
    (\<exists>h'. d4r_calls ks [0..<length ks] h = D4R_Return h' \<and> d4r_state S ks h' \<and> tag_room S ks h' < tag_room S ks h)"
  using d4r_calls_step [OF st fin, of "[0..<length ks]"] d4r_stable_reports [of ks h] st
  by (auto simp: d4r_state_def)

lemma d4r_rounds:
  assumes "d4r_state S ks h" and "finite S"
  shows "\<exists>n \<le> Suc (tag_room S ks h). d4r_reports (d4r_calls ks (concat (replicate n [0..<length ks])) h)"
  using assms
proof (induction "tag_room S ks h" arbitrary: h rule: less_induct)
  case less
  from d4r_round [OF less(2,3)] show ?case
  proof (elim disjE exE conjE)
    assume "d4r_reports (d4r_calls ks [0..<length ks] h)"
    then show ?thesis by (intro exI [of _ 1]) simp
  next
    fix h' assume h': "d4r_calls ks [0..<length ks] h = D4R_Return h'" "d4r_state S ks h'"
      "tag_room S ks h' < tag_room S ks h"
    from less(1) [OF h'(3,2) less(3)] obtain n where
      n: "n \<le> Suc (tag_room S ks h')" "d4r_reports (d4r_calls ks (concat (replicate n [0..<length ks])) h')" by blast
    have "Suc n \<le> Suc (tag_room S ks h)" using n(1) h'(3) by simp
    moreover have "d4r_reports (d4r_calls ks (concat (replicate (Suc n) [0..<length ks])) h)"
      using n(2) by (simp add: d4r_calls_append h'(1))
    ultimately show ?thesis by blast
  qed
qed

lemma card_cycle_tags: "card (cycle_tags ks h) \<le> length ks * length ks"
proof -
  have "card (cycle_tags ks h) \<le> card ((\<lambda>k. label (publicTag (rtk h k))) ` set ks \<times>
     (\<lambda>k. priority (privateTag (rtk h k))) ` set ks)"
    unfolding cycle_tags_def by (rule card_image_le) simp
  also have "\<dots> \<le> length ks * length ks"
    unfolding card_cartesian_product
    by (intro mult_le_mono order_trans [OF card_image_le card_length]) simp_all
  finally show ?thesis .
qed

lemma tag_room_bound:
  assumes "finite S"
  shows "tag_room S ks h \<le> length ks * card S"
proof -
  have "tag_room S ks h \<le> (\<Sum>k\<in>set ks. card S)"
    unfolding tag_room_def using assms by (intro sum_mono card_mono) auto
  also have "\<dots> = card (set ks) * card S" by simp
  also have "\<dots> \<le> length ks * card S" using card_length by (intro mult_le_mono1)
  finally show ?thesis .
qed

lemma d4r_cycle_detected_lemma:
  assumes "d4r_cycle ks h"
  shows "\<exists>n \<le> Suc (length ks ^ 3). d4r_reports (d4r_calls ks (concat (replicate n [0..<length ks])) h)"
proof -
  have "d4r_state (cycle_tags ks h) ks h"
    using assms by (auto simp: d4r_state_def cycle_tags_def)
  from d4r_rounds [OF this finite_cycle_tags] obtain n where
    n: "n \<le> Suc (tag_room (cycle_tags ks h) ks h)" "d4r_reports (d4r_calls ks (concat (replicate n [0..<length ks])) h)"
    by blast
  have "tag_room (cycle_tags ks h) ks h \<le> length ks * (length ks * length ks)"
    using tag_room_bound [OF finite_cycle_tags] card_cycle_tags by (meson mult_le_mono2 order_trans)
  then have "n \<le> Suc (length ks ^ 3)" using n(1) by (simp add: power3_eq_cube mult.assoc)
  then show ?thesis using n(2) by blast
qed

subsection \<open>The properties\<close>

text \<open>
  C13. A callback changes no tag but the caller's; the caller's public tag never decreases, and
  when it blocks on a new kernel, its tag becomes larger than its old one and the blocker's
  (as long as the 64-bit count of a tag does not wrap).  The key of the private tag, by which
  tags of different kernels differ, stays.
\<close>

theorem d4r_tags_grow:
  assumes "d4r_cb me (KernEnd b) h = D4R_Return h'"
    and "max (Count (publicTag (rtk h me))) (Count (publicTag (rtk h b))) \<noteq> - 1"
  shows "(\<forall>k. k \<noteq> me \<longrightarrow> rtk h' k = rtk h k) \<and> publicTag (rtk h me) \<le> publicTag (rtk h' me) \<and>
    QueueKey (privateTag (rtk h' me)) = QueueKey (privateTag (rtk h me)) \<and>
    (last_blocker (rtk h me) \<noteq> KernEnd b \<longrightarrow> h' \<noteq> h \<longrightarrow>
      publicTag (rtk h me) < publicTag (rtk h' me) \<and> publicTag (rtk h b) < publicTag (rtk h' me))"
proof (intro conjI impI)
  assume nb: "last_blocker (rtk h me) \<noteq> KernEnd b" "h' \<noteq> h"
  from assms(1) obtain q n where blk: "d4r_block me b n h = D4R_Return h'"
    using nb by (cases rule: d4r_cb_cases) auto
  show "publicTag (rtk h me) < publicTag (rtk h' me)" "publicTag (rtk h b) < publicTag (rtk h' me)"
    using d4r_block_tags [OF blk assms(2)] by blast+
qed (use d4r_cb_tags [OF assms] in blast)+

text \<open>Two kernels that each wait to read what the other writes.\<close>

definition ring_kernel :: "rt_kernel \<Rightarrow> uint32 \<Rightarrow> ptr \<Rightarrow> ptr \<Rightarrow> ptr \<Rightarrow> rt_kernel" where
  "ring_kernel junk i in_s out_s other = (new_rt_kernel junk i)\<lparr>rt_ins := Some [in_s], nins := 1,
     rt_outs := Some [out_s], nouts := 1, last_blocker := KernEnd other, last_niter := 0\<rparr>"

definition ring_stream :: "uint32 \<Rightarrow> ptr \<Rightarrow> rt_stream" where
  "ring_stream i s = (new_rt_stream i)\<lparr>si := Some s, readtagchanged := True, writetagchanged := True\<rparr>"

definition ring_heap :: heap where
  "ring_heap = \<lparr>hdr = (\<lambda>p. if p = 21 then (sample_stream 4 21)\<lparr>src := KernEnd 1, dst := KernEnd 2\<rparr>
                       else (sample_stream 4 22)\<lparr>src := KernEnd 2, dst := KernEnd 1\<rparr>),
     mem = (\<lambda>_. []), flat = (\<lambda>_. 0),
     rtk = (\<lambda>k. if k = 1 then ring_kernel (new_rt_kernel undefined 0) 1 12 11 2
                else ring_kernel (new_rt_kernel undefined 0) 2 11 12 1),
     rts = (\<lambda>q. if q = 11 then ring_stream 11 21 else ring_stream 12 22),
     alive = (\<lambda>_. True), fresh = 100, shm = (\<lambda>_. None)\<rparr>"

lemmas ring_heap_simps = ring_heap_def ring_kernel_def ring_stream_def new_rt_kernel_def new_rt_stream_def
  sample_stream_def

lemma ring_blocked_stream:
  "blocked_stream 1 (KernEnd 2) ring_heap = Done (Some (11, int STREAM_BUFFER_SIZE))"
  "blocked_stream 2 (KernEnd 1) ring_heap = Done (Some (12, int STREAM_BUFFER_SIZE))"
  by (simp_all add: blocked_stream_def rt_list_def ring_heap_simps)

lemma ring_heap_cycle: "d4r_cycle [1, 2] ring_heap"
proof -
  have "d4r_blocked_on 1 2 ring_heap" "d4r_blocked_on 2 1 ring_heap"
    unfolding d4r_blocked_on_def ring_blocked_stream
    by (simp_all add: ring_heap_simps STREAM_BUFFER_SIZE_def)
  then have "\<forall>i<length [1::ptr, 2]. d4r_blocked_on ([1, 2] ! i) ([1, 2] ! (Suc i mod length [1::ptr, 2])) ring_heap"
    by (simp add: less_Suc_eq)
  then show ?thesis unfolding d4r_cycle_def by (simp add: ring_heap_simps)
qed

lemma ring_heap_cb: "d4r_cb 1 (KernEnd 2) ring_heap = D4R_Return
   (upd_rtk 1 (\<lambda>K. K\<lparr>publicTag := set_Priority (U128 (- 1) 1) (new_tag 2)\<rparr>) ring_heap)"
proof -
  have bl: "d4r_blocked_on 1 2 ring_heap"
    using ring_heap_cycle unfolding d4r_cycle_def by (metis One_nat_def length_Cons list.size(3) mod_less lessI nth_Cons_0 nth_Cons_Suc zero_less_Suc)
  have t: "publicTag (rtk ring_heap 1) = new_tag 1" "privateTag (rtk ring_heap 1) = new_tag 1"
    "publicTag (rtk ring_heap 2) = new_tag 2"
    by (simp_all add: ring_heap_simps)
  have "passed_tag (new_tag 1) (new_tag 1) (new_tag 2) = set_Priority (U128 (- 1) 1) (new_tag 2)"
    by (simp add: passed_tag_def tag_simps tag_order uint128_order min_def)
  then show ?thesis using d4r_cb_blocked [OF bl] unfolding t by (simp add: tag_simps)
qed

theorem d4r_tags_grow_witness:
  "publicTag (rtk ring_heap 1) \<le> publicTag (rtk
     (upd_rtk 1 (\<lambda>K. K\<lparr>publicTag := set_Priority (U128 (- 1) 1) (new_tag 2)\<rparr>) ring_heap) 1)"
proof -
  have "max (Count (publicTag (rtk ring_heap 1))) (Count (publicTag (rtk ring_heap 2))) \<noteq> - 1"
    by (simp add: ring_heap_simps tag_simps)
  from d4r_tags_grow [OF ring_heap_cb this] show ?thesis by blast
qed

text \<open>
  C11. A cycle of kernels, each blocked on the next since its last callback, is detected if no public tag has a
  higher priority than the private tag of its kernel, and every public tag has the priority of the private tag of a kernel of
  the cycle: if the kernels run their callbacks in turn, one of them reports the deadlock after at most n^3 + 1 rounds.
\<close>

theorem d4r_cycle_detected:
  assumes "d4r_cycle ks h"
  shows "\<exists>n \<le> Suc (length ks ^ 3). d4r_reports (d4r_calls ks (concat (replicate n [0..<length ks])) h)"
  by (rule d4r_cycle_detected_lemma [OF assms])

theorem d4r_cycle_detected_witness:
  "\<exists>n \<le> Suc (length [1::ptr, 2] ^ 3). d4r_reports (d4r_calls [1, 2] (concat (replicate n [0..<length [1::ptr, 2]])) ring_heap)"
  by (rule d4r_cycle_detected [OF ring_heap_cycle])

text \<open>
  C12. Of the kernels of a deadlock that hold the same tag, only one can report it, provided each
  private tag carries the identifier of its kernel, as the constructor makes it and the callback
  keeps it.  A report means that the caller really is blocked where it was blocked before, and
  that its blocker holds the same tag.
\<close>

theorem d4r_one_detector:
  assumes "d4r_reports (d4r_cb k1 (KernEnd b1) h)" and "d4r_reports (d4r_cb k2 (KernEnd b2) h)"
    and "publicTag (rtk h k1) = publicTag (rtk h k2)"
    and "\<And>k. k \<in> {k1, k2} \<Longrightarrow> QueueKey (privateTag (rtk h k)) = ucast (kid (rtk h k))"
    and "kid (rtk h k1) = kid (rtk h k2) \<Longrightarrow> k1 = k2"
  shows "k1 = k2 \<and> last_blocker (rtk h k1) = KernEnd b1 \<and> publicTag (rtk h b1) = publicTag (rtk h k1) \<and>
    total_niter (rtk h k1) = last_niter (rtk h k1)"
proof -
  have rep: "priority (publicTag (rtk h k)) = priority (privateTag (rtk h k)) \<and> last_blocker (rtk h k) = KernEnd b \<and>
      publicTag (rtk h b) = publicTag (rtk h k) \<and> total_niter (rtk h k) = last_niter (rtk h k)"
    if "d4r_reports (d4r_cb k (KernEnd b) h)" for k b
    using that
    by (auto simp: d4r_reports_def d4r_cb_def d4r_transfer_def d4r_block_def Let_def
        dest!: clear_flag_frame split: if_splits outcome.splits option.splits)
  have "priority (privateTag (rtk h k1)) = priority (privateTag (rtk h k2))"
    using rep [OF assms(1)] rep [OF assms(2)] assms(3) by simp
  then have "ucast (kid (rtk h k1)) = (ucast (kid (rtk h k2)) :: uint64)"
    using assms(4) [of k1] assms(4) [of k2] by (simp add: QueueKey_def)
  then have "ucast (ucast (kid (rtk h k1)) :: uint64) = (ucast (ucast (kid (rtk h k2)) :: uint64) :: uint32)"
    by (rule arg_cong)
  then have "kid (rtk h k1) = kid (rtk h k2)" by (simp add: ucast_up_ucast_id is_up)
  then show ?thesis using assms(5) rep [OF assms(1)] by blast
qed

text \<open>The same cycle after the tags have gone round: kernel 1 holds the smaller priority.\<close>

definition ring_heap_ready :: heap where
  "ring_heap_ready = upd_rtk 1 (\<lambda>K. K\<lparr>publicTag := set_Priority (U128 (- 1) 1) (new_tag 2)\<rparr>)
     (upd_rtk 2 (\<lambda>K. K\<lparr>publicTag := set_Priority (U128 (- 1) 1) (new_tag 2)\<rparr>) ring_heap)"

lemma ring_ready_reports: "d4r_reports (d4r_cb 1 (KernEnd 2) ring_heap_ready)"
proof -
  have "blocked_stream 1 (KernEnd 2) ring_heap_ready = Done (Some (11, int STREAM_BUFFER_SIZE))"
    by (simp add: blocked_stream_def rt_list_def ring_heap_simps ring_heap_ready_def)
  then have "d4r_blocked_on 1 2 ring_heap_ready"
    unfolding d4r_blocked_on_def ring_heap_ready_def
    by (simp add: ring_heap_simps STREAM_BUFFER_SIZE_def)
  from d4r_cb_blocked [OF this] show ?thesis
    by (simp add: ring_heap_ready_def ring_heap_simps tag_simps)
qed

theorem d4r_one_detector_witness:
  "last_blocker (rtk ring_heap_ready 1) = KernEnd 2 \<and>
   publicTag (rtk ring_heap_ready 2) = publicTag (rtk ring_heap_ready 1)"
  using d4r_one_detector [OF ring_ready_reports ring_ready_reports refl]
  by (simp add: ring_heap_ready_def ring_heap_simps tag_simps)

end
