(* ===== verification/Kernel_T.thy ===== *)
theory Kernel_T
  imports D4R_Sched
begin

unbundle bit_operations_syntax

section \<open>The kernel as a scheduler sees it\<close>

text \<open>
  \<open>kernel_t\<close> of \<open>lib/SKIR/SKIR_kernel_t.h\<close>: the counters, the lock and the state of a kernel
  that is being scheduled, one call of its work function, and the waiting, pausing and ending of
  a kernel.  The lock holds its owner, the tasks are numbered.
\<close>

datatype kernel_state_t = IDLE | ACTIVE | PAUSED | DONE

datatype actor = MainThread | TaskOf nat | Pauser

record task_stats =
  num_work_calls :: uint64
  num_cycles :: uint64
  num_steal :: uint64
  num_retries :: uint64
  num_continue :: uint64
  num_tasks :: uint64
  num_fail :: uint64

definition new_task_stats :: task_stats where
  "new_task_stats = \<lparr>num_work_calls = 0, num_cycles = 0, num_steal = 0, num_retries = 0,
     num_continue = 0, num_tasks = 0, num_fail = 0\<rparr>"

record kernel_t =
  running :: int
  owning_task :: "nat option"
  lock :: "actor option"
  rt_kernel :: ptr
  retries :: int
  fail :: int
  kt_id :: uint32
  wait_state :: kernel_state_t
  wait_cnt :: int
  niter_cb_on :: bool
  d4r_cb_on :: bool
  stats :: task_stats

definition new_kernel_t :: "ptr \<Rightarrow> heap \<Rightarrow> kernel_t" where
  "new_kernel_t k h = \<lparr>running = 0, owning_task = None, lock = None, rt_kernel = k, retries = 0, fail = 0,
     kt_id = kid (rtk h k), wait_state = IDLE, wait_cnt = 0, niter_cb_on = False, d4r_cb_on = False,
     stats = new_task_stats\<rparr>"

subsection \<open>States\<close>

definition k_idle :: "kernel_t \<Rightarrow> kernel_t" where
  "k_idle k = k\<lparr>wait_state := IDLE\<rparr>"

text \<open>The test for a finished kernel is commented out in the code, so this leaves \<open>DONE\<close> too.\<close>

definition k_active :: "kernel_t \<Rightarrow> kernel_t" where
  "k_active k = k\<lparr>wait_state := ACTIVE\<rparr>"

definition is_active :: "kernel_t \<Rightarrow> bool" where
  "is_active k = (wait_state k = ACTIVE)"

definition is_done :: "kernel_t \<Rightarrow> bool" where
  "is_done k = (wait_state k = DONE)"

definition is_paused :: "kernel_t \<Rightarrow> bool" where
  "is_paused k = (wait_state k = PAUSED)"

text \<open>\<open>done\<close> ends the runtime kernel with its children, then signals.\<close>

definition k_done :: "nat \<Rightarrow> kernel_t \<Rightarrow> heap \<Rightarrow> (unit, kernel_t \<times> heap) outcome option" where
  "k_done fuel k h =
     (case kernel_done fuel (rt_kernel k) h of
        None \<Rightarrow> None
      | Some r \<Rightarrow> Some (bind_out r (\<lambda>h. Done (k\<lparr>wait_state := DONE\<rparr>, h))))"

definition k_pause :: "kernel_t \<Rightarrow> kernel_t" where
  "k_pause k = (if is_done k then k else k\<lparr>wait_state := PAUSED\<rparr>)"

definition k_unpause :: "kernel_t \<Rightarrow> kernel_t" where
  "k_unpause k = k_active k"

text \<open>
  \<open>wait(state)\<close>: the caller looks at the state every time it is woken; \<open>seen\<close> are the states
  it sees.  The result is the number of states it went past, \<open>None\<close> if it is still waiting.
\<close>

fun k_wait :: "kernel_state_t \<Rightarrow> kernel_state_t list \<Rightarrow> nat option" where
  "k_wait st [] = None"
| "k_wait st (w # seen) =
     (if w = st \<or> w = DONE then Some 0
      else (case k_wait st seen of None \<Rightarrow> None | Some n \<Rightarrow> Some (Suc n)))"

subsection \<open>One call of the work function\<close>

text \<open>
  \<open>wfn\<close> is the host code of the work function: it changes the heap, the iteration counter of the
  kernel included, and returns the kernel it is blocked on.  \<open>tsc\<close> and \<open>tsc2\<close> are the readings
  of the cycle counter before and after.  The result of the deadlock callback is not used, that
  of the iteration callback \<open>ncb\<close> is.
\<close>

definition kernel_work :: "(ptr \<Rightarrow> heap \<Rightarrow> endp \<times> heap) \<Rightarrow>
    (ptr \<Rightarrow> endp \<Rightarrow> heap \<Rightarrow> (unit, endp \<times> heap) outcome) \<Rightarrow> uint64 \<Rightarrow> uint64 \<Rightarrow>
    kernel_t \<Rightarrow> heap \<Rightarrow> (unit, endp \<times> heap) outcome" where
  "kernel_work wfn ncb tsc tsc2 k h =
     (let me = rt_kernel k;
          h = upd_rtk me (\<lambda>K. K\<lparr>rt_state := (rt_state K)\<lparr>niter := 0\<rparr>\<rparr>) h;
          (r, h) = wfn me h;
          h = upd_rtk me (\<lambda>K. K\<lparr>rt_state := (rt_state K)\<lparr>cycles := cycles (rt_state K) + (tsc2 - tsc)\<rparr>,
                 total_runtime := total_runtime K + (tsc2 - tsc),
                 total_niter := total_niter K + niter (rt_state K),
                 total_ncall := total_ncall K + 1\<rparr>) h in
      bind_out
        (if d4r_cb_on k \<and> total_ncall (rtk h me) AND 0xff = 0
         then (case d4r_cb me r h of D4R_Return h \<Rightarrow> Done h | _ \<Rightarrow> Fault) else Done h)
        (\<lambda>h. if niter_cb_on k \<and> total_niter (rtk h me) AND 0x3 = 0 then ncb me r h else Done (r, h)))"

subsection \<open>Facts\<close>

lemma k_wait_Some:
  "k_wait st seen = Some n \<longleftrightarrow>
     n < length seen \<and> (seen ! n = st \<or> seen ! n = DONE) \<and> (\<forall>i<n. seen ! i \<noteq> st \<and> seen ! i \<noteq> DONE)"
proof (induction seen arbitrary: n)
  case (Cons w seen)
  show ?case
  proof (cases n)
    case 0 then show ?thesis by (auto split: option.splits)
  next
    case (Suc m)
    have "(\<forall>i<Suc m. (w # seen) ! i \<noteq> st \<and> (w # seen) ! i \<noteq> DONE) \<longleftrightarrow>
        (w \<noteq> st \<and> w \<noteq> DONE \<and> (\<forall>i<m. seen ! i \<noteq> st \<and> seen ! i \<noteq> DONE))"
      by (auto simp: less_Suc_eq_0_disj)
    then show ?thesis using Cons.IH [of m] by (auto simp: Suc split: option.splits)
  qed
qed simp

text \<open>Without the callbacks a call of the work function only adds to the statistics.\<close>

lemma kernel_work_no_cb:
  assumes "\<not> d4r_cb_on k" "\<not> niter_cb_on k"
    and "wfn (rt_kernel k) (upd_rtk (rt_kernel k) (\<lambda>K. K\<lparr>rt_state := (rt_state K)\<lparr>niter := 0\<rparr>\<rparr>) h) = (r, g)"
  shows "\<exists>h'. kernel_work wfn ncb t t2 k h = Done (r, h') \<and> hdr h' = hdr g \<and> rts h' = rts g \<and>
    total_niter (rtk h' (rt_kernel k)) = total_niter (rtk g (rt_kernel k)) + niter (rt_state (rtk g (rt_kernel k))) \<and>
    total_ncall (rtk h' (rt_kernel k)) = total_ncall (rtk g (rt_kernel k)) + 1"
  using assms by (simp add: kernel_work_def Let_def)

end
