(* ===== verification/Tbb_Sched.thy ===== *)
theory Tbb_Sched
  imports Kernel_T
begin

section \<open>The work-stealing scheduler\<close>

text \<open>
  \<open>lib/SKIR/SKIRTbbSched.cpp\<close>: the map from runtime kernels to kernels, the run queue, the tasks
  and the main loop.  The main thread, the tasks and the threads of the program that call, pause
  and remove kernels run concurrently; one step of \<open>tbb_step\<close> is one access to shared state (a
  try of a lock, a look at the map) or one stretch that runs under the locks it needs.  The
  map sends a removed kernel to \<open>Some None\<close>, the null pointer the code stores.  \<open>callKernel\<close>, which inserts a handle
  that no other thread knows yet and pushes it, is one step.

  \<open>sched_on\<close> is the flag \<open>running\<close> of the scheduler, \<open>M_Exit\<close> the main thread that is not started or was joined.
  \<open>ok\<close> tells whether the assertions of the tasks and of the main loop held so far, \<open>call_ok\<close> those of the calls of
  the program.  \<open>ended\<close> is a history variable, which no step reads: the handles whose \<open>done\<close> was called.
\<close>

type_synonym kt = nat

text \<open>Where a task of kernel \<open>k\<close> stands in \<open>execute\<close>; \<open>n\<close> counts the retries left.\<close>

datatype task_pc =
    T_Start | T_Check | T_Loop int | T_Work int | T_Result int endp | T_Block int kt
  | T_Have int kt | T_Retry int | T_Break

datatype main_pc = M_Exit | M_While | M_Pop | M_Test kt | M_Try kt | M_Locked kt | M_Requeue kt

record tbb_state =
  hp :: heap
  kts :: "kt \<Rightarrow> kernel_t"
  nkts :: kt
  kmap :: "ptr \<Rightarrow> kt option option"
  runq :: "kt list"
  tasks :: "nat \<Rightarrow> (kt \<times> task_pc) option"
  ntasks :: nat
  mpc :: main_pc
  sched_on :: bool
  ok :: bool
  call_ok :: bool
  ended :: "kt set"

definition kernel_map_find :: "ptr \<Rightarrow> tbb_state \<Rightarrow> kt option" where
  "kernel_map_find key s = (case kmap s key of None \<Rightarrow> None | Some v \<Rightarrow> v)"

definition kernel_map_insert :: "ptr \<Rightarrow> kt option \<Rightarrow> tbb_state \<Rightarrow> tbb_state" where
  "kernel_map_insert key v s = s\<lparr>kmap := (kmap s)(key \<mapsto> v)\<rparr>"

definition upd_kt :: "kt \<Rightarrow> (kernel_t \<Rightarrow> kernel_t) \<Rightarrow> tbb_state \<Rightarrow> tbb_state" where
  "upd_kt k f s = s\<lparr>kts := (kts s)(k := f (kts s k))\<rparr>"

definition set_task :: "nat \<Rightarrow> (kt \<times> task_pc) option \<Rightarrow> tbb_state \<Rightarrow> tbb_state" where
  "set_task t v s = s\<lparr>tasks := (tasks s)(t := v)\<rparr>"

text \<open>An assertion of a task or the main loop, and one of a call.\<close>

definition check :: "bool \<Rightarrow> tbb_state \<Rightarrow> tbb_state" where
  "check b s = s\<lparr>ok := (ok s \<and> b)\<rparr>"

definition check_call :: "bool \<Rightarrow> tbb_state \<Rightarrow> tbb_state" where
  "check_call b s = s\<lparr>call_ok := (call_ok s \<and> b)\<rparr>"

lemma upd_sched_sel [simp]:
  "hp (upd_kt k f s) = hp s" "kts (upd_kt k f s) = (kts s)(k := f (kts s k))" "nkts (upd_kt k f s) = nkts s" "kmap (upd_kt k f s) = kmap s"
  "runq (upd_kt k f s) = runq s" "tasks (upd_kt k f s) = tasks s" "ntasks (upd_kt k f s) = ntasks s" "mpc (upd_kt k f s) = mpc s"
  "sched_on (upd_kt k f s) = sched_on s" "ok (upd_kt k f s) = ok s" "call_ok (upd_kt k f s) = call_ok s" "ended (upd_kt k f s) = ended s"
  "hp (set_task t v s) = hp s" "kts (set_task t v s) = kts s" "nkts (set_task t v s) = nkts s" "kmap (set_task t v s) = kmap s"
  "runq (set_task t v s) = runq s" "tasks (set_task t v s) = (tasks s)(t := v)" "ntasks (set_task t v s) = ntasks s" "mpc (set_task t v s) = mpc s"
  "sched_on (set_task t v s) = sched_on s" "ok (set_task t v s) = ok s" "call_ok (set_task t v s) = call_ok s" "ended (set_task t v s) = ended s"
  "hp (check b s) = hp s" "kts (check b s) = kts s" "nkts (check b s) = nkts s" "kmap (check b s) = kmap s"
  "runq (check b s) = runq s" "tasks (check b s) = tasks s" "ntasks (check b s) = ntasks s" "mpc (check b s) = mpc s"
  "sched_on (check b s) = sched_on s" "ok (check b s) = (ok s \<and> b)" "call_ok (check b s) = call_ok s" "ended (check b s) = ended s"
  "hp (check_call b s) = hp s" "kts (check_call b s) = kts s" "nkts (check_call b s) = nkts s" "kmap (check_call b s) = kmap s"
  "runq (check_call b s) = runq s" "tasks (check_call b s) = tasks s" "ntasks (check_call b s) = ntasks s" "mpc (check_call b s) = mpc s"
  "sched_on (check_call b s) = sched_on s" "ok (check_call b s) = ok s" "call_ok (check_call b s) = (call_ok s \<and> b)" "ended (check_call b s) = ended s"
  by (simp_all add: upd_kt_def set_task_def check_def check_call_def)

subsection \<open>Tasks\<close>

text \<open>
  The constructor of a task, which needs the kernel's lock and a positive \<open>running\<close>, and
  \<open>recycle\<close>: the task will be executed again.
\<close>

definition new_kernel_task :: "kt \<Rightarrow> int \<Rightarrow> tbb_state \<Rightarrow> tbb_state" where
  "new_kernel_task k tbb_retries s =
     (let t = ntasks s;
          s = check (lock (kts s k) \<noteq> None) s;
          s = check (running (kts s k) > 0) s;
          s = upd_kt k (\<lambda>k. k\<lparr>stats := (stats k)\<lparr>num_tasks := num_tasks (stats k) + 1\<rparr>,
                owning_task := Some t, fail := 0, retries := tbb_retries\<rparr>) s in
      set_task t (Some (k, T_Start)) (s\<lparr>ntasks := Suc t\<rparr>))"

definition recycle :: "nat \<Rightarrow> kt \<Rightarrow> tbb_state \<Rightarrow> tbb_state" where
  "recycle t k s =
     set_task t (Some (k, T_Start))
       (upd_kt k (\<lambda>k. k\<lparr>stats := (stats k)\<lparr>num_continue := num_continue (stats k) + 1\<rparr>\<rparr>) s)"

definition acquire :: "actor \<Rightarrow> kt \<Rightarrow> tbb_state \<Rightarrow> tbb_state" where
  "acquire a k s = upd_kt k (\<lambda>k. k\<lparr>lock := Some a\<rparr>) s"

definition release :: "kt \<Rightarrow> tbb_state \<Rightarrow> tbb_state" where
  "release k s = upd_kt k (\<lambda>k. k\<lparr>lock := None\<rparr>) s"

definition end_task :: "nat \<Rightarrow> kt \<Rightarrow> tbb_state \<Rightarrow> tbb_state" where
  "end_task t k s =
     set_task t None (upd_kt k (\<lambda>k. k\<lparr>running := running k - 1\<rparr>) (check (running (kts s k) > 0) s))"

text \<open>
  The steps of \<open>execute\<close>.  \<open>W\<close> is the call of the work function with its callbacks,
  \<open>fuel\<close> that of the end of a kernel and \<open>steal\<close> whether stealing a task is enabled;
  \<open>tr\<close> is the option \<open>TbbRetries\<close>.  The scheduler of the library decides whether a task can be
  stolen and when a recycled one runs again.
\<close>

inductive task_step :: "(kernel_t \<Rightarrow> heap \<Rightarrow> endp \<Rightarrow> heap \<Rightarrow> bool) \<Rightarrow> nat \<Rightarrow> bool \<Rightarrow> int \<Rightarrow>
    nat \<Rightarrow> tbb_state \<Rightarrow> tbb_state \<Rightarrow> bool"
  for W fuel steal tr t where
  no_lock: "tasks s t = Some (k, T_Start) \<Longrightarrow> lock (kts s k) \<noteq> None \<Longrightarrow>
    task_step W fuel steal tr t s (end_task t k s)"
| got_lock: "tasks s t = Some (k, T_Start) \<Longrightarrow> lock (kts s k) = None \<Longrightarrow>
    task_step W fuel steal tr t s (set_task t (Some (k, T_Check)) (acquire (TaskOf t) k s))"
| not_owner: "tasks s t = Some (k, T_Check) \<Longrightarrow> owning_task (kts s k) \<noteq> Some t \<Longrightarrow>
    task_step W fuel steal tr t s (release k (end_task t k
      (upd_kt k (\<lambda>k. k\<lparr>stats := (stats k)\<lparr>num_steal := num_steal (stats k) + 1\<rparr>\<rparr>) s)))"
| not_active: "tasks s t = Some (k, T_Check) \<Longrightarrow> owning_task (kts s k) = Some t \<Longrightarrow>
    \<not> is_active (kts s k) \<Longrightarrow> task_step W fuel steal tr t s (release k (end_task t k s))"
| enter: "tasks s t = Some (k, T_Check) \<Longrightarrow> owning_task (kts s k) = Some t \<Longrightarrow> is_active (kts s k) \<Longrightarrow>
    task_step W fuel steal tr t s (set_task t (Some (k, T_Loop tr)) s)"
| unmapped: "tasks s t = Some (k, T_Loop n) \<Longrightarrow> kernel_map_find (rt_kernel (kts s k)) s = None \<Longrightarrow>
    task_step W fuel steal tr t s (set_task t (Some (k, T_Break)) s)"
| mapped: "tasks s t = Some (k, T_Loop n) \<Longrightarrow> kernel_map_find (rt_kernel (kts s k)) s \<noteq> None \<Longrightarrow>
    task_step W fuel steal tr t s (set_task t (Some (k, T_Work n))
      (s\<lparr>hp := upd_rtk (rt_kernel (kts s k)) (\<lambda>K. K\<lparr>rt_state := (rt_state K)\<lparr>cycles := 0\<rparr>\<rparr>) (hp s)\<rparr>))"
| work_again: "tasks s t = Some (k, T_Work n) \<Longrightarrow> W (kts s k) (hp s) NullEnd h \<Longrightarrow>
    task_step W fuel steal tr t s (s\<lparr>hp := h\<rparr>)"
| work_result: "tasks s t = Some (k, T_Work n) \<Longrightarrow> W (kts s k) (hp s) b h \<Longrightarrow> b \<noteq> NullEnd \<Longrightarrow>
    task_step W fuel steal tr t s (set_task t (Some (k, T_Result n b)) (s\<lparr>hp := h\<rparr>))"
| finished: "tasks s t = Some (k, T_Result n DeadEnd) \<Longrightarrow> k_done fuel (kts s k) (hp s) = Some (Done (k', h)) \<Longrightarrow>
    task_step W fuel steal tr t s (set_task t (Some (k, T_Break))
      (upd_kt k (\<lambda>_. k') (s\<lparr>hp := h, ended := insert k (ended s)\<rparr>)))"
| no_blocker: "tasks s t = Some (k, T_Result n b) \<Longrightarrow> b \<noteq> DeadEnd \<Longrightarrow>
    (case b of KernEnd p \<Rightarrow> kernel_map_find p s = None | _ \<Rightarrow> True) \<Longrightarrow>
    task_step W fuel steal tr t s (set_task t (Some (k, T_Break)) s)"
| blocker: "tasks s t = Some (k, T_Result n (KernEnd p)) \<Longrightarrow> kernel_map_find p s = Some b \<Longrightarrow>
    task_step W fuel steal tr t s (set_task t (Some (k, T_Block n b)) s)"
| blocker_busy: "tasks s t = Some (k, T_Block n b) \<Longrightarrow> lock (kts s b) \<noteq> None \<Longrightarrow>
    task_step W fuel steal tr t s (set_task t (Some (k, T_Retry n)) s)"
| blocker_lock: "tasks s t = Some (k, T_Block n b) \<Longrightarrow> lock (kts s b) = None \<Longrightarrow>
    task_step W fuel steal tr t s (set_task t (Some (k, T_Have n b)) (acquire (TaskOf t) b s))"
| run_blocker: "tasks s t = Some (k, T_Have n b) \<Longrightarrow> running (kts s b) = 0 \<Longrightarrow>
    task_step W fuel steal tr t s (release k (release b (new_kernel_task b tr (recycle t k
      (upd_kt b (\<lambda>b. b\<lparr>running := running b + 1\<rparr>) s)))))"
| steal_blocker: "tasks s t = Some (k, T_Have n b) \<Longrightarrow> running (kts s b) \<noteq> 0 \<Longrightarrow> steal \<Longrightarrow>
    task_step W fuel steal tr t s (release k (release b (recycle t k s)))"
| no_steal: "tasks s t = Some (k, T_Have n b) \<Longrightarrow> running (kts s b) \<noteq> 0 \<Longrightarrow>
    task_step W fuel steal tr t s (set_task t (Some (k, T_Retry n)) (release b s))"
| retry: "tasks s t = Some (k, T_Retry n) \<Longrightarrow> n > 0 \<Longrightarrow>
    task_step W fuel steal tr t s (set_task t (Some (k, T_Loop (n - 1)))
      (upd_kt k (\<lambda>k. k\<lparr>stats := (stats k)\<lparr>num_retries := num_retries (stats k) + 1\<rparr>\<rparr>) s))"
| give_up: "tasks s t = Some (k, T_Retry n) \<Longrightarrow> n \<le> 0 \<Longrightarrow>
    task_step W fuel steal tr t s (set_task t (Some (k, T_Break)) s)"
| leave: "tasks s t = Some (k, T_Break) \<Longrightarrow>
    task_step W fuel steal tr t s (release k (end_task t k s))"

subsection \<open>The main loop\<close>

text \<open>\<open>run\<close>: while the scheduler is on, a kernel is popped, gets a task if it has none, and goes back to the queue.\<close>

inductive main_step :: "int \<Rightarrow> tbb_state \<Rightarrow> tbb_state \<Rightarrow> bool" for tr where
  while_on: "mpc s = M_While \<Longrightarrow> sched_on s \<Longrightarrow> main_step tr s (s\<lparr>mpc := M_Pop\<rparr>)"
| while_off: "mpc s = M_While \<Longrightarrow> \<not> sched_on s \<Longrightarrow> main_step tr s (s\<lparr>mpc := M_Exit\<rparr>)"
| idle: "mpc s = M_Pop \<Longrightarrow> runq s = [] \<Longrightarrow> main_step tr s (s\<lparr>mpc := M_While\<rparr>)"
| pop: "mpc s = M_Pop \<Longrightarrow> runq s = k # q \<Longrightarrow> main_step tr s (s\<lparr>runq := q, mpc := M_Test k\<rparr>)"
| test_yes: "mpc s = M_Test k \<Longrightarrow> kernel_map_find (rt_kernel (kts s k)) s \<noteq> None \<Longrightarrow> is_active (kts s k) \<Longrightarrow>
    running (kts s k) = 0 \<Longrightarrow> main_step tr s (s\<lparr>mpc := M_Try k\<rparr>)"
| test_no: "mpc s = M_Test k \<Longrightarrow>
    \<not> (kernel_map_find (rt_kernel (kts s k)) s \<noteq> None \<and> is_active (kts s k) \<and> running (kts s k) = 0) \<Longrightarrow>
    main_step tr s (s\<lparr>mpc := M_Requeue k\<rparr>)"
| try_yes: "mpc s = M_Try k \<Longrightarrow> lock (kts s k) = None \<Longrightarrow>
    main_step tr s ((acquire MainThread k s)\<lparr>mpc := M_Locked k\<rparr>)"
| try_no: "mpc s = M_Try k \<Longrightarrow> lock (kts s k) \<noteq> None \<Longrightarrow> main_step tr s (s\<lparr>mpc := M_Requeue k\<rparr>)"
| spawn: "mpc s = M_Locked k \<Longrightarrow> running (kts s k) = 0 \<Longrightarrow>
    main_step tr s ((release k (new_kernel_task k tr
      (upd_kt k (\<lambda>k. k\<lparr>running := running k + 1\<rparr>) s)))\<lparr>mpc := M_Requeue k\<rparr>)"
| no_spawn: "mpc s = M_Locked k \<Longrightarrow> running (kts s k) \<noteq> 0 \<Longrightarrow>
    main_step tr s ((release k s)\<lparr>mpc := M_Requeue k\<rparr>)"
| requeue: "mpc s = M_Requeue k \<Longrightarrow> \<not> is_done (kts s k) \<Longrightarrow> kernel_map_find (rt_kernel (kts s k)) s = Some k \<Longrightarrow>
    main_step tr s (s\<lparr>runq := runq s @ [k], mpc := M_While\<rparr>)"
| drop_it: "mpc s = M_Requeue k \<Longrightarrow>
    \<not> (\<not> is_done (kts s k) \<and> kernel_map_find (rt_kernel (kts s k)) s = Some k) \<Longrightarrow>
    main_step tr s (s\<lparr>mpc := M_While\<rparr>)"

subsection \<open>Calls from the program\<close>

text \<open>A new kernel; \<open>d4r\<close> and \<open>merge\<close> are the command line options.\<close>

definition callKernel :: "bool \<Rightarrow> bool \<Rightarrow> ptr \<Rightarrow> tbb_state \<Rightarrow> tbb_state" where
  "callKernel d4r merge k s =
     (let i = nkts s;
          K = (new_kernel_t k (hp s))\<lparr>d4r_cb_on := d4r, niter_cb_on := merge\<rparr>;
          s = kernel_map_insert k (Some i) (s\<lparr>nkts := Suc i, kts := (kts s)(i := K)\<rparr>);
          s = upd_kt i k_active s in
      s\<lparr>runq := runq s @ [i]\<rparr>)"

definition removeKernel :: "ptr \<Rightarrow> tbb_state \<Rightarrow> tbb_state" where
  "removeKernel k s =
     (case kernel_map_find k s of
        None \<Rightarrow> s
      | Some i \<Rightarrow> kernel_map_insert k None (upd_kt i (\<lambda>k. k\<lparr>owning_task := None\<rparr>) s))"

definition pauseKernel :: "ptr \<Rightarrow> tbb_state \<Rightarrow> tbb_state" where
  "pauseKernel k s =
     (case kernel_map_find k s of None \<Rightarrow> check_call False s | Some i \<Rightarrow> upd_kt i k_pause s)"

definition unPauseKernel :: "ptr \<Rightarrow> tbb_state \<Rightarrow> tbb_state" where
  "unPauseKernel k s =
     (case kernel_map_find k s of None \<Rightarrow> check_call False s | Some i \<Rightarrow> upd_kt i k_unpause s)"

text \<open>\<open>waitKernel\<close> asserts that the kernel is mapped; only its caller waits then (\<open>k_wait\<close>).\<close>

definition waitKernel :: "ptr \<Rightarrow> tbb_state \<Rightarrow> tbb_state" where
  "waitKernel k s = check_call (kernel_map_find k s \<noteq> None) s"

text \<open>\<open>start\<close> creates the main thread; \<open>stop\<close> resets the flag and returns when the thread has left its loop.\<close>

definition start_sched_on :: "tbb_state \<Rightarrow> tbb_state" where
  "start_sched_on s = (if sched_on s then s else s\<lparr>mpc := M_While, sched_on := True\<rparr>)"

definition stop_sched :: "tbb_state \<Rightarrow> tbb_state" where
  "stop_sched s = s\<lparr>sched_on := False\<rparr>"

text \<open>
  The program calls, pauses, resumes, waits for and removes kernels, mapped or not, finished or not; it stops the
  scheduler and starts it when no main thread runs.  The thread that \<open>pause\<close> creates takes the lock of a kernel and gives
  it back when the kernel is active or done.
\<close>

inductive api_step :: "bool \<Rightarrow> bool \<Rightarrow> tbb_state \<Rightarrow> tbb_state \<Rightarrow> bool" for d4r merge where
  call: "api_step d4r merge s (callKernel d4r merge k s)"
| remove: "api_step d4r merge s (removeKernel k s)"
| pause: "api_step d4r merge s (pauseKernel k s)"
| unpause: "api_step d4r merge s (unPauseKernel k s)"
| wait: "api_step d4r merge s (waitKernel k s)"
| start_it: "mpc s = M_Exit \<Longrightarrow> api_step d4r merge s (start_sched_on s)"
| stop_it: "api_step d4r merge s (stop_sched s)"
| pauser_lock: "i < nkts s \<Longrightarrow> lock (kts s i) = None \<Longrightarrow> api_step d4r merge s (acquire Pauser i s)"
| pauser_unlock: "lock (kts s i) = Some Pauser \<Longrightarrow> is_active (kts s i) \<or> is_done (kts s i) \<Longrightarrow>
    api_step d4r merge s (release i s)"

definition tbb_init :: "heap \<Rightarrow> tbb_state" where
  "tbb_init h = \<lparr>hp = h, kts = (\<lambda>_. new_kernel_t 0 h), nkts = 0, kmap = (\<lambda>_. None), runq = [],
     tasks = (\<lambda>_. None), ntasks = 0, mpc = M_Exit, sched_on = False, ok = True, call_ok = True, ended = {}\<rparr>"

inductive tbb_reach :: "(kernel_t \<Rightarrow> heap \<Rightarrow> endp \<Rightarrow> heap \<Rightarrow> bool) \<Rightarrow> nat \<Rightarrow> bool \<Rightarrow> int \<Rightarrow> bool \<Rightarrow> bool \<Rightarrow>
    heap \<Rightarrow> tbb_state \<Rightarrow> bool"
  for W fuel steal tr d4r merge h where
  start: "tbb_reach W fuel steal tr d4r merge h (tbb_init h)"
| task: "tbb_reach W fuel steal tr d4r merge h s \<Longrightarrow> task_step W fuel steal tr t s s' \<Longrightarrow>
    tbb_reach W fuel steal tr d4r merge h s'"
| main: "tbb_reach W fuel steal tr d4r merge h s \<Longrightarrow> main_step tr s s' \<Longrightarrow> tbb_reach W fuel steal tr d4r merge h s'"
| api: "tbb_reach W fuel steal tr d4r merge h s \<Longrightarrow> api_step d4r merge s s' \<Longrightarrow> tbb_reach W fuel steal tr d4r merge h s'"

end
