(* ===== verification/Tbb_Safety.thy ===== *)
theory Tbb_Safety
  imports Tbb_Sched
begin

section \<open>Safety of the work-stealing scheduler\<close>

text \<open>
  The invariants of the states that the scheduler of \<open>Tbb_Sched\<close> can reach: allocated handles,
  one task for a kernel, locks and their holders, and the kernels the run queue must hold.
\<close>

subsection \<open>Invariants\<close>

fun task_locks :: "kt \<times> task_pc \<Rightarrow> kt set" where
  "task_locks (k, T_Start) = {}"
| "task_locks (k, T_Have n b) = {k, b}"
| "task_locks (k, pc) = {k}"

fun task_kts :: "kt \<times> task_pc \<Rightarrow> kt set" where
  "task_kts (k, T_Have n b) = {k, b}"
| "task_kts (k, T_Block n b) = {k, b}"
| "task_kts (k, pc) = {k}"

fun main_kts :: "main_pc \<Rightarrow> kt set" where
  "main_kts M_Exit = {}"
| "main_kts M_While = {}"
| "main_kts M_Pop = {}"
| "main_kts (M_Test k) = {k}"
| "main_kts (M_Try k) = {k}"
| "main_kts (M_Locked k) = {k}"
| "main_kts (M_Requeue k) = {k}"

lemma task_kts_fst: "k \<in> task_kts (k, pc)"
  by (cases pc) simp_all

text \<open>Handles are allocated; \<open>running\<close> counts the tasks of a kernel, and there is at most one.\<close>

definition inv_id :: "tbb_state \<Rightarrow> bool" where
  "inv_id s \<longleftrightarrow> (\<forall>t p. tasks s t = Some p \<longrightarrow> t < ntasks s \<and> (\<forall>k\<in>task_kts p. k < nkts s)) \<and>
     (\<forall>q i. kmap s q = Some (Some i) \<longrightarrow> i < nkts s) \<and> (\<forall>k\<in>set (runq s) \<union> main_kts (mpc s). k < nkts s)"

definition task_kt :: "tbb_state \<Rightarrow> nat \<Rightarrow> kt option" where
  "task_kt s t = map_option fst (tasks s t)"

definition inv_run :: "tbb_state \<Rightarrow> bool" where
  "inv_run s \<longleftrightarrow>
     (\<forall>t k. task_kt s t = Some k \<longrightarrow> running (kts s k) = 1) \<and>
     (\<forall>t t' k. task_kt s t = Some k \<longrightarrow> task_kt s t' = Some k \<longrightarrow> t = t') \<and>
     (\<forall>k < nkts s. running (kts s k) = 0 \<or> (\<exists>t. task_kt s t = Some k))"

text \<open>A lock is held by the task or the thread whose position says so.\<close>

definition inv_lock :: "tbb_state \<Rightarrow> bool" where
  "inv_lock s \<longleftrightarrow>
     (\<forall>t p. tasks s t = Some p \<longrightarrow> (\<forall>j\<in>task_locks p. lock (kts s j) = Some (TaskOf t))) \<and>
     (\<forall>t k n b. tasks s t = Some (k, T_Have n b) \<longrightarrow> b \<noteq> k) \<and>
     (\<forall>k. mpc s = M_Locked k \<longrightarrow> lock (kts s k) = Some MainThread)"

text \<open>A kernel that is mapped and was never ended is in the run queue or with the main thread; a kernel that is done
  was ended.\<close>

definition inv_q :: "tbb_state \<Rightarrow> bool" where
  "inv_q s \<longleftrightarrow> (\<forall>i < nkts s. kernel_map_find (rt_kernel (kts s i)) s = Some i \<longrightarrow> i \<notin> ended s \<longrightarrow>
     i \<in> set (runq s) \<union> main_kts (mpc s)) \<and> (\<forall>i < nkts s. is_done (kts s i) \<longrightarrow> i \<in> ended s)"

lemma find_Some: "kernel_map_find q s = Some i \<longleftrightarrow> kmap s q = Some (Some i)"
  by (auto simp: kernel_map_find_def split: option.splits)

lemma find_frame [simp]:
  "kernel_map_find q (upd_kt k f s) = kernel_map_find q s"
  "kernel_map_find q (set_task t v s) = kernel_map_find q s"
  "kernel_map_find q (check b s) = kernel_map_find q s" "kernel_map_find q (check_call b s) = kernel_map_find q s"
  "kernel_map_find q (s\<lparr>sched_on := b\<rparr>) = kernel_map_find q s" "kernel_map_find q (s\<lparr>ended := e\<rparr>) = kernel_map_find q s"
  "kernel_map_find q (s\<lparr>hp := h\<rparr>) = kernel_map_find q s"
  "kernel_map_find q (s\<lparr>runq := r\<rparr>) = kernel_map_find q s"
  "kernel_map_find q (s\<lparr>mpc := m\<rparr>) = kernel_map_find q s"
  "kernel_map_find q (s\<lparr>ntasks := n\<rparr>) = kernel_map_find q s"
  by (simp_all add: kernel_map_find_def)

lemma k_done_kt: "k_done fuel k h = Some (Done (k', h')) \<Longrightarrow> k' = k\<lparr>wait_state := DONE\<rparr>"
  by (auto simp: k_done_def elim!: bind_out_DoneE split: option.splits)

lemmas sched_defs = end_task_def new_kernel_task_def recycle_def acquire_def release_def Let_def

lemma inv_id_task:
  assumes "task_step W fuel steal tr t s s'" "inv_id s"
  shows "inv_id s'"
  using assms
  by (cases rule: task_step.cases)
     (auto simp: inv_id_def sched_defs find_Some dest!: k_done_kt split: if_splits intro: less_SucI)

lemma task_kt_simps [simp]:
  "task_kt (upd_kt k f s) = task_kt s" "task_kt (check b s) = task_kt s" "task_kt (check_call b s) = task_kt s"
  "task_kt (s\<lparr>sched_on := b\<rparr>) = task_kt s" "task_kt (s\<lparr>ended := e\<rparr>) = task_kt s" "task_kt (s\<lparr>hp := h\<rparr>) = task_kt s"
  "task_kt (s\<lparr>runq := r\<rparr>) = task_kt s" "task_kt (s\<lparr>mpc := m\<rparr>) = task_kt s" "task_kt (s\<lparr>ntasks := n\<rparr>) = task_kt s"
  "task_kt (s\<lparr>kmap := c\<rparr>) = task_kt s" "task_kt (set_task t v s) = (task_kt s)(t := map_option fst v)"
  by (auto simp: task_kt_def fun_eq_iff)

lemma task_ktI: "tasks s t = Some (k, pc) \<Longrightarrow> task_kt s t = Some k"
  by (simp add: task_kt_def)

lemma inv_run_frame [simp]:
  "inv_run (check b s) = inv_run s" "inv_run (check_call b s) = inv_run s"
  "inv_run (s\<lparr>sched_on := b\<rparr>) = inv_run s" "inv_run (s\<lparr>ended := e\<rparr>) = inv_run s"
  "inv_run (s\<lparr>hp := h\<rparr>) = inv_run s" "inv_run (s\<lparr>runq := r\<rparr>) = inv_run s"
  "inv_run (s\<lparr>mpc := m\<rparr>) = inv_run s" "inv_run (s\<lparr>ntasks := n\<rparr>) = inv_run s" "inv_run (s\<lparr>kmap := c\<rparr>) = inv_run s"
  by (simp_all add: inv_run_def)

lemma inv_run_upd: "running (f (kts s k)) = running (kts s k) \<Longrightarrow> inv_run (upd_kt k f s) = inv_run s"
proof -
  assume "running (f (kts s k)) = running (kts s k)"
  then have "running (kts (upd_kt k f s) j) = running (kts s j)" for j by simp
  then show ?thesis unfolding inv_run_def by simp
qed

lemma inv_run_pc: "inv_run s \<Longrightarrow> tasks s t = Some (k, pc) \<Longrightarrow> inv_run (set_task t (Some (k, pc')) s)"
  using task_ktI [of s t k pc] by (simp add: inv_run_def fun_upd_idem)

lemma inv_run_end:
  assumes "inv_run s" "tasks s t = Some (k, pc)"
  shows "inv_run (end_task t k s)"
proof -
  note t = task_ktI [OF assms(2)]
  have u: "task_kt s t' = Some k \<Longrightarrow> t' = t" for t' using assms(1) t by (auto simp: inv_run_def)
  have r: "running (kts s k) = 1" using assms(1) t by (auto simp: inv_run_def)
  show ?thesis
    unfolding inv_run_def end_task_def
  proof (intro conjI allI impI, goal_cases)
    case (1 t' k') then show ?case using assms(1) u by (auto simp: inv_run_def split: if_splits)
  next
    case (2 t1 t2 k') then show ?case using assms(1) unfolding inv_run_def by (simp split: if_splits)
  next
    case (3 k')
    show ?case
    proof (cases "k' = k")
      case False
      then consider "running (kts s k') = 0" | t' where "task_kt s t' = Some k'"
        using assms(1) 3 by (auto simp: inv_run_def)
      then show ?thesis
      proof cases
        case (2 t')
        then have "t' \<noteq> t" using t False by auto
        then show ?thesis using 2 by (intro disjI2 exI [of _ t']) simp
      qed (simp add: False)
    qed (simp add: r)
  qed
qed

lemma inv_run_new:
  assumes "inv_run s" "running (kts s k) = 0" "k < nkts s" "tasks s t = None"
  shows "inv_run (set_task t (Some (k, pc)) (upd_kt k (\<lambda>k. k\<lparr>running := running k + 1\<rparr>) s))"
proof -
  have no: "task_kt s t' \<noteq> Some k" for t' using assms by (auto simp: inv_run_def)
  have t: "task_kt s t = None" by (simp add: task_kt_def assms(4))
  show ?thesis
    unfolding inv_run_def
  proof (intro conjI allI impI, goal_cases)
    case (1 t' k') then show ?case using assms(1,2) no by (auto simp: inv_run_def split: if_splits)
  next
    case (2 t1 t2 k') then show ?case using assms(1) no unfolding inv_run_def by (simp split: if_splits)
  next
    case (3 k')
    show ?case
    proof (cases "k' = k")
      case False
      then consider "running (kts s k') = 0" | t' where "task_kt s t' = Some k'"
        using assms(1) 3 by (auto simp: inv_run_def)
      then show ?thesis
      proof cases
        case (2 t')
        then have "t' \<noteq> t" using t by auto
        then show ?thesis using 2 by (intro disjI2 exI [of _ t']) simp
      qed (simp add: False)
    qed (intro disjI2 exI [of _ t], simp)
  qed
qed


lemma upd_kt_id: "upd_kt k (\<lambda>_. kts s k) s = s"
  by (simp add: upd_kt_def)

lemma set_task_ntasks: "set_task t v (s\<lparr>ntasks := n\<rparr>) = (set_task t v s)\<lparr>ntasks := n\<rparr>"
  by (simp add: set_task_def)

lemma set_task_upd: "set_task t v (upd_kt k f s) = upd_kt k f (set_task t v s)"
  "set_task t v (check b s) = check b (set_task t v s)"
  by (simp_all add: set_task_def upd_kt_def check_def)

lemma inv_run_spawn:
  assumes "inv_run s" "running (kts s k) = 0" "k < nkts s" "tasks s (ntasks s) = None"
  shows "inv_run (new_kernel_task k tr (upd_kt k (\<lambda>k. k\<lparr>running := running k + 1\<rparr>) s))"
proof -
  have "inv_run (set_task (ntasks s) (Some (k, T_Start)) (upd_kt k (\<lambda>k. k\<lparr>running := running k + 1\<rparr>) s))"
    by (rule inv_run_new [OF assms])
  then show ?thesis
    unfolding new_kernel_task_def Let_def set_task_ntasks
    by (simp add: inv_run_upd set_task_upd)
qed

lemma ntasks_fresh: "inv_id s \<Longrightarrow> tasks s (ntasks s) = None"
  unfolding inv_id_def by (metis less_irrefl not_None_eq)

lemma inv_run_task:
  assumes "task_step W fuel steal tr t s s'" "inv_run s" "inv_id s"
  shows "inv_run s'"
  using assms(1)
proof (cases rule: task_step.cases)
  case (run_blocker k n b)
  have "b < nkts s" using assms(3) run_blocker(2) by (fastforce simp: inv_id_def)
  moreover have "ntasks s \<noteq> t" using assms(3) run_blocker(2) by (auto simp: inv_id_def)
  ultimately have "inv_run (new_kernel_task b tr (upd_kt b (\<lambda>b. b\<lparr>running := running b + 1\<rparr>)
      (upd_kt k (\<lambda>k. k\<lparr>stats := (stats k)\<lparr>num_continue := num_continue (stats k) + 1\<rparr>\<rparr>)
        (set_task t (Some (k, T_Start)) s))))"
    using assms run_blocker ntasks_fresh
    by (intro inv_run_spawn) (auto simp: inv_run_upd inv_run_pc)
  moreover have "recycle t k (upd_kt b (\<lambda>b. b\<lparr>running := running b + 1\<rparr>) s) =
      upd_kt b (\<lambda>b. b\<lparr>running := running b + 1\<rparr>)
      (upd_kt k (\<lambda>k. k\<lparr>stats := (stats k)\<lparr>num_continue := num_continue (stats k) + 1\<rparr>\<rparr>)
        (set_task t (Some (k, T_Start)) s))"
    by (auto simp: recycle_def upd_kt_def set_task_def fun_eq_iff)
  ultimately show ?thesis
    unfolding run_blocker(1) release_def by (simp add: inv_run_upd)
next
  case (finished k n k' h)
  then show ?thesis using assms(2) by (auto dest!: k_done_kt simp: inv_run_upd set_task_upd inv_run_pc)
qed (use assms(2) in \<open>simp_all add: inv_run_upd inv_run_pc inv_run_end acquire_def release_def recycle_def\<close>)

lemma inv_run_main:
  assumes "main_step tr s s'" "inv_run s" "inv_id s"
  shows "inv_run s'"
  using assms(1)
proof (cases rule: main_step.cases)
  case (spawn k)
  have "k < nkts s" using assms(3) spawn(2) by (simp add: inv_id_def)
  then show ?thesis using assms spawn ntasks_fresh
    by (simp add: inv_run_upd release_def inv_run_spawn)
qed (use assms(2) in \<open>simp_all add: inv_run_upd acquire_def release_def\<close>)

lemma inv_run_api:
  assumes "api_step d4r merge s s'" "inv_run s" "inv_id s"
  shows "inv_run s'"
  using assms(1)
proof (cases rule: api_step.cases)
  case (call k)
  have "task_kt s t \<noteq> Some (nkts s)" for t
    using assms(3) task_kts_fst by (fastforce simp: task_kt_def inv_id_def)
  then show ?thesis unfolding call callKernel_def Let_def
    using assms(2)
    by (simp add: inv_run_def kernel_map_insert_def new_kernel_t_def k_active_def task_kt_def less_Suc_eq)
next
  case (remove k)
  then show ?thesis using assms(2)
    by (auto simp: removeKernel_def kernel_map_insert_def inv_run_upd split: option.splits)
qed (use assms(2) in \<open>simp_all add: inv_run_upd acquire_def release_def pauseKernel_def unPauseKernel_def
   waitKernel_def start_sched_on_def stop_sched_def k_pause_def k_unpause_def k_active_def split: option.splits\<close>)

lemma inv_id_main:
  assumes "main_step tr s s'" "inv_id s"
  shows "inv_id s'"
  using assms
  by (cases rule: main_step.cases)
     (auto simp: inv_id_def sched_defs find_Some split: if_splits intro: less_SucI)

lemma inv_id_api:
  assumes "api_step d4r merge s s'" "inv_id s"
  shows "inv_id s'"
  using assms
  by (cases rule: api_step.cases)
     (auto simp: inv_id_def sched_defs find_Some callKernel_def removeKernel_def pauseKernel_def unPauseKernel_def
       waitKernel_def start_sched_on_def stop_sched_def kernel_map_insert_def split: if_splits option.splits intro: less_SucI)


lemma inv_lock_frame [simp]:
  "inv_lock (check b s) = inv_lock s" "inv_lock (check_call b s) = inv_lock s"
  "inv_lock (s\<lparr>sched_on := b\<rparr>) = inv_lock s" "inv_lock (s\<lparr>ended := e\<rparr>) = inv_lock s"
  "inv_lock (s\<lparr>hp := h\<rparr>) = inv_lock s" "inv_lock (s\<lparr>runq := r\<rparr>) = inv_lock s"
  "inv_lock (s\<lparr>ntasks := n\<rparr>) = inv_lock s" "inv_lock (s\<lparr>kmap := c\<rparr>) = inv_lock s"
  by (simp_all add: inv_lock_def)

lemma inv_lock_upd: "lock (f (kts s k)) = lock (kts s k) \<Longrightarrow> inv_lock (upd_kt k f s) = inv_lock s"
proof -
  assume "lock (f (kts s k)) = lock (kts s k)"
  then have "lock (kts (upd_kt k f s) j) = lock (kts s j)" for j by simp
  then show ?thesis unfolding inv_lock_def by simp
qed

lemma inv_lock_end_task: "inv_lock (end_task t k s) = inv_lock (set_task t None s)"
  by (simp add: end_task_def set_task_upd inv_lock_upd)

lemma inv_lockD:
  assumes "inv_lock s"
  shows "tasks s t = Some p \<Longrightarrow> j \<in> task_locks p \<Longrightarrow> lock (kts s j) = Some (TaskOf t)"
    and "tasks s t = Some (k, T_Have n b) \<Longrightarrow> b \<noteq> k"
    and "mpc s = M_Locked k \<Longrightarrow> lock (kts s k) = Some MainThread"
  using assms unfolding inv_lock_def by blast+

lemma inv_lockI:
  assumes "\<And>t p j. tasks s t = Some p \<Longrightarrow> j \<in> task_locks p \<Longrightarrow> lock (kts s j) = Some (TaskOf t)"
    and "\<And>t k n b. tasks s t = Some (k, T_Have n b) \<Longrightarrow> b \<noteq> k"
    and "\<And>k. mpc s = M_Locked k \<Longrightarrow> lock (kts s k) = Some MainThread"
  shows "inv_lock s"
  unfolding inv_lock_def using assms by blast

lemma inv_lock_pc:
  assumes "inv_lock s" "tasks s t = Some p" "task_locks p' \<subseteq> task_locks p" "\<And>k n b. p' \<noteq> (k, T_Have n b)"
  shows "inv_lock (set_task t (Some p') s)"
proof (rule inv_lockI, goal_cases)
  case (1 t' q j)
  then show ?case
    using assms(2,3) inv_lockD(1) [OF assms(1) assms(2)] inv_lockD(1) [OF assms(1), of t' q] by (cases "t' = t") auto
next
  case (2 t' k n b)
  then show ?case using assms inv_lockD(2) [OF assms(1)] by (cases "t' = t") auto
qed (use inv_lockD(3) [OF assms(1)] in simp)

lemma inv_lock_None:
  assumes "inv_lock s"
  shows "inv_lock (set_task t None s)"
proof (rule inv_lockI, goal_cases)
  case (1 t' q j)
  then show ?case using inv_lockD(1) [OF assms(1)] by (auto split: if_splits)
next
  case (2 t' k n b)
  then show ?case using inv_lockD(2) [OF assms(1)] by (auto split: if_splits)
qed (use inv_lockD(3) [OF assms(1)] in simp)

text \<open>The holder of a lock may take another position and give the lock back.\<close>

lemma inv_lock_release:
  assumes "inv_lock s" "tasks s t = Some p" "j \<in> task_locks p"
    and "v = None \<or> (\<exists>p'. v = Some p' \<and> task_locks p' \<subseteq> task_locks p - {j} \<and> (\<forall>k n b. p' \<noteq> (k, T_Have n b)))"
  shows "inv_lock (release j (set_task t v s))"
proof -
  note D = inv_lockD [OF assms(1)]
  have l: "lock (kts s j) = Some (TaskOf t)" using D(1) assms(2,3) .
  have o: "j \<notin> task_locks q" if "t' \<noteq> t" "tasks s t' = Some q" for t' q
    using that l D(1) [OF that(2)] by force
  have m: "mpc s \<noteq> M_Locked j" using l D(3) by force
  show ?thesis
  proof (rule inv_lockI, goal_cases)
    case (1 t' q i)
    show ?case
    proof (cases "t' = t")
      case True
      then have "v = Some q" using 1(1) by (simp add: release_def)
      then have "i \<in> task_locks p - {j}" using assms(4) 1(2) by auto
      then show ?thesis using D(1) [OF assms(2)] True by (simp add: release_def)
    next
      case False
      then have q: "tasks s t' = Some q" using 1(1) by (simp add: release_def)
      then have "i \<noteq> j" using o [OF False] 1(2) by blast
      then show ?thesis using D(1) [OF q 1(2)] by (simp add: release_def)
    qed
  next
    case (2 t' k n b)
    then show ?case using D(2) assms(4) by (auto simp: release_def split: if_splits)
  next
    case (3 k)
    then show ?case using D(3) m by (auto simp: release_def)
  qed
qed

lemma inv_lock_acquire:
  assumes "inv_lock s" "lock (kts s j) = None" "tasks s t = Some p" "task_locks p' \<subseteq> insert j (task_locks p)"
    and "\<And>k n b. p' = (k, T_Have n b) \<Longrightarrow> b \<noteq> k"
  shows "inv_lock (set_task t (Some p') (acquire (TaskOf t) j s))"
proof -
  note D = inv_lockD [OF assms(1)]
  have o: "j \<notin> task_locks q" if "tasks s t' = Some q" for t' q
    using D(1) [OF that] assms(2) by force
  have m: "mpc s \<noteq> M_Locked j" using assms(2) D(3) by force
  show ?thesis
  proof (rule inv_lockI, goal_cases)
    case (1 t' q i)
    show ?case
    proof (cases "t' = t")
      case True
      then have "q = p'" using 1(1) by (simp add: acquire_def)
      then have "i = j \<or> i \<in> task_locks p" using assms(4) 1(2) by auto
      then show ?thesis using D(1) [OF assms(3)] True by (auto simp: acquire_def)
    next
      case False
      then have q: "tasks s t' = Some q" using 1(1) by (simp add: acquire_def)
      then have "i \<noteq> j" using o 1(2) by blast
      then show ?thesis using D(1) [OF q 1(2)] by (simp add: acquire_def)
    qed
  next
    case (2 t' k n b)
    then show ?case using D(2) assms(5) by (auto simp: acquire_def split: if_splits)
  next
    case (3 k)
    then show ?case using D(3) m by (auto simp: acquire_def)
  qed
qed

lemma release_commute: "release b (release k s) = release k (release b s)"
  by (auto simp: release_def upd_kt_def fun_upd_twist)

lemma release_frame [simp]:
  "release j (check b s) = check b (release j s)" "release j (set_task t v s) = set_task t v (release j s)"
  "release j (s\<lparr>ntasks := n\<rparr>) = (release j s)\<lparr>ntasks := n\<rparr>"
  by (simp_all add: release_def upd_kt_def check_def set_task_def)

lemma inv_lock_rel_upd:
  "(\<And>K. lock (f (K\<lparr>lock := None\<rparr>)) = None) \<Longrightarrow> (\<And>K. lock (f K) = lock K) \<Longrightarrow>
   inv_lock (release j (upd_kt k f s)) = inv_lock (release j s)"
proof -
  assume f: "\<And>K. lock (f (K\<lparr>lock := None\<rparr>)) = None" "\<And>K. lock (f K) = lock K"
  have "lock (kts (release j (upd_kt k f s)) i) = lock (kts (release j s) i)" for i
    by (simp add: release_def f)
  moreover have "tasks (release j (upd_kt k f s)) = tasks (release j s)" "mpc (release j (upd_kt k f s)) = mpc (release j s)"
    by (simp_all add: release_def)
  ultimately show ?thesis unfolding inv_lock_def by simp
qed


lemma inv_lock_cong:
  assumes "tasks s' = tasks s" "mpc s' = mpc s" "\<And>j. lock (kts s' j) = lock (kts s j)"
  shows "inv_lock s' = inv_lock s"
  unfolding inv_lock_def assms by simp

text \<open>A new task holds no lock.\<close>

lemma inv_lock_new:
  assumes "inv_lock s" "tasks s (ntasks s) = None"
  shows "inv_lock (new_kernel_task k tr s)"
proof -
  have "inv_lock (set_task (ntasks s) (Some (k, T_Start)) s)"
  proof (rule inv_lockI, goal_cases)
    case (1 t p j) then show ?case using inv_lockD(1) [OF assms(1)] by (auto split: if_splits)
  next
    case (2 t k n b) then show ?case using inv_lockD(2) [OF assms(1)] by (auto split: if_splits)
  qed (use inv_lockD(3) [OF assms(1)] in simp)
  then show ?thesis
    by (subst inv_lock_cong [of _ "set_task (ntasks s) (Some (k, T_Start)) s"])
       (simp_all add: new_kernel_task_def Let_def)
qed

lemma inv_lock_task:
  assumes "task_step W fuel steal tr t s s'" "inv_lock s" "inv_id s"
  shows "inv_lock s'"
  using assms(1)
proof (cases rule: task_step.cases)
  case (no_lock k)
  then show ?thesis using assms(2) by (simp add: inv_lock_end_task inv_lock_None)
next
  case (got_lock k)
  then show ?thesis using inv_lock_acquire [OF assms(2) got_lock(3,2), of "(k, T_Check)"] by simp
next
  case (not_owner k)
  have "inv_lock (release k (set_task t None s))"
    by (rule inv_lock_release [OF assms(2) not_owner(2)]) simp_all
  then show ?thesis unfolding not_owner(1)
    by (subst inv_lock_cong [of _ "release k (set_task t None s)"]) (simp_all add: end_task_def release_def)
next
  case (not_active k)
  have "inv_lock (release k (set_task t None s))"
    by (rule inv_lock_release [OF assms(2) not_active(2)]) simp_all
  then show ?thesis unfolding not_active(1)
    by (subst inv_lock_cong [of _ "release k (set_task t None s)"]) (simp_all add: end_task_def release_def)
next
  case (finished k n k' h)
  have "inv_lock (set_task t (Some (k, T_Break)) s)"
    by (rule inv_lock_pc [OF assms(2) finished(2)]) simp_all
  then show ?thesis unfolding finished(1)
    by (subst inv_lock_cong [of _ "set_task t (Some (k, T_Break)) s"]) (simp_all add: k_done_kt [OF finished(3)])
next
  case (blocker_lock k n b)
  have "b \<noteq> k" using inv_lockD(1) [OF assms(2) blocker_lock(2), of k] blocker_lock(3) by auto
  then show ?thesis unfolding blocker_lock(1)
    by (intro inv_lock_acquire [OF assms(2) blocker_lock(3,2)]) auto
next
  case (run_blocker k n b)
  have bk: "b \<noteq> k" using inv_lockD(2) [OF assms(2) run_blocker(2)] .
  have "inv_lock (release b (set_task t (Some (k, T_Check)) s))"
    by (rule inv_lock_release [OF assms(2) run_blocker(2)]) (use bk in auto)
  then have "inv_lock (release k (set_task t (Some (k, T_Start)) (release b (set_task t (Some (k, T_Check)) s))))"
    by (rule inv_lock_release [where p = "(k, T_Check)"]) (simp_all add: release_def)
  then have 1: "inv_lock (new_kernel_task b tr (release k (set_task t (Some (k, T_Start)) (release b (set_task t (Some (k, T_Check)) s)))))"
    using ntasks_fresh [OF assms(3)] run_blocker(2) by (intro inv_lock_new) (auto simp: release_def)
  show ?thesis unfolding run_blocker(1)
    by (subst inv_lock_cong [OF _ _ _, THEN iffD2, OF _ _ _ 1])
       (auto simp: new_kernel_task_def recycle_def release_def Let_def fun_eq_iff)
next
  case (steal_blocker k n b)
  have bk: "b \<noteq> k" using inv_lockD(2) [OF assms(2) steal_blocker(2)] .
  have "inv_lock (release b (set_task t (Some (k, T_Check)) s))"
    by (rule inv_lock_release [OF assms(2) steal_blocker(2)]) (use bk in auto)
  then have 1: "inv_lock (release k (set_task t (Some (k, T_Start)) (release b (set_task t (Some (k, T_Check)) s))))"
    by (rule inv_lock_release [where p = "(k, T_Check)"]) (simp_all add: release_def)
  show ?thesis unfolding steal_blocker(1)
    by (subst inv_lock_cong [OF _ _ _, THEN iffD2, OF _ _ _ 1])
       (auto simp: recycle_def release_def Let_def fun_eq_iff)
next
  case (no_steal k n b)
  have bk: "b \<noteq> k" using inv_lockD(2) [OF assms(2) no_steal(2)] .
  have "inv_lock (release b (set_task t (Some (k, T_Retry n)) s))"
    by (rule inv_lock_release [OF assms(2) no_steal(2)]) (use bk in auto)
  then show ?thesis unfolding no_steal(1) by simp
next
  case (leave k)
  have "inv_lock (release k (set_task t None s))"
    by (rule inv_lock_release [OF assms(2) leave(2)]) simp_all
  then show ?thesis unfolding leave(1)
    by (subst inv_lock_cong [of _ "release k (set_task t None s)"]) (simp_all add: end_task_def release_def)
qed (use assms(2) in \<open>auto simp: inv_lock_upd intro!: inv_lock_pc\<close>)


lemma inv_lock_release_other:
  assumes "inv_lock s" "\<And>t. lock (kts s j) \<noteq> Some (TaskOf t)" "mpc s = M_Locked j \<Longrightarrow> m \<noteq> M_Locked j"
    and "\<And>k. m = M_Locked k \<Longrightarrow> mpc s = M_Locked k"
  shows "inv_lock ((release j s)\<lparr>mpc := m\<rparr>)"
proof -
  note D = inv_lockD [OF assms(1)]
  show ?thesis
  proof (rule inv_lockI, goal_cases)
    case (1 t p i)
    then have "lock (kts s i) = Some (TaskOf t)" using D(1) by (simp add: release_def)
    then show ?case using assms(2) by (auto simp: release_def)
  next
    case (2 t k n b) then show ?case using D(2) by (simp add: release_def)
  next
    case (3 k)
    then have "mpc s = M_Locked k" "k \<noteq> j" using assms(3,4) by auto
    then show ?case using D(3) by (simp add: release_def)
  qed
qed

lemma inv_lock_acquire_other:
  assumes "inv_lock s" "lock (kts s j) = None" "\<And>t. a \<noteq> TaskOf t" "\<And>k. m = M_Locked k \<Longrightarrow> k = j \<and> a = MainThread \<or> mpc s = M_Locked k"
  shows "inv_lock ((acquire a j s)\<lparr>mpc := m\<rparr>)"
proof -
  note D = inv_lockD [OF assms(1)]
  show ?thesis
  proof (rule inv_lockI, goal_cases)
    case (1 t p i)
    then have "lock (kts s i) = Some (TaskOf t)" using D(1) by (simp add: acquire_def)
    then show ?case using assms(2) by (auto simp: acquire_def)
  next
    case (2 t k n b) then show ?case using D(2) by (simp add: acquire_def)
  next
    case (3 k)
    then have "k = j \<and> a = MainThread \<or> mpc s = M_Locked k" using assms(4) by simp
    then show ?case using D(3) [of k] assms(2) by (auto simp: acquire_def)
  qed
qed

lemma inv_lock_mpc:
  "inv_lock s \<Longrightarrow> (\<And>k. m \<noteq> M_Locked k) \<Longrightarrow> inv_lock (s\<lparr>mpc := m\<rparr>)"
  by (rule inv_lockI) (use inv_lockD in auto)

lemma inv_lock_main:
  assumes "main_step tr s s'" "inv_lock s" "inv_id s"
  shows "inv_lock s'"
  using assms(1)
proof (cases rule: main_step.cases)
  case (try_yes k)
  show ?thesis unfolding try_yes(1) using try_yes(2,3)
    by (intro inv_lock_acquire_other [OF assms(2)]) simp_all
next
  case (spawn k)
  define g where "g = new_kernel_task k tr (upd_kt k (\<lambda>k. k\<lparr>running := running k + 1\<rparr>) s)"
  have "inv_lock g" unfolding g_def
    using assms(2) ntasks_fresh [OF assms(3)] by (intro inv_lock_new) (simp_all add: inv_lock_upd)
  moreover have "lock (kts g k) = Some MainThread"
    using inv_lockD(3) [OF assms(2) spawn(2)] by (simp add: g_def new_kernel_task_def Let_def)
  ultimately show ?thesis unfolding spawn(1) g_def [symmetric] by (intro inv_lock_release_other) simp_all
next
  case (no_spawn k)
  then show ?thesis using assms(2) inv_lockD(3) [OF assms(2) no_spawn(2)]
    by (auto intro!: inv_lock_release_other)
next
  case (pop k q)
  then show ?thesis using assms(2) by (auto intro!: inv_lockI dest: inv_lockD)
next
  case (requeue k)
  then show ?thesis using assms(2) by (auto intro!: inv_lockI dest: inv_lockD)
qed (use assms(2) in \<open>simp_all add: inv_lock_mpc\<close>)

lemma task_locks_kts: "j \<in> task_locks p \<Longrightarrow> j \<in> task_kts p"
  by (cases p rule: task_locks.cases) auto

lemma inv_lock_api:
  assumes "api_step d4r merge s s'" "inv_lock s" "inv_id s"
  shows "inv_lock s'"
  using assms(1)
proof (cases rule: api_step.cases)
  case (call k)
  have no: "nkts s \<notin> task_locks p" if "tasks s t = Some p" for t p
    using assms(3) that task_locks_kts unfolding inv_id_def by (meson less_irrefl)
  have m: "mpc s \<noteq> M_Locked (nkts s)" using assms(3) by (auto simp: inv_id_def)
  note D = inv_lockD [OF assms(2)]
  show ?thesis
  proof (rule inv_lockI, goal_cases)
    case (1 t p i)
    then have p: "tasks s t = Some p" by (simp add: call callKernel_def Let_def kernel_map_insert_def)
    then have "i \<noteq> nkts s" using no 1(2) by blast
    then show ?case using D(1) [OF p 1(2)] by (simp add: call callKernel_def Let_def kernel_map_insert_def)
  next
    case (2 t k' n b)
    then show ?case using D(2) by (simp add: call callKernel_def Let_def kernel_map_insert_def)
  next
    case (3 k')
    then have k': "mpc s = M_Locked k'" by (simp add: call callKernel_def Let_def kernel_map_insert_def)
    then have "k' \<noteq> nkts s" using m by blast
    then show ?case using D(3) [OF k'] by (simp add: call callKernel_def Let_def kernel_map_insert_def)
  qed
next
  case (remove k)
  then show ?thesis using assms(2)
    by (auto simp: removeKernel_def kernel_map_insert_def inv_lock_upd split: option.splits)
next
  case (pauser_lock i)
  have "inv_lock ((acquire Pauser i s)\<lparr>mpc := mpc s\<rparr>)"
    using pauser_lock by (intro inv_lock_acquire_other [OF assms(2)]) simp_all
  moreover have "(acquire Pauser i s)\<lparr>mpc := mpc s\<rparr> = acquire Pauser i s" by (simp add: acquire_def upd_kt_def)
  ultimately show ?thesis unfolding pauser_lock(1) by metis
next
  case (pauser_unlock i)
  have "mpc s \<noteq> M_Locked i" using inv_lockD(3) [OF assms(2), of i] pauser_unlock(2) by auto
  then have "inv_lock ((release i s)\<lparr>mpc := mpc s\<rparr>)"
    using pauser_unlock by (intro inv_lock_release_other [OF assms(2)]) simp_all
  moreover have "(release i s)\<lparr>mpc := mpc s\<rparr> = release i s" by (simp add: release_def upd_kt_def)
  ultimately show ?thesis unfolding pauser_unlock(1) by metis
next
  case start_it
  have "inv_lock (s\<lparr>mpc := M_While, sched_on := True\<rparr>)" unfolding inv_lock_frame by (rule inv_lock_mpc [OF assms(2)]) simp
  then show ?thesis using assms(2) by (simp add: start_it start_sched_on_def)
qed (use assms(2) in \<open>simp_all add: inv_lock_upd pauseKernel_def unPauseKernel_def
   waitKernel_def stop_sched_def k_pause_def k_unpause_def k_active_def split: option.splits\<close>)

subsection \<open>The queue\<close>

lemma inv_q_frame [simp]:
  "inv_q (check b s) = inv_q s" "inv_q (set_task t v s) = inv_q s" "inv_q (s\<lparr>hp := h\<rparr>) = inv_q s"
  "inv_q (s\<lparr>ntasks := n\<rparr>) = inv_q s" "inv_q (check_call b s) = inv_q s" "inv_q (s\<lparr>sched_on := b\<rparr>) = inv_q s"
  by (simp_all add: inv_q_def)

lemma inv_q_upd:
  assumes "inv_q s" "rt_kernel (f (kts s k)) = rt_kernel (kts s k)" "is_done (f (kts s k)) \<Longrightarrow> is_done (kts s k)"
  shows "inv_q (upd_kt k f s)"
  using assms unfolding inv_q_def by (auto split: if_splits)

lemma inv_q_keep:
  "inv_q s \<Longrightarrow> (\<And>K. rt_kernel (f K) = rt_kernel K) \<Longrightarrow> (\<And>K. wait_state (f K) = wait_state K) \<Longrightarrow> inv_q (upd_kt k f s)"
  by (rule inv_q_upd) (simp_all add: is_done_def)

lemma inv_q_ended:
  assumes "inv_q s" and "rt_kernel k' = rt_kernel (kts s k)"
  shows "inv_q (upd_kt k (\<lambda>_. k') (s\<lparr>hp := h, ended := insert k (ended s)\<rparr>))"
  using assms unfolding inv_q_def by (auto split: if_splits)

lemma inv_q_task:
  assumes "task_step W fuel steal tr t s s'" "inv_q s"
  shows "inv_q s'"
  using assms(1)
proof (cases rule: task_step.cases)
  case (finished k n k' h)
  then show ?thesis using inv_q_ended [OF assms(2), of k' k h] k_done_kt [OF finished(3)] by simp
qed (use assms(2) in \<open>auto simp: sched_defs intro!: inv_q_keep\<close>)

lemma inv_q_mono:
  assumes "inv_q s" "set (runq s) \<union> main_kts (mpc s) \<subseteq> set q \<union> main_kts m"
  shows "inv_q (s\<lparr>runq := q, mpc := m\<rparr>)" "q = runq s \<Longrightarrow> inv_q (s\<lparr>mpc := m\<rparr>)"
  using assms unfolding inv_q_def by (auto simp: kernel_map_find_def)

lemma inv_q_main:
  assumes "main_step tr s s'" "inv_q s"
  shows "inv_q s'"
  using assms(1)
proof (cases rule: main_step.cases)
  case (drop_it k)
  then show ?thesis using assms(2) unfolding inv_q_def by (auto simp: kernel_map_find_def)
next
  case (spawn k)
  have "inv_q (release k (new_kernel_task k tr (upd_kt k (\<lambda>k. k\<lparr>running := running k + 1\<rparr>) s)))"
    using assms(2) by (auto simp: sched_defs intro!: inv_q_keep)
  then show ?thesis unfolding spawn(1)
    by (rule inv_q_mono(2) [OF _ _ refl]) (simp add: spawn(2) sched_defs)
next
  case (pop k q)
  then show ?thesis using inv_q_mono(1) [OF assms(2), of q "M_Test k"] by simp
next
  case (requeue k)
  then show ?thesis using inv_q_mono(1) [OF assms(2), of "runq s @ [k]" M_While] by simp
next
  case (try_yes k)
  have "inv_q (acquire MainThread k s)" using assms(2) by (auto simp: acquire_def intro!: inv_q_keep)
  then show ?thesis unfolding try_yes(1)
    by (rule inv_q_mono(2) [OF _ _ refl]) (simp add: try_yes(2) acquire_def)
next
  case (no_spawn k)
  have "inv_q (release k s)" using assms(2) by (auto simp: release_def intro!: inv_q_keep)
  then show ?thesis unfolding no_spawn(1)
    by (rule inv_q_mono(2) [OF _ _ refl]) (simp add: no_spawn(2) release_def)
qed (use assms(2) in \<open>auto intro!: inv_q_mono(2) [OF _ _ refl]\<close>)

lemma inv_q_api:
  assumes "api_step d4r merge s s'" "inv_q s" "inv_id s"
  shows "inv_q s'"
  using assms(1)
proof (cases rule: api_step.cases)
  case (call k)
  then show ?thesis using assms(2,3)
    unfolding inv_q_def inv_id_def
    by (auto simp: callKernel_def Let_def kernel_map_insert_def kernel_map_find_def k_active_def new_kernel_t_def
      less_Suc_eq is_done_def split: if_splits)
next
  case (remove k)
  have "inv_q (kernel_map_insert k None g)" if "inv_q g" for g
    using that unfolding inv_q_def by (auto simp: kernel_map_insert_def kernel_map_find_def split: if_splits)
  then show ?thesis using assms(2)
    by (simp add: remove removeKernel_def inv_q_keep split: option.splits)
next
  case (pause k)
  then show ?thesis using assms(2)
    by (auto simp: pauseKernel_def k_pause_def is_done_def split: option.splits if_splits intro!: inv_q_upd)
next
  case (unpause k)
  then show ?thesis using assms(2)
    by (auto simp: unPauseKernel_def k_unpause_def k_active_def is_done_def split: option.splits intro!: inv_q_upd)
next
  case start_it
  have "inv_q (s\<lparr>mpc := M_While\<rparr>)" by (rule inv_q_mono(2) [OF assms(2) _ refl]) (simp add: start_it(2))
  then have "inv_q (s\<lparr>mpc := M_While, sched_on := True\<rparr>)" by simp
  then show ?thesis using assms(2) by (simp add: start_it(1) start_sched_on_def)
qed (use assms(2) in \<open>auto simp: sched_defs waitKernel_def stop_sched_def intro!: inv_q_keep\<close>)


subsection \<open>The assertions\<close>

lemma end_task_ok: "ok (end_task t k s) = (ok s \<and> running (kts s k) > 0)"
  by (simp add: end_task_def)

lemma new_task_ok:
  "ok (new_kernel_task k tr s) = (ok s \<and> lock (kts s k) \<noteq> None \<and> running (kts s k) > 0)"
  by (auto simp: new_kernel_task_def Let_def)

lemma release_ok [simp]: "ok (release k s) = ok s" "ok (acquire a k s) = ok s" "ok (recycle t k s) = ok s"
  by (simp_all add: sched_defs)

lemma inv_run_task_running: "inv_run s \<Longrightarrow> tasks s t = Some (k, pc) \<Longrightarrow> running (kts s k) = 1"
  using task_ktI [of s t k pc] by (simp add: inv_run_def)

lemma ok_task:
  assumes "task_step W fuel steal tr t s s'" "ok s" "inv_run s" "inv_lock s"
  shows "ok s'"
  using assms(1)
proof (cases rule: task_step.cases)
  case (run_blocker k n b)
  have "lock (kts s b) = Some (TaskOf t)" using inv_lockD(1) [OF assms(4) run_blocker(2)] by simp
  then show ?thesis using assms(2) run_blocker by (auto simp: new_task_ok recycle_def)
qed (use assms(2,3) inv_run_task_running in \<open>auto simp: end_task_ok\<close>)

lemma ok_main:
  assumes "main_step tr s s'" "ok s" "inv_lock s"
  shows "ok s'"
  using assms(1)
proof (cases rule: main_step.cases)
  case (spawn k)
  then show ?thesis using assms(2) inv_lockD(3) [OF assms(3) spawn(2)] by (simp add: new_task_ok)
qed (use assms(2) in simp_all)

lemma ok_api: "api_step d4r merge s s' \<Longrightarrow> ok s \<Longrightarrow> ok s'"
  by (cases rule: api_step.cases)
     (auto simp: callKernel_def removeKernel_def pauseKernel_def unPauseKernel_def kernel_map_insert_def Let_def
       waitKernel_def start_sched_on_def stop_sched_def split: option.splits)

text \<open>What holds in every reachable state.\<close>

lemma tbb_reach_inv:
  assumes "tbb_reach W fuel steal tr d4r merge h s"
  shows "inv_id s \<and> inv_run s \<and> inv_lock s \<and> inv_q s \<and> ok s"
  using assms
proof induction
  case start
  then show ?case
    by (simp add: tbb_init_def inv_id_def inv_run_def inv_lock_def inv_q_def task_kt_def new_kernel_t_def)
next
  case (task s t s')
  then show ?case using inv_id_task inv_run_task inv_lock_task inv_q_task ok_task by metis
next
  case (main s s')
  then show ?case using inv_id_main inv_run_main inv_lock_main inv_q_main ok_main by metis
next
  case (api s s')
  then show ?case using inv_id_api inv_run_api inv_lock_api inv_q_api ok_api by metis
qed

subsection \<open>The properties\<close>

text \<open>
  C4. Whatever the main thread, the tasks and the program do (calls for kernels that are not mapped, stops and
  resumptions of finished kernels included), the assertions of the tasks and the main loop, which are about \<open>running\<close> and
  the lock that the constructor of a task needs, never fail; for each \<open>kernel_t\<close>, which stands for one call of a kernel,
  there are never two tasks, \<open>running\<close> is the number of its tasks, and a task that is past its start holds
  its lock, so that no two tasks execute it at a time.  The assertions of \<open>pauseKernel\<close>, \<open>unPauseKernel\<close> and \<open>waitKernel\<close>
  depend on the program; the one in the callback of the deadlock detection is its report.
\<close>

theorem tbb_mutual_exclusion:
  assumes "tbb_reach W fuel steal tr d4r merge h s"
  shows "ok s \<and>
    (\<forall>t t' k pc pc'. tasks s t = Some (k, pc) \<longrightarrow> tasks s t' = Some (k, pc') \<longrightarrow> t = t') \<and>
    (\<forall>k < nkts s. running (kts s k) = (if \<exists>t pc. tasks s t = Some (k, pc) then 1 else 0)) \<and>
    (\<forall>t k pc. tasks s t = Some (k, pc) \<longrightarrow> pc \<noteq> T_Start \<longrightarrow> lock (kts s k) = Some (TaskOf t))"
proof -
  note inv = tbb_reach_inv [OF assms]
  have ex: "(\<exists>t pc. tasks s t = Some (k, pc)) \<longleftrightarrow> (\<exists>t. task_kt s t = Some k)" for k
    by (auto simp: task_kt_def)
  have "lock (kts s k) = Some (TaskOf t)" if "tasks s t = Some (k, pc)" "pc \<noteq> T_Start" for t k pc
    using that inv inv_lockD(1) [of s t "(k, pc)" k] by (cases pc) auto
  moreover have "t = t'" if "tasks s t = Some (k, pc)" "tasks s t' = Some (k, pc')" for t t' k pc pc'
    using that [THEN task_ktI] inv by (auto simp: inv_run_def)
  moreover have "running (kts s k) = (if \<exists>t pc. tasks s t = Some (k, pc) then 1 else 0)" if "k < nkts s" for k
    using that inv unfolding ex inv_run_def by auto
  ultimately show ?thesis using inv by blast
qed

definition tbb_sample :: tbb_state where
  "tbb_sample = start_sched_on (callKernel False False 1 (tbb_init sample_heap))"

lemma tbb_sample_reach: "tbb_reach (\<lambda>_ _ _ _. False) 5 True 0 False False sample_heap tbb_sample"
  unfolding tbb_sample_def
  by (rule tbb_reach.api [OF tbb_reach.api [OF tbb_reach.start api_step.call] api_step.start_it])
    (simp add: callKernel_def tbb_init_def kernel_map_insert_def Let_def)

lemma tbb_sample_spawned:
  "\<exists>s. tbb_reach (\<lambda>_ _ _ _. False) 5 True 0 False False sample_heap s \<and> tasks s 0 = Some (0, T_Start) \<and> nkts s = 1"
proof -
  define s0 where "s0 = tbb_sample\<lparr>mpc := M_Pop\<rparr>"
  define s1 where "s1 = s0\<lparr>runq := [], mpc := M_Test 0\<rparr>"
  define s2 where "s2 = s1\<lparr>mpc := M_Try 0\<rparr>"
  define s3 where "s3 = (acquire MainThread 0 s2)\<lparr>mpc := M_Locked 0\<rparr>"
  define s4 where "s4 = (release 0 (new_kernel_task 0 0 (upd_kt 0 (\<lambda>k. k\<lparr>running := running k + 1\<rparr>) s3)))\<lparr>mpc := M_Requeue 0\<rparr>"
  note d = tbb_sample_def s0_def start_sched_on_def callKernel_def tbb_init_def new_kernel_t_def k_active_def kernel_map_insert_def
    kernel_map_find_def is_active_def upd_kt_def Let_def
  have "main_step 0 tbb_sample s0" unfolding s0_def
    by (rule main_step.while_on) (simp_all add: d)
  moreover have "main_step 0 s0 s1" unfolding s1_def
    by (rule main_step.pop) (simp_all add: d)
  moreover have "main_step 0 s1 s2" unfolding s2_def
    by (rule main_step.test_yes) (simp_all add: s1_def d)
  moreover have "main_step 0 s2 s3" unfolding s3_def
    by (rule main_step.try_yes) (simp_all add: s1_def s2_def d)
  moreover have "main_step 0 s3 s4" unfolding s4_def
    by (rule main_step.spawn) (simp_all add: s1_def s2_def s3_def acquire_def d)
  ultimately have "tbb_reach (\<lambda>_ _ _ _. False) 5 True 0 False False sample_heap s4"
    using tbb_sample_reach by (meson tbb_reach.main)
  moreover have "tasks s4 0 = Some (0, T_Start) \<and> nkts s4 = 1"
    by (simp add: s1_def s2_def s3_def s4_def sched_defs d set_task_def check_def)
  ultimately show ?thesis by blast
qed

theorem tbb_mutual_exclusion_witness:
  "\<exists>s. tbb_reach (\<lambda>_ _ _ _. False) 5 True 0 False False sample_heap s \<and> running (kts s 0) = 1"
proof -
  obtain s where s: "tbb_reach (\<lambda>_ _ _ _. False) 5 True 0 False False sample_heap s"
    "tasks s 0 = Some (0, T_Start)" "nkts s = 1" using tbb_sample_spawned by blast
  have "running (kts s 0) = 1" using tbb_mutual_exclusion [OF s(1)] s(2,3) by auto
  then show ?thesis using s(1) by blast
qed

text \<open>
  C5. The scheduler loses no kernel: a kernel that was called, is still mapped to that call and was never ended (no task called
  its \<open>done\<close>) is in the run queue or in the hands of the main thread, however the tasks, the main loop and the
  calls of the program (pauses, resumptions, stops and starts) interleave.  A kernel that is done was ended;
  one that was ended and then resumed is not covered.
\<close>

theorem tbb_no_kernel_lost:
  assumes "tbb_reach W fuel steal tr d4r merge h s"
    and "kernel_map_find p s = Some i" and "rt_kernel (kts s i) = p" and "i \<notin> ended s"
  shows "\<not> is_done (kts s i) \<and>
    (i \<in> set (runq s) \<or> mpc s \<in> {M_Test i, M_Try i, M_Locked i, M_Requeue i})"
proof -
  note inv = tbb_reach_inv [OF assms(1)]
  have lt: "i < nkts s" using inv assms(2) by (auto simp: inv_id_def find_Some)
  have "i \<in> set (runq s) \<union> main_kts (mpc s) \<and> \<not> is_done (kts s i)"
    using inv assms(2-4) lt by (auto simp: inv_q_def)
  then show ?thesis by (cases "mpc s") auto
qed

theorem tbb_no_kernel_lost_witness:
  "0 \<in> set (runq tbb_sample) \<or> mpc tbb_sample \<in> {M_Test 0, M_Try 0, M_Locked 0, M_Requeue 0}"
proof -
  note d = tbb_sample_def start_sched_on_def callKernel_def tbb_init_def new_kernel_t_def k_active_def
    kernel_map_insert_def kernel_map_find_def is_done_def upd_kt_def Let_def
  have "kernel_map_find 1 tbb_sample = Some 0" "rt_kernel (kts tbb_sample 0) = 1" "0 \<notin> ended tbb_sample"
    by (simp_all add: d)
  then show ?thesis using tbb_no_kernel_lost [OF tbb_sample_reach] by blast
qed

text \<open>
  Resuming a finished kernel breaks this: \<open>active\<close> does not check for a finished kernel, so the
  kernel becomes active again although no run of the scheduler will ever look at it, since it
  had left the queue.  A wait for its end that starts now does not return, whatever else wakes it.
\<close>

theorem tbb_resume_finished:
  assumes "kernel_map_find p s = Some i" and "is_done (kts s i)" and "i \<notin> set (runq s) \<union> main_kts (mpc s)"
  shows "is_active (kts (unPauseKernel p s) i) \<and> kernel_map_find p (unPauseKernel p s) = Some i \<and>
    i \<notin> set (runq (unPauseKernel p s)) \<union> main_kts (mpc (unPauseKernel p s)) \<and>
    k_wait DONE (replicate n (wait_state (kts (unPauseKernel p s) i))) = None"
proof -
  have "k_wait DONE (replicate n ACTIVE) = None" by (induction n) simp_all
  then show ?thesis
    using assms by (simp add: unPauseKernel_def k_unpause_def k_active_def is_active_def)
qed

theorem tbb_resume_finished_witness:
  "is_active (kts (unPauseKernel 1 (upd_kt 0 (\<lambda>k. k\<lparr>wait_state := DONE\<rparr>) (tbb_sample\<lparr>runq := []\<rparr>))) 0)"
  using tbb_resume_finished [of 1 "upd_kt 0 (\<lambda>k. k\<lparr>wait_state := DONE\<rparr>) (tbb_sample\<lparr>runq := []\<rparr>)" 0 0]
  by (simp add: tbb_sample_def start_sched_on_def callKernel_def tbb_init_def new_kernel_t_def k_active_def
       kernel_map_insert_def kernel_map_find_def is_done_def upd_kt_def Let_def)

end
