(* ===== verification/Kernel_Info.thy ===== *)
theory Kernel_Info
  imports Runtime_Objects "HOL-Library.Sublist"
begin

section \<open>The analysis of work functions\<close>

text \<open>
  \<open>lib/SKIR/SKIRKernelInfoPass.cpp\<close>: which kernels are hierarchical, stateful or of a fixed rate,
  and how many elements one iteration pops, pushes and peeks at.  The LLVM function it looks
  at is a list of instructions, each with what the analyses of LLVM say of it: the constant
  trip counts of the loops around it, innermost first (0 when a count is unknown), and whether
  its block post-dominates the entry block.
\<close>

subsection \<open>What the pass sees of a function\<close>

datatype sidx = CIdx nat | VarIdx

text \<open>The offset of a peek: a constant, a recurrence of the loop, another value, or none that is analysed.\<close>

datatype offs = ConstOff uint32 | AddRec "nat \<Rightarrow> uint32" | OtherOff | NoScev

datatype op =
    PushI sidx | PopI sidx | PeekI sidx offs | CallI | KernelI | StreamI
  | CallFn string | StoreI nat | FusePushI nat | FusePopI nat | OtherI

record inst =
  iop :: op
  iloops :: "uint32 list"
  ipdom :: bool

text \<open>The values of a function, by number, as far as an address is made of them.\<close>

datatype vnode = Alloca | Argument | AddrCast nat | BinOp nat nat | Phi "nat list" | OtherInst | Constant | OtherValue

fun op_idx :: "op \<Rightarrow> sidx option" where
  "op_idx (PushI i) = Some i"
| "op_idx (PopI i) = Some i"
| "op_idx (PeekI i d) = Some i"
| "op_idx _ = None"

fun is_push :: "op \<Rightarrow> bool" where "is_push (PushI i) = True" | "is_push _ = False"
fun is_pop :: "op \<Rightarrow> bool" where "is_pop (PopI i) = True" | "is_pop _ = False"
fun is_peek :: "op \<Rightarrow> bool" where "is_peek (PeekI i d) = True" | "is_peek _ = False"

subsection \<open>Is a store free of side effects?\<close>

text \<open>
  \<open>checkStoreAddress\<close>, with the set of visited values passed along.  The recursion follows the
  operands; \<open>None\<close>: the fuel ran out, or the value is of a kind the code does not handle.
\<close>

fun checkStoreAddress :: "(nat \<Rightarrow> vnode) \<Rightarrow> nat \<Rightarrow> nat \<Rightarrow> nat set \<Rightarrow> (uint32 \<times> nat set) option"
  and checkPhi :: "(nat \<Rightarrow> vnode) \<Rightarrow> nat \<Rightarrow> nat list \<Rightarrow> nat set \<Rightarrow> (uint32 \<times> nat set) option" where
  "checkStoreAddress vals 0 v visited = None"
| "checkStoreAddress vals (Suc n) v visited =
     (if v \<in> visited then Some (0, visited)
      else
        (let visited = insert v visited in
         case vals v of
           Alloca \<Rightarrow> Some (0x10, visited)
         | Argument \<Rightarrow> Some (1, visited)
         | AddrCast w \<Rightarrow> checkStoreAddress vals n w visited
         | BinOp a b \<Rightarrow> checkPhi vals n [a, b] visited
         | Phi ws \<Rightarrow> checkPhi vals n (rev ws) visited
         | OtherInst \<Rightarrow> Some (1, visited)
         | Constant \<Rightarrow> Some (0, visited)
         | OtherValue \<Rightarrow> None))"
| "checkPhi vals n [] visited = Some (0, visited)"
| "checkPhi vals n (w # ws) visited =
     (case checkStoreAddress vals n w visited of
        None \<Rightarrow> None
      | Some (r, visited) \<Rightarrow>
          (case checkPhi vals n ws visited of
             None \<Rightarrow> None
           | Some (r', visited) \<Rightarrow> Some (or r r', visited)))"

subsection \<open>Rates\<close>

definition MAX_STREAMS :: nat where "MAX_STREAMS = 512"

text \<open>An array of constants, one for a stream; the null pointer is \<open>None\<close>.\<close>

type_synonym rates = "nat \<Rightarrow> uint32 option"

definition rate_of :: "uint32 option \<Rightarrow> uint32" where
  "rate_of v = (case v of None \<Rightarrow> 0 | Some r \<Rightarrow> r)"

text \<open>\<open>getRate\<close>: the loop over the enclosing loops, and the function; indices are below \<open>MAX_STREAMS\<close>.\<close>

fun getRate_loops :: "nat \<Rightarrow> uint32 list \<Rightarrow> rates \<Rightarrow> uint32 option \<times> rates" where
  "getRate_loops s [] streams = (streams s, streams)"
| "getRate_loops s (c # L) streams =
     (if c = 0 then (None, streams(s := None))
      else getRate_loops s L (streams(s := Some (rate_of (streams s) + c))))"

definition getRate :: "inst \<Rightarrow> rates \<Rightarrow> uint32 option \<times> rates" where
  "getRate inst streams =
     (case op_idx (iop inst) of
        Some (CIdx s) \<Rightarrow>
          (if iloops inst = [] then
             (let streams = (if ipdom inst then streams(s := Some (rate_of (streams s) + 1)) else streams) in
              (streams s, streams))
           else getRate_loops s (iloops inst) streams)
      | _ \<Rightarrow> (None, streams))"

record info =
  ins_rate :: rates
  outs_rate :: rates
  peeks :: rates
  peeks_rate :: rates
  fixed :: bool

definition fail_rate :: "nat \<Rightarrow> info \<Rightarrow> info" where
  "fail_rate s i = i\<lparr>peeks := (peeks i)(s := None), fixed := False\<rparr>"

definition max_offset :: "nat \<Rightarrow> uint32 \<Rightarrow> info \<Rightarrow> info" where
  "max_offset s c i = i\<lparr>peeks := (peeks i)(s := Some (max c (rate_of (peeks i s))))\<rparr>"

definition getRateOffset :: "inst \<Rightarrow> info \<Rightarrow> info" where
  "getRateOffset inst i =
     (let (v, pr) = getRate inst (peeks_rate i);
          i = i\<lparr>peeks_rate := pr\<rparr> in
      case iop inst of
        PeekI idx off \<Rightarrow>
          (case idx of
             VarIdx \<Rightarrow> i
           | CIdx s \<Rightarrow>
               if v = None then fail_rate s i
               else (case iloops inst of
                   [] \<Rightarrow> (case off of ConstOff c \<Rightarrow> max_offset s c i | _ \<Rightarrow> fail_rate s i)
                 | c # L \<Rightarrow>
                     (case off of
                        AddRec f \<Rightarrow> fold (\<lambda>j. max_offset s (f j)) [0..<unat c] i
                      | _ \<Rightarrow> fail_rate s i)))
      | _ \<Rightarrow> i)"

definition fold_rates :: "inst list \<Rightarrow> rates \<Rightarrow> rates" where
  "fold_rates is streams = fold (\<lambda>i st. snd (getRate i st)) is streams"

text \<open>The computation \<open>getStreamRate\<close> makes once for all streams.\<close>

definition compute_rates :: "inst list \<Rightarrow> bool \<Rightarrow> info" where
  "compute_rates work is_fixed =
     (let i = \<lparr>ins_rate = fold_rates (filter (is_pop \<circ> iop) work) (\<lambda>_. None),
               outs_rate = fold_rates (filter (is_push \<circ> iop) work) (\<lambda>_. None),
               peeks = (\<lambda>_. None), peeks_rate = (\<lambda>_. None), fixed = is_fixed\<rparr> in
      fold getRateOffset (filter (is_peek \<circ> iop) work) i)"

text \<open>\<open>getNumIns\<close> and \<open>getNumOuts\<close>: the number of distinct constant indices, or -1.\<close>

definition idx_set :: "inst list \<Rightarrow> nat list option" where
  "idx_set is = those (map (\<lambda>i. case op_idx (iop i) of Some (CIdx s) \<Rightarrow> Some s | _ \<Rightarrow> None) is)"

definition getNumIns :: "inst list \<Rightarrow> int" where
  "getNumIns work = (case idx_set (filter (is_pop \<circ> iop) work) of
     None \<Rightarrow> - 1 | Some ss \<Rightarrow> int (length (remdups ss)))"

definition getNumOuts :: "inst list \<Rightarrow> int" where
  "getNumOuts work = (case idx_set (filter (is_push \<circ> iop) work) of
     None \<Rightarrow> - 1 | Some ss \<Rightarrow> int (length (remdups ss)))"

subsection \<open>Kernels known by name\<close>

text \<open>\<open>std::string::find\<close>, \<open>substr\<close> up to the next stop, and \<open>atoi\<close>.\<close>

fun find_sub :: "string \<Rightarrow> string \<Rightarrow> nat option" where
  "find_sub p [] = (if p = [] then Some 0 else None)"
| "find_sub p (c # s) = (if prefix p (c # s) then Some 0 else map_option Suc (find_sub p s))"

definition substr_to :: "string \<Rightarrow> nat \<Rightarrow> string \<Rightarrow> string option" where
  "substr_to name pos stop =
     (if pos > length name then None
      else Some (case find_sub stop (drop pos name) of
          None \<Rightarrow> drop pos name
        | Some n \<Rightarrow> take n (drop pos name)))"

definition digit_val :: "char \<Rightarrow> int" where
  "digit_val c = int (of_char c) - 48"

definition is_digit :: "char \<Rightarrow> bool" where
  "is_digit c = (digit_val c \<in> {0..9})"

fun digits :: "int \<Rightarrow> string \<Rightarrow> int" where
  "digits n [] = n"
| "digits n (c # s) = (if is_digit c then digits (10 * n + digit_val c) s else n)"

definition atoi :: "string \<Rightarrow> int" where
  "atoi s =
     (let s = dropWhile (\<lambda>c. c \<in> set '' '' \<or> (of_char c :: nat) \<in> {9..13}) s in
      case s of
        [] \<Rightarrow> 0
      | c # r \<Rightarrow> if c = CHR ''-'' then - digits 0 r else if c = CHR ''+'' then digits 0 r else digits 0 s)"

text \<open>\<open>rt_outs[i]->setPushRate(r)\<close> for i below n; an index outside the array is a fault.\<close>

definition set_rates :: "(rt_stream \<Rightarrow> rt_stream) \<Rightarrow> ptr list option \<Rightarrow> int \<Rightarrow> heap \<Rightarrow> (unit, heap) outcome" where
  "set_rates f qs n h =
     (case qs of
        None \<Rightarrow> if n \<le> 0 then Done h else Fault
      | Some qs \<Rightarrow> if n \<le> int (length qs) then Done (fold (\<lambda>q. upd_rts q f) (take (nat n) qs) h) else Fault)"

definition known :: "ptr \<Rightarrow> heap \<Rightarrow> heap" where
  "known k h = upd_rtk k (\<lambda>K. K\<lparr>is_fixed_rate := True, has_push := True, has_pop := True\<rparr>) h"

text \<open>The two numbers of a mangled name: the width and the weight.\<close>

definition name_args :: "string \<Rightarrow> nat \<Rightarrow> (int \<times> int) option" where
  "name_args name pos =
     (case substr_to name pos ''ELi'' of
        None \<Rightarrow> None
      | Some w \<Rightarrow>
          (case substr_to name (pos + length w + 3) ''E'' of
             None \<Rightarrow> None
           | Some a \<Rightarrow> Some (atoi w, atoi a)))"

definition known_split :: "ptr \<Rightarrow> int \<Rightarrow> int \<Rightarrow> heap \<Rightarrow> (unit, bool \<times> heap) outcome" where
  "known_split k nout arg h =
     (if nout = 0 \<or> arg = 0 then Done (False, h)
      else
        bind_out (set_rates (\<lambda>s. s\<lparr>rs_push_rate := arg\<rparr>) (rt_outs (rtk h k)) nout h) (\<lambda>h.
        bind_out (set_rates (\<lambda>s. s\<lparr>rs_pop_rate := arg * nout\<rparr>) (rt_ins (rtk h k)) 1 h) (\<lambda>h.
          Done (True, known k h))))"

definition known_join :: "ptr \<Rightarrow> int \<Rightarrow> int \<Rightarrow> heap \<Rightarrow> (unit, bool \<times> heap) outcome" where
  "known_join k nin arg h =
     (if arg = 0 then Done (False, h)
      else
        bind_out (set_rates (\<lambda>s. s\<lparr>rs_pop_rate := arg\<rparr>) (rt_ins (rtk h k)) nin h) (\<lambda>h.
        bind_out (set_rates (\<lambda>s. s\<lparr>rs_push_rate := arg * nin\<rparr>) (rt_outs (rtk h k)) 1 h) (\<lambda>h.
          Done (True, known k h))))"

definition known_dup :: "ptr \<Rightarrow> int \<Rightarrow> heap \<Rightarrow> (unit, bool \<times> heap) outcome" where
  "known_dup k nout h =
     (if nout = 0 then Done (False, h)
      else
        bind_out (set_rates (\<lambda>s. s\<lparr>rs_push_rate := 1\<rparr>) (rt_outs (rtk h k)) nout h) (\<lambda>h.
        bind_out (set_rates (\<lambda>s. s\<lparr>rs_pop_rate := nout\<rparr>) (rt_ins (rtk h k)) 1 h) (\<lambda>h.
          Done (True, known k h))))"

definition tryKnownRates :: "ptr \<Rightarrow> string \<Rightarrow> heap \<Rightarrow> (unit, bool \<times> heap) outcome" where
  "tryKnownRates k name h =
     (case find_sub ''split_rr_work_N_A_ILi'' name of
        Some pos \<Rightarrow>
          (case name_args name (pos + length ''split_rr_work_N_A_ILi'') of
             None \<Rightarrow> Fault | Some (nout, arg) \<Rightarrow> known_split k nout arg h)
      | None \<Rightarrow>
          (case find_sub ''join_rr_work_N_A_ILi'' name of
             Some pos \<Rightarrow>
               (case name_args name (pos + length ''join_rr_work_N_A_ILi'') of
                  None \<Rightarrow> Fault | Some (nin, arg) \<Rightarrow> known_join k nin arg h)
           | None \<Rightarrow>
               (case find_sub ''split_dup_work_N_ILi'' name of
                  Some pos \<Rightarrow>
                    (case substr_to name (pos + length ''split_dup_work_N_ILi'') ''E'' of
                       None \<Rightarrow> Fault | Some w \<Rightarrow> known_dup k (atoi w) h)
                | None \<Rightarrow> Done (False, h))))"

subsection \<open>The pass\<close>

text \<open>
  One instruction of the first loop, on whether the kernel is hierarchical and on the local
  \<open>is_stateful\<close>; every store overwrites the latter.  \<open>fuel\<close> bounds the recursion over operands.
\<close>

definition scan_inst :: "(nat \<Rightarrow> vnode) \<Rightarrow> nat \<Rightarrow> inst \<Rightarrow> bool \<times> bool \<Rightarrow> (unit, bool \<times> bool) outcome" where
  "scan_inst vals fuel inst st =
     (case iop inst of
        CallI \<Rightarrow> Done (True, snd st)
      | KernelI \<Rightarrow> Done (True, snd st)
      | StreamI \<Rightarrow> Done (True, snd st)
      | CallFn name \<Rightarrow>
          Done (fst st \<or> prefix ''__SKIRRT_call'' name \<or> prefix ''__SKIRRT_kernel'' name \<or>
                prefix ''__SKIRRT_stream'' name, snd st)
      | StoreI v \<Rightarrow>
          (case checkStoreAddress vals fuel v {} of
             None \<Rightarrow> Fault | Some (r, _) \<Rightarrow> Done (fst st, r \<noteq> 0x10))
      | _ \<Rightarrow> Done st)"

fun scan :: "(nat \<Rightarrow> vnode) \<Rightarrow> nat \<Rightarrow> inst list \<Rightarrow> bool \<times> bool \<Rightarrow> (unit, bool \<times> bool) outcome" where
  "scan vals fuel [] st = Done st"
| "scan vals fuel (i # is) st = bind_out (scan_inst vals fuel i st) (scan vals fuel is)"

text \<open>
  The loops that store the rates of the streams.  With peeks in the kernel, every input needs a
  peek rate: reading the constant of a null value is a fault.
\<close>

fun store_ins :: "info \<Rightarrow> bool \<Rightarrow> nat \<Rightarrow> ptr list \<Rightarrow> bool \<times> heap \<Rightarrow> (unit, bool \<times> heap) outcome" where
  "store_ins i peeking s [] fh = Done fh"
| "store_ins i peeking s (q # qs) (fx, h) =
     (case ins_rate i s of
        None \<Rightarrow> store_ins i peeking (Suc s) qs (False, h)
      | Some r \<Rightarrow>
          (let h = upd_rts q (\<lambda>x. x\<lparr>rs_pop_rate := sint r\<rparr>) h in
           if peeking then
             (case peeks i s of
                None \<Rightarrow> Fault
              | Some c \<Rightarrow> store_ins i peeking (Suc s) qs (fx, upd_rts q (\<lambda>x. x\<lparr>rs_peek_rate := sint (c + 1)\<rparr>) h))
           else store_ins i peeking (Suc s) qs (fx, upd_rts q (\<lambda>x. x\<lparr>rs_peek_rate := 0\<rparr>) h)))"

fun store_outs :: "info \<Rightarrow> nat \<Rightarrow> ptr list \<Rightarrow> bool \<times> heap \<Rightarrow> bool \<times> heap" where
  "store_outs i s [] fh = fh"
| "store_outs i s (q # qs) (fx, h) =
     (case outs_rate i s of
        None \<Rightarrow> store_outs i (Suc s) qs (False, h)
      | Some r \<Rightarrow> store_outs i (Suc s) qs (fx, upd_rts q (\<lambda>x. x\<lparr>rs_push_rate := sint r\<rparr>) h))"

definition stream_list :: "int \<Rightarrow> ptr list option \<Rightarrow> ptr list" where
  "stream_list n qs = (case qs of None \<Rightarrow> [] | Some qs \<Rightarrow> take (nat n) qs)"

definition set_flags :: "ptr \<Rightarrow> inst list \<Rightarrow> bool \<Rightarrow> bool \<Rightarrow> heap \<Rightarrow> heap" where
  "set_flags k work hier stateful h =
     (let push = (\<exists>i\<in>set work. is_push (iop i)); pop = (\<exists>i\<in>set work. is_pop (iop i));
          peek = (\<exists>i\<in>set work. is_peek (iop i)) in
      upd_rtk k (\<lambda>K. K\<lparr>is_stateful := stateful, has_push := push, has_pop := pop, has_peek := peek,
         is_hier := hier \<and> \<not> (push \<or> pop \<or> peek)\<rparr>) h)"

text \<open>The rates are computed the first time one is asked for; then \<open>fixed\<close> may become false.\<close>

definition info_pass :: "(nat \<Rightarrow> vnode) \<Rightarrow> nat \<Rightarrow> string \<Rightarrow> inst list \<Rightarrow> ptr \<Rightarrow> heap \<Rightarrow> (unit, heap) outcome" where
  "info_pass vals fuel name work k h =
     (if opt_only (rtk h k) then Done h
      else
        bind_out (scan vals fuel work (is_hier (rtk h k), False)) (\<lambda>(hier, stateful).
          (let h = set_flags k work hier stateful h;
               K = rtk h k;
               ni = getNumIns work; no = getNumOuts work;
               nin = min (int (nins K)) ni; nout = min (int (nouts K)) no;
               fx = \<not> (ni \<noteq> 0 \<and> nin \<noteq> int (nins K)) \<and> \<not> (no \<noteq> 0 \<and> nout \<noteq> int (nouts K));
               i = compute_rates work fx;
               fx = (if nin > 0 \<or> nout > 0 then fixed i else fx) in
           bind_out (store_ins i (has_peek K) 0 (stream_list nin (rt_ins K)) (fx, h)) (\<lambda>fh.
             (let (fx, h) = store_outs i 0 (stream_list nout (rt_outs K)) fh;
                  h = upd_rtk k (\<lambda>K. K\<lparr>is_fixed_rate := fx, is_const_idx := fx\<rparr>) h in
              if fx then Done h else bind_out (tryKnownRates k name h) (\<lambda>(_, h). Done h))))))"

subsection \<open>What the computed rates mean\<close>

text \<open>How often an instruction runs in one iteration, when it is not conditional.\<close>

definition runs :: "inst \<Rightarrow> nat" where
  "runs i = prod_list (map unat (iloops i))"

definition on_stream :: "nat \<Rightarrow> inst \<Rightarrow> bool" where
  "on_stream s i \<longleftrightarrow> op_idx (iop i) = Some (CIdx s)"

text \<open>
  An access that the pass counts is in a loop or on every path; \<open>simple_inst\<close>: no nested loops, and the
  trip count is known.
\<close>

definition counted :: "inst \<Rightarrow> bool" where
  "counted i \<longleftrightarrow> iloops i \<noteq> [] \<or> ipdom i"

definition simple_inst :: "inst \<Rightarrow> bool" where
  "simple_inst i \<longleftrightarrow> length (iloops i) \<le> 1 \<and> 0 \<notin> set (iloops i)"

lemma getRate_simple:
  assumes "simple_inst i" "on_stream s i"
  shows "snd (getRate i st) = (if counted i then st(s := Some (rate_of (st s) + of_nat (runs i))) else st)"
  using assms by (cases "iloops i") (auto simp: simple_inst_def on_stream_def getRate_def runs_def counted_def)

lemma getRate_other:
  assumes "\<not> on_stream s i"
  shows "snd (getRate i st) s = st s"
proof -
  have "snd (getRate_loops s' L st) s = st s" if "s' \<noteq> s" for s' L
    using that by (induction L arbitrary: st) auto
  then show ?thesis using assms
    by (auto simp: getRate_def on_stream_def split: option.split sidx.split)
qed

lemma fold_rates_Cons: "fold_rates (i # is) st = fold_rates is (snd (getRate i st))"
  by (simp add: fold_rates_def)

definition counted_on :: "nat \<Rightarrow> inst \<Rightarrow> bool" where
  "counted_on s i \<longleftrightarrow> on_stream s i \<and> counted i"

lemma fold_rates_sum:
  assumes "\<And>i. i \<in> set is \<Longrightarrow> on_stream s i \<Longrightarrow> simple_inst i"
  shows "fold_rates is st s = (if filter (counted_on s) is = [] then st s
     else Some (rate_of (st s) + of_nat (sum_list (map runs (filter (counted_on s) is)))))"
  using assms
proof (induction "is" arbitrary: st)
  case Nil then show ?case by (simp add: fold_rates_def)
next
  case (Cons i js)
  note IH = Cons.IH [of "snd (getRate i st)"]
  show ?case
  proof (cases "counted_on s i")
    case True
    then have "snd (getRate i st) s = Some (rate_of (st s) + of_nat (runs i))"
      using getRate_simple [of i s st] Cons.prems by (simp add: counted_on_def)
    then show ?thesis using IH Cons.prems True
      by (auto simp: fold_rates_Cons rate_of_def algebra_simps)
  next
    case False
    then have "snd (getRate i st) s = st s"
      using getRate_simple [of i s st] getRate_other [of s i st] Cons.prems [of i]
      by (cases "on_stream s i") (auto simp: counted_on_def)
    then show ?thesis using IH Cons.prems False by (auto simp: fold_rates_Cons)
  qed
qed

lemma max_offset_keeps:
  "ins_rate (fold (\<lambda>j. max_offset t (f j)) ns i) = ins_rate i" "outs_rate (fold (\<lambda>j. max_offset t (f j)) ns i) = outs_rate i"
  "peeks_rate (fold (\<lambda>j. max_offset t (f j)) ns i) = peeks_rate i"
  by (induction ns arbitrary: i) (simp_all add: max_offset_def)

lemma getRateOffset_keeps:
  "ins_rate (getRateOffset x i) = ins_rate i" "outs_rate (getRateOffset x i) = outs_rate i"
  "peeks_rate (getRateOffset x i) = snd (getRate x (peeks_rate i))"
  by (auto simp: getRateOffset_def Let_def fail_rate_def max_offset_keeps max_offset_def
      split: op.split sidx.split list.split offs.split prod.split)

lemma fold_offsets:
  "ins_rate (fold getRateOffset xs i) = ins_rate i" "outs_rate (fold getRateOffset xs i) = outs_rate i"
  "peeks_rate (fold getRateOffset xs i) = fold_rates xs (peeks_rate i)"
  by (induction xs arbitrary: i) (simp_all add: getRateOffset_keeps fold_rates_def)

lemma compute_rates_fold:
  "ins_rate (compute_rates work fx) = fold_rates (filter (is_pop \<circ> iop) work) (\<lambda>_. None)"
  "outs_rate (compute_rates work fx) = fold_rates (filter (is_push \<circ> iop) work) (\<lambda>_. None)"
  "peeks_rate (compute_rates work fx) = fold_rates (filter (is_peek \<circ> iop) work) (\<lambda>_. None)"
  by (simp_all add: compute_rates_def Let_def fold_offsets)


definition sample_work :: "inst list" where
  "sample_work = [\<lparr>iop = PopI (CIdx 0), iloops = [], ipdom = True\<rparr>, \<lparr>iop = PushI (CIdx 0), iloops = [], ipdom = True\<rparr>,
     \<lparr>iop = PopI (CIdx 0), iloops = [], ipdom = False\<rparr>, \<lparr>iop = PopI (CIdx 0), iloops = [4], ipdom = False\<rparr>]"


text \<open>
  Outside of those cases the analysis is wrong: it adds the trip counts of nested loops instead
  of multiplying them; a conditional access next to an unconditional one is not counted, and the
  rate still looks fixed; and of several stores only the last decides whether the kernel is
  stateful, so that a kernel that writes its state and then a local variable passes as stateless.
\<close>

theorem analysis_unsound:
  shows "fold_rates [\<lparr>iop = PopI (CIdx 0), iloops = [3, 2], ipdom = True\<rparr>] (\<lambda>_. None) 0 = Some 5 \<and>
    runs \<lparr>iop = PopI (CIdx 0), iloops = [3, 2], ipdom = True\<rparr> = 6 \<and>
    fold_rates [\<lparr>iop = PopI (CIdx 0), iloops = [], ipdom = True\<rparr>,
                \<lparr>iop = PopI (CIdx 0), iloops = [], ipdom = False\<rparr>] (\<lambda>_. None) 0 = Some 1 \<and>
    scan (\<lambda>v. if v = 0 then Argument else Alloca) 1
      [\<lparr>iop = StoreI 0, iloops = [], ipdom = True\<rparr>, \<lparr>iop = StoreI 1, iloops = [], ipdom = True\<rparr>] (False, False)
      = Done (False, False)"
  by (simp add: fold_rates_def getRate_def rate_of_def runs_def scan_inst_def)

subsection \<open>Rates of library kernels\<close>

function dec :: "nat \<Rightarrow> string" where
  "dec n = (if n < 10 then [char_of (48 + n)] else dec (n div 10) @ [char_of (48 + n mod 10)])"
  by auto
termination by (relation "measure id") auto

declare dec.simps [simp del]

lemma digit_char: "d < 10 \<Longrightarrow> is_digit (char_of (48 + d)) \<and> digit_val (char_of (48 + d)) = int d"
  by (simp add: digit_val_def is_digit_def of_char_of)

lemma digits_append:
  "(\<forall>c\<in>set s. is_digit c) \<Longrightarrow> digits n (s @ t) = digits (digits n s) t"
  by (induction s arbitrary: n) auto

lemma dec_digits: "\<forall>c\<in>set (dec n). is_digit c"
proof (induction n rule: dec.induct)
  case (1 n)
  then show ?case using digit_char [of n] digit_char [of "n mod 10"]
    by (subst dec.simps) auto
qed

lemma digits_dec: "digits 0 (dec n) = int n"
proof (induction n rule: dec.induct)
  case (1 n)
  show ?case
  proof (cases "n < 10")
    case True
    then show ?thesis using digit_char [of n] by (simp add: dec.simps [of n])
  next
    case False
    have "digits 0 (dec n) = digits (int (n div 10)) [char_of (48 + n mod 10)]"
      using 1 False by (simp add: dec.simps [of n] digits_append dec_digits)
    also have "\<dots> = 10 * int (n div 10) + int (n mod 10)" using digit_char [of "n mod 10"] by simp
    also have "\<dots> = int (10 * (n div 10) + n mod 10)" by (simp only: of_nat_add of_nat_mult of_nat_numeral)
    also have "\<dots> = int n" by (simp only: mult_div_mod_eq)
    finally show ?thesis .
  qed
qed

lemma dec_nonempty: "dec n \<noteq> []"
  by (subst dec.simps) simp

lemma atoi_dec: "atoi (dec n) = int n"
proof -
  obtain c s where cs: "dec n = c # s" using dec_nonempty by (cases "dec n") auto
  then have d: "is_digit c" using dec_digits [of n] by auto
  then have "of_char c \<in> {48..57::nat}" by (auto simp: is_digit_def digit_val_def)
  then have "c \<noteq> CHR '' ''" "c \<noteq> CHR ''-''" "c \<noteq> CHR ''+''" "(of_char c :: nat) \<notin> {9..13}" by auto
  then have "atoi (c # s) = digits 0 (c # s)" by (auto simp: atoi_def)
  then show ?thesis using digits_dec [of n] cs by simp
qed

lemma find_sub_skip:
  "(\<forall>c\<in>set w. is_digit c) \<Longrightarrow> \<not> is_digit x \<Longrightarrow> find_sub (x # p) (w @ (x # p) @ s) = Some (length w)"
  by (induction w) auto

lemma drop_at: "drop (length a) (a @ b) = b" "drop (length a + n) (a @ b) = drop n b"
  by simp_all

lemma not_digit_E: "\<not> is_digit (CHR ''E'')"
  by (simp add: is_digit_def digit_val_def)

lemma name_args_dec:
  "name_args (pre @ dec w @ ''ELi'' @ dec a @ ''E'' @ rest) (length pre) = Some (int w, int a)"
proof -
  have "substr_to (pre @ dec w @ ''ELi'' @ dec a @ ''E'' @ rest) (length pre) ''ELi'' = Some (dec w)"
    using find_sub_skip [OF dec_digits not_digit_E, where p = "''Li''" and s = "dec a @ ''E'' @ rest"]
    by (simp add: substr_to_def)
  moreover have "substr_to (pre @ dec w @ ''ELi'' @ dec a @ ''E'' @ rest) (length pre + length (dec w) + 3) ''E'' = Some (dec a)"
  proof -
    have "drop (length pre + length (dec w) + 3) (pre @ dec w @ ''ELi'' @ dec a @ ''E'' @ rest) = dec a @ ''E'' @ rest"
      by (simp add: add.assoc drop_at)
    then show ?thesis
      using find_sub_skip [OF dec_digits not_digit_E, where p = "[]" and s = rest] by (simp add: substr_to_def)
  qed
  ultimately show ?thesis by (simp add: name_args_def atoi_dec)
qed

lemma find_sub_start: "find_sub p (p @ s) = Some 0"
proof (cases "p @ s")
  case Nil then show ?thesis by simp
next
  case (Cons a l)
  then have "prefix p (a # l)" by (metis prefixI)
  then show ?thesis unfolding Cons by simp
qed

lemma set_rates_rts:
  assumes "set_rates f (Some qs) n h = Done h'" "distinct qs"
  shows "rts h' q = (if q \<in> set (take (nat n) qs) then f (rts h q) else rts h q) \<and> rtk h' = rtk h"
proof -
  have gen: "distinct xs \<Longrightarrow> rts (fold (\<lambda>q. upd_rts q f) xs g) q = (if q \<in> set xs then f (rts g q) else rts g q) \<and>
      rtk (fold (\<lambda>q. upd_rts q f) xs g) = rtk g" for xs g
    by (induction xs arbitrary: g) auto
  have "h' = fold (\<lambda>q. upd_rts q f) (take (nat n) qs) h" using assms(1) by (simp add: set_rates_def split: if_splits)
  then show ?thesis using gen [of "take (nat n) qs" h] assms(2) by simp
qed

text \<open>
  The rates of a round robin splitter of the library are read off its mangled name: with w
  outputs of weight a, each output gets push rate a and the input pop rate w times a, whatever
  follows in the name, and the kernel becomes one of a fixed rate.
\<close>

theorem split_rates_from_name:
  assumes "0 < w" "0 < a" and "rt_outs (rtk h k) = Some outs" "length outs = w" "distinct outs"
    and "rt_ins (rtk h k) = Some (i # ins_tl)" and "i \<notin> set outs"
  shows "\<exists>h'. tryKnownRates k (''split_rr_work_N_A_ILi'' @ dec w @ ''ELi'' @ dec a @ ''E'' @ rest) h = Done (True, h') \<and>
    (\<forall>q\<in>set outs. rs_push_rate (rts h' q) = int a) \<and>
    rs_pop_rate (rts h' i) = (\<Sum>q\<leftarrow>outs. rs_push_rate (rts h' q)) \<and> is_fixed_rate (rtk h' k)"
proof -
  define g where "g = fold (\<lambda>q. upd_rts q (\<lambda>s. s\<lparr>rs_push_rate := int a\<rparr>)) outs h"
  have g: "set_rates (\<lambda>s. s\<lparr>rs_push_rate := int a\<rparr>) (Some outs) (int w) h = Done g"
    using assms(4) by (simp add: set_rates_def g_def)
  note r = set_rates_rts [OF g assms(5)]
  define g' where "g' = known k (upd_rts i (\<lambda>s. s\<lparr>rs_pop_rate := int a * int w\<rparr>) g)"
  have "rt_ins (rtk g k) = Some (i # ins_tl)" using r assms(6) by simp
  then have t: "tryKnownRates k (''split_rr_work_N_A_ILi'' @ dec w @ ''ELi'' @ dec a @ ''E'' @ rest) h = Done (True, g')"
    unfolding tryKnownRates_def find_sub_start option.case add_0 name_args_dec prod.case
    using assms(1,2,3) g by (simp add: known_split_def) (simp add: set_rates_def g'_def)
  have o: "rs_push_rate (rts g' q) = int a" if "q \<in> set outs" for q
    using that r assms(4,7) by (auto simp: g'_def known_def)
  have "(\<Sum>q\<leftarrow>outs. rs_push_rate (rts g' q)) = (\<Sum>q\<leftarrow>outs. int a)"
    using o by (intro arg_cong [where f = sum_list] map_cong) auto
  also have "\<dots> = int w * int a" using assms(4) by (simp add: sum_list_triv)
  finally have "rs_pop_rate (rts g' i) = (\<Sum>q\<leftarrow>outs. rs_push_rate (rts g' q))"
    by (simp add: g'_def known_def mult.commute)
  moreover have "is_fixed_rate (rtk g' k)" by (simp add: g'_def known_def)
  ultimately show ?thesis using t o by blast
qed

theorem split_rates_from_name_witness:
  "\<exists>h'. tryKnownRates 1 (''split_rr_work_N_A_ILi'' @ dec 2 @ ''ELi'' @ dec 3 @ ''E'' @ ''Ev'')
     (upd_rtk 1 (\<lambda>k. k\<lparr>rt_ins := Some [5], rt_outs := Some [6, 7]\<rparr>) sample_heap) = Done (True, h') \<and>
     rs_push_rate (rts h' 7) = 3 \<and> rs_pop_rate (rts h' 5) = (\<Sum>q\<leftarrow>[6, 7]. rs_push_rate (rts h' q))"
  using split_rates_from_name [of 2 3 "upd_rtk 1 (\<lambda>k. k\<lparr>rt_ins := Some [5], rt_outs := Some [6, 7]\<rparr>) sample_heap" 1 "[6, 7]" 5 "[]" "''Ev''"]
  by auto

end
