(* ===== verification/Fusion.thy ===== *)
theory Fusion
  imports Kernel_Info
begin

section \<open>Fusion of two kernels\<close>

text \<open>
  \<open>lib/SKIR/SKIRFusion.cpp\<close>: a new kernel that runs two connected ones in turn, with a buffer in
  place of the streams between them.  A work function is known by a handle; \<open>body\<close> is what the
  passes see of it (\<open>Kernel_Info\<close>).  The fused function contains the bodies of both.
\<close>

record fuse_state =
  fs_k0 :: ptr
  fs_k1 :: ptr
  fs_ins0 :: "ptr option list option"
  fs_outs0 :: "ptr option list option"
  fs_ins1 :: "ptr option list option"
  fs_outs1 :: "ptr option list option"
  fs_niter0 :: int
  fs_niter1 :: int
  fs_iter0 :: int
  fs_iter1 :: int

record world =
  wh :: heap
  body :: "ptr \<Rightarrow> inst list"
  fname :: "ptr \<Rightarrow> string"
  next_id :: uint32
  fstate :: "ptr \<Rightarrow> fuse_state option"

definition upd_wh :: "(heap \<Rightarrow> heap) \<Rightarrow> world \<Rightarrow> world" where
  "upd_wh f w = w\<lparr>wh := f (wh w)\<rparr>"

definition arr :: "nat \<Rightarrow> ptr list option \<Rightarrow> ptr list" where
  "arr n r = (case r of None \<Rightarrow> [] | Some q \<Rightarrow> take n q)"

abbreviation ins_of :: "rt_kernel \<Rightarrow> ptr list" where "ins_of K \<equiv> arr (nins K) (rt_ins K)"
abbreviation outs_of :: "rt_kernel \<Rightarrow> ptr list" where "outs_of K \<equiv> arr (nouts K) (rt_outs K)"
abbreviation ints_of :: "rt_kernel \<Rightarrow> ptr list" where "ints_of K \<equiv> arr (nints K) (rt_ints K)"

subsection \<open>The streams of the new kernel\<close>

text \<open>A set of pointers is iterated over in the order of the addresses.\<close>

definition computeCommonStreams :: "rt_kernel \<Rightarrow> rt_kernel \<Rightarrow> ptr list" where
  "computeCommonStreams K0 K1 = sort (remdups (filter (\<lambda>s. s \<in> set (outs_of K0)) (ins_of K1)))"

definition computeInputStreams :: "ptr list \<Rightarrow> rt_kernel \<Rightarrow> rt_kernel \<Rightarrow> ptr list" where
  "computeInputStreams common K0 K1 =
     filter (\<lambda>s. s \<notin> set common) (ins_of K0) @ filter (\<lambda>s. s \<notin> set common) (ins_of K1)"

definition computeOutputStreams :: "ptr list \<Rightarrow> rt_kernel \<Rightarrow> rt_kernel \<Rightarrow> ptr list" where
  "computeOutputStreams common K0 K1 =
     filter (\<lambda>s. s \<notin> set common) (outs_of K0) @ filter (\<lambda>s. s \<notin> set common) (outs_of K1)"

subsection \<open>Matching the rates\<close>

text \<open>
  The arithmetic is that of the C type \<open>int\<close>; what overflows is undefined and is a fault here.
  \<open>while (i%x) i+=y\<close>: the remainder is 0 exactly when \<open>x\<close> divides \<open>i\<close>, whatever the signs.
\<close>

definition in_int :: "int \<Rightarrow> bool" where
  "in_int i \<longleftrightarrow> - (2 ^ 31) \<le> i \<and> i < 2 ^ 31"

partial_function (option) myLCM_loop :: "int \<Rightarrow> int \<Rightarrow> int \<Rightarrow> (unit, int) outcome option" where
  "myLCM_loop x y i =
     (if i = - (2 ^ 31) \<and> x = - 1 then Some Fault
      else if x dvd i then Some (Done i)
      else if in_int (i + y) then myLCM_loop x y (i + y) else Some Fault)"

definition myLCM :: "int \<Rightarrow> int \<Rightarrow> (unit, int) outcome option" where
  "myLCM x y = (if x = 0 \<or> y = 0 then Some Fault else myLCM_loop x y y)"

text \<open>A quotient without remainder, as those below are.\<close>

definition div_int :: "int \<Rightarrow> int \<Rightarrow> (unit, int) outcome" where
  "div_int i x = assert_out (x \<noteq> 0 \<and> in_int (i div x)) (Done (i div x))"

text \<open>
  The loop over the common streams: push rate and pop rate of each.  The numbers of iterations are
  those of the last one.  \<open>None\<close> is a search that does not end.
\<close>

fun match_rates :: "(int \<times> int) list \<Rightarrow> int \<times> int \<times> int \<Rightarrow> (unit, int \<times> int \<times> int) outcome option" where
  "match_rates [] st = Some (Done st)"
| "match_rates ((push, pop) # ps) (n0, n1, l) =
     (case myLCM push pop of
        None \<Rightarrow> None
      | Some (Done m) \<Rightarrow>
          (case myLCM l m of
             None \<Rightarrow> None
           | Some (Done l) \<Rightarrow>
               (case (div_int l push, div_int l pop) of
                  (Done n0, Done n1) \<Rightarrow> match_rates ps (n0, n1, l)
                | _ \<Rightarrow> Some Fault)
           | Some _ \<Rightarrow> Some Fault)
      | Some _ \<Rightarrow> Some Fault)"

fun si_list :: "heap \<Rightarrow> ptr list \<Rightarrow> (unit, ptr list) outcome" where
  "si_list h [] = Done []"
| "si_list h (q # qs) =
     (case si (rts h q) of None \<Rightarrow> Fault | Some s \<Rightarrow> bind_out (si_list h qs) (\<lambda>ss. Done (s # ss)))"

text \<open>The checks in unsigned 32-bit arithmetic: is any of the streams asked to hold too much?\<close>

definition bytes_needed :: "int \<Rightarrow> uint32 \<Rightarrow> int \<Rightarrow> uint32" where
  "bytes_needed rate esz n = word_of_int rate * esz * word_of_int n"

fun too_big :: "(skir_stream_t \<Rightarrow> int) \<Rightarrow> int \<Rightarrow> heap \<Rightarrow> ptr list \<Rightarrow> (unit, bool) outcome" where
  "too_big rate n h [] = Done False"
| "too_big rate n h (q # qs) =
     (case si (rts h q) of
        None \<Rightarrow> Fault
      | Some s \<Rightarrow>
          if bytes_needed (rate (hdr h s)) (rs_elem_size (rts h q)) n > of_nat STREAM_BUFFER_SIZE
          then Done True else too_big rate n h qs)"

text \<open>The rates times the number of iterations, each followed by its assertion; the product is an \<open>int\<close>.\<close>

fun adjust :: "((int \<Rightarrow> int) \<Rightarrow> skir_stream_t \<Rightarrow> skir_stream_t) \<Rightarrow> (skir_stream_t \<Rightarrow> int) \<Rightarrow> int \<Rightarrow> ptr list \<Rightarrow>
    heap \<Rightarrow> (unit, heap) outcome" where
  "adjust upd rate n [] h = Done h"
| "adjust upd rate n (q # qs) h =
     (case si (rts h q) of
        None \<Rightarrow> Fault
      | Some s \<Rightarrow>
          (let h = upd_hdr s (upd (\<lambda>r. r * n)) h in
           assert_out (in_int (rate (hdr h s)) \<and>
               bytes_needed (rate (hdr h s)) (rs_elem_size (rts h q)) 1 \<le> of_nat STREAM_BUFFER_SIZE)
             (adjust upd rate n qs h)))"

definition adjust_rates :: "rt_kernel \<Rightarrow> rt_kernel \<Rightarrow> int \<Rightarrow> int \<Rightarrow> heap \<Rightarrow> (unit, heap) outcome" where
  "adjust_rates K0 K1 n0 n1 h =
     bind_out (adjust pop_rate_update pop_rate n0 (ins_of K0) h) (\<lambda>h.
     bind_out (adjust push_rate_update push_rate n0 (outs_of K0) h) (\<lambda>h.
     bind_out (adjust pop_rate_update pop_rate n1 (ins_of K1) h) (\<lambda>h.
       adjust push_rate_update push_rate n1 (outs_of K1) h)))"

definition rates_too_big :: "rt_kernel \<Rightarrow> rt_kernel \<Rightarrow> int \<Rightarrow> int \<Rightarrow> heap \<Rightarrow> (unit, bool) outcome" where
  "rates_too_big K0 K1 n0 n1 h =
     bind_out (too_big pop_rate n0 h (ins_of K0)) (\<lambda>b. if b then Done True else
     bind_out (too_big push_rate n0 h (outs_of K0)) (\<lambda>b. if b then Done True else
     bind_out (too_big pop_rate n1 h (ins_of K1)) (\<lambda>b. if b then Done True else
       too_big push_rate n1 h (outs_of K1))))"

subsection \<open>The new work function\<close>

fun index_of :: "ptr \<Rightarrow> ptr list \<Rightarrow> nat option" where
  "index_of s [] = None"
| "index_of s (q # qs) = (if s = q then Some 0 else map_option Suc (index_of s qs))"

text \<open>The new number of a stream: its place among the inputs, else the outputs, else 1000 and up.\<close>

definition renumber_idx :: "rt_kernel \<Rightarrow> ptr \<Rightarrow> nat option" where
  "renumber_idx K s =
     (case index_of s (ins_of K) of
        Some i \<Rightarrow> Some i
      | None \<Rightarrow>
          (case index_of s (outs_of K) of
             Some i \<Rightarrow> Some i
           | None \<Rightarrow> map_option (\<lambda>i. i + 1000) (index_of s (ints_of K))))"

definition renumber_sidx :: "rt_kernel \<Rightarrow> ptr list \<Rightarrow> sidx \<Rightarrow> (unit, sidx) outcome" where
  "renumber_sidx newK streams i =
     (case i of
        VarIdx \<Rightarrow> Fault
      | CIdx i \<Rightarrow>
          if i < length streams then
            (case renumber_idx newK (streams ! i) of None \<Rightarrow> Fault | Some j \<Rightarrow> Done (CIdx j))
          else Fault)"

definition renumber_op :: "rt_kernel \<Rightarrow> rt_kernel \<Rightarrow> inst \<Rightarrow> (unit, inst) outcome" where
  "renumber_op newK K x =
     (case iop x of
        PushI i \<Rightarrow> bind_out (renumber_sidx newK (outs_of K) i) (\<lambda>j. Done (x\<lparr>iop := PushI j\<rparr>))
      | PopI i \<Rightarrow> bind_out (renumber_sidx newK (ins_of K) i) (\<lambda>j. Done (x\<lparr>iop := PopI j\<rparr>))
      | PeekI i d \<Rightarrow> bind_out (renumber_sidx newK (ins_of K) i) (\<lambda>j. Done (x\<lparr>iop := PeekI j d\<rparr>))
      | _ \<Rightarrow> Done x)"

fun map_out :: "('a \<Rightarrow> (unit, 'b) outcome) \<Rightarrow> 'a list \<Rightarrow> (unit, 'b list) outcome" where
  "map_out f [] = Done []"
| "map_out f (x # xs) = bind_out (f x) (\<lambda>y. bind_out (map_out f xs) (\<lambda>ys. Done (y # ys)))"

definition renumberStreamOps :: "rt_kernel \<Rightarrow> rt_kernel \<Rightarrow> inst list \<Rightarrow> (unit, inst list) outcome" where
  "renumberStreamOps newK K work = map_out (renumber_op newK K) work"

text \<open>Operations on streams from number 1000 on become operations on the buffers.\<close>

definition replace_op :: "nat \<Rightarrow> inst \<Rightarrow> (unit, inst) outcome" where
  "replace_op nbufs x =
     (case iop x of
        PushI i \<Rightarrow>
          (case i of VarIdx \<Rightarrow> Fault
           | CIdx i \<Rightarrow> if i < 1000 then Done x
               else if i - 1000 < nbufs then Done (x\<lparr>iop := FusePushI (i - 1000)\<rparr>) else Fault)
      | PopI i \<Rightarrow>
          (case i of VarIdx \<Rightarrow> Fault
           | CIdx i \<Rightarrow> if i < 1000 then Done x
               else if i - 1000 < nbufs then Done (x\<lparr>iop := FusePopI (i - 1000)\<rparr>) else Fault)
      | PeekI i d \<Rightarrow> Fault
      | _ \<Rightarrow> Done x)"

definition replaceRenumberedOps :: "nat \<Rightarrow> inst list \<Rightarrow> (unit, inst list) outcome" where
  "replaceRenumberedOps nbufs work = map_out (replace_op nbufs) work"

text \<open>The buffers: both sides must need the same number of bytes.\<close>

fun buffers_match :: "heap \<Rightarrow> ptr list \<Rightarrow> (unit, bool) outcome" where
  "buffers_match h [] = Done True"
| "buffers_match h (q # qs) =
     (case si (rts h q) of
        None \<Rightarrow> Fault
      | Some s \<Rightarrow>
          assert_out (bytes_needed (push_rate (hdr h s)) (rs_elem_size (rts h q)) 1 =
                      bytes_needed (pop_rate (hdr h s)) (rs_elem_size (rts h q)) 1)
            (buffers_match h qs))"

subsection \<open>The new kernel\<close>

definition connect :: "(endp \<Rightarrow> skir_stream_t \<Rightarrow> skir_stream_t) \<Rightarrow> ptr \<Rightarrow> ptr list \<Rightarrow> heap \<Rightarrow> heap" where
  "connect f p qs h =
     fold (\<lambda>q h. case si (rts h q) of
             None \<Rightarrow> h
           | Some s \<Rightarrow> upd_hdr s (f (if rs_type (rts h q) = SHARED then SharedEnd else KernEnd p)) h) qs h"

definition connect_common :: "ptr \<Rightarrow> ptr list \<Rightarrow> heap \<Rightarrow> heap" where
  "connect_common p qs h =
     fold (\<lambda>q h. case si (rts h q) of
             None \<Rightarrow> h
           | Some s \<Rightarrow> upd_hdr s (\<lambda>x. x\<lparr>src := KernEnd p, dst := KernEnd p\<rparr>) h) qs h"

definition fused_kernel :: "rt_kernel \<Rightarrow> uint32 \<Rightarrow> ptr list \<Rightarrow> ptr list \<Rightarrow> ptr list \<Rightarrow> ptr list \<Rightarrow> ptr list \<Rightarrow> rt_kernel" where
  "fused_kernel junk i ins outs ints si_ins si_outs =
     (new_rt_kernel junk i)\<lparr>nins := length ins, nouts := length outs, nints := length ints,
        rt_ins := Some ins, rt_outs := Some outs, rt_ints := Some ints,
        impl_ins := Some (map Some si_ins @ [None]), impl_outs := Some (map Some si_outs @ [None])\<rparr>"

definition fused_flags :: "rt_kernel \<Rightarrow> rt_kernel \<Rightarrow> ptr \<Rightarrow> rt_kernel \<Rightarrow> rt_kernel" where
  "fused_flags K0 K1 f K =
     K\<lparr>base_work := Some f, work_fn := Some f, is_hier := False, is_stateful := is_stateful K0 \<or> is_stateful K1,
       is_fixed_rate := is_fixed_rate K0 \<and> is_fixed_rate K1, is_const_idx := is_const_idx K0 \<and> is_const_idx K1,
       has_push := nouts K > 0, has_pop := nouts K > 0, has_peek := has_peek K0 \<or> has_peek K1\<rparr>"

text \<open>
  From the checks to the new kernel: the handle \<open>p\<close> is that of the kernel, \<open>f\<close> that of its work
  function.  The work functions of both kernels are rewritten in place before they are inlined.
\<close>

definition fuse_work :: "ptr \<Rightarrow> ptr \<Rightarrow> ptr \<Rightarrow> ptr \<Rightarrow> rt_kernel \<Rightarrow> world \<Rightarrow> (unit, world) outcome" where
  "fuse_work k0 k1 p f newK w =
     (case (work_fn (rtk (wh w) k0), work_fn (rtk (wh w) k1)) of
        (Some f0, Some f1) \<Rightarrow>
          bind_out (renumberStreamOps newK (rtk (wh w) k0) (body w f0)) (\<lambda>b0.
          (let w = w\<lparr>body := (body w)(f0 := b0)\<rparr> in
          bind_out (renumberStreamOps newK (rtk (wh w) k1) (body w f1)) (\<lambda>b1.
          (let w = w\<lparr>body := (body w)(f1 := b1)\<rparr> in
          bind_out (buffers_match (wh w) (ints_of newK)) (\<lambda>_.
          bind_out (replaceRenumberedOps (nints newK) (body w f0 @ body w f1)) (\<lambda>b.
            Done (w\<lparr>body := (body w)(f := b), fname := (fname w)(f := fname w f0 @ fname w f1)\<rparr>)))))))
      | _ \<Rightarrow> Fault)"

definition fuse_kernels :: "rt_kernel \<Rightarrow> ptr \<Rightarrow> ptr \<Rightarrow> int \<Rightarrow> int \<Rightarrow> world \<Rightarrow> (unit, ptr option \<times> world) outcome" where
  "fuse_kernels junk k0 k1 n0 n1 w =
     (let h = wh w; K0 = rtk h k0; K1 = rtk h k1; p = fresh h; f = Suc (fresh h);
          common = computeCommonStreams K0 K1;
          ins = computeInputStreams common K0 K1; outs = computeOutputStreams common K0 K1 in
      bind_out (si_list h ins) (\<lambda>si_ins.
      bind_out (si_list h outs) (\<lambda>si_outs.
        (let newK = fused_kernel junk (next_id w) ins outs common si_ins si_outs;
             h = h\<lparr>fresh := Suc (Suc (fresh h)), rtk := (rtk h)(p := newK)\<rparr>;
             h = connect_common p common h;
             h = connect (\<lambda>e s. s\<lparr>dst := e\<rparr>) p ins h;
             h = connect (\<lambda>e s. s\<lparr>src := e\<rparr>) p outs h in
         bind_out (adjust_rates K0 K1 n0 n1 h) (\<lambda>h.
           assert_out (is_const_idx K0 \<and> is_const_idx K1)
             (bind_out (fuse_work k0 k1 p f newK (w\<lparr>wh := h, next_id := next_id w + 1\<rparr>)) (\<lambda>w.
                (let newK = (fused_flags K0 K1 f newK)\<lparr>kstate := Some p, sched := sched K0\<rparr> in
                 assert_out (\<not> has_peek newK \<and> is_fixed_rate newK \<and> sched K0 = sched K1)
                   (Done (Some p, w\<lparr>wh := upd_rtk p (\<lambda>_. newK) (wh w),
                      fstate := (fstate w)(p \<mapsto> \<lparr>fs_k0 = k0, fs_k1 = k1,
                        fs_ins0 = impl_ins K0, fs_outs0 = impl_outs K0,
                        fs_ins1 = impl_ins K1, fs_outs1 = impl_outs K1,
                        fs_niter0 = n0, fs_niter1 = n1, fs_iter0 = 0, fs_iter1 = 0\<rparr>)\<rparr>))))))))))"

text \<open>\<open>runOnKernels\<close>: the null pointer is returned when the kernels cannot be fused.\<close>

definition common_rates :: "heap \<Rightarrow> ptr list \<Rightarrow> (unit, (int \<times> int) list) outcome" where
  "common_rates h qs = bind_out (si_list h qs) (\<lambda>ss. Done (map (\<lambda>s. (push_rate (hdr h s), pop_rate (hdr h s))) ss))"

definition runOnKernels :: "rt_kernel \<Rightarrow> ptr \<Rightarrow> ptr \<Rightarrow> world \<Rightarrow> (unit, ptr option \<times> world) outcome" where
  "runOnKernels junk k0 k1 w =
     (let h = wh w; K0 = rtk h k0; K1 = rtk h k1 in
      if has_peek K0 \<or> has_peek K1 then Done (None, w)
      else if \<not> is_fixed_rate K0 \<or> \<not> is_fixed_rate K1 then Done (None, w)
      else
        bind_out (common_rates h (computeCommonStreams K0 K1)) (\<lambda>rates.
        (case match_rates rates (1, 1, 1) of
           None \<Rightarrow> Fault
         | Some r \<Rightarrow> bind_out r (\<lambda>(n0, n1, _).
             bind_out (rates_too_big K0 K1 n0 n1 h) (\<lambda>big.
               if big then Done (None, w) else fuse_kernels junk k0 k1 n0 n1 w)))))"

subsection \<open>The least common multiple\<close>

lemma myLCM_loop_lcm:
  assumes "0 < x" "0 < y" "1 \<le> j" "y * j \<le> lcm x y" "y * j < 2 ^ 31"
  shows "myLCM_loop x y (y * j) = Some (if in_int (lcm x y) then Done (lcm x y) else Fault)"
  using assms(3-5)
proof (induction "nat (lcm x y - y * j)" arbitrary: j rule: less_induct)
  case less
  have pos: "0 < y * j" using less.prems assms(2) by simp
  show ?case
  proof (cases "x dvd y * j")
    case True
    then have "lcm x y dvd y * j" by simp
    then have "lcm x y \<le> y * j" using zdvd_imp_le pos by blast
    then have eq: "y * j = lcm x y" using less.prems by simp
    have "in_int (lcm x y)" using eq pos less.prems(3) by (simp add: in_int_def)
    then show ?thesis using eq True assms(1) by (subst myLCM_loop.simps) simp
  next
    case False
    have "y * j \<noteq> lcm x y" using False by (metis dvd_lcm1)
    then have lt: "y * j < lcm x y" using less.prems by simp
    have "y dvd lcm x y - y * j" by (intro dvd_diff) simp_all
    moreover have "0 < lcm x y - y * j" using lt by simp
    ultimately have "y \<le> lcm x y - y * j" using zdvd_imp_le by blast
    then have nx: "y * (j + 1) \<le> lcm x y" by (simp add: distrib_left)
    show ?thesis
    proof (cases "in_int (y * j + y)")
      case True
      have "nat (lcm x y - y * (j + 1)) < nat (lcm x y - y * j)"
        using assms(2) lt by (simp add: distrib_left nat_less_eq_zless)
      from less.hyps [OF this _ nx] less.prems True
      have "myLCM_loop x y (y * j + y) = Some (if in_int (lcm x y) then Done (lcm x y) else Fault)"
        by (simp add: distrib_left in_int_def)
      then show ?thesis using False True assms(1) by (subst myLCM_loop.simps) simp
    next
      case big: False
      then have "\<not> in_int (lcm x y)" using nx pos assms(2) by (simp add: in_int_def distrib_left)
      then show ?thesis using False big assms(1) by (subst myLCM_loop.simps) simp
    qed
  qed
qed

lemma myLCM_lcm:
  assumes "0 < x" "0 < y" "in_int y"
  shows "myLCM x y = Some (if in_int (lcm x y) then Done (lcm x y) else Fault)"
proof -
  have "y \<le> lcm x y" using assms by (intro zdvd_imp_le) (simp_all add: lcm_pos_int)
  then show ?thesis using myLCM_loop_lcm [OF assms(1,2), of 1] assms by (simp add: myLCM_def in_int_def)
qed

lemma match_one:
  assumes "0 < push" "0 < pop" "in_int push" "in_int pop"
  shows "match_rates [(push, pop)] (1, 1, 1) =
    Some (if in_int (lcm push pop) then Done (lcm push pop div push, lcm push pop div pop, lcm push pop) else Fault)"
proof -
  let ?l = "lcm push pop"
  have l: "0 < ?l" using assms by (intro lcm_pos_int) simp_all
  have "?l div push \<le> ?l div 1" "?l div pop \<le> ?l div 1" "0 \<le> ?l div push" "0 \<le> ?l div pop"
    using l assms by (auto simp: pos_imp_zdiv_nonneg_iff simp del: div_by_1 intro!: zdiv_mono2)
  then have "in_int (?l div push) \<and> in_int (?l div pop)" if "in_int ?l" using that by (auto simp: in_int_def)
  then show ?thesis using assms l by (simp add: myLCM_lcm div_int_def)
qed

text \<open>
  C16. When two kernels share one stream and its rates are positive, fusion runs them so often that what the first pushes is
  what the second pops, and never more often than needed: the numbers of iterations are the
  smallest positive ones that balance the rates.  The search for them ends; it overflows the type \<open>int\<close> exactly if
  the least common multiple of the rates does.
\<close>

theorem fusion_balances_rates:
  assumes "0 < push" and "0 < pop" and "in_int push" and "in_int pop"
  shows "if in_int (lcm push pop)
    then \<exists>n0 n1. match_rates [(push, pop)] (1, 1, 1) = Some (Done (n0, n1, lcm push pop)) \<and> 0 < n0 \<and> 0 < n1 \<and>
      push * n0 = pop * n1 \<and> (\<forall>m0 m1. 0 < m0 \<longrightarrow> push * m0 = pop * m1 \<longrightarrow> n0 \<le> m0 \<and> n1 \<le> m1)
    else match_rates [(push, pop)] (1, 1, 1) = Some Fault"
proof (cases "in_int (lcm push pop)")
  case True
  have l: "0 < lcm push pop" using assms by (intro lcm_pos_int) simp_all
  have p: "push * (lcm push pop div push) = lcm push pop" "pop * (lcm push pop div pop) = lcm push pop" by simp_all
  have pos: "0 < lcm push pop div push" "0 < lcm push pop div pop"
    using p l assms by (metis mult_pos_pos zero_less_mult_pos)+
  have min: "lcm push pop div push \<le> m0 \<and> lcm push pop div pop \<le> m1" if "0 < m0" "push * m0 = pop * m1" for m0 m1
  proof -
    have "lcm push pop dvd push * m0" using that(2) by (metis dvd_triv_left lcm_least)
    then have "lcm push pop \<le> push * m0" using that(1) assms by (intro zdvd_imp_le) simp_all
    then have "push * (lcm push pop div push) \<le> push * m0" "pop * (lcm push pop div pop) \<le> pop * m1"
      using p that(2) by simp_all
    then show ?thesis using assms(1,2) mult_le_cancel_left_pos by metis
  qed
  have "\<exists>n0 n1. match_rates [(push, pop)] (1, 1, 1) = Some (Done (n0, n1, lcm push pop)) \<and> 0 < n0 \<and> 0 < n1 \<and>
      push * n0 = pop * n1 \<and> (\<forall>m0 m1. 0 < m0 \<longrightarrow> push * m0 = pop * m1 \<longrightarrow> n0 \<le> m0 \<and> n1 \<le> m1)"
    unfolding match_one [OF assms]
    by (rule exI [of _ "lcm push pop div push"], rule exI [of _ "lcm push pop div pop"])
      (use p pos min True in auto)
  then show ?thesis using True by simp
next
  case False
  then show ?thesis unfolding match_one [OF assms] by simp
qed

theorem fusion_balances_rates_witness:
  "\<exists>n0 n1. match_rates [(4, 6)] (1, 1, 1) = Some (Done (n0, n1, 12)) \<and> 4 * n0 = 6 * n1"
proof -
  have l: "lcm 4 6 = (12 :: int)" "in_int 12" "in_int 4" "in_int 6" by (simp_all add: lcm_int_def in_int_def) code_simp
  then show ?thesis using fusion_balances_rates [of 4 6] by (simp del: match_rates.simps) blast
qed

text \<open>
  With two streams between the kernels the numbers of iterations are those of the last stream
  alone, and the other one may be left unbalanced: with rates 1 to 1 and 2 to 1, the second
  kernel pops twice as much from the first stream as the first kernel pushes, and the check that
  both sides agree on the size of the buffer fails.
\<close>

theorem fusion_two_streams_unbalanced:
  shows "match_rates [(1, 1), (2, 1)] (1, 1, 1) = Some (Done (1, 2, 2)) \<and>
    (\<forall>h q s. si (rts h q) = Some s \<longrightarrow> push_rate (hdr h s) = 1 * 1 \<longrightarrow> pop_rate (hdr h s) = 1 * 2 \<longrightarrow>
       rs_elem_size (rts h q) = 4 \<longrightarrow> buffers_match h [q] = Fault)"
proof -
  have "myLCM 1 1 = Some (Done 1)" "myLCM 2 1 = Some (Done 2)" "myLCM 1 2 = Some (Done 2)"
    by (simp_all add: myLCM_lcm in_int_def)
  then show ?thesis by (simp add: bytes_needed_def div_int_def in_int_def)
qed

theorem fusion_two_streams_unbalanced_witness:
  "buffers_match (upd_rts 1 (\<lambda>q. q\<lparr>si := Some 5, rs_elem_size := 4\<rparr>)
     (upd_hdr 5 (\<lambda>s. s\<lparr>push_rate := 1, pop_rate := 2\<rparr>) sample_heap)) [1] = Fault"
  by (rule fusion_two_streams_unbalanced [THEN conjunct2, rule_format, where s = 5]) simp_all

subsection \<open>Renumbering keeps the streams\<close>

lemma index_of_Some: "index_of s qs = Some i \<Longrightarrow> i < length qs \<and> qs ! i = s"
  by (induction qs arbitrary: i) (auto split: if_splits)

lemma index_of_None: "index_of s qs = None \<longleftrightarrow> s \<notin> set qs"
  by (induction qs) (auto split: if_splits)

text \<open>The stream an index of the fused function stands for.\<close>

definition resolve :: "rt_kernel \<Rightarrow> bool \<Rightarrow> nat \<Rightarrow> ptr option" where
  "resolve K push j =
     (let qs = (if j \<ge> 1000 then ints_of K else if push then outs_of K else ins_of K);
          i = (if j \<ge> 1000 then j - 1000 else j) in
      if i < length qs then Some (qs ! i) else None)"

lemma renumber_resolves:
  assumes "renumber_idx K s = Some j" "length (ins_of K) < 1000" "length (outs_of K) < 1000"
    and "push \<Longrightarrow> s \<notin> set (ins_of K)" and "\<not> push \<Longrightarrow> s \<notin> set (outs_of K)"
  shows "resolve K push j = Some s"
proof (cases "index_of s (ins_of K)")
  case (Some i)
  then have "i < length (ins_of K)" "ins_of K ! i = s" using index_of_Some by blast+
  then show ?thesis using Some assms by (auto simp: renumber_idx_def resolve_def)
next
  case None
  show ?thesis
  proof (cases "index_of s (outs_of K)")
    case (Some i)
    then have "i < length (outs_of K)" "outs_of K ! i = s" using index_of_Some by blast+
    then show ?thesis using None Some assms by (auto simp: renumber_idx_def resolve_def)
  next
    case None': None
    then obtain i where i: "index_of s (ints_of K) = Some i" "j = i + 1000"
      using assms(1) None by (auto simp: renumber_idx_def)
    then show ?thesis using index_of_Some [OF i(1)] by (simp add: resolve_def)
  qed
qed

lemma map_out_nth:
  "map_out f xs = Done ys \<Longrightarrow> length ys = length xs \<and> (\<forall>i<length xs. f (xs ! i) = Done (ys ! i))"
proof (induction xs arbitrary: ys)
  case (Cons x xs)
  then obtain y ys' where "f x = Done y" "map_out f xs = Done ys'" "ys = y # ys'"
    by (auto elim!: bind_out_DoneE)
  then show ?case using Cons.IH by (auto simp: nth_Cons split: nat.split)
qed simp

lemma renumber_sidx_Done:
  assumes "renumber_sidx newK streams n = Done j"
  obtains s k where "n = CIdx s" "j = CIdx k" "s < length streams" "renumber_idx newK (streams ! s) = Some k"
  using assms by (cases n) (auto simp: renumber_sidx_def split: if_splits option.splits)

text \<open>
  With a feedback loop around the pair it does not: a push to a stream that is also an input of the fused kernel gets the
  number of this input, which stands for another output, or for none.
\<close>

lemma renumber_feedback_wrong:
  assumes "ins_of newK = [a, f]" and "outs_of newK = [f]" and "outs_of K = [f]" and "a \<noteq> f"
    and "iop x = PushI (CIdx 0)"
  shows "renumberStreamOps newK K [x] = Done [x\<lparr>iop := PushI (CIdx 1)\<rparr>]" and "resolve newK True 1 = None"
  using assms by (simp_all add: renumberStreamOps_def renumber_op_def renumber_sidx_def renumber_idx_def resolve_def)

text \<open>
  C40. Renumbering the operations of a fused kernel keeps what they do, as long as no stream that the kernel writes is an
  input of the fused kernel and none that it reads is an output (no feedback loop around the pair), and the fused
  kernel has fewer than 1000 inputs and outputs: a push, pop or
  peek on a stream of the old kernel becomes the same operation on the number that stands for this stream in the
  fused kernel, as an input, an output or an internal stream, and every other instruction stays as it is.
\<close>

theorem renumber_keeps_streams:
  assumes "renumberStreamOps newK K work = Done work'" and "i < length work"
    and "length (ins_of newK) < 1000" "length (outs_of newK) < 1000"
    and "set (outs_of K) \<inter> set (ins_of newK) = {}" "set (ins_of K) \<inter> set (outs_of newK) = {}"
  shows "length work' = length work \<and>
    (case iop (work ! i) of
       PushI n \<Rightarrow> \<exists>s j. n = CIdx s \<and> work' ! i = (work ! i)\<lparr>iop := PushI (CIdx j)\<rparr> \<and> s < length (outs_of K) \<and>
         resolve newK True j = Some (outs_of K ! s)
     | PopI n \<Rightarrow> \<exists>s j. n = CIdx s \<and> work' ! i = (work ! i)\<lparr>iop := PopI (CIdx j)\<rparr> \<and> s < length (ins_of K) \<and>
         resolve newK False j = Some (ins_of K ! s)
     | PeekI n d \<Rightarrow> \<exists>s j. n = CIdx s \<and> work' ! i = (work ! i)\<lparr>iop := PeekI (CIdx j) d\<rparr> \<and> s < length (ins_of K) \<and>
         resolve newK False j = Some (ins_of K ! s)
     | _ \<Rightarrow> work' ! i = work ! i)"
proof -
  have f: "renumber_op newK K (work ! i) = Done (work' ! i)" and l: "length work' = length work"
    using map_out_nth [of "renumber_op newK K" work work'] assms(1,2) by (simp_all add: renumberStreamOps_def)
  have push: "\<exists>s k. n = CIdx s \<and> j = CIdx k \<and> s < length (outs_of K) \<and> resolve newK True k = Some (outs_of K ! s)"
    if "renumber_sidx newK (outs_of K) n = Done j" for n j
  proof (rule renumber_sidx_Done [OF that])
    fix s k
    assume k: "n = CIdx s" "j = CIdx k" "s < length (outs_of K)" "renumber_idx newK (outs_of K ! s) = Some k"
    have "outs_of K ! s \<notin> set (ins_of newK)" using assms(5) k(3) by (meson disjoint_iff nth_mem)
    then show ?thesis using renumber_resolves [OF k(4) assms(3,4), of True] k by auto
  qed
  have pop: "\<exists>s k. n = CIdx s \<and> j = CIdx k \<and> s < length (ins_of K) \<and> resolve newK False k = Some (ins_of K ! s)"
    if "renumber_sidx newK (ins_of K) n = Done j" for n j
  proof (rule renumber_sidx_Done [OF that])
    fix s k
    assume k: "n = CIdx s" "j = CIdx k" "s < length (ins_of K)" "renumber_idx newK (ins_of K ! s) = Some k"
    have "ins_of K ! s \<notin> set (outs_of newK)" using assms(6) k(3) by (meson disjoint_iff nth_mem)
    then show ?thesis using renumber_resolves [OF k(4) assms(3,4), of False] k by auto
  qed
  show ?thesis using f l
    by (cases "iop (work ! i)") (force simp: renumber_op_def elim!: bind_out_DoneE dest!: push pop)+
qed

definition sample_fused :: "rt_kernel \<times> rt_kernel \<times> rt_kernel" where
  "sample_fused =
     (let K = new_rt_kernel undefined 1; K0 = K\<lparr>nins := 1, rt_ins := Some [7], nouts := 1, rt_outs := Some [8]\<rparr>;
          K1 = K\<lparr>nins := 1, rt_ins := Some [8], nouts := 1, rt_outs := Some [9]\<rparr>;
          common = computeCommonStreams K0 K1 in
      (K0, K1, fused_kernel K 2 (computeInputStreams common K0 K1) (computeOutputStreams common K0 K1) common [] []))"

theorem renumber_keeps_streams_witness:
  "\<exists>work' j. renumberStreamOps (snd (snd sample_fused)) (fst sample_fused) sample_work = Done work' \<and>
     iop (work' ! 1) = PushI (CIdx j) \<and> resolve (snd (snd sample_fused)) True j = Some 8"
proof -
  define K0 N where "K0 = fst sample_fused" and "N = snd (snd sample_fused)"
  have s: "ins_of K0 = [7]" "outs_of K0 = [8]" "ins_of N = [7]" "outs_of N = [9]" "ints_of N = [8]"
    by (simp_all add: K0_def N_def sample_fused_def Let_def fused_kernel_def computeCommonStreams_def
      computeInputStreams_def computeOutputStreams_def arr_def new_rt_kernel_def)
  obtain work' where w: "renumberStreamOps N K0 sample_work = Done work'"
    by (simp add: renumberStreamOps_def sample_work_def renumber_op_def renumber_sidx_def s renumber_idx_def)
  have "iop (sample_work ! 1) = PushI (CIdx 0)" "1 < length sample_work" by (simp_all add: sample_work_def)
  with renumber_keeps_streams [OF w, of 1] show ?thesis
    unfolding K0_def [symmetric] N_def [symmetric] using w s by auto
qed

end
