(* ===== verification/Runtime_Graph.thy ===== *)
theory Runtime_Graph
  imports Fusion
begin

section \<open>The stream graph\<close>

text \<open>
  \<open>lib/SKIR/SKIRRuntimeGraph.cpp\<close>: the kernels that were called, the edges between them, the
  allocation of their streams, the choice of a scheduler and the call of a kernel.  The map
  from identifiers to kernels may hold null pointers (\<open>Some None\<close>), because reading it with
  \<open>operator[]\<close> inserts them.  Identifiers stay below the capacity of the adjacency list, which
  \<open>addKernel\<close> asserts, so that the loops over the map go through the identifiers in order.
\<close>

record options =
  ForceSingleSched :: bool
  ForceTPK :: bool
  EnableDPSched :: bool
  EnableOpenCLSched :: bool
  use_opencl :: bool
  num_threads :: uint64

record graph =
  gw :: world
  adj :: "nat \<Rightarrow> nat list"
  id2kernel :: "nat \<Rightarrow> ptr option option"
  the_tbb_sched :: ptr
  the_koro_sched :: ptr
  the_dp_sched :: ptr
  the_opencl_sched :: ptr
  started :: "ptr list"
  hier_parent :: "ptr option"

definition ADJ_CAPACITY :: nat where "ADJ_CAPACITY = 10240"

abbreviation gh :: "graph \<Rightarrow> heap" where "gh g \<equiv> wh (gw g)"

definition upd_gh :: "(heap \<Rightarrow> heap) \<Rightarrow> graph \<Rightarrow> graph" where
  "upd_gh f g = g\<lparr>gw := upd_wh f (gw g)\<rparr>"

definition knum :: "graph \<Rightarrow> ptr \<Rightarrow> nat" where
  "knum g k = unat (kid (rtk (gh g) k))"

subsection \<open>Kernels and edges\<close>

definition addKernel :: "ptr \<Rightarrow> graph \<Rightarrow> (unit, graph) outcome" where
  "addKernel k g =
     assert_out (knum g k < ADJ_CAPACITY)
       (if id2kernel g (knum g k) = Some (Some k) then Done g
        else Done (g\<lparr>adj := (adj g)(knum g k := []), id2kernel := (id2kernel g)(knum g k \<mapsto> Some k)\<rparr>))"

definition g_removeKernel :: "ptr \<Rightarrow> graph \<Rightarrow> graph" where
  "g_removeKernel k g =
     g\<lparr>adj := (adj g)(knum g k := []), id2kernel := (id2kernel g)(knum g k := None)\<rparr>"

text \<open>\<open>id2kernel[i]\<close>: a missing entry is inserted.\<close>

definition lookup_kernel :: "nat \<Rightarrow> graph \<Rightarrow> ptr option \<times> graph" where
  "lookup_kernel i g =
     (case id2kernel g i of
        Some v \<Rightarrow> (v, g)
      | None \<Rightarrow> (None, g\<lparr>id2kernel := (id2kernel g)(i \<mapsto> None)\<rparr>))"

definition addEdge :: "endp \<Rightarrow> endp \<Rightarrow> graph \<Rightarrow> (unit, graph) outcome" where
  "addEdge s d g =
     (if s \<in> {OpenEnd, DeadEnd, NullEnd} \<or> d \<in> {OpenEnd, DeadEnd, NullEnd} then Done g
      else (case s of
          KernEnd p \<Rightarrow>
            (let (v, g) = lookup_kernel (knum g p) g in
             if v = None then Done g
             else (case d of
                 KernEnd q \<Rightarrow> Done (g\<lparr>adj := (adj g)(knum g p := adj g (knum g p) @ [knum g q])\<rparr>)
               | _ \<Rightarrow> Fault))
        | _ \<Rightarrow> Fault))"

text \<open>One stream of a kernel: every stream is visited once.\<close>

definition refresh_stream :: "ptr \<Rightarrow> ptr set \<times> graph \<Rightarrow> (unit, ptr set \<times> graph) outcome" where
  "refresh_stream q st =
     (let (visited, g) = st in
      if q \<in> visited then Done (visited, g)
      else (case si (rts (gh g) q) of
          None \<Rightarrow> Done (insert q visited, g)
        | Some s \<Rightarrow>
            bind_out (addEdge (src (hdr (gh g) s)) (dst (hdr (gh g) s)) g)
              (\<lambda>g. Done (insert q visited, g))))"

fun refresh_streams :: "ptr list \<Rightarrow> ptr set \<times> graph \<Rightarrow> (unit, ptr set \<times> graph) outcome" where
  "refresh_streams [] st = Done st"
| "refresh_streams (q # qs) st = bind_out (refresh_stream q st) (refresh_streams qs)"

fun refresh_kernels :: "nat list \<Rightarrow> ptr set \<times> graph \<Rightarrow> (unit, ptr set \<times> graph) outcome" where
  "refresh_kernels [] st = Done st"
| "refresh_kernels (i # is) st =
     (case id2kernel (snd st) i of
        Some (Some k) \<Rightarrow>
          bind_out (refresh_streams (ins_of (rtk (gh (snd st)) k)) st) (\<lambda>st.
          bind_out (refresh_streams (outs_of (rtk (gh (snd st)) k)) st) (refresh_kernels is))
      | _ \<Rightarrow> refresh_kernels is st)"

definition refreshAdjList :: "graph \<Rightarrow> (unit, graph) outcome" where
  "refreshAdjList g =
     bind_out (refresh_kernels [0..<ADJ_CAPACITY] ({}, g\<lparr>adj := (\<lambda>i. if i < ADJ_CAPACITY then [] else adj g i)\<rparr>))
       (\<lambda>(_, g). Done g)"

subsection \<open>Topological order\<close>

text \<open>
  The recursion of \<open>topo_sort_visit\<close>: \<open>c\<close> marks the nodes that were reached, the list holds the
  kernels that are finished.  The fuel bounds the depth; \<open>topo_total\<close> shows that the
  number of nodes is enough.
\<close>

fun topo_sort_visit :: "nat \<Rightarrow> graph \<Rightarrow> nat \<Rightarrow> nat set \<times> ptr option list \<Rightarrow> (nat set \<times> ptr option list) option"
  and topo_sort_next :: "nat \<Rightarrow> graph \<Rightarrow> nat list \<Rightarrow> nat set \<times> ptr option list \<Rightarrow> (nat set \<times> ptr option list) option" where
  "topo_sort_visit 0 g k st = None"
| "topo_sort_visit (Suc n) g k st =
     (let st = (insert k (fst st), snd st) in
      case id2kernel g k of
        None \<Rightarrow> Some st
      | Some v \<Rightarrow>
          (case topo_sort_next n g (rev (adj g k)) st of
             None \<Rightarrow> None
           | Some (c, out) \<Rightarrow> Some (c, v # out)))"
| "topo_sort_next n g [] st = Some st"
| "topo_sort_next n g (j # js) st =
     (if j \<in> fst st then topo_sort_next n g js st
      else (case topo_sort_visit n g j st of
          None \<Rightarrow> None
        | Some st \<Rightarrow> topo_sort_next n g js st))"

definition topo_sort :: "graph \<Rightarrow> (unit, graph \<times> (nat set \<times> ptr option list) option) outcome" where
  "topo_sort g =
     bind_out (refreshAdjList g) (\<lambda>g.
       Done (g, topo_sort_next ADJ_CAPACITY g [0..<ADJ_CAPACITY] ({}, [])))"

subsection \<open>Streams of a kernel\<close>

text \<open>
  One input and one output of \<open>allocateStreams\<close>; a stream that was allocated when the other end
  was seen keeps its implementation.  The arrays end with a null pointer.
\<close>

definition find_or_new :: "byte list \<Rightarrow> ptr \<Rightarrow> heap \<Rightarrow> (unit, ptr \<times> heap) outcome" where
  "find_or_new junk q h =
     (case si (rts h q) of
        Some s \<Rightarrow> Done (s, h)
      | None \<Rightarrow>
          bind_out (new_skir_stream_t junk q h) (\<lambda>(r, h).
            (case r of
               None \<Rightarrow> Fault
             | Some s \<Rightarrow> Done (s, upd_rts q (\<lambda>x. x\<lparr>si := Some s\<rparr>) h))))"

definition stream_end :: "ptr \<Rightarrow> ptr \<Rightarrow> heap \<Rightarrow> endp" where
  "stream_end k q h = (if rs_type (rts h q) \<noteq> SHARED then KernEnd k else SharedEnd)"

definition alloc_input :: "byte list \<Rightarrow> ptr \<Rightarrow> ptr \<Rightarrow> heap \<Rightarrow> (unit, ptr \<times> heap) outcome" where
  "alloc_input junk k q h =
     bind_out (find_or_new junk q (upd_rts q (\<lambda>x. x\<lparr>is_src := True\<rparr>) h)) (\<lambda>(s, h).
       Done (s, upd_hdr s (\<lambda>x. x\<lparr>dst := stream_end k q h, pop_rate := rs_pop_rate (rts h q),
          peek_rate := rs_peek_rate (rts h q)\<rparr>) h))"

definition alloc_output :: "byte list \<Rightarrow> ptr \<Rightarrow> ptr \<Rightarrow> heap \<Rightarrow> (unit, ptr \<times> heap) outcome" where
  "alloc_output junk k q h =
     bind_out (find_or_new junk q (upd_rts q (\<lambda>x. x\<lparr>is_dst := True\<rparr>) h)) (\<lambda>(s, h).
       Done (s, upd_hdr s (\<lambda>x. x\<lparr>src := stream_end k q h, push_rate := rs_push_rate (rts h q)\<rparr>) h))"

fun alloc_all :: "(ptr \<Rightarrow> heap \<Rightarrow> (unit, ptr \<times> heap) outcome) \<Rightarrow> ptr list \<Rightarrow> heap \<Rightarrow> (unit, ptr list \<times> heap) outcome" where
  "alloc_all f [] h = Done ([], h)"
| "alloc_all f (q # qs) h =
     bind_out (f q h) (\<lambda>(s, h). bind_out (alloc_all f qs h) (\<lambda>(ss, h). Done (s # ss, h)))"

definition allocateStreams :: "byte list \<Rightarrow> ptr \<Rightarrow> heap \<Rightarrow> (unit, heap) outcome" where
  "allocateStreams junk k h =
     assert_out (impl_ins (rtk h k) = None \<and> impl_outs (rtk h k) = None)
       (bind_out (alloc_all (alloc_input junk k) (ins_of (rtk h k)) h) (\<lambda>(kins, h).
        (let h = upd_rtk k (\<lambda>K. K\<lparr>impl_ins := Some (map Some kins @ [None])\<rparr>) h in
        bind_out (alloc_all (alloc_output junk k) (outs_of (rtk h k)) h) (\<lambda>(kouts, h).
          Done (upd_rtk k (\<lambda>K. K\<lparr>impl_outs := Some (map Some kouts @ [None])\<rparr>) h)))))"

subsection \<open>The scheduler of a kernel\<close>

definition set_sched :: "ptr \<Rightarrow> ptr \<Rightarrow> graph \<Rightarrow> graph" where
  "set_sched k s g = upd_gh (upd_rtk k (\<lambda>K. K\<lparr>sched := Some s\<rparr>)) g"

definition start_sched :: "ptr \<Rightarrow> graph \<Rightarrow> graph" where
  "start_sched s g = g\<lparr>started := s # started g\<rparr>"

definition selectScheduler :: "options \<Rightarrow> ptr \<Rightarrow> ptr option \<Rightarrow> graph \<Rightarrow> (unit, graph) outcome" where
  "selectScheduler opts k fix_sched g =
     (case fix_sched of
        Some s \<Rightarrow> Done (upd_gh (upd_rtk k (\<lambda>K. K\<lparr>fixed_sched := True\<rparr>)) (set_sched k s g))
      | None \<Rightarrow>
          if fixed_sched (rtk (gh g) k) then assert_out (sched (rtk (gh g) k) \<noteq> None) (Done g)
          else if ForceSingleSched opts then
            Done (start_sched (the_koro_sched g) (set_sched k (the_koro_sched g) g))
          else if ForceTPK opts then
            (let s = fresh (gh g);
                 g = upd_gh (\<lambda>h. upd_rtk k (\<lambda>K. K\<lparr>opt_only := True\<rparr>) (h\<lparr>fresh := Suc s\<rparr>)) g in
             Done (start_sched s (set_sched k s g)))
          else
            (let K = rtk (gh g) k; is_dp = (\<not> is_stateful K \<and> \<not> has_peek K) in
             if is_fixed_rate K \<and> EnableDPSched opts \<and> is_dp then Done (set_sched k (the_dp_sched g) g)
             else if is_fixed_rate K \<and> use_opencl opts \<and> EnableOpenCLSched opts \<and> is_dp then
               Done (set_sched k (the_opencl_sched g) (start_sched (the_opencl_sched g) g))
             else Done (start_sched (the_tbb_sched g) (set_sched k (the_tbb_sched g) g))))"

subsection \<open>Calling and waiting for a kernel\<close>

text \<open>
  \<open>prep\<close> stands for the passes that copy and analyse the work function, \<open>codegen\<close> for the
  generation of host code, \<open>run\<close> for the work function of a hierarchical kernel, which calls
  the kernels below it, and \<open>start\<close> for the call of the scheduler.
\<close>

definition first_call :: "(ptr \<Rightarrow> heap \<Rightarrow> heap) \<Rightarrow> (ptr \<Rightarrow> heap \<Rightarrow> heap) \<Rightarrow> options \<Rightarrow> ptr \<Rightarrow> graph \<Rightarrow> (unit, graph) outcome" where
  "first_call prep codegen opts k g =
     bind_out (addKernel k (upd_gh (prep k) g)) (\<lambda>g.
     bind_out (if is_hier (rtk (gh g) k) then Done (upd_gh (codegen k) g) else selectScheduler opts k None g) (\<lambda>g.
       Done (case hier_parent g of
           None \<Rightarrow> g
         | Some p \<Rightarrow> upd_gh (upd_rtk p (\<lambda>P. P\<lparr>children := children P @ [k]\<rparr>)) g)))"

definition g_callKernel :: "byte list \<Rightarrow> (ptr \<Rightarrow> heap \<Rightarrow> heap) \<Rightarrow> (ptr \<Rightarrow> heap \<Rightarrow> heap) \<Rightarrow>
    (ptr \<Rightarrow> graph \<Rightarrow> (unit, graph) outcome) \<Rightarrow> (ptr \<Rightarrow> ptr \<Rightarrow> graph \<Rightarrow> graph) \<Rightarrow> options \<Rightarrow>
    ptr \<Rightarrow> graph \<Rightarrow> (unit, graph) outcome" where
  "g_callKernel junk prep codegen run start opts k g =
     bind_out (if base_work (rtk (gh g) k) = work_fn (rtk (gh g) k) then first_call prep codegen opts k g else Done g) (\<lambda>g.
       if is_hier (rtk (gh g) k) then
         (let pop = hier_parent g in
          bind_out (run k (g\<lparr>hier_parent := Some k\<rparr>)) (\<lambda>g. Done (g\<lparr>hier_parent := pop\<rparr>)))
       else
         bind_out (allocateStreams junk k (gh g)) (\<lambda>h.
           (let g = upd_gh (\<lambda>_. h) g in
            case sched (rtk h k) of None \<Rightarrow> Fault | Some s \<Rightarrow> Done (start s k g))))"

text \<open>The waits on schedulers that \<open>waitKernel\<close> makes, in order; \<open>None\<close>: the fuel ran out.\<close>

fun g_waitKernel :: "nat \<Rightarrow> heap \<Rightarrow> ptr \<Rightarrow> (ptr option \<times> ptr) list option"
  and g_waitKernels :: "nat \<Rightarrow> heap \<Rightarrow> ptr list \<Rightarrow> (ptr option \<times> ptr) list option" where
  "g_waitKernel 0 h k = None"
| "g_waitKernel (Suc n) h k =
     (if is_hier (rtk h k) then g_waitKernels n h (children (rtk h k))
      else Some [(sched (rtk h k), k)])"
| "g_waitKernels n h [] = Some []"
| "g_waitKernels n h (c # cs) =
     (case g_waitKernel n h c of
        None \<Rightarrow> None
      | Some ws \<Rightarrow> map_option ((@) ws) (g_waitKernels n h cs))"

subsection \<open>Fusing, splitting and the limiter\<close>

definition g_fuseKernels :: "rt_kernel \<Rightarrow> ptr \<Rightarrow> ptr \<Rightarrow> graph \<Rightarrow> (unit, ptr option \<times> graph) outcome" where
  "g_fuseKernels junk k0 k1 g =
     assert_out (sched (rtk (gh g) k0) = sched (rtk (gh g) k1))
       (bind_out (runOnKernels junk k0 k1 (gw g)) (\<lambda>(r, w).
         (let g = g\<lparr>gw := w\<rparr> in
          case r of
            None \<Rightarrow> Done (None, g)
          | Some k \<Rightarrow>
              bind_out (addKernel k (g_removeKernel k1 (g_removeKernel k0 g))) (\<lambda>g. Done (Some k, g)))))"

text \<open>\<open>SKIRFission::runOnKernel\<close> has an empty body: it adds no kernels.\<close>

definition fission_runOnKernel :: "ptr list \<Rightarrow> ptr \<Rightarrow> int \<Rightarrow> graph \<Rightarrow> ptr list \<times> graph" where
  "fission_runOnKernel outK k width g = (outK, g)"

fun add_kernels :: "ptr list \<Rightarrow> graph \<Rightarrow> (unit, graph) outcome" where
  "add_kernels [] g = Done g"
| "add_kernels (k # ks) g = bind_out (addKernel k g) (add_kernels ks)"

definition g_fissKernel :: "ptr list \<Rightarrow> ptr \<Rightarrow> int \<Rightarrow> graph \<Rightarrow> (unit, ptr list \<times> graph) outcome" where
  "g_fissKernel outK k width g =
     (let (outK, g) = fission_runOnKernel outK k width g in
      if outK = [] then Done (outK, g)
      else bind_out (add_kernels outK (g_removeKernel k g)) (\<lambda>g. Done (outK, g)))"

text \<open>
  The time per iteration is kept in 32 bits.  \<open>None\<close> in the second component: a kernel without
  enough iterations was met.
\<close>

definition iter_time :: "graph \<Rightarrow> ptr \<Rightarrow> uint32" where
  "iter_time g k = ucast (total_runtime (rtk (gh g) k) div total_niter (rtk (gh g) k))"

fun limiter_loop :: "graph \<Rightarrow> nat list \<Rightarrow> uint64 \<times> ptr option \<Rightarrow> (uint64 \<times> ptr option) option" where
  "limiter_loop g [] st = Some st"
| "limiter_loop g (i # is) (tot, m) =
     (case id2kernel g i of
        None \<Rightarrow> limiter_loop g is (tot, m)
      | Some None \<Rightarrow> None
      | Some (Some k) \<Rightarrow>
          if total_niter (rtk (gh g) k) < 16 then None
          else limiter_loop g is (tot + ucast (iter_time g k),
            case m of None \<Rightarrow> Some k
            | Some x \<Rightarrow> if iter_time g k > iter_time g x then Some k else m))"

definition getLimiter :: "options \<Rightarrow> graph \<Rightarrow> ptr option" where
  "getLimiter opts g =
     (case limiter_loop g [0..<ADJ_CAPACITY] (0, None) of
        None \<Rightarrow> None
      | Some (tot, m) \<Rightarrow>
          (case m of
             None \<Rightarrow> None
           | Some k \<Rightarrow> if ucast (iter_time g k) > tot div num_threads opts then None else Some k))"

definition getNumKernels :: "graph \<Rightarrow> nat" where
  "getNumKernels g = length (filter (\<lambda>i. id2kernel g i \<noteq> None) [0..<ADJ_CAPACITY])"

end
