(* ===== verification/Graph_Props.thy ===== *)
theory Graph_Props
  imports Runtime_Graph
begin

section \<open>Properties of the stream graph\<close>

text \<open>
  The topological sort of \<open>Runtime_Graph\<close> is correct on acyclic graphs, the allocation of streams
  connects kernels, and the choice of a scheduler respects what the analysis found.
\<close>

subsection \<open>The topological order\<close>

definition kedges :: "graph \<Rightarrow> (nat \<times> nat) set" where
  "kedges g = {(i, j). j \<in> set (adj g i) \<and> id2kernel g i \<noteq> None \<and> id2kernel g j \<noteq> None}"

definition handle :: "graph \<Rightarrow> nat \<Rightarrow> ptr option" where
  "handle g i = the (id2kernel g i)"

definition precedes :: "nat \<Rightarrow> nat \<Rightarrow> nat list \<Rightarrow> bool" where
  "precedes i j ids \<longleftrightarrow> (\<exists>a b c. ids = a @ i # b @ j # c)"

definition topo_ok :: "graph \<Rightarrow> nat set \<Rightarrow> nat list \<Rightarrow> bool" where
  "topo_ok g c ids \<longleftrightarrow>
     distinct ids \<and> set ids \<subseteq> c \<and> c \<subseteq> {..<ADJ_CAPACITY} \<and> (\<forall>i\<in>set ids. id2kernel g i \<noteq> None) \<and>
     (\<forall>(i, j)\<in>kedges g. i \<in> set ids \<longrightarrow> precedes i j ids)"

definition gray :: "graph \<Rightarrow> nat set \<Rightarrow> nat list \<Rightarrow> nat set" where
  "gray g c ids = {i \<in> c. id2kernel g i \<noteq> None} - set ids"

lemma precedes_Cons: "precedes i j ids \<Longrightarrow> precedes i j (k # ids)"
  unfolding precedes_def by (metis append_Cons)

lemma precedes_first: "j \<in> set ids \<Longrightarrow> precedes k j (k # ids)"
  unfolding precedes_def by (metis append_Nil split_list)

text \<open>What a call of \<open>topo_sort_visit\<close> or \<open>topo_sort_next\<close> promises.\<close>

definition topo_result :: "graph \<Rightarrow> nat set \<Rightarrow> nat set \<Rightarrow> nat list \<Rightarrow> (nat set \<times> ptr option list) option \<Rightarrow> bool" where
  "topo_result g need c ids r \<longleftrightarrow>
     (\<exists>c' ids'. r = Some (c', map (handle g) ids') \<and> topo_ok g c' ids' \<and> c \<subseteq> c' \<and> need \<subseteq> c' \<and>
        gray g c' ids' = gray g c ids)"

lemma topo_resultI:
  "r = Some (c', map (handle g) ids') \<Longrightarrow> topo_ok g c' ids' \<Longrightarrow> c \<subseteq> c' \<Longrightarrow> need \<subseteq> c' \<Longrightarrow>
   gray g c' ids' = gray g c ids \<Longrightarrow> topo_result g need c ids r"
  unfolding topo_result_def by blast

lemma topo_finish:
  assumes ac: "acyclic (kedges g)" and ok: "topo_ok g c ids" and k: "id2kernel g k \<noteq> None"
    and gray: "gray g c ids = insert k G" and G: "k \<notin> G" "\<forall>x\<in>G. (x, k) \<in> (kedges g)\<^sup>+"
    and adj: "set (adj g k) \<subseteq> c"
  shows "topo_ok g c (k # ids) \<and> gray g c (k # ids) = G"
proof -
  have kc: "k \<in> c" "k \<notin> set ids" using gray by (auto simp: gray_def)
  have succ: "j \<in> set ids" if "(k, j) \<in> kedges g" for j
  proof (rule ccontr)
    assume "j \<notin> set ids"
    then have "j \<in> gray g c ids" using that adj by (auto simp: kedges_def gray_def)
    then have "j = k \<or> (j, k) \<in> (kedges g)\<^sup>+" using gray G by auto
    then have "(k, k) \<in> (kedges g)\<^sup>+" using that by (meson trancl.r_into_trancl trancl_trans)
    then show False using ac by (simp add: acyclic_def)
  qed
  have "precedes i j (k # ids)" if "(i, j) \<in> kedges g" "i \<in> set (k # ids)" for i j
  proof (cases "i = k")
    case True
    then show ?thesis using succ that by (simp add: precedes_first)
  next
    case False
    then show ?thesis using ok that by (auto simp: topo_ok_def intro: precedes_Cons)
  qed
  then have "topo_ok g c (k # ids)" using ok kc k by (auto simp: topo_ok_def)
  moreover have "gray g c (k # ids) = G" using gray G(1) by (auto simp: gray_def)
  ultimately show ?thesis by blast
qed

lemma unvisited_insert:
  assumes "k < ADJ_CAPACITY" "k \<notin> c" "card ({..<ADJ_CAPACITY} - c) \<le> Suc n"
  shows "card ({..<ADJ_CAPACITY} - insert k c) \<le> n"
proof -
  have "{..<ADJ_CAPACITY} - insert k c = ({..<ADJ_CAPACITY} - c) - {k}" by auto
  moreover have "k \<in> {..<ADJ_CAPACITY} - c" using assms by simp
  ultimately show ?thesis using assms(3) by (simp add: card_Diff_singleton)
qed

definition visit_claim :: "graph \<Rightarrow> nat \<Rightarrow> bool" where
  "visit_claim g n \<longleftrightarrow> (\<forall>k c ids. topo_ok g c ids \<longrightarrow> k < ADJ_CAPACITY \<longrightarrow> k \<notin> c \<longrightarrow>
     card ({..<ADJ_CAPACITY} - c) \<le> n \<longrightarrow>
     (id2kernel g k \<noteq> None \<longrightarrow> (\<forall>x\<in>gray g c ids. (x, k) \<in> (kedges g)\<^sup>+)) \<longrightarrow>
     topo_result g {k} c ids (topo_sort_visit n g k (c, map (handle g) ids)))"

lemma next_claim:
  assumes "visit_claim g n" "topo_ok g c ids" "set js \<subseteq> {..<ADJ_CAPACITY}" "card ({..<ADJ_CAPACITY} - c) \<le> n"
    and "\<forall>j\<in>set js. id2kernel g j \<noteq> None \<longrightarrow> (\<forall>x\<in>gray g c ids. (x, j) \<in> (kedges g)\<^sup>+)"
  shows "topo_result g (set js) c ids (topo_sort_next n g js (c, map (handle g) ids))"
  using assms(2-)
proof (induction js arbitrary: c ids)
  case Nil
  then show ?case by (intro topo_resultI [of _ c g ids]) simp_all
next
  case (Cons j js)
  show ?case
  proof (cases "j \<in> c")
    case True
    then have "topo_result g (set js) c ids (topo_sort_next n g js (c, map (handle g) ids))"
      using Cons by auto
    then show ?thesis using True by (auto simp: topo_result_def)
  next
    case False
    have "topo_result g {j} c ids (topo_sort_visit n g j (c, map (handle g) ids))"
      using assms(1) Cons.prems False unfolding visit_claim_def by simp
    then obtain c1 ids1 where 1: "topo_sort_visit n g j (c, map (handle g) ids) = Some (c1, map (handle g) ids1)"
      "topo_ok g c1 ids1" "c \<subseteq> c1" "j \<in> c1" "gray g c1 ids1 = gray g c ids"
      by (auto simp: topo_result_def)
    have "card ({..<ADJ_CAPACITY} - c1) \<le> card ({..<ADJ_CAPACITY} - c)"
      using 1(3) by (intro card_mono) auto
    then have "topo_result g (set js) c1 ids1 (topo_sort_next n g js (c1, map (handle g) ids1))"
      using Cons.IH [OF 1(2)] Cons.prems 1(5) by auto
    then obtain c2 ids2 where 2: "topo_sort_next n g js (c1, map (handle g) ids1) = Some (c2, map (handle g) ids2)"
      "topo_ok g c2 ids2" "c1 \<subseteq> c2" "set js \<subseteq> c2" "gray g c2 ids2 = gray g c1 ids1"
      by (auto simp: topo_result_def)
    show ?thesis using False 1 2 by (intro topo_resultI [of _ c2 g ids2]) auto
  qed
qed

lemma visit_step:
  assumes ac: "acyclic (kedges g)" and bound: "\<And>i j. j \<in> set (adj g i) \<Longrightarrow> j < ADJ_CAPACITY"
    and IH: "visit_claim g n"
  shows "visit_claim g (Suc n)"
  unfolding visit_claim_def
proof (intro allI impI)
  fix k c ids
  assume ok: "topo_ok g c ids" and k: "k < ADJ_CAPACITY" "k \<notin> c" and n: "card ({..<ADJ_CAPACITY} - c) \<le> Suc n"
    and reach: "id2kernel g k \<noteq> None \<longrightarrow> (\<forall>x\<in>gray g c ids. (x, k) \<in> (kedges g)\<^sup>+)"
  have ok1: "topo_ok g (insert k c) ids" using ok k by (auto simp: topo_ok_def)
  show "topo_result g {k} c ids (topo_sort_visit (Suc n) g k (c, map (handle g) ids))"
  proof (cases "id2kernel g k")
    case None
    then have "gray g (insert k c) ids = gray g c ids" by (auto simp: gray_def)
    then show ?thesis using None ok1 by (intro topo_resultI [of _ "insert k c" g ids]) auto
  next
    case (Some v)
    have knew: "k \<notin> set ids" using ok k by (auto simp: topo_ok_def)
    then have gr: "gray g (insert k c) ids = insert k (gray g c ids)" "k \<notin> gray g c ids"
      using Some k by (auto simp: gray_def)
    have "topo_result g (set (rev (adj g k))) (insert k c) ids (topo_sort_next n g (rev (adj g k)) (insert k c, map (handle g) ids))"
    proof (rule next_claim [OF IH ok1])
      show "set (rev (adj g k)) \<subseteq> {..<ADJ_CAPACITY}" using bound by auto
      show "card ({..<ADJ_CAPACITY} - insert k c) \<le> n" using unvisited_insert k n by blast
      have "(x, j) \<in> (kedges g)\<^sup>+" if "j \<in> set (adj g k)" "id2kernel g j \<noteq> None" "x \<in> insert k (gray g c ids)" for x j
      proof -
        have e: "(k, j) \<in> kedges g" using that Some by (simp add: kedges_def)
        then show ?thesis using that(3) reach Some by (auto intro: trancl_into_trancl)
      qed
      then show "\<forall>j\<in>set (rev (adj g k)). id2kernel g j \<noteq> None \<longrightarrow> (\<forall>x\<in>gray g (insert k c) ids. (x, j) \<in> (kedges g)\<^sup>+)"
        using gr by simp
    qed
    then obtain c1 ids1 where 1: "topo_sort_next n g (rev (adj g k)) (insert k c, map (handle g) ids) = Some (c1, map (handle g) ids1)"
      "topo_ok g c1 ids1" "insert k c \<subseteq> c1" "set (adj g k) \<subseteq> c1" "gray g c1 ids1 = insert k (gray g c ids)"
      using gr by (auto simp: topo_result_def)
    have fin: "topo_ok g c1 (k # ids1) \<and> gray g c1 (k # ids1) = gray g c ids"
      using topo_finish [OF ac 1(2) _ 1(5) gr(2) _ 1(4)] reach Some by simp
    have "topo_sort_visit (Suc n) g k (c, map (handle g) ids) = Some (c1, map (handle g) (k # ids1))"
      using Some 1(1) by (simp add: handle_def)
    then show ?thesis
    proof (rule topo_resultI)
      show "topo_ok g c1 (k # ids1)" "gray g c1 (k # ids1) = gray g c ids" by (rule fin [THEN conjunct1], rule fin [THEN conjunct2])
      show "c \<subseteq> c1" "{k} \<subseteq> c1" using 1(3) by simp_all
    qed
  qed
qed

lemma visit_always:
  assumes "acyclic (kedges g)" and "\<And>i j. j \<in> set (adj g i) \<Longrightarrow> j < ADJ_CAPACITY"
  shows "visit_claim g n"
proof (induction n)
  case 0
  have "card ({..<ADJ_CAPACITY} - c) \<noteq> 0" if "k < ADJ_CAPACITY" "k \<notin> c" for k c
    using that by auto
  then show ?case unfolding visit_claim_def by blast
next
  case (Suc n)
  then show ?case using visit_step assms by blast
qed

lemma topo_sort_correct_lemma:
  assumes "acyclic (kedges g)" and "\<And>i j. j \<in> set (adj g i) \<Longrightarrow> j < ADJ_CAPACITY"
  shows "\<exists>c ids. topo_sort_next ADJ_CAPACITY g [0..<ADJ_CAPACITY] ({}, []) = Some (c, map (handle g) ids) \<and>
    distinct ids \<and> set ids = {i. i < ADJ_CAPACITY \<and> id2kernel g i \<noteq> None} \<and>
    (\<forall>(i, j)\<in>kedges g. i < ADJ_CAPACITY \<longrightarrow> precedes i j ids)"
proof -
  have "topo_ok g {} []" by (simp add: topo_ok_def)
  then have "topo_result g (set [0..<ADJ_CAPACITY]) {} [] (topo_sort_next ADJ_CAPACITY g [0..<ADJ_CAPACITY] ({}, map (handle g) []))"
    by (intro next_claim [OF visit_always [OF assms]]) (auto simp: gray_def)
  then obtain c ids where r: "topo_sort_next ADJ_CAPACITY g [0..<ADJ_CAPACITY] ({}, []) = Some (c, map (handle g) ids)"
    "topo_ok g c ids" "{0..<ADJ_CAPACITY} \<subseteq> c" "gray g c ids = {}"
    by (auto simp: topo_result_def gray_def)
  have c: "c = {..<ADJ_CAPACITY}" using r(2,3) by (auto simp: topo_ok_def)
  have s: "set ids = {i. i < ADJ_CAPACITY \<and> id2kernel g i \<noteq> None}"
    using r(2,4) by (auto simp: topo_ok_def gray_def c)
  have "precedes i j ids" if "(i, j) \<in> kedges g" "i < ADJ_CAPACITY" for i j
    using r(2) that s by (auto simp: topo_ok_def kedges_def)
  then show ?thesis using r(1,2) s by (auto simp: topo_ok_def)
qed

text \<open>
  C17. In an acyclic graph the topological sort ends, with fuel for one level of recursion per node,
  and lists every kernel of the graph exactly once, the source of every edge before its target.
\<close>

theorem topo_sort_correct:
  assumes "acyclic (kedges g)" and "\<And>i j. j \<in> set (adj g i) \<Longrightarrow> j < ADJ_CAPACITY"
  shows "\<exists>c ids. topo_sort_next ADJ_CAPACITY g [0..<ADJ_CAPACITY] ({}, []) = Some (c, map (handle g) ids) \<and>
    distinct ids \<and> set ids = {i. i < ADJ_CAPACITY \<and> id2kernel g i \<noteq> None} \<and>
    (\<forall>(i, j)\<in>kedges g. i < ADJ_CAPACITY \<longrightarrow> precedes i j ids)"
  by (rule topo_sort_correct_lemma [OF assms])

definition sample_graph :: graph where
  "sample_graph = \<lparr>gw = \<lparr>wh = sample_heap, body = (\<lambda>_. []), fname = (\<lambda>_. []), next_id = 9, fstate = (\<lambda>_. None)\<rparr>,
     adj = (\<lambda>i. if i = 1 then [3] else if i = 2 then [1, 3] else []),
     id2kernel = (\<lambda>i. if i \<in> {1, 2, 3} then Some (Some (10 * i)) else None),
     the_tbb_sched = 901, the_koro_sched = 902, the_dp_sched = 903, the_opencl_sched = 904,
     started = [], hier_parent = None\<rparr>"

theorem topo_sort_correct_witness:
  "\<exists>c ids. topo_sort_next ADJ_CAPACITY sample_graph [0..<ADJ_CAPACITY] ({}, []) = Some (c, map (handle sample_graph) ids) \<and>
    precedes 2 1 ids"
proof -
  have e: "kedges sample_graph = {(1, 3), (2, 1), (2, 3)}"
    by (auto simp: kedges_def sample_graph_def split: if_splits)
  have "\<forall>(x, y)\<in>kedges sample_graph. (if x = 2 then 0 else x) < (if y = 2 then 0 else (y :: nat))"
    by (simp add: e)
  then have "kedges sample_graph \<subseteq> measure (\<lambda>x. if x = 2 then 0 else x)" by (auto simp: e)
  then have "wf (kedges sample_graph)" using wf_subset wf_measure by blast
  then have ac: "acyclic (kedges sample_graph)" by (rule wf_acyclic)
  have b: "\<And>i j. j \<in> set (adj sample_graph i) \<Longrightarrow> j < ADJ_CAPACITY"
    by (auto simp: sample_graph_def ADJ_CAPACITY_def split: if_splits)
  from topo_sort_correct [OF ac b] show ?thesis
    by (fastforce simp: e ADJ_CAPACITY_def)
qed


subsection \<open>Allocated streams connect kernels\<close>

text \<open>
  Implementations are allocated, and no two runtime streams share one.
\<close>

definition heap_ok :: "heap \<Rightarrow> bool" where
  "heap_ok h \<longleftrightarrow> (\<forall>q s. si (rts h q) = Some s \<longrightarrow> s < fresh h) \<and>
     (\<forall>q q' s. si (rts h q) = Some s \<longrightarrow> si (rts h q') = Some s \<longrightarrow> q = q')"

text \<open>What an input or an output of kernel \<open>k\<close> looks like when it is connected.\<close>

definition input_set :: "ptr \<Rightarrow> heap \<Rightarrow> ptr \<Rightarrow> ptr \<Rightarrow> bool" where
  "input_set k h q s \<longleftrightarrow> si (rts h q) = Some s \<and> dst (hdr h s) = KernEnd k \<and>
     pop_rate (hdr h s) = rs_pop_rate (rts h q) \<and> peek_rate (hdr h s) = rs_peek_rate (rts h q)"

definition output_set :: "ptr \<Rightarrow> heap \<Rightarrow> ptr \<Rightarrow> ptr \<Rightarrow> bool" where
  "output_set k h q s \<longleftrightarrow> si (rts h q) = Some s \<and> src (hdr h s) = KernEnd k \<and>
     push_rate (hdr h s) = rs_push_rate (rts h q)"

text \<open>What stays when streams are allocated for kernel \<open>k\<close>.\<close>

definition rates_same :: "rt_stream \<Rightarrow> rt_stream \<Rightarrow> bool" where
  "rates_same a b \<longleftrightarrow> rs_type b = rs_type a \<and> rs_pop_rate b = rs_pop_rate a \<and>
     rs_push_rate b = rs_push_rate a \<and> rs_peek_rate b = rs_peek_rate a"

definition grows :: "ptr \<Rightarrow> heap \<Rightarrow> heap \<Rightarrow> bool" where
  "grows k h h' \<longleftrightarrow> heap_ok h' \<and> rtk h' = rtk h \<and> (\<forall>q. rates_same (rts h q) (rts h' q)) \<and>
     (\<forall>q s. si (rts h q) = Some s \<longrightarrow> si (rts h' q) = Some s) \<and>
     (\<forall>q s. input_set k h q s \<longrightarrow> rs_type (rts h q) = NATIVE \<longrightarrow> input_set k h' q s) \<and>
     (\<forall>q s. output_set k h q s \<longrightarrow> rs_type (rts h q) = NATIVE \<longrightarrow> output_set k h' q s)"

lemma grows_refl: "heap_ok h \<Longrightarrow> grows k h h"
  by (simp add: grows_def rates_same_def)

lemma grows_trans:
  assumes "grows k h h1" "grows k h1 h2"
  shows "grows k h h2"
proof -
  have ty: "rs_type (rts h q) = NATIVE \<Longrightarrow> rs_type (rts h1 q) = NATIVE" for q using assms(1) by (simp add: grows_def rates_same_def)
  note a = assms(1) [unfolded grows_def rates_same_def] and b = assms(2) [unfolded grows_def rates_same_def]
  show ?thesis unfolding grows_def rates_same_def
  proof (intro conjI allI impI)
    fix q s assume "input_set k h q s" "rs_type (rts h q) = NATIVE"
    then show "input_set k h2 q s" using a b ty by blast
  next
    fix q s assume "output_set k h q s" "rs_type (rts h q) = NATIVE"
    then show "output_set k h2 q s" using a b ty by blast
  qed (use a b in simp_all)
qed

lemma find_or_new_ok:
  assumes ok: "heap_ok h" and t: "rs_type (rts h q) = NATIVE"
  shows "\<exists>s h'. find_or_new junk q h = Done (s, h') \<and> grows k h h' \<and> si (rts h' q) = Some s"
proof (cases "si (rts h q)")
  case (Some s)
  then show ?thesis using grows_refl [OF ok] by (simp add: find_or_new_def)
next
  case None
  obtain g where g: "new_skir_stream_t junk q h = Done (Some (fresh h), g)"
    "hdr g = (hdr h)(fresh h := init_header q (rts h q) (fresh h) ((hdr h (fresh h))\<lparr>sid := 0\<rparr>))"
    "fresh g = Suc (fresh h)" "rts g = rts h" "rtk g = rtk h"
    using new_native [OF t] by blast
  define h' where "h' = upd_rts q (\<lambda>x. x\<lparr>si := Some (fresh h)\<rparr>) g"
  have old: "s < fresh h" if "si (rts h q') = Some s" for q' s using ok that by (auto simp: heap_ok_def)
  have "heap_ok h'"
    unfolding heap_ok_def
  proof (intro conjI allI impI)
    fix q' s assume "si (rts h' q') = Some s"
    then show "s < fresh h'" using old g(3,4) by (auto simp: h'_def split: if_splits intro: less_SucI)
  next
    fix q1 q2 s assume "si (rts h' q1) = Some s" "si (rts h' q2) = Some s"
    moreover have "si (rts h q') \<noteq> Some (fresh h)" for q' using old [of q' "fresh h"] by auto
    ultimately show "q1 = q2" using ok g(4) None
      by (auto simp: h'_def heap_ok_def split: if_splits)
  qed
  moreover have "input_set k h' q' s" if "input_set k h q' s" for q' s
    using that old [of q' s] None by (auto simp: input_set_def h'_def g)
  moreover have "output_set k h' q' s" if "output_set k h q' s" for q' s
    using that old [of q' s] None by (auto simp: output_set_def h'_def g)
  ultimately have "grows k h h'"
    using None by (auto simp: grows_def rates_same_def h'_def g)
  then show ?thesis using None g(1) by (auto simp: find_or_new_def h'_def)
qed

lemma grows_flag:
  assumes "heap_ok h" "\<And>x. si (f x) = si x" "\<And>x. rates_same x (f x)"
  shows "grows k h (upd_rts q f h)"
proof -
  have s: "si (rts (upd_rts q f h) q') = si (rts h q')" for q' by (simp add: assms(2))
  have r: "rates_same (rts h q') (rts (upd_rts q f h) q')" for q' using assms(3) by (simp add: rates_same_def)
  have "heap_ok (upd_rts q f h)" using assms(1) unfolding heap_ok_def s by simp
  then show ?thesis using r [unfolded rates_same_def]
    unfolding grows_def input_set_def output_set_def rates_same_def s by simp
qed

lemma alloc_input_ok:
  assumes ok: "heap_ok h" and t: "rs_type (rts h q) = NATIVE"
  shows "\<exists>s h'. alloc_input junk k q h = Done (s, h') \<and> grows k h h' \<and> input_set k h' q s"
proof -
  define h0 where "h0 = upd_rts q (\<lambda>x. x\<lparr>is_src := True\<rparr>) h"
  have g0: "grows k h h0" unfolding h0_def by (rule grows_flag [OF ok]) (simp_all add: rates_same_def)
  then have "heap_ok h0" "rs_type (rts h0 q) = NATIVE" using t by (auto simp: grows_def rates_same_def)
  from find_or_new_ok [OF this] obtain s h1 where
    1: "find_or_new junk q h0 = Done (s, h1)" "grows k h0 h1" "si (rts h1 q) = Some s" by blast
  define h2 where "h2 = upd_hdr s (\<lambda>x. x\<lparr>dst := stream_end k q h1, pop_rate := rs_pop_rate (rts h1 q),
          peek_rate := rs_peek_rate (rts h1 q)\<rparr>) h1"
  have e: "stream_end k q h1 = KernEnd k" using g0 1(2) t
    by (auto simp: grows_def rates_same_def stream_end_def NATIVE_def SHARED_def)
  have ok1: "heap_ok h1" using 1(2) by (simp add: grows_def)
  then have u: "q' = q" if "si (rts h1 q') = Some s" for q' using 1(3) that by (auto simp: heap_ok_def)
  have "grows k h1 h2"
    unfolding grows_def
  proof (intro conjI allI impI)
    show "heap_ok h2" using ok1 by (simp add: heap_ok_def h2_def)
    fix q' s' assume i: "input_set k h1 q' s'"
    show "input_set k h2 q' s'"
      using i u [of q'] e by (cases "s' = s") (auto simp: input_set_def h2_def)
  next
    fix q' s' assume i: "output_set k h1 q' s'"
    show "output_set k h2 q' s'" using i by (auto simp: output_set_def h2_def)
  qed (simp_all add: h2_def rates_same_def)
  moreover have "input_set k h2 q s" using 1(3) e by (simp add: input_set_def h2_def)
  moreover have "alloc_input junk k q h = Done (s, h2)"
    using 1(1) by (simp add: alloc_input_def h0_def h2_def)
  ultimately show ?thesis using grows_trans [OF g0 grows_trans [OF 1(2)]] by blast
qed

lemma alloc_output_ok:
  assumes ok: "heap_ok h" and t: "rs_type (rts h q) = NATIVE"
  shows "\<exists>s h'. alloc_output junk k q h = Done (s, h') \<and> grows k h h' \<and> output_set k h' q s"
proof -
  define h0 where "h0 = upd_rts q (\<lambda>x. x\<lparr>is_dst := True\<rparr>) h"
  have g0: "grows k h h0" unfolding h0_def by (rule grows_flag [OF ok]) (simp_all add: rates_same_def)
  then have "heap_ok h0" "rs_type (rts h0 q) = NATIVE" using t by (auto simp: grows_def rates_same_def)
  from find_or_new_ok [OF this] obtain s h1 where
    1: "find_or_new junk q h0 = Done (s, h1)" "grows k h0 h1" "si (rts h1 q) = Some s" by blast
  define h2 where "h2 = upd_hdr s (\<lambda>x. x\<lparr>src := stream_end k q h1, push_rate := rs_push_rate (rts h1 q)\<rparr>) h1"
  have e: "stream_end k q h1 = KernEnd k" using g0 1(2) t
    by (auto simp: grows_def rates_same_def stream_end_def NATIVE_def SHARED_def)
  have ok1: "heap_ok h1" using 1(2) by (simp add: grows_def)
  then have u: "q' = q" if "si (rts h1 q') = Some s" for q' using 1(3) that by (auto simp: heap_ok_def)
  have "grows k h1 h2"
    unfolding grows_def
  proof (intro conjI allI impI)
    show "heap_ok h2" using ok1 by (simp add: heap_ok_def h2_def)
    fix q' s' assume i: "input_set k h1 q' s'"
    show "input_set k h2 q' s'" using i by (auto simp: input_set_def h2_def)
  next
    fix q' s' assume i: "output_set k h1 q' s'"
    show "output_set k h2 q' s'"
      using i u [of q'] e by (cases "s' = s") (auto simp: output_set_def h2_def)
  qed (simp_all add: h2_def rates_same_def)
  moreover have "output_set k h2 q s" using 1(3) e by (simp add: output_set_def h2_def)
  moreover have "alloc_output junk k q h = Done (s, h2)"
    using 1(1) by (simp add: alloc_output_def h0_def h2_def)
  ultimately show ?thesis using grows_trans [OF g0 grows_trans [OF 1(2)]] by blast
qed

lemma alloc_all_ok:
  assumes step: "\<And>q h. heap_ok h \<Longrightarrow> rs_type (rts h q) = NATIVE \<Longrightarrow>
      \<exists>s h'. f q h = Done (s, h') \<and> grows k h h' \<and> P h' q s"
    and keep: "\<And>h h' q s. grows k h h' \<Longrightarrow> P h q s \<Longrightarrow> rs_type (rts h q) = NATIVE \<Longrightarrow> P h' q s"
  shows "heap_ok h \<Longrightarrow> \<forall>q\<in>set qs. rs_type (rts h q) = NATIVE \<Longrightarrow>
    \<exists>ss h'. alloc_all f qs h = Done (ss, h') \<and> grows k h h' \<and> list_all2 (P h') qs ss"
proof (induction qs arbitrary: h)
  case Nil
  then show ?case using grows_refl by simp
next
  case (Cons q qs)
  then obtain s h1 where 1: "f q h = Done (s, h1)" "grows k h h1" "P h1 q s" using step by (metis list.set_intros(1))
  have ty: "rs_type (rts h1 q') = rs_type (rts h q')" for q' using 1(2) by (simp add: grows_def rates_same_def)
  have "heap_ok h1" "\<forall>q\<in>set qs. rs_type (rts h1 q) = NATIVE" using 1(2) Cons.prems ty by (auto simp: grows_def)
  from Cons.IH [OF this] obtain ss h2 where
    2: "alloc_all f qs h1 = Done (ss, h2)" "grows k h1 h2" "list_all2 (P h2) qs ss" by blast
  have "P h2 q s" using keep [OF 2(2) 1(3)] ty Cons.prems by simp
  then show ?case using 1 2 grows_trans by fastforce
qed

lemma connects_lemma:
  assumes ok: "heap_ok h" and no: "impl_ins (rtk h k) = None" "impl_outs (rtk h k) = None"
    and nat: "\<forall>q\<in>set (ins_of (rtk h k)) \<union> set (outs_of (rtk h k)). rs_type (rts h q) = NATIVE"
  shows "\<exists>h' ss ts. allocateStreams junk k h = Done h' \<and> heap_ok h' \<and>
    impl_ins (rtk h' k) = Some (map Some ss @ [None]) \<and> list_all2 (input_set k h') (ins_of (rtk h k)) ss \<and>
    impl_outs (rtk h' k) = Some (map Some ts @ [None]) \<and> list_all2 (output_set k h') (outs_of (rtk h k)) ts \<and>
    (\<forall>q s. si (rts h q) = Some s \<longrightarrow> si (rts h' q) = Some s)"
proof -
  have "\<exists>ss h'. alloc_all (alloc_input junk k) (ins_of (rtk h k)) h = Done (ss, h') \<and> grows k h h' \<and>
      list_all2 (input_set k h') (ins_of (rtk h k)) ss"
    using ok nat by (intro alloc_all_ok alloc_input_ok) (auto simp: grows_def)
  then obtain ss h1 where 1: "alloc_all (alloc_input junk k) (ins_of (rtk h k)) h = Done (ss, h1)" "grows k h h1"
      "list_all2 (input_set k h1) (ins_of (rtk h k)) ss" by blast
  define h2 where "h2 = upd_rtk k (\<lambda>K. K\<lparr>impl_ins := Some (map Some ss @ [None])\<rparr>) h1"
  have r1: "rtk h1 = rtk h" and ok2: "heap_ok h2" using 1(2) by (simp_all add: grows_def heap_ok_def h2_def)
  have in2: "input_set k h2 q s = input_set k h1 q s" for q s by (simp add: input_set_def h2_def)
  have outs: "outs_of (rtk h2 k) = outs_of (rtk h k)" by (simp add: h2_def r1)
  have nat2: "\<forall>q\<in>set (outs_of (rtk h2 k)). rs_type (rts h2 q) = NATIVE"
    unfolding outs using nat 1(2) by (simp add: h2_def grows_def rates_same_def)
  have "\<exists>ts h'. alloc_all (alloc_output junk k) (outs_of (rtk h2 k)) h2 = Done (ts, h') \<and> grows k h2 h' \<and>
      list_all2 (output_set k h') (outs_of (rtk h2 k)) ts"
    using ok2 nat2 by (intro alloc_all_ok alloc_output_ok) (auto simp: grows_def)
  then obtain ts h3 where 3: "alloc_all (alloc_output junk k) (outs_of (rtk h2 k)) h2 = Done (ts, h3)" "grows k h2 h3"
      "list_all2 (output_set k h3) (outs_of (rtk h k)) ts" unfolding outs by blast
  define h4 where "h4 = upd_rtk k (\<lambda>K. K\<lparr>impl_outs := Some (map Some ts @ [None])\<rparr>) h3"
  have "list_all2 (input_set k h3) (ins_of (rtk h k)) ss"
  proof (rule list.rel_mono_strong [OF 1(3)])
    fix q s assume q: "q \<in> set (ins_of (rtk h k))" "input_set k h1 q s"
    have "rs_type (rts h2 q) = NATIVE" using nat q(1) 1(2) by (simp add: h2_def grows_def rates_same_def)
    moreover have "input_set k h2 q s" using q(2) in2 by simp
    ultimately show "input_set k h3 q s" using 3(2) unfolding grows_def by blast
  qed
  moreover have "input_set k h4 = input_set k h3" "output_set k h4 = output_set k h3"
    by (auto simp: input_set_def output_set_def h4_def fun_eq_iff)
  moreover have "rtk h3 = rtk h2" "heap_ok h3" using 3(2) by (simp_all add: grows_def)
  moreover have "si (rts h4 q) = Some s" if "si (rts h q) = Some s" for q s
  proof -
    have "si (rts h1 q) = Some s" using 1(2) that by (simp add: grows_def)
    then have "si (rts h3 q) = Some s" using 3(2) by (simp add: grows_def h2_def)
    then show ?thesis by (simp add: h4_def)
  qed
  moreover have "allocateStreams junk k h = Done h4"
  proof -
    have "outs_of (rtk h2 k) = outs_of (rtk h1 k)" by (simp add: h2_def)
    then show ?thesis using no 1(1) 3(1) by (simp add: allocateStreams_def h2_def [symmetric] h4_def)
  qed
  moreover have "heap_ok h4" using \<open>heap_ok h3\<close> by (simp add: heap_ok_def h4_def)
  ultimately show ?thesis using 3(3)
    by (intro exI [of _ h4] exI [of _ ss] exI [of _ ts]) (simp add: h4_def h2_def)
qed

text \<open>
  C18. Allocating the streams of a kernel gives every input and output an implementation that
  belongs to this stream alone, keeps the implementation a stream already has from its other
  end, and makes the kernel the destination of its inputs and the source of its outputs, with
  the rates the analysis found; the arrays of the kernel end with a null pointer.
\<close>

theorem allocate_connects:
  assumes "heap_ok h" and "impl_ins (rtk h k) = None" and "impl_outs (rtk h k) = None"
    and "\<forall>q\<in>set (ins_of (rtk h k)) \<union> set (outs_of (rtk h k)). rs_type (rts h q) = NATIVE"
  shows "\<exists>h' ss ts. allocateStreams junk k h = Done h' \<and> heap_ok h' \<and>
    impl_ins (rtk h' k) = Some (map Some ss @ [None]) \<and> list_all2 (input_set k h') (ins_of (rtk h k)) ss \<and>
    impl_outs (rtk h' k) = Some (map Some ts @ [None]) \<and> list_all2 (output_set k h') (outs_of (rtk h k)) ts \<and>
    (\<forall>q s. si (rts h q) = Some s \<longrightarrow> si (rts h' q) = Some s)"
  by (rule connects_lemma [OF assms])

theorem allocate_connects_witness:
  "\<exists>h' s. allocateStreams [] 1 (upd_rtk 1 (\<lambda>k. k\<lparr>nins := 1, rt_ins := Some [5]\<rparr>) sample_heap) = Done h' \<and>
     si (rts h' 5) = Some s \<and> dst (hdr h' s) = KernEnd 1"
proof -
  define h where "h = upd_rtk 1 (\<lambda>k. k\<lparr>nins := 1, rt_ins := Some [5]\<rparr>) sample_heap"
  have i: "ins_of (rtk h 1) = [5]" "outs_of (rtk h 1) = []"
    by (simp_all add: h_def sample_heap_def arr_def new_rt_kernel_def)
  have "heap_ok h" "impl_ins (rtk h 1) = None" "impl_outs (rtk h 1) = None" "rs_type (rts h 5) = NATIVE"
    by (simp_all add: h_def heap_ok_def sample_heap_def new_rt_stream_def new_rt_kernel_def)
  then obtain h' ss where "allocateStreams [] 1 h = Done h'" "list_all2 (input_set 1 h') [5] ss"
    using allocate_connects [of h 1 "[]"] unfolding i by fastforce
  moreover from this obtain s where "input_set 1 h' 5 s" by (auto simp: list_all2_Cons1)
  ultimately show ?thesis unfolding h_def [symmetric] by (auto simp: input_set_def)
qed

subsection \<open>Which kernels run data parallel\<close>

text \<open>
  C22. The choice of a scheduler is safe: it returns with a scheduler for the kernel, and gives a
  kernel to the data-parallel scheduler or to the one for OpenCL only if its analysis says that
  it keeps no state, has a fixed rate and does not peek.
\<close>

theorem select_scheduler_safe:
  assumes "\<not> fixed_sched (rtk (gh g) k)"
    and "distinct [the_tbb_sched g, the_koro_sched g, the_dp_sched g, the_opencl_sched g, fresh (gh g)]"
  shows "\<exists>g' s. selectScheduler opts k None g = Done g' \<and> sched (rtk (gh g') k) = Some s \<and>
    (s \<in> {the_dp_sched g, the_opencl_sched g} \<longrightarrow>
       \<not> is_stateful (rtk (gh g) k) \<and> is_fixed_rate (rtk (gh g) k) \<and> \<not> has_peek (rtk (gh g) k)) \<and>
    (s \<notin> {the_dp_sched g} \<longrightarrow> s \<in> set (started g'))"
proof -
  have ne: "fresh (gh g) \<noteq> the_dp_sched g" "fresh (gh g) \<noteq> the_opencl_sched g" using assms(2) by auto
  note d = selectScheduler_def set_sched_def start_sched_def upd_gh_def upd_wh_def Let_def
  show ?thesis
  proof (cases "ForceSingleSched opts")
    case True
    then show ?thesis using assms by (simp add: d)
  next
    case single: False
    show ?thesis
    proof (cases "ForceTPK opts")
      case True
      then show ?thesis using assms(1) ne single by (simp add: d)
    next
      case False
      then show ?thesis using assms single by (simp add: d)
    qed
  qed
qed

theorem select_scheduler_safe_witness:
  "\<exists>g' s. selectScheduler \<lparr>ForceSingleSched = False, ForceTPK = False, EnableDPSched = True, EnableOpenCLSched = False,
      use_opencl = False, num_threads = 4\<rparr> 1 None sample_graph = Done g' \<and> sched (rtk (gh g') 1) = Some s"
proof -
  have "\<not> fixed_sched (rtk (gh sample_graph) 1)"
    "distinct [the_tbb_sched sample_graph, the_koro_sched sample_graph, the_dp_sched sample_graph,
      the_opencl_sched sample_graph, fresh (gh sample_graph)]"
    by (simp_all add: sample_graph_def sample_heap_def new_rt_kernel_def)
  from select_scheduler_safe [OF this] show ?thesis by blast
qed

end
