(* ===== verification/Koro_Switch.thy ===== *)
theory Koro_Switch
  imports Skir_Prelude
begin

section \<open>Switching between a coroutine and its scheduler\<close>

text \<open>
  The assembly code in \<open>lib/SKIR/SKIRKoroSched.cpp\<close> for 64-bit machines, instruction by
  instruction, on a machine of registers and quad words.  Every access of this code is to an aligned quad
  word, so that memory maps the address of a quad word to its value; the source comes first in
  a move, as in the code.
\<close>

datatype reg = RAX | RBX | RCX | RDX | RSI | RDI | RBP | RSP | R8 | R10 | R11 | R12 | R13 | R14 | R15

record machine =
  reg :: "reg \<Rightarrow> uint64"
  quad :: "uint64 \<Rightarrow> uint64"

datatype instr =
    PushQ reg | PopQ reg | LoadQ uint64 reg reg | StoreQ reg uint64 reg | MovQ reg reg
  | AddI uint64 reg | SubI uint64 reg | AddM uint64 reg reg | JmpR reg | Ud2

definition set_reg :: "reg \<Rightarrow> uint64 \<Rightarrow> machine \<Rightarrow> machine" where
  "set_reg r v m = m\<lparr>reg := (reg m)(r := v)\<rparr>"

definition set_quad :: "uint64 \<Rightarrow> uint64 \<Rightarrow> machine \<Rightarrow> machine" where
  "set_quad a v m = m\<lparr>quad := (quad m)(a := v)\<rparr>"

lemma machine_simps [simp]:
  "reg (set_reg r v m) = (reg m)(r := v)" "quad (set_reg r v m) = quad m"
  "reg (set_quad a v m) = reg m" "quad (set_quad a v m) = (quad m)(a := v)"
  by (simp_all add: set_reg_def set_quad_def)

text \<open>The result is the address jumped to, \<open>None\<close> if the code runs into \<open>ud2\<close> or its end.\<close>

fun run_code :: "instr list \<Rightarrow> machine \<Rightarrow> (uint64 \<times> machine) option" where
  "run_code [] m = None"
| "run_code (PushQ r # is) m =
     (let sp = reg m RSP - 8 in run_code is (set_reg RSP sp (set_quad sp (reg m r) m)))"
| "run_code (PopQ r # is) m =
     (let sp = reg m RSP in run_code is (set_reg r (quad m sp) (set_reg RSP (sp + 8) m)))"
| "run_code (LoadQ d a r # is) m = run_code is (set_reg r (quad m (reg m a + d)) m)"
| "run_code (StoreQ r d a # is) m = run_code is (set_quad (reg m a + d) (reg m r) m)"
| "run_code (MovQ a r # is) m = run_code is (set_reg r (reg m a) m)"
| "run_code (AddI n r # is) m = run_code is (set_reg r (reg m r + n) m)"
| "run_code (SubI n r # is) m = run_code is (set_reg r (reg m r - n) m)"
| "run_code (AddM d a r # is) m = run_code is (set_reg r (reg m r + quad m (reg m a + d)) m)"
| "run_code (JmpR r # is) m = Some (reg m r, m)"
| "run_code (Ud2 # is) m = None"

definition SKIRRT_yield64 :: "instr list" where
  "SKIRRT_yield64 =
    [PopQ RCX,
     LoadQ 8 RDI RDI,
     LoadQ 0 RDI RDI,
     LoadQ 24 RDI R11,
     LoadQ 48 R11 R10,
     PushQ RBX,
     PushQ RBP,
     PushQ R12,
     PushQ R13,
     PushQ R14,
     PushQ R15,
     StoreQ RSP 0 RDI,
     StoreQ RCX 8 RDI,
     MovQ R11 RSP,
     PopQ R15,
     PopQ R14,
     PopQ R13,
     PopQ R12,
     PopQ RBP,
     PopQ RBX,
     MovQ RSI RAX,
     AddI 8 RSP,
     JmpR R10,
     Ud2]"

definition SKIRRT_return64 :: "instr list" where
  "SKIRRT_return64 =
    [LoadQ 0 RDI RDI,
     LoadQ 24 RDI R11,
     LoadQ 32 RDI RDX,
     LoadQ 40 RDI RCX,
     AddM 48 RDI RCX,
     LoadQ 48 R11 R10,
     SubI 56 RCX,
     StoreQ RCX 0 RDI,
     StoreQ RDX 8 RDI,
     MovQ R11 RSP,
     PopQ R15,
     PopQ R14,
     PopQ R13,
     PopQ R12,
     PopQ RBP,
     PopQ RBX,
     MovQ RSI RAX,
     AddI 8 RSP,
     JmpR R10,
     Ud2]"

definition koro_workfn_64 :: "instr list" where
  "koro_workfn_64 =
    [LoadQ 0 RDI R10,
     LoadQ 0 R10 R8,
     LoadQ 8 R10 R11,
     PushQ RBX,
     PushQ RBP,
     PushQ R12,
     PushQ R13,
     PushQ R14,
     PushQ R15,
     StoreQ RSP 24 R10,
     MovQ R8 RSP,
     PopQ R15,
     PopQ R14,
     PopQ R13,
     PopQ R12,
     PopQ RBP,
     PopQ RBX,
     JmpR R11,
     Ud2]"

definition callee_saved :: "reg list" where
  "callee_saved = [R15, R14, R13, R12, RBP, RBX]"

text \<open>The quad words from the stack pointer \<open>sp\<close> on that hold the saved registers and a return address.\<close>

definition frame :: "uint64 \<Rightarrow> uint64 list" where
  "frame sp = [sp, sp + 8, sp + 16, sp + 24, sp + 32, sp + 40, sp + 48]"

definition apart :: "uint64 list \<Rightarrow> uint64 list \<Rightarrow> bool" where
  "apart as bs \<longleftrightarrow> set as \<inter> set bs = {}"

lemma apart_simps [simp]:
  "apart [] bs" "apart (a # as) bs \<longleftrightarrow> a \<notin> set bs \<and> apart as bs"
  by (auto simp: apart_def)

lemma off_neq [simp]:
  "(b :: uint64) + numeral m - numeral n = b + (numeral m - numeral n)"
  "(b :: uint64) + numeral m + numeral n = b + (numeral m + numeral n)"
  by (simp_all)

text \<open>Pushing and popping several registers.\<close>

fun pushes :: "(reg \<Rightarrow> uint64) \<Rightarrow> reg list \<Rightarrow> uint64 \<Rightarrow> (uint64 \<Rightarrow> uint64) \<Rightarrow> uint64 \<Rightarrow> uint64" where
  "pushes R [] sp Q = Q"
| "pushes R (r # rs) sp Q = pushes R rs (sp - 8) (Q(sp - 8 := R r))"

lemma run_pushes:
  "RSP \<notin> set rs \<Longrightarrow> run_code (map PushQ rs @ is) m =
     run_code is (m\<lparr>reg := (reg m)(RSP := reg m RSP - 8 * of_nat (length rs)),
       quad := pushes (reg m) rs (reg m RSP) (quad m)\<rparr>)"
proof (induction rs arbitrary: m)
  case (Cons r rs)
  have "pushes ((reg m)(RSP := x)) rs' sp Q = pushes (reg m) rs' sp Q" if "RSP \<notin> set rs'" for x rs' sp Q
    using that by (induction rs' arbitrary: sp Q) auto
  then show ?case using Cons by (simp add: Let_def set_reg_def set_quad_def algebra_simps cong: if_cong)
qed (simp add: fun_upd_idem)

fun pops :: "reg list \<Rightarrow> uint64 \<Rightarrow> (uint64 \<Rightarrow> uint64) \<Rightarrow> (reg \<Rightarrow> uint64) \<Rightarrow> reg \<Rightarrow> uint64" where
  "pops [] sp Q R = R(RSP := sp)"
| "pops (r # rs) sp Q R = pops rs (sp + 8) Q (R(r := Q sp))"

lemma pops_cong:
  "RSP \<notin> set rs \<Longrightarrow> (\<And>r. r \<noteq> RSP \<Longrightarrow> R r = R' r) \<Longrightarrow> pops rs sp Q R = pops rs sp Q R'"
proof (induction rs arbitrary: sp R R')
  case Nil
  then show ?case by auto
next
  case (Cons r rs)
  have "pops rs (sp + 8) Q (R(r := Q sp)) = pops rs (sp + 8) Q (R'(r := Q sp))"
    using Cons.prems by (intro Cons.IH) auto
  then show ?case by simp
qed

lemma run_pops:
  "RSP \<notin> set rs \<Longrightarrow> run_code (map PopQ rs @ is) m =
     run_code is (m\<lparr>reg := pops rs (reg m RSP) (quad m) (reg m)\<rparr>)"
proof (induction rs arbitrary: m)
  case (Cons r rs)
  have "pops rs sp Q ((reg m)(RSP := x, r := v)) = pops rs sp Q ((reg m)(r := v))" for x sp Q v
    using Cons.prems by (intro pops_cong) auto
  then show ?case using Cons by (simp add: Let_def set_reg_def set_quad_def)
qed (simp add: fun_upd_idem)

text \<open>What the stack holds after pushes, and what the registers hold after pops.\<close>

lemma saved_frame:
  fixes b :: uint64
  shows "map (pushes R [RBX, RBP, R12, R13, R14, R15] (b + 48) Q) (frame b) = map R callee_saved @ [Q (b + 48)]"
    "a \<notin> set (take 6 (frame b)) \<Longrightarrow> pushes R [RBX, RBP, R12, R13, R14, R15] (b + 48) Q a = Q a"
  by (simp_all add: frame_def callee_saved_def)

lemma loaded_frame:
  "map (pops callee_saved sp Q R) callee_saved = map Q (take 6 (frame sp))"
  "pops callee_saved sp Q R RSP = sp + 48"
  "r \<notin> set callee_saved \<Longrightarrow> r \<noteq> RSP \<Longrightarrow> pops callee_saved sp Q R r = R r"
  by (simp_all add: frame_def callee_saved_def)

definition push_order :: "reg list" where
  "push_order = [RBX, RBP, R12, R13, R14, R15]"

lemma order_simps [simp]:
  "RSP \<notin> set push_order" "RSP \<notin> set callee_saved" "length push_order = 6" "length callee_saved = 6"
  "R10 \<notin> set callee_saved" "R11 \<notin> set callee_saved" "RDI \<notin> set callee_saved" "RSI \<notin> set callee_saved"
  "RCX \<notin> set callee_saved" "RDX \<notin> set callee_saved" "RAX \<notin> set callee_saved" "R8 \<notin> set callee_saved"
  by (simp_all add: push_order_def callee_saved_def)

lemmas saved = saved_frame [folded push_order_def]

lemma code_blocks:
  "koro_workfn_64 = [LoadQ 0 RDI R10, LoadQ 0 R10 R8, LoadQ 8 R10 R11] @ map PushQ push_order @
     [StoreQ RSP 24 R10, MovQ R8 RSP] @ map PopQ callee_saved @ [JmpR R11, Ud2]"
  "SKIRRT_yield64 = [PopQ RCX, LoadQ 8 RDI RDI, LoadQ 0 RDI RDI, LoadQ 24 RDI R11, LoadQ 48 R11 R10] @
     map PushQ push_order @ [StoreQ RSP 0 RDI, StoreQ RCX 8 RDI, MovQ R11 RSP] @ map PopQ callee_saved @
     [MovQ RSI RAX, AddI 8 RSP, JmpR R10, Ud2]"
  "SKIRRT_return64 = [LoadQ 0 RDI RDI, LoadQ 24 RDI R11, LoadQ 32 RDI RDX, LoadQ 40 RDI RCX, AddM 48 RDI RCX,
     LoadQ 48 R11 R10, SubI 56 RCX, StoreQ RCX 0 RDI, StoreQ RDX 8 RDI, MovQ R11 RSP] @ map PopQ callee_saved @
     [MovQ RSI RAX, AddI 8 RSP, JmpR R10, Ud2]"
  by (simp_all add: koro_workfn_64_def SKIRRT_yield64_def SKIRRT_return64_def push_order_def callee_saved_def)

text \<open>
  A coroutine that is suspended: where it goes on, with which saved registers and which stack
  pointer.  A scheduler that waits for a coroutine: the return address, the registers and the
  stack pointer after the return.
\<close>

definition suspended :: "uint64 \<Rightarrow> uint64 \<Rightarrow> uint64 list \<Rightarrow> uint64 \<Rightarrow> machine \<Rightarrow> bool" where
  "suspended koro pc vs sp m \<longleftrightarrow> quad m (koro + 8) = pc \<and>
     map (quad m) (take 6 (frame (quad m koro))) = vs \<and> quad m koro + 48 = sp"

definition waiting :: "uint64 \<Rightarrow> uint64 \<Rightarrow> uint64 list \<Rightarrow> uint64 \<Rightarrow> machine \<Rightarrow> bool" where
  "waiting koro ret vs sp m \<longleftrightarrow> map (quad m) (frame (quad m (koro + 24))) = vs @ [ret] \<and>
     quad m (koro + 24) + 56 = sp"

lemma saved_order: "map R callee_saved = rev (map R push_order)"
  by (simp add: callee_saved_def push_order_def)

lemma frame_last: "map Q (frame b) = map Q (take 6 (frame b)) @ [Q (b + 48)]"
  by (simp add: frame_def)

lemma enter_lemma:
  assumes koro: "quad m (reg m RDI) = koro" and b: "reg m RSP = b + 48"
    and s: "suspended koro pc vs sp m"
    and apart: "koro + 24 \<notin> set (frame b)" "koro + 24 \<notin> set (frame (quad m koro))"
      "set (take 6 (frame (quad m koro))) \<inter> set (take 6 (frame b)) = {}"
  shows "\<exists>m'. run_code koro_workfn_64 m = Some (pc, m') \<and> reg m' RSP = sp \<and> map (reg m') callee_saved = vs \<and>
    reg m' RDI = reg m RDI \<and> reg m' RSI = reg m RSI \<and> reg m' RDX = reg m RDX \<and> reg m' RCX = reg m RCX \<and>
    waiting koro (quad m (b + 48)) (map (reg m) callee_saved) (b + 56) m'"
proof -
  define Q where "Q = (pushes (reg m) push_order (b + 48) (quad m))(koro + 24 := b)"
  define R where "R = pops callee_saved (quad m koro) Q ((reg m)(R10 := koro, R8 := quad m koro, R11 := pc, RSP := quad m koro))"
  have pu: "pushes ((reg m)(R10 := x, R11 := z, R8 := y)) push_order c q = pushes (reg m) push_order c q" for x y z c q
    by (simp add: push_order_def)
  have run: "run_code koro_workfn_64 m = Some (pc, m\<lparr>quad := Q, reg := R\<rparr>)"
    using koro b s by (simp add: code_blocks run_pushes run_pops pu suspended_def R_def Q_def
      set_reg_def set_quad_def loaded_frame fun_upd_twist)
  have "map Q (take 6 (frame (quad m koro))) = map (quad m) (take 6 (frame (quad m koro)))"
  proof (intro map_cong refl)
    fix a assume a: "a \<in> set (take 6 (frame (quad m koro)))"
    then have "a \<noteq> koro + 24" "a \<notin> set (take 6 (frame b))" using apart in_set_takeD by fastforce+
    then show "Q a = quad m a" by (simp add: Q_def saved(2))
  qed
  also have "\<dots> = vs" using s by (simp add: suspended_def)
  finally have q: "map Q (take 6 (frame (quad m koro))) = vs" .
  have "map Q (frame b) = map (pushes (reg m) push_order (b + 48) (quad m)) (frame b)"
    using apart(1) by (intro map_cong) (auto simp: Q_def)
  then have w: "map Q (frame b) = map (reg m) callee_saved @ [quad m (b + 48)]" by (simp only: saved(1))
  have k: "Q (koro + 24) = b" by (simp add: Q_def)
  have r: "map R callee_saved = vs" "R RSP = sp" "R RDI = reg m RDI" "R RSI = reg m RSI" "R RDX = reg m RDX" "R RCX = reg m RCX"
    using q s by (simp_all add: R_def loaded_frame suspended_def)
  show ?thesis using w k r by (intro exI [of _ "m\<lparr>quad := Q, reg := R\<rparr>"]) (simp add: run waiting_def)
qed

lemma yield_lemma:
  assumes st: "quad m (reg m RDI + 8) = st" "quad m st = koro" and c: "reg m RSP = c + 40"
    and w: "waiting koro ret vs sp m"
    and apart: "set (take 6 (frame c)) \<inter> set (koro # (koro + 8) # (koro + 24) # frame (quad m (koro + 24))) = {}"
      "set (frame (quad m (koro + 24))) \<inter> {koro, koro + 8} = {}"
  shows "\<exists>m'. run_code SKIRRT_yield64 m = Some (ret, m') \<and> reg m' RSP = sp \<and> map (reg m') callee_saved = vs \<and>
    reg m' RAX = reg m RSI \<and> suspended koro (quad m (c + 40)) (map (reg m) callee_saved) (c + 48) m'"
proof -
  define b where "b = quad m (koro + 24)"
  define Q where "Q = (pushes (reg m) push_order (c + 48) (quad m))(koro := c, koro + 8 := quad m (c + 40))"
  define R where "R = pops callee_saved b Q ((reg m)(RCX := quad m (c + 40), RDI := koro, R11 := b, R10 := quad m (b + 48), RSP := b))"
  have pu: "pushes ((reg m)(R11 := z, RDI := y, RSP := x, R10 := w, RCX := a)) push_order k q = pushes (reg m) push_order k q" for a x y z w k q
    by (simp add: push_order_def)
  have ret: "quad m (b + 48) = ret" using w by (simp add: waiting_def frame_last b_def)
  have "map Q (take 6 (frame b)) = map (quad m) (take 6 (frame b))"
  proof (intro map_cong refl)
    fix a assume "a \<in> set (take 6 (frame b))"
    then have a: "a \<in> set (frame b)" by (rule in_set_takeD)
    then have "a \<noteq> koro" "a \<noteq> koro + 8" "a \<notin> set (take 6 (frame c))" using apart by (auto simp: b_def)
    then show "Q a = quad m a" by (simp add: Q_def saved(2))
  qed
  also have "\<dots> = vs" using w by (simp add: waiting_def frame_last b_def)
  finally have q: "map Q (take 6 (frame b)) = vs" .
  have P: "quad m (koro + 24) = b" by (simp add: b_def)
  have run: "run_code SKIRRT_yield64 m = Some (quad m (b + 48), m\<lparr>quad := Q,
      reg := R(RAX := reg m RSI, RSP := b + 56)\<rparr>)"
    using st c P by (simp add: code_blocks run_pushes run_pops pu Let_def set_reg_def set_quad_def R_def Q_def loaded_frame
      fun_upd_twist)
  have "map Q (take 6 (frame c)) = map (pushes (reg m) push_order (c + 48) (quad m)) (take 6 (frame c))"
    using apart(1) by (intro map_cong) (auto simp: Q_def)
  also have "\<dots> = take 6 (map (pushes (reg m) push_order (c + 48) (quad m)) (frame c))" by (simp only: take_map)
  also have "\<dots> = map (reg m) callee_saved" by (simp add: saved(1))
  finally have s: "map Q (take 6 (frame c)) = map (reg m) callee_saved" .
  have r: "map (R(RAX := reg m RSI, RSP := b + 56)) callee_saved = vs"
    using q by (simp add: R_def loaded_frame map_fun_upd)
  have k: "Q koro = c" "Q (koro + 8) = quad m (c + 40)" by (simp_all add: Q_def)
  have sp: "b + 56 = sp" using w by (simp add: waiting_def b_def)
  show ?thesis
    using s r k sp by (intro exI [of _ "m\<lparr>quad := Q, reg := R(RAX := reg m RSI, RSP := b + 56)\<rparr>"])
      (simp add: run ret suspended_def)
qed

lemma return_lemma:
  assumes koro: "quad m (reg m RDI) = koro" and w: "waiting koro ret vs sp m"
    and apart: "set (frame (quad m (koro + 24))) \<inter> {koro, koro + 8} = {}"
  shows "\<exists>m'. run_code SKIRRT_return64 m = Some (ret, m') \<and> reg m' RSP = sp \<and> map (reg m') callee_saved = vs \<and>
    reg m' RAX = reg m RSI \<and> quad m' (koro + 8) = quad m (koro + 32) \<and>
    quad m' koro = quad m (koro + 40) + quad m (koro + 48) - 56"
proof -
  define b where "b = quad m (koro + 24)"
  define t where "t = quad m (koro + 40) + quad m (koro + 48) - 56"
  define Q where "Q = (quad m)(koro := t, koro + 8 := quad m (koro + 32))"
  define R where "R = pops callee_saved b Q ((reg m)(RDI := koro, R11 := b, RDX := quad m (koro + 32), RCX := t,
     R10 := quad m (b + 48), RSP := b))"
  have P: "quad m (koro + 24) = b" by (simp add: b_def)
  have ret: "quad m (b + 48) = ret" and sp: "b + 56 = sp" using w by (simp_all add: waiting_def frame_last b_def)
  have "map Q (take 6 (frame b)) = map (quad m) (take 6 (frame b))"
    using apart by (intro map_cong) (auto simp: Q_def b_def dest: in_set_takeD)
  also have "\<dots> = vs" using w by (simp add: waiting_def frame_last b_def)
  finally have q: "map Q (take 6 (frame b)) = vs" .
  have run: "run_code SKIRRT_return64 m = Some (quad m (b + 48), m\<lparr>quad := Q,
      reg := R(RAX := reg m RSI, RSP := b + 56)\<rparr>)"
    using koro P by (simp add: code_blocks run_pops set_reg_def set_quad_def R_def Q_def t_def loaded_frame
      fun_upd_twist)
  have r: "map (R(RAX := reg m RSI, RSP := b + 56)) callee_saved = vs"
    using q by (simp add: R_def loaded_frame map_fun_upd)
  show ?thesis
    using r sp by (intro exI [of _ "m\<lparr>quad := Q, reg := R(RAX := reg m RSI, RSP := b + 56)\<rparr>"])
      (simp add: run ret Q_def t_def)
qed

subsection \<open>A new coroutine\<close>

text \<open>
  The fields of \<open>koroutine\<close> are at the offsets 0 (\<open>saved_sp\<close>), 8 (\<open>saved_pc\<close>), 16 (\<open>yield_pc\<close>),
  24 (\<open>yield_sp\<close>), 32 (\<open>fn\<close>), 40 (\<open>stack_base\<close>) and 48 (\<open>stack_size\<close>).  \<open>KORO_PUSH\<close> and the
  preparation of a coroutine at \<open>koro\<close> with its stack at \<open>base\<close>, to run the function at \<open>fp\<close>.
\<close>

definition KORO_PUSH :: "uint64 \<Rightarrow> uint64 \<Rightarrow> machine \<Rightarrow> machine" where
  "KORO_PUSH koro d m =
     (let m = set_quad koro (quad m koro - 8) m in set_quad (quad m koro) d m)"

definition new_koroutine :: "uint64 \<Rightarrow> uint64 \<Rightarrow> uint64 \<Rightarrow> machine \<Rightarrow> machine" where
  "new_koroutine koro base fp m =
     (let m = set_quad (koro + 48) 4096 m;
          m = set_quad koro base (set_quad (koro + 40) base m);
          m = set_quad koro (quad m koro + quad m (koro + 48)) m;
          m = set_quad (koro + 8) fp (set_quad (koro + 32) fp m);
          m = set_quad (koro + 16) 0 m;
          m = set_quad (koro + 24) 0 m;
          m = KORO_PUSH koro (- 1) m in
      fold (\<lambda>_. KORO_PUSH koro 0) [0..<6 :: nat] m)"

definition koro_fields :: "uint64 \<Rightarrow> uint64 list" where
  "koro_fields koro = [koro, koro + 8, koro + 16, koro + 24, koro + 32, koro + 40, koro + 48]"

lemma KORO_PUSH_simps [simp]:
  "quad (KORO_PUSH koro d m) = (quad m)(koro := quad m koro - 8, quad m koro - 8 := d)"
  "reg (KORO_PUSH koro d m) = reg m"
  by (simp_all add: KORO_PUSH_def Let_def)

lemma koro_pushes:
  assumes "quad m koro = sp" and "\<forall>i<n. koro \<noteq> sp - 8 * of_nat (Suc i)"
  shows "quad (fold (\<lambda>_. KORO_PUSH koro d) [0..<n] m) koro = sp - 8 * of_nat n \<and>
    reg (fold (\<lambda>_. KORO_PUSH koro d) [0..<n] m) = reg m \<and>
    (\<forall>i<n. quad (fold (\<lambda>_. KORO_PUSH koro d) [0..<n] m) (sp - 8 * of_nat (Suc i)) = d) \<and>
    (\<forall>a. a \<noteq> koro \<longrightarrow> (\<forall>i<n. a \<noteq> sp - 8 * of_nat (Suc i)) \<longrightarrow> quad (fold (\<lambda>_. KORO_PUSH koro d) [0..<n] m) a = quad m a)"
  using assms(2)
proof (induction n)
  case 0
  then show ?case using assms(1) by simp
next
  case (Suc n)
  define m' where "m' = fold (\<lambda>_. KORO_PUSH koro d) [0..<n] m"
  have m': "fold (\<lambda>_. KORO_PUSH koro d) [0..<Suc n] m = KORO_PUSH koro d m'" by (simp add: m'_def)
  from Suc have k: "quad m' koro = sp - 8 * of_nat n" and r: "reg m' = reg m"
    and d: "\<forall>i<n. quad m' (sp - 8 * of_nat (Suc i)) = d"
    and o: "\<forall>a. a \<noteq> koro \<longrightarrow> (\<forall>i<n. a \<noteq> sp - 8 * of_nat (Suc i)) \<longrightarrow> quad m' a = quad m a"
    unfolding m'_def by auto
  have e: "quad m' koro - 8 = sp - 8 * of_nat (Suc n)" using k by (simp add: algebra_simps)
  have ne: "koro \<noteq> sp - 8 * of_nat (Suc i)" if "i \<le> n" for i using Suc.prems that by auto
  have "quad (KORO_PUSH koro d m') koro = sp - 8 * of_nat (Suc n)" using ne [of n] by (simp add: e del: of_nat_Suc)
  moreover have "quad (KORO_PUSH koro d m') (sp - 8 * of_nat (Suc i)) = d" if "i < Suc n" for i
    using that ne [of i] d by (cases "i = n") (auto simp: e simp del: of_nat_Suc)
  moreover have "quad (KORO_PUSH koro d m') a = quad m a"
    if "a \<noteq> koro" "\<forall>i<Suc n. a \<noteq> sp - 8 * of_nat (Suc i)" for a
    using that o by (auto simp: less_Suc_eq e simp del: of_nat_Suc)
  ultimately show ?case unfolding m' using r by simp
qed

lemma new_koroutine_lemma:
  assumes apart: "set (koro_fields koro) \<inter> set (frame (base + 4040)) = {}"
  shows "quad (new_koroutine koro base fp m) koro = base + 4040"
    "quad (new_koroutine koro base fp m) (koro + 8) = fp"
    "quad (new_koroutine koro base fp m) (koro + 32) = fp"
    "quad (new_koroutine koro base fp m) (koro + 40) = base"
    "quad (new_koroutine koro base fp m) (koro + 48) = 4096"
    "suspended koro fp (replicate 6 0) (base + 4088) (new_koroutine koro base fp m)"
    "a \<notin> set (koro_fields koro) \<union> set (frame (base + 4040)) \<Longrightarrow> quad (new_koroutine koro base fp m) a = quad m a"
    "reg (new_koroutine koro base fp m) = reg m"
proof -
  define m0 where "m0 = (let m = set_quad (koro + 48) 4096 m;
          m = set_quad koro base (set_quad (koro + 40) base m);
          m = set_quad koro (quad m koro + quad m (koro + 48)) m;
          m = set_quad (koro + 8) fp (set_quad (koro + 32) fp m);
          m = set_quad (koro + 16) 0 m in set_quad (koro + 24) 0 m)"
  define m1 where "m1 = KORO_PUSH koro (- 1) m0"
  define m2 where "m2 = fold (\<lambda>_. KORO_PUSH koro 0) [0..<6 :: nat] m1"
  have new: "new_koroutine koro base fp m = m2" by (simp add: m2_def m1_def m0_def new_koroutine_def Let_def)
  have q0: "quad m0 = (quad m)(koro + 48 := 4096, koro + 40 := base, koro := base + 4096, koro + 32 := fp, koro + 8 := fp,
      koro + 16 := 0, koro + 24 := 0)" and r0: "reg m0 = reg m"
    by (auto simp: m0_def Let_def)
  have ne: "a \<noteq> base + 4088 - 8 * of_nat (Suc i)" "a \<noteq> base + 4088" if "a \<in> set (koro_fields koro)" "i < 6" for a i
  proof -
    have "base + 4088 - 8 * of_nat (Suc i) \<in> set (frame (base + 4040))"
      using that(2) by (auto simp: frame_def less_Suc_eq numeral_eq_Suc)
    then show "a \<noteq> base + 4088 - 8 * of_nat (Suc i)" using that(1) apart by auto
    have "base + 4088 \<in> set (frame (base + 4040))" by (simp add: frame_def)
    then show "a \<noteq> base + 4088" using that(1) apart by auto
  qed
  have k1: "quad m1 koro = base + 4088" using ne(2) [of koro 0] by (simp add: m1_def q0 koro_fields_def)
  have P: "quad m2 koro = base + 4088 - 8 * of_nat (6 :: nat) \<and> reg m2 = reg m1 \<and>
      (\<forall>i<6. quad m2 (base + 4088 - 8 * of_nat (Suc i)) = 0) \<and>
      (\<forall>a. a \<noteq> koro \<longrightarrow> (\<forall>i<6. a \<noteq> base + 4088 - 8 * of_nat (Suc i)) \<longrightarrow> quad m2 a = quad m1 a)"
    unfolding m2_def using ne(1) by (intro koro_pushes k1) (auto simp: koro_fields_def)
  have o: "quad m2 a = quad m0 a" if "a \<in> set (koro_fields koro)" "a \<noteq> koro" for a
  proof -
    have "quad m2 a = quad m1 a" using P ne(1) [OF that(1)] that(2) by blast
    then show ?thesis using ne(2) [OF that(1), of 0] that(2) by (simp add: m1_def q0)
  qed
  have z: "\<forall>a\<in>set (take 6 (frame (base + 4040))). quad m2 a = 0"
  proof
    fix a assume "a \<in> set (take 6 (frame (base + 4040)))"
    then have "\<exists>i<6. a = base + 4088 - 8 * of_nat (Suc i)"
      by (auto simp: frame_def) (rule exI [of _ "5 :: nat"] exI [of _ "4 :: nat"] exI [of _ "3 :: nat"]
        exI [of _ "2 :: nat"] exI [of _ "1 :: nat"] exI [of _ "0 :: nat"], simp; fail)+
    then show "quad m2 a = 0" using P by blast
  qed
  show "quad (new_koroutine koro base fp m) koro = base + 4040" using P by (simp add: new)
  show "quad (new_koroutine koro base fp m) (koro + 8) = fp" "quad (new_koroutine koro base fp m) (koro + 32) = fp"
    "quad (new_koroutine koro base fp m) (koro + 40) = base" "quad (new_koroutine koro base fp m) (koro + 48) = 4096"
    unfolding new by (simp_all add: o koro_fields_def q0)
  then show "suspended koro fp (replicate 6 0) (base + 4088) (new_koroutine koro base fp m)"
    using P z by (simp add: suspended_def new frame_def numeral_eq_Suc)
  show "reg (new_koroutine koro base fp m) = reg m" using P r0 by (simp add: new m1_def)
  assume a: "a \<notin> set (koro_fields koro) \<union> set (frame (base + 4040))"
  then have "a \<noteq> base + 4088 - 8 * of_nat (Suc i)" if "i < 6" for i
    using that by (auto simp: frame_def less_Suc_eq numeral_eq_Suc)
  then have "quad m2 a = quad m1 a" using P a by (auto simp: koro_fields_def)
  then show "quad (new_koroutine koro base fp m) a = quad m a"
    using a by (auto simp: new m1_def q0 koro_fields_def frame_def)
qed

subsection \<open>The switch is a round trip\<close>

text \<open>
  C27. A scheduler that enters a suspended coroutine resumes it where it was suspended, with its
  registers and its stack.  When the coroutine, which may have changed everything but the saved
  registers of the scheduler, yields to \<open>to_rtk\<close>, the scheduler goes on after its call, with its
  own registers and stack and \<open>to_rtk\<close> as the result, and the coroutine is suspended after its
  yield.
\<close>

theorem koro_switch_roundtrip:
  assumes "quad m0 (reg m0 RDI) = koro" and "reg m0 RSP = b + 48" and "suspended koro pc vs sp m0"
    and "koro + 24 \<notin> set (frame b)" and "koro + 24 \<notin> set (frame (quad m0 koro))"
    and "set (take 6 (frame (quad m0 koro))) \<inter> set (take 6 (frame b)) = {}"
    and "set (frame b) \<inter> {koro, koro + 8} = {}"
  shows "\<exists>m1. run_code koro_workfn_64 m0 = Some (pc, m1) \<and> reg m1 RSP = sp \<and> map (reg m1) callee_saved = vs \<and>
    (\<forall>(m2 :: machine) st c. (\<forall>a\<in>set ((koro + 24) # frame b). quad m2 a = quad m1 a) \<and>
        quad m2 (reg m2 RDI + 8) = st \<and> quad m2 st = koro \<and> reg m2 RSP = c + 40 \<and>
        set (take 6 (frame c)) \<inter> set (koro # (koro + 8) # (koro + 24) # frame b) = {} \<longrightarrow>
      (\<exists>m3. run_code SKIRRT_yield64 m2 = Some (quad m0 (b + 48), m3) \<and> reg m3 RSP = b + 56 \<and>
         map (reg m3) callee_saved = map (reg m0) callee_saved \<and> reg m3 RAX = reg m2 RSI \<and>
         suspended koro (quad m2 (c + 40)) (map (reg m2) callee_saved) (c + 48) m3))"
proof -
  from enter_lemma [OF assms(1-6)] obtain m1 where run: "run_code koro_workfn_64 m0 = Some (pc, m1)"
    "reg m1 RSP = sp" "map (reg m1) callee_saved = vs"
    and w: "waiting koro (quad m0 (b + 48)) (map (reg m0) callee_saved) (b + 56) m1" by blast
  have b: "quad m1 (koro + 24) = b" using w by (simp add: waiting_def)
  have "\<exists>m3. run_code SKIRRT_yield64 m2 = Some (quad m0 (b + 48), m3) \<and>
        reg m3 RSP = b + 56 \<and> map (reg m3) callee_saved = map (reg m0) callee_saved \<and> reg m3 RAX = reg m2 RSI \<and>
        suspended koro (quad m2 (c + 40)) (map (reg m2) callee_saved) (c + 48) m3"
    if same: "\<forall>a\<in>set ((koro + 24) # frame b). quad m2 a = quad m1 a"
      and st: "quad m2 (reg m2 RDI + 8) = st" "quad m2 st = koro" "reg m2 RSP = c + 40"
      and apart: "set (take 6 (frame c)) \<inter> set (koro # (koro + 8) # (koro + 24) # frame b) = {}"
    for m2 :: machine and st c
  proof -
    have b2: "quad m2 (koro + 24) = b" using same b by simp
    have "map (quad m2) (frame b) = map (quad m1) (frame b)" using same by (intro map_cong) auto
    then have "waiting koro (quad m0 (b + 48)) (map (reg m0) callee_saved) (b + 56) m2"
      using w by (simp only: waiting_def b b2)
    from yield_lemma [OF st this] show ?thesis unfolding b2 using apart assms(7) by simp
  qed
  with run show ?thesis by blast
qed

definition raw_machine :: machine where
  "raw_machine = \<lparr>reg = (\<lambda>_. 7)(RDI := 0x500, RSP := 0x8030), quad = (\<lambda>_. 0)(0x500 := 0x1000, 0x8030 := 0x77)\<rparr>"

definition sample_machine :: machine where
  "sample_machine = new_koroutine 0x1000 0x2000 0x400 raw_machine"

lemma sample_machine_simps:
  "quad sample_machine 0x500 = 0x1000" "quad sample_machine 0x8030 = 0x77" "quad sample_machine 0x1000 = 0x2fc8"
  "suspended 0x1000 0x400 (replicate 6 0) 0x2ff8 sample_machine"
  "reg sample_machine = (\<lambda>_. 7)(RDI := 0x500, RSP := 0x8030)"
  using new_koroutine_lemma [where koro = "0x1000" and base = "0x2000" and fp = "0x400" and m = raw_machine]
  by (simp_all add: sample_machine_def raw_machine_def koro_fields_def frame_def)

theorem koro_switch_roundtrip_witness:
  "\<exists>m1. run_code koro_workfn_64 sample_machine = Some (0x400, m1) \<and> reg m1 RSP = 0x2ff8"
  using koro_switch_roundtrip [of sample_machine "0x1000" "0x8000" "0x400" "replicate 6 0" "0x2ff8"]
  by (simp add: sample_machine_simps frame_def) blast

text \<open>
  A coroutine whose function returns is as new: it will start its function again on an empty
  stack, and its scheduler goes on with its own registers and the value that was returned.
\<close>

theorem koro_restarts:
  assumes "set (koro_fields koro) \<inter> set (frame (base + 4040)) = {}"
    and "\<forall>a\<in>{koro + 32, koro + 40, koro + 48}. quad m a = quad (new_koroutine koro base fp m0) a"
    and "quad m (reg m RDI) = koro" and "waiting koro ret vs sp m"
    and "set (frame (quad m (koro + 24))) \<inter> {koro, koro + 8} = {}"
  shows "\<exists>m'. run_code SKIRRT_return64 m = Some (ret, m') \<and> reg m' RSP = sp \<and> map (reg m') callee_saved = vs \<and>
    reg m' RAX = reg m RSI \<and> quad m' koro = quad (new_koroutine koro base fp m0) koro \<and>
    quad m' (koro + 8) = quad (new_koroutine koro base fp m0) (koro + 8) \<and>
    suspended koro fp (map (quad m') (take 6 (frame (base + 4040)))) (base + 4088) m'"
  using return_lemma [OF assms(3-5)] assms(2) new_koroutine_lemma [OF assms(1)]
  by (force simp: suspended_def)

theorem koro_restarts_witness:
  "\<exists>m'. run_code SKIRRT_return64 (sample_machine\<lparr>reg := (\<lambda>_. 7)(RDI := 0x500),
      quad := (quad sample_machine)(0x1018 := 0x9000, 0x9030 := 0x88)\<rparr>) = Some (0x88, m') \<and>
    quad m' 0x1000 = 0x2fc8 \<and> quad m' 0x1008 = 0x400"
  using koro_restarts [of "0x1000" "0x2000"
      "sample_machine\<lparr>reg := (\<lambda>_. 7)(RDI := 0x500), quad := (quad sample_machine)(0x1018 := 0x9000, 0x9030 := 0x88)\<rparr>"
      "0x400" raw_machine "0x88"
      "map (quad sample_machine) (take 6 (frame 0x9000))" "0x9038"]
    new_koroutine_lemma [where koro = "0x1000" and base = "0x2000" and fp = "0x400" and m = raw_machine]
  by (simp add: waiting_def sample_machine_simps frame_def koro_fields_def flip: sample_machine_def) blast

end
