(* ===== verification/Queue_Scheds.thy ===== *)
theory Queue_Scheds
  imports Kernel_T
begin

section \<open>The schedulers with one run queue and one thread\<close>

text \<open>
  \<open>lib/SKIR/SKIRSingleThreadSched.cpp\<close> and \<open>lib/SKIR/SKIRKoroSched.cpp\<close>.  Both keep a map from
  runtime kernels to kernels and a queue of runtime kernels, and have the same operations; they
  differ in the main loop \<open>run\<close> and in the code they generate.  The thread that \<open>start\<close> creates
  runs concurrently with the program: a step is one access to shared state or one stretch
  under the lock of a kernel.  The flag \<open>qok\<close> is cleared when an assertion fails.  \<open>qended\<close> and \<open>qleft\<close> are
  history variables, which no step reads: the handles whose \<open>done\<close> was called, and those of the kernels
  a thread had chosen to run next when it found that \<open>running\<close> was cleared and returned.
\<close>

text \<open>
  Where a thread stands in \<open>run\<close>: before the test of the loop, with the kernel to run next;
  before the lookup in the map; in \<open>empty\<close>; before the try of the lock; at the test for an
  active kernel; at a call of the work function; at its result; before the kernel is queued
  again, with the kernel to run next and whether the lock is held.
\<close>

datatype run_pc =
    PTop endp | PFind endp | PEmpty | PTry ptr nat | PActive ptr nat | PWork ptr nat
  | PRes ptr nat endp | PPush ptr nat endp bool

record qsched =
  qh :: heap
  qts :: "nat \<Rightarrow> kernel_t"
  nqts :: nat
  qmap :: "ptr \<Rightarrow> nat option option"
  qrun :: "ptr list"
  qrunning :: int
  qthreads :: "nat \<Rightarrow> run_pc option"
  nthreads :: nat
  qok :: bool
  qended :: "nat set"
  qleft :: "nat set"

subsection \<open>Operations of the program\<close>

definition q_map_find :: "endp \<Rightarrow> qsched \<Rightarrow> nat option" where
  "q_map_find key s = (case key of
       KernEnd r \<Rightarrow> (case qmap s r of None \<Rightarrow> None | Some v \<Rightarrow> v)
     | _ \<Rightarrow> None)"

definition q_map_insert :: "ptr \<Rightarrow> nat option \<Rightarrow> qsched \<Rightarrow> qsched" where
  "q_map_insert key v s = s\<lparr>qmap := (qmap s)(key \<mapsto> v)\<rparr>"

definition upd_q :: "nat \<Rightarrow> (kernel_t \<Rightarrow> kernel_t) \<Rightarrow> qsched \<Rightarrow> qsched" where
  "upd_q i f s = s\<lparr>qts := (qts s)(i := f (qts s i))\<rparr>"

definition set_pc :: "nat \<Rightarrow> run_pc option \<Rightarrow> qsched \<Rightarrow> qsched" where
  "set_pc t pc s = s\<lparr>qthreads := (qthreads s)(t := pc)\<rparr>"

definition q_check :: "bool \<Rightarrow> qsched \<Rightarrow> qsched" where
  "q_check b s = s\<lparr>qok := (qok s \<and> b)\<rparr>"

definition q_lock :: "actor \<Rightarrow> nat \<Rightarrow> qsched \<Rightarrow> qsched" where
  "q_lock a i s = upd_q i (\<lambda>k. k\<lparr>lock := Some a\<rparr>) s"

definition q_unlock :: "nat \<Rightarrow> qsched \<Rightarrow> qsched" where
  "q_unlock i s = upd_q i (\<lambda>k. k\<lparr>lock := None\<rparr>) s"

text \<open>The end of a kernel; a failure in it is the failure of an assertion.\<close>

definition q_done :: "nat \<Rightarrow> nat \<Rightarrow> qsched \<Rightarrow> qsched" where
  "q_done fuel i s =
     (case k_done fuel (qts s i) (qh s) of
        Some (Done (k, h)) \<Rightarrow> upd_q i (\<lambda>_. k) (s\<lparr>qh := h, qended := insert i (qended s)\<rparr>)
      | _ \<Rightarrow> q_check False s)"

definition q_start :: "qsched \<Rightarrow> qsched" where
  "q_start s =
     (if qrunning s = 0
      then set_pc (nthreads s) (Some (PTop NullEnd)) (s\<lparr>qrunning := 1, nthreads := Suc (nthreads s)\<rparr>)
      else s)"

definition q_callKernel :: "ptr \<Rightarrow> qsched \<Rightarrow> qsched" where
  "q_callKernel r s =
     (let i = nqts s;
          s = q_map_insert r (Some i) (s\<lparr>nqts := Suc i, qts := (qts s)(i := new_kernel_t r (qh s))\<rparr>);
          s = upd_q i k_active s in
      q_start (s\<lparr>qrun := qrun s @ [r]\<rparr>))"

text \<open>The kernel that \<open>waitKernel\<close> waits for; without one its assertion fails.\<close>

definition q_waitKernel :: "ptr \<Rightarrow> qsched \<Rightarrow> (unit, nat) outcome" where
  "q_waitKernel r s = (case q_map_find (KernEnd r) s of None \<Rightarrow> Fault | Some i \<Rightarrow> Done i)"

definition q_pauseKernel :: "ptr \<Rightarrow> qsched \<Rightarrow> qsched" where
  "q_pauseKernel r s =
     (case q_map_find (KernEnd r) s of None \<Rightarrow> q_check False s | Some i \<Rightarrow> upd_q i k_pause s)"

definition q_unPauseKernel :: "ptr \<Rightarrow> qsched \<Rightarrow> qsched" where
  "q_unPauseKernel r s =
     (case q_map_find (KernEnd r) s of None \<Rightarrow> q_check False s | Some i \<Rightarrow> upd_q i k_unpause s)"

text \<open>
  \<open>removeKernel\<close> up to the point where it waits for the lock; with the lock it sets \<open>running\<close>
  to 0 and frees the kernel, whose index is not used again.
\<close>

definition q_removeKernel :: "nat \<Rightarrow> ptr \<Rightarrow> qsched \<Rightarrow> qsched" where
  "q_removeKernel fuel r s =
     (case q_map_find (KernEnd r) s of
        None \<Rightarrow> s
      | Some i \<Rightarrow> q_done fuel i (q_map_insert r None (upd_q i k_pause s)))"

text \<open>
  \<open>stop\<close>: what it does first, and one round of the loop it enters when the thread has ended, or at once
  if \<open>running\<close> was clear already.
\<close>

definition q_stop :: "qsched \<Rightarrow> qsched" where
  "q_stop s = (if qrunning s = 1 then s\<lparr>qrunning := 0\<rparr> else s)"

definition q_drain :: "nat \<Rightarrow> qsched \<Rightarrow> qsched" where
  "q_drain fuel s = (case qrun s of [] \<Rightarrow> s | r # q \<Rightarrow> q_removeKernel fuel r (s\<lparr>qrun := q\<rparr>))"

subsection \<open>The main loops\<close>

text \<open>
  \<open>cg\<close> is the code generation of the kernel's scheduler, \<open>wfn\<close> the host code of the work
  functions, \<open>c1\<close> and \<open>c2\<close> the readings of the cycle counter.  Neither scheduler sets the
  callbacks of a kernel.
\<close>

definition q_work :: "(ptr \<Rightarrow> heap \<Rightarrow> endp \<times> heap) \<Rightarrow> uint64 \<Rightarrow> uint64 \<Rightarrow> nat \<Rightarrow> qsched \<Rightarrow> (unit, endp \<times> heap) outcome" where
  "q_work wfn c1 c2 i s = kernel_work wfn (\<lambda>_ b h. Done (b, h)) c1 c2 (qts s i) (qh s)"

definition q_codegen :: "(ptr \<Rightarrow> heap \<Rightarrow> heap) \<Rightarrow> ptr \<Rightarrow> qsched \<Rightarrow> qsched" where
  "q_codegen cg r s =
     (if workfn_code (rtk (qh s) r) = None
      then q_check (workfn_code (rtk (cg r (qh s)) r) \<noteq> None) (s\<lparr>qh := cg r (qh s)\<rparr>)
      else s)"

definition q_push :: "ptr \<Rightarrow> qsched \<Rightarrow> qsched" where
  "q_push r s = s\<lparr>qrun := qrun s @ [r]\<rparr>"

text \<open>The loop of the single-threaded scheduler; it ends when the queue is found empty.\<close>

fun single_pc :: "(ptr \<Rightarrow> heap \<Rightarrow> heap) \<Rightarrow> nat \<Rightarrow> (ptr \<Rightarrow> heap \<Rightarrow> endp \<times> heap) \<Rightarrow> uint64 \<Rightarrow> uint64 \<Rightarrow>
    nat \<Rightarrow> run_pc \<Rightarrow> qsched \<Rightarrow> qsched" where
  "single_pc cg fuel wfn c1 c2 t (PTop nx) s =
     (if qrunning s \<noteq> 1 then set_pc t None s
      else (case qrun s of
          [] \<Rightarrow> set_pc t (Some PEmpty) s
        | r # q \<Rightarrow> set_pc t (Some (PFind (KernEnd r))) (s\<lparr>qrun := q\<rparr>)))"
| "single_pc cg fuel wfn c1 c2 t PEmpty s =
     set_pc t (Some (PTop NullEnd)) (if qrunning s = 1 then s\<lparr>qrunning := 0\<rparr> else s)"
| "single_pc cg fuel wfn c1 c2 t (PFind e) s =
     (case (e, q_map_find e s) of
        (KernEnd r, Some i) \<Rightarrow> set_pc t (Some (PTry r i)) s
      | _ \<Rightarrow> set_pc t (Some (PTop NullEnd)) s)"
| "single_pc cg fuel wfn c1 c2 t (PTry r i) s =
     (if lock (qts s i) = None then set_pc t (Some (PActive r i)) (q_lock (TaskOf t) i s)
      else set_pc t (Some (PPush r i NullEnd False)) s)"
| "single_pc cg fuel wfn c1 c2 t (PActive r i) s =
     (if is_active (qts s i) then set_pc t (Some (PWork r i)) (q_codegen cg r s)
      else set_pc t (Some (PPush r i NullEnd True)) s)"
| "single_pc cg fuel wfn c1 c2 t (PWork r i) s =
     (case q_work wfn c1 c2 i s of
        Done (b, h) \<Rightarrow> (if b = NullEnd then s\<lparr>qh := h\<rparr> else set_pc t (Some (PRes r i b)) (s\<lparr>qh := h\<rparr>))
      | _ \<Rightarrow> q_check False s)"
| "single_pc cg fuel wfn c1 c2 t (PRes r i b) s =
     set_pc t (Some (PPush r i NullEnd True)) (if b = DeadEnd then q_done fuel i s else s)"
| "single_pc cg fuel wfn c1 c2 t (PPush r i nx locked) s =
     (let s = (if \<not> is_done (qts s i) then q_push r s else s) in
      set_pc t (Some (PTop NullEnd)) (if locked then q_unlock i s else s))"

text \<open>A thread that returns with a kernel in \<open>next_rtk\<close>: nothing keeps that kernel.\<close>

definition q_leave :: "endp \<Rightarrow> qsched \<Rightarrow> qsched" where
  "q_leave nx s = (case q_map_find nx s of None \<Rightarrow> s | Some i \<Rightarrow> s\<lparr>qleft := insert i (qleft s)\<rparr>)"

text \<open>
  The loop of the coroutine scheduler; \<open>nosteal\<close> is the option \<open>DisableKoroSteal\<close>.  The kernel that
  blocks the current one runs next.
\<close>

fun koro_pc :: "bool \<Rightarrow> (ptr \<Rightarrow> heap \<Rightarrow> heap) \<Rightarrow> nat \<Rightarrow> (ptr \<Rightarrow> heap \<Rightarrow> endp \<times> heap) \<Rightarrow> uint64 \<Rightarrow> uint64 \<Rightarrow>
    nat \<Rightarrow> run_pc \<Rightarrow> qsched \<Rightarrow> qsched" where
  "koro_pc nosteal cg fuel wfn c1 c2 t (PTop nx) s =
     (if qrunning s \<noteq> 1 then set_pc t None (q_leave nx s)
      else if nx \<noteq> NullEnd then set_pc t (Some (PFind nx)) s
      else (case qrun s of
          [] \<Rightarrow> s
        | r # q \<Rightarrow> set_pc t (Some (PFind (KernEnd r))) (s\<lparr>qrun := q\<rparr>)))"
| "koro_pc nosteal cg fuel wfn c1 c2 t PEmpty s = s"
| "koro_pc nosteal cg fuel wfn c1 c2 t (PFind e) s =
     (case (e, q_map_find e s) of
        (KernEnd r, Some i) \<Rightarrow> set_pc t (Some (PTry r i)) s
      | _ \<Rightarrow> set_pc t (Some (PTop NullEnd)) s)"
| "koro_pc nosteal cg fuel wfn c1 c2 t (PTry r i) s =
     (if lock (qts s i) = None then set_pc t (Some (PActive r i)) (q_lock (TaskOf t) i s)
      else set_pc t (Some (PTop (KernEnd r))) s)"
| "koro_pc nosteal cg fuel wfn c1 c2 t (PActive r i) s =
     (if is_active (qts s i) then set_pc t (Some (PWork r i)) (q_codegen cg r s)
      else set_pc t (Some (PPush r i NullEnd True)) s)"
| "koro_pc nosteal cg fuel wfn c1 c2 t (PWork r i) s =
     (case q_work wfn c1 c2 i s of
        Done (b, h) \<Rightarrow> set_pc t (Some (PRes r i b)) (s\<lparr>qh := h\<rparr>)
      | _ \<Rightarrow> q_check False s)"
| "koro_pc nosteal cg fuel wfn c1 c2 t (PRes r i b) s =
     (if b = DeadEnd then set_pc t (Some (PPush r i NullEnd True)) (q_map_insert r None (q_done fuel i s))
      else set_pc t (Some (PPush r i (if nosteal then NullEnd else b) True)) s)"
| "koro_pc nosteal cg fuel wfn c1 c2 t (PPush r i nx locked) s =
     (let s = (if \<not> is_done (qts s i) \<and> nx \<noteq> KernEnd r then q_push r s else s) in
      set_pc t (Some (PTop nx)) (if locked then q_unlock i s else s))"

text \<open>A thread that has ended stays where it is.\<close>

definition single_step :: "(ptr \<Rightarrow> heap \<Rightarrow> heap) \<Rightarrow> nat \<Rightarrow> (ptr \<Rightarrow> heap \<Rightarrow> endp \<times> heap) \<Rightarrow> uint64 \<Rightarrow> uint64 \<Rightarrow>
    nat \<Rightarrow> qsched \<Rightarrow> qsched" where
  "single_step cg fuel wfn c1 c2 t s =
     (case qthreads s t of None \<Rightarrow> s | Some pc \<Rightarrow> single_pc cg fuel wfn c1 c2 t pc s)"

definition koro_step :: "bool \<Rightarrow> (ptr \<Rightarrow> heap \<Rightarrow> heap) \<Rightarrow> nat \<Rightarrow> (ptr \<Rightarrow> heap \<Rightarrow> endp \<times> heap) \<Rightarrow> uint64 \<Rightarrow> uint64 \<Rightarrow>
    nat \<Rightarrow> qsched \<Rightarrow> qsched" where
  "koro_step nosteal cg fuel wfn c1 c2 t s =
     (case qthreads s t of None \<Rightarrow> s | Some pc \<Rightarrow> koro_pc nosteal cg fuel wfn c1 c2 t pc s)"

subsection \<open>Code generation\<close>

text \<open>
  The passes that run before host code is generated; \<open>gen\<close> generates it for a list of passes.
  A coroutine gets the object that \<open>new_koroutine\<close> of \<open>Koro_Switch\<close> prepares, here a new handle,
  and is entered through \<open>koro_workfn_64\<close>, the code at \<open>entry\<close>.
\<close>

datatype pass = OuterLoop string string | LLVMOpts | StreamOpts | InlineStreams | KoroPass | BlockingOps

definition single_runCodeGen :: "(pass list \<Rightarrow> ptr \<Rightarrow> heap \<Rightarrow> ptr) \<Rightarrow> ptr \<Rightarrow> heap \<Rightarrow> heap" where
  "single_runCodeGen gen r h =
     upd_rtk r (\<lambda>K. K\<lparr>workfn_code := Some (gen [BlockingOps, InlineStreams, LLVMOpts] r h)\<rparr>) h"

definition koro_passes :: "bool \<Rightarrow> rt_kernel \<Rightarrow> pass list" where
  "koro_passes noelim K =
     (if \<not> opt_only K then
        (if \<not> is_fixed_rate K \<or> noelim
         then [OuterLoop ''loop'' '''', LLVMOpts, StreamOpts, InlineStreams, KoroPass, LLVMOpts]
         else [OuterLoop ''nocheck'' ''nocheck'', LLVMOpts, StreamOpts, InlineStreams, LLVMOpts])
      else [StreamOpts, InlineStreams, LLVMOpts])"

definition genericCodeGen :: "bool \<Rightarrow> ptr \<Rightarrow> (pass list \<Rightarrow> ptr \<Rightarrow> heap \<Rightarrow> ptr) \<Rightarrow> ptr \<Rightarrow> heap \<Rightarrow> heap" where
  "genericCodeGen noelim entry gen r h =
     (let K = rtk h r; fp = gen (koro_passes noelim K) r h in
      if KoroPass \<in> set (koro_passes noelim K) then
        upd_rtk r (\<lambda>K. K\<lparr>workfn_code := Some entry, rt_state := (rt_state K)\<lparr>stk := Some (fresh h)\<rparr>\<rparr>)
          (h\<lparr>fresh := Suc (fresh h)\<rparr>)
      else upd_rtk r (\<lambda>K. K\<lparr>workfn_code := Some fp\<rparr>) h)"

subsection \<open>Runs\<close>

text \<open>
  A main loop \<open>F\<close> interleaved with the program, which calls, pauses, resumes and removes kernels, finished
  and unknown ones too, starts the scheduler and, if \<open>stops\<close> is set, stops it.  A pausing thread takes and gives
  back the lock of a paused kernel; a removing one clears \<open>running\<close> under the lock.
\<close>

inductive q_step :: "bool \<Rightarrow> nat \<Rightarrow> (uint64 \<Rightarrow> uint64 \<Rightarrow> nat \<Rightarrow> qsched \<Rightarrow> qsched) \<Rightarrow> qsched \<Rightarrow> qsched \<Rightarrow> bool"
  for stops fuel F where
  thread: "qthreads s t \<noteq> None \<Longrightarrow> q_step stops fuel F s (F c1 c2 t s)"
| start: "q_step stops fuel F s (q_start s)"
| call: "q_step stops fuel F s (q_callKernel r s)"
| remove: "q_step stops fuel F s (q_removeKernel fuel r s)"
| removed: "i < nqts s \<Longrightarrow> lock (qts s i) = None \<Longrightarrow> q_step stops fuel F s (upd_q i (\<lambda>k. k\<lparr>running := 0\<rparr>) s)"
| pause: "q_step stops fuel F s (q_pauseKernel r s)"
| unpause: "q_step stops fuel F s (q_unPauseKernel r s)"
| pauser_lock: "i < nqts s \<Longrightarrow> lock (qts s i) = None \<Longrightarrow> q_step stops fuel F s (q_lock Pauser i s)"
| pauser_unlock: "lock (qts s i) = Some Pauser \<Longrightarrow> is_active (qts s i) \<or> is_done (qts s i) \<Longrightarrow>
    q_step stops fuel F s (q_unlock i s)"
| stop: "stops \<Longrightarrow> q_step stops fuel F s (q_stop s)"
| drain: "stops \<Longrightarrow> q_step stops fuel F s (q_drain fuel s)"

definition q_init :: "heap \<Rightarrow> qsched" where
  "q_init h = \<lparr>qh = h, qts = (\<lambda>_. new_kernel_t 0 h), nqts = 0, qmap = (\<lambda>_. None), qrun = [], qrunning = 0,
     qthreads = (\<lambda>_. None), nthreads = 0, qok = True,
     qended = {}, qleft = {}\<rparr>"

definition q_reach :: "bool \<Rightarrow> nat \<Rightarrow> (uint64 \<Rightarrow> uint64 \<Rightarrow> nat \<Rightarrow> qsched \<Rightarrow> qsched) \<Rightarrow> heap \<Rightarrow> qsched \<Rightarrow> bool" where
  "q_reach stops fuel F h s = (q_step stops fuel F)\<^sup>*\<^sup>* (q_init h) s"

subsection \<open>No kernel is lost\<close>

text \<open>A kernel that waits for its turn: in the queue, or in the hands of a thread.\<close>

definition holds :: "ptr \<Rightarrow> nat \<Rightarrow> run_pc \<Rightarrow> bool" where
  "holds r i pc \<longleftrightarrow> pc = PTop (KernEnd r) \<or> pc = PFind (KernEnd r) \<or> pc = PTry r i \<or> pc = PActive r i \<or>
     pc = PWork r i \<or> (\<exists>b. pc = PRes r i b) \<or> (\<exists>nx l. pc = PPush r i nx l)"

definition q_pending :: "ptr \<Rightarrow> nat \<Rightarrow> qsched \<Rightarrow> bool" where
  "q_pending r i s \<longleftrightarrow> r \<in> set (qrun s) \<or> (\<exists>t pc. qthreads s t = Some pc \<and> holds r i pc)"

text \<open>A kernel whose end was never signalled; a kernel that is done was ended.\<close>

definition q_live :: "ptr \<Rightarrow> nat \<Rightarrow> qsched \<Rightarrow> bool" where
  "q_live r i s \<longleftrightarrow> qmap s r = Some (Some i) \<and> i \<notin> qended s"

definition q_inv :: "bool \<Rightarrow> bool \<Rightarrow> qsched \<Rightarrow> bool" where
  "q_inv steal stops s \<longleftrightarrow> (\<forall>r i. q_live r i s \<longrightarrow> q_pending r i s \<or> i \<in> qleft s) \<and>
     (\<forall>i. is_done (qts s i) \<longrightarrow> i \<in> qended s) \<and>
     (if steal then stops \<or> (\<forall>t. qthreads s t \<noteq> None \<longrightarrow> qrunning s = 1)
      else (\<forall>t r. qthreads s t \<noteq> Some (PTop (KernEnd r)))) \<and> (steal \<and> stops \<or> qleft s = {}) \<and>
     (\<forall>r i. qmap s r = Some (Some i) \<longrightarrow> i < nqts s) \<and> qthreads s (nthreads s) = None \<and>
     (\<forall>t. qthreads s t \<noteq> None \<longrightarrow> t < nthreads s)"

lemma q_inv_shrink:
  assumes "q_inv steal stops s" and "set (qrun s) \<subseteq> set (qrun s')" "qthreads s' = qthreads s" "nthreads s' = nthreads s"
    "stops \<or> qrunning s' = qrunning s" "nqts s' = nqts s" "qleft s' = qleft s"
    and "\<And>i. is_done (qts s' i) \<Longrightarrow> i \<in> qended s'"
    and "\<And>r i. qmap s' r = Some (Some i) \<Longrightarrow> qmap s r = Some (Some i)"
    and "\<And>r i. q_live r i s' \<Longrightarrow> q_live r i s"
  shows "q_inv steal stops s'"
proof -
  have "q_pending r i s \<Longrightarrow> q_pending r i s'" for r i using assms(2,3) by (auto simp: q_pending_def)
  then have "\<forall>r i. q_live r i s' \<longrightarrow> q_pending r i s' \<or> i \<in> qleft s'" using assms(1,7,10) unfolding q_inv_def by metis
  moreover have "\<forall>r i. qmap s' r = Some (Some i) \<longrightarrow> i < nqts s'" using assms(1,6,9) unfolding q_inv_def by metis
  ultimately show ?thesis using assms(1,3-5,7,8) by (cases steal) (auto simp: q_inv_def)
qed

lemma q_upd_simps [simp]:
  "qh (upd_q i f s) = qh s" "qts (upd_q i f s) = (qts s)(i := f (qts s i))" "nqts (upd_q i f s) = nqts s"
  "qmap (upd_q i f s) = qmap s" "qrun (upd_q i f s) = qrun s" "qrunning (upd_q i f s) = qrunning s"
  "qthreads (upd_q i f s) = qthreads s" "nthreads (upd_q i f s) = nthreads s" "qended (upd_q i f s) = qended s" "qleft (upd_q i f s) = qleft s" "qok (upd_q i f s) = qok s"
  "qh (set_pc t pc s) = qh s" "qts (set_pc t pc s) = qts s" "nqts (set_pc t pc s) = nqts s"
  "qmap (set_pc t pc s) = qmap s" "qrun (set_pc t pc s) = qrun s" "qrunning (set_pc t pc s) = qrunning s"
  "qthreads (set_pc t pc s) = (qthreads s)(t := pc)" "nthreads (set_pc t pc s) = nthreads s" "qended (set_pc t pc s) = qended s" "qleft (set_pc t pc s) = qleft s" "qok (set_pc t pc s) = qok s"
  "qh (q_check b s) = qh s" "qts (q_check b s) = qts s" "nqts (q_check b s) = nqts s"
  "qmap (q_check b s) = qmap s" "qrun (q_check b s) = qrun s" "qrunning (q_check b s) = qrunning s"
  "qthreads (q_check b s) = qthreads s" "nthreads (q_check b s) = nthreads s" "qended (q_check b s) = qended s" "qleft (q_check b s) = qleft s" "qok (q_check b s) = (qok s \<and> b)"
  "qh (q_map_insert r v s) = qh s" "qts (q_map_insert r v s) = qts s" "nqts (q_map_insert r v s) = nqts s"
  "qmap (q_map_insert r v s) = (qmap s)(r \<mapsto> v)" "qrun (q_map_insert r v s) = qrun s" "qrunning (q_map_insert r v s) = qrunning s"
  "qthreads (q_map_insert r v s) = qthreads s" "nthreads (q_map_insert r v s) = nthreads s" "qended (q_map_insert r v s) = qended s" "qleft (q_map_insert r v s) = qleft s" "qok (q_map_insert r v s) = qok s"
  "qh (q_push r s) = qh s" "qts (q_push r s) = qts s" "nqts (q_push r s) = nqts s"
  "qmap (q_push r s) = qmap s" "qrun (q_push r s) = qrun s @ [r]" "qrunning (q_push r s) = qrunning s"
  "qthreads (q_push r s) = qthreads s" "nthreads (q_push r s) = nthreads s" "qended (q_push r s) = qended s" "qleft (q_push r s) = qleft s" "qok (q_push r s) = qok s"
  by (simp_all add: upd_q_def set_pc_def q_check_def q_map_insert_def q_push_def)

lemma k_done_state: "k_done fuel k h = Some (Done (k', h')) \<Longrightarrow> k' = k\<lparr>wait_state := DONE\<rparr>"
  by (auto simp: k_done_def split: option.splits elim: bind_out_DoneE)

lemma q_done_simps [simp]:
  "nqts (q_done fuel i s) = nqts s" "qmap (q_done fuel i s) = qmap s" "qrun (q_done fuel i s) = qrun s"
  "qrunning (q_done fuel i s) = qrunning s" "qthreads (q_done fuel i s) = qthreads s" "nthreads (q_done fuel i s) = nthreads s"
  "qleft (q_done fuel i s) = qleft s"
  by (auto simp: q_done_def split: option.splits outcome.splits)

lemma q_done_ended: "qended s \<subseteq> qended (q_done fuel i s)"
  by (auto simp: q_done_def split: option.splits outcome.splits)

lemma q_done_is_done: "is_done (qts (q_done fuel i s) j) \<Longrightarrow> is_done (qts s j) \<or> j \<in> qended (q_done fuel i s)"
  by (auto simp: q_done_def split: option.splits outcome.splits if_splits)

lemma q_live_done: "q_live r i (q_done fuel j s) \<Longrightarrow> q_live r i s"
  using q_done_ended [of s fuel j] by (auto simp: q_live_def)

lemma q_pending_mono:
  assumes "q_pending r i s" and "set (qrun s) \<subseteq> set (qrun s')"
    and "\<And>t pc. qthreads s t = Some pc \<Longrightarrow> holds r i pc \<Longrightarrow> r \<in> set (qrun s') \<or> (\<exists>pc'. qthreads s' t = Some pc' \<and> holds r i pc')"
  shows "q_pending r i s'"
  using assms unfolding q_pending_def by blast

lemma q_start_simps [simp]:
  "qts (q_start s) = qts s" "nqts (q_start s) = nqts s" "qmap (q_start s) = qmap s" "qrun (q_start s) = qrun s"
  "qrunning (q_start s) = (if qrunning s = 0 then 1 else qrunning s)"
  "qthreads (q_start s) = (if qrunning s = 0 then (qthreads s)(nthreads s \<mapsto> PTop NullEnd) else qthreads s)"
  "nthreads (q_start s) = (if qrunning s = 0 then Suc (nthreads s) else nthreads s)"
  "qended (q_start s) = qended s" "qleft (q_start s) = qleft s"
  by (simp_all add: q_start_def)

lemma call_simps [simp]:
  "qmap (q_callKernel r s) = (qmap s)(r \<mapsto> Some (nqts s))" "qrun (q_callKernel r s) = qrun s @ [r]"
  "nqts (q_callKernel r s) = Suc (nqts s)" "j \<noteq> nqts s \<Longrightarrow> qts (q_callKernel r s) j = qts s j"
  "qrunning (q_callKernel r s) = (if qrunning s = 0 then 1 else qrunning s)"
  "qthreads (q_callKernel r s) = (if qrunning s = 0 then (qthreads s)(nthreads s \<mapsto> PTop NullEnd) else qthreads s)"
  "nthreads (q_callKernel r s) = (if qrunning s = 0 then Suc (nthreads s) else nthreads s)"
  "qended (q_callKernel r s) = qended s" "qleft (q_callKernel r s) = qleft s"
  by (simp_all add: q_callKernel_def Let_def)

lemma is_done_new [simp]: "\<not> is_done (k_active k)" "is_active (k_active k)"
  by (simp_all add: is_done_def is_active_def k_active_def)

lemma qts_call [simp]: "qts (q_callKernel r s) (nqts s) = k_active (new_kernel_t r (qh s))"
  by (simp add: q_callKernel_def Let_def)

lemma call_inv:
  assumes inv: "q_inv steal stops s"
  shows "q_inv steal stops (q_callKernel r s)"
proof -
  have n: "qthreads s (nthreads s) = None" "\<And>t. qthreads s t \<noteq> None \<Longrightarrow> t < nthreads s"
    "\<And>r i. qmap s r = Some (Some i) \<Longrightarrow> i < nqts s" using inv by (auto simp: q_inv_def)
  have "q_pending r' i (q_callKernel r s) \<or> i \<in> qleft s" if l: "q_live r' i (q_callKernel r s)" for r' i
  proof (cases "r' = r")
    case True
    then show ?thesis by (simp add: q_pending_def)
  next
    case False
    then have "q_live r' i s" using l by (simp add: q_live_def)
    then have "q_pending r' i s \<or> i \<in> qleft s" using inv by (simp add: q_inv_def)
    moreover have "q_pending r' i s \<Longrightarrow> q_pending r' i (q_callKernel r s)"
      by (erule q_pending_mono) (use n(1) in \<open>auto split: if_splits\<close>)
    ultimately show ?thesis by blast
  qed
  moreover have "qthreads (q_callKernel r s) t \<noteq> None \<Longrightarrow> t < nthreads (q_callKernel r s)" for t
    using n(2) [of t] by (auto split: if_splits)
  moreover have "i < nqts (q_callKernel r s)" if "qmap (q_callKernel r s) r' = Some (Some i)" for r' i
    using that n(3) by (fastforce split: if_splits)
  moreover have "is_done (qts (q_callKernel r s) i) \<Longrightarrow> i \<in> qended s" for i
    using inv qts_call [of r s] by (cases "i = nqts s") (auto simp: q_inv_def)
  moreover have "qthreads s (Suc (nthreads s)) = None" by (rule ccontr) (use n(2) in force)
  then have "qthreads (q_callKernel r s) (nthreads (q_callKernel r s)) = None" using n(1) by simp
  ultimately show ?thesis using inv by (auto simp: q_inv_def)
qed

lemma start_inv:
  assumes inv: "q_inv steal stops s"
  shows "q_inv steal stops (q_start s)"
proof -
  have n: "qthreads s (nthreads s) = None" "\<And>t. qthreads s t \<noteq> None \<Longrightarrow> t < nthreads s"
    using inv by (auto simp: q_inv_def)
  have "q_pending r i (q_start s) \<or> i \<in> qleft s" if l: "q_live r i (q_start s)" for r i
  proof -
    have "q_pending r i s \<or> i \<in> qleft s" using l inv by (simp add: q_live_def q_inv_def)
    moreover have "q_pending r i s \<Longrightarrow> q_pending r i (q_start s)"
      by (erule q_pending_mono) (use n(1) in \<open>auto split: if_splits\<close>)
    ultimately show ?thesis by blast
  qed
  moreover have "qthreads (q_start s) t \<noteq> None \<Longrightarrow> t < nthreads (q_start s)" for t
    using n(2) [of t] by (auto split: if_splits)
  moreover have "qthreads s (Suc (nthreads s)) = None" by (rule ccontr) (use n(2) in force)
  then have "qthreads (q_start s) (nthreads (q_start s)) = None" using n(1) by simp
  ultimately show ?thesis using inv by (auto simp: q_inv_def)
qed

lemma inv_ended: "q_inv steal stops s \<Longrightarrow> is_done (qts s i) \<Longrightarrow> i \<in> qended s"
  by (simp add: q_inv_def)

lemma upd_inv:
  assumes "q_inv steal stops s" and "\<And>k. is_done (f k) \<Longrightarrow> is_done k"
  shows "q_inv steal stops (upd_q i f s)"
  using assms inv_ended [OF assms(1)] by (intro q_inv_shrink [OF assms(1)]) (auto simp: q_live_def split: if_splits)

lemma inv_ended_done: "q_inv steal stops s \<Longrightarrow> is_done (qts (q_done fuel i s) j) \<Longrightarrow> j \<in> qended (q_done fuel i s)"
  using q_done_ended [of s fuel i] q_done_is_done [of fuel i s j] by (auto dest: inv_ended)

lemma done_inv: "q_inv steal stops s \<Longrightarrow> q_inv steal stops (q_done fuel i s)"
  by (rule q_inv_shrink, assumption) (auto intro: q_live_done dest: inv_ended_done)

lemma unmap_inv: "q_inv steal stops s \<Longrightarrow> q_inv steal stops (q_map_insert r None s)"
  by (rule q_inv_shrink, assumption) (auto simp: q_live_def dest: inv_ended split: if_splits)

lemma check_inv: "q_inv steal stops s \<Longrightarrow> q_inv steal stops (q_check b s)"
  by (rule q_inv_shrink, assumption) (auto simp: q_live_def dest: inv_ended)

lemma remove_inv: "q_inv steal stops s \<Longrightarrow> q_inv steal stops (q_removeKernel fuel r s)"
  by (auto simp: q_removeKernel_def k_pause_def is_done_def split: option.splits if_splits intro!: done_inv unmap_inv upd_inv)

lemma stop_inv: "q_inv steal True s \<Longrightarrow> q_inv steal True (q_stop s)"
  by (rule q_inv_shrink, assumption) (auto simp: q_stop_def q_live_def dest: inv_ended split: if_splits)

lemma remove_simps [simp]:
  "nqts (q_removeKernel fuel r s) = nqts s" "qrun (q_removeKernel fuel r s) = qrun s" "qleft (q_removeKernel fuel r s) = qleft s"
  "qrunning (q_removeKernel fuel r s) = qrunning s" "qthreads (q_removeKernel fuel r s) = qthreads s"
  "nthreads (q_removeKernel fuel r s) = nthreads s"
  by (simp_all add: q_removeKernel_def split: option.splits)

lemma remove_unmaps: "qmap (q_removeKernel fuel r s) q = Some (Some i) \<longleftrightarrow> q \<noteq> r \<and> qmap s q = Some (Some i)"
  by (auto simp: q_removeKernel_def q_map_find_def split: option.splits)

text \<open>A kernel that is taken from the queue to be removed is not mapped afterwards.\<close>

lemma drain_inv:
  assumes inv: "q_inv steal stops s"
  shows "q_inv steal stops (q_drain fuel s)"
proof (cases "qrun s")
  case (Cons r q)
  let ?s = "q_removeKernel fuel r s" and ?d = "q_removeKernel fuel r (s\<lparr>qrun := q\<rparr>)"
  have same: "qmap ?d = qmap ?s" "qended ?d = qended ?s" "qts ?d = qts ?s"
    by (auto simp: q_removeKernel_def q_map_find_def q_done_def q_map_insert_def upd_q_def q_check_def split: option.splits outcome.splits)
  have i: "q_inv steal stops ?s" using inv by (rule remove_inv)
  have "q_pending p i ?d \<or> i \<in> qleft s" if l: "q_live p i ?d" for p i
  proof -
    have "q_pending p i ?s \<or> i \<in> qleft s" using i l same by (auto simp: q_inv_def q_live_def)
    moreover have "p \<noteq> r" using l by (simp add: q_live_def remove_unmaps)
    ultimately show ?thesis using Cons by (auto simp: q_pending_def)
  qed
  then show ?thesis using i same Cons by (cases steal) (simp_all add: q_drain_def q_inv_def q_live_def)
qed (simp add: q_drain_def inv)

text \<open>The interface of a main loop: a step of a thread keeps the invariant.\<close>

locale queue_loop =
  fixes steal :: bool and fuel :: nat and F :: "uint64 \<Rightarrow> uint64 \<Rightarrow> nat \<Rightarrow> qsched \<Rightarrow> qsched"
  assumes loop_keeps: "q_inv steal stops s \<Longrightarrow> qthreads s t \<noteq> None \<Longrightarrow> q_inv steal stops (F c1 c2 t s)"
begin

lemma step_keeps: "q_step stops fuel F s s' \<Longrightarrow> q_inv steal stops s \<Longrightarrow> q_inv steal stops s'"
proof (induction rule: q_step.induct)
  case (pause s r)
  then show ?case by (auto simp: q_pauseKernel_def k_pause_def is_done_def split: option.splits if_splits intro!: upd_inv check_inv)
next
  case (unpause s r)
  then show ?case by (auto simp: q_unPauseKernel_def k_unpause_def split: option.splits intro!: upd_inv check_inv)
qed (auto simp: q_lock_def q_unlock_def is_done_def intro!: loop_keeps start_inv call_inv remove_inv upd_inv stop_inv drain_inv)

lemma reach_keeps: "q_reach stops fuel F h s \<Longrightarrow> q_inv steal stops s"
  unfolding q_reach_def
proof (induction rule: rtranclp_induct)
  case base
  show ?case by (simp add: q_inv_def q_init_def q_live_def new_kernel_t_def is_done_def)
next
  case (step s s')
  then show ?case using step_keeps by blast
qed

lemma loop_loses_none:
  "q_reach stops fuel F h s \<Longrightarrow> qmap s r = Some (Some i) \<Longrightarrow> i \<notin> qended s \<Longrightarrow>
     q_pending r i s \<or> steal \<and> stops \<and> i \<in> qleft s"
  using reach_keeps [of stops h s] by (auto simp: q_inv_def q_live_def)

lemma done_was_ended: "q_reach stops fuel F h s \<Longrightarrow> is_done (qts s i) \<Longrightarrow> i \<in> qended s"
  using reach_keeps [of stops h s] by (rule inv_ended)

end

lemma thread_inv:
  assumes inv: "q_inv steal stops s" and pc: "qthreads s t = Some pc"
    and new: "qthreads s' = (qthreads s)(t := pc')" "nthreads s' = nthreads s" "nqts s' = nqts s"
    and dones: "\<And>i. is_done (qts s' i) \<Longrightarrow> i \<in> qended s'"
    and left: "qleft s \<subseteq> qleft s'" "\<not> (steal \<and> stops) \<Longrightarrow> qleft s' = qleft s"
    and shrink: "\<And>r i. qmap s' r = Some (Some i) \<Longrightarrow> qmap s r = Some (Some i)" "\<And>r i. q_live r i s' \<Longrightarrow> q_live r i s"
    and kept: "\<And>r i. q_live r i s' \<Longrightarrow> holds r i pc \<Longrightarrow> r \<in> set (qrun s') \<or> i \<in> qleft s' \<or> (\<exists>p. pc' = Some p \<and> holds r i p)"
      "\<And>r i. r \<in> set (qrun s) \<Longrightarrow> r \<in> set (qrun s') \<or> (\<exists>p. pc' = Some p \<and> holds r i p)"
    and side: "steal \<Longrightarrow> \<not> stops \<Longrightarrow> qrunning s' = qrunning s" "\<not> steal \<Longrightarrow> (\<And>r. pc' \<noteq> Some (PTop (KernEnd r)))"
  shows "q_inv steal stops s'"
proof -
  have n: "t < nthreads s" using inv pc by (auto simp: q_inv_def)
  have "q_pending r i s' \<or> i \<in> qleft s'" if l: "q_live r i s'" for r i
  proof -
    have "q_pending r i s \<or> i \<in> qleft s" using inv shrink(2) [OF l] by (simp add: q_inv_def)
    then consider "r \<in> set (qrun s)" | "holds r i pc" | "i \<in> qleft s" | t' p where "t' \<noteq> t" "qthreads s t' = Some p" "holds r i p"
      using pc unfolding q_pending_def by (metis option.inject)
    then show ?thesis
    proof cases
      case 1
      then show ?thesis using kept(2) [of r i] new(1) by (auto simp: q_pending_def)
    next
      case 2
      then show ?thesis using kept(1) [OF l] new(1) by (auto simp: q_pending_def)
    next
      case 3
      then show ?thesis using left(1) by blast
    next
      case 4
      then show ?thesis using new(1) unfolding q_pending_def by (metis fun_upd_other)
    qed
  qed
  moreover have "\<forall>t'. qthreads s' t' \<noteq> None \<longrightarrow> t' < nthreads s'" using inv n new by (auto simp: q_inv_def)
  moreover have "qthreads s' (nthreads s') = None" using inv n new by (auto simp: q_inv_def)
  moreover have "i < nqts s'" if "qmap s' r = Some (Some i)" for r i
    using inv shrink(1) [OF that] new(3) by (simp add: q_inv_def)
  moreover have "steal \<and> stops \<or> qleft s' = {}" using inv left(2) by (cases "steal \<and> stops") (simp_all add: q_inv_def)
  moreover have "if steal then stops \<or> (\<forall>t. qthreads s' t \<noteq> None \<longrightarrow> qrunning s' = 1)
      else (\<forall>t r. qthreads s' t \<noteq> Some (PTop (KernEnd r)))"
  proof (cases steal)
    case True
    then show ?thesis using inv pc side(1) by (cases stops) (auto simp: q_inv_def)
  next
    case False
    then show ?thesis using inv side(2) new(1) by (auto simp: q_inv_def)
  qed
  ultimately show ?thesis using dones unfolding q_inv_def by blast
qed

lemma holds_simps [simp]:
  "holds r i (PTop e) \<longleftrightarrow> e = KernEnd r" "holds r i (PFind e) \<longleftrightarrow> e = KernEnd r" "\<not> holds r i PEmpty"
  "holds r i (PTry q j) \<longleftrightarrow> q = r \<and> j = i" "holds r i (PActive q j) \<longleftrightarrow> q = r \<and> j = i"
  "holds r i (PWork q j) \<longleftrightarrow> q = r \<and> j = i" "holds r i (PRes q j b) \<longleftrightarrow> q = r \<and> j = i"
  "holds r i (PPush q j nx l) \<longleftrightarrow> q = r \<and> j = i"
  by (auto simp: holds_def)

lemma live_simps [simp]:
  "q_live r i (set_pc t pc s) = q_live r i s" "q_live r i (q_check b s) = q_live r i s"
  "q_live r i (q_push q s) = q_live r i s" "q_live r i (s\<lparr>qh := h\<rparr>) = q_live r i s"
  "q_live r i (s\<lparr>qrun := q'\<rparr>) = q_live r i s" "q_live r i (s\<lparr>qrunning := n\<rparr>) = q_live r i s"
  "q_live r i (q_lock a j s) = q_live r i s" "q_live r i (q_unlock j s) = q_live r i s"
  "q_live r i (q_codegen cg q s) = q_live r i s"
  by (simp_all add: q_live_def q_lock_def q_unlock_def is_done_def q_codegen_def)

lemma lock_simps [simp]:
  "nqts (q_lock a j s) = nqts s" "qmap (q_lock a j s) = qmap s" "qrun (q_lock a j s) = qrun s"
  "qrunning (q_lock a j s) = qrunning s" "qthreads (q_lock a j s) = qthreads s" "nthreads (q_lock a j s) = nthreads s"
  "nqts (q_unlock j s) = nqts s" "qmap (q_unlock j s) = qmap s" "qrun (q_unlock j s) = qrun s"
  "qrunning (q_unlock j s) = qrunning s" "qthreads (q_unlock j s) = qthreads s" "nthreads (q_unlock j s) = nthreads s"
  "nqts (q_codegen cg q s) = nqts s" "qmap (q_codegen cg q s) = qmap s" "qrun (q_codegen cg q s) = qrun s"
  "qrunning (q_codegen cg q s) = qrunning s" "qthreads (q_codegen cg q s) = qthreads s" "nthreads (q_codegen cg q s) = nthreads s"
  "qended (q_lock a j s) = qended s" "qleft (q_lock a j s) = qleft s" "qended (q_unlock j s) = qended s" "qleft (q_unlock j s) = qleft s"
  "qended (q_codegen cg q s) = qended s" "qleft (q_codegen cg q s) = qleft s" "qts (q_codegen cg q s) = qts s"
  "is_done (qts (q_lock a j s) i) = is_done (qts s i)" "is_done (qts (q_unlock j s) i) = is_done (qts s i)"
  by (simp_all add: q_lock_def q_unlock_def q_codegen_def is_done_def)

lemma leave_simps [simp]:
  "nqts (q_leave nx s) = nqts s" "qmap (q_leave nx s) = qmap s" "qrun (q_leave nx s) = qrun s" "qts (q_leave nx s) = qts s"
  "qrunning (q_leave nx s) = qrunning s" "qthreads (q_leave nx s) = qthreads s" "nthreads (q_leave nx s) = nthreads s"
  "qended (q_leave nx s) = qended s" "q_live r i (q_leave nx s) = q_live r i s" "qleft s \<subseteq> qleft (q_leave nx s)"
  by (auto simp: q_leave_def q_live_def split: option.splits)

lemma single_keeps:
  assumes inv: "q_inv False stops s" and pc: "qthreads s t = Some pc"
  shows "q_inv False stops (single_pc cg fuel wfn c1 c2 t pc s)"
proof (cases pc)
  case (PTop nx)
  then have "\<And>r. nx \<noteq> KernEnd r" using inv pc by (auto simp: q_inv_def)
  then show ?thesis using PTop by (auto intro!: thread_inv [OF inv pc] dest: inv_ended [OF inv] split: list.splits)
next
  case (PFind e)
  then show ?thesis
    by (auto intro!: thread_inv [OF inv pc] simp: q_map_find_def q_live_def dest: inv_ended [OF inv] split: endp.splits option.splits)
next
  case (PWork r i)
  have "q_inv False stops (s\<lparr>qh := h\<rparr>)" for h
    by (rule q_inv_shrink [OF inv]) (auto dest: inv_ended [OF inv])
  then show ?thesis using PWork check_inv [OF inv]
    by (auto intro!: thread_inv [OF inv pc] dest: inv_ended [OF inv] split: outcome.splits)
next
  case (PRes r i b)
  then show ?thesis
    by (auto intro!: thread_inv [OF inv pc] dest: inv_ended [OF inv] inv_ended_done [OF inv] q_live_done)
next
  case (PPush r i nx l)
  then show ?thesis
    by (auto intro!: thread_inv [OF inv pc] simp: Let_def dest: inv_ended [OF inv]) (auto simp: q_live_def dest: inv_ended [OF inv])
qed (auto intro!: thread_inv [OF inv pc] dest: inv_ended [OF inv])

lemma koro_keeps:
  assumes inv: "q_inv True stops s" and pc: "qthreads s t = Some pc"
  shows "q_inv True stops (koro_pc nosteal cg fuel wfn c1 c2 t pc s)"
proof (cases pc)
  case (PTop nx)
  show ?thesis
  proof (cases "qrunning s = 1")
    case True
    then show ?thesis using PTop inv
      by (auto intro!: thread_inv [OF inv pc] dest: inv_ended [OF inv] split: list.splits)
  next
    case False
    then have "stops" using inv pc by (auto simp: q_inv_def)
    moreover have "i \<in> qleft (q_leave nx s)" if "q_live r i s" "nx = KernEnd r" for r i
      using that by (simp add: q_leave_def q_map_find_def q_live_def)
    ultimately have "q_inv True stops (set_pc t None (q_leave nx s))" if "qrun s = qrun s"
      by (intro thread_inv [OF inv pc]) (auto simp: PTop dest: inv_ended [OF inv] set_mp [OF leave_simps(10)])
    then show ?thesis using PTop False by simp
  qed
next
  case (PFind e)
  then show ?thesis
    by (auto intro!: thread_inv [OF inv pc] simp: q_map_find_def q_live_def dest: inv_ended [OF inv] split: endp.splits option.splits)
next
  case (PWork r i)
  then show ?thesis using check_inv [OF inv]
    by (auto intro!: thread_inv [OF inv pc] dest: inv_ended [OF inv] split: outcome.splits)
next
  case (PRes r i b)
  have "q_inv True stops (set_pc t (Some (PPush r i NullEnd True)) (q_map_insert r None (q_done fuel i s)))"
    using q_done_ended [of s fuel i]
    by (intro thread_inv [OF inv pc]) (auto simp: q_live_def PRes split: if_splits dest: inv_ended_done [OF inv])
  then show ?thesis using PRes by (auto intro!: thread_inv [OF inv pc] dest: inv_ended [OF inv])
next
  case (PPush r i nx l)
  then show ?thesis
    by (auto intro!: thread_inv [OF inv pc] simp: Let_def dest: inv_ended [OF inv]) (auto simp: q_live_def dest: inv_ended [OF inv])
qed (auto intro!: thread_inv [OF inv pc] simp: inv dest: inv_ended [OF inv])

interpretation single: queue_loop False fuel "single_step cg fuel wfn" for cg fuel wfn
  by unfold_locales (auto simp: single_step_def intro: single_keeps)

interpretation koro: queue_loop True fuel "koro_step nosteal cg fuel wfn" for nosteal cg fuel wfn
  by unfold_locales (auto simp: koro_step_def intro: koro_keeps)

text \<open>
  C26. The queue schedulers lose no kernel, with one exception: however the thread and the calls of the
  program (calls, pauses, resumptions, removals, starts and stops) are interleaved, a kernel that is mapped and
  whose end was never signalled is in the run queue or in the hands of a thread, or the coroutine scheduler was
  stopped when it had chosen this kernel to run next.  A kernel that has ended and is resumed is not covered.
\<close>

theorem queue_no_kernel_lost:
  assumes "q_reach stops fuel F h s" and "F = single_step cg fuel wfn \<or> F = koro_step nosteal cg fuel wfn"
    and "qmap s r = Some (Some i)" and "i \<notin> qended s"
  shows "r \<in> set (qrun s) \<or> (\<exists>t pc. qthreads s t = Some pc \<and> holds r i pc) \<or>
    F = koro_step nosteal cg fuel wfn \<and> stops \<and> i \<in> qleft s"
  using assms single.loop_loses_none [of stops fuel cg wfn h s r i] koro.loop_loses_none [of stops fuel nosteal cg wfn h s r i]
  unfolding q_pending_def by blast

theorem queue_no_kernel_lost_witness:
  "1 \<in> set (qrun (q_callKernel 1 (q_init sample_heap))) \<or> (\<exists>t pc. qthreads (q_callKernel 1 (q_init sample_heap)) t = Some pc \<and> holds 1 0 pc)"
proof -
  let ?s = "q_callKernel 1 (q_init sample_heap)" and ?F = "single_step (\<lambda>_ h. h) 1 (\<lambda>_ h. (NullEnd, h))"
  have "q_step False 1 ?F (q_init sample_heap) ?s" by (rule call)
  then have "q_reach False 1 ?F sample_heap ?s" unfolding q_reach_def by blast
  moreover have "qmap ?s 1 = Some (Some 0)" "0 \<notin> qended ?s" by (simp_all add: q_init_def)
  ultimately show ?thesis
    using queue_no_kernel_lost [of False 1 ?F sample_heap ?s "\<lambda>_ h. h" "\<lambda>_ h. (NullEnd, h)" False 1 0] by simp
qed

subsection \<open>What goes wrong\<close>

text \<open>
  A kernel that is paused when its turn comes is not put back into the queue of the coroutine scheduler
  but tried again and again; a stop finds the queue empty, and the kernel stays mapped, is never run again
  and never ends, so that a wait for it does not return.
\<close>

theorem koro_stop_loses_paused:
  "\<exists>s. q_reach True fuel (koro_step nosteal cg fuel wfn) h s \<and> qok s \<and> qmap s r = Some (Some 0) \<and> 0 \<notin> qended s \<and>
     qrun s = [] \<and> qthreads s = (\<lambda>_. None) \<and> q_drain fuel s = s"
proof -
  let ?F = "koro_step nosteal cg fuel wfn"
  define s1 where "s1 = q_callKernel r (q_init h)"
  define s2 where "s2 = q_lock Pauser 0 s1"
  define s3 where "s3 = ?F 0 0 0 s2"
  define s4 where "s4 = ?F 0 0 0 s3"
  define s5 where "s5 = ?F 0 0 0 s4"
  define s6 where "s6 = q_stop s5"
  define s7 where "s7 = ?F 0 0 0 s6"
  have s1: "qthreads s1 = (\<lambda>_. None)(0 \<mapsto> PTop NullEnd)" "qrunning s1 = 1" "qrun s1 = [r]" "nqts s1 = 1" "qok s1"
      "qmap s1 r = Some (Some 0)" "lock (qts s1 0) = None" "qended s1 = {}"
    by (simp_all add: s1_def q_init_def q_callKernel_def q_start_def Let_def upd_q_def q_map_insert_def set_pc_def
      k_active_def new_kernel_t_def)
  have s2: "qthreads s2 = (\<lambda>_. None)(0 \<mapsto> PTop NullEnd)" "qrunning s2 = 1" "qrun s2 = [r]" "qok s2"
      "qmap s2 r = Some (Some 0)" "lock (qts s2 0) = Some Pauser" "qended s2 = {}"
    using s1 by (simp_all add: s2_def q_lock_def)
  have e3: "s3 = set_pc 0 (Some (PFind (KernEnd r))) (s2\<lparr>qrun := []\<rparr>)" using s2 by (simp add: s3_def koro_step_def)
  have e4: "s4 = set_pc 0 (Some (PTry r 0)) s3" using s2 by (simp add: s4_def koro_step_def e3 q_map_find_def)
  have e5: "s5 = set_pc 0 (Some (PTop (KernEnd r))) s4" using s2 by (simp add: s5_def koro_step_def e4 e3)
  have e6: "s6 = s5\<lparr>qrunning := 0\<rparr>" using s2 by (simp add: s6_def q_stop_def e5 e4 e3)
  have e7: "s7 = set_pc 0 None (q_leave (KernEnd r) s6)" using s2 by (simp add: s7_def koro_step_def e6 e5 e4 e3)
  have step: "q_step True fuel ?F s (?F 0 0 0 s)" if "qthreads s 0 \<noteq> None" for s using that by (rule thread)
  have "q_step True fuel ?F s2 s3" unfolding s3_def by (rule step) (simp add: s2)
  moreover have "q_step True fuel ?F s3 s4" unfolding s4_def by (rule step) (simp add: e3)
  moreover have "q_step True fuel ?F s4 s5" unfolding s5_def by (rule step) (simp add: e4)
  moreover have "q_step True fuel ?F s6 s7" unfolding s7_def by (rule step) (simp add: e6 e5)
  moreover have "q_step True fuel ?F (q_init h) s1" unfolding s1_def by (rule call)
  moreover have "q_step True fuel ?F s1 s2" unfolding s2_def by (rule pauser_lock) (simp_all add: s1)
  moreover have "q_step True fuel ?F s5 s6" unfolding s6_def by (rule stop) simp
  ultimately have "q_reach True fuel ?F h s7" unfolding q_reach_def
    by (meson rtranclp.rtrancl_into_rtrancl rtranclp.rtrancl_refl)
  moreover have "qok (q_leave (KernEnd r) s6) = qok s6" by (simp add: q_leave_def split: option.splits)
  then have "qok s7" "qmap s7 r = Some (Some 0)" "0 \<notin> qended s7" "qrun s7 = []" "qthreads s7 = (\<lambda>_. None)"
    using s2 by (simp_all add: e7 e6 e5 e4 e3)
  ultimately show ?thesis by (auto simp: q_drain_def)
qed

text \<open>
  A wake-up can be lost: when the program calls a kernel after the thread of the single-threaded
  scheduler found the queue empty and before it says that it stopped running, no second thread
  is started.  The kernel is then active and queued, no thread is left, and nothing the
  scheduler does will run it.
\<close>

theorem single_lost_wakeup:
  "\<exists>s. q_reach False fuel (single_step cg fuel wfn) h s \<and> qok s \<and> r \<in> set (qrun s) \<and>
     (\<exists>i. qmap s r = Some (Some i) \<and> is_active (qts s i)) \<and> qrunning s = 0 \<and> qthreads s = (\<lambda>_. None)"
proof -
  let ?F = "single_step cg fuel wfn"
  define s1 where "s1 = q_start (q_init h)"
  define s2 where "s2 = ?F 0 0 0 s1"
  define s3 where "s3 = q_callKernel r s2"
  define s4 where "s4 = ?F 0 0 0 s3"
  define s5 where "s5 = ?F 0 0 0 s4"
  have s1: "qthreads s1 = (\<lambda>_. None)(0 \<mapsto> PTop NullEnd)" "qrunning s1 = 1" "qrun s1 = []" "nqts s1 = 0" "qok s1"
    by (simp_all add: s1_def q_init_def q_start_def)
  have e2: "s2 = set_pc 0 (Some PEmpty) s1" using s1 by (simp add: s2_def single_step_def)
  have s3: "qthreads s3 = (\<lambda>_. None)(0 \<mapsto> PEmpty)" "qrunning s3 = 1" "qrun s3 = [r]" "qmap s3 r = Some (Some 0)"
      "is_active (qts s3 0)" "qok s3"
    using s1 qts_call [of r s2] by (simp_all add: s3_def e2 q_callKernel_def Let_def q_start_def)
  have e4: "s4 = set_pc 0 (Some (PTop NullEnd)) (s3\<lparr>qrunning := 0\<rparr>)" using s3 by (simp add: s4_def single_step_def)
  have e5: "s5 = set_pc 0 None s4" using s3 by (simp add: s5_def single_step_def e4)
  have step: "q_step False fuel ?F s (?F 0 0 0 s)" if "qthreads s 0 \<noteq> None" for s using that by (rule thread)
  have "q_step False fuel ?F (q_init h) s1" unfolding s1_def by (rule start)
  moreover have "q_step False fuel ?F s1 s2" unfolding s2_def by (rule step) (simp add: s1)
  moreover have "q_step False fuel ?F s2 s3" unfolding s3_def by (rule call)
  moreover have "q_step False fuel ?F s3 s4" unfolding s4_def by (rule step) (simp add: s3)
  moreover have "q_step False fuel ?F s4 s5" unfolding s5_def by (rule step) (simp add: e4)
  ultimately have "q_reach False fuel ?F h s5" unfolding q_reach_def
    by (meson rtranclp.rtrancl_into_rtrancl rtranclp.rtrancl_refl)
  moreover have "qthreads s5 = (\<lambda>_. None)" "qrunning s5 = 0" "qrun s5 = [r]" "qok s5"
      "\<exists>i. qmap s5 r = Some (Some i) \<and> is_active (qts s5 i)"
    using s3 by (auto simp: e5 e4)
  ultimately show ?thesis by auto
qed

text \<open>
  A kernel that finishes in the coroutine scheduler leaves the map, so that a wait for it that comes
  later fails an assertion; in the single-threaded scheduler it stays, and the wait finds it done.
\<close>

theorem wait_after_finish:
  assumes "qthreads s t = Some (PRes r i DeadEnd)" and "k_done fuel (qts s i) (qh s) = Some (Done (k, h))"
    and "qmap s r = Some (Some i)"
  shows "q_waitKernel r (koro_step nosteal cg fuel wfn c1 c2 t s) = Fault \<and>
    q_waitKernel r (single_step cg fuel wfn c1 c2 t s) = Done i \<and>
    is_done (qts (single_step cg fuel wfn c1 c2 t s) i)"
  using assms k_done_state [OF assms(2)]
  by (simp add: koro_step_def single_step_def q_waitKernel_def q_map_find_def q_done_def is_done_def)

definition finishing :: qsched where
  "finishing = set_pc 0 (Some (PRes 2 0 DeadEnd)) (q_callKernel 2 (q_init sample_heap))"

theorem wait_after_finish_witness:
  "q_waitKernel 2 (koro_step False (\<lambda>_ h. h) 1 (\<lambda>_ h. (NullEnd, h)) 0 0 0 finishing) = Fault"
proof -
  have k: "qts finishing 0 = k_active (new_kernel_t 2 sample_heap)" "qh finishing = sample_heap"
    using qts_call [of 2 "q_init sample_heap"] by (simp_all add: finishing_def q_init_def q_callKernel_def Let_def q_start_def)
  have "\<exists>k h. k_done 1 (qts finishing 0) (qh finishing) = Some (Done (k, h))"
    by (simp add: k k_done_def k_active_def new_kernel_t_def kernel_done_own_def sample_heap_def new_rt_kernel_def Let_def)
  then obtain k h where d: "k_done 1 (qts finishing 0) (qh finishing) = Some (Done (k, h))" by blast
  have "qthreads finishing 0 = Some (PRes 2 0 DeadEnd)" "qmap finishing 2 = Some (Some 0)"
    by (simp_all add: finishing_def q_init_def)
  from wait_after_finish [OF this(1) d this(2)] show ?thesis by blast
qed

text \<open>The thread tries again and again to lock the same kernel.\<close>

definition spins_on :: "nat \<Rightarrow> ptr \<Rightarrow> nat \<Rightarrow> qsched \<Rightarrow> bool" where
  "spins_on t r i s \<longleftrightarrow> qrunning s = 1 \<and> qmap s r = Some (Some i) \<and> lock (qts s i) = Some Pauser \<and>
     qthreads s t \<in> {Some (PTop (KernEnd r)), Some (PFind (KernEnd r)), Some (PTry r i)}"

lemma spins_step:
  assumes "spins_on t r i s"
  shows "spins_on t r i (koro_step nosteal cg fuel wfn c1 c2 t s) \<and>
    qh (koro_step nosteal cg fuel wfn c1 c2 t s) = qh s \<and> qrun (koro_step nosteal cg fuel wfn c1 c2 t s) = qrun s"
  using assms by (auto simp: spins_on_def koro_step_def q_map_find_def)

text \<open>
  In the coroutine scheduler a paused kernel holds up all others: once its turn has come, no number
  of steps of the main loop runs a kernel or changes the queue until it is resumed.
\<close>

theorem koro_pause_starves:
  assumes "qthreads s t = Some (PTry r i)" and "qrunning s = 1" and "qmap s r = Some (Some i)"
    and "lock (qts s i) = Some Pauser"
  shows "let s' = fold (\<lambda>(c1, c2). koro_step nosteal cg fuel wfn c1 c2 t) cs s in
    qh s' = qh s \<and> qrun s' = qrun s \<and> qthreads s' t \<noteq> None"
proof -
  have "spins_on t r i s \<Longrightarrow>
    spins_on t r i (fold (\<lambda>(c1, c2). koro_step nosteal cg fuel wfn c1 c2 t) cs s) \<and>
    qh (fold (\<lambda>(c1, c2). koro_step nosteal cg fuel wfn c1 c2 t) cs s) = qh s \<and>
    qrun (fold (\<lambda>(c1, c2). koro_step nosteal cg fuel wfn c1 c2 t) cs s) = qrun s"
    by (induction cs arbitrary: s) (auto simp: spins_step)
  moreover have "spins_on t r i s" using assms by (simp add: spins_on_def)
  ultimately show ?thesis by (auto simp: spins_on_def)
qed

definition spinning :: qsched where
  "spinning = set_pc 0 (Some (PTry 2 0)) (q_lock Pauser 0 (q_callKernel 2 (q_init sample_heap)))"

theorem koro_pause_starves_witness:
  "qrun (fold (\<lambda>(c1, c2). koro_step False (\<lambda>_ h. h) 1 (\<lambda>_ h. (NullEnd, h)) c1 c2 0) (replicate 100 (0, 0)) spinning) = [2]"
proof -
  have "qthreads spinning 0 = Some (PTry 2 0)" "qrunning spinning = 1" "qmap spinning 2 = Some (Some 0)"
    "lock (qts spinning 0) = Some Pauser" "qrun spinning = [2]"
    by (simp_all add: spinning_def q_init_def q_lock_def)
  from koro_pause_starves [OF this(1-4), of False "\<lambda>_ h. h" 1 "\<lambda>_ h. (NullEnd, h)" "replicate 100 (0, 0)"] this(5)
  show ?thesis by (metis (no_types, lifting))
qed

text \<open>Two kernels that block each other, with the first about to be looked up.\<close>

definition ping_pong :: "nat \<Rightarrow> ptr \<Rightarrow> ptr \<Rightarrow> qsched \<Rightarrow> bool" where
  "ping_pong t x y s \<longleftrightarrow> qrunning s = 1 \<and> qthreads s t = Some (PFind (KernEnd x)) \<and> x \<noteq> y \<and>
     (\<forall>z\<in>{x, y}. workfn_code (rtk (qh s) z) \<noteq> None) \<and>
     (\<exists>i j. i \<noteq> j \<and> qmap s x = Some (Some i) \<and> qmap s y = Some (Some j) \<and>
       (\<forall>k\<in>{qts s i, qts s j}. is_active k \<and> lock k = None \<and> \<not> d4r_cb_on k \<and> \<not> niter_cb_on k) \<and>
       rt_kernel (qts s i) = x \<and> rt_kernel (qts s j) = y)"

lemma work_code:
  assumes "\<not> d4r_cb_on k" "\<not> niter_cb_on k" and "\<And>h. wfn (rt_kernel k) h = (KernEnd y, h)"
  shows "\<exists>h'. kernel_work wfn ncb c1 c2 k h = Done (KernEnd y, h') \<and>
    (\<forall>z. workfn_code (rtk h' z) = workfn_code (rtk h z))"
  using assms by (simp add: kernel_work_def Let_def)

lemma ping_pong_round:
  assumes p: "ping_pong t x y s" and w: "\<And>h. wfn x h = (KernEnd y, h)"
  shows "\<exists>s'. (koro_step False cg fuel wfn c1 c2 t ^^ 7) s = s' \<and> ping_pong t y x s' \<and>
    length (qrun s') = Suc (length (qrun s))"
proof -
  let ?F = "koro_step False cg fuel wfn c1 c2 t"
  from p obtain i j where s: "qrunning s = 1" "qthreads s t = Some (PFind (KernEnd x))" "x \<noteq> y"
    "i \<noteq> j" "qmap s x = Some (Some i)" "qmap s y = Some (Some j)" "rt_kernel (qts s i) = x" "rt_kernel (qts s j) = y"
    and code_ne: "workfn_code (rtk (qh s) x) \<noteq> None" "workfn_code (rtk (qh s) y) \<noteq> None"
    and ki: "is_active (qts s i)" "lock (qts s i) = None" "\<not> d4r_cb_on (qts s i)" "\<not> niter_cb_on (qts s i)"
    and kj: "is_active (qts s j)" "lock (qts s j) = None" "\<not> d4r_cb_on (qts s j)" "\<not> niter_cb_on (qts s j)"
    unfolding ping_pong_def by auto
  from code_ne obtain cx cy where code: "workfn_code (rtk (qh s) x) = Some cx" "workfn_code (rtk (qh s) y) = Some cy" by auto
  define L where "L = (qts s i)\<lparr>lock := Some (TaskOf t)\<rparr>"
  obtain h where h: "kernel_work wfn (\<lambda>_ b h. Done (b, h)) c1 c2 L (qh s) = Done (KernEnd y, h)"
    "\<And>z. workfn_code (rtk h z) = workfn_code (rtk (qh s) z)"
    using work_code [of L wfn y "\<lambda>_ b h. Done (b, h)" c1 c2 "qh s"] ki s w by (auto simp: L_def)
  define s1 where "s1 = set_pc t (Some (PTry x i)) s"
  define s2 where "s2 = set_pc t (Some (PActive x i)) (q_lock (TaskOf t) i s1)"
  define s3 where "s3 = set_pc t (Some (PWork x i)) s2"
  define s4 where "s4 = set_pc t (Some (PRes x i (KernEnd y))) (s3\<lparr>qh := h\<rparr>)"
  define s5 where "s5 = set_pc t (Some (PPush x i (KernEnd y) True)) s4"
  define s6 where "s6 = set_pc t (Some (PTop (KernEnd y))) (q_unlock i (q_push x s5))"
  define s7 where "s7 = set_pc t (Some (PFind (KernEnd y))) s6"
  have act: "\<not> is_done (qts s i)" using ki(1) by (simp add: is_done_def is_active_def)
  have "?F s = s1" using s by (simp add: koro_step_def s1_def q_map_find_def)
  moreover have "?F s1 = s2" using ki by (simp add: koro_step_def s1_def s2_def)
  moreover have "?F s2 = s3" using ki code by (simp add: koro_step_def s1_def s2_def s3_def q_lock_def is_active_def q_codegen_def)
  moreover have "?F s3 = s4"
    using h(1) by (simp add: koro_step_def s1_def s2_def s3_def s4_def q_lock_def q_work_def L_def)
  moreover have "?F s4 = s5" by (simp add: koro_step_def s4_def s5_def)
  moreover have "?F s5 = s6" using s(3) act
    by (simp add: koro_step_def s1_def s2_def s3_def s4_def s5_def s6_def q_lock_def is_done_def)
  moreover have "?F s6 = s7" using s(1) by (simp add: koro_step_def s1_def s2_def s3_def s4_def s5_def s6_def s7_def q_lock_def q_unlock_def)
  ultimately have "(?F ^^ 7) s = s7" by (simp add: numeral_eq_Suc)
  moreover have "ping_pong t y x s7"
    unfolding ping_pong_def
    using s code ki kj h(2)
    by (auto simp: s1_def s2_def s3_def s4_def s5_def s6_def s7_def q_lock_def q_unlock_def is_active_def
      intro!: exI [of _ j] exI [of _ i])
  moreover have "length (qrun s7) = Suc (length (qrun s))"
    by (simp add: s1_def s2_def s3_def s4_def s5_def s6_def s7_def q_lock_def q_unlock_def)
  ultimately show ?thesis by blast
qed

lemma koro_steps: "(q_step False fuel (koro_step nosteal cg fuel wfn))\<^sup>*\<^sup>* s ((koro_step nosteal cg fuel wfn c1 c2 t ^^ n) s)"
proof (induction n)
  case (Suc n)
  let ?s = "(koro_step nosteal cg fuel wfn c1 c2 t ^^ n) s"
  have "(q_step False fuel (koro_step nosteal cg fuel wfn))\<^sup>*\<^sup>* ?s (koro_step nosteal cg fuel wfn c1 c2 t ?s)"
  proof (cases "qthreads ?s t")
    case None
    then show ?thesis by (simp add: koro_step_def)
  next
    case (Some pc)
    then show ?thesis by (intro r_into_rtranclp thread) simp
  qed
  with Suc show ?case by simp
qed simp

lemma grows_lemma:
  assumes "ping_pong t x y s" and "\<And>h. wfn x h = (KernEnd y, h)" "\<And>h. wfn y h = (KernEnd x, h)"
  shows "\<exists>s' x' y'. (q_step False fuel (koro_step False cg fuel wfn))\<^sup>*\<^sup>* s s' \<and> ping_pong t x' y' s' \<and> {x', y'} = {x, y} \<and>
    length (qrun s') = n + length (qrun s)"
proof (induction n)
  case 0
  then show ?case using assms(1) by auto
next
  case (Suc n)
  then obtain s' x' y' where s': "(q_step False fuel (koro_step False cg fuel wfn))\<^sup>*\<^sup>* s s'" "ping_pong t x' y' s'"
    "{x', y'} = {x, y}" "length (qrun s') = n + length (qrun s)" by blast
  have "x' \<noteq> y'" using s'(2) by (simp add: ping_pong_def)
  then have "\<And>h. wfn x' h = (KernEnd y', h)" using s'(3) assms(2,3) by (auto simp: doubleton_eq_iff)
  from ping_pong_round [of t x' y' s' wfn cg fuel 0 0, OF s'(2) this]
  have "ping_pong t y' x' ((koro_step False cg fuel wfn 0 0 t ^^ 7) s')"
    "length (qrun ((koro_step False cg fuel wfn 0 0 t ^^ 7) s')) = Suc (n + length (qrun s))" using s'(4) by auto
  moreover have "(q_step False fuel (koro_step False cg fuel wfn))\<^sup>*\<^sup>* s ((koro_step False cg fuel wfn 0 0 t ^^ 7) s')"
    using s'(1) koro_steps by (rule rtranclp_trans)
  ultimately show ?case using s'(3) by (intro exI [of _ "(koro_step False cg fuel wfn 0 0 t ^^ 7) s'"] exI [of _ y'] exI [of _ x']) auto
qed

text \<open>
  The queue of the coroutine scheduler grows without bound: two kernels that always block on each
  other are run in turn without being taken from the queue, while each round puts one of them
  into it.
\<close>

theorem koro_queue_grows:
  assumes "x \<noteq> y" and "\<forall>h. wfn x h = (KernEnd y, h) \<and> wfn y h = (KernEnd x, h)"
    and "workfn_code (rtk h x) \<noteq> None" and "workfn_code (rtk h y) \<noteq> None"
  shows "\<exists>s. q_reach False fuel (koro_step False cg fuel wfn) h s \<and> n \<le> length (qrun s)"
proof -
  let ?F = "koro_step False cg fuel wfn"
  define s1 where "s1 = q_callKernel y (q_callKernel x (q_init h))"
  define s2 where "s2 = ?F 0 0 0 s1"
  have s1: "qthreads s1 0 = Some (PTop NullEnd)" "qrunning s1 = 1" "qrun s1 = [x, y]" "qmap s1 x = Some (Some 0)"
    "qmap s1 y = Some (Some 1)" "qts s1 0 = k_active (new_kernel_t x h)" "qts s1 1 = k_active (new_kernel_t y h)" "qh s1 = h"
    using assms(1) by (simp_all add: s1_def q_init_def q_callKernel_def Let_def q_start_def)
  have e2: "s2 = set_pc 0 (Some (PFind (KernEnd x))) (s1\<lparr>qrun := [y]\<rparr>)" using s1 by (simp add: s2_def koro_step_def)
  have "ping_pong 0 x y s2" unfolding ping_pong_def
    using s1 assms by (auto simp: e2 new_kernel_t_def k_active_def is_active_def)
  from grows_lemma [where wfn = wfn and fuel = fuel and cg = cg and n = n, OF this] assms(2) obtain s where
    s: "(q_step False fuel ?F)\<^sup>*\<^sup>* s2 s" "length (qrun s) = n + length (qrun s2)" by blast
  have "q_step False fuel ?F (q_init h) (q_callKernel x (q_init h))" "q_step False fuel ?F (q_callKernel x (q_init h)) s1"
    unfolding s1_def by (rule call)+
  moreover have "q_step False fuel ?F s1 s2" unfolding s2_def by (rule thread) (simp add: s1)
  ultimately have "(q_step False fuel ?F)\<^sup>*\<^sup>* (q_init h) s" using s(1)
    by (meson converse_rtranclp_into_rtranclp)
  then show ?thesis using s(2) by (auto simp: q_reach_def)
qed

theorem koro_queue_grows_witness:
  "\<exists>s. q_reach False 1 (koro_step False (\<lambda>_ h. h) 1 (\<lambda>r h. (KernEnd (if r = 1 then 2 else 1), h)))
     (upd_rtk 1 (\<lambda>K. K\<lparr>workfn_code := Some 9\<rparr>) (upd_rtk 2 (\<lambda>K. K\<lparr>workfn_code := Some 9\<rparr>) sample_heap)) s \<and>
     1000 \<le> length (qrun s)"
  by (rule koro_queue_grows [of 1 2]) simp_all

end
