(* ===== verification/Skir_Runtime.thy ===== *)
theory Skir_Runtime
  imports Runtime_Graph
begin

section \<open>The runtime\<close>

text \<open>
  \<open>lib/SKIR/SKIRRuntime.cpp\<close>: what the instructions of the program do (kernel, stream, call,
  uncall, become, wait) and how requests from outside are served.  Arguments of the program that are
  null-terminated arrays are lists of pointers; an array without its null pointer is read past its
  end, which is a fault.
\<close>

record runtime =
  sg :: graph
  next_stream_id :: uint32
  fn_map :: "ptr \<Rightarrow> ptr option"
  mod_fn :: "string \<Rightarrow> ptr option"
  addr_map :: "uint32 \<Rightarrow> ptr option"

abbreviation rh :: "runtime \<Rightarrow> heap" where "rh R \<equiv> gh (sg R)"

definition upd_rh :: "(heap \<Rightarrow> heap) \<Rightarrow> runtime \<Rightarrow> runtime" where
  "upd_rh f R = R\<lparr>sg := upd_gh f (sg R)\<rparr>"

definition upd_rg :: "(graph \<Rightarrow> graph) \<Rightarrow> runtime \<Rightarrow> runtime" where
  "upd_rg f R = R\<lparr>sg := f (sg R)\<rparr>"

definition null_terminated :: "ptr option list option \<Rightarrow> (unit, ptr list) outcome" where
  "null_terminated a =
     (case a of
        None \<Rightarrow> Done []
      | Some ps \<Rightarrow> if None \<in> set ps then Done (map the (takeWhile (\<lambda>p. p \<noteq> None) ps)) else Fault)"

subsection \<open>Kernels and streams\<close>

definition nextKernelID :: "runtime \<Rightarrow> uint32 \<times> runtime" where
  "nextKernelID R = (next_id (gw (sg R)), upd_rg (\<lambda>g. g\<lparr>gw := (gw g)\<lparr>next_id := next_id (gw g) + 1\<rparr>\<rparr>) R)"

definition handleKernelInst :: "rt_kernel \<Rightarrow> ptr \<Rightarrow> ptr option \<Rightarrow> runtime \<Rightarrow> ptr \<times> runtime" where
  "handleKernelInst junk work args R =
     (let (i, R) = nextKernelID R; k = fresh (rh R) in
      (k, upd_rh (\<lambda>h. upd_rtk k (\<lambda>_. (new_rt_kernel junk i)\<lparr>base_work := Some work, work_fn := Some work, kstate := args\<rparr>)
            (h\<lparr>fresh := Suc k\<rparr>)) R))"

definition handleKernelInst_fn :: "rt_kernel \<Rightarrow> ptr \<Rightarrow> ptr option \<Rightarrow> runtime \<Rightarrow> (unit, ptr \<times> runtime) outcome" where
  "handleKernelInst_fn junk work args R =
     (case fn_map R work of None \<Rightarrow> Fault | Some w \<Rightarrow> Done (handleKernelInst junk w args R))"

definition newStream :: "runtime \<Rightarrow> ptr \<times> runtime" where
  "newStream R =
     (let q = fresh (rh R) in
      (q, (upd_rh (\<lambda>h. upd_rts q (\<lambda>_. new_rt_stream (next_stream_id R)) (h\<lparr>fresh := Suc q\<rparr>)) R)
            \<lparr>next_stream_id := next_stream_id R + 1\<rparr>))"

definition handleStreamInst :: "uint32 \<Rightarrow> runtime \<Rightarrow> ptr \<times> runtime" where
  "handleStreamInst esz R =
     (let (q, R) = newStream R in
      (q, upd_rh (upd_rts q (\<lambda>s. s\<lparr>rs_type := NATIVE, rs_elem_size := esz\<rparr>)) R))"

subsection \<open>Calling and uncalling\<close>

text \<open>
  \<open>call\<close> is \<open>callKernel\<close> of the stream graph, \<open>g_callKernel\<close> with its parameters, and \<open>remove\<close> is
  \<open>removeKernel\<close> of a scheduler, which may fail an assertion.
\<close>

definition set_streams :: "ptr \<Rightarrow> ptr list \<Rightarrow> ptr list \<Rightarrow> heap \<Rightarrow> heap" where
  "set_streams k ins outs h =
     upd_rtk k (\<lambda>K. K\<lparr>nins := length ins, nouts := length outs, rt_ins := Some ins, rt_outs := Some outs\<rparr>) h"

definition handleCallInst :: "(ptr \<Rightarrow> graph \<Rightarrow> (unit, graph) outcome) \<Rightarrow> ptr \<Rightarrow> ptr option list option \<Rightarrow>
    ptr option list option \<Rightarrow> runtime \<Rightarrow> (unit, runtime) outcome" where
  "handleCallInst call k is os R =
     bind_out (null_terminated is) (\<lambda>ins.
     bind_out (null_terminated os) (\<lambda>outs.
       (let R = upd_rh (set_streams k ins outs) R in
        bind_out (call k (sg R)) (\<lambda>g. Done (R\<lparr>sg := g\<rparr>)))))"

fun disconnect :: "(skir_stream_t \<Rightarrow> endp) \<Rightarrow> (skir_stream_t \<Rightarrow> skir_stream_t) \<Rightarrow> ptr \<Rightarrow> ptr list \<Rightarrow> heap \<Rightarrow> (unit, heap) outcome" where
  "disconnect get open k [] h = Done h"
| "disconnect get open k (s # ss) h =
     assert_out (get (hdr h s) = KernEnd k) (disconnect get open k ss (upd_hdr s open h))"

definition forget_streams :: "ptr \<Rightarrow> heap \<Rightarrow> heap" where
  "forget_streams k h =
     upd_rtk k (\<lambda>K. K\<lparr>impl_ins := None, impl_outs := None, rt_ins := None, rt_outs := None\<rparr>) h"

definition drop_kernel :: "(ptr \<Rightarrow> ptr \<Rightarrow> graph \<Rightarrow> (unit, graph) outcome) \<Rightarrow> ptr \<Rightarrow> runtime \<Rightarrow> (unit, runtime) outcome" where
  "drop_kernel remove k R =
     (case sched (rtk (rh R) k) of
        None \<Rightarrow> Fault
      | Some s \<Rightarrow> bind_out (remove s k (sg R)) (\<lambda>g. Done (upd_rh (forget_streams k) (R\<lparr>sg := g_removeKernel k g\<rparr>))))"

definition handleUncallInst :: "(ptr \<Rightarrow> ptr \<Rightarrow> graph \<Rightarrow> (unit, graph) outcome) \<Rightarrow> ptr \<Rightarrow> runtime \<Rightarrow> (unit, runtime) outcome" where
  "handleUncallInst remove k R =
     bind_out (null_terminated (impl_ins (rtk (rh R) k))) (\<lambda>is.
     bind_out (disconnect dst (\<lambda>s. s\<lparr>dst := OpenEnd\<rparr>) k is (rh R)) (\<lambda>h.
     bind_out (null_terminated (impl_outs (rtk h k))) (\<lambda>os.
     bind_out (disconnect src (\<lambda>s. s\<lparr>src := OpenEnd\<rparr>) k os h) (\<lambda>h.
       drop_kernel remove k (upd_rh (\<lambda>_. h) R)))))"

text \<open>
  One of the loops of \<open>handleBecomeInst\<close>: the first end that is not null is the old kernel, and all
  others must be the same.
\<close>

fun take_over :: "(skir_stream_t \<Rightarrow> endp) \<Rightarrow> (skir_stream_t \<Rightarrow> skir_stream_t) \<Rightarrow> ptr list \<Rightarrow>
    endp \<times> ptr option list \<times> heap \<Rightarrow> (unit, endp \<times> ptr option list \<times> heap) outcome" where
  "take_over get open [] st = Done st"
| "take_over get open (s # ss) (old, qs, h) =
     assert_out (old = NullEnd \<or> old = get (hdr h s))
       (take_over get open ss (get (hdr h s), qs @ [rs (hdr h s)], upd_hdr s open h))"

text \<open>The copies of the first \<open>n\<close> streams; an index beyond the vector and a null pointer, which the call
  that follows would dereference, are faults.\<close>

definition copy_streams :: "nat \<Rightarrow> ptr option list \<Rightarrow> (unit, ptr list) outcome" where
  "copy_streams n qs = (if n \<le> length qs \<and> None \<notin> set (take n qs) then Done (map the (take n qs)) else Fault)"

definition handleBecomeInst :: "(ptr \<Rightarrow> graph \<Rightarrow> (unit, graph) outcome) \<Rightarrow> (ptr \<Rightarrow> ptr \<Rightarrow> graph \<Rightarrow> (unit, graph) outcome) \<Rightarrow> ptr \<Rightarrow>
    ptr option list option \<Rightarrow> ptr option list option \<Rightarrow> runtime \<Rightarrow> (unit, runtime) outcome" where
  "handleBecomeInst call remove k is os R =
     bind_out (null_terminated is) (\<lambda>iis.
     bind_out (null_terminated os) (\<lambda>ios.
     bind_out (take_over dst (\<lambda>s. s\<lparr>dst := OpenEnd\<rparr>) iis (NullEnd, [], rh R)) (\<lambda>(old, ins, h).
     bind_out (take_over src (\<lambda>s. s\<lparr>src := OpenEnd\<rparr>) ios (old, [], h)) (\<lambda>(old, outs, h).
       (case old of
          KernEnd o_k \<Rightarrow>
            bind_out (drop_kernel remove o_k (upd_rh (\<lambda>_. h) R)) (\<lambda>R.
            bind_out (copy_streams (nins (rtk (rh R) o_k)) ins) (\<lambda>qs.
            bind_out (copy_streams (nouts (rtk (rh R) o_k)) outs) (\<lambda>ps.
              (let R = upd_rh (set_streams k qs ps) R in
               bind_out (call k (sg R)) (\<lambda>g. Done (R\<lparr>sg := g\<rparr>))))))
        | _ \<Rightarrow> Fault)))))"

definition handleWaitInst :: "nat \<Rightarrow> ptr \<Rightarrow> runtime \<Rightarrow> (ptr option \<times> ptr) list option" where
  "handleWaitInst fuel k R = g_waitKernel fuel (rh R) k"

subsection \<open>Requests from outside\<close>

text \<open>
  The messages of \<open>events.proto\<close> that \<open>onEvent\<close> knows, decoded; a field that is optional and read
  only after a test is an option.  \<open>Unknown\<close> is any other type line.  A response carries the
  identifier of its request.
\<close>

datatype state_type = GET | PUT

datatype event =
    Die
  | EchoRequest uint32 string
  | IncludeModuleRequest uint32 bool
  | RunModuleRequest uint32
  | CallRequest uint32 uint32 "uint32 list" "uint32 list" "bool option"
  | KernelRequest uint32 string uint32
  | StreamRequest uint32 int uint32 "uint32 option"
  | ShmRequest uint32 uint32 uint32
  | StateRequest uint32 "state_type option" "uint32 option" "uint32 option" "byte list option"
  | PauseRequest uint32 uint32 bool
  | DotRequest uint32
  | Unknown

datatype response_data = NoData | DataUint uint32 | DataString string

datatype response_type = OK_R | ERR_R | UINT32_R | STRING_R

record response =
  res_id :: uint32
  res_type :: response_type
  res_data :: response_data

text \<open>The parameters that stand for the rest of the program.\<close>

record env =
  env_junk :: rt_kernel
  env_call :: "ptr \<Rightarrow> graph \<Rightarrow> (unit, graph) outcome"
  env_pause :: "ptr \<Rightarrow> graph \<Rightarrow> (unit, graph) outcome"
  env_unpause :: "ptr \<Rightarrow> graph \<Rightarrow> (unit, graph) outcome"
  env_include :: "uint32 \<Rightarrow> runtime \<Rightarrow> runtime"
  env_run :: "uint32 \<Rightarrow> runtime \<Rightarrow> runtime"
  env_dot :: "graph \<Rightarrow> string"

definition map_handle :: "uint32 \<Rightarrow> ptr option \<Rightarrow> runtime \<Rightarrow> runtime" where
  "map_handle i p R = R\<lparr>addr_map := (addr_map R)(i := p)\<rparr>"

definition reply :: "uint32 \<Rightarrow> response_type \<Rightarrow> response_data \<Rightarrow> response option" where
  "reply i t d = Some \<lparr>res_id = i, res_type = t, res_data = d\<rparr>"

definition call_event :: "env \<Rightarrow> uint32 \<Rightarrow> uint32 list \<Rightarrow> uint32 list \<Rightarrow> bool option \<Rightarrow> runtime \<Rightarrow> (unit, runtime) outcome" where
  "call_event e kn is os oo R =
     (case addr_map R kn of
        None \<Rightarrow> Fault
      | Some k \<Rightarrow>
          (let R = (case oo of None \<Rightarrow> R | Some b \<Rightarrow> upd_rh (upd_rtk k (\<lambda>K. K\<lparr>opt_only := b\<rparr>)) R) in
           handleCallInst (env_call e) k (Some (map (addr_map R) is @ [None])) (Some (map (addr_map R) os @ [None])) R))"

text \<open>A new shared mapping or a block that holds the bytes of the request.\<close>

definition map_shared :: "byte list \<Rightarrow> runtime \<Rightarrow> ptr \<times> runtime" where
  "map_shared bs R =
     (let p = fresh (rh R) in (p, upd_rh (\<lambda>h. h\<lparr>fresh := Suc p, mem := (mem h)(p := bs)\<rparr>) R))"

text \<open>\<open>memcpy\<close> of as many bytes as the request says; with fewer in it, the read is out of bounds.\<close>

definition state_event :: "uint32 \<Rightarrow> state_type option \<Rightarrow> uint32 option \<Rightarrow> uint32 option \<Rightarrow> byte list option \<Rightarrow>
    runtime \<Rightarrow> (unit, response option \<times> bool \<times> runtime) outcome" where
  "state_event i ty len data_id bytes R =
     (if ty = None \<or> ty = Some PUT then
        (case len of
           None \<Rightarrow> Fault
         | Some n \<Rightarrow>
             (case data_id of
                Some d \<Rightarrow> assert_out (bytes = None) (Done (reply i UINT32_R (DataUint d), False, R))
              | None \<Rightarrow>
                  (case bytes of
                     None \<Rightarrow> Fault
                   | Some bs \<Rightarrow>
                       if unat n > length bs then Fault
                       else (let (p, R) = map_shared (take (unat n) bs) R in
                        Done (reply i UINT32_R (DataUint i), False, map_handle i (Some p) R)))))
      else Fault)"

definition kernel_event :: "env \<Rightarrow> uint32 \<Rightarrow> string \<Rightarrow> uint32 \<Rightarrow> runtime \<Rightarrow> (unit, response option \<times> bool \<times> runtime) outcome" where
  "kernel_event e i work args R =
     (case mod_fn R work of
        None \<Rightarrow> Done (reply i ERR_R
            (DataString (''KernelRequest: workfn '' @ [CHR 0x27] @ work @ [CHR 0x27] @ '' not found'' @ [CHR 0x0A])), False, R)
      | Some w \<Rightarrow>
          (let (k, R) = handleKernelInst (env_junk e) w (addr_map R args) R in
           Done (reply i UINT32_R (DataUint i), False, map_handle i (Some k) R)))"

definition stream_event :: "uint32 \<Rightarrow> int \<Rightarrow> uint32 \<Rightarrow> uint32 option \<Rightarrow> runtime \<Rightarrow> (unit, response option \<times> bool \<times> runtime) outcome" where
  "stream_event i ty esz num R =
     (let (q, R) = handleStreamInst esz R;
          R = upd_rh (upd_rts q (\<lambda>s. s\<lparr>rs_type := ty\<rparr>)) R;
          R = (case num of None \<Rightarrow> R | Some j \<Rightarrow> upd_rh (upd_rts q (\<lambda>s. s\<lparr>rs_id := j\<rparr>)) R) in
      Done (reply i UINT32_R (DataUint i), False, map_handle i (Some q) R))"

text \<open>The shared memory object of that name is one that did not exist before.\<close>

definition shm_event :: "uint32 \<Rightarrow> uint32 \<Rightarrow> uint32 \<Rightarrow> runtime \<Rightarrow> (unit, response option \<times> bool \<times> runtime) outcome" where
  "shm_event i len shm_id R =
     (let (p, R) = map_shared (replicate (unat len) 0) R in
      Done (reply i UINT32_R (DataUint shm_id), False, map_handle shm_id (Some p) R))"

definition pause_event :: "env \<Rightarrow> uint32 \<Rightarrow> bool \<Rightarrow> runtime \<Rightarrow> (unit, response option \<times> bool \<times> runtime) outcome" where
  "pause_event e kn pause R =
     bind_out (if pause then env_pause e (unat kn) (sg R) else env_unpause e (unat kn) (sg R))
       (\<lambda>g. Done (None, False, R\<lparr>sg := g\<rparr>))"

definition onEvent :: "env \<Rightarrow> event \<Rightarrow> runtime \<Rightarrow> (unit, response option \<times> bool \<times> runtime) outcome" where
  "onEvent e ev R =
     (case ev of
        Die \<Rightarrow> Done (None, True, R)
      | EchoRequest i str \<Rightarrow> Done (reply i STRING_R (DataString str), False, R)
      | IncludeModuleRequest i parsed \<Rightarrow>
          Done (reply i OK_R NoData, False, if parsed then env_include e i R else R)
      | RunModuleRequest i \<Rightarrow> Done (None, True, env_run e i R)
      | CallRequest i kn is os oo \<Rightarrow>
          bind_out (call_event e kn is os oo R) (\<lambda>R. Done (reply i OK_R NoData, False, R))
      | KernelRequest i work args \<Rightarrow>
          kernel_event e i work args R
      | StreamRequest i ty esz num \<Rightarrow>
          stream_event i ty esz num R
      | ShmRequest i len shm_id \<Rightarrow>
          shm_event i len shm_id R
      | StateRequest i ty len data_id bytes \<Rightarrow> state_event i ty len data_id bytes R
      | PauseRequest i kn pause \<Rightarrow>
          pause_event e kn pause R
      | DotRequest i \<Rightarrow> Done (reply i OK_R (DataString (env_dot e (sg R))), False, R)
      | Unknown \<Rightarrow> Done (None, False, R))"

subsection \<open>Facts\<close>

lemmas onEvent_defs = onEvent_def kernel_event_def stream_event_def shm_event_def pause_event_def

lemma null_terminated_ids:
  "null_terminated (Some (ps @ [None])) = Done (map the (takeWhile (\<lambda>p. p \<noteq> None) ps))"
  by (induction ps) (auto simp: null_terminated_def)

lemma null_terminated_all: "null_terminated (Some (map Some qs @ [None])) = Done qs"
  by (simp only: null_terminated_ids) (induction qs; simp)

lemma upd_rh_simps [simp]:
  "rh (upd_rh f R) = f (rh R)" "addr_map (upd_rh f R) = addr_map R" "mod_fn (upd_rh f R) = mod_fn R"
  "addr_map (map_handle i p R) = (addr_map R)(i := p)" "sg (map_handle i p R) = sg R" "mod_fn (map_handle i p R) = mod_fn R"
  "id2kernel (sg (upd_rh f R)) = id2kernel (sg R)"
  by (simp_all add: upd_rh_def upd_gh_def upd_wh_def map_handle_def)

lemma null_terminated_stop: "null_terminated (Some (ps @ None # qs @ [None])) = null_terminated (Some (ps @ [None]))"
  by (induction ps) (auto simp: null_terminated_def)

text \<open>An identifier that is not known ends the list of streams.\<close>

lemma call_event_truncates:
  assumes "addr_map R kn = Some k" and "addr_map R i = None"
  shows "call_event e kn (is @ i # js) os None R = call_event e kn is os None R"
  using assms by (simp add: call_event_def handleCallInst_def null_terminated_stop)

fun run_events :: "env \<Rightarrow> event list \<Rightarrow> runtime \<Rightarrow> (unit, runtime) outcome" where
  "run_events e [] R = Done R"
| "run_events e (ev # evs) R = bind_out (onEvent e ev R) (\<lambda>(_, _, R). run_events e evs R)"

definition stream_requests :: "uint32 list \<Rightarrow> uint32 list \<Rightarrow> event list" where
  "stream_requests ids sizes = map (\<lambda>(i, n). StreamRequest i NATIVE n None) (zip ids sizes)"

text \<open>What a list of stream requests leaves behind.\<close>

lemma streams_lemma:
  assumes "length ids = length sizes" and "distinct ids"
  shows "\<exists>R' qs. run_events e (stream_requests ids sizes) R = Done R' \<and> map (addr_map R') ids = map Some qs \<and>
    distinct qs \<and> (\<forall>q\<in>set qs. fresh (rh R) \<le> q \<and> q < fresh (rh R')) \<and> fresh (rh R) \<le> fresh (rh R') \<and>
    map (\<lambda>q. (rs_type (rts (rh R') q), rs_elem_size (rts (rh R') q))) qs = map (Pair NATIVE) sizes \<and>
    (\<forall>i. i \<notin> set ids \<longrightarrow> addr_map R' i = addr_map R i) \<and> rtk (rh R') = rtk (rh R) \<and>
    (\<forall>q<fresh (rh R). rts (rh R') q = rts (rh R) q)"
  using assms
proof (induction ids sizes arbitrary: R rule: list_induct2)
  case Nil
  then show ?case by (simp add: stream_requests_def)
next
  case (Cons i ids n sizes)
  define q where "q = fresh (rh R)"
  obtain R1 where ev: "\<exists>r. onEvent e (StreamRequest i NATIVE n None) R = Done (r, False, R1)"
    and r1: "addr_map R1 = (addr_map R)(i \<mapsto> q)" "fresh (rh R1) = Suc q" "rtk (rh R1) = rtk (rh R)"
      "rs_type (rts (rh R1) q) = NATIVE" "rs_elem_size (rts (rh R1) q) = n" "\<forall>p<q. rts (rh R1) p = rts (rh R) p"
    by (simp add: onEvent_defs handleStreamInst_def newStream_def Let_def reply_def q_def)
  from Cons.IH [of R1] Cons.prems obtain R' qs where
    R': "run_events e (stream_requests ids sizes) R1 = Done R'" "map (addr_map R') ids = map Some qs" "distinct qs"
      "\<forall>q\<in>set qs. fresh (rh R1) \<le> q \<and> q < fresh (rh R')" "fresh (rh R1) \<le> fresh (rh R')"
      "map (\<lambda>q. (rs_type (rts (rh R') q), rs_elem_size (rts (rh R') q))) qs = map (Pair NATIVE) sizes"
      "\<forall>i. i \<notin> set ids \<longrightarrow> addr_map R' i = addr_map R1 i" "rtk (rh R') = rtk (rh R1)"
      "\<forall>q<fresh (rh R1). rts (rh R') q = rts (rh R1) q" by auto
  show ?case
  proof (intro exI [of _ R'] exI [of _ "q # qs"] conjI)
    show "run_events e (stream_requests (i # ids) (n # sizes)) R = Done R'"
      using ev R'(1) by (auto simp: stream_requests_def)
  qed (use R' r1 Cons.prems in \<open>auto simp: q_def Suc_le_eq\<close>)
qed

subsection \<open>A session\<close>

lemma session_lemma:
  assumes "mod_fn R work = Some w" and "length ids = length sizes" and "distinct (i # ids)"
  shows "\<exists>R' k qs. run_events e (KernelRequest i work a # stream_requests ids sizes) R = Done R' \<and>
    addr_map R' i = Some k \<and> map (addr_map R') ids = map Some qs \<and> distinct (k # qs) \<and>
    base_work (rtk (rh R') k) = Some w \<and> kstate (rtk (rh R') k) = addr_map R a \<and>
    map (\<lambda>q. (rs_type (rts (rh R') q), rs_elem_size (rts (rh R') q))) qs = map (Pair NATIVE) sizes"
proof -
  define k where "k = fresh (rh R)"
  obtain R1 where ev: "\<exists>r. onEvent e (KernelRequest i work a) R = Done (r, False, R1)"
    and r1: "addr_map R1 = (addr_map R)(i \<mapsto> k)" "fresh (rh R1) = Suc k" "base_work (rtk (rh R1) k) = Some w"
      "kstate (rtk (rh R1) k) = addr_map R a"
    using assms(1) by (simp add: onEvent_defs handleKernelInst_def nextKernelID_def Let_def reply_def k_def upd_rg_def upd_rh_def
      upd_gh_def upd_wh_def map_handle_def)
  obtain R' qs where
    R': "run_events e (stream_requests ids sizes) R1 = Done R'" "map (addr_map R') ids = map Some qs" "distinct qs"
      "\<forall>q\<in>set qs. fresh (rh R1) \<le> q"
      "map (\<lambda>q. (rs_type (rts (rh R') q), rs_elem_size (rts (rh R') q))) qs = map (Pair NATIVE) sizes"
      "\<forall>i. i \<notin> set ids \<longrightarrow> addr_map R' i = addr_map R1 i" "rtk (rh R') = rtk (rh R1)"
    using streams_lemma [of ids sizes e R1] assms(2,3) by auto
  show ?thesis
    using ev R' r1 assms(3) by (intro exI [of _ R'] exI [of _ k] exI [of _ qs]) auto
qed

text \<open>
  C28. A client that requests a kernel and some streams and then calls the kernel on identifiers of its
  requests gets what it asked for: the kernel has the work function and the argument it named,
  the streams are different and of the element sizes it gave, and the stream graph is called with
  the kernel connected to exactly these streams, in order.
\<close>

theorem requests_build_kernel:
  assumes "mod_fn R work = Some w" and "length ids = length sizes" and "distinct (i # ids)"
    and "set ins \<union> set outs \<subseteq> {..<length ids}"
  shows "\<exists>R' k qs. run_events e (KernelRequest i work a # stream_requests ids sizes) R = Done R' \<and>
    distinct (k # qs) \<and> length qs = length ids \<and> base_work (rtk (rh R') k) = Some w \<and> kstate (rtk (rh R') k) = addr_map R a \<and>
    map (\<lambda>q. (rs_type (rts (rh R') q), rs_elem_size (rts (rh R') q))) qs = map (Pair NATIVE) sizes \<and>
    onEvent e (CallRequest c i (map ((!) ids) ins) (map ((!) ids) outs) None) R' =
      bind_out (env_call e k (sg (upd_rh (set_streams k (map ((!) qs) ins) (map ((!) qs) outs)) R')))
        (\<lambda>g. Done (reply c OK_R NoData, False, (upd_rh (set_streams k (map ((!) qs) ins) (map ((!) qs) outs)) R')\<lparr>sg := g\<rparr>))"
proof -
  from session_lemma [OF assms(1-3), of e a] obtain R' k qs where
    R': "run_events e (KernelRequest i work a # stream_requests ids sizes) R = Done R'" "addr_map R' i = Some k"
      "map (addr_map R') ids = map Some qs" "distinct (k # qs)" "base_work (rtk (rh R') k) = Some w"
      "kstate (rtk (rh R') k) = addr_map R a"
      "map (\<lambda>q. (rs_type (rts (rh R') q), rs_elem_size (rts (rh R') q))) qs = map (Pair NATIVE) sizes" by blast
  have len: "length qs = length ids" using R'(3) by (metis length_map)
  have h: "addr_map R' (ids ! j) = Some (qs ! j)" if "j < length ids" for j
    using R'(3) that len by (metis nth_map)
  have m: "map (addr_map R') (map ((!) ids) js) = map Some (map ((!) qs) js)" if "set js \<subseteq> {..<length ids}" for js
    using that h by (auto simp: subset_iff)
  have call: "call_event e i (map ((!) ids) ins) (map ((!) ids) outs) None R' =
      bind_out (env_call e k (sg (upd_rh (set_streams k (map ((!) qs) ins) (map ((!) qs) outs)) R')))
        (\<lambda>g. Done ((upd_rh (set_streams k (map ((!) qs) ins) (map ((!) qs) outs)) R')\<lparr>sg := g\<rparr>))"
    using assms(4) R'(2) by (simp only: call_event_def handleCallInst_def m null_terminated_all option.case bind_out.simps Let_def
      Un_subset_iff simp_thms)
  have "onEvent e (CallRequest c i (map ((!) ids) ins) (map ((!) ids) outs) None) R' =
      bind_out (env_call e k (sg (upd_rh (set_streams k (map ((!) qs) ins) (map ((!) qs) outs)) R')))
        (\<lambda>g. Done (reply c OK_R NoData, False, (upd_rh (set_streams k (map ((!) qs) ins) (map ((!) qs) outs)) R')\<lparr>sg := g\<rparr>))"
    by (simp add: onEvent_defs call bind_out_assoc)
  then show ?thesis using R' len by blast
qed

definition sample_env :: env where
  "sample_env = \<lparr>env_junk = undefined, env_call = (\<lambda>_. Done), env_pause = (\<lambda>_. Done), env_unpause = (\<lambda>_. Done),
     env_include = (\<lambda>_ R. R), env_run = (\<lambda>_ R. R), env_dot = (\<lambda>_. [])\<rparr>"

definition blank_graph :: graph where
  "blank_graph = \<lparr>gw = \<lparr>wh = sample_heap, body = (\<lambda>_. []), fname = (\<lambda>_. []), next_id = 9, fstate = (\<lambda>_. None)\<rparr>,
     adj = (\<lambda>_. []), id2kernel = Map.empty, the_tbb_sched = 901, the_koro_sched = 902, the_dp_sched = 903,
     the_opencl_sched = 904, started = [], hier_parent = None\<rparr>"

definition sample_runtime :: "graph \<Rightarrow> runtime" where
  "sample_runtime g = \<lparr>sg = g, next_stream_id = 1, fn_map = Map.empty, mod_fn = [''work'' \<mapsto> 8], addr_map = Map.empty\<rparr>"

theorem requests_build_kernel_witness:
  "\<exists>R' k qs. run_events sample_env (KernelRequest 1 ''work'' 0 # stream_requests [2, 3] [4, 8]) (sample_runtime blank_graph) = Done R' \<and>
     distinct (k # qs) \<and> length qs = length [2 :: uint32, 3] \<and>
     onEvent sample_env (CallRequest 4 1 [2] [3] None) R' =
       bind_out (env_call sample_env k (sg (upd_rh (set_streams k [qs ! 0] [qs ! 1]) R')))
         (\<lambda>g. Done (reply 4 OK_R NoData, False, (upd_rh (set_streams k [qs ! 0] [qs ! 1]) R')\<lparr>sg := g\<rparr>))"
  using requests_build_kernel [of "sample_runtime blank_graph" "''work''" 8 "[2, 3]" "[4, 8]" 1 "[0]" "[1]" sample_env 0 4]
  by (simp add: sample_runtime_def del: run_events.simps) blast

text \<open>Uncalling a kernel opens the ends of its streams.\<close>

lemma disconnect_lemma:
  assumes "\<And>s x. get (open x) = OpenEnd" and "distinct ss" and "\<forall>s\<in>set ss. get (hdr h s) = KernEnd k"
  shows "\<exists>h'. disconnect get open k ss h = Done h' \<and> (\<forall>s. hdr h' s = (if s \<in> set ss then open (hdr h s) else hdr h s)) \<and>
    rtk h' = rtk h \<and> rts h' = rts h"
  using assms(2,3)
proof (induction ss arbitrary: h)
  case (Cons s ss)
  have "\<forall>s'\<in>set ss. get (hdr (upd_hdr s open h) s') = KernEnd k" using Cons.prems by auto
  from Cons.IH [OF _ this] Cons.prems obtain h' where
    "disconnect get open k ss (upd_hdr s open h) = Done h'"
    "\<forall>s'. hdr h' s' = (if s' \<in> set ss then open (hdr (upd_hdr s open h) s') else hdr (upd_hdr s open h) s')"
    "rtk h' = rtk h" "rts h' = rts h" by auto
  then show ?case using Cons.prems by (auto simp: assert_out_def)
qed simp

text \<open>A kernel that is connected to its streams, as \<open>allocateStreams\<close> leaves it.\<close>

definition connected_to :: "ptr \<Rightarrow> ptr list \<Rightarrow> ptr list \<Rightarrow> heap \<Rightarrow> bool" where
  "connected_to k ss ts h \<longleftrightarrow>
     impl_ins (rtk h k) = Some (map Some ss @ [None]) \<and> impl_outs (rtk h k) = Some (map Some ts @ [None]) \<and>
     nins (rtk h k) = length ss \<and> nouts (rtk h k) = length ts \<and>
     opened (rt_ins (rtk h k)) 0 ss h \<and> opened (rt_outs (rtk h k)) 0 ts h \<and>
     (\<forall>s\<in>set ss. dst (hdr h s) = KernEnd k) \<and> (\<forall>s\<in>set ts. src (hdr h s) = KernEnd k)"

text \<open>
  \<open>removeKernel\<close> as the runtime sees it.  The work-stealing scheduler only changes its own map; the
  single-threaded and the coroutine scheduler also end a kernel that they have mapped.
\<close>

definition tbb_remove :: "ptr \<Rightarrow> graph \<Rightarrow> (unit, graph) outcome" where
  "tbb_remove k g = Done g"

definition queue_remove :: "nat \<Rightarrow> ptr \<Rightarrow> graph \<Rightarrow> (unit, graph) outcome" where
  "queue_remove fuel k g =
     (case kernel_done fuel k (gh g) of None \<Rightarrow> Fault | Some r \<Rightarrow> bind_out r (\<lambda>h. Done (upd_gh (\<lambda>_. h) g)))"

lemma queue_remove_opened:
  assumes "connected_to k ss ts h" and "children (rtk h k) = []"
    and "rtk (gh g) = rtk h" "rts (gh g) = rts h"
    and "\<forall>s. hdr (gh g) s = (let x = (if s \<in> set ss then hdr h s\<lparr>dst := OpenEnd\<rparr> else hdr h s) in
      if s \<in> set ts then x\<lparr>src := OpenEnd\<rparr> else x)"
  shows "\<exists>h'. queue_remove (Suc n) k g = Done (upd_gh (\<lambda>_. h') g) \<and>
    (\<forall>s. dst (hdr h' s) = (if s \<in> set ss then DeadEnd else dst (hdr h s)) \<and>
         src (hdr h' s) = (if s \<in> set ts then DeadEnd else src (hdr h s))) \<and>
    kid (rtk h' k) = kid (rtk h k) \<and> (\<forall>j. j \<noteq> k \<longrightarrow> rtk h' j = rtk h j)"
proof -
  have ends: "dst (hdr (gh g) s) = (if s \<in> set ss then OpenEnd else dst (hdr h s))"
    "src (hdr (gh g) s) = (if s \<in> set ts then OpenEnd else src (hdr h s))" "rs (hdr (gh g) s) = rs (hdr h s)" for s
    using assms(5) by (simp_all add: Let_def)
  have op: "opened r i qs (gh g) = opened r i qs h" for r i qs by (simp add: opened_def ends(3))
  have "\<exists>h'. kernel_done_own k (gh g) = Done h' \<and>
      (\<forall>s. dst (hdr h' s) = (if s \<in> set ss then DeadEnd else dst (hdr (gh g) s)) \<and>
           src (hdr h' s) = (if s \<in> set ts then DeadEnd else src (hdr (gh g) s)))"
    by (rule kernel_done_own_opened) (use assms(1) in \<open>simp_all add: connected_to_def assms(3) ends op\<close>)
  then obtain h' where h': "kernel_done_own k (gh g) = Done h'"
      "\<forall>s. dst (hdr h' s) = (if s \<in> set ss then DeadEnd else dst (hdr (gh g) s)) \<and>
           src (hdr h' s) = (if s \<in> set ts then DeadEnd else src (hdr (gh g) s))" by blast
  have "queue_remove (Suc n) k g = Done (upd_gh (\<lambda>_. h') g)" using assms(2,3) h'(1) by (simp add: queue_remove_def)
  moreover from kernel_done_own_rtk [OF h'(1)] have "kid (rtk h' k) = kid (rtk h k)" "\<forall>j. j \<noteq> k \<longrightarrow> rtk h' j = rtk h j"
    using assms(3) by auto
  ultimately show ?thesis using h'(2) ends by (intro exI [of _ h']) auto
qed


definition connected_sample :: heap where
  "connected_sample = upd_rtk 2 (\<lambda>K. K\<lparr>impl_ins := Some [Some 50, None], impl_outs := Some [None], rt_ins := Some [7],
     rt_outs := Some [], nins := 1, nouts := 0, sched := Some 901, children := []\<rparr>)
     (upd_hdr 50 (\<lambda>s. s\<lparr>dst := KernEnd 2, rs := Some 7\<rparr>) sample_heap)"


end
