(* ===== verification/DP_Sched.thy ===== *)
theory DP_Sched
  imports Skir_Runtime Work_Functions
begin

section \<open>The data-parallel scheduler\<close>

text \<open>
  \<open>lib/SKIR/SKIRDPSched.cpp\<close>: a kernel that may be copied becomes a splitter, \<open>width\<close> copies of
  the kernel and a joiner.  The state of the splitter and the joiner, a \<open>dp_splitter_work_t\<close>, is kept in a
  table by its handle; \<open>junk_w\<close> is what the memory of such an object holds before it is written.
\<close>

record dp_sched =
  my_kernel :: "ptr option"
  dp_kernels :: "ptr list"
  my_split :: "ptr option"
  my_join :: "ptr option"
  next_dp_sched :: "ptr option"
  dp_width :: int

record dp_state =
  dr :: runtime
  dp_work :: "ptr \<Rightarrow> dp_splitter_work_t"
  dps :: "ptr \<Rightarrow> dp_sched"

record dp_options =
  DPWidth :: int
  OpenCLMultiplier :: int
  opencl :: bool

abbreviation dh :: "dp_state \<Rightarrow> heap" where "dh D \<equiv> rh (dr D)"

definition upd_dh :: "(heap \<Rightarrow> heap) \<Rightarrow> dp_state \<Rightarrow> dp_state" where
  "upd_dh f D = D\<lparr>dr := upd_rh f (dr D)\<rparr>"

definition new_dp_sched :: "int \<Rightarrow> dp_sched" where
  "new_dp_sched w = \<lparr>my_kernel = None, dp_kernels = [], my_split = None, my_join = None, next_dp_sched = None, dp_width = w\<rparr>"

text \<open>The kernel whose wait, pause or resumption stands for that of \<open>k\<close>.\<close>

definition dp_wait :: "dp_sched \<Rightarrow> ptr \<Rightarrow> ptr option" where
  "dp_wait S k = (if my_kernel S = Some k then my_join S else Some k)"

definition dp_pause :: "dp_sched \<Rightarrow> ptr \<Rightarrow> ptr option" where
  "dp_pause S k = (if my_kernel S = Some k then my_split S else Some k)"

subsection \<open>Splitter, joiner and copies\<close>

text \<open>
  The rates of a splitter whose kernel pops \<open>r\<close>, or of a joiner whose kernel pushes \<open>r\<close> elements: the
  branch for OpenCL, the first one, gets more.
\<close>

definition dp_rates :: "dp_options \<Rightarrow> int \<Rightarrow> int list" where
  "dp_rates opts r =
     map (\<lambda>i. if i = 0 \<and> opencl opts then r * OpenCLMultiplier opts else r) [0..<nat (DPWidth opts)]"

definition new_dp_work :: "dp_splitter_work_t \<Rightarrow> dp_state \<Rightarrow> ptr \<times> dp_state" where
  "new_dp_work w D =
     (let p = fresh (dh D) in (p, (upd_dh (\<lambda>h. h\<lparr>fresh := Suc p\<rparr>) D)\<lparr>dp_work := (dp_work D)(p := w)\<rparr>))"

definition new_dp_kernel :: "rt_kernel \<Rightarrow> ptr \<Rightarrow> dp_splitter_work_t \<Rightarrow> dp_state \<Rightarrow> ptr \<times> dp_state" where
  "new_dp_kernel junk work w D =
     (let (p, D) = new_dp_work w D;
          (k, R) = handleKernelInst junk work (Some p) (dr D);
          R = upd_rh (upd_rtk k (\<lambda>K. K\<lparr>opt_only := True, is_fixed_rate := True, has_push := True, has_pop := True\<rparr>)) R in
      (k, D\<lparr>dr := R\<rparr>))"

fun new_streams :: "uint32 \<Rightarrow> (int \<Rightarrow> rt_stream \<Rightarrow> rt_stream) \<Rightarrow> int list \<Rightarrow> runtime \<Rightarrow> ptr list \<times> runtime" where
  "new_streams esz f [] R = ([], R)"
| "new_streams esz f (r # rates) R =
     (let (q, R) = handleStreamInst esz R;
          R = upd_rh (upd_rts q (f r)) R;
          (qs, R) = new_streams esz f rates R in
      (q # qs, R))"

text \<open>
  The kernel has one input \<open>qi\<close> and one output \<open>qo\<close>, as the code asserts, so each loop over them runs once.
\<close>

definition make_split :: "rt_kernel \<Rightarrow> dp_splitter_work_t \<Rightarrow> dp_options \<Rightarrow> ptr \<Rightarrow> ptr \<Rightarrow> dp_state \<Rightarrow> ptr \<times> dp_state" where
  "make_split junk junk_w opts work qi D =
     (let pop = rs_pop_rate (rts (dh D) qi); rates = dp_rates opts pop;
          (k, D) = new_dp_kernel junk work (junk_w\<lparr>next_stream := 0, num_streams := DPWidth opts, rate := rates\<rparr>) D;
          R = upd_rh (upd_rtk k (\<lambda>K. K\<lparr>sched_ins := Some [qi]\<rparr>)) (dr D);
          R = upd_rh (upd_rts qi (\<lambda>s. s\<lparr>rs_pop_rate := pop * DPWidth opts\<rparr>)) R;
          (qs, R) = new_streams (rs_elem_size (rts (rh R) qi)) (\<lambda>r s. s\<lparr>rs_push_rate := r\<rparr>) rates R in
      (k, D\<lparr>dr := upd_rh (upd_rtk k (\<lambda>K. K\<lparr>sched_outs := Some qs\<rparr>)) R\<rparr>))"

definition make_join :: "rt_kernel \<Rightarrow> dp_options \<Rightarrow> ptr \<Rightarrow> ptr \<Rightarrow> dp_state \<Rightarrow> (unit, ptr \<times> dp_state) outcome" where
  "make_join junk opts work qo D =
     (let rates = dp_rates opts (rs_push_rate (rts (dh D) qo)) in
      if rates = [] then Fault
      else
        (let (k, D) = new_dp_kernel junk work \<lparr>next_stream = 0, dp_niter = 1, rate = rates, num_streams = DPWidth opts\<rparr> D;
             (qs, R) = new_streams (rs_elem_size (rts (dh D) qo))
                (\<lambda>r s. s\<lparr>rs_pop_rate := r, rs_peek_rate := 0\<rparr>) rates (dr D);
             R = upd_rh (upd_rtk k (\<lambda>K. K\<lparr>sched_ins := Some qs, sched_outs := Some [qo]\<rparr>)) R in
         Done (k, D\<lparr>dr := upd_rh (upd_rts qo (\<lambda>s. s\<lparr>rs_push_rate := hd rates * DPWidth opts\<rparr>)) R\<rparr>)))"

text \<open>One copy of kernel \<open>k\<close> between stream \<open>q\<close> of the splitter and stream \<open>p\<close> of the joiner.\<close>

definition make_copy :: "rt_kernel \<Rightarrow> options \<Rightarrow> bool \<Rightarrow> ptr \<Rightarrow> ptr \<Rightarrow> ptr \<Rightarrow> ptr \<Rightarrow> ptr \<Rightarrow> runtime \<Rightarrow> (unit, ptr \<times> runtime) outcome" where
  "make_copy junk gopts cl k qi qo q p R =
     (case base_work (rtk (rh R) k) of
        None \<Rightarrow> Fault
      | Some w \<Rightarrow>
          (let (c, R) = handleKernelInst junk w (kstate (rtk (rh R) k)) R in
           bind_out
             (if cl then bind_out (selectScheduler gopts c (Some (the_opencl_sched (sg R))) (sg R))
                (\<lambda>g. Done (R\<lparr>sg := start_sched (the_opencl_sched g) g\<rparr>)) else Done R)
             (\<lambda>R.
               (let R = upd_rh (upd_rts q (\<lambda>s. s\<lparr>rs_pop_rate := rs_pop_rate (rts (rh R) qi),
                          rs_peek_rate := rs_peek_rate (rts (rh R) qi)\<rparr>)) R;
                    R = upd_rh (upd_rts p (\<lambda>s. s\<lparr>rs_push_rate := rs_push_rate (rts (rh R) qo)\<rparr>)) R in
                Done (c, upd_rh (upd_rtk c (\<lambda>K. K\<lparr>sched_ins := Some [q], sched_outs := Some [p]\<rparr>)) R)))))"

fun make_copies :: "rt_kernel \<Rightarrow> options \<Rightarrow> bool \<Rightarrow> ptr \<Rightarrow> ptr \<Rightarrow> ptr \<Rightarrow> (ptr \<times> ptr) list \<Rightarrow> runtime \<Rightarrow>
    (unit, ptr list \<times> runtime) outcome" where
  "make_copies junk gopts cl k qi qo [] R = Done ([], R)"
| "make_copies junk gopts cl k qi qo ((q, p) # qps) R =
     bind_out (make_copy junk gopts cl k qi qo q p R) (\<lambda>(c, R).
     bind_out (make_copies junk gopts False k qi qo qps R) (\<lambda>(cs, R). Done (c # cs, R)))"

text \<open>The first call of a kernel that is to be copied, up to the calls of what replaces it.\<close>

definition dp_fission :: "rt_kernel \<Rightarrow> dp_splitter_work_t \<Rightarrow> options \<Rightarrow> dp_options \<Rightarrow> ptr \<Rightarrow> ptr \<Rightarrow> ptr \<Rightarrow> ptr \<Rightarrow>
    dp_state \<Rightarrow> (unit, dp_state) outcome" where
  "dp_fission junk junk_w gopts opts wsplit wjoin me k D =
     (let K = rtk (dh D) k in
      assert_out (is_fixed_rate K \<and> \<not> is_stateful K \<and> \<not> has_peek K)
        (case (ins_of K, outs_of K) of
           ([qi], [qo]) \<Rightarrow>
             (let (sp, D) = make_split junk junk_w opts wsplit qi D in
              bind_out (make_join junk opts wjoin qo D) (\<lambda>(jn, D).
              bind_out (make_copies junk gopts (opencl opts) k qi qo
                  (zip (the (sched_outs (rtk (dh D) sp))) (the (sched_ins (rtk (dh D) jn)))) (dr D)) (\<lambda>(cs, R).
                Done (D\<lparr>dr := R, dps := (dps D)(me := (dps D me)\<lparr>my_kernel := Some k, my_split := Some sp,
                  my_join := Some jn, dp_kernels := dp_kernels (dps D me) @ cs, dp_width := DPWidth opts\<rparr>)\<rparr>))))
         | _ \<Rightarrow> Fault))"

text \<open>\<open>handleCallInst\<close> on the arrays that were prepared, which end with a null pointer.\<close>

definition dp_call :: "(ptr \<Rightarrow> graph \<Rightarrow> (unit, graph) outcome) \<Rightarrow> ptr \<Rightarrow> dp_state \<Rightarrow> (unit, dp_state) outcome" where
  "dp_call call k D =
     (let a = (\<lambda>qs. map_option (\<lambda>qs. map Some qs @ [None]) qs); K = rtk (dh D) k in
      bind_out (handleCallInst call k (a (sched_ins K)) (a (sched_outs K)) (dr D)) (\<lambda>R. Done (D\<lparr>dr := R\<rparr>)))"

fun dp_calls :: "(ptr \<Rightarrow> graph \<Rightarrow> (unit, graph) outcome) \<Rightarrow> ptr list \<Rightarrow> dp_state \<Rightarrow> (unit, dp_state) outcome" where
  "dp_calls call [] D = Done D"
| "dp_calls call (k # ks) D = bind_out (dp_call call k D) (dp_calls call ks)"

text \<open>
  \<open>callKernel\<close>.  \<open>tbb\<close> is the call of the work-stealing scheduler, \<open>find_sub\<close> looks for the annotation in the
  name of the work function, and the fuel bounds the chain of schedulers that each serve one kernel.
\<close>

fun dp_callKernel :: "nat \<Rightarrow> rt_kernel \<Rightarrow> dp_splitter_work_t \<Rightarrow> options \<Rightarrow> dp_options \<Rightarrow> ptr \<Rightarrow> ptr \<Rightarrow>
    (ptr \<Rightarrow> graph \<Rightarrow> (unit, graph) outcome) \<Rightarrow> (ptr \<Rightarrow> dp_state \<Rightarrow> (unit, dp_state) outcome) \<Rightarrow>
    ptr \<Rightarrow> ptr \<Rightarrow> dp_state \<Rightarrow> (unit, dp_state) outcome" where
  "dp_callKernel 0 junk junk_w gopts opts wsplit wjoin call tbb me k D = Fault"
| "dp_callKernel (Suc n) junk junk_w gopts opts wsplit wjoin call tbb me k D =
     (let S = dps D me; g = sg (dr D); name = (case base_work (rtk (dh D) k) of None \<Rightarrow> [] | Some w \<Rightarrow> fname (gw g) w);
          to_tbb = (\<lambda>D. tbb k (D\<lparr>dr := upd_rg (set_sched k (the_tbb_sched g)) (dr D)\<rparr>));
          replace = (\<lambda>D.
            (let D = upd_dh (upd_rtk k (\<lambda>K. K\<lparr>impl_ins := None, impl_outs := None\<rparr>)) D; S = dps D me in
             case (my_split S, my_join S) of
               (Some sp, Some jn) \<Rightarrow> dp_calls call (sp # jn # dp_kernels S) D
             | _ \<Rightarrow> Fault)) in
      if my_kernel S = Some k then replace D
      else if find_sub ''skirdp'' name = None then to_tbb D
      else if k \<in> set (dp_kernels S) then to_tbb D
      else if my_kernel S \<noteq> None then
        (case next_dp_sched S of
           Some nx \<Rightarrow> dp_callKernel n junk junk_w gopts opts wsplit wjoin call tbb nx k
             (D\<lparr>dr := upd_rg (set_sched k nx) (dr D)\<rparr>)
         | None \<Rightarrow>
             (let nx = fresh (dh D);
                  D = upd_dh (\<lambda>h. h\<lparr>fresh := Suc nx\<rparr>) D;
                  D = D\<lparr>dps := (dps D)(nx := new_dp_sched (dp_width S), me := S\<lparr>next_dp_sched := Some nx\<rparr>)\<rparr> in
              dp_callKernel n junk junk_w gopts opts wsplit wjoin call tbb nx k
                (D\<lparr>dr := upd_rg (set_sched k nx) (dr D)\<rparr>)))
      else bind_out (dp_fission junk junk_w gopts opts wsplit wjoin me k D) replace)"

subsection \<open>The shape of a fission\<close>

lemma handleStream_simps [simp]:
  "fst (handleStreamInst esz R) = fresh (rh R)"
  "rtk (rh (snd (handleStreamInst esz R))) = rtk (rh R)"
  "rts (rh (snd (handleStreamInst esz R))) = (rts (rh R))(fresh (rh R) :=
     (new_rt_stream (next_stream_id R))\<lparr>rs_type := NATIVE, rs_elem_size := esz\<rparr>)"
  "fresh (rh (snd (handleStreamInst esz R))) = Suc (fresh (rh R))"
  "next_stream_id (snd (handleStreamInst esz R)) = next_stream_id R + 1"
  by (auto simp: handleStreamInst_def newStream_def Let_def upd_rh_def upd_gh_def upd_wh_def)

lemma handleKernel_simps [simp]:
  "fst (handleKernelInst junk w a R) = fresh (rh R)"
  "rts (rh (snd (handleKernelInst junk w a R))) = rts (rh R)"
  "\<exists>i. rtk (rh (snd (handleKernelInst junk w a R))) = (rtk (rh R))(fresh (rh R) :=
     (new_rt_kernel junk i)\<lparr>base_work := Some w, work_fn := Some w, kstate := a\<rparr>)"
  "fresh (rh (snd (handleKernelInst junk w a R))) = Suc (fresh (rh R))"
  by (auto simp: handleKernelInst_def nextKernelID_def Let_def upd_rh_def upd_rg_def upd_gh_def upd_wh_def)

lemma next_upd [simp]: "next_stream_id (upd_rh f R) = next_stream_id R"
  by (simp add: upd_rh_def)

lemma upt_Cons: "[c..<c + length (x # xs)] = c # [Suc c..<Suc c + length xs]"
  by (simp add: upt_conv_Cons del: upt_Suc)

lemma new_streams_lemma:
  assumes "new_streams esz f rates R = (qs, R')"
  shows "qs = [fresh (rh R)..<fresh (rh R) + length rates] \<and> fresh (rh R') = fresh (rh R) + length rates \<and>
    rtk (rh R') = rtk (rh R) \<and> (\<forall>q. q < fresh (rh R) \<longrightarrow> rts (rh R') q = rts (rh R) q) \<and>
    (\<forall>j<length rates. \<exists>i. rts (rh R') (fresh (rh R) + j) =
       f (rates ! j) ((new_rt_stream i)\<lparr>rs_type := NATIVE, rs_elem_size := esz\<rparr>))"
  using assms
proof (induction rates arbitrary: R qs R')
  case (Cons r rates)
  define q where "q = fresh (rh R)"
  define R1 where "R1 = upd_rh (upd_rts q (f r)) (snd (handleStreamInst esz R))"
  define qs' where "qs' = fst (new_streams esz f rates R1)"
  have "new_streams esz f (r # rates) R = (q # qs', snd (new_streams esz f rates R1))"
    by (simp add: Let_def split_beta q_def R1_def qs'_def)
  then have run: "new_streams esz f rates R1 = (qs', R')" "qs = q # qs'"
    using Cons.prems by (auto simp: qs'_def)
  have r1: "fresh (rh R1) = Suc q" "rtk (rh R1) = rtk (rh R)" "\<And>p. p < q \<Longrightarrow> rts (rh R1) p = rts (rh R) p"
      "rts (rh R1) q = f r ((new_rt_stream (next_stream_id R))\<lparr>rs_type := NATIVE, rs_elem_size := esz\<rparr>)"
    by (auto simp: R1_def q_def)
  note IH = Cons.IH [OF run(1)]
  have "\<exists>i. rts (rh R') (q + j) = f ((r # rates) ! j) ((new_rt_stream i)\<lparr>rs_type := NATIVE, rs_elem_size := esz\<rparr>)"
    if "j < length (r # rates)" for j
  proof (cases j)
    case 0
    then show ?thesis using IH r1 by auto
  next
    case (Suc l)
    then show ?thesis using IH r1(1) that by auto
  qed
  moreover have "qs = [q..<q + length (r # rates)]" 
    unfolding upt_Cons run(2) IH [THEN conjunct1] r1(1) ..
  ultimately show ?case using IH r1 by (auto simp flip: q_def)
qed auto

lemma make_copies_lemma:
  assumes "base_work (rtk (rh R) k) = Some w" and "k < fresh (rh R)"
  shows "\<exists>cs R'. make_copies junk gopts False k qi qo qps R = Done (cs, R') \<and>
    cs = [fresh (rh R)..<fresh (rh R) + length qps] \<and>
    (\<forall>j<length qps. sched_ins (rtk (rh R') (cs ! j)) = Some [fst (qps ! j)] \<and>
       sched_outs (rtk (rh R') (cs ! j)) = Some [snd (qps ! j)] \<and>
       base_work (rtk (rh R') (cs ! j)) = Some w \<and> kstate (rtk (rh R') (cs ! j)) = kstate (rtk (rh R) k)) \<and>
    (\<forall>j<fresh (rh R). rtk (rh R') j = rtk (rh R) j) \<and>
    (\<forall>q. rs_push_rate (rts (rh R') q) = (if q \<in> snd ` set qps then rs_push_rate (rts (rh R) qo) else rs_push_rate (rts (rh R) q))) \<and>
    (\<forall>q. rs_pop_rate (rts (rh R') q) = (if q \<in> fst ` set qps then rs_pop_rate (rts (rh R) qi) else rs_pop_rate (rts (rh R) q)))"
  using assms
proof (induction qps arbitrary: R)
  case Nil
  then show ?case by auto
next
  case (Cons qp qps)
  obtain q p where qp: "qp = (q, p)" by force
  define c where "c = fresh (rh R)"
  obtain R1 where run: "make_copy junk gopts False k qi qo q p R = Done (c, R1)"
    and r1: "fresh (rh R1) = Suc c" "sched_ins (rtk (rh R1) c) = Some [q]" "sched_outs (rtk (rh R1) c) = Some [p]"
      "base_work (rtk (rh R1) c) = Some w" "kstate (rtk (rh R1) c) = kstate (rtk (rh R) k)"
      "\<And>j. j < c \<Longrightarrow> rtk (rh R1) j = rtk (rh R) j"
      "\<And>x. rs_push_rate (rts (rh R1) x) = (if x = p then rs_push_rate (rts (rh R) qo) else rs_push_rate (rts (rh R) x))"
      "\<And>x. rs_pop_rate (rts (rh R1) x) = (if x = q then rs_pop_rate (rts (rh R) qi) else rs_pop_rate (rts (rh R) x))"
  proof -
    define R0 where "R0 = snd (handleKernelInst junk w (kstate (rtk (rh R) k)) R)"
    define R1 where "R1 = upd_rh (upd_rts q (\<lambda>s. s\<lparr>rs_pop_rate := rs_pop_rate (rts (rh R) qi), rs_peek_rate := rs_peek_rate (rts (rh R) qi)\<rparr>)) R0"
    define R2 where "R2 = upd_rh (upd_rts p (\<lambda>s. s\<lparr>rs_push_rate := rs_push_rate (rts (rh R1) qo)\<rparr>)) R1"
    define R3 where "R3 = upd_rh (upd_rtk c (\<lambda>K. K\<lparr>sched_ins := Some [q], sched_outs := Some [p]\<rparr>)) R2"
    have "make_copy junk gopts False k qi qo q p R = Done (c, R3)"
      using Cons.prems(1) by (simp add: make_copy_def Let_def split_beta R3_def R2_def R1_def R0_def c_def)
    moreover obtain i where "rtk (rh R0) = (rtk (rh R))(c := (new_rt_kernel junk i)\<lparr>base_work := Some w, work_fn := Some w,
        kstate := kstate (rtk (rh R) k)\<rparr>)"
      using handleKernel_simps(3) unfolding R0_def c_def by blast
    ultimately show ?thesis
      by (rule_tac that [of R3]) (auto simp: R3_def R2_def R1_def R0_def c_def)
  qed
  have b: "base_work (rtk (rh R1) k) = Some w" "k < fresh (rh R1)" "kstate (rtk (rh R1) k) = kstate (rtk (rh R) k)"
    using Cons.prems r1(1,6) by (simp_all add: c_def)
  from Cons.IH [OF b(1,2)] obtain cs R' where
    IH: "make_copies junk gopts False k qi qo qps R1 = Done (cs, R')" "cs = [Suc c..<Suc c + length qps]"
    "\<forall>j<length qps. sched_ins (rtk (rh R') (cs ! j)) = Some [fst (qps ! j)] \<and>
       sched_outs (rtk (rh R') (cs ! j)) = Some [snd (qps ! j)] \<and>
       base_work (rtk (rh R') (cs ! j)) = Some w \<and> kstate (rtk (rh R') (cs ! j)) = kstate (rtk (rh R) k)"
    "\<forall>j<Suc c. rtk (rh R') j = rtk (rh R1) j"
    "\<forall>q. rs_push_rate (rts (rh R') q) = (if q \<in> snd ` set qps then rs_push_rate (rts (rh R1) qo) else rs_push_rate (rts (rh R1) q))"
    "\<forall>q. rs_pop_rate (rts (rh R') q) = (if q \<in> fst ` set qps then rs_pop_rate (rts (rh R1) qi) else rs_pop_rate (rts (rh R1) q))"
    unfolding r1(1) b(3) by blast
  have c': "rtk (rh R') c = rtk (rh R1) c" "\<And>j. j < c \<Longrightarrow> rtk (rh R') j = rtk (rh R) j" using IH(4) r1(6) by simp_all
  show ?case
  proof (intro exI [of _ "c # cs"] exI [of _ R'] conjI)
    show "make_copies junk gopts False k qi qo (qp # qps) R = Done (c # cs, R')" using run IH(1) by (simp add: qp)
    show "c # cs = [fresh (rh R)..<fresh (rh R) + length (qp # qps)]"
      unfolding IH(2) upt_Cons c_def [symmetric] ..
    show "\<forall>j<length (qp # qps). sched_ins (rtk (rh R') ((c # cs) ! j)) = Some [fst ((qp # qps) ! j)] \<and>
       sched_outs (rtk (rh R') ((c # cs) ! j)) = Some [snd ((qp # qps) ! j)] \<and>
       base_work (rtk (rh R') ((c # cs) ! j)) = Some w \<and> kstate (rtk (rh R') ((c # cs) ! j)) = kstate (rtk (rh R) k)"
      using IH(3) c' r1 by (auto simp: less_Suc_eq_0_disj qp)
  qed (use IH(5,6) c' r1 in \<open>auto simp: qp simp flip: c_def\<close>)
qed

lemma new_dp_kernel_lemma:
  assumes "new_dp_kernel junk work w D = (k, D')"
  shows "k = Suc (fresh (dh D)) \<and> fresh (dh D') = Suc (Suc (fresh (dh D))) \<and> rts (dh D') = rts (dh D) \<and>
    (\<forall>j<fresh (dh D). rtk (dh D') j = rtk (dh D) j) \<and> kstate (rtk (dh D') k) = Some (fresh (dh D)) \<and>
    dp_work D' = (dp_work D)(fresh (dh D) := w) \<and> dps D' = dps D"
proof -
  define R0 where "R0 = upd_rh (\<lambda>h. h\<lparr>fresh := Suc (fresh (dh D))\<rparr>) (dr D)"
  obtain i where "rtk (rh (snd (handleKernelInst junk work (Some (fresh (dh D))) R0))) = (rtk (rh R0))(fresh (rh R0) :=
     (new_rt_kernel junk i)\<lparr>base_work := Some work, work_fn := Some work, kstate := Some (fresh (dh D))\<rparr>)"
    using handleKernel_simps(3) by blast
  then show ?thesis
    using assms by (auto simp: new_dp_kernel_def new_dp_work_def Let_def split_beta upd_dh_def R0_def)
qed

lemma make_split_lemma:
  assumes "make_split junk junk_w opts work qi D = (sp, D')" and "qi < fresh (dh D)" and "\<not> opencl opts"
  defines "F \<equiv> fresh (dh D)" and "W \<equiv> nat (DPWidth opts)" and "pop \<equiv> rs_pop_rate (rts (dh D) qi)"
  shows "sp = Suc F \<and> fresh (dh D') = F + 2 + W \<and> (\<forall>j<F. rtk (dh D') j = rtk (dh D) j) \<and>
    sched_ins (rtk (dh D') sp) = Some [qi] \<and> sched_outs (rtk (dh D') sp) = Some [F + 2..<F + 2 + W] \<and>
    kstate (rtk (dh D') sp) = Some F \<and> num_streams (dp_work D' F) = DPWidth opts \<and> rate (dp_work D' F) = replicate W pop \<and>
    (\<forall>j<W. rs_push_rate (rts (dh D') (F + 2 + j)) = pop) \<and>
    (\<forall>q<F. rs_push_rate (rts (dh D') q) = rs_push_rate (rts (dh D) q) \<and>
       rs_pop_rate (rts (dh D') q) = (if q = qi then pop * DPWidth opts else rs_pop_rate (rts (dh D) q))) \<and>
    dps D' = dps D"
proof -
  define rates where "rates = dp_rates opts pop"
  have rates: "rates = replicate W pop"
    using assms(3) by (auto simp: rates_def dp_rates_def W_def list_eq_iff_nth_eq)
  define w where "w = junk_w\<lparr>next_stream := 0, num_streams := DPWidth opts, rate := rates\<rparr>"
  obtain k D1 where d1: "new_dp_kernel junk work w D = (k, D1)" by force
  define R1 where "R1 = upd_rh (upd_rts qi (\<lambda>s. s\<lparr>rs_pop_rate := pop * DPWidth opts\<rparr>))
     (upd_rh (upd_rtk k (\<lambda>K. K\<lparr>sched_ins := Some [qi]\<rparr>)) (dr D1))"
  obtain qs R2 where r2: "new_streams (rs_elem_size (rts (rh R1) qi)) (\<lambda>r s. s\<lparr>rs_push_rate := r\<rparr>) rates R1 = (qs, R2)" by force
  have sp: "sp = k" "D' = D1\<lparr>dr := upd_rh (upd_rtk k (\<lambda>K. K\<lparr>sched_outs := Some qs\<rparr>)) R2\<rparr>"
    using assms(1) d1 r2 by (auto simp: make_split_def Let_def R1_def w_def rates_def pop_def)
  note K = new_dp_kernel_lemma [OF d1, folded F_def]
  have f1: "fresh (rh R1) = F + 2" using K by (simp add: R1_def)
  note S = new_streams_lemma [OF r2, unfolded f1]
  have qs: "qs = [F + 2..<F + 2 + W]" using S by (simp add: rates del: upt_Suc)
  have "rs_push_rate (rts (rh R2) (F + 2 + j)) = pop" if "j < W" for j
    using S that by (force simp: rates)
  then show ?thesis
    using K S assms(2) unfolding sp qs by (auto simp: R1_def rates w_def F_def simp del: upt_Suc)
qed

lemma make_join_lemma:
  assumes "qo < fresh (dh D)" and "\<not> opencl opts" and "0 < DPWidth opts"
  defines "F \<equiv> fresh (dh D)" and "W \<equiv> nat (DPWidth opts)" and "push \<equiv> rs_push_rate (rts (dh D) qo)"
  shows "\<exists>D'. make_join junk opts work qo D = Done (Suc F, D') \<and> fresh (dh D') = F + 2 + W \<and>
    (\<forall>j<F. rtk (dh D') j = rtk (dh D) j) \<and>
    sched_ins (rtk (dh D') (Suc F)) = Some [F + 2..<F + 2 + W] \<and> sched_outs (rtk (dh D') (Suc F)) = Some [qo] \<and>
    kstate (rtk (dh D') (Suc F)) = Some F \<and> num_streams (dp_work D' F) = DPWidth opts \<and> rate (dp_work D' F) = replicate W push \<and>
    (\<forall>a. a \<noteq> F \<longrightarrow> dp_work D' a = dp_work D a) \<and>
    (\<forall>j<W. rs_pop_rate (rts (dh D') (F + 2 + j)) = push) \<and>
    (\<forall>q<F. rs_pop_rate (rts (dh D') q) = rs_pop_rate (rts (dh D) q) \<and>
       rs_push_rate (rts (dh D') q) = (if q = qo then push * DPWidth opts else rs_push_rate (rts (dh D) q))) \<and>
    dps D' = dps D"
proof -
  define rates where "rates = dp_rates opts push"
  have rates: "rates = replicate W push" "0 < W"
    using assms(2,3) by (auto simp: rates_def dp_rates_def W_def list_eq_iff_nth_eq)
  define w where "w = \<lparr>next_stream = 0, dp_niter = 1, rate = rates, num_streams = DPWidth opts\<rparr>"
  obtain k D1 where d1: "new_dp_kernel junk work w D = (k, D1)" by force
  note K = new_dp_kernel_lemma [OF d1, folded F_def]
  obtain qs R2 where r2: "new_streams (rs_elem_size (rts (dh D1) qo)) (\<lambda>r s. s\<lparr>rs_pop_rate := r, rs_peek_rate := 0\<rparr>) rates (dr D1) = (qs, R2)"
    by force
  define D' where "D' = D1\<lparr>dr := upd_rh (upd_rts qo (\<lambda>s. s\<lparr>rs_push_rate := hd rates * DPWidth opts\<rparr>))
     (upd_rh (upd_rtk k (\<lambda>K. K\<lparr>sched_ins := Some qs, sched_outs := Some [qo]\<rparr>)) R2)\<rparr>"
  have ne: "rates \<noteq> []" "hd rates = push" using rates by auto
  have run: "make_join junk opts work qo D = Done (Suc F, D')"
    using d1 r2 K ne by (simp add: make_join_def Let_def D'_def w_def push_def flip: rates_def)
      (simp add: rates_def push_def)
  have f1: "fresh (dh D1) = F + 2" using K by simp
  note S = new_streams_lemma [OF r2, unfolded f1]
  have qs: "qs = [F + 2..<F + 2 + W]" using S by (simp add: rates del: upt_Suc)
  have "rs_pop_rate (rts (rh R2) (F + 2 + j)) = push" if "j < W" for j
    using S that by (force simp: rates)
  then show ?thesis
    using run K S assms(1) ne qs by (auto simp: D'_def rates w_def F_def simp del: upt_Suc)
qed

definition rates_of_kernel :: "dp_state \<Rightarrow> ptr \<Rightarrow> int list option" where
  "rates_of_kernel D k = map_option (\<lambda>a. rate (dp_work D a)) (kstate (rtk (dh D) k))"

lemma fission_lemma:
  assumes io: "ins_of (rtk (dh D) k) = [qi]" "outs_of (rtk (dh D) k) = [qo]"
    and flags: "is_fixed_rate (rtk (dh D) k)" "\<not> is_stateful (rtk (dh D) k)" "\<not> has_peek (rtk (dh D) k)"
    and work: "base_work (rtk (dh D) k) = Some w0"
    and old: "k < fresh (dh D)" "qi < fresh (dh D)" "qo < fresh (dh D)"
    and opts: "\<not> opencl opts" "DPWidth opts = int W" "0 < W"
  defines "pop \<equiv> rs_pop_rate (rts (dh D) qi)" and "push \<equiv> rs_push_rate (rts (dh D) qo)"
  shows "\<exists>D' sp jn cs qs ps. dp_fission junk junk_w gopts opts wsplit wjoin me k D = Done D' \<and>
    dps D' me = (dps D me)\<lparr>my_kernel := Some k, my_split := Some sp, my_join := Some jn,
      dp_kernels := dp_kernels (dps D me) @ cs, dp_width := int W\<rparr> \<and>
    length cs = W \<and> length qs = W \<and> length ps = W \<and> distinct (qs @ ps) \<and> distinct (sp # jn # cs) \<and>
    sched_ins (rtk (dh D') sp) = Some [qi] \<and> sched_outs (rtk (dh D') sp) = Some qs \<and>
    sched_ins (rtk (dh D') jn) = Some ps \<and> sched_outs (rtk (dh D') jn) = Some [qo] \<and>
    (\<forall>j<W. sched_ins (rtk (dh D') (cs ! j)) = Some [qs ! j] \<and> sched_outs (rtk (dh D') (cs ! j)) = Some [ps ! j] \<and>
       base_work (rtk (dh D') (cs ! j)) = Some w0 \<and> kstate (rtk (dh D') (cs ! j)) = kstate (rtk (dh D) k)) \<and>
    rates_of_kernel D' sp = Some (replicate W pop) \<and> rates_of_kernel D' jn = Some (replicate W push) \<and>
    rs_pop_rate (rts (dh D') qi) = sum_list (replicate W pop) \<and> rs_push_rate (rts (dh D') qo) = sum_list (replicate W push) \<and>
    (\<forall>j<W. rs_push_rate (rts (dh D') (qs ! j)) = pop \<and> rs_pop_rate (rts (dh D') (ps ! j)) = push) \<and>
    (\<forall>j<W. rs_pop_rate (rts (dh D') (qs ! j)) = int W * pop \<and> rs_push_rate (rts (dh D') (ps ! j)) = int W * push)"
proof -
  define F where "F = fresh (dh D)"
  obtain sp D1 where d1: "make_split junk junk_w opts wsplit qi D = (sp, D1)" by force
  have W: "nat (DPWidth opts) = W" "0 < DPWidth opts" using opts by simp_all
  note S = make_split_lemma [OF d1 old(2) opts(1), unfolded W(1), folded F_def pop_def]
  define G where "G = F + 2 + W"
  have fG: "fresh (dh D1) = G" using S by (simp add: G_def)
  have qoG: "qo < fresh (dh D1)" using old(3) by (simp add: fG G_def F_def)
  have push1: "rs_push_rate (rts (dh D1) qo) = push" using S old(3) by (simp add: push_def F_def)
  from make_join_lemma [OF qoG opts(1) W(2), of junk wjoin, unfolded W(1) fG push1] obtain D2 where
    J: "make_join junk opts wjoin qo D1 = Done (Suc G, D2)" "fresh (dh D2) = G + 2 + W"
      "\<forall>j<G. rtk (dh D2) j = rtk (dh D1) j" "sched_ins (rtk (dh D2) (Suc G)) = Some [G + 2..<G + 2 + W]"
      "sched_outs (rtk (dh D2) (Suc G)) = Some [qo]" "kstate (rtk (dh D2) (Suc G)) = Some G"
      "rate (dp_work D2 G) = replicate W push" "\<forall>a. a \<noteq> G \<longrightarrow> dp_work D2 a = dp_work D1 a"
      "\<forall>j<W. rs_pop_rate (rts (dh D2) (G + 2 + j)) = push"
      "\<forall>q<G. rs_pop_rate (rts (dh D2) q) = rs_pop_rate (rts (dh D1) q) \<and>
         rs_push_rate (rts (dh D2) q) = (if q = qo then push * DPWidth opts else rs_push_rate (rts (dh D1) q))"
      "dps D2 = dps D1" by blast
  define H where "H = G + 2 + W"
  define qs where "qs = [F + 2..<F + 2 + W]"
  define ps where "ps = [G + 2..<G + 2 + W]"
  have len: "length qs = W" "length ps = W" by (simp_all add: qs_def ps_def del: upt_Suc)
  have nth: "qs ! j = F + 2 + j" "ps ! j = G + 2 + j" if "j < W" for j
    using that by (simp_all add: qs_def ps_def del: upt_Suc)
  have low: "F < G" "Suc F < G" "G < H" "Suc G < H" "Suc F < H" "k < F" "qi < F" "qo < F" "sp = Suc F" using old S by (simp_all add: F_def G_def H_def)
  have sets: "set qs = {F + 2..<G}" "set ps = {G + 2..<H}" by (auto simp: qs_def ps_def G_def H_def)
  have same: "rtk (dh D2) k = rtk (dh D) k" using J(3) S low by simp
  have sp2: "sched_ins (rtk (dh D2) sp) = Some [qi]" "sched_outs (rtk (dh D2) sp) = Some qs" "kstate (rtk (dh D2) sp) = Some F"
    using J(3) S low by (simp_all add: qs_def G_def del: upt_Suc)
  have fH: "fresh (rh (dr D2)) = H" by (simp add: J(2) H_def)
  have zl: "length (zip qs ps) = W" using len by simp
  have "base_work (rtk (rh (dr D2)) k) = Some w0" "k < fresh (rh (dr D2))" using work low by (simp_all add: same fH)
  from make_copies_lemma [OF this, of junk gopts qi qo "zip qs ps", unfolded fH zl same] obtain cs R where
    C0: "make_copies junk gopts False k qi qo (zip qs ps) (dr D2) = Done (cs, R)" "cs = [H..<H + W]"
      "\<forall>j<W. sched_ins (rtk (rh R) (cs ! j)) = Some [fst (zip qs ps ! j)] \<and> sched_outs (rtk (rh R) (cs ! j)) = Some [snd (zip qs ps ! j)] \<and>
         base_work (rtk (rh R) (cs ! j)) = Some w0 \<and> kstate (rtk (rh R) (cs ! j)) = kstate (rtk (dh D) k)"
      "\<forall>j<H. rtk (rh R) j = rtk (dh D2) j"
      "\<forall>q. rs_push_rate (rts (rh R) q) = (if q \<in> snd ` set (zip qs ps) then rs_push_rate (rts (dh D2) qo) else rs_push_rate (rts (dh D2) q))"
      "\<forall>q. rs_pop_rate (rts (rh R) q) = (if q \<in> fst ` set (zip qs ps) then rs_pop_rate (rts (dh D2) qi) else rs_pop_rate (rts (dh D2) q))"
    by blast
  have "\<forall>j<W. sched_ins (rtk (rh R) (cs ! j)) = Some [qs ! j] \<and> sched_outs (rtk (rh R) (cs ! j)) = Some [ps ! j] \<and>
         base_work (rtk (rh R) (cs ! j)) = Some w0 \<and> kstate (rtk (rh R) (cs ! j)) = kstate (rtk (dh D) k)"
    using C0(3) len by simp
  note C = C0(1,2) this C0(4-)
  have zips: "fst ` set (zip qs ps) = set qs" "snd ` set (zip qs ps) = set ps"
    using len by (simp_all flip: set_map)
  define D' where "D' = D2\<lparr>dr := R, dps := (dps D2)(me := (dps D2 me)\<lparr>my_kernel := Some k, my_split := Some sp,
     my_join := Some (Suc G), dp_kernels := dp_kernels (dps D2 me) @ cs, dp_width := DPWidth opts\<rparr>)\<rparr>"
  have run: "dp_fission junk junk_w gopts opts wsplit wjoin me k D = Done D'"
    using io flags d1 J(1,4) sp2(2) C(1) opts(1) by (simp add: dp_fission_def assert_out_def D'_def ps_def Let_def)
  have a: "rates_of_kernel D' sp = Some (replicate W pop)" "rates_of_kernel D' (Suc G) = Some (replicate W push)"
    using C(4) low sp2(3) J(6-8) S by (simp_all add: rates_of_kernel_def D'_def)
  have b: "sched_ins (rtk (dh D') sp) = Some [qi]" "sched_outs (rtk (dh D') sp) = Some qs"
    "sched_ins (rtk (dh D') (Suc G)) = Some ps" "sched_outs (rtk (dh D') (Suc G)) = Some [qo]"
    using C(4) low sp2 J(4,5) by (simp_all add: D'_def ps_def)
  have qi2: "rs_pop_rate (rts (dh D2) qi) = pop * int W" "rs_push_rate (rts (dh D2) qo) = push * int W"
    using J(10) S low opts(2) by simp_all
  have notin: "qi \<notin> set qs" "qo \<notin> set ps" using low sets by auto
  have c: "rs_pop_rate (rts (dh D') qi) = sum_list (replicate W pop)" "rs_push_rate (rts (dh D') qo) = sum_list (replicate W push)"
    using C(5,6) qi2 notin by (simp_all add: D'_def zips sum_list_replicate mult.commute)
  have d: "rs_push_rate (rts (dh D') (qs ! j)) = pop \<and> rs_pop_rate (rts (dh D') (ps ! j)) = push \<and>
      rs_pop_rate (rts (dh D') (qs ! j)) = int W * pop \<and> rs_push_rate (rts (dh D') (ps ! j)) = int W * push" if j: "j < W" for j
  proof -
    have m: "qs ! j \<in> set qs" "ps ! j \<in> set ps" using j len by simp_all
    then have n: "qs ! j \<notin> set ps" "ps ! j \<notin> set qs" "qs ! j < G" using sets low by auto
    have ne: "qs ! j \<noteq> qo" using m(1) sets low by auto
    have "rs_push_rate (rts (dh D2) (qs ! j)) = rs_push_rate (rts (dh D1) (qs ! j))" using J(10) n(3) ne by simp
    moreover have "rs_push_rate (rts (dh D1) (qs ! j)) = pop" using S j by (simp only: nth)
    moreover have "rs_pop_rate (rts (dh D2) (ps ! j)) = push" using J(9) j by (simp only: nth)
    ultimately show ?thesis using C(5,6) m n qi2 by (simp add: D'_def zips mult.commute)
  qed
  have e: "distinct (qs @ ps)" "distinct (sp # Suc G # cs)"
    using low sets C(2) by (auto simp: qs_def ps_def simp del: upt_Suc)
  have dp: "dps D' me = (dps D me)\<lparr>my_kernel := Some k, my_split := Some sp, my_join := Some (Suc G),
      dp_kernels := dp_kernels (dps D me) @ cs, dp_width := int W\<rparr>"
    using S by (simp add: D'_def J(11) opts(2))
  have ln: "length cs = W" by (simp add: C(2) del: upt_Suc)
  have j1: "\<forall>j<W. sched_ins (rtk (dh D') (cs ! j)) = Some [qs ! j] \<and> sched_outs (rtk (dh D') (cs ! j)) = Some [ps ! j] \<and>
       base_work (rtk (dh D') (cs ! j)) = Some w0 \<and> kstate (rtk (dh D') (cs ! j)) = kstate (rtk (dh D) k)"
    using C(3) by (simp add: D'_def)
  have j2: "\<forall>j<W. rs_push_rate (rts (dh D') (qs ! j)) = pop \<and> rs_pop_rate (rts (dh D') (ps ! j)) = push"
    and j3: "\<forall>j<W. rs_pop_rate (rts (dh D') (qs ! j)) = int W * pop \<and> rs_push_rate (rts (dh D') (ps ! j)) = int W * push"
    using d by blast+
  show ?thesis
    by (intro exI [of _ D'] exI [of _ sp] exI [of _ "Suc G"] exI [of _ cs] exI [of _ qs] exI [of _ ps] conjI)
      (fact run dp ln len e b a c j1 j2 j3)+
qed

text \<open>With OpenCL the splitter pops more than the rate that its input is given.\<close>

lemma opencl_rates_unbalanced:
  assumes "opencl opts" and "DPWidth opts = int (Suc n)"
  shows "sum_list (dp_rates opts r) = r * (OpenCLMultiplier opts + int n)"
proof -
  have l: "[0..<Suc n] = 0 # map Suc [0..<n]" by (simp add: upt_conv_Cons map_Suc_upt del: upt_Suc)
  have "dp_rates opts r = r * OpenCLMultiplier opts # replicate n r"
    using assms unfolding dp_rates_def by (simp add: l del: upt_Suc) (auto simp: list_eq_iff_nth_eq)
  then show ?thesis by (simp add: sum_list_replicate algebra_simps)
qed

text \<open>
  C15. Fission, when OpenCL is not used, replaces a kernel by a network: the splitter reads
  the kernel's input, copy \<open>j\<close> reads the splitter's output \<open>j\<close>, runs the kernel's work function on its state and
  writes the joiner's input \<open>j\<close>, and the joiner writes the kernel's output; every object is new.
  The splitter gives each copy what one iteration of the kernel pops, and the joiner takes from each what it pushes;
  input and output have the sums of these rates.  But the copies' own ends get rates that are \<open>W\<close> times as large as the
  splitter's and the joiner's on the same streams: they are copied after they were multiplied.
\<close>

theorem dp_fission_wired:
  assumes io: "ins_of (rtk (dh D) k) = [qi]" "outs_of (rtk (dh D) k) = [qo]"
    and flags: "is_fixed_rate (rtk (dh D) k)" "\<not> is_stateful (rtk (dh D) k)" "\<not> has_peek (rtk (dh D) k)"
    and work: "base_work (rtk (dh D) k) = Some w0"
    and old: "k < fresh (dh D)" "qi < fresh (dh D)" "qo < fresh (dh D)"
    and opts: "\<not> opencl opts" "DPWidth opts = int W" "0 < W"
  defines "pop \<equiv> rs_pop_rate (rts (dh D) qi)" and "push \<equiv> rs_push_rate (rts (dh D) qo)"
  shows "\<exists>D' sp jn cs qs ps. dp_fission junk junk_w gopts opts wsplit wjoin me k D = Done D' \<and>
    dps D' me = (dps D me)\<lparr>my_kernel := Some k, my_split := Some sp, my_join := Some jn,
      dp_kernels := dp_kernels (dps D me) @ cs, dp_width := int W\<rparr> \<and>
    length cs = W \<and> length qs = W \<and> length ps = W \<and> distinct (qs @ ps) \<and> distinct (sp # jn # cs) \<and>
    sched_ins (rtk (dh D') sp) = Some [qi] \<and> sched_outs (rtk (dh D') sp) = Some qs \<and>
    sched_ins (rtk (dh D') jn) = Some ps \<and> sched_outs (rtk (dh D') jn) = Some [qo] \<and>
    (\<forall>j<W. sched_ins (rtk (dh D') (cs ! j)) = Some [qs ! j] \<and> sched_outs (rtk (dh D') (cs ! j)) = Some [ps ! j] \<and>
       base_work (rtk (dh D') (cs ! j)) = Some w0 \<and> kstate (rtk (dh D') (cs ! j)) = kstate (rtk (dh D) k)) \<and>
    rates_of_kernel D' sp = Some (replicate W pop) \<and> rates_of_kernel D' jn = Some (replicate W push) \<and>
    rs_pop_rate (rts (dh D') qi) = sum_list (replicate W pop) \<and> rs_push_rate (rts (dh D') qo) = sum_list (replicate W push) \<and>
    (\<forall>j<W. rs_push_rate (rts (dh D') (qs ! j)) = pop \<and> rs_pop_rate (rts (dh D') (ps ! j)) = push) \<and>
    (\<forall>j<W. rs_pop_rate (rts (dh D') (qs ! j)) = int W * pop \<and> rs_push_rate (rts (dh D') (ps ! j)) = int W * push)"
  using fission_lemma [OF assms(1-12)] unfolding pop_def push_def by blast

definition dp_sample :: dp_state where
  "dp_sample = \<lparr>dr = upd_rh (\<lambda>_. upd_rtk 2 (\<lambda>K. K\<lparr>nins := 1, nouts := 1, rt_ins := Some [5], rt_outs := Some [6],
     is_fixed_rate := True, is_stateful := False, base_work := Some 8\<rparr>) sample_heap) (sample_runtime blank_graph),
     dp_work = (\<lambda>_. \<lparr>next_stream = 0, dp_niter = 0, rate = [], num_streams = 0\<rparr>), dps = (\<lambda>_. new_dp_sched 4)\<rparr>"

theorem dp_fission_wired_witness:
  "\<exists>D' sp. dp_fission undefined (dp_work dp_sample 0) undefined \<lparr>DPWidth = 4, OpenCLMultiplier = 1, opencl = False\<rparr> 20 21 30 2 dp_sample = Done D' \<and>
     my_split (dps D' 30) = Some sp \<and> sched_ins (rtk (dh D') sp) = Some [5]"
proof -
  have "ins_of (rtk (dh dp_sample) 2) = [5]" "outs_of (rtk (dh dp_sample) 2) = [6]" "is_fixed_rate (rtk (dh dp_sample) 2)"
    "\<not> is_stateful (rtk (dh dp_sample) 2)" "\<not> has_peek (rtk (dh dp_sample) 2)" "base_work (rtk (dh dp_sample) 2) = Some 8"
    "2 < fresh (dh dp_sample)" "5 < fresh (dh dp_sample)" "6 < fresh (dh dp_sample)"
    by (simp_all add: dp_sample_def arr_def sample_heap_def new_rt_kernel_def)
  from dp_fission_wired [OF this, of "\<lparr>DPWidth = 4, OpenCLMultiplier = 1, opencl = False\<rparr>" 4] show ?thesis
    by fastforce
qed

end
