(* ===== verification/Merge_Sched.thy ===== *)
theory Merge_Sched
  imports Runtime_Graph
begin

section \<open>The scheduler that fuses kernels\<close>

text \<open>
  \<open>lib/SKIR/SKIRMergeSched.cpp\<close>: every kernel that is called is fused with the kernels it reads from, as
  far as that is possible.  A merge set is the kernel that represents it and the kernels that went into
  it; the vector of the scheduler holds pointers to merge sets, so that a set that was erased
  may still be written to.
\<close>

record merge_set =
  ms_first :: "ptr option"
  ms_set :: "ptr set"

record merge_state =
  mg :: graph
  merge_sets :: "nat list"
  ms_of :: "nat \<Rightarrow> merge_set"
  ms_next :: nat
  m_running :: int
  m_sched :: ptr

subsection \<open>Merge sets\<close>

fun find_set :: "ptr \<Rightarrow> (nat \<Rightarrow> merge_set) \<Rightarrow> nat list \<Rightarrow> nat option" where
  "find_set k ms [] = None"
| "find_set k ms (m # mm) =
     (if ms_first (ms m) = Some k \<or> k \<in> ms_set (ms m) then Some m else find_set k ms mm)"

definition m_map_find :: "ptr \<Rightarrow> merge_state \<Rightarrow> nat option" where
  "m_map_find k M = find_set k (ms_of M) (merge_sets M)"

definition upd_ms :: "nat \<Rightarrow> (merge_set \<Rightarrow> merge_set) \<Rightarrow> merge_state \<Rightarrow> merge_state" where
  "upd_ms m f M = M\<lparr>ms_of := (ms_of M)(m := f (ms_of M m))\<rparr>"

definition m_map_append :: "nat \<Rightarrow> merge_state \<Rightarrow> merge_state" where
  "m_map_append m M = M\<lparr>merge_sets := merge_sets M @ [m]\<rparr>"

definition m_map_insert :: "ptr \<Rightarrow> nat \<Rightarrow> merge_state \<Rightarrow> merge_state" where
  "m_map_insert k m M = upd_ms m (\<lambda>s. s\<lparr>ms_set := insert k (ms_set s)\<rparr>) M"

definition m_map_replace :: "ptr \<Rightarrow> nat \<Rightarrow> merge_state \<Rightarrow> merge_state" where
  "m_map_replace k m M = upd_ms m (\<lambda>s. s\<lparr>ms_first := Some k\<rparr>) M"

definition m_map_erase :: "nat \<Rightarrow> merge_state \<Rightarrow> merge_state" where
  "m_map_erase m M =
     (if m \<in> set (merge_sets M)
      then (upd_ms m (\<lambda>s. \<lparr>ms_first = None, ms_set = {}\<rparr>) M)\<lparr>merge_sets := remove1 m (merge_sets M)\<rparr>
      else M)"

subsection \<open>Merging\<close>

text \<open>What happens after kernel \<open>k\<close> was fused into set \<open>m\<close>, with the result \<open>new\<close>.\<close>

definition merge_into :: "nat \<Rightarrow> ptr \<Rightarrow> ptr \<Rightarrow> merge_state \<Rightarrow> merge_state" where
  "merge_into m k new M =
     (let M = (case m_map_find k M of None \<Rightarrow> M | Some ms \<Rightarrow> m_map_erase ms M) in
      m_map_replace new m (m_map_insert k m M))"

text \<open>The tests on the kernel that is called and on the one it reads from.\<close>

definition may_merge :: "rt_kernel \<Rightarrow> bool" where
  "may_merge K \<longleftrightarrow> \<not> has_peek K \<and> is_const_idx K"

definition may_merge_with :: "nat \<Rightarrow> merge_set \<Rightarrow> ptr \<Rightarrow> rt_kernel \<Rightarrow> ptr \<Rightarrow> rt_kernel \<Rightarrow> bool" where
  "may_merge_with MaxMergeSize s k K k' K' \<longleftrightarrow> card (ms_set s) < MaxMergeSize \<and> k' \<noteq> k \<and>
     is_const_idx K' \<and> \<not> has_peek K' \<and> nouts K' \<le> 2 \<and> nins K \<le> 2"

text \<open>The loop over the inputs; \<open>is\<close> are the implementations of the inputs that are left.\<close>

fun try_inputs :: "rt_kernel \<Rightarrow> nat \<Rightarrow> ptr \<Rightarrow> ptr option list \<Rightarrow> merge_state \<Rightarrow> (unit, ptr option \<times> merge_state) outcome" where
  "try_inputs junk maxm k [] M = Done (None, M)"
| "try_inputs junk maxm k (None # is) M = Fault"
| "try_inputs junk maxm k (Some s # is) M =
     (case (case src (hdr (gh (mg M)) s) of KernEnd p \<Rightarrow> m_map_find p M | _ \<Rightarrow> None) of
        None \<Rightarrow> try_inputs junk maxm k is M
      | Some m \<Rightarrow>
          (case ms_first (ms_of M m) of
             None \<Rightarrow> Fault
           | Some k' \<Rightarrow>
               if \<not> may_merge_with maxm (ms_of M m) k (rtk (gh (mg M)) k) k' (rtk (gh (mg M)) k')
               then try_inputs junk maxm k is M
               else
                 bind_out (g_fuseKernels junk k' k (mg M)) (\<lambda>(r, g).
                   (let M = M\<lparr>mg := g\<rparr> in
                    case r of
                      None \<Rightarrow> try_inputs junk maxm k is M
                    | Some new \<Rightarrow> Done (Some new, merge_into m k new M)))))"

definition tryMerge :: "rt_kernel \<Rightarrow> nat \<Rightarrow> ptr \<Rightarrow> merge_state \<Rightarrow> (unit, ptr option \<times> merge_state) outcome" where
  "tryMerge junk maxm k M =
     (let K = rtk (gh (mg M)) k in
      if \<not> may_merge K then Done (None, M)
      else (case impl_ins K of
          None \<Rightarrow> if nins K = 0 then Done (None, M) else Fault
        | Some is \<Rightarrow> if nins K \<le> length is then try_inputs junk maxm k (take (nins K) is) M else Fault))"

text \<open>
  \<open>callKernel\<close> goes on with the fused kernel, which is scheduled by \<open>me\<close> too; the fuel bounds how often,
  and every fusion takes two kernels from the graph and adds one.
\<close>

fun m_callKernel :: "nat \<Rightarrow> rt_kernel \<Rightarrow> nat \<Rightarrow> ptr \<Rightarrow> ptr \<Rightarrow> merge_state \<Rightarrow> (unit, merge_state) outcome option" where
  "m_callKernel 0 junk maxm me k M = None"
| "m_callKernel (Suc n) junk maxm me k M =
     (case tryMerge junk maxm k M of
        WouldBlock a b \<Rightarrow> Some (WouldBlock a b)
      | Fault \<Rightarrow> Some Fault
      | Done (None, M) \<Rightarrow>
          (if m_map_find k M = None then
             (let m = ms_next M;
                  M = M\<lparr>ms_next := Suc m, ms_of := (ms_of M)(m := \<lparr>ms_first = Some k, ms_set = {}\<rparr>)\<rparr> in
              Some (Done (m_map_append m (m_map_insert k m M))))
           else Some (Done M))
      | Done (Some new, M) \<Rightarrow> m_callKernel n junk maxm me new (M\<lparr>mg := set_sched new me (mg M)\<rparr>))"

text \<open>The kernel a wait, pause or resumption of \<open>k\<close> is passed on to; the code does not test for null.\<close>

definition m_target :: "ptr \<Rightarrow> merge_state \<Rightarrow> (unit, ptr) outcome" where
  "m_target k M =
     (case m_map_find k M of
        None \<Rightarrow> Fault
      | Some m \<Rightarrow> (case ms_first (ms_of M m) of None \<Rightarrow> Fault | Some k' \<Rightarrow> Done k'))"

text \<open>\<open>run\<close> hands the representatives to the work-stealing scheduler, whose call is \<open>tbb\<close>.\<close>

definition run_set :: "(ptr \<Rightarrow> graph \<Rightarrow> (unit, graph) outcome) \<Rightarrow> nat \<Rightarrow> merge_state \<Rightarrow> (unit, merge_state) outcome" where
  "run_set tbb m M =
     (case ms_first (ms_of M m) of
        None \<Rightarrow> Done M
      | Some k \<Rightarrow>
          bind_out (tbb k (start_sched (m_sched M) (set_sched k (m_sched M) (mg M)))) (\<lambda>g. Done (M\<lparr>mg := g\<rparr>)))"

fun run_sets :: "(ptr \<Rightarrow> graph \<Rightarrow> (unit, graph) outcome) \<Rightarrow> nat list \<Rightarrow> merge_state \<Rightarrow> (unit, merge_state) outcome" where
  "run_sets tbb [] M = Done M"
| "run_sets tbb (m # mm) M = bind_out (run_set tbb m M) (run_sets tbb mm)"

definition m_run :: "(ptr \<Rightarrow> graph \<Rightarrow> (unit, graph) outcome) \<Rightarrow> merge_state \<Rightarrow> (unit, merge_state) outcome" where
  "m_run tbb M =
     (if m_running M = 0
      then run_sets tbb (merge_sets M) (M\<lparr>m_running := 1, m_sched := the_tbb_sched (mg M)\<rparr>)
      else Done M)"

definition m_start :: "merge_state \<Rightarrow> merge_state" where
  "m_start M = (if m_running M = 0 then M\<lparr>m_running := 1\<rparr> else M)"

definition m_stop :: "merge_state \<Rightarrow> merge_state" where
  "m_stop M = (if m_running M = 1 then M\<lparr>m_running := 0\<rparr> else M)"

text \<open>A scheduler that was started before the first wait never runs what it merged.\<close>

lemma started_never_runs: "m_running M = 0 \<Longrightarrow> m_run tbb (m_start M) = Done (m_start M)"
  by (simp add: m_run_def m_start_def)

subsection \<open>What merging keeps track of\<close>

text \<open>The kernels that belong to a set, and sets that do not overlap.\<close>

definition members :: "merge_set \<Rightarrow> ptr set" where
  "members s = ms_set s \<union> set_option (ms_first s)"

definition sets_ok :: "merge_state \<Rightarrow> bool" where
  "sets_ok M \<longleftrightarrow> distinct (merge_sets M) \<and>
     (\<forall>m\<in>set (merge_sets M). \<forall>m'\<in>set (merge_sets M). m \<noteq> m' \<longrightarrow> members (ms_of M m) \<inter> members (ms_of M m') = {})"

lemma find_set_Some: "find_set k ms mm = Some m \<Longrightarrow> m \<in> set mm \<and> k \<in> members (ms m)"
  by (induction mm) (auto simp: members_def split: if_splits)

lemma find_set_None: "find_set k ms mm = None \<longleftrightarrow> (\<forall>m\<in>set mm. k \<notin> members (ms m))"
  by (induction mm) (auto simp: members_def)

lemma m_find:
  assumes "sets_ok M"
  shows "m_map_find k M = Some m \<longleftrightarrow> m \<in> set (merge_sets M) \<and> k \<in> members (ms_of M m)"
proof
  assume "m \<in> set (merge_sets M) \<and> k \<in> members (ms_of M m)"
  then have m: "m \<in> set (merge_sets M)" "k \<in> members (ms_of M m)" by simp_all
  then have "find_set k (ms_of M) (merge_sets M) \<noteq> None" by (auto simp: find_set_None)
  then obtain m' where m': "find_set k (ms_of M) (merge_sets M) = Some m'" by blast
  from find_set_Some [OF this] m assms have "m' = m" unfolding sets_ok_def by blast
  with m' show "m_map_find k M = Some m" by (simp add: m_map_find_def)
qed (auto simp: m_map_find_def dest: find_set_Some)

lemma merge_into_sets:
  "merge_sets (merge_into m k new M) = (case m_map_find k M of None \<Rightarrow> merge_sets M | Some ms \<Rightarrow> remove1 ms (merge_sets M))"
  by (auto simp: merge_into_def m_map_replace_def m_map_insert_def upd_ms_def m_map_erase_def m_map_find_def Let_def
    split: option.splits dest: find_set_Some)

lemma merge_into_members:
  assumes "m_map_find k M \<noteq> Some m"
  shows "members (ms_of (merge_into m k new M) m) = insert new (insert k (ms_set (ms_of M m)))"
    "m' \<noteq> m \<Longrightarrow> m_map_find k M \<noteq> Some m' \<Longrightarrow> ms_of (merge_into m k new M) m' = ms_of M m'"
  using assms by (auto simp: merge_into_def m_map_replace_def m_map_insert_def upd_ms_def m_map_erase_def Let_def members_def
    split: option.splits)

lemma option_eqI: "(\<And>y. a = Some y \<longleftrightarrow> b = Some y) \<Longrightarrow> a = b"
  by (cases a; cases b) auto

lemma merge_lemma:
  assumes ok: "sets_ok M" and m: "m \<in> set (merge_sets M)" and k: "k \<notin> members (ms_of M m)"
    and new: "m_map_find new M = None" "new \<noteq> k"
  shows "sets_ok (merge_into m k new M)"
    "m_map_find x (merge_into m k new M) =
       (if x = k \<or> x = new \<or> x \<in> ms_set (ms_of M m) then Some m
        else if m_map_find x M = Some m \<or> m_map_find x M = m_map_find k M then None
        else m_map_find x M)"
proof -
  let ?M = "merge_into m k new M"
  have km: "m_map_find k M \<noteq> Some m" using k m_find [OF ok] by blast
  have sets: "set (merge_sets ?M) = set (merge_sets M) - set_option (m_map_find k M)"
    using ok by (auto simp: merge_into_sets sets_ok_def split: option.splits)
  have d: "distinct (merge_sets ?M)" using ok by (auto simp: merge_into_sets sets_ok_def split: option.splits)
  have mem: "members (ms_of ?M m) = insert new (insert k (ms_set (ms_of M m)))" by (rule merge_into_members(1) [OF km])
  have oth: "members (ms_of ?M m') = members (ms_of M m')" if "m' \<in> set (merge_sets ?M)" "m' \<noteq> m" for m'
    using that sets merge_into_members(2) [OF km, of m' new] by simp
  have free: "new \<notin> members (ms_of M m')" if "m' \<in> set (merge_sets M)" for m'
    using new(1) that by (auto simp: m_map_find_def find_set_None)
  have kfree: "k \<notin> members (ms_of M m')" if "m' \<in> set (merge_sets ?M)" for m'
    using that sets m_find [OF ok, of k m'] by auto
  have sub: "ms_set (ms_of M m) \<subseteq> members (ms_of M m)" by (auto simp: members_def)
  show ok': "sets_ok ?M"
    unfolding sets_ok_def
  proof (intro conjI d ballI impI)
    fix a b assume ab: "a \<in> set (merge_sets ?M)" "b \<in> set (merge_sets ?M)" "a \<noteq> b"
    have dis: "members (ms_of M a) \<inter> members (ms_of M b) = {}" using ok ab sets by (auto simp: sets_ok_def)
    show "members (ms_of ?M a) \<inter> members (ms_of ?M b) = {}"
    proof (cases "a = m")
      case True
      then show ?thesis using mem oth [OF ab(2)] ab sets free kfree [OF ab(2)] sub dis by auto
    next
      case False
      show ?thesis
      proof (cases "b = m")
        case True
        then show ?thesis using mem oth [OF ab(1) False] ab sets free kfree [OF ab(1)] sub dis by auto
      next
        case b: False
        then show ?thesis using oth [OF ab(1) False] oth [OF ab(2) b] dis by simp
      qed
    qed
  qed
  have min: "m \<in> set (merge_sets ?M)" using m km sets by auto
  have char: "m_map_find x ?M = Some m' \<longleftrightarrow>
      (if m' = m then x = k \<or> x = new \<or> x \<in> ms_set (ms_of M m)
       else m_map_find x M = Some m' \<and> m_map_find k M \<noteq> Some m')" for m'
  proof (cases "m' = m")
    case True
    then show ?thesis by (simp add: m_find [OF ok'] min mem insert_commute disj_commute disj_left_commute)
  next
    case False
    have "m_map_find x ?M = Some m' \<longleftrightarrow> m' \<in> set (merge_sets ?M) \<and> x \<in> members (ms_of ?M m')" by (rule m_find [OF ok'])
    also have "\<dots> \<longleftrightarrow> m' \<in> set (merge_sets ?M) \<and> x \<in> members (ms_of M m')" using oth [of m'] False by blast
    also have "\<dots> \<longleftrightarrow> (m' \<in> set (merge_sets M) \<and> m_map_find k M \<noteq> Some m') \<and> x \<in> members (ms_of M m')"
      by (simp add: sets elem_set)
    finally show ?thesis using m_find [OF ok, of x m'] False by (simp add: conj_ac)
  qed
  show "m_map_find x ?M =
       (if x = k \<or> x = new \<or> x \<in> ms_set (ms_of M m) then Some m
        else if m_map_find x M = Some m \<or> m_map_find x M = m_map_find k M then None
        else m_map_find x M)"
  proof (rule option_eqI)
    fix m'
    show "m_map_find x ?M = Some m' \<longleftrightarrow>
       (if x = k \<or> x = new \<or> x \<in> ms_set (ms_of M m) then Some m
        else if m_map_find x M = Some m \<or> m_map_find x M = m_map_find k M then None
        else m_map_find x M) = Some m'"
    proof (cases "x = k \<or> x = new \<or> x \<in> ms_set (ms_of M m)")
      case True
      then show ?thesis using char [of m] by (simp add: eq_commute)
    next
      case False
      then have "m_map_find x ?M = Some m' \<longleftrightarrow> m' \<noteq> m \<and> m_map_find x M = Some m' \<and> m_map_find k M \<noteq> Some m'"
        using char [of m'] by presburger
      moreover have "m_map_find x M = m_map_find k M \<and> m_map_find x M = Some m' \<longleftrightarrow>
          m_map_find x M = Some m' \<and> m_map_find k M = Some m'" by auto
      ultimately show ?thesis using False by auto
    qed
  qed
qed

text \<open>
  C32. After kernel \<open>k\<close> was fused into set \<open>m\<close>, the sets still do not overlap and \<open>m\<close> is found for \<open>k\<close>, for
  the fused kernel, which represents it, and for the kernels that were put into it before; other
  sets are as they were.  But the kernels of a set that \<open>k\<close> itself represented are forgotten with it: a
  wait for one of them, or a pause, dereferences a null pointer.
\<close>

theorem merge_forgets_members:
  assumes "sets_ok M" and "m \<in> set (merge_sets M)" and "k \<notin> members (ms_of M m)"
    and "m_map_find new M = None" and "new \<noteq> k"
  shows "sets_ok (merge_into m k new M) \<and>
    (\<forall>x \<in> {k, new} \<union> ms_set (ms_of M m). m_target x (merge_into m k new M) = Done new) \<and>
    (\<forall>x ms. m_map_find x M = Some ms \<and> ms \<noteq> m \<and> m_map_find k M \<noteq> Some ms \<longrightarrow>
       m_target x (merge_into m k new M) = m_target x M) \<and>
    (\<forall>x. m_map_find k M \<noteq> None \<and> m_map_find x M = m_map_find k M \<and> x \<noteq> k \<longrightarrow>
       m_target x (merge_into m k new M) = Fault)"
proof -
  note L = merge_lemma [OF assms]
  have km: "m_map_find k M \<noteq> Some m" using assms(3) m_find [OF assms(1)] by blast
  have first: "ms_first (ms_of (merge_into m k new M) m) = Some new"
    by (simp add: merge_into_def m_map_replace_def upd_ms_def Let_def)
  have "m_target x (merge_into m k new M) = Done new" if "x \<in> {k, new} \<union> ms_set (ms_of M m)" for x
    using that L(2) [of x] first by (auto simp: m_target_def)
  moreover have "m_target x (merge_into m k new M) = m_target x M"
    if x: "m_map_find x M = Some ms" "ms \<noteq> m" "m_map_find k M \<noteq> Some ms" for x ms
  proof -
    have xm: "x \<notin> members (ms_of M m)" using x m_find [OF assms(1), of x m] assms(2) by simp
    have "x \<noteq> k" using x by blast
    note xm = xm this
    then have "x \<notin> ms_set (ms_of M m)" "x \<noteq> new" using x(1) assms(4) by (auto simp: members_def)
    then have "m_map_find x (merge_into m k new M) = Some ms" using L(2) [of x] x xm by simp
    then show ?thesis using x merge_into_members(2) [OF km x(2,3)] by (simp add: m_target_def)
  qed
  moreover have "m_target x (merge_into m k new M) = Fault"
    if x: "m_map_find k M \<noteq> None" "m_map_find x M = m_map_find k M" "x \<noteq> k" for x
  proof -
    have "m_map_find x M \<noteq> Some m" using x(2) km by simp
    then have "x \<notin> ms_set (ms_of M m)" using m_find [OF assms(1), of x m] assms(2) by (auto simp: members_def)
    then have "m_map_find x (merge_into m k new M) = None" using L(2) [of x] x assms(4) by auto
    then show ?thesis by (simp add: m_target_def)
  qed
  ultimately show ?thesis using L(1) by blast
qed

text \<open>Kernels 1 and 2 were fused to 3; now 3 is fused with kernel 4, and a wait for 1 fails.\<close>

definition merge_sample :: "graph \<Rightarrow> merge_state" where
  "merge_sample g = \<lparr>mg = g, merge_sets = [0, 1],
     ms_of = (\<lambda>m. if m = 0 then \<lparr>ms_first = Some 3, ms_set = {1, 2}\<rparr> else \<lparr>ms_first = Some 4, ms_set = {4}\<rparr>),
     ms_next = 2, m_running = 0, m_sched = 901\<rparr>"

theorem merge_forgets_members_witness:
  "\<forall>g. m_target 1 (merge_into 1 3 5 (merge_sample g)) = Fault \<and> m_target 4 (merge_into 1 3 5 (merge_sample g)) = Done 5"
proof
  fix g
  have "sets_ok (merge_sample g)" "1 \<in> set (merge_sets (merge_sample g))" "3 \<notin> members (ms_of (merge_sample g) 1)"
    "m_map_find 5 (merge_sample g) = None" "(5 :: nat) \<noteq> 3"
    by (auto simp: merge_sample_def sets_ok_def members_def m_map_find_def)
  from merge_forgets_members [OF this]
  show "m_target 1 (merge_into 1 3 5 (merge_sample g)) = Fault \<and> m_target 4 (merge_into 1 3 5 (merge_sample g)) = Done 5"
    by (auto simp: merge_sample_def m_map_find_def)
qed

end
