(* ===== verification/Streamit_Lib.thy ===== *)
theory Streamit_Lib
  imports Skir_Prelude
begin

section \<open>The run-time library of StreamIt programs\<close>

text \<open>
  \<open>tools/streamit/streamit.cpp\<close>: the splitters, joiners and filters that the compiler refers to.  Each is a
  work function that pops from numbered inputs and pushes to numbered outputs; here an input is the
  list of elements that will arrive and an output the list of those that were pushed.  A work function
  that needs more elements than arrive waits, and never returns.
  What the wrappers do is to choose one of many instances of a template for the numbers at hand.
\<close>

type_synonym elem = "32 word"

record io =
  io_ins :: "nat \<Rightarrow> elem list"
  io_outs :: "nat \<Rightarrow> elem list"

type_synonym lib_work = "io \<Rightarrow> (nat, int \<times> io) outcome"

definition SKIR_pop :: "nat \<Rightarrow> io \<Rightarrow> (nat, elem \<times> io) outcome" where
  "SKIR_pop i s =
     (case io_ins s i of
        [] \<Rightarrow> WouldBlock i i
      | e # es \<Rightarrow> Done (e, s\<lparr>io_ins := (io_ins s)(i := es)\<rparr>))"

definition SKIR_push :: "nat \<Rightarrow> elem \<Rightarrow> io \<Rightarrow> io" where
  "SKIR_push i e s = s\<lparr>io_outs := (io_outs s)(i := io_outs s i @ [e])\<rparr>"

definition move :: "nat \<Rightarrow> nat \<Rightarrow> io \<Rightarrow> (nat, io) outcome" where
  "move i k s = bind_out (SKIR_pop i s) (\<lambda>(e, s). Done (SKIR_push k e s))"

definition returns :: "int \<Rightarrow> (nat, io) outcome \<Rightarrow> (nat, int \<times> io) outcome" where
  "returns v r = bind_out r (\<lambda>s. Done (v, s))"

subsection \<open>Splitters\<close>

definition split_dup_loop :: "nat \<Rightarrow> io \<Rightarrow> (nat, io) outcome" where
  "split_dup_loop n s = bind_out (SKIR_pop 0 s) (\<lambda>(e, s). for_out [0..<n] (\<lambda>i s. Done (SKIR_push i e s)) s)"

definition split_dup_work_N :: "nat \<Rightarrow> lib_work" where
  "split_dup_work_N NOUT s = returns 0 (split_dup_loop NOUT s)"

definition split_dup_work_0 :: "int \<Rightarrow> lib_work" where
  "split_dup_work_0 nout s = returns 0 (split_dup_loop (nat nout) s)"

definition splitdup_work :: "int \<Rightarrow> lib_work" where
  "splitdup_work n s = returns 0 (split_dup_loop (nat (n - 2)) s)"

text \<open>The kernel that \<open>__streamit__splitdupN_work\<close> creates and calls on its own streams.\<close>

definition splitdupN_work :: "int \<Rightarrow> lib_work" where
  "splitdupN_work num =
     (if num - 2 \<in> {16, 8, 6, 4, 2} then split_dup_work_N (nat (num - 2)) else split_dup_work_0 (num - 2))"

definition split_rr_loop :: "nat \<Rightarrow> nat \<Rightarrow> io \<Rightarrow> (nat, io) outcome" where
  "split_rr_loop n a s = for_out [0..<n] (\<lambda>i. for_out [0..<a] (\<lambda>j. move 0 i)) s"

definition split_rr_work :: "int \<Rightarrow> int \<Rightarrow> lib_work" where
  "split_rr_work nout arg s = returns 0 (split_rr_loop (nat nout) (nat arg) s)"

definition split_rr_work_N_A :: "nat \<Rightarrow> nat \<Rightarrow> lib_work" where
  "split_rr_work_N_A NOUT ARG s = returns 0 (split_rr_loop NOUT ARG s)"

definition splitrr1_work :: "int \<Rightarrow> int \<Rightarrow> lib_work" where
  "splitrr1_work n weight s = returns 0 (split_rr_loop (nat (n - 2)) (nat weight) s)"

definition splitrr0_work :: lib_work where
  "splitrr0_work s = Done (1, s)"

definition split_rr_table :: "(int \<times> int) list" where
  "split_rr_table = [(16,16), (16,1), (48,1), (64,1), (4,2), (2,4), (1,8), (2,1), (4,1), (8,1), (8,8)]"

text \<open>For a pair that is not in the table a message is printed and no kernel is called.\<close>

definition splitrrN_work :: "int \<Rightarrow> int \<Rightarrow> lib_work option" where
  "splitrrN_work num arg =
     (if (num - 2, arg) \<in> set split_rr_table then Some (split_rr_work_N_A (nat (num - 2)) (nat arg)) else None)"

definition split_rr_work_A_B_C :: "nat \<Rightarrow> nat \<Rightarrow> nat \<Rightarrow> lib_work" where
  "split_rr_work_A_B_C a b c s =
     returns 0
       (bind_out (for_out [0..<a] (\<lambda>j. move 0 0) s) (\<lambda>s.
        bind_out (for_out [0..<b] (\<lambda>j. move 0 1) s) (\<lambda>s.
          for_out [0..<c] (\<lambda>j. move 0 2) s)))"

definition split_W_table :: "(int \<times> int \<times> int) list" where
  "split_W_table = [(1,63,0), (384,16,3), (32,32,0)]"

definition splitrrW_work :: "int \<Rightarrow> int \<Rightarrow> int \<Rightarrow> int \<Rightarrow> lib_work option" where
  "splitrrW_work num arg0 arg1 arg2 =
     (if (arg0, arg1, arg2) \<in> set split_W_table
      then Some (split_rr_work_A_B_C (nat arg0) (nat arg1) (nat arg2)) else None)"

subsection \<open>Joiners\<close>

definition join_rr_loop :: "nat \<Rightarrow> nat \<Rightarrow> io \<Rightarrow> (nat, io) outcome" where
  "join_rr_loop n a s = for_out [0..<n] (\<lambda>i. for_out [0..<a] (\<lambda>j. move i 0)) s"

definition join_rr_work :: "int \<Rightarrow> int \<Rightarrow> lib_work" where
  "join_rr_work nin arg s = returns 0 (join_rr_loop (nat nin) (nat arg) s)"

definition join_rr_work_N_A :: "nat \<Rightarrow> nat \<Rightarrow> lib_work" where
  "join_rr_work_N_A NIN ARG s = returns 0 (join_rr_loop NIN ARG s)"

definition join_rr_work_0_0 :: "int \<Rightarrow> int \<Rightarrow> lib_work" where
  "join_rr_work_0_0 nin arg s = returns 0 (join_rr_loop (nat nin) (nat arg) s)"

definition joinrr1_work :: "int \<Rightarrow> int \<Rightarrow> lib_work" where
  "joinrr1_work n weight s = returns 0 (join_rr_loop (nat (n - 2)) (nat weight) s)"

definition join_rr_table :: "(int \<times> int) list" where
  "join_rr_table = [(16,1), (16,16), (32,32), (6,1), (8,1), (12,2), (4,1), (2,1), (1,8), (2,4), (4,2), (48,1),
     (64,1), (10,8), (8,8), (6,8), (6,3), (2,32)]"

definition joinrrN_work :: "int \<Rightarrow> int \<Rightarrow> lib_work" where
  "joinrrN_work num arg =
     (if (num - 2, arg) \<in> set join_rr_table then join_rr_work_N_A (nat (num - 2)) (nat arg)
      else join_rr_work_0_0 (num - 2) arg)"

definition join_rr_work_A_B_C :: "nat \<Rightarrow> nat \<Rightarrow> nat \<Rightarrow> lib_work" where
  "join_rr_work_A_B_C a b c s =
     returns 0
       (bind_out (for_out [0..<a] (\<lambda>j. move 0 0) s) (\<lambda>s.
        bind_out (for_out [0..<b] (\<lambda>j. move 1 0) s) (\<lambda>s.
          for_out [0..<c] (\<lambda>j. move 2 0) s)))"

definition join_W_table :: "(int \<times> int \<times> int) list" where
  "join_W_table = [(1,63,0), (64,64,0), (64,8,3), (32,32,0), (1,16,0)]"

definition joinrrW_work :: "int \<Rightarrow> int \<Rightarrow> int \<Rightarrow> int \<Rightarrow> lib_work option" where
  "joinrrW_work num arg0 arg1 arg2 =
     (if (arg0, arg1, arg2) \<in> set join_W_table
      then Some (join_rr_work_A_B_C (nat arg0) (nat arg1) (nat arg2)) else None)"

definition Identity_work :: lib_work where
  "Identity_work s = returns 0 (move 0 0 s)"

subsection \<open>Files and the sink\<close>

text \<open>
  A file is the list of its bytes, and reads and writes do not fail.  The element is a variable of four
  bytes that is not initialised: \<open>junk\<close> is what it holds, and what it keeps where the file ends.
  A reader has the position; the results are the element that is pushed, the new position and the value that
  is returned.
\<close>

definition pread_elem :: "byte list \<Rightarrow> byte list \<Rightarrow> nat \<Rightarrow> byte list \<times> nat" where
  "pread_elem junk file offset =
     (let bs = take 4 (drop offset file) in (bs @ drop (length bs) junk, length bs))"

definition FileReaderInt32_work :: "byte list \<Rightarrow> byte list \<Rightarrow> nat \<Rightarrow> byte list \<times> nat \<times> int" where
  "FileReaderInt32_work junk file offset =
     (let (e, r) = pread_elem junk file offset in
      if r \<le> 0 then (e, 0, 0) else (e, offset + r, 0))"

definition FileReaderFloat_work :: "byte list \<Rightarrow> byte list \<Rightarrow> nat \<Rightarrow> byte list \<times> nat \<times> int" where
  "FileReaderFloat_work junk file offset =
     (let (e, r) = pread_elem junk file offset in (e, offset + r, if r \<le> 0 then 1 else 0))"

definition FileWriterInt32_work :: "byte list \<Rightarrow> byte list \<Rightarrow> byte list" where
  "FileWriterInt32_work e file = file @ e"

definition FileWriterFloat_work :: "byte list \<Rightarrow> byte list \<Rightarrow> byte list" where
  "FileWriterFloat_work e file = file @ e"

text \<open>
  The sink counts elements and prints rates; \<open>speed\<close> stands for the division of the interval by the
  time that passed, in floating point.
\<close>

record sink =
  dummy_cnt :: uint64
  dummy_total :: uint64
  dummy_niters :: uint64
  dummy_div :: uint64

definition DummySinkInt_work :: "(uint64 \<Rightarrow> uint64) \<Rightarrow> sink \<Rightarrow> io \<Rightarrow> (nat, int \<times> sink \<times> io) outcome" where
  "DummySinkInt_work speed k s =
     bind_out (SKIR_pop 0 s) (\<lambda>(e, s).
       (let k = k\<lparr>dummy_cnt := dummy_cnt k + 1, dummy_total := dummy_total k + 1\<rparr> in
        Done (0,
          (if dummy_cnt k = dummy_div k then
             (let k = (if dummy_niters k \<noteq> 0 then k\<lparr>dummy_div := speed (dummy_div k)\<rparr> else k\<lparr>dummy_total := 0\<rparr>) in
              k\<lparr>dummy_niters := dummy_niters k + 1, dummy_cnt := 0\<rparr>)
           else k), s)))"

text \<open>There is one set of counters for both sinks, and a program has one sink at most.\<close>

definition DummySinkFloat_work :: "(uint64 \<Rightarrow> uint64) \<Rightarrow> sink \<Rightarrow> io \<Rightarrow> (nat, int \<times> sink \<times> io) outcome" where
  "DummySinkFloat_work speed k s =
     bind_out (SKIR_pop 0 s) (\<lambda>(e, s).
       (let k = k\<lparr>dummy_cnt := dummy_cnt k + 1, dummy_total := dummy_total k + 1\<rparr> in
        Done (0,
          (if dummy_cnt k = dummy_div k then
             (let k = (if dummy_niters k \<noteq> 0 then k\<lparr>dummy_div := speed (dummy_div k)\<rparr> else k\<lparr>dummy_total := 0\<rparr>) in
              k\<lparr>dummy_niters := dummy_niters k + 1, dummy_cnt := 0\<rparr>)
           else k), s)))"

definition DummySink_init :: "int \<Rightarrow> (nat, int) outcome" where
  "DummySink_init dummy_sink = (if dummy_sink \<noteq> 0 then Fault else Done (dummy_sink + 1))"

subsection \<open>The chosen instances do what the general functions do\<close>

text \<open>
  For a pair that the round-robin splitter has no instance for it calls no kernel at all, so that its outputs
  stay empty, although the joiner has an instance for every pair.
\<close>

lemma library_instances:
  "splitdupN_work num = splitdup_work num" "joinrrN_work num weight = joinrr1_work num weight"
  "splitrrN_work num weight =
     (if (num - 2, weight) \<in> set split_rr_table then Some (splitrr1_work num weight) else None)"
  unfolding splitdupN_work_def splitdup_work_def split_dup_work_N_def split_dup_work_0_def
    joinrrN_work_def joinrr1_work_def join_rr_work_N_A_def join_rr_work_0_0_def splitrrN_work_def splitrr1_work_def
    split_rr_work_N_A_def
  by (simp_all only: simp_thms if_cancel)

subsection \<open>Dealing out and gathering\<close>

text \<open>The state in which input \<open>i\<close> has lost and output \<open>i\<close> has gained some elements.\<close>

definition io_state :: "(nat \<Rightarrow> elem list) \<Rightarrow> (nat \<Rightarrow> elem list) \<Rightarrow> io" where
  "io_state ins outs = \<lparr>io_ins = ins, io_outs = outs\<rparr>"

lemma io_state_simps [simp]:
  "io_ins (io_state f g) = f" "io_outs (io_state f g) = g"
  "(io_state f g)\<lparr>io_ins := f'\<rparr> = io_state f' g" "(io_state f g)\<lparr>io_outs := g'\<rparr> = io_state f g'"
  by (simp_all add: io_state_def)

lemma moves:
  "f i = xs @ ys \<Longrightarrow>
   for_out [a..<a + length xs] (\<lambda>j. move i k) (io_state f g) = Done (io_state (f(i := ys)) (g(k := g k @ xs)))"
proof (induction xs arbitrary: a f g)
  case Nil
  then show ?case by (simp add: fun_upd_idem)
next
  case (Cons x xs)
  have m: "move i k (io_state f g) = Done (io_state (f(i := xs @ ys)) (g(k := g k @ [x])))"
    using Cons.prems by (simp add: move_def SKIR_pop_def SKIR_push_def)
  have "[a..<a + length (x # xs)] = a # [Suc a..<Suc a + length xs]" by (simp add: upt_conv_Cons del: upt_Suc)
  moreover have "for_out [Suc a..<Suc a + length xs] (\<lambda>j. move i k) (io_state (f(i := xs @ ys)) (g(k := g k @ [x]))) =
      Done (io_state (f(i := ys)) (g(k := g k @ x # xs)))"
    using Cons.IH [of "f(i := xs @ ys)" "Suc a" "g(k := g k @ [x])"] by (simp only: fun_upd_same fun_upd_upd append_assoc append.simps)
  ultimately show ?case using m by (simp only: for_out.simps bind_out.simps)
qed

lemma moves0:
  "f i = xs @ ys \<Longrightarrow> length xs = n \<Longrightarrow>
   for_out [0..<n] (\<lambda>j. move i k) (io_state f g) = Done (io_state (f(i := ys)) (g(k := g k @ xs)))"
  using moves [of f i xs ys 0 k g] by simp

text \<open>Row \<open>i\<close> of a list of rows, empty beyond the last.\<close>

definition row :: "elem list list \<Rightarrow> nat \<Rightarrow> elem list" where
  "row rows i = (if i < length rows then rows ! i else [])"

lemma row_simps [simp]: "row [] i = []" "row (r # rows) 0 = r" "row (r # rows) (Suc i) = row rows i"
  by (simp_all add: row_def)

lemma row_outside: "row rows (length rows) = []"
  by (simp add: row_def)

lemma row_append: "row (rows @ [r]) i = (if i = length rows then r else row rows i)"
  by (auto simp: row_def nth_append)

lemma split_rr_loop_rows:
  assumes "\<forall>r\<in>set rows. length r = a" and "f 0 = concat rows @ ys"
  shows "split_rr_loop (length rows) a (io_state f g) = Done (io_state (f(0 := ys)) (\<lambda>i. g i @ row rows i))"
  using assms
proof (induction rows arbitrary: ys rule: rev_induct)
  case Nil
  then show ?case by (simp add: split_rr_loop_def fun_upd_idem)
next
  case (snoc r rows)
  have "split_rr_loop (length rows) a (io_state f g) = Done (io_state (f(0 := r @ ys)) (\<lambda>i. g i @ row rows i))"
    using snoc.prems by (intro snoc.IH) simp_all
  moreover have "for_out [0..<a] (\<lambda>j. move 0 (length rows)) (io_state (f(0 := r @ ys)) (\<lambda>i. g i @ row rows i)) =
      Done (io_state (f(0 := ys)) (\<lambda>i. g i @ row (rows @ [r]) i))"
    using snoc.prems by (subst moves0 [of _ 0 r ys]) (auto simp: row_append fun_eq_iff row_outside intro!: arg_cong2 [of _ _ _ _ io_state])
  ultimately show ?case unfolding split_rr_loop_def length_append_singleton upt_Suc_append [OF le0] for_out_append
    by (simp only: bind_out.simps for_out.simps)
qed

lemma join_rr_loop_rows:
  assumes "\<forall>r\<in>set rows. length r = a" and "\<forall>i<length rows. f i = rows ! i @ rest i"
  shows "join_rr_loop (length rows) a (io_state f g) =
    Done (io_state (\<lambda>i. if i < length rows then rest i else f i) (g(0 := g 0 @ concat rows)))"
  using assms
proof (induction rows rule: rev_induct)
  case Nil
  then show ?case by (simp add: join_rr_loop_def fun_upd_idem)
next
  case (snoc r rows)
  have "join_rr_loop (length rows) a (io_state f g) =
      Done (io_state (\<lambda>i. if i < length rows then rest i else f i) (g(0 := g 0 @ concat rows)))"
    using snoc.prems by (intro snoc.IH) (auto simp: nth_append split: if_splits)
  moreover have "f (length rows) = r @ rest (length rows)" using snoc.prems(2) by (auto simp: nth_append)
  then have "for_out [0..<a] (\<lambda>j. move (length rows) 0)
        (io_state (\<lambda>i. if i < length rows then rest i else f i) (g(0 := g 0 @ concat rows))) =
      Done (io_state (\<lambda>i. if i < Suc (length rows) then rest i else f i) (g(0 := g 0 @ concat (rows @ [r]))))"
    using snoc.prems(1) by (subst moves0 [of _ "length rows" r "rest (length rows)"])
      (auto simp: fun_eq_iff less_Suc_eq intro!: arg_cong2 [of _ _ _ _ io_state])
  ultimately show ?case unfolding join_rr_loop_def length_append_singleton upt_Suc_append [OF le0] for_out_append
    by (simp only: bind_out.simps for_out.simps)
qed

text \<open>A work function that is called \<open>n\<close> times, as long as it returns 0.\<close>

fun lib_run :: "nat \<Rightarrow> lib_work \<Rightarrow> io \<Rightarrow> (nat, io) outcome" where
  "lib_run 0 work s = Done s"
| "lib_run (Suc n) work s = bind_out (work s) (\<lambda>(v, s). if v = 0 then lib_run n work s else Done s)"

text \<open>What goes to output \<open>i\<close> in a list of rounds.\<close>

definition lane :: "elem list list list \<Rightarrow> nat \<Rightarrow> elem list" where
  "lane rounds i = concat (map (\<lambda>rows. row rows i) rounds)"

lemma lane_simps [simp]: "lane [] i = []" "lane (rows # rounds) i = row rows i @ lane rounds i"
  by (simp_all add: lane_def)

definition rounds_ok :: "nat \<Rightarrow> nat \<Rightarrow> elem list list list \<Rightarrow> bool" where
  "rounds_ok n a rounds \<longleftrightarrow> (\<forall>rows\<in>set rounds. length rows = n \<and> (\<forall>r\<in>set rows. length r = a))"

lemma rounds_ok_simps [simp]:
  "rounds_ok n a []"
  "rounds_ok n a (rows # rounds) \<longleftrightarrow> length rows = n \<and> (\<forall>r\<in>set rows. length r = a) \<and> rounds_ok n a rounds"
  by (auto simp: rounds_ok_def)

lemma split_run_step:
  "split_rr_loop (nat (num - 2)) (nat w) s = Done s' \<Longrightarrow>
   lib_run (Suc k) (splitrr1_work num w) s = lib_run k (splitrr1_work num w) s'"
  by (simp add: splitrr1_work_def [of _ _ s] returns_def)

lemma join_run_step:
  "join_rr_loop (nat (num - 2)) (nat w) s = Done s' \<Longrightarrow>
   lib_run (Suc k) (joinrr1_work num w) s = lib_run k (joinrr1_work num w) s'"
  by (simp add: joinrr1_work_def [of _ _ s] returns_def)

lemma split_run:
  assumes "rounds_ok (nat (num - 2)) (nat w) rounds" and "f 0 = concat (map concat rounds) @ ys"
  shows "lib_run (length rounds) (splitrr1_work num w) (io_state f g) =
    Done (io_state (f(0 := ys)) (\<lambda>i. g i @ lane rounds i))"
  using assms
proof (induction rounds arbitrary: f g)
  case Nil
  then show ?case by (simp add: fun_upd_idem)
next
  case (Cons rows rounds)
  let ?zs = "concat (map concat rounds) @ ys"
  have "split_rr_loop (nat (num - 2)) (nat w) (io_state f g) = Done (io_state (f(0 := ?zs)) (\<lambda>i. g i @ row rows i))"
    using split_rr_loop_rows [of rows "nat w" f ?zs g] Cons.prems by simp
  moreover have "lib_run (length rounds) (splitrr1_work num w) (io_state (f(0 := ?zs)) (\<lambda>i. g i @ row rows i)) =
      Done (io_state (f(0 := ys)) (\<lambda>i. g i @ lane (rows # rounds) i))"
    using Cons.IH [of "f(0 := ?zs)" "\<lambda>i. g i @ row rows i"] Cons.prems
    by (simp only: fun_upd_same fun_upd_upd append_assoc lane_simps rounds_ok_simps simp_thms)
  ultimately show ?case by (simp only: split_run_step list.size add_Suc_right add_0_right)
qed

lemma join_run:
  assumes "rounds_ok (nat (num - 2)) (nat w) rounds" and "\<forall>i<nat (num - 2). f i = lane rounds i @ rest i"
  shows "lib_run (length rounds) (joinrr1_work num w) (io_state f g) =
    Done (io_state (\<lambda>i. if i < nat (num - 2) then rest i else f i) (g(0 := g 0 @ concat (map concat rounds))))"
  using assms
proof (induction rounds arbitrary: f g)
  case Nil
  then have "(\<lambda>i. if i < nat (num - 2) then rest i else f i) = f" by auto
  then show ?case by (simp add: fun_upd_idem)
next
  case (Cons rows rounds)
  let ?f = "\<lambda>i. if i < nat (num - 2) then lane rounds i @ rest i else f i" and ?g = "g(0 := g 0 @ concat rows)"
  have "join_rr_loop (nat (num - 2)) (nat w) (io_state f g) = Done (io_state ?f ?g)"
    using join_rr_loop_rows [of rows "nat w" f "\<lambda>i. lane rounds i @ rest i" g] Cons.prems by (simp add: row_def)
  moreover have "lib_run (length rounds) (joinrr1_work num w) (io_state ?f ?g) =
      Done (io_state (\<lambda>i. if i < nat (num - 2) then rest i else ?f i) (?g(0 := ?g 0 @ concat (map concat rounds))))"
    using Cons.prems by (intro Cons.IH) simp_all
  moreover have "(\<lambda>i. if i < nat (num - 2) then rest i else ?f i) = (\<lambda>i. if i < nat (num - 2) then rest i else f i)" by auto
  moreover have "?g(0 := ?g 0 @ concat (map concat rounds)) = g(0 := g 0 @ concat (map concat (rows # rounds)))"
    by (simp only: fun_upd_same fun_upd_upd append_assoc list.map concat.simps)
  ultimately show ?case by (simp only: join_run_step list.size add_Suc_right add_0_right)
qed

text \<open>Every list of the right length can be cut into rounds.\<close>

fun rows_cut :: "nat \<Rightarrow> nat \<Rightarrow> 'a list \<Rightarrow> 'a list list" where
  "rows_cut 0 n xs = []"
| "rows_cut (Suc k) n xs = take n xs # rows_cut k n (drop n xs)"

lemma rows_cut_props:
  "length xs = k * n \<Longrightarrow> concat (rows_cut k n xs) = xs \<and> length (rows_cut k n xs) = k \<and> (\<forall>c\<in>set (rows_cut k n xs). length c = n)"
  by (induction k n xs rule: rows_cut.induct) simp_all

lemma rounds_exist:
  assumes "length xs = k * (n * a)"
  shows "\<exists>rounds. rounds_ok n a rounds \<and> length rounds = k \<and> concat (map concat rounds) = xs"
proof (intro exI conjI)
  let ?rounds = "map (rows_cut n a) (rows_cut k (n * a) xs)"
  have c: "length c = n * a" if "c \<in> set (rows_cut k (n * a) xs)" for c using that rows_cut_props [OF assms] by blast
  have cc: "length (rows_cut n a c) = n \<and> (\<forall>r\<in>set (rows_cut n a c). length r = a) \<and> concat (rows_cut n a c) = c"
    if "c \<in> set (rows_cut k (n * a) xs)" for c using rows_cut_props [OF c [OF that]] by simp
  show "rounds_ok n a ?rounds" unfolding rounds_ok_def by (simp add: cc)
  show "length ?rounds = k" using rows_cut_props [OF assms] by simp
  have "map concat ?rounds = rows_cut k (n * a) xs" by (simp add: map_idI cc)
  then show "concat (map concat ?rounds) = xs" using rows_cut_props [OF assms] by simp
qed

lemma lane_outside: "rounds_ok n a rounds \<Longrightarrow> n \<le> i \<Longrightarrow> lane rounds i = []"
  by (induction rounds) (auto simp: row_def)

lemma length_lane: "rounds_ok n a rounds \<Longrightarrow> i < n \<Longrightarrow> length (lane rounds i) = length rounds * a"
  by (induction rounds) (auto simp: row_def)

text \<open>
  C38. A round-robin splitter and joiner with the same number of branches and the same weight are inverse:
  after \<open>k\<close> rounds of the splitter every branch has \<open>k\<close> times the weight of elements, and \<open>k\<close> rounds of
  the joiner that the library chooses return exactly the elements that went into the splitter, in order.
\<close>

theorem split_join_roundtrip:
  assumes "length xs = k * (nat (num - 2) * nat w)"
  shows "\<exists>mid. lib_run k (splitrr1_work num w) (io_state ((\<lambda>_. [])(0 := xs)) (\<lambda>_. [])) = Done (io_state (\<lambda>_. []) mid) \<and>
    (\<forall>i<nat (num - 2). length (mid i) = k * nat w) \<and>
    lib_run k (joinrrN_work num w) (io_state mid (\<lambda>_. [])) = Done (io_state (\<lambda>_. []) ((\<lambda>_. [])(0 := xs)))"
proof -
  obtain rounds where r: "rounds_ok (nat (num - 2)) (nat w) rounds" "length rounds = k" "concat (map concat rounds) = xs"
    using rounds_exist [OF assms] by blast
  have sp: "lib_run k (splitrr1_work num w) (io_state ((\<lambda>_. [])(0 := xs)) (\<lambda>_. [])) = Done (io_state (\<lambda>_. []) (lane rounds))"
    using split_run [OF r(1), of "(\<lambda>_. [])(0 := xs)" "[]" "\<lambda>_. []"] r by (simp add: fun_upd_idem)
  have rest: "(\<lambda>i. if i < nat (num - 2) then [] else lane rounds i) = (\<lambda>_. [])" using lane_outside [OF r(1)] by auto
  have "lib_run k (joinrrN_work num w) (io_state (lane rounds) (\<lambda>_. [])) = Done (io_state (\<lambda>_. []) ((\<lambda>_. [])(0 := xs)))"
    using join_run [OF r(1), of "lane rounds" "\<lambda>_. []" "\<lambda>_. []"] r rest by (simp add: library_instances(2))
  then show ?thesis using sp length_lane [OF r(1)] r(2) by blast
qed

theorem split_join_roundtrip_witness:
  "\<exists>mid. lib_run 2 (splitrr1_work 4 1) (io_state ((\<lambda>_. [])(0 := [1, 2, 3, 4])) (\<lambda>_. [])) = Done (io_state (\<lambda>_. []) mid) \<and>
    lib_run 2 (joinrrN_work 4 1) (io_state mid (\<lambda>_. [])) = Done (io_state (\<lambda>_. []) ((\<lambda>_. [])(0 := [1, 2, 3, 4])))"
  using split_join_roundtrip [of "[1, 2, 3, 4]" 2 4 1] by auto

text \<open>The duplicating splitter gives every branch all elements.\<close>

lemma dup_pushes:
  "for_out [0..<n] (\<lambda>i s. Done (SKIR_push i e s)) (io_state f g) = Done (io_state f (\<lambda>i. if i < n then g i @ [e] else g i))"
proof (induction n)
  case (Suc n)
  show ?case unfolding upt_Suc_append [OF le0] for_out_append Suc.IH
    by (auto simp: SKIR_push_def less_Suc_eq intro!: arg_cong2 [of _ _ _ _ io_state])
qed simp

lemma dup_run_step:
  "split_dup_loop (nat (num - 2)) s = Done s' \<Longrightarrow>
   lib_run (Suc k) (splitdup_work num) s = lib_run k (splitdup_work num) s'"
  by (simp add: splitdup_work_def [of _ s] returns_def)

lemma dup_run:
  assumes "f 0 = xs @ ys"
  shows "lib_run (length xs) (splitdup_work num) (io_state f g) =
    Done (io_state (f(0 := ys)) (\<lambda>i. if i < nat (num - 2) then g i @ xs else g i))"
  using assms
proof (induction xs arbitrary: f g)
  case Nil
  then show ?case by (simp add: fun_upd_idem cong: if_cong)
next
  case (Cons x xs)
  let ?g = "\<lambda>i. if i < nat (num - 2) then g i @ [x] else g i"
  have "split_dup_loop (nat (num - 2)) (io_state f g) = Done (io_state (f(0 := xs @ ys)) ?g)"
    using Cons.prems by (simp add: split_dup_loop_def SKIR_pop_def dup_pushes)
  moreover have "lib_run (length xs) (splitdup_work num) (io_state (f(0 := xs @ ys)) ?g) =
      Done (io_state ((f(0 := xs @ ys))(0 := ys)) (\<lambda>i. if i < nat (num - 2) then ?g i @ xs else ?g i))"
    by (rule Cons.IH) simp
  moreover have "(\<lambda>i. if i < nat (num - 2) then ?g i @ xs else ?g i) = (\<lambda>i. if i < nat (num - 2) then g i @ x # xs else g i)" by auto
  ultimately show ?case by (simp only: dup_run_step fun_upd_upd list.size add_Suc_right add_0_right)
qed

subsection \<open>Files\<close>

text \<open>The elements that a reader pushes in \<open>n\<close> calls, and the position it ends at.\<close>

fun read_elems :: "(nat \<Rightarrow> byte list \<times> nat \<times> int) \<Rightarrow> nat \<Rightarrow> nat \<Rightarrow> byte list list \<times> nat \<times> int" where
  "read_elems rd 0 pos = ([], pos, 0)"
| "read_elems rd (Suc n) pos =
     (let (e, pos, v) = rd pos in
      if v \<noteq> 0 then ([e], pos, v) else (let (es, r) = read_elems rd n pos in (e # es, r)))"

definition write_elems :: "byte list list \<Rightarrow> byte list \<Rightarrow> byte list" where
  "write_elems es fl = fold FileWriterInt32_work es fl"

lemma write_elems_concat: "write_elems es fl = fl @ concat es"
  by (induction es arbitrary: fl) (simp_all add: write_elems_def FileWriterInt32_work_def)

lemma read_back:
  assumes "\<forall>e\<in>set es. length e = 4" and "length junk = 4"
  shows "read_elems (FileReaderInt32_work junk (pre @ concat es)) (Suc (length es)) (length pre) = (es @ [junk], 0, 0)"
    "read_elems (FileReaderFloat_work junk (pre @ concat es)) (Suc (length es)) (length pre) =
      (es @ [junk], length pre + 4 * length es, 1)"
  using assms
proof (induction es arbitrary: pre)
  case (Cons e es)
  {
    case 1
    then show ?case using Cons.IH(1) [of "pre @ e"] by (simp add: FileReaderInt32_work_def pread_elem_def Let_def)
  next
    case 2
    then show ?case using Cons.IH(2) [of "pre @ e"] by (simp add: FileReaderFloat_work_def pread_elem_def Let_def)
  }
qed (simp_all add: FileReaderInt32_work_def FileReaderFloat_work_def pread_elem_def)

text \<open>
  Elements that were written to a file are read back in order; but both readers push one element
  more when the file is at its end, whatever the variable for it holds.  Then the reader of
  integers starts again at the beginning of the file, and the reader of floating-point numbers ends.
\<close>

theorem file_roundtrip:
  assumes "\<forall>e\<in>set es. length e = 4" and "length junk = 4"
  shows "read_elems (FileReaderInt32_work junk (write_elems es [])) (Suc (length es)) 0 = (es @ [junk], 0, 0) \<and>
    read_elems (FileReaderFloat_work junk (write_elems es [])) (Suc (length es)) 0 = (es @ [junk], 4 * length es, 1)"
  using read_back [OF assms, of "[]"] by (simp add: write_elems_concat)

theorem file_roundtrip_witness:
  "read_elems (FileReaderInt32_work [9, 9, 9, 9] (write_elems [[1, 0, 0, 0], [2, 0, 0, 0]] [])) 3 0 =
    ([[1, 0, 0, 0], [2, 0, 0, 0], [9, 9, 9, 9]], 0, 0)"
  using file_roundtrip [of "[[1, 0, 0, 0], [2, 0, 0, 0]]" "[9, 9, 9, 9]"] by (simp add: numeral_3_eq_3)

end
