(* ===== verification/Streamit_Graph.thy ===== *)
theory Streamit_Graph
  imports Streamit_Lib Skir_Runtime
begin

section \<open>Pipelines and split-joins\<close>

text \<open>
  The work functions of composite streams in \<open>tools/streamit/streamit.cpp\<close>.  They create streams and call
  their children on them through the intrinsics of the runtime, which are the operations of the locale
  \<open>kernel_net\<close>; \<open>Skir_Runtime\<close> provides them.
\<close>

type_synonym streams = "ptr option list option"

definition one_stream :: "ptr \<Rightarrow> streams" where
  "one_stream p = Some [Some p, None]"

definition stream_array :: "ptr list \<Rightarrow> streams" where
  "stream_array ps = Some (map Some ps @ [None])"

record state_t =
  num_children :: int
  children_of :: "ptr list"

subsection \<open>The work functions\<close>

text \<open>
  The loop over all children but the last; what it leaves in \<open>tmpi\<close> is the input of the child that follows.
\<close>

fun pipeline_loop :: "(uint32 \<Rightarrow> 's \<Rightarrow> ptr \<times> 's) \<Rightarrow> (ptr \<Rightarrow> streams \<Rightarrow> streams \<Rightarrow> 's \<Rightarrow> (unit, 's) outcome) \<Rightarrow>
    ptr list \<Rightarrow> streams \<Rightarrow> 's \<Rightarrow> (unit, streams \<times> 's) outcome" where
  "pipeline_loop new kcall [] tmpi s = Done (tmpi, s)"
| "pipeline_loop new kcall (k # ks) tmpi s =
     (let (p, s) = new 4 s in
      bind_out (kcall k tmpi (one_stream p) s) (pipeline_loop new kcall ks (one_stream p)))"

definition pipeline_work :: "(uint32 \<Rightarrow> 's \<Rightarrow> ptr \<times> 's) \<Rightarrow> (ptr \<Rightarrow> streams \<Rightarrow> streams \<Rightarrow> 's \<Rightarrow> (unit, 's) outcome) \<Rightarrow>
    state_t \<Rightarrow> streams \<Rightarrow> streams \<Rightarrow> 's \<Rightarrow> (unit, 's) outcome" where
  "pipeline_work new kcall st ins outs s =
     (let n = nat (num_children st) in
      if num_children st < 0 then kcall (children_of st ! 0) (Some [None, None]) outs s
      else if n = 0 then Done s
      else if n = 1 then kcall (children_of st ! 0) ins outs s
      else bind_out (pipeline_loop new kcall (take (n - 1) (children_of st)) ins s) (\<lambda>(tmpi, s).
        kcall (children_of st ! (n - 1)) tmpi outs s))"

text \<open>The streams between splitter, branches and joiner, two for each branch.\<close>

fun branch_streams :: "(uint32 \<Rightarrow> 's \<Rightarrow> ptr \<times> 's) \<Rightarrow> nat \<Rightarrow> 's \<Rightarrow> (ptr list \<times> ptr list) \<times> 's" where
  "branch_streams new 0 s = (([], []), s)"
| "branch_streams new (Suc n) s =
     (let (p, s) = new 4 s; (q, s) = new 4 s; ((ps, qs), s) = branch_streams new n s in ((p # ps, q # qs), s))"

fun call_branches :: "(ptr \<Rightarrow> streams \<Rightarrow> streams \<Rightarrow> 's \<Rightarrow> (unit, 's) outcome) \<Rightarrow> (ptr \<times> ptr \<times> ptr) list \<Rightarrow> 's \<Rightarrow> (unit, 's) outcome" where
  "call_branches kcall [] s = Done s"
| "call_branches kcall ((k, p, q) # bs) s =
     bind_out (kcall k (one_stream p) (one_stream q) s) (call_branches kcall bs)"

definition splitjoin_work :: "(uint32 \<Rightarrow> 's \<Rightarrow> ptr \<times> 's) \<Rightarrow> (ptr \<Rightarrow> streams \<Rightarrow> streams \<Rightarrow> 's \<Rightarrow> (unit, 's) outcome) \<Rightarrow>
    state_t \<Rightarrow> streams \<Rightarrow> streams \<Rightarrow> 's \<Rightarrow> (unit, 's) outcome" where
  "splitjoin_work new kcall st ins outs s =
     (let n = nat (num_children st) in
      if 3 \<le> n then
        (let ((ps, qs), s) = branch_streams new (n - 2) s in
         bind_out (kcall (children_of st ! 0) ins (stream_array ps) s) (\<lambda>s.
         bind_out (call_branches kcall (zip (take (n - 2) (drop 1 (children_of st))) (zip ps qs)) s) (\<lambda>s.
           kcall (children_of st ! (n - 1)) (stream_array qs) outs s)))
      else Done s)"

subsection \<open>The interface of the runtime\<close>

text \<open>
  \<open>wired s k\<close> are the streams that kernel \<open>k\<close> was last called on, and \<open>below k\<close> the kernels that the call of \<open>k\<close> calls
  in turn, which are those inside it when it is a composite.
\<close>

locale kernel_net =
  fixes new :: "uint32 \<Rightarrow> 's \<Rightarrow> ptr \<times> 's"
    and kcall :: "ptr \<Rightarrow> streams \<Rightarrow> streams \<Rightarrow> 's \<Rightarrow> (unit, 's) outcome"
    and used :: "'s \<Rightarrow> ptr \<Rightarrow> bool"
    and wired :: "'s \<Rightarrow> ptr \<Rightarrow> ptr list \<times> ptr list"
    and below :: "ptr \<Rightarrow> ptr set"
  assumes new_unused: "new n s = (p, s') \<Longrightarrow> \<not> used s p \<and> used s' p \<and> (\<forall>q. used s q \<longrightarrow> used s' q) \<and> wired s' = wired s"
    and kcall_wires: "kcall k is os s = Done s' \<Longrightarrow> null_terminated is = Done i \<Longrightarrow> null_terminated os = Done z \<Longrightarrow>
      wired s' k = (i, z) \<and> (\<forall>j. j \<noteq> k \<longrightarrow> j \<notin> below k \<longrightarrow> wired s' j = wired s j) \<and> (\<forall>q. used s q \<longrightarrow> used s' q)"
begin

text \<open>Kernels none of which is inside another.\<close>

definition apart :: "ptr list \<Rightarrow> bool" where
  "apart ks \<longleftrightarrow> distinct ks \<and> (\<forall>j\<in>set ks. \<forall>k\<in>set ks. j \<notin> below k)"

lemma apart_Cons: "apart (k # ks) \<longleftrightarrow> k \<notin> set ks \<and> k \<notin> below k \<and> (\<forall>j\<in>set ks. j \<notin> below k \<and> k \<notin> below j) \<and> apart ks"
  by (auto simp: apart_def)

lemma null_one: "null_terminated (one_stream p) = Done [p]"
  using null_terminated_all [of "[p]"] by (simp add: one_stream_def)

lemma null_array: "null_terminated (stream_array ps) = Done ps"
  using null_terminated_all [of ps] by (simp add: stream_array_def)

lemma pipeline_loop_lemma:
  assumes "pipeline_loop new kcall ks tmpi s = Done (tmpo, s')" and "null_terminated tmpi = Done i"
    and "apart (ks @ others)"
  shows "\<exists>ps. length ps = length ks \<and> distinct ps \<and> (\<forall>p\<in>set ps. \<not> used s p \<and> used s' p) \<and>
    (\<forall>j<length ks. wired s' (ks ! j) = (if j = 0 then i else [ps ! (j - 1)], [ps ! j])) \<and>
    null_terminated tmpo = Done (if ks = [] then i else [last ps]) \<and>
    (\<forall>q. used s q \<longrightarrow> used s' q) \<and> (\<forall>k\<in>set others. wired s' k = wired s k)"
  using assms
proof (induction ks arbitrary: tmpi i s others)
  case (Cons k ks)
  obtain p s1 where new: "new 4 s = (p, s1)" by (cases "new 4 s")
  from Cons.prems(1) obtain s2 where s2: "kcall k tmpi (one_stream p) s1 = Done s2"
    "pipeline_loop new kcall ks (one_stream p) s2 = Done (tmpo, s')"
    by (auto simp: new elim: bind_out_DoneE)
  note n = new_unused [OF new]
  note c = kcall_wires [OF s2(1) Cons.prems(2) null_one]
  have ap: "apart (ks @ k # others)" "apart (ks @ others)" "k \<notin> set ks" "\<forall>j\<in>set ks. j \<notin> below k"
    "\<forall>j\<in>set others. j \<noteq> k \<and> j \<notin> below k"
    using Cons.prems(3) by (auto simp: apart_def)
  from Cons.IH [OF s2(2) null_one ap(1)] obtain ps where ps: "length ps = length ks" "distinct ps"
    "\<forall>q\<in>set ps. \<not> used s2 q \<and> used s' q"
    "\<forall>j<length ks. wired s' (ks ! j) = (if j = 0 then [p] else [ps ! (j - 1)], [ps ! j])"
    "null_terminated tmpo = Done (if ks = [] then [p] else [last ps])"
    "\<forall>q. used s2 q \<longrightarrow> used s' q" "\<forall>k'\<in>set (k # others). wired s' k' = wired s2 k'" by blast
  show ?case
  proof (intro exI conjI)
    show "length (p # ps) = length (k # ks)" using ps(1) by simp
    show "distinct (p # ps)" "\<forall>q\<in>set (p # ps). \<not> used s q \<and> used s' q" using ps(2,3,6) n c by auto
    show "\<forall>j<length (k # ks). wired s' ((k # ks) ! j) = (if j = 0 then i else [(p # ps) ! (j - 1)], [(p # ps) ! j])"
    proof (intro allI impI)
      fix j assume j: "j < length (k # ks)"
      show "wired s' ((k # ks) ! j) = (if j = 0 then i else [(p # ps) ! (j - 1)], [(p # ps) ! j])"
      proof (cases j)
        case 0
        then show ?thesis using ps(7) c by simp
      next
        case (Suc m)
        then show ?thesis using ps(4) j by (cases m) auto
      qed
    qed
    show "null_terminated tmpo = Done (if k # ks = [] then i else [last (p # ps)])" using ps(1,5) by auto
    show "\<forall>q. used s q \<longrightarrow> used s' q" using n c ps(6) by blast
    show "\<forall>k'\<in>set others. wired s' k' = wired s k'" using ps(7) c n ap(5) by auto
  qed
qed (simp add: apart_def)

lemma pipeline_lemma:
  assumes "pipeline_work new kcall st ins outs s = Done s'" and "null_terminated ins = Done i" "null_terminated outs = Done z"
    and n: "num_children st = int n" "2 \<le> n" "n \<le> length (children_of st)" and "apart (take n (children_of st))"
  shows "\<exists>ps. length ps = n - 1 \<and> distinct ps \<and> (\<forall>p\<in>set ps. \<not> used s p) \<and>
    (\<forall>j<n. wired s' (children_of st ! j) = (if j = 0 then i else [ps ! (j - 1)], if j = n - 1 then z else [ps ! j]))"
proof -
  let ?ks = "take (n - 1) (children_of st)" and ?l = "children_of st ! (n - 1)"
  have split: "take n (children_of st) = ?ks @ [?l]"
    using n(2,3) take_Suc_conv_app_nth [of "n - 1" "children_of st"] by simp
  have len: "length ?ks = n - 1" using n(3) by simp
  from assms(1) n obtain tmpi s1 where loop: "pipeline_loop new kcall ?ks ins s = Done (tmpi, s1)"
    and last: "kcall ?l tmpi outs s1 = Done s'"
    by (auto simp: pipeline_work_def Let_def elim!: bind_out_DoneE split: if_splits)
  have "apart (?ks @ [?l])" using assms(7) unfolding split .
  from pipeline_loop_lemma [OF loop assms(2) this] obtain ps where ps:
    "length ps = n - 1" "distinct ps" "\<forall>p\<in>set ps. \<not> used s p"
    "\<forall>j<n - 1. wired s1 (?ks ! j) = (if j = 0 then i else [ps ! (j - 1)], [ps ! j])"
    "null_terminated tmpi = Done (if ?ks = [] then i else [last ps])"
    unfolding len by blast
  have ne: "?ks \<noteq> []" using len n(2) by (metis One_nat_def Suc_1 diff_is_0_eq list.size(3) not_less_eq_eq)
  have "ps \<noteq> []" using ps(1) n(2) by auto
  then have l: "last ps = ps ! (n - 2)" using ps(1) last_conv_nth [of ps] by (simp add: numeral_2_eq_2)
  note c = kcall_wires [OF last ps(5) assms(3)]
  have sep: "?ks ! j \<noteq> ?l \<and> ?ks ! j \<notin> below ?l" if "j < n - 1" for j
    using assms(7) that len nth_mem [of j ?ks] unfolding split by (auto simp: apart_def)
  have "wired s' (children_of st ! j) = (if j = 0 then i else [ps ! (j - 1)], if j = n - 1 then z else [ps ! j])"
    if j: "j < n" for j
  proof (cases "j = n - 1")
    case True
    then show ?thesis using c ne l n(2) by (simp add: numeral_2_eq_2)
  next
    case False
    then have "j < n - 1" using j by simp
    with sep [of j] ps(4) c False show ?thesis by simp
  qed
  then show ?thesis using ps by blast
qed

lemma branch_streams_lemma:
  "branch_streams new n s = ((ps, qs), s') \<Longrightarrow>
   length ps = n \<and> length qs = n \<and> distinct (ps @ qs) \<and> (\<forall>p\<in>set (ps @ qs). \<not> used s p) \<and>
   wired s' = wired s \<and> (\<forall>q. used s q \<longrightarrow> used s' q)"
proof (induction n arbitrary: s ps qs s')
  case (Suc n)
  obtain p s1 where 1: "new 4 s = (p, s1)" by (cases "new 4 s")
  obtain q s2 where 2: "new 4 s1 = (q, s2)" by (cases "new 4 s1")
  obtain ps1 qs1 s3 where 3: "branch_streams new n s2 = ((ps1, qs1), s3)" by (metis prod.exhaust)
  have eq: "ps = p # ps1" "qs = q # qs1" "s' = s3" using Suc.prems by (simp_all add: 1 2 3)
  note n = new_unused [OF 1] new_unused [OF 2]
  show ?case using Suc.IH [OF 3] n unfolding eq by auto
qed simp

lemma call_branches_lemma:
  assumes "call_branches kcall (zip ks (zip ps qs)) s = Done s'" and "length ps = length ks" "length qs = length ks"
    and "apart (ks @ others)"
  shows "(\<forall>j<length ks. wired s' (ks ! j) = ([ps ! j], [qs ! j])) \<and> (\<forall>k\<in>set others. wired s' k = wired s k)"
  using assms
proof (induction ks arbitrary: ps qs s others)
  case (Cons k ks)
  obtain p ps1 q qs1 where eq: "ps = p # ps1" "qs = q # qs1" using Cons.prems(2,3) by (metis length_Suc_conv)
  from Cons.prems(1) obtain s1 where s1: "kcall k (one_stream p) (one_stream q) s = Done s1"
    "call_branches kcall (zip ks (zip ps1 qs1)) s1 = Done s'"
    by (auto simp: eq elim: bind_out_DoneE)
  note c = kcall_wires [OF s1(1) null_one null_one]
  have ap: "apart (ks @ k # others)" "\<forall>j\<in>set others. j \<noteq> k \<and> j \<notin> below k" using Cons.prems(4) by (auto simp: apart_def)
  from Cons.IH [OF s1(2) _ _ ap(1)] Cons.prems(2,3) eq
  have ih: "\<forall>j<length ks. wired s' (ks ! j) = ([ps1 ! j], [qs1 ! j])" "\<forall>k'\<in>set (k # others). wired s' k' = wired s1 k'"
    by simp_all
  have "wired s' ((k # ks) ! j) = ([ps ! j], [qs ! j])" if "j < length (k # ks)" for j
    using that ih c eq by (cases j) simp_all
  then show ?case using ih(2) c ap(2) by simp
qed simp

lemma splitjoin_lemma:
  assumes "splitjoin_work new kcall st ins outs s = Done s'" and "null_terminated ins = Done i" "null_terminated outs = Done z"
    and n: "num_children st = int n" "3 \<le> n" "n \<le> length (children_of st)" and "apart (take n (children_of st))"
  shows "\<exists>ps qs. length ps = n - 2 \<and> length qs = n - 2 \<and> distinct (ps @ qs) \<and> (\<forall>p\<in>set (ps @ qs). \<not> used s p) \<and>
    wired s' (children_of st ! 0) = (i, ps) \<and> wired s' (children_of st ! (n - 1)) = (qs, z) \<and>
    (\<forall>j<n - 2. wired s' (children_of st ! Suc j) = ([ps ! j], [qs ! j]))"
proof -
  let ?f = "children_of st ! 0" and ?bs = "take (n - 2) (drop 1 (children_of st))" and ?l = "children_of st ! (n - 1)"
  have split: "take n (children_of st) = ?f # ?bs @ [?l]"
    using n(2,3) by (cases "children_of st"; cases n) (auto simp: take_Suc_conv_app_nth [symmetric] Suc_diff_Suc numeral_2_eq_2)
  obtain ps qs s1 where br: "branch_streams new (n - 2) s = ((ps, qs), s1)" by (metis prod.exhaust)
  note b = branch_streams_lemma [OF br]
  from assms(1) n br obtain s2 s3 where s2: "kcall ?f ins (stream_array ps) s1 = Done s2"
    and s3: "call_branches kcall (zip ?bs (zip ps qs)) s2 = Done s3" and last: "kcall ?l (stream_array qs) outs s3 = Done s'"
    by (auto simp: splitjoin_work_def Let_def elim!: bind_out_DoneE)
  have len: "length ?bs = n - 2" using n(3) by simp
  have ap: "apart (?bs @ [?f, ?l])" using assms(7) unfolding split by (auto simp: apart_def)
  note c1 = kcall_wires [OF s2 assms(2) null_array]
  have c2: "\<forall>j<n - 2. wired s3 (?bs ! j) = ([ps ! j], [qs ! j])" "wired s3 ?f = wired s2 ?f"
    using call_branches_lemma [OF s3 _ _ ap] b len by simp_all
  note c3 = kcall_wires [OF last null_array assms(3)]
  have sep: "?f \<noteq> ?l" "?f \<notin> below ?l" "\<forall>k\<in>set ?bs. k \<noteq> ?l \<and> k \<notin> below ?l"
    using assms(7) unfolding split by (auto simp: apart_def)
  have "wired s' (children_of st ! Suc j) = ([ps ! j], [qs ! j])" if "j < n - 2" for j
  proof -
    have "?bs ! j = children_of st ! Suc j" "?bs ! j \<in> set ?bs" using that n(3) nth_mem [of j ?bs] len by simp_all
    then show ?thesis using c2(1) c3 sep(3) that by metis
  qed
  moreover have "wired s' ?f = (i, ps)" "wired s' ?l = (qs, z)" using c1 c2(2) c3 sep(1,2) by metis+
  ultimately show ?thesis using b by blast
qed

end

subsection \<open>The runtime as a net of kernels\<close>

text \<open>
  What the stream graph must keep when it is given a kernel: handles are not used again, and only kernels
  below it are called on other streams.
\<close>

definition keeps :: "ptr set \<Rightarrow> heap \<Rightarrow> heap \<Rightarrow> bool" where
  "keeps B h h' \<longleftrightarrow> fresh h \<le> fresh h' \<and>
     (\<forall>k. k \<notin> B \<longrightarrow> rt_ins (rtk h' k) = rt_ins (rtk h k) \<and> rt_outs (rtk h' k) = rt_outs (rtk h k))"

definition wiring :: "runtime \<Rightarrow> ptr \<Rightarrow> ptr list \<times> ptr list" where
  "wiring R k = (the (rt_ins (rtk (rh R) k)), the (rt_outs (rtk (rh R) k)))"

definition handle_used :: "runtime \<Rightarrow> ptr \<Rightarrow> bool" where
  "handle_used R q \<longleftrightarrow> q < fresh (rh R)"

locale graph_call =
  fixes call :: "ptr \<Rightarrow> graph \<Rightarrow> (unit, graph) outcome" and below :: "ptr \<Rightarrow> ptr set"
  assumes call_keeps: "call k g = Done g' \<Longrightarrow> keeps (below k) (gh g) (gh g')"
    and not_below: "k \<notin> below k"
begin

lemma stream_unused:
  assumes "handleStreamInst n R = (p, R')"
  shows "\<not> handle_used R p \<and> handle_used R' p \<and> (\<forall>q. handle_used R q \<longrightarrow> handle_used R' q) \<and> wiring R' = wiring R"
  using assms by (auto simp: handleStreamInst_def newStream_def Let_def handle_used_def wiring_def)

lemma call_wires:
  assumes "handleCallInst call k is os R = Done R'" and "null_terminated is = Done i" and "null_terminated os = Done z"
  shows "wiring R' k = (i, z) \<and> (\<forall>j. j \<noteq> k \<longrightarrow> j \<notin> below k \<longrightarrow> wiring R' j = wiring R j) \<and>
    (\<forall>q. handle_used R q \<longrightarrow> handle_used R' q)"
proof -
  let ?R = "upd_rh (set_streams k i z) R"
  from assms obtain g where g: "call k (sg ?R) = Done g" "R' = ?R\<lparr>sg := g\<rparr>"
    by (auto simp: handleCallInst_def Let_def elim: bind_out_DoneE)
  from call_keeps [OF g(1)] not_below [of k] show ?thesis
    by (auto simp: g(2) keeps_def wiring_def handle_used_def set_streams_def)
qed

end

sublocale graph_call \<subseteq> net: kernel_net handleStreamInst "handleCallInst call" handle_used wiring below
  by unfold_locales (use stream_unused call_wires in blast)+

context graph_call begin

lemma is_net: "kernel_net handleStreamInst (handleCallInst call) handle_used wiring below"
  by (rule net.kernel_net_axioms)

end

subsection \<open>The stream graph keeps the wiring\<close>

lemma keeps_refl: "keeps B h h"
  by (simp add: keeps_def)

lemma keeps_trans: "keeps B h h1 \<Longrightarrow> keeps B h1 h2 \<Longrightarrow> keeps B h h2"
  by (auto simp: keeps_def)

lemma keeps_mono: "keeps A h h' \<Longrightarrow> A \<subseteq> B \<Longrightarrow> keeps B h h'"
  by (auto simp: keeps_def)

lemma keeps_rtk:
  "(\<And>K. rt_ins (f K) = rt_ins K \<and> rt_outs (f K) = rt_outs K) \<Longrightarrow> keeps B h (upd_rtk k f h)"
  by (simp add: keeps_def)

lemma keeps_new_stream: "new_skir_stream_t junk q h = Done (r, h') \<Longrightarrow> keeps B h h'"
  by (auto simp: new_skir_stream_t_def alloc_stream_def Let_def keeps_def split: if_splits option.splits)

lemma keeps_find_or_new:
  assumes "find_or_new junk q h = Done (s, h')"
  shows "keeps B h h'"
proof (cases "si (rts h q)")
  case (Some x)
  with assms show ?thesis by (simp add: find_or_new_def keeps_refl)
next
  case None
  with assms obtain r h1 where new: "new_skir_stream_t junk q h = Done (r, h1)"
    and end1: "(case r of None \<Rightarrow> Fault | Some s \<Rightarrow> Done (s, upd_rts q (\<lambda>x. x\<lparr>si := Some s\<rparr>) h1)) = (Done (s, h') :: (unit, ptr \<times> heap) outcome)"
    by (auto simp: find_or_new_def elim: bind_out_DoneE)
  from end1 have "keeps B h1 h'" by (auto simp: keeps_def split: option.splits)
  with keeps_new_stream [OF new] show ?thesis by (rule keeps_trans)
qed

lemma keeps_alloc_input: "alloc_input junk k q h = Done (s, h') \<Longrightarrow> keeps B h h'"
proof -
  assume "alloc_input junk k q h = Done (s, h')"
  then obtain s1 h1 where h1: "find_or_new junk q (upd_rts q (\<lambda>x. x\<lparr>is_src := True\<rparr>) h) = Done (s1, h1)"
    "rtk h' = rtk h1" "fresh h' = fresh h1"
    by (auto simp: alloc_input_def elim!: bind_out_DoneE)
  from keeps_find_or_new [OF h1(1), of B] h1(2,3) show ?thesis by (simp add: keeps_def)
qed

lemma keeps_alloc_output: "alloc_output junk k q h = Done (s, h') \<Longrightarrow> keeps B h h'"
proof -
  assume "alloc_output junk k q h = Done (s, h')"
  then obtain s1 h1 where h1: "find_or_new junk q (upd_rts q (\<lambda>x. x\<lparr>is_dst := True\<rparr>) h) = Done (s1, h1)"
    "rtk h' = rtk h1" "fresh h' = fresh h1"
    by (auto simp: alloc_output_def elim!: bind_out_DoneE)
  from keeps_find_or_new [OF h1(1), of B] h1(2,3) show ?thesis by (simp add: keeps_def)
qed

lemma keeps_alloc_all:
  assumes "\<And>q h s h'. f q h = Done (s, h') \<Longrightarrow> keeps B h h'"
  shows "alloc_all f qs h = Done (ss, h') \<Longrightarrow> keeps B h h'"
proof (induction qs arbitrary: h ss h')
  case (Cons q qs)
  then obtain s h1 ss1 where "f q h = Done (s, h1)" "alloc_all f qs h1 = Done (ss1, h')"
    by (auto elim!: bind_out_DoneE)
  with assms Cons.IH show ?case by (blast intro: keeps_trans)
qed (simp add: keeps_refl)

lemma keeps_allocateStreams:
  assumes "allocateStreams junk k h = Done h'"
  shows "keeps B h h'"
proof -
  from assms obtain kins h1 kouts h2 where
    1: "alloc_all (alloc_input junk k) (ins_of (rtk h k)) h = Done (kins, h1)" and
    2: "alloc_all (alloc_output junk k) (outs_of (rtk (upd_rtk k (\<lambda>K. K\<lparr>impl_ins := Some (map Some kins @ [None])\<rparr>) h1) k))
          (upd_rtk k (\<lambda>K. K\<lparr>impl_ins := Some (map Some kins @ [None])\<rparr>) h1) = Done (kouts, h2)" and
    3: "h' = upd_rtk k (\<lambda>K. K\<lparr>impl_outs := Some (map Some kouts @ [None])\<rparr>) h2"
    unfolding allocateStreams_def assert_out_def Let_def by (auto elim!: bind_out_DoneE split: if_splits)
  have a: "keeps B h h1" by (rule keeps_alloc_all [OF keeps_alloc_input 1])
  have b: "keeps B h1 (upd_rtk k (\<lambda>K. K\<lparr>impl_ins := Some (map Some kins @ [None])\<rparr>) h1)" by (rule keeps_rtk) simp
  have c: "keeps B (upd_rtk k (\<lambda>K. K\<lparr>impl_ins := Some (map Some kins @ [None])\<rparr>) h1) h2"
    by (rule keeps_alloc_all [OF keeps_alloc_output 2])
  have d: "keeps B h2 h'" unfolding 3 by (rule keeps_rtk) simp
  from a b c d show ?thesis by (blast intro: keeps_trans)
qed

lemma gh_upd [simp]: "gh (upd_gh f g) = f (gh g)" "gh (start_sched s g) = gh g" "gh (g\<lparr>hier_parent := p\<rparr>) = gh g"
  by (simp_all add: upd_gh_def upd_wh_def start_sched_def)

lemma keeps_set_sched: "keeps B (gh g) (gh (set_sched k s g))"
  by (simp add: set_sched_def keeps_def)

lemma keeps_selectScheduler:
  assumes "selectScheduler opts k fix_s g = Done g'"
  shows "keeps B (gh g) (gh g')"
proof -
  have "rt_ins (rtk (gh g') j) = rt_ins (rtk (gh g) j) \<and> rt_outs (rtk (gh g') j) = rt_outs (rtk (gh g) j)" for j
    using assms by (auto simp: selectScheduler_def set_sched_def assert_out_def Let_def split: option.splits if_splits)
  moreover have "fresh (gh g) \<le> fresh (gh g')"
    using assms by (auto simp: selectScheduler_def set_sched_def assert_out_def Let_def split: option.splits if_splits)
  ultimately show ?thesis by (simp add: keeps_def)
qed

lemma gh_addKernel: "addKernel k g = Done g' \<Longrightarrow> gh g' = gh g"
  by (auto simp: addKernel_def assert_out_def split: if_splits)

text \<open>The parts that \<open>callKernel\<close> of the graph is made of.\<close>

locale graph_parts =
  fixes prep :: "ptr \<Rightarrow> heap \<Rightarrow> heap" and codegen :: "ptr \<Rightarrow> heap \<Rightarrow> heap"
    and run :: "ptr \<Rightarrow> graph \<Rightarrow> (unit, graph) outcome" and start :: "ptr \<Rightarrow> ptr \<Rightarrow> graph \<Rightarrow> graph"
    and inner :: "ptr \<Rightarrow> ptr set"
  assumes prep_keeps: "keeps {} h (prep k h)" and codegen_keeps: "keeps {} h (codegen k h)"
    and run_keeps: "run k g = Done g' \<Longrightarrow> keeps (inner k) (gh g) (gh g')"
    and start_keeps: "keeps {} (gh g) (gh (start s k g))"
    and not_inner: "k \<notin> inner k"
begin

lemma first_call_keeps:
  assumes "first_call prep codegen opts k g = Done g'"
  shows "keeps {} (gh g) (gh g')"
proof -
  from assms obtain g1 g2 where 1: "addKernel k (upd_gh (prep k) g) = Done g1"
    and 2: "(if is_hier (rtk (gh g1) k) then Done (upd_gh (codegen k) g1) else selectScheduler opts k None g1) = Done g2"
    and 3: "g' = (case hier_parent g2 of None \<Rightarrow> g2 | Some p \<Rightarrow> upd_gh (upd_rtk p (\<lambda>P. P\<lparr>children := children P @ [k]\<rparr>)) g2)"
    unfolding first_call_def by (auto elim!: bind_out_DoneE)
  have a: "keeps {} (gh g) (gh g1)" using gh_addKernel [OF 1] prep_keeps by simp
  have b: "keeps {} (gh g1) (gh g2)"
    using 2 codegen_keeps keeps_selectScheduler [of opts k None g1 g2] by (auto split: if_splits)
  have c: "keeps {} (gh g2) (gh g')" unfolding 3 by (auto intro: keeps_rtk keeps_refl split: option.splits)
  from a b c show ?thesis by (blast intro: keeps_trans)
qed

lemma graph_call_keeps:
  assumes "g_callKernel junk prep codegen run start opts k g = Done g'"
  shows "keeps (inner k) (gh g) (gh g')"
proof -
  from assms obtain g1 where
    1: "(if base_work (rtk (gh g) k) = work_fn (rtk (gh g) k) then first_call prep codegen opts k g else Done g) = Done g1" and
    2: "(if is_hier (rtk (gh g1) k) then
           bind_out (run k (g1\<lparr>hier_parent := Some k\<rparr>)) (\<lambda>g. Done (g\<lparr>hier_parent := hier_parent g1\<rparr>))
         else bind_out (allocateStreams junk k (gh g1)) (\<lambda>h.
           case sched (rtk h k) of None \<Rightarrow> Fault | Some s \<Rightarrow> Done (start s k (upd_gh (\<lambda>_. h) g1)))) = Done g'"
    unfolding g_callKernel_def Let_def by (auto elim!: bind_out_DoneE)
  have a: "keeps {} (gh g) (gh g1)" using 1 first_call_keeps [of opts k g g1] by (auto simp: keeps_refl split: if_splits)
  have b: "keeps (inner k) (gh g1) (gh g')"
  proof (cases "is_hier (rtk (gh g1) k)")
    case True
    with 2 obtain g2 where g2: "run k (g1\<lparr>hier_parent := Some k\<rparr>) = Done g2" "g' = g2\<lparr>hier_parent := hier_parent g1\<rparr>"
      by (auto elim!: bind_out_DoneE)
    from run_keeps [OF g2(1)] g2(2) show ?thesis by simp
  next
    case False
    with 2 obtain h s where h: "allocateStreams junk k (gh g1) = Done h" "g' = start s k (upd_gh (\<lambda>_. h) g1)"
      by (auto elim!: bind_out_DoneE split: option.splits)
    have "keeps {} h (gh g')" using start_keeps [of "upd_gh (\<lambda>_. h) g1" s k] h(2) by simp
    with keeps_allocateStreams [OF h(1)] have "keeps {} (gh g1) (gh g')" by (blast intro: keeps_trans)
    then show ?thesis by (rule keeps_mono) simp
  qed
  from keeps_mono [OF a, of "inner k"] b show ?thesis by (blast intro: keeps_trans)
qed

end

sublocale graph_parts \<subseteq> calls: graph_call "g_callKernel junk prep codegen run start opts" inner
  by unfold_locales (use graph_call_keeps not_inner in blast)+

text \<open>
  A program without composites inside others, whose kernels need no preparation and whose scheduler
  is the work-stealing one, which keeps its own map of the kernels it was given.
\<close>

interpretation flat: graph_parts "\<lambda>_ h. h" "\<lambda>_ h. h" "\<lambda>_. Done" "\<lambda>s _ g. start_sched s g" "\<lambda>_. {}"
  by unfold_locales (auto simp: keeps_refl)

lemma apartI:
  assumes "graph_call call below" and "distinct ks" and "\<forall>j\<in>set ks. \<forall>k\<in>set ks. j \<notin> below k"
  shows "kernel_net.apart below ks"
  using assms(2,3) unfolding kernel_net.apart_def [OF graph_call.is_net [OF assms(1)]] by blast

text \<open>
  C29. The work function of a pipeline connects its children in a chain: they are called on new, different
  streams such that the first reads the pipeline's inputs, each other child reads the one stream that the
  child before it writes, and the last writes the pipeline's outputs.  This holds for every graph that
  keeps handles and the streams of kernels that are not below the one it calls.
\<close>

theorem pipeline_chains_children:
  assumes "graph_call call below"
    and "pipeline_work handleStreamInst (handleCallInst call) st ins outs R = Done R'"
    and "null_terminated ins = Done i" and "null_terminated outs = Done z"
    and "num_children st = int n" and "2 \<le> n" and "n \<le> length (children_of st)" and "distinct (take n (children_of st))"
    and "\<forall>j\<in>set (take n (children_of st)). \<forall>k\<in>set (take n (children_of st)). j \<notin> below k"
  shows "\<exists>ps. length ps = n - 1 \<and> distinct ps \<and> (\<forall>p\<in>set ps. fresh (rh R) \<le> p) \<and>
    (\<forall>j<n. wiring R' (children_of st ! j) = (if j = 0 then i else [ps ! (j - 1)], if j = n - 1 then z else [ps ! j]))"
  using kernel_net.pipeline_lemma [OF graph_call.is_net [OF assms(1)] assms(2-7) apartI [OF assms(1,8,9)]]
  by (simp only: handle_used_def not_less)

text \<open>
  C30. The work function of a split-join connects every branch between its own stream from the
  splitter and its own stream to the joiner: the splitter reads the inputs and writes one new stream for each
  branch, the joiner reads one new stream of each branch, in the same order, and writes the outputs.
\<close>

theorem splitjoin_connects_branches:
  assumes "graph_call call below"
    and "splitjoin_work handleStreamInst (handleCallInst call) st ins outs R = Done R'"
    and "null_terminated ins = Done i" and "null_terminated outs = Done z"
    and "num_children st = int n" and "3 \<le> n" and "n \<le> length (children_of st)" and "distinct (take n (children_of st))"
    and "\<forall>j\<in>set (take n (children_of st)). \<forall>k\<in>set (take n (children_of st)). j \<notin> below k"
  shows "\<exists>ps qs. length ps = n - 2 \<and> length qs = n - 2 \<and> distinct (ps @ qs) \<and> (\<forall>p\<in>set (ps @ qs). fresh (rh R) \<le> p) \<and>
    wiring R' (children_of st ! 0) = (i, ps) \<and> wiring R' (children_of st ! (n - 1)) = (qs, z) \<and>
    (\<forall>j<n - 2. wiring R' (children_of st ! Suc j) = ([ps ! j], [qs ! j]))"
  using kernel_net.splitjoin_lemma [OF graph_call.is_net [OF assms(1)] assms(2-7) apartI [OF assms(1,8,9)]]
  by (simp only: handle_used_def not_less)

text \<open>Three children on a stream graph that does nothing with them.\<close>

lemma calls_nothing: "graph_call (\<lambda>_. Done) (\<lambda>_. {})"
  by unfold_locales (auto simp: keeps_refl)

definition three_children :: state_t where
  "three_children = \<lparr>num_children = 3, children_of = [11, 12, 13, 0]\<rparr>"

lemma null_pointer: "null_terminated None = Done []"
  by (simp add: null_terminated_def)

lemma null_terminated_one [simp]: "null_terminated (one_stream p) = Done [p]" "null_terminated (stream_array ps) = Done ps"
  using null_terminated_all [of "[p]"] null_terminated_all [of ps] by (simp_all add: one_stream_def stream_array_def)

lemma three_runs:
  "\<exists>R'. pipeline_work handleStreamInst (handleCallInst (\<lambda>_. Done)) three_children None None (sample_runtime blank_graph) = Done R'"
  "\<exists>R'. splitjoin_work handleStreamInst (handleCallInst (\<lambda>_. Done)) three_children None None (sample_runtime blank_graph) = Done R'"
  by (simp_all add: pipeline_work_def splitjoin_work_def three_children_def Let_def handleCallInst_def null_pointer
      handleStreamInst_def newStream_def numeral_2_eq_2 numeral_3_eq_3 split: prod.split)

theorem pipeline_chains_children_witness:
  "\<exists>R' p q. pipeline_work handleStreamInst (handleCallInst (\<lambda>_. Done)) three_children None None (sample_runtime blank_graph) = Done R' \<and>
     p \<noteq> q \<and> wiring R' 11 = ([], [p]) \<and> wiring R' 12 = ([p], [q]) \<and> wiring R' 13 = ([q], [])"
proof -
  obtain R' where R': "pipeline_work handleStreamInst (handleCallInst (\<lambda>_. Done)) three_children None None (sample_runtime blank_graph) = Done R'"
    using three_runs(1) by blast
  have pre: "num_children three_children = int 3" "(2::nat) \<le> 3" "3 \<le> length (children_of three_children)"
    "distinct (take 3 (children_of three_children))"
    "\<forall>j\<in>set (take 3 (children_of three_children)). \<forall>k\<in>set (take 3 (children_of three_children)). j \<notin> {}"
    by (simp_all add: three_children_def)
  from pipeline_chains_children [OF calls_nothing R' null_pointer null_pointer pre] obtain ps where
    ps: "length ps = 3 - 1" "distinct ps"
    "\<forall>j<3. wiring R' (children_of three_children ! j) = (if j = 0 then [] else [ps ! (j - 1)], if j = 3 - 1 then [] else [ps ! j])"
    by blast
  have "ps ! 0 \<noteq> ps ! 1" using ps(1,2) by (simp add: nth_eq_iff_index_eq)
  moreover have "wiring R' 11 = ([], [ps ! 0])" "wiring R' 12 = ([ps ! 0], [ps ! 1])" "wiring R' 13 = ([ps ! 1], [])"
    using ps(3) [rule_format, of 0] ps(3) [rule_format, of 1] ps(3) [rule_format, of 2] by (simp_all add: three_children_def)
  ultimately show ?thesis using R' by blast
qed

theorem splitjoin_connects_branches_witness:
  "\<exists>R' p q. splitjoin_work handleStreamInst (handleCallInst (\<lambda>_. Done)) three_children None None (sample_runtime blank_graph) = Done R' \<and>
     p \<noteq> q \<and> wiring R' 11 = ([], [p]) \<and> wiring R' 12 = ([p], [q]) \<and> wiring R' 13 = ([q], [])"
proof -
  obtain R' where R': "splitjoin_work handleStreamInst (handleCallInst (\<lambda>_. Done)) three_children None None (sample_runtime blank_graph) = Done R'"
    using three_runs(2) by blast
  have pre: "num_children three_children = int 3" "(3::nat) \<le> 3" "3 \<le> length (children_of three_children)"
    "distinct (take 3 (children_of three_children))"
    "\<forall>j\<in>set (take 3 (children_of three_children)). \<forall>k\<in>set (take 3 (children_of three_children)). j \<notin> {}"
    by (simp_all add: three_children_def)
  from splitjoin_connects_branches [OF calls_nothing R' null_pointer null_pointer pre] obtain ps qs where
    ps: "length ps = 3 - 2" "length qs = 3 - 2" "distinct (ps @ qs)"
    "wiring R' (children_of three_children ! 0) = ([], ps)" "wiring R' (children_of three_children ! (3 - 1)) = (qs, [])"
    "\<forall>j<3 - 2. wiring R' (children_of three_children ! Suc j) = ([ps ! j], [qs ! j])"
    by blast
  from ps(1,2) obtain p q where pq: "ps = [p]" "qs = [q]" by (auto simp: length_Suc_conv)
  from ps(3-6) have "p \<noteq> q" "wiring R' 11 = ([], [p])" "wiring R' 12 = ([p], [q])" "wiring R' 13 = ([q], [])"
    by (simp_all add: three_children_def pq)
  with R' show ?thesis by blast
qed

end
