(* ===== verification/Symbol_Table.thy ===== *)
theory Symbol_Table
  imports Skir_Prelude "HOL-Library.Sublist"
begin

section \<open>The symbol table of the StreamIt compiler\<close>

text \<open>
  \<open>tools/streamit/SymbolTable.cpp\<close>: a map from strings to pairs of a node of the program and a value of the
  generated code, either of which may be null.  A scope is the string of the names around it,
  joined by \<open>::\<close>, and a lookup that fails is repeated with the innermost name taken away.  All of it works on
  strings, and so does this model; that the strings mean scopes is what is proved.
\<close>

definition SEP :: string where
  "SEP = [CHR 0x3A, CHR 0x3A]"

fun str_find :: "string \<Rightarrow> string \<Rightarrow> nat option" where
  "str_find p [] = (if p = [] then Some 0 else None)"
| "str_find p (c # s) = (if prefix p (c # s) then Some 0 else map_option Suc (str_find p s))"

fun str_rfind :: "string \<Rightarrow> string \<Rightarrow> nat option" where
  "str_rfind p [] = (if p = [] then Some 0 else None)"
| "str_rfind p (c # s) =
     (case str_rfind p s of
        Some i \<Rightarrow> Some (Suc i)
      | None \<Rightarrow> if prefix p (c # s) then Some 0 else None)"

record ('n, 'v) symtab =
  syms :: "string \<Rightarrow> ('n option \<times> 'v option) option"
  scope :: string

subsection \<open>Scopes\<close>

definition pushScope :: "string \<Rightarrow> ('n, 'v) symtab \<Rightarrow> ('n, 'v) symtab" where
  "pushScope name st = st\<lparr>scope := scope st @ SEP @ name\<rparr>"

definition popScope :: "('n, 'v) symtab \<Rightarrow> ('n, 'v) symtab" where
  "popScope st = (case str_rfind SEP (scope st) of None \<Rightarrow> st | Some n \<Rightarrow> st\<lparr>scope := take n (scope st)\<rparr>)"

definition setScope :: "string \<Rightarrow> ('n, 'v) symtab \<Rightarrow> ('n, 'v) symtab" where
  "setScope s st = st\<lparr>scope := s\<rparr>"

definition scoped_name :: "('n, 'v) symtab \<Rightarrow> string \<Rightarrow> bool \<Rightarrow> string" where
  "scoped_name st name scoped = (if scoped then name else scope st @ SEP @ name)"

subsection \<open>Lookup\<close>

text \<open>
  The recursion need not end for strings that are not joined names, so that it is a partial function.
  A name without \<open>::\<close> makes \<open>substr\<close> throw an exception.
\<close>

definition global_ent :: "('n, 'v) symtab \<Rightarrow> string \<Rightarrow> string \<Rightarrow> 'n option \<times> 'v option" where
  "global_ent st name ident =
     (if str_find (SEP @ ''init'') name = None \<and> str_find (SEP @ ''work'') name = None
      then (case syms st (''streamit'' @ SEP @ ''TheGlobal'' @ ident) of None \<Rightarrow> (None, None) | Some e \<Rightarrow> e)
      else (None, None))"

partial_function (option) getEnt_scoped ::
    "('n, 'v) symtab \<Rightarrow> string \<Rightarrow> (unit, 'n option \<times> 'v option) outcome option" where
  "getEnt_scoped st name =
     (case syms st name of
        Some ent \<Rightarrow> Some (Done ent)
      | None \<Rightarrow>
          (case str_rfind SEP name of
             None \<Rightarrow> Some Fault
           | Some b \<Rightarrow>
               if str_find SEP name \<noteq> Some b then
                 (let old_scope = take b name;
                      new_scope = (case str_rfind SEP old_scope of None \<Rightarrow> old_scope | Some c \<Rightarrow> take c old_scope) in
                  getEnt_scoped st (new_scope @ drop b name))
               else Some (Done (global_ent st name (drop b name)))))"

definition getEnt :: "('n, 'v) symtab \<Rightarrow> string \<Rightarrow> bool \<Rightarrow> (unit, 'n option \<times> 'v option) outcome option" where
  "getEnt st name scoped = getEnt_scoped st (scoped_name st name scoped)"

definition getValue :: "('n, 'v) symtab \<Rightarrow> string \<Rightarrow> bool \<Rightarrow> (unit, 'v option) outcome option" where
  "getValue st name scoped = map_option (\<lambda>r. bind_out r (\<lambda>e. Done (snd e))) (getEnt st name scoped)"

definition getNode :: "('n, 'v) symtab \<Rightarrow> string \<Rightarrow> bool \<Rightarrow> (unit, 'n option) outcome option" where
  "getNode st name scoped = map_option (\<lambda>r. bind_out r (\<lambda>e. Done (fst e))) (getEnt st name scoped)"

definition getExists :: "('n, 'v) symtab \<Rightarrow> string \<Rightarrow> bool \<Rightarrow> (unit, bool) outcome option" where
  "getExists st name scoped =
     map_option (\<lambda>r. bind_out r (\<lambda>e. Done (\<not> (fst e = None \<and> snd e = None)))) (getEnt st name scoped)"

definition addEntry :: "string \<Rightarrow> 'n option \<Rightarrow> 'v option \<Rightarrow> bool \<Rightarrow> ('n, 'v) symtab \<Rightarrow> ('n, 'v) symtab" where
  "addEntry name node val scoped st = st\<lparr>syms := (syms st)(scoped_name st name scoped \<mapsto> (node, val))\<rparr>"

subsection \<open>Strings of joined names\<close>

definition plain :: "string \<Rightarrow> bool" where
  "plain s \<longleftrightarrow> CHR 0x3A \<notin> set s"

fun path :: "string list \<Rightarrow> string" where
  "path [] = []"
| "path [c] = c"
| "path (c # cs) = c @ SEP @ path cs"

lemma path_snoc: "cs \<noteq> [] \<Longrightarrow> path (cs @ [c]) = path cs @ SEP @ c"
  by (induction cs rule: path.induct) simp_all

lemma rfind_none: "plain s \<Longrightarrow> str_rfind (CHR 0x3A # p) s = None"
  by (induction s) (auto simp: plain_def)

lemma find_none: "plain s \<Longrightarrow> str_find (CHR 0x3A # p) s = None"
  by (induction s) (auto simp: plain_def)

lemma rfind_sep: "plain ident \<Longrightarrow> str_rfind SEP (p @ SEP @ ident) = Some (length p)"
proof (induction p)
  case Nil
  then have "\<not> prefix SEP (CHR 0x3A # ident)" by (cases ident) (auto simp: SEP_def plain_def)
  with Nil rfind_none [of ident "[CHR 0x3A]"] show ?case by (auto simp: SEP_def)
qed (simp add: SEP_def)

lemma find_sep: "plain c \<Longrightarrow> str_find SEP (c @ SEP @ s) = Some (length c)"
  by (induction c) (auto simp: SEP_def plain_def)

lemma find_sep_then: "plain c \<Longrightarrow> plain ident \<Longrightarrow> str_find (SEP @ p) (c @ SEP @ ident) = (if prefix p ident then Some (length c) else None)"
proof (induction c)
  case Nil
  then show ?case using find_none [of ident "CHR 0x3A # p"]
    by (cases ident) (auto simp: SEP_def plain_def)
qed (auto simp: SEP_def plain_def)

lemma path_first: "plain c \<Longrightarrow> str_find SEP (path (c # cs) @ SEP @ ident) = Some (length c)"
  using find_sep by (cases cs) simp_all

subsection \<open>Lookup finds the innermost entry\<close>

text \<open>The abstract lookup: scopes are lists of names, here with the innermost first.\<close>

fun search :: "(string list \<Rightarrow> 'e option) \<Rightarrow> string list \<Rightarrow> string \<Rightarrow> 'e option" where
  "search T [] ident = None"
| "search T (c # rcs) ident = (case T (rev (c # rcs) @ [ident]) of Some e \<Rightarrow> Some e | None \<Rightarrow> search T rcs ident)"

definition lookup_in :: "(string list \<Rightarrow> ('n option \<times> 'v option) option) \<Rightarrow> string list \<Rightarrow> string \<Rightarrow> 'n option \<times> 'v option" where
  "lookup_in T rcs ident =
     (case search T rcs ident of
        Some e \<Rightarrow> e
      | None \<Rightarrow>
          if prefix ''init'' ident \<or> prefix ''work'' ident then (None, None)
          else (case T [''streamit'', ''TheGlobal'', ident] of None \<Rightarrow> (None, None) | Some e \<Rightarrow> e))"

definition table :: "('n, 'v) symtab \<Rightarrow> string list \<Rightarrow> ('n option \<times> 'v option) option" where
  "table st cs = syms st (path cs)"

lemma getEnt_step:
  assumes "rcs \<noteq> []" and "\<forall>c\<in>set rcs. plain c" and "plain ident" and "c = hd (rev rcs)"
  shows "getEnt_scoped st (path (rev rcs @ [ident])) =
    (case table st (rev rcs @ [ident]) of
       Some e \<Rightarrow> Some (Done e)
     | None \<Rightarrow>
         if tl rcs = [] then Some (Done (global_ent st (c @ SEP @ ident) (SEP @ ident)))
         else getEnt_scoped st (path (rev (tl rcs) @ [ident])))"
proof -
  have p: "path (rev rcs @ [ident]) = path (rev rcs) @ SEP @ ident" using assms(1) by (intro path_snoc) simp
  have r: "str_rfind SEP (path (rev rcs) @ SEP @ ident) = Some (length (path (rev rcs)))" by (rule rfind_sep [OF assms(3)])
  obtain d ds where ds: "rev rcs = d # ds" using assms(1) by (metis rev_is_Nil_conv list.exhaust)
  have d: "plain d" using ds assms(2) by (metis list.set_intros(1) set_rev)
  have f: "str_find SEP (path (rev rcs) @ SEP @ ident) = Some (length d)" unfolding ds by (rule path_first [OF d])
  show ?thesis
  proof (cases ds)
    case Nil
    then have "rcs = [d]" using ds by simp
    then show ?thesis using assms(4) r f by (subst getEnt_scoped.simps) (simp add: table_def split: option.split)
  next
    case (Cons x xs)
    obtain last init where li: "rcs = last # init" "init \<noteq> []"
      using ds Cons by (metis append_Nil length_Cons length_rev list.size(3) neq_Nil_conv rev.simps(2) rev_rev_ident nat.simps(3) length_0_conv Suc_inject)
    have pl: "path (rev rcs) = path (rev init) @ SEP @ last" using li path_snoc [of "rev init" last] by simp
    have "str_rfind SEP (path (rev rcs)) = Some (length (path (rev init)))"
      unfolding pl using li assms(2) by (intro rfind_sep) simp
    moreover have "length d < length (path (rev rcs))" unfolding ds Cons by (cases xs) (simp_all add: SEP_def)
    ultimately show ?thesis using r f li p path_snoc [of "rev init" ident] pl
      by (subst getEnt_scoped.simps) (simp add: table_def Let_def split: option.split)
  qed
qed

lemma global_ent_path:
  assumes "plain c" "plain ident"
  shows "global_ent st (c @ SEP @ ident) (SEP @ ident) =
    (if prefix ''init'' ident \<or> prefix ''work'' ident then (None, None)
     else (case table st [''streamit'', ''TheGlobal'', ident] of None \<Rightarrow> (None, None) | Some e \<Rightarrow> e))"
  by (simp add: global_ent_def find_sep_then [OF assms] table_def)

lemma lookup_lemma:
  assumes "rcs \<noteq> []" and "\<forall>c\<in>set rcs. plain c" and "plain ident"
  shows "getEnt_scoped st (path (rev rcs @ [ident])) = Some (Done (lookup_in (table st) rcs ident))"
  using assms
proof (induction rcs)
  case (Cons c rcs)
  let ?c = "hd (rev (c # rcs))"
  have "plain ?c" using Cons.prems by (metis hd_in_set rev_is_Nil_conv set_rev)
  note step = getEnt_step [OF Cons.prems refl, of st] and g = global_ent_path [OF this Cons.prems(3), of st]
  show ?case
  proof (cases "table st (rev (c # rcs) @ [ident])")
    case (Some e)
    then show ?thesis using step by (simp add: lookup_in_def)
  next
    case None
    show ?thesis
    proof (cases rcs)
      case Nil
      then show ?thesis using step None g by (simp add: lookup_in_def)
    next
      case C: (Cons d ds)
      then have "getEnt_scoped st (path (rev rcs @ [ident])) = Some (Done (lookup_in (table st) rcs ident))"
        using Cons.prems by (intro Cons.IH) simp_all
      then show ?thesis using step None C by (simp add: lookup_in_def)
    qed
  qed
qed simp

text \<open>
  C31. A lookup ends, and finds the entry of the innermost scope that has one: with the scope
  \<open>c_1::...::c_n\<close> a name is looked for in it, then in \<open>c_1::...::c_(n-1)\<close>, and so on to \<open>c_1\<close>, and last among
  the globals; but never there when it begins with \<open>init\<close> or \<open>work\<close>, because the test that is meant for the
  functions of these names looks for a substring.
\<close>

theorem lookup_innermost_scope:
  assumes "cs \<noteq> []" and "\<forall>c\<in>set cs. plain c" and "plain ident"
  shows "getEnt (setScope (path cs) st) ident False = Some (Done (lookup_in (table st) (rev cs) ident))"
proof -
  have "table (setScope (path cs) st) = table st" by (simp add: table_def setScope_def fun_eq_iff)
  then show ?thesis using lookup_lemma [of "rev cs" ident "setScope (path cs) st"] assms path_snoc [of cs ident]
    by (simp add: getEnt_def scoped_name_def setScope_def)
qed

text \<open>A field hides a global of the same name; a global whose name begins with \<open>init\<close> is not found.\<close>

definition sample_table :: "(nat, nat) symtab" where
  "sample_table = \<lparr>syms = [path [''streamit'', ''TheGlobal'', ''n''] \<mapsto> (Some 1, None),
     path [''streamit'', ''F'', ''n''] \<mapsto> (Some 2, None), path [''streamit'', ''TheGlobal'', ''initial''] \<mapsto> (Some 3, None)],
     scope = ''streamit''\<rparr>"

theorem lookup_innermost_scope_witness:
  "getEnt (setScope (path [''streamit'', ''F'', ''work'']) sample_table) ''n'' False = Some (Done (Some 2, None)) \<and>
   getEnt (setScope (path [''streamit'', ''F'', ''work'']) sample_table) ''initial'' False = Some (Done (None, None))"
  using lookup_innermost_scope [of "[''streamit'', ''F'', ''work'']" "''n''" sample_table]
    lookup_innermost_scope [of "[''streamit'', ''F'', ''work'']" "''initial''" sample_table]
  by (simp add: lookup_in_def table_def sample_table_def plain_def SEP_def)

text \<open>Entering and leaving a scope, and finding what was added.\<close>

lemma pop_push: "plain name \<Longrightarrow> popScope (pushScope name st) = st"
  by (simp add: popScope_def pushScope_def rfind_sep)

lemma found_after_add:
  assumes "scope st = path cs" and "cs \<noteq> []" and "\<forall>c\<in>set cs. plain c" and "plain ident"
  shows "getEnt (addEntry ident node val False st) ident False = Some (Done (node, val))"
proof -
  have e: "scope (addEntry ident node val False st) = path cs" by (simp add: addEntry_def assms(1))
  have "table (addEntry ident node val False st) (cs @ [ident]) = Some (node, val)"
    using assms(1) path_snoc [OF assms(2)] by (simp add: table_def addEntry_def scoped_name_def)
  then have "search (table (addEntry ident node val False st)) (rev cs) ident = Some (node, val)"
    using assms(2) by (cases "rev cs") (auto simp flip: rev_swap)
  then show ?thesis using lookup_lemma [of "rev cs" ident "addEntry ident node val False st"] assms(2-4) path_snoc [OF assms(2), of ident]
    by (simp add: getEnt_def scoped_name_def e lookup_in_def)
qed

subsection \<open>The interface of the table for the code generator\<close>

text \<open>
  What the generator of code relies on: it finds a value under the name it entered it for, and entering a name
  changes neither the values of other names nor what the name means in the program.
\<close>

locale symbol_names =
  fixes ok :: "'t \<Rightarrow> bool"
    and find_val :: "'t \<Rightarrow> string \<Rightarrow> 'v option"
    and find_nd :: "'t \<Rightarrow> string \<Rightarrow> 'n option"
    and add :: "string \<Rightarrow> 'v \<Rightarrow> 't \<Rightarrow> 't"
    and valid :: "string \<Rightarrow> bool"
  assumes ok_add: "ok t \<Longrightarrow> valid x \<Longrightarrow> ok (add x v t)"
    and find_add: "ok t \<Longrightarrow> valid x \<Longrightarrow> valid y \<Longrightarrow> find_val (add x v t) y = (if y = x then Some v else find_val t y)"
    and node_add: "ok t \<Longrightarrow> valid x \<Longrightarrow> valid y \<Longrightarrow> find_nd (add x v t) y = find_nd t y"
begin

lemma find_kept:
  "ok t \<Longrightarrow> valid x \<Longrightarrow> find_val t x = None \<Longrightarrow> valid y \<Longrightarrow> find_val t y = Some w \<Longrightarrow> find_val (add x v t) y = Some w"
  by (auto simp: find_add)

lemma ok_adds: "ok t \<Longrightarrow> \<forall>(x, v)\<in>set xs. valid x \<Longrightarrow> ok (fold (\<lambda>(x, v). add x v) xs t)"
  by (induction xs arbitrary: t) (auto simp: ok_add)

lemma find_adds:
  assumes "ok t" and "\<forall>(x, v)\<in>set xs. valid x" and "distinct (map fst xs)" and "valid y"
  shows "find_val (fold (\<lambda>(x, v). add x v) xs t) y = (case map_of xs y of Some v \<Rightarrow> Some v | None \<Rightarrow> find_val t y)"
  using assms
proof (induction xs arbitrary: t)
  case (Cons a xs)
  obtain x v where a: "a = (x, v)" by (cases a)
  have "find_val (fold (\<lambda>(x, v). add x v) xs (add x v t)) y =
      (case map_of xs y of Some v \<Rightarrow> Some v | None \<Rightarrow> find_val (add x v t) y)"
    using Cons.prems a by (intro Cons.IH) (auto intro: ok_add)
  moreover have "map_of xs x = None" using Cons.prems a by (simp add: map_of_eq_None_iff)
  ultimately show ?case using Cons.prems a by (auto simp: find_add split: option.split)
qed simp

end

definition table_ok :: "('n, 'v) symtab \<Rightarrow> bool" where
  "table_ok st \<longleftrightarrow> (\<exists>cs. cs \<noteq> [] \<and> (\<forall>c\<in>set cs. plain c) \<and> scope st = path cs)"

definition find_value :: "('n, 'v) symtab \<Rightarrow> string \<Rightarrow> 'v option" where
  "find_value st name = (case getValue st name False of Some (Done v) \<Rightarrow> v | _ \<Rightarrow> None)"

definition find_node :: "('n, 'v) symtab \<Rightarrow> string \<Rightarrow> 'n option" where
  "find_node st name = (case getNode st name False of Some (Done n) \<Rightarrow> n | _ \<Rightarrow> None)"

text \<open>A value for a name whose node stays as it is.\<close>

definition add_value :: "string \<Rightarrow> 'v \<Rightarrow> ('n, 'v) symtab \<Rightarrow> ('n, 'v) symtab" where
  "add_value name v st = addEntry name (find_node st name) (Some v) False st"

lemma getEnt_lookup:
  assumes "cs \<noteq> []" and "\<forall>c\<in>set cs. plain c" and "scope st = path cs" and "plain x"
  shows "getEnt st x False = Some (Done (lookup_in (table st) (rev cs) x))"
  using lookup_lemma [of "rev cs" x st] assms path_snoc [of cs x] by (simp add: getEnt_def scoped_name_def)

lemma find_lookup:
  assumes "cs \<noteq> []" and "\<forall>c\<in>set cs. plain c" and "scope st = path cs" and "plain x"
  shows "find_value st x = snd (lookup_in (table st) (rev cs) x)" "find_node st x = fst (lookup_in (table st) (rev cs) x)"
  by (simp_all add: find_value_def find_node_def getValue_def getNode_def getEnt_lookup [OF assms])

lemma path_last:
  assumes "path (cs @ [x]) = path (ds @ [y])" and "cs \<noteq> []" and "ds \<noteq> []" and "plain x" and "plain y"
  shows "x = y"
proof -
  have e: "path cs @ SEP @ x = path ds @ SEP @ y" using assms path_snoc by metis
  then have "length (path cs) = length (path ds)" using rfind_sep [OF assms(4)] rfind_sep [OF assms(5)] by (metis option.inject)
  with e show ?thesis by simp
qed

lemma table_add:
  assumes "cs \<noteq> []" and "scope st = path cs"
  shows "table (addEntry x nd v False st) ds = (if path ds = path (cs @ [x]) then Some (nd, v) else table st ds)"
  using path_snoc [OF assms(1), of x] assms(2) by (simp add: table_def addEntry_def scoped_name_def)

lemma search_cong:
  "\<forall>ds. ds \<noteq> [] \<longrightarrow> T (ds @ [x]) = T' (ds @ [x]) \<Longrightarrow> search T rcs x = search T' rcs x"
proof (induction rcs)
  case (Cons c rcs)
  have "T (rev (c # rcs) @ [x]) = T' (rev (c # rcs) @ [x])" using Cons.prems by (metis Nil_is_rev_conv list.distinct(1))
  then show ?case using Cons by (simp split: option.split)
qed simp

lemma lookup_cong:
  assumes "\<forall>ds. ds \<noteq> [] \<longrightarrow> T (ds @ [x]) = T' (ds @ [x])"
  shows "lookup_in T rcs x = lookup_in T' rcs x"
proof -
  have "T ([''streamit'', ''TheGlobal''] @ [x]) = T' ([''streamit'', ''TheGlobal''] @ [x])" using assms by blast
  then show ?thesis using search_cong [OF assms, of rcs] by (auto simp: lookup_in_def split: option.split)
qed

lemma lookup_add:
  assumes "cs \<noteq> []" and "\<forall>c\<in>set cs. plain c" and "scope st = path cs" and "plain x" and "plain y"
  shows "lookup_in (table (addEntry x nd v False st)) (rev cs) y =
    (if y = x then (nd, v) else lookup_in (table st) (rev cs) y)"
proof (cases "y = x")
  case True
  have "table (addEntry x nd v False st) (rev (rev cs) @ [x]) = Some (nd, v)" by (simp add: table_add [OF assms(1,3)])
  moreover obtain d ds where "rev cs = d # ds" using assms(1) by (metis rev_is_Nil_conv list.exhaust)
  ultimately have "search (table (addEntry x nd v False st)) (rev cs) x = Some (nd, v)" by simp
  then show ?thesis using True by (simp add: lookup_in_def)
next
  case False
  have "\<forall>ds. ds \<noteq> [] \<longrightarrow> table (addEntry x nd v False st) (ds @ [y]) = table st (ds @ [y])"
    using path_last assms(1,4,5) False by (auto simp: table_add [OF assms(1,3)])
  then show ?thesis using False by (simp add: lookup_cong)
qed

lemma find_value_add:
  assumes "table_ok st" and "plain x" and "plain y"
  shows "find_value (add_value x v st) y = (if y = x then Some v else find_value st y)"
    and "find_node (add_value x v st) y = find_node st y"
proof -
  obtain cs where c: "cs \<noteq> []" "\<forall>c\<in>set cs. plain c" "scope st = path cs" using assms(1) by (auto simp: table_ok_def)
  have s: "scope (add_value x v st) = path cs" using c(3) by (simp add: add_value_def addEntry_def)
  show "find_value (add_value x v st) y = (if y = x then Some v else find_value st y)"
    unfolding find_lookup [OF c(1,2) s assms(3)] find_lookup [OF c assms(3)]
    unfolding add_value_def lookup_add [OF c assms(2,3)] by simp
  show "find_node (add_value x v st) y = find_node st y"
    unfolding find_lookup [OF c(1,2) s assms(3)] find_lookup [OF c assms(3)]
    unfolding add_value_def lookup_add [OF c assms(2,3)] by (simp add: find_lookup [OF c assms(2)])
qed

interpretation tbl: symbol_names table_ok find_value find_node add_value plain
  by unfold_locales (auto simp: find_value_add, auto simp: table_ok_def add_value_def addEntry_def)

end
