(* ===== verification/Lowering.thy ===== *)
theory Lowering
  imports Queue_Scheds Kernel_Info Stream_Unchecked
begin

section \<open>The passes that lower stream operations\<close>

text \<open>
  The passes of \<open>lib/SKIR\<close> that turn the work function of a program into one that the scheduler can call:
  \<open>SKIRRuntimeLowering.cpp\<close>, \<open>SKIRRuntimeCloning.cpp\<close>, \<open>SKIRBlockingOpsPass.cpp\<close>, \<open>SKIROuterLoopPass.cpp\<close>,
  \<open>SKIRStreamOpts.cpp\<close>, \<open>SKIRInlineStreams.cpp\<close> and \<open>SKIRKoroPass.cpp\<close>, with what they share in \<open>SKIRUtil.h\<close>.
  A function is the list of its instructions in the order in which \<open>inst_iterator\<close> visits them; casts are left out.
\<close>

subsection \<open>Functions and modules\<close>

text \<open>
  An instruction is known by its register; the registers of a function that is inlined get the register of the
  call in front.  The arguments of an intrinsic or call are its operands without the callee.
\<close>

type_synonym reg = "nat list"

datatype opv = Arg nat | Con uint32 | Reg reg | RtPtr

datatype intr = SPush | SPop | SPeek | SBecome | SKernel | SCall | SWait | SStream | SYield | SReturn

datatype winst =
    WIntr intr reg "opv list"
  | WCall reg string "opv list"
  | WIndirect reg "opv list"
  | WRet opv
  | WOther string reg "opv list"

text \<open>A module: its functions, and its global variables with the function that each is initialised with.\<close>

record lmod =
  funcs :: "string \<Rightarrow> winst list option"
  gvars :: "string \<Rightarrow> string option"
  loaded :: bool

type_synonym 'a lower = "lmod \<Rightarrow> (unit, 'a \<times> lmod) outcome"

text \<open>
  \<open>getInlineCode\<close>: the library is moved into the module the first time that a function is not found.  A global
  variable stands for the instance of the template that it points to.
\<close>

definition with_lib :: "lmod \<Rightarrow> lmod \<Rightarrow> lmod" where
  "with_lib lib M =
     (if loaded M then M
      else \<lparr>funcs = funcs lib ++ funcs M, gvars = gvars lib ++ gvars M, loaded = True\<rparr>)"

definition resolve :: "lmod \<Rightarrow> string \<Rightarrow> string option" where
  "resolve M Fn =
     (if funcs M Fn \<noteq> None then Some Fn
      else (case gvars M Fn of
              Some c \<Rightarrow> if funcs M c \<noteq> None then Some c else None
            | None \<Rightarrow> None))"

definition getInlineCode :: "lmod \<Rightarrow> string \<Rightarrow> string option lower" where
  "getInlineCode lib Fn M =
     (if funcs M Fn \<noteq> None then Done (Some Fn, M)
      else (let M = with_lib lib M in Done (resolve M Fn, M)))"

definition ReplaceCallWith :: "lmod \<Rightarrow> string \<Rightarrow> reg \<Rightarrow> opv list \<Rightarrow> winst list lower" where
  "ReplaceCallWith lib Fn r args M =
     bind_out (getInlineCode lib Fn M) (\<lambda>(F, M).
       case F of Some F \<Rightarrow> Done ([WCall r F args], M) | None \<Rightarrow> Fault)"

fun each_inst :: "(winst \<Rightarrow> winst list lower) \<Rightarrow> winst list \<Rightarrow> winst list lower" where
  "each_inst f [] M = Done ([], M)"
| "each_inst f (i # is) M =
     bind_out (f i M) (\<lambda>(js, M). bind_out (each_inst f is M) (\<lambda>(ks, M). Done (js @ ks, M)))"

subsection \<open>Operations on the graph\<close>

text \<open>\<open>SKIRLowerGraphOpsPass\<close>: calls of the runtime, whose address is a constant of the program.\<close>

fun lower_graph_op :: "winst \<Rightarrow> winst" where
  "lower_graph_op (WIntr SKernel r a) = WCall r ''__SKIRRT_kernel'' [RtPtr, a ! 0, a ! 1]"
| "lower_graph_op (WIntr SCall r a) = WCall r ''__SKIRRT_call'' [RtPtr, a ! 0, a ! 1, a ! 2]"
| "lower_graph_op (WIntr SWait r a) = WCall r ''__SKIRRT_wait'' [RtPtr, a ! 0]"
| "lower_graph_op (WIntr SBecome r a) = WIntr SBecome r (a[0 := RtPtr])"
| "lower_graph_op (WIntr SStream r a) = WCall r ''__SKIRRT_stream'' [RtPtr, a ! 0]"
| "lower_graph_op i = i"

definition LowerGraphOps :: "winst list \<Rightarrow> winst list" where
  "LowerGraphOps = map lower_graph_op"

text \<open>
  \<open>SKIRCloneWorkPass\<close>: a copy of the work function with the state of the runtime as a first parameter.  A call
  through a pointer has no called function, which \<open>dyn_cast\<close> does not accept.
\<close>

definition shift_arg :: "opv \<Rightarrow> opv" where
  "shift_arg v = (case v of Arg i \<Rightarrow> Arg (Suc i) | _ \<Rightarrow> v)"

fun map_args :: "(opv \<Rightarrow> opv) \<Rightarrow> winst \<Rightarrow> winst" where
  "map_args f (WIntr k r a) = WIntr k r (map f a)"
| "map_args f (WCall r n a) = WCall r n (map f a)"
| "map_args f (WIndirect r a) = WIndirect r (map f a)"
| "map_args f (WRet v) = WRet (f v)"
| "map_args f (WOther c r a) = WOther c r (map f a)"

fun is_indirect :: "winst \<Rightarrow> bool" where
  "is_indirect (WIndirect r a) = True"
| "is_indirect _ = False"

definition CloneWork :: "winst list \<Rightarrow> (unit, winst list) outcome" where
  "CloneWork work =
     (if list_ex is_indirect work then Fault else Done (map (map_args shift_arg) work))"

subsection \<open>Stream operations become calls\<close>

text \<open>
  The work function has the parameters \<open>rt_state\<close>, \<open>kernel_state\<close>, \<open>ins\<close>, \<open>outs\<close>.  The name of the operation is
  followed by a suffix that says how it waits.
\<close>

definition stream_op :: "lmod \<Rightarrow> string \<Rightarrow> winst \<Rightarrow> winst list lower" where
  "stream_op lib suf i M =
     (case i of
        WIntr SPush r a \<Rightarrow> ReplaceCallWith lib (''__SKIRRT_inline_push'' @ suf) r [Arg 3, a ! 0, a ! 1] M
      | WIntr SPop r a \<Rightarrow> ReplaceCallWith lib (''__SKIRRT_inline_pop'' @ suf) r [Arg 2, a ! 0, a ! 1] M
      | WIntr SPeek r a \<Rightarrow> ReplaceCallWith lib (''__SKIRRT_inline_peek'' @ suf) r [Arg 2, a ! 0, a ! 1, a ! 2] M
      | _ \<Rightarrow> Done ([i], M))"

definition BlockingOps_pass :: "lmod \<Rightarrow> rt_kernel \<Rightarrow> winst list \<Rightarrow> winst list lower" where
  "BlockingOps_pass lib K work M =
     assert_out (rt_ins K \<noteq> None \<and> rt_outs K \<noteq> None) (each_inst (stream_op lib ''_block'') work M)"

subsection \<open>The outer loop\<close>

text \<open>
  The body of a function that is inlined: its parameters are the arguments of the call, and its result is that of
  the call.
\<close>

definition actual :: "reg \<Rightarrow> opv list \<Rightarrow> opv \<Rightarrow> opv" where
  "actual r args v = (case v of Arg i \<Rightarrow> args ! i | Reg p \<Rightarrow> Reg (r @ p) | _ \<Rightarrow> v)"

fun inline_inst :: "reg \<Rightarrow> opv list \<Rightarrow> winst \<Rightarrow> winst" where
  "inline_inst r args (WIntr k q a) = WIntr k (r @ q) (map (actual r args) a)"
| "inline_inst r args (WCall q n a) = WCall (r @ q) n (map (actual r args) a)"
| "inline_inst r args (WIndirect q a) = WIndirect (r @ q) (map (actual r args) a)"
| "inline_inst r args (WRet v) = WOther ''result'' r [actual r args v]"
| "inline_inst r args (WOther c q a) = WOther c (r @ q) (map (actual r args) a)"

definition InlineFunction :: "reg \<Rightarrow> opv list \<Rightarrow> winst list \<Rightarrow> winst list" where
  "InlineFunction r args body = map (inline_inst r args) body"

text \<open>\<open>makeWorkFromSkel\<close>: the first call of the work function in the skeleton is replaced by its body.\<close>

fun fill_skel :: "winst list \<Rightarrow> winst list \<Rightarrow> (unit, winst list) outcome" where
  "fill_skel work [] = Done []"
| "fill_skel work (i # is) =
     (case i of
        WCall r n a \<Rightarrow>
          if n = ''__SKIRRT_workfn_extern'' \<or> n = ''__SKIRRT_workfn_extern0'' \<or> n = ''__SKIRRT_workfn_extern1''
          then Done (InlineFunction r a work @ is)
          else bind_out (fill_skel work is) (\<lambda>js. Done (i # js))
      | WIndirect r a \<Rightarrow> Fault
      | _ \<Rightarrow> bind_out (fill_skel work is) (\<lambda>js. Done (i # js)))"

definition makeWorkFromSkel :: "lmod \<Rightarrow> winst list \<Rightarrow> string \<Rightarrow> winst list lower" where
  "makeWorkFromSkel lib work skel_name M =
     bind_out (getInlineCode lib skel_name M) (\<lambda>(F, M).
       case Option.bind F (funcs M) of
         Some skel \<Rightarrow> bind_out (fill_skel work skel) (\<lambda>b. Done (b, M))
       | None \<Rightarrow> Fault)"

text \<open>Do the streams that follow have elements of one size?  The size is 0 until the first is seen.\<close>

fun same_size :: "uint32 list \<Rightarrow> bool \<times> uint32 \<Rightarrow> bool \<times> uint32" where
  "same_size [] s = s"
| "same_size (e # es) (equal, sz) =
     (if \<not> equal then (equal, sz)
      else if sz = 0 then same_size es (equal, e)
      else same_size es (sz = e, sz))"

definition stream_sizes :: "heap \<Rightarrow> nat \<Rightarrow> ptr list option \<Rightarrow> uint32 list" where
  "stream_sizes h n qs = (case qs of None \<Rightarrow> [] | Some qs \<Rightarrow> map (\<lambda>q. rs_elem_size (rts h q)) (take n qs))"

definition outer_suffix :: "rt_kernel \<Rightarrow> string \<Rightarrow> string" where
  "outer_suffix K ops =
     (let ops = (if ops = ''nocheck'' \<and> nins K = 1 \<and> nouts K = 1 then ops @ ''_p'' else ops) in
      if ops \<noteq> [] then ''_'' @ ops else ops)"

definition outer_skel :: "heap \<Rightarrow> rt_kernel \<Rightarrow> string \<Rightarrow> string" where
  "outer_skel h K workfn =
     (if workfn = ''nocheck'' then
        (let (equal, sz) = same_size (stream_sizes h (nouts K) (rt_outs K)) (same_size (stream_sizes h (nins K) (rt_ins K)) (True, 0)) in
         ''__SKIRRT_workfn_nocheck'' @
         (if nins K = 1 \<and> nouts K = 1 then ''_1_1''
          else if equal then ''_'' @ dec (unat sz) @ ''_'' @ dec STREAM_BUFFER_SIZE
          else []))
      else ''__SKIRRT_workfn_'' @ workfn)"

fun set_niters :: "rt_kernel \<Rightarrow> winst \<Rightarrow> winst list lower" where
  "set_niters K (WCall r n a) M =
     (if find_sub ''__SKIRRT_inline_compute_niters'' n \<noteq> None
      then Done ([WCall r n (a[2 := Con (of_nat (nins K)), 4 := Con (of_nat (nouts K))])], M)
      else Done ([WCall r n a], M))"
| "set_niters K (WIndirect r a) M = Fault"
| "set_niters K i M = Done ([i], M)"

definition OuterLoop_pass :: "lmod \<Rightarrow> heap \<Rightarrow> rt_kernel \<Rightarrow> string \<Rightarrow> string \<Rightarrow> winst list \<Rightarrow> winst list lower" where
  "OuterLoop_pass lib h K workfn ops work M =
     assert_out (rt_ins K \<noteq> None \<and> rt_outs K \<noteq> None)
       (bind_out (each_inst (stream_op lib (outer_suffix K ops)) work M) (\<lambda>(work, M).
        bind_out (makeWorkFromSkel lib work (outer_skel h K workfn) M) (\<lambda>(new_work, M).
          each_inst (set_niters K) new_work M)))"

subsection \<open>Operations for the size of the elements\<close>

text \<open>\<open>specializeOperSize\<close>: an operation on a stream that is known is replaced by the instance for its element size.\<close>

definition tmplt :: string where
  "tmplt = ''_E_B_ILi0ELi0''"

definition specialized_name :: "string \<Rightarrow> nat \<Rightarrow> string" where
  "specialized_name name sz =
     (case find_sub tmplt name of
        Some p \<Rightarrow> take p name @ ''_E_B_ILi'' @ dec sz @ ''ELi'' @ dec STREAM_BUFFER_SIZE @ drop (p + length tmplt) name
      | None \<Rightarrow> name)"

fun specialize_inst :: "heap \<Rightarrow> rt_kernel \<Rightarrow> winst \<Rightarrow> winst list lower" where
  "specialize_inst h K (WCall r name a) M =
     (if find_sub ''__SKIRRT_inline'' name = None \<or> find_sub tmplt name = None then Done ([WCall r name a], M)
      else (case a ! 1 of
              Con idx \<Rightarrow>
                (case (if find_sub ''push'' name \<noteq> None then rt_outs K else rt_ins K) of
                   None \<Rightarrow> Fault
                 | Some qs \<Rightarrow>
                     if unat idx < length qs then
                       (let name = specialized_name name (unat (rs_elem_size (rts h (qs ! unat idx)))) in
                        assert_out (funcs M name \<noteq> None) (Done ([WCall r name a], M)))
                     else Fault)
            | _ \<Rightarrow> Done ([WCall r name a], M)))"
| "specialize_inst h K i M = Done ([i], M)"

definition specializeOperSize :: "heap \<Rightarrow> rt_kernel \<Rightarrow> winst list \<Rightarrow> winst list lower" where
  "specializeOperSize h K = each_inst (specialize_inst h K)"

subsection \<open>Inlining\<close>

text \<open>
  The first loop replaces the operations that are left and collects the calls to be inlined, which the flag marks;
  the second inlines them.  A kernel that becomes another one returns 1.
\<close>

definition inlines :: "string \<Rightarrow> bool" where
  "inlines name \<longleftrightarrow>
     find_sub ''__SKIRRT_inline_push'' name \<noteq> None \<or> find_sub ''__SKIRRT_inline_peek'' name \<noteq> None \<or>
     find_sub ''__SKIRRT_inline_pop'' name \<noteq> None \<or> find_sub ''__SKIRRT_inline_array'' name \<noteq> None"

definition inline_site :: "lmod \<Rightarrow> bool \<Rightarrow> winst \<Rightarrow> (bool \<times> winst) list lower" where
  "inline_site lib noinline i M =
     (case i of
        WIntr k r a \<Rightarrow>
          if k = SPush \<or> k = SPop \<or> k = SPeek then
            bind_out (stream_op lib [] i M) (\<lambda>(js, M). Done (map (Pair True) js, M))
          else if k = SBecome then
            Done ([(False, WCall r ''__SKIRRT_become'' [a ! 0, a ! 1, Arg 2, Arg 3]), (False, WRet (Con 1))], M)
          else Fault
      | WCall r n a \<Rightarrow> Done ([(\<not> noinline \<and> inlines n, i)], M)
      | _ \<Rightarrow> Done ([(False, i)], M))"

fun inline_sites :: "lmod \<Rightarrow> bool \<Rightarrow> winst list \<Rightarrow> (bool \<times> winst) list lower" where
  "inline_sites lib noinline [] M = Done ([], M)"
| "inline_sites lib noinline (i # is) M =
     bind_out (inline_site lib noinline i M) (\<lambda>(js, M).
     bind_out (inline_sites lib noinline is M) (\<lambda>(ks, M). Done (js @ ks, M)))"

fun do_inline :: "bool \<times> winst \<Rightarrow> lmod \<Rightarrow> (unit, winst list) outcome" where
  "do_inline (True, WCall r n a) M = (case funcs M n of Some body \<Rightarrow> Done (InlineFunction r a body) | None \<Rightarrow> Fault)"
| "do_inline (b, i) M = Done [i]"

fun do_inlines :: "(bool \<times> winst) list \<Rightarrow> lmod \<Rightarrow> (unit, winst list) outcome" where
  "do_inlines [] M = Done []"
| "do_inlines (i # is) M = bind_out (do_inline i M) (\<lambda>js. bind_out (do_inlines is M) (\<lambda>ks. Done (js @ ks)))"

definition InlineStreams_pass :: "lmod \<Rightarrow> bool \<Rightarrow> winst list \<Rightarrow> winst list lower" where
  "InlineStreams_pass lib noinline work M =
     bind_out (inline_sites lib noinline work M) (\<lambda>(is, M). bind_out (do_inlines is M) (\<lambda>js. Done (js, M)))"

subsection \<open>Coroutines\<close>

fun koro_inst :: "winst \<Rightarrow> winst list" where
  "koro_inst (WCall r n a) = (if n = ''__SKIRRT_would_block'' then [WIntr SYield r [a ! 0, a ! 1]] else [WCall r n a])"
| "koro_inst (WRet v) = [WIntr SReturn [] [Arg 0, v], WRet v]"
| "koro_inst i = [i]"

definition KoroPass_pass :: "rt_kernel \<Rightarrow> winst list \<Rightarrow> winst list lower" where
  "KoroPass_pass K work M =
     assert_out (rt_ins K \<noteq> None \<and> rt_outs K \<noteq> None) (Done (concat (map koro_inst work), M))"

subsection \<open>The passes of a scheduler\<close>

text \<open>The passes of LLVM itself are the parameter \<open>llvm\<close>; they change the function only.\<close>

fun run_pass :: "(winst list \<Rightarrow> (unit, winst list) outcome) \<Rightarrow> lmod \<Rightarrow> bool \<Rightarrow> heap \<Rightarrow> rt_kernel \<Rightarrow> pass \<Rightarrow> winst list \<Rightarrow> winst list lower" where
  "run_pass llvm lib noinline h K (OuterLoop w ops) b M = OuterLoop_pass lib h K w ops b M"
| "run_pass llvm lib noinline h K LLVMOpts b M = bind_out (llvm b) (\<lambda>b. Done (b, M))"
| "run_pass llvm lib noinline h K StreamOpts b M = specializeOperSize h K b M"
| "run_pass llvm lib noinline h K InlineStreams b M = InlineStreams_pass lib noinline b M"
| "run_pass llvm lib noinline h K KoroPass b M = KoroPass_pass K b M"
| "run_pass llvm lib noinline h K BlockingOps b M = BlockingOps_pass lib K b M"

fun run_passes :: "(winst list \<Rightarrow> (unit, winst list) outcome) \<Rightarrow> lmod \<Rightarrow> bool \<Rightarrow> heap \<Rightarrow> rt_kernel \<Rightarrow> pass list \<Rightarrow> winst list \<Rightarrow> winst list lower" where
  "run_passes llvm lib noinline h K [] b M = Done (b, M)"
| "run_passes llvm lib noinline h K (p # ps) b M =
     bind_out (run_pass llvm lib noinline h K p b M) (\<lambda>(b, M). run_passes llvm lib noinline h K ps b M)"

end
