(* ===== verification/Lowering_Props.thy ===== *)
theory Lowering_Props
  imports Lowering
begin

section \<open>What lowering does to stream operations\<close>

text \<open>
  The operations of \<open>inline_stream_ops.cpp\<close> by name, a meaning for the instructions of a work function before and
  after the passes, and the properties: the code means the same, it is compiled exactly if the library
  has the instances that it needs, and no intrinsic is left.
\<close>

subsection \<open>The instances of the library\<close>

datatype opk = KPush | KPop | KPeek

datatype chk = Checked | Nocheck | NocheckP

fun op_suffix :: "chk \<Rightarrow> string" where
  "op_suffix Checked = ''''"
| "op_suffix Nocheck = ''_nocheck''"
| "op_suffix NocheckP = ''_nocheck_p''"

fun op_stem :: "opk \<Rightarrow> string" where
  "op_stem KPush = ''__SKIRRT_inline_push''"
| "op_stem KPop = ''__SKIRRT_inline_pop''"
| "op_stem KPeek = ''__SKIRRT_inline_peek''"

text \<open>The variable with the operation that reads the element size from the stream, and the names of the instances.\<close>

definition op_name :: "opk \<Rightarrow> chk \<Rightarrow> string" where
  "op_name k c = op_stem k @ op_suffix c"

definition op_pre :: "opk \<Rightarrow> chk \<Rightarrow> string" where
  "op_pre k c = ''_Z'' @ dec (length (op_name k c) + 5) @ op_name k c"

definition op_post :: "opk \<Rightarrow> string" where
  "op_post k = ''EEvPP13skir_stream_tjPv'' @ (if k = KPeek then ''j'' else [])"

definition mangled :: "opk \<Rightarrow> chk \<Rightarrow> nat \<Rightarrow> nat \<Rightarrow> string" where
  "mangled k c E B = op_pre k c @ ''_E_B_ILi'' @ dec E @ ''ELi'' @ dec B @ op_post k"

abbreviation checked_instances :: "(nat \<times> nat) list" where
  "checked_instances \<equiv> [(4, 32768), (4, 128), (8, 128), (8, 32768)]"

abbreviation nocheck_instances :: "(nat \<times> nat) list" where
  "nocheck_instances \<equiv>
     [(4, 128), (8, 128), (4, 16384), (4, 32768), (8, 16384), (8, 32768), (16, 16384), (16, 32768), (32, 16384), (32, 32768)]"

fun instances :: "chk \<Rightarrow> (nat \<times> nat) list" where
  "instances Checked = checked_instances"
| "instances _ = nocheck_instances"

definition has_ops :: "lmod \<Rightarrow> bool" where
  "has_ops M \<longleftrightarrow>
     (\<forall>k c E B. (funcs M (mangled k c E B) \<noteq> None) = ((E, B) \<in> set ((0, 0) # instances c))) \<and>
     (\<forall>k c. funcs M (op_name k c) = None \<and> gvars M (op_name k c) = Some (mangled k c 0 0))"

definition decode :: "string \<Rightarrow> (opk \<times> chk \<times> nat \<times> nat) option" where
  "decode n =
     find (\<lambda>(k, c, E, B). mangled k c E B = n)
       (concat (map (\<lambda>k. concat (map (\<lambda>c. map (\<lambda>(E, B). (k, c, E, B)) ((0, 0) # instances c)) [Checked, Nocheck, NocheckP]))
          [KPush, KPop, KPeek]))"

lemma dec_lits:
  "dec 0 = ''0''" "dec 24 = ''24''" "dec 25 = ''25''" "dec 32 = ''32''" "dec 33 = ''33''" "dec 34 = ''34''" "dec 35 = ''35''"
  by code_simp+

lemma op_pre_lits:
  "op_pre KPush Checked = ''_Z25__SKIRRT_inline_push''" "op_pre KPop Checked = ''_Z24__SKIRRT_inline_pop''"
  "op_pre KPeek Checked = ''_Z25__SKIRRT_inline_peek''" "op_pre KPush Nocheck = ''_Z33__SKIRRT_inline_push_nocheck''"
  "op_pre KPop Nocheck = ''_Z32__SKIRRT_inline_pop_nocheck''" "op_pre KPeek Nocheck = ''_Z33__SKIRRT_inline_peek_nocheck''"
  "op_pre KPush NocheckP = ''_Z35__SKIRRT_inline_push_nocheck_p''" "op_pre KPop NocheckP = ''_Z34__SKIRRT_inline_pop_nocheck_p''"
  "op_pre KPeek NocheckP = ''_Z35__SKIRRT_inline_peek_nocheck_p''"
  by (simp_all add: op_pre_def op_name_def dec_lits)

lemma generic_name: "mangled k c 0 0 = op_pre k c @ tmplt @ op_post k"
  by (simp add: mangled_def tmplt_def dec_lits)

lemma find_tmplt:
  "find_sub tmplt (mangled k c 0 0) = Some (length (op_pre k c))"
  unfolding generic_name by (cases k; cases c; simp add: op_pre_lits tmplt_def op_post_def)

lemma specialized_generic: "specialized_name (mangled k c 0 0) E = mangled k c E STREAM_BUFFER_SIZE"
  using find_tmplt [of k c] unfolding specialized_name_def generic_name mangled_def [of k c E] by simp

lemma name_has:
  "find_sub ''__SKIRRT_inline'' (mangled k c 0 0) \<noteq> None"
  "(find_sub ''push'' (mangled k c 0 0) \<noteq> None) = (k = KPush)"
  unfolding generic_name by (cases k; cases c; simp add: op_pre_lits tmplt_def op_post_def)+

lemma op_pre_cases:
  "op_pre k c @ ''_E_B_ILi'' @ s = op_pre k' c' @ ''_E_B_ILi'' @ s' \<Longrightarrow> k = k' \<and> c = c' \<and> s = s'"
  by (cases k; cases c; cases k'; cases c'; simp add: op_pre_lits)

lemma mangled_inj: "mangled k c E B = mangled k' c' E' B' \<Longrightarrow> (k, c, E, B) = (k', c', E', B')"
proof -
  assume a: "mangled k c E B = mangled k' c' E' B'"
  then have k: "k = k'" "c = c'" using op_pre_cases unfolding mangled_def by blast+
  let ?p = "op_pre k c @ ''_E_B_ILi''" and ?r = "tl (op_post k)"
  have r: "op_post k = ''E'' @ ?r" by (simp add: op_post_def)
  have "name_args (?p @ dec E @ ''ELi'' @ dec B @ ''E'' @ ?r) (length ?p) = Some (int E, int B)" by (rule name_args_dec)
  moreover have "name_args (?p @ dec E' @ ''ELi'' @ dec B' @ ''E'' @ ?r) (length ?p) = Some (int E', int B')" by (rule name_args_dec)
  moreover have "?p @ dec E @ ''ELi'' @ dec B @ ''E'' @ ?r = ?p @ dec E' @ ''ELi'' @ dec B' @ ''E'' @ ?r"
    using a k unfolding mangled_def r [symmetric] by simp
  ultimately show ?thesis using k by (metis of_nat_eq_iff option.inject prod.inject)
qed

lemma find_exact: "(\<And>y. P y = (y = x)) \<Longrightarrow> find P xs = (if x \<in> set xs then Some x else None)"
  by (induction xs) auto

lemma all_tuples:
  "((k, c, E, B) \<in> set (concat (map (\<lambda>k. concat (map (\<lambda>c. map (\<lambda>(E, B). (k, c, E, B)) (F c)) [Checked, Nocheck, NocheckP])) [KPush, KPop, KPeek])))
    = ((E, B) \<in> set (F c))"
  by (cases k; cases c) auto

lemma decode_mangled:
  "decode (mangled k c E B) = (if (E, B) \<in> set ((0, 0) # instances c) then Some (k, c, E, B) else None)"
proof -
  let ?all = "concat (map (\<lambda>k. concat (map (\<lambda>c. map (\<lambda>(E, B). (k, c, E, B)) ((0, 0) # instances c)) [Checked, Nocheck, NocheckP])) [KPush, KPop, KPeek])"
  let ?P = "\<lambda>(k', c', E', B'). mangled k' c' E' B' = mangled k c E B"
  have p: "?P y = (y = (k, c, E, B))" for y using mangled_inj by (cases y) auto
  have m: "((k, c, E, B) \<in> set ?all) = ((E, B) \<in> set ((0, 0) # instances c))" by (rule all_tuples)
  have "find ?P ?all = (if (k, c, E, B) \<in> set ?all then Some (k, c, E, B) else None)" by (rule find_exact) (rule p)
  then show ?thesis unfolding decode_def m .
qed

subsection \<open>The meaning of a work function\<close>

text \<open>
  \<open>cells\<close> are the elements in the program's memory, by the operand that points to them, and \<open>known\<close> the integers that
  operands stand for.  The state of other instructions is inside \<open>oth\<close>, their meaning.
\<close>

record xst =
  xstore :: store
  cells :: "opv \<Rightarrow> byte list"
  known :: "opv \<Rightarrow> uint32"

definition opval :: "xst \<Rightarrow> opv \<Rightarrow> uint32" where
  "opval x v = (case v of Con i \<Rightarrow> i | _ \<Rightarrow> known x v)"

fun push_fn :: "chk \<Rightarrow> nat \<Rightarrow> nat \<Rightarrow> ptr list \<Rightarrow> nat \<Rightarrow> byte list \<Rightarrow> store \<Rightarrow> (endp, store) outcome" where
  "push_fn Checked E B = (if (E, B) = (0, 0) then inline_push_0_0 else inline_push_E_B E B)"
| "push_fn Nocheck E B = (if (E, B) = (0, 0) then inline_push_nocheck_0_0 else inline_push_nocheck_E_B E B)"
| "push_fn NocheckP E B = (if (E, B) = (0, 0) then inline_push_nocheck_p_0_0 else inline_push_nocheck_p_E_B E B)"

fun pop_fn :: "chk \<Rightarrow> nat \<Rightarrow> nat \<Rightarrow> ptr list \<Rightarrow> nat \<Rightarrow> store \<Rightarrow> (endp, byte list \<times> store) outcome" where
  "pop_fn Checked E B = (if (E, B) = (0, 0) then inline_pop_0_0 else inline_pop_E_B E B)"
| "pop_fn Nocheck E B = (if (E, B) = (0, 0) then inline_pop_nocheck_0_0 else inline_pop_nocheck_E_B E B)"
| "pop_fn NocheckP E B = (if (E, B) = (0, 0) then inline_pop_nocheck_p_0_0 else inline_pop_nocheck_p_E_B E B)"

fun peek_fn :: "chk \<Rightarrow> nat \<Rightarrow> nat \<Rightarrow> ptr list \<Rightarrow> nat \<Rightarrow> uint32 \<Rightarrow> store \<Rightarrow> (endp, byte list) outcome" where
  "peek_fn Checked E B = (if (E, B) = (0, 0) then inline_peek_0_0 else inline_peek_E_B E B)"
| "peek_fn Nocheck E B = (if (E, B) = (0, 0) then inline_peek_nocheck_0_0 else inline_peek_nocheck_E_B E B)"
| "peek_fn NocheckP E B = (if (E, B) = (0, 0) then inline_peek_nocheck_p_0_0 else inline_peek_nocheck_p_E_B E B)"

definition run_op :: "opk \<Rightarrow> chk \<Rightarrow> nat \<Rightarrow> nat \<Rightarrow> ptr list \<Rightarrow> opv list \<Rightarrow> xst \<Rightarrow> (endp, xst) outcome" where
  "run_op k c E B p a x =
     (let i = unat (opval x (a ! 0)) in
      case k of
        KPush \<Rightarrow> bind_out (push_fn c E B p i (cells x (a ! 1)) (xstore x)) (\<lambda>st. Done (x\<lparr>xstore := st\<rparr>))
      | KPop \<Rightarrow> bind_out (pop_fn c E B p i (xstore x)) (\<lambda>(e, st). Done (x\<lparr>xstore := st, cells := (cells x)(a ! 1 := e)\<rparr>))
      | KPeek \<Rightarrow> bind_out (peek_fn c E B p i (opval x (a ! 2)) (xstore x)) (\<lambda>e. Done (x\<lparr>cells := (cells x)(a ! 1 := e)\<rparr>)))"

text \<open>Intrinsics wait or do not, as \<open>c\<close> says; a call of a stream operation has the array of streams as first argument.\<close>

fun exec_inst :: "chk \<Rightarrow> (winst \<Rightarrow> xst \<Rightarrow> (endp, xst) outcome) \<Rightarrow> ptr list \<Rightarrow> ptr list \<Rightarrow> winst \<Rightarrow> xst \<Rightarrow> (endp, xst) outcome" where
  "exec_inst c oth ins outs (WIntr SPush r a) x = run_op KPush c 0 0 outs a x"
| "exec_inst c oth ins outs (WIntr SPop r a) x = run_op KPop c 0 0 ins a x"
| "exec_inst c oth ins outs (WIntr SPeek r a) x = run_op KPeek c 0 0 ins a x"
| "exec_inst c oth ins outs (WCall r n a) x =
     (case decode n of
        Some (k, c, E, B) \<Rightarrow>
          (case a of
             Arg i # a \<Rightarrow> if i = 2 then run_op k c E B ins a x else if i = 3 then run_op k c E B outs a x else Fault
           | _ \<Rightarrow> Fault)
      | None \<Rightarrow> oth (WCall r n a) x)"
| "exec_inst c oth ins outs i x = oth i x"

fun exec_insts :: "chk \<Rightarrow> (winst \<Rightarrow> xst \<Rightarrow> (endp, xst) outcome) \<Rightarrow> ptr list \<Rightarrow> ptr list \<Rightarrow> winst list \<Rightarrow> xst \<Rightarrow> (endp, xst) outcome" where
  "exec_insts c oth ins outs [] x = Done x"
| "exec_insts c oth ins outs (i # is) x = bind_out (exec_inst c oth ins outs i x) (exec_insts c oth ins outs is)"

text \<open>The headers of the streams have the element sizes that the runtime objects have.\<close>

definition sizes_of :: "heap \<Rightarrow> ptr list option \<Rightarrow> ptr list \<Rightarrow> store \<Rightarrow> bool" where
  "sizes_of h qs p st \<longleftrightarrow> (\<forall>q i. qs = Some q \<longrightarrow> i < length q \<longrightarrow> elem_size (hdr st (p ! i)) = rs_elem_size (rts h (q ! i)))"

definition sizes_ok :: "heap \<Rightarrow> rt_kernel \<Rightarrow> ptr list \<Rightarrow> ptr list \<Rightarrow> store \<Rightarrow> bool" where
  "sizes_ok h K ins outs st \<longleftrightarrow> sizes_of h (rt_ins K) ins st \<and> sizes_of h (rt_outs K) outs st"

definition same_sizes :: "store \<Rightarrow> store \<Rightarrow> bool" where
  "same_sizes st st' \<longleftrightarrow> (\<forall>s. elem_size (hdr st' s) = elem_size (hdr st s))"

definition keeps_sizes :: "(winst \<Rightarrow> xst \<Rightarrow> (endp, xst) outcome) \<Rightarrow> bool" where
  "keeps_sizes oth \<longleftrightarrow> (\<forall>i x x'. oth i x = Done x' \<longrightarrow> same_sizes (xstore x) (xstore x'))"

text \<open>A user's work function does not call the operations of the library by name.\<close>

fun user_inst :: "winst \<Rightarrow> bool" where
  "user_inst (WCall r n a) = (find_sub ''__SKIRRT_inline'' n = None)"
| "user_inst i = True"

lemma sizes_keep: "sizes_ok h K ins outs st \<Longrightarrow> same_sizes st st' \<Longrightarrow> sizes_ok h K ins outs st'"
  by (simp add: sizes_ok_def sizes_of_def same_sizes_def)

lemma put_sizes: "put_elem s b a n e nx st = Done st' \<Longrightarrow> same_sizes st st'"
  by (auto simp: same_sizes_def dest!: put_elem_hdr)

lemma get_sizes: "get_elem s b a n nx st = Done (e, st') \<Longrightarrow> same_sizes st st'"
  by (auto simp: same_sizes_def dest!: get_elem_hdr)

lemmas push_defs = inline_push_0_0_def inline_push_E_B_def inline_push_nocheck_0_0_def inline_push_nocheck_E_B_def
  inline_push_nocheck_p_0_0_def inline_push_nocheck_p_E_B_def with_stream_def

lemmas pop_defs = inline_pop_0_0_def inline_pop_E_B_def inline_pop_nocheck_0_0_def inline_pop_nocheck_E_B_def
  inline_pop_nocheck_p_0_0_def inline_pop_nocheck_p_E_B_def with_stream_def

lemmas peek_defs = inline_peek_0_0_def inline_peek_E_B_def inline_peek_nocheck_0_0_def inline_peek_nocheck_E_B_def
  inline_peek_nocheck_p_0_0_def inline_peek_nocheck_p_E_B_def with_stream_def

lemma push_keeps: "push_fn c E B p i e st = Done st' \<Longrightarrow> same_sizes st st'"
  by (cases c) (auto simp: push_defs Let_def dest: put_sizes split: if_splits)

lemma pop_keeps: "pop_fn c E B p i st = Done (e, st') \<Longrightarrow> same_sizes st st'"
  by (cases c) (auto simp: pop_defs Let_def dest: get_sizes split: if_splits)

lemma run_op_keeps: "run_op k c E B p a x = Done x' \<Longrightarrow> same_sizes (xstore x) (xstore x')"
  by (cases k) (auto simp: run_op_def same_sizes_def [of "xstore x" "xstore x"] elim!: bind_out_DoneE dest: push_keeps pop_keeps)

lemma exec_keeps: "keeps_sizes oth \<Longrightarrow> exec_inst c oth ins outs i x = Done x' \<Longrightarrow> same_sizes (xstore x) (xstore x')"
  by (cases "(c, oth, ins, outs, i, x)" rule: exec_inst.cases)
    (auto simp: keeps_sizes_def dest: run_op_keeps split: option.splits list.splits opv.splits if_splits)

text \<open>The operation that reads the element size is the instance for that size.\<close>

lemma fn_special:
  assumes "elem_size (hdr st (p ! i)) = w"
  shows "push_fn c 0 0 p i e st = push_fn c (unat w) STREAM_BUFFER_SIZE p i e st"
    "pop_fn c 0 0 p i st = pop_fn c (unat w) STREAM_BUFFER_SIZE p i st"
    "peek_fn c 0 0 p i off st = peek_fn c (unat w) STREAM_BUFFER_SIZE p i off st"
proof -
  have u: "of_nat (unat w) = w" by simp
  have b: "\<And>E. ((E, STREAM_BUFFER_SIZE) = (0, 0)) = False" "((0 :: nat, 0 :: nat) = (0, 0)) = True" by (simp_all add: STREAM_BUFFER_SIZE_def)
  show "push_fn c 0 0 p i e st = push_fn c (unat w) STREAM_BUFFER_SIZE p i e st"
    by (cases c; simp only: push_fn.simps b if_True if_False) (unfold push_defs ucast_elem_size assms Let_def, (rule refl)+)
  show "pop_fn c 0 0 p i st = pop_fn c (unat w) STREAM_BUFFER_SIZE p i st"
    by (cases c; simp only: pop_fn.simps b if_True if_False) (unfold pop_defs ucast_elem_size assms, (rule refl)+)
  show "peek_fn c 0 0 p i off st = peek_fn c (unat w) STREAM_BUFFER_SIZE p i off st"
    by (cases c; simp only: peek_fn.simps b if_True if_False) (unfold peek_defs ucast_elem_size assms u, (rule refl)+)
qed

lemma run_op_special:
  assumes "elem_size (hdr (xstore x) (p ! unat (opval x (a ! 0)))) = w"
  shows "run_op k c (unat w) STREAM_BUFFER_SIZE p a x = run_op k c 0 0 p a x"
  by (simp only: run_op_def Let_def fn_special [OF assms])

subsection \<open>Stream operations become calls\<close>

fun to_call :: "chk \<Rightarrow> winst \<Rightarrow> winst" where
  "to_call c (WIntr SPush r a) = WCall r (mangled KPush c 0 0) [Arg 3, a ! 0, a ! 1]"
| "to_call c (WIntr SPop r a) = WCall r (mangled KPop c 0 0) [Arg 2, a ! 0, a ! 1]"
| "to_call c (WIntr SPeek r a) = WCall r (mangled KPeek c 0 0) [Arg 2, a ! 0, a ! 1, a ! 2]"
| "to_call c i = i"

fun is_op :: "winst \<Rightarrow> bool" where
  "is_op (WIntr k r a) = (k = SPush \<or> k = SPop \<or> k = SPeek)"
| "is_op i = False"

lemma with_lib_with_lib [simp]: "with_lib lib (with_lib lib M) = with_lib lib M"
  by (simp add: with_lib_def)

lemma with_lib_None: "funcs (with_lib lib M) n = None \<Longrightarrow> funcs M n = None"
  by (auto simp: with_lib_def map_add_def split: if_splits option.splits)

lemma has_opsD:
  assumes "has_ops M"
  shows "(funcs M (mangled k c E B) \<noteq> None) = ((E, B) \<in> set ((0, 0) # instances c))" "funcs M (mangled k c 0 0) \<noteq> None"
    "funcs M (op_name k c) = None" "gvars M (op_name k c) = Some (mangled k c 0 0)"
  using assms by (simp_all add: has_ops_def)

lemma replace_op_call:
  assumes "has_ops (with_lib lib M)"
  shows "ReplaceCallWith lib (op_name k c) r args M = Done ([WCall r (mangled k c 0 0) args], with_lib lib M)"
proof -
  have "funcs M (op_name k c) = None" by (rule with_lib_None [OF has_opsD(3) [OF assms]])
  then have "getInlineCode lib (op_name k c) M = Done (Some (mangled k c 0 0), with_lib lib M)"
    using has_opsD [OF assms, of k c] by (auto simp: getInlineCode_def resolve_def)
  then show ?thesis by (simp add: ReplaceCallWith_def)
qed

lemma stream_op_call:
  assumes "has_ops (with_lib lib M)"
  shows "stream_op lib (op_suffix c) i M = Done ([to_call c i], if is_op i then with_lib lib M else M)"
proof -
  note r = replace_op_call [OF assms, of _ c, unfolded op_name_def]
  show ?thesis
  proof (cases i)
    case (WIntr k s a)
    then show ?thesis using r [of KPush] r [of KPop] r [of KPeek] by (cases k) (simp_all add: stream_op_def)
  qed (simp_all add: stream_op_def)
qed

lemma each_stream_op:
  assumes "has_ops (with_lib lib M)"
  shows "each_inst (stream_op lib (op_suffix c)) work M =
    Done (map (to_call c) work, if list_ex is_op work then with_lib lib M else M)"
  using assms by (induction work arbitrary: M) (auto simp: stream_op_call)

subsection \<open>Instances for the size of the elements\<close>

text \<open>Is there an instance for the stream of an operation?\<close>

definition known_size :: "heap \<Rightarrow> ptr list option \<Rightarrow> chk \<Rightarrow> opv \<Rightarrow> bool" where
  "known_size h qs c v =
     (case v of
        Con idx \<Rightarrow>
          (case qs of
             None \<Rightarrow> False
           | Some qs \<Rightarrow> unat idx < length qs \<and> (unat (rs_elem_size (rts h (qs ! unat idx))), STREAM_BUFFER_SIZE) \<in> set (instances c))
      | _ \<Rightarrow> True)"

fun supported :: "heap \<Rightarrow> rt_kernel \<Rightarrow> chk \<Rightarrow> winst \<Rightarrow> bool" where
  "supported h K c (WIntr SPush r a) = known_size h (rt_outs K) c (a ! 0)"
| "supported h K c (WIntr SPop r a) = known_size h (rt_ins K) c (a ! 0)"
| "supported h K c (WIntr SPeek r a) = known_size h (rt_ins K) c (a ! 0)"
| "supported h K c i = True"

definition size_call :: "heap \<Rightarrow> ptr list option \<Rightarrow> opk \<Rightarrow> chk \<Rightarrow> reg \<Rightarrow> opv \<Rightarrow> opv list \<Rightarrow> winst" where
  "size_call h qs k c r p a =
     (case (a ! 0, qs) of
        (Con idx, Some qs) \<Rightarrow> WCall r (mangled k c (unat (rs_elem_size (rts h (qs ! unat idx)))) STREAM_BUFFER_SIZE) (p # a)
      | _ \<Rightarrow> WCall r (mangled k c 0 0) (p # a))"

lemma specialize_generic:
  assumes "has_ops M"
  shows "specialize_inst h K (WCall r (mangled k c 0 0) (p # v # a)) M =
    (if known_size h (if k = KPush then rt_outs K else rt_ins K) c v
     then Done ([size_call h (if k = KPush then rt_outs K else rt_ins K) k c r p (v # a)], M) else Fault)"
proof -
  have t: "find_sub tmplt (mangled k c 0 0) \<noteq> None" by (simp add: find_tmplt)
  have f: "(funcs M (mangled k c E STREAM_BUFFER_SIZE) = None) = ((E, STREAM_BUFFER_SIZE) \<notin> set (instances c))" for E
    using has_opsD(1) [OF assms, of k c E STREAM_BUFFER_SIZE] by (auto simp: STREAM_BUFFER_SIZE_def)
  define qs where "qs = (if k = KPush then rt_outs K else rt_ins K)"
  have n: "(find_sub ''__SKIRRT_inline'' (mangled k c 0 0) = None) = False" "(find_sub tmplt (mangled k c 0 0) = None) = False"
    using name_has(1) [of k c] t by simp_all
  show ?thesis
    unfolding specialize_inst.simps name_has(2) specialized_generic qs_def [symmetric]
    by (cases v; cases qs) (simp_all add: n f known_size_def size_call_def assert_out_def Let_def del: not_None_eq)
qed

fun specialized :: "heap \<Rightarrow> rt_kernel \<Rightarrow> chk \<Rightarrow> winst \<Rightarrow> winst" where
  "specialized h K c (WIntr SPush r a) = size_call h (rt_outs K) KPush c r (Arg 3) [a ! 0, a ! 1]"
| "specialized h K c (WIntr SPop r a) = size_call h (rt_ins K) KPop c r (Arg 2) [a ! 0, a ! 1]"
| "specialized h K c (WIntr SPeek r a) = size_call h (rt_ins K) KPeek c r (Arg 2) [a ! 0, a ! 1, a ! 2]"
| "specialized h K c i = i"

lemma specialize_one:
  assumes "is_op i \<longrightarrow> has_ops M" and "user_inst i"
  shows "specialize_inst h K (to_call c i) M = (if supported h K c i then Done ([specialized h K c i], M) else Fault)"
proof (cases i)
  case (WIntr k r a)
  then show ?thesis using assms(1) by (cases k) (simp_all add: specialize_generic del: specialize_inst.simps(1))
qed (use assms(2) in auto)

lemma specialize_all:
  assumes "list_ex is_op work \<longrightarrow> has_ops M" and "list_all user_inst work"
  shows "specializeOperSize h K (map (to_call c) work) M =
    (if list_all (supported h K c) work then Done (map (specialized h K c) work, M) else Fault)"
  using assms unfolding specializeOperSize_def
  by (induction work) (auto simp: specialize_one simp del: specialize_inst.simps)

text \<open>Both passes together.\<close>

lemma lowered:
  assumes "has_ops (with_lib lib M)" and "list_all user_inst work"
    and "each_inst (stream_op lib (op_suffix c)) work M = Done (b, M1)"
  shows "specializeOperSize h K b M1 =
    (if list_all (supported h K c) work then Done (map (specialized h K c) work, M1) else Fault)"
proof -
  have b: "b = map (to_call c) work" "M1 = (if list_ex is_op work then with_lib lib M else M)"
    using assms(3) by (simp_all add: each_stream_op [OF assms(1)])
  show ?thesis unfolding b by (rule specialize_all [OF _ assms(2)]) (use assms(1) in simp)
qed

subsection \<open>The code means the same\<close>

lemma run_op_args:
  "k \<noteq> KPeek \<Longrightarrow> run_op k c E B p [a ! 0, a ! 1] x = run_op k c E B p a x"
  "run_op k c E B p [a ! 0, a ! 1, a ! 2] x = run_op k c E B p a x"
  by (cases k; simp add: run_op_def)+

lemma decode_known:
  "known_size h (Some q) c (Con i) \<Longrightarrow>
    decode (mangled k c (unat (rs_elem_size (rts h (q ! unat i)))) STREAM_BUFFER_SIZE) =
    Some (k, c, unat (rs_elem_size (rts h (q ! unat i))), STREAM_BUFFER_SIZE)"
  by (simp add: known_size_def decode_mangled)

lemma exec_size_call:
  assumes "known_size h qs c (a ! 0)" and "sizes_of h qs p (xstore x)" and "n = 2 \<and> p = ins \<or> n = 3 \<and> p = outs"
  shows "exec_inst d oth ins outs (size_call h qs k c r (Arg n) a) x = run_op k c 0 0 p a x"
proof -
  have g: "decode (mangled k c 0 0) = Some (k, c, 0, 0)" by (simp add: decode_mangled)
  show ?thesis
  proof (cases "\<exists>i q. a ! 0 = Con i \<and> qs = Some q")
    case True
    then obtain i q where iq: "a ! 0 = Con i" "qs = Some q" by blast
    note d = decode_known [OF assms(1) [unfolded iq], of k]
    have "unat i < length q" using assms(1) iq by (simp add: known_size_def)
    then have "elem_size (hdr (xstore x) (p ! unat (opval x (a ! 0)))) = rs_elem_size (rts h (q ! unat i))"
      using assms(2) iq by (simp add: sizes_of_def opval_def)
    note s = run_op_special [OF this, of k c]
    show ?thesis using assms(3) s by (elim disjE conjE) (simp_all add: size_call_def iq d)
  next
    case False
    then have "size_call h qs k c r (Arg n) a = WCall r (mangled k c 0 0) (Arg n # a)"
      by (auto simp: size_call_def split: opv.splits option.splits)
    then show ?thesis using assms(3) by (elim disjE conjE) (simp_all add: g)
  qed
qed

lemma exec_specialized:
  assumes "supported h K c i" and "sizes_ok h K ins outs (xstore x)"
  shows "exec_inst c oth ins outs (specialized h K c i) x = exec_inst c oth ins outs i x"
proof (cases i)
  case (WIntr k r a)
  have s: "sizes_of h (rt_ins K) ins (xstore x)" "sizes_of h (rt_outs K) outs (xstore x)" using assms(2) by (simp_all add: sizes_ok_def)
  show ?thesis using assms(1) WIntr
    by (cases k) (simp_all add: exec_size_call [OF _ s(1)] exec_size_call [OF _ s(2)] run_op_args del: One_nat_def)
qed simp_all

lemma exec_all:
  assumes "list_all (supported h K c) work" and "sizes_ok h K ins outs (xstore x)" and "keeps_sizes oth"
  shows "exec_insts c oth ins outs (map (specialized h K c) work) x = exec_insts c oth ins outs work x"
  using assms(1,2)
proof (induction work arbitrary: x)
  case (Cons i work)
  have e: "exec_inst c oth ins outs (specialized h K c i) x = exec_inst c oth ins outs i x"
    using Cons.prems by (intro exec_specialized) simp_all
  show ?case
  proof (cases "exec_inst c oth ins outs i x")
    case (Done x')
    have "sizes_ok h K ins outs (xstore x')" by (rule sizes_keep [OF Cons.prems(2) exec_keeps [OF assms(3) Done]])
    then show ?thesis using Cons e Done by simp
  qed (simp_all add: e)
qed simp

subsection \<open>No intrinsic is left\<close>

fun stream_intr :: "winst \<Rightarrow> bool" where
  "stream_intr (WIntr k r a) = (k = SPush \<or> k = SPop \<or> k = SPeek \<or> k = SBecome)"
| "stream_intr i = False"

fun any_intr :: "winst \<Rightarrow> bool" where
  "any_intr (WIntr k r a) = True"
| "any_intr i = False"

fun blocks_call :: "winst \<Rightarrow> bool" where
  "blocks_call (WCall r n a) = (n = ''__SKIRRT_would_block'')"
| "blocks_call i = False"

text \<open>A call of a push, pop, peek or array operation of the library.\<close>

fun op_call :: "winst \<Rightarrow> bool" where
  "op_call (WCall r n a) = inlines n"
| "op_call i = False"

text \<open>
  The bodies that are inlined contain no intrinsic and no call of another stream operation, as those in the library, and the
  passes of LLVM make neither intrinsics nor such calls nor calls that wait.
\<close>

definition plain_lib :: "lmod \<Rightarrow> bool" where
  "plain_lib M \<longleftrightarrow> (\<forall>n body. inlines n \<longrightarrow> funcs M n = Some body \<longrightarrow> \<not> list_ex any_intr body \<and> \<not> list_ex op_call body)"

definition llvm_ok :: "(winst list \<Rightarrow> (unit, winst list) outcome) \<Rightarrow> bool" where
  "llvm_ok llvm \<longleftrightarrow>
     (\<forall>b b'. llvm b = Done b' \<longrightarrow>
        (list_ex stream_intr b' \<longrightarrow> list_ex stream_intr b) \<and> (list_ex blocks_call b' \<longrightarrow> list_ex blocks_call b) \<and>
        (list_ex op_call b' \<longrightarrow> list_ex op_call b))"

lemma with_lib_keeps: "funcs M n = Some f \<Longrightarrow> funcs (with_lib lib M) n = Some f"
  by (simp add: with_lib_def)

lemma getInlineCode_with_lib: "getInlineCode lib Fn M = Done (F, M') \<Longrightarrow> with_lib lib M' = with_lib lib M"
  by (auto simp: getInlineCode_def Let_def split: if_splits)

lemma ReplaceCallWith_with_lib: "ReplaceCallWith lib Fn r a M = Done (js, M') \<Longrightarrow> with_lib lib M' = with_lib lib M"
  by (auto simp: ReplaceCallWith_def elim!: bind_out_DoneE dest!: getInlineCode_with_lib split: option.splits)

lemma each_inst_with_lib:
  assumes f: "\<And>i M js M'. f i M = Done (js, M') \<Longrightarrow> with_lib lib M' = with_lib lib M"
    and "each_inst f b M = Done (b', M')"
  shows "with_lib lib M' = with_lib lib M"
  using assms(2)
proof (induction b arbitrary: M b' M')
  case (Cons i b)
  obtain js M1 ks where s: "f i M = Done (js, M1)" "each_inst f b M1 = Done (ks, M')" using Cons.prems by (auto elim!: bind_out_DoneE)
  show ?case using f [OF s(1)] Cons.IH [OF s(2)] by simp
qed simp

lemma stream_op_with_lib: "stream_op lib suf i M = Done (js, M') \<Longrightarrow> with_lib lib M' = with_lib lib M"
  by (auto simp: stream_op_def dest: ReplaceCallWith_with_lib split: winst.splits intr.splits)

lemma specialize_inst_M: "specialize_inst h K i M = Done (js, M') \<Longrightarrow> M' = M"
  by (cases i) (auto simp: assert_out_def Let_def split: if_splits opv.splits option.splits)

lemma set_niters_M: "set_niters K i M = Done (js, M') \<Longrightarrow> M' = M"
  by (cases i) (auto split: if_splits)

text \<open>A site: no intrinsic; what is marked is the call of an operation, and with inlining on every such call is marked.\<close>

definition site_ok :: "bool \<Rightarrow> bool \<times> winst \<Rightarrow> bool" where
  "site_ok ni = (\<lambda>(f, j). \<not> any_intr j \<and> (f \<longrightarrow> (\<exists>r n a. j = WCall r n a \<and> inlines n)) \<and> (\<not> ni \<longrightarrow> \<not> f \<longrightarrow> \<not> op_call j))"

lemma become_not_inlined: "\<not> inlines ''__SKIRRT_become''"
  by code_simp

lemma inline_site_ok:
  assumes "has_ops (with_lib lib M)" and "inline_site lib ni i M = Done (js, M')"
  shows "with_lib lib M' = with_lib lib M" "list_all (site_ok ni) js"
proof -
  have n: "inlines (mangled k Checked 0 0)" for k
    unfolding generic_name by (cases k; simp add: inlines_def op_pre_lits tmplt_def op_post_def)
  note c = stream_op_call [OF assms(1), of Checked, unfolded op_suffix.simps]
  have "with_lib lib M' = with_lib lib M \<and> list_all (site_ok ni) js"
    using assms(2) n become_not_inlined
    by (cases i) (auto simp: inline_site_def site_ok_def c split: if_splits intr.splits)
  then show "with_lib lib M' = with_lib lib M" "list_all (site_ok ni) js" by blast+
qed

lemma inline_sites_ok:
  assumes "has_ops (with_lib lib M)" and "inline_sites lib ni b M = Done (js, M')"
  shows "with_lib lib M' = with_lib lib M \<and> list_all (site_ok ni) js"
  using assms
proof (induction b arbitrary: M js M')
  case (Cons i b)
  obtain xs M1 ys where s: "inline_site lib ni i M = Done (xs, M1)" "inline_sites lib ni b M1 = Done (ys, M')" "js = xs @ ys"
    using Cons.prems(2) by (auto elim!: bind_out_DoneE)
  note a = inline_site_ok [OF Cons.prems(1) s(1)]
  note b = Cons.IH [OF _ s(2)]
  show ?case using a b Cons.prems(1) s(3) by auto
qed simp

lemma inline_body_plain:
  "list_ex any_intr (InlineFunction r a body) = list_ex any_intr body"
  "list_ex op_call (InlineFunction r a body) = list_ex op_call body"
proof -
  have "any_intr (inline_inst r a i) = any_intr i" "op_call (inline_inst r a i) = op_call i" for i by (cases i; simp)+
  then show "list_ex any_intr (InlineFunction r a body) = list_ex any_intr body"
    "list_ex op_call (InlineFunction r a body) = list_ex op_call body"
    by (simp_all add: InlineFunction_def list_ex_iff)
qed

lemma do_inlines_plain:
  assumes "plain_lib M" and "list_all (site_ok ni) js" and "do_inlines js M = Done b"
  shows "\<not> list_ex any_intr b \<and> (\<not> ni \<longrightarrow> \<not> list_ex op_call b)"
  using assms(2,3)
proof (induction js arbitrary: b)
  case (Cons x js)
  obtain f j where x: "x = (f, j)" by force
  obtain xs ys where s: "do_inline (f, j) M = Done xs" "do_inlines js M = Done ys" "b = xs @ ys"
    using Cons.prems(2) x by (auto elim!: bind_out_DoneE)
  have ok: "site_ok ni (f, j)" using Cons.prems(1) x by simp
  have "\<not> list_ex any_intr xs \<and> (\<not> ni \<longrightarrow> \<not> list_ex op_call xs)"
  proof (cases f)
    case True
    then obtain r n a where j: "j = WCall r n a" "inlines n" using ok by (auto simp: site_ok_def)
    then obtain body where "funcs M n = Some body" "xs = InlineFunction r a body"
      using s(1) True by (auto split: option.splits)
    then show ?thesis using j(2) assms(1) by (simp add: plain_lib_def inline_body_plain)
  next
    case False
    then have "xs = [j]" using s(1) by simp
    then show ?thesis using ok False by (simp add: site_ok_def)
  qed
  then show ?case using Cons s by auto
qed simp

lemma stream_intr_any: "\<not> list_ex any_intr b \<Longrightarrow> \<not> list_ex stream_intr b"
proof -
  have "stream_intr i \<Longrightarrow> any_intr i" for i by (cases i) simp_all
  then show "\<not> list_ex any_intr b \<Longrightarrow> \<not> list_ex stream_intr b" by (auto simp: list_ex_iff)
qed

lemma inline_pass_plain:
  assumes h: "has_ops (with_lib lib M)" and p: "plain_lib (with_lib lib M)" and r: "InlineStreams_pass lib ni b M = Done (b', M')"
  shows "\<not> list_ex stream_intr b' \<and> (\<not> ni \<longrightarrow> \<not> list_ex op_call b')"
proof -
  obtain js where s: "inline_sites lib ni b M = Done (js, M')" "do_inlines js M' = Done b'"
    using r by (auto simp: InlineStreams_pass_def elim!: bind_out_DoneE)
  note a = inline_sites_ok [OF h s(1)]
  have "plain_lib M'" using p a unfolding plain_lib_def by (metis with_lib_keeps)
  then show ?thesis using do_inlines_plain [OF _ _ s(2)] a stream_intr_any by blast
qed

lemma koro_plain:
  assumes "\<not> list_ex stream_intr b" and "KoroPass_pass K b M = Done (b', M')"
  shows "\<not> list_ex stream_intr b' \<and> \<not> list_ex blocks_call b' \<and> (\<not> list_ex op_call b \<longrightarrow> \<not> list_ex op_call b')"
proof -
  have k: "\<forall>j\<in>set (koro_inst i). (stream_intr j \<longrightarrow> stream_intr i) \<and> \<not> blocks_call j \<and> (op_call j \<longrightarrow> op_call i)" for i
    by (cases i) auto
  have b': "b' = concat (map koro_inst b)" using assms(2) by (auto simp: KoroPass_pass_def assert_out_def split: if_splits)
  have "\<exists>i\<in>set b. (stream_intr j \<longrightarrow> stream_intr i) \<and> \<not> blocks_call j \<and> (op_call j \<longrightarrow> op_call i)" if "j \<in> set b'" for j
    using that k unfolding b' by fastforce
  then show ?thesis using assms(1) unfolding list_ex_iff by metis
qed

lemma pass_with_lib:
  assumes "run_pass llvm lib ni h K p b M = Done (b', M')" and "p \<noteq> InlineStreams"
  shows "with_lib lib M' = with_lib lib M"
proof (cases p)
  case (OuterLoop w ops)
  then obtain b1 M1 F M2 b2 where s: "each_inst (stream_op lib (outer_suffix K ops)) b M = Done (b1, M1)"
      "getInlineCode lib (outer_skel h K w) M1 = Done (F, M2)" "each_inst (set_niters K) b2 M2 = Done (b', M')"
    using assms(1) by (auto simp: OuterLoop_pass_def makeWorkFromSkel_def assert_out_def elim!: bind_out_DoneE split: if_splits option.splits)
  have "with_lib lib M1 = with_lib lib M" by (rule each_inst_with_lib [OF stream_op_with_lib s(1)])
  moreover have "with_lib lib M' = with_lib lib M2" by (rule each_inst_with_lib [OF _ s(3)]) (auto dest: set_niters_M)
  ultimately show ?thesis using getInlineCode_with_lib [OF s(2)] by simp
next
  case StreamOpts
  then show ?thesis using assms(1) by (auto simp: specializeOperSize_def intro: each_inst_with_lib dest: specialize_inst_M)
next
  case BlockingOps
  then show ?thesis using assms(1)
    by (auto simp: BlockingOps_pass_def assert_out_def intro: each_inst_with_lib [OF stream_op_with_lib] split: if_splits)
qed (use assms in \<open>auto simp: KoroPass_pass_def assert_out_def elim!: bind_out_DoneE split: if_splits\<close>)

lemma passes_append:
  "run_passes llvm lib ni h K (ps @ qs) b M =
    bind_out (run_passes llvm lib ni h K ps b M) (\<lambda>(b, M). run_passes llvm lib ni h K qs b M)"
  by (induction ps arbitrary: b M) (auto simp: bind_out_assoc split: prod.splits intro!: arg_cong2 [where f = bind_out])

lemma passes_with_lib:
  "run_passes llvm lib ni h K ps b M = Done (b', M') \<Longrightarrow> InlineStreams \<notin> set ps \<Longrightarrow> with_lib lib M' = with_lib lib M"
  by (induction ps arbitrary: b M) (auto elim!: bind_out_DoneE, metis pass_with_lib)

text \<open>The passes from inlining on, for code of either kind.\<close>

lemma plain_end:
  assumes h: "has_ops (with_lib lib M)" and p: "plain_lib (with_lib lib M)" and l: "llvm_ok llvm"
    and r: "run_passes llvm lib ni h' K (ps @ InlineStreams # qs) work M = Done (b, M')"
    and ps: "InlineStreams \<notin> set ps" and qs: "qs = [LLVMOpts] \<or> qs = [KoroPass, LLVMOpts]"
  shows "\<not> list_ex stream_intr b \<and> (\<not> ni \<longrightarrow> \<not> list_ex op_call b) \<and> (KoroPass \<in> set qs \<longrightarrow> \<not> list_ex blocks_call b)"
proof -
  obtain b1 M1 b2 M2 where s: "run_passes llvm lib ni h' K ps work M = Done (b1, M1)"
      "InlineStreams_pass lib ni b1 M1 = Done (b2, M2)" "run_passes llvm lib ni h' K qs b2 M2 = Done (b, M')"
    using r unfolding passes_append by (auto elim!: bind_out_DoneE)
  have "with_lib lib M1 = with_lib lib M" by (rule passes_with_lib [OF s(1) ps])
  then have b2: "\<not> list_ex stream_intr b2" "\<not> ni \<longrightarrow> \<not> list_ex op_call b2" using inline_pass_plain [OF _ _ s(2)] h p by simp_all
  show ?thesis
    using qs
  proof
    assume q: "qs = [LLVMOpts]"
    then have "llvm b2 = Done b" using s(3) by (auto elim!: bind_out_DoneE)
    then show ?thesis using l b2 q unfolding llvm_ok_def by auto
  next
    assume q: "qs = [KoroPass, LLVMOpts]"
    then obtain b3 M3 where k: "KoroPass_pass K b2 M2 = Done (b3, M3)" "llvm b3 = Done b" using s(3) by (auto elim!: bind_out_DoneE)
    then show ?thesis using l b2(2) koro_plain [OF b2(1) k(1)] unfolding llvm_ok_def by auto
  qed
qed

text \<open>The size in the name of the skeleton is that of all streams, if they agree.\<close>

lemma same_size_spec:
  assumes "0 \<notin> set es" and "sz \<noteq> 0 \<or> es = []"
  shows "same_size es (True, sz) = (if \<forall>e\<in>set es. e = sz then (True, sz) else (False, sz))"
  using assms
proof (induction es)
  case (Cons e es)
  have "same_size es (False, sz) = (False, sz)" by (cases es) simp_all
  then show ?case using Cons by (cases "e = sz") auto
qed simp

lemma same_size_first:
  assumes "0 \<notin> set (e # es)"
  shows "same_size (e # es) (True, 0) = (if \<forall>x\<in>set es. x = e then (True, e) else (False, e))"
  using same_size_spec [of es e] assms by simp

subsection \<open>A sample\<close>

definition sample_lib :: lmod where
  "sample_lib = \<lparr>funcs = (\<lambda>n. if decode n \<noteq> None then Some [WCall [0] ''__SKIRRT_would_block'' [Reg [1], Reg [2]]] else if n = ''__SKIRRT_workfn_loop'' then Some [WCall [0] ''__SKIRRT_workfn_extern'' [Arg 0, Arg 1, Arg 2, Arg 3], WRet (Reg [0])] else None),
     gvars = map_of (concat (map (\<lambda>k. map (\<lambda>c. (op_name k c, mangled k c 0 0)) [Checked, Nocheck, NocheckP]) [KPush, KPop, KPeek])), loaded = True\<rparr>"

text \<open>A kernel with one input and one output, which copies an element.\<close>

definition copy_work :: "winst list" where
  "copy_work = [WIntr SPop [0] [Con 0, Reg [5]], WIntr SPush [1] [Con 0, Reg [5]], WRet (Con 0)]"

definition copier :: rt_kernel where
  "copier = (new_rt_kernel undefined 0)\<lparr>nins := 1, nouts := 1, rt_ins := Some [1], rt_outs := Some [2]\<rparr>"

definition sized_heap :: "uint32 \<Rightarrow> heap" where
  "sized_heap n = sample_heap\<lparr>rts := (\<lambda>q. (rts sample_heap q)\<lparr>rs_elem_size := n\<rparr>)\<rparr>"

lemma decode_name: "decode (op_name k c) = None"
proof -
  have "mangled k' c' E B \<noteq> op_name k c" for k' c' E B
    by (cases k) (simp_all add: mangled_def op_pre_def op_name_def)
  then show ?thesis unfolding decode_def find_None_iff by auto
qed

lemma sample_lib_ops: "has_ops sample_lib"
proof -
  have n: "mangled k c E B \<noteq> ''__SKIRRT_workfn_loop''" "op_name k c \<noteq> ''__SKIRRT_workfn_loop''" for k c E B
    by (simp add: mangled_def op_pre_def) (cases k; simp add: op_name_def)
  have "gvars sample_lib (op_name k c) = Some (mangled k c 0 0)" for k c
    by (cases k; cases c; simp add: sample_lib_def op_name_def)
  moreover have "funcs sample_lib (op_name k c) = None" for k c by (simp add: sample_lib_def decode_name n)
  moreover have "(funcs sample_lib (mangled k c E B) \<noteq> None) = ((E, B) \<in> set ((0, 0) # instances c))" for k c E B
    using decode_mangled [of k c E B] n(1) [of k c E B] by (simp add: sample_lib_def)
  ultimately show ?thesis unfolding has_ops_def by blast
qed

lemma sample_lib_plain: "plain_lib sample_lib" "with_lib lib sample_lib = sample_lib"
proof -
  have "\<not> inlines ''__SKIRRT_workfn_loop''" "\<not> inlines ''__SKIRRT_would_block''" by code_simp+
  then show "plain_lib sample_lib" by (auto simp: plain_lib_def sample_lib_def split: if_splits)
  show "with_lib lib sample_lib = sample_lib" by (simp add: with_lib_def sample_lib_def)
qed

lemma copy_user: "list_all user_inst copy_work"
  by (simp add: copy_work_def)

lemma sample_supported: "list_all (supported (sized_heap n) copier c) copy_work = ((unat n, STREAM_BUFFER_SIZE) \<in> set (instances c))"
  by (simp add: copy_work_def known_size_def copier_def sized_heap_def)

lemma size_lits: "dec 4 = ''4''" "dec STREAM_BUFFER_SIZE = ''32768''"
proof -
  show "dec 4 = ''4''" by code_simp
  have "dec 32768 = ''32768''" by (simp add: dec.simps [of 32768] dec.simps [of 3276] dec.simps [of 327] dec.simps [of 32] dec.simps [of 3]) code_simp
  then show "dec STREAM_BUFFER_SIZE = ''32768''" by (simp add: STREAM_BUFFER_SIZE_def)
qed

lemma instance_inlined:
  "inlines (mangled k Checked 4 STREAM_BUFFER_SIZE)"
  by (cases k; simp add: inlines_def mangled_def op_pre_lits op_post_def size_lits)

lemma instance_niters: "find_sub ''__SKIRRT_inline_compute_niters'' (mangled k Checked 0 0) = None"
  unfolding generic_name by (cases k; simp add: op_pre_lits tmplt_def op_post_def)

lemma skel_niters: "find_sub ''__SKIRRT_inline_compute_niters'' ''__SKIRRT_workfn_extern'' = None"
  by code_simp

lemma sample_funcs:
  "funcs sample_lib (mangled k Checked 4 STREAM_BUFFER_SIZE) = Some [WCall [0] ''__SKIRRT_would_block'' [Reg [1], Reg [2]]]"
  "funcs sample_lib ''__SKIRRT_workfn_loop'' = Some [WCall [0] ''__SKIRRT_workfn_extern'' [Arg 0, Arg 1, Arg 2, Arg 3], WRet (Reg [0])]"
proof -
  show "funcs sample_lib (mangled k Checked 4 STREAM_BUFFER_SIZE) = Some [WCall [0] ''__SKIRRT_would_block'' [Reg [1], Reg [2]]]"
    by (simp add: sample_lib_def decode_mangled STREAM_BUFFER_SIZE_def)
  have "mangled k c E B \<noteq> ''__SKIRRT_workfn_loop''" for k c E B by (simp add: mangled_def op_pre_def)
  then have "decode ''__SKIRRT_workfn_loop'' = None" unfolding decode_def find_None_iff by auto
  then show "funcs sample_lib ''__SKIRRT_workfn_loop'' = Some [WCall [0] ''__SKIRRT_workfn_extern'' [Arg 0, Arg 1, Arg 2, Arg 3], WRet (Reg [0])]"
    by (simp add: sample_lib_def)
qed

lemma copy_compiled:
  "\<exists>b M'. run_passes Done sample_lib False (sized_heap 4) copier (koro_passes False copier) copy_work sample_lib = Done (b, M')"
proof -
  let ?r = "rt_ins copier \<noteq> None \<and> rt_outs copier \<noteq> None"
  have r: ?r by (simp add: copier_def)
  have o: "has_ops (with_lib sample_lib sample_lib)" by (simp add: sample_lib_ops sample_lib_plain)
  have e: "each_inst (stream_op sample_lib []) copy_work sample_lib = Done (map (to_call Checked) copy_work, sample_lib)"
    using each_stream_op [OF o, of Checked copy_work] by (simp add: sample_lib_plain)
  have "OuterLoop_pass sample_lib (sized_heap 4) copier ''loop'' [] copy_work sample_lib =
      Done ([WCall [0, 0] (mangled KPop Checked 0 0) [Arg 2, Con 0, Reg [0, 5]],
        WCall [0, 1] (mangled KPush Checked 0 0) [Arg 3, Con 0, Reg [0, 5]], WOther ''result'' [0] [Con 0], WRet (Reg [0])], sample_lib)"
    using r
    by (simp add: OuterLoop_pass_def outer_suffix_def e makeWorkFromSkel_def outer_skel_def getInlineCode_def sample_funcs assert_out_def)
      (simp add: copy_work_def InlineFunction_def actual_def instance_niters)
  moreover have "specializeOperSize (sized_heap 4) copier
      [WCall [0, 0] (mangled KPop Checked 0 0) [Arg 2, Con 0, Reg [0, 5]],
        WCall [0, 1] (mangled KPush Checked 0 0) [Arg 3, Con 0, Reg [0, 5]], WOther ''result'' [0] [Con 0], WRet (Reg [0])] sample_lib =
      Done ([WCall [0, 0] (mangled KPop Checked 4 STREAM_BUFFER_SIZE) [Arg 2, Con 0, Reg [0, 5]],
        WCall [0, 1] (mangled KPush Checked 4 STREAM_BUFFER_SIZE) [Arg 3, Con 0, Reg [0, 5]], WOther ''result'' [0] [Con 0], WRet (Reg [0])], sample_lib)"
    by (simp add: specializeOperSize_def specialize_generic [OF sample_lib_ops] known_size_def size_call_def copier_def sized_heap_def
        del: specialize_inst.simps(1)) (simp add: STREAM_BUFFER_SIZE_def)
  ultimately show ?thesis using r
    by (simp add: koro_passes_def KoroPass_pass_def InlineStreams_pass_def inline_site_def instance_inlined sample_funcs assert_out_def)
      (simp add: copier_def new_rt_kernel_def)
qed

subsection \<open>The properties\<close>

text \<open>
  C8. A work function means the same before and after its stream operations are replaced by calls of the library
  and these by the instances for the sizes of the elements: for each way to wait, from each state in which the
  headers of the streams have the sizes that the runtime knows, both versions give the same result, whether it is a new
  state, a wait or a fault.  The user's own instructions are arbitrary, as long as they leave the element sizes alone.
\<close>

theorem lowering_preserves:
  assumes "has_ops (with_lib lib M)" and "list_all user_inst work"
    and "each_inst (stream_op lib (op_suffix c)) work M = Done (b, M1)"
    and "specializeOperSize h K b M1 = Done (b', M2)"
    and "sizes_ok h K ins outs (xstore x)" and "keeps_sizes oth"
  shows "exec_insts c oth ins outs b' x = exec_insts c oth ins outs work x"
proof -
  have "list_all (supported h K c) work" "b' = map (specialized h K c) work"
    using lowered [OF assms(1-3), of h K] assms(4) by (simp_all split: if_splits)
  then show ?thesis using exec_all [OF _ assms(5,6)] by simp
qed

theorem lowering_preserves_witness:
  "\<exists>b b' M1. each_inst (stream_op sample_lib (op_suffix Checked)) copy_work sample_lib = Done (b, M1) \<and>
     specializeOperSize (sized_heap 4) copier b M1 = Done (b', M1) \<and>
     exec_insts Checked (\<lambda>_. Done) [1] [2] b' \<lparr>xstore = sample_store 4 STREAM_BUFFER_SIZE, cells = (\<lambda>_. []), known = (\<lambda>_. 0)\<rparr> =
     exec_insts Checked (\<lambda>_. Done) [1] [2] copy_work \<lparr>xstore = sample_store 4 STREAM_BUFFER_SIZE, cells = (\<lambda>_. []), known = (\<lambda>_. 0)\<rparr>"
proof -
  let ?x = "\<lparr>xstore = sample_store 4 STREAM_BUFFER_SIZE, cells = (\<lambda>_. []), known = (\<lambda>_. 0)\<rparr>"
  have o: "has_ops (with_lib sample_lib sample_lib)" by (simp add: sample_lib_ops sample_lib_plain)
  have e: "each_inst (stream_op sample_lib (op_suffix c)) copy_work sample_lib = Done (map (to_call c) copy_work, sample_lib)" for c
    using each_stream_op [OF o] by (simp add: sample_lib_plain)
  have "list_all (supported (sized_heap 4) copier Checked) copy_work" unfolding sample_supported by (simp add: STREAM_BUFFER_SIZE_def)
  then have s: "specializeOperSize (sized_heap 4) copier (map (to_call Checked) copy_work) sample_lib =
      Done (map (specialized (sized_heap 4) copier Checked) copy_work, sample_lib)"
    using lowered [OF o copy_user e [of Checked], of "sized_heap 4" copier] by simp
  have z: "sizes_ok (sized_heap 4) copier [1] [2] (xstore ?x)"
    by (simp add: sizes_ok_def sizes_of_def copier_def sized_heap_def sample_store_def sample_stream_def)
  have k: "keeps_sizes (\<lambda>_. Done)" by (simp add: keeps_sizes_def same_sizes_def)
  show ?thesis using e s lowering_preserves [OF o copy_user e s z k] by blast
qed

text \<open>
  C20. The stream operations of a kernel are compiled exactly if, for each of them that is on a stream known at compile
  time, the stream exists and the library has the instance for the size of its elements.  For operations that check for
  room these sizes are 4 and 8, for the others also 16 and 32; for any other an assertion fails.
\<close>

theorem lowering_supported_iff:
  assumes "has_ops (with_lib lib M)" and "list_all user_inst work"
    and "each_inst (stream_op lib (op_suffix c)) work M = Done (b, M1)"
  shows "(\<exists>r. specializeOperSize h K b M1 = Done r) = list_all (supported h K c) work"
  using lowered [OF assms, of h K] by simp

theorem lowering_supported_iff_witness:
  "\<not> (\<exists>r. specializeOperSize (sized_heap 16) copier (map (to_call Checked) copy_work) sample_lib = Done r) \<and>
   (\<exists>r. specializeOperSize (sized_heap 16) copier (map (to_call Nocheck) copy_work) sample_lib = Done r)"
proof -
  have o: "has_ops (with_lib sample_lib sample_lib)" by (simp add: sample_lib_ops sample_lib_plain)
  have e: "each_inst (stream_op sample_lib (op_suffix c)) copy_work sample_lib = Done (map (to_call c) copy_work, sample_lib)" for c
    using each_stream_op [OF o] by (simp add: sample_lib_plain)
  show ?thesis
    unfolding lowering_supported_iff [OF o copy_user e] sample_supported by (simp add: STREAM_BUFFER_SIZE_def)
qed

text \<open>
  C19. No scheduler is left with an operation that it cannot call: what the passes of a scheduler (coroutine, work-stealing,
  single-threaded or data-parallel) make of a work function contains no push, pop, peek or become, and, unless
  inlining is switched off, no call of a stream operation of the library; the code of a coroutine
  contains no call of \<open>__SKIRRT_would_block\<close> either, whatever the passes of LLVM do in between, as long as they make none
  of these themselves.  With inlining switched off the calls of the operations stay, and these wait in the library.
\<close>

theorem no_intrinsic_left:
  assumes "has_ops (with_lib lib M)" and "plain_lib (with_lib lib M)" and "llvm_ok llvm"
    and "ps \<in> {koro_passes noelim K', [BlockingOps, InlineStreams, LLVMOpts], [InlineStreams, LLVMOpts]}"
    and "run_passes llvm lib noinline h K ps work M = Done (b, M')"
  shows "\<not> list_ex stream_intr b \<and> (\<not> noinline \<longrightarrow> \<not> list_ex op_call b) \<and>
    (KoroPass \<in> set ps \<longrightarrow> \<not> list_ex blocks_call b)"
proof -
  have "ps \<in> {[OuterLoop ''loop'' [], LLVMOpts, StreamOpts, InlineStreams, KoroPass, LLVMOpts],
      [OuterLoop ''nocheck'' ''nocheck'', LLVMOpts, StreamOpts, InlineStreams, LLVMOpts],
      [StreamOpts, InlineStreams, LLVMOpts], [BlockingOps, InlineStreams, LLVMOpts], [InlineStreams, LLVMOpts]}"
    using assms(4) by (cases "opt_only K'"; cases "is_fixed_rate K'"; cases noelim) (auto simp: koro_passes_def)
  then have "\<exists>qs\<in>{[OuterLoop ''loop'' [], LLVMOpts, StreamOpts], [OuterLoop ''nocheck'' ''nocheck'', LLVMOpts, StreamOpts],
      [StreamOpts], [BlockingOps], []}. \<exists>rs\<in>{[LLVMOpts], [KoroPass, LLVMOpts]}. ps = qs @ InlineStreams # rs"
    by simp (elim disjE; simp)
  then obtain qs rs where p: "qs \<in> {[OuterLoop ''loop'' [], LLVMOpts, StreamOpts], [OuterLoop ''nocheck'' ''nocheck'', LLVMOpts, StreamOpts],
      [StreamOpts], [BlockingOps], []}" "rs \<in> {[LLVMOpts], [KoroPass, LLVMOpts]}" and q1: "ps = qs @ InlineStreams # rs"
    by blast
  have q2: "InlineStreams \<notin> set qs" "KoroPass \<notin> set qs" "rs = [LLVMOpts] \<or> rs = [KoroPass, LLVMOpts]"
    using p by auto
  note q = q1 q2
  note e = plain_end [OF assms(1-3) assms(5) [unfolded q(1)] q(2,4)]
  then show ?thesis using q by auto
qed

theorem no_intrinsic_left_witness:
  "\<exists>b M'. run_passes Done sample_lib False (sized_heap 4) copier (koro_passes False copier) copy_work sample_lib = Done (b, M') \<and>
     \<not> list_ex stream_intr b \<and> \<not> list_ex op_call b \<and> \<not> list_ex blocks_call b"
proof -
  have o: "has_ops (with_lib sample_lib sample_lib)" "plain_lib (with_lib sample_lib sample_lib)" by (simp_all add: sample_lib_ops sample_lib_plain)
  have k: "KoroPass \<in> set (koro_passes False copier)" by (simp add: koro_passes_def copier_def new_rt_kernel_def)
  have l: "llvm_ok Done" by (simp add: llvm_ok_def)
  obtain b M' where r: "run_passes Done sample_lib False (sized_heap 4) copier (koro_passes False copier) copy_work sample_lib = Done (b, M')"
    using copy_compiled by blast
  show ?thesis using no_intrinsic_left [OF o l _ r] k r by blast
qed

end
