(* ===== verification/OpenCL_Sched.thy ===== *)
theory OpenCL_Sched
  imports Split_Join Kernel_Info
begin

section \<open>The OpenCL scheduler\<close>

text \<open>
  The host side of \<open>lib/SKIR/SKIROpenCLSched.cpp\<close>: the work function that stands in for a kernel on the device,
  with its input and output buffers, and the operations of the scheduler.  What the device does with a launch is a
  parameter; \<open>OpenCL_Code\<close> instantiates it with the code that the scheduler generates.  An error code that a call
  of OpenCL returns is printed and otherwise ignored by the code; the model is about calls that succeed.
\<close>

subsection \<open>State\<close>

definition OPENCL_BUFFER_SIZE :: nat where
  "OPENCL_BUFFER_SIZE = 2 * 1024 * 1024"

text \<open>
  \<open>orig_state\<close> is the contents of the kernel's state; \<open>devins\<close> and \<open>devouts\<close> are the buffers of the device.  Buffers
  that \<open>calloc\<close> and the device leave unspecified start with zeros.
\<close>

record 'k opencl_state_t =
  o_nins :: nat
  o_nouts :: nat
  orig_state :: 'k
  in_bytes_per_iter :: size_t
  out_bytes_per_iter :: size_t
  o_niter :: size_t
  in_rd_idx :: size_t
  in_wr_idx :: size_t
  out_rd_idx :: size_t
  out_wr_idx :: size_t
  in_buf :: "byte list"
  out_buf :: "byte list"
  devins :: "byte list"
  devouts :: "byte list"

text \<open>The product of an \<open>int\<close> and a \<open>uint32_t\<close> is one of 32 bits.\<close>

definition rate_bytes :: "(skir_stream_t \<Rightarrow> int) \<Rightarrow> store \<Rightarrow> ptr \<Rightarrow> size_t" where
  "rate_bytes r st s = ucast (of_int (r (hdr st s)) * elem_size (hdr st s))"

definition new_opencl_state_t :: "ptr list \<Rightarrow> ptr list \<Rightarrow> 'k \<Rightarrow> store \<Rightarrow> 'k opencl_state_t" where
  "new_opencl_state_t iins iouts k st =
     \<lparr>o_nins = length iins, o_nouts = length iouts, orig_state = k,
      in_bytes_per_iter = sum_list (map (rate_bytes pop_rate st) iins),
      out_bytes_per_iter = sum_list (map (rate_bytes push_rate st) iouts),
      o_niter = 0, in_rd_idx = 0, in_wr_idx = 0, out_rd_idx = 0, out_wr_idx = 0,
      in_buf = replicate OPENCL_BUFFER_SIZE 0, out_buf = replicate OPENCL_BUFFER_SIZE 0,
      devins = replicate OPENCL_BUFFER_SIZE 0, devouts = replicate OPENCL_BUFFER_SIZE 0\<rparr>"

subsection \<open>From the streams to the input buffer and from the output buffer to the streams\<close>

type_synonym 'k host = "'k opencl_state_t \<times> store"

text \<open>One element: the bodies of the innermost loops.\<close>

definition pop_into_buf :: "ptr list \<Rightarrow> nat \<Rightarrow> 'k host \<Rightarrow> (endp, 'k host) outcome" where
  "pop_into_buf ins j = (\<lambda>(s, st). with_stream ins j (\<lambda>ss.
     bind_out (inline_pop_nocheck_0_0 ins j st) (\<lambda>(e, st).
       case mem_put (in_buf s) (in_wr_idx s) (length e) e of
         None \<Rightarrow> Fault
       | Some b \<Rightarrow> Done (s\<lparr>in_buf := b, in_wr_idx := in_wr_idx s + ucast (elem_size (hdr st ss))\<rparr>, st))))"

definition push_from_buf :: "ptr list \<Rightarrow> nat \<Rightarrow> 'k host \<Rightarrow> (endp, 'k host) outcome" where
  "push_from_buf outs j = (\<lambda>(s, st). with_stream outs j (\<lambda>ss.
     case mem_get (out_buf s) (out_rd_idx s) (unat (elem_size (hdr st ss))) of
       None \<Rightarrow> Fault
     | Some e \<Rightarrow> bind_out (inline_push_nocheck_0_0 outs j e st) (\<lambda>st.
         Done (s\<lparr>out_rd_idx := out_rd_idx s + ucast (elem_size (hdr st ss))\<rparr>, st))))"

definition pop_iter :: "ptr list \<Rightarrow> nat \<Rightarrow> 'k host \<Rightarrow> (endp, 'k host) outcome" where
  "pop_iter ins m = for_out [0..<m] (\<lambda>j x. with_stream ins j (\<lambda>ss.
     for_out [0..<nat (pop_rate (hdr (snd x) ss))] (\<lambda>l. pop_into_buf ins j) x))"

definition push_iter :: "ptr list \<Rightarrow> nat \<Rightarrow> 'k host \<Rightarrow> (endp, 'k host) outcome" where
  "push_iter outs m = for_out [0..<m] (\<lambda>j x. with_stream outs j (\<lambda>ss.
     for_out [0..<nat (push_rate (hdr (snd x) ss))] (\<lambda>l. push_from_buf outs j) x))"

text \<open>A division by zero leaves the defined behaviour.\<close>

definition div_out :: "size_t \<Rightarrow> size_t \<Rightarrow> (endp, size_t) outcome" where
  "div_out a b = assert_out (b \<noteq> 0) (Done (a div b))"

definition opencl_pop_inputs :: "ptr list \<Rightarrow> 'k host \<Rightarrow> (endp, size_t \<times> 'k host) outcome" where
  "opencl_pop_inputs ins = (\<lambda>(s, st).
     bind_out (div_out (of_nat OPENCL_BUFFER_SIZE - in_wr_idx s) (in_bytes_per_iter s)) (\<lambda>niter.
     bind_out (inline_compute_niters ins (o_nins s) [] 0 st) (\<lambda>(v, n).
     let niter = min niter n in
     bind_out (for_out [0..<unat niter] (\<lambda>i. pop_iter ins (o_nins s)) (s, st)) (\<lambda>x. Done (niter, x)))))"

definition opencl_push_outputs :: "ptr list \<Rightarrow> 'k host \<Rightarrow> (endp, size_t \<times> 'k host) outcome" where
  "opencl_push_outputs outs = (\<lambda>(s, st).
     if out_rd_idx s \<noteq> out_wr_idx s then
       bind_out (div_out (out_wr_idx s - out_rd_idx s) (out_bytes_per_iter s)) (\<lambda>niter.
       bind_out (inline_compute_niters [] 0 outs (o_nouts s) st) (\<lambda>(v, n).
       let niter = min niter n in
       bind_out (for_out [0..<unat niter] (\<lambda>i. push_iter outs (o_nouts s)) (s, st)) (\<lambda>x. Done (niter, x))))
     else Done (0, s, st))"

subsection \<open>The work function\<close>

text \<open>
  \<open>dev k n di do\<close>: what \<open>n\<close> work items make of the output buffer \<open>do\<close> of the device, given the kernel's state and
  the input buffer.  Copies between the host and the device are of as many bytes as the code says.
\<close>

type_synonym 'k device = "'k \<Rightarrow> nat \<Rightarrow> byte list \<Rightarrow> byte list \<Rightarrow> (endp, byte list) outcome"

definition opencl_launch :: "'k device \<Rightarrow> size_t \<Rightarrow> 'k opencl_state_t \<Rightarrow> (endp, 'k opencl_state_t) outcome" where
  "opencl_launch dev n s =
     (case mem_get (in_buf s) (in_rd_idx s) (unat (n * in_bytes_per_iter s)) of
        None \<Rightarrow> Fault
      | Some w \<Rightarrow>
     (case mem_put (devins s) 0 (length w) w of
        None \<Rightarrow> Fault
      | Some di \<Rightarrow>
     bind_out (dev (orig_state s) (unat n) di (devouts s)) (\<lambda>do.
     case mem_get do 0 (unat (n * out_bytes_per_iter s)) of
        None \<Rightarrow> Fault
      | Some w \<Rightarrow>
     (case mem_put (out_buf s) (out_wr_idx s) (length w) w of
        None \<Rightarrow> Fault
      | Some ob \<Rightarrow>
     let s = s\<lparr>o_niter := n, devins := di, devouts := do, out_buf := ob,
               in_rd_idx := in_rd_idx s + n * in_bytes_per_iter s,
               out_wr_idx := out_wr_idx s + n * out_bytes_per_iter s\<rparr> in
     Done (if in_rd_idx s = in_wr_idx s then s\<lparr>in_rd_idx := 0, in_wr_idx := 0\<rparr> else s)))))"

text \<open>
  Nothing could be executed.  The second test is not an \<open>else\<close> of the first, so the answer of the first call is
  always overwritten.
\<close>

definition opencl_blocked :: "size_t \<Rightarrow> ptr list \<Rightarrow> ptr list \<Rightarrow> 'k host \<Rightarrow> (endp, endp) outcome" where
  "opencl_blocked input_niter ins outs = (\<lambda>(s, st).
     bind_out (if out_rd_idx s = out_wr_idx s \<and> input_niter = 0
               then inline_compute_niters ins (o_nins s) outs (o_nouts s) st else Done (NullEnd, 0)) (\<lambda>_.
     bind_out (if out_rd_idx s \<noteq> out_wr_idx s then inline_compute_niters [] 0 outs (o_nouts s) st
               else inline_compute_niters ins (o_nins s) [] 0 st) (\<lambda>(v, n). Done v)))"

definition opencl_round :: "'k device \<Rightarrow> ptr list \<Rightarrow> ptr list \<Rightarrow> skir_rt_state_t \<times> 'k host \<Rightarrow>
    (endp, endp option \<times> skir_rt_state_t \<times> 'k host) outcome" where
  "opencl_round dev ins outs = (\<lambda>(r, x).
     bind_out (opencl_pop_inputs ins x) (\<lambda>(_, s, st).
     bind_out (div_out (in_wr_idx s - in_rd_idx s) (in_bytes_per_iter s)) (\<lambda>input_niter.
     bind_out (opencl_push_outputs outs (s, st)) (\<lambda>(_, s, st).
     let s = (if out_rd_idx s = out_wr_idx s then s\<lparr>out_rd_idx := 0, out_wr_idx := 0\<rparr> else s) in
     bind_out (div_out (of_nat OPENCL_BUFFER_SIZE - out_wr_idx s) (out_bytes_per_iter s)) (\<lambda>output_niter.
     let n = min input_niter output_niter in
     if n > 0
     then bind_out (opencl_launch dev n s) (\<lambda>s. Done (None, r\<lparr>niter := niter r + n\<rparr>, s, st))
     else bind_out (opencl_blocked input_niter ins outs (s, st)) (\<lambda>v. Done (Some v, r, s, st)))))))"

partial_function (option) opencl_workfn :: "'k device \<Rightarrow> ptr list \<Rightarrow> ptr list \<Rightarrow> skir_rt_state_t \<times> 'k host \<Rightarrow>
    (endp, endp \<times> skir_rt_state_t \<times> 'k host) outcome option" where
  "opencl_workfn dev ins outs x =
     (case opencl_round dev ins outs x of
        WouldBlock a b \<Rightarrow> Some (WouldBlock a b)
      | Fault \<Rightarrow> Some Fault
      | Done (Some v, x) \<Rightarrow> Some (Done (v, x))
      | Done (None, x) \<Rightarrow> opencl_workfn dev ins outs x)"

subsection \<open>The operations of the scheduler\<close>

text \<open>
  \<open>host\<close> and \<open>internal\<close> are the operation of the default scheduler and that of \<open>the_single_sched\<close>, which is the
  work-stealing scheduler too.  \<open>start\<close> also creates the context and the command queue.
\<close>

definition opencl_dispatch :: "('s \<Rightarrow> 's) \<Rightarrow> ('s \<Rightarrow> 's) \<Rightarrow> rt_kernel \<Rightarrow> string \<Rightarrow> 's \<Rightarrow> 's" where
  "opencl_dispatch host internal K name =
     (if \<not> fixed_sched K \<and> find_sub ''skircl'' name = None then host else internal)"

definition opencl_start :: "('s \<Rightarrow> 's) \<Rightarrow> int \<times> 's \<Rightarrow> int \<times> 's" where
  "opencl_start internal = (\<lambda>(running, s). if running = 0 then (1, internal s) else (running, s))"

definition opencl_stop :: "('s \<Rightarrow> 's) \<Rightarrow> int \<times> 's \<Rightarrow> int \<times> 's" where
  "opencl_stop internal = (\<lambda>(running, s). if running = 1 then (0, internal s) else (running, s))"

end
