(* ===== verification/OpenCL_Buffers.thy ===== *)
theory OpenCL_Buffers
  imports OpenCL_Sched
begin

section \<open>The buffers of a kernel on the device\<close>

text \<open>
  The loops that fill the input buffer from the streams and empty the output buffer into them (\<open>OpenCL_Sched\<close>): an
  iteration takes a row of elements from every input and gives one to every output, in the order of the streams.
\<close>

lemma nocheck_0_0_s:
  "j < length p \<Longrightarrow> inline_pop_nocheck_0_0 p j st = inline_pop_nocheck_s (p ! j) st"
  "j < length p \<Longrightarrow> inline_push_nocheck_0_0 p j e st = inline_push_nocheck_s (p ! j) e st"
  by (simp_all add: inline_pop_nocheck_0_0_def inline_pop_nocheck_s_def inline_push_nocheck_0_0_def
    inline_push_nocheck_s_def Let_def)

lemma unat_add_le:
  fixes a :: size_t
  assumes "unat a + n \<le> 2 ^ 31"
  shows "unat (a + of_nat n) = unat a + n"
proof -
  have "unat (of_nat n :: size_t) = n" using assms by (intro unat_of_nat_small) simp
  then show ?thesis using assms by (subst unat_add_small) simp_all
qed

lemma mem_put_take:
  assumes "unat a + length e \<le> length b"
  obtains b' where "mem_put b a (length e) e = Some b'" "length b' = length b"
    "take (unat a + length e) b' = take (unat a) b @ e"
  using assms by (simp add: mem_put_def)

subsection \<open>Filling the input buffer\<close>

definition appended :: "'k opencl_state_t \<Rightarrow> 'k opencl_state_t \<Rightarrow> byte list \<Rightarrow> bool" where
  "appended s s' bs \<longleftrightarrow> (\<exists>b. s' = s\<lparr>in_buf := b, in_wr_idx := in_wr_idx s + of_nat (length bs)\<rparr> \<and>
     length b = length (in_buf s) \<and> unat (in_wr_idx s) + length bs \<le> length b \<and>
     take (unat (in_wr_idx s) + length bs) b = take (unat (in_wr_idx s)) (in_buf s) @ bs)"

lemma appended_Nil: "unat (in_wr_idx s) \<le> length (in_buf s) \<Longrightarrow> appended s s []"
  by (auto simp: appended_def intro!: exI [of _ "in_buf s"])

lemma appended_append:
  assumes 1: "appended s s' xs" and 2: "appended s' s'' ys" and len: "length (in_buf s) = OPENCL_BUFFER_SIZE"
  shows "appended s s'' (xs @ ys)"
proof -
  let ?w = "unat (in_wr_idx s)"
  obtain b where b: "s' = s\<lparr>in_buf := b, in_wr_idx := in_wr_idx s + of_nat (length xs)\<rparr>" "length b = length (in_buf s)"
    "?w + length xs \<le> length b" "take (?w + length xs) b = take ?w (in_buf s) @ xs"
    using 1 unfolding appended_def by blast
  have "?w + length xs \<le> 2 ^ 31" using b(2,3) len by (simp add: OPENCL_BUFFER_SIZE_def)
  then have u: "unat (in_wr_idx s') = ?w + length xs" "in_buf s' = b" unfolding b(1) by (simp_all add: unat_add_le)
  obtain d where d: "s'' = s'\<lparr>in_buf := d, in_wr_idx := in_wr_idx s' + of_nat (length ys)\<rparr>" "length d = length b"
    "?w + length xs + length ys \<le> length d" "take (?w + length xs + length ys) d = take (?w + length xs) b @ ys"
    using 2 unfolding appended_def u by blast
  have "s'' = s\<lparr>in_buf := d, in_wr_idx := in_wr_idx s + of_nat (length (xs @ ys))\<rparr>"
    unfolding d(1) b(1) by (simp add: add.assoc)
  moreover have "length d = length (in_buf s)" "?w + length (xs @ ys) \<le> length d"
    "take (?w + length (xs @ ys)) d = take ?w (in_buf s) @ xs @ ys"
    using d(2-) b(2-) by (simp_all add: add.assoc [symmetric])
  ultimately show ?thesis unfolding appended_def by blast
qed

lemma appended_facts:
  assumes "appended s s' bs" and "length (in_buf s) = OPENCL_BUFFER_SIZE"
  shows "unat (in_wr_idx s') = unat (in_wr_idx s) + length bs" "unat (in_wr_idx s') \<le> OPENCL_BUFFER_SIZE"
    "length (in_buf s') = OPENCL_BUFFER_SIZE"
  using assms by (auto simp: appended_def OPENCL_BUFFER_SIZE_def unat_add_le)

lemma pop_into_buf_holds:
  assumes h: "holds S st c" and j: "j < length ins" "ins ! j \<in> S" and e: "c (ins ! j) = e # xs"
    and len: "length (in_buf s) = OPENCL_BUFFER_SIZE" and fits: "unat (in_wr_idx s) + 4 \<le> OPENCL_BUFFER_SIZE"
  shows "\<exists>s' st'. pop_into_buf ins j (s, st) = Done (s', st') \<and> holds S st' (c(ins ! j := xs)) \<and>
    same_config st st' \<and> appended s s' e \<and> length e = 4"
proof -
  obtain st' where st': "inline_pop_nocheck_s (ins ! j) st = Done (e, st')" "holds S st' (c(ins ! j := xs))"
    "same_config st st'" "length e = 4" using pop_holds [OF h j(2) e] by blast
  have es: "elem_size (hdr st' (ins ! j)) = 4" using st'(2) j(2) by (simp add: holds_def)
  obtain b where b: "mem_put (in_buf s) (in_wr_idx s) (length e) e = Some b" "length b = length (in_buf s)"
    "take (unat (in_wr_idx s) + length e) b = take (unat (in_wr_idx s)) (in_buf s) @ e"
    using mem_put_take [of "in_wr_idx s" e "in_buf s"] len fits st'(4) by auto
  let ?s = "s\<lparr>in_buf := b, in_wr_idx := in_wr_idx s + 4\<rparr>"
  have "pop_into_buf ins j (s, st) = Done (?s, st')"
    using st'(1) b(1) es j(1) by (simp add: pop_into_buf_def nocheck_0_0_s)
  moreover have "appended s ?s e" using b fits len st'(4) by (auto simp: appended_def)
  ultimately show ?thesis using st' by blast
qed

lemma pop_elems_holds:
  assumes "holds S st c" and "j < length ins" "ins ! j \<in> S" and "c (ins ! j) = es @ xs" and "length es = r"
    and "length (in_buf s) = OPENCL_BUFFER_SIZE" and "unat (in_wr_idx s) + 4 * r \<le> OPENCL_BUFFER_SIZE"
  shows "\<exists>s' st'. for_out [0..<r] (\<lambda>l. pop_into_buf ins j) (s, st) = Done (s', st') \<and>
    holds S st' (c(ins ! j := xs)) \<and> same_config st st' \<and> appended s s' (concat es) \<and> length (concat es) = 4 * r"
  using assms
proof (induction r arbitrary: es s st c)
  case 0
  then have "c(ins ! j := xs) = c" by auto
  then show ?case using 0 by (auto intro: same_config_refl appended_Nil simp del: fun_upd_apply)
next
  case (Suc r)
  then obtain e fs where es: "es = e # fs" by (cases es) auto
  have "c (ins ! j) = e # fs @ xs" "unat (in_wr_idx s) + 4 \<le> OPENCL_BUFFER_SIZE" using Suc.prems es by auto
  from pop_into_buf_holds [OF Suc.prems(1-3) this(1) Suc.prems(6) this(2)] obtain s1 st1 where
    1: "pop_into_buf ins j (s, st) = Done (s1, st1)" "holds S st1 (c(ins ! j := fs @ xs))" "same_config st st1"
      "appended s s1 e" "length e = 4" by blast
  note f = appended_facts [OF 1(4) Suc.prems(6)]
  have "(c(ins ! j := fs @ xs)) (ins ! j) = fs @ xs" "length fs = r" "unat (in_wr_idx s1) + 4 * r \<le> OPENCL_BUFFER_SIZE"
    using Suc.prems es f 1(5) by auto
  from Suc.IH [OF 1(2) Suc.prems(2,3) this(1,2) f(3) this(3)] obtain s2 st2 where
    2: "for_out [0..<r] (\<lambda>l. pop_into_buf ins j) (s1, st1) = Done (s2, st2)" "holds S st2 (c(ins ! j := xs))"
      "same_config st1 st2" "appended s1 s2 (concat fs)" "length (concat fs) = 4 * r" unfolding fun_upd_upd by blast
  have "for_out [0..<Suc r] (\<lambda>l. pop_into_buf ins j) (s, st) = Done (s2, st2)"
    using 1(1) 2(1) by (simp add: for_out_Suc del: upt_Suc)
  then show ?case using 2(2,5) 1(5) same_config_trans [OF 1(3) 2(3)] appended_append [OF 1(4) 2(4) Suc.prems(6)] es
    by (auto simp del: fun_upd_apply upt_Suc)
qed


text \<open>\<open>rates r ins st\<close> is what one iteration moves; a row has so many elements for every stream.\<close>

definition rates :: "(skir_stream_t \<Rightarrow> int) \<Rightarrow> ptr list \<Rightarrow> store \<Rightarrow> nat list" where
  "rates r ss st = map (\<lambda>s. nat (r (hdr st s))) ss"

lemma rates_config:
  "same_config st st' \<Longrightarrow> rates pop_rate ss st' = rates pop_rate ss st"
  "same_config st st' \<Longrightarrow> rates push_rate ss st' = rates push_rate ss st"
  by (simp_all add: rates_def same_config_def)

lemma take_row:
  assumes "k < length row"
  shows "concat (concat (take (Suc k) row)) = concat (concat (take k row)) @ concat (row ! k)"
  using assms by (simp add: take_Suc_conv_app_nth)

lemma row_room:
  "k < length row \<Longrightarrow> sum_list (take k (map length row)) + length (row ! k) \<le> sum_list (map length row)"
proof -
  assume k: "k < length row"
  have "sum_list (map length row) = sum_list (take (Suc k) (map length row)) + sum_list (drop (Suc k) (map length row))"
    by (metis append_take_drop_id sum_list_append)
  then show ?thesis using k by (simp add: take_Suc_conv_app_nth)
qed

lemma pop_prefix:
  assumes h: "holds S st c" and ins: "set ins \<subseteq> S" "distinct ins" and row: "map length row = rates pop_rate ins st"
    and cs: "\<forall>i < length ins. c (ins ! i) = row ! i @ rest i"
    and len: "length (in_buf s) = OPENCL_BUFFER_SIZE"
    and fits: "unat (in_wr_idx s) + 4 * sum_list (map length row) \<le> OPENCL_BUFFER_SIZE"
    and k: "k \<le> length ins"
  shows "\<exists>s' st' c'. for_out [0..<k] (\<lambda>j x. with_stream ins j (\<lambda>ss.
      for_out [0..<nat (pop_rate (hdr (snd x) ss))] (\<lambda>l. pop_into_buf ins j) x)) (s, st) = Done (s', st') \<and>
    holds S st' c' \<and> same_config st st' \<and> appended s s' (concat (concat (take k row))) \<and>
    length (concat (concat (take k row))) = 4 * sum_list (take k (map length row)) \<and>
    (\<forall>i < length ins. c' (ins ! i) = (if i < k then rest i else row ! i @ rest i)) \<and> (\<forall>x. x \<notin> set ins \<longrightarrow> c' x = c x)"
  using k
proof (induction k)
  case 0
  then show ?case using h cs fits len by (auto intro!: exI [of _ c] same_config_refl appended_Nil)
next
  case (Suc k)
  then obtain s1 st1 c1 where 1: "for_out [0..<k] (\<lambda>j x. with_stream ins j (\<lambda>ss.
      for_out [0..<nat (pop_rate (hdr (snd x) ss))] (\<lambda>l. pop_into_buf ins j) x)) (s, st) = Done (s1, st1)"
    "holds S st1 c1" "same_config st st1" "appended s s1 (concat (concat (take k row)))"
    "length (concat (concat (take k row))) = 4 * sum_list (take k (map length row))"
    "\<forall>i < length ins. c1 (ins ! i) = (if i < k then rest i else row ! i @ rest i)" "\<forall>x. x \<notin> set ins \<longrightarrow> c1 x = c x"
    by auto
  have k: "k < length ins" "k < length row" using Suc.prems arg_cong [OF row, of length] by (auto simp: rates_def)
  note f = appended_facts [OF 1(4) len]
  have r: "length (row ! k) = nat (pop_rate (hdr st1 (ins ! k)))"
    using arg_cong [OF row, of "\<lambda>xs. xs ! k"] k 1(3) by (simp add: rates_def same_config_def)
  have "unat (in_wr_idx s1) + 4 * length (row ! k) \<le> OPENCL_BUFFER_SIZE"
    using f(1) 1(5) fits row_room [OF k(2)] by simp
  moreover have "c1 (ins ! k) = row ! k @ rest k" using 1(6) k(1) by simp
  moreover have "ins ! k \<in> S" using ins k by auto
  ultimately obtain s2 st2 where 2: "for_out [0..<length (row ! k)] (\<lambda>l. pop_into_buf ins k) (s1, st1) = Done (s2, st2)"
    "holds S st2 (c1(ins ! k := rest k))" "same_config st1 st2" "appended s1 s2 (concat (row ! k))"
    "length (concat (row ! k)) = 4 * length (row ! k)"
    using pop_elems_holds [OF 1(2) k(1) _ _ refl f(3)] by blast
  define c2 where "c2 = c1(ins ! k := rest k)"
  have "appended s s2 (concat (concat (take (Suc k) row)))"
    using appended_append [OF 1(4) 2(4) len] k(2) by (simp only: take_row)
  moreover have "length (concat (concat (take (Suc k) row))) = 4 * sum_list (take (Suc k) (map length row))"
    using 1(5) 2(5) k(2) by (simp add: take_row take_Suc_conv_app_nth)
  moreover have "c2 (ins ! i) = (if i < Suc k then rest i else row ! i @ rest i)" if "i < length ins" for i
    using 1(6) that k(1) ins(2) by (auto simp: nth_eq_iff_index_eq less_Suc_eq c2_def)
  moreover have "\<forall>x. x \<notin> set ins \<longrightarrow> c2 x = c x" using 1(7) k(1) by (auto simp: c2_def)
  ultimately show ?case
    using 1(1) 2(1) 2(2) [folded c2_def] k(1) r same_config_trans [OF 1(3) 2(3)]
    by (intro exI [of _ s2] exI [of _ st2] exI [of _ c2]) (simp add: for_out_append)
qed

definition row_bytes :: "nat list \<Rightarrow> nat" where
  "row_bytes ns = 4 * sum_list ns"

lemma pop_iter_holds:
  assumes "holds S st c" and "set ins \<subseteq> S" "distinct ins" and row: "map length row = rates pop_rate ins st"
    and "\<forall>i < length ins. c (ins ! i) = row ! i @ rest i"
    and "length (in_buf s) = OPENCL_BUFFER_SIZE"
    and "unat (in_wr_idx s) + row_bytes (map length row) \<le> OPENCL_BUFFER_SIZE"
  obtains s' st' c' where "pop_iter ins (length ins) (s, st) = Done (s', st')"
    "holds S st' c'" "same_config st st'" "appended s s' (concat (concat row))"
    "length (concat (concat row)) = row_bytes (map length row)"
    "\<forall>i < length ins. c' (ins ! i) = rest i" "\<forall>x. x \<notin> set ins \<longrightarrow> c' x = c x"
proof -
  have l: "length row = length ins" using arg_cong [OF row, of length] by (simp add: rates_def)
  obtain s' st' c' where "for_out [0..<length ins] (\<lambda>j x. with_stream ins j (\<lambda>ss.
      for_out [0..<nat (pop_rate (hdr (snd x) ss))] (\<lambda>l. pop_into_buf ins j) x)) (s, st) = Done (s', st')"
    "holds S st' c'" "same_config st st'" "appended s s' (concat (concat (take (length ins) row)))"
    "length (concat (concat (take (length ins) row))) = 4 * sum_list (take (length ins) (map length row))"
    "\<forall>i < length ins. c' (ins ! i) = rest i" "\<forall>x. x \<notin> set ins \<longrightarrow> c' x = c x"
    using pop_prefix [OF assms(1-6) assms(7) [unfolded row_bytes_def] order_refl] by auto
  with that l show ?thesis by (simp add: pop_iter_def row_bytes_def)
qed

lemma pop_iters_holds:
  assumes "holds S st c" and "set ins \<subseteq> S" "distinct ins" and "\<forall>row \<in> set rows. map length row = rates pop_rate ins st"
    and "\<forall>i < length ins. c (ins ! i) = column i rows @ rest i"
    and "length (in_buf s) = OPENCL_BUFFER_SIZE"
    and "unat (in_wr_idx s) + length rows * row_bytes (rates pop_rate ins st) \<le> OPENCL_BUFFER_SIZE"
  shows "\<exists>s' st' c'. for_out [0..<length rows] (\<lambda>i. pop_iter ins (length ins)) (s, st) = Done (s', st') \<and>
    holds S st' c' \<and> same_config st st' \<and> appended s s' (concat (concat (concat rows))) \<and>
    length (concat (concat (concat rows))) = length rows * row_bytes (rates pop_rate ins st) \<and>
    (\<forall>i < length ins. c' (ins ! i) = rest i) \<and> (\<forall>x. x \<notin> set ins \<longrightarrow> c' x = c x)"
  using assms(1,4-)
proof (induction rows arbitrary: s st c)
  case Nil
  then show ?case by (auto intro!: exI [of _ c] same_config_refl appended_Nil)
next
  case (Cons row rows)
  have row: "map length row = rates pop_rate ins st" using Cons.prems(2) by simp
  have "unat (in_wr_idx s) + row_bytes (map length row) \<le> OPENCL_BUFFER_SIZE" using Cons.prems(5) row by simp
  moreover have "\<forall>i < length ins. c (ins ! i) = row ! i @ column i rows @ rest i" using Cons.prems(3) by simp
  ultimately obtain s1 st1 c1 where 1: "pop_iter ins (length ins) (s, st) = Done (s1, st1)"
    "holds S st1 c1" "same_config st st1" "appended s s1 (concat (concat row))"
    "length (concat (concat row)) = row_bytes (map length row)"
    "\<forall>i < length ins. c1 (ins ! i) = column i rows @ rest i" "\<forall>x. x \<notin> set ins \<longrightarrow> c1 x = c x"
    using pop_iter_holds [OF Cons.prems(1) assms(2,3) row, where rest = "\<lambda>i. column i rows @ rest i"] Cons.prems(4) by metis
  note f = appended_facts [OF 1(4) Cons.prems(4)]
  have c: "rates pop_rate ins st1 = rates pop_rate ins st" by (rule rates_config [OF 1(3)])
  have "\<forall>row \<in> set rows. map length row = rates pop_rate ins st1" using Cons.prems(2) c by simp
  moreover have "unat (in_wr_idx s1) + length rows * row_bytes (rates pop_rate ins st1) \<le> OPENCL_BUFFER_SIZE"
    using Cons.prems(5) f(1) 1(5) row c by simp
  ultimately obtain s2 st2 c2 where 2: "for_out [0..<length rows] (\<lambda>i. pop_iter ins (length ins)) (s1, st1) = Done (s2, st2)"
    "holds S st2 c2" "same_config st1 st2" "appended s1 s2 (concat (concat (concat rows)))"
    "length (concat (concat (concat rows))) = length rows * row_bytes (rates pop_rate ins st1)"
    "\<forall>i < length ins. c2 (ins ! i) = rest i" "\<forall>x. x \<notin> set ins \<longrightarrow> c2 x = c1 x"
    using Cons.IH [OF 1(2) _ 1(6) f(3)] by blast
  have "for_out [0..<length (row # rows)] (\<lambda>i. pop_iter ins (length ins)) (s, st) = Done (s2, st2)"
    using 1(1) 2(1) by (simp add: for_out_Suc del: upt_Suc)
  moreover have "appended s s2 (concat (concat (concat (row # rows))))"
    using appended_append [OF 1(4) 2(4) Cons.prems(4)] by simp
  moreover have "length (concat (concat (concat (row # rows)))) = length (row # rows) * row_bytes (rates pop_rate ins st)"
    using 1(5) 2(5) row c by simp
  ultimately show ?case using 2(2,6,7) 1(7) same_config_trans [OF 1(3) 2(3)] by auto
qed


subsection \<open>Emptying the output buffer\<close>

definition served :: "'k opencl_state_t \<Rightarrow> 'k opencl_state_t \<Rightarrow> byte list \<Rightarrow> bool" where
  "served s s' bs \<longleftrightarrow> s' = s\<lparr>out_rd_idx := out_rd_idx s + of_nat (length bs)\<rparr> \<and>
     unat (out_rd_idx s) + length bs \<le> length (out_buf s) \<and>
     bs = take (length bs) (drop (unat (out_rd_idx s)) (out_buf s))"

lemma served_facts:
  assumes "served s s' bs" and "length (out_buf s) = OPENCL_BUFFER_SIZE"
  shows "unat (out_rd_idx s') = unat (out_rd_idx s) + length bs" "out_buf s' = out_buf s"
  using assms by (auto simp: served_def OPENCL_BUFFER_SIZE_def unat_add_le)

lemma served_append:
  assumes 1: "served s s' xs" and 2: "served s' s'' ys" and len: "length (out_buf s) = OPENCL_BUFFER_SIZE"
  shows "served s s'' (xs @ ys)"
proof -
  let ?r = "unat (out_rd_idx s)"
  have b: "s' = s\<lparr>out_rd_idx := out_rd_idx s + of_nat (length xs)\<rparr>" "xs = take (length xs) (drop ?r (out_buf s))"
    using 1 unfolding served_def by blast+
  note f = served_facts [OF 1 len]
  have d: "s'' = s'\<lparr>out_rd_idx := out_rd_idx s' + of_nat (length ys)\<rparr>" "?r + length xs + length ys \<le> length (out_buf s)"
    "ys = take (length ys) (drop (length xs) (drop ?r (out_buf s)))"
    using 2 f unfolding served_def by (simp_all add: add.commute)
  have "s'' = s\<lparr>out_rd_idx := out_rd_idx s + of_nat (length (xs @ ys))\<rparr>" unfolding d(1) b(1) by (simp add: add.assoc)
  moreover have "xs @ ys = take (length (xs @ ys)) (drop ?r (out_buf s))" using b(2) d(3) by (simp only: length_append take_add)
  moreover have "?r + length (xs @ ys) \<le> length (out_buf s)" using d(2) by simp
  ultimately show ?thesis unfolding served_def by blast
qed

lemma served_Nil: "unat (out_rd_idx s) \<le> length (out_buf s) \<Longrightarrow> served s s []"
  by (simp add: served_def)

lemma push_from_buf_holds:
  assumes h: "holds S st c" and j: "j < length outs" "outs ! j \<in> S" and room: "length (c (outs ! j)) < capacity"
    and len: "length (out_buf s) = OPENCL_BUFFER_SIZE" and fits: "unat (out_rd_idx s) + 4 \<le> OPENCL_BUFFER_SIZE"
  shows "\<exists>s' st' e. push_from_buf outs j (s, st) = Done (s', st') \<and> holds S st' (c(outs ! j := c (outs ! j) @ [e])) \<and>
    same_config st st' \<and> served s s' e \<and> length e = 4"
proof -
  define e where "e = take 4 (drop (unat (out_rd_idx s)) (out_buf s))"
  have e: "length e = 4" using len fits by (simp add: e_def)
  obtain st' where st': "inline_push_nocheck_s (outs ! j) e st = Done st'" "holds S st' (c(outs ! j := c (outs ! j) @ [e]))"
    "same_config st st'" using push_holds [OF h j(2) e room] by blast
  have es: "elem_size (hdr st (outs ! j)) = 4" "elem_size (hdr st' (outs ! j)) = 4" using h st'(2) j(2) by (auto simp: holds_def)
  let ?s = "s\<lparr>out_rd_idx := out_rd_idx s + 4\<rparr>"
  have "push_from_buf outs j (s, st) = Done (?s, st')"
    using st'(1) es j(1) len fits by (simp add: push_from_buf_def nocheck_0_0_s mem_get_def e_def)
  moreover have "served s ?s e" using fits len e by (simp add: served_def) (simp add: e_def)
  ultimately show ?thesis using st' e by blast
qed

lemma push_elems_holds:
  assumes "holds S st c" and "j < length outs" "outs ! j \<in> S" and "length (c (outs ! j)) + r \<le> capacity"
    and "length (out_buf s) = OPENCL_BUFFER_SIZE" and "unat (out_rd_idx s) + 4 * r \<le> OPENCL_BUFFER_SIZE"
  shows "\<exists>s' st' es. for_out [0..<r] (\<lambda>l. push_from_buf outs j) (s, st) = Done (s', st') \<and>
    holds S st' (c(outs ! j := c (outs ! j) @ es)) \<and> same_config st st' \<and> served s s' (concat es) \<and>
    length es = r \<and> length (concat es) = 4 * r"
  using assms
proof (induction r arbitrary: s st c)
  case 0
  have "c(outs ! j := c (outs ! j) @ []) = c" by auto
  then show ?case using 0 by (auto intro!: exI [of _ "[]"] same_config_refl served_Nil simp del: fun_upd_apply)
next
  case (Suc r)
  have "length (c (outs ! j)) < capacity" "unat (out_rd_idx s) + 4 \<le> OPENCL_BUFFER_SIZE" using Suc.prems by auto
  from push_from_buf_holds [OF Suc.prems(1-3) this(1) Suc.prems(5) this(2)] obtain s1 st1 e where
    1: "push_from_buf outs j (s, st) = Done (s1, st1)" "holds S st1 (c(outs ! j := c (outs ! j) @ [e]))" "same_config st st1"
      "served s s1 e" "length e = 4" by blast
  note f = served_facts [OF 1(4) Suc.prems(5)]
  have a: "length ((c(outs ! j := c (outs ! j) @ [e])) (outs ! j)) + r \<le> capacity" "unat (out_rd_idx s1) + 4 * r \<le> OPENCL_BUFFER_SIZE"
    "length (out_buf s1) = OPENCL_BUFFER_SIZE" using Suc.prems f 1(5) by auto
  from Suc.IH [OF 1(2) Suc.prems(2,3) a(1) a(3,2)] obtain s2 st2 es where
    2: "for_out [0..<r] (\<lambda>l. push_from_buf outs j) (s1, st1) = Done (s2, st2)" "holds S st2 (c(outs ! j := c (outs ! j) @ e # es))"
      "same_config st1 st2" "served s1 s2 (concat es)" "length es = r" "length (concat es) = 4 * r"
    unfolding fun_upd_upd fun_upd_same append_assoc append_Cons append_Nil by blast
  have "for_out [0..<Suc r] (\<lambda>l. push_from_buf outs j) (s, st) = Done (s2, st2)"
    using 1(1) 2(1) by (simp add: for_out_Suc del: upt_Suc)
  then show ?case using 2(2,5,6) 1(5) same_config_trans [OF 1(3) 2(3)] served_append [OF 1(4) 2(4) Suc.prems(5)]
    by (intro exI [of _ s2] exI [of _ st2] exI [of _ "e # es"]) (simp del: fun_upd_apply upt_Suc)
qed

lemma nth_rates: "i < length ss \<Longrightarrow> rates r ss st ! i = nat (r (hdr st (ss ! i)))"
  by (simp add: rates_def)

lemma length_rates [simp]: "length (rates r ss st) = length ss"
  by (simp add: rates_def)

lemma sum_take_le: "k < length (ns :: nat list) \<Longrightarrow> sum_list (take k ns) + ns ! k \<le> sum_list ns"
  by (metis append_take_drop_id sum_list_append take_Suc_conv_app_nth sum_list_simps(2) sum_list_simps(1) add_0_right le_add1)

lemma push_prefix:
  assumes h: "holds S st c" and outs: "set outs \<subseteq> S" "distinct outs"
    and room: "\<forall>i < length outs. length (c (outs ! i)) + rates push_rate outs st ! i \<le> capacity"
    and len: "length (out_buf s) = OPENCL_BUFFER_SIZE"
    and fits: "unat (out_rd_idx s) + row_bytes (rates push_rate outs st) \<le> OPENCL_BUFFER_SIZE"
    and k: "k \<le> length outs"
  shows "\<exists>s' st' c' row. for_out [0..<k] (\<lambda>j x. with_stream outs j (\<lambda>ss.
      for_out [0..<nat (push_rate (hdr (snd x) ss))] (\<lambda>l. push_from_buf outs j) x)) (s, st) = Done (s', st') \<and>
    holds S st' c' \<and> same_config st st' \<and> map length row = take k (rates push_rate outs st) \<and>
    served s s' (concat (concat row)) \<and> length (concat (concat row)) = 4 * sum_list (take k (rates push_rate outs st)) \<and>
    (\<forall>i < length outs. c' (outs ! i) = (if i < k then c (outs ! i) @ row ! i else c (outs ! i))) \<and>
    (\<forall>x. x \<notin> set outs \<longrightarrow> c' x = c x)"
  using k
proof (induction k)
  case 0
  then show ?case using h fits len by (auto intro!: exI [of _ c] same_config_refl served_Nil)
next
  case (Suc k)
  then obtain s1 st1 c1 row where 1: "for_out [0..<k] (\<lambda>j x. with_stream outs j (\<lambda>ss.
      for_out [0..<nat (push_rate (hdr (snd x) ss))] (\<lambda>l. push_from_buf outs j) x)) (s, st) = Done (s1, st1)"
    "holds S st1 c1" "same_config st st1" "map length row = take k (rates push_rate outs st)"
    "served s s1 (concat (concat row))" "length (concat (concat row)) = 4 * sum_list (take k (rates push_rate outs st))"
    "\<forall>i < length outs. c1 (outs ! i) = (if i < k then c (outs ! i) @ row ! i else c (outs ! i))"
    "\<forall>x. x \<notin> set outs \<longrightarrow> c1 x = c x"
    by auto
  have k: "k < length outs" "k < length (rates push_rate outs st)" "length row = k"
    using Suc.prems arg_cong [OF 1(4), of length] by auto
  note f = served_facts [OF 1(5) len]
  define n where "n = rates push_rate outs st ! k"
  have n: "n = nat (push_rate (hdr st1 (outs ! k)))" using k(1) 1(3) by (simp add: n_def nth_rates same_config_def)
  have "unat (out_rd_idx s1) + 4 * n \<le> OPENCL_BUFFER_SIZE"
    using f(1) 1(6) fits sum_take_le [OF k(2)] by (simp add: row_bytes_def n_def)
  moreover have ck: "c1 (outs ! k) = c (outs ! k)" using 1(7) k(1) by simp
  moreover have "length (c1 (outs ! k)) + n \<le> capacity" using room k(1) ck by (simp add: n_def)
  moreover have "outs ! k \<in> S" "length (out_buf s1) = OPENCL_BUFFER_SIZE" using outs k f(2) len by auto
  ultimately obtain s2 st2 es where 2: "for_out [0..<n] (\<lambda>l. push_from_buf outs k) (s1, st1) = Done (s2, st2)"
    "holds S st2 (c1(outs ! k := c (outs ! k) @ es))" "same_config st1 st2" "served s1 s2 (concat es)" "length es = n"
    "length (concat es) = 4 * n"
    using push_elems_holds [OF 1(2) k(1)] by metis
  define c2 where "c2 = c1(outs ! k := c (outs ! k) @ es)"
  have "served s s2 (concat (concat (row @ [es])))" using served_append [OF 1(5) 2(4) len] by simp
  moreover have "map length (row @ [es]) = take (Suc k) (rates push_rate outs st)"
    using 1(4) 2(5) k(2) by (simp add: take_Suc_conv_app_nth n_def)
  moreover have "length (concat (concat (row @ [es]))) = 4 * sum_list (take (Suc k) (rates push_rate outs st))"
    using 1(6) 2(6) k(2) by (simp add: take_Suc_conv_app_nth n_def)
  moreover have "c2 (outs ! i) = (if i < Suc k then c (outs ! i) @ (row @ [es]) ! i else c (outs ! i))" if "i < length outs" for i
    using 1(7) that k(1,3) outs(2) by (auto simp: nth_eq_iff_index_eq less_Suc_eq nth_append c2_def)
  moreover have "\<forall>x. x \<notin> set outs \<longrightarrow> c2 x = c x" using 1(8) k(1) by (auto simp: c2_def)
  ultimately show ?case
    using 1(1) 2(1) 2(2) [folded c2_def] k(1) n same_config_trans [OF 1(3) 2(3)]
    by (intro exI [of _ s2] exI [of _ st2] exI [of _ c2] exI [of _ "row @ [es]"]) (simp add: for_out_append)
qed

lemma push_iters_holds:
  assumes "holds S st c" and outs: "set outs \<subseteq> S" "distinct outs"
    and "\<forall>i < length outs. length (c (outs ! i)) + n * rates push_rate outs st ! i \<le> capacity"
    and "length (out_buf s) = OPENCL_BUFFER_SIZE"
    and "unat (out_rd_idx s) + n * row_bytes (rates push_rate outs st) \<le> OPENCL_BUFFER_SIZE"
  shows "\<exists>s' st' c' rows. for_out [0..<n] (\<lambda>i. push_iter outs (length outs)) (s, st) = Done (s', st') \<and>
    holds S st' c' \<and> same_config st st' \<and> length rows = n \<and> (\<forall>row \<in> set rows. map length row = rates push_rate outs st) \<and>
    served s s' (concat (concat (concat rows))) \<and>
    length (concat (concat (concat rows))) = n * row_bytes (rates push_rate outs st) \<and>
    (\<forall>i < length outs. c' (outs ! i) = c (outs ! i) @ column i rows) \<and> (\<forall>x. x \<notin> set outs \<longrightarrow> c' x = c x)"
  using assms(1,4-)
proof (induction n arbitrary: s st c)
  case 0
  then show ?case by (auto intro!: exI [of _ c] same_config_refl served_Nil)
next
  case (Suc n)
  have "\<forall>i < length outs. length (c (outs ! i)) + rates push_rate outs st ! i \<le> capacity"
    using Suc.prems(2) by (metis add.assoc add_leD1 mult_Suc)
  moreover have "unat (out_rd_idx s) + row_bytes (rates push_rate outs st) \<le> OPENCL_BUFFER_SIZE" using Suc.prems(4) by simp
  ultimately obtain s1 st1 c1 row where 1: "push_iter outs (length outs) (s, st) = Done (s1, st1)"
    "holds S st1 c1" "same_config st st1" "map length row = rates push_rate outs st" "served s s1 (concat (concat row))"
    "length (concat (concat row)) = row_bytes (rates push_rate outs st)"
    "\<forall>i < length outs. c1 (outs ! i) = c (outs ! i) @ row ! i" "\<forall>x. x \<notin> set outs \<longrightarrow> c1 x = c x"
    using push_prefix [OF Suc.prems(1) outs _ Suc.prems(3) _ order_refl] by (auto simp: push_iter_def row_bytes_def)
  note f = served_facts [OF 1(5) Suc.prems(3)]
  have c: "rates push_rate outs st1 = rates push_rate outs st" by (rule rates_config [OF 1(3)])
  have "length (row ! i) = rates push_rate outs st ! i" if "i < length outs" for i
    using that by (simp flip: 1(4)) (metis 1(4) length_map length_rates nth_map)
  then have "\<forall>i < length outs. length (c1 (outs ! i)) + n * rates push_rate outs st1 ! i \<le> capacity"
    using Suc.prems(2) 1(7) c by (simp add: add.assoc)
  moreover have "length (out_buf s1) = OPENCL_BUFFER_SIZE" using f Suc.prems(3) by simp
  moreover have "unat (out_rd_idx s1) + n * row_bytes (rates push_rate outs st1) \<le> OPENCL_BUFFER_SIZE"
    using Suc.prems(4) f(1) 1(6) c by simp
  ultimately obtain s2 st2 c2 rows where 2: "for_out [0..<n] (\<lambda>i. push_iter outs (length outs)) (s1, st1) = Done (s2, st2)"
    "holds S st2 c2" "same_config st1 st2" "length rows = n" "\<forall>row \<in> set rows. map length row = rates push_rate outs st1"
    "served s1 s2 (concat (concat (concat rows)))"
    "length (concat (concat (concat rows))) = n * row_bytes (rates push_rate outs st1)"
    "\<forall>i < length outs. c2 (outs ! i) = c1 (outs ! i) @ column i rows" "\<forall>x. x \<notin> set outs \<longrightarrow> c2 x = c1 x"
    using Suc.IH [OF 1(2)] by blast
  have "for_out [0..<Suc n] (\<lambda>i. push_iter outs (length outs)) (s, st) = Done (s2, st2)"
    using 1(1) 2(1) by (simp add: for_out_Suc del: upt_Suc)
  moreover have "served s s2 (concat (concat (concat (row # rows))))"
    using served_append [OF 1(5) 2(6) Suc.prems(3)] by simp
  moreover have "length (concat (concat (concat (row # rows)))) = Suc n * row_bytes (rates push_rate outs st)"
    using 1(6) 2(7) c by simp
  moreover have "\<forall>row \<in> set (row # rows). map length row = rates push_rate outs st" using 1(4) 2(5) c by simp
  ultimately show ?case using 2(2,4,8,9) 1(7,8) same_config_trans [OF 1(3) 2(3)]
    by (intro exI [of _ s2] exI [of _ st2] exI [of _ c2] exI [of _ "row # rows"]) simp
qed

end
