(* ===== verification/OpenCL_Host.thy ===== *)
theory OpenCL_Host
  imports OpenCL_Buffers
begin

section \<open>The host side of the OpenCL scheduler\<close>

text \<open>
  What the work function of \<open>OpenCL_Sched\<close> does: a launch, a round and the whole loop, which ends.  The contract of
  the device is \<open>device_maps\<close>; \<open>OpenCL_Device\<close> shows that the generated code keeps it.
\<close>

subsection \<open>Counting iterations\<close>

lemma fold_min_ge: "k \<le> (n :: int) \<Longrightarrow> \<forall>i \<in> set is. k \<le> f i \<Longrightarrow> k \<le> fold (\<lambda>i n. min n (f i)) is n"
  by (induction "is" arbitrary: n) auto

text \<open>How the streams of a kernel on the device are set up.\<close>

definition opencl_streams :: "ptr set \<Rightarrow> ptr list \<Rightarrow> ptr list \<Rightarrow> store \<Rightarrow> 'k opencl_state_t \<Rightarrow> bool" where
  "opencl_streams S ins outs st s \<longleftrightarrow> set ins \<subseteq> S \<and> set outs \<subseteq> S \<and> distinct (ins @ outs) \<and>
     o_nins s = length ins \<and> o_nouts s = length outs \<and> ins \<noteq> [] \<and> outs \<noteq> [] \<and>
     unat (in_bytes_per_iter s) = row_bytes (rates pop_rate ins st) \<and>
     unat (out_bytes_per_iter s) = row_bytes (rates push_rate outs st) \<and>
     (\<forall>x \<in> set ins. 0 < pop_rate (hdr st x) \<and> pop_rate (hdr st x) < 2 ^ 31 \<and> peek_rate (hdr st x) = 0 \<and>
        src (hdr st x) \<noteq> NullEnd) \<and>
     (\<forall>x \<in> set outs. 0 < push_rate (hdr st x) \<and> push_rate (hdr st x) < 2 ^ 31 \<and> dst (hdr st x) \<noteq> NullEnd)"

definition same_state :: "'k opencl_state_t \<Rightarrow> 'k opencl_state_t \<Rightarrow> bool" where
  "same_state s s' \<longleftrightarrow> o_nins s' = o_nins s \<and> o_nouts s' = o_nouts s \<and> orig_state s' = orig_state s \<and>
     in_bytes_per_iter s' = in_bytes_per_iter s \<and> out_bytes_per_iter s' = out_bytes_per_iter s"

lemma streams_same:
  assumes "opencl_streams S ins outs st s" and "same_config st st'" and "same_state s s'"
  shows "opencl_streams S ins outs st' s'"
  using assms rates_config [OF assms(2)] by (simp add: opencl_streams_def same_config_def same_state_def)

lemma int_rates:
  assumes "opencl_streams S ins outs st s"
  shows "i < length ins \<Longrightarrow> 0 < rates pop_rate ins st ! i \<and> int (rates pop_rate ins st ! i) = pop_rate (hdr st (ins ! i))"
    and "i < length outs \<Longrightarrow> 0 < rates push_rate outs st ! i \<and> int (rates push_rate outs st ! i) = push_rate (hdr st (outs ! i))"
proof -
  have p: "\<forall>x \<in> set ins. 0 < pop_rate (hdr st x)" "\<forall>x \<in> set outs. 0 < push_rate (hdr st x)"
    using assms by (auto simp: opencl_streams_def)
  show "i < length ins \<Longrightarrow> 0 < rates pop_rate ins st ! i \<and> int (rates pop_rate ins st ! i) = pop_rate (hdr st (ins ! i))"
    using p(1) [rule_format, OF nth_mem, of i] by (simp add: nth_rates)
  show "i < length outs \<Longrightarrow> 0 < rates push_rate outs st ! i \<and> int (rates push_rate outs st ! i) = push_rate (hdr st (outs ! i))"
    using p(2) [rule_format, OF nth_mem, of i] by (simp add: nth_rates)
qed

lemma niters_inputs:
  assumes h: "holds S st c" and s: "opencl_streams S ins outs st s"
  obtains v n where "inline_compute_niters ins (length ins) [] 0 st = Done (v, n)" "v = NullEnd \<longleftrightarrow> n \<noteq> 0"
    "\<forall>i < length ins. unat n * rates pop_rate ins st ! i \<le> length (c (ins ! i))"
    "v \<noteq> NullEnd \<longrightarrow> v \<in> (\<lambda>x. src (hdr st x)) ` set ins"
    "n = 0 \<Longrightarrow> \<exists>i < length ins. length (c (ins ! i)) < rates pop_rate ins st ! i"
proof -
  have ok: "streams_ok 4 STREAM_BUFFER_SIZE ins (length ins) [] (length []) st"
    using s by (intro holds_streams_ok [OF h]) (auto simp: opencl_streams_def)
  obtain v n where n: "inline_compute_niters ins (length ins) [] (length []) st = Done (v, n)" "v = NullEnd \<longleftrightarrow> n \<noteq> 0"
    "\<forall>i < length ins. int (unat n) * pop_rate (hdr st (ins ! i)) \<le> int (length (c (ins ! i)))"
    using holds_niters [OF h _ _ ok] s by (auto simp: opencl_streams_def)
  have le: "unat n * rates pop_rate ins st ! i \<le> length (c (ins ! i))" if "i < length ins" for i
  proof -
    have "int (unat n * rates pop_rate ins st ! i) \<le> int (length (c (ins ! i)))"
      using n(3) that int_rates(1) [OF s that] by (simp only: of_nat_mult)
    then show ?thesis by (simp only: of_nat_le_iff)
  qed
  have run: "inline_compute_niters_E_B 4 STREAM_BUFFER_SIZE ins (length ins) [] (length []) st = Done (v, n)"
    using n(1) h s by (subst compute_niters_generic [symmetric]) (auto simp: holds_def opencl_streams_def)
  have "n \<noteq> 0" if e: "\<forall>i < length ins. rates pop_rate ins st ! i \<le> length (c (ins ! i))"
  proof -
    have "0 < in_iters 4 STREAM_BUFFER_SIZE st (ins ! i)" if i: "i < length ins" for i
    proof -
      have i2: "ins ! i \<in> S" "peek_rate (hdr st (ins ! i)) = 0" using s i by (auto simp: opencl_streams_def)
      then have "ring_count 4 STREAM_BUFFER_SIZE st (ins ! i) = length (c (ins ! i))"
        using h by (metis holds_def length_ring_items)
      moreover have "pop_rate (hdr st (ins ! i)) \<le> int (length (c (ins ! i)))" "0 < pop_rate (hdr st (ins ! i))"
        using e [rule_format, OF i] int_rates(1) [OF s i] by linarith+
      ultimately show ?thesis using i2(2) by (simp add: in_iters_def pos_imp_zdiv_pos_iff)
    qed
    then have pos: "\<forall>i \<in> set [0..<length ins]. 0 < in_iters 4 STREAM_BUFFER_SIZE st (ins ! i)" by simp
    show ?thesis
      using run niters_nonzero [of STREAM_BUFFER_SIZE "[]" _ "[0..<length ins]", OF _ _ _ pos]
      unfolding compute_niters_eq [OF ok] find_None_pos [THEN iffD2, OF pos] by (auto simp: STREAM_BUFFER_SIZE_def)
  qed
  note short = this
  have "v \<noteq> NullEnd \<longrightarrow> v \<in> (\<lambda>x. src (hdr st x)) ` set ins"
    using run unfolding compute_niters_eq [OF ok] by (auto simp: find_Some_iff split: option.splits)
  with that n(1,2) le short show ?thesis by (simp add: not_le [symmetric]) blast
qed

lemma niters_outputs:
  assumes h: "holds S st c" and s: "opencl_streams S ins outs st s"
  obtains v n where "inline_compute_niters [] 0 outs (length outs) st = Done (v, n)" "v = NullEnd \<longleftrightarrow> n \<noteq> 0"
    "\<forall>i < length outs. length (c (outs ! i)) + unat n * rates push_rate outs st ! i \<le> capacity"
    "v \<noteq> NullEnd \<longrightarrow> v \<in> (\<lambda>x. dst (hdr st x)) ` set outs"
    "\<And>k. \<forall>i < length outs. length (c (outs ! i)) + k * rates push_rate outs st ! i \<le> capacity \<Longrightarrow> k \<le> unat n"
proof -
  let ?B = STREAM_BUFFER_SIZE
  have ok: "streams_ok 4 ?B [] (length []) outs (length outs) st"
    using s by (intro holds_streams_ok [OF h]) (auto simp: opencl_streams_def)
  obtain v n where n: "inline_compute_niters [] (length []) outs (length outs) st = Done (v, n)" "v = NullEnd \<longleftrightarrow> n \<noteq> 0"
    "\<forall>i < length outs. int (unat n) * push_rate (hdr st (outs ! i)) + int (length (c (outs ! i))) \<le> int capacity"
    using holds_niters [OF h _ _ ok] s by (auto simp: opencl_streams_def)
  have le: "length (c (outs ! i)) + unat n * rates push_rate outs st ! i \<le> capacity" if "i < length outs" for i
  proof -
    have "int (length (c (outs ! i)) + unat n * rates push_rate outs st ! i) \<le> int capacity"
      using n(3) that int_rates(2) [OF s that] by (simp only: of_nat_mult of_nat_add add.commute)
    then show ?thesis by (simp only: of_nat_le_iff)
  qed
  have run: "inline_compute_niters_E_B 4 ?B [] (length []) outs (length outs) st = Done (v, n)"
    using n(1) h s by (subst compute_niters_generic [symmetric]) (auto simp: holds_def opencl_streams_def)
  have v: "v \<noteq> NullEnd \<longrightarrow> v \<in> (\<lambda>x. dst (hdr st x)) ` set outs"
    using run unfolding compute_niters_eq [OF ok] by (auto simp: find_Some_iff split: option.splits)
  have "k \<le> unat n" if k: "\<forall>i < length outs. length (c (outs ! i)) + k * rates push_rate outs st ! i \<le> capacity" for k
  proof (cases "k = 0")
    case False
    note r = int_rates(2) [OF s]
    have it: "int k \<le> out_iters 4 ?B st (outs ! i)" if i: "i < length outs" for i
    proof -
      have "outs ! i \<in> S" using s i by (auto simp: opencl_streams_def)
      then have "ring_count 4 ?B st (outs ! i) = length (c (outs ! i))"
        using h by (metis holds_def length_ring_items)
      then have "k * rates push_rate outs st ! i \<le> ring_cap 4 ?B - ring_count 4 ?B st (outs ! i)"
        using k i by (auto simp: capacity_def)
      then have "int k * push_rate (hdr st (outs ! i)) \<le> int (ring_cap 4 ?B - ring_count 4 ?B st (outs ! i))"
        using r [OF i] by (metis of_nat_le_iff of_nat_mult)
      moreover have "0 < push_rate (hdr st (outs ! i))" using r [OF i] by linarith
      ultimately show ?thesis using zdiv_mono1 [of "int k * push_rate (hdr st (outs ! i))"]
        unfolding out_iters_def by fastforce
    qed
    have "outs \<noteq> []" using s by (simp add: opencl_streams_def)
    then have r0: "k * rates push_rate outs st ! 0 \<le> capacity" "1 \<le> rates push_rate outs st ! 0"
      using k [rule_format, of 0] r [of 0] by auto
    have "k \<le> capacity" using mult_le_mono2 [OF r0(2), of k] r0(1) by linarith
    then have kB: "int k \<le> int ?B" by (simp add: capacity_def ring_cap_def STREAM_BUFFER_SIZE_def)
    let ?m = "fold (\<lambda>i n. min n (out_iters 4 ?B st (outs ! i))) [0..<length outs] (int ?B)"
    have pos: "\<forall>i \<in> set [0..<length outs]. 0 < out_iters 4 ?B st (outs ! i)" using it False by force
    have n: "n = of_int ?m" using run unfolding compute_niters_eq [OF ok] find_None_pos [THEN iffD2, OF pos] by simp
    have ge: "int k \<le> ?m" by (rule fold_min_ge [OF kB]) (use it in auto)
    have "?m \<le> int ?B" by (rule fold_min_le)
    then have small: "?m < 2 ^ 31 * 2" by (simp add: STREAM_BUFFER_SIZE_def)
    have "unat n = nat ?m" unfolding n using ge small by (intro unat_of_int_small) auto
    with ge show ?thesis by linarith
  qed simp
  with that n(1,2) le v show ?thesis by simp
qed


lemma rows_of:
  assumes "\<forall>i < length ns. n * ns ! i \<le> length (q i)"
  shows "\<exists>rows. length rows = n \<and> (\<forall>row \<in> set rows. map length row = ns) \<and>
    (\<forall>i < length ns. q i = column i rows @ drop (n * ns ! i) (q i))"
proof -
  let ?w = "\<lparr>next_stream = 0, dp_niter = 0, rate = map int ns, num_streams = int (length ns)\<rparr>"
  have "row_ok ?w row \<longleftrightarrow> map length row = ns" for row
    by (auto simp: row_ok_def rate_at_def list_eq_iff_nth_eq)
  with join_rows_exist [of ?w n q] assms show ?thesis by (simp add: rate_at_def)
qed

subsection \<open>The queues in the two buffers\<close>

definition inq :: "'k opencl_state_t \<Rightarrow> byte list" where
  "inq s = drop (unat (in_rd_idx s)) (take (unat (in_wr_idx s)) (in_buf s))"

definition outq :: "'k opencl_state_t \<Rightarrow> byte list" where
  "outq s = drop (unat (out_rd_idx s)) (take (unat (out_wr_idx s)) (out_buf s))"

definition queue_ok :: "nat \<Rightarrow> nat \<Rightarrow> nat \<Rightarrow> bool" where
  "queue_ok w r e \<longleftrightarrow> 0 < w \<and> w \<le> OPENCL_BUFFER_SIZE \<and> r \<le> e \<and> e \<le> OPENCL_BUFFER_SIZE \<and> w dvd r \<and> w dvd e"

definition opencl_ok :: "'k opencl_state_t \<Rightarrow> bool" where
  "opencl_ok s \<longleftrightarrow> length (in_buf s) = OPENCL_BUFFER_SIZE \<and> length (out_buf s) = OPENCL_BUFFER_SIZE \<and>
     length (devins s) = OPENCL_BUFFER_SIZE \<and> length (devouts s) = OPENCL_BUFFER_SIZE \<and>
     queue_ok (unat (in_bytes_per_iter s)) (unat (in_rd_idx s)) (unat (in_wr_idx s)) \<and>
     queue_ok (unat (out_bytes_per_iter s)) (unat (out_rd_idx s)) (unat (out_wr_idx s)) \<and>
     (in_rd_idx s = in_wr_idx s \<longrightarrow> in_rd_idx s = 0)"

lemma inq_length: "opencl_ok s \<Longrightarrow> length (inq s) = unat (in_wr_idx s) - unat (in_rd_idx s)"
  by (simp add: inq_def opencl_ok_def queue_ok_def)

lemma outq_length: "opencl_ok s \<Longrightarrow> length (outq s) = unat (out_wr_idx s) - unat (out_rd_idx s)"
  by (simp add: outq_def opencl_ok_def queue_ok_def)

lemma inq_empty: "opencl_ok s \<Longrightarrow> inq s = [] \<longleftrightarrow> in_rd_idx s = in_wr_idx s"
  using inq_length [of s] by (auto simp: opencl_ok_def queue_ok_def word_unat_eq_iff simp flip: length_0_conv)

lemma outq_empty: "opencl_ok s \<Longrightarrow> outq s = [] \<longleftrightarrow> out_rd_idx s = out_wr_idx s"
  using outq_length [of s] by (auto simp: opencl_ok_def queue_ok_def word_unat_eq_iff simp flip: length_0_conv)

lemma unat_sub_le: "unat b \<le> unat a \<Longrightarrow> unat (a - b :: size_t) = unat a - unat b"
  by (simp add: unat_sub word_le_nat_alt)

lemma unat_buffer_size: "unat (of_nat OPENCL_BUFFER_SIZE :: size_t) = OPENCL_BUFFER_SIZE"
  by (rule unat_of_nat_small) (simp add: OPENCL_BUFFER_SIZE_def)

lemma div_out_nat:
  assumes "0 < unat b"
  obtains q where "div_out a b = Done q" "unat q = unat a div unat b"
proof -
  have "b \<noteq> 0" using assms by auto
  then show ?thesis using that [of "a div b"] by (simp add: div_out_def unat_div_distrib)
qed

lemma unat_min: "unat (min a b :: size_t) = min (unat a) (unat b)"
  by (auto simp: min_def word_le_nat_alt)

lemma queue_room: "queue_ok w r e \<Longrightarrow> n \<le> (OPENCL_BUFFER_SIZE - e) div w \<Longrightarrow> e + n * w \<le> OPENCL_BUFFER_SIZE"
proof -
  assume q: "queue_ok w r e" and n: "n \<le> (OPENCL_BUFFER_SIZE - e) div w"
  have "n * w \<le> OPENCL_BUFFER_SIZE - e" using mult_le_mono1 [OF n, of w] div_times_less_eq_dividend [of "OPENCL_BUFFER_SIZE - e" w] by linarith
  moreover have "e \<le> OPENCL_BUFFER_SIZE" using q by (simp add: queue_ok_def)
  ultimately show ?thesis by linarith
qed

lemma row_bytes_row: "row_bytes (map length row) = 4 * sum_list (map length row)"
  by (simp add: row_bytes_def)

lemma length_column_rows:
  assumes "\<forall>row \<in> set rows. map length row = ns" and "i < length ns"
  shows "length (column i rows) = length rows * ns ! i"
  using assms
proof (induction rows)
  case (Cons row rows)
  then have "length (row ! i) = ns ! i" by (metis length_map list.set_intros(1) nth_map)
  then show ?case using Cons by simp
qed simp

lemma pop_inputs_holds:
  assumes h: "holds S st c" and s: "opencl_streams S ins outs st s" and ok: "opencl_ok s"
  obtains n s' st' c' rows where "opencl_pop_inputs ins (s, st) = Done (n, s', st')"
    "holds S st' c'" "same_config st st'" "same_state s s'" "opencl_ok s'" "outq s' = outq s"
    "\<forall>row \<in> set rows. map length row = rates pop_rate ins st"
    "\<forall>i < length ins. c (ins ! i) = column i rows @ c' (ins ! i)" "\<forall>x. x \<notin> set ins \<longrightarrow> c' x = c x"
    "inq s' = inq s @ concat (concat (concat rows))"
    "length (concat (concat (concat rows))) = length rows * unat (in_bytes_per_iter s)"
    "inq s' = [] \<Longrightarrow> \<exists>i < length ins. length (c' (ins ! i)) < rates pop_rate ins st ! i"
proof -
  let ?w = "unat (in_bytes_per_iter s)"
  have q: "queue_ok ?w (unat (in_rd_idx s)) (unat (in_wr_idx s))" and len: "length (in_buf s) = OPENCL_BUFFER_SIZE"
    using ok by (auto simp: opencl_ok_def)
  have w: "?w = row_bytes (rates pop_rate ins st)" "o_nins s = length ins" "set ins \<subseteq> S" "distinct ins"
    using s by (auto simp: opencl_streams_def)
  have "0 < ?w" using q by (simp add: queue_ok_def)
  then obtain m where m: "div_out (of_nat OPENCL_BUFFER_SIZE - in_wr_idx s) (in_bytes_per_iter s) = Done m"
    "unat m = (OPENCL_BUFFER_SIZE - unat (in_wr_idx s)) div ?w"
    using div_out_nat [of "in_bytes_per_iter s" "of_nat OPENCL_BUFFER_SIZE - in_wr_idx s"] q
    by (auto simp: unat_sub_le unat_buffer_size queue_ok_def)
  obtain v n where n: "inline_compute_niters ins (length ins) [] 0 st = Done (v, n)" "v = NullEnd \<longleftrightarrow> n \<noteq> 0"
    "\<forall>i < length ins. unat n * rates pop_rate ins st ! i \<le> length (c (ins ! i))"
    "n = 0 \<Longrightarrow> \<exists>i < length ins. length (c (ins ! i)) < rates pop_rate ins st ! i"
    by (rule niters_inputs [OF h s]) blast
  let ?k = "min m n"
  have k: "unat ?k \<le> unat m" "unat ?k \<le> unat n" by (simp_all add: unat_min)
  have "\<forall>i < length (rates pop_rate ins st). unat ?k * rates pop_rate ins st ! i \<le> length (c (ins ! i))"
    using n(3) order_trans [OF mult_le_mono1 [OF k(2)]] by simp
  from rows_of [OF this] obtain rows where rows: "length rows = unat ?k"
    "\<forall>row \<in> set rows. map length row = rates pop_rate ins st"
    "\<forall>i < length ins. c (ins ! i) = column i rows @ drop (unat ?k * rates pop_rate ins st ! i) (c (ins ! i))"
    by auto
  have room: "unat (in_wr_idx s) + length rows * row_bytes (rates pop_rate ins st) \<le> OPENCL_BUFFER_SIZE"
    using queue_room [OF q, of "unat ?k"] k(1) m(2) rows(1) w(1) by simp
  obtain s' st' c' where r: "for_out [0..<length rows] (\<lambda>i. pop_iter ins (length ins)) (s, st) = Done (s', st')"
    "holds S st' c'" "same_config st st'" "appended s s' (concat (concat (concat rows)))"
    "length (concat (concat (concat rows))) = length rows * row_bytes (rates pop_rate ins st)"
    "\<forall>i < length ins. c' (ins ! i) = drop (unat ?k * rates pop_rate ins st ! i) (c (ins ! i))"
    "\<forall>x. x \<notin> set ins \<longrightarrow> c' x = c x"
    using pop_iters_holds [OF h w(3,4) rows(2,3) len room] by blast
  let ?bs = "concat (concat (concat rows))"
  note f = appended_facts [OF r(4) len]
  obtain b where b: "s' = s\<lparr>in_buf := b, in_wr_idx := in_wr_idx s + of_nat (length ?bs)\<rparr>"
    "take (unat (in_wr_idx s) + length ?bs) b = take (unat (in_wr_idx s)) (in_buf s) @ ?bs"
    using r(4) unfolding appended_def by blast
  have same: "same_state s s'" "outq s' = outq s" "out_rd_idx s' = out_rd_idx s" "out_wr_idx s' = out_wr_idx s"
    "in_rd_idx s' = in_rd_idx s" "in_buf s' = b" "out_buf s' = out_buf s" "devins s' = devins s" "devouts s' = devouts s"
    unfolding b(1) by (simp_all add: same_state_def outq_def)
  have inq: "inq s' = inq s @ ?bs"
    using b(2) f(1) q len unfolding inq_def same by (simp add: queue_ok_def)
  have "?w dvd length ?bs" using r(5) w(1) by simp
  then have "queue_ok ?w (unat (in_rd_idx s')) (unat (in_wr_idx s'))"
    using q f(1,2) unfolding same by (auto simp: queue_ok_def)
  moreover have "in_rd_idx s' = 0" if "in_rd_idx s' = in_wr_idx s'"
  proof -
    have "length ?bs = 0" "unat (in_rd_idx s) = unat (in_wr_idx s)"
      using arg_cong [OF that, of unat] f(1) q unfolding same by (auto simp: queue_ok_def)
    then show ?thesis using ok unfolding same by (simp add: opencl_ok_def word_unat_eq_iff)
  qed
  ultimately have ok': "opencl_ok s'"
    using ok f(3) same unfolding opencl_ok_def by (simp add: same_state_def)
  have "opencl_pop_inputs ins (s, st) = Done (?k, s', st')"
    using m(1) n(1) r(1) rows(1) w(2) by (simp add: opencl_pop_inputs_def)
  moreover have "\<exists>i < length ins. length (c' (ins ! i)) < rates pop_rate ins st ! i" if "inq s' = []"
  proof -
    have b: "inq s = []" "?bs = []" using that inq by auto
    have "length rows * ?w = 0" using r(5) unfolding b(2) w(1) by simp
    note e = b(1) this
    then have "in_wr_idx s = 0" using inq_empty [OF ok] ok by (simp add: opencl_ok_def)
    then have "0 < unat m" using m(2) q by (simp add: queue_ok_def div_greater_zero_iff)
    moreover have "length rows = 0" using e(2) q by (simp add: queue_ok_def)
    ultimately have "unat n = 0" using rows(1) by (simp add: unat_min min_def split: if_splits)
    then have "n = 0" by (rule unat_eq_zero [THEN iffD1])
    from n(4) [OF this] have "\<exists>i < length ins. length (c (ins ! i)) < rates pop_rate ins st ! i" .
    then show ?thesis using r(6) rows(1) \<open>length rows = 0\<close> by auto
  qed
  ultimately show ?thesis
    using that [of ?k s' st' c' rows] r(2,3,5,6,7) same(1,2) ok' rows(2,3) inq w(1) by simp
qed


lemma push_outputs_holds:
  assumes h: "holds S st c" and s: "opencl_streams S ins outs st s" and ok: "opencl_ok s"
  obtains n s' st' c' rows where "opencl_push_outputs outs (s, st) = Done (n, s', st')"
    "holds S st' c'" "same_config st st'" "same_state s s'" "opencl_ok s'" "inq s' = inq s"
    "\<forall>row \<in> set rows. map length row = rates push_rate outs st"
    "\<forall>i < length outs. c' (outs ! i) = c (outs ! i) @ column i rows" "\<forall>x. x \<notin> set outs \<longrightarrow> c' x = c x"
    "outq s = concat (concat (concat rows)) @ outq s'"
    "outq s' \<noteq> [] \<Longrightarrow> \<exists>v. inline_compute_niters [] 0 outs (length outs) st' = Done (v, 0) \<and>
       v \<in> (\<lambda>x. dst (hdr st' x)) ` set outs \<and> v \<noteq> NullEnd"
proof (cases "outq s = []")
  case True
  then have "opencl_push_outputs outs (s, st) = Done (0, s, st)"
    using outq_empty [OF ok] by (simp add: opencl_push_outputs_def)
  with that [of 0 s st c "[]"] True h ok show ?thesis by (simp add: same_config_refl same_state_def)
next
  case False
  let ?w = "unat (out_bytes_per_iter s)"
  have q: "queue_ok ?w (unat (out_rd_idx s)) (unat (out_wr_idx s))" and len: "length (out_buf s) = OPENCL_BUFFER_SIZE"
    using ok by (auto simp: opencl_ok_def)
  have w: "?w = row_bytes (rates push_rate outs st)" "o_nouts s = length outs" "set outs \<subseteq> S" "distinct outs"
    using s by (auto simp: opencl_streams_def)
  have "0 < ?w" using q by (simp add: queue_ok_def)
  then obtain m where m: "div_out (out_wr_idx s - out_rd_idx s) (out_bytes_per_iter s) = Done m"
    "unat m = length (outq s) div ?w"
    using div_out_nat [of "out_bytes_per_iter s" "out_wr_idx s - out_rd_idx s"] q outq_length [OF ok]
    by (auto simp: unat_sub_le queue_ok_def)
  have dvd: "?w dvd length (outq s)" using q outq_length [OF ok] by (simp add: queue_ok_def)
  obtain v n where n: "inline_compute_niters [] 0 outs (length outs) st = Done (v, n)" "v = NullEnd \<longleftrightarrow> n \<noteq> 0"
    "\<forall>i < length outs. length (c (outs ! i)) + unat n * rates push_rate outs st ! i \<le> capacity"
    "\<And>k. \<forall>i < length outs. length (c (outs ! i)) + k * rates push_rate outs st ! i \<le> capacity \<Longrightarrow> k \<le> unat n"
    by (rule niters_outputs [OF h s]) blast
  let ?k = "min m n"
  have k: "unat ?k \<le> unat m" "unat ?k \<le> unat n" by (simp_all add: unat_min)
  have room: "\<forall>i < length outs. length (c (outs ! i)) + unat ?k * rates push_rate outs st ! i \<le> capacity"
    using n(3) order_trans [OF add_left_mono [OF mult_le_mono1 [OF k(2)]]] by simp
  have le: "unat (out_rd_idx s) \<le> unat (out_wr_idx s)" using q by (simp add: queue_ok_def)
  have "unat ?k * ?w \<le> unat m * ?w" by (rule mult_le_mono1 [OF k(1)])
  also have "\<dots> = length (outq s)" using dvd m(2) by simp
  finally have "unat (out_rd_idx s) + unat ?k * row_bytes (rates push_rate outs st) \<le> unat (out_wr_idx s)"
    using outq_length [OF ok] le unfolding w(1) by linarith
  moreover have "unat (out_wr_idx s) \<le> OPENCL_BUFFER_SIZE" using q by (simp add: queue_ok_def)
  ultimately obtain s' st' c' rows where r: "for_out [0..<unat ?k] (\<lambda>i. push_iter outs (length outs)) (s, st) = Done (s', st')"
    "holds S st' c'" "same_config st st'" "length rows = unat ?k" "\<forall>row \<in> set rows. map length row = rates push_rate outs st"
    "served s s' (concat (concat (concat rows)))"
    "length (concat (concat (concat rows))) = unat ?k * row_bytes (rates push_rate outs st)"
    "\<forall>i < length outs. c' (outs ! i) = c (outs ! i) @ column i rows" "\<forall>x. x \<notin> set outs \<longrightarrow> c' x = c x"
    and fit: "unat (out_rd_idx s) + unat ?k * row_bytes (rates push_rate outs st) \<le> unat (out_wr_idx s)"
    using push_iters_holds [OF h w(3,4) room len] by force
  let ?bs = "concat (concat (concat rows))"
  note f = served_facts [OF r(6) len]
  have b: "s' = s\<lparr>out_rd_idx := out_rd_idx s + of_nat (length ?bs)\<rparr>" "?bs = take (length ?bs) (drop (unat (out_rd_idx s)) (out_buf s))"
    using r(6) unfolding served_def by blast+
  have same: "same_state s s'" "inq s' = inq s" "out_wr_idx s' = out_wr_idx s"
    "in_rd_idx s' = in_rd_idx s" "in_wr_idx s' = in_wr_idx s" "in_buf s' = in_buf s" "out_buf s' = out_buf s"
    "devins s' = devins s" "devouts s' = devouts s"
    unfolding b(1) by (simp_all add: same_state_def inq_def)
  have "outq s = take (length ?bs) (outq s) @ drop (length ?bs) (outq s)" by simp
  also have "drop (length ?bs) (outq s) = outq s'" using f(1) unfolding outq_def same by (simp add: add.commute)
  also have "take (length ?bs) (outq s) = take (length ?bs) (drop (unat (out_rd_idx s)) (out_buf s))"
    using fit r(7) unfolding outq_def by (simp add: drop_take min_def)
  finally have outq: "outq s = ?bs @ outq s'" using b(2) by simp
  have "?w dvd length ?bs" using r(7) w(1) by simp
  then have "queue_ok ?w (unat (out_rd_idx s')) (unat (out_wr_idx s'))"
    using q f(1) fit r(7) unfolding same by (auto simp: queue_ok_def)
  then have ok': "opencl_ok s'" using ok same unfolding opencl_ok_def by (simp add: same_state_def)
  have "out_rd_idx s \<noteq> out_wr_idx s" using False outq_empty [OF ok] by simp
  then have "opencl_push_outputs outs (s, st) = Done (?k, s', st')"
    using m(1) n(1) r(1) w(2) by (simp add: opencl_push_outputs_def)
  moreover have "\<exists>v. inline_compute_niters [] 0 outs (length outs) st' = Done (v, 0) \<and>
      v \<in> (\<lambda>x. dst (hdr st' x)) ` set outs \<and> v \<noteq> NullEnd" if ne: "outq s' \<noteq> []"
  proof -
    have "unat ?k \<noteq> unat m" using outq ne r(7) dvd m(2) w(1) by (metis append_self_conv append_eq_conv_conj drop_all dvd_div_mult_self order_refl)
    then have kn: "unat ?k = unat n" by (simp add: unat_min min_def split: if_splits)
    have s': "opencl_streams S ins outs st' s'" by (rule streams_same [OF s r(3) same(1)])
    have c: "rates push_rate outs st' = rates push_rate outs st" by (rule rates_config [OF r(3)])
    obtain v' n' where n': "inline_compute_niters [] 0 outs (length outs) st' = Done (v', n')" "v' = NullEnd \<longleftrightarrow> n' \<noteq> 0"
      "\<forall>i < length outs. length (c' (outs ! i)) + unat n' * rates push_rate outs st' ! i \<le> capacity"
      "v' \<noteq> NullEnd \<longrightarrow> v' \<in> (\<lambda>x. dst (hdr st' x)) ` set outs"
      by (rule niters_outputs [OF r(2) s']) blast
    have "length (c (outs ! i)) + (unat n + unat n') * rates push_rate outs st ! i \<le> capacity" if i: "i < length outs" for i
    proof -
      have "length (column i rows) = unat n * rates push_rate outs st ! i"
        using length_column_rows [OF r(5), of i] i kn r(4) by simp
      then show ?thesis using n'(3) [rule_format, OF i] r(8) [rule_format, OF i] c by (simp add: add_mult_distrib)
    qed
    then have "unat n + unat n' \<le> unat n" by (intro n(4)) simp
    then have "n' = 0" by (simp add: unat_eq_zero)
    with n' show ?thesis by auto
  qed
  ultimately show ?thesis
    using that [of ?k s' st' c' rows] r(2,3,5,8,9) same(1,2) ok' outq by simp
qed

subsection \<open>A launch\<close>

text \<open>
  What the code relies on: the work items of a launch turn window after window of the input buffer into windows of
  the output buffer, each by the same function of the kernel's state and of its window.
\<close>

definition device_maps :: "'k device \<Rightarrow> ('k \<Rightarrow> byte list \<Rightarrow> byte list) \<Rightarrow> 'k \<Rightarrow> nat \<Rightarrow> nat \<Rightarrow> bool" where
  "device_maps dev f k ib ob \<longleftrightarrow> (\<forall>w. length w = ib \<longrightarrow> length (f k w) = ob) \<and>
     (\<forall>n di do. length di = OPENCL_BUFFER_SIZE \<longrightarrow> length do = OPENCL_BUFFER_SIZE \<longrightarrow>
        n * ib \<le> OPENCL_BUFFER_SIZE \<longrightarrow> n * ob \<le> OPENCL_BUFFER_SIZE \<longrightarrow>
        (\<exists>do'. dev k n di do = Done do' \<and> length do' = OPENCL_BUFFER_SIZE \<and>
           take (n * ob) do' = concat (map (\<lambda>g. f k (chunk ib di g)) [0..<n])))"

lemma chunks_concat: "n * w \<le> length bs \<Longrightarrow> concat (map (chunk w bs) [0..<n]) = take (n * w) bs"
proof (induction n)
  case (Suc n)
  then show ?case by (simp add: chunk_def add.commute [of w] take_add mult.commute)
qed simp

lemma chunk_take: "Suc g * w \<le> m \<Longrightarrow> chunk w (take m bs) g = chunk w bs g"
  by (simp add: chunk_def drop_take min_def mult.commute)

lemma mem_put_0:
  assumes "length w \<le> length b"
  shows "mem_put b 0 (length w) w = Some (w @ drop (length w) b)"
  using assms by (simp add: mem_put_def)

lemma unat_mult_le:
  fixes a b :: size_t
  assumes "unat a * unat b \<le> OPENCL_BUFFER_SIZE"
  shows "unat (a * b) = unat a * unat b"
  using assms by (intro unat_mult_small) (simp add: OPENCL_BUFFER_SIZE_def)

lemma launch_holds:
  assumes dev: "device_maps dev f (orig_state s) (unat (in_bytes_per_iter s)) (unat (out_bytes_per_iter s))"
    and ok: "opencl_ok s" and n: "0 < n" "unat n * unat (in_bytes_per_iter s) \<le> length (inq s)"
    and room: "unat (out_wr_idx s) + unat n * unat (out_bytes_per_iter s) \<le> OPENCL_BUFFER_SIZE"
  obtains s' ws where "opencl_launch dev n s = Done s'" "same_state s s'" "opencl_ok s'"
    "length ws = unat n" "\<forall>w \<in> set ws. length w = unat (in_bytes_per_iter s)"
    "inq s = concat ws @ inq s'" "outq s' = outq s @ concat (map (f (orig_state s)) ws)"
proof -
  let ?ib = "unat (in_bytes_per_iter s)" and ?ob = "unat (out_bytes_per_iter s)" and ?r = "unat (in_rd_idx s)"
  let ?e = "unat (in_wr_idx s)" and ?o = "unat (out_wr_idx s)" and ?k = "orig_state s"
  have len: "length (in_buf s) = OPENCL_BUFFER_SIZE" "length (out_buf s) = OPENCL_BUFFER_SIZE"
    "length (devins s) = OPENCL_BUFFER_SIZE" "length (devouts s) = OPENCL_BUFFER_SIZE"
    and qi: "queue_ok ?ib ?r ?e" and qo: "queue_ok ?ob (unat (out_rd_idx s)) ?o"
    using ok by (auto simp: opencl_ok_def)
  have i: "?r + unat n * ?ib \<le> ?e" "?e \<le> OPENCL_BUFFER_SIZE"
    using n(2) inq_length [OF ok] qi n(1) by (auto simp: queue_ok_def)
  have small: "unat n * ?ib \<le> OPENCL_BUFFER_SIZE" "unat n * ?ob \<le> OPENCL_BUFFER_SIZE" using i room by auto
  define w where "w = take (unat n * ?ib) (drop ?r (in_buf s))"
  have lw: "length w = unat n * ?ib" using i len by (simp add: w_def)
  have w: "mem_get (in_buf s) (in_rd_idx s) (unat (n * in_bytes_per_iter s)) = Some w"
    using i len unat_mult_le [OF small(1)] by (simp add: mem_get_def w_def)
  define di where "di = w @ drop (length w) (devins s)"
  have di: "mem_put (devins s) 0 (length w) w = Some di" "length di = OPENCL_BUFFER_SIZE"
    using mem_put_0 [of w "devins s"] small(1) lw len(3) by (simp_all add: di_def)
  obtain do' where d: "dev ?k (unat n) di (devouts s) = Done do'" "length do' = OPENCL_BUFFER_SIZE"
    "take (unat n * ?ob) do' = concat (map (\<lambda>g. f ?k (chunk ?ib di g)) [0..<unat n])"
    using dev di(2) len(4) small unfolding device_maps_def by blast
  define ws where "ws = map (chunk ?ib w) [0..<unat n]"
  have ws: "concat ws = w" unfolding ws_def using lw by (simp add: chunks_concat)
  have lws: "\<forall>v \<in> set ws. length v = ?ib"
  proof
    fix v assume "v \<in> set ws"
    then obtain g where g: "g < unat n" "v = chunk ?ib w g" by (auto simp: ws_def)
    have "Suc g * ?ib \<le> unat n * ?ib" using g(1) by (intro mult_le_mono1) simp
    then show "length v = ?ib" unfolding g(2) by (intro length_chunk) (simp add: lw mult.commute)
  qed
  have "chunk ?ib di g = chunk ?ib w g" if g: "g < unat n" for g
  proof -
    have "Suc g * ?ib \<le> length w" unfolding lw using g by (intro mult_le_mono1) simp
    then show ?thesis using chunk_take [of g ?ib "length w" di] by (simp add: di_def)
  qed
  then have "map (\<lambda>g. f ?k (chunk ?ib di g)) [0..<unat n] = map (f ?k) ws" by (simp add: ws_def)
  then have out: "take (unat n * ?ob) do' = concat (map (f ?k) ws)" unfolding d(3) by simp
  have ob: "mem_get do' 0 (unat (n * out_bytes_per_iter s)) = Some (concat (map (f ?k) ws))"
    using d(2) small(2) out unat_mult_le [OF small(2)] by (simp add: mem_get_def)
  have lo: "length (concat (map (f ?k) ws)) = unat n * ?ob"
    using arg_cong [OF out, of length] d(2) small(2) by simp
  obtain b where b: "mem_put (out_buf s) (out_wr_idx s) (length (concat (map (f ?k) ws))) (concat (map (f ?k) ws)) = Some b"
    "length b = length (out_buf s)" "take (?o + unat n * ?ob) b = take ?o (out_buf s) @ concat (map (f ?k) ws)"
    using mem_put_take [of "out_wr_idx s" "concat (map (f ?k) ws)" "out_buf s"] room len(2) unfolding lo by metis
  define s1 where "s1 = s\<lparr>o_niter := n, devins := di, devouts := do', out_buf := b,
    in_rd_idx := in_rd_idx s + n * in_bytes_per_iter s, out_wr_idx := out_wr_idx s + n * out_bytes_per_iter s\<rparr>"
  define s2 where "s2 = (if in_rd_idx s1 = in_wr_idx s1 then s1\<lparr>in_rd_idx := 0, in_wr_idx := 0\<rparr> else s1)"
  have u: "unat (in_rd_idx s1) = ?r + unat n * ?ib" "unat (out_wr_idx s1) = ?o + unat n * ?ob"
    using i room unat_mult_le [OF small(1)] unat_mult_le [OF small(2)]
    unfolding s1_def by (simp_all add: unat_add_small OPENCL_BUFFER_SIZE_def)
  have same1: "in_wr_idx s1 = in_wr_idx s" "in_buf s1 = in_buf s" "out_buf s1 = b" "out_rd_idx s1 = out_rd_idx s"
    "devins s1 = di" "devouts s1 = do'" "same_state s s1" unfolding s1_def by (simp_all add: same_state_def)
  have same2: "out_wr_idx s2 = out_wr_idx s1" "in_buf s2 = in_buf s" "out_buf s2 = b" "out_rd_idx s2 = out_rd_idx s"
    "devins s2 = di" "devouts s2 = do'" "same_state s s2"
    using same1 unfolding s2_def by (simp_all add: same_state_def)
  have inq2: "inq s2 = drop (?r + unat n * ?ib) (take ?e (in_buf s))"
    using u(1) same1 arg_cong [of "in_rd_idx s1" "in_wr_idx s1" unat] by (auto simp: s2_def inq_def)
  have "inq s = take (unat n * ?ib) (inq s) @ drop (unat n * ?ib) (inq s)" by simp
  also have "take (unat n * ?ib) (inq s) = w" using i(1) by (simp add: inq_def w_def drop_take min_def)
  also have "drop (unat n * ?ib) (inq s) = inq s2" unfolding inq2 by (simp add: inq_def add.commute)
  finally have inq: "inq s = concat ws @ inq s2" unfolding ws .
  have le: "unat (out_rd_idx s) \<le> ?o" using qo by (simp add: queue_ok_def)
  have outq: "outq s2 = outq s @ concat (map (f ?k) ws)"
    using b(3) u(2) le room len(2) unfolding outq_def same2 by simp
  have "queue_ok ?ob (unat (out_rd_idx s)) (?o + unat n * ?ob)" using qo room by (auto simp: queue_ok_def)
  moreover have "queue_ok ?ib (unat (in_rd_idx s2)) (unat (in_wr_idx s2))"
    using qi u(1) i same1 unfolding s2_def by (auto simp: queue_ok_def)
  moreover have "in_rd_idx s2 = in_wr_idx s2 \<longrightarrow> in_rd_idx s2 = 0" unfolding s2_def by simp
  ultimately have "opencl_ok s2"
    using len b(2) di(2) d(2) u(2) same2 unfolding opencl_ok_def by (simp add: same_state_def)
  moreover have "opencl_launch dev n s = Done s2"
    using w di(1) d(1) ob b(1) unfolding opencl_launch_def s2_def s1_def by (simp add: Let_def)
  ultimately show ?thesis using that [of s2 ws] same2(7) inq outq lws by (simp add: ws_def)
qed


subsection \<open>A round and the loop\<close>

definition opencl_reset :: "'k opencl_state_t \<Rightarrow> 'k opencl_state_t" where
  "opencl_reset s = (if out_rd_idx s = out_wr_idx s then s\<lparr>out_rd_idx := 0, out_wr_idx := 0\<rparr> else s)"

lemma reset_simps:
  assumes "opencl_ok s"
  shows "opencl_ok (opencl_reset s)" "same_state s (opencl_reset s)" "inq (opencl_reset s) = inq s"
    "outq (opencl_reset s) = outq s"
  using assms by (auto simp: opencl_reset_def opencl_ok_def same_state_def inq_def outq_def queue_ok_def)

lemma same_state_trans: "same_state a b \<Longrightarrow> same_state b c \<Longrightarrow> same_state a c"
  by (simp add: same_state_def)

text \<open>
  The history of a run: the rows taken from the inputs, the windows that were worked on and the rows given to the
  outputs.
\<close>

definition opencl_run :: "('k \<Rightarrow> byte list \<Rightarrow> byte list) \<Rightarrow> ptr list \<Rightarrow> ptr list \<Rightarrow> store \<times> 'k opencl_state_t \<times> (ptr \<Rightarrow> byte list list) \<Rightarrow>
    store \<times> 'k opencl_state_t \<times> (ptr \<Rightarrow> byte list list) \<Rightarrow> byte list list list list \<Rightarrow> byte list list \<Rightarrow> byte list list list list \<Rightarrow> bool" where
  "opencl_run f ins outs = (\<lambda>(st, s, c) (st', s', c') rows ws prows.
     same_config st st' \<and> same_state s s' \<and>
     (\<forall>row \<in> set rows. map length row = rates pop_rate ins st) \<and> (\<forall>row \<in> set prows. map length row = rates push_rate outs st) \<and>
     (\<forall>w \<in> set ws. length w = unat (in_bytes_per_iter s)) \<and>
     length (concat (concat (concat rows))) = length rows * unat (in_bytes_per_iter s) \<and>
     (\<forall>i < length ins. c (ins ! i) = column i rows @ c' (ins ! i)) \<and>
     (\<forall>i < length outs. c' (outs ! i) = c (outs ! i) @ column i prows) \<and>
     (\<forall>x. x \<notin> set ins \<union> set outs \<longrightarrow> c' x = c x) \<and>
     inq s @ concat (concat (concat rows)) = concat ws @ inq s' \<and>
     outq s @ concat (map (f (orig_state s)) ws) = concat (concat (concat prows)) @ outq s')"

lemma column_append: "column i (xs @ ys) = column i xs @ column i ys"
  by (simp add: column_def)

lemma opencl_run_trans:
  assumes 1: "opencl_run f ins outs (st, s, c) (st1, s1, c1) rows ws prows"
    and 2: "opencl_run f ins outs (st1, s1, c1) (st2, s2, c2) rows' ws' prows'"
  shows "opencl_run f ins outs (st, s, c) (st2, s2, c2) (rows @ rows') (ws @ ws') (prows @ prows')"
proof -
  have a: "same_config st st1" "same_state s s1" and b: "same_config st1 st2" "same_state s1 s2"
    using 1 2 by (auto simp: opencl_run_def)
  have k: "orig_state s1 = orig_state s" "in_bytes_per_iter s1 = in_bytes_per_iter s" using a by (simp_all add: same_state_def)
  have i: "inq s @ concat (concat (concat rows)) = concat ws @ inq s1" "inq s1 @ concat (concat (concat rows')) = concat ws' @ inq s2"
    "outq s @ concat (map (f (orig_state s)) ws) = concat (concat (concat prows)) @ outq s1"
    "outq s1 @ concat (map (f (orig_state s)) ws') = concat (concat (concat prows')) @ outq s2"
    using 1 2 k by (auto simp: opencl_run_def)
  have "inq s @ concat (concat (concat (rows @ rows'))) = (inq s @ concat (concat (concat rows))) @ concat (concat (concat rows'))"
    by simp
  also have "\<dots> = concat (ws @ ws') @ inq s2" unfolding i(1) using i(2) by simp
  finally have "inq s @ concat (concat (concat (rows @ rows'))) = concat (ws @ ws') @ inq s2" .
  moreover have "outq s @ concat (map (f (orig_state s)) (ws @ ws')) =
      (outq s @ concat (map (f (orig_state s)) ws)) @ concat (map (f (orig_state s)) ws')" by simp
  then have "outq s @ concat (map (f (orig_state s)) (ws @ ws')) = concat (concat (concat (prows @ prows'))) @ outq s2"
    unfolding i(3) using i(4) by simp
  moreover have "\<forall>i < length ins. c (ins ! i) = column i (rows @ rows') @ c2 (ins ! i)"
    "\<forall>i < length outs. c2 (outs ! i) = c (outs ! i) @ column i (prows @ prows')"
    using 1 2 by (simp_all add: opencl_run_def column_append)
  moreover have "\<forall>w \<in> set (ws @ ws'). length w = unat (in_bytes_per_iter s)"
    "\<forall>row \<in> set (rows @ rows'). map length row = rates pop_rate ins st"
    "\<forall>row \<in> set (prows @ prows'). map length row = rates push_rate outs st"
    "\<forall>x. x \<notin> set ins \<union> set outs \<longrightarrow> c2 x = c x"
    "length (concat (concat (concat (rows @ rows')))) = length (rows @ rows') * unat (in_bytes_per_iter s)"
    using 1 2 k rates_config [OF a(1)] by (auto simp: opencl_run_def add_mult_distrib)
  ultimately show ?thesis
    using same_config_trans [OF a(1) b(1)] same_state_trans [OF a(2) b(2)] unfolding opencl_run_def by simp
qed

text \<open>What the work function may return: an output that is full, or, with nothing left to do, an input that is short.\<close>

definition opencl_ends :: "ptr list \<Rightarrow> ptr list \<Rightarrow> store \<Rightarrow> 'k opencl_state_t \<Rightarrow> endp \<Rightarrow> bool" where
  "opencl_ends ins outs st s v \<longleftrightarrow> v \<noteq> NullEnd \<and>
     (if outq s = [] then inq s = [] \<and> v \<in> (\<lambda>x. src (hdr st x)) ` set ins
      else v \<in> (\<lambda>x. dst (hdr st x)) ` set outs)"

lemma inputs_total:
  assumes "holds S st c" and "opencl_streams S ins outs st s"
  obtains v n where "inline_compute_niters ins (length ins) outs (length outs) st = Done (v, n)"
proof -
  have "streams_ok 4 STREAM_BUFFER_SIZE ins (length ins) outs (length outs) st"
    using assms(2) by (intro holds_streams_ok [OF assms(1)]) (auto simp: opencl_streams_def)
  note ok = this
  have a: "set ins \<subseteq> S" "set outs \<subseteq> S" "\<forall>i < length outs. dst (hdr st (outs ! i)) \<noteq> NullEnd"
    "\<forall>i < length ins. src (hdr st (ins ! i)) \<noteq> NullEnd" using assms(2) by (auto simp: opencl_streams_def)
  show ?thesis by (rule holds_niters [OF assms(1) a(1,2) ok a(3,4)]) (rule that)
qed

lemma round_holds:
  assumes h: "holds S st c" and s: "opencl_streams S ins outs st s" and ok: "opencl_ok s"
    and dev: "device_maps dev f (orig_state s) (unat (in_bytes_per_iter s)) (unat (out_bytes_per_iter s))"
  obtains v r' s' st' c' rows ws prows where "opencl_round dev ins outs (r, s, st) = Done (v, r', s', st')"
    "holds S st' c'" "opencl_ok s'" "opencl_run f ins outs (st, s, c) (st', s', c') rows ws prows"
    "niter r' = niter r + of_nat (length ws)"
    "case v of None \<Rightarrow> ws \<noteq> [] | Some v \<Rightarrow> opencl_ends ins outs st' s' v \<and> ws = []"
proof -
  obtain n1 s1 st1 c1 rows where 1: "opencl_pop_inputs ins (s, st) = Done (n1, s1, st1)"
    "holds S st1 c1" "same_config st st1" "same_state s s1" "opencl_ok s1" "outq s1 = outq s"
    "\<forall>row \<in> set rows. map length row = rates pop_rate ins st"
    "\<forall>i < length ins. c (ins ! i) = column i rows @ c1 (ins ! i)" "\<forall>x. x \<notin> set ins \<longrightarrow> c1 x = c x"
    "inq s1 = inq s @ concat (concat (concat rows))"
    "length (concat (concat (concat rows))) = length rows * unat (in_bytes_per_iter s)"
    "inq s1 = [] \<Longrightarrow> \<exists>i < length ins. length (c1 (ins ! i)) < rates pop_rate ins st ! i"
    by (rule pop_inputs_holds [OF h s ok]) blast
  have ss1: "opencl_streams S ins outs st1 s1" by (rule streams_same [OF s 1(3,4)])
  obtain n2 s2 st2 c2 prows where 2: "opencl_push_outputs outs (s1, st1) = Done (n2, s2, st2)"
    "holds S st2 c2" "same_config st1 st2" "same_state s1 s2" "opencl_ok s2" "inq s2 = inq s1"
    "\<forall>row \<in> set prows. map length row = rates push_rate outs st1"
    "\<forall>i < length outs. c2 (outs ! i) = c1 (outs ! i) @ column i prows" "\<forall>x. x \<notin> set outs \<longrightarrow> c2 x = c1 x"
    "outq s1 = concat (concat (concat prows)) @ outq s2"
    "outq s2 \<noteq> [] \<Longrightarrow> \<exists>v. inline_compute_niters [] 0 outs (length outs) st2 = Done (v, 0) \<and>
       v \<in> (\<lambda>x. dst (hdr st2 x)) ` set outs \<and> v \<noteq> NullEnd"
    by (rule push_outputs_holds [OF 1(2) ss1 1(5)]) blast
  define s3 where "s3 = opencl_reset s2"
  note 3 = reset_simps [OF 2(5), folded s3_def]
  have same: "same_state s s3" by (rule same_state_trans [OF 1(4) same_state_trans [OF 2(4) 3(2)]])
  have cfg: "same_config st st2" by (rule same_config_trans [OF 1(3) 2(3)])
  have ss3: "opencl_streams S ins outs st2 s3" by (rule streams_same [OF s cfg same])
  have k: "orig_state s3 = orig_state s" "in_bytes_per_iter s3 = in_bytes_per_iter s"
    "out_bytes_per_iter s3 = out_bytes_per_iter s" "in_bytes_per_iter s1 = in_bytes_per_iter s"
    using same 1(4) by (simp_all add: same_state_def)
  have q: "queue_ok (unat (in_bytes_per_iter s3)) (unat (in_rd_idx s1)) (unat (in_wr_idx s1))"
    "queue_ok (unat (out_bytes_per_iter s3)) (unat (out_rd_idx s3)) (unat (out_wr_idx s3))"
    using 1(5) 3(1) k by (auto simp: opencl_ok_def)
  have pos: "0 < unat (in_bytes_per_iter s1)" "0 < unat (out_bytes_per_iter s3)" using q k by (auto simp: queue_ok_def)
  obtain m1 where m1: "div_out (in_wr_idx s1 - in_rd_idx s1) (in_bytes_per_iter s1) = Done m1"
    "unat m1 = length (inq s3) div unat (in_bytes_per_iter s3)"
    using div_out_nat [OF pos(1), of "in_wr_idx s1 - in_rd_idx s1"] q(1) inq_length [OF 1(5)] 2(6) 3(3) k
    by (auto simp: unat_sub_le queue_ok_def)
  obtain m2 where m2: "div_out (of_nat OPENCL_BUFFER_SIZE - out_wr_idx s3) (out_bytes_per_iter s3) = Done m2"
    "unat m2 = (OPENCL_BUFFER_SIZE - unat (out_wr_idx s3)) div unat (out_bytes_per_iter s3)"
    using div_out_nat [OF pos(2), of "of_nat OPENCL_BUFFER_SIZE - out_wr_idx s3"] q(2)
    by (auto simp: unat_sub_le unat_buffer_size queue_ok_def)
  let ?n = "min m1 m2"
  have dj: "i < length outs \<Longrightarrow> outs ! i \<notin> set ins" "i < length ins \<Longrightarrow> ins ! i \<notin> set outs" for i
    using s by (auto simp: opencl_streams_def dest: nth_mem)
  have rates: "rates push_rate outs st1 = rates push_rate outs st" by (rule rates_config [OF 1(3)])
  have run: "opencl_run f ins outs (st, s, c) (st2, s3, c2) rows [] prows"
    using cfg same 1(6-11) 2(6-10) 3(3,4) dj rates by (auto simp: opencl_run_def)
  have rnd: "opencl_round dev ins outs (r, s, st) =
    (if ?n > 0 then bind_out (opencl_launch dev ?n s3) (\<lambda>s. Done (None, r\<lparr>niter := niter r + ?n\<rparr>, s, st2))
     else bind_out (opencl_blocked m1 ins outs (s3, st2)) (\<lambda>v. Done (Some v, r, s3, st2)))"
    using 1(1) 2(1) m1(1) m2(1) unfolding opencl_round_def s3_def opencl_reset_def by (simp add: Let_def)
  show ?thesis
  proof (cases "?n > 0")
    case True
    have d: "device_maps dev f (orig_state s3) (unat (in_bytes_per_iter s3)) (unat (out_bytes_per_iter s3))"
      using dev k by simp
    have a: "unat ?n * unat (in_bytes_per_iter s3) \<le> length (inq s3)"
    proof -
      have "unat ?n \<le> length (inq s3) div unat (in_bytes_per_iter s3)" by (simp add: unat_min m1(2))
      from mult_le_mono1 [OF this, of "unat (in_bytes_per_iter s3)"] show ?thesis
        by (rule order_trans) simp
    qed
    have b: "unat (out_wr_idx s3) + unat ?n * unat (out_bytes_per_iter s3) \<le> OPENCL_BUFFER_SIZE"
      by (rule queue_room [OF q(2)]) (simp add: unat_min m2(2))
    obtain s4 ws where 4: "opencl_launch dev ?n s3 = Done s4" "same_state s3 s4" "opencl_ok s4"
      "length ws = unat ?n" "\<forall>w \<in> set ws. length w = unat (in_bytes_per_iter s3)"
      "inq s3 = concat ws @ inq s4" "outq s4 = outq s3 @ concat (map (f (orig_state s3)) ws)"
      by (rule launch_holds [OF d 3(1) True a b]) blast
    have "opencl_run f ins outs (st2, s3, c2) (st2, s4, c2) [] ws []"
      using 4 by (simp add: opencl_run_def same_config_refl column_def)
    from opencl_run_trans [OF run this] have "opencl_run f ins outs (st, s, c) (st2, s4, c2) rows ws prows" by simp
    moreover have "ws \<noteq> []" using True 4(4) by (auto simp: word_less_nat_alt)
    moreover have "opencl_round dev ins outs (r, s, st) = Done (None, r\<lparr>niter := niter r + ?n\<rparr>, s4, st2)"
      using rnd True 4(1) by simp
    ultimately show ?thesis using that [of None "r\<lparr>niter := niter r + ?n\<rparr>" s4 st2 c2 rows ws prows] 2(2) 4(3,4) by simp
  next
    case False
    obtain u m where all: "inline_compute_niters ins (length ins) outs (length outs) st2 = Done (u, m)"
      by (rule inputs_total [OF 2(2) ss3])
    have n: "o_nins s3 = length ins" "o_nouts s3 = length outs" using ss3 by (simp_all add: opencl_streams_def)
    have emp: "outq s3 = [] \<longleftrightarrow> out_rd_idx s3 = out_wr_idx s3" by (rule outq_empty [OF 3(1)])
    obtain v where v: "opencl_blocked m1 ins outs (s3, st2) = Done v" "opencl_ends ins outs st2 s3 v"
    proof (cases "outq s3 = []")
      case True
      then have "out_wr_idx s3 = 0" using emp by (auto simp: s3_def opencl_reset_def split: if_splits)
      then have "0 < unat m2" using m2(2) q(2) by (simp add: queue_ok_def div_greater_zero_iff)
      moreover have "unat ?n = 0" using False by (simp add: word_less_nat_alt)
      ultimately have "unat m1 = 0" by (simp add: unat_min min_def split: if_splits)
      moreover have "unat (in_bytes_per_iter s3) dvd length (inq s3)"
        using inq_length [OF 1(5)] q(1) 2(6) 3(3) by (simp add: queue_ok_def)
      ultimately have e: "inq s3 = []" using m1(2) pos(1) k by (auto elim!: dvdE)
      then have "inq s1 = []" using 2(6) 3(3) by simp
      from 1(12) [OF this] obtain i where i: "i < length ins" "length (c1 (ins ! i)) < rates pop_rate ins st ! i" by blast
      obtain v n' where v: "inline_compute_niters ins (length ins) [] 0 st2 = Done (v, n')" "v = NullEnd \<longleftrightarrow> n' \<noteq> 0"
        "\<forall>i < length ins. unat n' * rates pop_rate ins st2 ! i \<le> length (c2 (ins ! i))"
        "v \<noteq> NullEnd \<longrightarrow> v \<in> (\<lambda>x. src (hdr st2 x)) ` set ins"
        by (rule niters_inputs [OF 2(2) ss3]) blast
      have "c2 (ins ! i) = c1 (ins ! i)" using 2(9) dj(2) [OF i(1)] by simp
      then have "unat n' * rates pop_rate ins st ! i < rates pop_rate ins st ! i"
        using v(3) [rule_format, OF i(1)] i(2) unfolding rates_config(1) [OF cfg] by (metis order_le_less_trans)
      then have "unat n' = 0" by (cases "unat n'") simp_all
      then have "v \<noteq> NullEnd" using v(2) unat_eq_zero [of n'] by auto
      then show ?thesis using that [of v] v True e emp n all \<open>unat m1 = 0\<close>
        by (simp add: opencl_blocked_def opencl_ends_def)
    next
      case ne: False
      then have "outq s2 \<noteq> []" using 3(4) by simp
      from 2(11) [OF this] obtain v where "inline_compute_niters [] 0 outs (length outs) st2 = Done (v, 0)"
        "v \<in> (\<lambda>x. dst (hdr st2 x)) ` set outs" "v \<noteq> NullEnd" by blast
      then show ?thesis using that [of v] ne emp n by (simp add: opencl_blocked_def opencl_ends_def)
    qed
    have "opencl_round dev ins outs (r, s, st) = Done (Some v, r, s3, st2)" unfolding rnd if_not_P [OF False] v(1) by simp
    with that [of "Some v" r s3 st2 c2 rows "[]" prows] run 2(2) 3(1) v(2) show ?thesis by simp
  qed
qed


lemma run_decreases:
  assumes run: "opencl_run f ins outs (st, s, c) (st', s', c') rows ws prows" and "ws \<noteq> []"
    and s: "opencl_streams S ins outs st s" and pos: "0 < unat (in_bytes_per_iter s)"
  shows "unat (in_bytes_per_iter s) * length (c' (ins ! 0)) + rates pop_rate ins st ! 0 * length (inq s')
       < unat (in_bytes_per_iter s) * length (c (ins ! 0)) + rates pop_rate ins st ! 0 * length (inq s)"
proof -
  let ?w = "unat (in_bytes_per_iter s)" and ?r = "rates pop_rate ins st ! 0"
  have i: "0 < length ins" using s by (simp add: opencl_streams_def)
  have r: "0 < ?r" using int_rates(1) [OF s i] by simp
  have rows: "\<forall>row \<in> set rows. map length row = rates pop_rate ins st" "c (ins ! 0) = column 0 rows @ c' (ins ! 0)"
    "\<forall>w \<in> set ws. length w = ?w" "length (concat (concat (concat rows))) = length rows * ?w"
    "inq s @ concat (concat (concat rows)) = concat ws @ inq s'"
    using run i by (auto simp: opencl_run_def)
  have lc: "length (c (ins ! 0)) = length rows * ?r + length (c' (ins ! 0))"
    using rows(2) length_column_rows [OF rows(1), of 0] i by simp
  have "length (concat ws) = length ws * ?w" using rows(3) by (induction ws) simp_all
  then have li: "length (inq s) + length rows * ?w = length ws * ?w + length (inq s')"
    using arg_cong [OF rows(5), of length] rows(4) by simp
  have "?w * length (c (ins ! 0)) + ?r * length (inq s) =
      ?w * length (c' (ins ! 0)) + ?r * (length (inq s) + length rows * ?w)"
    unfolding lc by (simp add: algebra_simps)
  also have "\<dots> = ?w * length (c' (ins ! 0)) + ?r * length (inq s') + ?r * (length ws * ?w)"
    unfolding li by (simp add: algebra_simps)
  finally show ?thesis using r pos \<open>ws \<noteq> []\<close> by simp
qed

lemma opencl_workfn_run:
  assumes "holds S st c" and "opencl_streams S ins outs st s" and "opencl_ok s"
    and "device_maps dev f (orig_state s) (unat (in_bytes_per_iter s)) (unat (out_bytes_per_iter s))"
  shows "\<exists>v r' s' st' c' rows ws prows. opencl_workfn dev ins outs (r, s, st) = Some (Done (v, r', s', st')) \<and>
    holds S st' c' \<and> opencl_ok s' \<and> opencl_run f ins outs (st, s, c) (st', s', c') rows ws prows \<and>
    niter r' = niter r + of_nat (length ws) \<and> opencl_ends ins outs st' s' v"
  using assms
proof (induction "unat (in_bytes_per_iter s) * length (c (ins ! 0)) + rates pop_rate ins st ! 0 * length (inq s)"
    arbitrary: st c s r rule: less_induct)
  case less
  obtain v r1 s1 st1 c1 rows ws prows where 1: "opencl_round dev ins outs (r, s, st) = Done (v, r1, s1, st1)"
    "holds S st1 c1" "opencl_ok s1" "opencl_run f ins outs (st, s, c) (st1, s1, c1) rows ws prows"
    "niter r1 = niter r + of_nat (length ws)"
    "case v of None \<Rightarrow> ws \<noteq> [] | Some v \<Rightarrow> opencl_ends ins outs st1 s1 v \<and> ws = []"
    by (rule round_holds [OF less.prems]) blast
  show ?case
  proof (cases v)
    case (Some u)
    then have "opencl_workfn dev ins outs (r, s, st) = Some (Done (u, r1, s1, st1))"
      using 1(1) by (subst opencl_workfn.simps) simp
    with 1 Some show ?thesis by (intro exI [of _ u] exI [of _ r1] exI [of _ s1] exI [of _ st1] exI [of _ c1]
        exI [of _ rows] exI [of _ ws] exI [of _ prows]) simp
  next
    case None
    then have ws: "ws \<noteq> []" using 1(6) by simp
    have cfg: "same_config st st1" "same_state s s1" using 1(4) by (simp_all add: opencl_run_def)
    have k: "in_bytes_per_iter s1 = in_bytes_per_iter s" "out_bytes_per_iter s1 = out_bytes_per_iter s" "orig_state s1 = orig_state s"
      using cfg(2) by (simp_all add: same_state_def)
    have pos: "0 < unat (in_bytes_per_iter s)" using less.prems(3) by (simp add: opencl_ok_def queue_ok_def)
    have smaller: "unat (in_bytes_per_iter s1) * length (c1 (ins ! 0)) + rates pop_rate ins st1 ! 0 * length (inq s1)
       < unat (in_bytes_per_iter s) * length (c (ins ! 0)) + rates pop_rate ins st ! 0 * length (inq s)"
      using run_decreases [OF 1(4) ws less.prems(2) pos] k rates_config(1) [OF cfg(1)] by simp
    have dev: "device_maps dev f (orig_state s1) (unat (in_bytes_per_iter s1)) (unat (out_bytes_per_iter s1))"
      using less.prems(4) k by simp
    from less.hyps [OF smaller 1(2) streams_same [OF less.prems(2) cfg] 1(3) dev, of r1]
    obtain u r2 s2 st2 c2 rows' ws' prows' where 2: "opencl_workfn dev ins outs (r1, s1, st1) = Some (Done (u, r2, s2, st2))"
      "holds S st2 c2" "opencl_ok s2" "opencl_run f ins outs (st1, s1, c1) (st2, s2, c2) rows' ws' prows'"
      "niter r2 = niter r1 + of_nat (length ws')" "opencl_ends ins outs st2 s2 u" by blast
    have "opencl_workfn dev ins outs (r, s, st) = Some (Done (u, r2, s2, st2))"
      using 1(1) 2(1) None by (subst opencl_workfn.simps) simp
    then show ?thesis using 2(2,3,6) opencl_run_trans [OF 1(4) 2(4)] 1(5) 2(5)
      by (intro exI [of _ u] exI [of _ r2] exI [of _ s2] exI [of _ st2] exI [of _ c2]
        exI [of _ "rows @ rows'"] exI [of _ "ws @ ws'"] exI [of _ "prows @ prows'"]) (simp add: add.assoc)
  qed
qed

end
