(* ===== verification/OpenCL_Code.thy ===== *)
theory OpenCL_Code
  imports OpenCL_Host Lowering_Props
begin

section \<open>The code of a kernel for the device\<close>

text \<open>
  What \<open>SKIROpenCLSched::runCodeGen\<close> makes of a work function (\<open>lib/SKIR/SKIROpenCLSched.cpp\<close>): every work item
  has an offset into the buffers for each stream, and pushes and pops become accesses to the buffers.  Work functions
  are lists of instructions as in \<open>Lowering\<close>; the change of the address space of the state, the printing of the code
  by the C back end and its compilation are left out.
\<close>

subsection \<open>Generated code\<close>

text \<open>
  \<open>DOff\<close> loads the offset of a stream (of an output if the flag is set), \<open>DBump\<close> stores it increased by 4.
  \<open>DElem\<close> and \<open>DTo\<close> load and store the element in the memory of the work item, \<open>DIn\<close> and \<open>DOut\<close> in the buffers.
  Elements are taken to be integers of 32 bits.
\<close>

datatype dinst = DOff bool nat | DElem opv | DOut | DIn | DTo opv | DBump bool nat | DRet opv | DOther winst

fun dev_inst :: "nat \<Rightarrow> nat \<Rightarrow> winst \<Rightarrow> (endp, dinst list) outcome" where
  "dev_inst n m (WIntr SPush r a) =
     (case a ! 0 of
        Con i \<Rightarrow> assert_out (unat i < m) (Done [DOff True (unat i), DElem (a ! 1), DOut, DBump True (unat i)])
      | _ \<Rightarrow> Fault)"
| "dev_inst n m (WIntr SPop r a) =
     (case a ! 0 of
        Con i \<Rightarrow> assert_out (unat i < n) (Done [DOff False (unat i), DIn, DTo (a ! 1), DBump False (unat i)])
      | _ \<Rightarrow> Fault)"
| "dev_inst n m (WRet v) = Done [DRet v]"
| "dev_inst n m i = Done [DOther i]"

fun dev_code :: "nat \<Rightarrow> nat \<Rightarrow> winst list \<Rightarrow> (endp, dinst list) outcome" where
  "dev_code n m [] = Done []"
| "dev_code n m (i # is) = bind_out (dev_inst n m i) (\<lambda>ds. bind_out (dev_code n m is) (\<lambda>es. Done (ds @ es)))"

text \<open>
  \<open>inner_offset\<close> is the offset of stream \<open>i\<close> inside the window of a work item, a sum of rates and not of bytes.  The loop
  over the outputs adds up the push rates of the \<^emph>\<open>inputs\<close>.
\<close>

definition inner_offset :: "(skir_stream_t \<Rightarrow> int) \<Rightarrow> store \<Rightarrow> ptr list \<Rightarrow> nat \<Rightarrow> (endp, uint32) outcome" where
  "inner_offset r st ss i = assert_out (i \<le> length ss) (Done (sum_list (map (\<lambda>s. of_int (r (hdr st s))) (take i ss))))"

fun inner_offsets :: "(skir_stream_t \<Rightarrow> int) \<Rightarrow> store \<Rightarrow> ptr list \<Rightarrow> nat list \<Rightarrow> (endp, uint32 list) outcome" where
  "inner_offsets r st ss [] = Done []"
| "inner_offsets r st ss (i # is) =
     bind_out (inner_offset r st ss i) (\<lambda>x. bind_out (inner_offsets r st ss is) (\<lambda>xs. Done (x # xs)))"

record cl_kernel =
  cl_code :: "dinst list"
  cl_in_bytes :: uint32
  cl_out_bytes :: uint32
  cl_in_inner :: "uint32 list"
  cl_out_inner :: "uint32 list"

definition opencl_codegen :: "ptr list \<Rightarrow> ptr list \<Rightarrow> 'k \<Rightarrow> store \<Rightarrow> winst list \<Rightarrow>
    (endp, cl_kernel \<times> 'k opencl_state_t) outcome" where
  "opencl_codegen iins iouts k st work =
     (let s = new_opencl_state_t iins iouts k st in
      bind_out (inner_offsets pop_rate st iins [0..<length iins]) (\<lambda>is.
      bind_out (inner_offsets push_rate st iins [0..<length iouts]) (\<lambda>os.
      bind_out (dev_code (length iins) (length iouts) work) (\<lambda>code.
      Done (\<lparr>cl_code = code, cl_in_bytes = ucast (in_bytes_per_iter s), cl_out_bytes = ucast (out_bytes_per_iter s),
             cl_in_inner = is, cl_out_inner = os\<rparr>, s)))))"

subsection \<open>Work items\<close>

text \<open>
  The memory of a work item: elements by the operand that points to them, and known integers.  \<open>oth\<close> is the meaning
  of instructions that are no stream operations; they work on this memory only, so kernels that write to their
  state, which the work items share, are not covered.
\<close>

type_synonym local = "(opv \<Rightarrow> byte list) \<times> (opv \<Rightarrow> uint32)"

record item =
  it_code :: "dinst list"
  it_off :: uint32
  it_elem :: "byte list"
  it_idx :: "bool \<Rightarrow> nat \<Rightarrow> uint32"
  it_local :: local

definition start_item :: "cl_kernel \<Rightarrow> local \<Rightarrow> nat \<Rightarrow> item" where
  "start_item K k g =
     \<lparr>it_code = cl_code K, it_off = 0, it_elem = [],
      it_idx = (\<lambda>out i. if out then cl_out_bytes K * of_nat g + cl_out_inner K ! i
                               else cl_in_bytes K * of_nat g + cl_in_inner K ! i),
      it_local = k\<rparr>"

definition ret_value :: "local \<Rightarrow> opv \<Rightarrow> uint32" where
  "ret_value l v = (case v of Con i \<Rightarrow> i | _ \<Rightarrow> snd l v)"

text \<open>One instruction of an item; the items share the output buffer and the place of the return value.\<close>

definition item_step :: "(winst \<Rightarrow> local \<Rightarrow> local) \<Rightarrow> byte list \<Rightarrow> item \<times> byte list \<times> uint32 \<Rightarrow>
    (endp, item \<times> byte list \<times> uint32) outcome" where
  "item_step oth di = (\<lambda>(it, outs, ret).
     case it_code it of
       [] \<Rightarrow> Done (it, outs, ret)
     | d # ds \<Rightarrow>
     (let it = it\<lparr>it_code := ds\<rparr>; l = it_local it in
      case d of
        DOff b i \<Rightarrow> Done (it\<lparr>it_off := it_idx it b i\<rparr>, outs, ret)
      | DElem p \<Rightarrow> assert_out (4 \<le> length (fst l p)) (Done (it\<lparr>it_elem := take 4 (fst l p)\<rparr>, outs, ret))
      | DOut \<Rightarrow> (case mem_put outs (ucast (it_off it)) 4 (it_elem it) of None \<Rightarrow> Fault | Some m \<Rightarrow> Done (it, m, ret))
      | DIn \<Rightarrow> (case mem_get di (ucast (it_off it)) 4 of None \<Rightarrow> Fault | Some e \<Rightarrow> Done (it\<lparr>it_elem := e\<rparr>, outs, ret))
      | DTo p \<Rightarrow> Done (it\<lparr>it_local := ((fst l)(p := it_elem it), snd l)\<rparr>, outs, ret)
      | DBump b i \<Rightarrow> Done (it\<lparr>it_idx := (it_idx it)(b := (it_idx it b)(i := it_off it + 4))\<rparr>, outs, ret)
      | DRet v \<Rightarrow> Done (it\<lparr>it_code := []\<rparr>, outs, ret_value l v)
      | DOther w \<Rightarrow> Done (it\<lparr>it_local := oth w l\<rparr>, outs, ret)))"

text \<open>
  A launch of \<open>n\<close> items runs their instructions in some order, which the list \<open>order n\<close> of item numbers says; the
  launch is complete when every item is.
\<close>

definition turn :: "(winst \<Rightarrow> local \<Rightarrow> local) \<Rightarrow> byte list \<Rightarrow> nat \<Rightarrow> item list \<times> byte list \<times> uint32 \<Rightarrow>
    (endp, item list \<times> byte list \<times> uint32) outcome" where
  "turn oth di g = (\<lambda>(items, m).
     if g < length items
     then bind_out (item_step oth di (items ! g, m)) (\<lambda>(it, m). Done (items[g := it], m))
     else Done (items, m))"

definition opencl_device :: "(winst \<Rightarrow> local \<Rightarrow> local) \<Rightarrow> (nat \<Rightarrow> nat list) \<Rightarrow> cl_kernel \<Rightarrow> local device" where
  "opencl_device oth order K k n di do =
     bind_out (for_out (order n) (turn oth di) (map (start_item K k) [0..<n], do, 0)) (\<lambda>(items, do, ret).
       assert_out (list_all (\<lambda>it. it_code it = []) items) (Done do))"

subsection \<open>One iteration on lists\<close>

text \<open>What a work function does in one iteration, with one input and one output.\<close>

fun work_lists :: "(winst \<Rightarrow> local \<Rightarrow> local) \<Rightarrow> winst list \<Rightarrow> byte list list \<Rightarrow> local \<Rightarrow> byte list list" where
  "work_lists oth [] xs l = []"
| "work_lists oth (WIntr SPop r a # is) xs l = work_lists oth is (tl xs) ((fst l)(a ! 1 := hd xs), snd l)"
| "work_lists oth (WIntr SPush r a # is) xs l = take 4 (fst l (a ! 1)) # work_lists oth is xs l"
| "work_lists oth (WRet v # is) xs l = []"
| "work_lists oth (i # is) xs l = work_lists oth is xs (oth i l)"

definition work_window :: "(winst \<Rightarrow> local \<Rightarrow> local) \<Rightarrow> winst list \<Rightarrow> local \<Rightarrow> byte list \<Rightarrow> byte list" where
  "work_window oth b l w = concat (work_lists oth b (map (chunk 4 w) [0..<length w div 4]) l)"

end
