(* ===== verification/OpenCL_Device.thy ===== *)
theory OpenCL_Device
  imports OpenCL_Code
begin

section \<open>The work items do iterations of the work function\<close>

text \<open>
  A work item by itself stays in its window, so interleaved items do what they would do alone, and an item does what an
  iteration of the work function does on the host.  The properties of the scheduler with the code that it generates.
\<close>

subsection \<open>One work item by itself\<close>

text \<open>
  The step of item \<open>g\<close> with nothing but its own window of the output buffer, which it does not leave.
\<close>

definition put_at :: "nat \<Rightarrow> byte list \<Rightarrow> byte list \<Rightarrow> byte list" where
  "put_at p e w = take p w @ e @ drop (p + length e) w"

definition local_step :: "(winst \<Rightarrow> local \<Rightarrow> local) \<Rightarrow> byte list \<Rightarrow> nat \<Rightarrow> nat \<Rightarrow> item \<times> byte list \<Rightarrow> (endp, item \<times> byte list) outcome" where
  "local_step oth di ob g = (\<lambda>(it, w).
     case it_code it of
       DOut # ds \<Rightarrow> assert_out (g * ob \<le> unat (it_off it) \<and> unat (it_off it) + 4 \<le> Suc g * ob \<and> length (it_elem it) = 4)
         (Done (it\<lparr>it_code := ds\<rparr>, put_at (unat (it_off it) - g * ob) (it_elem it) w))
     | _ \<Rightarrow> bind_out (item_step oth di (it, [], 0)) (\<lambda>(it, m). Done (it, w)))"

fun local_run :: "(winst \<Rightarrow> local \<Rightarrow> local) \<Rightarrow> byte list \<Rightarrow> nat \<Rightarrow> nat \<Rightarrow> nat \<Rightarrow> item \<times> byte list \<Rightarrow> (endp, item \<times> byte list) outcome" where
  "local_run oth di ob g 0 x = Done x"
| "local_run oth di ob g (Suc n) x = bind_out (local_step oth di ob g x) (local_run oth di ob g n)"

lemma local_run_add:
  "local_run oth di ob g (m + n) x = bind_out (local_run oth di ob g m x) (local_run oth di ob g n)"
proof (induction m arbitrary: x)
  case (Suc m)
  then show ?case by (cases "local_step oth di ob g x") simp_all
qed simp

lemma local_run_stop: "it_code it = [] \<Longrightarrow> local_run oth di ob g n (it, w) = Done (it, w)"
  by (induction n) (simp_all add: local_step_def item_step_def)

lemma length_put_at: "p + length e \<le> length w \<Longrightarrow> length (put_at p e w) = length w"
  by (simp add: put_at_def)

lemma chunk_put:
  assumes q: "q + length e \<le> ob" and ne: "e \<noteq> []" and g: "Suc g * ob \<le> length m"
  shows "chunk ob (put_at (g * ob + q) e m) g = put_at q e (chunk ob m g)"
    and "h \<noteq> g \<Longrightarrow> chunk ob (put_at (g * ob + q) e m) h = chunk ob m h"
proof -
  have c: "ob * g = g * ob" by simp
  have "q < ob" using q ne by (cases e) auto
  have l: "g * ob + q + length e \<le> length m" using q g by simp
  let ?A = "drop (g * ob) m" and ?n = "length e"
  have A: "ob \<le> length ?A" using g by simp
  have "drop (g * ob) (put_at (g * ob + q) e m) = take q ?A @ e @ drop (q + ?n) ?A"
    using l by (simp add: put_at_def drop_take ac_simps)
  moreover have "take ob (take q ?A @ e @ drop (q + ?n) ?A) = take q ?A @ e @ take (ob - (q + ?n)) (drop (q + ?n) ?A)"
    using A q \<open>q < ob\<close> by simp
  moreover have "put_at q e (take ob ?A) = take q ?A @ e @ take (ob - (q + ?n)) (drop (q + ?n) ?A)"
    using \<open>q < ob\<close> by (simp add: put_at_def drop_take min_def)
  ultimately show "chunk ob (put_at (g * ob + q) e m) g = put_at q e (chunk ob m g)"
    unfolding chunk_def c by simp
  assume h: "h \<noteq> g"
  show "chunk ob (put_at (g * ob + q) e m) h = chunk ob m h"
  proof (cases "h < g")
    case True
    then have "Suc h * ob \<le> g * ob" by (intro mult_le_mono1) simp
    then have "h * ob + ob \<le> g * ob + q" by simp
    then have "take (ob + ob * h) (put_at (g * ob + q) e m) = take (ob + ob * h) m"
      using l unfolding put_at_def by (simp add: mult.commute min_def)
    then show ?thesis unfolding chunk_def take_drop by simp
  next
    case False
    then have "Suc g * ob \<le> h * ob" using h by (intro mult_le_mono1) simp
    then have "g * ob + q + length e \<le> h * ob" using q by simp
    then show ?thesis using l unfolding chunk_def put_at_def by (simp add: mult.commute)
  qed
qed

text \<open>In the shared buffer the step does the same, and leaves the other windows alone.\<close>

lemma local_step_shared:
  assumes step: "local_step oth di ob g (it, chunk ob outs g) = Done (it', w')" and g: "Suc g * ob \<le> length outs"
  obtains outs' ret' where "item_step oth di (it, outs, ret) = Done (it', outs', ret')" "length outs' = length outs"
    "chunk ob outs' g = w'" "\<And>h. h \<noteq> g \<Longrightarrow> chunk ob outs' h = chunk ob outs h"
proof (cases "\<exists>ds. it_code it = DOut # ds")
  case True
  then obtain ds where ds: "it_code it = DOut # ds" by blast
  let ?p = "unat (it_off it) - g * ob"
  have p: "g * ob \<le> unat (it_off it)" "unat (it_off it) + 4 \<le> Suc g * ob" "length (it_elem it) = 4"
    and r: "it' = it\<lparr>it_code := ds\<rparr>" "w' = put_at ?p (it_elem it) (chunk ob outs g)"
    using step ds by (auto simp: local_step_def assert_out_def split: if_splits)
  have off: "unat (it_off it) = g * ob + ?p" "?p + length (it_elem it) \<le> ob" "it_elem it \<noteq> []" using p by auto
  have "item_step oth di (it, outs, ret) = Done (it', put_at (g * ob + ?p) (it_elem it) outs, ret)"
    using ds p g off(1) r(1) by (simp add: item_step_def mem_put_def put_at_def)
  then show ?thesis using that chunk_put [OF off(2,3) g] r(2) length_put_at [of "g * ob + ?p" "it_elem it" outs] off g
    by force
next
  case False
  have "bind_out (item_step oth di (it, [], 0)) (\<lambda>(i, m). Done (i, chunk ob outs g)) = Done (it', w')"
    using step False by (cases "it_code it") (auto simp: local_step_def split: dinst.splits)
  then obtain m where m: "item_step oth di (it, [], 0) = Done (it', m)" "w' = chunk ob outs g"
    by (auto elim!: bind_out_DoneE)
  then have "\<exists>ret'. item_step oth di (it, outs, ret) = Done (it', outs, ret')"
    using False unfolding item_step_def
    by (auto simp: Let_def assert_out_def split: list.splits dinst.splits option.splits if_splits)
  then show ?thesis using that m(2) by blast
qed

text \<open>Interleaved items do what they would do alone.\<close>

lemma interleaved:
  assumes "\<forall>g < length items. \<exists>it w. local_run oth di ob g (count_list order g) (items ! g, chunk ob outs g) = Done (it, w) \<and>
      it_code it = [] \<and> w = W g"
    and "length items * ob \<le> length outs"
  obtains items' outs' ret' where "for_out order (turn oth di) (items, outs, ret) = Done (items', outs', ret')"
    "length outs' = length outs" "length items' = length items" "list_all (\<lambda>it. it_code it = []) items'"
    "\<forall>g < length items. chunk ob outs' g = W g"
proof -
  have "\<exists>items' outs' ret'. for_out order (turn oth di) (items, outs, ret) = Done (items', outs', ret') \<and>
    length outs' = length outs \<and> length items' = length items \<and> list_all (\<lambda>it. it_code it = []) items' \<and>
    (\<forall>g < length items. chunk ob outs' g = W g)"
    using assms
  proof (induction order arbitrary: items outs ret)
    case Nil
    then show ?case by (auto simp: list_all_length)
  next
    case (Cons h order)
    show ?case
    proof (cases "h < length items")
      case False
      then have t: "turn oth di h (items, outs, ret) = Done (items, outs, ret)" by (simp add: turn_def)
      have "\<forall>g < length items. \<exists>it w. local_run oth di ob g (count_list order g) (items ! g, chunk ob outs g) = Done (it, w) \<and>
          it_code it = [] \<and> w = W g" using Cons.prems(1) False by auto
      from Cons.IH [OF this Cons.prems(2), of ret] t show ?thesis by simp
    next
      case True
      have "\<exists>it w. bind_out (local_step oth di ob h (items ! h, chunk ob outs h)) (local_run oth di ob h (count_list order h)) =
          Done (it, w) \<and> it_code it = [] \<and> w = W h"
        using Cons.prems(1) True by auto
      then obtain it1 w1 where 1: "local_step oth di ob h (items ! h, chunk ob outs h) = Done (it1, w1)"
        "\<exists>it w. local_run oth di ob h (count_list order h) (it1, w1) = Done (it, w) \<and> it_code it = [] \<and> w = W h"
        by (auto elim!: bind_out_DoneE)
      have "Suc h * ob \<le> length items * ob" using True by (intro mult_le_mono1) simp
      then have room: "Suc h * ob \<le> length outs" using Cons.prems(2) by simp
      obtain outs1 ret1 where 2: "item_step oth di (items ! h, outs, ret) = Done (it1, outs1, ret1)"
        "length outs1 = length outs" "chunk ob outs1 h = w1" "\<And>k. k \<noteq> h \<Longrightarrow> chunk ob outs1 k = chunk ob outs k"
        by (rule local_step_shared [OF 1(1) room]) blast
      have t: "turn oth di h (items, outs, ret) = Done (items[h := it1], outs1, ret1)"
        using True 2(1) by (simp add: turn_def)
      have "\<exists>it w. local_run oth di ob g (count_list order g) (items[h := it1] ! g, chunk ob outs1 g) = Done (it, w) \<and>
          it_code it = [] \<and> w = W g" if "g < length (items[h := it1])" for g
        using Cons.prems(1) 1(2) 2(3,4) that by (cases "g = h") auto
      then have "\<exists>items' outs' ret'. for_out order (turn oth di) (items[h := it1], outs1, ret1) = Done (items', outs', ret') \<and>
        length outs' = length outs1 \<and> length items' = length (items[h := it1]) \<and> list_all (\<lambda>it. it_code it = []) items' \<and>
        (\<forall>g < length (items[h := it1]). chunk ob outs' g = W g)"
        using Cons.prems(2) 2(2) by (intro Cons.IH) simp_all
      then show ?thesis using t 2(2) by simp
    qed
  qed
  with that show ?thesis by blast
qed

subsection \<open>An item does an iteration of the work function\<close>

text \<open>Pushes and pops on the only output and input, no other intrinsics, and a return at the end only.\<close>

fun plain_inst :: "winst \<Rightarrow> bool" where
  "plain_inst (WIntr k r a) = False"
| "plain_inst (WRet v) = False"
| "plain_inst (WCall r n a) = (decode n = None)"
| "plain_inst i = True"

fun one_stream_code :: "winst list \<Rightarrow> bool" where
  "one_stream_code [] = True"
| "one_stream_code (WIntr k r a # is) \<longleftrightarrow> (k = SPush \<or> k = SPop) \<and> a ! 0 = Con 0 \<and> one_stream_code is"
| "one_stream_code (WRet v # is) \<longleftrightarrow> is = []"
| "one_stream_code (i # is) \<longleftrightarrow> plain_inst i \<and> one_stream_code is"

fun work_pops :: "winst list \<Rightarrow> nat" where
  "work_pops [] = 0"
| "work_pops (WIntr SPop r a # is) = Suc (work_pops is)"
| "work_pops (i # is) = work_pops is"

fun work_pushes :: "winst list \<Rightarrow> nat" where
  "work_pushes [] = 0"
| "work_pushes (WIntr SPush r a # is) = Suc (work_pushes is)"
| "work_pushes (i # is) = work_pushes is"

lemma one_stream_code_induct [consumes 1, case_names Nil Pop Push Ret Plain]:
  assumes "one_stream_code b" and "P []"
    and "\<And>r a is. a ! 0 = Con 0 \<Longrightarrow> one_stream_code is \<Longrightarrow> P is \<Longrightarrow> P (WIntr SPop r a # is)"
    and "\<And>r a is. a ! 0 = Con 0 \<Longrightarrow> one_stream_code is \<Longrightarrow> P is \<Longrightarrow> P (WIntr SPush r a # is)"
    and "\<And>v. P [WRet v]"
    and "\<And>i is. plain_inst i \<Longrightarrow> one_stream_code is \<Longrightarrow> P is \<Longrightarrow> P (i # is)"
  shows "P b"
  using assms(1) by (induction b rule: one_stream_code.induct) (auto intro: assms(2-))

lemma plain_inst_simps:
  assumes "plain_inst i"
  shows "work_pops (i # is) = work_pops is" "work_pushes (i # is) = work_pushes is" "dev_inst n m i = Done [DOther i]"
    "work_lists oth (i # is) xs l = work_lists oth is xs (oth i l)" "exec_inst c w ins outs i x = w i x"
  using assms by (cases i; simp)+

text \<open>Every element in memory has at least the four bytes that are read.\<close>

definition cells_ok :: "local \<Rightarrow> bool" where
  "cells_ok l \<longleftrightarrow> (\<forall>p. 4 \<le> length (fst l p))"

definition keeps_cells :: "(winst \<Rightarrow> local \<Rightarrow> local) \<Rightarrow> bool" where
  "keeps_cells oth \<longleftrightarrow> (\<forall>i l. cells_ok l \<longrightarrow> cells_ok (oth i l))"

lemma keeps_cellsD: "keeps_cells oth \<Longrightarrow> cells_ok l \<Longrightarrow> cells_ok (oth i l)"
  unfolding keeps_cells_def by blast

lemma cells_upd: "cells_ok l \<Longrightarrow> length x = 4 \<Longrightarrow> cells_ok ((fst l)(p := x), snd l)"
  by (simp add: cells_ok_def)

lemma dev_code_exists: "one_stream_code b \<Longrightarrow> \<exists>code. dev_code 1 1 b = Done code"
  by (induction b rule: one_stream_code_induct) (auto simp: plain_inst_simps)

lemma work_lists_length: "one_stream_code b \<Longrightarrow> length (work_lists oth b xs l) = work_pushes b"
  by (induction b arbitrary: xs l rule: one_stream_code_induct) (auto simp: plain_inst_simps)

lemma work_lists_4:
  assumes "one_stream_code b" and "keeps_cells oth" and "cells_ok l" and "\<forall>x \<in> set xs. length x = 4" and "work_pops b \<le> length xs"
  shows "\<forall>y \<in> set (work_lists oth b xs l). length y = 4"
  using assms
proof (induction b arbitrary: xs l rule: one_stream_code_induct)
  case (Pop r a "is")
  then obtain x ys where xs: "xs = x # ys" by (cases xs) auto
  then have "cells_ok ((fst l)(a ! 1 := x), snd l)" using Pop.prems by (intro cells_upd) auto
  moreover have "\<forall>x \<in> set ys. length x = 4" "work_pops is \<le> length ys" using Pop.prems xs by simp_all
  ultimately show ?case using Pop.IH [OF Pop.prems(1)] xs by simp
next
  case (Plain i "is")
  then have "cells_ok (oth i l)" using keeps_cellsD by blast
  moreover have "work_pops is \<le> length xs" using Plain.prems(4) unfolding plain_inst_simps(1) [OF Plain.hyps(1)] .
  ultimately show ?case unfolding plain_inst_simps(4) [OF Plain.hyps(1)] using Plain.IH [OF Plain.prems(1) _ Plain.prems(3)] by blast
next
  case (Push r a "is")
  have "4 \<le> length (fst l (a ! 1))" "work_pops is \<le> length xs" using Push.prems(2,4) by (simp_all add: cells_ok_def)
  with Push.IH [OF Push.prems(1-3)] show ?case by simp
qed simp_all

text \<open>The host: one iteration with unchecked operations, from a store in which nothing is in the way.\<close>

definition lift_oth :: "(winst \<Rightarrow> local \<Rightarrow> local) \<Rightarrow> winst \<Rightarrow> xst \<Rightarrow> (endp, xst) outcome" where
  "lift_oth oth i x = (let (c, k) = oth i (cells x, known x) in Done (x\<lparr>cells := c, known := k\<rparr>))"

lemma put_elem_take: "length e \<ge> n \<Longrightarrow> put_elem s b a n (take n e) nx st = put_elem s b a n e nx st"
  by (simp add: put_elem_def write_obj_def mem_put_def)

lemma push_take:
  assumes "elem_size (hdr st s) = 4" and "4 \<le> length e"
  shows "inline_push_nocheck_s s (take 4 e) st = inline_push_nocheck_s s e st"
  using assms put_elem_take [of 4 e] by (simp add: inline_push_nocheck_s_def Let_def)

lemma host_iteration:
  assumes "one_stream_code b" and oth: "keeps_cells oth" and io: "i \<in> S" "out \<in> S" "i \<noteq> out"
    and "Split_Join.holds S (xstore x) c" and "cells_ok (cells x, known x)"
    and "work_pops b \<le> length (c i)" and "length (c out) + work_pushes b \<le> capacity"
  shows "\<exists>x'. exec_insts Nocheck (lift_oth oth) [i] [out] b x = Done x' \<and>
    Split_Join.holds S (xstore x') (c(i := drop (work_pops b) (c i), out := c out @ work_lists oth b (take (work_pops b) (c i)) (cells x, known x)))"
  using assms(1,6-)
proof (induction b arbitrary: x c rule: one_stream_code_induct)
  case Nil
  have "c(i := drop (work_pops []) (c i), out := c out @ work_lists oth [] (take (work_pops []) (c i)) (cells x, known x)) = c" by auto
  with Nil(1) show ?case unfolding exec_insts.simps by auto
next
  case (Ret v)
  have "c(i := drop (work_pops [WRet v]) (c i), out := c out @ work_lists oth [WRet v] (take (work_pops [WRet v]) (c i)) (cells x, known x)) = c"
    by auto
  moreover obtain d k where "oth (WRet v) (cells x, known x) = (d, k)" by fastforce
  ultimately show ?case using Ret(1) by (simp add: lift_oth_def)
next
  case (Plain j "is")
  obtain d k where jo: "oth j (cells x, known x) = (d, k)" by fastforce
  let ?x = "x\<lparr>cells := d, known := k\<rparr>"
  have "cells_ok (oth j (cells x, known x))" using oth Plain.prems(2) by (rule keeps_cellsD)
  then have "cells_ok (cells ?x, known ?x)" using jo by simp
  moreover have "Split_Join.holds S (xstore ?x) c" using Plain.prems(1) by simp
  moreover note Plain.prems(3,4)
  ultimately obtain x' where x': "exec_insts Nocheck (lift_oth oth) [i] [out] is ?x = Done x'"
    "Split_Join.holds S (xstore x') (c(i := drop (work_pops is) (c i), out := c out @ work_lists oth is (take (work_pops is) (c i)) (d, k)))"
    using Plain.IH [of ?x c] Plain.hyps by (auto simp: plain_inst_simps simp del: fun_upd_apply)
  have "exec_insts Nocheck (lift_oth oth) [i] [out] (j # is) x = Done x'"
    using x'(1) jo Plain.hyps(1) by (simp add: plain_inst_simps lift_oth_def)
  with x'(2) show ?case unfolding plain_inst_simps [OF Plain.hyps(1)] jo by blast
next
  case (Pop r a "is")
  obtain e es where ci: "c i = e # es" using Pop.prems(3) by (cases "c i") auto
  obtain st' where st': "inline_pop_nocheck_s i (xstore x) = Done (e, st')" "Split_Join.holds S st' (c(i := es))" "length e = 4"
    using pop_holds [OF Pop.prems(1) io(1) ci] by blast
  let ?x = "x\<lparr>xstore := st', cells := (cells x)(a ! 1 := e)\<rparr>" and ?c = "c(i := es)"
  have "Split_Join.holds S (xstore ?x) ?c" using st'(2) by simp
  moreover have "cells_ok (cells ?x, known ?x)" using Pop.prems(2) st'(3) by (simp add: cells_ok_def)
  moreover have "work_pops is \<le> length (?c i)" "length (?c out) + work_pushes is \<le> capacity" using Pop.prems(3,4) ci io(3) by auto
  ultimately obtain x' where x': "exec_insts Nocheck (lift_oth oth) [i] [out] is ?x = Done x'"
    "Split_Join.holds S (xstore x') (?c(i := drop (work_pops is) (?c i), out := ?c out @
       work_lists oth is (take (work_pops is) (?c i)) (cells ?x, known ?x)))"
    using Pop.IH by blast
  have "exec_insts Nocheck (lift_oth oth) [i] [out] (WIntr SPop r a # is) x = Done x'"
    using x'(1) st'(1) Pop.hyps(1) by (simp add: run_op_def opval_def nocheck_0_0_s)
  moreover have "?c(i := drop (work_pops is) (?c i), out := ?c out @ work_lists oth is (take (work_pops is) (?c i)) (cells ?x, known ?x)) =
      c(i := drop (work_pops (WIntr SPop r a # is)) (c i), out := c out @
        work_lists oth (WIntr SPop r a # is) (take (work_pops (WIntr SPop r a # is)) (c i)) (cells x, known x))"
    using ci io(3) by simp
  ultimately show ?case using x'(2) by metis
next
  case (Push r a "is")
  let ?e = "cells x (a ! 1)"
  have le: "4 \<le> length ?e" using Push.prems(2) by (simp add: cells_ok_def)
  have es: "elem_size (hdr (xstore x) out) = 4" using Push.prems(1) io(2) by (simp add: Split_Join.holds_def)
  have len: "length (take 4 ?e) = 4" "length (c out) < capacity" using le Push.prems(4) by simp_all
  obtain st' where st': "inline_push_nocheck_s out (take 4 ?e) (xstore x) = Done st'"
    "Split_Join.holds S st' (c(out := c out @ [take 4 ?e]))"
    using push_holds [OF Push.prems(1) io(2) len] by blast
  let ?x = "x\<lparr>xstore := st'\<rparr>" and ?c = "c(out := c out @ [take 4 ?e])"
  have "Split_Join.holds S (xstore ?x) ?c" using st'(2) by simp
  moreover have "cells_ok (cells ?x, known ?x)" using Push.prems(2) by simp
  moreover have "work_pops is \<le> length (?c i)" "length (?c out) + work_pushes is \<le> capacity" using Push.prems(3,4) io(3) by auto
  ultimately obtain x' where x': "exec_insts Nocheck (lift_oth oth) [i] [out] is ?x = Done x'"
    "Split_Join.holds S (xstore x') (?c(i := drop (work_pops is) (?c i), out := ?c out @
       work_lists oth is (take (work_pops is) (?c i)) (cells ?x, known ?x)))"
    using Push.IH by blast
  have "exec_insts Nocheck (lift_oth oth) [i] [out] (WIntr SPush r a # is) x = Done x'"
    using x'(1) st'(1) [unfolded push_take [OF es le]] Push.hyps(1) by (simp add: run_op_def opval_def nocheck_0_0_s)
  moreover have "?c(i := drop (work_pops is) (?c i), out := ?c out @ work_lists oth is (take (work_pops is) (?c i)) (cells ?x, known ?x)) =
      c(i := drop (work_pops (WIntr SPush r a # is)) (c i), out := c out @
        work_lists oth (WIntr SPush r a # is) (take (work_pops (WIntr SPush r a # is)) (c i)) (cells x, known x))"
    using io(3) by (auto simp: fun_eq_iff)
  ultimately show ?case using x'(2) by metis
qed

text \<open>The device: the same iteration on the item's windows.\<close>

definition item_at :: "nat \<Rightarrow> nat \<Rightarrow> nat \<Rightarrow> nat \<Rightarrow> nat \<Rightarrow> item \<Rightarrow> bool" where
  "item_at ib ob g j m it \<longleftrightarrow> unat (it_idx it False 0) = g * ib + 4 * j \<and> unat (it_idx it True 0) = g * ob + 4 * m"

lemma unat_plus4: "unat (x :: uint32) + 4 \<le> OPENCL_BUFFER_SIZE \<Longrightarrow> unat (x + 4) = unat x + 4"
  by (subst unat_add_small) (simp_all add: OPENCL_BUFFER_SIZE_def)

lemma window_end: "Suc g * w \<le> n \<Longrightarrow> 4 * Suc j \<le> w \<Longrightarrow> g * w + 4 * j + 4 \<le> (n :: nat)"
  by simp

lemma local_run_4:
  "local_run oth di ob g 4 x = bind_out (local_step oth di ob g x) (\<lambda>x. bind_out (local_step oth di ob g x)
     (\<lambda>x. bind_out (local_step oth di ob g x) (local_step oth di ob g)))"
proof -
  have r: "bind_out y (local_run oth di ob g 0) = y" for y :: "(endp, item \<times> byte list) outcome" by (cases y) simp_all
  have "local_run oth di ob g (Suc 0) = local_step oth di ob g" by (rule ext) (simp add: r del: local_run.simps(1))
  moreover have "local_run oth di ob g (Suc n) = (\<lambda>x. bind_out (local_step oth di ob g x) (local_run oth di ob g n))" for n
    by (rule ext) simp
  moreover have "4 = Suc (Suc (Suc (Suc 0)))" by simp
  ultimately show ?thesis by metis
qed

lemma device_pop:
  assumes it: "it_code it = [DOff False 0, DIn, DTo p, DBump False 0] @ ds" and "at": "item_at ib ob g j m it"
    and W: "length di = OPENCL_BUFFER_SIZE" "Suc g * ib \<le> OPENCL_BUFFER_SIZE" "4 * Suc j \<le> ib"
  obtains it' where "local_run oth di ob g 4 (it, w) = Done (it', w)" "it_code it' = ds" "item_at ib ob g (Suc j) m it'"
    "it_local it' = ((fst (it_local it))(p := chunk 4 (chunk ib di g) j), snd (it_local it))"
proof -
  let ?o = "it_idx it False 0" and ?e = "chunk 4 (chunk ib di g) j"
  have o: "unat ?o = g * ib + 4 * j" using "at" by (simp add: item_at_def)
  have fit: "unat ?o + 4 \<le> OPENCL_BUFFER_SIZE" unfolding o by (rule window_end [OF W(2,3)])
  have e: "mem_get di (ucast ?o) 4 = Some ?e"
    using fit W(1,3) o by (simp add: mem_get_def chunk_def drop_take min_def mult.commute add.commute)
  let ?it = "it\<lparr>it_code := ds, it_off := ?o, it_elem := ?e, it_local := ((fst (it_local it))(p := ?e), snd (it_local it)),
    it_idx := (it_idx it)(False := (it_idx it False)(0 := ?o + 4))\<rparr>"
  have "local_run oth di ob g 4 (it, w) = Done (?it, w)"
    using it e by (simp add: local_run_4 local_step_def item_step_def Let_def)
  moreover have "item_at ib ob g (Suc j) m ?it" using "at" unat_plus4 [OF fit] by (simp add: item_at_def)
  ultimately show ?thesis using that [of ?it] by simp
qed

lemma device_push:
  assumes it: "it_code it = [DOff True 0, DElem p, DOut, DBump True 0] @ ds" and "at": "item_at ib ob g j m it"
    and W: "Suc g * ob \<le> OPENCL_BUFFER_SIZE" "4 * Suc m \<le> ob" and l: "cells_ok (it_local it)"
  obtains it' where "local_run oth di ob g 4 (it, w) = Done (it', put_at (4 * m) (take 4 (fst (it_local it) p)) w)"
    "it_code it' = ds" "item_at ib ob g j (Suc m) it'" "it_local it' = it_local it"
proof -
  let ?o = "it_idx it True 0" and ?e = "take 4 (fst (it_local it) p)"
  have o: "unat ?o = g * ob + 4 * m" using "at" by (simp add: item_at_def)
  have fit: "unat ?o + 4 \<le> OPENCL_BUFFER_SIZE" "unat ?o + 4 \<le> Suc g * ob"
    unfolding o by (rule window_end [OF _ W(2)], use W in simp)+
  have le: "4 \<le> length (fst (it_local it) p)" using l by (simp add: cells_ok_def)
  let ?it = "it\<lparr>it_code := ds, it_off := ?o, it_elem := ?e,
    it_idx := (it_idx it)(True := (it_idx it True)(0 := ?o + 4))\<rparr>"
  have "local_run oth di ob g 4 (it, w) = Done (?it, put_at (4 * m) ?e w)"
    using it le fit(2) o by (simp add: local_run_4 local_step_def item_step_def Let_def)
  moreover have "item_at ib ob g j (Suc m) ?it" using "at" unat_plus4 [OF fit(1)] by (simp add: item_at_def)
  ultimately show ?thesis using that [of ?it] by simp
qed


definition slots :: "nat \<Rightarrow> byte list \<Rightarrow> byte list list" where
  "slots j w = map (chunk 4 w) [j..<length w div 4]"

lemma slots_Cons: "4 * Suc j \<le> length w \<Longrightarrow> slots j w = chunk 4 w j # slots (Suc j) w"
  by (simp add: slots_def upt_conv_Cons)

lemma device_iteration:
  assumes "one_stream_code b" and oth: "keeps_cells oth" and W: "length di = OPENCL_BUFFER_SIZE" "Suc g * ib \<le> OPENCL_BUFFER_SIZE"
      "Suc g * ob \<le> OPENCL_BUFFER_SIZE"
    and "dev_code 1 1 b = Done code" and "it_code it = code" and "item_at ib ob g j m it" and "cells_ok (it_local it)"
    and "4 * (j + work_pops b) \<le> ib" and "4 * (m + work_pushes b) \<le> ob" and "length w = ob"
  shows "\<exists>it' w'. local_run oth di ob g (length code) (it, w) = Done (it', w') \<and> it_code it' = [] \<and> length w' = ob \<and>
    take (4 * (m + work_pushes b)) w' = take (4 * m) w @ concat (work_lists oth b (slots j (chunk ib di g)) (it_local it))"
  using assms(1,6-)
proof (induction b arbitrary: code it j m w rule: one_stream_code_induct)
  case Nil
  then show ?case by simp
next
  case (Ret v)
  then have "code = [DRet v]" by simp
  with Ret show ?case by (auto simp: local_step_def item_step_def Let_def)
next
  case (Plain i "is")
  obtain ds where ds: "dev_code 1 1 is = Done ds" "code = DOther i # ds"
    using Plain.prems(1) by (auto simp: plain_inst_simps [OF Plain.hyps(1)] elim!: bind_out_DoneE)
  let ?it = "it\<lparr>it_code := ds, it_local := oth i (it_local it)\<rparr>"
  have s: "local_step oth di ob g (it, w) = Done (?it, w)"
    using Plain.prems(2) ds(2) by (simp add: local_step_def item_step_def Let_def)
  have "item_at ib ob g j m ?it" "cells_ok (it_local ?it)" using Plain.prems(3) keeps_cellsD [OF oth Plain.prems(4)]
    by (simp_all add: item_at_def)
  with Plain.IH [OF ds(1), of ?it j m w] Plain.prems(5-) s show ?case
    by (simp add: ds(2) plain_inst_simps [OF Plain.hyps(1)])
next
  case (Pop r a "is")
  obtain ds where ds: "dev_code 1 1 is = Done ds" "code = [DOff False 0, DIn, DTo (a ! 1), DBump False 0] @ ds"
    using Pop.prems(1) Pop.hyps(1) by (auto elim!: bind_out_DoneE)
  have fits: "4 * Suc j \<le> ib" "4 * (Suc j + work_pops is) \<le> ib" "4 * (m + work_pushes is) \<le> ob" using Pop.prems(5,6) by simp_all
  have "Suc g * ib = g * ib + ib" by simp
  then have lw: "length (chunk ib di g) = ib" using W(1,2) by (intro length_chunk) (simp add: mult.commute)
  obtain it1 where 1: "local_run oth di ob g 4 (it, w) = Done (it1, w)" "it_code it1 = ds" "item_at ib ob g (Suc j) m it1"
    "it_local it1 = ((fst (it_local it))(a ! 1 := chunk 4 (chunk ib di g) j), snd (it_local it))"
    by (rule device_pop [OF Pop.prems(2) [unfolded ds(2)] Pop.prems(3) W(1,2) fits(1)]) blast
  have "length (chunk 4 (chunk ib di g) j) = 4" using fits(1) lw by (intro length_chunk) simp
  then have "cells_ok (it_local it1)" using Pop.prems(4) unfolding 1(4) by (intro cells_upd)
  from Pop.IH [OF ds(1) 1(2,3) this fits(2,3) Pop.prems(7)]
  obtain it' w' where 2: "local_run oth di ob g (length ds) (it1, w) = Done (it', w')" "it_code it' = []" "length w' = ob"
    "take (4 * (m + work_pushes is)) w' = take (4 * m) w @ concat (work_lists oth is (slots (Suc j) (chunk ib di g)) (it_local it1))"
    by blast
  have "length code = 4 + length ds" unfolding ds(2) by simp
  then have "local_run oth di ob g (length code) (it, w) = Done (it', w')"
    using local_run_add [of oth di ob g 4 "length ds" "(it, w)"] 2(1) unfolding 1(1) bind_out.simps by metis
  then show ?case using 2(2-) 1(4) slots_Cons [of j "chunk ib di g"] fits(1) lw by simp
next
  case (Push r a "is")
  obtain ds where ds: "dev_code 1 1 is = Done ds" "code = [DOff True 0, DElem (a ! 1), DOut, DBump True 0] @ ds"
    using Push.prems(1) Push.hyps(1) by (auto elim!: bind_out_DoneE)
  have fits: "4 * Suc m \<le> ob" "4 * (j + work_pops is) \<le> ib" "4 * (Suc m + work_pushes is) \<le> ob" using Push.prems(5,6) by simp_all
  let ?e = "take 4 (fst (it_local it) (a ! 1))"
  obtain it1 where 1: "local_run oth di ob g 4 (it, w) = Done (it1, put_at (4 * m) ?e w)" "it_code it1 = ds"
    "item_at ib ob g j (Suc m) it1" "it_local it1 = it_local it"
    by (rule device_push [OF Push.prems(2) [unfolded ds(2)] Push.prems(3) W(3) fits(1) Push.prems(4)]) blast
  have le: "length ?e = 4" using Push.prems(4) by (simp add: cells_ok_def)
  then have lp: "length (put_at (4 * m) ?e w) = ob" using fits(1) Push.prems(7) by (simp add: put_at_def)
  have tp: "take (4 * Suc m) (put_at (4 * m) ?e w) = take (4 * m) w @ ?e"
    using le fits(1) Push.prems(7) by (simp add: put_at_def)
  from Push.IH [OF ds(1) 1(2,3) _ fits(2,3) lp] Push.prems(4) 1(4)
  obtain it' w' where 2: "local_run oth di ob g (length ds) (it1, put_at (4 * m) ?e w) = Done (it', w')" "it_code it' = []"
    "length w' = ob"
    "take (4 * (Suc m + work_pushes is)) w' = (take (4 * m) w @ ?e) @ concat (work_lists oth is (slots j (chunk ib di g)) (it_local it))"
    unfolding tp by auto
  have "length code = 4 + length ds" unfolding ds(2) by simp
  then have "local_run oth di ob g (length code) (it, w) = Done (it', w')"
    using local_run_add [of oth di ob g 4 "length ds" "(it, w)"] 2(1) unfolding 1(1) bind_out.simps by metis
  then show ?case using 2(2-) by simp
qed

subsection \<open>A kernel with one input and one output\<close>

definition one_kernel :: "ptr \<Rightarrow> ptr \<Rightarrow> store \<Rightarrow> winst list \<Rightarrow> bool" where
  "one_kernel i out st b \<longleftrightarrow> one_stream_code b \<and> elem_size (hdr st i) = 4 \<and> elem_size (hdr st out) = 4 \<and>
     pop_rate (hdr st i) = int (work_pops b) \<and> push_rate (hdr st out) = int (work_pushes b) \<and>
     4 * work_pops b \<le> OPENCL_BUFFER_SIZE \<and> 4 * work_pushes b \<le> OPENCL_BUFFER_SIZE"

text \<open>The order gives every item enough turns.\<close>

definition fair_order :: "(nat \<Rightarrow> nat list) \<Rightarrow> cl_kernel \<Rightarrow> bool" where
  "fair_order order K \<longleftrightarrow> (\<forall>n. \<forall>g < n. length (cl_code K) \<le> count_list (order n) g)"

lemma unat_uint32_small: "m \<le> OPENCL_BUFFER_SIZE \<Longrightarrow> unat (of_nat m :: uint32) = m"
  by (simp add: unat_of_nat take_bit_nat_eq_self OPENCL_BUFFER_SIZE_def)

lemma unat_size_small: "m \<le> OPENCL_BUFFER_SIZE \<Longrightarrow> unat (of_nat m :: size_t) = m"
  by (rule unat_of_nat_small) (simp add: OPENCL_BUFFER_SIZE_def)

lemma ucast_small:
  assumes "m \<le> OPENCL_BUFFER_SIZE"
  shows "ucast (of_nat m :: uint32) = (of_nat m :: size_t)" "ucast (of_nat m :: size_t) = (of_nat m :: uint32)"
  using unat_uint32_small [OF assms] unat_size_small [OF assms] by (metis of_nat_unat)+

lemma length_concat_4: "\<forall>y \<in> set ys. length y = 4 \<Longrightarrow> length (concat ys) = 4 * length ys"
  by (induction ys) simp_all

lemma rate_bytes_4:
  assumes "r (hdr st s) = int n" and "elem_size (hdr st s) = 4" and "4 * n \<le> OPENCL_BUFFER_SIZE"
  shows "rate_bytes r st s = of_nat (4 * n)"
proof -
  have "of_int (int n) * (4 :: uint32) = of_nat (4 * n)" by simp
  then show ?thesis unfolding rate_bytes_def assms(1,2) using ucast_small(1) [OF assms(3)] by (simp add: mult.commute)
qed

lemma codegen_one:
  assumes k: "one_kernel i out st b" and gen: "opencl_codegen [i] [out] k st b = Done (K, s)"
  obtains code where "dev_code 1 1 b = Done code" "cl_code K = code" "cl_in_inner K = [0]" "cl_out_inner K = [0]"
    "cl_in_bytes K = of_nat (4 * work_pops b)" "cl_out_bytes K = of_nat (4 * work_pushes b)" "s = new_opencl_state_t [i] [out] k st"
    "unat (in_bytes_per_iter s) = 4 * work_pops b" "unat (out_bytes_per_iter s) = 4 * work_pushes b"
proof -
  obtain code where code: "dev_code 1 1 b = Done code" using dev_code_exists k by (auto simp: one_kernel_def)
  have r: "rate_bytes pop_rate st i = of_nat (4 * work_pops b)" "rate_bytes push_rate st out = of_nat (4 * work_pushes b)"
    using k by (intro rate_bytes_4; simp add: one_kernel_def)+
  have u: "unat (of_nat (4 * work_pops b) :: size_t) = 4 * work_pops b" "unat (of_nat (4 * work_pushes b) :: size_t) = 4 * work_pushes b"
    using k by (intro unat_size_small; simp add: one_kernel_def)+
  have w: "ucast (of_nat (4 * work_pops b) :: size_t) = (of_nat (4 * work_pops b) :: uint32)"
    "ucast (of_nat (4 * work_pushes b) :: size_t) = (of_nat (4 * work_pushes b) :: uint32)"
    using k by (intro ucast_small; simp add: one_kernel_def)+
  have "K = \<lparr>cl_code = code, cl_in_bytes = of_nat (4 * work_pops b), cl_out_bytes = of_nat (4 * work_pushes b), cl_in_inner = [0], cl_out_inner = [0]\<rparr>"
    and s: "s = new_opencl_state_t [i] [out] k st"
    using gen code r w
    by (auto simp: opencl_codegen_def new_opencl_state_t_def inner_offset_def)
  with that code u r show ?thesis by (simp add: new_opencl_state_t_def)
qed

lemma device_one:
  assumes k: "one_kernel i out st b" and gen: "opencl_codegen [i] [out] k st b = Done (K, s)"
    and oth: "keeps_cells oth" and l: "cells_ok l" and fair_order: "fair_order order K"
    and len: "length di = OPENCL_BUFFER_SIZE" "length do = OPENCL_BUFFER_SIZE"
    and room: "n * (4 * work_pops b) \<le> OPENCL_BUFFER_SIZE" "n * (4 * work_pushes b) \<le> OPENCL_BUFFER_SIZE"
  obtains do' where "opencl_device oth order K l n di do = Done do'" "length do' = OPENCL_BUFFER_SIZE"
    "\<forall>g < n. chunk (4 * work_pushes b) do' g = work_window oth b l (chunk (4 * work_pops b) di g)"
proof -
  let ?ib = "4 * work_pops b" and ?ob = "4 * work_pushes b"
  obtain code where c: "dev_code 1 1 b = Done code" "cl_code K = code" "cl_in_inner K = [0]" "cl_out_inner K = [0]"
    "cl_in_bytes K = of_nat ?ib" "cl_out_bytes K = of_nat ?ob"
    by (rule codegen_one [OF k gen]) blast
  have b: "one_stream_code b" using k by (simp add: one_kernel_def)
  let ?items = "map (start_item K l) [0..<n]" and ?W = "\<lambda>g. work_window oth b l (chunk ?ib di g)"
  have "\<exists>it w. local_run oth di ?ob g (count_list (order n) g) (?items ! g, chunk ?ob do g) = Done (it, w) \<and>
      it_code it = [] \<and> w = ?W g" if g: "g < length ?items" for g
  proof -
    have "Suc g * ?ib \<le> n * ?ib" "Suc g * ?ob \<le> n * ?ob" using g by (intro mult_le_mono1; simp)+
    then have W: "Suc g * ?ib \<le> OPENCL_BUFFER_SIZE" "Suc g * ?ob \<le> OPENCL_BUFFER_SIZE" using room by linarith+
    have "unat (of_nat (g * ?ib) :: uint32) = g * ?ib" "unat (of_nat (g * ?ob) :: uint32) = g * ?ob"
      using W by (intro unat_uint32_small; simp)+
    then have "at": "item_at ?ib ?ob g 0 0 (start_item K l g)"
      using c by (simp add: item_at_def start_item_def mult.commute)
    have lw: "length (chunk ?ib di g) = ?ib" "length (chunk ?ob do g) = ?ob"
      using W len by (intro length_chunk; simp add: mult.commute)+
    obtain it w where r: "local_run oth di ?ob g (length code) (start_item K l g, chunk ?ob do g) = Done (it, w)"
      "it_code it = []" "length w = ?ob" "take (4 * (0 + work_pushes b)) w = take (4 * 0) (chunk ?ob do g) @
        concat (work_lists oth b (slots 0 (chunk ?ib di g)) (it_local (start_item K l g)))"
      using device_iteration [OF b oth len(1) W c(1) _ "at" _ _ _ lw(2)] l c(2) by (auto simp: start_item_def)
    have "length code \<le> count_list (order n) g" using fair_order g c(2) by (simp add: fair_order_def)
    then obtain d where "count_list (order n) g = length code + d" using le_Suc_ex by blast
    then have "local_run oth di ?ob g (count_list (order n) g) (?items ! g, chunk ?ob do g) = Done (it, w)"
      using local_run_add [of oth di ?ob g "length code" d] r(1) local_run_stop [OF r(2)] g by simp
    moreover have "w = ?W g" using r(3,4) lw(1) by (simp add: work_window_def slots_def start_item_def)
    ultimately show ?thesis using r(2) by blast
  qed
  then have all: "\<forall>g < length ?items. \<exists>it w. local_run oth di ?ob g (count_list (order n) g) (?items ! g, chunk ?ob do g) = Done (it, w) \<and>
      it_code it = [] \<and> w = ?W g" by blast
  have fit: "length ?items * ?ob \<le> length do" using room(2) len(2) by simp
  obtain items' do' ret' where "for_out (order n) (turn oth di) (?items, do, 0) = Done (items', do', ret')"
    "length do' = length do" "list_all (\<lambda>it. it_code it = []) items'" "\<forall>g < length ?items. chunk ?ob do' g = ?W g"
    by (rule interleaved [OF all fit, of 0]) blast
  with that [of do'] len(2) show ?thesis by (simp add: opencl_device_def)
qed

lemma device_one_maps:
  assumes k: "one_kernel i out st b" and gen: "opencl_codegen [i] [out] k st b = Done (K, s)"
    and oth: "keeps_cells oth" and l: "cells_ok l" and fair_order: "fair_order order K"
  shows "device_maps (opencl_device oth order K) (work_window oth b) l (4 * work_pops b) (4 * work_pushes b)"
  unfolding device_maps_def
proof (intro conjI allI impI)
  fix w :: "byte list" assume w: "length w = 4 * work_pops b"
  have b: "one_stream_code b" using k by (simp add: one_kernel_def)
  have "\<forall>x \<in> set (map (chunk 4 w) [0..<length w div 4]). length x = 4" using w by (auto intro!: length_chunk)
  from length_concat_4 [OF work_lists_4 [OF b oth l this]] w show "length (work_window oth b l w) = 4 * work_pushes b"
    by (simp add: work_window_def work_lists_length [OF b])
next
  fix n and di "do" :: "byte list"
  assume a: "length di = OPENCL_BUFFER_SIZE" "length do = OPENCL_BUFFER_SIZE"
    "n * (4 * work_pops b) \<le> OPENCL_BUFFER_SIZE" "n * (4 * work_pushes b) \<le> OPENCL_BUFFER_SIZE"
  obtain do' where d: "opencl_device oth order K l n di do = Done do'" "length do' = OPENCL_BUFFER_SIZE"
    "\<forall>g < n. chunk (4 * work_pushes b) do' g = work_window oth b l (chunk (4 * work_pops b) di g)"
    by (rule device_one [OF assms a]) blast
  have "take (n * (4 * work_pushes b)) do' = concat (map (chunk (4 * work_pushes b) do') [0..<n])"
    using a(4) d(2) by (simp add: chunks_concat)
  also have "map (chunk (4 * work_pushes b) do') [0..<n] = map (\<lambda>g. work_window oth b l (chunk (4 * work_pops b) di g)) [0..<n]"
    using d(3) by simp
  finally show "\<exists>do'. opencl_device oth order K l n di do = Done do' \<and> length do' = OPENCL_BUFFER_SIZE \<and>
      take (n * (4 * work_pushes b)) do' = concat (map (\<lambda>g. work_window oth b l (chunk (4 * work_pops b) di g)) [0..<n])"
    using d by blast
qed


subsection \<open>Properties\<close>

text \<open>A kernel that copies stream 1, which holds three elements, to stream 2; the items take turns.\<close>

definition cl_store :: store where
  "cl_store = (sample_store 4 STREAM_BUFFER_SIZE)\<lparr>hdr := (sample_stream 4)(1 := (sample_stream 4 1)\<lparr>head := 12\<rparr>)\<rparr>"

definition cl_work :: "winst list" where
  "cl_work = [WIntr SPop [0] [Con 0, Arg 5], WIntr SPush [1] [Con 0, Arg 5], WRet (Con 0)]"

definition cl_order :: "nat \<Rightarrow> nat list" where
  "cl_order n = concat (replicate 9 [0..<n])"

definition cl_local :: local where
  "cl_local = (\<lambda>_. replicate 4 0, \<lambda>_. 0)"

definition cl_sample :: "cl_kernel \<times> local opencl_state_t" where
  "cl_sample = (\<lparr>cl_code = [DOff False 0, DIn, DTo (Arg 5), DBump False 0, DOff True 0, DElem (Arg 5), DOut, DBump True 0, DRet (Con 0)],
     cl_in_bytes = 4, cl_out_bytes = 4, cl_in_inner = [0], cl_out_inner = [0]\<rparr>, new_opencl_state_t [1] [2] cl_local cl_store)"

lemma cl_gen: "opencl_codegen [1] [2] cl_local cl_store cl_work = Done (fst cl_sample, snd cl_sample)"
  by (simp add: opencl_codegen_def inner_offset_def cl_sample_def cl_work_def new_opencl_state_t_def rate_bytes_def
    cl_store_def sample_store_def sample_stream_def Let_def)

lemma cl_one: "one_kernel 1 2 cl_store cl_work"
  by (simp add: one_kernel_def cl_work_def cl_store_def sample_store_def sample_stream_def OPENCL_BUFFER_SIZE_def)

lemma count_rounds: "g < n \<Longrightarrow> count_list (concat (replicate m [0..<n])) g = m"
proof -
  assume g: "g < n"
  have "count_list [0..<n] g = 1" using g by (induction n) (auto simp: less_Suc_eq count_list_0_iff)
  then show ?thesis by (induction m) simp_all
qed

lemma cl_fair: "fair_order cl_order (fst cl_sample)"
  by (simp add: fair_order_def cl_order_def count_rounds cl_sample_def)

lemma cl_cells: "cells_ok cl_local" "keeps_cells (\<lambda>i l. l)"
  by (simp_all add: cells_ok_def cl_local_def keeps_cells_def)

lemma cl_holds: "Split_Join.holds {1, 2} cl_store (\<lambda>s. ring_items 4 STREAM_BUFFER_SIZE cl_store s)"
  by (auto simp: Split_Join.holds_def cl_store_def sample_store_def sample_stream_def ring_ok_def
    ring_size_def STREAM_BUFFER_SIZE_def apart_def)

lemma cl_state:
  "opencl_ok (snd cl_sample)" "opencl_streams {1, 2} [1] [2] cl_store (snd cl_sample)" "orig_state (snd cl_sample) = cl_local"
  "unat (in_bytes_per_iter (snd cl_sample)) = 4 * work_pops cl_work" "unat (out_bytes_per_iter (snd cl_sample)) = 4 * work_pushes cl_work"
  by (simp_all add: opencl_ok_def queue_ok_def opencl_streams_def cl_sample_def new_opencl_state_t_def rate_bytes_def
    rates_def row_bytes_def cl_work_def cl_store_def sample_store_def sample_stream_def OPENCL_BUFFER_SIZE_def)

lemma cl_items: "ring_items 4 STREAM_BUFFER_SIZE cl_store 1 = [replicate 4 0, replicate 4 0, replicate 4 0]"
  "ring_items 4 STREAM_BUFFER_SIZE cl_store 2 = []"
  by (simp_all add: ring_items_def ring_count_def ring_dist_def cl_store_def sample_store_def sample_stream_def
    STREAM_BUFFER_SIZE_def chunk_def upt_rec)

text \<open>
  C9.  A kernel that runs on the device loses and reorders nothing: its work function returns, and then the windows
  that were worked on are, with what is left in the input buffer, what was taken from the inputs in its order, and
  what was given to the outputs is, with what is left in the output buffer, what the windows were mapped to.  It returns
  an output that is full, or an input that is short when both buffers are empty.
\<close>

theorem opencl_no_loss:
  assumes "Split_Join.holds S st c" and "opencl_streams S ins outs st s" and "opencl_ok s"
    and "device_maps dev f (orig_state s) (unat (in_bytes_per_iter s)) (unat (out_bytes_per_iter s))"
  shows "\<exists>v r' s' st' c' rows ws prows. opencl_workfn dev ins outs (r, s, st) = Some (Done (v, r', s', st')) \<and>
    Split_Join.holds S st' c' \<and> opencl_ok s' \<and> niter r' = niter r + of_nat (length ws) \<and>
    (\<forall>i < length ins. c (ins ! i) = column i rows @ c' (ins ! i)) \<and>
    inq s @ concat (concat (concat rows)) = concat ws @ inq s' \<and> (\<forall>w \<in> set ws. length w = unat (in_bytes_per_iter s)) \<and>
    outq s @ concat (map (f (orig_state s)) ws) = concat (concat (concat prows)) @ outq s' \<and>
    (\<forall>i < length outs. c' (outs ! i) = c (outs ! i) @ column i prows) \<and> opencl_ends ins outs st' s' v"
  using opencl_workfn_run [OF assms, of r] unfolding opencl_run_def by (simp add: ex_simps) blast

theorem opencl_no_loss_witness:
  "\<exists>v r' s' st' (c' :: ptr \<Rightarrow> byte list list) rows ws prows.
    opencl_workfn (opencl_device (\<lambda>i l. l) cl_order (fst cl_sample)) [1] [2]
      (\<lparr>stk = None, niter = 0, cycles = 0\<rparr>, snd cl_sample, cl_store) = Some (Done (v, r', s', st')) \<and>
    [replicate 4 0, replicate 4 0, replicate 4 0] = column 0 rows @ c' 1 \<and>
    inq (snd cl_sample) @ concat (concat (concat rows)) = concat ws @ inq s' \<and>
    outq (snd cl_sample) @ concat (map (work_window (\<lambda>i l. l) cl_work cl_local) ws) = concat (concat (concat prows)) @ outq s' \<and>
    c' 2 = column 0 prows \<and> opencl_ends [1] [2] st' s' v"
proof -
  have dev: "device_maps (opencl_device (\<lambda>i l. l) cl_order (fst cl_sample)) (work_window (\<lambda>i l. l) cl_work)
      (orig_state (snd cl_sample)) (unat (in_bytes_per_iter (snd cl_sample))) (unat (out_bytes_per_iter (snd cl_sample)))"
    using device_one_maps [OF cl_one cl_gen cl_cells(2,1) cl_fair] by (simp only: cl_state)
  let ?r = "\<lparr>stk = None, niter = 0, cycles = 0\<rparr>" and ?dev = "opencl_device (\<lambda>i l. l) cl_order (fst cl_sample)"
  let ?c = "\<lambda>s. ring_items 4 STREAM_BUFFER_SIZE cl_store s"
  obtain v r' s' st' c' rows ws prows where "opencl_workfn ?dev [1] [2] (?r, snd cl_sample, cl_store) = Some (Done (v, r', s', st'))"
    "\<forall>i < length [1 :: ptr]. ?c ([1 :: ptr] ! i) = column i rows @ c' ([1 :: ptr] ! i)"
    "inq (snd cl_sample) @ concat (concat (concat rows)) = concat ws @ inq s'"
    "outq (snd cl_sample) @ concat (map (work_window (\<lambda>i l. l) cl_work cl_local) ws) = concat (concat (concat prows)) @ outq s'"
    "\<forall>i < length [2 :: ptr]. c' ([2 :: ptr] ! i) = ?c ([2 :: ptr] ! i) @ column i prows" "opencl_ends [1] [2] st' s' v"
    using opencl_no_loss [OF cl_holds cl_state(2,1) dev, of ?r] unfolding cl_state(3) by blast
  moreover from this(2,5) have "[replicate 4 0, replicate 4 0, replicate 4 0] = column 0 rows @ c' 1" "c' 2 = column 0 prows"
    by (simp_all add: cl_items [simplified])
  ultimately show ?thesis by blast
qed

text \<open>
  C10.  A kernel with one input and one output of 4-byte elements, whose work function is a list of instructions without
  branches that pops and pushes as often as its rates say and does not write state that work items share, does the same on
  the device: whatever the order in which the instructions of the work items are run, every item writes into its window of
  the output buffer what an iteration of the work function on the host, with its window on the input stream, pushes.
\<close>

theorem opencl_device_equivalent:
  assumes "one_kernel i out st b" and "opencl_codegen [i] [out] k st b = Done (K, s)"
    and "keeps_cells oth" and "cells_ok l" and "fair_order order K"
    and "length di = OPENCL_BUFFER_SIZE" "length do = OPENCL_BUFFER_SIZE"
    and "n * (4 * work_pops b) \<le> OPENCL_BUFFER_SIZE" "n * (4 * work_pushes b) \<le> OPENCL_BUFFER_SIZE"
    and host: "g < n" "Split_Join.holds S (xstore x) c" "i \<in> S" "out \<in> S" "i \<noteq> out" "(cells x, known x) = l"
      "c i = slots 0 (chunk (4 * work_pops b) di g) @ rest" "length (c out) + work_pushes b \<le> capacity"
  shows "\<exists>do' x' ys. opencl_device oth order K l n di do = Done do' \<and>
    exec_insts Nocheck (lift_oth oth) [i] [out] b x = Done x' \<and>
    Split_Join.holds S (xstore x') (c(i := rest, out := c out @ ys)) \<and> chunk (4 * work_pushes b) do' g = concat ys"
proof -
  obtain do' where d: "opencl_device oth order K l n di do = Done do'"
    "\<forall>g < n. chunk (4 * work_pushes b) do' g = work_window oth b l (chunk (4 * work_pops b) di g)"
    by (rule device_one [OF assms(1-9)]) blast
  let ?w = "chunk (4 * work_pops b) di g"
  have "Suc g * (4 * work_pops b) \<le> n * (4 * work_pops b)" using host(1) by (intro mult_le_mono1) simp
  then have "length ?w = 4 * work_pops b" using assms(6,8) by (intro length_chunk) (simp add: mult.commute)
  then have p: "length (slots 0 ?w) = work_pops b" by (simp add: slots_def)
  have b: "one_stream_code b" using assms(1) by (simp add: one_kernel_def)
  have t: "take (work_pops b) (c i) = slots 0 ?w" "drop (work_pops b) (c i) = rest" "work_pops b \<le> length (c i)" using host(7) p by simp_all
  obtain x' where "exec_insts Nocheck (lift_oth oth) [i] [out] b x = Done x'"
    "Split_Join.holds S (xstore x') (c(i := rest, out := c out @ work_lists oth b (slots 0 ?w) l))"
    using host_iteration [OF b assms(3) host(3-5,2) _ t(3) host(8)] assms(4) unfolding host(6) t(1,2) by auto
  moreover have "chunk (4 * work_pushes b) do' g = concat (work_lists oth b (slots 0 ?w) l)"
    using d(2) host(1) by (simp add: work_window_def slots_def)
  ultimately show ?thesis using d(1) by blast
qed

theorem opencl_device_equivalent_witness:
  "\<exists>do' x' ys. opencl_device (\<lambda>i l. l) cl_order (fst cl_sample) cl_local 2
      (replicate OPENCL_BUFFER_SIZE 0) (replicate OPENCL_BUFFER_SIZE 1) = Done do' \<and>
    exec_insts Nocheck (lift_oth (\<lambda>i l. l)) [1] [2] cl_work
      \<lparr>xstore = cl_store, cells = fst cl_local, known = snd cl_local\<rparr> = Done x' \<and>
    ring_items 4 STREAM_BUFFER_SIZE (xstore x') 2 = ys \<and> chunk 4 do' 1 = concat ys"
proof -
  let ?c = "\<lambda>s. ring_items 4 STREAM_BUFFER_SIZE cl_store s" and ?B = OPENCL_BUFFER_SIZE
  let ?x = "\<lparr>xstore = cl_store, cells = fst cl_local, known = snd cl_local\<rparr>"
  have l: "length (replicate ?B (0 :: byte)) = ?B" "length (replicate ?B (1 :: byte)) = ?B" "(1 :: nat) < 2"
    "2 * (4 * work_pops cl_work) \<le> ?B" "2 * (4 * work_pushes cl_work) \<le> ?B"
    by (simp_all add: cl_work_def OPENCL_BUFFER_SIZE_def)
  have h: "Split_Join.holds {1, 2} (xstore ?x) ?c" "(1 :: nat) \<in> {1, 2}" "(2 :: nat) \<in> {1, 2}" "(1 :: nat) \<noteq> 2"
    "(cells ?x, known ?x) = cl_local" using cl_holds by simp_all
  have w: "chunk 4 (replicate ?B (0 :: byte)) 1 = replicate 4 0" by (simp add: chunk_def OPENCL_BUFFER_SIZE_def)
  have c: "?c 1 = slots 0 (chunk (4 * work_pops cl_work) (replicate ?B 0) 1) @ [replicate 4 0, replicate 4 0]"
    using w unfolding cl_items by (simp add: cl_work_def slots_def) (simp add: chunk_def)
  have room: "length (?c 2) + work_pushes cl_work \<le> capacity"
    unfolding cl_items by (simp add: cl_work_def capacity_def ring_cap_def STREAM_BUFFER_SIZE_def)
  obtain do' x' ys where "opencl_device (\<lambda>i l. l) cl_order (fst cl_sample) cl_local 2 (replicate ?B 0) (replicate ?B 1) = Done do'"
    "exec_insts Nocheck (lift_oth (\<lambda>i l. l)) [1] [2] cl_work ?x = Done x'"
    "Split_Join.holds {1, 2} (xstore x') (?c(1 := [replicate 4 0, replicate 4 0], 2 := ?c 2 @ ys))"
    "chunk (4 * work_pushes cl_work) do' 1 = concat ys"
    using opencl_device_equivalent [OF cl_one cl_gen cl_cells(2,1) cl_fair l(1,2,4,5,3) h c room] by blast
  then show ?thesis by (intro exI [of _ do'] exI [of _ x'] exI [of _ ys]) (simp add: Split_Join.holds_def cl_items cl_work_def)
qed

subsection \<open>Several inputs\<close>

fun item_run :: "(winst \<Rightarrow> local \<Rightarrow> local) \<Rightarrow> byte list \<Rightarrow> nat \<Rightarrow> item \<times> byte list \<times> uint32 \<Rightarrow>
    (endp, item \<times> byte list \<times> uint32) outcome" where
  "item_run oth di 0 x = Done x"
| "item_run oth di (Suc n) x = bind_out (item_step oth di x) (item_run oth di n)"

lemma item_run_add: "item_run oth di (n + m) x = bind_out (item_run oth di n x) (item_run oth di m)"
proof (induction n arbitrary: x)
  case (Suc n)
  have "item_run oth di (n + m) = (\<lambda>x. bind_out (item_run oth di n x) (item_run oth di m))" by (rule ext) (rule Suc)
  then show ?case by (cases "item_step oth di x") simp_all
qed simp

text \<open>The pops from input \<open>j\<close> in a list of instructions.\<close>

fun pops_of :: "nat \<Rightarrow> winst list \<Rightarrow> nat" where
  "pops_of j [] = 0"
| "pops_of j (WIntr SPop r a # is) = (if \<exists>c. a ! 0 = Con c \<and> unat c = j then 1 else 0) + pops_of j is"
| "pops_of j (i # is) = pops_of j is"

fun no_ret :: "winst list \<Rightarrow> bool" where
  "no_ret [] = True"
| "no_ret (WRet v # is) = False"
| "no_ret (i # is) = no_ret is"

text \<open>An item that has run the code of some instructions has moved its index of input \<open>j\<close> by 4 for every pop.\<close>

lemma run_inst:
  assumes "dev_inst n m i = Done ds" and "no_ret [i]" and "it_code it = ds @ rest"
    and "item_run oth di (length ds) (it, x) = Done (it', x')"
  shows "it_code it' = rest \<and> it_idx it' False j = it_idx it False j + 4 * of_nat (pops_of j [i])"
proof (cases "\<exists>k r a. i = WIntr k r a \<and> (k = SPop \<or> k = SPush)")
  case True
  then obtain k r a c where i: "i = WIntr k r a" "k = SPop \<or> k = SPush" "a ! 0 = Con c"
    "ds = (if k = SPop then [DOff False (unat c), DIn, DTo (a ! 1), DBump False (unat c)]
      else [DOff True (unat c), DElem (a ! 1), DOut, DBump True (unat c)])"
    using assms(1) by (auto simp: assert_out_def split: opv.splits if_splits)
  have l: "length ds = 4" using i(4) by simp
  show ?thesis using i assms(3) assms(4) [unfolded l]
    by (cases x)
      (auto simp: numeral_eq_Suc item_step_def Let_def assert_out_def split: if_splits option.splits elim!: bind_out_DoneE)
next
  case False
  then have "ds = [DOther i]" "pops_of j [i] = 0" using assms(1,2)
    by (cases i; force elim: dev_inst.elims)+
  then show ?thesis using assms(3,4) by (cases x) (auto simp: item_step_def Let_def)
qed

lemma run_code:
  assumes "dev_code n m b = Done ds" and "no_ret b" and "it_code it = ds @ rest"
    and "item_run oth di (length ds) (it, x) = Done (it', x')"
  shows "it_code it' = rest \<and> it_idx it' False j = it_idx it False j + 4 * of_nat (pops_of j b)"
  using assms
proof (induction b arbitrary: ds it x)
  case (Cons i b)
  from Cons.prems(1) obtain d1 d2 where d: "dev_inst n m i = Done d1" "dev_code n m b = Done d2" "ds = d1 @ d2"
    by (auto elim!: bind_out_DoneE)
  obtain it1 x1 where r: "item_run oth di (length d1) (it, x) = Done (it1, x1)" "item_run oth di (length d2) (it1, x1) = Done (it', x')"
    using Cons.prems(4) unfolding d(3) length_append item_run_add by (auto elim!: bind_out_DoneE)
  have nr: "no_ret [i]" "no_ret b" using Cons.prems(2) by (cases i; simp)+
  have 1: "it_code it1 = d2 @ rest \<and> it_idx it1 False j = it_idx it False j + 4 * of_nat (pops_of j [i])"
    by (rule run_inst [OF d(1) nr(1) _ r(1)]) (simp add: Cons.prems(3) d(3))
  then have 2: "it_code it' = rest \<and> it_idx it' False j = it_idx it1 False j + 4 * of_nat (pops_of j b)"
    by (intro Cons.IH [OF d(2) nr(2) _ r(2)]) simp
  have "pops_of j (i # b) = pops_of j [i] + pops_of j b" by (cases "(j, i # b)" rule: pops_of.cases) auto
  then show ?case using 1 2 by (simp add: distrib_left)
qed simp

lemma dev_code_append:
  "dev_code n m (a @ b) = bind_out (dev_code n m a) (\<lambda>ds. bind_out (dev_code n m b) (\<lambda>es. Done (ds @ es)))"
proof (induction a)
  case Nil
  then show ?case by (cases "dev_code n m b") simp_all
next
  case (Cons i a)
  then show ?case by (cases "dev_inst n m i"; cases "dev_code n m a"; cases "dev_code n m b") simp_all
qed

text \<open>What the generated kernel knows of its inputs of \<open>n i\<close> elements of 4 bytes each.\<close>

lemma inner_offsets_nth:
  "inner_offsets r st ss js = Done xs \<Longrightarrow> length xs = length js \<and>
     (\<forall>i < length js. xs ! i = sum_list (map (\<lambda>s. of_int (r (hdr st s))) (take (js ! i) ss)))"
proof (induction js arbitrary: xs)
  case (Cons j js)
  then obtain ys where y: "inner_offsets r st ss js = Done ys"
    "xs = sum_list (map (\<lambda>s. of_int (r (hdr st s))) (take j ss)) # ys"
    by (auto simp: inner_offset_def assert_out_def elim!: bind_out_DoneE split: if_splits)
  with Cons.IH [OF y(1)] show ?case by (auto simp: nth_Cons split: nat.split)
qed simp

lemma codegen_inputs:
  assumes gen: "opencl_codegen ins outs k st b = Done (K, s)"
    and r: "\<forall>i < length ins. pop_rate (hdr st (ins ! i)) = int (n i) \<and> elem_size (hdr st (ins ! i)) = 4"
    and w: "w = (\<Sum>i < length ins. 4 * n i)" "w \<le> OPENCL_BUFFER_SIZE" and j: "j < length ins"
  shows "cl_in_bytes K = of_nat w" "cl_in_inner K ! j = of_nat (\<Sum>i < j. n i)"
proof -
  have 4: "4 * n i \<le> OPENCL_BUFFER_SIZE" if "i < length ins" for i
  proof -
    have "4 * n i \<le> (\<Sum>i < length ins. 4 * n i)" by (rule member_le_sum) (use that in auto)
    then show ?thesis using w by simp
  qed
  have "map (rate_bytes pop_rate st) ins = map (\<lambda>i. of_nat (4 * n i)) [0..<length ins]"
    using r rate_bytes_4 [of pop_rate st] 4 by (intro nth_equalityI) simp_all
  then have "sum_list (map (rate_bytes pop_rate st) ins) = of_nat w"
    by (simp only: w(1) sum_list_sum_nth of_nat_sum) (simp add: atLeast0LessThan)
  then show "cl_in_bytes K = of_nat w"
    using gen ucast_small(2) [OF w(2)]
    by (auto simp: opencl_codegen_def new_opencl_state_t_def Let_def elim!: bind_out_DoneE)
  obtain xs where x: "inner_offsets pop_rate st ins [0..<length ins] = Done xs" "cl_in_inner K = xs"
    using gen by (auto simp: opencl_codegen_def Let_def elim!: bind_out_DoneE)
  have "map (\<lambda>s. of_int (pop_rate (hdr st s)) :: uint32) (take j ins) = map (\<lambda>i. of_nat (n i)) [0..<j]"
    using r j by (intro nth_equalityI) simp_all
  moreover have "sum_list (map (\<lambda>i. of_nat (n i) :: uint32) [0..<j]) = of_nat (\<Sum>i < j. n i)"
    by (simp only: sum_list_sum_nth of_nat_sum) (simp add: atLeast0LessThan)
  ultimately show "cl_in_inner K ! j = of_nat (\<Sum>i < j. n i)"
    using inner_offsets_nth [OF x(1)] j x(2) by simp
qed

text \<open>An element of a row of streams whose elements have 4 bytes.\<close>

lemma take_concat_4:
  "\<forall>e \<in> set es. length e = 4 \<Longrightarrow> m < length es \<Longrightarrow> take 4 (drop (4 * m) (concat es @ z)) = (es ! m :: byte list)"
proof (induction es arbitrary: m)
  case (Cons e es)
  then show ?case by (cases m) simp_all
qed simp

lemma row_element:
  assumes "length row = l" "\<forall>i < l. length (row ! i) = n i \<and> (\<forall>e \<in> set (row ! i). length e = 4)" and "j < l" "m < n j"
  shows "take 4 (drop (4 * (\<Sum>i < j. n i) + 4 * m) (concat (concat row))) = (row ! j ! m :: byte list)"
proof -
  have e: "\<forall>e \<in> set (concat row). length e = 4" using assms(1,2) by (metis UN_E in_set_conv_nth set_concat)
  have "row = take j row @ row ! j # drop (Suc j) row" using assms(1,3) by (simp add: id_take_nth_drop)
  then have c: "concat row = concat (take j row) @ row ! j @ concat (drop (Suc j) row)" by (metis concat.simps(2) concat_append)
  have "length (concat (take j row)) = sum_list (map length (take j row))" by (simp add: length_concat)
  also have "\<dots> = (\<Sum>i < j. n i)" using assms(1-3) by (simp add: sum_list_sum_nth atLeast0LessThan)
  finally have l: "length (concat (take j row)) = (\<Sum>i < j. n i)" .
  have m: "m < length (row ! j)" using assms(2-4) by simp
  then have "concat row ! ((\<Sum>i < j. n i) + m) = row ! j ! m" "(\<Sum>i < j. n i) + m < length (concat row)"
    unfolding c nth_append l by (simp_all add: l nth_append)
  then show ?thesis using take_concat_4 [OF e, of "(\<Sum>i < j. n i) + m" "[]"] by (simp add: distrib_left)
qed

lemma item_pop:
  assumes "it_code it = [DOff False j, DIn, DTo p, DBump False j] @ ds" and "unat (it_idx it False j) = q" and "q + 4 \<le> length di"
  shows "\<exists>it'. item_run oth di 4 (it, x) = Done (it', x) \<and> it_code it' = ds \<and> fst (it_local it') p = take 4 (drop q di)"
  using assms by (cases x) (simp add: numeral_eq_Suc item_step_def Let_def mem_get_def)

text \<open>
  C21.  Take any pop in a kernel with inputs of 4-byte elements, preceded by no return and by \<open>m\<close> pops from the same
  input \<open>j\<close>, in any work item.  The code for the device gives the item the four bytes at \<open>R + 4 m\<close> of its window, where \<open>R\<close>
  is the sum of the pop rates of the inputs before \<open>j\<close>; but the \<open>m\<close>-th element of input \<open>j\<close> is at \<open>4 R + 4 m\<close>.  So
  the first input is read right and every other input at the wrong place.
\<close>

theorem opencl_second_input_misread:
  assumes "opencl_codegen ins outs k st (pre @ WIntr SPop r [Con c, p] # post) = Done (K, s)"
    and "no_ret pre" and "dev_code (length ins) (length outs) pre = Done ds" and "j = unat c" and "m = pops_of j pre" "m < n j"
    and "\<forall>i < length ins. pop_rate (hdr st (ins ! i)) = int (n i) \<and> elem_size (hdr st (ins ! i)) = 4"
    and "w = (\<Sum>i < length ins. 4 * n i)" "Suc g * w \<le> OPENCL_BUFFER_SIZE" "length di = OPENCL_BUFFER_SIZE"
    and "chunk w di g = concat (concat row)" "length row = length ins"
    and "\<forall>i < length ins. length (row ! i) = n i \<and> (\<forall>e \<in> set (row ! i). length e = 4)"
    and "item_run oth di (length ds) (start_item K l g, x) = Done (it, x')"
  shows "\<exists>it'. item_run oth di (length ds + 4) (start_item K l g, x) = Done (it', x') \<and>
    fst (it_local it') p = take 4 (drop ((\<Sum>i < j. n i) + 4 * m) (concat (concat row))) \<and>
    row ! j ! m = take 4 (drop (4 * (\<Sum>i < j. n i) + 4 * m) (concat (concat row)))"
proof -
  obtain es where code: "cl_code K = ds @ [DOff False j, DIn, DTo p, DBump False j] @ es" and j: "j < length ins"
    using assms(1,3,4)
    by (auto simp: opencl_codegen_def Let_def dev_code_append assert_out_def elim!: bind_out_DoneE split: if_splits)
  have wB: "w \<le> OPENCL_BUFFER_SIZE" using assms(9) by simp
  note K = codegen_inputs [OF assms(1,7,8) wB j]
  let ?S = "\<Sum>i < j. n i"
  have "(\<Sum>i < Suc j. n i) \<le> (\<Sum>i < length ins. n i)" using j by (intro sum_mono2) auto
  moreover have "w = 4 * (\<Sum>i < length ins. n i)" using assms(8) by (simp add: sum_distrib_left)
  ultimately have in_w: "?S + 4 * m + 4 \<le> w" using assms(6) by simp
  have run: "it_code it = [DOff False j, DIn, DTo p, DBump False j] @ es \<and>
      it_idx it False j = it_idx (start_item K l g) False j + 4 * of_nat m"
    using run_code [OF assms(3,2) _ assms(14), of _ j] code assms(5) by (simp add: start_item_def)
  have "it_idx (start_item K l g) False j + 4 * of_nat m = of_nat (g * w + (?S + 4 * m))"
    using K by (simp add: start_item_def mult.commute)
  moreover have le: "g * w + (?S + 4 * m) + 4 \<le> OPENCL_BUFFER_SIZE" using in_w assms(9) by simp
  ultimately have "it_idx it False j = of_nat (g * w + (?S + 4 * m))" "g * w + (?S + 4 * m) \<le> OPENCL_BUFFER_SIZE"
    using run by (simp_all only: add_leD1)
  then have "unat (it_idx it False j) = g * w + (?S + 4 * m)" by (simp only: unat_uint32_small)
  from item_pop [OF conjunct1 [OF run] this, of di oth x'] le assms(10) obtain it' where
    it': "item_run oth di 4 (it, x') = Done (it', x')" "fst (it_local it') p = take 4 (drop (g * w + (?S + 4 * m)) di)" by auto
  have "take 4 (drop (?S + 4 * m) (chunk w di g)) = take 4 (drop (g * w + (?S + 4 * m)) di)"
    using in_w by (simp add: chunk_def drop_take min_def add.commute mult.commute)
  moreover have "item_run oth di (length ds + 4) (start_item K l g, x) = Done (it', x')"
    using assms(14) it'(1) by (simp add: item_run_add)
  ultimately show ?thesis using it'(2) row_element [OF assms(12,13) j assms(6)] assms(11) by auto
qed

text \<open>Item 1 of a kernel with two inputs pops the second: the element is 40, 41, 42, 43.\<close>

theorem opencl_second_input_misread_witness:
  "\<exists>K s it' x'. opencl_codegen [1, 2] [] cl_local cl_store [WIntr SPop [0] [Con 1, Arg 5]] = Done (K, s) \<and>
    item_run (\<lambda>i l. l) ([10, 11, 12, 13, 20, 21, 22, 23, 30, 31, 32, 33, 40, 41, 42, 43] @ replicate (OPENCL_BUFFER_SIZE - 16) 0) 4
      (start_item K cl_local 1, [], 0) = Done (it', x') \<and>
    fst (it_local it') (Arg 5) = [31, 32, 33, 40]"
proof -
  let ?b = "[] @ WIntr SPop [0] [Con 1, Arg 5] # []" and ?row = "[[[30, 31, 32, 33]], [[40, 41, 42, 43]]] :: byte list list list"
  let ?di = "[10, 11, 12, 13, 20, 21, 22, 23, 30, 31, 32, 33, 40, 41, 42, 43] @ replicate (OPENCL_BUFFER_SIZE - 16) (0 :: byte)"
  have "\<exists>K s. opencl_codegen [1, 2] [] cl_local cl_store ?b = Done (K, s)"
    by (simp add: opencl_codegen_def Let_def inner_offset_def upt_conv_Cons)
  then obtain K s where gen: "opencl_codegen [1, 2] [] cl_local cl_store ?b = Done (K, s)" by blast
  have r: "\<forall>i < length [1, 2 :: nat]. pop_rate (hdr cl_store ([1, 2] ! i)) = int 1 \<and> elem_size (hdr cl_store ([1, 2] ! i)) = 4"
    by (simp add: cl_store_def sample_stream_def nth_Cons split: nat.split)
  have w: "8 = (\<Sum>i < length [1, 2 :: nat]. 4 * (\<lambda>_. 1 :: nat) i)" by simp
  have B: "Suc 1 * 8 \<le> OPENCL_BUFFER_SIZE" "length ?di = OPENCL_BUFFER_SIZE" by (simp_all add: OPENCL_BUFFER_SIZE_def)
  have row: "chunk 8 ?di 1 = concat (concat ?row)" "length ?row = length [1, 2 :: nat]"
    "\<forall>i < length [1, 2 :: nat]. length (?row ! i) = 1 \<and> (\<forall>e \<in> set (?row ! i). length e = 4)"
    by (simp_all add: chunk_def nth_Cons split: nat.split)
  obtain it' where "item_run (\<lambda>i l. l) ?di (length ([] :: dinst list) + 4) (start_item K cl_local 1, [], 0) = Done (it', [], 0)"
    "fst (it_local it') (Arg 5) = take 4 (drop ((\<Sum>i < unat (1 :: uint32). (\<lambda>_. 1) i) + 4 * 0) (concat (concat ?row)))"
    using opencl_second_input_misread [OF gen _ _ refl _ _ r w B row, of "[]" 0 "\<lambda>i l. l" cl_local "([], 0)" _ "([], 0)"] by auto
  then show ?thesis using gen by (intro exI [of _ K] exI [of _ s] exI [of _ it'] exI [of _ "([], 0)"]) simp
qed

lemma opencl_source_faults:
  "opencl_workfn dev [] outs (r, new_opencl_state_t [] outs k st, st) = Some Fault"
  by (subst opencl_workfn.simps)
    (simp add: opencl_round_def opencl_pop_inputs_def div_out_def new_opencl_state_t_def)

end
