(* ===== verification/FE_Nodes.thy ===== *)
theory FE_Nodes
  imports Symbol_Table "HOL-Library.Signed_Division"
begin

section \<open>Programs of the StreamIt front end\<close>

text \<open>
  The nodes of \<open>tools/streamit/nodes\<close> that the bodies of filters consist of, and the conversion of types in
  \<open>TypeConvert.hpp\<close>.  A body that is missing (a null pointer) is the empty statement, for which no code is
  generated either.  The nodes that the code generator does not handle (complex numbers, ranges, fields of
  structures, messages) are left out.
\<close>

datatype binop =
    BINOP_ADD | BINOP_SUB | BINOP_MUL | BINOP_DIV | BINOP_MOD | BINOP_AND | BINOP_OR
  | BINOP_EQ | BINOP_NEQ | BINOP_LT | BINOP_LE | BINOP_GT | BINOP_GE
  | BINOP_BAND | BINOP_BOR | BINOP_BXOR | BINOP_LSHIFT | BINOP_RSHIFT

datatype unop =
    UNOP_NOT | UNOP_NEG | UNOP_PREINC | UNOP_POSTINC | UNOP_PREDEC | UNOP_POSTDEC | UNOP_COMPLEMENT

datatype prim =
    TYPE_STRING | TYPE_BIT | TYPE_INT | TYPE_FLOAT | TYPE_DOUBLE | TYPE_COMPLEX | TYPE_VOID | TYPE_BOOLEAN
  | TYPE_CHAR | TYPE_FLOAT2 | TYPE_FLOAT3 | TYPE_FLOAT4 | TYPE_INTPTR

text \<open>Floating-point numbers are a type \<open>'f\<close>.\<close>

datatype 'f stype =
    TypePrimitive prim
  | TypeArray "'f stype" "'f expr"
and 'f expr =
    ExprVar string
  | ExprArray "'f expr" "'f expr"
  | ExprArrayInit "'f expr list"
  | ExprConstBoolean bool
  | ExprConstChar "8 word"
  | ExprConstInt "32 word"
  | ExprConstFloat 'f
  | ExprConstStr string
  | ExprBinary binop "'f expr" "'f expr"
  | ExprUnary unop "'f expr"
  | ExprTernary "'f expr" "'f expr" "'f expr"
  | ExprTypeCast "'f stype" "'f expr"
  | ExprFunCall string "'f expr list"
  | ExprPeek "'f expr"
  | ExprPop

text \<open>The operator of an assignment is \<open>None\<close> where it is 0 in the code.\<close>

datatype 'f stmt =
    StmtEmpty
  | StmtExpr "'f expr"
  | StmtAssign "binop option" "'f expr" "'f expr"
  | StmtPush "'f expr"
  | StmtVarDecl "('f stype \<times> string \<times> 'f expr option) list"
  | StmtBlock "'f stmt list"
  | StmtIfThen "'f expr" "'f stmt" "'f stmt option"
  | StmtWhile "'f expr" "'f stmt"
  | StmtDoWhile "'f stmt" "'f expr"
  | StmtFor "'f stmt" "'f expr" "'f stmt" "'f stmt"
  | StmtBreak
  | StmtContinue
  | StmtReturn

text \<open>What the symbol table knows of a name: a variable, or a function with its parameters and its result.\<close>

datatype 'f fe_node =
    NVar
  | NFunc string "'f stype list" "'f stype"

fun isArrayInit :: "'f expr \<Rightarrow> bool" where
  "isArrayInit (ExprArrayInit es) = True"
| "isArrayInit _ = False"

fun getDims :: "'f expr \<Rightarrow> nat" where
  "getDims (ExprArrayInit (e # es)) = (if isArrayInit e then 1 + getDims e else 1)"
| "getDims _ = 1"

fun IsZero :: "'f expr \<Rightarrow> bool" where
  "IsZero (ExprConstInt i) = (i = 0)"
| "IsZero _ = False"

subsection \<open>Types\<close>

datatype ty = TInt nat | TFloat | TDouble | TVoid | TPtr ty | TArr nat ty

definition is_int :: "ty \<Rightarrow> bool" where
  "is_int t = (case t of TInt _ \<Rightarrow> True | _ \<Rightarrow> False)"

definition is_fp :: "ty \<Rightarrow> bool" where
  "is_fp t = (t = TFloat \<or> t = TDouble)"

definition is_ptr :: "ty \<Rightarrow> bool" where
  "is_ptr t = (case t of TPtr _ \<Rightarrow> True | _ \<Rightarrow> False)"

lemma is_simps [simp]:
  "is_int (TInt n)" "\<not> is_int TFloat" "\<not> is_int TDouble" "\<not> is_int TVoid" "\<not> is_int (TPtr t)" "\<not> is_int (TArr n t)"
  "is_fp TFloat" "is_fp TDouble" "\<not> is_fp (TInt n)" "\<not> is_fp TVoid" "\<not> is_fp (TPtr t)" "\<not> is_fp (TArr n t)"
  by (simp_all add: is_int_def is_fp_def)

lemma is_intE: "is_int t \<Longrightarrow> (\<And>n. t = TInt n \<Longrightarrow> P) \<Longrightarrow> P"
  by (cases t) simp_all

text \<open>
  The type that a node stands for.  The types that the code maps to null, which crashes wherever a type is used,
  are a fault, and so is an array whose length is not a constant (an assertion of \<open>ExprEvalVisitor\<close>).
\<close>

fun visitTypePrimitive :: "prim \<Rightarrow> ty option" where
  "visitTypePrimitive TYPE_INT = Some (TInt 32)"
| "visitTypePrimitive TYPE_FLOAT = Some TFloat"
| "visitTypePrimitive TYPE_DOUBLE = Some TDouble"
| "visitTypePrimitive TYPE_VOID = Some TVoid"
| "visitTypePrimitive TYPE_BOOLEAN = Some (TInt 1)"
| "visitTypePrimitive TYPE_BIT = Some (TInt 1)"
| "visitTypePrimitive TYPE_STRING = Some (TPtr (TInt 8))"
| "visitTypePrimitive TYPE_INTPTR = Some (TPtr (TInt 32))"
| "visitTypePrimitive TYPE_CHAR = Some (TInt 8)"
| "visitTypePrimitive _ = None"

fun ExprEval :: "'f expr \<Rightarrow> nat option" where
  "ExprEval (ExprConstInt i) = Some (unat (scast i :: 64 word))"
| "ExprEval _ = None"

fun convert :: "'f stype \<Rightarrow> (unit, ty) outcome" where
  "convert (TypePrimitive p) = (case visitTypePrimitive p of Some t \<Rightarrow> Done t | None \<Rightarrow> Fault)"
| "convert (TypeArray b n) =
     bind_out (convert b) (\<lambda>t. case ExprEval n of Some k \<Rightarrow> Done (TArr k t) | None \<Rightarrow> Fault)"

fun converts :: "'f stype list \<Rightarrow> (unit, ty list) outcome" where
  "converts [] = Done []"
| "converts (t # ts) = bind_out (convert t) (\<lambda>t. bind_out (converts ts) (\<lambda>ts. Done (t # ts)))"

end
