(* ===== verification/FE_Code.thy ===== *)
theory FE_Code
  imports FE_Nodes
begin

section \<open>The code generator of the StreamIt compiler\<close>

text \<open>
  \<open>tools/streamit/FEIRToSKIR.cpp\<close>: the visitor that turns the bodies of filters into LLVM code.  A function is
  a list of instructions for each basic block, blocks and registers are numbered.  A builder
  appends to the block it was created for, which is not always the current one, so that every operation
  of a builder has the block as its first argument.  An \<open>alloca\<close> is inserted at the entry of the function,
  is executed once and is known by its number.  Casts between pointer types, which do
  nothing, are left out.

  An assertion of LLVM that fails (operands of different types, a branch to no block, a store of the
  wrong type), \<open>error\<close> and \<open>warn\<close>, which end with \<open>assert(0)\<close>, and a null pointer that is followed are \<open>Fault\<close>.
  \<open>CreateAdd\<close>, \<open>CreateSub\<close> and \<open>CreateMul\<close> on floating-point operands make the floating-point
  instructions, as LLVM did for compatibility.
\<close>

subsection \<open>Instructions\<close>

text \<open>
  An operand is a register, a constant, or the address of a stack slot or global variable; \<open>ONull\<close> is
  \<open>Constant::getNullValue\<close>.
\<close>

datatype 'f opnd =
    OReg nat ty
  | OInt nat int
  | OFlt 'f
  | OStr string
  | ONull ty
  | OSlot nat ty
  | OGlobal string ty

fun typ_of :: "'f opnd \<Rightarrow> ty" where
  "typ_of (OReg n t) = t"
| "typ_of (OInt n i) = TInt n"
| "typ_of (OFlt f) = TFloat"
| "typ_of (OStr s) = TPtr (TInt 8)"
| "typ_of (ONull t) = t"
| "typ_of (OSlot n t) = TPtr t"
| "typ_of (OGlobal s t) = TPtr t"

datatype arith = AAdd | ASub | AMul | ASDiv | ASRem | AFDiv | AFRem | AAnd | AOr | AXor | AShl | AAShr

datatype cmp = CEq | CNe | CLt | CLe | CGt | CGe

text \<open>The first argument of an instruction that has a result is the register.\<close>

datatype 'f instr =
    IBin arith nat "'f opnd" "'f opnd"
  | ICmp cmp nat "'f opnd" "'f opnd"
  | IFCmp cmp nat "'f opnd" "'f opnd"
  | INot nat "'f opnd"
  | INeg nat "'f opnd"
  | ISIToFP nat "'f opnd" ty
  | IFPToSI nat "'f opnd" ty
  | ISExt nat "'f opnd" ty
  | ILoad nat "'f opnd"
  | IStore "'f opnd" "'f opnd"
  | IElem nat "'f opnd" "'f opnd"
  | IField nat nat
  | IArg nat nat
  | ICall nat string "'f opnd list"
  | IPeek "'f opnd" "'f opnd"
  | IPop "'f opnd"
  | IPush "'f opnd"
  | IPhi nat "('f opnd \<times> nat) list"
  | IBr nat
  | ICondBr "'f opnd" nat nat
  | IRet

text \<open>
  The state of the generator: the function so far, the members of the visitor, and the types of the input
  elements, the fields of the kernel's state and the parameters of the stream, which it looks up.
  \<open>breakBB\<close> and \<open>continueBB\<close> are not initialised in the code; \<open>None\<close> stands for that and for null.
\<close>

record 'f cg =
  code :: "nat \<Rightarrow> 'f instr list"
  nblk :: nat
  nreg :: nat
  nslot :: nat
  currentBB :: nat
  breakBB :: "nat option"
  continueBB :: "nat option"
  inLHS :: bool
  symt :: "('f fe_node, 'f opnd) symtab"
  in_type :: ty
  state_ty :: "ty list"

type_synonym 'f gen = "'f cg \<Rightarrow> (unit, 'f opnd \<times> 'f cg) outcome"

type_synonym 'f gen_stmt = "'f cg \<Rightarrow> (unit, 'f cg) outcome"

subsection \<open>The builder\<close>

definition emit :: "nat \<Rightarrow> 'f instr \<Rightarrow> 'f cg \<Rightarrow> 'f cg" where
  "emit b i s = s\<lparr>code := (code s)(b := code s b @ [i])\<rparr>"

definition value_at :: "nat \<Rightarrow> (nat \<Rightarrow> 'f instr) \<Rightarrow> ty \<Rightarrow> 'f cg \<Rightarrow> 'f opnd \<times> 'f cg" where
  "value_at b mk t s = (OReg (nreg s) t, emit b (mk (nreg s)) (s\<lparr>nreg := Suc (nreg s)\<rparr>))"

fun arith_ok :: "arith \<Rightarrow> ty \<Rightarrow> bool" where
  "arith_ok AAdd t = (is_int t \<or> is_fp t)"
| "arith_ok ASub t = (is_int t \<or> is_fp t)"
| "arith_ok AMul t = (is_int t \<or> is_fp t)"
| "arith_ok AFDiv t = is_fp t"
| "arith_ok AFRem t = is_fp t"
| "arith_ok _ t = is_int t"

definition CreateBin :: "nat \<Rightarrow> arith \<Rightarrow> 'f opnd \<Rightarrow> 'f opnd \<Rightarrow> 'f gen" where
  "CreateBin b a l r s =
     (if typ_of l = typ_of r \<and> arith_ok a (typ_of l)
      then Done (value_at b (\<lambda>n. IBin a n l r) (typ_of l) s) else Fault)"

definition CreateICmp :: "nat \<Rightarrow> cmp \<Rightarrow> 'f opnd \<Rightarrow> 'f opnd \<Rightarrow> 'f gen" where
  "CreateICmp b c l r s =
     (if typ_of l = typ_of r \<and> (is_int (typ_of l) \<or> is_ptr (typ_of l))
      then Done (value_at b (\<lambda>n. ICmp c n l r) (TInt 1) s) else Fault)"

definition CreateFCmp :: "nat \<Rightarrow> cmp \<Rightarrow> 'f opnd \<Rightarrow> 'f opnd \<Rightarrow> 'f gen" where
  "CreateFCmp b c l r s =
     (if typ_of l = typ_of r \<and> is_fp (typ_of l)
      then Done (value_at b (\<lambda>n. IFCmp c n l r) (TInt 1) s) else Fault)"

definition CreateCmp :: "nat \<Rightarrow> cmp \<Rightarrow> 'f opnd \<Rightarrow> 'f opnd \<Rightarrow> 'f gen" where
  "CreateCmp b c l r s = (if is_fp (typ_of l) then CreateFCmp b c l r s else CreateICmp b c l r s)"

definition CreateNot :: "nat \<Rightarrow> 'f opnd \<Rightarrow> 'f gen" where
  "CreateNot b v s = (if is_int (typ_of v) then Done (value_at b (\<lambda>n. INot n v) (typ_of v) s) else Fault)"

definition CreateNeg :: "nat \<Rightarrow> 'f opnd \<Rightarrow> 'f gen" where
  "CreateNeg b v s =
     (if is_int (typ_of v) \<or> is_fp (typ_of v) then Done (value_at b (\<lambda>n. INeg n v) (typ_of v) s) else Fault)"

definition CreateLoad :: "nat \<Rightarrow> 'f opnd \<Rightarrow> 'f gen" where
  "CreateLoad b p s = (case typ_of p of TPtr t \<Rightarrow> Done (value_at b (\<lambda>n. ILoad n p) t s) | _ \<Rightarrow> Fault)"

definition CreateStore :: "nat \<Rightarrow> 'f opnd \<Rightarrow> 'f opnd \<Rightarrow> 'f gen_stmt" where
  "CreateStore b v p s = (if typ_of p = TPtr (typ_of v) then Done (emit b (IStore v p) s) else Fault)"

definition CreateElem :: "nat \<Rightarrow> 'f opnd \<Rightarrow> 'f opnd \<Rightarrow> 'f gen" where
  "CreateElem b p i s =
     (case typ_of p of
        TPtr (TArr k t) \<Rightarrow> if is_int (typ_of i) then Done (value_at b (\<lambda>n. IElem n p i) (TPtr t) s) else Fault
      | _ \<Rightarrow> Fault)"

definition CreateField :: "nat \<Rightarrow> int \<Rightarrow> 'f gen" where
  "CreateField b k s =
     (if 0 \<le> k \<and> nat k < length (state_ty s)
      then Done (value_at b (\<lambda>n. IField n (nat k)) (TPtr (state_ty s ! nat k)) s) else Fault)"

definition CreateBlock :: "'f cg \<Rightarrow> nat \<times> 'f cg" where
  "CreateBlock s = (nblk s, s\<lparr>nblk := Suc (nblk s)\<rparr>)"

definition CreateBr :: "nat \<Rightarrow> nat option \<Rightarrow> 'f gen_stmt" where
  "CreateBr b t s = (case t of Some t \<Rightarrow> Done (emit b (IBr t) s) | None \<Rightarrow> Fault)"

definition CreateCondBr :: "nat \<Rightarrow> 'f opnd \<Rightarrow> nat \<Rightarrow> nat \<Rightarrow> 'f gen_stmt" where
  "CreateCondBr b c x y s = (if typ_of c = TInt 1 then Done (emit b (ICondBr c x y) s) else Fault)"

definition CreateAlloca :: "ty \<Rightarrow> 'f gen" where
  "CreateAlloca t s = (if t = TVoid then Fault else Done (OSlot (nslot s) t, s\<lparr>nslot := Suc (nslot s)\<rparr>))"

text \<open>\<open>SKIRBuilder::CreatePeek\<close> brings the offset to 32 bits.\<close>

definition CreatePeek :: "nat \<Rightarrow> 'f opnd \<Rightarrow> 'f opnd \<Rightarrow> 'f gen_stmt" where
  "CreatePeek b e n s =
     (case typ_of n of
        TInt k \<Rightarrow>
          if k = 32 then Done (emit b (IPeek e n) s)
          else if k < 32 then
            (let (n, s) = value_at b (\<lambda>r. ISExt r n (TInt 32)) (TInt 32) s in Done (emit b (IPeek e n) s))
          else Fault
      | _ \<Rightarrow> Fault)"

definition matchTypes :: "'f opnd \<Rightarrow> ty \<Rightarrow> 'f gen" where
  "matchTypes v t s =
     (if typ_of v = t then Done (v, s)
      else if is_int (typ_of v) \<and> is_fp t then Done (value_at (currentBB s) (\<lambda>n. ISIToFP n v t) t s)
      else if is_fp (typ_of v) \<and> is_int t then Done (value_at (currentBB s) (\<lambda>n. IFPToSI n v t) t s)
      else Fault)"

text \<open>The conversion of conditions to booleans, which the code repeats.\<close>

definition nonzero :: "nat \<Rightarrow> 'f opnd \<Rightarrow> 'f gen" where
  "nonzero b v s =
     (if typ_of v \<noteq> TInt 1 then
        if is_int (typ_of v) then CreateICmp b CNe v (ONull (typ_of v)) s
        else if is_fp (typ_of v) then CreateFCmp b CNe v (ONull (typ_of v)) s
        else Done (v, s)
      else Done (v, s))"

definition branch_on :: "nat \<Rightarrow> 'f opnd \<Rightarrow> nat \<Rightarrow> nat \<Rightarrow> 'f gen_stmt" where
  "branch_on b c x y s = bind_out (nonzero b c s) (\<lambda>(c, s). CreateCondBr b c x y s)"

subsection \<open>Expressions\<close>

text \<open>
  A visitor has the generators of its children as arguments.  While an expression is visited with \<open>inLHS\<close>, its
  value is the address.
\<close>

definition visitExprVar :: "string \<Rightarrow> 'f gen" where
  "visitExprVar name s =
     (case find_value (symt s) name of
        Some v \<Rightarrow>
          bind_out (case v of OInt n k \<Rightarrow> CreateField (currentBB s) k s | _ \<Rightarrow> Done (v, s)) (\<lambda>(v, s).
            if \<not> inLHS s then CreateLoad (currentBB s) v s else Done (v, s))
      | _ \<Rightarrow> Fault)"

definition visitExprArray :: "'f gen \<Rightarrow> 'f gen \<Rightarrow> 'f gen" where
  "visitExprArray gbase goffset s =
     (let b = inLHS s in
      bind_out (gbase (s\<lparr>inLHS := True\<rparr>)) (\<lambda>(base, s).
      bind_out (goffset (s\<lparr>inLHS := False\<rparr>)) (\<lambda>(offset, s).
      bind_out (CreateElem (currentBB s) base offset (s\<lparr>inLHS := b\<rparr>)) (\<lambda>(ptr, s).
        if inLHS s then Done (ptr, s) else CreateLoad (currentBB s) ptr s))))"

text \<open>The tests of \<open>BINOP_AND\<close> use one variable for the type, which still is the left type in the second test
  when the left operand is a boolean.\<close>

definition create_and :: "nat \<Rightarrow> 'f opnd \<Rightarrow> 'f opnd \<Rightarrow> 'f gen" where
  "create_and b vl vr s =
     (if typ_of vl \<noteq> TInt 1 then
        bind_out (nonzero b vl s) (\<lambda>(vl, s). bind_out (nonzero b vr s) (\<lambda>(vr, s). CreateBin b AAnd vl vr s))
      else CreateBin b AAnd vl vr s)"

definition create_or :: "nat \<Rightarrow> 'f opnd \<Rightarrow> 'f opnd \<Rightarrow> 'f gen" where
  "create_or b vl vr s =
     bind_out (nonzero b vl s) (\<lambda>(vl, s). bind_out (nonzero b vr s) (\<lambda>(vr, s). CreateBin b AOr vl vr s))"

fun create_binary :: "binop \<Rightarrow> nat \<Rightarrow> 'f opnd \<Rightarrow> 'f opnd \<Rightarrow> 'f gen" where
  "create_binary BINOP_ADD b vl vr = CreateBin b AAdd vl vr"
| "create_binary BINOP_SUB b vl vr = CreateBin b ASub vl vr"
| "create_binary BINOP_MUL b vl vr = CreateBin b AMul vl vr"
| "create_binary BINOP_DIV b vl vr = CreateBin b (if is_fp (typ_of vl) then AFDiv else ASDiv) vl vr"
| "create_binary BINOP_MOD b vl vr = CreateBin b (if is_fp (typ_of vl) then AFRem else ASRem) vl vr"
| "create_binary BINOP_AND b vl vr = create_and b vl vr"
| "create_binary BINOP_OR b vl vr = create_or b vl vr"
| "create_binary BINOP_EQ b vl vr = CreateCmp b CEq vl vr"
| "create_binary BINOP_NEQ b vl vr = CreateCmp b CNe vl vr"
| "create_binary BINOP_LT b vl vr = CreateCmp b CLt vl vr"
| "create_binary BINOP_LE b vl vr = CreateCmp b CLe vl vr"
| "create_binary BINOP_GT b vl vr = CreateCmp b CGt vl vr"
| "create_binary BINOP_GE b vl vr = CreateCmp b CGe vl vr"
| "create_binary BINOP_BAND b vl vr = CreateBin b AAnd vl vr"
| "create_binary BINOP_BOR b vl vr = CreateBin b AOr vl vr"
| "create_binary BINOP_BXOR b vl vr = CreateBin b AXor vl vr"
| "create_binary BINOP_LSHIFT b vl vr = CreateBin b AShl vl vr"
| "create_binary BINOP_RSHIFT b vl vr = CreateBin b AAShr vl vr"

definition match_operands :: "'f opnd \<Rightarrow> 'f opnd \<Rightarrow> 'f cg \<Rightarrow> (unit, ('f opnd \<times> 'f opnd) \<times> 'f cg) outcome" where
  "match_operands vl vr s =
     (if \<not> is_fp (typ_of vl) \<and> is_fp (typ_of vr) then bind_out (matchTypes vl (typ_of vr) s) (\<lambda>(vl, s). Done ((vl, vr), s))
      else if is_fp (typ_of vl) \<and> \<not> is_fp (typ_of vr) then bind_out (matchTypes vr (typ_of vl) s) (\<lambda>(vr, s). Done ((vl, vr), s))
      else Done ((vl, vr), s))"

definition visitExprBinary :: "binop \<Rightarrow> 'f gen \<Rightarrow> 'f gen \<Rightarrow> 'f gen" where
  "visitExprBinary op gl gr s =
     bind_out (gl s) (\<lambda>(vl, s).
     bind_out (gr s) (\<lambda>(vr, s).
     bind_out (match_operands vl vr s) (\<lambda>((vl, vr), s). create_binary op (currentBB s) vl vr s)))"

definition visitStmtAssign :: "'f gen \<Rightarrow> 'f gen \<Rightarrow> 'f gen" where
  "visitStmtAssign glhs grhs s =
     bind_out (glhs (s\<lparr>inLHS := True\<rparr>)) (\<lambda>(lhs, s).
     bind_out (grhs (s\<lparr>inLHS := False\<rparr>)) (\<lambda>(rhs, s).
       case typ_of lhs of
         TPtr t \<Rightarrow>
           bind_out (matchTypes rhs t s) (\<lambda>(rhs, s).
           bind_out (CreateStore (currentBB s) rhs lhs s) (\<lambda>s. Done (rhs, s)))
       | _ \<Rightarrow> Fault))"

text \<open>An assignment with an operator assigns the result of the operator to the target, which is visited twice.\<close>

definition visitStmtAssign_op :: "binop \<Rightarrow> 'f gen \<Rightarrow> 'f gen \<Rightarrow> 'f gen" where
  "visitStmtAssign_op op glhs grhs = visitStmtAssign glhs (visitExprBinary op glhs grhs)"

definition constant_one :: "'f gen" where
  "constant_one s = Done (OInt 32 1, s)"

fun visitExprUnary :: "unop \<Rightarrow> 'f gen \<Rightarrow> 'f gen" where
  "visitExprUnary UNOP_PREINC ge s = bind_out (ge s) (\<lambda>(v, s). visitStmtAssign_op BINOP_ADD ge constant_one s)"
| "visitExprUnary UNOP_POSTINC ge s =
     bind_out (ge s) (\<lambda>(v, s). bind_out (visitStmtAssign_op BINOP_ADD ge constant_one s) (\<lambda>(_, s). Done (v, s)))"
| "visitExprUnary UNOP_PREDEC ge s = bind_out (ge s) (\<lambda>(v, s). visitStmtAssign_op BINOP_SUB ge constant_one s)"
| "visitExprUnary UNOP_POSTDEC ge s =
     bind_out (ge s) (\<lambda>(v, s). bind_out (visitStmtAssign_op BINOP_SUB ge constant_one s) (\<lambda>(_, s). Done (v, s)))"
| "visitExprUnary UNOP_COMPLEMENT ge s = bind_out (ge s) (\<lambda>(v, s). CreateNot (currentBB s) v s)"
| "visitExprUnary UNOP_NOT ge s =
     bind_out (ge s) (\<lambda>(v, s).
     bind_out (nonzero (currentBB s) v s) (\<lambda>(v, s).
     bind_out (CreateNot (currentBB s) v s) (\<lambda>(v, s). CreateNeg (currentBB s) v s)))"
| "visitExprUnary UNOP_NEG ge s = bind_out (ge s) (\<lambda>(v, s). CreateNeg (currentBB s) v s)"

definition visitExprTernary :: "'f gen \<Rightarrow> 'f gen \<Rightarrow> 'f gen \<Rightarrow> 'f gen" where
  "visitExprTernary gcond gcons galt s =
     (let b = currentBB s in
      bind_out (gcond s) (\<lambda>(c, s).
      bind_out (nonzero b c s) (\<lambda>(c, s).
      let (thenBB, s) = CreateBlock s; (elseBB, s) = CreateBlock s; (mergeBB, s) = CreateBlock s in
      bind_out (CreateCondBr b c thenBB elseBB s) (\<lambda>s.
      bind_out (gcons (s\<lparr>currentBB := thenBB\<rparr>)) (\<lambda>(thenV, s).
      let thenBB = currentBB s in
      bind_out (CreateBr thenBB (Some mergeBB) s) (\<lambda>s.
      bind_out (galt (s\<lparr>currentBB := elseBB\<rparr>)) (\<lambda>(elseV, s).
      let elseBB = currentBB s in
      bind_out (CreateBr elseBB (Some mergeBB) s) (\<lambda>s.
        if typ_of elseV \<noteq> typ_of thenV then Fault
        else Done (value_at mergeBB (\<lambda>n. IPhi n [(thenV, thenBB), (elseV, elseBB)]) (typ_of elseV)
          (s\<lparr>currentBB := mergeBB\<rparr>))))))))))"

definition visitExprTypeCast :: "'f stype \<Rightarrow> 'f gen \<Rightarrow> 'f gen" where
  "visitExprTypeCast ty ge s =
     bind_out (convert ty) (\<lambda>t. bind_out (ge s) (\<lambda>(v, s). matchTypes v t s))"

definition visitExprFunCall :: "string \<Rightarrow> ('f cg \<Rightarrow> (unit, 'f opnd list \<times> 'f cg) outcome) \<Rightarrow> 'f gen" where
  "visitExprFunCall callName gargs s =
     (case find_node (symt s) callName of
        Some (NFunc funcName pl rt) \<Rightarrow>
          bind_out (gargs s) (\<lambda>(args, s).
          bind_out (converts pl) (\<lambda>paramTypes.
          bind_out (convert rt) (\<lambda>retType.
            if map typ_of args = paramTypes
            then Done (value_at (currentBB s) (\<lambda>n. ICall n funcName args) retType s) else Fault)))
      | _ \<Rightarrow> Fault)"

definition visitExprPeek :: "'f gen \<Rightarrow> 'f gen" where
  "visitExprPeek gn s =
     (let b = currentBB s in
      bind_out (CreateAlloca (in_type s) s) (\<lambda>(e, s).
      bind_out (gn s) (\<lambda>(n, s).
      bind_out (CreatePeek b e n s) (\<lambda>s. CreateLoad b e s))))"

definition visitExprPop :: "'f gen" where
  "visitExprPop s =
     (let b = currentBB s in
      bind_out (CreateAlloca (in_type s) s) (\<lambda>(e, s). CreateLoad b e (emit b (IPop e) s)))"

fun visitExprConst :: "'f expr \<Rightarrow> 'f opnd" where
  "visitExprConst (ExprConstBoolean b) = OInt 1 (if b then -1 else 0)"
| "visitExprConst (ExprConstChar c) = OInt 8 (sint c)"
| "visitExprConst (ExprConstInt i) = OInt 32 (sint i)"
| "visitExprConst (ExprConstFloat f) = OFlt f"
| "visitExprConst (ExprConstStr c) = OStr c"
| "visitExprConst _ = ONull TVoid"

fun gen_expr :: "'f expr \<Rightarrow> 'f gen" and gen_args :: "'f expr list \<Rightarrow> 'f cg \<Rightarrow> (unit, 'f opnd list \<times> 'f cg) outcome" where
  "gen_expr (ExprVar x) s = visitExprVar x s"
| "gen_expr (ExprArray a i) s = visitExprArray (gen_expr a) (gen_expr i) s"
| "gen_expr (ExprArrayInit es) s = Fault"
| "gen_expr (ExprConstBoolean b) s = Done (visitExprConst (ExprConstBoolean b), s)"
| "gen_expr (ExprConstChar c) s = Done (visitExprConst (ExprConstChar c), s)"
| "gen_expr (ExprConstInt i) s = Done (visitExprConst (ExprConstInt i), s)"
| "gen_expr (ExprConstFloat f) s = Done (visitExprConst (ExprConstFloat f), s)"
| "gen_expr (ExprConstStr c) s = Done (visitExprConst (ExprConstStr c), s)"
| "gen_expr (ExprBinary op l r) s = visitExprBinary op (gen_expr l) (gen_expr r) s"
| "gen_expr (ExprUnary op e) s = visitExprUnary op (gen_expr e) s"
| "gen_expr (ExprTernary c t e) s = visitExprTernary (gen_expr c) (gen_expr t) (gen_expr e) s"
| "gen_expr (ExprTypeCast ty e) s = visitExprTypeCast ty (gen_expr e) s"
| "gen_expr (ExprFunCall f es) s = visitExprFunCall f (gen_args es) s"
| "gen_expr (ExprPeek n) s = visitExprPeek (gen_expr n) s"
| "gen_expr ExprPop s = visitExprPop s"
| "gen_args [] s = Done ([], s)"
| "gen_args (e # es) s =
     bind_out (gen_expr e s) (\<lambda>(v, s). bind_out (gen_args es s) (\<lambda>(vs, s). Done (v # vs, s)))"

subsection \<open>Array initialisers\<close>

text \<open>An initialiser of more than one dimension must consist of initialisers, which the code takes for granted.\<close>

fun doArrayInit :: "'f opnd \<Rightarrow> 'f expr \<Rightarrow> 'f gen_stmt" and
    init_elems :: "bool \<Rightarrow> nat \<Rightarrow> 'f opnd \<Rightarrow> int \<Rightarrow> 'f expr list \<Rightarrow> 'f gen_stmt" where
  "doArrayInit p (ExprArrayInit es) s = init_elems (1 < getDims (ExprArrayInit es)) (currentBB s) p 0 es s"
| "doArrayInit p _ s = Fault"
| "init_elems nested b p i [] s = Done s"
| "init_elems nested b p i (e # es) s =
     bind_out (CreateElem b p (OInt 32 i) s) (\<lambda>(q, s).
     bind_out
       (if nested then doArrayInit q e s
        else bind_out (gen_expr e s) (\<lambda>(v, s).
          case typ_of q of
            TPtr t \<Rightarrow> bind_out (matchTypes v t s) (\<lambda>(v, s). CreateStore b v q s)
          | _ \<Rightarrow> Fault))
       (init_elems nested b p (i + 1) es))"

text \<open>The initial value of a variable of the given type at an address.\<close>

definition init_var :: "nat \<Rightarrow> 'f opnd \<Rightarrow> ty \<Rightarrow> 'f expr \<Rightarrow> 'f gen_stmt" where
  "init_var b ptr t e s =
     (if isArrayInit e then doArrayInit ptr e s
      else bind_out (gen_expr e s) (\<lambda>(v, s). bind_out (matchTypes v t s) (\<lambda>(v, s). CreateStore b v ptr s)))"

subsection \<open>Statements\<close>

definition visitStmtBreak :: "'f gen_stmt" where
  "visitStmtBreak s =
     bind_out (CreateBr (currentBB s) (breakBB s) s) (\<lambda>s.
       let (dead, s) = CreateBlock s in Done (s\<lparr>currentBB := dead\<rparr>))"

definition visitStmtContinue :: "'f gen_stmt" where
  "visitStmtContinue s =
     bind_out (CreateBr (currentBB s) (continueBB s) s) (\<lambda>s.
       let (dead, s) = CreateBlock s in Done (s\<lparr>currentBB := dead\<rparr>))"

text \<open>The back edge of a do loop goes to the block in which the body ends.\<close>

definition visitStmtDoWhile :: "'f gen_stmt \<Rightarrow> 'f gen \<Rightarrow> 'f gen_stmt" where
  "visitStmtDoWhile gbody gcond s =
     (let b = currentBB s; (bodyBB, s) = CreateBlock s; (condBB, s) = CreateBlock s; (doneBB, s) = CreateBlock s in
      bind_out (CreateBr b (Some bodyBB) s) (\<lambda>s.
      bind_out (gbody (s\<lparr>breakBB := Some doneBB, continueBB := Some condBB, currentBB := bodyBB\<rparr>)) (\<lambda>s.
      let bodyBB = currentBB s in
      bind_out (CreateBr bodyBB (Some condBB) s) (\<lambda>s.
      bind_out (gcond (s\<lparr>breakBB := None, currentBB := condBB\<rparr>)) (\<lambda>(c, s).
      bind_out (branch_on condBB c bodyBB doneBB s) (\<lambda>s. Done (s\<lparr>currentBB := doneBB\<rparr>)))))))"

definition visitStmtWhile :: "'f gen \<Rightarrow> 'f gen_stmt \<Rightarrow> 'f gen_stmt" where
  "visitStmtWhile gcond gbody s =
     (let b = currentBB s; (condBB, s) = CreateBlock s; (bodyBB, s) = CreateBlock s; (doneBB, s) = CreateBlock s in
      bind_out (CreateBr b (Some condBB) s) (\<lambda>s.
      bind_out (gcond (s\<lparr>currentBB := condBB\<rparr>)) (\<lambda>(c, s).
      bind_out (branch_on condBB c bodyBB doneBB s) (\<lambda>s.
      bind_out (gbody (s\<lparr>breakBB := Some doneBB, continueBB := Some condBB, currentBB := bodyBB\<rparr>)) (\<lambda>s.
      bind_out (CreateBr (currentBB s) (Some condBB) s) (\<lambda>s.
        Done (s\<lparr>breakBB := None, currentBB := doneBB\<rparr>)))))))"

text \<open>
  The builder of a \<open>for\<close> loop is made before its first part is visited; the branch to the condition therefore goes
  to the block that is current at the beginning.
\<close>

definition visitStmtFor :: "'f gen_stmt \<Rightarrow> 'f gen \<Rightarrow> 'f gen_stmt \<Rightarrow> 'f gen_stmt \<Rightarrow> 'f gen_stmt" where
  "visitStmtFor ginit gcond gincr gbody s =
     (let b = currentBB s in
      bind_out (ginit s) (\<lambda>s.
      let (condBB, s) = CreateBlock s; (bodyBB, s) = CreateBlock s; (incrBB, s) = CreateBlock s; (doneBB, s) = CreateBlock s in
      bind_out (CreateBr b (Some condBB) s) (\<lambda>s.
      bind_out (gcond (s\<lparr>currentBB := condBB\<rparr>)) (\<lambda>(c, s).
      bind_out (branch_on condBB c bodyBB doneBB s) (\<lambda>s.
      bind_out (gbody (s\<lparr>breakBB := Some doneBB, continueBB := Some incrBB, currentBB := bodyBB\<rparr>)) (\<lambda>s.
      bind_out (CreateBr (currentBB s) (Some incrBB) s) (\<lambda>s.
      bind_out (gincr (s\<lparr>breakBB := None, currentBB := incrBB\<rparr>)) (\<lambda>s.
      bind_out (CreateBr (currentBB s) (Some condBB) s) (\<lambda>s. Done (s\<lparr>currentBB := doneBB\<rparr>))))))))))"

definition visitStmtIfThen :: "'f gen \<Rightarrow> 'f gen_stmt \<Rightarrow> 'f gen_stmt option \<Rightarrow> 'f gen_stmt" where
  "visitStmtIfThen gcond gcons galt s =
     (let b = currentBB s in
      bind_out (gcond s) (\<lambda>(c, s).
      bind_out (nonzero b c s) (\<lambda>(c, s).
      let (thenBB, s) = CreateBlock s; (elseBB, s) = CreateBlock s; (mergeBB, s) = CreateBlock s in
      bind_out (CreateCondBr b c thenBB (if galt = None then mergeBB else elseBB) s) (\<lambda>s.
      bind_out (gcons (s\<lparr>currentBB := thenBB\<rparr>)) (\<lambda>s.
      bind_out (CreateBr (currentBB s) (Some mergeBB) s) (\<lambda>s.
      bind_out
        (case galt of
           None \<Rightarrow> Done s
         | Some galt \<Rightarrow>
             bind_out (galt (s\<lparr>currentBB := elseBB\<rparr>)) (\<lambda>s. CreateBr (currentBB s) (Some mergeBB) s))
        (\<lambda>s. Done (s\<lparr>currentBB := mergeBB\<rparr>))))))))"

definition visitStmtPush :: "'f gen \<Rightarrow> 'f gen_stmt" where
  "visitStmtPush ge s =
     bind_out (ge s) (\<lambda>(v, s).
     bind_out (CreateAlloca (typ_of v) s) (\<lambda>(p, s).
     bind_out (CreateStore (currentBB s) v p s) (\<lambda>s. Done (emit (currentBB s) (IPush p) s))))"

definition declare_var :: "string \<Rightarrow> 'f opnd \<Rightarrow> 'f cg \<Rightarrow> 'f cg" where
  "declare_var name ptr s = s\<lparr>symt := add_value name ptr (symt s)\<rparr>"

fun visitStmtVarDecl :: "nat \<Rightarrow> ('f stype \<times> string \<times> 'f expr option) list \<Rightarrow> 'f gen_stmt" where
  "visitStmtVarDecl b [] s = Done s"
| "visitStmtVarDecl b ((stype, name, init) # ds) s =
     bind_out (convert stype) (\<lambda>t.
     bind_out (CreateAlloca t s) (\<lambda>(ptr, s).
     bind_out (case init of None \<Rightarrow> CreateStore b (ONull t) ptr s | Some e \<Rightarrow> init_var b ptr t e s) (\<lambda>s.
       visitStmtVarDecl b ds (declare_var name ptr s))))"

text \<open>\<open>return\<close> is an error.\<close>

fun gen_stmt :: "'f stmt \<Rightarrow> 'f gen_stmt" and gen_stmts :: "'f stmt list \<Rightarrow> 'f gen_stmt" where
  "gen_stmt StmtEmpty s = Done s"
| "gen_stmt (StmtExpr e) s = bind_out (gen_expr e s) (\<lambda>(_, s). Done s)"
| "gen_stmt (StmtAssign None l r) s = bind_out (visitStmtAssign (gen_expr l) (gen_expr r) s) (\<lambda>(_, s). Done s)"
| "gen_stmt (StmtAssign (Some op) l r) s = bind_out (visitStmtAssign_op op (gen_expr l) (gen_expr r) s) (\<lambda>(_, s). Done s)"
| "gen_stmt (StmtPush e) s = visitStmtPush (gen_expr e) s"
| "gen_stmt (StmtVarDecl ds) s = visitStmtVarDecl (currentBB s) ds s"
| "gen_stmt (StmtBlock ss) s = gen_stmts ss s"
| "gen_stmt (StmtIfThen c t e) s = visitStmtIfThen (gen_expr c) (gen_stmt t) (map_option gen_stmt e) s"
| "gen_stmt (StmtWhile c body) s = visitStmtWhile (gen_expr c) (gen_stmt body) s"
| "gen_stmt (StmtDoWhile body c) s = visitStmtDoWhile (gen_stmt body) (gen_expr c) s"
| "gen_stmt (StmtFor init c incr body) s = visitStmtFor (gen_stmt init) (gen_expr c) (gen_stmt incr) (gen_stmt body) s"
| "gen_stmt StmtBreak s = visitStmtBreak s"
| "gen_stmt StmtContinue s = visitStmtContinue s"
| "gen_stmt StmtReturn s = Fault"
| "gen_stmts [] s = Done s"
| "gen_stmts (x # xs) s = bind_out (gen_stmt x s) (gen_stmts xs)"

subsection \<open>Functions of a filter\<close>

text \<open>A function starts with an empty entry block, in a scope of its own.\<close>

definition new_function :: "string \<Rightarrow> 'f cg \<Rightarrow> 'f cg" where
  "new_function name s =
     s\<lparr>code := (\<lambda>_. []), nblk := 1, nreg := 0, nslot := 0, currentBB := 0, symt := pushScope name (symt s)\<rparr>"

definition visitFuncWork :: "'f stmt \<Rightarrow> 'f gen_stmt" where
  "visitFuncWork body s =
     bind_out (gen_stmt body (new_function ''work'' s)) (\<lambda>s.
       Done (emit (currentBB s) IRet (s\<lparr>symt := popScope (symt s)\<rparr>)))"

text \<open>
  The \<open>init\<close> function of a filter: the parameters are copied to the first fields of the state, whose numbers are
  entered in the symbol table, and the other fields get their initial values; memory of the state is zero before that.
\<close>

definition add_field :: "string \<Rightarrow> nat \<Rightarrow> 'f cg \<Rightarrow> 'f cg" where
  "add_field name idx = declare_var name (OInt 32 (int idx))"

fun init_params :: "nat \<Rightarrow> nat \<Rightarrow> (ty \<times> string) list \<Rightarrow> 'f gen_stmt" where
  "init_params b idx [] s = Done s"
| "init_params b idx ((t, name) # ps) s =
     (let (v, s) = value_at b (\<lambda>n. IArg n idx) t (add_field name idx s) in
      bind_out (CreateField b (int idx) s) (\<lambda>(p, s).
      bind_out (CreateStore b v p s) (init_params b (Suc idx) ps)))"

fun init_fields :: "nat \<Rightarrow> nat \<Rightarrow> (ty \<times> string \<times> 'f expr option) list \<Rightarrow> 'f gen_stmt" where
  "init_fields b idx [] s = Done s"
| "init_fields b idx ((t, name, init) # fs) s =
     bind_out (CreateField b (int idx) (add_field name idx s)) (\<lambda>(p, s).
     bind_out (case init of None \<Rightarrow> Done s | Some e \<Rightarrow> init_var b p t e s) (init_fields b (Suc idx) fs))"

definition visitFuncInit :: "('f stype \<times> string) list \<Rightarrow> ('f stype \<times> string \<times> 'f expr option) list \<Rightarrow> 'f stmt option \<Rightarrow> 'f gen_stmt" where
  "visitFuncInit params flds func s =
     bind_out (converts (map fst params)) (\<lambda>pts.
     bind_out (converts (map fst flds)) (\<lambda>fts.
     let s = s\<lparr>code := (\<lambda>_. []), nblk := 1, nreg := 0, nslot := 0, currentBB := 0, state_ty := pts @ fts\<rparr> in
     bind_out (init_params 0 0 (zip pts (map snd params)) s) (\<lambda>s.
     bind_out (init_fields 0 (length params) (zip fts (map snd flds)) s) (\<lambda>s.
     bind_out
       (case func of
          None \<Rightarrow> Done s
        | Some body \<Rightarrow>
            bind_out (gen_stmt body (s\<lparr>symt := pushScope ''init'' (symt s)\<rparr>)) (\<lambda>s. Done (s\<lparr>symt := popScope (symt s)\<rparr>)))
       (\<lambda>s. Done (emit (currentBB s) IRet s))))))"

end
