(* ===== verification/FE_Run.thy ===== *)
theory FE_Run
  imports FE_Code
begin

section \<open>What the generated code does\<close>

text \<open>
  The instructions of LLVM that the generator uses, as their documentation defines them: integers wrap around
  at their width and are signed, \<open>true\<close> is -1 of width 1, a division by zero or with overflow, a shift
  by the width or more, and an access outside of an array are undefined and a fault here.  What floating-point
  operations and the functions of the C library compute is a parameter.

  Memory is a tree for each variable: a stack slot, a field of the kernel's state, or a global variable.  The address
  of an element is the variable and the list of indices.  The stream operations work on a list of elements that
  will arrive and a list of those that were pushed; a pop or peek beyond the first waits.
\<close>

subsection \<open>Values\<close>

datatype root = RSlot nat | RField nat | RGlobal string

datatype 'f val =
    VInt nat int
  | VFlt 'f
  | VStr string
  | VArr "'f val list"
  | VAddr root "int list"
  | VNull
  | VUndef

record 'f world =
  f_zero :: 'f
  f_arith :: "arith \<Rightarrow> 'f \<Rightarrow> 'f \<Rightarrow> 'f"
  f_neg :: "'f \<Rightarrow> 'f"
  f_cmp :: "cmp \<Rightarrow> 'f \<Rightarrow> 'f \<Rightarrow> bool"
  f_of_int :: "int \<Rightarrow> 'f"
  f_to_int :: "nat \<Rightarrow> 'f \<Rightarrow> int option"
  extern :: "string \<Rightarrow> 'f val list \<Rightarrow> 'f val"

text \<open>The signed integer of width \<open>n\<close> that is congruent to \<open>i\<close>.\<close>

definition wrap :: "nat \<Rightarrow> int \<Rightarrow> int" where
  "wrap n i = (if n = 0 then 0 else signed_take_bit (n - 1) i)"

fun has_type :: "ty \<Rightarrow> 'f val \<Rightarrow> bool" where
  "has_type (TInt n) v = (case v of VInt m i \<Rightarrow> m = n \<and> wrap n i = i | _ \<Rightarrow> False)"
| "has_type TFloat v = (case v of VFlt _ \<Rightarrow> True | _ \<Rightarrow> False)"
| "has_type (TArr n t) v = (case v of VArr vs \<Rightarrow> length vs = n \<and> list_all (has_type t) vs | _ \<Rightarrow> False)"
| "has_type (TPtr t) v = (case v of VStr _ \<Rightarrow> t = TInt 8 | VNull \<Rightarrow> True | _ \<Rightarrow> False)"
| "has_type TVoid v = (v = VUndef)"
| "has_type TDouble v = (v = VUndef)"

fun zero_val :: "'f world \<Rightarrow> ty \<Rightarrow> 'f val" where
  "zero_val W (TInt n) = VInt n 0"
| "zero_val W TFloat = VFlt (f_zero W)"
| "zero_val W (TArr n t) = VArr (replicate n (zero_val W t))"
| "zero_val W (TPtr t) = VNull"
| "zero_val W TVoid = VUndef"
| "zero_val W TDouble = VUndef"

lemma zero_has_type: "has_type t (zero_val W t)"
  by (induction t) (simp_all add: list_all_iff wrap_def)

definition VBool :: "bool \<Rightarrow> 'f val" where
  "VBool b = VInt 1 (if b then -1 else 0)"

fun follow :: "'f val \<Rightarrow> int list \<Rightarrow> (unit, 'f val) outcome" where
  "follow v [] = Done v"
| "follow (VArr vs) (i # is) = (if 0 \<le> i \<and> nat i < length vs then follow (vs ! nat i) is else Fault)"
| "follow _ (i # is) = Fault"

fun replace_at :: "'f val \<Rightarrow> int list \<Rightarrow> 'f val \<Rightarrow> (unit, 'f val) outcome" where
  "replace_at v [] w = Done w"
| "replace_at (VArr vs) (i # is) w =
     (if 0 \<le> i \<and> nat i < length vs
      then bind_out (replace_at (vs ! nat i) is w) (\<lambda>u. Done (VArr (vs[nat i := u]))) else Fault)"
| "replace_at _ (i # is) w = Fault"

subsection \<open>Arithmetic\<close>

fun arith_int :: "arith \<Rightarrow> nat \<Rightarrow> int \<Rightarrow> int \<Rightarrow> (unit, int) outcome" where
  "arith_int AAdd n a b = Done (wrap n (a + b))"
| "arith_int ASub n a b = Done (wrap n (a - b))"
| "arith_int AMul n a b = Done (wrap n (a * b))"
| "arith_int ASDiv n a b = (if b = 0 \<or> wrap n (a sdiv b) \<noteq> a sdiv b then Fault else Done (a sdiv b))"
| "arith_int ASRem n a b = (if b = 0 \<or> wrap n (a sdiv b) \<noteq> a sdiv b then Fault else Done (a smod b))"
| "arith_int AAnd n a b = Done (and a b)"
| "arith_int AOr n a b = Done (or a b)"
| "arith_int AXor n a b = Done (xor a b)"
| "arith_int AShl n a b = (if 0 \<le> b \<and> b < int n then Done (wrap n (push_bit (nat b) a)) else Fault)"
| "arith_int AAShr n a b = (if 0 \<le> b \<and> b < int n then Done (drop_bit (nat b) a) else Fault)"
| "arith_int _ n a b = Fault"

fun arith_val :: "'f world \<Rightarrow> arith \<Rightarrow> 'f val \<Rightarrow> 'f val \<Rightarrow> (unit, 'f val) outcome" where
  "arith_val W op (VInt n a) (VInt m b) = bind_out (arith_int op n a b) (\<lambda>i. Done (VInt n i))"
| "arith_val W op (VFlt a) (VFlt b) = Done (VFlt (f_arith W op a b))"
| "arith_val W op _ _ = Fault"

fun cmp_int :: "cmp \<Rightarrow> int \<Rightarrow> int \<Rightarrow> bool" where
  "cmp_int CEq a b = (a = b)"
| "cmp_int CNe a b = (a \<noteq> b)"
| "cmp_int CLt a b = (a < b)"
| "cmp_int CLe a b = (a \<le> b)"
| "cmp_int CGt a b = (b < a)"
| "cmp_int CGe a b = (b \<le> a)"

fun cmp_val :: "'f world \<Rightarrow> cmp \<Rightarrow> 'f val \<Rightarrow> 'f val \<Rightarrow> (unit, 'f val) outcome" where
  "cmp_val W c (VInt n a) (VInt m b) = Done (VBool (cmp_int c a b))"
| "cmp_val W c (VFlt a) (VFlt b) = Done (VBool (f_cmp W c a b))"
| "cmp_val W c _ _ = Fault"

subsection \<open>Instructions\<close>

record 'f ist =
  regs :: "nat \<Rightarrow> 'f val"
  mem :: "root \<Rightarrow> 'f val"
  params :: "nat \<Rightarrow> 'f val"
  ins :: "'f val list"
  outs :: "'f val list"
  calls :: "(string \<times> 'f val list) list"

fun opval :: "'f world \<Rightarrow> 'f ist \<Rightarrow> 'f opnd \<Rightarrow> 'f val" where
  "opval W m (OReg n t) = regs m n"
| "opval W m (OInt n i) = VInt n i"
| "opval W m (OFlt f) = VFlt f"
| "opval W m (OStr c) = VStr c"
| "opval W m (ONull t) = zero_val W t"
| "opval W m (OSlot n t) = VAddr (RSlot n) []"
| "opval W m (OGlobal g t) = VAddr (RGlobal g) []"

definition set_reg :: "nat \<Rightarrow> 'f val \<Rightarrow> 'f ist \<Rightarrow> 'f ist" where
  "set_reg n v m = m\<lparr>regs := (regs m)(n := v)\<rparr>"

definition load_from :: "'f val \<Rightarrow> 'f ist \<Rightarrow> (unit, 'f val) outcome" where
  "load_from a m = (case a of VAddr r p \<Rightarrow> follow (mem m r) p | _ \<Rightarrow> Fault)"

definition store_to :: "'f val \<Rightarrow> 'f val \<Rightarrow> 'f ist \<Rightarrow> (unit, 'f ist) outcome" where
  "store_to a v m =
     (case a of
        VAddr r p \<Rightarrow> bind_out (replace_at (mem m r) p v) (\<lambda>u. Done (m\<lparr>mem := (mem m)(r := u)\<rparr>))
      | _ \<Rightarrow> Fault)"

definition not_val :: "'f val \<Rightarrow> (unit, 'f val) outcome" where
  "not_val v = (case v of VInt n i \<Rightarrow> Done (VInt n (wrap n (not i))) | _ \<Rightarrow> Fault)"

definition neg_val :: "'f world \<Rightarrow> 'f val \<Rightarrow> (unit, 'f val) outcome" where
  "neg_val W v = (case v of VInt n i \<Rightarrow> Done (VInt n (wrap n (- i))) | VFlt f \<Rightarrow> Done (VFlt (f_neg W f)) | _ \<Rightarrow> Fault)"

definition si_to_fp :: "'f world \<Rightarrow> ty \<Rightarrow> 'f val \<Rightarrow> (unit, 'f val) outcome" where
  "si_to_fp W t v = (case v of VInt n i \<Rightarrow> if t = TFloat then Done (VFlt (f_of_int W i)) else Fault | _ \<Rightarrow> Fault)"

definition fp_to_si :: "'f world \<Rightarrow> ty \<Rightarrow> 'f val \<Rightarrow> (unit, 'f val) outcome" where
  "fp_to_si W t v =
     (case v of
        VFlt f \<Rightarrow>
          (case t of TInt n \<Rightarrow> (case f_to_int W n f of Some i \<Rightarrow> Done (VInt n i) | None \<Rightarrow> Fault) | _ \<Rightarrow> Fault)
      | _ \<Rightarrow> Fault)"

definition elem_addr :: "'f val \<Rightarrow> 'f val \<Rightarrow> (unit, 'f val) outcome" where
  "elem_addr a i = (case a of VAddr r p \<Rightarrow> (case i of VInt n k \<Rightarrow> Done (VAddr r (p @ [k])) | _ \<Rightarrow> Fault) | _ \<Rightarrow> Fault)"

fun exec_instr :: "'f world \<Rightarrow> 'f instr \<Rightarrow> 'f ist \<Rightarrow> (unit, 'f ist) outcome" where
  "exec_instr W (IBin a n l r) m = bind_out (arith_val W a (opval W m l) (opval W m r)) (\<lambda>v. Done (set_reg n v m))"
| "exec_instr W (ICmp c n l r) m = bind_out (cmp_val W c (opval W m l) (opval W m r)) (\<lambda>v. Done (set_reg n v m))"
| "exec_instr W (IFCmp c n l r) m = bind_out (cmp_val W c (opval W m l) (opval W m r)) (\<lambda>v. Done (set_reg n v m))"
| "exec_instr W (INot n v) m = bind_out (not_val (opval W m v)) (\<lambda>v. Done (set_reg n v m))"
| "exec_instr W (INeg n v) m = bind_out (neg_val W (opval W m v)) (\<lambda>v. Done (set_reg n v m))"
| "exec_instr W (ISIToFP n v t) m = bind_out (si_to_fp W t (opval W m v)) (\<lambda>v. Done (set_reg n v m))"
| "exec_instr W (IFPToSI n v t) m = bind_out (fp_to_si W t (opval W m v)) (\<lambda>v. Done (set_reg n v m))"
| "exec_instr W (ISExt n v t) m =
     (case (opval W m v, t) of (VInt k i, TInt j) \<Rightarrow> Done (set_reg n (VInt j i) m) | _ \<Rightarrow> Fault)"
| "exec_instr W (ILoad n p) m = bind_out (load_from (opval W m p) m) (\<lambda>v. Done (set_reg n v m))"
| "exec_instr W (IStore v p) m = store_to (opval W m p) (opval W m v) m"
| "exec_instr W (IElem n p i) m = bind_out (elem_addr (opval W m p) (opval W m i)) (\<lambda>v. Done (set_reg n v m))"
| "exec_instr W (IField n k) m = Done (set_reg n (VAddr (RField k) []) m)"
| "exec_instr W (IArg n k) m = Done (set_reg n (params m k) m)"
| "exec_instr W (ICall n f args) m =
     (let vs = map (opval W m) args in Done (set_reg n (extern W f vs) (m\<lparr>calls := calls m @ [(f, vs)]\<rparr>)))"
| "exec_instr W (IPeek p i) m =
     (case opval W m i of
        VInt n k \<Rightarrow>
          if k < 0 then Fault
          else if nat k < length (ins m) then store_to (opval W m p) (ins m ! nat k) m
          else WouldBlock () ()
      | _ \<Rightarrow> Fault)"
| "exec_instr W (IPop p) m =
     (case ins m of [] \<Rightarrow> WouldBlock () () | v # vs \<Rightarrow> store_to (opval W m p) v (m\<lparr>ins := vs\<rparr>))"
| "exec_instr W (IPush p) m = bind_out (load_from (opval W m p) m) (\<lambda>v. Done (m\<lparr>outs := outs m @ [v]\<rparr>))"
| "exec_instr W _ m = Fault"

fun exec_seq :: "'f world \<Rightarrow> 'f instr list \<Rightarrow> 'f ist \<Rightarrow> (unit, 'f ist) outcome" where
  "exec_seq W [] m = Done m"
| "exec_seq W (i # is) m = bind_out (exec_instr W i m) (exec_seq W is)"

lemma exec_seq_append: "exec_seq W (is @ js) m = bind_out (exec_seq W is m) (exec_seq W js)"
proof (induction "is" arbitrary: m)
  case (Cons i "is")
  then show ?case by (cases "exec_instr W i m") simp_all
qed simp

subsection \<open>Blocks\<close>

text \<open>
  A configuration is the block, the position in it, the block that control came from, and the state.  A
  function that has returned stays at its \<open>IRet\<close>.
\<close>

record 'f config =
  blk :: nat
  pc :: nat
  prev :: nat
  ist :: "'f ist"

definition config_at :: "nat \<times> nat \<Rightarrow> nat \<Rightarrow> 'f ist \<Rightarrow> 'f config" where
  "config_at p pv m = \<lparr>blk = fst p, pc = snd p, prev = pv, ist = m\<rparr>"

definition step :: "'f world \<Rightarrow> (nat \<Rightarrow> 'f instr list) \<Rightarrow> 'f config \<Rightarrow> (unit, 'f config) outcome" where
  "step W C c =
     (if pc c < length (C (blk c)) then
        (case C (blk c) ! pc c of
           IBr t \<Rightarrow> Done (config_at (t, 0) (blk c) (ist c))
         | ICondBr v x y \<Rightarrow>
             (case opval W (ist c) v of
                VInt n i \<Rightarrow> Done (config_at (if i \<noteq> 0 then x else y, 0) (blk c) (ist c))
              | _ \<Rightarrow> Fault)
         | IPhi n vs \<Rightarrow>
             (case find (\<lambda>(v, b). b = prev c) vs of
                Some (v, b) \<Rightarrow> Done (c\<lparr>pc := Suc (pc c), ist := set_reg n (opval W (ist c) v) (ist c)\<rparr>)
              | None \<Rightarrow> Fault)
         | IRet \<Rightarrow> Done c
         | i \<Rightarrow> bind_out (exec_instr W i (ist c)) (\<lambda>m. Done (c\<lparr>pc := Suc (pc c), ist := m\<rparr>)))
      else Fault)"

fun run :: "'f world \<Rightarrow> (nat \<Rightarrow> 'f instr list) \<Rightarrow> nat \<Rightarrow> 'f config \<Rightarrow> (unit, 'f config) outcome" where
  "run W C 0 c = Done c"
| "run W C (Suc n) c = bind_out (step W C c) (run W C n)"

lemma run_add: "run W C (m + n) c = bind_out (run W C m c) (run W C n)"
proof (induction m arbitrary: c)
  case (Suc m)
  then show ?case by (cases "step W C c") simp_all
qed simp

definition reaches :: "'f world \<Rightarrow> (nat \<Rightarrow> 'f instr list) \<Rightarrow> 'f config \<Rightarrow> 'f config \<Rightarrow> bool" where
  "reaches W C c d \<longleftrightarrow> (\<exists>n. run W C n c = Done d)"

lemma reaches_refl: "reaches W C c c"
  unfolding reaches_def by (rule exI [of _ 0]) simp

lemma reaches_trans: "reaches W C a b \<Longrightarrow> reaches W C b c \<Longrightarrow> reaches W C a c"
  unfolding reaches_def by (metis run_add bind_out.simps(1))

lemma reaches_step: "step W C a = Done b \<Longrightarrow> reaches W C b c \<Longrightarrow> reaches W C a c"
  unfolding reaches_def by (metis run.simps(2) bind_out.simps(1))

definition halted :: "(nat \<Rightarrow> 'f instr list) \<Rightarrow> 'f config \<Rightarrow> bool" where
  "halted C c \<longleftrightarrow> pc c < length (C (blk c)) \<and> C (blk c) ! pc c = IRet"

text \<open>Instructions in sequence.\<close>

lemma step_simple:
  assumes "exec_instr W i m = Done m'" and "p < length (C b)" and "C b ! p = i"
  shows "step W C (config_at (b, p) pv m) = Done (config_at (b, Suc p) pv m')"
  using assms by (cases i) (simp_all add: step_def config_at_def)

lemma reaches_seq:
  assumes "exec_seq W is m = Done m'" and "prefix (pre @ is) (C b)"
  shows "reaches W C (config_at (b, length pre) pv m) (config_at (b, length (pre @ is)) pv m')"
  using assms
proof (induction "is" arbitrary: pre m)
  case Nil
  then show ?case by (simp add: reaches_refl)
next
  case (Cons i "is")
  from Cons.prems(1) obtain m1 where m1: "exec_instr W i m = Done m1" "exec_seq W is m1 = Done m'"
    by (auto elim: bind_out_DoneE)
  have l: "length pre < length (C b)" "C b ! length pre = i"
    using Cons.prems(2) by (auto simp: prefix_def nth_append)
  have "reaches W C (config_at (b, length (pre @ [i])) pv m1) (config_at (b, length ((pre @ [i]) @ is)) pv m')"
    using Cons.prems(2) by (intro Cons.IH m1(2)) simp
  then show ?case using step_simple [of W i m m1 "length pre" C b pv, OF m1(1) l] by (auto intro: reaches_step)
qed

end
