(* ===== verification/FE_Source.thy ===== *)
theory FE_Source
  imports FE_Run
begin

section \<open>What the body of a filter means\<close>

text \<open>
  The meaning of expressions and statements of StreamIt, defined on the syntax: what the generated code is
  measured against.  A variable has a type and a value; a name that is declared in a block ends with it.  A
  program that is not sensible (operands of different widths, a boolean used as a number, an index that is out of
  range, an undeclared variable) is a fault, and so says nothing of the code.  Operands are evaluated from left to
  right, the target of an assignment once and first; both operands of \<open>&&\<close> and \<open>||\<close> are evaluated.
\<close>

record filter_spec =
  in_ty :: ty
  out_ty :: ty
  funs :: "string \<Rightarrow> (string \<times> ty list \<times> ty) option"

record 'f sst =
  vars :: "string \<Rightarrow> (ty \<times> 'f val) option"
  s_ins :: "'f val list"
  s_outs :: "'f val list"
  s_calls :: "(string \<times> 'f val list) list"

subsection \<open>Operators\<close>

definition truth :: "'f world \<Rightarrow> 'f val \<Rightarrow> (unit, bool) outcome" where
  "truth W v = (case v of VInt n i \<Rightarrow> Done (i \<noteq> 0) | VFlt f \<Rightarrow> Done (f_cmp W CNe f (f_zero W)) | _ \<Rightarrow> Fault)"

fun bin_int :: "binop \<Rightarrow> nat \<Rightarrow> int \<Rightarrow> int \<Rightarrow> (unit, 'f val) outcome" where
  "bin_int BINOP_ADD n a b = Done (VInt n (wrap n (a + b)))"
| "bin_int BINOP_SUB n a b = Done (VInt n (wrap n (a - b)))"
| "bin_int BINOP_MUL n a b = Done (VInt n (wrap n (a * b)))"
| "bin_int BINOP_DIV n a b = (if b \<noteq> 0 \<and> wrap n (a sdiv b) = a sdiv b then Done (VInt n (a sdiv b)) else Fault)"
| "bin_int BINOP_MOD n a b = (if b \<noteq> 0 \<and> wrap n (a sdiv b) = a sdiv b then Done (VInt n (a smod b)) else Fault)"
| "bin_int BINOP_EQ n a b = Done (VBool (a = b))"
| "bin_int BINOP_NEQ n a b = Done (VBool (a \<noteq> b))"
| "bin_int BINOP_LT n a b = Done (VBool (a < b))"
| "bin_int BINOP_LE n a b = Done (VBool (a \<le> b))"
| "bin_int BINOP_GT n a b = Done (VBool (a > b))"
| "bin_int BINOP_GE n a b = Done (VBool (a \<ge> b))"
| "bin_int BINOP_BAND n a b = Done (VInt n (and a b))"
| "bin_int BINOP_BOR n a b = Done (VInt n (or a b))"
| "bin_int BINOP_BXOR n a b = Done (VInt n (xor a b))"
| "bin_int BINOP_LSHIFT n a b = (if 0 \<le> b \<and> b < int n then Done (VInt n (wrap n (a * 2 ^ nat b))) else Fault)"
| "bin_int BINOP_RSHIFT n a b = (if 0 \<le> b \<and> b < int n then Done (VInt n (a div 2 ^ nat b)) else Fault)"
| "bin_int _ n a b = Fault"

fun bin_flt :: "'f world \<Rightarrow> binop \<Rightarrow> 'f \<Rightarrow> 'f \<Rightarrow> (unit, 'f val) outcome" where
  "bin_flt W BINOP_ADD a b = Done (VFlt (f_arith W AAdd a b))"
| "bin_flt W BINOP_SUB a b = Done (VFlt (f_arith W ASub a b))"
| "bin_flt W BINOP_MUL a b = Done (VFlt (f_arith W AMul a b))"
| "bin_flt W BINOP_DIV a b = Done (VFlt (f_arith W AFDiv a b))"
| "bin_flt W BINOP_MOD a b = Done (VFlt (f_arith W AFRem a b))"
| "bin_flt W BINOP_EQ a b = Done (VBool (f_cmp W CEq a b))"
| "bin_flt W BINOP_NEQ a b = Done (VBool (f_cmp W CNe a b))"
| "bin_flt W BINOP_LT a b = Done (VBool (f_cmp W CLt a b))"
| "bin_flt W BINOP_LE a b = Done (VBool (f_cmp W CLe a b))"
| "bin_flt W BINOP_GT a b = Done (VBool (f_cmp W CGt a b))"
| "bin_flt W BINOP_GE a b = Done (VBool (f_cmp W CGe a b))"
| "bin_flt W _ a b = Fault"

text \<open>An integer that meets a floating-point number is converted; for \<open>&&\<close> and \<open>||\<close> only the truth matters.\<close>

definition bin_val :: "'f world \<Rightarrow> binop \<Rightarrow> 'f val \<Rightarrow> 'f val \<Rightarrow> (unit, 'f val) outcome" where
  "bin_val W op v w =
     (if op = BINOP_AND \<or> op = BINOP_OR then
        bind_out (truth W v) (\<lambda>a. bind_out (truth W w) (\<lambda>b.
          Done (VBool (if op = BINOP_AND then a \<and> b else a \<or> b))))
      else
        (case (v, w) of
           (VInt n a, VInt m b) \<Rightarrow> if n = m then bin_int op n a b else Fault
         | (VFlt a, VFlt b) \<Rightarrow> bin_flt W op a b
         | (VInt n a, VFlt b) \<Rightarrow> if n = 1 then Fault else bin_flt W op (f_of_int W a) b
         | (VFlt a, VInt n b) \<Rightarrow> if n = 1 then Fault else bin_flt W op a (f_of_int W b)
         | _ \<Rightarrow> Fault))"

text \<open>The value of a type that an assignment of a value stores.\<close>

definition conv :: "'f world \<Rightarrow> ty \<Rightarrow> 'f val \<Rightarrow> (unit, 'f val) outcome" where
  "conv W t v =
     (if has_type t v then Done v
      else
        (case (t, v) of
           (TFloat, VInt n i) \<Rightarrow> if n = 1 then Fault else Done (VFlt (f_of_int W i))
         | (TInt n, VFlt f) \<Rightarrow>
             if n = 1 then Fault else (case f_to_int W n f of Some i \<Rightarrow> Done (VInt n i) | None \<Rightarrow> Fault)
         | _ \<Rightarrow> Fault))"

definition is_incr :: "unop \<Rightarrow> bool" where
  "is_incr op = (op \<in> {UNOP_PREINC, UNOP_POSTINC, UNOP_PREDEC, UNOP_POSTDEC})"

definition un_val :: "'f world \<Rightarrow> unop \<Rightarrow> 'f val \<Rightarrow> (unit, 'f val) outcome" where
  "un_val W op v =
     (case op of
        UNOP_NOT \<Rightarrow> bind_out (truth W v) (\<lambda>b. Done (VBool (\<not> b)))
      | UNOP_NEG \<Rightarrow>
          (case v of VInt n i \<Rightarrow> Done (VInt n (wrap n (- i))) | VFlt f \<Rightarrow> Done (VFlt (f_neg W f)) | _ \<Rightarrow> Fault)
      | UNOP_COMPLEMENT \<Rightarrow> (case v of VInt n i \<Rightarrow> Done (VInt n (wrap n (- i - 1))) | _ \<Rightarrow> Fault)
      | _ \<Rightarrow> Fault)"

subsection \<open>Expressions\<close>

definition read_var :: "string \<Rightarrow> int list \<Rightarrow> 'f sst \<Rightarrow> (unit, 'f val) outcome" where
  "read_var x p s = (case vars s x of Some (t, v) \<Rightarrow> follow v p | None \<Rightarrow> Fault)"

definition assign_var :: "string \<Rightarrow> int list \<Rightarrow> 'f val \<Rightarrow> 'f sst \<Rightarrow> (unit, 'f sst) outcome" where
  "assign_var x p v s =
     (case vars s x of
        Some (t, u) \<Rightarrow> bind_out (replace_at u p v) (\<lambda>u. Done (s\<lparr>vars := (vars s)(x \<mapsto> (t, u))\<rparr>))
      | None \<Rightarrow> Fault)"

text \<open>
  \<open>update W op pre\<close> replaces what a place holds by the result of an operator, and gives the new value or the old.
\<close>

definition update :: "'f world \<Rightarrow> binop \<Rightarrow> bool \<Rightarrow> (string \<times> int list) \<times> ty \<Rightarrow> 'f val \<Rightarrow> 'f val \<Rightarrow> 'f sst \<Rightarrow> (unit, 'f val \<times> 'f sst) outcome" where
  "update W op pre pl old w s =
     (case pl of ((x, p), t) \<Rightarrow>
        bind_out (bin_val W op old w) (\<lambda>v.
        bind_out (conv W t v) (\<lambda>v.
        bind_out (assign_var x p v s) (\<lambda>s. Done (if pre then v else old, s)))))"

definition pop_val :: "filter_spec \<Rightarrow> 'f sst \<Rightarrow> (unit, 'f val \<times> 'f sst) outcome" where
  "pop_val Fs s =
     (case s_ins s of
        [] \<Rightarrow> WouldBlock () ()
      | v # vs \<Rightarrow> if has_type (in_ty Fs) v then Done (v, s\<lparr>s_ins := vs\<rparr>) else Fault)"

definition peek_val :: "filter_spec \<Rightarrow> 'f val \<Rightarrow> 'f sst \<Rightarrow> (unit, 'f val \<times> 'f sst) outcome" where
  "peek_val Fs i s =
     (case i of
        VInt n k \<Rightarrow>
          if k < 0 then Fault
          else if nat k < length (s_ins s) then
            (if has_type (in_ty Fs) (s_ins s ! nat k) then Done (s_ins s ! nat k, s) else Fault)
          else WouldBlock () ()
      | _ \<Rightarrow> Fault)"

definition call_val :: "'f world \<Rightarrow> filter_spec \<Rightarrow> string \<Rightarrow> 'f val list \<Rightarrow> 'f sst \<Rightarrow> (unit, 'f val \<times> 'f sst) outcome" where
  "call_val W Fs f vs s =
     (case funs Fs f of
        Some (name, pts, rt) \<Rightarrow>
          (let v = extern W name vs in
           if list_all2 has_type pts vs \<and> has_type rt v
           then Done (v, s\<lparr>s_calls := s_calls s @ [(name, vs)]\<rparr>) else Fault)
      | None \<Rightarrow> Fault)"

definition inc_op :: "unop \<Rightarrow> binop" where
  "inc_op op = (if op = UNOP_PREINC \<or> op = UNOP_POSTINC then BINOP_ADD else BINOP_SUB)"

definition is_pre :: "unop \<Rightarrow> bool" where
  "is_pre op = (op = UNOP_PREINC \<or> op = UNOP_PREDEC)"

fun eval :: "'f world \<Rightarrow> filter_spec \<Rightarrow> 'f expr \<Rightarrow> 'f sst \<Rightarrow> (unit, 'f val \<times> 'f sst) outcome"
and leval :: "'f world \<Rightarrow> filter_spec \<Rightarrow> 'f expr \<Rightarrow> 'f sst \<Rightarrow> (unit, ((string \<times> int list) \<times> ty) \<times> 'f sst) outcome"
and evals :: "'f world \<Rightarrow> filter_spec \<Rightarrow> 'f expr list \<Rightarrow> 'f sst \<Rightarrow> (unit, 'f val list \<times> 'f sst) outcome" where
  "eval W Fs (ExprVar x) s = bind_out (read_var x [] s) (\<lambda>v. Done (v, s))"
| "eval W Fs (ExprArray a i) s =
     bind_out (leval W Fs a s) (\<lambda>(((x, p), t), s). bind_out (eval W Fs i s) (\<lambda>(k, s).
       case (t, k) of
         (TArr n u, VInt m j) \<Rightarrow> bind_out (read_var x (p @ [j]) s) (\<lambda>v. Done (v, s))
       | _ \<Rightarrow> Fault))"
| "eval W Fs (ExprArrayInit es) s = Fault"
| "eval W Fs (ExprConstBoolean b) s = Done (VBool b, s)"
| "eval W Fs (ExprConstChar c) s = Done (VInt 8 (sint c), s)"
| "eval W Fs (ExprConstInt i) s = Done (VInt 32 (sint i), s)"
| "eval W Fs (ExprConstFloat f) s = Done (VFlt f, s)"
| "eval W Fs (ExprConstStr c) s = Done (VStr c, s)"
| "eval W Fs (ExprBinary op l r) s =
     bind_out (eval W Fs l s) (\<lambda>(v, s). bind_out (eval W Fs r s) (\<lambda>(w, s). bind_out (bin_val W op v w) (\<lambda>u. Done (u, s))))"
| "eval W Fs (ExprUnary op e) s =
     (if is_incr op then
        bind_out (leval W Fs e s) (\<lambda>(((x, p), t), s). bind_out (read_var x p s) (\<lambda>old.
          update W (inc_op op) (is_pre op) ((x, p), t) old (VInt 32 1) s))
      else bind_out (eval W Fs e s) (\<lambda>(v, s). bind_out (un_val W op v) (\<lambda>u. Done (u, s))))"
| "eval W Fs (ExprTernary c a b) s =
     bind_out (eval W Fs c s) (\<lambda>(v, s). bind_out (truth W v) (\<lambda>t. if t then eval W Fs a s else eval W Fs b s))"
| "eval W Fs (ExprTypeCast st e) s =
     bind_out (convert st) (\<lambda>t. bind_out (eval W Fs e s) (\<lambda>(v, s). bind_out (conv W t v) (\<lambda>u. Done (u, s))))"
| "eval W Fs (ExprFunCall f es) s = bind_out (evals W Fs es s) (\<lambda>(vs, s). call_val W Fs f vs s)"
| "eval W Fs (ExprPeek e) s = bind_out (eval W Fs e s) (\<lambda>(i, s). peek_val Fs i s)"
| "eval W Fs ExprPop s = pop_val Fs s"
| "leval W Fs (ExprVar x) s = (case vars s x of Some (t, v) \<Rightarrow> Done (((x, []), t), s) | None \<Rightarrow> Fault)"
| "leval W Fs (ExprArray a i) s =
     bind_out (leval W Fs a s) (\<lambda>(((x, p), t), s). bind_out (eval W Fs i s) (\<lambda>(k, s).
       case (t, k) of
         (TArr n u, VInt m j) \<Rightarrow> Done (((x, p @ [j]), u), s)
       | _ \<Rightarrow> Fault))"
| "leval W Fs _ s = Fault"
| "evals W Fs [] s = Done ([], s)"
| "evals W Fs (e # es) s =
     bind_out (eval W Fs e s) (\<lambda>(v, s). bind_out (evals W Fs es s) (\<lambda>(vs, s). Done (v # vs, s)))"

subsection \<open>Statements\<close>

datatype sig = Normal | Breaks | Continues | Timeout

type_synonym 'f effect = "'f sst \<Rightarrow> (unit, sig \<times> 'f sst) outcome"

text \<open>Leaving a block ends what was declared in it.\<close>

definition leave :: "'f sst \<Rightarrow> 'f sst \<Rightarrow> 'f sst" where
  "leave s0 s = s\<lparr>vars := (\<lambda>x. if vars s0 x = None then None else vars s x)\<rparr>"

definition scoped :: "'f effect \<Rightarrow> 'f effect" where
  "scoped f s = bind_out (f s) (\<lambda>(g, s'). Done (g, leave s s'))"

definition test :: "'f world \<Rightarrow> filter_spec \<Rightarrow> 'f expr \<Rightarrow> 'f sst \<Rightarrow> (unit, bool \<times> 'f sst) outcome" where
  "test W Fs c s = bind_out (eval W Fs c s) (\<lambda>(v, s). bind_out (truth W v) (\<lambda>b. Done (b, s)))"

text \<open>At most \<open>n\<close> rounds of a loop; the last argument is what follows the body in each.\<close>

fun rounds :: "nat \<Rightarrow> ('f sst \<Rightarrow> (unit, bool \<times> 'f sst) outcome) \<Rightarrow> 'f effect \<Rightarrow> 'f effect \<Rightarrow> 'f effect" where
  "rounds 0 tst body incr s = Done (Timeout, s)"
| "rounds (Suc n) tst body incr s =
     bind_out (tst s) (\<lambda>(b, s).
       if \<not> b then Done (Normal, s)
       else bind_out (body s) (\<lambda>(g, s).
         if g = Breaks then Done (Normal, s)
         else if g = Timeout then Done (Timeout, s)
         else bind_out (incr s) (\<lambda>(g, s).
           if g = Normal then rounds n tst body incr s else if g = Timeout then Done (Timeout, s) else Fault)))"

definition skip :: "'f effect" where
  "skip s = Done (Normal, s)"

text \<open>A \<open>do\<close> loop is its body followed by a \<open>while\<close> loop.\<close>

definition do_rounds :: "nat \<Rightarrow> ('f sst \<Rightarrow> (unit, bool \<times> 'f sst) outcome) \<Rightarrow> 'f effect \<Rightarrow> 'f effect" where
  "do_rounds n tst body s =
     bind_out (body s) (\<lambda>(g, s).
       if g = Breaks then Done (Normal, s) else if g = Timeout then Done (Timeout, s)
       else rounds n tst body skip s)"

fun decl_vars :: "'f world \<Rightarrow> filter_spec \<Rightarrow> ('f stype \<times> string \<times> 'f expr option) list \<Rightarrow> 'f effect" where
  "decl_vars W Fs [] s = Done (Normal, s)"
| "decl_vars W Fs ((st, x, init) # ds) s =
     bind_out (convert st) (\<lambda>t.
     bind_out
       (case init of
          None \<Rightarrow> Done (zero_val W t, s)
        | Some e \<Rightarrow> bind_out (eval W Fs e s) (\<lambda>(v, s). bind_out (conv W t v) (\<lambda>u. Done (u, s))))
       (\<lambda>(v, s). decl_vars W Fs ds (s\<lparr>vars := (vars s)(x \<mapsto> (t, v))\<rparr>)))"

fun exec :: "'f world \<Rightarrow> filter_spec \<Rightarrow> nat \<Rightarrow> 'f stmt \<Rightarrow> 'f effect" and
    execs :: "'f world \<Rightarrow> filter_spec \<Rightarrow> nat \<Rightarrow> 'f stmt list \<Rightarrow> 'f effect" where
  "exec W Fs n StmtEmpty s = Done (Normal, s)"
| "exec W Fs n (StmtExpr e) s = bind_out (eval W Fs e s) (\<lambda>(_, s). Done (Normal, s))"
| "exec W Fs n (StmtAssign None l r) s =
     bind_out (leval W Fs l s) (\<lambda>(((x, p), t), s).
     bind_out (eval W Fs r s) (\<lambda>(v, s).
     bind_out (conv W t v) (\<lambda>v.
     bind_out (assign_var x p v s) (\<lambda>s. Done (Normal, s)))))"
| "exec W Fs n (StmtAssign (Some op) l r) s =
     bind_out (leval W Fs l s) (\<lambda>(((x, p), t), s).
     bind_out (read_var x p s) (\<lambda>old.
     bind_out (eval W Fs r s) (\<lambda>(w, s).
     bind_out (update W op True ((x, p), t) old w s) (\<lambda>(_, s). Done (Normal, s)))))"
| "exec W Fs n (StmtPush e) s =
     bind_out (eval W Fs e s) (\<lambda>(v, s). if has_type (out_ty Fs) v then Done (Normal, s\<lparr>s_outs := s_outs s @ [v]\<rparr>) else Fault)"
| "exec W Fs n (StmtVarDecl ds) s = decl_vars W Fs ds s"
| "exec W Fs n (StmtBlock ss) s = scoped (execs W Fs n ss) s"
| "exec W Fs n (StmtIfThen c a b) s =
     bind_out (test W Fs c s) (\<lambda>(t, s).
       if t then scoped (exec W Fs n a) s
       else (case b of None \<Rightarrow> Done (Normal, s) | Some b \<Rightarrow> scoped (exec W Fs n b) s))"
| "exec W Fs n (StmtWhile c body) s = rounds n (test W Fs c) (scoped (exec W Fs n body)) skip s"
| "exec W Fs n (StmtDoWhile body c) s = do_rounds n (test W Fs c) (scoped (exec W Fs n body)) s"
| "exec W Fs n (StmtFor init c incr body) s =
     scoped (\<lambda>s. bind_out (exec W Fs n init s) (\<lambda>(g, s).
       if g = Normal then rounds n (test W Fs c) (scoped (exec W Fs n body)) (scoped (exec W Fs n incr)) s
       else if g = Timeout then Done (Timeout, s) else Fault)) s"
| "exec W Fs n StmtBreak s = Done (Breaks, s)"
| "exec W Fs n StmtContinue s = Done (Continues, s)"
| "exec W Fs n StmtReturn s = Fault"
| "execs W Fs n [] s = Done (Normal, s)"
| "execs W Fs n (x # xs) s = bind_out (exec W Fs n x s) (\<lambda>(g, s). if g = Normal then execs W Fs n xs s else Done (g, s))"

subsection \<open>The programs that are compiled as they should be\<close>

text \<open>An expression that changes nothing.\<close>

fun pure_expr :: "'f expr \<Rightarrow> bool" where
  "pure_expr (ExprArray a i) = (pure_expr a \<and> pure_expr i)"
| "pure_expr (ExprBinary op l r) = (pure_expr l \<and> pure_expr r)"
| "pure_expr (ExprUnary op e) = (\<not> is_incr op \<and> pure_expr e)"
| "pure_expr (ExprTypeCast t e) = pure_expr e"
| "pure_expr (ExprPeek e) = pure_expr e"
| "pure_expr ExprPop = False"
| "pure_expr (ExprFunCall f es) = False"
| "pure_expr (ExprTernary c a b) = False"
| "pure_expr _ = True"

fun lval :: "'f expr \<Rightarrow> bool" where
  "lval (ExprVar x) = True"
| "lval (ExprArray a i) = lval a"
| "lval _ = False"

text \<open>
  The expressions without conditional expressions and initialisers of arrays, whose increments are of places
  that can be evaluated twice.
\<close>

fun simple :: "'f expr \<Rightarrow> bool" where
  "simple (ExprVar x) = plain x"
| "simple (ExprArray a i) = (lval a \<and> simple a \<and> simple i)"
| "simple (ExprArrayInit es) = False"
| "simple (ExprBinary op l r) = (simple l \<and> simple r)"
| "simple (ExprUnary op e) = (simple e \<and> (is_incr op \<longrightarrow> lval e \<and> pure_expr e))"
| "simple (ExprTernary c a b) = False"
| "simple (ExprTypeCast t e) = simple e"
| "simple (ExprFunCall f es) = (plain f \<and> list_all simple es)"
| "simple (ExprPeek e) = simple e"
| "simple _ = True"

text \<open>A statement without control flow, for which one block is generated.\<close>

fun flat :: "'f stmt \<Rightarrow> bool" where
  "flat (StmtBlock ss) = list_all flat ss"
| "flat (StmtIfThen c a b) = False"
| "flat (StmtWhile c body) = False"
| "flat (StmtDoWhile body c) = False"
| "flat (StmtFor init c incr body) = False"
| "flat StmtBreak = False"
| "flat StmtContinue = False"
| "flat StmtReturn = False"
| "flat _ = True"

fun has_loop :: "'f stmt \<Rightarrow> bool" where
  "has_loop (StmtBlock ss) = list_ex has_loop ss"
| "has_loop (StmtIfThen c a b) = (has_loop a \<or> (case b of None \<Rightarrow> False | Some b \<Rightarrow> has_loop b))"
| "has_loop (StmtWhile c body) = True"
| "has_loop (StmtDoWhile body c) = True"
| "has_loop (StmtFor init c incr body) = True"
| "has_loop _ = False"

text \<open>A \<open>continue\<close> of the loop around the statement.\<close>

fun continues :: "'f stmt \<Rightarrow> bool" where
  "continues (StmtBlock ss) = list_ex continues ss"
| "continues (StmtIfThen c a b) = (continues a \<or> (case b of None \<Rightarrow> False | Some b \<Rightarrow> continues b))"
| "continues StmtContinue = True"
| "continues _ = False"

text \<open>
  The statements whose expressions are \<open>simple\<close>, in which no \<open>continue\<close> follows a nested loop, and the body of a
  \<open>do\<close> loop has no control flow.
\<close>

fun good :: "'f stmt \<Rightarrow> bool" and goods :: "'f stmt list \<Rightarrow> bool" where
  "good StmtEmpty = True"
| "good (StmtExpr e) = simple e"
| "good (StmtAssign op l r) = (lval l \<and> simple l \<and> simple r \<and> (op \<noteq> None \<longrightarrow> pure_expr l))"
| "good (StmtPush e) = simple e"
| "good (StmtVarDecl ds) = list_all (\<lambda>(t, x, e). plain x \<and> (case e of None \<Rightarrow> True | Some e \<Rightarrow> simple e)) ds"
| "good (StmtBlock ss) = goods ss"
| "good (StmtIfThen c a b) =
     (simple c \<and> good a \<and> (case b of None \<Rightarrow> True | Some b \<Rightarrow> good b \<and> \<not> (has_loop a \<and> continues b)))"
| "good (StmtWhile c body) = (simple c \<and> good body)"
| "good (StmtDoWhile body c) = (simple c \<and> good body \<and> flat body)"
| "good (StmtFor init c incr body) =
     (simple c \<and> good init \<and> flat init \<and> good incr \<and> flat incr \<and> good body)"
| "good StmtBreak = True"
| "good StmtContinue = True"
| "good StmtReturn = True"
| "goods [] = True"
| "goods (x # xs) = (good x \<and> goods xs \<and> \<not> (has_loop x \<and> list_ex continues xs))"

text \<open>The names that a statement declares.\<close>

fun declared :: "'f stmt \<Rightarrow> string list" where
  "declared (StmtVarDecl ds) = map (\<lambda>(t, x, e). x) ds"
| "declared (StmtBlock ss) = concat (map declared ss)"
| "declared (StmtIfThen c a b) = declared a @ (case b of None \<Rightarrow> [] | Some b \<Rightarrow> declared b)"
| "declared (StmtWhile c body) = declared body"
| "declared (StmtDoWhile body c) = declared body"
| "declared (StmtFor init c incr body) = declared init @ declared body @ declared incr"
| "declared _ = []"

end
