(* ===== verification/FE_Shape.thy ===== *)
theory FE_Shape
  imports FE_Source
begin

section \<open>The code of expressions computes their values\<close>

text \<open>
  A simulation: whenever the machine state represents the state of the program, the code that is
  generated for an expression takes it to one that represents the state after the expression, and leaves the value
  in the operand.  A variable is represented by the root of memory that the symbol table gives for
  its name; \<open>E\<close> is this correspondence at the end of the function, which extends that of any earlier moment.
\<close>

subsection \<open>Where variables live\<close>

fun loc_of :: "ty list \<Rightarrow> 'f opnd \<Rightarrow> (root \<times> ty) option" where
  "loc_of flds (OSlot n t) = Some (RSlot n, t)"
| "loc_of flds (OGlobal g t) = Some (RGlobal g, t)"
| "loc_of flds (OInt n k) = (if 0 \<le> k \<and> nat k < length flds then Some (RField (nat k), flds ! nat k) else None)"
| "loc_of flds _ = None"

definition locs :: "'f cg \<Rightarrow> string \<Rightarrow> (root \<times> ty) option" where
  "locs s x = (if plain x then Option.bind (find_value (symt s) x) (loc_of (state_ty s)) else None)"

type_synonym locations = "string \<Rightarrow> (root \<times> ty) option"

definition apart_roots :: "locations \<Rightarrow> bool" where
  "apart_roots E \<longleftrightarrow> (\<forall>x y r t u. E x = Some (r, t) \<longrightarrow> E y = Some (r, u) \<longrightarrow> x = y)"

text \<open>No variable lives in the slots from \<open>a\<close> to \<open>b\<close>.\<close>

definition no_slots :: "locations \<Rightarrow> nat \<Rightarrow> nat \<Rightarrow> bool" where
  "no_slots E a b \<longleftrightarrow> (\<forall>x k t. E x = Some (RSlot k, t) \<longrightarrow> k < a \<or> b \<le> k)"

lemma no_slots_sub: "no_slots E a d \<Longrightarrow> a \<le> b \<Longrightarrow> c \<le> d \<Longrightarrow> no_slots E b c"
  unfolding no_slots_def by (meson less_le_trans order_trans)

definition sim :: "locations \<Rightarrow> 'f ist \<Rightarrow> 'f sst \<Rightarrow> bool" where
  "sim E m s \<longleftrightarrow>
     (\<forall>x t v. vars s x = Some (t, v) \<longrightarrow> (\<exists>r. E x = Some (r, t) \<and> mem m r = v \<and> has_type t v)) \<and>
     ins m = s_ins s \<and> outs m = s_outs s \<and> calls m = s_calls s"

lemma sim_streams: "sim E m s \<Longrightarrow> ins m = s_ins s \<and> outs m = s_outs s \<and> calls m = s_calls s"
  by (simp add: sim_def)

lemma sim_var: "sim E m s \<Longrightarrow> vars s x = Some (t, v) \<Longrightarrow> \<exists>r. E x = Some (r, t) \<and> mem m r = v \<and> has_type t v"
  by (simp add: sim_def)

lemma sim_regs [simp]: "sim E (m\<lparr>regs := f\<rparr>) s = sim E m s"
  by (simp add: sim_def)

lemma sim_set_reg [simp]: "sim E (set_reg n v m) s = sim E m s"
  by (simp add: set_reg_def)

text \<open>A slot that no variable lives in may be written.\<close>

lemma sim_temp:
  assumes "sim E m s" and "no_slots E k (Suc k)"
  shows "sim E (m\<lparr>mem := (mem m)(RSlot k := v)\<rparr>) s"
proof -
  have "E x \<noteq> Some (RSlot k, t)" for x t
  proof
    assume "E x = Some (RSlot k, t)"
    then have "k < k \<or> Suc k \<le> k" using assms(2) unfolding no_slots_def by blast
    then show False by simp
  qed
  then show ?thesis using assms(1) unfolding sim_def by fastforce
qed

subsection \<open>Code that was appended\<close>

definition extends :: "'f cg \<Rightarrow> 'f instr list \<Rightarrow> 'f cg \<Rightarrow> bool" where
  "extends s is s' \<longleftrightarrow>
     nreg s \<le> nreg s' \<and> nslot s \<le> nslot s' \<and>
     s' = s\<lparr>code := (code s)(currentBB s := code s (currentBB s) @ is), nreg := nreg s', nslot := nslot s', inLHS := inLHS s'\<rparr>"

lemma extends_refl: "extends s [] s"
  by (simp add: extends_def)

lemma extends_sel:
  assumes "extends s is s'"
  shows "currentBB s' = currentBB s" "nblk s' = nblk s" "symt s' = symt s" "state_ty s' = state_ty s" "in_type s' = in_type s"
    "breakBB s' = breakBB s" "continueBB s' = continueBB s" "nreg s \<le> nreg s'" "nslot s \<le> nslot s'"
    "code s' = (code s)(currentBB s := code s (currentBB s) @ is)"
proof -
  have e: "s' = s\<lparr>code := (code s)(currentBB s := code s (currentBB s) @ is), nreg := nreg s', nslot := nslot s', inLHS := inLHS s'\<rparr>"
    and n: "nreg s \<le> nreg s'" "nslot s \<le> nslot s'" using assms by (simp_all add: extends_def)
  show "nreg s \<le> nreg s'" "nslot s \<le> nslot s'" by (fact n)+
  show "currentBB s' = currentBB s" "nblk s' = nblk s" "symt s' = symt s" "state_ty s' = state_ty s" "in_type s' = in_type s"
    "breakBB s' = breakBB s" "continueBB s' = continueBB s" "code s' = (code s)(currentBB s := code s (currentBB s) @ is)"
    by (subst e, simp)+
qed

lemma extendsI:
  assumes "currentBB s' = currentBB s" "nblk s' = nblk s" "symt s' = symt s" "state_ty s' = state_ty s" "in_type s' = in_type s"
    "breakBB s' = breakBB s" "continueBB s' = continueBB s" "nreg s \<le> nreg s'" "nslot s \<le> nslot s'"
    "code s' = (code s)(currentBB s := code s (currentBB s) @ is)"
  shows "extends s is s'"
  using assms unfolding extends_def by (intro conjI) (auto intro: cg.equality)

lemma extends_iff:
  "extends s is s' \<longleftrightarrow> currentBB s' = currentBB s \<and> nblk s' = nblk s \<and> symt s' = symt s \<and> state_ty s' = state_ty s \<and>
     in_type s' = in_type s \<and> breakBB s' = breakBB s \<and> continueBB s' = continueBB s \<and> nreg s \<le> nreg s' \<and>
     nslot s \<le> nslot s' \<and> code s' = (code s)(currentBB s := code s (currentBB s) @ is)"
  using extends_sel [of s "is" s'] extendsI [of s' s "is"] by blast

lemma extends_trans:
  assumes "extends a is b" and "extends b js c"
  shows "extends a (is @ js) c"
  using extends_sel [OF assms(1)] extends_sel [OF assms(2)] by (intro extendsI) auto

lemma extends_LHS [simp]:
  "extends (s\<lparr>inLHS := b\<rparr>) is s' = extends s is s'" "extends s is (s'\<lparr>inLHS := b\<rparr>) = extends s is s'"
  by (simp_all add: extends_iff)

lemma locs_extends: "extends s is s' \<Longrightarrow> locs s' = locs s"
  by (simp add: locs_def fun_eq_iff extends_sel)

fun below :: "nat \<Rightarrow> 'f opnd \<Rightarrow> bool" where
  "below n (OReg k t) = (k < n)"
| "below n _ = True"

lemma below_mono: "below n v \<Longrightarrow> n \<le> n' \<Longrightarrow> below n' v"
  by (cases v) auto

text \<open>\<open>made s v s'\<close>: code was appended for the operand \<open>v\<close>.\<close>

definition made :: "'f cg \<Rightarrow> 'f opnd \<Rightarrow> 'f cg \<Rightarrow> bool" where
  "made s v s' \<longleftrightarrow> (\<exists>is. extends s is s') \<and> below (nreg s') v \<and> inLHS s' = inLHS s"

lemma madeD:
  assumes "made s v s'"
  shows "currentBB s' = currentBB s" "nblk s' = nblk s" "symt s' = symt s" "state_ty s' = state_ty s" "in_type s' = in_type s"
    "breakBB s' = breakBB s" "continueBB s' = continueBB s" "nreg s \<le> nreg s'" "nslot s \<le> nslot s'"
    "inLHS s' = inLHS s" "below (nreg s') v" "locs s' = locs s"
  using assms extends_sel locs_extends by (auto simp: made_def)

lemma made_refl: "below (nreg s) v \<Longrightarrow> made s v s"
  using extends_refl by (auto simp: made_def)

lemma made_trans: "made a v b \<Longrightarrow> made b w c \<Longrightarrow> made a w c"
  unfolding made_def using extends_trans by metis

lemma made_keep: "made a v b \<Longrightarrow> below (nreg a) w \<Longrightarrow> below (nreg b) w"
  using below_mono madeD(8) by blast

lemma made_weaken: "made a v b \<Longrightarrow> below (nreg a) w \<Longrightarrow> made a w b"
  using made_keep [of a v b w] by (simp add: made_def)

subsection \<open>The builder appends to the current block\<close>

lemma value_at_made: "value_at (currentBB s) mk t s = (v, s') \<Longrightarrow> made s v s'"
  by (auto simp: value_at_def emit_def made_def intro!: extendsI)

lemma emit_extends: "extends s [i] (emit (currentBB s) i s)"
  by (rule extendsI) (simp_all add: emit_def)

lemma emit_sel [simp]:
  "currentBB (emit b i s) = currentBB s" "nblk (emit b i s) = nblk s" "symt (emit b i s) = symt s"
  "state_ty (emit b i s) = state_ty s" "in_type (emit b i s) = in_type s" "breakBB (emit b i s) = breakBB s"
  "continueBB (emit b i s) = continueBB s" "nreg (emit b i s) = nreg s" "nslot (emit b i s) = nslot s" "inLHS (emit b i s) = inLHS s"
  by (simp_all add: emit_def)

lemmas create_defs = CreateBin_def CreateICmp_def CreateFCmp_def CreateCmp_def CreateNot_def CreateNeg_def CreateLoad_def
  CreateElem_def CreateField_def

lemma create_made:
  assumes "b = currentBB s"
  shows "CreateBin b a l r s = Done (v, s') \<Longrightarrow> made s v s'"
    "CreateICmp b c l r s = Done (v, s') \<Longrightarrow> made s v s'"
    "CreateFCmp b c l r s = Done (v, s') \<Longrightarrow> made s v s'"
    "CreateCmp b c l r s = Done (v, s') \<Longrightarrow> made s v s'"
    "CreateNot b l s = Done (v, s') \<Longrightarrow> made s v s'"
    "CreateNeg b l s = Done (v, s') \<Longrightarrow> made s v s'"
    "CreateLoad b l s = Done (v, s') \<Longrightarrow> made s v s'"
    "CreateElem b l r s = Done (v, s') \<Longrightarrow> made s v s'"
    "CreateField b k s = Done (v, s') \<Longrightarrow> made s v s'"
  using assms value_at_made by (auto simp: create_defs split: if_splits ty.splits) blast+

lemma matchTypes_made: "matchTypes v t s = Done (w, s') \<Longrightarrow> below (nreg s) v \<Longrightarrow> made s w s'"
  using value_at_made made_refl by (auto simp: matchTypes_def split: if_splits) blast+

lemma nonzero_made: "nonzero b v s = Done (w, s') \<Longrightarrow> b = currentBB s \<Longrightarrow> below (nreg s) v \<Longrightarrow> made s w s'"
  by (auto simp: nonzero_def create_made split: if_splits intro: made_refl)

lemma match_operands_made:
  assumes "match_operands vl vr s = Done ((vl', vr'), s')" and "below (nreg s) vl" and "below (nreg s) vr"
  shows "made s vl' s' \<and> made s vr' s'"
  using assms matchTypes_made [of vl "typ_of vr" s vl' s'] matchTypes_made [of vr "typ_of vl" s vr' s']
    made_weaken [of s vl' s' vr] made_weaken [of s vr' s' vl] made_refl
  by (auto simp: match_operands_def split: if_splits elim!: bind_out_DoneE)

lemma create_binary_made:
  assumes "create_binary op b vl vr s = Done (v, s')" and "b = currentBB s" and "below (nreg s) vl" and "below (nreg s) vr"
  shows "made s v s'"
proof -
  have two: "made s v s'"
    if "bind_out (nonzero b vl s) (\<lambda>(vl, s). bind_out (nonzero b vr s) (\<lambda>(vr, s). CreateBin b a vl vr s)) = Done (v, s')" for a
    using that
  proof (elim bind_out_DoneE, clarsimp elim!: bind_out_DoneE)
    fix v1 s1 v2 s2
    assume h: "nonzero b vl s = Done (v1, s1)" "nonzero b vr s1 = Done (v2, s2)" "CreateBin b a v1 v2 s2 = Done (v, s')"
    have m1: "made s v1 s1" by (rule nonzero_made [OF h(1) assms(2,3)])
    have m2: "made s1 v2 s2" using made_keep [OF m1 assms(4)] madeD(1) [OF m1] assms(2) by (intro nonzero_made [OF h(2)]) simp_all
    have "made s2 v s'" using madeD(1) [OF m1] madeD(1) [OF m2] assms(2) h(3) by (intro create_made(1)) simp_all
    with m1 m2 show ?thesis using made_trans by blast
  qed
  show ?thesis using assms(1)
    by (cases op) (auto simp: create_made [OF assms(2)] create_and_def create_or_def two split: if_splits)
qed

subsection \<open>Expressions are straight-line code\<close>

text \<open>The values in the symbol table are addresses and numbers of fields.\<close>

fun placed :: "'f opnd \<Rightarrow> bool" where
  "placed (OSlot n t) = True"
| "placed (OGlobal g t) = True"
| "placed (OInt n k) = True"
| "placed _ = False"

definition tidy :: "'f cg \<Rightarrow> bool" where
  "tidy s \<longleftrightarrow> (\<forall>x v. plain x \<longrightarrow> find_value (symt s) x = Some v \<longrightarrow> placed v)"

lemma tidy_made: "made s v s' \<Longrightarrow> tidy s' = tidy s"
  by (simp add: tidy_def madeD)

lemma tidy_extends: "extends s is s' \<Longrightarrow> tidy s' = tidy s"
  by (simp add: tidy_def extends_sel)

lemma tidy_LHS [simp]: "tidy (s\<lparr>inLHS := b\<rparr>) = tidy s"
  by (simp add: tidy_def)

definition makes :: "'f gen \<Rightarrow> bool" where
  "makes g \<longleftrightarrow> (\<forall>s v s'. tidy s \<longrightarrow> \<not> inLHS s \<longrightarrow> g s = Done (v, s') \<longrightarrow> made s v s')"

text \<open>The same for a place, which may also be visited for its address.\<close>

definition lmakes :: "'f gen \<Rightarrow> bool" where
  "lmakes g \<longleftrightarrow> (\<forall>s v s'. tidy s \<longrightarrow> g s = Done (v, s') \<longrightarrow> made s v s')"

lemma makesD: "makes g \<Longrightarrow> g s = Done (v, s') \<Longrightarrow> tidy s \<Longrightarrow> \<not> inLHS s \<Longrightarrow> made s v s'"
  by (simp add: makes_def)

lemma lmakesD: "lmakes g \<Longrightarrow> g s = Done (v, s') \<Longrightarrow> tidy s \<Longrightarrow> made s v s'"
  by (simp add: lmakes_def)

lemma lmakes_makes: "lmakes g \<Longrightarrow> makes g"
  by (simp add: lmakes_def makes_def)

text \<open>The flag \<open>inLHS\<close> may be changed before.\<close>

lemma made_LHS: "made (s\<lparr>inLHS := b\<rparr>) v s' \<Longrightarrow> (\<exists>is. extends s is s') \<and> below (nreg s') v \<and> inLHS s' = b"
  by (auto simp: made_def)

lemma made_after: "\<exists>is. extends a is b \<Longrightarrow> made b v c \<Longrightarrow> inLHS c = inLHS a \<Longrightarrow> made a v c"
  unfolding made_def using extends_trans by blast

lemma made_extends: "extends a is b \<Longrightarrow> inLHS b = inLHS a \<Longrightarrow> made b v c \<Longrightarrow> made a v c"
  unfolding made_def using extends_trans by metis

lemma visitExprVar_made:
  assumes "plain x"
  shows "lmakes (visitExprVar x)"
  unfolding lmakes_def
proof (intro allI impI)
  fix s v s' assume t: "tidy s" and h: "visitExprVar x s = Done (v, s')"
  then obtain w u s1 where w: "find_value (symt s) x = Some w"
    and u: "(case w of OInt n k \<Rightarrow> CreateField (currentBB s) k s | _ \<Rightarrow> Done (w, s)) = Done (u, s1)"
    and r: "(if \<not> inLHS s1 then CreateLoad (currentBB s1) u s1 else Done (u, s1)) = Done (v, s')"
    by (auto simp: visitExprVar_def elim!: bind_out_DoneE split: option.splits)
  have "placed w" using t w assms by (simp add: tidy_def)
  then have m: "made s u s1" using u create_made(9) [of "currentBB s" s _ u s1] by (cases w) (auto intro: made_refl)
  moreover have "made s1 v s'" using r create_made(7) [of "currentBB s1" s1 u v s'] made_refl madeD(11) [OF m]
    by (auto split: if_splits)
  ultimately show "made s v s'" by (rule made_trans)
qed

lemma visitExprArray_made:
  assumes "lmakes gb" and "makes gi"
  shows "lmakes (visitExprArray gb gi)"
  unfolding lmakes_def
proof (intro allI impI)
  fix s v s' assume t: "tidy s" and "visitExprArray gb gi s = Done (v, s')"
  then obtain b s1 i s2 p s3 where h: "gb (s\<lparr>inLHS := True\<rparr>) = Done (b, s1)" "gi (s1\<lparr>inLHS := False\<rparr>) = Done (i, s2)"
      "CreateElem (currentBB s2) b i (s2\<lparr>inLHS := inLHS s\<rparr>) = Done (p, s3)"
      "(if inLHS s3 then Done (p, s3) else CreateLoad (currentBB s3) p s3) = Done (v, s')"
    by (auto simp: visitExprArray_def Let_def elim!: bind_out_DoneE)
  obtain is1 where m1: "extends s is1 s1" using made_LHS [OF lmakesD [OF assms(1) h(1)]] t by auto
  obtain is2 where m2: "extends s1 is2 s2" using made_LHS [OF makesD [OF assms(2) h(2)]] t tidy_extends [OF m1] by auto
  have m3: "made (s2\<lparr>inLHS := inLHS s\<rparr>) p s3" using create_made(8) [OF _ h(3)] by simp
  have m4: "made s3 v s'" using h(4) create_made(7) [of "currentBB s3" s3 p v s'] madeD(11) [OF m3] made_refl by (auto split: if_splits)
  have "extends s (is1 @ is2) (s2\<lparr>inLHS := inLHS s\<rparr>)" using extends_trans [OF m1 m2] by simp
  moreover have m: "made (s2\<lparr>inLHS := inLHS s\<rparr>) v s'" by (rule made_trans [OF m3 m4])
  ultimately show "made s v s'" using madeD(10) [OF m] by (intro made_after [OF _ m]) auto
qed

lemma visitExprBinary_made:
  assumes "makes gl" and "makes gr"
  shows "makes (visitExprBinary op gl gr)"
  unfolding makes_def
proof (intro allI impI)
  fix s v s' assume t: "tidy s" "\<not> inLHS s" and "visitExprBinary op gl gr s = Done (v, s')"
  then obtain l s1 r s2 l' r' s3 where h: "gl s = Done (l, s1)" "gr s1 = Done (r, s2)"
      "match_operands l r s2 = Done ((l', r'), s3)" "create_binary op (currentBB s3) l' r' s3 = Done (v, s')"
    by (auto simp: visitExprBinary_def elim!: bind_out_DoneE)
  have m1: "made s l s1" by (rule makesD [OF assms(1) h(1) t])
  have m2: "made s1 r s2" using t tidy_made [OF m1] madeD(10) [OF m1] by (intro makesD [OF assms(2) h(2)]) simp_all
  have m3: "made s2 l' s3 \<and> made s2 r' s3"
    using made_keep [OF m2 madeD(11) [OF m1]] madeD(11) [OF m2] by (intro match_operands_made [OF h(3)])
  then have "made s3 v s'" using madeD(11) [of s2 l' s3] madeD(11) [of s2 r' s3] by (intro create_binary_made [OF h(4) refl]) auto
  then show "made s v s'" using m1 m2 m3 made_trans by blast
qed

lemma CreateStore_extends: "CreateStore (currentBB s) v p s = Done s' \<Longrightarrow> extends s [IStore v p] s' \<and> inLHS s' = inLHS s"
  using emit_extends by (auto simp: CreateStore_def split: if_splits)

lemma visitStmtAssign_made:
  assumes "lmakes gl" and "makes gr"
  shows "makes (visitStmtAssign gl gr)"
  unfolding makes_def
proof (intro allI impI)
  fix s v s' assume t: "tidy s" "\<not> inLHS s" and "visitStmtAssign gl gr s = Done (v, s')"
  then obtain l s1 r s2 ty s3 where h: "gl (s\<lparr>inLHS := True\<rparr>) = Done (l, s1)" "gr (s1\<lparr>inLHS := False\<rparr>) = Done (r, s2)"
      "matchTypes r ty s2 = Done (v, s3)" "CreateStore (currentBB s3) v l s3 = Done s'"
    by (auto simp: visitStmtAssign_def elim!: bind_out_DoneE split: ty.splits)
  obtain is1 where m1: "extends s is1 s1" using made_LHS [OF lmakesD [OF assms(1) h(1)]] t by auto
  have m2: "made (s1\<lparr>inLHS := False\<rparr>) r s2" using t tidy_extends [OF m1] by (intro makesD [OF assms(2) h(2)]) simp_all
  have m3: "made s2 v s3" by (rule matchTypes_made [OF h(3) madeD(11) [OF m2]])
  note e = CreateStore_extends [OF h(4)]
  have m: "made (s1\<lparr>inLHS := False\<rparr>) v s'"
    using made_trans [OF m2 m3] e extends_trans extends_sel(8) [of s3 _ s'] below_mono by (fastforce simp: made_def)
  show "made s v s'" using m1 madeD(10) [OF m] t by (intro made_after [OF _ m]) auto
qed

lemma constant_one_made: "makes constant_one"
  by (auto simp: makes_def constant_one_def intro!: made_refl)

lemma assign_op_made: "lmakes g \<Longrightarrow> makes r \<Longrightarrow> makes (visitStmtAssign_op op g r)"
  by (simp add: visitStmtAssign_op_def visitStmtAssign_made visitExprBinary_made lmakes_makes)

text \<open>An operation after an operand.\<close>

lemma makes_bind:
  assumes "makes g" and "\<And>s v s' w s''. made s v s' \<Longrightarrow> tidy s' \<Longrightarrow> \<not> inLHS s' \<Longrightarrow> k (v, s') = Done (w, s'') \<Longrightarrow> made s' w s''"
  shows "makes (\<lambda>s. bind_out (g s) k)"
  unfolding makes_def
proof (intro allI impI)
  fix s w s'' assume t: "tidy s" "\<not> inLHS s" and "bind_out (g s) k = Done (w, s'')"
  then obtain v s' where h: "g s = Done (v, s')" "k (v, s') = Done (w, s'')" by (auto elim!: bind_out_DoneE)
  have m: "made s v s'" by (rule makesD [OF assms(1) h(1) t])
  then show "made s w s''" using assms(2) [OF m _ _ h(2)] tidy_made [OF m] madeD(10) [OF m] t made_trans by auto
qed

lemma visitExprUnary_made:
  assumes "makes g" and "is_incr op \<Longrightarrow> lmakes g"
  shows "makes (visitExprUnary op g)"
proof (cases "is_incr op")
  case True
  note a = makesD [OF assign_op_made [OF assms(2) [OF True] constant_one_made]]
  have pre: "makes (\<lambda>s. bind_out (g s) (\<lambda>(v, s). visitStmtAssign_op bop g constant_one s))" for bop
    by (rule makes_bind [OF assms(1)]) (auto dest: a)
  have post: "makes (\<lambda>s. bind_out (g s) (\<lambda>(v, s). bind_out (visitStmtAssign_op bop g constant_one s) (\<lambda>(_, s). Done (v, s))))" for bop
    by (rule makes_bind [OF assms(1)]) (auto elim!: bind_out_DoneE dest!: a intro: made_weaken simp: madeD)
  show ?thesis using pre post True by (cases op) (auto simp: is_incr_def fun_eq_iff makes_def)
next
  case False
  have n: "makes (visitExprUnary UNOP_NOT g)"
  proof -
    have "makes (\<lambda>s. bind_out (g s) (\<lambda>(v, s). bind_out (nonzero (currentBB s) v s) (\<lambda>(v, s).
        bind_out (CreateNot (currentBB s) v s) (\<lambda>(v, s). CreateNeg (currentBB s) v s))))"
    proof (rule makes_bind [OF assms(1)], clarsimp elim!: bind_out_DoneE)
      fix s v s' w s'' u s3 u' s4
      assume m: "made s v s'" "nonzero (currentBB s') v s' = Done (u, s3)" "CreateNot (currentBB s3) u s3 = Done (u', s4)"
        "CreateNeg (currentBB s4) u' s4 = Done (w, s'')"
      have "made s' u s3" by (rule nonzero_made [OF m(2) refl madeD(11) [OF m(1)]])
      then show "made s' w s''" using create_made(5) [OF refl m(3)] create_made(6) [OF refl m(4)] made_trans by blast
    qed
    then show ?thesis by (simp add: makes_def)
  qed
  have "makes (\<lambda>s. bind_out (g s) (\<lambda>(v, s). CreateNeg (currentBB s) v s))"
    "makes (\<lambda>s. bind_out (g s) (\<lambda>(v, s). CreateNot (currentBB s) v s))"
    by (rule makes_bind [OF assms(1)], auto simp: create_made)+
  then show ?thesis using n False by (cases op) (auto simp: is_incr_def makes_def)
qed

lemma visitExprTypeCast_made: "makes g \<Longrightarrow> makes (visitExprTypeCast ty g)"
proof -
  assume g: "makes g"
  have "makes (\<lambda>s. bind_out (g s) (\<lambda>(v, s). matchTypes v t s))" for t
    by (rule makes_bind [OF g]) (auto simp: matchTypes_made madeD)
  then show ?thesis by (auto simp: makes_def visitExprTypeCast_def elim!: bind_out_DoneE)
qed

lemma CreateAlloca_made: "CreateAlloca t s = Done (v, s') \<Longrightarrow> made s v s'"
proof -
  assume "CreateAlloca t s = Done (v, s')"
  then have "v = OSlot (nslot s) t" "s' = s\<lparr>nslot := Suc (nslot s)\<rparr>" by (simp_all add: CreateAlloca_def split: if_splits)
  moreover have "extends s [] (s\<lparr>nslot := Suc (nslot s)\<rparr>)" by (rule extendsI) simp_all
  ultimately show ?thesis by (auto simp: made_def)
qed

lemma visitExprPop_made: "makes visitExprPop"
  unfolding makes_def
proof (intro allI impI)
  fix s :: "'a cg" and v s' assume "visitExprPop s = Done (v, s')"
  then obtain e s1 where h: "CreateAlloca (in_type s) s = Done (e, s1)" "CreateLoad (currentBB s) e (emit (currentBB s) (IPop e) s1) = Done (v, s')"
    by (auto simp: visitExprPop_def Let_def elim!: bind_out_DoneE)
  note m1 = CreateAlloca_made [OF h(1)]
  have "made (emit (currentBB s) (IPop e) s1) v s'" using h(2) madeD(1) [OF m1] by (intro create_made(7) [where b = "currentBB s"]) simp_all
  moreover have "extends s1 [IPop e] (emit (currentBB s) (IPop e) s1)" using emit_extends [of s1] madeD(1) [OF m1] by simp
  ultimately have "made s1 v s'" using made_extends emit_sel(10) by metis
  with m1 show "made s v s'" by (rule made_trans)
qed

lemma CreatePeek_extends:
  assumes "CreatePeek b e n s = Done s'" and "b = currentBB s"
  shows "\<exists>is. extends s is s' \<and> inLHS s' = inLHS s"
proof -
  obtain k where k: "typ_of n = TInt k" using assms(1) by (auto simp: CreatePeek_def split: ty.splits)
  show ?thesis
  proof (cases "k = 32")
    case True
    then show ?thesis using assms k emit_extends [of s] by (auto simp: CreatePeek_def)
  next
    case False
    then obtain r s1 where v: "value_at b (\<lambda>r. ISExt r n (TInt 32)) (TInt 32) s = (r, s1)" and s': "s' = emit b (IPeek e r) s1"
      using assms(1) k by (auto simp: CreatePeek_def split: if_splits prod.splits)
    have m: "made s r s1" using v assms(2) value_at_made by blast
    then obtain is1 where "extends s is1 s1" by (auto simp: made_def)
    moreover have "extends s1 [IPeek e r] s'" using emit_extends [of s1 "IPeek e r"] madeD(1) [OF m] s' assms(2) by simp
    ultimately show ?thesis using extends_trans madeD(10) [OF m] s' emit_sel(10) by metis
  qed
qed

lemma visitExprPeek_made:
  assumes "makes g"
  shows "makes (visitExprPeek g)"
  unfolding makes_def
proof (intro allI impI)
  fix s v s' assume t: "tidy s" "\<not> inLHS s" and "visitExprPeek g s = Done (v, s')"
  then obtain e s1 n s2 s3 where h: "CreateAlloca (in_type s) s = Done (e, s1)" "g s1 = Done (n, s2)"
      "CreatePeek (currentBB s) e n s2 = Done s3" "CreateLoad (currentBB s) e s3 = Done (v, s')"
    by (auto simp: visitExprPeek_def Let_def elim!: bind_out_DoneE)
  note m1 = CreateAlloca_made [OF h(1)]
  have m2: "made s1 n s2" using t tidy_made [OF m1] madeD(10) [OF m1] by (intro makesD [OF assms h(2)]) simp_all
  have c: "currentBB s = currentBB s2" using madeD(1) m1 m2 by metis
  obtain is3 where e: "extends s2 is3 s3" "inLHS s3 = inLHS s2" using CreatePeek_extends [OF h(3) c] by blast
  have "made s3 v s'" using c extends_sel(1) [OF e(1)] h(4) by (intro create_made(7) [where b = "currentBB s"]) simp_all
  then have "made s2 v s'" by (rule made_extends [OF e])
  then show "made s v s'" using made_trans [OF m1] made_trans [OF m2] by blast
qed

text \<open>Arguments.\<close>

definition mades :: "'f cg \<Rightarrow> 'f opnd list \<Rightarrow> 'f cg \<Rightarrow> bool" where
  "mades s vs s' \<longleftrightarrow> (\<exists>is. extends s is s') \<and> list_all (below (nreg s')) vs \<and> inLHS s' = inLHS s"

lemma gen_args_made:
  assumes "\<And>e. e \<in> set es \<Longrightarrow> makes (gen_expr e)"
  shows "tidy s \<Longrightarrow> \<not> inLHS s \<Longrightarrow> gen_args es s = Done (vs, s') \<Longrightarrow> mades s vs s'"
  using assms
proof (induction es arbitrary: s vs)
  case Nil
  then show ?case using extends_refl by (auto simp: mades_def)
next
  case (Cons e es)
  from Cons.prems(3) obtain v s1 ws where h: "gen_expr e s = Done (v, s1)" "gen_args es s1 = Done (ws, s')" "vs = v # ws"
    by (auto elim!: bind_out_DoneE)
  have m: "made s v s1" using Cons.prems(1,2,4) h(1) makesD by (metis list.set_intros(1))
  have n: "mades s1 ws s'" using Cons.prems tidy_made [OF m] madeD(10) [OF m] h(2) by (intro Cons.IH) simp_all
  then obtain "is" js where e: "extends s is s1" "extends s1 js s'" using m by (auto simp: made_def mades_def)
  have "below (nreg s') v" by (rule below_mono [OF madeD(11) [OF m] extends_sel(8) [OF e(2)]])
  then show ?case using n m h(3) extends_trans [OF e] by (auto simp: mades_def made_def)
qed

lemma visitExprFunCall_made:
  assumes "\<And>e. e \<in> set es \<Longrightarrow> makes (gen_expr e)"
  shows "makes (visitExprFunCall f (gen_args es))"
  unfolding makes_def
proof (intro allI impI)
  fix s :: "'a cg" and v s' assume t: "tidy s" "\<not> inLHS s" and "visitExprFunCall f (gen_args es) s = Done (v, s')"
  then obtain vs s1 name rt where h: "gen_args es s = Done (vs, s1)"
      "value_at (currentBB s1) (\<lambda>n. ICall n name vs) rt s1 = (v, s')"
    by (auto simp: visitExprFunCall_def elim!: bind_out_DoneE split: option.splits fe_node.splits if_splits)
  have "mades s vs s1" by (rule gen_args_made [OF assms t h(1)])
  moreover have m: "made s1 v s'" by (rule value_at_made [OF h(2)])
  ultimately show "made s v s'" using madeD(10) [OF m] by (intro made_after [OF _ m]) (auto simp: mades_def)
qed

lemma gen_expr_made: "simple e \<Longrightarrow> makes (gen_expr e) \<and> (lval e \<longrightarrow> lmakes (gen_expr e))"
proof (induction e rule: simple.induct)
  case (1 x)
  then have "lmakes (visitExprVar x)" by (intro visitExprVar_made) simp
  then show ?case using lmakes_makes by (auto simp: makes_def lmakes_def)
next
  case (2 a i)
  then have "lmakes (visitExprArray (gen_expr a) (gen_expr i))" by (intro visitExprArray_made) simp_all
  then show ?case by (auto simp: makes_def lmakes_def)
next
  case (4 op l r)
  then have "makes (visitExprBinary op (gen_expr l) (gen_expr r))" by (intro visitExprBinary_made) simp_all
  then show ?case by (auto simp: makes_def)
next
  case (5 op e)
  then have "makes (visitExprUnary op (gen_expr e))" by (intro visitExprUnary_made) simp_all
  then show ?case by (auto simp: makes_def)
next
  case (7 t e)
  then have "makes (visitExprTypeCast t (gen_expr e))" by (intro visitExprTypeCast_made) simp_all
  then show ?case by (auto simp: makes_def)
next
  case (8 f es)
  then have "makes (visitExprFunCall f (gen_args es))" by (intro visitExprFunCall_made) (simp add: list_all_iff)
  then show ?case by (auto simp: makes_def)
next
  case (9 e)
  then have "makes (visitExprPeek (gen_expr e))" by (intro visitExprPeek_made) simp_all
  then show ?case by (auto simp: makes_def)
next
  case "10_6"
  then show ?case using visitExprPop_made by (auto simp: makes_def)
qed (auto simp: makes_def intro: made_refl)

end
