(* ===== verification/FE_Sim.thy ===== *)
theory FE_Sim
  imports FE_Shape
begin

section \<open>The code of expressions computes their values\<close>

subsection \<open>Integers of a width\<close>

lemma wrap_wrap [simp]: "wrap n (wrap n i) = wrap n i"
  by (simp add: wrap_def)

lemma wrap_range: "0 < n \<Longrightarrow> wrap n i = i \<longleftrightarrow> - (2 ^ (n - 1)) \<le> i \<and> i < 2 ^ (n - 1)"
  by (auto simp: wrap_def signed_take_bit_int_eq_self_iff)

lemma wrap_0 [simp]: "wrap 0 i = 0" "wrap n 0 = 0"
  by (simp_all add: wrap_def)

lemma wrap_bit:
  assumes "0 < n"
  shows "wrap n i = i \<longleftrightarrow> (\<forall>k. bit i k = bit i (min (n - 1) k))"
proof -
  have "wrap n i = i \<longleftrightarrow> (\<forall>k. bit (signed_take_bit (n - 1) i) k = bit i k)"
    using assms bit_eq_iff [of "signed_take_bit (n - 1) i" i] by (simp add: wrap_def)
  then show ?thesis by (auto simp: bit_signed_take_bit_iff)
qed

lemma wrap_bits:
  assumes "wrap n i = i" and "wrap n j = j"
  shows "wrap n (and i j) = and i j \<and> wrap n (or i j) = or i j \<and> wrap n (xor i j) = xor i j"
proof (cases "n = 0")
  case True
  then show ?thesis using assms by simp
next
  case False
  then have "\<forall>k. bit i k = bit i (min (n - 1) k)" "\<forall>k. bit j k = bit j (min (n - 1) k)" using assms by (simp_all add: wrap_bit)
  then show ?thesis using False by (simp add: wrap_bit bit_and_iff bit_or_iff bit_xor_iff)
qed

lemma wrap_not: "0 < n \<Longrightarrow> wrap n i = i \<Longrightarrow> wrap n (not i) = not i"
  by (simp add: wrap_bit bit_not_iff)

lemma wrap_1: "wrap (Suc 0) i = i \<longleftrightarrow> i = 0 \<or> i = -1"
  using wrap_range [of "Suc 0" i] by auto

lemma wrap_shrink:
  assumes "wrap n i = i" and "\<bar>j\<bar> \<le> \<bar>i\<bar>" and "i < 0 \<longrightarrow> j \<le> 0" and "0 \<le> i \<longrightarrow> 0 \<le> j"
  shows "wrap n j = j"
  using assms wrap_range [of n i] wrap_range [of n j] by (cases "n = 0") auto

lemma wrap_smod: "wrap n i = i \<Longrightarrow> wrap n (i smod j) = i smod j"
proof (erule wrap_shrink)
  have nn: "0 \<le> \<bar>i\<bar> mod \<bar>j\<bar>" by (cases "j = 0") (simp, rule pos_mod_sign, simp)
  have "\<bar>i smod j\<bar> = \<bar>sgn i\<bar> * (\<bar>i\<bar> mod \<bar>j\<bar>)" unfolding smod_int_alt_def abs_mult abs_of_nonneg [OF nn] ..
  also have "\<dots> \<le> \<bar>i\<bar> mod \<bar>j\<bar>" by (rule mult_left_le_one_le [OF nn]) (simp_all add: abs_sgn_eq)
  also have "\<dots> \<le> \<bar>i\<bar>" by (rule zmod_le_nonneg_dividend) simp
  finally show "\<bar>i smod j\<bar> \<le> \<bar>i\<bar>" .
  show "i < 0 \<longrightarrow> i smod j \<le> 0"
  proof
    assume "i < 0"
    then have "i smod j = - (\<bar>i\<bar> mod \<bar>j\<bar>)" unfolding smod_int_alt_def by simp
    then show "i smod j \<le> 0" using nn by (simp only: neg_le_0_iff_le)
  qed
  show "0 \<le> i \<longrightarrow> 0 \<le> i smod j"
  proof
    assume "0 \<le> i"
    then have "i smod j = \<bar>i\<bar> mod \<bar>j\<bar> \<or> i smod j = 0" unfolding smod_int_alt_def by (cases "i = 0") simp_all
    then show "0 \<le> i smod j" using nn by (elim disjE) (simp_all only: order_refl)
  qed
qed

lemma wrap_shift:
  assumes "wrap n i = i"
  shows "wrap n (i div 2 ^ k) = i div 2 ^ k"
proof (rule wrap_shrink [OF assms])
  have p: "(1::int) \<le> 2 ^ k" by simp
  show "\<bar>i div 2 ^ k\<bar> \<le> \<bar>i\<bar>"
  proof (cases "0 \<le> i")
    case True
    then show ?thesis using zdiv_mono2 [of i 1 "2 ^ k"] p by (simp add: pos_imp_zdiv_nonneg_iff)
  next
    case False
    then show ?thesis using zdiv_mono2_neg [of i 1 "2 ^ k"] p div_nonpos_pos_le0 [of i "2 ^ k"] by simp
  qed
  show "i < 0 \<longrightarrow> i div 2 ^ k \<le> 0" by (simp add: div_nonpos_pos_le0)
  show "0 \<le> i \<longrightarrow> 0 \<le> i div 2 ^ k" by (simp add: pos_imp_zdiv_nonneg_iff)
qed

lemma wrap_sint: "wrap 32 (sint (w :: 32 word)) = sint w" "wrap 8 (sint (c :: 8 word)) = sint c"
  using sint_ge [of w] sint_lt [of w] sint_ge [of c] sint_lt [of c] by (simp_all add: wrap_range)

text \<open>What is assumed of floating point: only 0 is 0, and a conversion to an integer yields one of that width.\<close>

definition world_ok :: "'f world \<Rightarrow> bool" where
  "world_ok W \<longleftrightarrow> (\<forall>i. f_cmp W CNe (f_of_int W i) (f_zero W) = (i \<noteq> 0)) \<and>
     (\<forall>n f i. f_to_int W n f = Some i \<longrightarrow> wrap n i = i)"

lemma has_type_cases:
  "has_type (TInt n) v \<longleftrightarrow> (\<exists>i. v = VInt n i \<and> wrap n i = i)"
  "has_type TFloat v \<longleftrightarrow> (\<exists>f. v = VFlt f)"
  "has_type TVoid v \<longleftrightarrow> v = VUndef" "has_type TDouble v \<longleftrightarrow> v = VUndef"
  "has_type (TPtr t) v \<longleftrightarrow> v = VNull \<or> (\<exists>c. v = VStr c \<and> t = TInt 8)"
  "has_type (TArr k t) v \<longleftrightarrow> (\<exists>vs. v = VArr vs \<and> length vs = k \<and> list_all (has_type t) vs)"
  by (cases v; auto)+

lemma has_type_val [simp]:
  "has_type t (VInt m i) \<longleftrightarrow> t = TInt m \<and> wrap m i = i" "has_type t (VFlt f) \<longleftrightarrow> t = TFloat"
  "has_type t (VStr c) \<longleftrightarrow> t = TPtr (TInt 8)" "has_type t VNull \<longleftrightarrow> is_ptr t" "\<not> has_type t (VAddr r p)"
  by (cases t; auto simp: is_ptr_def)+

declare has_type.simps [simp del]

lemma VBool_type [simp]: "has_type t (VBool b) \<longleftrightarrow> t = TInt (Suc 0)"
  by (auto simp: VBool_def wrap_def)

subsection \<open>Running appended code\<close>

definition does :: "'f world \<Rightarrow> 'f cg \<Rightarrow> 'f ist \<Rightarrow> 'f cg \<Rightarrow> 'f ist \<Rightarrow> bool" where
  "does W s m s' m' \<longleftrightarrow> (\<exists>is. extends s is s' \<and> exec_seq W is m = Done m') \<and> (\<forall>k<nreg s. regs m' k = regs m k)"

lemma does_refl: "does W s m s m"
  using extends_refl by (fastforce simp: does_def)

lemma does_trans:
  assumes "does W a m b m1" and "does W b m1 c m2"
  shows "does W a m c m2"
proof -
  obtain "is" js where e: "extends a is b" "exec_seq W is m = Done m1" "extends b js c" "exec_seq W js m1 = Done m2"
    using assms by (auto simp: does_def)
  then have "extends a (is @ js) c" "exec_seq W (is @ js) m = Done m2"
    using extends_trans by (auto simp: exec_seq_append)
  moreover have "nreg a \<le> nreg b" using extends_sel(8) [OF e(1)] .
  ultimately show ?thesis using assms by (fastforce simp: does_def)
qed

lemma does_LHS [simp]:
  "does W (s\<lparr>inLHS := b\<rparr>) m s' m' = does W s m s' m'" "does W s m (s'\<lparr>inLHS := b\<rparr>) m' = does W s m s' m'"
  by (simp_all add: does_def)

lemma opval_regs: "(\<And>k. k < n \<Longrightarrow> regs m' k = regs m k) \<Longrightarrow> below n v \<Longrightarrow> opval W m' v = opval W m v"
  by (cases v) auto

lemma does_opval: "does W s m s' m' \<Longrightarrow> below (nreg s) v \<Longrightarrow> opval W m' v = opval W m v"
  by (auto simp: does_def intro: opval_regs)

lemma emit_does:
  assumes "exec_instr W i m = Done m'" and "\<And>k. k < nreg s \<Longrightarrow> regs m' k = regs m k" and "b = currentBB s"
  shows "does W s m (emit b i s) m'"
  using assms emit_extends [of s i] unfolding does_def by (intro conjI exI [of _ "[i]"]) simp_all

text \<open>Only registers change.\<close>

definition same_mem :: "'f ist \<Rightarrow> 'f ist \<Rightarrow> bool" where
  "same_mem m m' \<longleftrightarrow> m' = m\<lparr>regs := regs m'\<rparr>"

lemma same_mem_refl [simp]: "same_mem m m"
  by (simp add: same_mem_def)

lemma same_mem_trans:
  assumes "same_mem a b" and "same_mem b c"
  shows "same_mem a c"
proof -
  have "b = a\<lparr>regs := regs b\<rparr>" "c = b\<lparr>regs := regs c\<rparr>" using assms unfolding same_mem_def by blast+
  then have "c = a\<lparr>regs := regs b, regs := regs c\<rparr>" by metis
  then show ?thesis unfolding same_mem_def by simp
qed

lemma same_mem_set_reg [simp]: "same_mem m (set_reg n v m)" "same_mem m (m\<lparr>regs := f\<rparr>)"
  by (simp_all add: same_mem_def set_reg_def)

lemma same_mem_sel: "same_mem m m' \<Longrightarrow> mem m' = mem m \<and> ins m' = ins m \<and> outs m' = outs m \<and> calls m' = calls m"
  unfolding same_mem_def by (metis ist.select_convs ist.simps(12) ist.surjective ist.update_convs(1))

lemma same_mem_sim: "same_mem m m' \<Longrightarrow> sim E m' s = sim E m s"
  unfolding same_mem_def by (metis sim_regs)

text \<open>\<open>gives\<close>: the code leaves a value of its type in the operand, and touches only registers.\<close>

definition gives :: "'f world \<Rightarrow> 'f cg \<Rightarrow> 'f ist \<Rightarrow> 'f opnd \<Rightarrow> 'f cg \<Rightarrow> 'f ist \<Rightarrow> 'f val \<Rightarrow> bool" where
  "gives W s m v s' m' w \<longleftrightarrow> does W s m s' m' \<and> same_mem m m' \<and> opval W m' v = w \<and> has_type (typ_of v) w"

lemma gives_refl: "opval W m v = w \<Longrightarrow> has_type (typ_of v) w \<Longrightarrow> gives W s m v s m w"
  by (simp add: gives_def does_refl)

lemma gives_after: "does W s m s1 m1 \<Longrightarrow> same_mem m m1 \<Longrightarrow> gives W s1 m1 v s' m' w \<Longrightarrow> gives W s m v s' m' w"
  unfolding gives_def using does_trans same_mem_trans by blast

lemma gives_trans: "gives W s m u s1 m1 x \<Longrightarrow> gives W s1 m1 v s' m' w \<Longrightarrow> gives W s m v s' m' w"
  unfolding gives_def using does_trans same_mem_trans by blast

lemma value_gives:
  assumes "value_at b mk t s = (v, s')" and "b = currentBB s" and "has_type t w"
    and "exec_instr W (mk (nreg s)) m = Done (set_reg (nreg s) w m)"
  shows "gives W s m v s' (set_reg (nreg s) w m) w"
proof -
  have e: "v = OReg (nreg s) t" "s' = emit b (mk (nreg s)) (s\<lparr>nreg := Suc (nreg s)\<rparr>)" using assms(1) by (simp_all add: value_at_def)
  have "extends s [mk (nreg s)] s'" using assms(2) unfolding e by (intro extendsI) (simp_all add: emit_def)
  then show ?thesis using assms(3,4) e(1) unfolding gives_def does_def by (auto simp: set_reg_def intro!: exI [of _ "[mk (nreg s)]"])
qed

lemma arith_gives:
  assumes "CreateBin b a l r s = Done (v, s')" and "b = currentBB s"
    and "arith_val W a (opval W m l) (opval W m r) = Done w" and "has_type (typ_of l) w"
  shows "gives W s m v s' (set_reg (nreg s) w m) w"
  using assms by (auto simp: CreateBin_def split: if_splits intro: value_gives)

lemma cmp_gives:
  assumes "CreateCmp b c l r s = Done (v, s')" and "b = currentBB s"
    and "cmp_val W c (opval W m l) (opval W m r) = Done (VBool x)"
  shows "gives W s m v s' (set_reg (nreg s) (VBool x) m) (VBool x)"
proof (cases "is_fp (typ_of l)")
  case True
  then have v: "value_at b (\<lambda>n. IFCmp c n l r) (TInt 1) s = (v, s')" using assms(1) by (simp add: create_defs split: if_splits)
  show ?thesis using value_gives [OF v assms(2)] assms(3) by simp
next
  case False
  then have v: "value_at b (\<lambda>n. ICmp c n l r) (TInt 1) s = (v, s')" using assms(1) by (simp add: create_defs split: if_splits)
  show ?thesis using value_gives [OF v assms(2)] assms(3) by simp
qed

lemma load_gives:
  assumes "CreateLoad b p s = Done (v, s')" and "b = currentBB s" and "typ_of p = TPtr t"
    and "load_from (opval W m p) m = Done w" and "has_type t w"
  shows "gives W s m v s' (set_reg (nreg s) w m) w"
  using assms by (auto simp: CreateLoad_def intro: value_gives)

lemma nonzero_gives:
  assumes "nonzero b v s = Done (u, s')" and "b = currentBB s" and "opval W m v = w" and "has_type (typ_of v) w"
    and "truth W w = Done t"
  shows "typ_of u = TInt 1 \<and> (\<exists>m'. gives W s m u s' m' (VBool t))"
proof (cases "typ_of v = TInt 1")
  case True
  then obtain i where i: "w = VInt 1 i" "i = 0 \<or> i = -1" using assms(4) by (auto simp: has_type_cases wrap_1)
  then have "w = VBool t" using assms(5) by (auto simp: truth_def VBool_def)
  then show ?thesis using True assms gives_refl [of W m v w s] by (auto simp: nonzero_def)
next
  case False
  consider (int) n where "typ_of v = TInt n" | (flt) "typ_of v = TFloat"
    using assms(4,5) by (cases "typ_of v") (auto simp: truth_def has_type_cases split: val.splits)
  then show ?thesis
  proof cases
    case int
    then obtain i where "w = VInt n i" using assms(4) by (auto simp: has_type_cases)
    then have "exec_instr W (ICmp CNe (nreg s) v (ONull (TInt n))) m = Done (set_reg (nreg s) (VBool t) m)"
      using assms(3,5) by (simp add: truth_def)
    moreover have v: "value_at b (\<lambda>k. ICmp CNe k v (ONull (TInt n))) (TInt 1) s = (u, s')"
      using int False assms(1) by (simp add: nonzero_def CreateICmp_def)
    ultimately have "gives W s m u s' (set_reg (nreg s) (VBool t) m) (VBool t)" by (intro value_gives [OF v assms(2)]) simp_all
    then show ?thesis using v by (auto simp: value_at_def)
  next
    case flt
    then obtain f where "w = VFlt f" using assms(4) by (auto simp: has_type_cases)
    then have "exec_instr W (IFCmp CNe (nreg s) v (ONull TFloat)) m = Done (set_reg (nreg s) (VBool t) m)"
      using assms(3,5) by (simp add: truth_def)
    moreover have v: "value_at b (\<lambda>k. IFCmp CNe k v (ONull TFloat)) (TInt 1) s = (u, s')"
      using flt assms(1) by (simp add: nonzero_def CreateFCmp_def)
    ultimately have "gives W s m u s' (set_reg (nreg s) (VBool t) m) (VBool t)" by (intro value_gives [OF v assms(2)]) simp_all
    then show ?thesis using v by (auto simp: value_at_def)
  qed
qed

text \<open>Conversions.\<close>

lemma promote_gives:
  assumes "matchTypes v TFloat s = Done (u, s')" and "opval W m v = VInt n i" and "has_type (typ_of v) (VInt n i)"
  shows "typ_of u = TFloat \<and> (\<exists>m'. gives W s m u s' m' (VFlt (f_of_int W i)))"
proof -
  have t: "typ_of v = TInt n" using assms(3) by (cases "typ_of v") auto
  then have v: "value_at (currentBB s) (\<lambda>k. ISIToFP k v TFloat) TFloat s = (u, s')" using assms(1) by (auto simp: matchTypes_def)
  have "exec_instr W (ISIToFP (nreg s) v TFloat) m = Done (set_reg (nreg s) (VFlt (f_of_int W i)) m)"
    using assms(2) by (simp add: si_to_fp_def)
  then have "gives W s m u s' (set_reg (nreg s) (VFlt (f_of_int W i)) m) (VFlt (f_of_int W i))"
    using value_gives [OF v refl, of "VFlt (f_of_int W i)" W m] by simp
  then show ?thesis using v by (auto simp: value_at_def)
qed

lemma convert_gives:
  assumes "matchTypes v t s = Done (u, s')" and "opval W m v = w" and "has_type (typ_of v) w" and "conv W t w = Done x"
    and "world_ok W"
  shows "typ_of u = t \<and> (\<exists>m'. gives W s m u s' m' x)"
proof (cases "typ_of v = t")
  case True
  then show ?thesis using assms gives_refl [of W m v w s] by (auto simp: matchTypes_def conv_def)
next
  case False
  consider (toflt) n i where "w = VInt n i" "t = TFloat" "x = VFlt (f_of_int W i)"
    | (toint) n f i where "w = VFlt f" "t = TInt n" "f_to_int W n f = Some i" "x = VInt n i"
    using assms(1,3,4) False
    by (cases "typ_of v"; cases t; cases w) (auto simp: conv_def matchTypes_def has_type_cases is_ptr_def split: if_splits option.splits)
  then show ?thesis
  proof cases
    case toflt
    then show ?thesis using promote_gives [of v s u s' W m n i] assms by auto
  next
    case toint
    then have "typ_of v = TFloat" using assms(3) by (cases "typ_of v") auto
    then have v: "value_at (currentBB s) (\<lambda>k. IFPToSI k v t) t s = (u, s')" using assms(1) toint by (auto simp: matchTypes_def)
    have "exec_instr W (IFPToSI (nreg s) v t) m = Done (set_reg (nreg s) x m)"
      using assms(2) toint by (simp add: fp_to_si_def)
    moreover have "has_type t x" using toint assms(5) by (auto simp: world_ok_def)
    ultimately have "gives W s m u s' (set_reg (nreg s) x m) x" by (intro value_gives [OF v refl])
    then show ?thesis using v by (auto simp: value_at_def)
  qed
qed

subsection \<open>Operators\<close>

text \<open>The instructions that an operator becomes, for operands of the same type.\<close>

fun arith_of :: "binop \<Rightarrow> bool \<Rightarrow> arith option" where
  "arith_of BINOP_ADD fp = Some AAdd"
| "arith_of BINOP_SUB fp = Some ASub"
| "arith_of BINOP_MUL fp = Some AMul"
| "arith_of BINOP_DIV fp = Some (if fp then AFDiv else ASDiv)"
| "arith_of BINOP_MOD fp = Some (if fp then AFRem else ASRem)"
| "arith_of BINOP_BAND fp = Some AAnd"
| "arith_of BINOP_BOR fp = Some AOr"
| "arith_of BINOP_BXOR fp = Some AXor"
| "arith_of BINOP_LSHIFT fp = Some AShl"
| "arith_of BINOP_RSHIFT fp = Some AAShr"
| "arith_of _ fp = None"

fun cmp_of :: "binop \<Rightarrow> cmp option" where
  "cmp_of BINOP_EQ = Some CEq"
| "cmp_of BINOP_NEQ = Some CNe"
| "cmp_of BINOP_LT = Some CLt"
| "cmp_of BINOP_LE = Some CLe"
| "cmp_of BINOP_GT = Some CGt"
| "cmp_of BINOP_GE = Some CGe"
| "cmp_of _ = None"

definition logical :: "binop \<Rightarrow> bool" where
  "logical op = (op = BINOP_AND \<or> op = BINOP_OR)"

lemma op_kinds: "logical op \<or> (\<exists>c. cmp_of op = Some c) \<or> (\<exists>a. arith_of op fp = Some a)"
  by (cases op) (simp_all add: logical_def)

lemma create_arith: "arith_of op (is_fp (typ_of l)) = Some a \<Longrightarrow> create_binary op b l r s = CreateBin b a l r s"
  by (cases op) (auto simp: fun_eq_iff)

lemma create_cmp: "cmp_of op = Some c \<Longrightarrow> create_binary op b l r s = CreateCmp b c l r s"
  by (cases op) auto

lemma bin_int_arith:
  assumes "bin_int op n a b = Done w" and "arith_of op False = Some ar" and "wrap n a = a" and "wrap n b = b"
  shows "arith_val W ar (VInt n a) (VInt n b) = Done w \<and> has_type (TInt n) w"
  using assms wrap_bits [OF assms(3,4)] wrap_smod [OF assms(3), of b] wrap_shift [OF assms(3), of "nat b"]
  by (cases op) (auto simp: push_bit_eq_mult drop_bit_eq_div split: if_splits)

lemma bin_int_cmp:
  "bin_int op n a b = Done w \<Longrightarrow> cmp_of op = Some c \<Longrightarrow> cmp_val W c (VInt n a) (VInt m b) = Done w \<and> w = VBool (cmp_int c a b)"
  by (cases op) auto

lemma bin_flt_arith:
  "bin_flt W op a b = Done w \<Longrightarrow> arith_of op True = Some ar \<Longrightarrow> arith_val W ar (VFlt a) (VFlt b) = Done w \<and> has_type TFloat w"
  by (cases op) auto

lemma bin_flt_cmp:
  "bin_flt W op a b = Done w \<Longrightarrow> cmp_of op = Some c \<Longrightarrow> cmp_val W c (VFlt a) (VFlt b) = Done w \<and> w = VBool (f_cmp W c a b)"
  by (cases op) auto

text \<open>\<open>&&\<close> and \<open>||\<close> of two booleans.\<close>

lemma logic_gives:
  assumes "CreateBin b a l r s = Done (v, s')" and "b = currentBB s" and "opval W m l = VBool x" and "opval W m r = VBool y"
    and "typ_of l = TInt 1" and "a = AAnd \<and> z = (x \<and> y) \<or> a = AOr \<and> z = (x \<or> y)"
  shows "gives W s m v s' (set_reg (nreg s) (VBool z) m) (VBool z)"
  using assms by (intro arith_gives [OF assms(1,2)]) (auto simp: VBool_def wrap_def)

lemma create_logic_gives:
  assumes "bind_out (nonzero b l s) (\<lambda>(l, s). bind_out (nonzero b r s) (\<lambda>(r, s). CreateBin b ar l r s)) = Done (v, s')"
    and "b = currentBB s" and "opval W m l = a" and "has_type (typ_of l) a" and "opval W m r = c" and "has_type (typ_of r) c"
    and "below (nreg s) l" and "below (nreg s) r" and "truth W a = Done x" and "truth W c = Done y"
    and "ar = AAnd \<and> z = (x \<and> y) \<or> ar = AOr \<and> z = (x \<or> y)"
  shows "\<exists>m'. gives W s m v s' m' (VBool z)"
proof -
  obtain l1 s1 r1 s2 where h: "nonzero b l s = Done (l1, s1)" "nonzero b r s1 = Done (r1, s2)" "CreateBin b ar l1 r1 s2 = Done (v, s')"
    using assms(1) by (auto elim!: bind_out_DoneE)
  obtain m1 where g1: "typ_of l1 = TInt 1" "gives W s m l1 s1 m1 (VBool x)"
    using nonzero_gives [OF h(1) assms(2-4,9)] by blast
  have mk1: "made s l1 s1" by (rule nonzero_made [OF h(1) assms(2,7)])
  have d1: "does W s m s1 m1" "same_mem m m1" using g1 by (simp_all add: gives_def)
  have b1: "b = currentBB s1" using assms(2) madeD(1) [OF mk1] by simp
  have r1: "opval W m1 r = c" using does_opval [OF d1(1) assms(8)] assms(5) by simp
  obtain m2 where g2: "typ_of r1 = TInt 1" "gives W s1 m1 r1 s2 m2 (VBool y)"
    using nonzero_gives [OF h(2) b1 r1 assms(6,10)] by blast
  have mk2: "made s1 r1 s2" by (rule nonzero_made [OF h(2) b1 made_keep [OF mk1 assms(8)]])
  have d2: "does W s1 m1 s2 m2" "same_mem m1 m2" using g2 by (simp_all add: gives_def)
  have l2: "opval W m2 l1 = VBool x" using does_opval [OF d2(1) madeD(11) [OF mk1]] g1(2) by (simp add: gives_def)
  have b2: "b = currentBB s2" using b1 madeD(1) [OF mk2] by simp
  have r2: "opval W m2 r1 = VBool y" using g2(2) by (simp add: gives_def)
  note logic_gives [OF h(3) b2 l2 r2 g1(1) assms(11)]
  then show ?thesis using gives_after [OF d1] gives_after [OF d2] by blast
qed

text \<open>Operands that were matched: of the same type, except for the logical operators.\<close>

lemma create_binary_gives:
  assumes c: "create_binary op b l r s = Done (v, s')" and b: "b = currentBB s"
    and l: "opval W m l = a" "has_type (typ_of l) a" "below (nreg s) l"
    and r: "opval W m r = c" "has_type (typ_of r) c" "below (nreg s) r"
    and w: "bin_val W op a c = Done w" and k: "\<not> logical op \<Longrightarrow> is_fp (typ_of l) = is_fp (typ_of r)"
  shows "\<exists>m'. gives W s m v s' m' w"
proof (cases "logical op")
  case True
  then obtain x y where t: "truth W a = Done x" "truth W c = Done y" "w = VBool (if op = BINOP_AND then x \<and> y else x \<or> y)"
    using w by (auto simp: bin_val_def logical_def elim!: bind_out_DoneE)
  show ?thesis
  proof (cases "op = BINOP_AND \<and> typ_of l = TInt 1")
    case True
    then have h: "CreateBin b AAnd l r s = Done (v, s')" using c by (simp add: create_and_def)
    then have tr: "typ_of r = TInt 1" using True by (auto simp: CreateBin_def split: if_splits)
    obtain i j where ij: "a = VInt 1 i" "c = VInt 1 j" "i = 0 \<or> i = -1" "j = 0 \<or> j = -1"
      using True tr l(2) r(2) by (auto simp: has_type_cases wrap_1)
    then have "a = VBool x" "c = VBool y" using t by (auto simp: truth_def VBool_def)
    then have "gives W s m v s' (set_reg (nreg s) w m) w"
      using True l(1) r(1) t(3) logic_gives [OF h b] by simp
    then show ?thesis by blast
  next
    case F: False
    have "bind_out (nonzero b l s) (\<lambda>(l, s). bind_out (nonzero b r s) (\<lambda>(r, s).
        CreateBin b (if op = BINOP_AND then AAnd else AOr) l r s)) = Done (v, s')"
      using c True F by (auto simp: logical_def create_and_def create_or_def)
    then show ?thesis unfolding t(3) using create_logic_gives [OF _ b l(1,2) r(1,2) l(3) r(3) t(1,2)] by simp
  qed
next
  case False
  have kinds: "(\<exists>n i j. a = VInt n i \<and> c = VInt n j \<and> wrap n i = i \<and> wrap n j = j \<and> \<not> is_fp (typ_of l) \<and> bin_int op n i j = Done w) \<or>
      (\<exists>f g. a = VFlt f \<and> c = VFlt g \<and> is_fp (typ_of l) \<and> bin_flt W op f g = Done w)"
    using w k [OF False] l(2) r(2) False
    by (auto simp: bin_val_def logical_def split: val.splits if_splits)
  consider (arith) ar where "arith_of op (is_fp (typ_of l)) = Some ar" | (cmp) cm where "cmp_of op = Some cm"
    using op_kinds [of op "is_fp (typ_of l)"] False by blast
  then show ?thesis
  proof cases
    case arith
    then have h: "CreateBin b ar l r s = Done (v, s')" using c create_arith by metis
    have "arith_val W ar a c = Done w \<and> has_type (typ_of l) w"
      using kinds
    proof (elim disjE exE conjE)
      fix n i j assume i: "a = VInt n i" "c = VInt n j" "wrap n i = i" "wrap n j = j" "\<not> is_fp (typ_of l)" "bin_int op n i j = Done w"
      then have "typ_of l = TInt n" "arith_of op False = Some ar" using l(2) arith by simp_all
      then show ?thesis using bin_int_arith [OF i(6) _ i(3,4)] i(1,2) by simp
    next
      fix x y assume f: "a = VFlt x" "c = VFlt y" "is_fp (typ_of l)" "bin_flt W op x y = Done w"
      then have "typ_of l = TFloat" "arith_of op True = Some ar" using l(2) arith by simp_all
      then show ?thesis using bin_flt_arith [OF f(4)] f(1,2) by simp
    qed
    then show ?thesis using arith_gives [OF h b] l(1) r(1) by auto
  next
    case cmp
    then have h: "CreateCmp b cm l r s = Done (v, s')" using c create_cmp by metis
    obtain x where "cmp_val W cm a c = Done (VBool x) \<and> w = VBool x"
      using kinds cmp bin_int_cmp bin_flt_cmp by metis
    then show ?thesis using cmp_gives [OF h b] l(1) r(1) by auto
  qed
qed

lemma bin_val_number:
  assumes "bin_val W op a c = Done w" and "has_type t a" and "has_type u c"
  shows "(\<exists>n i. a = VInt n i) \<or> (\<exists>f. a = VFlt f)" "(\<exists>n i. c = VInt n i) \<or> (\<exists>f. c = VFlt f)"
  using assms by (auto simp: bin_val_def truth_def split: if_splits val.splits elim!: bind_out_DoneE)

lemma truth_of_int: "world_ok W \<Longrightarrow> truth W (VFlt (f_of_int W i)) = Done (i \<noteq> 0)"
  by (simp add: truth_def world_ok_def)

lemma bin_val_promoted:
  assumes "world_ok W"
  shows "bin_val W op (VInt n i) (VFlt g) = Done w \<Longrightarrow> bin_val W op (VFlt (f_of_int W i)) (VFlt g) = Done w"
    and "bin_val W op (VFlt g) (VInt n i) = Done w \<Longrightarrow> bin_val W op (VFlt g) (VFlt (f_of_int W i)) = Done w"
  using truth_of_int [OF assms, of i] by (auto simp: bin_val_def truth_def [of _ "VInt n i"] split: if_splits)

lemma match_gives:
  assumes h: "match_operands l r s = Done ((l', r'), s')" and w: "bin_val W op a c = Done w" "world_ok W"
    and l: "opval W m l = a" "has_type (typ_of l) a" "below (nreg s) l"
    and r: "opval W m r = c" "has_type (typ_of r) c" "below (nreg s) r"
  shows "\<exists>m' a' c'. does W s m s' m' \<and> same_mem m m' \<and> opval W m' l' = a' \<and> has_type (typ_of l') a' \<and>
    opval W m' r' = c' \<and> has_type (typ_of r') c' \<and> bin_val W op a' c' = Done w \<and> is_fp (typ_of l') = is_fp (typ_of r')"
proof -
  consider (left) "\<not> is_fp (typ_of l)" "is_fp (typ_of r)" | (right) "is_fp (typ_of l)" "\<not> is_fp (typ_of r)"
    | (same) "is_fp (typ_of l) = is_fp (typ_of r)" by blast
  then show ?thesis
  proof cases
    case left
    obtain g where g: "c = VFlt g" "typ_of r = TFloat"
      using bin_val_number(2) [OF w(1) l(2) r(2)] left r(2) by (auto simp: is_fp_def)
    obtain n i where i: "a = VInt n i" using bin_val_number(1) [OF w(1) l(2) r(2)] left l(2) by auto
    have hm: "matchTypes l TFloat s = Done (l', s')" "r' = r" using h left g(2) by (auto simp: match_operands_def elim!: bind_out_DoneE)
    obtain m' where m': "typ_of l' = TFloat" "gives W s m l' s' m' (VFlt (f_of_int W i))"
      using promote_gives [OF hm(1), of W m n i] l i by auto
    have "opval W m' r = c" using does_opval [of W s m s' m' r] m'(2) r by (simp add: gives_def)
    then show ?thesis using m' hm(2) g r(2) bin_val_promoted(1) [OF w(2)] w(1) i by (auto simp: gives_def)
  next
    case right
    obtain g where g: "a = VFlt g" "typ_of l = TFloat"
      using bin_val_number(1) [OF w(1) l(2) r(2)] right l(2) by (auto simp: is_fp_def)
    obtain n i where i: "c = VInt n i" using bin_val_number(2) [OF w(1) l(2) r(2)] right r(2) by auto
    have hm: "matchTypes r TFloat s = Done (r', s')" "l' = l" using h right g(2) by (auto simp: match_operands_def elim!: bind_out_DoneE)
    obtain m' where m': "typ_of r' = TFloat" "gives W s m r' s' m' (VFlt (f_of_int W i))"
      using promote_gives [OF hm(1), of W m n i] r i by auto
    have "opval W m' l = a" using does_opval [of W s m s' m' l] m'(2) l by (simp add: gives_def)
    then show ?thesis using m' hm(2) g l(2) bin_val_promoted(2) [OF w(2)] w(1) i by (auto simp: gives_def)
  next
    case same
    then have "l' = l" "r' = r" "s' = s" using h by (auto simp: match_operands_def split: if_splits)
    then show ?thesis using same l r w does_refl [of W s m] by auto
  qed
qed

lemma binary_gives:
  assumes "match_operands l r s = Done ((l', r'), s1)" and "create_binary op (currentBB s1) l' r' s1 = Done (v, s')"
    and "bin_val W op a c = Done w" and "world_ok W"
    and l: "opval W m l = a" "has_type (typ_of l) a" "below (nreg s) l"
    and r: "opval W m r = c" "has_type (typ_of r) c" "below (nreg s) r"
  shows "\<exists>m'. gives W s m v s' m' w"
proof -
  obtain m1 a' c' where m1: "does W s m s1 m1" "same_mem m m1" "opval W m1 l' = a'" "has_type (typ_of l') a'"
      "opval W m1 r' = c'" "has_type (typ_of r') c'" "bin_val W op a' c' = Done w" "is_fp (typ_of l') = is_fp (typ_of r')"
    using match_gives [OF assms(1,3,4) l r] by blast
  have "below (nreg s1) l'" "below (nreg s1) r'" using match_operands_made [OF assms(1) l(3) r(3)] madeD(11) by blast+
  then obtain m' where "gives W s1 m1 v s' m' w" using create_binary_gives [OF assms(2) refl m1(3,4) _ m1(5,6) _ m1(7,8)] by blast
  then show ?thesis using gives_after [OF m1(1,2)] by blast
qed

lemma VBool_cases: "has_type (TInt 1) w \<Longrightarrow> truth W w = Done t \<Longrightarrow> w = VBool t"
  by (auto simp: has_type_cases wrap_1 truth_def VBool_def)

lemma unary_gives:
  assumes "visitExprUnary op (\<lambda>s. Done (v, s)) s = Done (u, s')" and "\<not> is_incr op"
    and v: "opval W m v = a" "has_type (typ_of v) a" "below (nreg s) v" and w: "un_val W op a = Done w"
  shows "\<exists>m'. gives W s m u s' m' w"
proof -
  have neg: "\<exists>m'. gives W s m u s' m' w" if h: "CreateNeg (currentBB s) v s = Done (u, s')"
    and "has_type (typ_of v) a" "opval W m v = a" "neg_val W a = Done w" for v s a m w
  proof -
    have va: "value_at (currentBB s) (\<lambda>k. INeg k v) (typ_of v) s = (u, s')" using h by (auto simp: CreateNeg_def split: if_splits)
    have "has_type (typ_of v) w" using that by (auto simp: neg_val_def split: val.splits)
    then have "gives W s m u s' (set_reg (nreg s) w m) w" using that by (intro value_gives [OF va refl]) simp_all
    then show ?thesis by blast
  qed
  have inv: "gives W s m u s' (set_reg (nreg s) w m) w" if h: "CreateNot (currentBB s) v s = Done (u, s')"
    and "has_type (typ_of v) a" "opval W m v = a" "not_val a = Done w" for v u s s' a w m
  proof -
    have va: "value_at (currentBB s) (\<lambda>k. INot k v) (typ_of v) s = (u, s')" using h by (auto simp: CreateNot_def split: if_splits)
    have "has_type (typ_of v) w" using that by (auto simp: not_val_def split: val.splits)
    then show ?thesis using that by (intro value_gives [OF va refl]) simp_all
  qed
  show ?thesis
  proof (cases op)
    case UNOP_NEG
    then show ?thesis using assms neg [where v = v and s = s and a = a and m = m and w = w] by (simp add: un_val_def neg_val_def)
  next
    case UNOP_COMPLEMENT
    then have "not_val a = Done w" using w by (auto simp: un_val_def not_val_def not_eq_complement split: val.splits)
    then show ?thesis using UNOP_COMPLEMENT assms(1) inv [where s = s and v = v and a = a and m = m and w = w] v by auto
  next
    case UNOP_NOT
    then obtain v1 s1 v2 s2 where h: "nonzero (currentBB s) v s = Done (v1, s1)" "CreateNot (currentBB s1) v1 s1 = Done (v2, s2)"
        "CreateNeg (currentBB s2) v2 s2 = Done (u, s')"
      using assms(1) by (auto elim!: bind_out_DoneE)
    obtain b where b: "truth W a = Done b" "w = VBool (\<not> b)" using w UNOP_NOT by (auto simp: un_val_def elim!: bind_out_DoneE)
    obtain m1 where m1: "typ_of v1 = TInt 1" "gives W s m v1 s1 m1 (VBool b)"
      using nonzero_gives [OF h(1) refl v(1,2) b(1)] by blast
    have "not_val (VBool b) = Done (VBool (\<not> b) :: 'a val)" by (simp add: not_val_def VBool_def wrap_def)
    then have m2: "gives W s1 m1 v2 s2 (set_reg (nreg s1) w m1) w" using inv [OF h(2), where a = "VBool b" and m = m1 and w = w] m1 b(2) by (simp add: gives_def)
    have t2: "typ_of v2 = TInt 1" using m2 b(2) by (simp add: gives_def)
    have "neg_val W w = Done w" using b(2) by (simp add: neg_val_def VBool_def wrap_def)
    then obtain m' where m': "gives W s2 (set_reg (nreg s1) w m1) u s' m' w" using neg [OF h(3), where a = w and m = "set_reg (nreg s1) w m1" and w = w] m2 by (auto simp: gives_def)
    show ?thesis using gives_trans [OF m1(2) gives_trans [OF m2 m']] by blast
  qed (use assms(2) in \<open>simp_all add: is_incr_def\<close>)
qed

subsection \<open>Places in memory\<close>

fun ty_at :: "ty \<Rightarrow> int list \<Rightarrow> ty option" where
  "ty_at t [] = Some t"
| "ty_at (TArr n t) (i # p) = ty_at t p"
| "ty_at _ (i # p) = None"

lemma ty_at_snoc: "ty_at t p = Some (TArr n u) \<Longrightarrow> ty_at t (p @ [k]) = Some u"
  by (induction t p rule: ty_at.induct) auto

lemma follow_type: "has_type t v \<Longrightarrow> ty_at t p = Some u \<Longrightarrow> follow v p = Done w \<Longrightarrow> has_type u w"
proof (induction t p arbitrary: v rule: ty_at.induct)
  case (2 n t i p)
  then show ?case by (auto simp: has_type_cases list_all_length split: if_splits)
qed auto

lemma replace_type:
  "has_type t v \<Longrightarrow> ty_at t p = Some u \<Longrightarrow> has_type u w \<Longrightarrow> replace_at v p w = Done v' \<Longrightarrow> has_type t v'"
proof (induction t p arbitrary: v v' rule: ty_at.induct)
  case (2 n t i p)
  then obtain vs where vs: "v = VArr vs" "length vs = n" "list_all (has_type t) vs" by (auto simp: has_type_cases)
  then obtain x where x: "0 \<le> i" "nat i < length vs" "replace_at (vs ! nat i) p w = Done x" "v' = VArr (vs[nat i := x])"
    using 2(5) by (auto split: if_splits elim!: bind_out_DoneE)
  have "has_type t (vs ! nat i)" using vs(3) x(2) by (simp add: list_all_length)
  then have "has_type t x" using 2(1,3,4) x(3) by simp
  then show ?case using vs x by (auto simp: has_type_cases list_all_length nth_list_update)
qed auto

text \<open>An operand that is the address of a place of the program.\<close>

definition place :: "'f world \<Rightarrow> locations \<Rightarrow> 'f ist \<Rightarrow> 'f opnd \<Rightarrow> (string \<times> int list) \<times> ty \<Rightarrow> bool" where
  "place W E m v pl \<longleftrightarrow>
     (case pl of ((x, p), t) \<Rightarrow>
        \<exists>r t0. E x = Some (r, t0) \<and> opval W m v = VAddr r p \<and> typ_of v = TPtr t \<and> ty_at t0 p = Some t)"

lemma place_does: "place W E m v pl \<Longrightarrow> does W s m s' m' \<Longrightarrow> below (nreg s) v \<Longrightarrow> place W E m' v pl"
  using does_opval by (fastforce simp: place_def)

lemma read_place:
  assumes "place W E m v ((x, p), t)" and "sim E m s" and "read_var x p s = Done w"
  shows "load_from (opval W m v) m = Done w" "has_type t w"
proof -
  obtain r t0 where p: "E x = Some (r, t0)" "opval W m v = VAddr r p" "typ_of v = TPtr t" "ty_at t0 p = Some t"
    using assms(1) by (auto simp: place_def)
  obtain t1 u where v: "vars s x = Some (t1, u)" "follow u p = Done w" using assms(3) by (auto simp: read_var_def split: option.splits)
  have "t1 = t0" "mem m r = u" "has_type t1 u" using sim_var [OF assms(2) v(1)] p(1) by simp_all
  then have u: "vars s x = Some (t0, u)" "follow u p = Done w" "mem m r = u" "has_type t0 u" using v by simp_all
  show "load_from (opval W m v) m = Done w" using p u by (simp add: load_from_def)
  show "has_type t w" by (rule follow_type [OF u(4) p(4) u(2)])
qed

lemma sim_write:
  assumes "sim E m s" and "E x = Some (r, t)" and "apart_roots E" and "has_type t v"
  shows "sim E (m\<lparr>mem := (mem m)(r := v)\<rparr>) (s\<lparr>vars := (vars s)(x \<mapsto> (t, v))\<rparr>)"
  unfolding sim_def
proof (intro conjI allI impI)
  fix y u w assume y: "vars (s\<lparr>vars := (vars s)(x \<mapsto> (t, v))\<rparr>) y = Some (u, w)"
  show "\<exists>q. E y = Some (q, u) \<and> mem (m\<lparr>mem := (mem m)(r := v)\<rparr>) q = w \<and> has_type u w"
  proof (cases "y = x")
    case True
    then show ?thesis using y assms(2,4) by simp
  next
    case False
    then obtain q where q: "E y = Some (q, u)" "mem m q = w" "has_type u w" using y sim_var [OF assms(1), of y u w] by auto
    have "q \<noteq> r" using q(1) assms(2,3) False unfolding apart_roots_def by blast
    then show ?thesis using q by simp
  qed
qed (use sim_streams [OF assms(1)] in simp_all)

lemma write_place:
  assumes "place W E m v ((x, p), t)" and "sim E m s" and "apart_roots E" and "has_type t w" and "assign_var x p w s = Done s'"
  shows "\<exists>m'. store_to (opval W m v) w m = Done m' \<and> regs m' = regs m \<and> sim E m' s'"
proof -
  obtain r t0 where p: "E x = Some (r, t0)" "opval W m v = VAddr r p" "ty_at t0 p = Some t"
    using assms(1) by (auto simp: place_def)
  obtain t1 u u' where v: "vars s x = Some (t1, u)" "replace_at u p w = Done u'" "s' = s\<lparr>vars := (vars s)(x \<mapsto> (t1, u'))\<rparr>"
    using assms(5) by (auto simp: assign_var_def split: option.splits elim!: bind_out_DoneE)
  have "t1 = t0" "mem m r = u" "has_type t1 u" using sim_var [OF assms(2) v(1)] p(1) by simp_all
  then have u: "vars s x = Some (t0, u)" "replace_at u p w = Done u'" "s' = s\<lparr>vars := (vars s)(x \<mapsto> (t0, u'))\<rparr>"
      "mem m r = u" "has_type t0 u" using v by simp_all
  let ?m = "m\<lparr>mem := (mem m)(r := u')\<rparr>"
  have "has_type t0 u'" by (rule replace_type [OF u(5) p(3) assms(4) u(2)])
  then have "sim E ?m s'" unfolding u(3) by (rule sim_write [OF assms(2) p(1) assms(3)])
  then show ?thesis using p u by (intro exI [of _ ?m]) (simp add: store_to_def)
qed

lemma store_does:
  assumes "CreateStore b v p s = Done s'" and "b = currentBB s" and "store_to (opval W m p) (opval W m v) m = Done m'" and "regs m' = regs m"
  shows "does W s m s' m'"
  using assms emit_does [of W "IStore v p" m m' s b] by (auto simp: CreateStore_def split: if_splits)

end
