(* ===== verification/FE_Expr.thy ===== *)
theory FE_Expr
  imports FE_Sim
begin

section \<open>The simulation of expressions\<close>

text \<open>
  The simulation for each kind of expression, from those of its parts, up to \<open>gen_expr_sim\<close>: the code that is
  generated for a simple expression computes its value.
\<close>

subsection \<open>Simulation of generators\<close>

text \<open>
  A generator and a function on program states: \<open>rv\<close> for values and \<open>lv\<close> for addresses.  The context says that
  the symbol table agrees with \<open>E\<close>, and with the types and functions of the filter.
\<close>

definition ctx :: "'f world \<Rightarrow> filter_spec \<Rightarrow> locations \<Rightarrow> 'f cg \<Rightarrow> bool" where
  "ctx W Fs E s \<longleftrightarrow>
     tidy s \<and> map_le (locs s) E \<and> in_type s = in_ty Fs \<and> apart_roots E \<and> world_ok W \<and>
     (\<forall>f name pl rt pts t. plain f \<longrightarrow> find_node (symt s) f = Some (NFunc name pl rt) \<longrightarrow> converts pl = Done pts \<longrightarrow>
        convert rt = Done t \<longrightarrow> funs Fs f = Some (name, pts, t))"

lemma ctx_same: "symt s' = symt s \<Longrightarrow> state_ty s' = state_ty s \<Longrightarrow> in_type s' = in_type s \<Longrightarrow> ctx W Fs E s' = ctx W Fs E s"
proof -
  assume h: "symt s' = symt s" "state_ty s' = state_ty s" "in_type s' = in_type s"
  then have "locs s' = locs s" "tidy s' = tidy s" by (simp_all add: locs_def fun_eq_iff tidy_def)
  with h show ?thesis unfolding ctx_def by simp
qed

lemma ctx_made: "made s v s' \<Longrightarrow> ctx W Fs E s' = ctx W Fs E s"
  by (rule ctx_same) (rule madeD; assumption)+

lemma ctx_extends: "extends s is s' \<Longrightarrow> ctx W Fs E s' = ctx W Fs E s"
  by (rule ctx_same) (rule extends_sel; assumption)+

lemma ctx_LHS [simp]: "ctx W Fs E (s\<lparr>inLHS := b\<rparr>) = ctx W Fs E s"
  by (rule ctx_same) simp_all

lemma ctxD: "ctx W Fs E s \<Longrightarrow> tidy s \<and> apart_roots E \<and> world_ok W \<and> in_type s = in_ty Fs"
  by (simp add: ctx_def)

definition rv :: "'f world \<Rightarrow> filter_spec \<Rightarrow> locations \<Rightarrow> 'f gen \<Rightarrow> ('f sst \<Rightarrow> (unit, 'f val \<times> 'f sst) outcome) \<Rightarrow> bool" where
  "rv W Fs E g ev \<longleftrightarrow>
     (\<forall>s v s' m st w st'. ctx W Fs E s \<longrightarrow> \<not> inLHS s \<longrightarrow> no_slots E (nslot s) (nslot s') \<longrightarrow> g s = Done (v, s') \<longrightarrow>
        sim E m st \<longrightarrow> ev st = Done (w, st') \<longrightarrow>
        (\<exists>m'. does W s m s' m' \<and> sim E m' st' \<and> opval W m' v = w \<and> has_type (typ_of v) w))"

definition lv :: "'f world \<Rightarrow> filter_spec \<Rightarrow> locations \<Rightarrow> 'f gen \<Rightarrow>
    ('f sst \<Rightarrow> (unit, ((string \<times> int list) \<times> ty) \<times> 'f sst) outcome) \<Rightarrow> bool" where
  "lv W Fs E g ev \<longleftrightarrow>
     (\<forall>s v s' m st pl st'. ctx W Fs E s \<longrightarrow> inLHS s \<longrightarrow> no_slots E (nslot s) (nslot s') \<longrightarrow> g s = Done (v, s') \<longrightarrow>
        sim E m st \<longrightarrow> ev st = Done (pl, st') \<longrightarrow>
        (\<exists>m'. does W s m s' m' \<and> sim E m' st' \<and> place W E m' v pl))"

lemma rvD:
  assumes "rv W Fs E g ev" and "g s = Done (v, s')" and "ev st = Done (w, st')" and "sim E m st" and "ctx W Fs E s" and "\<not> inLHS s"
    and "no_slots E (nslot s) (nslot s')"
  obtains m' where "does W s m s' m'" and "sim E m' st'" and "opval W m' v = w" and "has_type (typ_of v) w"
  using assms unfolding rv_def by blast

lemma lvD:
  assumes "lv W Fs E g ev" and "g s = Done (v, s')" and "ev st = Done (pl, st')" and "sim E m st" and "ctx W Fs E s" and "inLHS s"
    and "no_slots E (nslot s) (nslot s')"
  obtains m' where "does W s m s' m'" and "sim E m' st'" and "place W E m' v pl"
  using assms unfolding lv_def by blast

lemma rvI:
  assumes "\<And>s v s' m st w st'. ctx W Fs E s \<Longrightarrow> \<not> inLHS s \<Longrightarrow> no_slots E (nslot s) (nslot s') \<Longrightarrow> g s = Done (v, s') \<Longrightarrow>
    sim E m st \<Longrightarrow> ev st = Done (w, st') \<Longrightarrow> \<exists>m'. does W s m s' m' \<and> sim E m' st' \<and> opval W m' v = w \<and> has_type (typ_of v) w"
  shows "rv W Fs E g ev"
  unfolding rv_def using assms by blast

lemma lvI:
  assumes "\<And>s v s' m st pl st'. ctx W Fs E s \<Longrightarrow> inLHS s \<Longrightarrow> no_slots E (nslot s) (nslot s') \<Longrightarrow> g s = Done (v, s') \<Longrightarrow>
    sim E m st \<Longrightarrow> ev st = Done (pl, st') \<Longrightarrow> \<exists>m'. does W s m s' m' \<and> sim E m' st' \<and> place W E m' v pl"
  shows "lv W Fs E g ev"
  unfolding lv_def using assms by blast

text \<open>An operation that touches only registers ends the simulation.\<close>

lemma gives_end:
  assumes "does W s m s1 m1" and "sim E m1 st" and "gives W s1 m1 v s' m' w"
  shows "does W s m s' m' \<and> sim E m' st \<and> opval W m' v = w \<and> has_type (typ_of v) w"
  using assms does_trans same_mem_sim unfolding gives_def by blast

lemma rv_const:
  assumes "has_type (typ_of v) w" and "\<And>m. opval W m v = w"
  shows "rv W Fs E (\<lambda>s. Done (v, s)) (\<lambda>st. Done (w, st))"
  using assms does_refl by (intro rvI) (clarsimp, blast)

text \<open>Variables.\<close>

lemma var_place:
  assumes w: "find_value (symt s) x = Some w" and x: "plain x" and c: "ctx W Fs E s" and st: "vars st x = Some (t, v)" and sim: "sim E m st"
    and u: "(case w of OInt n k \<Rightarrow> CreateField (currentBB s) k s | _ \<Rightarrow> Done (w, s)) = Done (u, s1)"
  shows "\<exists>m'. does W s m s1 m' \<and> same_mem m m' \<and> place W E m' u ((x, []), t)"
proof -
  have "placed w" using w x c by (simp add: ctx_def tidy_def)
  have E: "E x = Some l" if "loc_of (state_ty s) w = Some l" for l
  proof -
    have "locs s x = Some l" using that w x by (simp add: locs_def)
    then show ?thesis using c by (auto simp: ctx_def map_le_def dom_def)
  qed
  obtain r where r: "E x = Some (r, t)" using sim_var [OF sim st] by blast
  show ?thesis
  proof (cases "\<exists>n k. w = OInt n k")
    case True
    then obtain n k where k: "w = OInt n k" "0 \<le> k" "nat k < length (state_ty s)"
        "value_at (currentBB s) (\<lambda>n. IField n (nat k)) (TPtr (state_ty s ! nat k)) s = (u, s1)"
      using u by (auto simp: CreateField_def split: if_splits)
    have e: "r = RField (nat k)" "t = state_ty s ! nat k" using E [of "(RField (nat k), state_ty s ! nat k)"] k r by simp_all
    let ?m = "set_reg (nreg s) (VAddr r []) m"
    have v: "u = OReg (nreg s) (TPtr t)" "s1 = emit (currentBB s) (IField (nreg s) (nat k)) (s\<lparr>nreg := Suc (nreg s)\<rparr>)"
      using k(4) e by (simp_all add: value_at_def)
    have "extends s [IField (nreg s) (nat k)] s1" unfolding v(2) by (intro extendsI) (simp_all add: emit_def)
    then have "does W s m s1 ?m" using e unfolding does_def by (auto simp: set_reg_def intro!: exI [of _ "[IField (nreg s) (nat k)]"])
    then show ?thesis using r v(1) by (intro exI [of _ ?m]) (simp add: place_def set_reg_def)
  next
    case False
    then have v: "u = w" "s1 = s" using u by (auto split: opnd.splits)
    have "\<exists>q. loc_of (state_ty s) w = Some (q, t) \<and> opval W m w = VAddr q [] \<and> typ_of w = TPtr t"
      using \<open>placed w\<close> False E r by (cases w) auto
    then show ?thesis using v E by (intro exI [of _ m]) (auto simp: does_refl place_def)
  qed
qed

lemma var_lv:
  assumes x: "plain x"
  shows "lv W Fs E (visitExprVar x) (leval W Fs (ExprVar x))"
proof (rule lvI)
  fix s v s' m st pl st'
  assume c: "ctx W Fs E s" "inLHS s" and g: "visitExprVar x s = Done (v, s')" and sim: "sim E m st" and e: "leval W Fs (ExprVar x) st = Done (pl, st')"
  obtain w u s1 where h: "find_value (symt s) x = Some w" "(case w of OInt n k \<Rightarrow> CreateField (currentBB s) k s | _ \<Rightarrow> Done (w, s)) = Done (u, s1)"
      "(if \<not> inLHS s1 then CreateLoad (currentBB s1) u s1 else Done (u, s1)) = Done (v, s')"
    using g by (auto simp: visitExprVar_def elim!: bind_out_DoneE split: option.splits)
  obtain t y where y: "vars st x = Some (t, y)" "pl = ((x, []), t)" "st' = st" using e by (auto split: option.splits)
  obtain m' where m': "does W s m s1 m'" "same_mem m m'" "place W E m' u ((x, []), t)" using var_place [OF h(1) x c(1) y(1) sim h(2)] by blast
  have "inLHS s1" using h(2) c(2) by (auto simp: CreateField_def value_at_def split: opnd.splits if_splits)
  then have "v = u" "s' = s1" using h(3) by simp_all
  then show "\<exists>m'. does W s m s' m' \<and> sim E m' st' \<and> place W E m' v pl" using m' y same_mem_sim [OF m'(2)] sim by blast
qed

lemma var_rv:
  assumes x: "plain x"
  shows "rv W Fs E (visitExprVar x) (eval W Fs (ExprVar x))"
proof (rule rvI)
  fix s v s' m st w' st'
  assume c: "ctx W Fs E s" "\<not> inLHS s" and g: "visitExprVar x s = Done (v, s')" and sim: "sim E m st" and e: "eval W Fs (ExprVar x) st = Done (w', st')"
  obtain w u s1 where h: "find_value (symt s) x = Some w" "(case w of OInt n k \<Rightarrow> CreateField (currentBB s) k s | _ \<Rightarrow> Done (w, s)) = Done (u, s1)"
      "(if \<not> inLHS s1 then CreateLoad (currentBB s1) u s1 else Done (u, s1)) = Done (v, s')"
    using g by (auto simp: visitExprVar_def elim!: bind_out_DoneE split: option.splits)
  have y: "read_var x [] st = Done w'" "st' = st" using e by (auto elim!: bind_out_DoneE)
  obtain t where t: "vars st x = Some (t, w')" using y(1) by (auto simp: read_var_def split: option.splits)
  obtain m' where m': "does W s m s1 m'" "same_mem m m'" "place W E m' u ((x, []), t)" using var_place [OF h(1) x c(1) t sim h(2)] by blast
  have sim': "sim E m' st" using same_mem_sim [OF m'(2)] sim by blast
  have "\<not> inLHS s1" using h(2) c(2) by (auto simp: CreateField_def value_at_def split: opnd.splits if_splits)
  then have l: "CreateLoad (currentBB s1) u s1 = Done (v, s')" using h(3) by simp
  have tu: "typ_of u = TPtr t" using m'(3) by (auto simp: place_def)
  note load_gives [OF l refl tu read_place [OF m'(3) sim' y(1)]]
  then show "\<exists>m'. does W s m s' m' \<and> sim E m' st' \<and> opval W m' v = w' \<and> has_type (typ_of v) w'"
    using gives_end [OF m'(1) sim'] y(2) by blast
qed

text \<open>Elements of arrays.\<close>

lemma array_place:
  assumes b: "lv W Fs E gb (leval W Fs a)" and i: "rv W Fs E gi (eval W Fs i)" and mk: "lmakes gb" "makes gi"
    and h: "gb (s\<lparr>inLHS := True\<rparr>) = Done (bo, s1)" "gi (s1\<lparr>inLHS := False\<rparr>) = Done (io, s2)"
      "CreateElem (currentBB s2) bo io (s2\<lparr>inLHS := f\<rparr>) = Done (p, s3)"
    and c: "ctx W Fs E s" and n: "no_slots E (nslot s) (nslot s3)" and sim: "sim E m st"
    and e: "leval W Fs a st = Done (((x, q), TArr k u), st1)" "eval W Fs i st1 = Done (VInt n j, st')"
  shows "\<exists>m'. does W s m s3 m' \<and> sim E m' st' \<and> place W E m' p ((x, q @ [j]), u)"
proof -
  have t: "tidy s" using c by (simp add: ctx_def)
  obtain is1 where m1: "extends s is1 s1" "below (nreg s1) bo" using made_LHS [OF lmakesD [OF mk(1) h(1)]] t by auto
  obtain is2 where m2: "extends s1 is2 s2" using made_LHS [OF makesD [OF mk(2) h(2)]] t tidy_extends [OF m1(1)] by auto
  have m3: "made (s2\<lparr>inLHS := f\<rparr>) p s3" using create_made(8) [OF _ h(3)] by simp
  have s: "nslot s \<le> nslot s1" "nslot s1 \<le> nslot s2" "nslot s2 \<le> nslot s3"
    using extends_sel(9) [OF m1(1)] extends_sel(9) [OF m2] madeD(9) [OF m3] by simp_all
  obtain ma where ma: "does W s m s1 ma" "sim E ma st1" "place W E ma bo ((x, q), TArr k u)"
  proof (rule lvD [OF b h(1) e(1) sim, where thesis = thesis])
    show "no_slots E (nslot (s\<lparr>inLHS := True\<rparr>)) (nslot s1)" using s by (intro no_slots_sub [OF n]) simp_all
  qed (use c in simp_all)
  obtain mb where mb: "does W s1 ma s2 mb" "sim E mb st'" "opval W mb io = VInt n j" "has_type (typ_of io) (VInt n j)"
  proof (rule rvD [OF i h(2) e(2) ma(2), where thesis = thesis])
    show "no_slots E (nslot (s1\<lparr>inLHS := False\<rparr>)) (nslot s2)" using s by (intro no_slots_sub [OF n]) simp_all
  qed (use c ctx_extends [OF m1(1)] in simp_all)
  have "place W E mb bo ((x, q), TArr k u)" by (rule place_does [OF ma(3) mb(1) m1(2)])
  then obtain r t0 where r: "E x = Some (r, t0)" "opval W mb bo = VAddr r q" "typ_of bo = TPtr (TArr k u)" "ty_at t0 q = Some (TArr k u)"
    by (auto simp: place_def)
  let ?m = "set_reg (nreg s2) (VAddr r (q @ [j])) mb"
  have v: "p = OReg (nreg s2) (TPtr u)" "s3 = emit (currentBB s2) (IElem (nreg s2) bo io) (s2\<lparr>inLHS := f, nreg := Suc (nreg s2)\<rparr>)"
    using h(3) r(3) mb(4) by (simp_all add: CreateElem_def value_at_def)
  have "extends s2 [IElem (nreg s2) bo io] s3" unfolding v(2) by (intro extendsI) (simp_all add: emit_def)
  then have "does W s2 mb s3 ?m" using r mb(3) unfolding does_def by (auto simp: set_reg_def elem_addr_def intro!: exI [of _ "[IElem (nreg s2) bo io]"])
  then have "does W s m s3 ?m" using does_trans [OF ma(1) mb(1)] does_trans by blast
  moreover have "place W E ?m p ((x, q @ [j]), u)" using r v(1) ty_at_snoc [OF r(4)] by (simp add: place_def set_reg_def)
  ultimately show ?thesis using mb(2) by (intro exI [of _ ?m]) simp
qed

lemma array_split:
  assumes "visitExprArray gb gi s = Done (v, s')" and "tidy s" and "lmakes gb" and "makes gi"
  obtains bo s1 io s2 p s3 where "gb (s\<lparr>inLHS := True\<rparr>) = Done (bo, s1)" "gi (s1\<lparr>inLHS := False\<rparr>) = Done (io, s2)"
      "CreateElem (currentBB s2) bo io (s2\<lparr>inLHS := inLHS s\<rparr>) = Done (p, s3)" "inLHS s3 = inLHS s" "nslot s3 = nslot s'"
      "if inLHS s then v = p \<and> s' = s3 else CreateLoad (currentBB s3) p s3 = Done (v, s')"
proof -
  obtain bo s1 io s2 p s3 where h: "gb (s\<lparr>inLHS := True\<rparr>) = Done (bo, s1)" "gi (s1\<lparr>inLHS := False\<rparr>) = Done (io, s2)"
      "CreateElem (currentBB s2) bo io (s2\<lparr>inLHS := inLHS s\<rparr>) = Done (p, s3)"
      "(if inLHS s3 then Done (p, s3) else CreateLoad (currentBB s3) p s3) = Done (v, s')"
    using assms(1) by (auto simp: visitExprArray_def Let_def elim!: bind_out_DoneE)
  have "made (s2\<lparr>inLHS := inLHS s\<rparr>) p s3" using create_made(8) [OF _ h(3)] by simp
  then have i: "inLHS s3 = inLHS s" using madeD(10) by fastforce
  have "nslot s3 = nslot s'" using h(4) by (auto simp: CreateLoad_def value_at_def split: if_splits ty.splits)
  then show thesis using that [OF h(1-3) i] h(4) i by auto
qed

lemma array_lv:
  assumes b: "lv W Fs E gb (leval W Fs a)" and i: "rv W Fs E gi (eval W Fs i)" and mk: "lmakes gb" "makes gi"
  shows "lv W Fs E (visitExprArray gb gi) (leval W Fs (ExprArray a i))"
proof (rule lvI)
  fix s v s' m st pl st'
  assume c: "ctx W Fs E s" "inLHS s" and n: "no_slots E (nslot s) (nslot s')" and g: "visitExprArray gb gi s = Done (v, s')"
    and sim: "sim E m st" and e: "leval W Fs (ExprArray a i) st = Done (pl, st')"
  have t: "tidy s" using c by (simp add: ctx_def)
  obtain x q k u st1 l j where y: "leval W Fs a st = Done (((x, q), TArr k u), st1)" "eval W Fs i st1 = Done (VInt l j, st')" "pl = ((x, q @ [j]), u)"
    using e by (auto elim!: bind_out_DoneE split: ty.splits val.splits)
  from array_split [OF g t mk] obtain bo s1 io s2 where h: "gb (s\<lparr>inLHS := True\<rparr>) = Done (bo, s1)" "gi (s1\<lparr>inLHS := False\<rparr>) = Done (io, s2)"
      "CreateElem (currentBB s2) bo io (s2\<lparr>inLHS := inLHS s\<rparr>) = Done (v, s')" using c(2) by (metis (full_types))
  show "\<exists>m'. does W s m s' m' \<and> sim E m' st' \<and> place W E m' v pl"
    using array_place [OF b i mk h c(1) n sim y(1,2)] y(3) by simp
qed

lemma array_rv:
  assumes b: "lv W Fs E gb (leval W Fs a)" and i: "rv W Fs E gi (eval W Fs i)" and mk: "lmakes gb" "makes gi"
  shows "rv W Fs E (visitExprArray gb gi) (eval W Fs (ExprArray a i))"
proof (rule rvI)
  fix s v s' m st w st'
  assume c: "ctx W Fs E s" "\<not> inLHS s" and n: "no_slots E (nslot s) (nslot s')" and g: "visitExprArray gb gi s = Done (v, s')"
    and sim: "sim E m st" and e: "eval W Fs (ExprArray a i) st = Done (w, st')"
  have t: "tidy s" using c by (simp add: ctx_def)
  obtain x q k u st1 l j where y: "leval W Fs a st = Done (((x, q), TArr k u), st1)" "eval W Fs i st1 = Done (VInt l j, st')"
      "read_var x (q @ [j]) st' = Done w"
    using e by (auto elim!: bind_out_DoneE split: ty.splits val.splits)
  from array_split [OF g t mk] obtain bo s1 io s2 p s3 where h: "gb (s\<lparr>inLHS := True\<rparr>) = Done (bo, s1)" "gi (s1\<lparr>inLHS := False\<rparr>) = Done (io, s2)"
      "CreateElem (currentBB s2) bo io (s2\<lparr>inLHS := inLHS s\<rparr>) = Done (p, s3)" "nslot s3 = nslot s'" "CreateLoad (currentBB s3) p s3 = Done (v, s')"
    using c(2) by (metis (full_types))
  have n': "no_slots E (nslot s) (nslot s3)" using n h(4) by simp
  obtain m1 where m1: "does W s m s3 m1" "sim E m1 st'" "place W E m1 p ((x, q @ [j]), u)"
    using array_place [OF b i mk h(1-3) c(1) n' sim y(1,2)] by blast
  have tp: "typ_of p = TPtr u" using m1(3) by (auto simp: place_def)
  note load_gives [OF h(5) refl tp read_place [OF m1(3,2) y(3)]]
  then show "\<exists>m'. does W s m s' m' \<and> sim E m' st' \<and> opval W m' v = w \<and> has_type (typ_of v) w"
    using gives_end [OF m1(1,2)] by blast
qed

subsection \<open>Operations on values\<close>

lemma rv_op:
  assumes g: "rv W Fs E g ev" "makes g"
    and mk: "\<And>s v u s'. k (v, s) = Done (u, s') \<Longrightarrow> below (nreg s) v \<Longrightarrow> made s v s \<Longrightarrow> made s u s'"
    and op: "\<And>s v u s' m a w. k (v, s) = Done (u, s') \<Longrightarrow> opval W m v = a \<Longrightarrow> has_type (typ_of v) a \<Longrightarrow> below (nreg s) v \<Longrightarrow>
      f a = Done w \<Longrightarrow> world_ok W \<Longrightarrow> \<exists>m'. gives W s m u s' m' w"
  shows "rv W Fs E (\<lambda>s. bind_out (g s) k) (\<lambda>st. bind_out (ev st) (\<lambda>(a, st). bind_out (f a) (\<lambda>w. Done (w, st))))"
proof (rule rvI)
  fix s u s' m st w st'
  assume c: "ctx W Fs E s" "\<not> inLHS s" and n: "no_slots E (nslot s) (nslot s')" and h: "bind_out (g s) k = Done (u, s')"
    and sim: "sim E m st" and e: "bind_out (ev st) (\<lambda>(a, st). bind_out (f a) (\<lambda>w. Done (w, st))) = Done (w, st')"
  obtain v s1 where v: "g s = Done (v, s1)" "k (v, s1) = Done (u, s')" using h by (auto elim!: bind_out_DoneE)
  obtain a where a: "ev st = Done (a, st')" "f a = Done w" using e by (auto elim!: bind_out_DoneE)
  have m1: "made s v s1" using c by (intro makesD [OF g(2) v(1)]) (simp_all add: ctx_def)
  note b = madeD(11) [OF m1]
  have m2: "made s1 u s'" by (rule mk [OF v(2) b made_refl [OF b]])
  obtain m1 where m1: "does W s m s1 m1" "sim E m1 st'" "opval W m1 v = a" "has_type (typ_of v) a"
  proof (rule rvD [OF g(1) v(1) a(1) sim c, where thesis = thesis])
    show "no_slots E (nslot s) (nslot s1)" by (rule no_slots_sub [OF n order_refl madeD(9) [OF m2]])
  qed simp
  show "\<exists>m'. does W s m s' m' \<and> sim E m' st' \<and> opval W m' u = w \<and> has_type (typ_of u) w"
    using op [OF v(2) m1(3,4) b a(2)] gives_end [OF m1(1,2)] ctxD [OF c(1)] by blast
qed

lemma unary_rv:
  assumes g: "rv W Fs E g ev" "makes g" and op: "\<not> is_incr op"
  shows "rv W Fs E (visitExprUnary op g) (\<lambda>st. bind_out (ev st) (\<lambda>(a, st). bind_out (un_val W op a) (\<lambda>w. Done (w, st))))"
proof -
  let ?k = "\<lambda>(v, s). visitExprUnary op (\<lambda>s. Done (v, s)) s"
  have "visitExprUnary op g = (\<lambda>s. bind_out (g s) ?k)" using op by (cases op) (auto simp: fun_eq_iff is_incr_def)
  moreover have "rv W Fs E (\<lambda>s. bind_out (g s) ?k) (\<lambda>st. bind_out (ev st) (\<lambda>(a, st). bind_out (un_val W op a) (\<lambda>w. Done (w, st))))"
  proof (rule rv_op [OF g])
    fix s v u s' assume "?k (v, s) = Done (u, s')" "below (nreg s) v"
    then show "made s u s'"
      using op by (cases op) (auto simp: is_incr_def create_made elim!: bind_out_DoneE
        dest!: nonzero_made [OF _ refl] create_made(5) [OF refl] create_made(6) [OF refl] intro: made_trans)
  next
    fix s v u s' m a w
    assume "?k (v, s) = Done (u, s')" "opval W m v = a" "has_type (typ_of v) a" "below (nreg s) v" "un_val W op a = Done w"
    then show "\<exists>m'. gives W s m u s' m' w" using unary_gives [OF _ op] by simp
  qed
  ultimately show ?thesis by simp
qed

lemma cast_rv:
  assumes g: "rv W Fs E g ev" "makes g"
  shows "rv W Fs E (visitExprTypeCast ty g)
    (\<lambda>st. bind_out (convert ty) (\<lambda>t. bind_out (ev st) (\<lambda>(a, st). bind_out (conv W t a) (\<lambda>w. Done (w, st)))))"
proof (cases "convert ty")
  case (Done t)
  have "rv W Fs E (\<lambda>s. bind_out (g s) (\<lambda>(v, s). matchTypes v t s)) (\<lambda>st. bind_out (ev st) (\<lambda>(a, st). bind_out (conv W t a) (\<lambda>w. Done (w, st))))"
    by (rule rv_op [OF g]) (auto simp: matchTypes_made dest: convert_gives)
  then show ?thesis using Done by (simp add: visitExprTypeCast_def [abs_def])
qed (simp_all add: rv_def visitExprTypeCast_def)

lemma binary_rv:
  assumes l: "rv W Fs E gl el" "makes gl" and r: "rv W Fs E gr er" "makes gr"
  shows "rv W Fs E (visitExprBinary op gl gr)
    (\<lambda>st. bind_out (el st) (\<lambda>(a, st). bind_out (er st) (\<lambda>(c, st). bind_out (bin_val W op a c) (\<lambda>w. Done (w, st)))))"
proof (rule rvI)
  fix s u s' m st w st'
  assume c: "ctx W Fs E s" "\<not> inLHS s" and n: "no_slots E (nslot s) (nslot s')" and h: "visitExprBinary op gl gr s = Done (u, s')"
    and sim: "sim E m st"
    and e: "bind_out (el st) (\<lambda>(a, st). bind_out (er st) (\<lambda>(c, st). bind_out (bin_val W op a c) (\<lambda>w. Done (w, st)))) = Done (w, st')"
  obtain vl s1 vr s2 vl' vr' s3 where v: "gl s = Done (vl, s1)" "gr s1 = Done (vr, s2)" "match_operands vl vr s2 = Done ((vl', vr'), s3)"
      "create_binary op (currentBB s3) vl' vr' s3 = Done (u, s')"
    using h by (auto simp: visitExprBinary_def elim!: bind_out_DoneE)
  obtain a st1 b where a: "el st = Done (a, st1)" "er st1 = Done (b, st')" "bin_val W op a b = Done w" using e by (auto elim!: bind_out_DoneE)
  have m1: "made s vl s1" using c by (intro makesD [OF l(2) v(1)]) (simp_all add: ctx_def)
  have c1: "ctx W Fs E s1" "\<not> inLHS s1" using c ctx_made [OF m1] madeD(10) [OF m1] by simp_all
  have m2: "made s1 vr s2" using c1 by (intro makesD [OF r(2) v(2)]) (simp_all add: ctx_def)
  have b: "below (nreg s2) vl" "below (nreg s2) vr" using made_keep [OF m2 madeD(11) [OF m1]] madeD(11) [OF m2] .
  have m3: "made s2 vl' s3" "made s2 vr' s3" using match_operands_made [OF v(3) b] by simp_all
  have m4: "made s3 u s'" by (rule create_binary_made [OF v(4) refl madeD(11) [OF m3(1)] madeD(11) [OF m3(2)]])
  have s: "nslot s \<le> nslot s1" "nslot s1 \<le> nslot s2" "nslot s2 \<le> nslot s'" using madeD(9) [OF m1] madeD(9) [OF m2] madeD(9) [OF m3(1)] madeD(9) [OF m4] by simp_all
  obtain ma where ma: "does W s m s1 ma" "sim E ma st1" "opval W ma vl = a" "has_type (typ_of vl) a"
  proof (rule rvD [OF l(1) v(1) a(1) sim c, where thesis = thesis])
    show "no_slots E (nslot s) (nslot s1)" using s by (intro no_slots_sub [OF n]) simp_all
  qed simp
  obtain mb where mb: "does W s1 ma s2 mb" "sim E mb st'" "opval W mb vr = b" "has_type (typ_of vr) b"
  proof (rule rvD [OF r(1) v(2) a(2) ma(2) c1, where thesis = thesis])
    show "no_slots E (nslot s1) (nslot s2)" using s by (intro no_slots_sub [OF n]) simp_all
  qed simp
  have vl: "opval W mb vl = a" using does_opval [OF mb(1) madeD(11) [OF m1]] ma(3) by simp
  have "world_ok W" using c by (simp add: ctx_def)
  then obtain m' where m': "gives W s2 mb u s' m' w" using binary_gives [OF v(3,4) a(3) _ vl ma(4) b(1) mb(3,4) b(2)] by blast
  show "\<exists>m'. does W s m s' m' \<and> sim E m' st' \<and> opval W m' u = w \<and> has_type (typ_of u) w"
    using gives_end [OF does_trans [OF ma(1) mb(1)] mb(2) m'] by blast
qed

subsection \<open>Assignments\<close>

definition assigned :: "'f world \<Rightarrow> ('f sst \<Rightarrow> (unit, ((string \<times> int list) \<times> ty) \<times> 'f sst) outcome) \<Rightarrow>
    ('f sst \<Rightarrow> (unit, 'f val \<times> 'f sst) outcome) \<Rightarrow> 'f sst \<Rightarrow> (unit, 'f val \<times> 'f sst) outcome" where
  "assigned W el er st =
     bind_out (el st) (\<lambda>(((x, p), t), st). bind_out (er st) (\<lambda>(v, st). bind_out (conv W t v) (\<lambda>v.
     bind_out (assign_var x p v st) (\<lambda>st. Done (v, st)))))"

lemma assign_rv:
  assumes l: "lv W Fs E gl el" "lmakes gl" and r: "rv W Fs E gr er" "makes gr"
  shows "rv W Fs E (visitStmtAssign gl gr) (assigned W el er)"
proof (rule rvI)
  fix s u s' m st w st'
  assume c: "ctx W Fs E s" "\<not> inLHS s" and n: "no_slots E (nslot s) (nslot s')" and h: "visitStmtAssign gl gr s = Done (u, s')"
    and sim: "sim E m st" and e: "assigned W el er st = Done (w, st')"
  obtain x p t st1 a st2 where a: "el st = Done (((x, p), t), st1)" "er st1 = Done (a, st2)" "conv W t a = Done w" "assign_var x p w st2 = Done st'"
    using e by (auto simp: assigned_def elim!: bind_out_DoneE)
  obtain vl s1 vr s2 t' s3 where v: "gl (s\<lparr>inLHS := True\<rparr>) = Done (vl, s1)" "gr (s1\<lparr>inLHS := False\<rparr>) = Done (vr, s2)"
      "typ_of vl = TPtr t'" "matchTypes vr t' s2 = Done (u, s3)" "CreateStore (currentBB s3) u vl s3 = Done s'"
    using h by (auto simp: visitStmtAssign_def elim!: bind_out_DoneE split: ty.splits)
  have ty: "tidy s" using c by (simp add: ctx_def)
  obtain is1 where m1: "extends s is1 s1" "below (nreg s1) vl" using made_LHS [OF lmakesD [OF l(2) v(1)]] ty by auto
  have m2: "made (s1\<lparr>inLHS := False\<rparr>) vr s2" using makesD [OF r(2) v(2)] ty tidy_extends [OF m1(1)] by simp
  have m3: "made s2 u s3" by (rule matchTypes_made [OF v(4) madeD(11) [OF m2]])
  have m4: "extends s3 [IStore u vl] s'" using CreateStore_extends [OF v(5)] by simp
  have s: "nslot s \<le> nslot s1" "nslot s1 \<le> nslot s2" "nslot s2 \<le> nslot s'"
    using extends_sel(9) [OF m1(1)] madeD(9) [OF m2] madeD(9) [OF m3] extends_sel(9) [OF m4] by simp_all
  obtain ma where ma: "does W s m s1 ma" "sim E ma st1" "place W E ma vl ((x, p), t)"
  proof (rule lvD [OF l(1) v(1) a(1) sim, where thesis = thesis])
    show "no_slots E (nslot (s\<lparr>inLHS := True\<rparr>)) (nslot s1)" using s by (intro no_slots_sub [OF n]) simp_all
  qed (use c in simp_all)
  obtain mb where mb: "does W s1 ma s2 mb" "sim E mb st2" "opval W mb vr = a" "has_type (typ_of vr) a"
  proof (rule rvD [OF r(1) v(2) a(2) ma(2), where thesis = thesis])
    show "no_slots E (nslot (s1\<lparr>inLHS := False\<rparr>)) (nslot s2)" using s by (intro no_slots_sub [OF n]) simp_all
  qed (use c ctx_extends [OF m1(1)] in simp_all)
  have "t' = t" using ma(3) v(3) by (auto simp: place_def)
  then obtain mc where mc: "typ_of u = t" "gives W s2 mb u s3 mc w" using convert_gives [OF _ mb(3,4) a(3)] v(4) ctxD [OF c(1)] by blast
  have d3: "does W s1 ma s3 mc" "sim E mc st2" "opval W mc u = w" "has_type t w" using gives_end [OF mb(1,2) mc(2)] mc(1) by simp_all
  have "place W E mc vl ((x, p), t)" by (rule place_does [OF ma(3) d3(1) m1(2)])
  from write_place [OF this d3(2) _ d3(4) a(4)] obtain md where md: "store_to (opval W mc vl) w mc = Done md" "regs md = regs mc" "sim E md st'"
    using ctxD [OF c(1)] by blast
  have d4: "does W s3 mc s' md" using store_does [OF v(5) refl] md d3(3) by simp
  have "opval W md u = w" using does_opval [OF d4 madeD(11) [OF m3]] d3(3) by simp
  then show "\<exists>m'. does W s m s' m' \<and> sim E m' st' \<and> opval W m' u = w \<and> has_type (typ_of u) w"
    using does_trans [OF ma(1) does_trans [OF d3(1) d4]] md(3) d3(4) mc(1) by blast
qed

lemma pure_eval:
  "(pure_expr e \<longrightarrow> eval W Fs e st = Done (v, st') \<longrightarrow> st' = st) \<and>
   (pure_expr e \<longrightarrow> leval W Fs e st = Done (pl, st') \<longrightarrow> st' = st)"
proof (induction e arbitrary: st v st' pl rule: pure_expr.induct)
  case (1 a i)
  have "eval W Fs (ExprArray a i) st = Done (v, st') \<Longrightarrow> pure_expr (ExprArray a i) \<Longrightarrow> st' = st"
    using 1 by (auto elim!: bind_out_DoneE split: ty.splits val.splits) blast
  moreover have "leval W Fs (ExprArray a i) st = Done (pl, st') \<Longrightarrow> pure_expr (ExprArray a i) \<Longrightarrow> st' = st"
    using 1 by (auto elim!: bind_out_DoneE split: ty.splits val.splits) blast
  ultimately show ?case by blast
next
  case (2 op l r)
  then show ?case by (auto elim!: bind_out_DoneE) blast
next
  case (5 e)
  then show ?case by (auto simp: peek_val_def elim!: bind_out_DoneE split: val.splits if_splits)
qed (auto elim!: bind_out_DoneE split: option.splits)

lemma lval_eval:
  "lval e \<Longrightarrow> eval W Fs e st = bind_out (leval W Fs e st) (\<lambda>(((x, p), t), st). bind_out (read_var x p st) (\<lambda>v. Done (v, st)))"
proof (induction e arbitrary: st rule: lval.induct)
  case (1 x)
  then show ?case by (simp add: read_var_def split: option.splits)
next
  case (2 a i)
  show ?case
  proof (cases "leval W Fs a st")
    case (Done y)
    obtain x p t s1 where y: "y = (((x, p), t), s1)" by (cases y) auto
    show ?thesis
    proof (cases "eval W Fs i s1")
      case (Done z)
      then show ?thesis using \<open>leval W Fs a st = Done y\<close> y by (cases z) (simp split: ty.splits val.splits)
    qed (use Done y in simp_all)
  qed simp_all
qed simp_all

text \<open>With an operator: the target, which changes nothing, is evaluated twice.\<close>

definition op_assigned :: "'f world \<Rightarrow> filter_spec \<Rightarrow> binop \<Rightarrow> 'f expr \<Rightarrow> ('f sst \<Rightarrow> (unit, 'f val \<times> 'f sst) outcome) \<Rightarrow>
    'f sst \<Rightarrow> (unit, 'f val \<times> 'f sst) outcome" where
  "op_assigned W Fs op l er st =
     bind_out (leval W Fs l st) (\<lambda>(((x, p), t), st). bind_out (read_var x p st) (\<lambda>old. bind_out (er st) (\<lambda>(w, st).
       update W op True ((x, p), t) old w st)))"

lemma op_assigned_eq:
  assumes "lval l" and "pure_expr l"
  shows "op_assigned W Fs op l er = assigned W (leval W Fs l) (\<lambda>st. bind_out (eval W Fs l st) (\<lambda>(a, st). bind_out (er st) (\<lambda>(c, st).
    bind_out (bin_val W op a c) (\<lambda>w. Done (w, st)))))"
proof
  fix st
  show "op_assigned W Fs op l er st = assigned W (leval W Fs l) (\<lambda>st. bind_out (eval W Fs l st) (\<lambda>(a, st). bind_out (er st) (\<lambda>(c, st).
    bind_out (bin_val W op a c) (\<lambda>w. Done (w, st))))) st"
  proof (cases "leval W Fs l st")
    case (Done y)
    obtain x p t s1 where y: "y = (((x, p), t), s1)" by (cases y) auto
    have s1: "s1 = st" using pure_eval [of l W Fs st] assms(2) Done y by blast
    have e: "eval W Fs l st = bind_out (read_var x p st) (\<lambda>v. Done (v, st))" using lval_eval [OF assms(1), of W Fs st] Done y s1 by simp
    show ?thesis
    proof (cases "read_var x p st")
      case d: (Done old)
      show ?thesis
      proof (cases "er st")
        case (Done z)
        then show ?thesis using \<open>leval W Fs l st = Done y\<close> y s1 e d by (cases z; cases "bin_val W op old (fst z)")
          (simp_all add: op_assigned_def assigned_def update_def)
      qed (use Done y s1 e d in \<open>simp_all add: op_assigned_def assigned_def\<close>)
    qed (use Done y s1 e in \<open>simp_all add: op_assigned_def assigned_def\<close>)
  qed (simp_all add: op_assigned_def assigned_def)
qed

lemma op_assign_rv:
  assumes l: "lv W Fs E gl (leval W Fs l)" "rv W Fs E gl (eval W Fs l)" "lmakes gl" "lval l" "pure_expr l" and r: "rv W Fs E gr er" "makes gr"
  shows "rv W Fs E (visitStmtAssign_op op gl gr) (op_assigned W Fs op l er)"
  unfolding visitStmtAssign_op_def op_assigned_eq [OF l(4,5)]
  using assign_rv [OF l(1,3) binary_rv [OF l(2) lmakes_makes [OF l(3)] r] visitExprBinary_made [OF lmakes_makes [OF l(3)] r(2)]] .

lemma one_rv: "rv W Fs E constant_one (\<lambda>st. Done (VInt 32 1, st))"
proof -
  have "wrap 32 1 = 1" by (simp add: wrap_range)
  then have "rv W Fs E (\<lambda>s. Done (OInt 32 1, s)) (\<lambda>st. Done (VInt 32 1, st))" by (intro rv_const) simp_all
  then show ?thesis by (simp add: constant_one_def [abs_def])
qed

text \<open>\<open>++\<close> and \<open>--\<close>.\<close>

lemma incr_eval:
  assumes "lval e" and "pure_expr e" and "is_incr op" and "eval W Fs (ExprUnary op e) st = Done (w, st')"
  shows "\<exists>old v. eval W Fs e st = Done (old, st) \<and> op_assigned W Fs (inc_op op) e (\<lambda>st. Done (VInt 32 1, st)) st = Done (v, st') \<and>
    w = (if is_pre op then v else old)"
proof -
  obtain x p t s1 old where a: "leval W Fs e st = Done (((x, p), t), s1)" "read_var x p s1 = Done old"
      "update W (inc_op op) (is_pre op) ((x, p), t) old (VInt 32 1) s1 = Done (w, st')"
    using assms(3,4) by (auto elim!: bind_out_DoneE)
  have s1: "s1 = st" using pure_eval [of e W Fs st] assms(2) a(1) by blast
  have "eval W Fs e st = Done (old, st)" using lval_eval [OF assms(1), of W Fs st] a s1 by simp
  moreover obtain v where "update W (inc_op op) True ((x, p), t) old (VInt 32 1) s1 = Done (v, st')" "w = (if is_pre op then v else old)"
    using a(3) by (auto simp: update_def elim!: bind_out_DoneE)
  ultimately show ?thesis using a s1 by (simp add: op_assigned_def)
qed

lemma incr_split:
  assumes "visitExprUnary op g s = Done (u, s')" and "is_incr op"
  obtains v s1 u1 where "g s = Done (v, s1)" and "visitStmtAssign_op (inc_op op) g constant_one s1 = Done (u1, s')"
    and "u = (if is_pre op then u1 else v)"
  using assms by (cases op) (auto simp: is_incr_def inc_op_def is_pre_def elim!: bind_out_DoneE)

lemma incr_rv:
  assumes l: "lv W Fs E g (leval W Fs e)" "rv W Fs E g (eval W Fs e)" "lmakes g" "lval e" "pure_expr e" and op: "is_incr op"
  shows "rv W Fs E (visitExprUnary op g) (eval W Fs (ExprUnary op e))"
proof (rule rvI)
  fix s u s' m st w st'
  assume c: "ctx W Fs E s" "\<not> inLHS s" and n: "no_slots E (nslot s) (nslot s')" and h: "visitExprUnary op g s = Done (u, s')"
    and sim: "sim E m st" and ev: "eval W Fs (ExprUnary op e) st = Done (w, st')"
  obtain v s1 u1 where v: "g s = Done (v, s1)" "visitStmtAssign_op (inc_op op) g constant_one s1 = Done (u1, s')" "u = (if is_pre op then u1 else v)"
    using incr_split [OF h op] .
  obtain old x where x: "eval W Fs e st = Done (old, st)" "op_assigned W Fs (inc_op op) e (\<lambda>st. Done (VInt 32 1, st)) st = Done (x, st')"
      "w = (if is_pre op then x else old)"
    using incr_eval [OF l(4,5) op ev] by blast
  have m1: "made s v s1" using c by (intro makesD [OF lmakes_makes [OF l(3)] v(1)]) (simp_all add: ctx_def)
  have c1: "ctx W Fs E s1" "\<not> inLHS s1" using c ctx_made [OF m1] madeD(10) [OF m1] by simp_all
  have m2: "made s1 u1 s'" using c1 by (intro makesD [OF assign_op_made [OF l(3) constant_one_made] v(2)]) (simp_all add: ctx_def)
  have s: "nslot s \<le> nslot s1" "nslot s1 \<le> nslot s'" using madeD(9) [OF m1] madeD(9) [OF m2] by simp_all
  obtain ma where ma: "does W s m s1 ma" "sim E ma st" "opval W ma v = old" "has_type (typ_of v) old"
  proof (rule rvD [OF l(2) v(1) x(1) sim c, where thesis = thesis])
    show "no_slots E (nslot s) (nslot s1)" using s by (intro no_slots_sub [OF n]) simp_all
  qed simp
  obtain mb where mb: "does W s1 ma s' mb" "sim E mb st'" "opval W mb u1 = x" "has_type (typ_of u1) x"
  proof (rule rvD [OF op_assign_rv [OF l one_rv constant_one_made] v(2) x(2) ma(2) c1, where thesis = thesis])
    show "no_slots E (nslot s1) (nslot s')" using s by (intro no_slots_sub [OF n]) simp_all
  qed simp
  have "opval W mb v = old" using does_opval [OF mb(1) madeD(11) [OF m1]] ma(3) by simp
  then show "\<exists>m'. does W s m s' m' \<and> sim E m' st' \<and> opval W m' u = w \<and> has_type (typ_of u) w"
    using does_trans [OF ma(1) mb(1)] mb(2-4) ma(4) v(3) x(3) by auto
qed

subsection \<open>Streams and functions\<close>

text \<open>A temporary slot, which no variable lives in.\<close>

lemma alloca: "CreateAlloca t s = Done (e, s1) \<Longrightarrow> e = OSlot (nslot s) t \<and> s1 = s\<lparr>nslot := Suc (nslot s)\<rparr>"
  by (simp add: CreateAlloca_def split: if_splits)

lemma does_alloca: "CreateAlloca t s = Done (e, s1) \<Longrightarrow> does W s m s1 m"
proof -
  assume "CreateAlloca t s = Done (e, s1)"
  then have "s1 = s\<lparr>nslot := Suc (nslot s)\<rparr>" using alloca by blast
  then have "extends s [] s1" by (intro extendsI) simp_all
  then show ?thesis by (auto simp: does_def intro!: exI [of _ "[]"])
qed

lemma load_temp:
  assumes "CreateLoad b (OSlot k t) s = Done (v, s')" and "b = currentBB s" and "mem m (RSlot k) = w" and "has_type t w"
  shows "\<exists>m'. gives W s m v s' m' w"
  using load_gives [OF assms(1,2), where t = t and w = w and m = m] assms(3,4) by (auto simp: load_from_def)

lemma sim_take: "sim E m st \<Longrightarrow> sim E (m\<lparr>ins := vs\<rparr>) (st\<lparr>s_ins := vs\<rparr>)"
  by (simp add: sim_def)

lemma pop_rv:
  fixes W :: "'f world"
  shows "rv W Fs E visitExprPop (pop_val Fs)"
proof (rule rvI)
  fix s u s' st w st' and m :: "'f ist"
  assume c: "ctx W Fs E s" and n: "no_slots E (nslot s) (nslot s')" and h: "visitExprPop s = Done (u, s')"
    and sim: "sim E m st" and e: "pop_val Fs st = Done (w, st')"
  obtain p s1 where v: "CreateAlloca (in_type s) s = Done (p, s1)" "CreateLoad (currentBB s) p (emit (currentBB s) (IPop p) s1) = Done (u, s')"
    using h by (auto simp: visitExprPop_def Let_def elim!: bind_out_DoneE)
  let ?s2 = "emit (currentBB s) (IPop p) s1"
  obtain vs where vs: "s_ins st = w # vs" "has_type (in_ty Fs) w" "st' = st\<lparr>s_ins := vs\<rparr>"
    using e by (auto simp: pop_val_def split: list.splits if_splits)
  let ?m = "m\<lparr>ins := vs, mem := (mem m)(RSlot (nslot s) := w)\<rparr>"
  have p: "p = OSlot (nslot s) (in_type s)" "currentBB s = currentBB s1" "nslot s1 = Suc (nslot s)" using alloca [OF v(1)] by simp_all
  have "exec_instr W (IPop p) m = Done ?m" using sim_streams [OF sim] vs(1) p(1) by (simp add: store_to_def)
  then have "does W s1 m ?s2 ?m" using p(2) by (intro emit_does) simp_all
  then have d: "does W s m ?s2 ?m" by (rule does_trans [OF does_alloca [OF v(1)]])
  obtain m' where m': "gives W ?s2 ?m u s' m' w" using load_temp [OF v(2)[unfolded p(1)], of ?m w W] p(1,2) vs(2) ctxD [OF c] by auto
  have "nslot s' = Suc (nslot s)" using v(2) p by (auto simp: CreateLoad_def value_at_def split: ty.splits)
  then have "no_slots E (nslot s) (Suc (nslot s))" using n by simp
  then have "sim E ?m st'" unfolding vs(3) using sim_temp [OF sim_take [OF sim, of vs], of "nslot s" w] by simp
  then show "\<exists>m'. does W s m s' m' \<and> sim E m' st' \<and> opval W m' u = w \<and> has_type (typ_of u) w"
    using gives_end [OF d _ m'] by blast
qed

lemma peek_does:
  assumes "CreatePeek b e n s = Done s'" and "b = currentBB s" and "opval W m n = VInt k i" and "has_type (typ_of n) (VInt k i)"
    and "0 \<le> i" and "nat i < length (ins m)" and "e = OSlot j t"
  shows "\<exists>m1. same_mem m m1 \<and> does W s m s' (m1\<lparr>mem := (mem m)(RSlot j := ins m ! nat i)\<rparr>)"
proof -
  have k: "typ_of n = TInt k" using assms(4) by simp
  show ?thesis
  proof (cases "k = 32")
    case True
    then have "s' = emit b (IPeek e n) s" using assms(1) k by (simp add: CreatePeek_def)
    moreover have "exec_instr W (IPeek e n) m = Done (m\<lparr>mem := (mem m)(RSlot j := ins m ! nat i)\<rparr>)" using assms by (simp add: store_to_def)
    ultimately have "does W s m s' (m\<lparr>mem := (mem m)(RSlot j := ins m ! nat i)\<rparr>)" using assms(2) by (auto intro: emit_does)
    then show ?thesis by (intro exI [of _ m]) simp
  next
    case False
    then obtain r s1 where v: "value_at b (\<lambda>r. ISExt r n (TInt 32)) (TInt 32) s = (r, s1)" "s' = emit b (IPeek e r) s1"
      using assms(1) k by (auto simp: CreatePeek_def split: if_splits prod.splits)
    let ?m = "set_reg (nreg s) (VInt 32 i) m"
    have r: "r = OReg (nreg s) (TInt 32)" "s1 = emit b (ISExt (nreg s) n (TInt 32)) (s\<lparr>nreg := Suc (nreg s)\<rparr>)" using v(1) by (simp_all add: value_at_def)
    have "extends s [ISExt (nreg s) n (TInt 32)] s1" unfolding r(2) using assms(2) by (intro extendsI) (simp_all add: emit_def)
    then have d: "does W s m s1 ?m" using assms(3) unfolding does_def by (auto simp: set_reg_def intro!: exI [of _ "[ISExt (nreg s) n (TInt 32)]"])
    have "exec_instr W (IPeek e r) ?m = Done (?m\<lparr>mem := (mem m)(RSlot j := ins m ! nat i)\<rparr>)"
      using assms r(1) by (simp add: store_to_def set_reg_def)
    then have "does W s1 ?m s' (?m\<lparr>mem := (mem m)(RSlot j := ins m ! nat i)\<rparr>)"
      unfolding v(2) using assms(2) r(2) by (intro emit_does) simp_all
    then show ?thesis using does_trans [OF d] by (intro exI [of _ ?m]) simp
  qed
qed

lemma peek_rv:
  assumes g: "rv W Fs E g ev" "makes g"
  shows "rv W Fs E (visitExprPeek g) (\<lambda>st. bind_out (ev st) (\<lambda>(i, st). peek_val Fs i st))"
proof (rule rvI)
  fix s u s' m st w st'
  assume c: "ctx W Fs E s" "\<not> inLHS s" and n: "no_slots E (nslot s) (nslot s')" and h: "visitExprPeek g s = Done (u, s')"
    and sim: "sim E m st" and e: "bind_out (ev st) (\<lambda>(i, st). peek_val Fs i st) = Done (w, st')"
  obtain p s1 o1 s2 s3 where v: "CreateAlloca (in_type s) s = Done (p, s1)" "g s1 = Done (o1, s2)" "CreatePeek (currentBB s) p o1 s2 = Done s3"
      "CreateLoad (currentBB s) p s3 = Done (u, s')"
    using h by (auto simp: visitExprPeek_def Let_def elim!: bind_out_DoneE)
  obtain k i where i: "ev st = Done (VInt k i, st')" "0 \<le> i" "nat i < length (s_ins st')" "w = s_ins st' ! nat i" "has_type (in_ty Fs) w"
    using e by (auto simp: peek_val_def elim!: bind_out_DoneE split: val.splits if_splits)
  note m1 = CreateAlloca_made [OF v(1)]
  have p: "p = OSlot (nslot s) (in_type s)" "nslot s1 = Suc (nslot s)" "ctx W Fs E s1" "\<not> inLHS s1"
    using alloca [OF v(1)] c ctx_made [OF m1] madeD(10) [OF m1] by simp_all
  have m2: "made s1 o1 s2" using p by (intro makesD [OF g(2) v(2)]) (simp_all add: ctx_def)
  have b: "currentBB s = currentBB s2" using madeD(1) [OF m1] madeD(1) [OF m2] by simp
  obtain is3 where m3: "extends s2 is3 s3" using CreatePeek_extends [OF v(3) b] by blast
  have b3: "currentBB s = currentBB s3" using extends_sel(1) [OF m3] b by simp
  have s: "nslot s2 \<le> nslot s'" "Suc (nslot s) \<le> nslot s2"
    using extends_sel(9) [OF m3] madeD(9) [OF create_made(7) [OF b3 v(4)]] madeD(9) [OF m2] p(2) by simp_all
  obtain ma where ma: "does W s1 m s2 ma" "sim E ma st'" "opval W ma o1 = VInt k i" "has_type (typ_of o1) (VInt k i)"
  proof (rule rvD [OF g(1) v(2) i(1) sim p(3,4), where thesis = thesis])
    show "no_slots E (nslot s1) (nslot s2)" using s p(2) by (intro no_slots_sub [OF n]) simp_all
  qed simp
  have ins: "ins ma = s_ins st'" using sim_streams [OF ma(2)] by simp
  obtain mb where mb: "same_mem ma mb" "does W s2 ma s3 (mb\<lparr>mem := (mem ma)(RSlot (nslot s) := w)\<rparr>)"
    using peek_does [OF v(3) b ma(3,4) i(2) _ p(1)] i(3,4) ins by auto
  let ?m = "mb\<lparr>mem := (mem ma)(RSlot (nslot s) := w)\<rparr>"
  have d: "does W s m s3 ?m" by (rule does_trans [OF does_alloca [OF v(1)] does_trans [OF ma(1) mb(2)]])
  obtain m' where m': "gives W s3 ?m u s' m' w" using load_temp [OF v(4)[unfolded p(1)] b3, of ?m w W] i(5) ctxD [OF c(1)] by auto
  have "no_slots E (nslot s) (Suc (nslot s))" using s by (intro no_slots_sub [OF n]) simp_all
  moreover have "sim E mb st'" using same_mem_sim [OF mb(1)] ma(2) by blast
  ultimately have "sim E ?m st'" using sim_temp [of E mb st' "nslot s" w] same_mem_sel [OF mb(1)] by simp
  then show "\<exists>m'. does W s m s' m' \<and> sim E m' st' \<and> opval W m' u = w \<and> has_type (typ_of u) w"
    using gives_end [OF d _ m'] by blast
qed

text \<open>Calls.\<close>

definition holds :: "'f world \<Rightarrow> 'f ist \<Rightarrow> 'f opnd list \<Rightarrow> 'f val list \<Rightarrow> bool" where
  "holds W m vs ws = list_all2 (\<lambda>v w. opval W m v = w \<and> has_type (typ_of v) w) vs ws"

lemma holds_map: "holds W m vs ws \<Longrightarrow> map (opval W m) vs = ws"
  unfolding holds_def by (induction rule: list_all2_induct) simp_all

lemma gen_args_sim:
  fixes W :: "'f world" and m :: "'f ist"
  assumes "\<And>e. e \<in> set es \<Longrightarrow> rv W Fs E (gen_expr e) (eval W Fs e)" and "\<And>e. e \<in> set es \<Longrightarrow> makes (gen_expr e)"
    and "ctx W Fs E s" and "\<not> inLHS s" and "no_slots E (nslot s) (nslot s')" and "gen_args es s = Done (vs, s')"
    and "sim E m st" and "evals W Fs es st = Done (ws, st')"
  shows "\<exists>m'. does W s m s' m' \<and> sim E m' st' \<and> holds W m' vs ws"
  using assms
proof (induction es arbitrary: s vs m st ws)
  case Nil
  then show ?case using does_refl by (auto simp: holds_def)
next
  case (Cons e es)
  obtain v s1 us where v: "gen_expr e s = Done (v, s1)" "gen_args es s1 = Done (us, s')" "vs = v # us"
    using Cons.prems(6) by (auto elim!: bind_out_DoneE)
  obtain w st1 xs where w: "eval W Fs e st = Done (w, st1)" "evals W Fs es st1 = Done (xs, st')" "ws = w # xs"
    using Cons.prems(8) by (auto elim!: bind_out_DoneE)
  have rv: "rv W Fs E (gen_expr e) (eval W Fs e)" and mk: "makes (gen_expr e)" using Cons.prems(1,2) by simp_all
  have m1: "made s v s1" using Cons.prems(3,4) by (intro makesD [OF mk v(1)]) (simp_all add: ctx_def)
  have c1: "ctx W Fs E s1" "\<not> inLHS s1" using Cons.prems(3,4) ctx_made [OF m1] madeD(10) [OF m1] by simp_all
  have "mades s1 us s'" using Cons.prems(2) c1 by (intro gen_args_made [OF _ _ _ v(2)]) (simp_all add: ctx_def)
  then have s: "nslot s \<le> nslot s1" "nslot s1 \<le> nslot s'" using extends_sel(9) madeD(9) [OF m1] by (auto simp: mades_def)
  obtain ma where ma: "does W s m s1 ma" "sim E ma st1" "opval W ma v = w" "has_type (typ_of v) w"
  proof (rule rvD [OF rv v(1) w(1) Cons.prems(7,3,4), where thesis = thesis])
    show "no_slots E (nslot s) (nslot s1)" by (rule no_slots_sub [OF Cons.prems(5) order_refl s(2)])
  qed simp
  have n1: "no_slots E (nslot s1) (nslot s')" by (rule no_slots_sub [OF Cons.prems(5) s(1) order_refl])
  obtain mb where mb: "does W s1 ma s' mb" "sim E mb st'" "holds W mb us xs"
    using Cons.IH [OF _ _ c1 n1 v(2) ma(2) w(2)] Cons.prems(1,2) by auto
  have "opval W mb v = w" using does_opval [OF mb(1) madeD(11) [OF m1]] ma(3) by simp
  then show ?case using does_trans [OF ma(1) mb(1)] mb(2,3) ma(4) v(3) w(3) by (auto simp: holds_def)
qed

lemma call_rv:
  fixes W :: "'f world"
  assumes "plain f" and "\<And>e. e \<in> set es \<Longrightarrow> rv W Fs E (gen_expr e) (eval W Fs e)" and "\<And>e. e \<in> set es \<Longrightarrow> makes (gen_expr e)"
  shows "rv W Fs E (visitExprFunCall f (gen_args es)) (eval W Fs (ExprFunCall f es))"
proof (rule rvI)
  fix s u s' st w st' and m :: "'f ist"
  assume c: "ctx W Fs E s" "\<not> inLHS s" and n: "no_slots E (nslot s) (nslot s')" and h: "visitExprFunCall f (gen_args es) s = Done (u, s')"
    and sim: "sim E m st" and e: "eval W Fs (ExprFunCall f es) st = Done (w, st')"
  obtain name pl rt vs s1 pts t where v: "find_node (symt s) f = Some (NFunc name pl rt)" "gen_args es s = Done (vs, s1)" "converts pl = Done pts"
      "convert rt = Done t" "value_at (currentBB s1) (\<lambda>n. ICall n name vs) t s1 = (u, s')"
    using h by (auto simp: visitExprFunCall_def elim!: bind_out_DoneE split: option.splits fe_node.splits if_splits)
  have fs: "funs Fs f = Some (name, pts, t)" using c(1) assms(1) v(1,3,4) by (simp add: ctx_def)
  obtain ws st1 where w: "evals W Fs es st = Done (ws, st1)" "w = extern W name ws" "has_type t w"
      "st' = st1\<lparr>s_calls := s_calls st1 @ [(name, ws)]\<rparr>"
    using e fs by (auto simp: call_val_def Let_def elim!: bind_out_DoneE split: if_splits)
  have m2: "made s1 u s'" by (rule value_at_made [OF v(5)])
  have n1: "no_slots E (nslot s) (nslot s1)" by (rule no_slots_sub [OF n order_refl madeD(9) [OF m2]])
  obtain ma where ma: "does W s m s1 ma" "sim E ma st1" "holds W ma vs ws"
    using gen_args_sim [OF assms(2,3) c n1 v(2) sim w(1)] by blast
  let ?m = "set_reg (nreg s1) w (ma\<lparr>calls := calls ma @ [(name, ws)]\<rparr>)"
  have u: "u = OReg (nreg s1) t" "s' = emit (currentBB s1) (ICall (nreg s1) name vs) (s1\<lparr>nreg := Suc (nreg s1)\<rparr>)" using v(5) by (simp_all add: value_at_def)
  have "extends s1 [ICall (nreg s1) name vs] s'" unfolding u(2) by (intro extendsI) (simp_all add: emit_def)
  then have "does W s1 ma s' ?m" using holds_map [OF ma(3)] w(2) unfolding does_def by (auto simp: set_reg_def Let_def intro!: exI [of _ "[ICall (nreg s1) name vs]"])
  moreover have "sim E ?m st'" using ma(2) w(4) by (simp add: sim_def set_reg_def)
  ultimately show "\<exists>m'. does W s m s' m' \<and> sim E m' st' \<and> opval W m' u = w \<and> has_type (typ_of u) w"
    using does_trans [OF ma(1)] u(1) w(3) by (intro exI [of _ ?m]) (simp add: set_reg_def)
qed

subsection \<open>The code of an expression computes its value\<close>

lemma const_rv:
  "rv W Fs E (gen_expr (ExprConstBoolean b)) (eval W Fs (ExprConstBoolean b))"
  "rv W Fs E (gen_expr (ExprConstChar c)) (eval W Fs (ExprConstChar c))"
  "rv W Fs E (gen_expr (ExprConstInt i)) (eval W Fs (ExprConstInt i))"
  "rv W Fs E (gen_expr (ExprConstFloat x)) (eval W Fs (ExprConstFloat x))"
  "rv W Fs E (gen_expr (ExprConstStr cs)) (eval W Fs (ExprConstStr cs))"
  unfolding gen_expr.simps [abs_def] eval.simps [abs_def]
  by (rule rv_const; simp add: VBool_def wrap_sint wrap_1)+

lemma gen_expr_sim:
  "simple e \<Longrightarrow> rv W Fs E (gen_expr e) (eval W Fs e) \<and> (lval e \<longrightarrow> lv W Fs E (gen_expr e) (leval W Fs e))"
proof (induction e rule: simple.induct)
  case (1 x)
  then show ?case using var_rv [of x W Fs E] var_lv [of x W Fs E] by (simp add: gen_expr.simps [abs_def] del: eval.simps leval.simps)
next
  case (2 a i)
  then have s: "simple a" "simple i" "lval a" by simp_all
  note k = gen_expr_made [OF s(1)] gen_expr_made [OF s(2)]
  show ?case using 2 s k array_rv [of W Fs E "gen_expr a" a "gen_expr i" i] array_lv [of W Fs E "gen_expr a" a "gen_expr i" i]
    by (simp add: gen_expr.simps [abs_def] del: eval.simps leval.simps)
next
  case (4 op l r)
  then have s: "simple l" "simple r" by simp_all
  note k = gen_expr_made [OF s(1)] gen_expr_made [OF s(2)]
  show ?case using 4 s k binary_rv [of W Fs E "gen_expr l" "eval W Fs l" "gen_expr r" "eval W Fs r" op]
    by (simp add: gen_expr.simps [abs_def] eval.simps [abs_def])
next
  case (5 op e)
  then have s: "simple e" by simp
  note k = gen_expr_made [OF s]
  show ?case
  proof (cases "is_incr op")
    case True
    then show ?thesis using 5 s k incr_rv [of W Fs E "gen_expr e" e op] by (simp add: gen_expr.simps [abs_def] del: eval.simps leval.simps)
  next
    case False
    then show ?thesis using 5 s k unary_rv [of W Fs E "gen_expr e" "eval W Fs e" op] by (simp add: gen_expr.simps [abs_def] eval.simps [abs_def])
  qed
next
  case (7 t e)
  then have s: "simple e" by simp
  show ?case using 7 s gen_expr_made [OF s] cast_rv [of W Fs E "gen_expr e" "eval W Fs e" t]
    by (simp add: gen_expr.simps [abs_def] eval.simps [abs_def])
next
  case (8 f es)
  then have s: "plain f" "\<And>e. e \<in> set es \<Longrightarrow> simple e" by (simp_all add: list_all_iff)
  have "rv W Fs E (visitExprFunCall f (gen_args es)) (eval W Fs (ExprFunCall f es))"
  proof (rule call_rv [OF s(1)])
    fix e assume e: "e \<in> set es"
    show "rv W Fs E (gen_expr e) (eval W Fs e)" using 8(1) [OF e s(2) [OF e]] by simp
    show "makes (gen_expr e)" using gen_expr_made [OF s(2) [OF e]] by simp
  qed
  then show ?case by (simp add: gen_expr.simps [abs_def] del: eval.simps leval.simps)
next
  case (9 e)
  then have s: "simple e" by simp
  show ?case using 9 s gen_expr_made [OF s] peek_rv [of W Fs E "gen_expr e" "eval W Fs e"]
    by (simp add: gen_expr.simps [abs_def] eval.simps [abs_def])
next
  case "10_6"
  then show ?case using pop_rv [of W Fs E] by (simp add: gen_expr.simps [abs_def] eval.simps [abs_def])
qed (simp_all add: const_rv)

end
