(* ===== verification/FE_Grow.thy ===== *)
theory FE_Grow
  imports FE_Expr
begin

section \<open>The shape of the code of statements\<close>

text \<open>
  A statement appends to the current block and to blocks that are new, its declarations add variables in new
  stack slots, and it leaves the targets of \<open>break\<close> and \<open>continue\<close> as they are, or forgets them.
\<close>

lemma simple_makes: "simple e \<Longrightarrow> makes (gen_expr e)"
  using gen_expr_made by blast

lemma simple_lmakes: "simple e \<Longrightarrow> lval e \<Longrightarrow> lmakes (gen_expr e)"
  using gen_expr_made by blast

lemma simple_rv: "simple e \<Longrightarrow> rv W Fs E (gen_expr e) (eval W Fs e)"
  using gen_expr_sim by blast

lemma simple_lv: "simple e \<Longrightarrow> lval e \<Longrightarrow> lv W Fs E (gen_expr e) (leval W Fs e)"
  using gen_expr_sim by blast

subsection \<open>What a statement changes\<close>

definition wfc :: "'f cg \<Rightarrow> bool" where
  "wfc s \<longleftrightarrow> tidy s \<and> table_ok (symt s) \<and> \<not> inLHS s \<and> currentBB s < nblk s \<and> (\<forall>b. nblk s \<le> b \<longrightarrow> code s b = []) \<and>
     (\<forall>x k t. locs s x = Some (RSlot k, t) \<longrightarrow> k < nslot s) \<and> apart_roots (locs s)"

text \<open>From \<open>s\<close> to \<open>s'\<close>, only the block \<open>c\<close> and those from \<open>n\<close> grew, and the names in \<open>D\<close> were declared.\<close>

definition grows :: "string set \<Rightarrow> nat \<Rightarrow> nat \<Rightarrow> 'f cg \<Rightarrow> 'f cg \<Rightarrow> bool" where
  "grows D n c s s' \<longleftrightarrow>
     nblk s \<le> nblk s' \<and> nslot s \<le> nslot s' \<and> (\<forall>b. prefix (code s b) (code s' b)) \<and>
     (\<forall>b<n. b \<noteq> c \<longrightarrow> code s' b = code s b) \<and> (currentBB s' = c \<or> n \<le> currentBB s') \<and>
     (\<forall>x. x \<notin> D \<longrightarrow> locs s' x = locs s x) \<and> (\<forall>x k t. x \<in> D \<longrightarrow> locs s' x = Some (RSlot k, t) \<longrightarrow> locs s x = None \<longrightarrow> nslot s \<le> k) \<and>
     in_type s' = in_type s \<and> (\<forall>f. plain f \<longrightarrow> find_node (symt s') f = find_node (symt s) f)"

definition fresh :: "string set \<Rightarrow> 'f cg \<Rightarrow> bool" where
  "fresh D s \<longleftrightarrow> (\<forall>x\<in>D. plain x \<and> locs s x = None)"

lemma growsD:
  assumes "grows D n c s s'"
  shows "nblk s \<le> nblk s'" "nslot s \<le> nslot s'" "prefix (code s b) (code s' b)" "b < n \<Longrightarrow> b \<noteq> c \<Longrightarrow> code s' b = code s b"
    "currentBB s' = c \<or> n \<le> currentBB s'" "x \<notin> D \<Longrightarrow> locs s' x = locs s x" "in_type s' = in_type s"
    "plain f \<Longrightarrow> find_node (symt s') f = find_node (symt s) f"
    "x \<in> D \<Longrightarrow> locs s' x = Some (RSlot k, t) \<Longrightarrow> locs s x = None \<Longrightarrow> nslot s \<le> k"
  using assms unfolding grows_def by blast+

lemma fresh_grows: "grows D n c s s' \<Longrightarrow> fresh D' s \<Longrightarrow> D \<inter> D' = {} \<Longrightarrow> fresh D' s'"
  unfolding fresh_def using growsD(6) [of D n c s s'] by (metis disjoint_iff)

lemma fresh_sub: "fresh D s \<Longrightarrow> D' \<subseteq> D \<Longrightarrow> fresh D' s"
  by (auto simp: fresh_def)

lemma gen_grows_trans:
  assumes "grows D n c s s1" and "grows D' n' c' s1 s'" and "D \<inter> D' = {}" and "n \<le> n'" and "c' = c \<or> n \<le> c'"
  shows "grows (D \<union> D') n c s s'"
  unfolding grows_def
proof (intro conjI allI impI)
  note a = growsD [OF assms(1)] and b = growsD [OF assms(2)]
  show "nblk s \<le> nblk s'" "nslot s \<le> nslot s'" using a(1,2) b(1,2) by linarith+
  show "prefix (code s k) (code s' k)" for k by (rule prefix_order.order_trans [OF a(3) b(3)])
  show "code s' k = code s k" if "k < n" "k \<noteq> c" for k
  proof -
    have "k < n'" "k \<noteq> c'" using that assms(4,5) by auto
    then show ?thesis using a(4) [OF that] b(4) by simp
  qed
  show "currentBB s' = c \<or> n \<le> currentBB s'" using b(5) assms(4,5) by auto
  show "locs s' x = locs s x" if "x \<notin> D \<union> D'" for x using a(6) [of x] b(6) [of x] that by simp
  show "nslot s \<le> k" if x: "x \<in> D \<union> D'" "locs s' x = Some (RSlot k, t)" "locs s x = None" for x k t
  proof (cases "x \<in> D")
    case True
    then have "locs s' x = locs s1 x" using assms(3) by (intro b(6)) blast
    then show ?thesis using a(9) [OF True _ x(3)] x(2) by metis
  next
    case False
    then have "locs s1 x = None" "x \<in> D'" using a(6) [of x] x by simp_all
    then have "nslot s1 \<le> k" using b(9) x(2) by blast
    then show ?thesis using a(2) by simp
  qed
  show "in_type s' = in_type s" using a(7) b(7) by simp
  show "find_node (symt s') f = find_node (symt s) f" if "plain f" for f using a(8) [OF that] b(8) [OF that] by simp
qed

lemma gen_grows_refl: "currentBB s = c \<or> n \<le> currentBB s \<Longrightarrow> grows {} n c s s"
  by (auto simp: grows_def)

lemma grows_sub: "grows D n c s s' \<Longrightarrow> m \<le> n \<Longrightarrow> c = d \<or> m \<le> c \<Longrightarrow> grows D m d s s'"
  unfolding grows_def by fastforce

text \<open>Going to another block, and the targets of jumps.\<close>

lemma locs_upd [simp]:
  "locs (s\<lparr>currentBB := b\<rparr>) = locs s" "locs (s\<lparr>breakBB := o1\<rparr>) = locs s" "locs (s\<lparr>continueBB := o1\<rparr>) = locs s"
  "locs (s\<lparr>nblk := k\<rparr>) = locs s" "locs (s\<lparr>code := f\<rparr>) = locs s" "locs (s\<lparr>nslot := k\<rparr>) = locs s" "locs (s\<lparr>nreg := k\<rparr>) = locs s"
  "locs (s\<lparr>inLHS := f1\<rparr>) = locs s"
  by (simp_all add: locs_def fun_eq_iff)

lemma grows_step: "grows D n c s s1 \<Longrightarrow> grows {} n c s1 s' \<Longrightarrow> grows D n c s s'"
  using gen_grows_trans [of D n c s s1 "{}" n c s'] by simp

lemma grows_step': "grows {} n c s s1 \<Longrightarrow> grows D n c s1 s' \<Longrightarrow> grows D n c s s'"
  using gen_grows_trans [of "{}" n c s s1 D n c s'] by simp

lemma grows_same:
  assumes "code s' = code s" "nblk s \<le> nblk s'" "nslot s' = nslot s" "symt s' = symt s" "state_ty s' = state_ty s" "in_type s' = in_type s"
    "currentBB s' = c \<or> n \<le> currentBB s'"
  shows "grows {} n c s s'"
proof -
  have "locs s' = locs s" using assms(4,5) by (simp add: locs_def fun_eq_iff)
  then show ?thesis using assms by (simp add: grows_def)
qed

lemma wfc_same:
  assumes "wfc s" "code s' = code s" "nblk s \<le> nblk s'" "nslot s' = nslot s" "symt s' = symt s" "state_ty s' = state_ty s" "inLHS s' = inLHS s"
    "currentBB s' < nblk s'"
  shows "wfc s'"
proof -
  have "locs s' = locs s" "tidy s' = tidy s" using assms(5,6) by (simp_all add: locs_def fun_eq_iff tidy_def)
  then show ?thesis using assms by (simp add: wfc_def)
qed

lemma extends_grows:
  assumes "extends s is s'" and "currentBB s = c \<or> n \<le> currentBB s"
  shows "grows {} n c s s'"
  using assms(2) locs_extends [OF assms(1)] extends_sel [OF assms(1)] by (auto simp: grows_def)

lemma extends_wf:
  assumes "extends s is s'" and "inLHS s' = inLHS s" and "wfc s"
  shows "wfc s'"
  using assms(2,3) locs_extends [OF assms(1)] extends_sel [OF assms(1)] tidy_extends [OF assms(1)]
  by (auto simp: wfc_def) (meson less_le_trans)

lemma made_grows: "made s v s' \<Longrightarrow> currentBB s = c \<or> n \<le> currentBB s \<Longrightarrow> grows {} n c s s'"
  unfolding made_def using extends_grows by blast

lemma made_wf: "made s v s' \<Longrightarrow> wfc s \<Longrightarrow> wfc s'"
  unfolding made_def using extends_wf by blast

lemma wf_makes: "makes g \<Longrightarrow> g s = Done (v, s') \<Longrightarrow> wfc s \<Longrightarrow> made s v s'"
  by (auto simp: makes_def wfc_def)

subsection \<open>Branches\<close>

lemma CreateBr_extends: "CreateBr (currentBB s) t s = Done s' \<Longrightarrow> \<exists>k. t = Some k \<and> extends s [IBr k] s' \<and> inLHS s' = inLHS s"
  using emit_extends by (auto simp: CreateBr_def split: option.splits)

lemma branch_on_extends:
  assumes "branch_on b v x y s = Done s'" and "b = currentBB s" and "below (nreg s) v"
  shows "\<exists>c s1. nonzero b v s = Done (c, s1) \<and> made s c s1 \<and> extends s1 [ICondBr c x y] s' \<and> inLHS s' = inLHS s"
proof -
  obtain c s1 where h: "nonzero b v s = Done (c, s1)" "CreateCondBr b c x y s1 = Done s'"
    using assms(1) by (auto simp: branch_on_def elim!: bind_out_DoneE)
  have m: "made s c s1" by (rule nonzero_made [OF h(1) assms(2,3)])
  have "s' = emit (currentBB s1) (ICondBr c x y) s1" using h(2) assms(2) madeD(1) [OF m] by (auto simp: CreateCondBr_def split: if_splits)
  then show ?thesis using h(1) m emit_extends madeD(10) [OF m] by (metis emit_sel(10))
qed

lemma branch_on_changes:
  assumes "branch_on b v x y s = Done s'" and "b = currentBB s" and "below (nreg s) v"
  shows "\<exists>is. extends s is s'" "inLHS s' = inLHS s"
  using branch_on_extends [OF assms] extends_trans unfolding made_def by blast+

subsection \<open>The shape of statements\<close>

text \<open>The flag is whether there is a loop in the statement, after which the target of \<open>continue\<close> is another one.\<close>

definition grower :: "string set \<Rightarrow> bool \<Rightarrow> 'f gen_stmt \<Rightarrow> bool" where
  "grower D lp g \<longleftrightarrow>
     (\<forall>s s'. wfc s \<longrightarrow> fresh D s \<longrightarrow> g s = Done s' \<longrightarrow>
        wfc s' \<and> grows D (nblk s) (currentBB s) s s' \<and> (breakBB s' = breakBB s \<or> breakBB s' = None) \<and>
        (lp \<or> continueBB s' = continueBB s))"

lemma growerD:
  assumes "grower D lp g" and "g s = Done s'" and "wfc s" and "fresh D s"
  shows "wfc s'" "grows D (nblk s) (currentBB s) s s'" "breakBB s' = breakBB s \<or> breakBB s' = None" "lp \<or> continueBB s' = continueBB s"
  using assms by (auto simp: grower_def)

lemma growerI:
  assumes "\<And>s s'. wfc s \<Longrightarrow> fresh D s \<Longrightarrow> g s = Done s' \<Longrightarrow>
    wfc s' \<and> grows D (nblk s) (currentBB s) s s' \<and> (breakBB s' = breakBB s \<or> breakBB s' = None) \<and> (lp \<or> continueBB s' = continueBB s)"
  shows "grower D lp g"
  using assms by (simp add: grower_def)

text \<open>Straight-line code.\<close>

lemma extends_grower:
  assumes "\<And>s s'. wfc s \<Longrightarrow> g s = Done s' \<Longrightarrow> (\<exists>is. extends s is s') \<and> inLHS s' = inLHS s"
  shows "grower {} lp g"
proof (rule growerI)
  fix s s' assume w: "wfc s" and g: "g s = Done s'"
  obtain "is" where e: "extends s is s'" "inLHS s' = inLHS s" using assms [OF w g] by blast
  show "wfc s' \<and> grows {} (nblk s) (currentBB s) s s' \<and> (breakBB s' = breakBB s \<or> breakBB s' = None) \<and> (lp \<or> continueBB s' = continueBB s)"
    using extends_wf [OF e w] extends_grows [OF e(1), of "currentBB s" "nblk s"] extends_sel(6,7) [OF e(1)] by blast
qed

lemma expr_grower:
  assumes "makes g"
  shows "grower {} lp (\<lambda>s. bind_out (g s) (\<lambda>(_, s). Done s))"
  using wf_makes [OF assms] by (intro extends_grower) (fastforce simp: made_def elim!: bind_out_DoneE)

lemma push_extends:
  assumes "makes g" and w: "wfc s" and "visitStmtPush g s = Done s'"
  shows "(\<exists>is. extends s is s') \<and> inLHS s' = inLHS s"
proof -
  obtain v s1 p s2 s3 where h: "g s = Done (v, s1)" "CreateAlloca (typ_of v) s1 = Done (p, s2)" "CreateStore (currentBB s2) v p s2 = Done s3"
      "s' = emit (currentBB s3) (IPush p) s3"
    using assms(3) by (auto simp: visitStmtPush_def elim!: bind_out_DoneE)
  have m: "made s v s1" by (rule wf_makes [OF assms(1) h(1) w])
  obtain is2 where e2: "extends s is2 s2" "inLHS s2 = inLHS s" using made_trans [OF m CreateAlloca_made [OF h(2)]] by (auto simp: made_def)
  have e3: "extends s2 [IStore v p] s3 \<and> inLHS s3 = inLHS s2" by (rule CreateStore_extends [OF h(3)])
  have "extends s3 [IPush p] s'" unfolding h(4) by (rule emit_extends)
  then show "(\<exists>is. extends s is s') \<and> inLHS s' = inLHS s" using extends_trans [OF extends_trans [OF e2(1)]] e2(2) e3 h(4) by fastforce
qed

lemma push_grower: "makes g \<Longrightarrow> grower {} lp (visitStmtPush g)"
  using push_extends by (intro extends_grower)

text \<open>Sequences.\<close>

lemma seq_grower:
  assumes "grower D l1 g" and "grower D' l2 h" and "D \<inter> D' = {}"
  shows "grower (D \<union> D') (l1 \<or> l2) (\<lambda>s. bind_out (g s) h)"
proof (rule growerI)
  fix s s' assume w: "wfc s" and f: "fresh (D \<union> D') s" and g: "bind_out (g s) h = Done s'"
  obtain s1 where h: "g s = Done s1" "h s1 = Done s'" using g by (auto elim!: bind_out_DoneE)
  note a = growerD [OF assms(1) h(1) w fresh_sub [OF f Un_upper1]]
  have f1: "fresh D' s1" by (rule fresh_grows [OF a(2) fresh_sub [OF f Un_upper2] assms(3)])
  note b = growerD [OF assms(2) h(2) a(1) f1]
  have "grows (D \<union> D') (nblk s) (currentBB s) s s'"
    by (rule gen_grows_trans [OF a(2) b(2) assms(3) growsD(1) [OF a(2)] growsD(5) [OF a(2)]])
  then show "wfc s' \<and> grows (D \<union> D') (nblk s) (currentBB s) s s' \<and> (breakBB s' = breakBB s \<or> breakBB s' = None) \<and>
      ((l1 \<or> l2) \<or> continueBB s' = continueBB s)" using a b by auto
qed

text \<open>Jumps leave the current block, and what follows goes to a block that nothing reaches.\<close>

lemma jump_out:
  "visitStmtBreak s = Done s' \<Longrightarrow> \<exists>s1. CreateBr (currentBB s) (breakBB s) s = Done s1 \<and> s' = s1\<lparr>nblk := Suc (nblk s1), currentBB := nblk s1\<rparr>"
  "visitStmtContinue s = Done s' \<Longrightarrow> \<exists>s1. CreateBr (currentBB s) (continueBB s) s = Done s1 \<and> s' = s1\<lparr>nblk := Suc (nblk s1), currentBB := nblk s1\<rparr>"
  by (auto simp: visitStmtBreak_def visitStmtContinue_def CreateBlock_def elim!: bind_out_DoneE)

lemma jump_grower: "grower {} lp visitStmtBreak" "grower {} lp visitStmtContinue"
proof -
  have j: "wfc s' \<and> grows {} (nblk s) (currentBB s) s s' \<and> (breakBB s' = breakBB s \<or> breakBB s' = None) \<and> (lp \<or> continueBB s' = continueBB s)"
    if w: "wfc s" and h: "CreateBr (currentBB s) t s = Done s1" "s' = s1\<lparr>nblk := Suc (nblk s1), currentBB := nblk s1\<rparr>" for s s1 s' :: "'f cg" and t
  proof -
    obtain k where e: "extends s [IBr k] s1" "inLHS s1 = inLHS s" using CreateBr_extends [OF h(1)] by blast
    note x = extends_sel [OF e(1)]
    have w1: "wfc s1" by (rule extends_wf [OF e w])
    have "wfc s'" unfolding h(2) by (rule wfc_same [OF w1]) simp_all
    moreover have "grows {} (nblk s) (currentBB s) s1 s'" unfolding h(2) using x(2) by (intro grows_same) simp_all
    then have "grows {} (nblk s) (currentBB s) s s'" by (rule grows_step [OF extends_grows [OF e(1)], rotated]) simp
    ultimately show ?thesis using x(6,7) h(2) by simp
  qed
  show "grower {} lp visitStmtBreak"
  proof (rule growerI)
    fix s s' assume w: "wfc s" and "visitStmtBreak s = Done s'"
    then obtain s1 where h: "CreateBr (currentBB s) (breakBB s) s = Done s1" "s' = s1\<lparr>nblk := Suc (nblk s1), currentBB := nblk s1\<rparr>"
      using jump_out(1) by blast
    show "wfc s' \<and> grows {} (nblk s) (currentBB s) s s' \<and> (breakBB s' = breakBB s \<or> breakBB s' = None) \<and> (lp \<or> continueBB s' = continueBB s)"
      by (rule j [OF w h])
  qed
  show "grower {} lp visitStmtContinue"
  proof (rule growerI)
    fix s s' assume w: "wfc s" and "visitStmtContinue s = Done s'"
    then obtain s1 where h: "CreateBr (currentBB s) (continueBB s) s = Done s1" "s' = s1\<lparr>nblk := Suc (nblk s1), currentBB := nblk s1\<rparr>"
      using jump_out(2) by blast
    show "wfc s' \<and> grows {} (nblk s) (currentBB s) s s' \<and> (breakBB s' = breakBB s \<or> breakBB s' = None) \<and> (lp \<or> continueBB s' = continueBB s)"
      by (rule j [OF w h])
  qed
qed

text \<open>Steps of a longer statement that begins in block \<open>c\<close> with \<open>n\<close> blocks.\<close>

definition moves :: "string set \<Rightarrow> nat \<Rightarrow> nat \<Rightarrow> 'f cg \<Rightarrow> 'f cg \<Rightarrow> bool" where
  "moves D n c s s' \<longleftrightarrow> wfc s' \<and> grows D n c s s'"

lemma moves_refl: "wfc s \<Longrightarrow> moves {} (nblk s) (currentBB s) s s"
  by (simp add: moves_def gen_grows_refl)

lemma moves_same:
  assumes "moves D n c s s1" and "code s' = code s1" "nblk s1 \<le> nblk s'" "nslot s' = nslot s1" "symt s' = symt s1" "state_ty s' = state_ty s1"
    "inLHS s' = inLHS s1" "in_type s' = in_type s1" and "currentBB s' < nblk s'" and "currentBB s' = c \<or> n \<le> currentBB s'"
  shows "moves D n c s s'"
  using assms wfc_same [of s1 s'] grows_same [of s' s1 c n] grows_step [of D n c s s1 s'] by (simp add: moves_def)

lemma moves_extends:
  assumes "moves D n c s s1" and "extends s1 is s'" and "inLHS s' = inLHS s1"
  shows "moves D n c s s'"
  using assms extends_wf [OF assms(2,3)] extends_grows [OF assms(2), of c n] grows_step [of D n c s s1 s'] growsD(5) [of D n c s s1]
  by (simp add: moves_def)

lemma moves_made: "moves D n c s s1 \<Longrightarrow> made s1 v s' \<Longrightarrow> moves D n c s s'"
  unfolding made_def using moves_extends by blast

lemma moves_gen:
  assumes "moves D n c s s1" and "grower D' lp g" and "g s1 = Done s'" and "fresh D' s" and "D \<inter> D' = {}" and "n \<le> nblk s"
  shows "moves (D \<union> D') n c s s'"
proof -
  have a: "wfc s1" "grows D n c s s1" using assms(1) by (simp_all add: moves_def)
  note b = growerD [OF assms(2,3) a(1) fresh_grows [OF a(2) assms(4,5)]]
  have n: "n \<le> nblk s1" using growsD(1) [OF a(2)] assms(6) by simp
  show ?thesis using b(1) gen_grows_trans [OF a(2) b(2) assms(5) n growsD(5) [OF a(2)]] by (simp add: moves_def)
qed

lemma moves_gen1:
  assumes "moves {} n c s s1" and "grower D lp g" and "g s1 = Done s'" and "fresh D s" and "n \<le> nblk s"
  shows "moves D n c s s'"
  using moves_gen [OF assms(1-4) _ assms(5)] by simp

text \<open>A condition and its branch.\<close>

lemma cond_extends:
  assumes c: "makes gc" and w: "wfc t" and h: "gc t = Done (v, s3)" "branch_on b v x y s3 = Done s'" and b: "b = currentBB t"
  shows "\<exists>is. extends t is s'" "inLHS s' = inLHS t"
proof -
  have m: "made t v s3" by (rule wf_makes [OF c h(1) w])
  have b3: "b = currentBB s3" using b madeD(1) [OF m] by simp
  note e = branch_on_changes [OF h(2) b3 madeD(11) [OF m]]
  show "\<exists>is. extends t is s'" using e(1) m extends_trans unfolding made_def by blast
  show "inLHS s' = inLHS t" using e(2) madeD(10) [OF m] by simp
qed

lemma moves_cond:
  assumes "moves D n c s t" and "makes gc" and "gc t = Done (v, s3)" "branch_on b v x y s3 = Done s'" "b = currentBB t"
  shows "moves D n c s s'" "nblk s' = nblk t" "breakBB s' = breakBB t" "continueBB s' = continueBB t"
proof -
  have "wfc t" using assms(1) by (simp add: moves_def)
  note e = cond_extends [OF assms(2) this assms(3-5)]
  then obtain "is" where e: "extends t is s'" "inLHS s' = inLHS t" by blast
  show "moves D n c s s'" by (rule moves_extends [OF assms(1) e])
  show "nblk s' = nblk t" "breakBB s' = breakBB t" "continueBB s' = continueBB t" using extends_sel [OF e(1)] by simp_all
qed

lemma moves_br:
  assumes "moves D n c s t" and "CreateBr b k t = Done s'" and "b = currentBB t"
  shows "moves D n c s s'" "nblk s' = nblk t" "breakBB s' = breakBB t" "continueBB s' = continueBB t"
proof -
  obtain j where e: "extends t [IBr j] s'" "inLHS s' = inLHS t" using CreateBr_extends [of t k s'] assms(2,3) by auto
  show "moves D n c s s'" by (rule moves_extends [OF assms(1) e])
  show "nblk s' = nblk t" "breakBB s' = breakBB t" "continueBB s' = continueBB t" using extends_sel [OF e(1)] by simp_all
qed

lemma gen_blocks:
  assumes "moves D' n c s0 s" and "grower D lp g" and "g s = Done s'" and "fresh D s0" and "D' \<inter> D = {}"
  shows "nblk s \<le> nblk s'" "breakBB s' = breakBB s \<or> breakBB s' = None" "lp \<or> continueBB s' = continueBB s"
proof -
  have a: "wfc s" "grows D' n c s0 s" using assms(1) by (simp_all add: moves_def)
  note b = growerD [OF assms(2,3) a(1) fresh_grows [OF a(2) assms(4,5)]]
  show "nblk s \<le> nblk s'" "breakBB s' = breakBB s \<or> breakBB s' = None" "lp \<or> continueBB s' = continueBB s" using growsD(1) [OF b(2)] b(3,4) .
qed

text \<open>Loops.\<close>

lemma while_split:
  assumes "visitStmtWhile gc gb s = Done s'"
  obtains s2 v s3 s4 s5 s6 where
    "CreateBr (currentBB s) (Some (nblk s)) (s\<lparr>nblk := nblk s + 3\<rparr>) = Done s2"
    "gc (s2\<lparr>currentBB := nblk s\<rparr>) = Done (v, s3)"
    "branch_on (nblk s) v (nblk s + 1) (nblk s + 2) s3 = Done s4"
    "gb (s4\<lparr>breakBB := Some (nblk s + 2), continueBB := Some (nblk s), currentBB := nblk s + 1\<rparr>) = Done s5"
    "CreateBr (currentBB s5) (Some (nblk s)) s5 = Done s6"
    "s' = s6\<lparr>breakBB := None, currentBB := nblk s + 2\<rparr>"
  using assms by (auto simp: visitStmtWhile_def CreateBlock_def Let_def numeral_3_eq_3 elim!: bind_out_DoneE)

lemma while_grower:
  assumes c: "makes gc" and b: "grower D lp gb"
  shows "grower D True (visitStmtWhile gc gb)"
proof (rule growerI)
  fix s s' assume w: "wfc s" and f: "fresh D s" and g: "visitStmtWhile gc gb s = Done s'"
  obtain s2 v s3 s4 s5 s6 where h: "CreateBr (currentBB s) (Some (nblk s)) (s\<lparr>nblk := nblk s + 3\<rparr>) = Done s2"
    "gc (s2\<lparr>currentBB := nblk s\<rparr>) = Done (v, s3)" "branch_on (nblk s) v (nblk s + 1) (nblk s + 2) s3 = Done s4"
    "gb (s4\<lparr>breakBB := Some (nblk s + 2), continueBB := Some (nblk s), currentBB := nblk s + 1\<rparr>) = Done s5"
    "CreateBr (currentBB s5) (Some (nblk s)) s5 = Done s6" "s' = s6\<lparr>breakBB := None, currentBB := nblk s + 2\<rparr>"
    using while_split [OF g] .
  let ?m = "\<lambda>D. moves D (nblk s) (currentBB s) s"
  have cb: "currentBB s < nblk s" using w by (simp add: wfc_def)
  have 1: "?m {} (s\<lparr>nblk := nblk s + 3\<rparr>)" using cb by (intro moves_same [OF moves_refl [OF w]]) simp_all
  note 2 = moves_br [OF 1 h(1)]
  have 3: "?m {} (s2\<lparr>currentBB := nblk s\<rparr>)" using 2(2) by (intro moves_same [OF 2(1)]) simp_all
  note 4 = moves_cond [OF 3 c h(2,3)]
  let ?s4 = "s4\<lparr>breakBB := Some (nblk s + 2), continueBB := Some (nblk s), currentBB := nblk s + 1\<rparr>"
  have 5: "?m {} ?s4" using 2(2) 4(2) by (intro moves_same [OF 4(1)]) simp_all
  have 6: "?m D s5" by (rule moves_gen1 [OF 5 b h(4) f order_refl])
  note 7 = moves_br [OF 6 h(5) refl]
  have "nblk s4 \<le> nblk s5" using gen_blocks(1) [OF 5 b h(4) f] by simp
  then have "?m D s'" unfolding h(6) using 2(2) 4(2) 7(2) by (intro moves_same [OF 7(1)]) simp_all
  then show "wfc s' \<and> grows D (nblk s) (currentBB s) s s' \<and> (breakBB s' = breakBB s \<or> breakBB s' = None) \<and> (True \<or> continueBB s' = continueBB s)"
    using h(6) by (simp add: moves_def)
qed

lemma do_split:
  assumes "visitStmtDoWhile gb gc s = Done s'"
  obtains s2 s3 s4 v s5 s6 where
    "CreateBr (currentBB s) (Some (nblk s)) (s\<lparr>nblk := nblk s + 3\<rparr>) = Done s2"
    "gb (s2\<lparr>breakBB := Some (nblk s + 2), continueBB := Some (nblk s + 1), currentBB := nblk s\<rparr>) = Done s3"
    "CreateBr (currentBB s3) (Some (nblk s + 1)) s3 = Done s4"
    "gc (s4\<lparr>breakBB := None, currentBB := nblk s + 1\<rparr>) = Done (v, s5)"
    "branch_on (nblk s + 1) v (currentBB s3) (nblk s + 2) s5 = Done s6"
    "s' = s6\<lparr>currentBB := nblk s + 2\<rparr>"
  using assms by (auto simp: visitStmtDoWhile_def CreateBlock_def Let_def numeral_3_eq_3 elim!: bind_out_DoneE)

lemma do_grower:
  assumes c: "makes gc" and b: "grower D lp gb"
  shows "grower D True (visitStmtDoWhile gb gc)"
proof (rule growerI)
  fix s s' assume w: "wfc s" and f: "fresh D s" and g: "visitStmtDoWhile gb gc s = Done s'"
  obtain s2 s3 s4 v s5 s6 where h: "CreateBr (currentBB s) (Some (nblk s)) (s\<lparr>nblk := nblk s + 3\<rparr>) = Done s2"
    "gb (s2\<lparr>breakBB := Some (nblk s + 2), continueBB := Some (nblk s + 1), currentBB := nblk s\<rparr>) = Done s3"
    "CreateBr (currentBB s3) (Some (nblk s + 1)) s3 = Done s4" "gc (s4\<lparr>breakBB := None, currentBB := nblk s + 1\<rparr>) = Done (v, s5)"
    "branch_on (nblk s + 1) v (currentBB s3) (nblk s + 2) s5 = Done s6" "s' = s6\<lparr>currentBB := nblk s + 2\<rparr>"
    using do_split [OF g] .
  let ?m = "\<lambda>D. moves D (nblk s) (currentBB s) s"
  have cb: "currentBB s < nblk s" using w by (simp add: wfc_def)
  have 1: "?m {} (s\<lparr>nblk := nblk s + 3\<rparr>)" using cb by (intro moves_same [OF moves_refl [OF w]]) simp_all
  note 2 = moves_br [OF 1 h(1)]
  have 3: "?m {} (s2\<lparr>breakBB := Some (nblk s + 2), continueBB := Some (nblk s + 1), currentBB := nblk s\<rparr>)"
    using 2(2) by (intro moves_same [OF 2(1)]) simp_all
  have 4: "?m D s3" by (rule moves_gen1 [OF 3 b h(2) f order_refl])
  have n3: "nblk s + 3 \<le> nblk s3" using gen_blocks(1) [OF 3 b h(2) f] 2(2) by simp
  note 5 = moves_br [OF 4 h(3) refl]
  have 6: "?m D (s4\<lparr>breakBB := None, currentBB := nblk s + 1\<rparr>)" using n3 5(2) by (intro moves_same [OF 5(1)]) simp_all
  note 7 = moves_cond [OF 6 c h(4,5)]
  have "?m D s'" unfolding h(6) using n3 5(2) 7(2) by (intro moves_same [OF 7(1)]) simp_all
  then show "wfc s' \<and> grows D (nblk s) (currentBB s) s s' \<and> (breakBB s' = breakBB s \<or> breakBB s' = None) \<and> (True \<or> continueBB s' = continueBB s)"
    using h(6) 7(3) by (simp add: moves_def)
qed

lemma for_split:
  assumes "visitStmtFor gi gc gn gb s = Done s'"
  obtains s1 s2 v s3 s4 s5 s6 s7 s8 where
    "gi s = Done s1"
    "CreateBr (currentBB s) (Some (nblk s1)) (s1\<lparr>nblk := nblk s1 + 4\<rparr>) = Done s2"
    "gc (s2\<lparr>currentBB := nblk s1\<rparr>) = Done (v, s3)"
    "branch_on (nblk s1) v (nblk s1 + 1) (nblk s1 + 3) s3 = Done s4"
    "gb (s4\<lparr>breakBB := Some (nblk s1 + 3), continueBB := Some (nblk s1 + 2), currentBB := nblk s1 + 1\<rparr>) = Done s5"
    "CreateBr (currentBB s5) (Some (nblk s1 + 2)) s5 = Done s6"
    "gn (s6\<lparr>breakBB := None, currentBB := nblk s1 + 2\<rparr>) = Done s7"
    "CreateBr (currentBB s7) (Some (nblk s1)) s7 = Done s8"
    "s' = s8\<lparr>currentBB := nblk s1 + 3\<rparr>"
  using assms by (auto simp: visitStmtFor_def CreateBlock_def Let_def numeral_3_eq_3 eval_nat_numeral elim!: bind_out_DoneE)

text \<open>The first part of a \<open>for\<close> loop has to stay in its block.\<close>

definition stays :: "string set \<Rightarrow> 'f gen_stmt \<Rightarrow> bool" where
  "stays D g \<longleftrightarrow> (\<forall>s s'. wfc s \<longrightarrow> fresh D s \<longrightarrow> g s = Done s' \<longrightarrow> currentBB s' = currentBB s)"

lemma staysD: "stays D g \<Longrightarrow> g s = Done s' \<Longrightarrow> wfc s \<Longrightarrow> fresh D s \<Longrightarrow> currentBB s' = currentBB s"
  by (simp add: stays_def)

lemma for_grower:
  assumes i: "grower Di l1 gi" "stays Di gi" and c: "makes gc" and n: "grower Dn l2 gn" and b: "grower D l3 gb"
    and d: "Di \<inter> D = {}" "Di \<inter> Dn = {}" "D \<inter> Dn = {}"
  shows "grower (Di \<union> D \<union> Dn) True (visitStmtFor gi gc gn gb)"
proof (rule growerI)
  fix s s' assume w: "wfc s" and f: "fresh (Di \<union> D \<union> Dn) s" and g: "visitStmtFor gi gc gn gb s = Done s'"
  obtain s1 s2 v s3 s4 s5 s6 s7 s8 where h: "gi s = Done s1"
    "CreateBr (currentBB s) (Some (nblk s1)) (s1\<lparr>nblk := nblk s1 + 4\<rparr>) = Done s2"
    "gc (s2\<lparr>currentBB := nblk s1\<rparr>) = Done (v, s3)" "branch_on (nblk s1) v (nblk s1 + 1) (nblk s1 + 3) s3 = Done s4"
    "gb (s4\<lparr>breakBB := Some (nblk s1 + 3), continueBB := Some (nblk s1 + 2), currentBB := nblk s1 + 1\<rparr>) = Done s5"
    "CreateBr (currentBB s5) (Some (nblk s1 + 2)) s5 = Done s6" "gn (s6\<lparr>breakBB := None, currentBB := nblk s1 + 2\<rparr>) = Done s7"
    "CreateBr (currentBB s7) (Some (nblk s1)) s7 = Done s8" "s' = s8\<lparr>currentBB := nblk s1 + 3\<rparr>"
    using for_split [OF g] .
  let ?m = "\<lambda>D. moves D (nblk s) (currentBB s) s"
  have fs: "fresh Di s" "fresh D s" "fresh Dn s" by (rule fresh_sub [OF f], blast)+
  have cb: "currentBB s < nblk s" "currentBB s1 = currentBB s" using w staysD [OF i(2) h(1) w fs(1)] by (simp_all add: wfc_def)
  have 0: "?m Di s1" by (rule moves_gen1 [OF moves_refl [OF w] i(1) h(1) fs(1) order_refl])
  have n1: "nblk s \<le> nblk s1" using growsD(1) [of Di "nblk s" "currentBB s" s s1] 0 by (simp add: moves_def)
  have 1: "?m Di (s1\<lparr>nblk := nblk s1 + 4\<rparr>)" using cb n1 by (intro moves_same [OF 0]) simp_all
  note 2 = moves_br [OF 1 h(2)]
  have 3: "?m Di (s2\<lparr>currentBB := nblk s1\<rparr>)" using 2(2) cb n1 by (intro moves_same [OF 2(1)]) simp_all
  note 4 = moves_cond [OF 3 c h(3,4)]
  let ?s4 = "s4\<lparr>breakBB := Some (nblk s1 + 3), continueBB := Some (nblk s1 + 2), currentBB := nblk s1 + 1\<rparr>"
  have n4: "nblk s4 = nblk s1 + 4" using 2(2) 4(2) cb by simp
  have 5: "?m Di ?s4" using n4 n1 cb by (intro moves_same [OF 4(1)]) simp_all
  have 6: "?m (Di \<union> D) s5" by (rule moves_gen [OF 5 b h(5) fs(2) d(1) order_refl])
  have n5: "nblk s1 + 4 \<le> nblk s5" using gen_blocks(1) [OF 5 b h(5) fs(2) d(1)] n4 by simp
  note 7 = moves_br [OF 6 h(6) refl]
  have 8: "?m (Di \<union> D) (s6\<lparr>breakBB := None, currentBB := nblk s1 + 2\<rparr>)" using n5 n1 7(2) by (intro moves_same [OF 7(1)]) simp_all
  have d8: "(Di \<union> D) \<inter> Dn = {}" using d by blast
  have 9: "?m (Di \<union> D \<union> Dn) s7" by (rule moves_gen [OF 8 n h(7) fs(3) d8 order_refl])
  note x = gen_blocks [OF 8 n h(7) fs(3) d8]
  note 10 = moves_br [OF 9 h(8) refl]
  have "?m (Di \<union> D \<union> Dn) s'" unfolding h(9) using x(1) n5 n1 7(2) 10(2) by (intro moves_same [OF 10(1)]) simp_all
  moreover have "breakBB s' = None" using x(2) 10(3) h(9) by simp
  ultimately show "wfc s' \<and> grows (Di \<union> D \<union> Dn) (nblk s) (currentBB s) s s' \<and> (breakBB s' = breakBB s \<or> breakBB s' = None) \<and>
      (True \<or> continueBB s' = continueBB s)"
    by (simp add: moves_def)
qed

text \<open>Conditional statements.\<close>

lemma if_split:
  assumes "visitStmtIfThen gc ga gb s = Done s'"
  obtains v s1 c s2 s4 s5 s6 s7 where
    "gc s = Done (v, s1)" "nonzero (currentBB s) v s1 = Done (c, s2)"
    "CreateCondBr (currentBB s) c (nblk s2) (if gb = None then nblk s2 + 2 else nblk s2 + 1) (s2\<lparr>nblk := nblk s2 + 3\<rparr>) = Done s4"
    "ga (s4\<lparr>currentBB := nblk s2\<rparr>) = Done s5" "CreateBr (currentBB s5) (Some (nblk s2 + 2)) s5 = Done s6"
    "case gb of None \<Rightarrow> s7 = s6
     | Some gb \<Rightarrow> \<exists>s8. gb (s6\<lparr>currentBB := nblk s2 + 1\<rparr>) = Done s8 \<and> CreateBr (currentBB s8) (Some (nblk s2 + 2)) s8 = Done s7"
    "s' = s7\<lparr>currentBB := nblk s2 + 2\<rparr>"
proof (cases gb)
  case None
  then show thesis using assms that
    by (auto simp: visitStmtIfThen_def CreateBlock_def Let_def numeral_3_eq_3 elim!: bind_out_DoneE)
next
  case (Some g)
  then show thesis using assms that
    by (fastforce simp: visitStmtIfThen_def CreateBlock_def Let_def numeral_3_eq_3 elim!: bind_out_DoneE)
qed

lemma CreateCondBr_extends: "CreateCondBr (currentBB s) c x y s = Done s' \<Longrightarrow> extends s [ICondBr c x y] s' \<and> inLHS s' = inLHS s"
  using emit_extends by (auto simp: CreateCondBr_def split: if_splits)

text \<open>The condition of a statement, which is evaluated before its blocks are made.\<close>

lemma if_cond:
  assumes "makes gc" and "wfc s" and "gc s = Done (v, s1)" "nonzero (currentBB s) v s1 = Done (c, s2)"
    "CreateCondBr (currentBB s) c x y (s2\<lparr>nblk := nblk s2 + 3\<rparr>) = Done s4"
  shows "made s v s1" "made s1 c s2" "extends (s2\<lparr>nblk := nblk s2 + 3\<rparr>) [ICondBr c x y] s4" "inLHS s4 = inLHS s2" "nblk s2 = nblk s"
    "currentBB s2 = currentBB s" "breakBB s4 = breakBB s" "continueBB s4 = continueBB s" "nblk s4 = nblk s + 3" "currentBB s4 = currentBB s"
proof -
  show m1: "made s v s1" by (rule wf_makes [OF assms(1,3,2)])
  show m2: "made s1 c s2" by (rule nonzero_made [OF assms(4) madeD(1) [OF m1, symmetric] madeD(11) [OF m1]])
  show b: "nblk s2 = nblk s" "currentBB s2 = currentBB s" using madeD(1,2) [OF m1] madeD(1,2) [OF m2] by simp_all
  have e: "extends (s2\<lparr>nblk := nblk s2 + 3\<rparr>) [ICondBr c x y] s4 \<and> inLHS s4 = inLHS (s2\<lparr>nblk := nblk s2 + 3\<rparr>)"
    using assms(5) b(2) by (intro CreateCondBr_extends) simp
  then show "extends (s2\<lparr>nblk := nblk s2 + 3\<rparr>) [ICondBr c x y] s4" "inLHS s4 = inLHS s2" by simp_all
  note x = extends_sel [OF conjunct1 [OF e]]
  show "breakBB s4 = breakBB s" "continueBB s4 = continueBB s" "nblk s4 = nblk s + 3" "currentBB s4 = currentBB s"
    using x(1,2,6,7) b madeD(6,7) [OF m1] madeD(6,7) [OF m2] by simp_all
qed

lemma if_grower:
  assumes c: "makes gc" and a: "grower Da la ga" and b: "\<And>g. gb = Some g \<Longrightarrow> grower Db lb g"
    and d: "Da \<inter> Db = {}" "gb = None \<Longrightarrow> Db = {}"
  shows "grower (Da \<union> Db) (la \<or> lb) (visitStmtIfThen gc ga gb)"
proof (rule growerI)
  fix s s' assume w: "wfc s" and f: "fresh (Da \<union> Db) s" and g: "visitStmtIfThen gc ga gb s = Done s'"
  obtain v s1 c s2 s4 s5 s6 s7 where h: "gc s = Done (v, s1)" "nonzero (currentBB s) v s1 = Done (c, s2)"
    "CreateCondBr (currentBB s) c (nblk s2) (if gb = None then nblk s2 + 2 else nblk s2 + 1) (s2\<lparr>nblk := nblk s2 + 3\<rparr>) = Done s4"
    "ga (s4\<lparr>currentBB := nblk s2\<rparr>) = Done s5" "CreateBr (currentBB s5) (Some (nblk s2 + 2)) s5 = Done s6"
    "case gb of None \<Rightarrow> s7 = s6
     | Some gb \<Rightarrow> \<exists>s8. gb (s6\<lparr>currentBB := nblk s2 + 1\<rparr>) = Done s8 \<and> CreateBr (currentBB s8) (Some (nblk s2 + 2)) s8 = Done s7"
    "s' = s7\<lparr>currentBB := nblk s2 + 2\<rparr>"
    using if_split [OF g] .
  let ?m = "\<lambda>D. moves D (nblk s) (currentBB s) s"
  have fs: "fresh Da s" "fresh Db s" by (rule fresh_sub [OF f], blast)+
  note k = if_cond [OF c w h(1-3)]
  have cb: "currentBB s < nblk s" using w by (simp add: wfc_def)
  have 1: "?m {} (s2\<lparr>nblk := nblk s2 + 3\<rparr>)"
    using cb k(5,6) by (intro moves_same [OF moves_made [OF moves_made [OF moves_refl [OF w] k(1)] k(2)]]) simp_all
  have l4: "inLHS s4 = inLHS (s2\<lparr>nblk := nblk s2 + 3\<rparr>)" using k(4) by simp
  have 2: "?m {} (s4\<lparr>currentBB := nblk s2\<rparr>)" using k(5,9) by (intro moves_same [OF moves_extends [OF 1 k(3) l4]]) simp_all
  have 3: "?m Da s5" by (rule moves_gen1 [OF 2 a h(4) fs(1) order_refl])
  have x: "nblk s + 3 \<le> nblk s5" "breakBB s5 = breakBB s \<or> breakBB s5 = None" "la \<or> continueBB s5 = continueBB s"
    using gen_blocks [OF 2 a h(4) fs(1)] k(7-9) by simp_all
  note 4 = moves_br [OF 3 h(5) refl]
  have 5: "?m (Da \<union> Db) s7 \<and> nblk s + 3 \<le> nblk s7 \<and> (breakBB s7 = breakBB s \<or> breakBB s7 = None) \<and> ((la \<or> lb) \<or> continueBB s7 = continueBB s)"
  proof (cases gb)
    case None
    then show ?thesis using h(6) 4 x d(2) by auto
  next
    case (Some g)
    obtain s8 where h8: "g (s6\<lparr>currentBB := nblk s2 + 1\<rparr>) = Done s8" "CreateBr (currentBB s8) (Some (nblk s2 + 2)) s8 = Done s7"
      using h(6) Some by auto
    have 6: "?m Da (s6\<lparr>currentBB := nblk s2 + 1\<rparr>)" using k(5) x(1) 4(2) by (intro moves_same [OF 4(1)]) simp_all
    have 7: "?m (Da \<union> Db) s8" by (rule moves_gen [OF 6 b [OF Some] h8(1) fs(2) d(1) order_refl])
    note y = gen_blocks [OF 6 b [OF Some] h8(1) fs(2) d(1)]
    note 8 = moves_br [OF 7 h8(2) refl]
    have "breakBB s7 = breakBB s \<or> breakBB s7 = None" using 8(3) y(2) 4(3) x(2) by auto
    moreover have "(la \<or> lb) \<or> continueBB s7 = continueBB s" using 8(4) y(3) 4(4) x(3) by auto
    moreover have "nblk s + 3 \<le> nblk s7" using 8(2) y(1) 4(2) x(1) by simp
    ultimately show ?thesis using 8(1) by blast
  qed
  then have "?m (Da \<union> Db) s'" unfolding h(7) using k(5) 5 by (intro moves_same [OF conjunct1 [OF 5]]) simp_all
  then show "wfc s' \<and> grows (Da \<union> Db) (nblk s) (currentBB s) s s' \<and> (breakBB s' = breakBB s \<or> breakBB s' = None) \<and>
      ((la \<or> lb) \<or> continueBB s' = continueBB s)" using 5 h(7) by (simp add: moves_def)
qed

text \<open>Declarations.\<close>

lemma declare_locs:
  assumes "table_ok (symt s)" and "plain x"
  shows "locs (declare_var x (OSlot k t) s) = (locs s)(x \<mapsto> (RSlot k, t))"
proof
  fix y show "locs (declare_var x (OSlot k t) s) y = ((locs s)(x \<mapsto> (RSlot k, t))) y"
    using assms by (cases "plain y") (auto simp: declare_var_def locs_def tbl.find_add [OF assms])
qed

lemma declare_sel [simp]:
  "currentBB (declare_var x p s) = currentBB s" "nblk (declare_var x p s) = nblk s" "nslot (declare_var x p s) = nslot s"
  "code (declare_var x p s) = code s" "breakBB (declare_var x p s) = breakBB s" "continueBB (declare_var x p s) = continueBB s"
  "inLHS (declare_var x p s) = inLHS s" "in_type (declare_var x p s) = in_type s" "state_ty (declare_var x p s) = state_ty s"
  by (simp_all add: declare_var_def)

lemma declare_wfc:
  assumes "wfc s" and "plain x" and "k < nslot s" and n: "\<And>y u. locs s y \<noteq> Some (RSlot k, u)"
  shows "wfc (declare_var x (OSlot k t) s)"
proof -
  have ok: "table_ok (symt s)" and ty: "tidy s" using assms(1) by (simp_all add: wfc_def)
  have "tidy (declare_var x (OSlot k t) s)" using ty ok assms(2) by (auto simp: tidy_def declare_var_def tbl.find_add)
  moreover have "table_ok (symt (declare_var x (OSlot k t) s))" using tbl.ok_add [OF ok assms(2)] by (simp add: declare_var_def)
  moreover have "apart_roots (locs (declare_var x (OSlot k t) s))"
    using assms(1) n unfolding declare_locs [OF ok assms(2)] wfc_def apart_roots_def by (auto split: if_splits)
  ultimately show ?thesis using assms(1,3) declare_locs [OF ok assms(2)] by (auto simp: wfc_def)
qed

text \<open>One declaration: a slot, the code of the initial value, and the entry in the table.\<close>

lemma declare_moves:
  assumes w: "wfc s" and x: "plain x" and a: "CreateAlloca t s = Done (p, s1)" and e: "extends s1 is s2" "inLHS s2 = inLHS s1"
  shows "moves {x} n (currentBB s) s (declare_var x p s2)"
proof -
  have p: "p = OSlot (nslot s) t" "s1 = s\<lparr>nslot := Suc (nslot s)\<rparr>" using alloca [OF a] by simp_all
  have m1: "made s p s1" by (rule CreateAlloca_made [OF a])
  have w2: "wfc s2" by (rule extends_wf [OF e made_wf [OF m1 w]])
  have k: "nslot s < nslot s2" using extends_sel(9) [OF e(1)] p(2) by simp
  have g: "grows {} n (currentBB s) s s2"
    using grows_step [OF made_grows [OF m1] extends_grows [OF e(1)]] madeD(1) [OF m1] by simp
  have ok: "table_ok (symt s2)" using w2 by (simp add: wfc_def)
  note l = declare_locs [OF ok x, of "nslot s" t]
  have "find_node (symt (declare_var x p s2)) f = find_node (symt s) f" if "plain f" for f
    using growsD(8) [OF g that] tbl.node_add [OF ok x that] by (simp add: declare_var_def)
  then have "grows {x} n (currentBB s) s (declare_var x p s2)"
    using g l unfolding p(1) grows_def by simp
  moreover have "locs s2 = locs s" using locs_extends [OF e(1)] madeD(12) [OF m1] by simp
  then have "locs s2 y \<noteq> Some (RSlot (nslot s), u)" for y u using w by (auto simp: wfc_def)
  ultimately show ?thesis using declare_wfc [OF w2 x k] p(1) by (simp add: moves_def)
qed

definition init_of :: "'f opnd \<Rightarrow> ty \<Rightarrow> 'f expr option \<Rightarrow> 'f gen_stmt" where
  "init_of p t init s =
     (case init of None \<Rightarrow> CreateStore (currentBB s) (ONull t) p s
      | Some e \<Rightarrow> bind_out (gen_expr e s) (\<lambda>(v, s). bind_out (matchTypes v t s) (\<lambda>(v, s). CreateStore (currentBB s) v p s)))"

lemma init_of_extends:
  assumes "case init of None \<Rightarrow> True | Some e \<Rightarrow> simple e" and "wfc s" and "init_of p t init s = Done s'"
  shows "\<exists>is. extends s is s'" "inLHS s' = inLHS s"
proof -
  have "(\<exists>is. extends s is s') \<and> inLHS s' = inLHS s"
  proof (cases init)
    case None
    then have "CreateStore (currentBB s) (ONull t) p s = Done s'" using assms(3) by (simp add: init_of_def)
    then show ?thesis using CreateStore_extends by blast
  next
    case (Some e)
    then obtain v s1 u s2 where h: "gen_expr e s = Done (v, s1)" "matchTypes v t s1 = Done (u, s2)" "CreateStore (currentBB s2) u p s2 = Done s'"
      using assms(3) by (auto simp: init_of_def elim!: bind_out_DoneE)
    have mk: "makes (gen_expr e)" using simple_makes assms(1) Some by simp
    have m1: "made s v s1" by (rule wf_makes [OF mk h(1) assms(2)])
    have m2: "made s1 u s2" by (rule matchTypes_made [OF h(2) madeD(11) [OF m1]])
    have m: "made s u s2" by (rule made_trans [OF m1 m2])
    then show ?thesis using CreateStore_extends [OF h(3)] extends_trans unfolding made_def by metis
  qed
  then show "\<exists>is. extends s is s'" "inLHS s' = inLHS s" by simp_all
qed

text \<open>A declaration whose initial value is an expression.\<close>

lemma simple_not_init: "simple e \<Longrightarrow> \<not> isArrayInit e"
  by (cases e) simp_all

lemma decl_split:
  assumes "visitStmtVarDecl b ((st, x, init) # ds) s = Done s'" and "b = currentBB s" and "wfc s" and "case init of None \<Rightarrow> True | Some e \<Rightarrow> simple e"
  obtains t p s1 s2 where "convert st = Done t" "CreateAlloca t s = Done (p, s1)" "init_of p t init s1 = Done s2"
    "visitStmtVarDecl b ds (declare_var x p s2) = Done s'" "wfc s1"
proof -
  obtain t p s1 s2 where h: "convert st = Done t" "CreateAlloca t s = Done (p, s1)"
      "(case init of None \<Rightarrow> CreateStore b (ONull t) p s1 | Some e \<Rightarrow> init_var b p t e s1) = Done s2"
      "visitStmtVarDecl b ds (declare_var x p s2) = Done s'"
    using assms(1) by (auto elim!: bind_out_DoneE)
  have m: "made s p s1" by (rule CreateAlloca_made [OF h(2)])
  have w1: "wfc s1" and b1: "currentBB s1 = b" using made_wf [OF m assms(3)] madeD(1) [OF m] assms(2) by simp_all
  have "init_of p t init s1 = Done s2"
  proof (cases init)
    case None
    then show ?thesis using h(3) b1 by (simp add: init_of_def)
  next
    case (Some e)
    then have e: "simple e" "makes (gen_expr e)" using assms(4) simple_makes by auto
    obtain v s3 u s4 where k: "gen_expr e s1 = Done (v, s3)" "matchTypes v t s3 = Done (u, s4)" "CreateStore b u p s4 = Done s2"
      using h(3) Some simple_not_init [OF e(1)] by (auto simp: init_var_def elim!: bind_out_DoneE)
    have m3: "made s1 v s3" by (rule wf_makes [OF e(2) k(1) w1])
    have "made s3 u s4" by (rule matchTypes_made [OF k(2) madeD(11) [OF m3]])
    then have "currentBB s4 = b" using madeD(1) [OF m3] madeD(1) [of s3 u s4] b1 by simp
    then show ?thesis using Some k by (simp add: init_of_def)
  qed
  then show thesis using that h w1 by blast
qed

lemma decl_grower:
  assumes "list_all (\<lambda>(t, x, e). plain x \<and> (case e of None \<Rightarrow> True | Some e \<Rightarrow> simple e)) ds" and "distinct (map (\<lambda>(t, x, e). x) ds)"
    and "wfc s" and "fresh (set (map (\<lambda>(t, x, e). x) ds)) s" and "visitStmtVarDecl (currentBB s) ds s = Done s'"
  shows "moves (set (map (\<lambda>(t, x, e). x) ds)) n (currentBB s) s s' \<and> currentBB s' = currentBB s \<and> breakBB s' = breakBB s \<and>
    continueBB s' = continueBB s"
  using assms
proof (induction ds arbitrary: s)
  case Nil
  then show ?case by (simp add: moves_def gen_grows_refl)
next
  case (Cons d ds)
  obtain st x init where d: "d = (st, x, init)" by (cases d) auto
  have i: "case init of None \<Rightarrow> True | Some e \<Rightarrow> simple e" "plain x" using Cons.prems(1) d by simp_all
  let ?D = "set (map (\<lambda>(t, x, e). x) ds)"
  obtain t p s1 s2 where h: "convert st = Done t" "CreateAlloca t s = Done (p, s1)" "init_of p t init s1 = Done s2"
    "visitStmtVarDecl (currentBB s) ds (declare_var x p s2) = Done s'" "wfc s1"
    using decl_split [OF _ refl Cons.prems(3) i(1), of st x ds s'] Cons.prems(5) d by metis
  obtain "is" where e: "extends s1 is s2" "inLHS s2 = inLHS s1" using init_of_extends [OF i(1) h(5,3)] by blast
  let ?s = "declare_var x p s2"
  have m: "moves {x} n (currentBB s) s ?s" by (rule declare_moves [OF Cons.prems(3) i(2) h(2) e])
  have k: "currentBB ?s = currentBB s" "breakBB ?s = breakBB s" "continueBB ?s = continueBB s"
    using extends_sel [OF e(1)] madeD [OF CreateAlloca_made [OF h(2)]] by simp_all
  have dx: "{x} \<inter> ?D = {}" using Cons.prems(2) d by auto
  have f: "fresh ?D ?s" using m fresh_grows [OF _ fresh_sub [OF Cons.prems(4)] dx] by (auto simp: moves_def)
  have l: "list_all (\<lambda>(t, x, e). plain x \<and> (case e of None \<Rightarrow> True | Some e \<Rightarrow> simple e)) ds" "distinct (map (\<lambda>(t, x, e). x) ds)"
    using Cons.prems(1,2) by simp_all
  have "wfc ?s" using m by (simp add: moves_def)
  from Cons.IH [OF l this f] have r: "moves ?D n (currentBB ?s) ?s s' \<and> currentBB s' = currentBB ?s \<and> breakBB s' = breakBB ?s \<and> continueBB s' = continueBB ?s"
    using h(4) k(1) by simp
  then have "grows ({x} \<union> ?D) n (currentBB s) s s'"
    using m k(1) by (intro gen_grows_trans [OF _ _ dx order_refl]) (auto simp: moves_def)
  then show ?case using r k d by (simp add: moves_def)
qed

lemma decls_grower:
  assumes "good (StmtVarDecl ds)" and "distinct (declared (StmtVarDecl ds))"
  shows "grower (set (declared (StmtVarDecl ds))) lp (gen_stmt (StmtVarDecl ds))" "stays (set (declared (StmtVarDecl ds))) (gen_stmt (StmtVarDecl ds))"
proof -
  let ?D = "set (map (\<lambda>(t, x, e). x) ds)"
  have g: "list_all (\<lambda>(t, x, e). plain x \<and> (case e of None \<Rightarrow> True | Some e \<Rightarrow> simple e)) ds" "distinct (map (\<lambda>(t, x, e). x) ds)"
    using assms by simp_all
  have k: "moves ?D (nblk s) (currentBB s) s s' \<and> currentBB s' = currentBB s \<and> breakBB s' = breakBB s \<and> continueBB s' = continueBB s"
    if "wfc s" "fresh ?D s" "gen_stmt (StmtVarDecl ds) s = Done s'" for s s'
    using decl_grower [OF g that(1,2), of s' "nblk s"] that(3) by simp
  have "grower ?D lp (gen_stmt (StmtVarDecl ds))"
  proof (rule growerI)
    fix s s' assume "wfc s" "fresh ?D s" "gen_stmt (StmtVarDecl ds) s = Done s'"
    from k [OF this] show "wfc s' \<and> grows ?D (nblk s) (currentBB s) s s' \<and> (breakBB s' = breakBB s \<or> breakBB s' = None) \<and>
      (lp \<or> continueBB s' = continueBB s)" by (simp add: moves_def)
  qed
  moreover have "stays ?D (gen_stmt (StmtVarDecl ds))" unfolding stays_def using k by blast
  ultimately show "grower (set (declared (StmtVarDecl ds))) lp (gen_stmt (StmtVarDecl ds))" "stays (set (declared (StmtVarDecl ds))) (gen_stmt (StmtVarDecl ds))"
    by simp_all
qed

lemma stays_same:
  assumes "\<And>s s'. wfc s \<Longrightarrow> g s = Done s' \<Longrightarrow> currentBB s' = currentBB s"
  shows "stays D g"
  using assms by (simp add: stays_def)

lemma expr_stays: "makes g \<Longrightarrow> stays D (\<lambda>s. bind_out (g s) (\<lambda>(_, s). Done s))"
  by (rule stays_same) (auto dest!: wf_makes madeD(1) elim!: bind_out_DoneE)

lemma seq_stays:
  assumes "grower D l g" and "stays D g" and "stays D' h" and "D \<inter> D' = {}"
  shows "stays (D \<union> D') (\<lambda>s. bind_out (g s) h)"
  unfolding stays_def
proof (intro allI impI)
  fix s s' assume w: "wfc s" and f: "fresh (D \<union> D') s" and "bind_out (g s) h = Done s'"
  then obtain s1 where h: "g s = Done s1" "h s1 = Done s'" by (auto elim!: bind_out_DoneE)
  have fs: "fresh D s" "fresh D' s" by (rule fresh_sub [OF f], blast)+
  note a = growerD [OF assms(1) h(1) w fs(1)]
  show "currentBB s' = currentBB s"
    using staysD [OF assms(2) h(1) w fs(1)] staysD [OF assms(3) h(2) a(1) fresh_grows [OF a(2) fs(2) assms(4)]] by simp
qed

lemma assign_makes:
  assumes "lval l" and "simple l" and "simple r"
  shows "makes (visitStmtAssign (gen_expr l) (gen_expr r))" "makes (visitStmtAssign_op op (gen_expr l) (gen_expr r))"
  using visitStmtAssign_made assign_op_made simple_lmakes [OF assms(2,1)] simple_makes [OF assms(3)] by blast+

lemma push_stays: "makes g \<Longrightarrow> stays D (visitStmtPush g)"
  using push_extends extends_sel(1) by (intro stays_same) blast

lemma gen_stmt_shape:
  fixes s :: "'f stmt" and ss :: "'f stmt list"
  shows "good s \<Longrightarrow> distinct (declared s) \<Longrightarrow>
     grower (set (declared s)) (has_loop s) (gen_stmt s) \<and> (flat s \<longrightarrow> stays (set (declared s)) (gen_stmt s))"
  "goods ss \<Longrightarrow> distinct (concat (map declared ss)) \<Longrightarrow>
     grower (set (concat (map declared ss))) (list_ex has_loop ss) (gen_stmts ss) \<and>
     (list_all flat ss \<longrightarrow> stays (set (concat (map declared ss))) (gen_stmts ss))"
proof (induction s and ss rule: good_goods.induct)
  case 1
  then show ?case by (auto simp: stays_def grower_def gen_grows_refl)
next
  case (2 e)
  then have m: "makes (gen_expr e)" using simple_makes [of e] by simp
  then show ?case using expr_grower [OF m] expr_stays [OF m] by (simp add: gen_stmt.simps [abs_def])
next
  case (3 op l r)
  obtain g where g: "makes g" "gen_stmt (StmtAssign op l r) = (\<lambda>s. bind_out (g s) (\<lambda>(_, s). Done s))"
    using 3 assign_makes [of l r] by (cases op) (auto simp: fun_eq_iff)
  show ?case using expr_grower [OF g(1)] expr_stays [OF g(1)] g(2) by simp
next
  case (4 e)
  then have m: "makes (gen_expr e)" using simple_makes [of e] by simp
  then show ?case using push_grower [OF m] push_stays [OF m] by (simp add: gen_stmt.simps [abs_def])
next
  case (5 ds)
  then show ?case using decls_grower by blast
next
  case (6 ss)
  then show ?case by (simp add: gen_stmt.simps [abs_def])
next
  case (7 c a b)
  then have m: "makes (gen_expr c)" and a: "grower (set (declared a)) (has_loop a) (gen_stmt a)" using simple_makes [of c] by simp_all
  show ?case
  proof (cases b)
    case None
    then show ?thesis using if_grower [OF m a, of None "{}" False] by (simp add: gen_stmt.simps [abs_def])
  next
    case (Some x)
    then have "grower (set (declared x)) (has_loop x) (gen_stmt x)" "set (declared a) \<inter> set (declared x) = {}" using 7 by simp_all
    then show ?thesis using if_grower [OF m a, of "Some (gen_stmt x)" "set (declared x)" "has_loop x"] Some by (simp add: gen_stmt.simps [abs_def])
  qed
next
  case (8 c body)
  then show ?case using while_grower [OF simple_makes [of c], of "set (declared body)" "has_loop body" "gen_stmt body"] by (simp add: gen_stmt.simps [abs_def])
next
  case (9 body c)
  then show ?case using do_grower [OF simple_makes [of c], of "set (declared body)" "has_loop body" "gen_stmt body"] by (simp add: gen_stmt.simps [abs_def])
next
  case (10 i c n b)
  have "grower (set (declared i) \<union> set (declared b) \<union> set (declared n)) True (visitStmtFor (gen_stmt i) (gen_expr c) (gen_stmt n) (gen_stmt b))"
    using 10 simple_makes [of c] by (intro for_grower) auto
  then show ?case by (simp add: gen_stmt.simps [abs_def] Un_assoc)
next
  case (15 x xs)
  then have d: "set (declared x) \<inter> set (concat (map declared xs)) = {}" by simp
  have a: "grower (set (declared x)) (has_loop x) (gen_stmt x)" "grower (set (concat (map declared xs))) (list_ex has_loop xs) (gen_stmts xs)"
    using 15 by simp_all
  have "gen_stmts (x # xs) = (\<lambda>s. bind_out (gen_stmt x s) (gen_stmts xs))" by (simp add: fun_eq_iff)
  then show ?case using seq_grower [OF a d] seq_stays [OF a(1) _ _ d] 15 by simp
next
  case 11
  then show ?case using jump_grower(1) by (simp add: gen_stmt.simps [abs_def])
next
  case 12
  then show ?case using jump_grower(2) by (simp add: gen_stmt.simps [abs_def])
qed (auto simp: stays_def grower_def gen_grows_refl)

end
