(* ===== verification/FE_Stmt.thy ===== *)
theory FE_Stmt
  imports FE_Grow
begin

section \<open>The code of statements does what they mean\<close>

text \<open>
  The code \<open>C\<close> of the whole function contains what has been generated at any moment.  A statement is
  simulated if control goes from the place where its code begins to where it ends, or to the target of a
  \<open>break\<close> or \<open>continue\<close>, and memory represents the state of the program again.
\<close>

subsection \<open>From the end of the function back\<close>

definition fits :: "'f world \<Rightarrow> filter_spec \<Rightarrow> locations \<Rightarrow> 'f cg \<Rightarrow> bool" where
  "fits W Fs E s \<longleftrightarrow> ctx W Fs E s \<and> (\<forall>x k t. E x = Some (RSlot k, t) \<longrightarrow> k < nslot s \<longrightarrow> locs s x = Some (RSlot k, t))"

lemma fits_ctx: "fits W Fs E s \<Longrightarrow> ctx W Fs E s"
  by (simp add: fits_def)

lemma fits_same:
  "symt s' = symt s \<Longrightarrow> state_ty s' = state_ty s \<Longrightarrow> in_type s' = in_type s \<Longrightarrow> nslot s' = nslot s \<Longrightarrow> fits W Fs E s' = fits W Fs E s"
proof -
  assume h: "symt s' = symt s" "state_ty s' = state_ty s" "in_type s' = in_type s" "nslot s' = nslot s"
  have "locs s' = locs s" using h(1,2) by (simp add: locs_def fun_eq_iff)
  then show ?thesis using ctx_same [OF h(1-3)] h(4) by (simp add: fits_def)
qed

text \<open>What holds at the end of a step holds at its beginning.\<close>

lemma fits_back:
  assumes f: "fits W Fs E s'" and g: "grows D n c s s'" and w: "wfc s" and d: "fresh D s"
  shows "fits W Fs E s"
proof -
  have c: "ctx W Fs E s'" and sl: "\<And>x k t. E x = Some (RSlot k, t) \<Longrightarrow> k < nslot s' \<Longrightarrow> locs s' x = Some (RSlot k, t)"
    using f by (simp_all add: fits_def)
  have old: "locs s x = Some l \<Longrightarrow> locs s' x = Some l" for x l using growsD(6) [OF g, of x] d by (cases "x \<in> D") (auto simp: fresh_def)
  then have "map_le (locs s) E" using c by (auto simp: ctx_def map_le_def dom_def)
  moreover have "tidy s" using w by (simp add: wfc_def)
  moreover have "in_type s = in_ty Fs" using growsD(7) [OF g] c by (simp add: ctx_def)
  ultimately have "ctx W Fs E s" using c growsD(8) [OF g] by (simp add: ctx_def)
  moreover have "locs s x = Some (RSlot k, t)" if "E x = Some (RSlot k, t)" "k < nslot s" for x k t
  proof -
    have l: "locs s' x = Some (RSlot k, t)" using sl that growsD(2) [OF g] by simp
    show ?thesis
    proof (cases "x \<in> D")
      case True
      then have "nslot s \<le> k" using growsD(9) [OF g True l] d by (simp add: fresh_def)
      then show ?thesis using that(2) by simp
    next
      case False
      then show ?thesis using growsD(6) [OF g False] l by simp
    qed
  qed
  ultimately show ?thesis by (simp add: fits_def)
qed

lemma fits_no_slots:
  assumes f: "fits W Fs E s'" and w: "wfc s" and l: "locs s' = locs s"
  shows "no_slots E (nslot s) (nslot s')"
  unfolding no_slots_def
proof (intro allI impI)
  fix x k t assume e: "E x = Some (RSlot k, t)"
  show "k < nslot s \<or> nslot s' \<le> k"
  proof (rule disjCI)
    assume "\<not> nslot s' \<le> k"
    then have "locs s' x = Some (RSlot k, t)" using f e by (simp add: fits_def)
    then show "k < nslot s" using l w by (auto simp: wfc_def)
  qed
qed

lemma fits_extends:
  assumes "fits W Fs E s'" and "extends s is s'" and "wfc s"
  shows "fits W Fs E s" "no_slots E (nslot s) (nslot s')"
proof -
  have g: "grows {} (nblk s) (currentBB s) s s'" by (rule extends_grows [OF assms(2)]) simp
  show "fits W Fs E s" by (rule fits_back [OF assms(1) g assms(3)]) (simp add: fresh_def)
  show "no_slots E (nslot s) (nslot s')" by (rule fits_no_slots [OF assms(1,3) locs_extends [OF assms(2)]])
qed

lemma fits_made:
  assumes "fits W Fs E s'" and "made s v s'" and "wfc s"
  shows "fits W Fs E s" "no_slots E (nslot s) (nslot s')"
  using assms fits_extends unfolding made_def by blast+

definition within :: "(nat \<Rightarrow> 'f instr list) \<Rightarrow> 'f cg \<Rightarrow> bool" where
  "within C s \<longleftrightarrow> (\<forall>b. prefix (code s b) (C b))"

lemma within_same: "code s' = code s \<Longrightarrow> within C s' = within C s"
  by (simp add: within_def)

lemma within_back: "within C s' \<Longrightarrow> grows D n c s s' \<Longrightarrow> within C s"
  unfolding within_def using growsD(3) prefix_order.order_trans by metis

lemma within_extends: "within C s' \<Longrightarrow> extends s is s' \<Longrightarrow> within C s"
  using within_back extends_grows [of s "is" s' "currentBB s" 0] by blast

subsection \<open>Places in the code\<close>

definition here :: "'f cg \<Rightarrow> nat \<times> nat" where
  "here s = (currentBB s, length (code s (currentBB s)))"

lemma does_reaches:
  assumes "does W s m s' m'" and "within C s'"
  shows "reaches W C (config_at (here s) pv m) (config_at (here s') pv m')"
proof -
  obtain "is" where e: "extends s is s'" "exec_seq W is m = Done m'" using assms(1) by (auto simp: does_def)
  note x = extends_sel [OF e(1)]
  have "prefix (code s (currentBB s) @ is) (C (currentBB s))" using assms(2) x(10) unfolding within_def by (metis fun_upd_same)
  then show ?thesis using reaches_seq [OF e(2)] x(1,10) by (simp add: here_def)
qed

lemma nth_within:
  assumes "extends s [i] s'" and "within C s'"
  shows "length (code s (currentBB s)) < length (C (currentBB s))" "C (currentBB s) ! length (code s (currentBB s)) = i"
proof -
  have "prefix (code s (currentBB s) @ [i]) (C (currentBB s))" using assms(2) extends_sel(10) [OF assms(1)] unfolding within_def by (metis fun_upd_same)
  then show "length (code s (currentBB s)) < length (C (currentBB s))" "C (currentBB s) ! length (code s (currentBB s)) = i"
    by (auto simp: prefix_def nth_append)
qed

lemma br_reaches:
  assumes "CreateBr b (Some k) s = Done s'" and "b = currentBB s" and "within C s'"
  shows "reaches W C (config_at (here s) pv m) (config_at (k, 0) b m)"
proof -
  have e: "extends s [IBr k] s'" using CreateBr_extends [of s "Some k" s'] assms(1,2) by auto
  have "step W C (config_at (here s) pv m) = Done (config_at (k, 0) b m)"
    using nth_within [OF e assms(3)] assms(2) by (simp add: step_def config_at_def here_def)
  then show ?thesis using reaches_step reaches_refl by blast
qed

lemma cond_br_reaches:
  assumes "extends s [ICondBr c x y] s'" and "within C s'" and "opval W m c = VBool t"
  shows "reaches W C (config_at (here s) pv m) (config_at (if t then x else y, 0) (currentBB s) m)"
proof -
  have "step W C (config_at (here s) pv m) = Done (config_at (if t then x else y, 0) (currentBB s) m)"
    using nth_within [OF assms(1,2)] assms(3) by (simp add: step_def config_at_def here_def VBool_def)
  then show ?thesis using reaches_step reaches_refl by blast
qed

text \<open>An expression, and a condition.\<close>

lemma expr_reaches:
  assumes e: "simple e" and g: "gen_expr e s = Done (v, s')" and w: "wfc s" and f: "fits W Fs E s'" and c: "within C s'"
    and sim: "sim E m st" and ev: "eval W Fs e st = Done (a, st')"
  obtains m' where "reaches W C (config_at (here s) pv m) (config_at (here s') pv m')" "sim E m' st'" "opval W m' v = a" "has_type (typ_of v) a"
proof -
  have m: "made s v s'" by (rule wf_makes [OF simple_makes [OF e] g w])
  note b = fits_made [OF f m w]
  have "\<not> inLHS s" using w by (simp add: wfc_def)
  then obtain m' where m': "does W s m s' m'" "sim E m' st'" "opval W m' v = a" "has_type (typ_of v) a"
    using rvD [OF simple_rv [OF e] g ev sim fits_ctx [OF b(1)] _ b(2)] by blast
  show thesis using that [OF does_reaches [OF m'(1) c] m'(2-4)] .
qed

lemma nonzero_reaches:
  assumes "nonzero b v s = Done (u, s')" and "b = currentBB s" and "within C s'" and "opval W m v = w" and "has_type (typ_of v) w"
    and "truth W w = Done t" and "sim E m st"
  obtains m' where "reaches W C (config_at (here s) pv m) (config_at (here s') pv m')" "sim E m' st" "opval W m' u = VBool t"
proof -
  obtain m' where "gives W s m u s' m' (VBool t)" using nonzero_gives [OF assms(1,2,4-6)] by blast
  then have m': "does W s m s' m'" "same_mem m m'" "opval W m' u = VBool t" by (simp_all add: gives_def)
  have "sim E m' st" using same_mem_sim [OF m'(2)] assms(7) by blast
  then show thesis using that [OF does_reaches [OF m'(1) assms(3)] _ m'(3)] by blast
qed

lemma cond_reaches:
  assumes e: "simple e" and g: "gen_expr e s = Done (v, s1)" "branch_on b v x y s1 = Done s'" and b: "b = currentBB s" and w: "wfc s"
    and f: "fits W Fs E s'" and c: "within C s'" and sim: "sim E m st" and ev: "test W Fs e st = Done (t, st')"
  obtains m' where "reaches W C (config_at (here s) pv m) (config_at (if t then x else y, 0) b m')" "sim E m' st'"
proof -
  obtain a where a: "eval W Fs e st = Done (a, st')" "truth W a = Done t" using ev by (auto simp: test_def elim!: bind_out_DoneE)
  have m: "made s v s1" by (rule wf_makes [OF simple_makes [OF e] g(1) w])
  have w1: "wfc s1" by (rule made_wf [OF m w])
  have b1: "b = currentBB s1" using b madeD(1) [OF m] by simp
  obtain u s2 where u: "nonzero b v s1 = Done (u, s2)" "made s1 u s2" "extends s2 [ICondBr u x y] s'" "inLHS s' = inLHS s1"
    using branch_on_extends [OF g(2) b1 madeD(11) [OF m]] by blast
  have w2: "wfc s2" by (rule made_wf [OF u(2) w1])
  have f2: "fits W Fs E s2" and c2: "within C s2" using fits_extends(1) [OF f u(3) w2] within_extends [OF c u(3)] .
  have f1: "fits W Fs E s1" by (rule fits_made(1) [OF f2 u(2) w1])
  have c1: "within C s1" using c2 u(2) within_extends unfolding made_def by blast
  obtain m1 where m1: "reaches W C (config_at (here s) pv m) (config_at (here s1) pv m1)" "sim E m1 st'" "opval W m1 v = a" "has_type (typ_of v) a"
    using expr_reaches [OF e g(1) w f1 c1 sim a(1)] .
  obtain m2 where m2: "reaches W C (config_at (here s1) pv m1) (config_at (here s2) pv m2)" "sim E m2 st'" "opval W m2 u = VBool t"
    using nonzero_reaches [OF u(1) b1 c2 m1(3,4) a(2) m1(2)] .
  have "currentBB s2 = b" using b1 madeD(1) [OF u(2)] by simp
  then have "reaches W C (config_at (here s2) pv m2) (config_at (if t then x else y, 0) b m2)" using cond_br_reaches [OF u(3) c m2(3)] by simp
  then show thesis using that m1(1) m2(1,2) reaches_trans by blast
qed

subsection \<open>Simulation of statements\<close>

fun target :: "sig \<Rightarrow> 'f cg \<Rightarrow> 'f cg \<Rightarrow> (nat \<times> nat) option" where
  "target Normal s s' = Some (here s')"
| "target Breaks s s' = map_option (\<lambda>t. (t, 0)) (breakBB s)"
| "target Continues s s' = map_option (\<lambda>t. (t, 0)) (continueBB s)"
| "target Timeout s s' = None"

definition stm :: "'f world \<Rightarrow> filter_spec \<Rightarrow> locations \<Rightarrow> string set \<Rightarrow> 'f gen_stmt \<Rightarrow> 'f effect \<Rightarrow> bool" where
  "stm W Fs E D g f \<longleftrightarrow>
     (\<forall>C s s' pv m st sg st'. wfc s \<longrightarrow> fresh D s \<longrightarrow> g s = Done s' \<longrightarrow> fits W Fs E s' \<longrightarrow> within C s' \<longrightarrow> sim E m st \<longrightarrow>
        f st = Done (sg, st') \<longrightarrow> sg \<noteq> Timeout \<longrightarrow>
        (\<exists>p pv' m'. target sg s s' = Some p \<and> reaches W C (config_at (here s) pv m) (config_at p pv' m') \<and> sim E m' st'))"

lemma stmD:
  assumes "stm W Fs E D g f" and "wfc s" and "fresh D s" and "g s = Done s'" and "fits W Fs E s'" and "within C s'" and "sim E m st"
    and "f st = Done (sg, st')" and "sg \<noteq> Timeout"
  obtains p pv' m' where "target sg s s' = Some p" "reaches W C (config_at (here s) pv m) (config_at p pv' m')" "sim E m' st'"
  using assms unfolding stm_def by blast

lemma stmI:
  assumes "\<And>C s s' pv m st sg st'. wfc s \<Longrightarrow> fresh D s \<Longrightarrow> g s = Done s' \<Longrightarrow> fits W Fs E s' \<Longrightarrow> within C s' \<Longrightarrow> sim E m st \<Longrightarrow>
    f st = Done (sg, st') \<Longrightarrow> sg \<noteq> Timeout \<Longrightarrow>
    \<exists>p pv' m'. target sg s s' = Some p \<and> reaches W C (config_at (here s) pv m) (config_at p pv' m') \<and> sim E m' st'"
  shows "stm W Fs E D g f"
  unfolding stm_def using assms by blast

text \<open>Straight-line code.\<close>

lemma rv_stm:
  assumes rv: "rv W Fs E g ev" "makes g"
  shows "stm W Fs E {} (\<lambda>s. bind_out (g s) (\<lambda>(_, s). Done s)) (\<lambda>st. bind_out (ev st) (\<lambda>(_, st). Done (Normal, st)))"
proof (rule stmI)
  fix C s s' pv m st sg st'
  assume w: "wfc s" and "bind_out (g s) (\<lambda>(_, s). Done s) = Done s'" and f: "fits W Fs E s'" and c: "within C s'" and sim: "sim E m st"
    and "bind_out (ev st) (\<lambda>(_, st). Done (Normal, st)) = Done (sg, st')"
  then obtain v a where h: "g s = Done (v, s')" "ev st = Done (a, st')" "sg = Normal" by (auto elim!: bind_out_DoneE)
  have m: "made s v s'" by (rule wf_makes [OF rv(2) h(1) w])
  have "\<not> inLHS s" using w by (simp add: wfc_def)
  then obtain m' where m': "does W s m s' m'" "sim E m' st'"
    using rvD [OF rv(1) h(1,2) sim fits_ctx [OF fits_made(1) [OF f m w]] _ fits_made(2) [OF f m w]] by blast
  show "\<exists>p pv' m'. target sg s s' = Some p \<and> reaches W C (config_at (here s) pv m) (config_at p pv' m') \<and> sim E m' st'"
    using does_reaches [OF m'(1) c] m'(2) h(3) by auto
qed

lemma assigned_effect:
  assumes "lval l"
  shows "exec W Fs n (StmtAssign None l r) = (\<lambda>st. bind_out (assigned W (leval W Fs l) (eval W Fs r) st) (\<lambda>(_, st). Done (Normal, st)))"
    and "exec W Fs n (StmtAssign (Some op) l r) = (\<lambda>st. bind_out (op_assigned W Fs op l (eval W Fs r) st) (\<lambda>(_, st). Done (Normal, st)))"
proof -
  show "exec W Fs n (StmtAssign None l r) = (\<lambda>st. bind_out (assigned W (leval W Fs l) (eval W Fs r) st) (\<lambda>(_, st). Done (Normal, st)))"
    by (rule ext) (simp add: assigned_def bind_out_assoc split_def)
  show "exec W Fs n (StmtAssign (Some op) l r) = (\<lambda>st. bind_out (op_assigned W Fs op l (eval W Fs r) st) (\<lambda>(_, st). Done (Normal, st)))"
    by (rule ext) (simp add: op_assigned_def bind_out_assoc split_def)
qed

lemma push_stm:
  assumes e: "simple e"
  shows "stm W Fs E {} (visitStmtPush (gen_expr e)) (exec W Fs n (StmtPush e))"
proof (rule stmI)
  fix C s s' pv m st sg st'
  assume w: "wfc s" and g: "visitStmtPush (gen_expr e) s = Done s'" and f: "fits W Fs E s'" and c: "within C s'" and sim: "sim E m st"
    and ev: "exec W Fs n (StmtPush e) st = Done (sg, st')"
  obtain v s1 p s2 s3 where h: "gen_expr e s = Done (v, s1)" "CreateAlloca (typ_of v) s1 = Done (p, s2)" "CreateStore (currentBB s2) v p s2 = Done s3"
      "s' = emit (currentBB s3) (IPush p) s3"
    using g by (auto simp: visitStmtPush_def elim!: bind_out_DoneE)
  obtain a st1 where a: "eval W Fs e st = Done (a, st1)" "st' = st1\<lparr>s_outs := s_outs st1 @ [a]\<rparr>" "sg = Normal"
    using ev by (auto elim!: bind_out_DoneE split: if_splits)
  have m: "made s v s1" by (rule wf_makes [OF simple_makes [OF e] h(1) w])
  have w1: "wfc s1" by (rule made_wf [OF m w])
  have m2: "made s1 p s2" by (rule CreateAlloca_made [OF h(2)])
  have e3: "extends s2 [IStore v p] s3" "inLHS s3 = inLHS s2" using CreateStore_extends [OF h(3)] by simp_all
  have e4: "extends s3 [IPush p] s'" unfolding h(4) by (rule emit_extends)
  obtain is2 where "extends s1 is2 s2" using m2 by (auto simp: made_def)
  then have e14: "extends s1 (is2 @ [IStore v p, IPush p]) s'" using extends_trans [OF extends_trans [OF _ e3(1)] e4] by fastforce
  have f1: "fits W Fs E s1" and n1: "no_slots E (nslot s1) (nslot s')" and c1: "within C s1"
    using fits_extends [OF f e14 w1] within_extends [OF c e14] .
  obtain m1 where m1: "reaches W C (config_at (here s) pv m) (config_at (here s1) pv m1)" "sim E m1 st1" "opval W m1 v = a" "has_type (typ_of v) a"
    using expr_reaches [OF e h(1) w f1 c1 sim a(1)] .
  have p: "p = OSlot (nslot s1) (typ_of v)" "nslot s2 = Suc (nslot s1)" using alloca [OF h(2)] by simp_all
  let ?m = "m1\<lparr>mem := (mem m1)(RSlot (nslot s1) := a)\<rparr>"
  have "does W s2 m1 s3 ?m" using p(1) m1(3) by (intro store_does [OF h(3) refl]) (simp_all add: store_to_def)
  then have d: "does W s1 m1 s3 ?m" by (rule does_trans [OF does_alloca [OF h(2)]])
  have "exec_instr W (IPush p) ?m = Done (?m\<lparr>outs := outs m1 @ [a]\<rparr>)" using p(1) by (simp add: load_from_def)
  then have "does W s3 ?m s' (?m\<lparr>outs := outs m1 @ [a]\<rparr>)" unfolding h(4) by (intro emit_does) simp_all
  then have r: "reaches W C (config_at (here s1) pv m1) (config_at (here s') pv (?m\<lparr>outs := outs m1 @ [a]\<rparr>))" by (rule does_reaches [OF does_trans [OF d] c])
  have "nslot s' = Suc (nslot s1)" using extends_sel(9) [OF e3(1)] h(3,4) p(2) by (auto simp: CreateStore_def split: if_splits)
  then have "sim E ?m st1" using sim_temp [OF m1(2)] n1 by simp
  then have "sim E (?m\<lparr>outs := outs m1 @ [a]\<rparr>) st'" using a(2) by (simp add: sim_def)
  then show "\<exists>p pv' m'. target sg s s' = Some p \<and> reaches W C (config_at (here s) pv m) (config_at p pv' m') \<and> sim E m' st'"
    using reaches_trans [OF m1(1) r] a(3) by auto
qed

text \<open>Jumps.\<close>

lemma jump_stm:
  "stm W Fs E {} visitStmtBreak (exec W Fs n StmtBreak)" "stm W Fs E {} visitStmtContinue (exec W Fs n StmtContinue)"
proof -
  have j: "\<exists>k. t = Some k \<and> reaches W C (config_at (here s) pv m) (config_at (k, 0) (currentBB s) m)"
    if "CreateBr (currentBB s) t s = Done s1" "within C (s1\<lparr>nblk := k', currentBB := k''\<rparr>)" for C s s1 t k' k'' pv and m :: "'a ist"
  proof -
    note h = that
    obtain k where k: "t = Some k" using CreateBr_extends [OF h(1)] by blast
    then show ?thesis using br_reaches [of "currentBB s" k s s1] h within_same [of "s1\<lparr>nblk := k', currentBB := k''\<rparr>" s1 C] by simp
  qed
  show "stm W Fs E {} visitStmtBreak (exec W Fs n StmtBreak)"
    by (rule stmI) (fastforce dest!: jump_out(1) j)
  show "stm W Fs E {} visitStmtContinue (exec W Fs n StmtContinue)"
    by (rule stmI) (fastforce dest!: jump_out(2) j)
qed

text \<open>Sequences and scopes.\<close>

lemma seq_stm:
  assumes g: "stm W Fs E D g f" "grower D l1 g" and h: "stm W Fs E D' h f'" "grower D' l2 h" and d: "D \<inter> D' = {}"
    and k: "\<And>st sg st'. l1 \<Longrightarrow> f' st = Done (sg, st') \<Longrightarrow> sg \<noteq> Continues"
  shows "stm W Fs E (D \<union> D') (\<lambda>s. bind_out (g s) h) (\<lambda>st. bind_out (f st) (\<lambda>(sg, st). if sg = Normal then f' st else Done (sg, st)))"
proof (rule stmI)
  fix C s s' pv m st sg st'
  assume w: "wfc s" and fr: "fresh (D \<union> D') s" and gh: "bind_out (g s) h = Done s'" and ft: "fits W Fs E s'" and c: "within C s'" and sim: "sim E m st"
    and ev: "bind_out (f st) (\<lambda>(sg, st). if sg = Normal then f' st else Done (sg, st)) = Done (sg, st')" and t: "sg \<noteq> Timeout"
  obtain s1 where s1: "g s = Done s1" "h s1 = Done s'" using gh by (auto elim!: bind_out_DoneE)
  note a = growerD [OF g(2) s1(1) w fresh_sub [OF fr Un_upper1]]
  have f1: "fresh D' s1" by (rule fresh_grows [OF a(2) fresh_sub [OF fr Un_upper2] d])
  note b = growerD [OF h(2) s1(2) a(1) f1]
  have ft1: "fits W Fs E s1" by (rule fits_back [OF ft b(2) a(1) f1])
  have c1: "within C s1" by (rule within_back [OF c b(2)])
  obtain sg1 st1 where e1: "f st = Done (sg1, st1)" "(if sg1 = Normal then f' st1 else Done (sg1, st1)) = Done (sg, st')"
    using ev by (auto elim!: bind_out_DoneE)
  have t1: "sg1 \<noteq> Timeout" using e1(2) t by (auto split: if_splits)
  obtain p pv1 m1 where p: "target sg1 s s1 = Some p" "reaches W C (config_at (here s) pv m) (config_at p pv1 m1)" "sim E m1 st1"
    using stmD [OF g(1) w fresh_sub [OF fr Un_upper1] s1(1) ft1 c1 sim e1(1) t1] .
  show "\<exists>p pv' m'. target sg s s' = Some p \<and> reaches W C (config_at (here s) pv m) (config_at p pv' m') \<and> sim E m' st'"
  proof (cases "sg1 = Normal")
    case False
    then have q: "sg = sg1" "st' = st1" using e1(2) by simp_all
    then have "target sg s s' = Some p" using False p(1) by (cases sg1) simp_all
    then show ?thesis using p q by blast
  next
    case True
    then have e2: "f' st1 = Done (sg, st')" and p1: "p = here s1" using e1(2) p(1) by simp_all
    obtain q pv2 m2 where q: "target sg s1 s' = Some q" "reaches W C (config_at (here s1) pv1 m1) (config_at q pv2 m2)" "sim E m2 st'"
      using stmD [OF h(1) a(1) f1 s1(2) ft c p(3) e2 t] .
    have "target sg s s' = Some q" using q(1) a(3,4) k [OF _ e2] by (cases sg) auto
    then show ?thesis using reaches_trans [OF p(2)] q(2,3) p1 by blast
  qed
qed

lemma sim_leave: "sim E m st \<Longrightarrow> sim E m (leave st0 st)"
  by (auto simp: sim_def leave_def split: if_splits)

lemma scoped_stm: "stm W Fs E D g f \<Longrightarrow> stm W Fs E D g (scoped f)"
proof (rule stmI)
  fix C s s' pv m st sg st'
  assume g: "stm W Fs E D g f" and h: "wfc s" "fresh D s" "g s = Done s'" "fits W Fs E s'" "within C s'" "sim E m st"
    and "scoped f st = Done (sg, st')" and t: "sg \<noteq> Timeout"
  then obtain st1 where e: "f st = Done (sg, st1)" "st' = leave st st1" by (auto simp: scoped_def elim!: bind_out_DoneE)
  obtain p pv1 m1 where p: "target sg s s' = Some p" "reaches W C (config_at (here s) pv m) (config_at p pv1 m1)" "sim E m1 st1"
    using stmD [OF g h e(1) t] .
  then show "\<exists>p pv' m'. target sg s s' = Some p \<and> reaches W C (config_at (here s) pv m) (config_at p pv' m') \<and> sim E m' st'"
    using sim_leave [OF p(3)] e(2) by blast
qed

text \<open>Declarations.\<close>

definition init_val :: "'f world \<Rightarrow> filter_spec \<Rightarrow> ty \<Rightarrow> 'f expr option \<Rightarrow> 'f sst \<Rightarrow> (unit, 'f val \<times> 'f sst) outcome" where
  "init_val W Fs t init s =
     (case init of None \<Rightarrow> Done (zero_val W t, s)
      | Some e \<Rightarrow> bind_out (eval W Fs e s) (\<lambda>(v, s). bind_out (conv W t v) (\<lambda>u. Done (u, s))))"

lemma store_slot:
  assumes "CreateStore (currentBB s) u (OSlot k t) s = Done s'" and "sim E m st" and "opval W m u = v" and "has_type t v"
    and "E x = Some (RSlot k, t)" and "apart_roots E"
  shows "\<exists>m'. does W s m s' m' \<and> sim E m' (st\<lparr>vars := (vars st)(x \<mapsto> (t, v))\<rparr>)"
proof -
  let ?m = "m\<lparr>mem := (mem m)(RSlot k := v)\<rparr>"
  have "does W s m s' ?m" using assms(3) by (intro store_does [OF assms(1) refl]) (simp_all add: store_to_def)
  then show ?thesis using sim_write [OF assms(2,5,6,4)] by blast
qed

lemma init_does:
  assumes i: "init_of (OSlot k t) t init s1 = Done s2" and si: "case init of None \<Rightarrow> True | Some e \<Rightarrow> simple e" and w: "wfc s1"
    and c: "ctx W Fs E s1" and n: "no_slots E (nslot s1) (nslot s2)" and x: "E x = Some (RSlot k, t)"
    and sim: "sim E m st" and ev: "init_val W Fs t init st = Done (v, st1)"
  shows "\<exists>m'. does W s1 m s2 m' \<and> sim E m' (st1\<lparr>vars := (vars st1)(x \<mapsto> (t, v))\<rparr>)"
proof (cases init)
  case None
  then have h: "CreateStore (currentBB s1) (ONull t) (OSlot k t) s1 = Done s2" and v: "v = zero_val W t" "st1 = st"
    using i ev by (simp_all add: init_of_def init_val_def)
  show ?thesis unfolding v using ctxD [OF c] by (intro store_slot [OF h sim _ zero_has_type x]) simp_all
next
  case (Some e)
  then obtain a s3 u s4 where h: "gen_expr e s1 = Done (a, s3)" "matchTypes a t s3 = Done (u, s4)" "CreateStore (currentBB s4) u (OSlot k t) s4 = Done s2"
    using i by (auto simp: init_of_def elim!: bind_out_DoneE)
  obtain b where b: "eval W Fs e st = Done (b, st1)" "conv W t b = Done v" using ev Some by (auto simp: init_val_def elim!: bind_out_DoneE)
  have e: "simple e" using si Some by simp
  have m3: "made s1 a s3" by (rule wf_makes [OF simple_makes [OF e] h(1) w])
  have m4: "made s3 u s4" by (rule matchTypes_made [OF h(2) madeD(11) [OF m3]])
  have m5: "extends s4 [IStore u (OSlot k t)] s2" using CreateStore_extends [OF h(3)] by simp
  have n3: "no_slots E (nslot s1) (nslot s3)" using madeD(9) [OF m4] extends_sel(9) [OF m5] by (intro no_slots_sub [OF n]) simp_all
  have "\<not> inLHS s1" using w by (simp add: wfc_def)
  then obtain ma where ma: "does W s1 m s3 ma" "sim E ma st1" "opval W ma a = b" "has_type (typ_of a) b"
    using rvD [OF simple_rv [OF e] h(1) b(1) sim c _ n3] by blast
  obtain mb where mb: "typ_of u = t" "gives W s3 ma u s4 mb v" using convert_gives [OF h(2) ma(3,4) b(2)] ctxD [OF c] by blast
  have d: "does W s1 m s4 mb" "sim E mb st1" "opval W mb u = v" "has_type t v" using gives_end [OF ma(1,2) mb(2)] mb(1) by simp_all
  have ap: "apart_roots E" using ctxD [OF c] by simp
  show ?thesis using store_slot [OF h(3) d(2,3,4) x ap] does_trans [OF d(1)] by blast
qed

lemma decl_vars_stm:
  assumes "list_all (\<lambda>(t, x, e). plain x \<and> (case e of None \<Rightarrow> True | Some e \<Rightarrow> simple e)) ds" and "distinct (map (\<lambda>(t, x, e). x) ds)"
    and "wfc s" and "fresh (set (map (\<lambda>(t, x, e). x) ds)) s" and "visitStmtVarDecl (currentBB s) ds s = Done s'"
    and "fits W Fs E s'" and "within C s'" and "sim E m st" and "decl_vars W Fs ds st = Done (sg, st')"
  shows "sg = Normal \<and> (\<exists>m'. reaches W C (config_at (here s) pv m) (config_at (here s') pv m') \<and> sim E m' st')"
  using assms
proof (induction ds arbitrary: s m st)
  case Nil
  then show ?case using reaches_refl by auto
next
  case (Cons d ds)
  obtain sty x init where d: "d = (sty, x, init)" by (cases d) auto
  have i: "case init of None \<Rightarrow> True | Some e \<Rightarrow> simple e" "plain x" using Cons.prems(1) d by simp_all
  let ?D = "set (map (\<lambda>(t, x, e). x) ds)"
  obtain t p s1 s2 where h: "convert sty = Done t" "CreateAlloca t s = Done (p, s1)" "init_of p t init s1 = Done s2"
    "visitStmtVarDecl (currentBB s) ds (declare_var x p s2) = Done s'" "wfc s1"
    using decl_split [OF _ refl Cons.prems(3) i(1), of sty x ds s'] Cons.prems(5) d by metis
  obtain v st1 where v: "init_val W Fs t init st = Done (v, st1)" "decl_vars W Fs ds (st1\<lparr>vars := (vars st1)(x \<mapsto> (t, v))\<rparr>) = Done (sg, st')"
    using Cons.prems(9) h(1) d by (auto simp: init_val_def elim!: bind_out_DoneE)
  obtain "is" where e: "extends s1 is s2" "inLHS s2 = inLHS s1" using init_of_extends [OF i(1) h(5,3)] by blast
  let ?s = "declare_var x p s2"
  have mv: "moves {x} 0 (currentBB s) s ?s" by (rule declare_moves [OF Cons.prems(3) i(2) h(2) e])
  then have w3: "wfc ?s" and g3: "grows {x} 0 (currentBB s) s ?s" by (simp_all add: moves_def)
  have m1: "made s p s1" by (rule CreateAlloca_made [OF h(2)])
  have b: "currentBB ?s = currentBB s" using extends_sel(1) [OF e(1)] madeD(1) [OF m1] by simp
  have l: "list_all (\<lambda>(t, x, e). plain x \<and> (case e of None \<Rightarrow> True | Some e \<Rightarrow> simple e)) ds" "distinct (map (\<lambda>(t, x, e). x) ds)" "{x} \<inter> ?D = {}"
    using Cons.prems(1,2) d by auto
  have fx: "fresh {x} s" "fresh ?D s" using Cons.prems(4) d by (auto simp: fresh_def)
  have f3: "fresh ?D ?s" by (rule fresh_grows [OF g3 fx(2) l(3)])
  have v3: "visitStmtVarDecl (currentBB ?s) ds ?s = Done s'" using h(4) b by simp
  have g4: "grows ?D 0 (currentBB ?s) ?s s'" using decl_grower [OF l(1,2) w3 f3 v3, of 0] by (simp add: moves_def)
  have ft3: "fits W Fs E ?s" by (rule fits_back [OF Cons.prems(6) g4 w3 f3])
  have c2: "within C s2" using within_back [OF Cons.prems(7) g4] within_same [of ?s s2] by simp
  have ft: "fits W Fs E s" by (rule fits_back [OF ft3 g3 Cons.prems(3) fx(1)])
  have c1: "ctx W Fs E s1" using ctx_made [OF m1] fits_ctx [OF ft] by simp
  have p: "p = OSlot (nslot s) t" "nslot s1 = Suc (nslot s)" using alloca [OF h(2)] by simp_all
  have ok: "table_ok (symt s2)" using extends_wf [OF e h(5)] by (simp add: wfc_def)
  have ls: "locs ?s = (locs s1)(x \<mapsto> (RSlot (nslot s), t))" unfolding p(1) declare_locs [OF ok i(2)] locs_extends [OF e(1)] ..
  have "map_le (locs ?s) E" using ft3 by (simp add: fits_def ctx_def)
  then have ex: "E x = Some (RSlot (nslot s), t)" unfolding ls by (auto simp: map_le_def dom_def)
  have ns: "no_slots E (nslot s1) (nslot s2)"
    unfolding no_slots_def
  proof (intro allI impI)
    fix y k u assume y: "E y = Some (RSlot k, u)"
    show "k < nslot s1 \<or> nslot s2 \<le> k"
    proof (rule disjCI)
      assume "\<not> nslot s2 \<le> k"
      then have "locs ?s y = Some (RSlot k, u)" using ft3 y by (simp add: fits_def)
      then show "k < nslot s1" using ls p(2) h(5) by (auto simp: wfc_def split: if_splits)
    qed
  qed
  have i1: "init_of (OSlot (nslot s) t) t init s1 = Done s2" using h(3) p(1) by simp
  obtain m2 where m2: "does W s1 m s2 m2" "sim E m2 (st1\<lparr>vars := (vars st1)(x \<mapsto> (t, v))\<rparr>)"
    using init_does [OF i1 i(1) h(5) c1 ns ex Cons.prems(8) v(1)] by blast
  have r: "reaches W C (config_at (here s) pv m) (config_at (here s2) pv m2)"
    by (rule does_reaches [OF does_trans [OF does_alloca [OF h(2)] m2(1)] c2])
  have hs: "here ?s = here s2" by (simp add: here_def)
  have "sg = Normal \<and> (\<exists>m'. reaches W C (config_at (here ?s) pv m2) (config_at (here s') pv m') \<and> sim E m' st')"
    by (rule Cons.IH [OF l(1,2) w3 f3 v3 Cons.prems(6,7) m2(2) v(2)])
  then show ?case using reaches_trans [OF r] hs by auto
qed

subsection \<open>Loops\<close>

text \<open>The blocks of a loop: condition, body, what follows the body in each round, and the end.\<close>

lemma loop_reaches:
  fixes m :: "'f ist"
  assumes cond: "\<And>m st b st1 pv. sim E m st \<Longrightarrow> tst st = Done (b, st1) \<Longrightarrow>
      \<exists>pv1 m1. reaches W C (config_at (cnd, 0) pv m) (config_at (if b then bod else don, 0) pv1 m1) \<and> sim E m1 st1"
    and body: "\<And>m st sg st1 pv. sim E m st \<Longrightarrow> body st = Done (sg, st1) \<Longrightarrow> sg \<noteq> Timeout \<Longrightarrow>
      \<exists>pv1 m1. reaches W C (config_at (bod, 0) pv m) (config_at (if sg = Breaks then don else inc, 0) pv1 m1) \<and> sim E m1 st1"
    and incr: "\<And>m st st1 pv. sim E m st \<Longrightarrow> incr st = Done (Normal, st1) \<Longrightarrow>
      \<exists>pv1 m1. reaches W C (config_at (inc, 0) pv m) (config_at (cnd, 0) pv1 m1) \<and> sim E m1 st1"
  shows "sim E m st \<Longrightarrow> rounds n tst body incr st = Done (sg, st') \<Longrightarrow> sg \<noteq> Timeout \<Longrightarrow>
    sg = Normal \<and> (\<exists>pv' m'. reaches W C (config_at (cnd, 0) pv m) (config_at (don, 0) pv' m') \<and> sim E m' st')"
proof (induction n arbitrary: m st pv)
  case (Suc n)
  obtain b st1 where b: "tst st = Done (b, st1)" using Suc.prems(2) by (auto elim!: bind_out_DoneE)
  obtain pv1 m1 where r1: "reaches W C (config_at (cnd, 0) pv m) (config_at (if b then bod else don, 0) pv1 m1)" "sim E m1 st1"
    using cond [OF Suc.prems(1) b] by blast
  show ?case
  proof (cases b)
    case False
    then have "sg = Normal" "st' = st1" using Suc.prems(2) b by simp_all
    then show ?thesis using r1 False by auto
  next
    case True
    obtain g st2 where g: "body st1 = Done (g, st2)" using Suc.prems(2) b True by (auto elim!: bind_out_DoneE)
    have gt: "g \<noteq> Timeout" using Suc.prems(2,3) b True g by auto
    obtain pv2 m2 where r2: "reaches W C (config_at (bod, 0) pv1 m1) (config_at (if g = Breaks then don else inc, 0) pv2 m2)" "sim E m2 st2"
      using body [OF r1(2) g gt] by blast
    have r12: "reaches W C (config_at (cnd, 0) pv m) (config_at (if g = Breaks then don else inc, 0) pv2 m2)"
      using reaches_trans [of W C _ _ _] r1(1) r2(1) True by (metis (full_types))
    show ?thesis
    proof (cases "g = Breaks")
      case True
      then have "sg = Normal" "st' = st2" using Suc.prems(2) b g \<open>b\<close> by simp_all
      then show ?thesis using r12 r2(2) True by auto
    next
      case False
      obtain g3 st3 where g3: "incr st2 = Done (g3, st3)" using Suc.prems(2) b g \<open>b\<close> False gt by (auto elim!: bind_out_DoneE)
      have n: "g3 = Normal" "rounds n tst body incr st3 = Done (sg, st')" using Suc.prems(2,3) b g \<open>b\<close> False gt g3 by (auto split: if_splits)
      obtain pv3 m3 where r3: "reaches W C (config_at (inc, 0) pv2 m2) (config_at (cnd, 0) pv3 m3)" "sim E m3 st3"
        using incr [OF r2(2)] g3 n(1) by blast
      have "reaches W C (config_at (cnd, 0) pv m) (config_at (cnd, 0) pv3 m3)" using r12 r3(1) False reaches_trans by fastforce
      then show ?thesis using Suc.IH [OF r3(2) n(2) Suc.prems(3)] reaches_trans by blast
    qed
  qed
qed simp

text \<open>What is known of the end of the function, at an earlier state.\<close>

definition ends :: "'f world \<Rightarrow> filter_spec \<Rightarrow> locations \<Rightarrow> (nat \<Rightarrow> 'f instr list) \<Rightarrow> 'f cg \<Rightarrow> bool" where
  "ends W Fs E C s \<longleftrightarrow> fits W Fs E s \<and> within C s"

lemma ends_same:
  "code s' = code s \<Longrightarrow> symt s' = symt s \<Longrightarrow> state_ty s' = state_ty s \<Longrightarrow> in_type s' = in_type s \<Longrightarrow> nslot s' = nslot s \<Longrightarrow>
    ends W Fs E C s' = ends W Fs E C s"
  using fits_same [of s' s] within_same [of s' s] by (simp add: ends_def)

lemma ends_upd [simp]:
  "ends W Fs E C (s\<lparr>currentBB := b\<rparr>) = ends W Fs E C s" "ends W Fs E C (s\<lparr>breakBB := o1\<rparr>) = ends W Fs E C s"
  "ends W Fs E C (s\<lparr>continueBB := o1\<rparr>) = ends W Fs E C s" "ends W Fs E C (s\<lparr>nblk := k\<rparr>) = ends W Fs E C s"
  by (rule ends_same; simp)+

lemma ends_extends: "ends W Fs E C s' \<Longrightarrow> extends s is s' \<Longrightarrow> wfc s \<Longrightarrow> ends W Fs E C s"
  unfolding ends_def using fits_extends(1) within_extends by blast

lemma ends_br: "ends W Fs E C s' \<Longrightarrow> CreateBr (currentBB s) t s = Done s' \<Longrightarrow> wfc s \<Longrightarrow> ends W Fs E C s"
  using CreateBr_extends ends_extends by blast

lemma ends_cond:
  assumes "ends W Fs E C s'" and "makes gc" and "wfc t" and "gc t = Done (v, s3)" "branch_on b v x y s3 = Done s'" and "b = currentBB t"
  shows "ends W Fs E C t"
  using cond_extends(1) [OF assms(2-6)] ends_extends [OF assms(1)] assms(3) by blast

lemma ends_gen: "ends W Fs E C s' \<Longrightarrow> grower D lp g \<Longrightarrow> g s = Done s' \<Longrightarrow> wfc s \<Longrightarrow> fresh D s \<Longrightarrow> ends W Fs E C s"
  unfolding ends_def using growerD(2) fits_back within_back by metis

text \<open>Blocks that were not written to.\<close>

lemma br_code: "CreateBr (currentBB s) t s = Done s' \<Longrightarrow> b \<noteq> currentBB s \<Longrightarrow> code s' b = code s b"
  using CreateBr_extends extends_sel(10) by fastforce

lemma cond_code:
  assumes "makes gc" and "wfc t" and "gc t = Done (v, s3)" "branch_on b v x y s3 = Done s'" and "b = currentBB t" and "k \<noteq> currentBB t"
  shows "code s' k = code t k"
  using cond_extends(1) [OF assms(1-5)] extends_sel(10) assms(6) by fastforce

lemma moves_fresh: "moves {} n c s t \<Longrightarrow> fresh D s \<Longrightarrow> fresh D t"
  using fresh_grows [of "{}" n c s t D] by (simp add: moves_def)

text \<open>The body of a loop and the branch after it.\<close>

lemma body_reaches:
  assumes b: "stm W Fs E D gb f" and w: "wfc t" "fresh D t" and h: "gb t = Done s5" "CreateBr (currentBB s5) (Some i) s5 = Done s6"
    and e: "ends W Fs E C s5" "ends W Fs E C s6" and z: "here t = (k, 0)" and d: "breakBB t = Some d" "continueBB t = Some i"
    and run: "sim E m st" "f st = Done (sg, st1)" "sg \<noteq> Timeout"
  shows "\<exists>pv1 m1. reaches W C (config_at (k, 0) pv m) (config_at (if sg = Breaks then d else i, 0) pv1 m1) \<and> sim E m1 st1"
proof -
  have e': "fits W Fs E s5" "within C s5" "within C s6" using e by (simp_all add: ends_def)
  obtain p pv1 m1 where p: "target sg t s5 = Some p" "reaches W C (config_at (k, 0) pv m) (config_at p pv1 m1)" "sim E m1 st1"
    using stmD [OF b w h(1) e'(1,2) run, of pv] unfolding z .
  have r: "reaches W C (config_at (here s5) pv1 m1) (config_at (i, 0) (currentBB s5) m1)" by (rule br_reaches [OF h(2) refl e'(3)])
  show ?thesis
  proof (cases sg)
    case Normal
    then show ?thesis using reaches_trans [OF p(2)] r p(1,3) by auto
  next
    case Timeout
    then show ?thesis using run(3) by simp
  qed (use p d in auto)
qed

lemma loop_cond:
  assumes e: "simple e" and h: "gen_expr e t = Done (v, s3)" "branch_on k v x y s3 = Done s4" and w: "wfc t" and d: "ends W Fs E C s4"
    and z: "here t = (k, 0)" and sim: "sim E m st" and ev: "test W Fs e st = Done (b, st1)"
  shows "\<exists>pv1 m1. reaches W C (config_at (k, 0) pv m) (config_at (if b then x else y, 0) pv1 m1) \<and> sim E m1 st1"
proof -
  have k: "k = currentBB t" using z by (simp add: here_def)
  have d': "fits W Fs E s4" "within C s4" using d by (simp_all add: ends_def)
  obtain m1 where "reaches W C (config_at (here t) pv m) (config_at (if b then x else y, 0) k m1)" "sim E m1 st1"
    using cond_reaches [OF e h k w d' sim ev] .
  then show ?thesis unfolding z by blast
qed

lemma skip_reaches:
  fixes m :: "'f ist"
  assumes "sim E m st" and "skip st = Done (Normal, st1)"
  shows "\<exists>pv1 m1. reaches W C (config_at p pv m) (config_at p pv1 m1) \<and> sim E m1 st1"
proof -
  have "sim E m st1" using assms by (simp add: skip_def)
  then show ?thesis using reaches_refl [of W C "config_at p pv m"] by blast
qed

lemma br_start:
  assumes "CreateBr (currentBB s) (Some k) (s\<lparr>nblk := n\<rparr>) = Done s2" and "ends W Fs E C s2"
  shows "reaches W C (config_at (here s) pv m) (config_at (k, 0) (currentBB s) m)"
proof -
  have "within C s2" using assms(2) by (simp add: ends_def)
  from br_reaches [OF assms(1) _ this, of W pv m] show ?thesis by (simp add: here_def)
qed

lemma while_stm:
  assumes c: "simple e" and b: "stm W Fs E D gb f" "grower D lp gb"
  shows "stm W Fs E D (visitStmtWhile (gen_expr e) gb) (rounds n (test W Fs e) f skip)"
proof (rule stmI)
  fix C s s' pv m st sg st'
  assume w: "wfc s" and fr: "fresh D s" and g: "visitStmtWhile (gen_expr e) gb s = Done s'" and ft: "fits W Fs E s'" and wi: "within C s'"
    and sim: "sim E m st" and ev: "rounds n (test W Fs e) f skip st = Done (sg, st')" and t: "sg \<noteq> Timeout"
  obtain s2 v s3 s4 s5 s6 where h: "CreateBr (currentBB s) (Some (nblk s)) (s\<lparr>nblk := nblk s + 3\<rparr>) = Done s2"
    "gen_expr e (s2\<lparr>currentBB := nblk s\<rparr>) = Done (v, s3)" "branch_on (nblk s) v (nblk s + 1) (nblk s + 2) s3 = Done s4"
    "gb (s4\<lparr>breakBB := Some (nblk s + 2), continueBB := Some (nblk s), currentBB := nblk s + 1\<rparr>) = Done s5"
    "CreateBr (currentBB s5) (Some (nblk s)) s5 = Done s6" "s' = s6\<lparr>breakBB := None, currentBB := nblk s + 2\<rparr>"
    using while_split [OF g] .
  let ?m = "\<lambda>D. moves D (nblk s) (currentBB s) s" and ?k = "nblk s"
  let ?s1 = "s\<lparr>nblk := ?k + 3\<rparr>" and ?s2 = "s2\<lparr>currentBB := ?k\<rparr>" and ?s4 = "s4\<lparr>breakBB := Some (?k + 2), continueBB := Some ?k, currentBB := ?k + 1\<rparr>"
  note mk = simple_makes [OF c]
  have cb: "currentBB s < ?k" using w by (simp add: wfc_def)
  have 1: "?m {} ?s1" using cb by (intro moves_same [OF moves_refl [OF w]]) simp_all
  note 2 = moves_br [OF 1 h(1)]
  have 3: "?m {} ?s2" using 2(2) by (intro moves_same [OF 2(1)]) simp_all
  note 4 = moves_cond [OF 3 mk h(2,3)]
  have 5: "?m {} ?s4" using 2(2) 4(2) by (intro moves_same [OF 4(1)]) simp_all
  have 6: "?m D s5" by (rule moves_gen1 [OF 5 b(2) h(4) fr order_refl])
  have ws: "wfc ?s1" "wfc ?s2" "wfc ?s4" "wfc s5" using 1 3 5 6 by (simp_all add: moves_def)
  have f4: "fresh D ?s4" by (rule moves_fresh [OF 5 fr])
  have n4: "nblk s4 = ?k + 3" using 2(2) 4(2) by simp
  note g5 = growerD(2) [OF b(2) h(4) ws(3) f4]
  have "ends W Fs E C s'" using ft wi by (simp add: ends_def)
  then have e6: "ends W Fs E C s6" using h(6) by simp
  have e5: "ends W Fs E C s5" by (rule ends_br [OF e6 h(5) ws(4)])
  have e4: "ends W Fs E C s4" using ends_gen [OF e5 b(2) h(4) ws(3) f4] by simp
  have e2: "ends W Fs E C s2" using ends_cond [OF e4 mk ws(2) h(2,3)] by simp
  text \<open>The new blocks are empty when they are reached.\<close>
  have z: "code s j = []" if "?k \<le> j" for j using w that by (simp add: wfc_def)
  have z2: "code s2 j = []" if "?k \<le> j" for j using br_code [of ?s1 "Some ?k" s2 j] h(1) z [OF that] cb that by simp
  have z4: "code s4 j = []" if "?k < j" for j using cond_code [OF mk ws(2) h(2,3), of j] z2 [of j] that by simp
  have b5: "currentBB s5 \<noteq> ?k + 2" using growsD(5) [OF g5] n4 by auto
  have "code s5 (?k + 2) = []" using growsD(4) [OF g5, of "?k + 2"] n4 z4 [of "?k + 2"] by simp
  then have z6: "code s6 (?k + 2) = []" using br_code [OF h(5)] b5 by metis
  have hr: "here ?s2 = (?k, 0)" "here ?s4 = (?k + 1, 0)" "here s' = (?k + 2, 0)" using z2 z4 z6 h(6) by (simp_all add: here_def)
  note r0 = br_start [OF h(1) e2, of pv m]
  have cond: "\<exists>pv1 m1. reaches W C (config_at (?k, 0) pv m) (config_at (if b then ?k + 1 else ?k + 2, 0) pv1 m1) \<and> sim E m1 st1"
    if "sim E m st" "test W Fs e st = Done (b, st1)" for m st b st1 pv
    by (rule loop_cond [OF c h(2,3) ws(2) e4 hr(1) that])
  have body: "\<exists>pv1 m1. reaches W C (config_at (?k + 1, 0) pv m) (config_at (if sg = Breaks then ?k + 2 else ?k, 0) pv1 m1) \<and> sim E m1 st1"
    if "sim E m st" "f st = Done (sg, st1)" "sg \<noteq> Timeout" for m st sg st1 pv
    by (rule body_reaches [OF b(1) ws(3) f4 h(4,5) e5 e6 hr(2) _ _ that]) simp_all
  have "sg = Normal \<and> (\<exists>pv' m'. reaches W C (config_at (?k, 0) (currentBB s) m) (config_at (?k + 2, 0) pv' m') \<and> sim E m' st')"
    by (rule loop_reaches [OF cond body skip_reaches sim ev t])
  then show "\<exists>p pv' m'. target sg s s' = Some p \<and> reaches W C (config_at (here s) pv m) (config_at p pv' m') \<and> sim E m' st'"
    using reaches_trans [OF r0] hr(3) by auto
qed

lemma do_stm:
  assumes c: "simple e" and b: "stm W Fs E D gb f" "grower D lp gb" "stays D gb"
  shows "stm W Fs E D (visitStmtDoWhile gb (gen_expr e)) (do_rounds n (test W Fs e) f)"
proof (rule stmI)
  fix C s s' pv m st sg st'
  assume w: "wfc s" and fr: "fresh D s" and g: "visitStmtDoWhile gb (gen_expr e) s = Done s'" and ft: "fits W Fs E s'" and wi: "within C s'"
    and sim: "sim E m st" and ev: "do_rounds n (test W Fs e) f st = Done (sg, st')" and t: "sg \<noteq> Timeout"
  obtain s2 s3 s4 v s5 s6 where h: "CreateBr (currentBB s) (Some (nblk s)) (s\<lparr>nblk := nblk s + 3\<rparr>) = Done s2"
    "gb (s2\<lparr>breakBB := Some (nblk s + 2), continueBB := Some (nblk s + 1), currentBB := nblk s\<rparr>) = Done s3"
    "CreateBr (currentBB s3) (Some (nblk s + 1)) s3 = Done s4" "gen_expr e (s4\<lparr>breakBB := None, currentBB := nblk s + 1\<rparr>) = Done (v, s5)"
    "branch_on (nblk s + 1) v (currentBB s3) (nblk s + 2) s5 = Done s6" "s' = s6\<lparr>currentBB := nblk s + 2\<rparr>"
    using do_split [OF g] .
  let ?m = "\<lambda>D. moves D (nblk s) (currentBB s) s" and ?k = "nblk s"
  let ?s1 = "s\<lparr>nblk := ?k + 3\<rparr>" and ?s2 = "s2\<lparr>breakBB := Some (?k + 2), continueBB := Some (?k + 1), currentBB := ?k\<rparr>"
    and ?s4 = "s4\<lparr>breakBB := None, currentBB := ?k + 1\<rparr>"
  note mk = simple_makes [OF c]
  have cb: "currentBB s < ?k" using w by (simp add: wfc_def)
  have 1: "?m {} ?s1" using cb by (intro moves_same [OF moves_refl [OF w]]) simp_all
  note 2 = moves_br [OF 1 h(1)]
  have 3: "?m {} ?s2" using 2(2) by (intro moves_same [OF 2(1)]) simp_all
  have 4: "?m D s3" by (rule moves_gen1 [OF 3 b(2) h(2) fr order_refl])
  have n3: "?k + 3 \<le> nblk s3" using gen_blocks(1) [OF 3 b(2) h(2) fr] 2(2) by simp
  note 5 = moves_br [OF 4 h(3) refl]
  have 6: "?m D ?s4" using n3 5(2) by (intro moves_same [OF 5(1)]) simp_all
  have ws: "wfc ?s1" "wfc ?s2" "wfc s3" "wfc ?s4" using 1 3 4 6 by (simp_all add: moves_def)
  have f2: "fresh D ?s2" by (rule moves_fresh [OF 3 fr])
  note g3 = growerD(2) [OF b(2) h(2) ws(2) f2]
  have b3: "currentBB s3 = ?k" using staysD [OF b(3) h(2) ws(2) f2] by simp
  have "ends W Fs E C s'" using ft wi by (simp add: ends_def)
  then have e6: "ends W Fs E C s6" using h(6) by simp
  have e4: "ends W Fs E C s4" using ends_cond [OF e6 mk ws(4) h(4,5)] by simp
  have e3: "ends W Fs E C s3" by (rule ends_br [OF e4 h(3) ws(3)])
  have e2: "ends W Fs E C s2" using ends_gen [OF e3 b(2) h(2) ws(2) f2] by simp
  have z: "code s j = []" if "?k \<le> j" for j using w that by (simp add: wfc_def)
  have z2: "code s2 j = []" if "?k \<le> j" for j using br_code [of ?s1 "Some ?k" s2 j] h(1) z [OF that] cb that by simp
  have z3: "code s3 j = []" if "j = ?k + 1 \<or> j = ?k + 2" for j using growsD(4) [OF g3, of j] z2 [of j] that 2(2) by auto
  have z4: "code s4 j = []" if "j = ?k + 1 \<or> j = ?k + 2" for j using br_code [OF h(3), of j] z3 [OF that] that b3 by auto
  have z6: "code s6 (?k + 2) = []" using cond_code [OF mk ws(4) h(4,5), of "?k + 2"] z4 by simp
  have hr: "here ?s2 = (?k, 0)" "here ?s4 = (?k + 1, 0)" "here s' = (?k + 2, 0)" using z2 z4 z6 h(6) by (simp_all add: here_def)
  note r0 = br_start [OF h(1) e2, of pv m]
  have cond: "\<exists>pv1 m1. reaches W C (config_at (?k + 1, 0) pv m) (config_at (if b then ?k else ?k + 2, 0) pv1 m1) \<and> sim E m1 st1"
    if "sim E m st" "test W Fs e st = Done (b, st1)" for m st b st1 pv
    using loop_cond [OF c h(4,5) ws(4) e6 hr(2) that, of pv] unfolding b3 .
  have body: "\<exists>pv1 m1. reaches W C (config_at (?k, 0) pv m) (config_at (if sg = Breaks then ?k + 2 else ?k + 1, 0) pv1 m1) \<and> sim E m1 st1"
    if "sim E m st" "f st = Done (sg, st1)" "sg \<noteq> Timeout" for m st sg st1 pv
    by (rule body_reaches [OF b(1) ws(2) f2 h(2,3) e3 e4 hr(1) _ _ that]) simp_all
  obtain g st1 where g1: "f st = Done (g, st1)" using ev by (auto simp: do_rounds_def elim!: bind_out_DoneE)
  have gt: "g \<noteq> Timeout" using ev g1 t by (auto simp: do_rounds_def)
  obtain pv1 m1 where r1: "reaches W C (config_at (?k, 0) (currentBB s) m) (config_at (if g = Breaks then ?k + 2 else ?k + 1, 0) pv1 m1)" "sim E m1 st1"
    using body [OF sim g1 gt] by blast
  have "sg = Normal \<and> (\<exists>pv' m'. reaches W C (config_at (?k, 0) (currentBB s) m) (config_at (?k + 2, 0) pv' m') \<and> sim E m' st')"
  proof (cases "g = Breaks")
    case True
    then show ?thesis using ev g1 r1 by (auto simp: do_rounds_def)
  next
    case False
    then have ev1: "rounds n (test W Fs e) f skip st1 = Done (sg, st')" using ev g1 gt by (simp add: do_rounds_def)
    show ?thesis using loop_reaches [OF cond body skip_reaches r1(2) ev1 t, where pv = pv1] r1(1) False reaches_trans by fastforce
  qed
  then show "\<exists>p pv' m'. target sg s s' = Some p \<and> reaches W C (config_at (here s) pv m) (config_at p pv' m') \<and> sim E m' st'"
    using reaches_trans [OF r0] hr(3) by auto
qed

lemma for_stm:
  assumes i: "stm W Fs E Di gi fi" "grower Di l1 gi" "stays Di gi" and c: "simple e" and b: "stm W Fs E D gb f" "grower D l2 gb"
    and n: "stm W Fs E Dn gn fn" "grower Dn l3 gn" and d: "Di \<inter> D = {}" "Di \<inter> Dn = {}" "D \<inter> Dn = {}"
  shows "stm W Fs E (Di \<union> D \<union> Dn) (visitStmtFor gi (gen_expr e) gn gb)
    (\<lambda>st. bind_out (fi st) (\<lambda>(g, st). if g = Normal then rounds k (test W Fs e) f fn st else if g = Timeout then Done (Timeout, st) else Fault))"
proof (rule stmI)
  fix C s s' pv m st sg st'
  assume w: "wfc s" and fr: "fresh (Di \<union> D \<union> Dn) s" and g: "visitStmtFor gi (gen_expr e) gn gb s = Done s'" and ft: "fits W Fs E s'"
    and wi: "within C s'" and sim: "sim E m st" and t: "sg \<noteq> Timeout"
    and ev: "bind_out (fi st) (\<lambda>(g, st). if g = Normal then rounds k (test W Fs e) f fn st else if g = Timeout then Done (Timeout, st) else Fault) = Done (sg, st')"
  obtain s1 s2 v s3 s4 s5 s6 s7 s8 where h: "gi s = Done s1"
    "CreateBr (currentBB s) (Some (nblk s1)) (s1\<lparr>nblk := nblk s1 + 4\<rparr>) = Done s2"
    "gen_expr e (s2\<lparr>currentBB := nblk s1\<rparr>) = Done (v, s3)" "branch_on (nblk s1) v (nblk s1 + 1) (nblk s1 + 3) s3 = Done s4"
    "gb (s4\<lparr>breakBB := Some (nblk s1 + 3), continueBB := Some (nblk s1 + 2), currentBB := nblk s1 + 1\<rparr>) = Done s5"
    "CreateBr (currentBB s5) (Some (nblk s1 + 2)) s5 = Done s6" "gn (s6\<lparr>breakBB := None, currentBB := nblk s1 + 2\<rparr>) = Done s7"
    "CreateBr (currentBB s7) (Some (nblk s1)) s7 = Done s8" "s' = s8\<lparr>currentBB := nblk s1 + 3\<rparr>"
    using for_split [OF g] .
  obtain g1 st1 where g1: "fi st = Done (g1, st1)" using ev by (auto elim!: bind_out_DoneE)
  have gn: "g1 = Normal" "rounds k (test W Fs e) f fn st1 = Done (sg, st')" using ev g1 t by (auto split: if_splits)
  let ?k = "nblk s1"
  let ?m = "\<lambda>D. moves D ?k (currentBB s) s1"
  let ?s1 = "s1\<lparr>nblk := ?k + 4\<rparr>" and ?s2 = "s2\<lparr>currentBB := ?k\<rparr>" and ?s4 = "s4\<lparr>breakBB := Some (?k + 3), continueBB := Some (?k + 2), currentBB := ?k + 1\<rparr>"
    and ?s6 = "s6\<lparr>breakBB := None, currentBB := ?k + 2\<rparr>"
  note mk = simple_makes [OF c]
  have fs: "fresh Di s" "fresh D s" "fresh Dn s" by (rule fresh_sub [OF fr], blast)+
  note a = growerD [OF i(2) h(1) w fs(1)]
  have fs1: "fresh D s1" "fresh Dn s1" using fresh_grows [OF a(2) fs(2) d(1)] fresh_grows [OF a(2) fs(3) d(2)] .
  have cs: "currentBB s1 = currentBB s" by (rule staysD [OF i(3) h(1) w fs(1)])
  have h2: "CreateBr (currentBB s1) (Some ?k) ?s1 = Done s2" using h(2) cs by simp
  have cb: "currentBB s1 < ?k" using a(1) by (simp add: wfc_def)
  have 0: "?m {} s1" using moves_refl [OF a(1)] cs by simp
  have 1: "?m {} ?s1" using cb cs by (intro moves_same [OF 0]) simp_all
  have c1: "currentBB s = currentBB ?s1" using cs by simp
  note 2 = moves_br [OF 1 h(2) c1]
  have 3: "?m {} ?s2" using 2(2) by (intro moves_same [OF 2(1)]) simp_all
  note 4 = moves_cond [OF 3 mk h(3,4)]
  have n4: "nblk s4 = ?k + 4" using 2(2) 4(2) by simp
  have 5: "?m {} ?s4" using n4 by (intro moves_same [OF 4(1)]) simp_all
  have 6: "?m D s5" by (rule moves_gen1 [OF 5 b(2) h(5) fs1(1) order_refl])
  have n5: "?k + 4 \<le> nblk s5" using gen_blocks(1) [OF 5 b(2) h(5) fs1(1)] n4 by simp
  note 7 = moves_br [OF 6 h(6) refl]
  have 8: "?m D ?s6" using n5 7(2) by (intro moves_same [OF 7(1)]) simp_all
  have 9: "?m (D \<union> Dn) s7" by (rule moves_gen [OF 8 n(2) h(7) fs1(2) d(3) order_refl])
  have ws: "wfc ?s2" "wfc ?s4" "wfc s5" "wfc ?s6" "wfc s7" "wfc ?s1" using 1 3 5 6 8 9 by (simp_all add: moves_def)
  have f4: "fresh D ?s4" by (rule moves_fresh [OF 5 fs1(1)])
  have f6: "fresh Dn ?s6" using 8 fresh_grows [OF _ fs1(2) d(3)] by (auto simp: moves_def)
  note g5 = growerD(2) [OF b(2) h(5) ws(2) f4] and g7 = growerD(2) [OF n(2) h(7) ws(4) f6]
  have "ends W Fs E C s'" using ft wi by (simp add: ends_def)
  then have e8: "ends W Fs E C s8" using h(9) by simp
  have e7: "ends W Fs E C s7" by (rule ends_br [OF e8 h(8) ws(5)])
  have e6: "ends W Fs E C s6" using ends_gen [OF e7 n(2) h(7) ws(4) f6] by simp
  have e5: "ends W Fs E C s5" by (rule ends_br [OF e6 h(6) ws(3)])
  have e4: "ends W Fs E C s4" using ends_gen [OF e5 b(2) h(5) ws(2) f4] by simp
  have e2: "ends W Fs E C s2" using ends_cond [OF e4 mk ws(1) h(3,4)] by simp
  have e1: "ends W Fs E C s1" using ends_br [OF e2, of ?s1] h2 ws(6) by simp
  have z: "code s1 j = []" if "?k \<le> j" for j using a(1) that by (simp add: wfc_def)
  have z2: "code s2 j = []" if "?k \<le> j" for j using br_code [of ?s1 "Some ?k" s2 j] h2 z [OF that] cb that by simp
  have z4: "code s4 j = []" if "?k < j" for j using cond_code [OF mk ws(1) h(3,4), of j] z2 [of j] that by simp
  have b5: "currentBB s5 = ?k + 1 \<or> ?k + 4 \<le> currentBB s5" using growsD(5) [OF g5] n4 by simp
  have z5: "code s5 j = []" if "j = ?k + 2 \<or> j = ?k + 3" for j using growsD(4) [OF g5, of j] n4 z4 [of j] that by auto
  have z6: "code s6 j = []" if "j = ?k + 2 \<or> j = ?k + 3" for j using br_code [OF h(6), of j] b5 z5 [OF that] that by auto
  have b7: "currentBB s7 \<noteq> ?k + 3" using growsD(5) [OF g7] n5 7(2) by auto
  have "code s7 (?k + 3) = []" using growsD(4) [OF g7, of "?k + 3"] n5 7(2) z6 by simp
  then have z8: "code s8 (?k + 3) = []" using br_code [OF h(8)] b7 by metis
  have hr: "here ?s2 = (?k, 0)" "here ?s4 = (?k + 1, 0)" "here ?s6 = (?k + 2, 0)" "here s' = (?k + 3, 0)"
    using z2 z4 z6 z8 h(9) by (simp_all add: here_def)
  have cond: "\<exists>pv1 m1. reaches W C (config_at (?k, 0) pv m) (config_at (if b then ?k + 1 else ?k + 3, 0) pv1 m1) \<and> sim E m1 st1"
    if "sim E m st" "test W Fs e st = Done (b, st1)" for m st b st1 pv
    by (rule loop_cond [OF c h(3,4) ws(1) e4 hr(1) that])
  have body: "\<exists>pv1 m1. reaches W C (config_at (?k + 1, 0) pv m) (config_at (if sg = Breaks then ?k + 3 else ?k + 2, 0) pv1 m1) \<and> sim E m1 st1"
    if "sim E m st" "f st = Done (sg, st1)" "sg \<noteq> Timeout" for m st sg st1 pv
    by (rule body_reaches [OF b(1) ws(2) f4 h(5,6) e5 e6 hr(2) _ _ that]) simp_all
  have nt: "Normal \<noteq> Timeout" by simp
  have inc: "\<exists>pv1 m1. reaches W C (config_at (?k + 2, 0) pv m) (config_at (?k, 0) pv1 m1) \<and> sim E m1 st1"
    if r: "sim E m st" "fn st = Done (Normal, st1)" for m st st1 pv
  proof -
    have e': "fits W Fs E s7" "within C s7" "within C s8" using e7 e8 by (simp_all add: ends_def)
    obtain p pv1 m1 where p: "target Normal ?s6 s7 = Some p" "reaches W C (config_at (here ?s6) pv m) (config_at p pv1 m1)" "sim E m1 st1"
      using stmD [OF n(1) ws(4) f6 h(7) e'(1,2) r nt] .
    have "reaches W C (config_at p pv1 m1) (config_at (?k, 0) (currentBB s7) m1)" using br_reaches [OF h(8) refl e'(3), of W pv1 m1] p(1) by simp
    from reaches_trans [OF p(2) this] show ?thesis using p(3) unfolding hr(3) by blast
  qed
  have e1': "fits W Fs E s1" "within C s1" using e1 by (simp_all add: ends_def)
  obtain p pv1 m1 where p: "target g1 s s1 = Some p" "reaches W C (config_at (here s) pv m) (config_at p pv1 m1)" "sim E m1 st1"
    using stmD [OF i(1) w fs(1) h(1) e1' sim g1 nt[folded gn(1)]] .
  have "reaches W C (config_at p pv1 m1) (config_at (?k, 0) (currentBB s1) m1)" using br_start [OF h2 e2, of pv1 m1] p(1) gn(1) by simp
  note r0 = reaches_trans [OF p(2) this]
  have "sg = Normal \<and> (\<exists>pv' m'. reaches W C (config_at (?k, 0) (currentBB s1) m1) (config_at (?k + 3, 0) pv' m') \<and> sim E m' st')"
    by (rule loop_reaches [OF cond body inc p(3) gn(2) t])
  then show "\<exists>p pv' m'. target sg s s' = Some p \<and> reaches W C (config_at (here s) pv m) (config_at p pv' m') \<and> sim E m' st'"
    using reaches_trans [OF r0] hr(4) by auto
qed

subsection \<open>Conditional statements\<close>

text \<open>One branch: its code, then the branch to the block after the statement.\<close>

lemma branch_reaches:
  assumes b: "stm W Fs E D g f" and w: "wfc t" "fresh D t" and h: "g t = Done s5" "CreateBr (currentBB s5) (Some k) s5 = Done s6"
    and e: "ends W Fs E C s5" "ends W Fs E C s6" and z: "here t = (j, 0)"
    and run: "sim E m st" "f st = Done (sg, st1)" "sg \<noteq> Timeout"
  shows "\<exists>p pv1 m1. (if sg = Normal then p = (k, 0) else target sg t s5 = Some p) \<and>
    reaches W C (config_at (j, 0) pv m) (config_at p pv1 m1) \<and> sim E m1 st1"
proof -
  have e': "fits W Fs E s5" "within C s5" "within C s6" using e by (simp_all add: ends_def)
  obtain p pv1 m1 where p: "target sg t s5 = Some p" "reaches W C (config_at (j, 0) pv m) (config_at p pv1 m1)" "sim E m1 st1"
    using stmD [OF b w h(1) e'(1,2) run, of pv] unfolding z .
  have r: "reaches W C (config_at (here s5) pv1 m1) (config_at (k, 0) (currentBB s5) m1)" by (rule br_reaches [OF h(2) refl e'(3)])
  show ?thesis
  proof (cases "sg = Normal")
    case True
    then have "p = here s5" using p(1) by simp
    then have "reaches W C (config_at (j, 0) pv m) (config_at (k, 0) (currentBB s5) m1)" using reaches_trans [OF p(2)] r by simp
    then show ?thesis using True p(3) by auto
  next
    case False
    then show ?thesis using p by auto
  qed
qed

lemma if_stm:
  assumes c: "simple e" and a: "stm W Fs E Da ga fa" "grower Da la ga"
    and b: "\<And>g. gb = Some g \<Longrightarrow> stm W Fs E Db g fb" "\<And>g. gb = Some g \<Longrightarrow> grower Db lb g"
    and d: "Da \<inter> Db = {}" "gb = None \<Longrightarrow> Db = {}" "gb = None \<Longrightarrow> fb = skip"
    and k: "\<And>st sg st'. la \<Longrightarrow> fb st = Done (sg, st') \<Longrightarrow> sg \<noteq> Continues"
  shows "stm W Fs E (Da \<union> Db) (visitStmtIfThen (gen_expr e) ga gb) (\<lambda>st. bind_out (test W Fs e st) (\<lambda>(t, st). if t then fa st else fb st))"
proof (rule stmI)
  fix C s s' pv m st sg st'
  assume w: "wfc s" and fr: "fresh (Da \<union> Db) s" and g: "visitStmtIfThen (gen_expr e) ga gb s = Done s'" and ft: "fits W Fs E s'" and wi: "within C s'"
    and sim: "sim E m st" and ev: "bind_out (test W Fs e st) (\<lambda>(t, st). if t then fa st else fb st) = Done (sg, st')" and t: "sg \<noteq> Timeout"
  obtain v s1 c' s2 s4 s5 s6 s7 where h: "gen_expr e s = Done (v, s1)" "nonzero (currentBB s) v s1 = Done (c', s2)"
    "CreateCondBr (currentBB s) c' (nblk s2) (if gb = None then nblk s2 + 2 else nblk s2 + 1) (s2\<lparr>nblk := nblk s2 + 3\<rparr>) = Done s4"
    "ga (s4\<lparr>currentBB := nblk s2\<rparr>) = Done s5" "CreateBr (currentBB s5) (Some (nblk s2 + 2)) s5 = Done s6"
    "case gb of None \<Rightarrow> s7 = s6
     | Some gb \<Rightarrow> \<exists>s8. gb (s6\<lparr>currentBB := nblk s2 + 1\<rparr>) = Done s8 \<and> CreateBr (currentBB s8) (Some (nblk s2 + 2)) s8 = Done s7"
    "s' = s7\<lparr>currentBB := nblk s2 + 2\<rparr>"
    using if_split [OF g] .
  note mk = simple_makes [OF c]
  note q = if_cond [OF mk w h(1-3)]
  let ?m = "\<lambda>D. moves D (nblk s) (currentBB s) s" and ?k = "nblk s2" and ?s3 = "s2\<lparr>nblk := nblk s2 + 3\<rparr>" and ?s4 = "s4\<lparr>currentBB := nblk s2\<rparr>"
  let ?s6 = "s6\<lparr>currentBB := ?k + 1\<rparr>"
  have fs: "fresh Da s" "fresh Db s" by (rule fresh_sub [OF fr], blast)+
  have cb: "currentBB s < nblk s" using w by (simp add: wfc_def)
  have 1: "?m {} ?s3" using cb q(5,6) by (intro moves_same [OF moves_made [OF moves_made [OF moves_refl [OF w] q(1)] q(2)]]) simp_all
  have l4: "inLHS s4 = inLHS ?s3" using q(4) by simp
  have 2: "?m {} ?s4" using q(5,9) by (intro moves_same [OF moves_extends [OF 1 q(3) l4]]) simp_all
  have 3: "?m Da s5" by (rule moves_gen1 [OF 2 a(2) h(4) fs(1) order_refl])
  note x = gen_blocks [OF 2 a(2) h(4) fs(1)]
  note 4 = moves_br [OF 3 h(5) refl]
  have 5: "?m Da ?s6" using q(5,9) x(1) 4(2) by (intro moves_same [OF 4(1)]) simp_all
  have w1: "wfc s1" by (rule made_wf [OF q(1) w])
  have w2: "wfc s2" by (rule made_wf [OF q(2) w1])
  have ws: "wfc ?s3" "wfc ?s4" "wfc s5" "wfc ?s6" using 1 2 3 5 by (simp_all add: moves_def)
  have f4: "fresh Da ?s4" by (rule moves_fresh [OF 2 fs(1)])
  have f6: "fresh Db ?s6" using 5 fresh_grows [OF _ fs(2) d(1)] by (auto simp: moves_def)
  note g5 = growerD [OF a(2) h(4) ws(2) f4]
  have "ends W Fs E C s'" using ft wi by (simp add: ends_def)
  then have e7: "ends W Fs E C s7" using h(7) by simp
  have z: "code s4 j = []" if "?k \<le> j" for j
  proof -
    have "code s4 j = code s2 j" using extends_sel(10) [OF q(3)] that cb q(5,6) by simp
    then show ?thesis using w2 that by (simp add: wfc_def)
  qed
  have b5: "currentBB s5 = ?k \<or> ?k + 3 \<le> currentBB s5" using growsD(5) [OF g5(2)] q(5,9) by simp
  have z5: "code s5 j = []" if "j = ?k + 1 \<or> j = ?k + 2" for j using growsD(4) [OF g5(2), of j] q(5,9) z [of j] that by auto
  have z6: "code s6 j = []" if "j = ?k + 1 \<or> j = ?k + 2" for j using br_code [OF h(5), of j] b5 z5 [OF that] that by auto
  have alt: "ends W Fs E C s6 \<and> here s' = (?k + 2, 0) \<and>
      (\<forall>m st sg st1 pv. sim E m st \<longrightarrow> fb st = Done (sg, st1) \<longrightarrow> sg \<noteq> Timeout \<longrightarrow>
        (\<exists>p pv1 m1. (if sg = Normal then p = (?k + 2, 0) else target sg s6 s' = Some p) \<and>
          reaches W C (config_at (if gb = None then ?k + 2 else ?k + 1, 0) pv m) (config_at p pv1 m1) \<and> sim E m1 st1))"
  proof (cases gb)
    case None
    then have s7: "s7 = s6" using h(6) by simp
    have "here s' = (?k + 2, 0)" using z6 h(7) s7 by (simp add: here_def)
    then show ?thesis using e7 s7 None d(3) by (auto simp: skip_def intro!: exI reaches_refl)
  next
    case (Some g)
    obtain s8 where h8: "g ?s6 = Done s8" "CreateBr (currentBB s8) (Some (?k + 2)) s8 = Done s7" using h(6) Some by auto
    note g8 = growerD [OF b(2) [OF Some] h8(1) ws(4) f6]
    have e8: "ends W Fs E C s8" by (rule ends_br [OF e7 h8(2) g8(1)])
    have e6: "ends W Fs E C s6" using ends_gen [OF e8 b(2) [OF Some] h8(1) ws(4) f6] by simp
    have n6: "?k + 3 \<le> nblk s6" using q(5,9) x(1) 4(2) by simp
    have b8: "currentBB s8 \<noteq> ?k + 2" using growsD(5) [OF g8(2)] n6 by auto
    have "code s8 (?k + 2) = []" using growsD(4) [OF g8(2), of "?k + 2"] n6 z6 by simp
    then have "code s7 (?k + 2) = []" using br_code [OF h8(2)] b8 by metis
    then have hs: "here s' = (?k + 2, 0)" using h(7) by (simp add: here_def)
    have h6: "here ?s6 = (?k + 1, 0)" using z6 by (simp add: here_def)
    have tg: "target sg ?s6 s8 = target sg s6 s'" if "sg \<noteq> Normal" for sg using that by (cases sg) simp_all
    have "\<exists>p pv1 m1. (if sg = Normal then p = (?k + 2, 0) else target sg s6 s' = Some p) \<and>
        reaches W C (config_at (if gb = None then ?k + 2 else ?k + 1, 0) pv m) (config_at p pv1 m1) \<and> sim E m1 st1"
      if r: "sim E m st" "fb st = Done (sg, st1)" "sg \<noteq> Timeout" for m st sg st1 pv
    proof -
      obtain p pv1 m1 where "if sg = Normal then p = (?k + 2, 0) else target sg ?s6 s8 = Some p"
          "reaches W C (config_at (?k + 1, 0) pv m) (config_at p pv1 m1)" "sim E m1 st1"
        using branch_reaches [OF b(1) [OF Some] ws(4) f6 h8 e8 e7 h6 r] by blast
      then show ?thesis using tg [of sg] Some by (intro exI [of _ p] exI [of _ pv1] exI [of _ m1]) (simp split: if_splits)
    qed
    then show ?thesis using e6 hs by blast
  qed
  then have e6: "ends W Fs E C s6" and hs: "here s' = (?k + 2, 0)" by simp_all
  have e5: "ends W Fs E C s5" by (rule ends_br [OF e6 h(5) ws(3)])
  have e4: "ends W Fs E C s4" using ends_gen [OF e5 a(2) h(4) ws(2) f4] by simp
  have e2: "ends W Fs E C s2" using ends_extends [OF e4 q(3) ws(1)] by simp
  have e1: "ends W Fs E C s1" using ends_extends [OF e2 _ w1] q(2) unfolding made_def by blast
  have e': "fits W Fs E s1" "within C s1" "within C s2" "within C s4" using e1 e2 e4 by (simp_all add: ends_def)
  obtain tv st1 w1' where tv: "eval W Fs e st = Done (w1', st1)" "truth W w1' = Done tv" "(if tv then fa st1 else fb st1) = Done (sg, st')"
    using ev by (auto simp: test_def elim!: bind_out_DoneE)
  obtain m1 where m1: "reaches W C (config_at (here s) pv m) (config_at (here s1) pv m1)" "sim E m1 st1" "opval W m1 v = w1'" "has_type (typ_of v) w1'"
    using expr_reaches [OF c h(1) w e'(1,2) sim tv(1)] .
  have b1: "currentBB s = currentBB s1" using madeD(1) [OF q(1)] by simp
  obtain m2 where m2: "reaches W C (config_at (here s1) pv m1) (config_at (here s2) pv m2)" "sim E m2 st1" "opval W m2 c' = VBool tv"
    using nonzero_reaches [OF h(2) b1 e'(3) m1(3,4) tv(2) m1(2)] .
  have h3: "here ?s3 = here s2" by (simp add: here_def)
  have "reaches W C (config_at (here s2) pv m2) (config_at (if tv then ?k else if gb = None then ?k + 2 else ?k + 1, 0) (currentBB s2) m2)"
    using cond_br_reaches [OF q(3) e'(4) m2(3), of pv] h3 by simp
  then have r0: "reaches W C (config_at (here s) pv m) (config_at (if tv then ?k else if gb = None then ?k + 2 else ?k + 1, 0) (currentBB s2) m2)"
    using reaches_trans [OF m1(1) reaches_trans [OF m2(1)]] by blast
  show "\<exists>p pv' m'. target sg s s' = Some p \<and> reaches W C (config_at (here s) pv m) (config_at p pv' m') \<and> sim E m' st'"
  proof (cases tv)
    case True
    have h4: "here ?s4 = (?k, 0)" using z by (simp add: here_def)
    have fa: "fa st1 = Done (sg, st')" using tv(3) True by simp
    obtain p pv1 m3 where p: "if sg = Normal then p = (?k + 2, 0) else target sg ?s4 s5 = Some p"
        "reaches W C (config_at (?k, 0) (currentBB s2) m2) (config_at p pv1 m3)" "sim E m3 st'"
      using branch_reaches [OF a(1) ws(2) f4 h(4,5) e5 e6 h4 m2(2) fa t] by blast
    have "target sg s s' = Some p" using p(1) hs q(7,8) by (cases sg) simp_all
    then show ?thesis using reaches_trans [OF r0] p(2,3) True by auto
  next
    case False
    have fb: "fb st1 = Done (sg, st')" using tv(3) False by simp
    obtain p pv1 m3 where p: "if sg = Normal then p = (?k + 2, 0) else target sg s6 s' = Some p"
        "reaches W C (config_at (if gb = None then ?k + 2 else ?k + 1, 0) (currentBB s2) m2) (config_at p pv1 m3)" "sim E m3 st'"
      using alt m2(2) fb t by blast
    have br: "breakBB s6 = breakBB s \<or> breakBB s6 = None" "la \<or> continueBB s6 = continueBB s" using x(2,3) 4(3,4) q(7,8) by simp_all
    have "target sg s s' = Some p" using p(1) hs br k [OF _ fb] by (cases sg) auto
    then show ?thesis using reaches_trans [OF r0] p(2,3) False by auto
  qed
qed

subsection \<open>All statements\<close>

lemma rounds_sig: "rounds n tst body incr st = Done (sg, st') \<Longrightarrow> sg = Normal \<or> sg = Timeout"
proof (induction n arbitrary: st)
  case (Suc n)
  then show ?case by (auto elim!: bind_out_DoneE split: if_splits)
qed simp

lemma scoped_sig: "scoped f st = Done (sg, st') \<Longrightarrow> \<exists>st1. f st = Done (sg, st1)"
  by (auto simp: scoped_def elim!: bind_out_DoneE)

lemma decl_sig: "decl_vars W Fs ds st = Done (sg, st') \<Longrightarrow> sg = Normal"
  by (induction W Fs ds st rule: decl_vars.induct) (auto elim!: bind_out_DoneE split: option.splits)

lemma exec_continues:
  "exec W Fs n s st = Done (Continues, st') \<Longrightarrow> continues s"
  "execs W Fs n ss st = Done (Continues, st') \<Longrightarrow> list_ex continues ss"
proof (induction W Fs n s st and W Fs n ss st arbitrary: st' and st' rule: exec_execs.induct)
  case (8 W Fs n c a b s)
  then show ?case by (auto elim!: bind_out_DoneE split: if_splits option.splits dest!: scoped_sig)
next
  case (9 W Fs n c body s)
  then show ?case by (auto dest: rounds_sig)
next
  case (10 W Fs n body c s)
  then show ?case by (auto simp: do_rounds_def elim!: bind_out_DoneE split: if_splits dest: rounds_sig)
next
  case (11 W Fs n init c incr body s)
  then show ?case by (auto elim!: bind_out_DoneE split: if_splits dest!: scoped_sig dest: rounds_sig)
next
  case (16 W Fs n x xs s)
  then obtain g s1 where g: "exec W Fs n x s = Done (g, s1)" "(if g = Normal then execs W Fs n xs s1 else Done (g, s1)) = Done (Continues, st')"
    by (auto elim!: bind_out_DoneE)
  then show ?case using 16(1) [of s1] 16(2) [OF refl, of s1 st'] by (cases "g = Normal") auto
qed (auto elim!: bind_out_DoneE split: if_splits dest!: scoped_sig dest: decl_sig)

lemma no_continues: "\<not> continues s \<Longrightarrow> scoped (exec W Fs n s) st = Done (sg, st') \<Longrightarrow> sg \<noteq> Continues"
  using scoped_sig exec_continues(1) by blast

lemma gen_stmt_sim:
  fixes s :: "'f stmt" and ss :: "'f stmt list"
  shows "good s \<Longrightarrow> distinct (declared s) \<Longrightarrow> stm W Fs E (set (declared s)) (gen_stmt s) (exec W Fs n s)"
    and "goods ss \<Longrightarrow> distinct (concat (map declared ss)) \<Longrightarrow>
      stm W Fs E (set (concat (map declared ss))) (gen_stmts ss) (execs W Fs n ss)"
proof (induction s and ss rule: good_goods.induct)
  case 1
  show ?case by (rule stmI) (auto intro!: exI reaches_refl)
next
  case (2 e)
  then have "simple e" by simp
  then show ?case using rv_stm [OF simple_rv simple_makes] by (simp add: gen_stmt.simps [abs_def] exec.simps [abs_def])
next
  case (3 op l r)
  then have l: "lval l" "simple l" "simple r" by simp_all
  note m = assign_makes [OF l] and sl = simple_lmakes [OF l(2,1)] and v = simple_lv [OF l(2,1)] simple_rv [OF l(3)] simple_makes [OF l(3)]
  show ?case
  proof (cases op)
    case None
    show ?thesis using rv_stm [OF assign_rv [OF v(1) sl v(2,3)] m(1)] None assigned_effect(1) [OF l(1)] by (simp add: gen_stmt.simps [abs_def])
  next
    case (Some bop)
    then have p: "pure_expr l" using 3 by simp
    show ?thesis using rv_stm [OF op_assign_rv [OF v(1) simple_rv [OF l(2)] sl l(1) p v(2,3)] m(2)] Some assigned_effect(2) [OF l(1)]
      by (simp add: gen_stmt.simps [abs_def])
  qed
next
  case (4 e)
  then show ?case using push_stm [of e W Fs E n] by (simp add: gen_stmt.simps [abs_def] del: exec.simps)
next
  case (5 ds)
  then have g: "list_all (\<lambda>(t, x, e). plain x \<and> (case e of None \<Rightarrow> True | Some e \<Rightarrow> simple e)) ds" "distinct (map (\<lambda>(t, x, e). x) ds)"
    by simp_all
  show ?case
  proof (rule stmI)
    fix C s s' pv m st sg st'
    assume h: "wfc s" "fresh (set (declared (StmtVarDecl ds))) s" "gen_stmt (StmtVarDecl ds) s = Done s'" "fits W Fs E s'" "within C s'" "sim E m st"
      "exec W Fs n (StmtVarDecl ds) st = Done (sg, st')"
    have "sg = Normal \<and> (\<exists>m'. reaches W C (config_at (here s) pv m) (config_at (here s') pv m') \<and> sim E m' st')"
      using h by (intro decl_vars_stm [OF g]) simp_all
    then show "\<exists>p pv' m'. target sg s s' = Some p \<and> reaches W C (config_at (here s) pv m) (config_at p pv' m') \<and> sim E m' st'" by auto
  qed
next
  case (6 ss)
  then have "stm W Fs E (set (concat (map declared ss))) (gen_stmts ss) (execs W Fs n ss)" by simp
  from scoped_stm [OF this] show ?case by (simp add: gen_stmt.simps [abs_def] exec.simps [abs_def])
next
  case (7 c a b)
  then have e: "simple c" and a: "stm W Fs E (set (declared a)) (gen_stmt a) (scoped (exec W Fs n a))" "grower (set (declared a)) (has_loop a) (gen_stmt a)"
    using gen_stmt_shape(1) [of a] by (simp_all add: scoped_stm)
  show ?case
  proof (cases b)
    case None
    have "exec W Fs n (StmtIfThen c a b) = (\<lambda>st. bind_out (test W Fs c st) (\<lambda>(t, st). if t then scoped (exec W Fs n a) st else skip st))"
      by (rule ext) (simp add: None skip_def [abs_def] cong: if_cong)
    moreover have "stm W Fs E (set (declared a) \<union> {}) (visitStmtIfThen (gen_expr c) (gen_stmt a) None)
        (\<lambda>st. bind_out (test W Fs c st) (\<lambda>(t, st). if t then scoped (exec W Fs n a) st else skip st))"
      by (rule if_stm [OF e a]) (simp_all add: skip_def [abs_def])
    ultimately show ?thesis using None by (simp add: gen_stmt.simps [abs_def])
  next
    case (Some x)
    then have x: "stm W Fs E (set (declared x)) (gen_stmt x) (scoped (exec W Fs n x))" "grower (set (declared x)) (has_loop x) (gen_stmt x)"
        "set (declared a) \<inter> set (declared x) = {}" "has_loop a \<Longrightarrow> \<not> continues x"
      using 7 gen_stmt_shape(1) [of x] by (auto simp: scoped_stm)
    have "exec W Fs n (StmtIfThen c a b) = (\<lambda>st. bind_out (test W Fs c st) (\<lambda>(t, st). if t then scoped (exec W Fs n a) st else scoped (exec W Fs n x) st))"
      by (rule ext) (simp add: Some cong: if_cong)
    moreover have "stm W Fs E (set (declared a) \<union> set (declared x)) (visitStmtIfThen (gen_expr c) (gen_stmt a) (Some (gen_stmt x)))
        (\<lambda>st. bind_out (test W Fs c st) (\<lambda>(t, st). if t then scoped (exec W Fs n a) st else scoped (exec W Fs n x) st))"
      using no_continues [OF x(4)] by (intro if_stm [OF e a _ _ x(3), where lb = "has_loop x"]) (auto simp: x(1,2))
    ultimately show ?thesis using Some by (simp add: gen_stmt.simps [abs_def])
  qed
next
  case (8 c body)
  then have b: "simple c" "stm W Fs E (set (declared body)) (gen_stmt body) (scoped (exec W Fs n body))"
      "grower (set (declared body)) (has_loop body) (gen_stmt body)"
    using gen_stmt_shape(1) [of body] by (simp_all add: scoped_stm)
  show ?case using while_stm [OF b, of n] by (simp add: gen_stmt.simps [abs_def] exec.simps [abs_def])
next
  case (9 body c)
  then have b: "simple c" "stm W Fs E (set (declared body)) (gen_stmt body) (scoped (exec W Fs n body))"
      "grower (set (declared body)) (has_loop body) (gen_stmt body)" "stays (set (declared body)) (gen_stmt body)"
    using gen_stmt_shape(1) [of body] by (simp_all add: scoped_stm)
  show ?case using do_stm [OF b, of n] by (simp add: gen_stmt.simps [abs_def] exec.simps [abs_def])
next
  case (10 i c k b)
  have i: "stm W Fs E (set (declared i)) (gen_stmt i) (exec W Fs n i)" "grower (set (declared i)) (has_loop i) (gen_stmt i)"
      "stays (set (declared i)) (gen_stmt i)" and c: "simple c"
    using 10 gen_stmt_shape(1) [of i] by simp_all
  have b: "stm W Fs E (set (declared b)) (gen_stmt b) (scoped (exec W Fs n b))" "grower (set (declared b)) (has_loop b) (gen_stmt b)"
    using 10 gen_stmt_shape(1) [of b] by (simp_all add: scoped_stm)
  have k: "stm W Fs E (set (declared k)) (gen_stmt k) (scoped (exec W Fs n k))" "grower (set (declared k)) (has_loop k) (gen_stmt k)"
    using 10 gen_stmt_shape(1) [of k] by (simp_all add: scoped_stm)
  have d: "set (declared i) \<inter> set (declared b) = {}" "set (declared i) \<inter> set (declared k) = {}" "set (declared b) \<inter> set (declared k) = {}"
    using 10 by auto
  show ?case using scoped_stm [OF for_stm [OF i c b k d, of n]] by (simp add: gen_stmt.simps [abs_def] exec.simps [abs_def] Un_assoc)
next
  case 11
  show ?case using jump_stm(1) [of W Fs E n] by (simp add: gen_stmt.simps [abs_def] del: exec.simps)
next
  case 12
  show ?case using jump_stm(2) [of W Fs E n] by (simp add: gen_stmt.simps [abs_def] del: exec.simps)
next
  case 13
  show ?case by (rule stmI) simp
next
  case 14
  show ?case by (rule stmI) (auto intro!: exI reaches_refl)
next
  case (15 x xs)
  then have d: "set (declared x) \<inter> set (concat (map declared xs)) = {}" by simp
  have a: "stm W Fs E (set (declared x)) (gen_stmt x) (exec W Fs n x)" "grower (set (declared x)) (has_loop x) (gen_stmt x)"
    "stm W Fs E (set (concat (map declared xs))) (gen_stmts xs) (execs W Fs n xs)"
    "grower (set (concat (map declared xs))) (list_ex has_loop xs) (gen_stmts xs)"
    using 15 gen_stmt_shape(1) [of x] gen_stmt_shape(2) [of xs] by simp_all
  have k: "sg \<noteq> Continues" if "has_loop x" "execs W Fs n xs st = Done (sg, st')" for st sg st'
    using exec_continues(2) [of W Fs n xs st st'] that 15 by auto
  have "gen_stmts (x # xs) = (\<lambda>s. bind_out (gen_stmt x s) (gen_stmts xs))" by (simp add: fun_eq_iff)
  moreover have "execs W Fs n (x # xs) = (\<lambda>st. bind_out (exec W Fs n x st) (\<lambda>(sg, st). if sg = Normal then execs W Fs n xs st else Done (sg, st)))"
    by (simp add: fun_eq_iff)
  ultimately show ?case using seq_stm [OF a d k] by simp
qed

end
