(* ===== verification/FE_Filter.thy ===== *)
theory FE_Filter
  imports FE_Stmt
begin

section \<open>Work functions of filters\<close>

text \<open>
  The generator before a work function: the names that the function does not declare stand for fields of the state
  or global variables, no two for the same, and the functions that can be called are those of the filter.
\<close>

definition ready :: "'f world \<Rightarrow> filter_spec \<Rightarrow> 'f cg \<Rightarrow> bool" where
  "ready W Fs s \<longleftrightarrow>
     table_ok (symt s) \<and> tidy s \<and> \<not> inLHS s \<and> apart_roots (locs s) \<and> (\<forall>x k t. locs s x \<noteq> Some (RSlot k, t)) \<and>
     in_type s = in_ty Fs \<and> world_ok W \<and>
     (\<forall>f name pl rt pts t. plain f \<longrightarrow> find_node (symt s) f = Some (NFunc name pl rt) \<longrightarrow> converts pl = Done pts \<longrightarrow>
        convert rt = Done t \<longrightarrow> funs Fs f = Some (name, pts, t))"

lemma ready_wfc:
  assumes "ready W Fs (new_function name s0)"
  shows "wfc (new_function name s0)" "here (new_function name s0) = (0, 0)"
  using assms by (auto simp: ready_def wfc_def new_function_def here_def)

text \<open>At the end of the function, the names that are in the table are the correspondence \<open>E\<close>.\<close>

lemma fits_end:
  assumes r: "ready W Fs s" and g: "grows D n c s s'" and w: "wfc s'"
  shows "fits W Fs (locs s') s'"
  unfolding fits_def
proof (intro conjI)
  have w': "tidy s'" "apart_roots (locs s')" using w by (simp_all add: wfc_def)
  have "find_node (symt s') f = find_node (symt s) f" if "plain f" for f by (rule growsD(8) [OF g that])
  then show "ctx W Fs (locs s') s'" using r w' growsD(7) [OF g] unfolding ctx_def ready_def by simp
qed simp

lemma sim_more:
  assumes "sim E m st" and "map_le E E'"
  shows "sim E' m st"
proof -
  have "E' x = Some l" if "E x = Some l" for x l using assms(2) that by (auto simp: map_le_def dom_def)
  then show ?thesis using assms(1) unfolding sim_def by blast
qed

lemma sim_outer:
  assumes "sim E m st" and "sim E' m' st'" and "map_le E E'"
  shows "sim E m' (leave st st')"
  unfolding sim_def
proof (intro conjI allI impI)
  fix x t v assume "vars (leave st st') x = Some (t, v)"
  then have x: "vars st x \<noteq> None" "vars st' x = Some (t, v)" by (auto simp: leave_def split: if_splits)
  obtain r where r: "E' x = Some (r, t)" "mem m' r = v" "has_type t v" using sim_var [OF assms(2) x(2)] by blast
  obtain q u where "E x = Some (q, u)" using x(1) sim_var [OF assms(1), of x] by auto
  then have "E x = Some (r, t)" using r(1) assms(3) by (auto simp: map_le_def dom_def)
  then show "\<exists>r. E x = Some (r, t) \<and> mem m' r = v \<and> has_type t v" using r by blast
qed (use sim_streams [OF assms(2)] in \<open>simp_all add: leave_def\<close>)

lemma work_lemma:
  assumes b: "good body" "distinct (declared body)" and r: "ready W Fs (new_function ''work'' s0)"
    and d: "fresh (set (declared body)) (new_function ''work'' s0)" and g: "visitFuncWork body s0 = Done s'"
    and sim: "sim (locs (new_function ''work'' s0)) m st" and ev: "exec W Fs n body st = Done (Normal, st')"
  shows "\<exists>c. reaches W (code s') (config_at (0, 0) pv m) c \<and> halted (code s') c \<and>
    sim (locs (new_function ''work'' s0)) (ist c) (leave st st')"
proof -
  let ?s = "new_function ''work'' s0"
  obtain s1 where s1: "gen_stmt body ?s = Done s1" "s' = emit (currentBB s1) IRet (s1\<lparr>symt := popScope (symt s1)\<rparr>)"
    using g by (auto simp: visitFuncWork_def elim!: bind_out_DoneE)
  note w = ready_wfc [OF r]
  note a = growerD [OF conjunct1 [OF gen_stmt_shape(1) [OF b]] s1(1) w(1) d]
  have le: "map_le (locs ?s) (locs s1)"
    unfolding map_le_def
  proof (intro ballI)
    fix x assume "x \<in> dom (locs ?s)"
    then have "x \<notin> set (declared body)" using d by (auto simp: fresh_def)
    then show "locs ?s x = locs s1 x" using growsD(6) [OF a(2)] by simp
  qed
  have c: "code s' = (code s1)(currentBB s1 := code s1 (currentBB s1) @ [IRet])" using s1(2) by (simp add: emit_def)
  have wi: "within (code s') s1" by (simp add: within_def c)
  have nt: "Normal \<noteq> Timeout" by simp
  obtain p pv' m' where p: "target Normal ?s s1 = Some p" "reaches W (code s') (config_at (here ?s) pv m) (config_at p pv' m')" "sim (locs s1) m' st'"
    using stmD [OF gen_stmt_sim(1) [OF b] w(1) d s1(1) fits_end [OF r a(2,1)] wi sim_more [OF sim le] ev nt] .
  have "p = here s1" using p(1) by simp
  then have "halted (code s') (config_at p pv' m')" by (simp add: halted_def config_at_def here_def c)
  moreover have "sim (locs ?s) m' (leave st st')" by (rule sim_outer [OF sim p(3) le])
  ultimately show ?thesis using p(2) w(2) by (intro exI [of _ "config_at p pv' m'"]) (simp add: config_at_def)
qed

text \<open>
  A sample: floating-point numbers are integers, and the scope of the table is that of a filter.
\<close>

definition sample_world :: "int world" where
  "sample_world = \<lparr>f_zero = 0, f_arith = (\<lambda>a x y. if a = AAdd then x + y else if a = ASub then x - y else x * y),
     f_neg = uminus, f_cmp = cmp_int, f_of_int = (\<lambda>i. i), f_to_int = (\<lambda>n i. Some (wrap n i)), extern = (\<lambda>_ _. VUndef)\<rparr>"

definition field_table :: "(int fe_node, int opnd) symtab" where
  "field_table = add_value ''gain'' (OInt 32 0) \<lparr>syms = (\<lambda>_. None), scope = path [''streamit'', ''F'']\<rparr>"

definition sample_cg :: "int cg" where
  "sample_cg = \<lparr>code = (\<lambda>_. []), nblk = 0, nreg = 0, nslot = 0, currentBB = 0, breakBB = None, continueBB = None, inLHS = False,
     symt = field_table, in_type = TInt 32, state_ty = [TInt 32]\<rparr>"

definition sample_filter :: filter_spec where
  "sample_filter = \<lparr>in_ty = TInt 32, out_ty = TInt 32, funs = (\<lambda>_. None)\<rparr>"

abbreviation "ivar x \<equiv> ExprVar x"
abbreviation "num k \<equiv> ExprConstInt k"

text \<open>
  \<open>int s = 0; for (int i = 0; i < 9; i++) { if (i == 1) continue; if (i > 2) break; s += peek(i) * gain; } push(s); pop();\<close>
\<close>

definition sample_body :: "int stmt" where
  "sample_body = StmtBlock
     [StmtVarDecl [(TypePrimitive TYPE_INT, ''s'', Some (num 0))],
      StmtFor (StmtVarDecl [(TypePrimitive TYPE_INT, ''i'', Some (num 0))]) (ExprBinary BINOP_LT (ivar ''i'') (num 9))
        (StmtExpr (ExprUnary UNOP_POSTINC (ivar ''i'')))
        (StmtBlock
          [StmtIfThen (ExprBinary BINOP_EQ (ivar ''i'') (num 1)) StmtContinue None,
           StmtIfThen (ExprBinary BINOP_GT (ivar ''i'') (num 2)) StmtBreak None,
           StmtAssign (Some BINOP_ADD) (ivar ''s'') (ExprBinary BINOP_MUL (ExprPeek (ivar ''i'')) (ivar ''gain''))]),
      StmtPush (ivar ''s''), StmtExpr ExprPop]"

definition sample_sst :: "int sst" where
  "sample_sst = \<lparr>vars = [''gain'' \<mapsto> (TInt 32, VInt 32 3)], s_ins = [VInt 32 5, VInt 32 6, VInt 32 7], s_outs = [], s_calls = []\<rparr>"

definition sample_ist :: "int ist" where
  "sample_ist = \<lparr>regs = (\<lambda>_. VUndef), mem = (\<lambda>_. VUndef)(RField 0 := VInt 32 3), params = (\<lambda>_. VUndef),
     ins = [VInt 32 5, VInt 32 6, VInt 32 7], outs = [], calls = []\<rparr>"

fun is_done :: "('e, 'a) outcome \<Rightarrow> bool" where
  "is_done (Done x) = True"
| "is_done _ = False"

text \<open>What is in the table of the sample.\<close>

lemma table_push: "table_ok t \<Longrightarrow> plain name \<Longrightarrow> table_ok (pushScope name t)"
proof -
  assume t: "table_ok t" "plain name"
  then obtain cs where "cs \<noteq> []" "\<forall>c\<in>set cs. plain c" "scope t = path cs" by (auto simp: table_ok_def)
  then show ?thesis using t(2) path_snoc [of cs name] by (intro table_ok_def [THEN iffD2] exI [of _ "cs @ [name]"]) (auto simp: pushScope_def)
qed

lemma find_push:
  assumes t: "table_ok t" and n: "plain name" and y: "plain y" and new: "syms t (scope t @ SEP @ name @ SEP @ y) = None"
  shows "find_value (pushScope name t) y = find_value t y" "find_node (pushScope name t) y = find_node t y"
proof -
  obtain cs where c: "cs \<noteq> []" "\<forall>c\<in>set cs. plain c" "scope t = path cs" using t by (auto simp: table_ok_def)
  let ?d = "cs @ [name]"
  have d: "?d \<noteq> []" "\<forall>c\<in>set ?d. plain c" "scope (pushScope name t) = path ?d"
    using c n path_snoc [OF c(1), of name] by (auto simp: pushScope_def)
  have "path (?d @ [y]) = scope t @ SEP @ name @ SEP @ y"
    using path_snoc [of ?d y] path_snoc [OF c(1), of name] c(3) by simp
  then have "table t (?d @ [y]) = None" using new by (simp add: table_def)
  then have "lookup_in (table t) (rev ?d) y = lookup_in (table t) (rev cs) y" by (simp add: lookup_in_def)
  moreover have "table (pushScope name t) = table t" by (rule ext) (simp add: table_def pushScope_def)
  ultimately show "find_value (pushScope name t) y = find_value t y" "find_node (pushScope name t) y = find_node t y"
    by (simp_all only: find_lookup [OF d y] find_lookup [OF c y])
qed

lemma search_none: "search (\<lambda>_. None) rcs x = None"
  by (induction rcs) simp_all

lemma find_empty:
  assumes "table_ok t" and "syms t = (\<lambda>_. None)" and "plain y"
  shows "find_value t y = None" "find_node t y = None"
proof -
  obtain cs where c: "cs \<noteq> []" "\<forall>c\<in>set cs. plain c" "scope t = path cs" using assms(1) by (auto simp: table_ok_def)
  have "table t = (\<lambda>_. None)" by (rule ext) (simp add: table_def assms(2))
  then show "find_value t y = None" "find_node t y = None"
    by (simp_all add: find_lookup [OF c assms(3)] lookup_in_def search_none)
qed

definition empty_table :: "(int fe_node, int opnd) symtab" where
  "empty_table = \<lparr>syms = (\<lambda>_. None), scope = path [''streamit'', ''F'']\<rparr>"

lemma empty_ok: "table_ok empty_table"
  unfolding table_ok_def by (intro exI [of _ "[''streamit'', ''F'']"]) (simp add: empty_table_def plain_def)

lemma sample_ok: "table_ok field_table" "table_ok (pushScope ''work'' field_table)"
proof -
  show "table_ok field_table"
    unfolding field_table_def empty_table_def [symmetric] by (rule tbl.ok_add [OF empty_ok]) (simp add: plain_def)
  then show "table_ok (pushScope ''work'' field_table)" by (rule table_push) (simp add: plain_def)
qed

lemma sample_new:
  assumes "plain y"
  shows "syms field_table (scope field_table @ SEP @ ''work'' @ SEP @ y) = None"
proof -
  have "''work'' @ SEP @ y \<noteq> ''gain''" by (simp add: SEP_def)
  then show ?thesis by (simp add: field_table_def add_value_def addEntry_def scoped_name_def empty_table_def)
qed

lemma sample_find:
  assumes "plain y"
  shows "find_value (pushScope ''work'' field_table) y = (if y = ''gain'' then Some (OInt 32 0) else None)"
    "find_node (pushScope ''work'' field_table) y = None"
proof -
  note a = find_push [OF sample_ok(1) _ assms sample_new [OF assms]]
  note b = find_value_add [OF empty_ok _ assms, of "''gain''"]
  note c = find_empty [OF empty_ok _ assms]
  show "find_value (pushScope ''work'' field_table) y = (if y = ''gain'' then Some (OInt 32 0) else None)"
    "find_node (pushScope ''work'' field_table) y = None"
    using a b c by (simp_all add: plain_def field_table_def empty_table_def)
qed

lemmas visit_defs = visitExprVar_def visitExprBinary_def visitExprPeek_def visitExprPop_def visitStmtAssign_def visitStmtAssign_op_def
  visitStmtBreak_def visitStmtContinue_def visitStmtFor_def visitStmtIfThen_def visitStmtPush_def visitFuncWork_def
  match_operands_def matchTypes_def nonzero_def branch_on_def CreatePeek_def CreateBr_def CreateCondBr_def CreateBlock_def CreateAlloca_def
  CreateStore_def CreateElem_def CreateField_def CreateBin_def CreateLoad_def init_var_def declare_var_def constant_one_def

lemma sample_generated: "is_done (visitFuncWork sample_body sample_cg)"
proof -
  have t: "table_ok (add_value ''i'' v (add_value ''s'' w (pushScope ''work'' field_table)))" "table_ok (add_value ''s'' w (pushScope ''work'' field_table))" for v w
    using sample_ok(2) by (simp_all add: tbl.ok_add plain_def)
  have p: "plain ''i''" "plain ''s''" "plain ''gain''" by (simp_all add: plain_def)
  note q = find_value_add [OF t(1)] find_value_add [OF t(2)] find_value_add [OF sample_ok(2)] sample_find
  show ?thesis
    by (simp add: visit_defs sample_body_def sample_cg_def new_function_def create_defs value_at_def emit_def q p Let_def)
qed

lemma sample_good: "good sample_body" "declared sample_body = [''s'', ''i'']"
  by code_simp+

lemma sample_run:
  "case exec sample_world sample_filter 9 sample_body sample_sst of
     Done (g, st) \<Rightarrow> g = Normal \<and> s_outs st = [VInt 32 36] \<and> s_ins st = [VInt 32 6, VInt 32 7] | _ \<Rightarrow> False"
  by code_simp

lemma sample_locs: "locs (new_function ''work'' sample_cg) x = (if x = ''gain'' then Some (RField 0, TInt 32) else None)"
  by (auto simp: locs_def new_function_def sample_cg_def sample_find) (simp add: plain_def)

lemma sample_ready: "ready sample_world sample_filter (new_function ''work'' sample_cg)"
proof -
  have "world_ok sample_world" by (simp add: world_ok_def sample_world_def wrap_def)
  moreover have "apart_roots (locs (new_function ''work'' sample_cg))" by (simp add: apart_roots_def sample_locs)
  moreover have "tidy (new_function ''work'' sample_cg)"
    by (simp add: tidy_def new_function_def sample_cg_def sample_find)
  ultimately show ?thesis
    unfolding ready_def using sample_ok(2) by (simp add: sample_locs) (simp add: new_function_def sample_cg_def sample_filter_def sample_find)
qed

lemma sample_sim: "sim (locs (new_function ''work'' sample_cg)) sample_ist sample_sst"
  by (simp add: sim_def sample_locs sample_sst_def sample_ist_def wrap_def)

subsection \<open>The properties\<close>



end
