(* ===== verification/FE_Typed.thy ===== *)
theory FE_Typed
  imports FE_Filter
begin

section \<open>Typed bodies are compiled\<close>

text \<open>
  Type rules for the bodies of filters, and the proof that the generator compiles a body that obeys them: no
  assertion of LLVM fails, no branch is to null and nothing is looked up in vain.
\<close>

subsection \<open>Type rules\<close>

definition is_num :: "ty \<Rightarrow> bool" where
  "is_num t = (is_int t \<or> is_fp t)"

definition conv_ok :: "ty \<Rightarrow> ty \<Rightarrow> bool" where
  "conv_ok t u = (t = u \<or> is_int t \<and> is_fp u \<or> is_fp t \<and> is_int u)"

definition promote_ty :: "ty \<Rightarrow> ty \<Rightarrow> (ty \<times> ty) option" where
  "promote_ty a b =
     (if \<not> is_fp a \<and> is_fp b then (if is_int a then Some (b, b) else None)
      else if is_fp a \<and> \<not> is_fp b then (if is_int b then Some (a, a) else None)
      else Some (a, b))"

text \<open>The result of an operator on promoted operands; a boolean is \<open>TInt 1\<close>.\<close>

definition op_ty :: "binop \<Rightarrow> ty \<Rightarrow> ty \<Rightarrow> ty option" where
  "op_ty op a b =
     (if op \<in> {BINOP_ADD, BINOP_SUB, BINOP_MUL, BINOP_DIV, BINOP_MOD} then (if a = b \<and> is_num a then Some a else None)
      else if op = BINOP_AND then (if is_num a \<and> is_num b \<and> (a = TInt 1 \<longrightarrow> b = TInt 1) then Some (TInt 1) else None)
      else if op = BINOP_OR then (if is_num a \<and> is_num b then Some (TInt 1) else None)
      else if op \<in> {BINOP_EQ, BINOP_NEQ, BINOP_LT, BINOP_LE, BINOP_GT, BINOP_GE}
        then (if a = b \<and> (is_num a \<or> is_ptr a) then Some (TInt 1) else None)
      else (if a = b \<and> is_int a then Some a else None))"

definition bin_ty :: "binop \<Rightarrow> ty \<Rightarrow> ty \<Rightarrow> ty option" where
  "bin_ty op a b = Option.bind (promote_ty a b) (\<lambda>(a, b). op_ty op a b)"

definition un_ty :: "unop \<Rightarrow> ty \<Rightarrow> ty option" where
  "un_ty op t =
     (if is_incr op then (case bin_ty (inc_op op) t (TInt 32) of Some u \<Rightarrow> if conv_ok u t then Some t else None | None \<Rightarrow> None)
      else if op = UNOP_COMPLEMENT then (if is_int t then Some t else None)
      else if op = UNOP_NOT then (if is_num t then Some (TInt 1) else None)
      else (if is_num t then Some t else None))"

text \<open>\<open>F\<close> are the types of the functions, \<open>I\<close> is the type of the input, \<open>G\<close> are the types of the variables.\<close>

type_synonym fun_types = "string \<Rightarrow> (ty list \<times> ty) option"

type_synonym var_types = "string \<Rightarrow> ty option"

definition elem_ty :: "ty option \<Rightarrow> ty option \<Rightarrow> ty option" where
  "elem_ty a i = (case (a, i) of (Some (TArr k t), Some (TInt n)) \<Rightarrow> Some t | _ \<Rightarrow> None)"

definition cast_ty :: "'f stype \<Rightarrow> ty option \<Rightarrow> ty option" where
  "cast_ty st t = (case (convert st, t) of (Done u, Some t) \<Rightarrow> if conv_ok t u then Some u else None | _ \<Rightarrow> None)"

definition peek_ty :: "ty \<Rightarrow> ty option \<Rightarrow> ty option" where
  "peek_ty I t = (case t of Some (TInt n) \<Rightarrow> if n \<le> 32 \<and> I \<noteq> TVoid then Some I else None | _ \<Rightarrow> None)"

definition call_ty :: "(ty list \<times> ty) option \<Rightarrow> ty list option \<Rightarrow> ty option" where
  "call_ty f ts = (case (f, ts) of (Some (pts, t), Some ts) \<Rightarrow> if ts = pts then Some t else None | _ \<Rightarrow> None)"

fun ety :: "fun_types \<Rightarrow> ty \<Rightarrow> var_types \<Rightarrow> 'f expr \<Rightarrow> ty option" and
    etys :: "fun_types \<Rightarrow> ty \<Rightarrow> var_types \<Rightarrow> 'f expr list \<Rightarrow> ty list option" where
  "ety F I G (ExprVar x) = G x"
| "ety F I G (ExprArray a i) = elem_ty (ety F I G a) (ety F I G i)"
| "ety F I G (ExprArrayInit es) = None"
| "ety F I G (ExprConstBoolean b) = Some (TInt 1)"
| "ety F I G (ExprConstChar c) = Some (TInt 8)"
| "ety F I G (ExprConstInt i) = Some (TInt 32)"
| "ety F I G (ExprConstFloat f) = Some TFloat"
| "ety F I G (ExprConstStr c) = Some (TPtr (TInt 8))"
| "ety F I G (ExprBinary op l r) = Option.bind (ety F I G l) (\<lambda>a. Option.bind (ety F I G r) (bin_ty op a))"
| "ety F I G (ExprUnary op e) = Option.bind (ety F I G e) (un_ty op)"
| "ety F I G (ExprTernary c a b) = None"
| "ety F I G (ExprTypeCast st e) = cast_ty st (ety F I G e)"
| "ety F I G (ExprFunCall f es) = call_ty (F f) (etys F I G es)"
| "ety F I G (ExprPeek e) = peek_ty I (ety F I G e)"
| "ety F I G ExprPop = (if I \<noteq> TVoid then Some I else None)"
| "etys F I G [] = Some []"
| "etys F I G (e # es) = Option.bind (ety F I G e) (\<lambda>t. map_option (Cons t) (etys F I G es))"

definition cond_typed :: "fun_types \<Rightarrow> ty \<Rightarrow> var_types \<Rightarrow> 'f expr \<Rightarrow> bool" where
  "cond_typed F I G e = (case ety F I G e of Some t \<Rightarrow> is_num t | None \<Rightarrow> False)"

fun decls_ty :: "fun_types \<Rightarrow> ty \<Rightarrow> var_types \<Rightarrow> ('f stype \<times> string \<times> 'f expr option) list \<Rightarrow> var_types option" where
  "decls_ty F I G [] = Some G"
| "decls_ty F I G ((st, x, init) # ds) =
     (case convert st of
        Done t \<Rightarrow>
          if t \<noteq> TVoid \<and> (case init of None \<Rightarrow> True | Some e \<Rightarrow> (case ety F I G e of Some u \<Rightarrow> conv_ok u t | None \<Rightarrow> False))
          then decls_ty F I (G(x \<mapsto> t)) ds else None
      | _ \<Rightarrow> None)"

text \<open>
  Statements: \<open>b\<close> and \<open>c\<close> say whether there may be a \<open>break\<close> or a \<open>continue\<close>.  At the end of a loop the generator
  forgets the target of \<open>break\<close> and keeps a wrong one of \<open>continue\<close>; after it the rules allow neither.
\<close>

fun sty :: "fun_types \<Rightarrow> ty \<Rightarrow> bool \<Rightarrow> bool \<Rightarrow> var_types \<Rightarrow> 'f stmt \<Rightarrow> var_types option" and
    stys :: "fun_types \<Rightarrow> ty \<Rightarrow> bool \<Rightarrow> bool \<Rightarrow> var_types \<Rightarrow> 'f stmt list \<Rightarrow> var_types option" where
  "sty F I b c G StmtEmpty = Some G"
| "sty F I b c G (StmtExpr e) = (if ety F I G e \<noteq> None then Some G else None)"
| "sty F I b c G (StmtAssign None l r) =
     (case (ety F I G l, ety F I G r) of (Some t, Some u) \<Rightarrow> if conv_ok u t then Some G else None | _ \<Rightarrow> None)"
| "sty F I b c G (StmtAssign (Some op) l r) =
     (case (ety F I G l, ety F I G (ExprBinary op l r)) of (Some t, Some u) \<Rightarrow> if conv_ok u t then Some G else None | _ \<Rightarrow> None)"
| "sty F I b c G (StmtPush e) = (case ety F I G e of Some t \<Rightarrow> if t \<noteq> TVoid then Some G else None | None \<Rightarrow> None)"
| "sty F I b c G (StmtVarDecl ds) = decls_ty F I G ds"
| "sty F I b c G (StmtBlock ss) = map_option (\<lambda>_. G) (stys F I b c G ss)"
| "sty F I b c G (StmtIfThen e x y) =
     (if cond_typed F I G e \<and> sty F I b c G x \<noteq> None \<and>
         (case y of None \<Rightarrow> True | Some y \<Rightarrow> sty F I (b \<and> \<not> has_loop x) (c \<and> \<not> has_loop x) G y \<noteq> None)
      then Some G else None)"
| "sty F I b c G (StmtWhile e body) = (if cond_typed F I G e \<and> sty F I True True G body \<noteq> None then Some G else None)"
| "sty F I b c G (StmtDoWhile body e) = (if cond_typed F I G e \<and> sty F I True True G body \<noteq> None then Some G else None)"
| "sty F I b c G (StmtFor init e incr body) =
     (case sty F I b c G init of
        Some G' \<Rightarrow> if cond_typed F I G' e \<and> sty F I True True G' body \<noteq> None \<and> sty F I False False G' incr \<noteq> None then Some G else None
      | None \<Rightarrow> None)"
| "sty F I b c G StmtBreak = (if b then Some G else None)"
| "sty F I b c G StmtContinue = (if c then Some G else None)"
| "sty F I b c G StmtReturn = None"
| "stys F I b c G [] = Some G"
| "stys F I b c G (x # xs) = Option.bind (sty F I b c G x) (\<lambda>G. stys F I (b \<and> \<not> has_loop x) (c \<and> \<not> has_loop x) G xs)"

subsection \<open>The state of the generator\<close>

definition types :: "fun_types \<Rightarrow> ty \<Rightarrow> var_types \<Rightarrow> 'f cg \<Rightarrow> bool" where
  "types F I G s \<longleftrightarrow>
     in_type s = I \<and> (\<forall>x t. G x = Some t \<longrightarrow> plain x \<and> (\<exists>r. locs s x = Some (r, t))) \<and>
     (\<forall>f pts t. F f = Some (pts, t) \<longrightarrow> plain f \<and>
        (\<exists>name pl rt. find_node (symt s) f = Some (NFunc name pl rt) \<and> converts pl = Done pts \<and> convert rt = Done t))"

lemma types_same:
  assumes "locs s' = locs s" and "in_type s' = in_type s" and "\<And>f. plain f \<Longrightarrow> find_node (symt s') f = find_node (symt s) f"
  shows "types F I G s' = types F I G s"
  unfolding types_def assms(1,2) using assms(3) by (metis (no_types, lifting))

lemma types_made: "made s v s' \<Longrightarrow> types F I G s' = types F I G s"
  by (rule types_same) (simp_all add: madeD)

lemma types_extends: "extends s is s' \<Longrightarrow> types F I G s' = types F I G s"
  by (rule types_same) (simp_all add: extends_sel locs_extends)

lemma types_LHS [simp]: "types F I G (s\<lparr>inLHS := b\<rparr>) = types F I G s"
  by (rule types_same) simp_all

text \<open>Variables that are declared later do not disturb.\<close>

lemma types_grows:
  assumes "types F I G s" and "grows D n c s s'" and "fresh D s"
  shows "types F I G s'"
proof -
  note g = growsD [OF assms(2)]
  have "locs s' x = Some (r, t)" if "locs s x = Some (r, t)" for x r t
  proof -
    have "x \<notin> D" using that assms(3) by (auto simp: fresh_def)
    then show ?thesis using g(6) that by simp
  qed
  then show ?thesis using assms(1) g(7,8) unfolding types_def by metis
qed

text \<open>Generators that succeed, with operands of a given type; the second one for the address.\<close>

definition typed :: "fun_types \<Rightarrow> ty \<Rightarrow> var_types \<Rightarrow> 'f gen \<Rightarrow> ty \<Rightarrow> bool" where
  "typed F I G g t \<longleftrightarrow> (\<forall>s. tidy s \<longrightarrow> types F I G s \<longrightarrow> \<not> inLHS s \<longrightarrow> (\<exists>v s'. g s = Done (v, s') \<and> typ_of v = t))"

definition ltyped :: "fun_types \<Rightarrow> ty \<Rightarrow> var_types \<Rightarrow> 'f gen \<Rightarrow> ty \<Rightarrow> bool" where
  "ltyped F I G g t \<longleftrightarrow> (\<forall>s. tidy s \<longrightarrow> types F I G s \<longrightarrow> inLHS s \<longrightarrow> (\<exists>v s'. g s = Done (v, s') \<and> typ_of v = TPtr t))"

lemma typedD: "typed F I G g t \<Longrightarrow> tidy s \<Longrightarrow> types F I G s \<Longrightarrow> \<not> inLHS s \<Longrightarrow> \<exists>v s'. g s = Done (v, s') \<and> typ_of v = t"
  by (simp add: typed_def)

lemma ltypedD: "ltyped F I G g t \<Longrightarrow> tidy s \<Longrightarrow> types F I G s \<Longrightarrow> inLHS s \<Longrightarrow> \<exists>v s'. g s = Done (v, s') \<and> typ_of v = TPtr t"
  by (simp add: ltyped_def)

text \<open>With what is known of the new state.\<close>

lemma typed_step:
  assumes "typed F I G g t" and "makes g" and "tidy s" "types F I G s" "\<not> inLHS s"
  shows "\<exists>v s'. g s = Done (v, s') \<and> typ_of v = t \<and> made s v s' \<and> tidy s' \<and> types F I G s' \<and> \<not> inLHS s'"
proof -
  obtain v s' where h: "g s = Done (v, s')" "typ_of v = t" using typedD [OF assms(1,3-5)] by blast
  have "made s v s'" by (rule makesD [OF assms(2) h(1) assms(3,5)])
  then show ?thesis using h assms types_made tidy_made madeD(10) by blast
qed

lemma ltyped_step:
  assumes "ltyped F I G g t" and "lmakes g" and "tidy s" "types F I G s" "inLHS s"
  shows "\<exists>v s'. g s = Done (v, s') \<and> typ_of v = TPtr t \<and> made s v s' \<and> tidy s' \<and> types F I G s' \<and> inLHS s'"
proof -
  obtain v s' where h: "g s = Done (v, s')" "typ_of v = TPtr t" using ltypedD [OF assms(1,3-5)] by blast
  have "made s v s'" by (rule lmakesD [OF assms(2) h(1) assms(3)])
  then show ?thesis using h assms types_made tidy_made madeD(10) by blast
qed


subsection \<open>Expressions\<close>

lemma value_at_typ: "\<exists>v s'. value_at b mk t s = (v, s') \<and> typ_of v = t"
  by (simp add: value_at_def)

lemma matchTypes_done: "conv_ok (typ_of v) t \<Longrightarrow> \<exists>w s'. matchTypes v t s = Done (w, s') \<and> typ_of w = t"
  by (auto simp: conv_ok_def matchTypes_def value_at_def elim!: is_intE)

lemma nonzero_done: "is_num (typ_of v) \<Longrightarrow> \<exists>w s'. nonzero b v s = Done (w, s') \<and> typ_of w = TInt 1"
  by (auto simp: is_num_def nonzero_def create_defs value_at_def)

lemma branch_on_done: "is_num (typ_of v) \<Longrightarrow> \<exists>s'. branch_on b v x y s = Done s'"
  using nonzero_done [of v b s] by (auto simp: branch_on_def CreateCondBr_def)

lemma match_operands_done:
  assumes "promote_ty (typ_of vl) (typ_of vr) = Some (a, b)"
  shows "\<exists>wl wr s'. match_operands vl vr s = Done ((wl, wr), s') \<and> typ_of wl = a \<and> typ_of wr = b"
  using assms by (auto simp: promote_ty_def match_operands_def matchTypes_def value_at_def split: if_splits)

lemma create_done:
  assumes "typ_of l = typ_of r"
  shows "arith_ok a (typ_of l) \<Longrightarrow> \<exists>v s'. CreateBin b a l r s = Done (v, s') \<and> typ_of v = typ_of l"
    "is_num (typ_of l) \<or> is_ptr (typ_of l) \<Longrightarrow> \<exists>v s'. CreateCmp b c l r s = Done (v, s') \<and> typ_of v = TInt 1"
  using assms by (auto simp: is_num_def create_defs value_at_def)

lemma create_bool_done:
  assumes "is_num (typ_of vl)" "is_num (typ_of vr)"
  shows "\<exists>v s'. create_or b vl vr s = Done (v, s') \<and> typ_of v = TInt 1"
    "(typ_of vl = TInt 1 \<Longrightarrow> typ_of vr = TInt 1) \<Longrightarrow> \<exists>v s'. create_and b vl vr s = Done (v, s') \<and> typ_of v = TInt 1"
proof -
  obtain w s1 where 1: "nonzero b vl s = Done (w, s1)" "typ_of w = TInt 1" using nonzero_done [OF assms(1)] by blast
  obtain u s2 where 2: "nonzero b vr s1 = Done (u, s2)" "typ_of u = TInt 1" using nonzero_done [OF assms(2)] by blast
  show "\<exists>v s'. create_or b vl vr s = Done (v, s') \<and> typ_of v = TInt 1"
    using 1 2 by (simp add: create_or_def CreateBin_def value_at_def)
  show "\<exists>v s'. create_and b vl vr s = Done (v, s') \<and> typ_of v = TInt 1" if "typ_of vl = TInt 1 \<Longrightarrow> typ_of vr = TInt 1"
    using 1 2 that by (simp add: create_and_def CreateBin_def value_at_def)
qed

lemma create_binary_done:
  assumes "op_ty op (typ_of vl) (typ_of vr) = Some t"
  shows "\<exists>v s'. create_binary op b vl vr s = Done (v, s') \<and> typ_of v = t"
proof (cases "op = BINOP_AND \<or> op = BINOP_OR")
  case True
  then show ?thesis using assms create_bool_done [of vl vr b s] by (auto simp: op_ty_def split: if_splits)
next
  case False
  then have e: "typ_of vl = typ_of vr" using assms by (auto simp: op_ty_def split: if_splits)
  note d = create_done [OF e]
  show ?thesis using False assms d(1) [of _ b s] d(2) [of b _ s] e by (cases op) (auto simp: op_ty_def is_num_def split: if_splits)
qed

lemma var_typed:
  assumes "G x = Some t" and "types F I G s" and "tidy s"
  shows "\<exists>v s'. visitExprVar x s = Done (v, s') \<and> typ_of v = (if inLHS s then TPtr t else t)"
proof -
  obtain r where x: "plain x" "locs s x = Some (r, t)" using assms(1,2) unfolding types_def by blast
  then obtain w where w: "find_value (symt s) x = Some w" "loc_of (state_ty s) w = Some (r, t)"
    by (auto simp: locs_def bind_eq_Some_conv)
  have "placed w" using assms(3) x(1) w(1) by (auto simp: tidy_def)
  then show ?thesis using w by (cases w) (auto simp: visitExprVar_def create_defs value_at_def split: if_splits)
qed

text \<open>A place, with its address or with its value.\<close>

lemma array_typed:
  assumes b: "ltyped F I G gb (TArr k t)" "lmakes gb" and i: "typed F I G gi (TInt n)" "makes gi"
    and s: "types F I G s" "tidy s"
  shows "\<exists>v s'. visitExprArray gb gi s = Done (v, s') \<and> typ_of v = (if inLHS s then TPtr t else t)"
proof -
  obtain v s1 where 1: "gb (s\<lparr>inLHS := True\<rparr>) = Done (v, s1)" "typ_of v = TPtr (TArr k t)" "tidy s1" "types F I G s1"
    using ltyped_step [OF b, of "s\<lparr>inLHS := True\<rparr>"] s by auto
  obtain w s2 where 2: "gi (s1\<lparr>inLHS := False\<rparr>) = Done (w, s2)" "typ_of w = TInt n"
    using typed_step [OF i, of "s1\<lparr>inLHS := False\<rparr>"] 1 by auto
  show ?thesis using 1 2 by (auto simp: visitExprArray_def Let_def create_defs value_at_def)
qed

lemma binary_typed:
  assumes l: "typed F I G gl a" "makes gl" and r: "typed F I G gr b" "makes gr" and t: "bin_ty op a b = Some t"
  shows "typed F I G (visitExprBinary op gl gr) t"
  unfolding typed_def
proof (intro allI impI)
  fix s :: "'a cg" assume s: "tidy s" "types F I G s" "\<not> inLHS s"
  obtain v s1 where 1: "gl s = Done (v, s1)" "typ_of v = a" "tidy s1" "types F I G s1" "\<not> inLHS s1"
    using typed_step [OF l s] by auto
  obtain w s2 where 2: "gr s1 = Done (w, s2)" "typ_of w = b" using typed_step [OF r 1(3-5)] by auto
  obtain a' b' where t': "promote_ty a b = Some (a', b')" "op_ty op a' b' = Some t"
    using t by (auto simp: bin_ty_def bind_eq_Some_conv)
  obtain v' w' s3 where 3: "match_operands v w s2 = Done ((v', w'), s3)" "typ_of v' = a'" "typ_of w' = b'"
    using match_operands_done [of v w a' b' s2] t'(1) 1(2) 2(2) by auto
  obtain u s4 where "create_binary op (currentBB s3) v' w' s3 = Done (u, s4)" "typ_of u = t"
    using create_binary_done [of op v' w' t] t'(2) 3(2,3) by blast
  then show "\<exists>v s'. visitExprBinary op gl gr s = Done (v, s') \<and> typ_of v = t" using 1 2 3 by (simp add: visitExprBinary_def)
qed

lemma assign_typed:
  assumes l: "ltyped F I G gl t" "lmakes gl" and r: "typed F I G gr u" "makes gr" and c: "conv_ok u t"
  shows "typed F I G (visitStmtAssign gl gr) t"
  unfolding typed_def
proof (intro allI impI)
  fix s :: "'a cg" assume s: "tidy s" "types F I G s" "\<not> inLHS s"
  obtain p s1 where 1: "gl (s\<lparr>inLHS := True\<rparr>) = Done (p, s1)" "typ_of p = TPtr t" "tidy s1" "types F I G s1"
    using ltyped_step [OF l, of "s\<lparr>inLHS := True\<rparr>"] s by auto
  obtain w s2 where 2: "gr (s1\<lparr>inLHS := False\<rparr>) = Done (w, s2)" "typ_of w = u"
    using typed_step [OF r, of "s1\<lparr>inLHS := False\<rparr>"] 1 by auto
  obtain x s3 where "matchTypes w t s2 = Done (x, s3)" "typ_of x = t" using matchTypes_done [of w t s2] 2(2) c by auto
  then show "\<exists>v s'. visitStmtAssign gl gr s = Done (v, s') \<and> typ_of v = t" using 1 2 by (simp add: visitStmtAssign_def CreateStore_def)
qed

lemma one_typed: "typed F I G constant_one (TInt 32)"
  by (simp add: typed_def constant_one_def)

lemma unary_typed:
  assumes g: "typed F I G g t" "makes g" and l: "is_incr op \<Longrightarrow> ltyped F I G g t \<and> lmakes g" and u: "un_ty op t = Some u"
  shows "typed F I G (visitExprUnary op g) u"
  unfolding typed_def
proof (intro allI impI)
  fix s :: "'a cg" assume s: "tidy s" "types F I G s" "\<not> inLHS s"
  obtain v s1 where 1: "g s = Done (v, s1)" "typ_of v = t" "tidy s1" "types F I G s1" "\<not> inLHS s1"
    using typed_step [OF g s] by auto
  show "\<exists>v s'. visitExprUnary op g s = Done (v, s') \<and> typ_of v = u"
  proof (cases "is_incr op")
    case True
    obtain w where w: "bin_ty (inc_op op) t (TInt 32) = Some w" "conv_ok w t" "u = t"
      using u True by (auto simp: un_ty_def split: option.splits if_splits)
    note lg = l [OF True]
    have "typed F I G (visitStmtAssign_op (inc_op op) g constant_one) t"
      unfolding visitStmtAssign_op_def
      by (rule assign_typed [OF conjunct1 [OF lg] conjunct2 [OF lg] binary_typed [OF g one_typed constant_one_made w(1)]
            visitExprBinary_made [OF g(2) constant_one_made] w(2)])
    then obtain x s2 where "visitStmtAssign_op (inc_op op) g constant_one s1 = Done (x, s2)" "typ_of x = t"
      using 1 by (auto simp: typed_def)
    then show ?thesis using True 1 w(3) by (cases op) (simp_all add: is_incr_def inc_op_def)
  next
    case False
    then show ?thesis using u 1 nonzero_done [of v "currentBB s1" s1]
      by (cases op) (auto simp: un_ty_def is_incr_def is_num_def create_defs value_at_def split: if_splits)
  qed
qed

lemma cast_typed:
  assumes g: "typed F I G g t" "makes g" and c: "convert st = Done u" "conv_ok t u"
  shows "typed F I G (visitExprTypeCast st g) u"
  unfolding typed_def
proof (intro allI impI)
  fix s :: "'a cg" assume s: "tidy s" "types F I G s" "\<not> inLHS s"
  obtain v s1 where 1: "g s = Done (v, s1)" "typ_of v = t" using typedD [OF g(1) s] by auto
  then show "\<exists>v s'. visitExprTypeCast st g s = Done (v, s') \<and> typ_of v = u"
    using c matchTypes_done [of v u s1] by (auto simp: visitExprTypeCast_def)
qed

lemma pop_typed: "I \<noteq> TVoid \<Longrightarrow> typed F I G visitExprPop I"
  by (auto simp: typed_def types_def visitExprPop_def CreateAlloca_def create_defs value_at_def Let_def)

lemma peek_typed:
  assumes g: "typed F I G g (TInt n)" "makes g" and i: "n \<le> 32" "I \<noteq> TVoid"
  shows "typed F I G (visitExprPeek g) I"
  unfolding typed_def
proof (intro allI impI)
  fix s :: "'a cg" assume s: "tidy s" "types F I G s" "\<not> inLHS s"
  have it: "in_type s = I" using s(2) by (simp add: types_def)
  obtain e s1 where a: "CreateAlloca (in_type s) s = Done (e, s1)" "typ_of e = TPtr I" using it i(2) by (simp add: CreateAlloca_def)
  note m = CreateAlloca_made [OF a(1)]
  have s1: "tidy s1" "types F I G s1" "\<not> inLHS s1" using s tidy_made [OF m] types_made [OF m] madeD(10) [OF m] by simp_all
  obtain v s2 where 1: "g s1 = Done (v, s2)" "typ_of v = TInt n" using typedD [OF g(1) s1] by auto
  then show "\<exists>v s'. visitExprPeek g s = Done (v, s') \<and> typ_of v = I"
    using a i by (auto simp: visitExprPeek_def CreatePeek_def create_defs value_at_def Let_def)
qed

lemma args_typed:
  assumes "\<And>e t. e \<in> set es \<Longrightarrow> ety F I G e = Some t \<Longrightarrow> typed F I G (gen_expr e) t \<and> makes (gen_expr e)"
    and "etys F I G es = Some ts" and "tidy s" "types F I G s" "\<not> inLHS s"
  shows "\<exists>vs s'. gen_args es s = Done (vs, s') \<and> map typ_of vs = ts"
  using assms
proof (induction es arbitrary: s ts)
  case Nil
  then show ?case by simp
next
  case (Cons e es)
  obtain t us where t: "ety F I G e = Some t" "etys F I G es = Some us" "ts = t # us"
    using Cons.prems(2) by (auto simp: bind_eq_Some_conv)
  have e: "typed F I G (gen_expr e) t" "makes (gen_expr e)" using Cons.prems(1) t(1) by simp_all
  obtain v s1 where 1: "gen_expr e s = Done (v, s1)" "typ_of v = t" "tidy s1" "types F I G s1" "\<not> inLHS s1"
    using typed_step [OF e Cons.prems(3-5)] by auto
  obtain vs s' where "gen_args es s1 = Done (vs, s')" "map typ_of vs = us"
    using Cons.IH [OF Cons.prems(1) t(2) 1(3-5)] by auto
  then show ?case using 1 t(3) by simp
qed

lemma call_typed:
  assumes "\<And>e t. e \<in> set es \<Longrightarrow> ety F I G e = Some t \<Longrightarrow> typed F I G (gen_expr e) t \<and> makes (gen_expr e)"
    and "call_ty (F f) (etys F I G es) = Some t"
  shows "typed F I G (visitExprFunCall f (gen_args es)) t"
  unfolding typed_def
proof (intro allI impI)
  fix s :: "'a cg" assume s: "tidy s" "types F I G s" "\<not> inLHS s"
  obtain pts where p: "F f = Some (pts, t)" "etys F I G es = Some pts"
    using assms(2) by (auto simp: call_ty_def split: option.splits if_splits)
  obtain name pl rt where n: "find_node (symt s) f = Some (NFunc name pl rt)" "converts pl = Done pts" "convert rt = Done t"
    using s(2) p(1) unfolding types_def by blast
  obtain vs s1 where "gen_args es s = Done (vs, s1)" "map typ_of vs = pts" using args_typed [OF assms(1) p(2) s] by auto
  then show "\<exists>v s'. visitExprFunCall f (gen_args es) s = Done (v, s') \<and> typ_of v = t"
    using n by (simp add: visitExprFunCall_def value_at_def)
qed

lemma place_typed:
  assumes "\<And>s. types F I G s \<Longrightarrow> tidy s \<Longrightarrow> \<exists>v s'. g s = Done (v, s') \<and> typ_of v = (if inLHS s then TPtr t else t)"
  shows "typed F I G g t \<and> (p \<longrightarrow> ltyped F I G g t)"
  unfolding typed_def ltyped_def by (metis assms)

lemma gen_expr_typed:
  "simple e \<Longrightarrow> ety F I G e = Some t \<Longrightarrow>
     typed F I G (gen_expr e) t \<and> (lval e \<longrightarrow> ltyped F I G (gen_expr e) t)"
proof (induction e arbitrary: t rule: simple.induct)
  case (1 x)
  then have x: "G x = Some t" by simp
  let ?g = "visitExprVar x :: 'a gen"
  have "typed F I G ?g t \<and> (True \<longrightarrow> ltyped F I G ?g t)"
    by (rule place_typed, rule var_typed [of G x t, OF x])
  then show ?case by (auto simp: typed_def ltyped_def)
next
  case (2 a i)
  obtain k n where e: "ety F I G a = Some (TArr k t)" "ety F I G i = Some (TInt n)"
    using 2(4) by (auto simp: elem_ty_def split: option.splits ty.splits)
  have s: "simple a" "lval a" "simple i" using 2(3) by simp_all
  have a: "ltyped F I G (gen_expr a) (TArr k t)" "typed F I G (gen_expr i) (TInt n)" using 2(1,2) e s by simp_all
  let ?g = "visitExprArray (gen_expr a) (gen_expr i)"
  have "typed F I G ?g t \<and> (True \<longrightarrow> ltyped F I G ?g t)"
    by (rule place_typed, rule array_typed [OF a(1) simple_lmakes [OF s(1,2)] a(2) simple_makes [OF s(3)]])
  then show ?case by (auto simp: typed_def ltyped_def)
next
  case (4 op l r)
  obtain a b where e: "ety F I G l = Some a" "ety F I G r = Some b" "bin_ty op a b = Some t"
    using 4(4) by (auto simp: bind_eq_Some_conv)
  have s: "simple l" "simple r" using 4(3) by simp_all
  have "typed F I G (visitExprBinary op (gen_expr l) (gen_expr r)) t"
    using 4(1,2) e s by (intro binary_typed [OF _ simple_makes [OF s(1)] _ simple_makes [OF s(2)] e(3)]) simp_all
  then show ?case by (auto simp: typed_def)
next
  case (5 op e)
  obtain u where e: "ety F I G e = Some u" "un_ty op u = Some t" using 5(3) by (auto simp: bind_eq_Some_conv)
  have s: "simple e" "is_incr op \<longrightarrow> lval e" using 5(2) by simp_all
  have "typed F I G (visitExprUnary op (gen_expr e)) t"
    using 5(1) [OF s(1) e(1)] s simple_lmakes [OF s(1)] by (intro unary_typed [OF _ simple_makes [OF s(1)] _ e(2)]) simp_all
  then show ?case by (auto simp: typed_def)
next
  case (7 st e)
  obtain u where e: "ety F I G e = Some u" "convert st = Done t" "conv_ok u t"
    using 7(3) by (auto simp: cast_ty_def split: option.splits outcome.splits if_splits)
  have s: "simple e" using 7(2) by simp
  have "typed F I G (visitExprTypeCast st (gen_expr e)) t" using 7(1) [OF s e(1)] by (intro cast_typed [OF _ simple_makes [OF s] e(2,3)]) simp
  then show ?case by (auto simp: typed_def)
next
  case (8 f es)
  have "typed F I G (gen_expr e) t \<and> makes (gen_expr e)" if "e \<in> set es" "ety F I G e = Some t" for e t
    using 8 that simple_makes [of e] by (auto simp: list_all_iff)
  then have "typed F I G (visitExprFunCall f (gen_args es)) t" using 8(3) by (intro call_typed) simp_all
  then show ?case by (auto simp: typed_def)
next
  case (9 e)
  obtain n where e: "ety F I G e = Some (TInt n)" "n \<le> 32" "I \<noteq> TVoid" "t = I"
    using 9(3) by (auto simp: peek_ty_def split: option.splits ty.splits if_splits)
  have s: "simple e" using 9(2) by simp
  have "typed F I G (visitExprPeek (gen_expr e)) I" using 9(1) [OF s e(1)] by (intro peek_typed [OF _ simple_makes [OF s] e(2,3)]) simp
  then show ?case using e(4) by (auto simp: typed_def)
next
  case "10_6"
  then show ?case using pop_typed [of I F G] by (auto simp: typed_def split: if_splits)
qed (auto simp: typed_def)

lemma simple_typed: "simple e \<Longrightarrow> ety F I G e = Some t \<Longrightarrow> typed F I G (gen_expr e) t"
  using gen_expr_typed by blast

lemma simple_ltyped: "simple e \<Longrightarrow> lval e \<Longrightarrow> ety F I G e = Some t \<Longrightarrow> ltyped F I G (gen_expr e) t"
  using gen_expr_typed by blast

subsection \<open>Statements\<close>

text \<open>A generator that does not fail and makes the variables of \<open>G'\<close> known; \<open>lp\<close> is whether it may forget the target of \<open>break\<close>.\<close>

definition proceeds :: "fun_types \<Rightarrow> ty \<Rightarrow> bool \<Rightarrow> bool \<Rightarrow> bool \<Rightarrow> var_types \<Rightarrow> var_types \<Rightarrow> string set \<Rightarrow> 'f gen_stmt \<Rightarrow> bool" where
  "proceeds F I b c lp G G' D g \<longleftrightarrow>
     (\<forall>s. wfc s \<longrightarrow> fresh D s \<longrightarrow> types F I G s \<longrightarrow> (b \<longrightarrow> breakBB s \<noteq> None) \<longrightarrow> (c \<longrightarrow> continueBB s \<noteq> None) \<longrightarrow>
        (\<exists>s'. g s = Done s' \<and> types F I G' s' \<and> (lp \<or> breakBB s' = breakBB s)))"

lemma proceedsI:
  assumes "\<And>s. wfc s \<Longrightarrow> fresh D s \<Longrightarrow> types F I G s \<Longrightarrow> (b \<Longrightarrow> breakBB s \<noteq> None) \<Longrightarrow> (c \<Longrightarrow> continueBB s \<noteq> None) \<Longrightarrow>
    \<exists>s'. g s = Done s' \<and> types F I G' s' \<and> (lp \<or> breakBB s' = breakBB s)"
  shows "proceeds F I b c lp G G' D g"
  using assms by (simp add: proceeds_def)

lemma proceedsD:
  assumes "proceeds F I b c lp G G' D g" and "wfc s" "fresh D s" "types F I G s" "b \<Longrightarrow> breakBB s \<noteq> None" "c \<Longrightarrow> continueBB s \<noteq> None"
  shows "\<exists>s'. g s = Done s' \<and> types F I G' s' \<and> (lp \<or> breakBB s' = breakBB s)"
  using assms by (simp add: proceeds_def)

text \<open>What was declared inside may be forgotten.\<close>

lemma types_grower:
  assumes "grower D lp g" and "g s = Done s'" "wfc s" "fresh D s" "types F I G s"
  shows "types F I G s'"
  by (rule types_grows [OF assms(5) growerD(2) [OF assms(1-4)] assms(4)])

lemma proceeds_scope: "proceeds F I b c lp G G' D g \<Longrightarrow> grower D l g \<Longrightarrow> proceeds F I b c lp G G D g"
  unfolding proceeds_def using types_grower by blast

lemma wfc_tidy: "wfc s \<Longrightarrow> tidy s \<and> \<not> inLHS s"
  by (simp add: wfc_def)

lemma typed_wf:
  assumes "typed F I G g t" and "makes g" and "wfc s" "types F I G s"
  shows "\<exists>v s'. g s = Done (v, s') \<and> typ_of v = t \<and> made s v s' \<and> wfc s' \<and> types F I G s'"
  using typed_step [OF assms(1,2) _ assms(4)] wfc_tidy [OF assms(3)] made_wf assms(3) by blast

lemma expr_proceeds:
  assumes "typed F I G g t" and "makes g"
  shows "proceeds F I b c lp G G D (\<lambda>s. bind_out (g s) (\<lambda>(_, s). Done s))"
proof (rule proceedsI)
  fix s :: "'a cg" assume "wfc s" "types F I G s"
  from typed_wf [OF assms this] obtain v s' where "g s = Done (v, s')" "made s v s'" "types F I G s'" by blast
  then show "\<exists>s'. bind_out (g s) (\<lambda>(_, s). Done s) = Done s' \<and> types F I G s' \<and> (lp \<or> breakBB s' = breakBB s)" by (simp add: madeD(6))
qed

lemma push_proceeds:
  assumes "typed F I G g t" and "makes g" and "t \<noteq> TVoid"
  shows "proceeds F I b c lp G G D (visitStmtPush g)"
proof (rule proceedsI)
  fix s :: "'a cg" assume s: "wfc s" "types F I G s"
  from typed_wf [OF assms(1,2) this] obtain v s1 where "g s = Done (v, s1)" "typ_of v = t" by blast
  then obtain s' where g: "visitStmtPush g s = Done s'" using assms(3) by (auto simp: visitStmtPush_def CreateAlloca_def CreateStore_def)
  then obtain "is" where "extends s is s'" using push_extends [OF assms(2) s(1)] by blast
  then show "\<exists>s'. visitStmtPush g s = Done s' \<and> types F I G s' \<and> (lp \<or> breakBB s' = breakBB s)"
    using g s(2) by (simp add: types_extends extends_sel(6))
qed

lemma seq_proceeds:
  assumes g: "proceeds F I b c l1 G G1 D g" "grower D l1 g" and h: "proceeds F I (b \<and> \<not> l1) (c \<and> \<not> l1) l2 G1 G' D' h"
    and d: "D \<inter> D' = {}"
  shows "proceeds F I b c (l1 \<or> l2) G G' (D \<union> D') (\<lambda>s. bind_out (g s) h)"
proof (rule proceedsI)
  fix s :: "'a cg" assume w: "wfc s" and f: "fresh (D \<union> D') s" and t: "types F I G s"
    and j: "b \<Longrightarrow> breakBB s \<noteq> None" "c \<Longrightarrow> continueBB s \<noteq> None"
  have fs: "fresh D s" "fresh D' s" by (rule fresh_sub [OF f], blast)+
  obtain s1 where 1: "g s = Done s1" "types F I G1 s1" "l1 \<or> breakBB s1 = breakBB s" using proceedsD [OF g(1) w fs(1) t j] by blast
  note a = growerD [OF g(2) 1(1) w fs(1)]
  obtain s' where "h s1 = Done s'" "types F I G' s'" "l2 \<or> breakBB s' = breakBB s1"
    using proceedsD [OF h a(1) fresh_grows [OF a(2) fs(2) d] 1(2)] j 1(3) a(4) by auto
  then show "\<exists>s'. bind_out (g s) h = Done s' \<and> types F I G' s' \<and> ((l1 \<or> l2) \<or> breakBB s' = breakBB s)" using 1 by auto
qed

lemma types_emit [simp]: "types F I G (emit k i s) = types F I G s"
  by (rule types_same) (simp_all add: locs_def fun_eq_iff)

lemma types_upd [simp]:
  "types F I G (s\<lparr>currentBB := k\<rparr>) = types F I G s" "types F I G (s\<lparr>breakBB := j\<rparr>) = types F I G s"
  "types F I G (s\<lparr>continueBB := j\<rparr>) = types F I G s" "types F I G (s\<lparr>nblk := k\<rparr>) = types F I G s"
  by (rule types_same; simp)+

lemma jump_proceeds:
  "proceeds F I True c lp G G D visitStmtBreak" "proceeds F I b True lp G G D visitStmtContinue"
  by (auto simp: proceeds_def visitStmtBreak_def visitStmtContinue_def CreateBr_def CreateBlock_def)

text \<open>Declarations.\<close>

lemma init_of_done:
  assumes "case init of None \<Rightarrow> True | Some e \<Rightarrow> simple e"
    and "case init of None \<Rightarrow> True | Some e \<Rightarrow> (case ety F I G e of Some u \<Rightarrow> conv_ok u t | None \<Rightarrow> False)"
    and "wfc s" "types F I G s" "typ_of p = TPtr t"
  shows "\<exists>s'. (case init of None \<Rightarrow> CreateStore (currentBB s) (ONull t) p s | Some e \<Rightarrow> init_var (currentBB s) p t e s) = Done s' \<and>
    init_of p t init s = Done s'"
proof (cases init)
  case None
  then show ?thesis using assms(5) by (simp add: init_of_def CreateStore_def)
next
  case (Some e)
  then have e: "simple e" using assms(1) by simp
  obtain u where u: "ety F I G e = Some u" "conv_ok u t" using assms(2) Some by (auto split: option.splits)
  obtain v s1 where 1: "gen_expr e s = Done (v, s1)" "typ_of v = u" "made s v s1"
    using typed_wf [OF simple_typed [OF e u(1)] simple_makes [OF e] assms(3,4)] by blast
  obtain w s2 where 2: "matchTypes v t s1 = Done (w, s2)" "typ_of w = t" using matchTypes_done [of v t s1] 1(2) u(2) by auto
  have "made s1 w s2" by (rule matchTypes_made [OF 2(1) madeD(11) [OF 1(3)]])
  then have "currentBB s2 = currentBB s" using madeD(1) 1(3) by metis
  then show ?thesis using Some 1 2 simple_not_init [OF e] assms(5) by (simp add: init_var_def init_of_def CreateStore_def)
qed

lemma types_declared: "types F I G s \<Longrightarrow> plain x \<Longrightarrow> locs s x = Some (r, t) \<Longrightarrow> types F I (G(x \<mapsto> t)) s"
  by (auto simp: types_def)

lemma decl_proceeds:
  assumes "list_all (\<lambda>(t, x, e). plain x \<and> (case e of None \<Rightarrow> True | Some e \<Rightarrow> simple e)) ds" and "distinct (map (\<lambda>(t, x, e). x) ds)"
    and "decls_ty F I G ds = Some G'"
    and "wfc s" and "fresh (set (map (\<lambda>(t, x, e). x) ds)) s" and "types F I G s"
  shows "\<exists>s'. visitStmtVarDecl (currentBB s) ds s = Done s' \<and> types F I G' s'"
  using assms
proof (induction ds arbitrary: s G)
  case Nil
  then show ?case by simp
next
  case (Cons d ds)
  obtain st x init where d: "d = (st, x, init)" by (cases d) auto
  have i: "case init of None \<Rightarrow> True | Some e \<Rightarrow> simple e" "plain x" using Cons.prems(1) d by simp_all
  let ?D = "set (map (\<lambda>(t, x, e). x) ds)"
  obtain t where t: "convert st = Done t" "t \<noteq> TVoid" "decls_ty F I (G(x \<mapsto> t)) ds = Some G'"
      "case init of None \<Rightarrow> True | Some e \<Rightarrow> (case ety F I G e of Some u \<Rightarrow> conv_ok u t | None \<Rightarrow> False)"
    using Cons.prems(3) d by (auto split: outcome.splits if_splits)
  obtain p s1 where a: "CreateAlloca t s = Done (p, s1)" "p = OSlot (nslot s) t" using t(2) by (simp add: CreateAlloca_def)
  note m1 = CreateAlloca_made [OF a(1)]
  have w1: "wfc s1" and t1: "types F I G s1" and c1: "currentBB s1 = currentBB s"
    using made_wf [OF m1 Cons.prems(4)] types_made [OF m1] Cons.prems(6) madeD(1) [OF m1] by simp_all
  obtain s2 where 2: "(case init of None \<Rightarrow> CreateStore (currentBB s) (ONull t) p s1 | Some e \<Rightarrow> init_var (currentBB s) p t e s1) = Done s2"
      "init_of p t init s1 = Done s2"
    using init_of_done [OF i(1) t(4) w1 t1, of p, unfolded c1] a(2) by auto
  obtain "is" where e: "extends s1 is s2" "inLHS s2 = inLHS s1" using init_of_extends [OF i(1) w1 2(2)] by blast
  let ?s = "declare_var x p s2"
  have "moves {x} 0 (currentBB s) s ?s" by (rule declare_moves [OF Cons.prems(4) i(2) a(1) e])
  then have w: "wfc ?s" and g: "grows {x} 0 (currentBB s) s ?s" by (simp_all add: moves_def)
  have c: "currentBB ?s = currentBB s" using extends_sel(1) [OF e(1)] c1 by simp
  have "table_ok (symt s2)" using extends_wf [OF e w1] by (simp add: wfc_def)
  then have l: "locs ?s x = Some (RSlot (nslot s), t)" using declare_locs [of s2 x "nslot s" t] i(2) a(2) by simp
  have "fresh {x} s" using Cons.prems(5) d by (simp add: fresh_def)
  then have ty: "types F I (G(x \<mapsto> t)) ?s" by (intro types_declared [OF types_grows [OF Cons.prems(6) g] i(2) l])
  have f: "fresh ?D ?s" using Cons.prems(2,5) d by (intro fresh_grows [OF g]) (auto simp: fresh_def)
  obtain s' where "visitStmtVarDecl (currentBB s) ds ?s = Done s'" "types F I G' s'"
    using Cons.IH [OF _ _ t(3) w f ty] Cons.prems(1,2) c by auto
  then show ?case using d t(1) a(1) 2(1) by (simp split: option.splits)
qed

lemma decls_proceeds:
  assumes "good (StmtVarDecl ds)" and "distinct (declared (StmtVarDecl ds))" and "decls_ty F I G ds = Some G'"
  shows "proceeds F I b c False G G' (set (declared (StmtVarDecl ds))) (gen_stmt (StmtVarDecl ds))"
proof (rule proceedsI)
  let ?D = "set (declared (StmtVarDecl ds))"
  fix s :: "'a cg" assume s: "wfc s" "fresh ?D s" "types F I G s"
  have g: "list_all (\<lambda>(t, x, e). plain x \<and> (case e of None \<Rightarrow> True | Some e \<Rightarrow> simple e)) ds" "distinct (map (\<lambda>(t, x, e). x) ds)"
    using assms by simp_all
  obtain s' where v: "visitStmtVarDecl (currentBB s) ds s = Done s'" "types F I G' s'" using decl_proceeds [OF g assms(3) s(1) _ s(3)] s(2) by auto
  moreover have "breakBB s' = breakBB s" using decl_grower [OF g s(1) _ v(1), of 0] s(2) by simp
  ultimately show "\<exists>s'. gen_stmt (StmtVarDecl ds) s = Done s' \<and> types F I G' s' \<and> (False \<or> breakBB s' = breakBB s)" by simp
qed

text \<open>Conditions.\<close>

definition cond_gen :: "fun_types \<Rightarrow> ty \<Rightarrow> var_types \<Rightarrow> 'f gen \<Rightarrow> bool" where
  "cond_gen F I G g \<longleftrightarrow> makes g \<and> (\<exists>t. typed F I G g t \<and> is_num t)"

lemma cond_genI: "simple e \<Longrightarrow> cond_typed F I G e \<Longrightarrow> cond_gen F I G (gen_expr e)"
  using simple_typed simple_makes by (fastforce simp: cond_gen_def cond_typed_def split: option.splits)

lemma cond_done:
  assumes "cond_gen F I G gc" and "wfc s" and "types F I G s" and "b = currentBB s"
  shows "\<exists>v s1 s'. gc s = Done (v, s1) \<and> branch_on b v x y s1 = Done s' \<and> types F I G s'"
proof -
  obtain t where g: "makes gc" "typed F I G gc t" "is_num t" using assms(1) by (auto simp: cond_gen_def)
  obtain v s1 where 1: "gc s = Done (v, s1)" "typ_of v = t" using typed_wf [OF g(2,1) assms(2,3)] by blast
  obtain s' where 2: "branch_on b v x y s1 = Done s'" using branch_on_done [of v b x y s1] 1(2) g(3) by auto
  have "types F I G s'" using cond_extends(1) [OF g(1) assms(2) 1(1) 2 assms(4)] assms(3) types_extends by blast
  then show ?thesis using 1 2 by blast
qed

lemma br_done: "CreateBr b (Some k) s = Done (emit b (IBr k) s)"
  by (simp add: CreateBr_def)

lemma moves_wf: "moves D n c s s' \<Longrightarrow> wfc s'"
  by (simp add: moves_def)

lemma fresh_moved: "moves D n c s s' \<Longrightarrow> fresh D' s \<Longrightarrow> D \<inter> D' = {} \<Longrightarrow> fresh D' s'"
  using fresh_grows by (auto simp: moves_def)

lemma moves_types: "moves D n c s s' \<Longrightarrow> fresh D s \<Longrightarrow> types F I G s \<Longrightarrow> types F I G s'"
  using types_grows by (auto simp: moves_def)

text \<open>Loops leave nothing to know but that they are compiled.\<close>

lemma loop_proceeds:
  assumes "grower D True g" and "\<And>s. wfc s \<Longrightarrow> fresh D s \<Longrightarrow> types F I G s \<Longrightarrow> (b \<Longrightarrow> breakBB s \<noteq> None) \<Longrightarrow>
    (c \<Longrightarrow> continueBB s \<noteq> None) \<Longrightarrow> \<exists>s'. g s = Done s'"
  shows "proceeds F I b c True G G D g"
proof (rule proceedsI)
  fix s :: "'a cg" assume s: "wfc s" "fresh D s" "types F I G s" "b \<Longrightarrow> breakBB s \<noteq> None" "c \<Longrightarrow> continueBB s \<noteq> None"
  obtain s' where "g s = Done s'" using assms(2) [OF s] by blast
  then show "\<exists>s'. g s = Done s' \<and> types F I G s' \<and> (True \<or> breakBB s' = breakBB s)" using types_grower [OF assms(1) _ s(1-3)] by blast
qed

lemma while_proceeds:
  assumes c: "cond_gen F I G gc" and b: "grower D lp gb" "proceeds F I True True lq G G1 D gb"
  shows "proceeds F I b' c' True G G D (visitStmtWhile gc gb)"
proof (rule loop_proceeds)
  have mc: "makes gc" using c by (simp add: cond_gen_def)
  show "grower D True (visitStmtWhile gc gb)" by (rule while_grower [OF mc b(1)])
  fix s :: "'a cg" assume w: "wfc s" and f: "fresh D s" and t: "types F I G s"
  let ?m = "\<lambda>D. moves D (nblk s) (currentBB s) s"
  have cb: "currentBB s < nblk s" using w by (simp add: wfc_def)
  have 1: "?m {} (s\<lparr>nblk := nblk s + 3\<rparr>)" using cb by (intro moves_same [OF moves_refl [OF w]]) simp_all
  obtain s2 where h2: "CreateBr (currentBB s) (Some (nblk s)) (s\<lparr>nblk := nblk s + 3\<rparr>) = Done s2" "types F I G s2" using t by (simp add: br_done)
  note 2 = moves_br [OF 1 h2(1)]
  have 3: "?m {} (s2\<lparr>currentBB := nblk s\<rparr>)" using 2(2) by (intro moves_same [OF 2(1)]) simp_all
  obtain v s3 s4 where h3: "gc (s2\<lparr>currentBB := nblk s\<rparr>) = Done (v, s3)" "branch_on (nblk s) v (nblk s + 1) (nblk s + 2) s3 = Done s4" "types F I G s4"
    using cond_done [OF c moves_wf [OF 3], of "nblk s" "nblk s + 1" "nblk s + 2"] h2(2) by auto
  note 4 = moves_cond [OF 3 mc h3(1,2)]
  let ?s4 = "s4\<lparr>breakBB := Some (nblk s + 2), continueBB := Some (nblk s), currentBB := nblk s + 1\<rparr>"
  have 5: "?m {} ?s4" using 2(2) 4(2) by (intro moves_same [OF 4(1)]) simp_all
  obtain s5 where "gb ?s4 = Done s5" using proceedsD [OF b(2) moves_wf [OF 5] fresh_moved [OF 5 f]] h3(3) by auto
  then show "\<exists>s'. visitStmtWhile gc gb s = Done s'"
    using h2(1) h3(1,2) by (simp add: visitStmtWhile_def CreateBlock_def Let_def numeral_3_eq_3 br_done)
qed

lemma do_proceeds:
  assumes c: "cond_gen F I G gc" and b: "grower D lp gb" "proceeds F I True True lq G G1 D gb"
  shows "proceeds F I b' c' True G G D (visitStmtDoWhile gb gc)"
proof (rule loop_proceeds)
  have mc: "makes gc" using c by (simp add: cond_gen_def)
  show "grower D True (visitStmtDoWhile gb gc)" by (rule do_grower [OF mc b(1)])
  fix s :: "'a cg" assume w: "wfc s" and f: "fresh D s" and t: "types F I G s"
  let ?m = "\<lambda>D. moves D (nblk s) (currentBB s) s"
  have cb: "currentBB s < nblk s" using w by (simp add: wfc_def)
  have 1: "?m {} (s\<lparr>nblk := nblk s + 3\<rparr>)" using cb by (intro moves_same [OF moves_refl [OF w]]) simp_all
  obtain s2 where h2: "CreateBr (currentBB s) (Some (nblk s)) (s\<lparr>nblk := nblk s + 3\<rparr>) = Done s2" "types F I G s2" using t by (simp add: br_done)
  note 2 = moves_br [OF 1 h2(1)]
  let ?s2 = "s2\<lparr>breakBB := Some (nblk s + 2), continueBB := Some (nblk s + 1), currentBB := nblk s\<rparr>"
  have 3: "?m {} ?s2" using 2(2) by (intro moves_same [OF 2(1)]) simp_all
  obtain s3 where h3: "gb ?s2 = Done s3" using proceedsD [OF b(2) moves_wf [OF 3] fresh_moved [OF 3 f]] h2(2) by auto
  have 4: "?m D s3" by (rule moves_gen1 [OF 3 b(1) h3 f order_refl])
  have n3: "nblk s + 3 \<le> nblk s3" using gen_blocks(1) [OF 3 b(1) h3 f] 2(2) by simp
  let ?s4 = "emit (currentBB s3) (IBr (nblk s + 1)) s3"
  note 5 = moves_br [OF 4 br_done refl, of "nblk s + 1"]
  have 6: "?m D (?s4\<lparr>breakBB := None, currentBB := nblk s + 1\<rparr>)" using n3 5(2) by (intro moves_same [OF 5(1)]) simp_all
  obtain v s5 s6 where "gc (?s4\<lparr>breakBB := None, currentBB := nblk s + 1\<rparr>) = Done (v, s5)" "branch_on (nblk s + 1) v (currentBB s3) (nblk s + 2) s5 = Done s6"
    using cond_done [OF c moves_wf [OF 6], of "nblk s + 1" "currentBB s3" "nblk s + 2"] moves_types [OF 4 f t] by auto
  then show "\<exists>s'. visitStmtDoWhile gb gc s = Done s'"
    using h2(1) h3 by (simp add: visitStmtDoWhile_def CreateBlock_def Let_def numeral_3_eq_3 br_done)
qed

lemma for_proceeds:
  assumes i: "grower Di l1 gi" "stays Di gi" "proceeds F I b' c' l1 G G' Di gi" and c: "cond_gen F I G' gc"
    and n: "grower Dn l2 gn" "proceeds F I False False l4 G' G2 Dn gn" and b: "grower D l3 gb" "proceeds F I True True l5 G' G1 D gb"
    and d: "Di \<inter> D = {}" "Di \<inter> Dn = {}" "D \<inter> Dn = {}"
  shows "proceeds F I b' c' True G G (Di \<union> D \<union> Dn) (visitStmtFor gi gc gn gb)"
proof (rule loop_proceeds)
  have mc: "makes gc" using c by (simp add: cond_gen_def)
  show "grower (Di \<union> D \<union> Dn) True (visitStmtFor gi gc gn gb)" by (rule for_grower [OF i(1,2) mc n(1) b(1) d])
  fix s :: "'a cg" assume w: "wfc s" and f: "fresh (Di \<union> D \<union> Dn) s" and t: "types F I G s"
    and j: "b' \<Longrightarrow> breakBB s \<noteq> None" "c' \<Longrightarrow> continueBB s \<noteq> None"
  let ?m = "\<lambda>D. moves D (nblk s) (currentBB s) s"
  have fs: "fresh Di s" "fresh D s" "fresh Dn s" by (rule fresh_sub [OF f], blast)+
  obtain s1 where h1: "gi s = Done s1" "types F I G' s1" using proceedsD [OF i(3) w fs(1) t j] by blast
  have cb: "currentBB s < nblk s" "currentBB s1 = currentBB s" using w staysD [OF i(2) h1(1) w fs(1)] by (simp_all add: wfc_def)
  have 0: "?m Di s1" by (rule moves_gen1 [OF moves_refl [OF w] i(1) h1(1) fs(1) order_refl])
  have n1: "nblk s \<le> nblk s1" using growsD(1) [of Di "nblk s" "currentBB s" s s1] 0 by (simp add: moves_def)
  have 1: "?m Di (s1\<lparr>nblk := nblk s1 + 4\<rparr>)" using cb n1 by (intro moves_same [OF 0]) simp_all
  obtain s2 where h2: "CreateBr (currentBB s) (Some (nblk s1)) (s1\<lparr>nblk := nblk s1 + 4\<rparr>) = Done s2" "types F I G' s2"
    using h1(2) by (simp add: br_done)
  have b1: "currentBB s = currentBB (s1\<lparr>nblk := nblk s1 + 4\<rparr>)" using cb by simp
  note 2 = moves_br [OF 1 h2(1) b1]
  have 3: "?m Di (s2\<lparr>currentBB := nblk s1\<rparr>)" using 2(2) cb n1 by (intro moves_same [OF 2(1)]) simp_all
  obtain v s3 s4 where h3: "gc (s2\<lparr>currentBB := nblk s1\<rparr>) = Done (v, s3)" "branch_on (nblk s1) v (nblk s1 + 1) (nblk s1 + 3) s3 = Done s4" "types F I G' s4"
    using cond_done [OF c moves_wf [OF 3], of "nblk s1" "nblk s1 + 1" "nblk s1 + 3"] h2(2) by auto
  note 4 = moves_cond [OF 3 mc h3(1,2)]
  let ?s4 = "s4\<lparr>breakBB := Some (nblk s1 + 3), continueBB := Some (nblk s1 + 2), currentBB := nblk s1 + 1\<rparr>"
  have n4: "nblk s4 = nblk s1 + 4" using 2(2) 4(2) by simp
  have 5: "?m Di ?s4" using n4 n1 by (intro moves_same [OF 4(1)]) simp_all
  obtain s5 where h5: "gb ?s4 = Done s5" using proceedsD [OF b(2) moves_wf [OF 5] fresh_moved [OF 5 fs(2) d(1)]] h3(3) by auto
  have t4: "types F I G' ?s4" using h3(3) by simp
  have t5: "types F I G' s5" by (rule types_grower [OF b(1) h5 moves_wf [OF 5] fresh_moved [OF 5 fs(2) d(1)] t4])
  have 6: "?m (Di \<union> D) s5" by (rule moves_gen [OF 5 b(1) h5 fs(2) d(1) order_refl])
  have n5: "nblk s1 + 4 \<le> nblk s5" using gen_blocks(1) [OF 5 b(1) h5 fs(2) d(1)] n4 by simp
  let ?s6 = "emit (currentBB s5) (IBr (nblk s1 + 2)) s5"
  note 7 = moves_br [OF 6 br_done refl, of "nblk s1 + 2"]
  have 8: "?m (Di \<union> D) (?s6\<lparr>breakBB := None, currentBB := nblk s1 + 2\<rparr>)" using n5 n1 7(2) by (intro moves_same [OF 7(1)]) simp_all
  have d8: "(Di \<union> D) \<inter> Dn = {}" using d by blast
  obtain s7 where "gn (?s6\<lparr>breakBB := None, currentBB := nblk s1 + 2\<rparr>) = Done s7"
    using proceedsD [OF n(2) moves_wf [OF 8] fresh_moved [OF 8 fs(3) d8]] t5 by auto
  then show "\<exists>s'. visitStmtFor gi gc gn gb s = Done s'"
    using h1(1) h2(1) h3(1,2) h5 by (simp add: visitStmtFor_def CreateBlock_def Let_def numeral_3_eq_3 eval_nat_numeral br_done)
qed

text \<open>Conditional statements.\<close>

lemma if_cond_done:
  assumes "cond_gen F I G gc" and "wfc s" and "types F I G s"
  shows "\<exists>v s1 c s2 s4. gc s = Done (v, s1) \<and> nonzero (currentBB s) v s1 = Done (c, s2) \<and>
    CreateCondBr (currentBB s) c (nblk s2) (y s2) (s2\<lparr>nblk := nblk s2 + 3\<rparr>) = Done s4 \<and> types F I G s4"
proof -
  obtain t where g: "makes gc" "typed F I G gc t" "is_num t" using assms(1) by (auto simp: cond_gen_def)
  obtain v s1 where 1: "gc s = Done (v, s1)" "typ_of v = t" "made s v s1" "types F I G s1" using typed_wf [OF g(2,1) assms(2,3)] by blast
  obtain c s2 where 2: "nonzero (currentBB s) v s1 = Done (c, s2)" "typ_of c = TInt 1" using nonzero_done [of v] 1(2) g(3) by blast
  have "made s1 c s2" by (rule nonzero_made [OF 2(1) madeD(1) [OF 1(3), symmetric] madeD(11) [OF 1(3)]])
  then have "types F I G s2" using types_made 1(4) by blast
  then show ?thesis using 1(1) 2 by (simp add: CreateCondBr_def)
qed

lemma if_proceeds:
  assumes c: "cond_gen F I G gc" and a: "grower Da la ga" "proceeds F I b' c' la G G1 Da ga"
    and b: "\<And>g. gb = Some g \<Longrightarrow> grower Db lb g \<and> proceeds F I (b' \<and> \<not> la) (c' \<and> \<not> la) lb G G2 Db g"
    and d: "Da \<inter> Db = {}" "gb = None \<Longrightarrow> Db = {}"
  shows "proceeds F I b' c' (la \<or> lb) G G (Da \<union> Db) (visitStmtIfThen gc ga gb)"
proof (rule proceedsI)
  have mc: "makes gc" using c by (simp add: cond_gen_def)
  fix s :: "'a cg" assume w: "wfc s" and f: "fresh (Da \<union> Db) s" and t: "types F I G s"
    and j: "b' \<Longrightarrow> breakBB s \<noteq> None" "c' \<Longrightarrow> continueBB s \<noteq> None"
  let ?m = "\<lambda>D. moves D (nblk s) (currentBB s) s"
  have fs: "fresh Da s" "fresh Db s" by (rule fresh_sub [OF f], blast)+
  obtain v s1 e s2 s4 where h: "gc s = Done (v, s1)" "nonzero (currentBB s) v s1 = Done (e, s2)"
    "CreateCondBr (currentBB s) e (nblk s2) (if gb = None then nblk s2 + 2 else nblk s2 + 1) (s2\<lparr>nblk := nblk s2 + 3\<rparr>) = Done s4" "types F I G s4"
    using if_cond_done [OF c w t, of "\<lambda>s2. if gb = None then nblk s2 + 2 else nblk s2 + 1"] by blast
  note k = if_cond [OF mc w h(1-3)]
  have cb: "currentBB s < nblk s" using w by (simp add: wfc_def)
  have 1: "?m {} (s2\<lparr>nblk := nblk s2 + 3\<rparr>)"
    using cb k(5,6) by (intro moves_same [OF moves_made [OF moves_made [OF moves_refl [OF w] k(1)] k(2)]]) simp_all
  have l4: "inLHS s4 = inLHS (s2\<lparr>nblk := nblk s2 + 3\<rparr>)" using k(4) by simp
  have 2: "?m {} (s4\<lparr>currentBB := nblk s2\<rparr>)" using k(5,9) by (intro moves_same [OF moves_extends [OF 1 k(3) l4]]) simp_all
  obtain s5 where h5: "ga (s4\<lparr>currentBB := nblk s2\<rparr>) = Done s5" "la \<or> breakBB s5 = breakBB s"
    using proceedsD [OF a(2) moves_wf [OF 2] fresh_moved [OF 2 fs(1)]] h(4) j k(7,8) by auto
  have 3: "?m Da s5" by (rule moves_gen1 [OF 2 a(1) h5(1) fs(1) order_refl])
  have x: "nblk s + 3 \<le> nblk s5" "la \<or> continueBB s5 = continueBB s"
    using gen_blocks [OF 2 a(1) h5(1) fs(1)] k(7-9) by simp_all
  have t5: "types F I G s5" by (rule moves_types [OF 3 fs(1) t])
  let ?s6 = "emit (currentBB s5) (IBr (nblk s2 + 2)) s5"
  note 4 = moves_br [OF 3 br_done refl, of "nblk s2 + 2"]
  have 5: "\<exists>s7. (case gb of None \<Rightarrow> Done ?s6
       | Some g \<Rightarrow> bind_out (g (?s6\<lparr>currentBB := nblk s2 + 1\<rparr>)) (\<lambda>s. CreateBr (currentBB s) (Some (nblk s2 + 2)) s)) = Done s7 \<and>
     types F I G s7 \<and> ((la \<or> lb) \<or> breakBB s7 = breakBB s)"
  proof (cases gb)
    case None
    then show ?thesis using h5(2) t5 by auto
  next
    case (Some g)
    note g = conjunct1 [OF b [OF Some]] conjunct2 [OF b [OF Some]]
    let ?s = "?s6\<lparr>currentBB := nblk s2 + 1\<rparr>"
    have 6: "?m Da ?s" using k(5) x(1) 4(2) by (intro moves_same [OF 4(1)]) simp_all
    have t6: "types F I G ?s" using t5 by simp
    obtain s8 where h8: "g ?s = Done s8" "lb \<or> breakBB s8 = breakBB ?s"
      using proceedsD [OF g(2) moves_wf [OF 6] fresh_moved [OF 6 fs(2) d(1)] t6] j h5(2) x(2) by auto
    have "types F I G s8" by (rule types_grower [OF g(1) h8(1) moves_wf [OF 6] fresh_moved [OF 6 fs(2) d(1)] t6])
    then show ?thesis using Some h8 h5(2) by (auto simp: br_done)
  qed
  then show "\<exists>s'. visitStmtIfThen gc ga gb s = Done s' \<and> types F I G s' \<and> ((la \<or> lb) \<or> breakBB s' = breakBB s)"
    using h(1-3) h5(1) by (cases gb) (auto simp: visitStmtIfThen_def CreateBlock_def Let_def numeral_3_eq_3 br_done)
qed

text \<open>All statements.\<close>

lemma assign_ok:
  assumes "good (StmtAssign op l r)" and "sty F I b c G (StmtAssign op l r) = Some G'"
  shows "G' = G \<and> proceeds F I b c lp G G D (gen_stmt (StmtAssign op l r))"
proof -
  have s: "simple l" "lval l" "simple r" using assms(1) by simp_all
  obtain t where l: "ety F I G l = Some t" "G' = G" using assms(2) by (cases op) (auto split: option.splits if_splits)
  note lt = simple_ltyped [OF s(1,2) l(1)] simple_lmakes [OF s(1,2)]
  show ?thesis
  proof (cases op)
    case None
    then obtain u where u: "ety F I G r = Some u" "conv_ok u t" using assms(2) l(1) by (auto split: option.splits if_splits)
    have "typed F I G (visitStmtAssign (gen_expr l) (gen_expr r)) t"
      by (rule assign_typed [OF lt simple_typed [OF s(3) u(1)] simple_makes [OF s(3)] u(2)])
    from expr_proceeds [OF this assign_makes(1) [OF s(2,1,3)]] show ?thesis using None l(2) by (simp add: proceeds_def)
  next
    case (Some o1)
    then obtain u where u: "ety F I G (ExprBinary o1 l r) = Some u" "conv_ok u t" using assms(2) l(1) by (auto split: option.splits if_splits)
    have b: "simple (ExprBinary o1 l r)" using s by simp
    have g: "gen_expr (ExprBinary o1 l r) = visitExprBinary o1 (gen_expr l) (gen_expr r)" by (simp add: fun_eq_iff)
    have "typed F I G (visitStmtAssign_op o1 (gen_expr l) (gen_expr r)) t"
      unfolding visitStmtAssign_op_def using assign_typed [OF lt simple_typed [OF b u(1)] simple_makes [OF b] u(2)] g by simp
    from expr_proceeds [OF this assign_makes(2) [OF s(2,1,3)]] show ?thesis using Some l(2) by (simp add: proceeds_def)
  qed
qed

lemma gen_stmt_proceeds:
  fixes s :: "'f stmt" and ss :: "'f stmt list"
  shows "good s \<Longrightarrow> distinct (declared s) \<Longrightarrow> sty F I b c G s = Some G' \<Longrightarrow>
     proceeds F I b c (has_loop s) G G' (set (declared s)) (gen_stmt s)"
  "goods ss \<Longrightarrow> distinct (concat (map declared ss)) \<Longrightarrow> stys F I b c G ss = Some G' \<Longrightarrow>
     proceeds F I b c (list_ex has_loop ss) G G' (set (concat (map declared ss))) (gen_stmts ss)"
proof (induction s and ss arbitrary: b c G G' and b c G G' rule: good_goods.induct)
  case 1
  then show ?case by (simp add: proceeds_def)
next
  case (2 e)
  then obtain t where t: "ety F I G e = Some t" "G' = G" "simple e" by (auto split: if_splits)
  from expr_proceeds [OF simple_typed [OF t(3,1)] simple_makes [OF t(3)]] show ?case using t(2) by (simp add: gen_stmt.simps [abs_def])
next
  case (3 op l r)
  then show ?case using assign_ok [of op l r F I b c G G'] by simp
next
  case (4 e)
  then obtain t where t: "ety F I G e = Some t" "t \<noteq> TVoid" "G' = G" "simple e" by (auto split: option.splits if_splits)
  from push_proceeds [OF simple_typed [OF t(4,1)] simple_makes [OF t(4)] t(2)] show ?case using t(3) by (simp add: gen_stmt.simps [abs_def])
next
  case (5 ds)
  then have "decls_ty F I G ds = Some G'" by simp
  from decls_proceeds [OF 5(1,2) this] show ?case by (simp only: has_loop.simps)
next
  case (6 ss)
  have s: "goods ss" "distinct (concat (map declared ss))" using 6(2,3) by simp_all
  obtain G1 where g: "stys F I b c G ss = Some G1" "G' = G" using 6(4) by (simp only: sty.simps map_option_eq_Some) blast
  have p: "proceeds F I b c (list_ex has_loop ss) G G1 (set (concat (map declared ss))) (gen_stmts ss)" by (rule 6(1) [OF s g(1)])
  have "grower (set (concat (map declared ss))) (list_ex has_loop ss) (gen_stmts ss)" using gen_stmt_shape(2) [OF s] by simp
  from proceeds_scope [OF p this] show ?case using g(2) by (simp add: gen_stmt.simps [abs_def])
next
  case (7 e x y)
  have s: "simple e" "good x" "distinct (declared x)" using 7 by simp_all
  obtain G1 where g: "cond_typed F I G e" "sty F I b c G x = Some G1" "G' = G" using 7(5) by (auto split: if_splits)
  note ce = cond_genI [OF s(1) g(1)]
  note a = conjunct1 [OF gen_stmt_shape(1) [OF s(2,3)]] 7(1) [OF s(2,3) g(2)]
  show ?case
  proof (cases y)
    case None
    then show ?thesis using if_proceeds [OF ce a, of None "{}" False] g(3) by (simp add: gen_stmt.simps [abs_def])
  next
    case (Some z)
    then have d: "good z" "distinct (declared z)" "set (declared x) \<inter> set (declared z) = {}" using 7(3,4) by simp_all
    obtain G2 where z: "sty F I (b \<and> \<not> has_loop x) (c \<and> \<not> has_loop x) G z = Some G2" using 7(5) Some by (auto split: if_splits)
    have "grower (set (declared z)) (has_loop z) (gen_stmt z)" using gen_stmt_shape(1) [OF d(1,2)] by simp
    moreover have "proceeds F I (b \<and> \<not> has_loop x) (c \<and> \<not> has_loop x) (has_loop z) G G2 (set (declared z)) (gen_stmt z)"
      by (rule 7(2) [OF Some d(1,2) z])
    ultimately show ?thesis using if_proceeds [OF ce a, of "Some (gen_stmt z)" "set (declared z)" "has_loop z"] d(3) g(3) Some
      by (simp add: gen_stmt.simps [abs_def])
  qed
next
  case (8 e body)
  have s: "simple e" "good body" "distinct (declared body)" using 8 by simp_all
  obtain G1 where g: "cond_typed F I G e" "sty F I True True G body = Some G1" "G' = G" using 8(4) by (auto split: if_splits)
  from while_proceeds [OF cond_genI [OF s(1) g(1)] conjunct1 [OF gen_stmt_shape(1) [OF s(2,3)]] 8(1) [OF s(2,3) g(2)]]
  show ?case using g(3) by (simp add: gen_stmt.simps [abs_def])
next
  case (9 body e)
  have s: "simple e" "good body" "distinct (declared body)" using 9 by simp_all
  obtain G1 where g: "cond_typed F I G e" "sty F I True True G body = Some G1" "G' = G" using 9(4) by (auto split: if_splits)
  from do_proceeds [OF cond_genI [OF s(1) g(1)] conjunct1 [OF gen_stmt_shape(1) [OF s(2,3)]] 9(1) [OF s(2,3) g(2)]]
  show ?case using g(3) by (simp add: gen_stmt.simps [abs_def])
next
  case (10 i e n body)
  have s: "simple e" "good i" "flat i" "good n" "good body" "distinct (declared i)" "distinct (declared n)" "distinct (declared body)"
    "set (declared i) \<inter> set (declared body) = {}" "set (declared i) \<inter> set (declared n) = {}" "set (declared body) \<inter> set (declared n) = {}"
    using 10(4,5) by auto
  obtain G1 G2 G3 where g: "sty F I b c G i = Some G1" "cond_typed F I G1 e" "sty F I True True G1 body = Some G2"
      "sty F I False False G1 n = Some G3" "G' = G" using 10(6) by (auto split: option.splits if_splits)
  note si = gen_stmt_shape(1) [OF s(2,6)]
  have "proceeds F I b c True G G (set (declared i) \<union> set (declared body) \<union> set (declared n))
      (visitStmtFor (gen_stmt i) (gen_expr e) (gen_stmt n) (gen_stmt body))"
    by (rule for_proceeds [OF conjunct1 [OF si] mp [OF conjunct2 [OF si] s(3)] 10(1) [OF s(2,6) g(1)] cond_genI [OF s(1) g(2)]
          conjunct1 [OF gen_stmt_shape(1) [OF s(4,7)]] 10(2) [OF s(4,7) g(4)] conjunct1 [OF gen_stmt_shape(1) [OF s(5,8)]] 10(3) [OF s(5,8) g(3)]
          s(9-11)])
  then show ?case using g(5) by (simp add: gen_stmt.simps [abs_def] Un_assoc)
next
  case (15 x xs)
  have s: "good x" "goods xs" "distinct (declared x)" "distinct (concat (map declared xs))"
    "set (declared x) \<inter> set (concat (map declared xs)) = {}" using 15(3,4) by simp_all
  obtain G1 where g: "sty F I b c G x = Some G1" "stys F I (b \<and> \<not> has_loop x) (c \<and> \<not> has_loop x) G1 xs = Some G'"
    using 15(5) by (auto simp: bind_eq_Some_conv)
  have "gen_stmts (x # xs) = (\<lambda>s. bind_out (gen_stmt x s) (gen_stmts xs))" by (simp add: fun_eq_iff)
  then show ?case
    using seq_proceeds [OF 15(1) [OF s(1,3) g(1)] conjunct1 [OF gen_stmt_shape(1) [OF s(1,3)]] 15(2) [OF s(2,4) g(2)] s(5)] by simp
next
  case 11
  then show ?case using jump_proceeds(1) by (auto simp: gen_stmt.simps [abs_def] split: if_splits)
next
  case 12
  then show ?case using jump_proceeds(2) by (auto simp: gen_stmt.simps [abs_def] split: if_splits)
qed (auto simp: proceeds_def)

subsection \<open>Samples\<close>

lemma sample_types: "types (\<lambda>_. None) (TInt 32) [''gain'' \<mapsto> TInt 32] (new_function ''work'' sample_cg)"
  by (auto simp: types_def sample_locs plain_def split: if_splits) (simp add: new_function_def sample_cg_def)

lemma sample_typed: "sty (\<lambda>_. None) (TInt 32) False False [''gain'' \<mapsto> TInt 32] sample_body \<noteq> None"
  by code_simp

text \<open>
  \<open>while (true) { while (false) ; break; }\<close>: the \<open>break\<close> comes after the inner loop, which has set its target to null.
  The rules do not allow it, and the generator stops at it.
\<close>

definition late_break :: "int stmt" where
  "late_break = StmtWhile (ExprConstBoolean True) (StmtBlock [StmtWhile (ExprConstBoolean False) StmtEmpty, StmtBreak])"

lemma late_break_not_typed: "sty F I b c G late_break = None"
  by (simp add: late_break_def cond_typed_def)

lemma late_break_fails: "visitFuncWork late_break s = Fault"
  by (simp add: late_break_def visit_defs visitStmtWhile_def value_at_def emit_def create_defs Let_def)

text \<open>
  \<open>do { if (true) ; } while (true);\<close>: the body starts in block 1, and the back edge in block 2 goes to block 6, in which it ends.
\<close>

definition late_loop :: "int stmt" where
  "late_loop = StmtDoWhile (StmtIfThen (ExprConstBoolean True) StmtEmpty None) (ExprConstBoolean True)"

lemma late_loop_back_edge: "\<exists>s'. visitFuncWork late_loop sample_cg = Done s' \<and> code s' 0 = [IBr 1] \<and> code s' 2 = [ICondBr (OInt 1 (- 1)) 6 3]"
  by (simp add: late_loop_def visit_defs visitStmtDoWhile_def new_function_def sample_cg_def value_at_def emit_def create_defs Let_def)

text \<open>
  \<open>{ int x; { boolean x; } x = 1; }\<close>: the body is typed, but a block is no scope of the symbol table, so that the assignment
  finds the boolean variable and there is no conversion to its type.
\<close>

definition shadowed_name :: "int stmt" where
  "shadowed_name = StmtBlock [StmtVarDecl [(TypePrimitive TYPE_INT, ''x'', None)],
     StmtBlock [StmtVarDecl [(TypePrimitive TYPE_BOOLEAN, ''x'', None)]], StmtAssign None (ExprVar ''x'') (ExprConstInt 1)]"

lemma shadowed_name_typed: "good shadowed_name \<and> sty F I b c G shadowed_name \<noteq> None"
  by (simp add: shadowed_name_def plain_def conv_ok_def)

lemma shadowed_name_faults: "visitFuncWork shadowed_name sample_cg = Fault"
proof -
  have p: "plain ''x''" by (simp add: plain_def)
  have t: "table_ok (add_value ''x'' w (pushScope ''work'' field_table))" for w
    using sample_ok(2) by (simp add: tbl.ok_add plain_def)
  note q = find_value_add [OF t] find_value_add [OF sample_ok(2)] sample_find
  show ?thesis
    by (simp add: visit_defs shadowed_name_def sample_cg_def new_function_def create_defs value_at_def emit_def q p Let_def)
qed

subsection \<open>The property\<close>



end
