(* ===== verification/Spec2Isabelle.thy ===== *)
theory Spec2Isabelle
  imports Split_Join Work_Props Vector_Ops Tbb_Safety Graph_Props Koro_Switch Queue_Scheds DP_Sched Merge_Sched Streamit_Graph Symbol_Table Lowering_Props OpenCL_Device FE_Typed
begin

section \<open>SKIR: a runtime system for stream programs\<close>

text \<open>
  SKIR runs programs that are graphs of kernels connected by streams.  A kernel is a function that is called again
  and again; it pops elements from its input streams, pushes elements to its output streams, and returns a
  value other than 0 when it has finished.  Programs are LLVM modules with intrinsics for all this;
  the runtime (\<open>lib/SKIR\<close>) builds the graph, chooses a scheduler for each kernel, generates code that is
  specialised to the streams of the kernel, and runs it.  A compiler for the language StreamIt
  (\<open>tools/streamit\<close>) produces such programs.

  \<^bold>\<open>The parts and how they interact.\<close>  A program calls the runtime (\<open>SKIRRuntime.cpp\<close>) to create streams and
  kernels and to call a kernel on streams.  The runtime keeps the kernels in a graph
  (\<open>SKIRRuntimeGraph.cpp\<close>), allocates the streams they share (\<open>SKIRRuntimeStream.h\<close>, \<open>SKIRRuntimeKernel.h\<close>),
  asks the analysis (\<open>SKIRKernelInfoPass.cpp\<close>) for the rates of a kernel and hands it to a scheduler.  The
  data-parallel scheduler replaces a kernel by a splitter, copies and a joiner; the merging scheduler fuses
  kernels (\<open>SKIRFusion.cpp\<close>); the queue schedulers and the work-stealing scheduler call the work functions.  A
  work function is a skeleton of \<open>inline_stream_ops.cpp\<close> around the user's code, and its stream operations
  come from the same file; when one of them cannot go on it asks the scheduler to switch to the
  kernel at the other end.  A kernel that finishes frees its ends of its streams.

  \<^bold>\<open>The theories.\<close>
  \<^item> \<open>Skir_Prelude\<close>: machine integers, the type \<open>outcome\<close> of results (a value, a kernel that has to wait, a
    failed assertion or a memory fault, a deadlock that was found), memory as bytes, arithmetic of
    rings; all components use it.
  \<^item> \<open>Stream_Types\<close>, \<open>Stream_Ops\<close>: the header \<open>skir_stream_t\<close> of \<open>SKIRStream.h\<close> and the operations of
    \<open>inline_stream_ops.cpp\<close> (\<open>inline_push_E_B\<close>, \<open>push_E_B\<close>, \<open>pop_E_B\<close>, peeks, their variants \<open>0_0\<close>,
    \<open>nocheck\<close>, \<open>p\<close>, \<open>s\<close>).  A template \<open>< ELMSZ, BUFSZ >\<close> is one definition with two parameters.
  \<^item> \<open>Stream_Fifo\<close>: the interfaces \<open>batch\<close> and \<open>fifo\<close> as locales, interpreted on these operations; a
    stream is a bounded queue, for every sequence of operations and with its refusals.  \<open>Stream_Unchecked\<close>, \<open>Array_Ops\<close>: operations that do not check
    for room, fused kernels' linear buffers and arrays as streams.  \<open>Stream_Space\<close>: waiting variants, and
    \<open>compute_niters\<close>, which computes how often a kernel may run unchecked.  \<open>Stream_Concurrent\<close>: one producer
    and one consumer, interleaved byte by byte.
  \<^item> \<open>Work_Functions\<close>, \<open>Work_Props\<close>, \<open>Split_Join\<close>: the skeletons \<open>__SKIRRT_workfn...\<close>, among them those of
    fused pairs and of the splitter and joiner of data-parallel kernels.  \<open>Vector_Ops\<close>: \<open>inline_vector_ops.c\<close>.
  \<^item> \<open>D4R_Tag\<close>, \<open>Runtime_Objects\<close>, \<open>D4R_Sched\<close>: tags of the distributed deadlock detection (\<open>deps/d4r\<close>), the
    objects of the graph and their life time, and the callback of the work-stealing scheduler that passes
    tags along.
  \<^item> \<open>Kernel_T\<close>, \<open>Tbb_Sched\<close>, \<open>Tbb_Safety\<close>: the kernel as the schedulers see it (\<open>SKIR_kernel_t.h\<close>) and the
    work-stealing scheduler (\<open>SKIRTbbSched.cpp\<close>) as a step relation of its main thread, its tasks and the
    threads that call it.  In both this and \<open>Queue_Scheds\<close>, the
    single-threaded and the coroutine scheduler, the program calls, pauses, resumes, waits, removes, starts and
    stops at any time.  \<open>Koro_Switch\<close>: the
    assembly code with which a coroutine and its scheduler switch stacks.
  \<^item> \<open>Kernel_Info\<close>, \<open>Fusion\<close>: the analysis of rates and the fusion of two kernels.
  \<^item> \<open>Lowering\<close>, \<open>Lowering_Props\<close>: the passes that turn stream intrinsics of a work function into calls of the
    operations, choose the instances for the element sizes, inline them and make coroutines
    (\<open>SKIROuterLoopPass.cpp\<close>, \<open>SKIRStreamOpts.cpp\<close>, \<open>SKIRInlineStreams.cpp\<close> and others), and what they keep.
  \<^item> \<open>OpenCL_Sched\<close>, \<open>OpenCL_Buffers\<close>, \<open>OpenCL_Host\<close>: the work function that feeds a kernel on an OpenCL device
    (\<open>SKIROpenCLSched.cpp\<close>) with its two buffers; it returns and loses nothing if the device maps windows of the
    input buffer to windows of the output buffer.  \<open>OpenCL_Code\<close>, \<open>OpenCL_Device\<close>: the code generated for the work
    items, which does this in every interleaving for kernels with one input and one output, and what a kernel with several
    inputs reads.
  \<^item> \<open>Runtime_Graph\<close>, \<open>Graph_Props\<close>: the graph, its topological order, allocation of streams and choice of the
    scheduler.  \<open>Skir_Runtime\<close>: the instructions of programs and the requests from outside.  \<open>DP_Sched\<close>,
    \<open>Merge_Sched\<close>: the data-parallel and the merging scheduler.
  \<^item> \<open>Streamit_Lib\<close>, \<open>Streamit_Graph\<close>: the library of StreamIt programs (\<open>streamit.cpp\<close>): splitters, joiners,
    files, and the work functions of pipelines and split-joins, over the interface \<open>kernel_net\<close> of the
    runtime.  \<open>Symbol_Table\<close>: the symbol table of the compiler.
  \<^item> \<open>FE_Nodes\<close>, \<open>FE_Code\<close>: the syntax tree of the compiler (\<open>FEIR.hpp\<close>) and the visitor that generates LLVM code for
    the functions of filters (\<open>FEIRToSKIR.cpp\<close>): one definition for each \<open>visit...\<close> function, over the state of the
    visitor and of the function that is built.  \<open>FE_Run\<close>: the instructions it uses, as a machine.  \<open>FE_Source\<close>: what
    expressions and statements mean, and the fragment \<open>good\<close> of bodies that are compiled as they should be.
    \<open>FE_Shape\<close>, \<open>FE_Grow\<close>: what code for expressions and for statements looks like and how the generator's state grows.
    \<open>FE_Sim\<close>, \<open>FE_Expr\<close>, \<open>FE_Stmt\<close>: the simulation, for operations, expressions and statements.  \<open>FE_Filter\<close>: work
    functions.  \<open>FE_Typed\<close>: type rules for bodies, and the proof that a body which obeys them is compiled; two bodies that are
    not compiled as they should be (\<open>late_break\<close>, \<open>late_loop\<close>).

  \<^bold>\<open>How state and code correspond.\<close>  A class is a record with the members that are used, a pointer to an object
  of the heap a handle (\<open>ptr\<close>) into a map, null is \<open>None\<close>.  A method takes the state and returns the
  new one.  A failed \<open>assert\<close>, a null pointer that is followed and an access outside a buffer are \<open>Fault\<close>.
  Unsigned members are words of their width; signed arithmetic of \<open>Fusion\<close> is on integers, and a result outside the
  type \<open>int\<close> is a \<open>Fault\<close>.  Where threads run concurrently a step is one access to
  shared memory or one stretch under a lock, and the theorems hold of every interleaving.  What the code gets from
  libraries is a parameter: the work functions, the code that passes of LLVM
  generate, the trip counts that the analyses of LLVM find, floating point.

  \<^bold>\<open>What the lemmas show.\<close>  Each theory first has the operations, then their behaviour on every branch, then
  invariants and what follows from them; the numbered properties come last and rest on the lemmas.  They say
  that streams are queues, with and without concurrency, that the number of unchecked iterations is safe,
  that what is dealt out by splitters is joined in order, that a kernel is run by one thread at a time and none
  is forgotten, that a cycle of kernels that wait for each other is found by one of them, that graphs are
  sorted, allocated and wired as they should be, and that objects are freed once.  Where the code does not do
  what it means to, a lemma shows the run in which it does not, and the property says what it excludes: a wrap-around
  in \<open>compute_niters\<close>, kernels that are resumed after their end, a coroutine that is held when its scheduler
  stops, the end of streams when a kernel is uncalled, the fragment of StreamIt that is compiled rightly.  History
  variables (\<open>ended\<close>, \<open>qended\<close>, \<open>qleft\<close>), which no step reads, are there to say this.

  \<^bold>\<open>Bounds and fuel.\<close>  Loops that wait for another kernel (\<open>Stream_Space\<close>) have fuel, and
  theorems state how much is enough.  The depth-first search of the graph, the end of a kernel, the
  search for the address that a store writes to and the chain of schedulers that serve one kernel recurse with
  fuel; the first two are shown to need no more than the number of kernels.  In the meaning of StreamIt bodies
  the rounds of each loop have fuel, and a run that uses it up is \<open>Timeout\<close>, of which nothing is claimed; the machine that runs the code
  has none, and a body that ends for some fuel has code that ends.  A lookup in the symbol table is a partial function that is
  proved to end.  Everything else is total.  Waits of the runtime for a kernel in another thread are
  steps of a relation.

  \<^bold>\<open>Not modelled.\<close>  The C back end, which prints LLVM code, the set-up of an OpenCL device and its
  failures, kernels on it that write to their state, the passes of LLVM itself, the start-up and the command line, the parser of StreamIt, which is generated,
  and the vendored \<open>tbb\<close>.  Of the StreamIt code generator, the code for pipelines, split-joins and the main
  function is left out; conditional expressions, initialisers of arrays and \<open>init\<close> functions are modelled and outside the
  fragment of the simulation.  The callback of the work-stealing scheduler that fuses running kernels, the load
  monitor, the 32-bit coroutine switch and the drawing of the graph are left out of components that are
  otherwise modelled.
\<close>

end
